(* ===== verification/Siproxy_Prelude.thy ===== *)
theory Siproxy_Prelude
  imports Main "HOL-Library.Word" "HOL-Library.Monad_Syntax" "HOL-Library.Sublist"
begin

text \<open>
  Shared vocabulary of the development: the machine types, C strings and the few functions of
  the C library that several components call (\<open>strlen\<close>, \<open>strstr\<close>, \<open>snprintf\<close>, decimal
  conversion), the convention for undefined behaviour, and the generic list lemmas.

  Conventions.
  \<^item> A C string is the \<open>char\<close> list before its terminating NUL. A memory area that holds one is
    the whole list of its characters, and \<open>c_str\<close> reads the string out of it.
  \<^item> Bytes of the TELNET stream are \<open>8 word\<close>; \<open>byte_of_char\<close> and \<open>char_of_byte\<close> are the
    casts between \<open>char\<close> and \<open>unsigned char\<close>.
  \<^item> An operation that can leave its objects' bounds, or read a NULL pointer, returns an
    \<open>option\<close>: \<open>None\<close> is undefined behaviour of the C program.
  \<^item> The outcomes of \<open>malloc\<close>, \<open>calloc\<close> and \<open>realloc\<close> are an input of the model: a list of
    booleans, one for each allocation to come; after its end every allocation succeeds.
\<close>

named_theorems frame_simps \<open>what an operation leaves unchanged\<close>
named_theorems trace_simps \<open>what an operation appends to a trace\<close>
named_theorems cstr_simps \<open>C strings and buffers\<close>

type_synonym byte = "8 word"

abbreviation NUL :: char where
  "NUL \<equiv> CHR 0x00"

definition byte_of_char :: "char \<Rightarrow> byte" where
  "byte_of_char c = of_nat (of_char c)"

definition char_of_byte :: "byte \<Rightarrow> char" where
  "char_of_byte b = char_of (unat b)"

lemma char_of_byte_of_char [simp]: "char_of_byte (byte_of_char c) = c"
proof -
  have "of_char c < (256::nat)"
    by simp
  then have "unat (byte_of_char c) = (of_char c :: nat)"
    by (simp add: byte_of_char_def unat_of_nat)
  then show ?thesis
    by (simp add: char_of_byte_def)
qed

lemma byte_of_char_of_byte [simp]: "byte_of_char (char_of_byte b) = b"
proof -
  have "unat b < 256"
    using unsigned_less [of b, where ?'a = nat] by simp
  then show ?thesis
    by (simp add: byte_of_char_def char_of_byte_def of_char_of)
qed

lemma byte_of_char_eq_iff [simp]: "byte_of_char c = byte_of_char d \<longleftrightarrow> c = d"
  by (metis char_of_byte_of_char)

section \<open>Allocation\<close>

type_synonym allocs = "bool list"

fun try_alloc :: "allocs \<Rightarrow> bool \<times> allocs" where
  "try_alloc [] = (True, [])"
| "try_alloc (b # bs) = (b, bs)"

lemma try_alloc_eq:
  "try_alloc xs = ((case xs of [] \<Rightarrow> True | b # _ \<Rightarrow> b), tl xs)"
  by (cases xs) auto

section \<open>Undefined behaviour\<close>

definition ensure :: "bool \<Rightarrow> unit option" where
  "ensure b = (if b then Some () else None)"

lemma ensure_simps [simp]:
  "ensure True = Some ()" "ensure False = None"
  "ensure b = Some u \<longleftrightarrow> b" "ensure b = None \<longleftrightarrow> \<not> b"
  by (auto simp: ensure_def)

lemma bind_ensure [simp]: "(ensure b \<bind> f) = (if b then f () else None)"
  by (simp add: ensure_def)

definition load :: "'a list \<Rightarrow> nat \<Rightarrow> 'a option" where
  "load mem i = (if i < length mem then Some (mem ! i) else None)"

definition store :: "'a list \<Rightarrow> nat \<Rightarrow> 'a \<Rightarrow> 'a list option" where
  "store mem i v = (if i < length mem then Some (mem[i := v]) else None)"

lemma load_Some [simp]: "load mem i = Some v \<longleftrightarrow> i < length mem \<and> mem ! i = v"
  by (auto simp: load_def)

lemma load_in [simp]: "i < length mem \<Longrightarrow> load mem i = Some (mem ! i)"
  by (simp add: load_def)

lemma store_in [simp]: "i < length mem \<Longrightarrow> store mem i v = Some (mem[i := v])"
  by (simp add: store_def)

lemma load_None [simp]: "load mem i = None \<longleftrightarrow> length mem \<le> i"
  by (auto simp: load_def)

lemma store_Some [simp]: "store mem i v = Some mem' \<longleftrightarrow> i < length mem \<and> mem' = mem[i := v]"
  by (auto simp: store_def)

lemma store_None [simp]: "store mem i v = None \<longleftrightarrow> length mem \<le> i"
  by (auto simp: store_def)

section \<open>Lists\<close>

lemma length_takeWhile_less: "\<exists>x \<in> set xs. \<not> P x \<Longrightarrow> length (takeWhile P xs) < length xs"
  by (induction xs) auto

lemma takeWhile_stop: "\<not> P x \<Longrightarrow> takeWhile P (xs @ x # ys) = takeWhile P xs"
  by (induction xs) auto

section \<open>C strings\<close>

definition c_str :: "char list \<Rightarrow> string" where
  "c_str mem = takeWhile (\<lambda>c. c \<noteq> NUL) mem"

lemma c_str_Nil [cstr_simps, simp]: "c_str [] = []"
  by (simp add: c_str_def)

lemma c_str_Cons [cstr_simps, simp]: "c_str (c # cs) = (if c = NUL then [] else c # c_str cs)"
  by (simp add: c_str_def)

lemma c_str_no_NUL [simp]: "NUL \<notin> set (c_str mem)"
  by (induction mem) auto

lemma c_str_id [cstr_simps]: "NUL \<notin> set s \<Longrightarrow> c_str s = s"
  by (induction s) auto

lemma c_str_append [cstr_simps]: "NUL \<notin> set s \<Longrightarrow> c_str (s @ mem) = s @ c_str mem"
  by (induction s) auto

lemma length_c_str_le: "length (c_str mem) \<le> length mem"
  by (induction mem) auto

text \<open>
  \<open>snprintf (dst, n, ...)\<close> stores at most \<open>n - 1\<close> characters of the text and a NUL, and
  nothing at all when \<open>n = 0\<close>; this is the string left in \<open>dst\<close> when \<open>n > 0\<close>.
\<close>

definition snprintf :: "nat \<Rightarrow> string \<Rightarrow> string" where
  "snprintf n s = take (n - 1) s"

lemma length_snprintf: "0 < n \<Longrightarrow> length (snprintf n s) < n"
  by (simp add: snprintf_def)

lemma snprintf_fits [cstr_simps]: "length s < n \<Longrightarrow> snprintf n s = s"
  by (simp add: snprintf_def)

text \<open>
  \<open>strstr (hay, needle)\<close> points at the first occurrence: here its offset, or \<open>None\<close> for NULL.
\<close>

fun strstr :: "string \<Rightarrow> string \<Rightarrow> nat option" where
  "strstr hay needle =
     (if prefix needle hay then Some 0
      else case hay of [] \<Rightarrow> None | _ # cs \<Rightarrow> map_option Suc (strstr cs needle))"

declare strstr.simps [simp del]

lemma strstr_Some:
  "strstr hay needle = Some i \<Longrightarrow>
     i \<le> length hay \<and> prefix needle (drop i hay) \<and> (\<forall>j<i. \<not> prefix needle (drop j hay))"
proof (induction hay needle arbitrary: i rule: strstr.induct)
  case (1 hay needle)
  show ?case
  proof (cases "prefix needle hay")
    case True
    with "1.prems" show ?thesis
      by (simp add: strstr.simps [of hay])
  next
    case False
    with "1.prems" obtain c cs j where hay: "hay = c # cs" and j: "strstr cs needle = Some j"
      and i: "i = Suc j"
      by (auto simp: strstr.simps [of hay] split: list.splits)
    from "1.IH" [OF False hay j] have "j \<le> length cs" "prefix needle (drop j cs)"
      "\<forall>k<j. \<not> prefix needle (drop k cs)"
      by auto
    with False hay i show ?thesis
      by (auto simp: less_Suc_eq_0_disj)
  qed
qed

lemma strstr_None: "strstr hay needle = None \<Longrightarrow> \<not> prefix needle (drop j hay)"
proof (induction hay needle arbitrary: j rule: strstr.induct)
  case (1 hay needle)
  then have not_here: "\<not> prefix needle hay"
    by (simp add: strstr.simps [of hay] split: if_splits)
  show ?case
  proof (cases "hay = [] \<or> j = 0")
    case True
    with not_here show ?thesis
      by auto
  next
    case False
    then obtain c cs k where hay: "hay = c # cs" and j: "j = Suc k"
      by (auto simp: neq_Nil_conv gr0_conv_Suc)
    with not_here "1.prems" have "strstr cs needle = None"
      by (simp add: strstr.simps [of "c # cs"])
    with "1.IH" [OF not_here hay] hay j show ?thesis
      by simp
  qed
qed

lemma strstr_char:
  "strstr hay [c] = (if c \<in> set hay then Some (length (takeWhile (\<lambda>x. x \<noteq> c) hay)) else None)"
  by (induction hay) (auto simp: strstr.simps [of "_ # _"] strstr.simps [of "[]"])

section \<open>Decimal conversion\<close>

fun dec_of_nat :: "nat \<Rightarrow> string" where
  "dec_of_nat n =
     (if n < 10 then [char_of (48 + n)] else dec_of_nat (n div 10) @ [char_of (48 + n mod 10)])"

declare dec_of_nat.simps [simp del]

definition dec_of_int :: "int \<Rightarrow> string" where
  "dec_of_int i = (if i < 0 then CHR ''-'' # dec_of_nat (nat (- i)) else dec_of_nat (nat i))"

end
