(* ===== verification/Match.thy ===== *)
theory Match
  imports Siproxy_Prelude
begin

text \<open>
  The regular-expression matcher of \<^verbatim>\<open>match.c\<close>: \<open>matchhere\<close>, \<open>matchstar\<close> and \<open>match\<close>
  over C strings, a reference semantics as sets of strings, and their equivalence. For a pattern
  without metacharacters (every pattern of the event tables) a match is a substring test.
\<close>

section \<open>The code\<close>

text \<open>
  \<open>regexp[0] == 0\<close> is the empty list, \<open>regexp + 2\<close> is \<open>tl re'\<close> after the two characters
  \<open>c\<close> and \<open>*\<close>.
\<close>

function matchhere :: "string \<Rightarrow> string \<Rightarrow> bool"
  and matchstar :: "char \<Rightarrow> string \<Rightarrow> string \<Rightarrow> bool" where
  "matchhere re s =
     (case re of
        [] \<Rightarrow> True
      | c # re' \<Rightarrow>
          if re' \<noteq> [] \<and> hd re' = CHR ''*'' then matchstar c (tl re') s
          else if c = CHR ''$'' \<and> re' = [] then s = []
          else (case s of
                  [] \<Rightarrow> False
                | t # ts \<Rightarrow> if c = CHR ''.'' \<or> c = t then matchhere re' ts else False))"
| "matchstar c re s =
     (if matchhere re s then True
      else (case s of
              [] \<Rightarrow> False
            | t # ts \<Rightarrow> if t = c \<or> c = CHR ''.'' then matchstar c re ts else False))"
  by pat_completeness auto
termination
  by (relation "measure (\<lambda>x. case x of
        Inl (re, s) \<Rightarrow> 2 * (length re + length s)
      | Inr (c, re, s) \<Rightarrow> Suc (2 * (length re + length s)))")
     (auto simp: neq_Nil_conv)

declare matchhere.simps [simp del] matchstar.simps [simp del]

fun match_from :: "string \<Rightarrow> string \<Rightarrow> bool" where
  "match_from re s =
     (if matchhere re s then True
      else (case s of [] \<Rightarrow> False | _ # ts \<Rightarrow> match_from re ts))"

declare match_from.simps [simp del]

definition match :: "string \<Rightarrow> string \<Rightarrow> bool" where
  "match re s =
     (if re \<noteq> [] \<and> hd re = CHR ''^'' then matchhere (tl re) s else match_from re s)"

section \<open>Reference semantics\<close>

text \<open>
  A pattern denotes a list of atoms and two anchors. Its language is a set of strings; a text
  matches when it has a factor in the language, at the start or the end where anchored.
\<close>

datatype atom = One char | Star char

definition admits :: "char \<Rightarrow> char \<Rightarrow> bool" where
  "admits c t \<longleftrightarrow> c = CHR ''.'' \<or> c = t"

fun atoms :: "string \<Rightarrow> atom list \<times> bool" where
  "atoms [] = ([], False)"
| "atoms (c # re') =
     (if re' \<noteq> [] \<and> hd re' = CHR ''*'' then (case atoms (tl re') of (as, e) \<Rightarrow> (Star c # as, e))
      else if c = CHR ''$'' \<and> re' = [] then ([], True)
      else (case atoms re' of (as, e) \<Rightarrow> (One c # as, e)))"

declare atoms.simps(2) [simp del]

fun lang :: "atom list \<Rightarrow> string set" where
  "lang [] = {[]}"
| "lang (One c # as) = {t # w | t w. admits c t \<and> w \<in> lang as}"
| "lang (Star c # as) = {u @ w | u w. list_all (admits c) u \<and> w \<in> lang as}"

definition matches_prefix :: "atom list \<Rightarrow> bool \<Rightarrow> string \<Rightarrow> bool" where
  "matches_prefix as at_end s \<longleftrightarrow>
     (\<exists>mid suf. s = mid @ suf \<and> mid \<in> lang as \<and> (at_end \<longrightarrow> suf = []))"

section \<open>Equivalence\<close>

lemma matches_prefix_Nil [simp]: "matches_prefix [] e s \<longleftrightarrow> (e \<longrightarrow> s = [])"
  by (auto simp: matches_prefix_def)

lemma matches_prefix_One:
  "matches_prefix (One c # as) e s \<longleftrightarrow>
     (\<exists>t ts. s = t # ts \<and> admits c t \<and> matches_prefix as e ts)"
  unfolding matches_prefix_def
  by (auto simp: Cons_eq_append_conv) blast+

lemma matches_prefix_Star:
  "matches_prefix (Star c # as) e s \<longleftrightarrow>
     matches_prefix as e s \<or>
     (\<exists>t ts. s = t # ts \<and> admits c t \<and> matches_prefix (Star c # as) e ts)"
proof
  assume "matches_prefix (Star c # as) e s"
  then obtain u w suf where s: "s = (u @ w) @ suf" and u: "list_all (admits c) u"
    and w: "w \<in> lang as" "e \<longrightarrow> suf = []"
    unfolding matches_prefix_def lang.simps by blast
  show "matches_prefix as e s \<or>
     (\<exists>t ts. s = t # ts \<and> admits c t \<and> matches_prefix (Star c # as) e ts)"
  proof (cases u)
    case Nil
    with s w show ?thesis
      by (auto simp: matches_prefix_def)
  next
    case (Cons t u')
    with u have "u' @ w \<in> lang (Star c # as)"
      using w(1) by auto
    with w(2) have "matches_prefix (Star c # as) e (u' @ w @ suf)"
      unfolding matches_prefix_def by (metis append.assoc)
    with Cons s u show ?thesis
      by simp
  qed
next
  assume "matches_prefix as e s \<or>
     (\<exists>t ts. s = t # ts \<and> admits c t \<and> matches_prefix (Star c # as) e ts)"
  then show "matches_prefix (Star c # as) e s"
  proof (elim disjE exE conjE)
    assume "matches_prefix as e s"
    then obtain mid suf where "s = mid @ suf" "mid \<in> lang as" "e \<longrightarrow> suf = []"
      by (auto simp: matches_prefix_def)
    moreover from this(2) have "mid \<in> lang (Star c # as)"
      by (auto intro: exI [of _ "[]"])
    ultimately show ?thesis
      by (auto simp only: matches_prefix_def)
  next
    fix t ts assume s: "s = t # ts" and t: "admits c t" and "matches_prefix (Star c # as) e ts"
    then obtain u w suf where ts: "ts = (u @ w) @ suf" and "list_all (admits c) u" "w \<in> lang as"
      and e: "e \<longrightarrow> suf = []"
      unfolding matches_prefix_def lang.simps by blast
    with t have "list_all (admits c) (t # u)"
      by simp
    with \<open>w \<in> lang as\<close> have "(t # u) @ w \<in> lang (Star c # as)"
      unfolding lang.simps by blast
    with s ts e show ?thesis
      unfolding matches_prefix_def by (intro exI [of _ "(t # u) @ w"] exI [of _ suf]) simp
  qed
qed

lemma matchhere_matchstar_sound:
  "matchhere re s \<longleftrightarrow> (case atoms re of (as, e) \<Rightarrow> matches_prefix as e s)"
  "matchstar c re s \<longleftrightarrow> (case atoms re of (as, e) \<Rightarrow> matches_prefix (Star c # as) e s)"
proof (induction re s and c re s rule: matchhere_matchstar.induct)
  case (1 re s)
  show ?case
  proof (cases re)
    case Nil
    then show ?thesis
      by (simp add: matchhere.simps)
  next
    case (Cons c re')
    consider (star) "re' \<noteq> [] \<and> hd re' = CHR ''*''"
      | (dollar) "\<not> (re' \<noteq> [] \<and> hd re' = CHR ''*'')" "c = CHR ''$'' \<and> re' = []"
      | (one) "\<not> (re' \<noteq> [] \<and> hd re' = CHR ''*'')" "\<not> (c = CHR ''$'' \<and> re' = [])"
      by blast
    then show ?thesis
    proof cases
      case star
      with Cons 1(1) [OF Cons star] show ?thesis
        by (simp add: matchhere.simps [of "c # re'" s] atoms.simps(2) split: prod.splits)
    next
      case dollar
      with Cons show ?thesis
        by (simp add: matchhere.simps [of "''$''" s] atoms.simps(2))
    next
      case one
      obtain as e where as: "atoms re' = (as, e)"
        by (cases "atoms re'")
      have step: "matchhere (c # re') s \<longleftrightarrow> (\<exists>t ts. s = t # ts \<and> admits c t \<and> matchhere re' ts)"
        using one by (subst matchhere.simps) (auto simp: admits_def split: list.splits)
      have rest: "matchhere re' ts \<longleftrightarrow> matches_prefix as e ts" if "s = t # ts" "admits c t" for t ts
        using 1(2) [OF Cons one that(1)] that(2) as by (auto simp: admits_def)
      show ?thesis
        unfolding Cons step atoms.simps(2) using one as rest by (auto simp: matches_prefix_One)
    qed
  qed
next
  case (2 c re s)
  obtain as e where [simp]: "atoms re = (as, e)"
    by (cases "atoms re")
  have step: "matchstar c re s \<longleftrightarrow> matchhere re s \<or>
      (\<exists>t ts. s = t # ts \<and> admits c t \<and> matchstar c re ts)"
    by (subst matchstar.simps) (auto simp: admits_def split: list.splits)
  have rest: "matchstar c re ts \<longleftrightarrow> matches_prefix (Star c # as) e ts"
    if "\<not> matchhere re s" "s = t # ts" "admits c t" for t ts
    using 2(2) [OF that(1,2)] that(3) by (auto simp: admits_def)
  show ?case
    unfolding step using 2(1) rest matches_prefix_Star [of c as e s] by auto
qed

lemma match_from_iff: "match_from re s \<longleftrightarrow> (\<exists>pre rest. s = pre @ rest \<and> matchhere re rest)"
proof (induction re s rule: match_from.induct)
  case (1 re s)
  then show ?case
    by (cases s) (auto simp: match_from.simps [of re] Cons_eq_append_conv)
qed

section \<open>Patterns without metacharacters\<close>

definition literal :: "string \<Rightarrow> bool" where
  "literal re \<longleftrightarrow> list_all (\<lambda>c. c \<notin> {CHR ''*'', CHR ''.'', CHR ''^'', CHR ''$''}) re"

lemma matchhere_literal: "literal re \<Longrightarrow> matchhere re s \<longleftrightarrow> prefix re s"
proof (induction re arbitrary: s)
  case Nil
  then show ?case by (simp add: matchhere.simps)
next
  case (Cons c re)
  then show ?case
    by (cases re; cases s) (auto simp: matchhere.simps [of "c # _"] literal_def)
qed

lemma match_literal_aux:
  assumes "literal re" shows "match re s \<longleftrightarrow> sublist re s"
proof -
  have "\<not> (re \<noteq> [] \<and> hd re = CHR ''^'')"
    using assms by (cases re) (auto simp: literal_def)
  then have "match re s \<longleftrightarrow> match_from re s"
    by (auto simp: match_def)
  also have "\<dots> \<longleftrightarrow> (\<exists>pre rest. s = pre @ rest \<and> prefix re rest)"
    using assms by (simp add: match_from_iff matchhere_literal)
  also have "\<dots> \<longleftrightarrow> sublist re s"
    by (auto simp: sublist_def prefix_def)
  finally show ?thesis .
qed

section \<open>Properties\<close>

text \<open>
  C21: the matcher decides the declared language: a text matches exactly when it contains a factor
  in the pattern's language, placed at the start of the text if the pattern begins with a
  circumflex and at its end if the pattern ends with a dollar sign.
\<close>

theorem match_correct:
  "match re s \<longleftrightarrow>
     (let anchored = (re \<noteq> [] \<and> hd re = CHR ''^'');
          (as, at_end) = atoms (if anchored then tl re else re)
      in \<exists>pre mid suf. s = pre @ mid @ suf \<and> mid \<in> lang as \<and>
           (anchored \<longrightarrow> pre = []) \<and> (at_end \<longrightarrow> suf = []))"
  by (auto simp: match_def Let_def match_from_iff matchhere_matchstar_sound matches_prefix_def
      split: prod.splits)

theorem match_correct_witness:
  "\<exists>pre mid suf. ''cxaab'' = pre @ mid @ suf \<and>
     mid \<in> lang [One (CHR ''x''), Star (CHR ''a''), One (CHR ''b'')]"
proof -
  have "match ''xa*b'' ''cxaab''"
    by (simp add: match_def matchhere.simps matchstar.simps match_from.simps)
  then show ?thesis
    using match_correct [of "''xa*b''" "''cxaab''"] by (simp add: atoms.simps(2))
qed

end
