(* ===== verification/MsgQueue.thy ===== *)
theory MsgQueue
  imports Siproxy_Prelude
begin

text \<open>
  The waitable message queue of \<^verbatim>\<open>queue.c\<close>: a singly linked list of \<open>msglist\<close> nodes with a
  pool of spare nodes, over an explicit heap. The heap maps addresses to nodes, so that aliasing,
  dangling pointers and leaks are visible; a dereference of an address that is not allocated is
  undefined behaviour (\<open>None\<close>). Every operation runs with the queue's mutex held from its first
  to its last access, so an operation is one atomic step of the model.

  The abstract contract is a FIFO list of messages (locale \<open>fifo_queue\<close>), and the heap model is an
  instance of it.
\<close>

section \<open>Data\<close>

record 'd msglist =
  msg_data :: "'d option"
  msg_msgtype :: int
  msg_next :: "nat option"

record 'd msg =
  data :: "'d option"
  msgtype :: int
  qlength :: int

type_synonym 'd heap = "nat \<Rightarrow> 'd msglist option"

text \<open>
  \<open>struct queue\<close>, with the heap its nodes live in, the first address \<open>malloc\<close> has not handed out,
  the outcomes of the allocations to come, and the number of broadcasts on its condition variable.
\<close>

record 'd queue =
  q_length :: int
  q_first :: "nat option"
  q_last :: "nat option"
  msgpool :: "nat option"
  msgpool_length :: int
  q_heap :: "'d heap"
  q_brk :: nat
  q_allocs :: allocs
  q_broadcasts :: nat

definition MSGPOOL_SIZE :: int where "MSGPOOL_SIZE = 256"
definition ENOMEM :: int where "ENOMEM = 12"
definition EINVAL :: int where "EINVAL = 22"
definition ETIMEDOUT :: int where "ETIMEDOUT = 110"

section \<open>Operations\<close>

definition deref :: "'d heap \<Rightarrow> nat option \<Rightarrow> 'd msglist option" where
  "deref h p = (case p of None \<Rightarrow> None | Some a \<Rightarrow> h a)"

definition get_msglist :: "'d queue \<Rightarrow> (nat option \<times> 'd queue) option" where
  "get_msglist q =
     (case msgpool q of
        Some a \<Rightarrow> do {
          tmp \<leftarrow> q_heap q a;
          Some (Some a, q\<lparr>msgpool := msg_next tmp, msgpool_length := msgpool_length q - 1\<rparr>)
        }
      | None \<Rightarrow>
          (let (ok, rest) = try_alloc (q_allocs q)
           in if ok
              then Some (Some (q_brk q),
                     q\<lparr>q_heap := (q_heap q)(q_brk q \<mapsto>
                          \<lparr>msg_data = None, msg_msgtype = 0, msg_next = None\<rparr>),
                       q_brk := Suc (q_brk q), q_allocs := rest\<rparr>)
              else Some (None, q\<lparr>q_allocs := rest\<rparr>)))"

definition release_msglist :: "'d queue \<Rightarrow> nat \<Rightarrow> 'd queue option" where
  "release_msglist q a = do {
     node \<leftarrow> q_heap q a;
     let q1 = (if msgpool_length q > q_length q div 8 + MSGPOOL_SIZE
               then q\<lparr>q_heap := (q_heap q)(a := None)\<rparr>
               else q\<lparr>q_heap := (q_heap q)(a \<mapsto>
                         node\<lparr>msg_data := None, msg_msgtype := 0, msg_next := msgpool q\<rparr>),
                      msgpool := Some a, msgpool_length := msgpool_length q + 1\<rparr>);
     if msgpool_length q1 > q_length q1 div 4 + MSGPOOL_SIZE * 10
     then do {
       tmp \<leftarrow> deref (q_heap q1) (msgpool q1);
       Some (q1\<lparr>q_heap := (q_heap q1)(the (msgpool q1) := None), msgpool := msg_next tmp,
                msgpool_length := msgpool_length q1 - 1\<rparr>)
     }
     else Some q1
   }"

text \<open>
  \<open>queue_init\<close>: \<open>memset\<close> clears the structure; the results of \<open>pthread_cond_init\<close> and
  \<open>pthread_mutex_init\<close> are inputs. The argument is \<open>None\<close> for a NULL pointer.
\<close>

definition queue_init :: "int \<Rightarrow> int \<Rightarrow> 'd queue option \<Rightarrow> int \<times> 'd queue option" where
  "queue_init cond_ret mutex_ret qp =
     (case qp of
        None \<Rightarrow> (-1, None)
      | Some q \<Rightarrow>
          let q0 = q\<lparr>q_length := 0, q_first := None, q_last := None, msgpool := None,
                     msgpool_length := 0\<rparr>
          in if cond_ret \<noteq> 0 then (cond_ret, Some q0)
             else if mutex_ret \<noteq> 0 then (mutex_ret, Some q0)
             else (0, Some q0))"

definition queue_link :: "'d queue \<Rightarrow> nat \<Rightarrow> 'd queue option" where
  "queue_link q a =
     (case q_last q of
        None \<Rightarrow> Some (q\<lparr>q_last := Some a, q_first := Some a\<rparr>)
      | Some l \<Rightarrow> do {
          ln \<leftarrow> q_heap q l;
          Some (q\<lparr>q_heap := (q_heap q)(l \<mapsto> ln\<lparr>msg_next := Some a\<rparr>), q_last := Some a\<rparr>)
        })"

definition queue_add :: "'d queue \<Rightarrow> 'd \<Rightarrow> int \<Rightarrow> (int \<times> 'd queue) option" where
  "queue_add q d ty = do {
     (newmsg, q1) \<leftarrow> get_msglist q;
     case newmsg of
       None \<Rightarrow> Some (ENOMEM, q1)
     | Some a \<Rightarrow> do {
         node \<leftarrow> q_heap q1 a;
         let q2 = q1\<lparr>q_heap := (q_heap q1)(a \<mapsto>
                        node\<lparr>msg_data := Some d, msg_msgtype := ty, msg_next := None\<rparr>)\<rparr>;
         q3 \<leftarrow> queue_link q2 a;
         let q4 = (if q_length q3 = 0 then q3\<lparr>q_broadcasts := Suc (q_broadcasts q3)\<rparr> else q3);
         Some (0, q4\<lparr>q_length := q_length q4 + 1\<rparr>)
       }
   }"

text \<open>
  The absolute deadline of a timed wait, from the time of day (seconds, microseconds) and the
  relative timeout (seconds, nanoseconds).
\<close>

definition abstimeout :: "int \<times> int \<Rightarrow> int \<times> int \<Rightarrow> int \<times> int" where
  "abstimeout now timeout =
     (let sec = fst now + fst timeout;
          nsec = snd now * 1000 + snd timeout
      in if nsec \<ge> 1000000000 then (sec + 1, nsec - 1000000000) else (sec, nsec))"

text \<open>
  Waiting. The condition-variable waits of one call return, in order, the elements of a list:
  \<open>True\<close> for \<open>ETIMEDOUT\<close> (a timed wait only), \<open>False\<close> for a wake-up that found the queue still
  empty. When the list ends the thread is still blocked.
\<close>

datatype 'a outcome = Blocked | Returned 'a

fun queue_wait :: "bool \<Rightarrow> bool list \<Rightarrow> 'd queue \<Rightarrow> int outcome" where
  "queue_wait timed waits q =
     (if q_first q \<noteq> None then Returned 0
      else case waits of
             [] \<Rightarrow> Blocked
           | expired # ws \<Rightarrow> if timed \<and> expired then Returned ETIMEDOUT else queue_wait timed ws q)"

declare queue_wait.simps [simp del]

definition queue_get ::
  "'d queue option \<Rightarrow> (int \<times> int) option \<Rightarrow> bool \<Rightarrow> int \<times> int \<Rightarrow> ((int \<times> int) option \<Rightarrow> bool list)
     \<Rightarrow> (int \<times> 'd msg option \<times> 'd queue option) outcome option" where
  "queue_get qp timeout msg_ok now waits =
     (case qp of
        None \<Rightarrow> Some (Returned (EINVAL, None, None))
      | Some q \<Rightarrow>
          if \<not> msg_ok then Some (Returned (EINVAL, None, qp))
          else let deadline = map_option (abstimeout now) timeout
               in case queue_wait (timeout \<noteq> None) (waits deadline) q of
                    Blocked \<Rightarrow> Some Blocked
                  | Returned ret \<Rightarrow>
                      if ret = ETIMEDOUT then Some (Returned (ret, None, qp))
                      else do {
                        firstrec \<leftarrow> q_first q;
                        node \<leftarrow> q_heap q firstrec;
                        let q1 = q\<lparr>q_first := msg_next node, q_length := q_length q - 1\<rparr>;
                        let q2 = (if q_first q1 = None then q1\<lparr>q_last := None, q_length := 0\<rparr>
                                  else q1);
                        let m = \<lparr>data = msg_data node, msgtype = msg_msgtype node,
                                 qlength = q_length q2\<rparr>;
                        q3 \<leftarrow> release_msglist q2 firstrec;
                        Some (Returned (0, Some m, Some q3))
                      })"

definition queue_length :: "'d queue \<Rightarrow> int" where
  "queue_length q = q_length q"

text \<open>
  \<open>queue_cleanup\<close> walks the messages and the pool, freeing each node and, if asked, its data;
  the freed data are returned in order (a NULL is skipped by \<open>free\<close>).
\<close>

partial_function (option) free_list :: "bool \<Rightarrow> 'd heap \<Rightarrow> nat option \<Rightarrow> 'd list \<Rightarrow> ('d heap \<times> 'd list) option" where
  "free_list freedata h rec freed =
     (case rec of
        None \<Rightarrow> Some (h, freed)
      | Some a \<Rightarrow>
          (case h a of
             None \<Rightarrow> None
           | Some node \<Rightarrow>
               free_list freedata (h(a := None)) (msg_next node)
                 (if freedata then freed @ (case msg_data node of None \<Rightarrow> [] | Some d \<Rightarrow> [d])
                  else freed)))"

definition queue_cleanup :: "int \<Rightarrow> bool \<Rightarrow> 'd queue option \<Rightarrow> (int \<times> 'd list \<times> 'd queue option) option" where
  "queue_cleanup destroy_ret freedata qp =
     (case qp of
        None \<Rightarrow> Some (EINVAL, [], None)
      | Some q \<Rightarrow> do {
          (h1, fr1) \<leftarrow> free_list freedata (q_heap q) (q_first q) [];
          (h2, fr2) \<leftarrow> free_list freedata h1 (msgpool q) fr1;
          Some (destroy_ret, fr2, Some (q\<lparr>q_heap := h2\<rparr>))
        })"

section \<open>Heap paths\<close>

fun path :: "'d heap \<Rightarrow> nat option \<Rightarrow> nat list \<Rightarrow> bool" where
  "path h p [] \<longleftrightarrow> p = None"
| "path h p (a # as) \<longleftrightarrow> p = Some a \<and> (\<exists>n. h a = Some n \<and> path h (msg_next n) as)"

lemma path_None [simp]: "path h None as \<longleftrightarrow> as = []"
  by (cases as) auto

lemma path_upd_other [simp]: "a \<notin> set as \<Longrightarrow> path (h(a := v)) p as \<longleftrightarrow> path h p as"
  by (induction as arbitrary: p) auto

lemma path_dom: "path h p as \<Longrightarrow> set as \<subseteq> dom h"
  by (induction as arbitrary: p) auto

lemma path_snoc:
  assumes "path h p (as @ [l])" "a \<notin> set (as @ [l])" "distinct (as @ [l])"
    "h l = Some n" "na = node\<lparr>msg_next := None\<rparr>"
  shows "path (h(a \<mapsto> na, l \<mapsto> n\<lparr>msg_next := Some a\<rparr>)) p (as @ [l, a])"
  using assms
proof (induction as arbitrary: p)
  case Nil
  then show ?case by auto
next
  case (Cons b bs)
  then obtain nb where "p = Some b" "h b = Some nb" "path h (msg_next nb) (bs @ [l])"
    by auto
  with Cons show ?case
    by auto
qed

section \<open>Invariant and abstraction\<close>

definition node_msg :: "'d heap \<Rightarrow> nat \<Rightarrow> 'd option \<times> int" where
  "node_msg h a = (case h a of None \<Rightarrow> (None, 0) | Some n \<Rightarrow> (msg_data n, msg_msgtype n))"

text \<open>
  \<open>queue_inv q as ps\<close>: the messages are the nodes \<open>as\<close> in order, the pool is \<open>ps\<close>; the two lists
  are disjoint and are all that is allocated, and no node of the pool holds on to data.
\<close>

definition queue_inv :: "'d queue \<Rightarrow> nat list \<Rightarrow> nat list \<Rightarrow> bool" where
  "queue_inv q as ps \<longleftrightarrow>
     path (q_heap q) (q_first q) as \<and> path (q_heap q) (msgpool q) ps \<and> distinct (as @ ps) \<and>
     q_last q = (if as = [] then None else Some (last as)) \<and>
     q_length q = int (length as) \<and> msgpool_length q = int (length ps) \<and>
     dom (q_heap q) = set (as @ ps) \<and> (\<forall>a \<in> set (as @ ps). a < q_brk q) \<and>
     (\<forall>a \<in> set ps. fst (node_msg (q_heap q) a) = None)"

definition wf_queue :: "'d queue \<Rightarrow> bool" where
  "wf_queue q \<longleftrightarrow> (\<exists>as ps. queue_inv q as ps)"

fun walk :: "'d heap \<Rightarrow> nat \<Rightarrow> nat option \<Rightarrow> ('d option \<times> int) list" where
  "walk h 0 p = []"
| "walk h (Suc n) p =
     (case deref h p of
        None \<Rightarrow> []
      | Some node \<Rightarrow> (msg_data node, msg_msgtype node) # walk h n (msg_next node))"

definition contents :: "'d queue \<Rightarrow> ('d option \<times> int) list" where
  "contents q = walk (q_heap q) (nat (q_length q)) (q_first q)"

lemma walk_path: "path h p as \<Longrightarrow> walk h (length as) p = map (node_msg h) as"
  by (induction as arbitrary: p) (auto simp: node_msg_def deref_def)

lemma contents_inv: "queue_inv q as ps \<Longrightarrow> contents q = map (node_msg (q_heap q)) as"
  by (simp add: contents_def queue_inv_def walk_path)

lemma path_unique: "path h p as \<Longrightarrow> path h p bs \<Longrightarrow> as = bs"
  by (induction as arbitrary: p bs) (case_tac bs; auto)+

lemma node_msg_upd [simp]:
  "node_msg (h(a := v)) b =
     (if b = a then (case v of None \<Rightarrow> (None, 0) | Some n \<Rightarrow> (msg_data n, msg_msgtype n)) else node_msg h b)"
  by (auto simp: node_msg_def)

lemma map_node_msg_upd [simp]:
  "a \<notin> set as \<Longrightarrow> map (node_msg (h(a := v))) as = map (node_msg h) as"
  by (intro map_cong refl) auto

section \<open>The node pool\<close>

lemma get_msglist_cases:
  assumes inv: "queue_inv q as ps"
  obtains (pooled) a ps' n where "ps = a # ps'" "q_heap q a = Some n"
      "get_msglist q = Some (Some a, q\<lparr>msgpool := msg_next n, msgpool_length := int (length ps')\<rparr>)"
      "path (q_heap q) (msg_next n) ps'"
    | (fresh) h' rest where "ps = []" "try_alloc (q_allocs q) = (True, rest)"
      "h' = (q_heap q)(q_brk q \<mapsto> \<lparr>msg_data = None, msg_msgtype = 0, msg_next = None\<rparr>)"
      "get_msglist q = Some (Some (q_brk q),
         q\<lparr>q_heap := h', q_brk := Suc (q_brk q), q_allocs := rest\<rparr>)"
    | (exhausted) rest where "ps = []" "try_alloc (q_allocs q) = (False, rest)"
      "get_msglist q = Some (None, q\<lparr>q_allocs := rest\<rparr>)"
proof (cases ps)
  case Nil
  with inv have pool: "msgpool q = None"
    by (simp add: queue_inv_def)
  obtain ok rest where a: "try_alloc (q_allocs q) = (ok, rest)"
    by (cases "try_alloc (q_allocs q)")
  show ?thesis
  proof (cases ok)
    case True
    with Nil a pool fresh show ?thesis
      by (simp add: get_msglist_def)
  next
    case False
    with Nil a pool exhausted show ?thesis
      by (simp add: get_msglist_def)
  qed
next
  case (Cons a ps')
  with inv obtain n where n: "msgpool q = Some a" "q_heap q a = Some n" "path (q_heap q) (msg_next n) ps'"
    by (auto simp: queue_inv_def)
  moreover from Cons inv have "msgpool_length q - 1 = int (length ps')"
    by (simp add: queue_inv_def)
  ultimately show ?thesis
    using Cons pooled by (simp add: get_msglist_def)
qed

text \<open>
  A node taken from the pool or from the allocator is not one of the messages, and with it the
  queue is well formed but for that node.
\<close>

lemma get_msglist_spec:
  assumes inv: "queue_inv q as ps" and get: "get_msglist q = Some (Some a, q1)"
  obtains n ps' where "q_heap q1 a = Some n" "a \<notin> set as" "a \<notin> set ps'" "a < q_brk q1"
    "path (q_heap q1) (q_first q1) as" "path (q_heap q1) (msgpool q1) ps'" "distinct (as @ ps')"
    "q_first q1 = q_first q" "q_last q1 = q_last q" "q_length q1 = q_length q"
    "msgpool_length q1 = int (length ps')" "dom (q_heap q1) = insert a (set (as @ ps'))"
    "\<forall>b \<in> set (as @ ps'). b < q_brk q1"
    "map (node_msg (q_heap q1)) as = map (node_msg (q_heap q)) as"
    "\<forall>b \<in> set ps'. fst (node_msg (q_heap q1) b) = None"
  using inv
proof (cases rule: get_msglist_cases)
  case (pooled b ps' n)
  with get have "a = b" and q1: "q1 = q\<lparr>msgpool := msg_next n, msgpool_length := int (length ps')\<rparr>"
    by auto
  with inv pooled show ?thesis
    by (intro that [of n ps']) (auto simp: queue_inv_def)
next
  case (fresh h' rest)
  with get have a: "a = q_brk q"
    and q1: "q1 = q\<lparr>q_heap := h', q_brk := Suc (q_brk q), q_allocs := rest\<rparr>"
    by auto
  have "q_brk q \<notin> set as"
    using inv by (force simp: queue_inv_def)
  with inv fresh a q1 show ?thesis
    by (intro that [of "\<lparr>msg_data = None, msg_msgtype = 0, msg_next = None\<rparr>" "[]"])
      (auto simp: queue_inv_def less_Suc_eq)
next
  case exhausted
  with get show ?thesis by simp
qed

lemma release_msglist_spec:
  assumes path_as: "path (q_heap q) (q_first q) as" and path_ps: "path (q_heap q) (msgpool q) ps"
    and dist: "distinct (a # as @ ps)" and node: "q_heap q a = Some n"
    and last: "q_last q = (if as = [] then None else Some (last as))"
    and len: "q_length q = int (length as)" "msgpool_length q = int (length ps)"
    and dom: "dom (q_heap q) = insert a (set (as @ ps))" and brk: "\<forall>b \<in> insert a (set (as @ ps)). b < q_brk q"
    and pool: "\<forall>b \<in> set ps. fst (node_msg (q_heap q) b) = None"
  obtains q' ps' where "release_msglist q a = Some q'" "queue_inv q' as ps'"
    "map (node_msg (q_heap q')) as = map (node_msg (q_heap q)) as"
    "length ps' \<le> Suc (length ps)"
    "int (length ps) > q_length q div 8 + MSGPOOL_SIZE \<Longrightarrow> length ps' \<le> length ps"
    "q_length q' = q_length q"
proof (cases "msgpool_length q > q_length q div 8 + MSGPOOL_SIZE")
  case True
  define q1 where "q1 = q\<lparr>q_heap := (q_heap q)(a := None)\<rparr>"
  have inv1: "queue_inv q1 as ps"
    using assms by (auto simp: queue_inv_def q1_def)
  show ?thesis
  proof (cases "msgpool_length q1 > q_length q1 div 4 + MSGPOOL_SIZE * 10")
    case drop: True
    with len have "ps \<noteq> []"
      by (auto simp: q1_def MSGPOOL_SIZE_def)
    then obtain b ps' where ps: "ps = b # ps'"
      by (cases ps) auto
    with inv1 obtain nb where nb: "msgpool q1 = Some b" "q_heap q1 b = Some nb"
      "path (q_heap q1) (msg_next nb) ps'"
      by (auto simp: queue_inv_def)
    define q2 where "q2 = q1\<lparr>q_heap := (q_heap q1)(b := None), msgpool := msg_next nb,
      msgpool_length := msgpool_length q1 - 1\<rparr>"
    have "release_msglist q a = Some q2"
      using True drop node nb by (simp add: release_msglist_def q1_def [symmetric] q2_def deref_def Let_def)
    moreover have "queue_inv q2 as ps'"
      using inv1 nb ps dist by (auto simp: queue_inv_def q2_def)
    ultimately show ?thesis
      using ps dist by (intro that [of q2 ps']) (auto simp: q2_def q1_def)
  next
    case False
    with True node have "release_msglist q a = Some q1"
      by (simp add: release_msglist_def q1_def Let_def)
    with inv1 dist show ?thesis
      by (intro that [of q1 ps]) (auto simp: q1_def)
  qed
next
  case False
  define q1 where "q1 = q\<lparr>q_heap := (q_heap q)(a \<mapsto>
      n\<lparr>msg_data := None, msg_msgtype := 0, msg_next := msgpool q\<rparr>),
      msgpool := Some a, msgpool_length := msgpool_length q + 1\<rparr>"
  have inv1: "queue_inv q1 as (a # ps)"
    using assms by (auto simp: queue_inv_def q1_def)
  have "\<not> msgpool_length q1 > q_length q1 div 4 + MSGPOOL_SIZE * 10"
    using False len by (simp add: q1_def MSGPOOL_SIZE_def)
  with False node have "release_msglist q a = Some q1"
    by (simp add: release_msglist_def q1_def Let_def)
  with inv1 dist False len show ?thesis
    by (intro that [of q1 "a # ps"]) (auto simp: q1_def)
qed

section \<open>The operations on the abstract queue\<close>

definition add_fails :: "'d queue \<Rightarrow> bool" where
  "add_fails q \<longleftrightarrow> msgpool q = None \<and> \<not> fst (try_alloc (q_allocs q))"

lemma queue_add_fails:
  assumes "queue_inv q as ps" "add_fails q"
  shows "queue_add q d ty = Some (ENOMEM, q\<lparr>q_allocs := snd (try_alloc (q_allocs q))\<rparr>)"
  using assms by (cases "try_alloc (q_allocs q)")
    (simp add: queue_add_def get_msglist_def add_fails_def)

lemma queue_link_spec:
  assumes p: "path (q_heap q) (q_first q) as" "path (q_heap q) (msgpool q) ps" and d: "distinct (a # as @ ps)"
    and node: "q_heap q a = Some n" "msg_next n = None"
    and last: "q_last q = (if as = [] then None else Some (last as))"
    and len: "q_length q = int (length as)" "msgpool_length q = int (length ps)"
    and dom: "dom (q_heap q) = insert a (set (as @ ps))" and brk: "\<forall>b \<in> insert a (set (as @ ps)). b < q_brk q"
    and pool: "\<forall>b \<in> set ps. fst (node_msg (q_heap q) b) = None"
  obtains q' where "queue_link q a = Some q'" "queue_inv (q'\<lparr>q_length := q_length q' + 1\<rparr>) (as @ [a]) ps"
    "map (node_msg (q_heap q')) (as @ [a]) = map (node_msg (q_heap q)) (as @ [a])"
proof (cases as rule: rev_cases)
  case Nil
  with assms show ?thesis
    by (intro that [of "q\<lparr>q_last := Some a, q_first := Some a\<rparr>"]) (auto simp: queue_link_def queue_inv_def)
next
  case (snoc bs l)
  with p obtain ln where ln: "q_heap q l = Some ln"
    using path_dom [of "q_heap q" "q_first q" as] by auto
  define h where "h = (q_heap q)(l \<mapsto> ln\<lparr>msg_next := Some a\<rparr>)"
  define q' where "q' = q\<lparr>q_heap := h, q_last := Some a\<rparr>"
  have "path ((q_heap q)(a \<mapsto> n, l \<mapsto> ln\<lparr>msg_next := Some a\<rparr>)) (q_first q) (bs @ [l, a])"
    using p d snoc ln node by (intro path_snoc [of _ _ _ _ _ _ _ n]) auto
  moreover have "(q_heap q)(a \<mapsto> n) = q_heap q"
    using node by auto
  ultimately have "path h (q_first q) (bs @ [l, a])"
    by (simp add: h_def)
  moreover have "path h (msgpool q) ps"
    using p d snoc by (auto simp: h_def)
  moreover have "dom h = dom (q_heap q)"
    using ln by (auto simp: h_def)
  moreover have same: "node_msg h x = node_msg (q_heap q) x" for x
    using ln by (auto simp: h_def node_msg_def)
  ultimately have inv: "queue_inv (q'\<lparr>q_length := q_length q' + 1\<rparr>) (as @ [a]) ps"
    using d snoc len dom brk pool by (auto simp: queue_inv_def q'_def)
  from same have "map (node_msg (q_heap q')) (as @ [a]) = map (node_msg (q_heap q)) (as @ [a])"
    by (simp add: q'_def)
  moreover have "queue_link q a = Some q'"
    using last snoc ln by (simp add: queue_link_def q'_def h_def)
  ultimately show ?thesis
    using that inv by blast
qed

lemma queue_add_succeeds:
  assumes inv: "queue_inv q as ps" and ok: "\<not> add_fails q"
  obtains q' as' ps' where "queue_add q d ty = Some (0, q')" "queue_inv q' as' ps'"
    "contents q' = contents q @ [(Some d, ty)]" "length ps' \<le> length ps"
proof -
  obtain a q1 where get: "get_msglist q = Some (Some a, q1)" and shorter: "msgpool_length q1 \<le> msgpool_length q"
    using inv
  proof (cases rule: get_msglist_cases)
    case exhausted
    with inv ok show ?thesis
      by (auto simp: queue_inv_def add_fails_def)
  qed (use inv that in \<open>auto simp: queue_inv_def\<close>)
  from inv get obtain n ps' where s: "q_heap q1 a = Some n" "a \<notin> set as" "a \<notin> set ps'" "a < q_brk q1"
    "path (q_heap q1) (q_first q1) as" "path (q_heap q1) (msgpool q1) ps'" "distinct (as @ ps')"
    "q_first q1 = q_first q" "q_last q1 = q_last q" "q_length q1 = q_length q"
    "msgpool_length q1 = int (length ps')" "dom (q_heap q1) = insert a (set (as @ ps'))"
    "\<forall>b \<in> set (as @ ps'). b < q_brk q1"
    "map (node_msg (q_heap q1)) as = map (node_msg (q_heap q)) as"
    "\<forall>b \<in> set ps'. fst (node_msg (q_heap q1) b) = None"
    by (rule get_msglist_spec)
  have psl: "length ps' \<le> length ps"
    using shorter s(11) inv by (simp add: queue_inv_def)
  define node where "node = n\<lparr>msg_data := Some d, msg_msgtype := ty, msg_next := None\<rparr>"
  define q2 where "q2 = q1\<lparr>q_heap := (q_heap q1)(a \<mapsto> node)\<rparr>"
  obtain q3 where q3: "queue_link q2 a = Some q3" "queue_inv (q3\<lparr>q_length := q_length q3 + 1\<rparr>) (as @ [a]) ps'"
    "map (node_msg (q_heap q3)) (as @ [a]) = map (node_msg (q_heap q2)) (as @ [a])"
    by (rule queue_link_spec [of q2 as ps' a node]) (use s inv in \<open>auto simp: q2_def node_def queue_inv_def\<close>)
  define q' where
    "q' = (if q_length q3 = 0 then q3\<lparr>q_broadcasts := Suc (q_broadcasts q3)\<rparr> else q3)\<lparr>q_length := q_length q3 + 1\<rparr>"
  have "queue_add q d ty = Some (0, q')"
    using get s(1) q3(1) by (auto simp: queue_add_def q2_def node_def q'_def Let_def)
  moreover have inv': "queue_inv q' (as @ [a]) ps'"
    using q3(2) by (auto simp: queue_inv_def q'_def)
  moreover have "contents q' = contents q @ [(Some d, ty)]"
    unfolding contents_inv [OF inv'] contents_inv [OF inv]
    using q3(3) s(2,14) by (simp add: q'_def q2_def node_def)
  ultimately show ?thesis
    using that psl by blast
qed

text \<open>\<open>queue_get (&queue, NULL, &msg)\<close>, the call of the event thread: no timeout, a message to fill.\<close>

definition queue_pop :: "'d queue \<Rightarrow> (('d option \<times> int) \<times> 'd queue) outcome option" where
  "queue_pop q =
     (case queue_get (Some q) None True (0, 0) (\<lambda>_. []) of
        Some (Returned (_, Some m, Some q')) \<Rightarrow> Some (Returned ((data m, msgtype m), q'))
      | Some Blocked \<Rightarrow> Some Blocked
      | _ \<Rightarrow> None)"

lemma queue_get_empty:
  assumes "queue_inv q [] ps"
  shows "queue_get (Some q) timeout True now waits =
    (if timeout \<noteq> None \<and> True \<in> set (waits (map_option (abstimeout now) timeout))
     then Some (Returned (ETIMEDOUT, None, Some q)) else Some Blocked)"
proof -
  have "queue_wait timed ws q = (if timed \<and> True \<in> set ws then Returned ETIMEDOUT else Blocked)" for timed ws
    using assms by (induction ws) (auto simp: queue_wait.simps [of _ "_ # _"] queue_wait.simps [of _ "[]"] queue_inv_def)
  then show ?thesis
    by (auto simp: queue_get_def Let_def)
qed

lemma queue_get_nonempty:
  assumes inv: "queue_inv q (a # as) ps"
  obtains q' ps' where
    "queue_get (Some q) timeout True now waits =
       Some (Returned (0, Some \<lparr>data = fst (node_msg (q_heap q) a), msgtype = snd (node_msg (q_heap q) a),
          qlength = int (length as)\<rparr>, Some q'))"
    "queue_inv q' as ps'" "contents q' = map (node_msg (q_heap q)) as"
    "length ps' \<le> Suc (length ps)"
    "length ps > length as div 8 + 256 \<Longrightarrow> length ps' \<le> length ps"
proof -
  from inv obtain n where first: "q_first q = Some a" and node: "q_heap q a = Some n"
    and p: "path (q_heap q) (msg_next n) as"
    by (auto simp: queue_inv_def)
  define q1 where "q1 = q\<lparr>q_first := msg_next n, q_length := q_length q - 1\<rparr>"
  define q2 where "q2 = (if q_first q1 = None then q1\<lparr>q_last := None, q_length := 0\<rparr> else q1)"
  have len2: "q_length q2 = int (length as)"
    using inv p by (cases as) (auto simp: q2_def q1_def queue_inv_def)
  have "q_last q2 = (if as = [] then None else Some (last as))"
    using inv p by (cases as) (auto simp: q2_def q1_def queue_inv_def)
  moreover have "q_heap q2 = q_heap q" "q_first q2 = msg_next n" "msgpool q2 = msgpool q"
    "msgpool_length q2 = msgpool_length q" "q_brk q2 = q_brk q"
    by (auto simp: q2_def q1_def)
  note q2_simps = calculation this
  obtain q' ps' where rel: "release_msglist q2 a = Some q'" "queue_inv q' as ps'"
    "map (node_msg (q_heap q')) as = map (node_msg (q_heap q)) as" "length ps' \<le> Suc (length ps)"
    "int (length ps) > q_length q2 div 8 + MSGPOOL_SIZE \<Longrightarrow> length ps' \<le> length ps"
    by (rule release_msglist_spec [of q2 as ps a n]) (use inv node p len2 q2_simps in \<open>auto simp: queue_inv_def\<close>)
  have "queue_wait timed ws q = Returned 0" for timed ws
    by (subst queue_wait.simps) (simp add: first)
  then have "queue_get (Some q) timeout True now waits =
      Some (Returned (0, Some \<lparr>data = msg_data n, msgtype = msg_msgtype n, qlength = q_length q2\<rparr>, Some q'))"
    using first node rel(1) by (cases "msg_next n") (simp_all add: queue_get_def ETIMEDOUT_def q1_def q2_def)
  moreover have "length ps > length as div 8 + 256 \<Longrightarrow> length ps' \<le> length ps"
    using rel(5) len2 by (simp add: MSGPOOL_SIZE_def)
  ultimately show ?thesis
    using that rel contents_inv [OF rel(2)] node len2 by (simp add: node_msg_def)
qed

lemma queue_inv_unique: "queue_inv q as ps \<Longrightarrow> queue_inv q bs qs \<Longrightarrow> as = bs \<and> ps = qs"
  by (auto simp: queue_inv_def dest: path_unique)

lemma queue_length_contents: "wf_queue q \<Longrightarrow> queue_length q = int (length (contents q))"
  by (auto simp: wf_queue_def queue_length_def contents_inv) (simp add: queue_inv_def)

lemma queue_pop_spec:
  assumes "wf_queue q"
  shows "case contents q of
      [] \<Rightarrow> queue_pop q = Some Blocked
    | m # ms \<Rightarrow> \<exists>q'. queue_pop q = Some (Returned (m, q')) \<and> wf_queue q' \<and> contents q' = ms"
proof -
  from assms obtain as ps where inv: "queue_inv q as ps"
    by (auto simp: wf_queue_def)
  show ?thesis
  proof (cases as)
    case Nil
    with inv show ?thesis
      using queue_get_empty [of q ps None "(0, 0)" "\<lambda>_. []"] by (simp add: contents_inv queue_pop_def)
  next
    case (Cons a as')
    with inv obtain q' ps' where
      "queue_get (Some q) None True (0, 0) (\<lambda>_. []) =
       Some (Returned (0, Some \<lparr>data = fst (node_msg (q_heap q) a), msgtype = snd (node_msg (q_heap q) a),
          qlength = int (length as')\<rparr>, Some q'))"
      "queue_inv q' as' ps'" "contents q' = map (node_msg (q_heap q)) as'"
      by (metis queue_get_nonempty)
    with Cons inv show ?thesis
      by (auto simp: contents_inv queue_pop_def wf_queue_def)
  qed
qed

section \<open>The FIFO contract\<close>

datatype 'd qop = QAdd 'd int | QGet

datatype 'd qres = RAdd int | RGet "'d option \<times> int" | RBlocked

fun accepted :: "'d qop list \<Rightarrow> 'd qres list \<Rightarrow> ('d option \<times> int) list" where
  "accepted (QAdd d ty # ops) (RAdd r # rs) = (if r = 0 then [(Some d, ty)] else []) @ accepted ops rs"
| "accepted (_ # ops) (_ # rs) = accepted ops rs"
| "accepted _ _ = []"

fun delivered :: "'d qres list \<Rightarrow> ('d option \<times> int) list" where
  "delivered [] = []"
| "delivered (RGet m # rs) = m # delivered rs"
| "delivered (_ # rs) = delivered rs"

text \<open>
  What a client of the queue relies on: an accepted message goes to the back, a refused one
  changes nothing, a get takes the front and blocks exactly when there is none, and the length is
  the number of messages.
\<close>

locale fifo_queue =
  fixes add :: "'q \<Rightarrow> 'd \<Rightarrow> int \<Rightarrow> (int \<times> 'q) option"
    and pop :: "'q \<Rightarrow> (('d option \<times> int) \<times> 'q) outcome option"
    and len :: "'q \<Rightarrow> int"
    and invar :: "'q \<Rightarrow> bool"
    and model :: "'q \<Rightarrow> ('d option \<times> int) list"
  assumes add_law: "invar q \<Longrightarrow> \<exists>r q'. add q d ty = Some (r, q') \<and> invar q' \<and>
      model q' = (if r = 0 then model q @ [(Some d, ty)] else model q)"
    and pop_law: "invar q \<Longrightarrow> (case model q of
        [] \<Rightarrow> pop q = Some Blocked
      | m # ms \<Rightarrow> \<exists>q'. pop q = Some (Returned (m, q')) \<and> invar q' \<and> model q' = ms)"
    and len_law: "invar q \<Longrightarrow> len q = int (length (model q))"
begin

fun run :: "'q \<Rightarrow> 'd qop list \<Rightarrow> ('d qres list \<times> 'q) option" where
  "run q [] = Some ([], q)"
| "run q (QAdd d ty # ops) = do {
     (r, q1) \<leftarrow> add q d ty;
     (rs, q') \<leftarrow> run q1 ops;
     Some (RAdd r # rs, q')
   }"
| "run q (QGet # ops) = do {
     res \<leftarrow> pop q;
     case res of
       Blocked \<Rightarrow> do { (rs, q') \<leftarrow> run q ops; Some (RBlocked # rs, q') }
     | Returned (m, q1) \<Rightarrow> do { (rs, q') \<leftarrow> run q1 ops; Some (RGet m # rs, q') }
   }"

lemma run_fifo:
  "invar q \<Longrightarrow> \<exists>rs q'. run q ops = Some (rs, q') \<and> invar q' \<and>
     delivered rs @ model q' = model q @ accepted ops rs"
proof (induction q ops rule: run.induct)
  case (1 q)
  then show ?case by simp
next
  case (2 q d ty ops)
  from add_law [OF 2(2), of d ty] obtain r q1 where q1: "add q d ty = Some (r, q1)" "invar q1"
    "model q1 = (if r = 0 then model q @ [(Some d, ty)] else model q)"
    by blast
  from 2(1) [OF q1(1) refl q1(2)] obtain rs q' where "run q1 ops = Some (rs, q')" "invar q'"
    "delivered rs @ model q' = model q1 @ accepted ops rs"
    by blast
  with q1 show ?case by simp
next
  case (3 q ops)
  show ?case
  proof (cases "model q")
    case Nil
    with pop_law [OF 3(3)] have p: "pop q = Some Blocked"
      by simp
    from 3(1) [OF p refl 3(3)] p show ?thesis
      by auto
  next
    case (Cons m ms)
    with pop_law [OF 3(3)] obtain q1 where p: "pop q = Some (Returned (m, q1))" "invar q1" "model q1 = ms"
      by auto
    from 3(2) [OF p(1) refl refl p(2)] p Cons show ?thesis
      by auto
  qed
qed

lemma nonempty_pops: "invar q \<Longrightarrow> len q > 0 \<Longrightarrow>
    \<exists>m q'. pop q = Some (Returned (m, q')) \<and> invar q' \<and> model q = m # model q'"
  using pop_law [of q] len_law [of q] by (cases "model q") auto

end

interpretation eq: fifo_queue queue_add queue_pop queue_length wf_queue contents
proof
  fix q :: "'d queue" and d :: 'd and ty :: int
  assume "wf_queue q"
  then obtain as ps where inv: "queue_inv q as ps"
    by (auto simp: wf_queue_def)
  show "\<exists>r q'. queue_add q d ty = Some (r, q') \<and> wf_queue q' \<and>
      contents q' = (if r = 0 then contents q @ [(Some d, ty)] else contents q)"
  proof (cases "add_fails q")
    case True
    moreover have "wf_queue (q\<lparr>q_allocs := xs\<rparr>)" for xs
      using inv by (auto simp: wf_queue_def queue_inv_def)
    ultimately show ?thesis
      using queue_add_fails [OF inv True] by (simp add: ENOMEM_def contents_def)
  next
    case False
    with inv obtain q' as' ps' where "queue_add q d ty = Some (0, q')" "queue_inv q' as' ps'"
      "contents q' = contents q @ [(Some d, ty)]"
      by (metis queue_add_succeeds)
    then show ?thesis
      by (auto simp: wf_queue_def)
  qed
qed (fact queue_pop_spec queue_length_contents)+

section \<open>Cleaning up\<close>

lemma free_list_path:
  "path h p as \<Longrightarrow> distinct as \<Longrightarrow>
     free_list fd h p freed =
       Some (h |` (- set as), freed @ (if fd then List.map_filter (\<lambda>a. fst (node_msg h a)) as else []))"
proof (induction as arbitrary: h p freed)
  case Nil
  then show ?case
    by (simp add: free_list.simps map_filter_simps)
next
  case (Cons a as)
  then obtain n where n: "p = Some a" "h a = Some n" "path h (msg_next n) as" "a \<notin> set as" "distinct as"
    by auto
  let ?freed = "if fd then freed @ (case msg_data n of None \<Rightarrow> [] | Some d \<Rightarrow> [d]) else freed"
  from n have "path (h(a := None)) (msg_next n) as"
    by simp
  note IH = Cons.IH [OF this n(5), of ?freed]
  have "free_list fd h p freed = free_list fd (h(a := None)) (msg_next n) ?freed"
    by (subst free_list.simps) (simp add: n)
  also note IH
  also have "(h(a := None)) |` (- set as) = h |` (- set (a # as))"
    by (auto simp: restrict_map_def)
  also have "List.map_filter (\<lambda>b. fst (node_msg (h(a := None)) b)) as =
      List.map_filter (\<lambda>b. fst (node_msg h b)) as"
    using n by (auto simp: map_filter_def intro!: map_cong filter_cong)
  finally show ?case
    using n by (auto simp: map_filter_simps node_msg_def split: option.splits)
qed

lemma pool_holds_no_data:
  "\<forall>a \<in> set ps. fst (node_msg h a) = None \<Longrightarrow> List.map_filter (\<lambda>a. fst (node_msg h a)) ps = []"
  by (induction ps) (auto simp: map_filter_simps)

lemma queue_cleanup_inv:
  assumes inv: "queue_inv q as ps"
  shows "queue_cleanup ret fd (Some q) =
    Some (ret, (if fd then List.map_filter fst (contents q) else []), Some (q\<lparr>q_heap := Map.empty\<rparr>))"
proof -
  let ?h = "q_heap q |` (- set as)"
  have disj: "distinct as" "distinct ps" "set as \<inter> set ps = {}" "dom (q_heap q) = set as \<union> set ps"
    "path (q_heap q) (q_first q) as" "path (q_heap q) (msgpool q) ps"
    and pool: "\<forall>a \<in> set ps. fst (node_msg (q_heap q) a) = None"
    using inv by (auto simp: queue_inv_def)
  have path2: "path ?h p bs" if "path (q_heap q) p bs" "set as \<inter> set bs = {}" for p bs
    using that by (induction bs arbitrary: p) (auto simp: restrict_map_def)
  have "fst (node_msg ?h a) = None" if "a \<in> set ps" for a
    using that pool disj(3) by (auto simp: node_msg_def restrict_map_def split: option.splits)
  then have none: "List.map_filter (\<lambda>a. fst (node_msg ?h a)) ps = []"
    by (intro pool_holds_no_data) auto
  have "?h |` (- set ps) = Map.empty"
    using disj(4) by (auto simp: restrict_map_def fun_eq_iff domIff)
  then show ?thesis
    using free_list_path [OF disj(5,1), of fd "[]"] free_list_path [OF path2 [OF disj(6,3)] disj(2)] none
    by (simp add: queue_cleanup_def contents_inv [OF inv] map_filter_def comp_def filter_map)
qed

section \<open>Properties\<close>

definition empty_queue :: "allocs \<Rightarrow> 'd queue" where
  "empty_queue al = \<lparr>q_length = 0, q_first = None, q_last = None, msgpool = None, msgpool_length = 0,
     q_heap = Map.empty, q_brk = 0, q_allocs = al, q_broadcasts = 0\<rparr>"

lemma wf_empty_queue [simp]: "wf_queue (empty_queue al)"
  by (auto simp: wf_queue_def queue_inv_def empty_queue_def intro!: exI [of _ "[]"])

lemma contents_empty_queue [simp]: "contents (empty_queue al) = []"
  by (simp add: contents_def empty_queue_def)

text \<open>
  C7: the linked-list queue implements a FIFO queue. Any sequence of \<open>queue_add\<close> and \<open>queue_get\<close>
  calls from a well-formed queue runs without touching memory it does not own, keeps the queue
  well formed, and hands out exactly the accepted messages in the order they were accepted: what was
  delivered, followed by what is still queued, is what was queued at the start followed by what was
  accepted. An add refused for lack of memory loses its message and nothing else.
\<close>

theorem queue_fifo:
  assumes "wf_queue q"
  shows "\<exists>rs q'. eq.run q ops = Some (rs, q') \<and> wf_queue q' \<and>
    delivered rs @ contents q' = contents q @ accepted ops rs"
  using assms by (rule eq.run_fifo)

theorem queue_fifo_witness:
  "\<exists>rs q'. eq.run (empty_queue [True, False]) [QAdd (7::nat) 1, QAdd 8 2, QGet] = Some (rs, q') \<and>
     wf_queue q' \<and> delivered rs @ contents q' = accepted [QAdd 7 1, QAdd 8 2, QGet] rs"
  using queue_fifo [OF wf_empty_queue, of "[True, False]" "[QAdd (7::nat) 1, QAdd 8 2, QGet]"]
  by simp

text \<open>
  C3: \<open>queue_get\<close> on every branch. A NULL queue or message pointer gives \<open>EINVAL\<close>; a queue with
  messages returns the oldest one, its type and the number that remain, whatever the timeout; an
  empty queue returns \<open>ETIMEDOUT\<close> if a timed wait expires and otherwise stays blocked, however
  often it is woken spuriously.
\<close>

theorem queue_get_behaviour:
  fixes q :: "'d queue"
  assumes "wf_queue q"
  shows "queue_get (None :: 'd queue option) timeout ok now waits = Some (Returned (EINVAL, None, None)) \<and>
    queue_get (Some q) timeout False now waits = Some (Returned (EINVAL, None, Some q)) \<and>
    (case contents q of
       [] \<Rightarrow> queue_get (Some q) timeout True now waits =
         (if timeout \<noteq> None \<and> True \<in> set (waits (map_option (abstimeout now) timeout))
          then Some (Returned (ETIMEDOUT, None, Some q)) else Some Blocked)
     | (d, ty) # ms \<Rightarrow> \<exists>q'. queue_get (Some q) timeout True now waits =
           Some (Returned (0, Some \<lparr>data = d, msgtype = ty, qlength = int (length ms)\<rparr>, Some q')) \<and>
         wf_queue q' \<and> contents q' = ms)"
proof (intro conjI)
  from assms obtain as ps where inv: "queue_inv q as ps"
    by (auto simp: wf_queue_def)
  show "case contents q of
       [] \<Rightarrow> queue_get (Some q) timeout True now waits =
         (if timeout \<noteq> None \<and> True \<in> set (waits (map_option (abstimeout now) timeout))
          then Some (Returned (ETIMEDOUT, None, Some q)) else Some Blocked)
     | (d, ty) # ms \<Rightarrow> \<exists>q'. queue_get (Some q) timeout True now waits =
           Some (Returned (0, Some \<lparr>data = d, msgtype = ty, qlength = int (length ms)\<rparr>, Some q')) \<and>
         wf_queue q' \<and> contents q' = ms"
  proof (cases as)
    case Nil
    with inv show ?thesis
      using queue_get_empty [of q ps timeout now waits] by (simp add: contents_inv)
  next
    case (Cons a as')
    with inv obtain q' ps' where
      "queue_get (Some q) timeout True now waits =
       Some (Returned (0, Some \<lparr>data = fst (node_msg (q_heap q) a), msgtype = snd (node_msg (q_heap q) a),
          qlength = int (length as')\<rparr>, Some q'))"
      "queue_inv q' as' ps'" "contents q' = map (node_msg (q_heap q)) as'"
      by (metis queue_get_nonempty)
    with Cons inv show ?thesis
      by (auto simp: contents_inv wf_queue_def split: prod.splits)
  qed
qed (simp_all add: queue_get_def)

theorem queue_get_behaviour_witness:
  "queue_get (Some (empty_queue [] :: nat queue)) (Some (1, 0)) True (5, 0) (\<lambda>_. [False, True]) =
     Some (Returned (ETIMEDOUT, None, Some (empty_queue [])))"
  using queue_get_behaviour [of "empty_queue [] :: nat queue" "Some (1, 0)" True "(5, 0)" "\<lambda>_. [False, True]"]
  by simp

text \<open>
  C4: \<open>queue_cleanup\<close> frees every node exactly once and leaves nothing allocated; with \<open>freedata\<close>
  it frees the data of exactly the messages that were still queued, in order, and never the data of
  a message that was already delivered.
\<close>

theorem queue_cleanup_frees:
  assumes "wf_queue q"
  shows "queue_cleanup ret fd (Some q) =
    Some (ret, (if fd then List.map_filter fst (contents q) else []), Some (q\<lparr>q_heap := Map.empty\<rparr>))"
proof -
  from assms obtain as ps where "queue_inv q as ps"
    by (auto simp: wf_queue_def)
  then show ?thesis
    by (rule queue_cleanup_inv)
qed

theorem queue_cleanup_frees_witness:
  "queue_cleanup 0 True (Some (empty_queue [] :: nat queue)) =
     Some (0, [], Some ((empty_queue [])\<lparr>q_heap := Map.empty\<rparr>))"
  using queue_cleanup_frees [OF wf_empty_queue, of 0 True "[]"] by (simp add: map_filter_simps)

text \<open>
  The pool of spare nodes stays small. While no more than \<open>m\<close> messages are queued, neither
  operation lets the pool grow beyond an eighth of \<open>m\<close> plus 257 nodes.
\<close>

theorem msgpool_bounded:
  assumes "wf_queue q" "length (contents q) \<le> m" "msgpool_length q \<le> int (m div 8) + 257"
  shows "(queue_add q d ty = Some (r, q') \<longrightarrow> msgpool_length q' \<le> int (m div 8) + 257) \<and>
    (queue_pop q = Some (Returned (msg, q'')) \<longrightarrow> msgpool_length q'' \<le> int (m div 8) + 257)"
proof (intro conjI impI)
  from assms(1) obtain as ps where inv: "queue_inv q as ps"
    by (auto simp: wf_queue_def)
  then have len: "msgpool_length q = int (length ps)" "length as \<le> m"
    using assms(2) by (auto simp: queue_inv_def contents_inv [OF inv])
  show "msgpool_length q' \<le> int (m div 8) + 257" if add: "queue_add q d ty = Some (r, q')"
  proof (cases "add_fails q")
    case True
    with add queue_add_fails [OF inv] assms(3) show ?thesis by auto
  next
    case False
    from inv False obtain q1 as' ps' where "queue_add q d ty = Some (0, q1)" "queue_inv q1 as' ps'"
      "length ps' \<le> length ps"
      by (metis queue_add_succeeds)
    with add len assms(3) show ?thesis by (auto simp: queue_inv_def)
  qed
  show "msgpool_length q'' \<le> int (m div 8) + 257" if pop: "queue_pop q = Some (Returned (msg, q''))"
  proof (cases as)
    case Nil
    with inv pop show ?thesis
      using queue_get_empty [of q ps None "(0, 0)" "\<lambda>_. []"] by (simp add: queue_pop_def)
  next
    case (Cons a as')
    with inv obtain q1 ps' where g: "queue_get (Some q) None True (0, 0) (\<lambda>_. []) =
       Some (Returned (0, Some \<lparr>data = fst (node_msg (q_heap q) a), msgtype = snd (node_msg (q_heap q) a),
          qlength = int (length as')\<rparr>, Some q1))"
      "queue_inv q1 as' ps'" "length ps' \<le> Suc (length ps)"
      "length ps > length as' div 8 + 256 \<Longrightarrow> length ps' \<le> length ps"
      by (metis queue_get_nonempty)
    with pop have "q'' = q1"
      by (simp add: queue_pop_def)
    moreover have "length as' div 8 \<le> m div 8"
      using len Cons by (intro div_le_mono) simp
    ultimately show ?thesis
      using g len assms(3) by (cases "length ps > length as' div 8 + 256") (auto simp: queue_inv_def)
  qed
qed

theorem msgpool_bounded_witness:
  "\<exists>r q'. queue_add (empty_queue [] :: nat queue) 5 1 = Some (r, q') \<and> msgpool_length q' \<le> int (4 div 8) + 257"
proof -
  obtain r q' where "queue_add (empty_queue [] :: nat queue) 5 1 = Some (r, q')"
    using eq.add_law [OF wf_empty_queue, of "[]" "5::nat" 1] by blast
  moreover have "msgpool_length (empty_queue [] :: nat queue) \<le> int (4 div 8) + 257"
    by (simp add: empty_queue_def)
  ultimately show ?thesis
    using msgpool_bounded [OF wf_empty_queue, of "[]" 4 "5::nat" 1 r q'] by auto
qed

text \<open>
  The deadline of a timed wait is the time of day plus the timeout, to the nanosecond, and is
  normalised whenever its inputs are.
\<close>

theorem abstimeout_exact:
  assumes "abstimeout (s, us) (ts, tns) = (s', ns')"
    "0 \<le> us" "us < 1000000" "0 \<le> tns" "tns < 1000000000"
  shows "s' * 1000000000 + ns' = (s + ts) * 1000000000 + us * 1000 + tns \<and>
    0 \<le> ns' \<and> ns' < 1000000000"
  using assms by (auto simp: abstimeout_def Let_def split: if_splits)

theorem abstimeout_exact_witness:
  "abstimeout (5, 999999) (2, 999999999) = (8, 999998999) \<and> (999998999::int) < 1000000000"
  using abstimeout_exact [of 5 999999 2 999999999 8 999998999] by (simp add: abstimeout_def)

end
