(* ===== verification/Rs232.thy ===== *)
theory Rs232
  imports Siproxy_Prelude
begin

unbundle bit_operations_syntax

text \<open>
  The serial port of \<^verbatim>\<open>rs232.c\<close>: opening and configuring the port, reading and writing it, and
  its modem control lines. The results of the system calls are arguments; the terminal attributes
  are 32-bit words with the flag values of Linux, so what the code sets and clears, and what it
  leaves as it was, is visible bit by bit.
\<close>

section \<open>Constants of \<^verbatim>\<open>termios.h\<close> and \<^verbatim>\<open>ioctl.h\<close>\<close>

abbreviation CSIZE :: "32 word" where "CSIZE \<equiv> 0x30"
abbreviation CS5 :: "32 word" where "CS5 \<equiv> 0x00"
abbreviation CS6 :: "32 word" where "CS6 \<equiv> 0x10"
abbreviation CS7 :: "32 word" where "CS7 \<equiv> 0x20"
abbreviation CS8 :: "32 word" where "CS8 \<equiv> 0x30"
abbreviation CSTOPB :: "32 word" where "CSTOPB \<equiv> 0x40"
abbreviation CREAD :: "32 word" where "CREAD \<equiv> 0x80"
abbreviation PARENB :: "32 word" where "PARENB \<equiv> 0x100"
abbreviation PARODD :: "32 word" where "PARODD \<equiv> 0x200"
abbreviation CLOCAL :: "32 word" where "CLOCAL \<equiv> 0x800"
abbreviation CRTSCTS :: "32 word" where "CRTSCTS \<equiv> 0x80000000"
abbreviation INPCK :: "32 word" where "INPCK \<equiv> 0x10"
abbreviation IXON :: "32 word" where "IXON \<equiv> 0x400"
abbreviation IXANY :: "32 word" where "IXANY \<equiv> 0x800"
abbreviation IXOFF :: "32 word" where "IXOFF \<equiv> 0x1000"
abbreviation OPOST :: "32 word" where "OPOST \<equiv> 0x1"
abbreviation ISIG :: "32 word" where "ISIG \<equiv> 0x1"
abbreviation ICANON :: "32 word" where "ICANON \<equiv> 0x2"
abbreviation ECHO :: "32 word" where "ECHO \<equiv> 0x8"
abbreviation ECHOE :: "32 word" where "ECHOE \<equiv> 0x10"

abbreviation CBAUD :: "32 word" where "CBAUD \<equiv> 0x100F"
abbreviation IBAUD0 :: "32 word" where "IBAUD0 \<equiv> 0x80000000"

abbreviation B300 :: "32 word" where "B300 \<equiv> 0x7"
abbreviation B1200 :: "32 word" where "B1200 \<equiv> 0x9"
abbreviation B2400 :: "32 word" where "B2400 \<equiv> 0xB"
abbreviation B4800 :: "32 word" where "B4800 \<equiv> 0xC"
abbreviation B9600 :: "32 word" where "B9600 \<equiv> 0xD"
abbreviation B19200 :: "32 word" where "B19200 \<equiv> 0xE"
abbreviation B115200 :: "32 word" where "B115200 \<equiv> 0x1002"

abbreviation TIOCM_DTR :: "32 word" where "TIOCM_DTR \<equiv> 0x002"
abbreviation TIOCM_RTS :: "32 word" where "TIOCM_RTS \<equiv> 0x004"
abbreviation TIOCM_CTS :: "32 word" where "TIOCM_CTS \<equiv> 0x020"
abbreviation TIOCM_CAR :: "32 word" where "TIOCM_CAR \<equiv> 0x040"
abbreviation TIOCM_DSR :: "32 word" where "TIOCM_DSR \<equiv> 0x100"

section \<open>Opening the port\<close>

record termios =
  c_iflag :: "32 word"
  c_oflag :: "32 word"
  c_cflag :: "32 word"
  c_lflag :: "32 word"
  vtime :: nat
  vmin :: nat

text \<open>
  \<open>cfsetispeed\<close> and \<open>cfsetospeed\<close> of glibc, for a speed other than \<open>B0\<close>: both store the code in
  the speed bits of \<open>c_cflag\<close>.
\<close>

definition cfsetispeed :: "32 word \<Rightarrow> termios \<Rightarrow> termios" where
  "cfsetispeed code opt =
     opt\<lparr>c_iflag := c_iflag opt AND NOT IBAUD0, c_cflag := (c_cflag opt AND NOT CBAUD) OR code\<rparr>"

definition cfsetospeed :: "32 word \<Rightarrow> termios \<Rightarrow> termios" where
  "cfsetospeed code opt = opt\<lparr>c_cflag := (c_cflag opt AND NOT CBAUD) OR code\<rparr>"

definition speed_arr :: "32 word list" where
  "speed_arr = [B115200, B19200, B9600, B4800, B2400, B1200, B300]"

definition name_arr :: "int list" where
  "name_arr = [115200, 19200, 9600, 4800, 2400, 1200, 300]"

definition set_speed :: "int \<Rightarrow> termios \<Rightarrow> termios" where
  "set_speed speed options =
     fold (\<lambda>(name, code) opt. if speed = name then cfsetospeed code (cfsetispeed code opt) else opt)
       (zip name_arr speed_arr) options"

definition set_flow_ctrl :: "int \<Rightarrow> termios \<Rightarrow> termios" where
  "set_flow_ctrl flow_ctrl options =
     (if flow_ctrl = 0 then options\<lparr>c_cflag := c_cflag options AND NOT CRTSCTS\<rparr>
      else if flow_ctrl = 1 then options\<lparr>c_cflag := c_cflag options OR CRTSCTS\<rparr>
      else if flow_ctrl = 2 then options\<lparr>c_cflag := c_cflag options OR (IXON OR IXOFF OR IXANY)\<rparr>
      else options)"

definition set_databits :: "int \<Rightarrow> termios \<Rightarrow> termios option" where
  "set_databits databits options =
     (let opt = options\<lparr>c_cflag := c_cflag options AND NOT CSIZE\<rparr>
      in if databits = 5 then Some (opt\<lparr>c_cflag := c_cflag opt OR CS5\<rparr>)
         else if databits = 6 then Some (opt\<lparr>c_cflag := c_cflag opt OR CS6\<rparr>)
         else if databits = 7 then Some (opt\<lparr>c_cflag := c_cflag opt OR CS7\<rparr>)
         else if databits = 8 then Some (opt\<lparr>c_cflag := c_cflag opt OR CS8\<rparr>)
         else None)"

definition set_parity :: "char \<Rightarrow> termios \<Rightarrow> termios option" where
  "set_parity parity options =
     (if parity = CHR ''n'' \<or> parity = CHR ''N''
      then Some (options\<lparr>c_cflag := c_cflag options AND NOT PARENB, c_iflag := c_iflag options AND NOT INPCK\<rparr>)
      else if parity = CHR ''o'' \<or> parity = CHR ''O''
      then Some (options\<lparr>c_cflag := c_cflag options OR (PARODD OR PARENB), c_iflag := c_iflag options OR INPCK\<rparr>)
      else if parity = CHR ''e'' \<or> parity = CHR ''E''
      then Some (options\<lparr>c_cflag := (c_cflag options OR PARENB) AND NOT PARODD, c_iflag := c_iflag options OR INPCK\<rparr>)
      else if parity = CHR ''s'' \<or> parity = CHR ''S''
      then Some (options\<lparr>c_cflag := (c_cflag options AND NOT PARENB) AND NOT CSTOPB\<rparr>)
      else None)"

definition set_stopbits :: "int \<Rightarrow> termios \<Rightarrow> termios option" where
  "set_stopbits stopbits options =
     (if stopbits = 1 then Some (options\<lparr>c_cflag := c_cflag options AND NOT CSTOPB\<rparr>)
      else if stopbits = 2 then Some (options\<lparr>c_cflag := c_cflag options OR CSTOPB\<rparr>)
      else None)"

definition set_raw :: "termios \<Rightarrow> termios" where
  "set_raw options =
     options\<lparr>c_oflag := c_oflag options AND NOT OPOST,
       c_lflag := c_lflag options AND NOT (ICANON OR ECHO OR ECHOE OR ISIG), vtime := 5, vmin := 1\<rparr>"

text \<open>The attributes \<open>rs232_open\<close> computes from those it read; \<open>None\<close> is an unsupported argument.\<close>

definition rs232_options :: "int \<Rightarrow> int \<Rightarrow> int \<Rightarrow> int \<Rightarrow> char \<Rightarrow> termios \<Rightarrow> termios option" where
  "rs232_options speed flow_ctrl databits stopbits parity options =
     (let opt = set_speed speed options;
          opt = opt\<lparr>c_cflag := c_cflag opt OR CLOCAL OR CREAD\<rparr>;
          opt = set_flow_ctrl flow_ctrl opt
      in case set_databits databits opt of
           None \<Rightarrow> None
         | Some opt \<Rightarrow>
             (case set_parity parity opt of
                None \<Rightarrow> None
              | Some opt \<Rightarrow> map_option set_raw (set_stopbits stopbits opt)))"

text \<open>
  The port: its attributes, and the results of \<open>open\<close>, \<open>fcntl\<close>, \<open>tcgetattr\<close> and \<open>tcsetattr\<close>. The
  result is the descriptor or -1, with the attributes the port has afterwards.
\<close>

record port =
  po_open :: int
  po_fcntl :: int
  po_tcgetattr :: int
  po_tcsetattr :: int
  po_termios :: termios

definition rs232_open :: "int \<Rightarrow> int \<Rightarrow> int \<Rightarrow> int \<Rightarrow> char \<Rightarrow> port \<Rightarrow> int \<times> port" where
  "rs232_open speed flow_ctrl databits stopbits parity p =
     (if po_open p = -1 then (-1, p)
      else if po_fcntl p < 0 then (-1, p)
      else if po_tcgetattr p \<noteq> 0 then (-1, p)
      else case rs232_options speed flow_ctrl databits stopbits parity (po_termios p) of
             None \<Rightarrow> (-1, p)
           | Some opt \<Rightarrow> if po_tcsetattr p \<noteq> 0 then (-1, p) else (po_open p, p\<lparr>po_termios := opt\<rparr>))"

section \<open>Reading and writing\<close>

text \<open>
  A write hands bytes to the driver: the trace of the bytes written, and the results of the \<open>write\<close>
  calls to come; at the end of the list a write succeeds in full. \<open>read\<close> takes what the line has, up
  to the size.
\<close>

record line =
  ln_sent :: "char list"
  ln_writes :: "int list"
  ln_input :: "char list"

definition line_write :: "char list \<Rightarrow> line \<Rightarrow> int \<times> line" where
  "line_write bytes l =
     (case ln_writes l of
        [] \<Rightarrow> (int (length bytes), l\<lparr>ln_sent := ln_sent l @ bytes\<rparr>)
      | n # ns \<Rightarrow> (n, l\<lparr>ln_writes := ns, ln_sent := ln_sent l @ take (nat n) bytes\<rparr>))"

definition rs232_read :: "nat \<Rightarrow> line \<Rightarrow> char list \<times> line" where
  "rs232_read sz l = (take sz (ln_input l), l\<lparr>ln_input := drop sz (ln_input l)\<rparr>)"

definition rs232_send_byte :: "char \<Rightarrow> line \<Rightarrow> int \<times> line" where
  "rs232_send_byte byte l = (let (n, l1) = line_write [byte] l in if n < 0 then (-1, l1) else (0, l1))"

definition rs232_send_buf :: "char list \<Rightarrow> line \<Rightarrow> int \<times> line" where
  "rs232_send_buf buf l = line_write buf l"

text \<open>\<open>rs232_cputs\<close>: the loop stops at the NUL; results of the single writes are ignored.\<close>

fun rs232_cputs :: "char list \<Rightarrow> line \<Rightarrow> line" where
  "rs232_cputs [] l = l"
| "rs232_cputs (c # cs) l = (if c = NUL then l else rs232_cputs cs (snd (rs232_send_byte c l)))"

section \<open>Modem control lines\<close>

text \<open>
  The control lines of the port and the results of the \<open>ioctl\<close> calls. When \<open>TIOCMGET\<close> fails the
  status variable keeps what was on the stack, \<open>mc_junk\<close>, and the code goes on with it.
\<close>

record modem_lines =
  mc_status :: "32 word"
  mc_get :: int
  mc_set :: int
  mc_junk :: "32 word"
  mc_open :: bool

definition get_lines :: "modem_lines \<Rightarrow> 32 word" where
  "get_lines m = (if mc_get m = -1 then mc_junk m else mc_status m)"

definition set_lines :: "32 word \<Rightarrow> modem_lines \<Rightarrow> modem_lines" where
  "set_lines status m = (if mc_set m = -1 then m else m\<lparr>mc_status := status\<rparr>)"

definition rs232_close :: "modem_lines \<Rightarrow> modem_lines" where
  "rs232_close m = (set_lines (get_lines m AND NOT TIOCM_DTR AND NOT TIOCM_RTS) m)\<lparr>mc_open := False\<rparr>"

definition rs232_IsDCDEnabled :: "modem_lines \<Rightarrow> int" where
  "rs232_IsDCDEnabled m = (if get_lines m AND TIOCM_CAR \<noteq> 0 then 1 else 0)"

definition rs232_IsCTSEnabled :: "modem_lines \<Rightarrow> int" where
  "rs232_IsCTSEnabled m = (if get_lines m AND TIOCM_CTS \<noteq> 0 then 1 else 0)"

definition rs232_IsDSREnabled :: "modem_lines \<Rightarrow> int" where
  "rs232_IsDSREnabled m = (if get_lines m AND TIOCM_DSR \<noteq> 0 then 1 else 0)"

definition rs232_enableDTR :: "modem_lines \<Rightarrow> modem_lines" where
  "rs232_enableDTR m = set_lines (get_lines m OR TIOCM_DTR) m"

definition rs232_disableDTR :: "modem_lines \<Rightarrow> modem_lines" where
  "rs232_disableDTR m = set_lines (get_lines m AND NOT TIOCM_DTR) m"

definition rs232_enableRTS :: "modem_lines \<Rightarrow> modem_lines" where
  "rs232_enableRTS m = set_lines (get_lines m OR TIOCM_RTS) m"

definition rs232_disableRTS :: "modem_lines \<Rightarrow> modem_lines" where
  "rs232_disableRTS m = set_lines (get_lines m AND NOT TIOCM_RTS) m"


section \<open>Properties\<close>

text \<open>A flag word of which some bits are kept and some are set.\<close>

definition kept :: "32 word \<Rightarrow> 32 word \<Rightarrow> 32 word \<Rightarrow> 32 word" where
  "kept c m v = (c AND m) OR v"

lemma kept_simps:
  "kept c m v AND k = kept c (m AND k) (v AND k)" "kept c m v OR k = kept c m (v OR k)" "kept c 0 v = v" "kept c m m = m"
  by (rule bit_word_eqI, auto simp: kept_def bit_simps)+

lemma kept_fold: "c AND m = kept c m 0"
  by (simp add: kept_def)

text \<open>
  The port the proxy opens: 115200 baud, 8 data bits, no parity, one stop bit, no hardware flow
  control, receiver on, modem lines ignored, raw input and output; all other control flags as
  they were.
\<close>

definition raw_8N1_115200 :: "termios \<Rightarrow> termios \<Rightarrow> bool" where
  "raw_8N1_115200 old new \<longleftrightarrow>
     c_cflag new AND CBAUD = B115200 \<and> c_cflag new AND CSIZE = CS8 \<and> c_cflag new AND PARENB = 0 \<and>
     c_cflag new AND CSTOPB = 0 \<and> c_cflag new AND CRTSCTS = 0 \<and> c_cflag new AND CREAD = CREAD \<and>
     c_cflag new AND CLOCAL = CLOCAL \<and> c_iflag new AND INPCK = 0 \<and> c_oflag new AND OPOST = 0 \<and>
     c_lflag new AND (ICANON OR ECHO OR ECHOE OR ISIG) = 0 \<and> vtime new = 5 \<and> vmin new = 1 \<and>
     c_cflag new AND NOT (CBAUD OR CSIZE OR PARENB OR CSTOPB OR CRTSCTS OR CREAD OR CLOCAL) =
     c_cflag old AND NOT (CBAUD OR CSIZE OR PARENB OR CSTOPB OR CRTSCTS OR CREAD OR CLOCAL)"

lemma rs232_options_8N1:
  obtains opt where "rs232_options 115200 0 8 1 CHR ''N'' t = Some opt" "raw_8N1_115200 t opt"
proof -
  define opt where "opt = t\<lparr>c_iflag := kept (c_iflag t) (NOT IBAUD0 AND NOT INPCK) 0,
    c_oflag := kept (c_oflag t) (NOT OPOST) 0,
    c_lflag := kept (c_lflag t) (NOT (ICANON OR ECHO OR ECHOE OR ISIG)) 0,
    c_cflag := kept (c_cflag t) (NOT (CBAUD OR CRTSCTS OR CSIZE OR PARENB OR CSTOPB)) (B115200 OR CLOCAL OR CREAD OR CS8),
    vtime := 5, vmin := 1\<rparr>"
  have "rs232_options 115200 0 8 1 CHR ''N'' t = Some opt"
  proof (cases t)
    case (fields ci co cc cl vt vm)
    then show ?thesis
      by (simp add: rs232_options_def set_speed_def name_arr_def speed_arr_def cfsetispeed_def cfsetospeed_def
          set_flow_ctrl_def set_databits_def set_parity_def set_stopbits_def set_raw_def opt_def Let_def
          kept_fold [of ci] kept_fold [of co] kept_fold [of cc] kept_fold [of cl] kept_simps)
  qed
  moreover have "raw_8N1_115200 t opt"
    by (simp add: raw_8N1_115200_def opt_def kept_simps kept_fold [of "c_cflag t"])
  ultimately show ?thesis
    by (rule that)
qed

text \<open>
  C35: opening the serial port as the proxy does configures it as 115200 baud, 8N1, raw, without
  hardware flow control, whatever its attributes were, and touches no other control flag; when a
  system call fails, \<open>rs232_open\<close> returns -1 and leaves the attributes alone.
\<close>

theorem rs232_open_configures:
  "(po_open p \<noteq> -1 \<and> 0 \<le> po_fcntl p \<and> po_tcgetattr p = 0 \<and> po_tcsetattr p = 0 \<longrightarrow>
      (\<exists>opt. rs232_open 115200 0 8 1 CHR ''N'' p = (po_open p, p\<lparr>po_termios := opt\<rparr>) \<and>
         raw_8N1_115200 (po_termios p) opt)) \<and>
   (\<not> (po_open p \<noteq> -1 \<and> 0 \<le> po_fcntl p \<and> po_tcgetattr p = 0 \<and> po_tcsetattr p = 0) \<longrightarrow>
      rs232_open 115200 0 8 1 CHR ''N'' p = (-1, p))"
  by (rule rs232_options_8N1 [of "po_termios p"]) (auto simp: rs232_open_def)

definition demo_port :: port where
  "demo_port = \<lparr>po_open = 3, po_fcntl = 0, po_tcgetattr = 0, po_tcsetattr = 0,
     po_termios = \<lparr>c_iflag = 0, c_oflag = 1, c_cflag = 0xBD, c_lflag = 0xF, vtime = 0, vmin = 1\<rparr>\<rparr>"

theorem rs232_open_configures_witness:
  "\<exists>opt. rs232_open 115200 0 8 1 CHR ''N'' demo_port = (3, demo_port\<lparr>po_termios := opt\<rparr>) \<and> c_oflag opt AND OPOST = 0"
  using rs232_open_configures [of demo_port] by (auto simp: demo_port_def raw_8N1_115200_def)

text \<open>
  Software flow control is never enabled and the speed is lost: for \<open>flow_ctrl = 2\<close> the code sets
  the XON/XOFF flags in \<open>c_cflag\<close>, where their bits mean something else, instead of \<open>c_iflag\<close>; the
  input flags do not change, and a port opened at 9600 baud is set to the code of another speed.
\<close>

theorem flow_ctrl_wrong_word:
  "c_iflag (set_flow_ctrl 2 opt) = c_iflag opt \<and>
   (c_cflag opt AND CBAUD = B9600 \<longrightarrow> c_cflag (set_flow_ctrl 2 opt) AND CBAUD \<noteq> B9600)"
proof -
  have "(c AND CBAUD = B9600) \<longrightarrow> ((c OR 0x1C00) AND CBAUD = 0x100D)" for c :: "32 word"
    by (simp add: bit.conj_disj_distrib2)
  then show ?thesis
    by (auto simp: set_flow_ctrl_def)
qed

theorem flow_ctrl_wrong_word_witness:
  "c_cflag (set_flow_ctrl 2 \<lparr>c_iflag = 0, c_oflag = 0, c_cflag = B9600, c_lflag = 0, vtime = 0, vmin = 0\<rparr>) AND CBAUD \<noteq> B9600"
  using flow_ctrl_wrong_word [of "\<lparr>c_iflag = 0, c_oflag = 0, c_cflag = B9600, c_lflag = 0, vtime = 0, vmin = 0\<rparr>"]
  by simp

lemma rs232_cputs_sends: "ln_writes l = [] \<Longrightarrow> rs232_cputs s l = l\<lparr>ln_sent := ln_sent l @ c_str s\<rparr>"
  by (induction s arbitrary: l) (auto simp: rs232_send_byte_def line_write_def)

end
