(* ===== verification/Telnet_Options.thy ===== *)
theory Telnet_Options
  imports Siproxy_Prelude
begin

unbundle bit_operations_syntax

text \<open>
  The state tracker of \<^verbatim>\<open>telnet.c\<close> and its option negotiation (RFC 1143, the Q method): the
  constants of \<^verbatim>\<open>telnet.h\<close>, \<open>struct telnet_t\<close>, the table of option states, the handling of a
  received WILL, WONT, DO or DONT, and \<open>telnet_negotiate\<close> for the local requests.

  A call of the event handler \<open>eh\<close> appends the event to \<open>tn_events\<close>, so an operation is a function
  from tracker to tracker whose trace shows what the application was told and which bytes it was
  asked to send. The handlers of this program never write the tracker.
\<close>

section \<open>Constants\<close>

abbreviation TELNET_IAC :: byte where "TELNET_IAC \<equiv> 255"
abbreviation TELNET_DONT :: byte where "TELNET_DONT \<equiv> 254"
abbreviation TELNET_DO :: byte where "TELNET_DO \<equiv> 253"
abbreviation TELNET_WONT :: byte where "TELNET_WONT \<equiv> 252"
abbreviation TELNET_WILL :: byte where "TELNET_WILL \<equiv> 251"
abbreviation TELNET_SB :: byte where "TELNET_SB \<equiv> 250"
abbreviation TELNET_SE :: byte where "TELNET_SE \<equiv> 240"

abbreviation TELNET_TELOPT_ECHO :: byte where "TELNET_TELOPT_ECHO \<equiv> 1"
abbreviation TELNET_TELOPT_TTYPE :: byte where "TELNET_TELOPT_TTYPE \<equiv> 24"
abbreviation TELNET_TELOPT_ENVIRON :: byte where "TELNET_TELOPT_ENVIRON \<equiv> 36"
abbreviation TELNET_TELOPT_NEW_ENVIRON :: byte where "TELNET_TELOPT_NEW_ENVIRON \<equiv> 39"
abbreviation TELNET_TELOPT_MSSP :: byte where "TELNET_TELOPT_MSSP \<equiv> 70"
abbreviation TELNET_TELOPT_COMPRESS :: byte where "TELNET_TELOPT_COMPRESS \<equiv> 85"
abbreviation TELNET_TELOPT_COMPRESS2 :: byte where "TELNET_TELOPT_COMPRESS2 \<equiv> 86"
abbreviation TELNET_TELOPT_ZMP :: byte where "TELNET_TELOPT_ZMP \<equiv> 93"

abbreviation TELNET_TTYPE_IS :: byte where "TELNET_TTYPE_IS \<equiv> 0"
abbreviation TELNET_TTYPE_SEND :: byte where "TELNET_TTYPE_SEND \<equiv> 1"

abbreviation TELNET_ENVIRON_IS :: byte where "TELNET_ENVIRON_IS \<equiv> 0"
abbreviation TELNET_ENVIRON_SEND :: byte where "TELNET_ENVIRON_SEND \<equiv> 1"
abbreviation TELNET_ENVIRON_INFO :: byte where "TELNET_ENVIRON_INFO \<equiv> 2"
abbreviation TELNET_ENVIRON_VAR :: byte where "TELNET_ENVIRON_VAR \<equiv> 0"
abbreviation TELNET_ENVIRON_VALUE :: byte where "TELNET_ENVIRON_VALUE \<equiv> 1"
abbreviation TELNET_ENVIRON_ESC :: byte where "TELNET_ENVIRON_ESC \<equiv> 2"
abbreviation TELNET_ENVIRON_USERVAR :: byte where "TELNET_ENVIRON_USERVAR \<equiv> 3"

abbreviation TELNET_MSSP_VAR :: byte where "TELNET_MSSP_VAR \<equiv> 1"
abbreviation TELNET_MSSP_VAL :: byte where "TELNET_MSSP_VAL \<equiv> 2"

abbreviation TELNET_FLAG_PROXY :: byte where "TELNET_FLAG_PROXY \<equiv> 1"

abbreviation Q_NO :: byte where "Q_NO \<equiv> 0"
abbreviation Q_YES :: byte where "Q_YES \<equiv> 1"
abbreviation Q_WANTNO :: byte where "Q_WANTNO \<equiv> 2"
abbreviation Q_WANTYES :: byte where "Q_WANTYES \<equiv> 3"
abbreviation Q_WANTNO_OP :: byte where "Q_WANTNO_OP \<equiv> 4"
abbreviation Q_WANTYES_OP :: byte where "Q_WANTYES_OP \<equiv> 5"

section \<open>Data\<close>

datatype telnet_error = TELNET_EOK | TELNET_EBADVAL | TELNET_ENOMEM | TELNET_EOVERFLOW
  | TELNET_EPROTOCOL | TELNET_ECOMPRESS

datatype telnet_state = TELNET_STATE_DATA | TELNET_STATE_IAC | TELNET_STATE_WILL
  | TELNET_STATE_WONT | TELNET_STATE_DO | TELNET_STATE_DONT | TELNET_STATE_SB
  | TELNET_STATE_SB_DATA | TELNET_STATE_SB_DATA_IAC

text \<open>
  \<open>struct telnet_environ_t\<close>; \<open>var\<close> and \<open>value\<close> are C strings, \<open>None\<close> for NULL. MSSP leaves
  \<open>type\<close> as \<open>calloc\<close> left it.
\<close>

record telnet_environ =
  ev_type :: byte
  ev_var :: "byte list option"
  ev_value :: "byte list option"

text \<open>
  The event union, one constructor for each event type. A DATA event carries the bytes of its
  slice that lie inside the receive buffer and the size the code computed for it, a \<open>size_t\<close>; the
  two agree unless the size has wrapped around. A warning carries the function that raised it and
  the formatted message: \<open>_error\<close> stores no error code in the event.
\<close>

datatype telnet_event =
    TELNET_EV_DATA "byte list" "64 word"
  | TELNET_EV_SEND "byte list"
  | TELNET_EV_IAC byte
  | TELNET_EV_WILL byte
  | TELNET_EV_WONT byte
  | TELNET_EV_DO byte
  | TELNET_EV_DONT byte
  | TELNET_EV_SUBNEGOTIATION byte "byte list"
  | TELNET_EV_COMPRESS byte
  | TELNET_EV_ZMP "byte list list"
  | TELNET_EV_TTYPE byte "byte list option"
  | TELNET_EV_ENVIRON byte "telnet_environ list"
  | TELNET_EV_MSSP "telnet_environ list"
  | TELNET_EV_WARNING string string
  | TELNET_EV_ERROR string string

text \<open>A row of the application's option table; the end of the list is the row with \<open>telopt\<close> -1.\<close>

record telnet_telopt =
  to_telopt :: int
  to_us :: byte
  to_him :: byte

record telnet_rfc1143 =
  rq_telopt :: byte
  rq_state :: byte

record telnet =
  tn_telopts :: "telnet_telopt list option"
  tn_q :: "telnet_rfc1143 list"
  tn_buffer :: "byte list"
  tn_buffer_size :: nat
  tn_buffer_pos :: nat
  tn_state :: telnet_state
  tn_flags :: byte
  tn_sb_telopt :: byte
  tn_q_size :: byte
  tn_allocs :: allocs
  tn_events :: "telnet_event list"

definition Q_US :: "telnet_rfc1143 \<Rightarrow> byte" where
  "Q_US q = rq_state q AND 0x0F"

definition Q_HIM :: "telnet_rfc1143 \<Rightarrow> byte" where
  "Q_HIM q = drop_bit 4 (rq_state q AND 0xF0)"

definition Q_MAKE :: "byte \<Rightarrow> byte \<Rightarrow> byte" where
  "Q_MAKE us him = us OR push_bit 4 him"

section \<open>Events\<close>

definition eh :: "telnet_event \<Rightarrow> telnet \<Rightarrow> telnet" where
  "eh ev t = t\<lparr>tn_events := tn_events t @ [ev]\<rparr>"

text \<open>\<open>_error\<close>: the message is formatted into a buffer of 512 bytes.\<close>

definition telnet_error_ev :: "string \<Rightarrow> telnet_error \<Rightarrow> bool \<Rightarrow> string \<Rightarrow> telnet \<Rightarrow> telnet_error \<times> telnet" where
  "telnet_error_ev func err fatal msg t =
     (err, eh ((if fatal then TELNET_EV_ERROR else TELNET_EV_WARNING) func (snprintf 512 msg)) t)"

definition warn :: "string \<Rightarrow> telnet_error \<Rightarrow> string \<Rightarrow> telnet \<Rightarrow> telnet" where
  "warn func err msg t = snd (telnet_error_ev func err False msg t)"

definition strerror_ENOMEM :: string where
  "strerror_ENOMEM = ''Cannot allocate memory''"

definition telnet_send_raw :: "byte list \<Rightarrow> telnet \<Rightarrow> telnet" where
  "telnet_send_raw buffer t = eh (TELNET_EV_SEND buffer) t"

section \<open>The option table and the option states\<close>

fun check_telopt_loop :: "byte \<Rightarrow> bool \<Rightarrow> telnet_telopt list \<Rightarrow> bool" where
  "check_telopt_loop telopt us [] = False"
| "check_telopt_loop telopt us (e # es) =
     (if to_telopt e = -1 then False
      else if to_telopt e = uint telopt then
        (if us \<and> to_us e = TELNET_WILL then True
         else if \<not> us \<and> to_him e = TELNET_DO then True
         else False)
      else check_telopt_loop telopt us es)"

definition check_telopt :: "telnet \<Rightarrow> byte \<Rightarrow> bool \<Rightarrow> bool" where
  "check_telopt t telopt us =
     (case tn_telopts t of None \<Rightarrow> False | Some es \<Rightarrow> check_telopt_loop telopt us es)"

definition get_rfc1143 :: "telnet \<Rightarrow> byte \<Rightarrow> telnet_rfc1143" where
  "get_rfc1143 t telopt =
     (case find (\<lambda>e. rq_telopt e = telopt) (take (unat (tn_q_size t)) (tn_q t)) of
        Some e \<Rightarrow> e
      | None \<Rightarrow> \<lparr>rq_telopt = telopt, rq_state = 0\<rparr>)"

fun rfc1143_update :: "byte \<Rightarrow> byte \<Rightarrow> telnet_rfc1143 list \<Rightarrow> telnet_rfc1143 list option" where
  "rfc1143_update telopt st [] = None"
| "rfc1143_update telopt st (e # es) =
     (if rq_telopt e = telopt then Some (e\<lparr>rq_state := st\<rparr> # es)
      else map_option ((#) e) (rfc1143_update telopt st es))"

definition set_rfc1143 :: "byte \<Rightarrow> byte \<Rightarrow> byte \<Rightarrow> telnet \<Rightarrow> telnet" where
  "set_rfc1143 telopt us him t =
     (let n = unat (tn_q_size t)
      in case rfc1143_update telopt (Q_MAKE us him) (take n (tn_q t)) of
           Some q' \<Rightarrow> t\<lparr>tn_q := q' @ drop n (tn_q t)\<rparr>
         | None \<Rightarrow>
             (let (ok, rest) = try_alloc (tn_allocs t); t1 = t\<lparr>tn_allocs := rest\<rparr>
              in if \<not> ok
                 then warn ''_set_rfc1143'' TELNET_ENOMEM (''realloc() failed: '' @ strerror_ENOMEM) t1
                 else t1\<lparr>tn_q := (take n (tn_q t) @ replicate 4 \<lparr>rq_telopt = 0, rq_state = 0\<rparr>)
                                   [n := \<lparr>rq_telopt = telopt, rq_state = Q_MAKE us him\<rparr>],
                         tn_q_size := tn_q_size t + 4\<rparr>))"

definition send_negotiate :: "byte \<Rightarrow> byte \<Rightarrow> telnet \<Rightarrow> telnet" where
  "send_negotiate cmd telopt t = telnet_send_raw [TELNET_IAC, cmd, telopt] t"

section \<open>Negotiation\<close>

text \<open>
  \<open>_negotiate\<close>, one definition for each received command; \<open>q\<close> is the option's state when the
  command arrives.
\<close>

definition negotiate_WILL :: "byte \<Rightarrow> telnet_rfc1143 \<Rightarrow> telnet \<Rightarrow> telnet" where
  "negotiate_WILL telopt q t =
     (if Q_HIM q = Q_NO then
        (if check_telopt t telopt False
         then eh (TELNET_EV_WILL telopt) (send_negotiate TELNET_DO telopt
                (set_rfc1143 telopt (Q_US q) Q_YES t))
         else send_negotiate TELNET_DONT telopt t)
      else if Q_HIM q = Q_WANTNO then
        warn ''_negotiate'' TELNET_EPROTOCOL ''DONT answered by WILL''
          (eh (TELNET_EV_WONT telopt) (set_rfc1143 telopt (Q_US q) Q_NO t))
      else if Q_HIM q = Q_WANTNO_OP then
        warn ''_negotiate'' TELNET_EPROTOCOL ''DONT answered by WILL''
          (eh (TELNET_EV_WILL telopt) (set_rfc1143 telopt (Q_US q) Q_YES t))
      else if Q_HIM q = Q_WANTYES then
        eh (TELNET_EV_WILL telopt) (set_rfc1143 telopt (Q_US q) Q_YES t)
      else if Q_HIM q = Q_WANTYES_OP then
        eh (TELNET_EV_WILL telopt) (send_negotiate TELNET_DONT telopt
          (set_rfc1143 telopt (Q_US q) Q_WANTNO t))
      else t)"

definition negotiate_WONT :: "byte \<Rightarrow> telnet_rfc1143 \<Rightarrow> telnet \<Rightarrow> telnet" where
  "negotiate_WONT telopt q t =
     (if Q_HIM q = Q_YES then
        eh (TELNET_EV_WONT telopt) (send_negotiate TELNET_DONT telopt
          (set_rfc1143 telopt (Q_US q) Q_NO t))
      else if Q_HIM q = Q_WANTNO then
        eh (TELNET_EV_WONT telopt) (set_rfc1143 telopt (Q_US q) Q_NO t)
      else if Q_HIM q = Q_WANTNO_OP then
        eh (TELNET_EV_DO telopt) (set_rfc1143 telopt (Q_US q) Q_WANTYES t)
      else if Q_HIM q = Q_WANTYES \<or> Q_HIM q = Q_WANTYES_OP then
        set_rfc1143 telopt (Q_US q) Q_NO t
      else t)"

definition negotiate_DO :: "byte \<Rightarrow> telnet_rfc1143 \<Rightarrow> telnet \<Rightarrow> telnet" where
  "negotiate_DO telopt q t =
     (if Q_US q = Q_NO then
        (if check_telopt t telopt True
         then eh (TELNET_EV_DO telopt) (send_negotiate TELNET_WILL telopt
                (set_rfc1143 telopt Q_YES (Q_HIM q) t))
         else send_negotiate TELNET_WONT telopt t)
      else if Q_US q = Q_WANTNO then
        warn ''_negotiate'' TELNET_EPROTOCOL ''WONT answered by DO''
          (eh (TELNET_EV_DONT telopt) (set_rfc1143 telopt Q_NO (Q_HIM q) t))
      else if Q_US q = Q_WANTNO_OP then
        warn ''_negotiate'' TELNET_EPROTOCOL ''WONT answered by DO''
          (eh (TELNET_EV_DO telopt) (set_rfc1143 telopt Q_YES (Q_HIM q) t))
      else if Q_US q = Q_WANTYES then
        eh (TELNET_EV_DO telopt) (set_rfc1143 telopt Q_YES (Q_HIM q) t)
      else if Q_US q = Q_WANTYES_OP then
        eh (TELNET_EV_DO telopt) (send_negotiate TELNET_WONT telopt
          (set_rfc1143 telopt Q_WANTNO (Q_HIM q) t))
      else t)"

definition negotiate_DONT :: "byte \<Rightarrow> telnet_rfc1143 \<Rightarrow> telnet \<Rightarrow> telnet" where
  "negotiate_DONT telopt q t =
     (if Q_US q = Q_YES then
        eh (TELNET_EV_DONT telopt) (send_negotiate TELNET_WONT telopt
          (set_rfc1143 telopt Q_NO (Q_HIM q) t))
      else if Q_US q = Q_WANTNO then
        eh (TELNET_EV_WONT telopt) (set_rfc1143 telopt Q_NO (Q_HIM q) t)
      else if Q_US q = Q_WANTNO_OP then
        eh (TELNET_EV_WILL telopt) (send_negotiate TELNET_WILL telopt
          (set_rfc1143 telopt Q_WANTYES (Q_HIM q) t))
      else if Q_US q = Q_WANTYES \<or> Q_US q = Q_WANTYES_OP then
        set_rfc1143 telopt Q_NO (Q_HIM q) t
      else t)"

definition negotiate_proxy :: "byte \<Rightarrow> telnet \<Rightarrow> telnet" where
  "negotiate_proxy telopt t =
     (case tn_state t of
        TELNET_STATE_WILL \<Rightarrow> eh (TELNET_EV_WILL telopt) t
      | TELNET_STATE_WONT \<Rightarrow> eh (TELNET_EV_WONT telopt) t
      | TELNET_STATE_DO \<Rightarrow> eh (TELNET_EV_DO telopt) t
      | TELNET_STATE_DONT \<Rightarrow> eh (TELNET_EV_DONT telopt) t
      | _ \<Rightarrow> t)"

definition negotiate :: "byte \<Rightarrow> telnet \<Rightarrow> telnet" where
  "negotiate telopt t =
     (if tn_flags t AND TELNET_FLAG_PROXY \<noteq> 0 then negotiate_proxy telopt t
      else let q = get_rfc1143 t telopt
           in case tn_state t of
                TELNET_STATE_WILL \<Rightarrow> negotiate_WILL telopt q t
              | TELNET_STATE_WONT \<Rightarrow> negotiate_WONT telopt q t
              | TELNET_STATE_DO \<Rightarrow> negotiate_DO telopt q t
              | TELNET_STATE_DONT \<Rightarrow> negotiate_DONT telopt q t
              | _ \<Rightarrow> t)"

text \<open>
  \<open>telnet_init\<close>: \<open>calloc\<close> clears the structure. \<open>telnet_free\<close> releases the buffer and the option
  states, if there are any, before the structure itself.
\<close>

definition telnet_init :: "telnet_telopt list option \<Rightarrow> byte \<Rightarrow> allocs \<Rightarrow> telnet option" where
  "telnet_init telopts flags al =
     (let (ok, rest) = try_alloc al
      in if \<not> ok then None
         else Some \<lparr>tn_telopts = telopts, tn_q = [], tn_buffer = [], tn_buffer_size = 0,
           tn_buffer_pos = 0, tn_state = TELNET_STATE_DATA, tn_flags = flags, tn_sb_telopt = 0,
           tn_q_size = 0, tn_allocs = rest, tn_events = []\<rparr>)"

definition telnet_free :: "telnet \<Rightarrow> telnet" where
  "telnet_free t =
     (let t1 = (if tn_buffer_size t \<noteq> 0
                then t\<lparr>tn_buffer := [], tn_buffer_size := 0, tn_buffer_pos := 0\<rparr> else t)
      in if tn_q t1 \<noteq> [] then t1\<lparr>tn_q := [], tn_q_size := 0\<rparr> else t1)"

text \<open>\<open>telnet_negotiate\<close>: the application asks for a change.\<close>

definition telnet_negotiate :: "byte \<Rightarrow> byte \<Rightarrow> telnet \<Rightarrow> telnet" where
  "telnet_negotiate cmd telopt t =
     (if tn_flags t AND TELNET_FLAG_PROXY \<noteq> 0
      then telnet_send_raw [TELNET_IAC, cmd, telopt] t
      else let q = get_rfc1143 t telopt
           in if cmd = TELNET_WILL then
                (if Q_US q = Q_NO then
                   send_negotiate TELNET_WILL telopt (set_rfc1143 telopt Q_WANTYES (Q_HIM q) t)
                 else if Q_US q = Q_WANTNO then set_rfc1143 telopt Q_WANTNO_OP (Q_HIM q) t
                 else if Q_US q = Q_WANTYES_OP then set_rfc1143 telopt Q_WANTYES (Q_HIM q) t
                 else t)
              else if cmd = TELNET_WONT then
                (if Q_US q = Q_YES then
                   send_negotiate TELNET_WONT telopt (set_rfc1143 telopt Q_WANTNO (Q_HIM q) t)
                 else if Q_US q = Q_WANTYES then set_rfc1143 telopt Q_WANTYES_OP (Q_HIM q) t
                 else if Q_US q = Q_WANTNO_OP then set_rfc1143 telopt Q_WANTNO (Q_HIM q) t
                 else t)
              else if cmd = TELNET_DO then
                (if Q_HIM q = Q_NO then
                   send_negotiate TELNET_DO telopt (set_rfc1143 telopt (Q_US q) Q_WANTYES t)
                 else if Q_HIM q = Q_WANTNO then set_rfc1143 telopt (Q_US q) Q_WANTNO_OP t
                 else if Q_HIM q = Q_WANTYES_OP then set_rfc1143 telopt (Q_US q) Q_WANTYES t
                 else t)
              else if cmd = TELNET_DONT then
                (if Q_HIM q = Q_YES then
                   send_negotiate TELNET_DONT telopt (set_rfc1143 telopt (Q_US q) Q_WANTNO t)
                 else if Q_HIM q = Q_WANTYES then set_rfc1143 telopt (Q_US q) Q_WANTYES_OP t
                 else if Q_HIM q = Q_WANTNO_OP then set_rfc1143 telopt (Q_US q) Q_WANTNO t
                 else t)
              else t)"

section \<open>Basic lemmas\<close>

lemma tn_events_eh [trace_simps, simp]: "tn_events (eh ev t) = tn_events t @ [ev]"
  by (simp add: eh_def)

lemma eh_frame [frame_simps, simp]:
  "tn_telopts (eh ev t) = tn_telopts t" "tn_q (eh ev t) = tn_q t" "tn_q_size (eh ev t) = tn_q_size t"
  "tn_buffer (eh ev t) = tn_buffer t" "tn_buffer_size (eh ev t) = tn_buffer_size t"
  "tn_buffer_pos (eh ev t) = tn_buffer_pos t" "tn_state (eh ev t) = tn_state t"
  "tn_flags (eh ev t) = tn_flags t" "tn_sb_telopt (eh ev t) = tn_sb_telopt t"
  "tn_allocs (eh ev t) = tn_allocs t"
  by (simp_all add: eh_def)

lemma warn_eh [simp]: "warn func err msg t = eh (TELNET_EV_WARNING func (snprintf 512 msg)) t"
  by (simp add: warn_def telnet_error_ev_def)

lemma get_rfc1143_cong:
  "tn_q t' = tn_q t \<Longrightarrow> tn_q_size t' = tn_q_size t \<Longrightarrow> get_rfc1143 t' = get_rfc1143 t"
  by (simp add: get_rfc1143_def fun_eq_iff)

lemma get_rfc1143_eh [simp]: "get_rfc1143 (eh ev t) = get_rfc1143 t"
  by (rule get_rfc1143_cong) simp_all

lemma get_rfc1143_send [simp]: "get_rfc1143 (send_negotiate cmd opt t) = get_rfc1143 t"
  by (simp add: send_negotiate_def telnet_send_raw_def)

lemma set_rfc1143_frame [frame_simps, simp]:
  "tn_telopts (set_rfc1143 opt us him t) = tn_telopts t"
  "tn_buffer (set_rfc1143 opt us him t) = tn_buffer t"
  "tn_buffer_size (set_rfc1143 opt us him t) = tn_buffer_size t"
  "tn_buffer_pos (set_rfc1143 opt us him t) = tn_buffer_pos t"
  "tn_state (set_rfc1143 opt us him t) = tn_state t"
  "tn_flags (set_rfc1143 opt us him t) = tn_flags t"
  "tn_sb_telopt (set_rfc1143 opt us him t) = tn_sb_telopt t"
  by (auto simp: set_rfc1143_def Let_def split: option.splits prod.splits)

lemma send_negotiate_eh: "send_negotiate cmd opt t = eh (TELNET_EV_SEND [TELNET_IAC, cmd, opt]) t"
  by (simp add: send_negotiate_def telnet_send_raw_def)

definition nibble :: "byte \<Rightarrow> bool" where
  "nibble w \<longleftrightarrow> take_bit 4 w = w"

lemma nibble_numerals [simp]:
  "nibble 0" "nibble 1" "nibble 2" "nibble 3" "nibble 4" "nibble 5"
  by (simp_all add: nibble_def)

lemma Q_US_take_bit: "Q_US q = take_bit 4 (rq_state q)"
  by (simp add: Q_US_def take_bit_eq_mask mask_eq_exp_minus_1)

lemma bit_byte_bound: "bit (w :: byte) n \<Longrightarrow> n < 8"
  using bit_imp_le_length [of w n] by simp

lemma take_bit_drop_bit_byte: "take_bit 4 (drop_bit 4 (w :: byte)) = drop_bit 4 w"
  by (intro bit_eqI) (auto simp: bit_simps dest: bit_byte_bound)

lemma Q_HIM_drop_bit: "Q_HIM q = drop_bit 4 (rq_state q)"
proof -
  have "Q_HIM q = drop_bit 4 (rq_state q) AND mask 4"
    by (simp add: Q_HIM_def drop_bit_and mask_eq_exp_minus_1)
  then show ?thesis
    by (simp add: take_bit_eq_mask [symmetric] take_bit_drop_bit_byte)
qed

lemma nibble_Q [simp]: "nibble (Q_US q)" "nibble (Q_HIM q)"
proof -
  show "nibble (Q_US q)"
    by (simp add: nibble_def Q_US_take_bit)
  show "nibble (Q_HIM q)"
    by (simp add: nibble_def Q_HIM_drop_bit take_bit_drop_bit_byte)
qed

lemma Q_US_MAKE [simp]: "nibble us \<Longrightarrow> rq_state q = Q_MAKE us him \<Longrightarrow> Q_US q = us"
  by (simp add: Q_US_take_bit Q_MAKE_def nibble_def take_bit_push_bit)

lemma Q_HIM_MAKE [simp]:
  assumes "nibble us" "nibble him" "rq_state q = Q_MAKE us him"
  shows "Q_HIM q = him"
proof -
  have "drop_bit 4 us = 0"
    using drop_bit_take_bit [of 4 4 us] assms(1) by (simp add: nibble_def)
  moreover have "drop_bit 4 (push_bit 4 him) = take_bit 4 him"
    by (intro bit_eqI) (auto simp: bit_simps)
  ultimately show ?thesis
    using assms(2,3) by (simp add: Q_HIM_drop_bit Q_MAKE_def nibble_def)
qed

lemma Q_zero [simp]: "rq_state q = 0 \<Longrightarrow> Q_US q = 0" "rq_state q = 0 \<Longrightarrow> Q_HIM q = 0"
  by (simp_all add: Q_US_def Q_HIM_def)

section \<open>The option store\<close>

text \<open>
  \<open>wf_q\<close>: the array is as long as \<open>q_size\<close> says. \<open>tracked\<close>: the option has an entry. \<open>room\<close>:
  setting the option needs no memory, or gets it, and the one-byte counter does not wrap.
\<close>

definition wf_q :: "telnet \<Rightarrow> bool" where
  "wf_q t \<longleftrightarrow> unat (tn_q_size t) \<le> length (tn_q t)"

definition tracked :: "telnet \<Rightarrow> byte \<Rightarrow> bool" where
  "tracked t opt \<longleftrightarrow> opt \<in> rq_telopt ` set (take (unat (tn_q_size t)) (tn_q t))"

definition room :: "telnet \<Rightarrow> byte \<Rightarrow> bool" where
  "room t opt \<longleftrightarrow> tracked t opt \<or> (fst (try_alloc (tn_allocs t)) \<and> unat (tn_q_size t) < 252)"

lemma rfc1143_update_None: "rfc1143_update opt st es = None \<longleftrightarrow> opt \<notin> rq_telopt ` set es"
  by (induction es) auto

lemma rfc1143_update_Some:
  "rfc1143_update opt st es = Some es' \<Longrightarrow>
     length es' = length es \<and>
     find (\<lambda>e. rq_telopt e = opt) es' = map_option (\<lambda>e. e\<lparr>rq_state := st\<rparr>) (find (\<lambda>e. rq_telopt e = opt) es) \<and>
     find (\<lambda>e. rq_telopt e = opt) es \<noteq> None \<and>
     (\<forall>opt'. opt' \<noteq> opt \<longrightarrow> find (\<lambda>e. rq_telopt e = opt') es' = find (\<lambda>e. rq_telopt e = opt') es)"
proof (induction es arbitrary: es')
  case Nil
  then show ?case by simp
next
  case (Cons e es)
  then show ?case
    by (cases "rq_telopt e = opt") auto
qed

lemma find_append:
  "find P (xs @ ys) = (case find P xs of None \<Rightarrow> find P ys | Some x \<Rightarrow> Some x)"
  by (induction xs) auto

lemma set_rfc1143_tracked:
  assumes "wf_q t" "tracked t opt"
  obtains q' where "set_rfc1143 opt us him t = t\<lparr>tn_q := q' @ drop (unat (tn_q_size t)) (tn_q t)\<rparr>"
    "rfc1143_update opt (Q_MAKE us him) (take (unat (tn_q_size t)) (tn_q t)) = Some q'"
    "length q' = unat (tn_q_size t)"
proof -
  from assms(2) obtain q' where
    q': "rfc1143_update opt (Q_MAKE us him) (take (unat (tn_q_size t)) (tn_q t)) = Some q'"
    by (metis not_None_eq rfc1143_update_None tracked_def)
  with assms(1) have "length q' = unat (tn_q_size t)"
    by (auto dest!: rfc1143_update_Some simp: wf_q_def)
  with q' show ?thesis
    by (intro that) (simp_all add: set_rfc1143_def)
qed

lemma set_rfc1143_fresh:
  assumes "\<not> tracked t opt" "fst (try_alloc (tn_allocs t))"
  shows "set_rfc1143 opt us him t =
    t\<lparr>tn_allocs := snd (try_alloc (tn_allocs t)),
      tn_q := (take (unat (tn_q_size t)) (tn_q t) @ replicate 4 \<lparr>rq_telopt = 0, rq_state = 0\<rparr>)
                [unat (tn_q_size t) := \<lparr>rq_telopt = opt, rq_state = Q_MAKE us him\<rparr>],
      tn_q_size := tn_q_size t + 4\<rparr>"
proof -
  have "rfc1143_update opt (Q_MAKE us him) (take (unat (tn_q_size t)) (tn_q t)) = None"
    using assms(1) by (simp add: rfc1143_update_None tracked_def)
  with assms(2) show ?thesis
    by (cases "try_alloc (tn_allocs t)") (simp add: set_rfc1143_def Let_def)
qed

lemma unat_q_size_plus: "unat (n :: byte) < 252 \<Longrightarrow> unat (n + 4) = unat n + 4"
  by (simp add: unat_word_ariths)

lemma fresh_slots:
  assumes "wf_q t"
  shows "(take (unat (tn_q_size t)) (tn_q t) @ replicate 4 z)[unat (tn_q_size t) := e] =
    take (unat (tn_q_size t)) (tn_q t) @ [e, z, z, z]"
  using assms by (simp add: wf_q_def list_update_append numeral_eq_Suc)

lemma wf_q_set [simp]: "wf_q t \<Longrightarrow> wf_q (set_rfc1143 opt us him t)"
proof (cases "tracked t opt")
  case True
  assume "wf_q t"
  then show ?thesis
    using True by (rule set_rfc1143_tracked [of _ _ us him]) (auto simp: wf_q_def)
next
  case False
  assume wf: "wf_q t"
  show ?thesis
  proof (cases "fst (try_alloc (tn_allocs t))")
    case True
    have "unat (tn_q_size t + 4) \<le> unat (tn_q_size t) + 4"
      by (simp add: unat_word_ariths)
    then show ?thesis
      using wf unfolding set_rfc1143_fresh [OF False True] by (simp add: wf_q_def)
  next
    case alloc: False
    have "rfc1143_update opt (Q_MAKE us him) (take (unat (tn_q_size t)) (tn_q t)) = None"
      using False by (simp add: rfc1143_update_None tracked_def)
    with alloc wf show ?thesis
      by (cases "try_alloc (tn_allocs t)") (simp add: set_rfc1143_def Let_def wf_q_def)
  qed
qed

lemma get_set_rfc1143:
  assumes "wf_q t" "room t opt"
  shows "rq_state (get_rfc1143 (set_rfc1143 opt us him t) opt') =
    (if opt' = opt then Q_MAKE us him else rq_state (get_rfc1143 t opt'))"
proof (cases "tracked t opt")
  case True
  with assms(1) obtain q' where s: "set_rfc1143 opt us him t = t\<lparr>tn_q := q' @ drop (unat (tn_q_size t)) (tn_q t)\<rparr>"
    and u: "rfc1143_update opt (Q_MAKE us him) (take (unat (tn_q_size t)) (tn_q t)) = Some q'"
    and l: "length q' = unat (tn_q_size t)"
    by (rule set_rfc1143_tracked)
  from rfc1143_update_Some [OF u] l show ?thesis
    unfolding s by (auto simp: get_rfc1143_def split: option.splits)
next
  case False
  with assms(2) have "fst (try_alloc (tn_allocs t))" and small: "unat (tn_q_size t) < 252"
    by (auto simp: room_def)
  note s = set_rfc1143_fresh [OF False this(1), of us him, unfolded fresh_slots [OF assms(1)]]
  have len: "length (take (unat (tn_q_size t)) (tn_q t)) = unat (tn_q_size t)"
    using assms(1) by (simp add: wf_q_def)
  have none: "find (\<lambda>e. rq_telopt e = opt) (take (unat (tn_q_size t)) (tn_q t)) = None"
    using False by (auto simp: tracked_def find_None_iff)
  show ?thesis
    unfolding s get_rfc1143_def using none len
    by (auto simp: unat_q_size_plus [OF small] find_append split: option.splits)
qed

lemma tracked_set:
  assumes "wf_q t" "room t opt"
  shows "tracked (set_rfc1143 opt us him t) opt"
proof (cases "tracked t opt")
  case True
  with assms(1) obtain q' where s: "set_rfc1143 opt us him t = t\<lparr>tn_q := q' @ drop (unat (tn_q_size t)) (tn_q t)\<rparr>"
    and u: "rfc1143_update opt (Q_MAKE us him) (take (unat (tn_q_size t)) (tn_q t)) = Some q'"
    and l: "length q' = unat (tn_q_size t)"
    by (rule set_rfc1143_tracked)
  from rfc1143_update_Some [OF u] have "find (\<lambda>e. rq_telopt e = opt) q' \<noteq> None"
    by auto
  then show ?thesis
    unfolding s using l by (auto simp: tracked_def find_None_iff)
next
  case False
  with assms(2) have "fst (try_alloc (tn_allocs t))" and small: "unat (tn_q_size t) < 252"
    by (auto simp: room_def)
  note s = set_rfc1143_fresh [OF False this(1), of us him, unfolded fresh_slots [OF assms(1)]]
  show ?thesis
    unfolding s tracked_def using assms(1) by (simp add: unat_q_size_plus [OF small] wf_q_def)
qed

definition opt_us :: "telnet \<Rightarrow> byte \<Rightarrow> byte" where
  "opt_us t opt = Q_US (get_rfc1143 t opt)"

definition opt_him :: "telnet \<Rightarrow> byte \<Rightarrow> byte" where
  "opt_him t opt = Q_HIM (get_rfc1143 t opt)"

text \<open>
  What negotiation relies on: the two half-byte states of an option can be read back after they
  were stored, storing one option leaves the others alone, and an option that was stored once can
  be stored again.
\<close>

locale option_store =
  fixes us :: "'s \<Rightarrow> byte \<Rightarrow> byte"
    and him :: "'s \<Rightarrow> byte \<Rightarrow> byte"
    and put :: "byte \<Rightarrow> byte \<Rightarrow> byte \<Rightarrow> 's \<Rightarrow> 's"
    and invar :: "'s \<Rightarrow> bool"
    and can_put :: "'s \<Rightarrow> byte \<Rightarrow> bool"
  assumes us_put: "invar s \<Longrightarrow> can_put s opt \<Longrightarrow> nibble u \<Longrightarrow> nibble h \<Longrightarrow>
      us (put opt u h s) opt' = (if opt' = opt then u else us s opt')"
    and him_put: "invar s \<Longrightarrow> can_put s opt \<Longrightarrow> nibble u \<Longrightarrow> nibble h \<Longrightarrow>
      him (put opt u h s) opt' = (if opt' = opt then h else him s opt')"
    and nibble_us: "nibble (us s opt)"
    and nibble_him: "nibble (him s opt)"
    and invar_put: "invar s \<Longrightarrow> invar (put opt u h s)"
    and can_put_put: "invar s \<Longrightarrow> can_put s opt \<Longrightarrow> can_put (put opt u h s) opt"
begin

lemma put_him_only:
  assumes "invar s" "can_put s opt" "nibble h"
  shows "us (put opt (us s opt) h s) = us s" "him (put opt (us s opt) h s) = (him s)(opt := h)"
  using assms by (auto simp: us_put him_put nibble_us)

lemma put_us_only:
  assumes "invar s" "can_put s opt" "nibble u"
  shows "us (put opt u (him s opt) s) = (us s)(opt := u)" "him (put opt u (him s opt) s) = him s"
  using assms by (auto simp: us_put him_put nibble_him)

lemma put_put:
  assumes "invar s" "can_put s opt" "nibble u" "nibble h" "nibble u'" "nibble h'"
  shows "us (put opt u' h' (put opt u h s)) = us (put opt u' h' s)"
    "him (put opt u' h' (put opt u h s)) = him (put opt u' h' s)"
  using assms by (auto simp: us_put him_put invar_put can_put_put)

end

interpretation store: option_store opt_us opt_him set_rfc1143 wf_q room
proof
  fix t :: telnet and opt u h opt'
  assume a: "wf_q t" "room t opt"
  show "room (set_rfc1143 opt u h t) opt"
    using tracked_set [OF a] by (simp add: room_def)
  assume n: "nibble u" "nibble h"
  show "opt_us (set_rfc1143 opt u h t) opt' = (if opt' = opt then u else opt_us t opt')"
    using get_set_rfc1143 [OF a, of u h opt'] n Q_US_MAKE by (auto simp: opt_us_def Q_US_def)
  show "opt_him (set_rfc1143 opt u h t) opt' = (if opt' = opt then h else opt_him t opt')"
    using get_set_rfc1143 [OF a, of u h opt'] n Q_HIM_MAKE by (auto simp: opt_him_def Q_HIM_def)
qed (simp_all add: opt_us_def opt_him_def)

lemma opt_eh [simp]: "opt_us (eh ev t) = opt_us t" "opt_him (eh ev t) = opt_him t"
  by (simp_all add: opt_us_def opt_him_def fun_eq_iff)

section \<open>RFC 1143 as an abstract machine\<close>

datatype qstate = NO | YES | WANTNO | WANTYES | WANTNO_OP | WANTYES_OP

fun q_code :: "qstate \<Rightarrow> byte" where
  "q_code NO = Q_NO" | "q_code YES = Q_YES" | "q_code WANTNO = Q_WANTNO"
| "q_code WANTYES = Q_WANTYES" | "q_code WANTNO_OP = Q_WANTNO_OP" | "q_code WANTYES_OP = Q_WANTYES_OP"

text \<open>
  The Q method, for one side of one option: the next state and the answer, \<open>Some True\<close> to agree
  or ask for the option, \<open>Some False\<close> to refuse or end it. \<open>q_enable\<close> is the receipt of WILL or
  DO, \<open>q_disable\<close> of WONT or DONT, \<open>q_request\<close> a request of the local application.
\<close>

fun q_enable :: "bool \<Rightarrow> qstate \<Rightarrow> qstate \<times> bool option" where
  "q_enable agree NO = (if agree then (YES, Some True) else (NO, Some False))"
| "q_enable agree YES = (YES, None)"
| "q_enable agree WANTNO = (NO, None)"
| "q_enable agree WANTNO_OP = (YES, None)"
| "q_enable agree WANTYES = (YES, None)"
| "q_enable agree WANTYES_OP = (WANTNO, Some False)"

fun q_disable :: "qstate \<Rightarrow> qstate \<times> bool option" where
  "q_disable NO = (NO, None)"
| "q_disable YES = (NO, Some False)"
| "q_disable WANTNO = (NO, None)"
| "q_disable WANTNO_OP = (WANTYES, Some True)"
| "q_disable WANTYES = (NO, None)"
| "q_disable WANTYES_OP = (NO, None)"

fun q_request :: "bool \<Rightarrow> qstate \<Rightarrow> qstate \<times> bool option" where
  "q_request True NO = (WANTYES, Some True)"
| "q_request True WANTNO = (WANTNO_OP, None)"
| "q_request True WANTYES_OP = (WANTYES, None)"
| "q_request False YES = (WANTNO, Some False)"
| "q_request False WANTYES = (WANTYES_OP, None)"
| "q_request False WANTNO_OP = (WANTNO, None)"
| "q_request on s = (s, None)"

text \<open>The remote side of an option is named by WILL, WONT, DO and DONT as the peer sees it.\<close>

definition side :: "bool \<Rightarrow> telnet \<Rightarrow> byte \<Rightarrow> byte" where
  "side remote t opt = (if remote then opt_him t opt else opt_us t opt)"

definition reply :: "bool \<Rightarrow> byte \<Rightarrow> bool option \<Rightarrow> byte list" where
  "reply remote opt r =
     (case r of
        None \<Rightarrow> []
      | Some True \<Rightarrow> [TELNET_IAC, if remote then TELNET_DO else TELNET_WILL, opt]
      | Some False \<Rightarrow> [TELNET_IAC, if remote then TELNET_DONT else TELNET_WONT, opt])"

definition command_state :: "bool \<Rightarrow> bool \<Rightarrow> telnet_state" where
  "command_state remote on =
     (if remote then (if on then TELNET_STATE_WILL else TELNET_STATE_WONT)
      else (if on then TELNET_STATE_DO else TELNET_STATE_DONT))"

definition request_command :: "bool \<Rightarrow> bool \<Rightarrow> byte" where
  "request_command remote on =
     (if remote then (if on then TELNET_DO else TELNET_DONT)
      else (if on then TELNET_WILL else TELNET_WONT))"

fun sent :: "telnet_event list \<Rightarrow> byte list" where
  "sent [] = []"
| "sent (TELNET_EV_SEND bs # evs) = bs @ sent evs"
| "sent (_ # evs) = sent evs"

lemma sent_append [trace_simps, simp]: "sent (xs @ ys) = sent xs @ sent ys"
  by (induction xs rule: sent.induct) simp_all

lemma sent_set_rfc1143 [simp]: "sent (tn_events (set_rfc1143 opt us him t)) = sent (tn_events t)"
  by (auto simp: set_rfc1143_def Let_def split: option.splits prod.splits)

lemma check_telopt_cong: "tn_telopts t' = tn_telopts t \<Longrightarrow> check_telopt t' = check_telopt t"
  by (simp add: check_telopt_def fun_eq_iff)

lemmas negotiate_defs = negotiate_def negotiate_WILL_def negotiate_WONT_def negotiate_DO_def
  negotiate_DONT_def command_state_def side_def reply_def send_negotiate_eh Let_def
  opt_us_def [symmetric] opt_him_def [symmetric]

lemmas store_laws = store.put_him_only store.put_us_only

definition negotiation_step :: "bool \<Rightarrow> byte \<Rightarrow> qstate \<times> bool option \<Rightarrow> telnet \<Rightarrow> telnet \<Rightarrow> bool" where
  "negotiation_step remote opt next t t' \<longleftrightarrow>
     side remote t' = (side remote t)(opt := q_code (fst next)) \<and>
     side (\<not> remote) t' = side (\<not> remote) t \<and>
     sent (tn_events t') = sent (tn_events t) @ reply remote opt (snd next)"

lemma q_code_distinct: "q_code s = q_code s' \<longleftrightarrow> s = s'"
  by (cases s; cases s') simp_all

lemma negotiate_step:
  assumes np: "tn_flags t AND TELNET_FLAG_PROXY = 0" and st: "wf_q t" "room t opt"
    and cmd: "tn_state t = command_state remote on" and s: "side remote t opt = q_code s"
    and ok: "\<not> (remote \<and> \<not> on \<and> s = WANTNO_OP)"
  shows "negotiation_step remote opt (if on then q_enable (check_telopt t opt (\<not> remote)) s else q_disable s)
    t (negotiate opt t)"
proof -
  have upd: "(side remote t)(opt := q_code s) = side remote t"
    using s by auto
  show ?thesis
    using np st cmd s upd ok by (cases remote; cases on; cases s)
      (simp_all add: negotiation_step_def negotiate_defs store_laws fun_eq_iff)
qed

lemma telnet_negotiate_step:
  assumes np: "tn_flags t AND TELNET_FLAG_PROXY = 0" and st: "wf_q t" "room t opt"
    and s: "side remote t opt = q_code s"
  shows "negotiation_step remote opt (q_request on s) t (telnet_negotiate (request_command remote on) opt t)"
proof -
  have upd: "(side remote t)(opt := q_code s) = side remote t"
    using s by auto
  show ?thesis
    using np st s upd by (cases remote; cases on; cases s)
      (simp_all add: negotiation_step_def telnet_negotiate_def request_command_def negotiate_defs
        store_laws fun_eq_iff)
qed

section \<open>Properties\<close>

text \<open>
  C8: option negotiation implements RFC 1143. For a received WILL, WONT, DO or DONT, in whatever
  state the option is, the tracker moves the side of the option the command is about to the state
  the Q method prescribes, leaves the other side and all other options alone, and sends exactly the
  prescribed answer. The one case left out is WONT while a request to enable the option waits
  behind an unanswered DONT.
\<close>

theorem negotiate_rfc1143:
  assumes "tn_flags t AND TELNET_FLAG_PROXY = 0" "wf_q t" "room t opt"
    "tn_state t = command_state remote on" "side remote t opt = q_code s"
    "\<not> (remote \<and> \<not> on \<and> s = WANTNO_OP)"
  shows "negotiation_step remote opt (if on then q_enable (check_telopt t opt (\<not> remote)) s else q_disable s)
    t (negotiate opt t)"
  using assms by (rule negotiate_step)

definition demo_telnet :: telnet where
  "demo_telnet = the (telnet_init (Some [\<lparr>to_telopt = 1, to_us = TELNET_WONT, to_him = TELNET_DO\<rparr>]) 0 [])"

lemma demo_telnet_simps:
  "tn_flags demo_telnet = 0" "tn_q demo_telnet = []" "tn_q_size demo_telnet = 0" "tn_allocs demo_telnet = []"
  "tn_telopts demo_telnet = Some [\<lparr>to_telopt = 1, to_us = TELNET_WONT, to_him = TELNET_DO\<rparr>]"
  "tn_events demo_telnet = []"
  by (simp_all add: demo_telnet_def telnet_init_def)

theorem negotiate_rfc1143_witness:
  "negotiation_step True TELNET_TELOPT_ECHO (YES, Some True) (demo_telnet\<lparr>tn_state := TELNET_STATE_WILL\<rparr>)
     (negotiate TELNET_TELOPT_ECHO (demo_telnet\<lparr>tn_state := TELNET_STATE_WILL\<rparr>))"
  using negotiate_rfc1143 [of "demo_telnet\<lparr>tn_state := TELNET_STATE_WILL\<rparr>" TELNET_TELOPT_ECHO True True NO]
  by (simp add: demo_telnet_simps wf_q_def room_def command_state_def side_def opt_him_def
      get_rfc1143_def check_telopt_def)

text \<open>
  A request of the application through \<open>telnet_negotiate\<close> follows RFC 1143 in every state: it
  is sent at once when nothing is pending, queued behind an opposite request that is, and dropped
  when it asks for what is already so or already asked for.
\<close>

theorem telnet_negotiate_rfc1143:
  assumes "tn_flags t AND TELNET_FLAG_PROXY = 0" "wf_q t" "room t opt" "side remote t opt = q_code s"
  shows "negotiation_step remote opt (q_request on s) t (telnet_negotiate (request_command remote on) opt t)"
  using assms by (rule telnet_negotiate_step)

theorem telnet_negotiate_rfc1143_witness:
  "negotiation_step False TELNET_TELOPT_TTYPE (WANTYES, Some True) demo_telnet
     (telnet_negotiate TELNET_WILL TELNET_TELOPT_TTYPE demo_telnet)"
  using telnet_negotiate_rfc1143 [of demo_telnet TELNET_TELOPT_TTYPE False NO True]
  by (simp add: demo_telnet_simps wf_q_def room_def side_def opt_us_def get_rfc1143_def request_command_def)

text \<open>
  A queued request to enable a remote option is lost. When WONT answers our DONT while a
  request to enable waits in the queue, RFC 1143 sends DO; the code records the option as
  requested, reports a DO event and sends nothing, and from then on every further request to
  enable the option is ignored as already made.
\<close>

theorem queued_enable_request_lost:
  assumes "tn_flags t AND TELNET_FLAG_PROXY = 0" "wf_q t" "room t opt"
    "tn_state t = TELNET_STATE_WONT" "opt_him t opt = Q_WANTNO_OP"
  shows "opt_him (negotiate opt t) opt = Q_WANTYES \<and> sent (tn_events (negotiate opt t)) = sent (tn_events t) \<and>
    telnet_negotiate TELNET_DO opt (negotiate opt t) = negotiate opt t \<and>
    snd (q_disable WANTNO_OP) = Some True"
proof -
  have n: "negotiate opt t = eh (TELNET_EV_DO opt) (set_rfc1143 opt (opt_us t opt) Q_WANTYES t)"
    using assms(1,4,5) by (simp add: negotiate_defs)
  have h: "opt_him (negotiate opt t) opt = Q_WANTYES"
    using assms(2,3) by (simp add: n store_laws)
  have "tn_flags (negotiate opt t) = tn_flags t"
    by (simp add: n)
  with h assms(1) have "telnet_negotiate TELNET_DO opt (negotiate opt t) = negotiate opt t"
    by (simp add: telnet_negotiate_def Let_def opt_him_def [symmetric])
  with h n show ?thesis
    by simp
qed

theorem queued_enable_request_lost_witness:
  "\<exists>t. opt_him t TELNET_TELOPT_ECHO = Q_WANTNO_OP \<and>
     sent (tn_events (negotiate TELNET_TELOPT_ECHO t)) = sent (tn_events t)"
proof -
  define t where "t = demo_telnet\<lparr>tn_state := TELNET_STATE_WONT, tn_q_size := 4,
    tn_q := \<lparr>rq_telopt = 1, rq_state = 64\<rparr> # replicate 3 \<lparr>rq_telopt = 0, rq_state = 0\<rparr>\<rparr>"
  have "opt_him t TELNET_TELOPT_ECHO = Q_WANTNO_OP"
    by (simp add: t_def opt_him_def get_rfc1143_def Q_HIM_def)
  with queued_enable_request_lost [of t TELNET_TELOPT_ECHO] show ?thesis
    by (intro exI [of _ t]) (simp add: t_def demo_telnet_simps wf_q_def room_def)
qed

text \<open>
  The option table wraps around. The table grows by four entries for each new option and
  counts them in one byte: the option that brings the count to 256 resets it to zero, and every
  option's state, the new one's included, reads as never negotiated.
\<close>

theorem option_table_wraps:
  assumes "tn_q_size t = 252" "\<not> tracked t opt" "fst (try_alloc (tn_allocs t))"
  shows "tn_q_size (set_rfc1143 opt us him t) = 0 \<and>
    (\<forall>opt'. opt_us (set_rfc1143 opt us him t) opt' = Q_NO \<and> opt_him (set_rfc1143 opt us him t) opt' = Q_NO)"
  unfolding set_rfc1143_fresh [OF assms(2,3)] using assms(1)
  by (simp add: opt_us_def opt_him_def get_rfc1143_def)

theorem option_table_wraps_witness:
  "\<exists>t. tn_q_size t = 252 \<and> tn_q_size (set_rfc1143 5 Q_YES Q_NO t) = 0"
proof -
  define t where "t = demo_telnet\<lparr>tn_q_size := 252, tn_q := replicate 252 \<lparr>rq_telopt = 0, rq_state = 0\<rparr>\<rparr>"
  have "\<not> tracked t 5"
    by (auto simp: t_def tracked_def)
  with option_table_wraps [of t 5] show ?thesis
    by (intro exI [of _ t]) (simp add: t_def demo_telnet_simps)
qed

end
