(* ===== verification/Telnet_Environ.thy ===== *)
theory Telnet_Environ
  imports Telnet_Options
begin

text \<open>
  Subnegotiation in \<^verbatim>\<open>telnet.c\<close>, first part: the growing buffer a subnegotiation is collected
  in, and the parser for its ENVIRON and NEW-ENVIRON forms. The parser rewrites the buffer in place
  with its own read and write positions, so it is modelled over the buffer's memory with every
  access checked; the reference parser works on plain lists, and the lemmas show that the in-place
  parser computes the same values and never leaves the buffer.
\<close>

section \<open>The buffer\<close>

definition buffer_sizes :: "nat list" where
  "buffer_sizes = [0, 512, 2048, 8192, 16384]"

definition buffer_sizes_count :: nat where
  "buffer_sizes_count = length buffer_sizes"

fun find_size :: "nat \<Rightarrow> nat list \<Rightarrow> nat" where
  "find_size sz [] = 0"
| "find_size sz (s # ss) = (if s = sz then 0 else Suc (find_size sz ss))"

text \<open>The bytes \<open>realloc\<close> adds are indeterminate; the model fills them with zero.\<close>

definition grow_buffer :: "telnet \<Rightarrow> telnet_error \<times> telnet" where
  "grow_buffer t =
     (let i = find_size (tn_buffer_size t) buffer_sizes
      in if i \<ge> buffer_sizes_count - 1
         then telnet_error_ev ''_buffer_byte'' TELNET_EOVERFLOW False
                ''subnegotiation buffer size limit reached'' t
         else let (ok, rest) = try_alloc (tn_allocs t); t1 = t\<lparr>tn_allocs := rest\<rparr>;
                  new_sz = buffer_sizes ! (i + 1)
              in if \<not> ok
                 then telnet_error_ev ''_buffer_byte'' TELNET_ENOMEM False ''realloc() failed'' t1
                 else (TELNET_EOK, t1\<lparr>tn_buffer := tn_buffer t @ replicate (new_sz - length (tn_buffer t)) 0,
                         tn_buffer_size := new_sz\<rparr>))"

definition buffer_byte :: "byte \<Rightarrow> telnet \<Rightarrow> (telnet_error \<times> telnet) option" where
  "buffer_byte b t =
     (let (err, t1) = (if tn_buffer_pos t = tn_buffer_size t then grow_buffer t else (TELNET_EOK, t))
      in if err \<noteq> TELNET_EOK then Some (err, t1)
         else do {
           mem \<leftarrow> store (tn_buffer t1) (tn_buffer_pos t1) b;
           Some (TELNET_EOK, t1\<lparr>tn_buffer := mem, tn_buffer_pos := tn_buffer_pos t1 + 1\<rparr>)
         })"

section \<open>Strings in the buffer\<close>

definition cstr_at :: "byte list \<Rightarrow> nat \<Rightarrow> byte list" where
  "cstr_at mem off = takeWhile (\<lambda>b. b \<noteq> 0) (drop off mem)"

definition strlen_at :: "byte list \<Rightarrow> nat \<Rightarrow> nat option" where
  "strlen_at mem off = (if 0 \<in> set (drop off mem) then Some (length (cstr_at mem off)) else None)"

section \<open>ENVIRON and NEW-ENVIRON\<close>

function environ_count :: "byte list \<Rightarrow> nat \<Rightarrow> nat \<Rightarrow> nat \<Rightarrow> nat option" where
  "environ_count mem sz c count =
     (if c < sz then do {
        b \<leftarrow> load mem c;
        if b = TELNET_ENVIRON_VAR \<or> b = TELNET_ENVIRON_USERVAR
        then environ_count mem sz (c + 1) (count + 1)
        else if b = TELNET_ENVIRON_ESC then environ_count mem sz (c + 1 + 1) count
        else environ_count mem sz (c + 1) count
      } else Some count)"
  by pat_completeness auto
termination
  by (relation "measure (\<lambda>(mem, sz, c, count). sz - c)") auto

declare environ_count.simps [simp del]

text \<open>
  The loop that copies a name (it stops at VAR, VALUE and USERVAR) or a value (it stops at VAR and
  USERVAR) down to the write position, removing escapes.
\<close>

function environ_scan :: "(byte \<Rightarrow> bool) \<Rightarrow> byte list \<Rightarrow> nat \<Rightarrow> nat \<Rightarrow> nat \<Rightarrow> (byte list \<times> nat \<times> nat) option" where
  "environ_scan stop mem sz c out =
     (if c < sz then do {
        b \<leftarrow> load mem c;
        if stop b then Some (mem, c, out)
        else do {
          let c1 = (if b = TELNET_ENVIRON_ESC then c + 1 else c);
          v \<leftarrow> load mem c1;
          mem' \<leftarrow> store mem out v;
          environ_scan stop mem' sz (c1 + 1) (out + 1)
        }
      } else Some (mem, c, out))"
  by pat_completeness auto
termination
  by (relation "measure (\<lambda>(stop, mem, sz, c, out). sz - c)") auto

declare environ_scan.simps [simp del]

definition name_end :: "byte \<Rightarrow> bool" where
  "name_end b \<longleftrightarrow> b = TELNET_ENVIRON_VAR \<or> b = TELNET_ENVIRON_VALUE \<or> b = TELNET_ENVIRON_USERVAR"

definition value_end :: "byte \<Rightarrow> bool" where
  "value_end b \<longleftrightarrow> b = TELNET_ENVIRON_VAR \<or> b = TELNET_ENVIRON_USERVAR"

text \<open>An entry of \<open>values\<close>: the type and the offsets of the two strings; no offset is the string \<open>""\<close>.\<close>

type_synonym environ_slot = "byte \<times> nat \<times> nat option"

definition environ_arg :: "byte list \<Rightarrow> nat \<Rightarrow> nat \<Rightarrow> nat \<Rightarrow> (environ_slot \<times> byte list \<times> nat \<times> nat) option" where
  "environ_arg mem sz c out = do {
     ty \<leftarrow> load mem c;
     (mem1, c1, out1) \<leftarrow> environ_scan name_end mem sz (c + 1) out;
     mem2 \<leftarrow> store mem1 out1 0;
     let out2 = out1 + 1;
     v \<leftarrow> (if c1 < sz then load mem2 c1 else Some 0);
     if c1 < sz \<and> v = TELNET_ENVIRON_VALUE
     then do {
       (mem3, c3, out3) \<leftarrow> environ_scan value_end mem2 sz (c1 + 1) out2;
       mem4 \<leftarrow> store mem3 out3 0;
       Some ((ty, out, Some out2), mem4, c3, out3 + 1)
     }
     else Some ((ty, out, None), mem2, c1, out2)
   }"

fun environ_args :: "nat \<Rightarrow> byte list \<Rightarrow> nat \<Rightarrow> nat \<Rightarrow> nat \<Rightarrow> (environ_slot list \<times> byte list) option" where
  "environ_args 0 mem sz c out = Some ([], mem)"
| "environ_args (Suc n) mem sz c out = do {
     (slot, mem1, c1, out1) \<leftarrow> environ_arg mem sz c out;
     (slots, mem2) \<leftarrow> environ_args n mem1 sz c1 out1;
     Some (slot # slots, mem2)
   }"

definition environ_value :: "byte list \<Rightarrow> environ_slot \<Rightarrow> telnet_environ" where
  "environ_value mem slot =
     (case slot of (ty, var, val) \<Rightarrow>
        \<lparr>ev_type = ty, ev_var = Some (cstr_at mem var),
         ev_value = Some (case val of None \<Rightarrow> [] | Some off \<Rightarrow> cstr_at mem off)\<rparr>)"

definition environ_warn :: "byte \<Rightarrow> string \<Rightarrow> telnet \<Rightarrow> telnet" where
  "environ_warn ty msg t =
     warn ''_environ_telnet'' TELNET_EPROTOCOL (''telopt '' @ dec_of_nat (unat ty) @ msg) t"

definition environ_telnet :: "byte \<Rightarrow> nat \<Rightarrow> telnet \<Rightarrow> (int \<times> telnet) option" where
  "environ_telnet ty sz t =
     (if sz = 0 then Some (0, t)
      else do {
        b0 \<leftarrow> load (tn_buffer t) 0;
        if b0 \<noteq> TELNET_ENVIRON_SEND \<and> b0 \<noteq> TELNET_ENVIRON_IS \<and> b0 \<noteq> TELNET_ENVIRON_INFO
        then Some (0, environ_warn ty '' subneg has invalid command'' t)
        else if sz = 1 then Some (1, eh (TELNET_EV_ENVIRON b0 []) t)
        else do {
          b1 \<leftarrow> load (tn_buffer t) 1;
          if b1 \<noteq> TELNET_ENVIRON_VAR \<and> b1 \<noteq> TELNET_ENVIRON_USERVAR
          then Some (0, environ_warn ty '' subneg missing variable type'' t)
          else do {
            bl \<leftarrow> load (tn_buffer t) (sz - 1);
            if bl = TELNET_ENVIRON_ESC
            then Some (0, environ_warn ty '' subneg ends with ESC'' t)
            else do {
              count \<leftarrow> environ_count (tn_buffer t) sz 1 0;
              let (ok, rest) = try_alloc (tn_allocs t);
              let t1 = t\<lparr>tn_allocs := rest\<rparr>;
              if \<not> ok
              then Some (0, warn ''_environ_telnet'' TELNET_ENOMEM (''calloc() failed: '' @ strerror_ENOMEM) t1)
              else do {
                (slots, mem) \<leftarrow> environ_args count (tn_buffer t) sz 1 0;
                Some (1, eh (TELNET_EV_ENVIRON b0 (map (environ_value mem) slots)) (t1\<lparr>tn_buffer := mem\<rparr>))
              }
            }
          }
        }
      })"

section \<open>ENVIRON: the reference parser\<close>

fun environ_take :: "(byte \<Rightarrow> bool) \<Rightarrow> byte list \<Rightarrow> byte list \<times> byte list" where
  "environ_take stop [] = ([], [])"
| "environ_take stop (b # bs) =
     (if stop b then ([], b # bs)
      else if b = TELNET_ENVIRON_ESC
      then (case bs of [] \<Rightarrow> ([], []) | x # xs \<Rightarrow> (case environ_take stop xs of (seg, rest) \<Rightarrow> (x # seg, rest)))
      else (case environ_take stop bs of (seg, rest) \<Rightarrow> (b # seg, rest)))"

lemma environ_take_length:
  "environ_take stop bs = (seg, rest) \<Longrightarrow> length seg + length rest \<le> length bs"
proof (induction stop bs arbitrary: seg rest rule: environ_take.induct)
  case (2 stop b bs)
  then show ?case
    by (fastforce split: if_splits prod.splits list.splits)
qed simp

lemma environ_take_suffix: "environ_take stop bs = (seg, rest) \<Longrightarrow> suffix rest bs"
proof (induction stop bs arbitrary: seg rest rule: environ_take.induct)
  case (2 stop b bs)
  then show ?case
    by (auto split: if_splits prod.splits list.splits intro: suffix_ConsI)
qed simp

lemma environ_take_rest: "environ_take stop bs = (seg, rest) \<Longrightarrow> rest \<noteq> [] \<Longrightarrow> stop (hd rest)"
  by (induction stop bs arbitrary: seg rest rule: environ_take.induct)
    (auto split: if_splits prod.splits list.splits)

type_synonym environ_entry = "byte \<times> byte list \<times> byte list option"

function environ_entries :: "byte list \<Rightarrow> environ_entry list" where
  "environ_entries [] = []"
| "environ_entries (ty # bs) =
     (case environ_take name_end bs of (name, r) \<Rightarrow>
        if r \<noteq> [] \<and> hd r = TELNET_ENVIRON_VALUE
        then (case environ_take value_end (tl r) of (val, r') \<Rightarrow> (ty, name, Some val) # environ_entries r')
        else (ty, name, None) # environ_entries r)"
  by pat_completeness auto
termination
  by (relation "measure length") (auto dest!: environ_take_length [OF sym] simp: neq_Nil_conv)

definition c_prefix :: "byte list \<Rightarrow> byte list" where
  "c_prefix bs = takeWhile (\<lambda>b. b \<noteq> 0) bs"

definition environ_of_entry :: "environ_entry \<Rightarrow> telnet_environ" where
  "environ_of_entry e =
     (case e of (ty, name, val) \<Rightarrow>
        \<lparr>ev_type = ty, ev_var = Some (c_prefix name),
         ev_value = Some (case val of None \<Rightarrow> [] | Some v \<Rightarrow> c_prefix v)\<rparr>)"

section \<open>ENVIRON: the in-place parser computes the reference parser\<close>

text \<open>The unread bytes, from the read position to the end of the subnegotiation.\<close>

definition unread :: "byte list \<Rightarrow> nat \<Rightarrow> nat \<Rightarrow> byte list" where
  "unread mem sz c = drop c (take sz mem)"

lemma unread_Nil [simp]: "sz \<le> c \<Longrightarrow> unread mem sz c = []"
  by (simp add: unread_def)

lemma unread_nonempty: "unread mem sz c \<noteq> [] \<Longrightarrow> c < sz"
  by (rule ccontr) simp

lemma unread_Cons: "c < sz \<Longrightarrow> sz \<le> length mem \<Longrightarrow> unread mem sz c = mem ! c # unread mem sz (Suc c)"
  by (simp add: unread_def Cons_nth_drop_Suc [symmetric])

lemma unread_upd [simp]: "out < c \<Longrightarrow> unread (mem[out := v]) sz c = unread mem sz c"
  by (simp add: unread_def take_update_swap)

lemma length_unread: "sz \<le> length mem \<Longrightarrow> length (unread mem sz c) = sz - c"
  by (simp add: unread_def)

lemma unread_cong: "drop c mem' = drop c mem \<Longrightarrow> c \<le> c' \<Longrightarrow> unread mem' sz c' = unread mem sz c'"
  unfolding unread_def by (metis drop_drop le_add_diff_inverse2 drop_take)

text \<open>Writing a segment at the write position.\<close>

definition write_at :: "byte list \<Rightarrow> nat \<Rightarrow> byte list \<Rightarrow> byte list" where
  "write_at mem out seg = take out mem @ seg @ drop (out + length seg) mem"

lemma write_at_Nil [simp]: "write_at mem out [] = mem"
  by (simp add: write_at_def)

lemma write_at_Cons:
  "out < length mem \<Longrightarrow> write_at (mem[out := v]) (Suc out) seg = write_at mem out (v # seg)"
  by (simp add: write_at_def take_Suc_conv_app_nth)

lemma length_write_at: "out + length seg \<le> length mem \<Longrightarrow> length (write_at mem out seg) = length mem"
  by (simp add: write_at_def)

lemma take_write_at: "out \<le> length mem \<Longrightarrow> k \<le> out \<Longrightarrow> take k (write_at mem out seg) = take k mem"
  by (simp add: write_at_def min_def)

lemma drop_write_at: "out + length seg \<le> length mem \<Longrightarrow> out + length seg \<le> c \<Longrightarrow>
    drop c (write_at mem out seg) = drop c mem"
  by (simp add: write_at_def)

lemma cstr_at_write: "out + length seg < length mem \<Longrightarrow> cstr_at (write_at mem out (seg @ [0])) out = c_prefix seg"
  by (simp add: write_at_def cstr_at_def c_prefix_def takeWhile_stop)

lemma write_at_snoc:
  "out + length seg < length mem \<Longrightarrow> (write_at mem out seg)[out + length seg := v] = write_at mem out (seg @ [v])"
  by (simp add: write_at_def list_update_append Cons_nth_drop_Suc [symmetric])

lemma write_at_nth_end: "out + length seg \<le> c \<Longrightarrow> c < length mem \<Longrightarrow> write_at mem out seg ! c = mem ! c"
proof -
  assume a: "out + length seg \<le> c" "c < length mem"
  then have "\<not> c < out" "\<not> c - out < length seg" "out + length seg + (c - out - length seg) = c"
    by auto
  with a show ?thesis
    by (simp add: write_at_def nth_append min_def)
qed

lemma environ_scan_ref:
  assumes "sz \<le> length mem" "out \<le> c" "c \<le> sz"
    "unread mem sz c = [] \<or> List.last (unread mem sz c) \<noteq> TELNET_ENVIRON_ESC"
    "environ_take stop (unread mem sz c) = (seg, rest)"
  shows "environ_scan stop mem sz c out = Some (write_at mem out seg, sz - length rest, out + length seg) \<and>
    out + length seg \<le> sz - length rest \<and> c + length seg \<le> sz - length rest \<and> length rest \<le> sz"
  using assms
proof (induction stop mem sz c out arbitrary: seg rule: environ_scan.induct)
  case (1 stop mem sz c out)
  show ?case
  proof (cases "c < sz")
    case False
    with 1 show ?thesis
      by (simp add: environ_scan.simps)
  next
    case True
    with 1 have u: "unread mem sz c = mem ! c # unread mem sz (Suc c)" and c: "load mem c = Some (mem ! c)"
      by (simp_all add: unread_Cons)
    show ?thesis
    proof (cases "stop (mem ! c)")
      case stop: True
      with 1 True u c length_unread [of sz mem c] show ?thesis
        by (subst environ_scan.simps) auto
    next
      case go: False
      define c1 where "c1 = (if mem ! c = TELNET_ENVIRON_ESC then c + 1 else c)"
      have c1: "c1 < sz" "c \<le> c1" "out \<le> c1"
      proof -
        show "c1 < sz"
          using 1(5) u True by (auto simp: c1_def split: if_splits dest: unread_nonempty)
        show "c \<le> c1" "out \<le> c1"
          using 1(3) by (auto simp: c1_def)
      qed
      have u1: "unread mem sz c1 = mem ! c1 # unread mem sz (Suc c1)"
        using c1 1(2) by (simp add: unread_Cons)
      obtain seg' where seg: "seg = mem ! c1 # seg'" and t: "environ_take stop (unread mem sz (Suc c1)) = (seg', rest)"
        using 1(6) u u1 go by (auto simp: c1_def split: if_splits prod.splits)
      let ?mem = "mem[out := mem ! c1]"
      have same: "unread ?mem sz (Suc c1) = unread mem sz (Suc c1)"
        using c1 by simp
      have "unread mem sz (Suc c1) = [] \<or> List.last (unread mem sz (Suc c1)) \<noteq> TELNET_ENVIRON_ESC"
        using 1(5) u u1 by (auto simp: c1_def split: if_splits)
      then have IH: "environ_scan stop ?mem sz (c1 + 1) (out + 1) =
          Some (write_at ?mem (out + 1) seg', sz - length rest, out + 1 + length seg') \<and>
        out + 1 + length seg' \<le> sz - length rest \<and> c1 + 1 + length seg' \<le> sz - length rest \<and> length rest \<le> sz"
        using 1(1) [OF True c go c1_def, of "mem ! c1" ?mem seg'] 1(2) c1 t same by simp
      have "environ_scan stop mem sz c out = environ_scan stop ?mem sz (c1 + 1) (out + 1)"
        using True c go c1 1(2) by (subst environ_scan.simps) (simp add: c1_def)
      with IH seg c1 1(2) show ?thesis
        by (simp add: write_at_Cons)
    qed
  qed
qed

lemma unread_suffix:
  assumes "sz \<le> length mem" "suffix rest (unread mem sz c)"
  shows "unread mem sz (sz - length rest) = rest"
proof -
  have "suffix rest (take sz mem)"
    using assms(2) unfolding unread_def by (meson suffix_drop suffix_order.trans)
  then obtain pre where "take sz mem = pre @ rest"
    by (auto simp: suffix_def)
  moreover from this have "length pre = sz - length rest"
    using assms(1) by (metis add_diff_cancel_right' length_append length_take min.absorb2)
  ultimately show ?thesis
    by (simp add: unread_def)
qed

lemma cstr_at_cong:
  assumes "take k mem2 = take k mem1" "0 \<in> set (drop off (take k mem1))"
  shows "cstr_at mem2 off = cstr_at mem1 off"
proof -
  have "cstr_at mem off = takeWhile (\<lambda>b. b \<noteq> 0) (drop off (take k mem))"
    if "0 \<in> set (drop off (take k mem))" for mem
  proof -
    have "drop off mem = drop off (take k mem) @ drop (off + (k - off)) mem"
      by (metis append_take_drop_id drop_drop drop_take add.commute)
    then show ?thesis
      using that by (simp add: cstr_at_def takeWhile_append1)
  qed
  with assms show ?thesis by metis
qed

text \<open>One name or value: scanned, copied down and closed with a NUL behind the read position.\<close>

lemma environ_segment:
  assumes sz: "sz \<le> length mem" and oc: "Suc out < c" and c: "c \<le> sz"
    and esc: "unread mem sz c = [] \<or> List.last (unread mem sz c) \<noteq> TELNET_ENVIRON_ESC"
    and tk: "environ_take stop (unread mem sz c) = (seg, rest)"
    and c1: "c1 = sz - length rest" and mem1: "mem1 = write_at mem out (seg @ [0])"
  shows "environ_scan stop mem sz c out = Some (write_at mem out seg, c1, out + length seg)"
    and "store (write_at mem out seg) (out + length seg) 0 = Some mem1"
    and "Suc (out + length seg) < c1" and "c1 \<le> sz" and "unread mem1 sz c1 = rest"
    and "length mem1 = length mem" and "take out mem1 = take out mem"
    and "rest = [] \<or> List.last rest \<noteq> TELNET_ENVIRON_ESC"
    and "take (Suc (out + length seg)) mem2 = take (Suc (out + length seg)) mem1 \<Longrightarrow>
      cstr_at mem2 out = c_prefix seg"
proof -
  from environ_scan_ref [OF sz _ c esc tk, of out] oc
  have s: "environ_scan stop mem sz c out = Some (write_at mem out seg, sz - length rest, out + length seg)"
    "c + length seg \<le> sz - length rest" "length rest \<le> sz"
    by auto
  show "environ_scan stop mem sz c out = Some (write_at mem out seg, c1, out + length seg)"
    using s by (simp add: c1)
  show lt: "Suc (out + length seg) < c1" and le: "c1 \<le> sz"
    using s oc by (auto simp: c1)
  then have fits: "out + length seg < length mem"
    using sz by simp
  then show "store (write_at mem out seg) (out + length seg) 0 = Some mem1"
    by (simp add: length_write_at mem1 write_at_snoc)
  show len: "length mem1 = length mem" and tout: "take out mem1 = take out mem"
    using fits by (simp_all add: mem1 length_write_at take_write_at)
  have suf: "suffix rest (unread mem sz c)"
    using tk by (rule environ_take_suffix)
  have "drop c1 mem1 = drop c1 mem"
    using fits lt by (simp add: mem1 drop_write_at)
  then have "unread mem1 sz c1 = unread mem sz c1"
    by (rule unread_cong) simp
  with unread_suffix [OF sz suf] show "unread mem1 sz c1 = rest"
    by (simp add: c1)
  show "rest = [] \<or> List.last rest \<noteq> TELNET_ENVIRON_ESC"
    using esc suf by (auto simp: suffix_def)
  assume mem2: "take (Suc (out + length seg)) mem2 = take (Suc (out + length seg)) mem1"
  have "drop out (take (Suc (out + length seg)) mem1) = seg @ [0]"
    using fits by (simp add: mem1 write_at_def)
  then have "cstr_at mem2 out = cstr_at mem1 out"
    by (intro cstr_at_cong [OF mem2]) simp
  with fits show "cstr_at mem2 out = c_prefix seg"
    by (simp add: mem1 cstr_at_write)
qed

lemma take_mono: "take k xs = take k ys \<Longrightarrow> j \<le> k \<Longrightarrow> take j xs = take j ys"
  by (metis min.absorb1 take_take)

lemma environ_arg_ref:
  assumes sz: "sz \<le> length mem" and oc: "out < c" and c: "c < sz"
    and esc: "List.last (unread mem sz c) \<noteq> TELNET_ENVIRON_ESC"
    and ent: "environ_entries (unread mem sz c) = (ty, name, val) # es"
  obtains slot mem1 c1 out1 where "environ_arg mem sz c out = Some (slot, mem1, c1, out1)"
    "environ_entries (unread mem1 sz c1) = es" "length mem1 = length mem" "out1 < c1" "c1 \<le> sz"
    "unread mem1 sz c1 = [] \<or> List.last (unread mem1 sz c1) \<noteq> TELNET_ENVIRON_ESC"
    "take out mem1 = take out mem" "out \<le> out1"
    "\<And>mem2. take out1 mem2 = take out1 mem1 \<Longrightarrow> environ_value mem2 slot = environ_of_entry (ty, name, val)"
proof -
  have u: "unread mem sz c = mem ! c # unread mem sz (Suc c)" and cl: "load mem c = Some (mem ! c)"
    using c sz by (simp_all add: unread_Cons)
  obtain nm rest where tk: "environ_take name_end (unread mem sz (Suc c)) = (nm, rest)"
    by (cases "environ_take name_end (unread mem sz (Suc c))")
  have esc': "unread mem sz (Suc c) = [] \<or> List.last (unread mem sz (Suc c)) \<noteq> TELNET_ENVIRON_ESC"
    using esc u by auto
  define c1 where "c1 = sz - length rest"
  define mem1 where "mem1 = write_at mem out (nm @ [0])"
  define out1 where "out1 = Suc (out + length nm)"
  have "Suc out < Suc c" "Suc c \<le> sz"
    using oc c by auto
  note seg = environ_segment [OF sz this esc' tk c1_def mem1_def]
  show ?thesis
  proof (cases "rest \<noteq> [] \<and> hd rest = TELNET_ENVIRON_VALUE")
    case False
    have v: "c1 < sz \<longrightarrow> mem1 ! c1 \<noteq> TELNET_ENVIRON_VALUE"
      using False seg(5,6) sz unread_Cons [of c1 sz mem1] by auto
    have e: "ty = mem ! c" "name = nm" "val = None" "es = environ_entries rest"
      using ent u tk False by auto
    have "environ_arg mem sz c out = Some ((ty, out, None), mem1, c1, out1)"
      using cl seg(1,2,6) sz v e(1) by (auto simp: environ_arg_def out1_def)
    then show ?thesis
      by (rule that) (use seg e in \<open>auto simp: out1_def environ_value_def environ_of_entry_def\<close>)
  next
    case True
    then obtain rest' where rest': "rest = TELNET_ENVIRON_VALUE # rest'"
      by (cases rest) auto
    then have lt: "c1 < sz"
      using seg(5) unread_nonempty [of mem1 sz c1] by auto
    with seg(5,6) sz rest' have v: "mem1 ! c1 = TELNET_ENVIRON_VALUE" and u1: "unread mem1 sz (Suc c1) = rest'"
      using unread_Cons [of c1 sz mem1] by auto
    obtain vl r where tk': "environ_take value_end (unread mem1 sz (Suc c1)) = (vl, r)"
      by (cases "environ_take value_end (unread mem1 sz (Suc c1))")
    define c2 where "c2 = sz - length r"
    define mem2 where "mem2 = write_at mem1 out1 (vl @ [0])"
    define out2 where "out2 = Suc (out1 + length vl)"
    have "sz \<le> length mem1" "Suc out1 < Suc c1" "Suc c1 \<le> sz"
      "unread mem1 sz (Suc c1) = [] \<or> List.last (unread mem1 sz (Suc c1)) \<noteq> TELNET_ENVIRON_ESC"
      using seg sz lt u1 rest' by (auto simp: out1_def)
    note seg2 = environ_segment [OF this tk' c2_def mem2_def]
    have e: "ty = mem ! c" "name = nm" "val = Some vl" "es = environ_entries r"
      using ent u tk tk' u1 rest' by auto
    have "environ_arg mem sz c out = Some ((ty, out, Some out1), mem2, c2, out2)"
      using cl seg(1,2,6) seg2(1,2) sz v lt e(1) by (auto simp: environ_arg_def out1_def out2_def)
    then show ?thesis
    proof (rule that)
      show "take out mem2 = take out mem"
        using seg(7) take_mono [OF seg2(7), of out] by (simp add: out1_def)
      fix m assume m: "take out2 m = take out2 mem2"
      have "take out1 m = take out1 mem1"
        using take_mono [OF m, of out1] seg2(7) by (simp add: out2_def)
      then show "environ_value m (ty, out, Some out1) = environ_of_entry (ty, name, val)"
        using seg(9) [of m] seg2(9) [of m] m e
        by (simp add: environ_value_def environ_of_entry_def out1_def out2_def)
    qed (use seg seg2 e in \<open>auto simp: out1_def out2_def\<close>)
  qed
qed

lemma environ_args_ref:
  assumes "sz \<le> length mem" "out < c" "c \<le> sz"
    "unread mem sz c = [] \<or> List.last (unread mem sz c) \<noteq> TELNET_ENVIRON_ESC"
    "environ_entries (unread mem sz c) = es"
  shows "\<exists>slots mem'. environ_args (length es) mem sz c out = Some (slots, mem') \<and> length mem' = length mem \<and>
    take out mem' = take out mem \<and> map (environ_value mem') slots = map environ_of_entry es"
  using assms
proof (induction es arbitrary: mem c out)
  case Nil
  then show ?case by simp
next
  case (Cons e es)
  obtain ty name val where e: "e = (ty, name, val)"
    by (cases e)
  have "unread mem sz c \<noteq> []"
    using Cons.prems(5) by auto
  then have "c < sz" "List.last (unread mem sz c) \<noteq> TELNET_ENVIRON_ESC"
    using Cons.prems(4) by (auto dest: unread_nonempty)
  from environ_arg_ref [OF Cons.prems(1,2) this Cons.prems(5) [unfolded e]]
  obtain slot mem1 c1 out1 where a: "environ_arg mem sz c out = Some (slot, mem1, c1, out1)"
    "environ_entries (unread mem1 sz c1) = es" "length mem1 = length mem" "out1 < c1" "c1 \<le> sz"
    "unread mem1 sz c1 = [] \<or> List.last (unread mem1 sz c1) \<noteq> TELNET_ENVIRON_ESC"
    "take out mem1 = take out mem" "out \<le> out1"
    "\<And>mem2. take out1 mem2 = take out1 mem1 \<Longrightarrow> environ_value mem2 slot = environ_of_entry (ty, name, val)"
    by metis
  from Cons.IH [of mem1 out1 c1] Cons.prems(1) a obtain slots mem' where
    b: "environ_args (length es) mem1 sz c1 out1 = Some (slots, mem')" "length mem' = length mem"
    "take out1 mem' = take out1 mem1" "map (environ_value mem') slots = map environ_of_entry es"
    by auto
  moreover have "take out mem' = take out mem"
    using take_mono [OF b(3) a(8)] a(7) by simp
  ultimately show ?case
    using a(1,9) e by auto
qed

fun env_markers :: "byte list \<Rightarrow> nat" where
  "env_markers [] = 0"
| "env_markers (b # bs) =
     (if b = TELNET_ENVIRON_VAR \<or> b = TELNET_ENVIRON_USERVAR then Suc (env_markers bs)
      else if b = TELNET_ENVIRON_ESC then (case bs of [] \<Rightarrow> 0 | _ # xs \<Rightarrow> env_markers xs)
      else env_markers bs)"

lemma environ_count_ref:
  "sz \<le> length mem \<Longrightarrow> environ_count mem sz c n = Some (n + env_markers (unread mem sz c))"
proof (induction mem sz c n rule: environ_count.induct)
  case (1 mem sz c n)
  show ?case
  proof (cases "c < sz")
    case True
    with 1(4) have u: "unread mem sz c = mem ! c # unread mem sz (Suc c)" and l: "load mem c = Some (mem ! c)"
      by (simp_all add: unread_Cons)
    have u2: "(case unread mem sz (Suc c) of [] \<Rightarrow> 0 | _ # xs \<Rightarrow> env_markers xs) = env_markers (unread mem sz (Suc (Suc c)))"
      using 1(4) unread_Cons [of "Suc c" sz mem] by (cases "Suc c < sz") simp_all
    show ?thesis
      using True 1(4) u u2 l 1(1) [OF True l] 1(2) [OF True l] 1(3) [OF True l]
      by (subst environ_count.simps) auto
  qed (simp add: environ_count.simps)
qed

lemma env_markers_take:
  "environ_take stop bs = (seg, rest) \<Longrightarrow> stop TELNET_ENVIRON_VAR \<Longrightarrow> stop TELNET_ENVIRON_USERVAR \<Longrightarrow>
     \<not> stop TELNET_ENVIRON_ESC \<Longrightarrow> env_markers bs = env_markers rest"
proof (induction stop bs arbitrary: seg rest rule: environ_take.induct)
  case (2 stop b bs)
  consider (stop) "stop b" | (esc) x xs where "b = TELNET_ENVIRON_ESC" "bs = x # xs" "\<not> stop b"
    | (esc_end) "b = TELNET_ENVIRON_ESC" "bs = []" "\<not> stop b" | (plain) "b \<noteq> TELNET_ENVIRON_ESC" "\<not> stop b"
    by (cases bs) auto
  then show ?case
  proof cases
    case plain
    with 2(4,5) have "b \<noteq> TELNET_ENVIRON_VAR" "b \<noteq> TELNET_ENVIRON_USERVAR"
      by auto
    with plain 2 show ?thesis
      by (auto split: prod.splits)
  qed (use 2 in \<open>auto split: prod.splits\<close>)
qed simp

lemma length_environ_entries:
  "bs = [] \<or> value_end (hd bs) \<Longrightarrow> length (environ_entries bs) = env_markers bs"
proof (induction bs rule: environ_entries.induct)
  case (2 ty bs)
  obtain name r where nr: "environ_take name_end bs = (name, r)"
    by (cases "environ_take name_end bs")
  have m: "env_markers bs = env_markers r"
    using nr by (rule env_markers_take) (simp_all add: name_end_def)
  have ty: "env_markers (ty # bs) = Suc (env_markers r)"
    using 2(3) m by (auto simp: value_end_def)
  have hd_r: "r \<noteq> [] \<Longrightarrow> name_end (hd r)"
    using environ_take_rest [OF nr] .
  show ?case
  proof (cases "r \<noteq> [] \<and> hd r = TELNET_ENVIRON_VALUE")
    case True
    obtain val r' where vr: "environ_take value_end (tl r) = (val, r')"
      by (cases "environ_take value_end (tl r)")
    have "env_markers (tl r) = env_markers r'"
      using vr by (rule env_markers_take) (simp_all add: value_end_def)
    moreover have "env_markers r = env_markers (tl r)"
      using True by (cases r) auto
    ultimately show ?thesis
      using 2(1) [OF nr [symmetric] True vr [symmetric]] environ_take_rest [OF vr] ty nr vr True by auto
  next
    case False
    with hd_r have "r = [] \<or> value_end (hd r)"
      by (auto simp: name_end_def value_end_def)
    with 2(2) [OF nr [symmetric] False] ty nr False show ?thesis
      by auto
  qed
qed simp

section \<open>What the parsers leave alone\<close>

definition core_same :: "telnet \<Rightarrow> telnet \<Rightarrow> bool" where
  "core_same t t' \<longleftrightarrow>
     tn_state t' = tn_state t \<and> tn_telopts t' = tn_telopts t \<and> tn_q t' = tn_q t \<and>
     tn_q_size t' = tn_q_size t \<and> tn_buffer_size t' = tn_buffer_size t \<and>
     tn_buffer_pos t' = tn_buffer_pos t \<and> tn_flags t' = tn_flags t \<and> tn_sb_telopt t' = tn_sb_telopt t \<and>
     length (tn_buffer t') = length (tn_buffer t)"

definition next_alloc :: "telnet \<Rightarrow> bool" where
  "next_alloc t = fst (try_alloc (tn_allocs t))"

section \<open>ENVIRON: complete behaviour\<close>

definition environ_warning :: "byte \<Rightarrow> string \<Rightarrow> telnet_event" where
  "environ_warning ty msg =
     TELNET_EV_WARNING ''_environ_telnet'' (snprintf 512 (''telopt '' @ dec_of_nat (unat ty) @ msg))"

definition nomem_warning :: "string \<Rightarrow> string \<Rightarrow> telnet_event" where
  "nomem_warning func msg = TELNET_EV_WARNING func (snprintf 512 (msg @ strerror_ENOMEM))"

text \<open>What an ENVIRON subnegotiation with the given bytes returns and tells the application.\<close>

definition environ_spec :: "byte \<Rightarrow> byte list \<Rightarrow> bool \<Rightarrow> int \<times> telnet_event list" where
  "environ_spec ty bs ok =
     (case bs of
        [] \<Rightarrow> (0, [])
      | cmd # args \<Rightarrow>
          if cmd \<notin> {TELNET_ENVIRON_SEND, TELNET_ENVIRON_IS, TELNET_ENVIRON_INFO}
          then (0, [environ_warning ty '' subneg has invalid command''])
          else if args = [] then (1, [TELNET_EV_ENVIRON cmd []])
          else if \<not> value_end (hd args)
          then (0, [environ_warning ty '' subneg missing variable type''])
          else if List.last args = TELNET_ENVIRON_ESC
          then (0, [environ_warning ty '' subneg ends with ESC''])
          else if \<not> ok then (0, [nomem_warning ''_environ_telnet'' ''calloc() failed: ''])
          else (1, [TELNET_EV_ENVIRON cmd (map environ_of_entry (environ_entries args))]))"

lemma environ_telnet_ref:
  assumes sz: "sz \<le> length (tn_buffer t)"
  obtains t' where
    "environ_telnet ty sz t = Some (fst (environ_spec ty (take sz (tn_buffer t)) (next_alloc t)), t')"
    "tn_events t' = tn_events t @ snd (environ_spec ty (take sz (tn_buffer t)) (next_alloc t))"
    "core_same t t'"
proof (cases "sz \<le> 1")
  case True
  then consider "sz = 0" | "sz = 1"
    by linarith
  then show ?thesis
  proof cases
    case 1
    then show ?thesis
      by (intro that [of t]) (simp_all add: environ_telnet_def environ_spec_def core_same_def)
  next
    case 2
    with sz obtain b bs where b: "tn_buffer t = b # bs"
      by (cases "tn_buffer t") auto
    show ?thesis
      by (rule that [of "if b \<noteq> TELNET_ENVIRON_SEND \<and> b \<noteq> TELNET_ENVIRON_IS \<and> b \<noteq> TELNET_ENVIRON_INFO
            then environ_warn ty '' subneg has invalid command'' t else eh (TELNET_EV_ENVIRON b []) t"])
        (auto simp: environ_telnet_def environ_spec_def environ_warn_def environ_warning_def core_same_def 2 b)
  qed
next
  case False
  then obtain b0 b1 bs where b: "tn_buffer t = b0 # b1 # bs"
    using sz by (cases "tn_buffer t"; cases "tl (tn_buffer t)") auto
  define args where "args = take (sz - 1) (b1 # bs)"
  have args: "args = unread (tn_buffer t) sz 1" "args \<noteq> []" "hd args = b1" "take sz (tn_buffer t) = b0 # args"
    using False by (auto simp: args_def unread_def b take_Cons split: nat.splits)
  have la: "load (tn_buffer t) (sz - 1) = Some (List.last args)"
  proof -
    have "length args = sz - 1"
      using False sz by (simp add: args_def b)
    with args(2) have "List.last args = args ! (sz - 2)"
      by (simp add: last_conv_nth numeral_2_eq_2)
    also have "\<dots> = tn_buffer t ! (sz - 1)"
      using False sz by (simp add: args_def b nth_Cons' numeral_2_eq_2)
    finally show ?thesis
      using sz False by simp
  qed
  obtain ok rest where al: "try_alloc (tn_allocs t) = (ok, rest)"
    by (cases "try_alloc (tn_allocs t)")
  note simps = environ_telnet_def environ_spec_def environ_warn_def environ_warning_def core_same_def
    nomem_warning_def next_alloc_def value_end_def
  show ?thesis
  proof (cases "b0 \<in> {TELNET_ENVIRON_SEND, TELNET_ENVIRON_IS, TELNET_ENVIRON_INFO} \<and> value_end b1 \<and>
      List.last args \<noteq> TELNET_ENVIRON_ESC \<and> ok")
    case True
    have "environ_count (tn_buffer t) sz 1 0 = Some (length (environ_entries args))"
      using environ_count_ref [OF sz, of 1 0] length_environ_entries [of args] args True by simp
    moreover obtain slots mem where "environ_args (length (environ_entries args)) (tn_buffer t) sz 1 0 = Some (slots, mem)"
      "length mem = length (tn_buffer t)" "map (environ_value mem) slots = map environ_of_entry (environ_entries args)"
      using environ_args_ref [OF sz, of 0 1 "environ_entries args"] args True False by auto
    ultimately show ?thesis
      using True False al la args b
      by (intro that [of "eh (TELNET_EV_ENVIRON b0 (map (environ_value mem) slots)) (t\<lparr>tn_allocs := rest, tn_buffer := mem\<rparr>)"])
        (auto simp: simps)
  next
    case bad: False
    have "environ_count (tn_buffer t) sz 1 0 \<noteq> None"
      using environ_count_ref [OF sz, of 1 0] by simp
    then obtain n where n: "environ_count (tn_buffer t) sz 1 0 = Some n"
      by auto
    have l: "load (tn_buffer t) 0 = Some b0" "load (tn_buffer t) 1 = Some b1"
      by (simp_all add: b)
    consider (cmd) "b0 \<notin> {TELNET_ENVIRON_SEND, TELNET_ENVIRON_IS, TELNET_ENVIRON_INFO}"
      | (var) "b0 \<in> {TELNET_ENVIRON_SEND, TELNET_ENVIRON_IS, TELNET_ENVIRON_INFO}" "\<not> value_end b1"
      | (esc) "b0 \<in> {TELNET_ENVIRON_SEND, TELNET_ENVIRON_IS, TELNET_ENVIRON_INFO}" "value_end b1"
        "List.last args = TELNET_ENVIRON_ESC"
      | (mem) "b0 \<in> {TELNET_ENVIRON_SEND, TELNET_ENVIRON_IS, TELNET_ENVIRON_INFO}" "value_end b1"
        "List.last args \<noteq> TELNET_ENVIRON_ESC" "\<not> ok"
      using bad by blast
    then show ?thesis
    proof cases
      case cmd
      then show ?thesis
        by (intro that [of "environ_warn ty '' subneg has invalid command'' t"])
          (use False l args in \<open>simp_all add: simps\<close>)
    next
      case var
      then show ?thesis
        by (intro that [of "environ_warn ty '' subneg missing variable type'' t"])
          (use False l args in \<open>auto simp: simps\<close>)
    next
      case esc
      then show ?thesis
        by (intro that [of "environ_warn ty '' subneg ends with ESC'' t"])
          (use False l la args in \<open>auto simp: simps\<close>)
    next
      case mem
      then show ?thesis
        by (intro that [of "warn ''_environ_telnet'' TELNET_ENOMEM (''calloc() failed: '' @ strerror_ENOMEM)
              (t\<lparr>tn_allocs := rest\<rparr>)"])
          (use False l la n al args in \<open>auto simp: simps\<close>)
    qed
  qed
qed

section \<open>Properties\<close>

text \<open>
  C31: ENVIRON and NEW-ENVIRON subnegotiations are parsed correctly and safely. Whatever bytes a
  peer sends, the parser stays inside the buffer and computes what the reference parser computes:
  the variables with their types, their names and values with escapes removed, and the warning and
  the return value on each error path; it leaves everything but the buffer's contents and the
  allocator unchanged.
\<close>

theorem environ_telnet_correct:
  assumes "sz \<le> length (tn_buffer t)"
  shows "\<exists>t'. environ_telnet ty sz t = Some (fst (environ_spec ty (take sz (tn_buffer t)) (next_alloc t)), t') \<and>
    tn_events t' = tn_events t @ snd (environ_spec ty (take sz (tn_buffer t)) (next_alloc t)) \<and> core_same t t'"
  using environ_telnet_ref [OF assms] by metis

definition demo_environ :: telnet where
  "demo_environ = demo_telnet\<lparr>tn_buffer := [0, 0, 65, 2, 1, 66, 1, 67, 3, 68]\<rparr>"

theorem environ_telnet_correct_witness:
  "\<exists>t'. environ_telnet TELNET_TELOPT_NEW_ENVIRON 10 demo_environ = Some (1, t') \<and>
     tn_events t' = [TELNET_EV_ENVIRON TELNET_ENVIRON_IS
       [\<lparr>ev_type = TELNET_ENVIRON_VAR, ev_var = Some [65, 1, 66], ev_value = Some [67]\<rparr>,
        \<lparr>ev_type = TELNET_ENVIRON_USERVAR, ev_var = Some [68], ev_value = Some []\<rparr>]]"
  using environ_telnet_correct [of 10 demo_environ TELNET_TELOPT_NEW_ENVIRON]
  by (auto simp: demo_environ_def demo_telnet_simps next_alloc_def environ_spec_def environ_of_entry_def
      name_end_def value_end_def c_prefix_def)

end
