(* ===== verification/Telnet_Mssp.thy ===== *)
theory Telnet_Mssp
  imports Telnet_Environ
begin

text \<open>
  Subnegotiation in \<^verbatim>\<open>telnet.c\<close>, second part: the MSSP parser, which like the ENVIRON parser
  works in place, a reference parser on lists, and their agreement wherever the in-place parser
  stays inside the buffer.
\<close>

section \<open>MSSP\<close>

definition mssp_marker :: "byte \<Rightarrow> bool" where
  "mssp_marker b \<longleftrightarrow> b = TELNET_MSSP_VAR \<or> b = TELNET_MSSP_VAL"

function mssp_count :: "byte list \<Rightarrow> nat \<Rightarrow> nat \<Rightarrow> nat \<Rightarrow> nat option" where
  "mssp_count mem sz i count =
     (if i < sz then do {
        b \<leftarrow> load mem i;
        mssp_count mem sz (i + 1) (if b = TELNET_MSSP_VAL then count + 1 else count)
      } else Some count)"
  by pat_completeness auto
termination
  by (relation "measure (\<lambda>(mem, sz, i, count). sz - i)") auto

declare mssp_count.simps [simp del]

function mssp_scan :: "byte list \<Rightarrow> nat \<Rightarrow> nat \<Rightarrow> nat \<Rightarrow> (byte list \<times> nat \<times> nat) option" where
  "mssp_scan mem sz c out =
     (if c < sz then do {
        b \<leftarrow> load mem c;
        if mssp_marker b then Some (mem, c, out)
        else do { mem' \<leftarrow> store mem out b; mssp_scan mem' sz (c + 1) (out + 1) }
      } else Some (mem, c, out))"
  by pat_completeness auto
termination
  by (relation "measure (\<lambda>(mem, sz, c, out). sz - c)") auto

declare mssp_scan.simps [simp del]

lemma mssp_scan_progress: "mssp_scan mem sz c out = Some (mem', c', out') \<Longrightarrow> c \<le> c'"
proof (induction mem sz c out rule: mssp_scan.induct)
  case (1 mem sz c out)
  show ?case
  proof (cases "c < sz")
    case True
    with "1.prems" obtain b where b: "load mem c = Some b"
      by (subst (asm) mssp_scan.simps) (auto split: bind_splits)
    show ?thesis
    proof (cases "mssp_marker b")
      case False
      with "1.prems" True b obtain m where m: "store mem out b = Some m"
        and rest: "mssp_scan m sz (c + 1) (out + 1) = Some (mem', c', out')"
        by (subst (asm) mssp_scan.simps) (auto split: bind_splits)
      from "1.IH" [OF True b False m rest] show ?thesis by simp
    qed (use "1.prems" True b in \<open>subst (asm) mssp_scan.simps, auto\<close>)
  qed (use "1.prems" in \<open>subst (asm) mssp_scan.simps, auto\<close>)
qed

text \<open>
  The loop that fills \<open>values\<close>: the slots hold the offsets of name and value, and stay empty
  where \<open>calloc\<close> left NULL pointers. \<open>Inl\<close> is the branch that reports invalid data.
\<close>

type_synonym mssp_slot = "(nat \<times> nat) option"

function mssp_loop ::
  "byte list \<Rightarrow> nat \<Rightarrow> nat \<Rightarrow> nat \<Rightarrow> nat \<Rightarrow> byte \<Rightarrow> nat option \<Rightarrow> nat \<Rightarrow> mssp_slot list
     \<Rightarrow> (byte list + mssp_slot list \<times> byte list) option" where
  "mssp_loop mem sz c out start next_type var i values =
     (if c < sz then do {
        (mem1, c1, out1) \<leftarrow> mssp_scan mem sz c out;
        mem2 \<leftarrow> store mem1 out1 0;
        let out2 = out1 + 1;
        if next_type = TELNET_MSSP_VAR
        then do {
          b \<leftarrow> load mem2 c1;
          mssp_loop mem2 sz (c1 + 1) out2 out2 b (Some start) i values
        }
        else if next_type = TELNET_MSSP_VAL \<and> var \<noteq> None
        then do {
          values' \<leftarrow> store values i (Some (the var, start));
          b \<leftarrow> load mem2 c1;
          mssp_loop mem2 sz (c1 + 1) out2 out2 b var (i + 1) values'
        }
        else Some (Inl mem2)
      } else Some (Inr (values, mem)))"
  by pat_completeness auto
termination
  by (relation "measure (\<lambda>(mem, sz, c, out, start, next_type, var, i, values). sz - c)")
    (auto dest!: mssp_scan_progress)

declare mssp_loop.simps [simp del]

definition mssp_value :: "byte list \<Rightarrow> mssp_slot \<Rightarrow> telnet_environ" where
  "mssp_value mem slot =
     (case slot of
        None \<Rightarrow> \<lparr>ev_type = 0, ev_var = None, ev_value = None\<rparr>
      | Some (var, val) \<Rightarrow> \<lparr>ev_type = 0, ev_var = Some (cstr_at mem var), ev_value = Some (cstr_at mem val)\<rparr>)"

definition mssp_telnet :: "nat \<Rightarrow> telnet \<Rightarrow> (int \<times> telnet) option" where
  "mssp_telnet sz t =
     (if sz = 0 then Some (0, t)
      else do {
        b0 \<leftarrow> load (tn_buffer t) 0;
        if b0 \<noteq> TELNET_MSSP_VAR
        then Some (0, warn ''_mssp_telnet'' TELNET_EPROTOCOL ''MSSP subnegotiation has invalid data'' t)
        else do {
          count \<leftarrow> mssp_count (tn_buffer t) sz 0 0;
          let (ok, rest) = try_alloc (tn_allocs t);
          let t1 = t\<lparr>tn_allocs := rest\<rparr>;
          if \<not> ok
          then Some (0, warn ''_mssp_telnet'' TELNET_ENOMEM (''calloc() failed: '' @ strerror_ENOMEM) t1)
          else do {
            res \<leftarrow> mssp_loop (tn_buffer t) sz 1 0 0 b0 None 0 (replicate count None);
            Some (0, case res of
               Inl mem \<Rightarrow> warn ''_mssp_telnet'' TELNET_EPROTOCOL ''invalid MSSP subnegotiation data''
                 (t1\<lparr>tn_buffer := mem\<rparr>)
             | Inr (values, mem) \<Rightarrow> eh (TELNET_EV_MSSP (map (mssp_value mem) values)) (t1\<lparr>tn_buffer := mem\<rparr>))
          }
        }
      })"

section \<open>MSSP: the reference parser\<close>

text \<open>
  The bytes after a marker, cut at the markers: each segment with the type of the marker before it.
  A marker that ends the data starts no segment.
\<close>

function mssp_segments :: "byte \<Rightarrow> byte list \<Rightarrow> (byte \<times> byte list) list" where
  "mssp_segments ty bs =
     (if bs = [] then []
      else (ty, takeWhile (\<lambda>b. \<not> mssp_marker b) bs) #
        (case dropWhile (\<lambda>b. \<not> mssp_marker b) bs of [] \<Rightarrow> [] | m # r \<Rightarrow> mssp_segments m r))"
  by pat_completeness auto
termination
proof (relation "measure (length \<circ> snd)", goal_cases)
  case (2 ty bs m r)
  then show ?case
    using length_dropWhile_le [of "\<lambda>b. \<not> mssp_marker b" bs] by simp
qed simp

declare mssp_segments.simps [simp del]

fun mssp_pairs :: "byte list option \<Rightarrow> (byte \<times> byte list) list \<Rightarrow> (byte list \<times> byte list) list" where
  "mssp_pairs var [] = []"
| "mssp_pairs var ((ty, seg) # segs) =
     (if ty = TELNET_MSSP_VAR then mssp_pairs (Some seg) segs
      else case var of None \<Rightarrow> mssp_pairs None segs | Some v \<Rightarrow> (v, seg) # mssp_pairs var segs)"

definition mssp_of_pair :: "byte list \<times> byte list \<Rightarrow> telnet_environ" where
  "mssp_of_pair p = \<lparr>ev_type = 0, ev_var = Some (c_prefix (fst p)), ev_value = Some (c_prefix (snd p))\<rparr>"

section \<open>MSSP: the in-place parser computes the reference parser\<close>

lemma mssp_count_ref:
  "sz \<le> length mem \<Longrightarrow> mssp_count mem sz i n = Some (n + count_list (unread mem sz i) TELNET_MSSP_VAL)"
proof (induction mem sz i n rule: mssp_count.induct)
  case (1 mem sz i n)
  then show ?case
    by (cases "i < sz") (subst mssp_count.simps, auto simp: unread_Cons mssp_count.simps)
qed

lemma mssp_scan_ref:
  assumes "sz \<le> length mem" "out \<le> c" "c \<le> sz"
  shows "mssp_scan mem sz c out =
    (let seg = takeWhile (\<lambda>b. \<not> mssp_marker b) (unread mem sz c)
     in Some (write_at mem out seg, c + length seg, out + length seg))"
  using assms
proof (induction mem sz c out rule: mssp_scan.induct)
  case (1 mem sz c out)
  show ?case
  proof (cases "c < sz")
    case True
    with 1(2) have u: "unread mem sz c = mem ! c # unread mem sz (Suc c)" and l: "load mem c = Some (mem ! c)"
      by (simp_all add: unread_Cons)
    show ?thesis
    proof (cases "mssp_marker (mem ! c)")
      case False
      have st: "store mem out (mem ! c) = Some (mem[out := mem ! c])"
        using True 1(2,3) by simp
      show ?thesis
        using True False u l st 1(1) [OF True l False st] 1(2-)
        by (subst mssp_scan.simps) (simp add: write_at_Cons Let_def)
    qed (use True u l in \<open>subst mssp_scan.simps, simp\<close>)
  qed (use 1 in \<open>simp add: mssp_scan.simps\<close>)
qed

lemma mssp_segment:
  assumes sz: "sz \<le> length mem" and c: "c = Suc out" "c \<le> sz"
    and seg: "seg = takeWhile (\<lambda>b. \<not> mssp_marker b) (unread mem sz c)"
    and mem1: "mem1 = write_at mem out (seg @ [0])"
  shows "mssp_scan mem sz c out = Some (write_at mem out seg, c + length seg, out + length seg)"
    and "store (write_at mem out seg) (out + length seg) 0 = Some mem1"
    and "c + length seg \<le> sz" and "length mem1 = length mem" and "take out mem1 = take out mem"
    and "unread mem1 sz (c + length seg) = dropWhile (\<lambda>b. \<not> mssp_marker b) (unread mem sz c)"
    and "take (Suc (out + length seg)) mem2 = take (Suc (out + length seg)) mem1 \<Longrightarrow>
      cstr_at mem2 out = c_prefix seg"
proof -
  show "mssp_scan mem sz c out = Some (write_at mem out seg, c + length seg, out + length seg)"
    using mssp_scan_ref [OF sz _ c(2), of out] c by (simp add: seg Let_def)
  have "length seg \<le> length (unread mem sz c)"
    unfolding seg by (rule length_takeWhile_le)
  then show le: "c + length seg \<le> sz"
    using sz c by (simp add: length_unread)
  then have fits: "out + length seg < length mem"
    using sz c by simp
  then show "store (write_at mem out seg) (out + length seg) 0 = Some mem1"
    by (simp add: length_write_at mem1 write_at_snoc)
  show "length mem1 = length mem" and "take out mem1 = take out mem"
    using fits by (simp_all add: mem1 length_write_at take_write_at)
  have "drop (c + length seg) mem1 = drop (c + length seg) mem"
    using fits c by (simp add: mem1 drop_write_at)
  then have "unread mem1 sz (c + length seg) = unread mem sz (c + length seg)"
    by (rule unread_cong) simp
  also have "\<dots> = drop (length seg) (unread mem sz c)"
    by (simp add: unread_def add.commute)
  finally show "unread mem1 sz (c + length seg) = dropWhile (\<lambda>b. \<not> mssp_marker b) (unread mem sz c)"
    by (simp add: seg dropWhile_eq_drop)
  assume mem2: "take (Suc (out + length seg)) mem2 = take (Suc (out + length seg)) mem1"
  have "drop out (take (Suc (out + length seg)) mem1) = seg @ [0]"
    using fits by (simp add: mem1 write_at_def)
  then have "cstr_at mem2 out = cstr_at mem1 out"
    by (intro cstr_at_cong [OF mem2]) simp
  with fits show "cstr_at mem2 out = c_prefix seg"
    by (simp add: mem1 cstr_at_write)
qed

text \<open>
  After the segment, the byte at the read position can be read: it is the next marker, or, at the
  end of the data, a byte the buffer still has.
\<close>

lemma mssp_next:
  assumes sz: "sz \<le> length mem" and c: "c = Suc out" "c < sz"
    and safe: "sz < length mem \<or> mssp_marker (List.last (unread mem sz c))"
    and seg: "seg = takeWhile (\<lambda>b. \<not> mssp_marker b) (unread mem sz c)"
    and mem1: "mem1 = write_at mem out (seg @ [0])" and c1: "c1 = c + length seg"
    and rest: "rest = unread mem1 sz (Suc c1)"
  shows "load mem1 c1 = Some (mem1 ! c1)"
    and "mssp_segments ty (unread mem sz c) = (ty, seg) # mssp_segments (mem1 ! c1) rest"
    and "Suc c1 < sz \<Longrightarrow> mssp_marker (mem1 ! c1)"
    and "sz < length mem1 \<or> rest = [] \<or> mssp_marker (List.last rest)"
proof -
  let ?d = "dropWhile (\<lambda>b. \<not> mssp_marker b) (unread mem sz c)"
  note sg = mssp_segment [OF sz c(1) less_imp_le [OF c(2)] seg mem1, folded c1]
  have u: "unread mem sz c \<noteq> []"
    using c sz by (simp add: unread_Cons)
  have d: "?d = (if c1 < sz then mem1 ! c1 # rest else [])"
    unfolding sg(6) [symmetric] rest using sg(4) sz by (simp add: unread_Cons)
  have r: "\<not> c1 < sz \<Longrightarrow> rest = []"
    by (simp add: rest)
  show "load mem1 c1 = Some (mem1 ! c1)"
  proof (cases "c1 < sz")
    case False
    with d have "\<not> mssp_marker (List.last (unread mem sz c))"
      using u by (metis dropWhile_eq_Nil_conv last_in_set)
    with safe False sg(3,4) show ?thesis
      by simp
  qed (use sg(4) sz in simp)
  show "mssp_segments ty (unread mem sz c) = (ty, seg) # mssp_segments (mem1 ! c1) rest"
    using u d r by (subst mssp_segments.simps) (auto simp: seg mssp_segments.simps split: if_splits)
  show "mssp_marker (mem1 ! c1)" if "Suc c1 < sz"
    using d that hd_dropWhile [of "\<lambda>b. \<not> mssp_marker b" "unread mem sz c"] by auto
  show "sz < length mem1 \<or> rest = [] \<or> mssp_marker (List.last rest)"
  proof (cases "rest = []")
    case False
    with r have "?d = mem1 ! c1 # rest"
      using d by auto
    then have "List.last (unread mem sz c) = List.last rest"
      using False by (metis last.simps last_appendR list.distinct(1) takeWhile_dropWhile_id)
    with safe sg(4) show ?thesis
      by auto
  qed simp
qed

text \<open>The name remembered by the loop, as a string that later writes leave alone.\<close>

definition mssp_var_ok :: "byte list \<Rightarrow> nat \<Rightarrow> nat option \<Rightarrow> byte list option \<Rightarrow> bool" where
  "mssp_var_ok mem out var vs \<longleftrightarrow>
     (case var of
        None \<Rightarrow> vs = None
      | Some off \<Rightarrow> (\<exists>v. vs = Some v \<and> (\<forall>m. take out m = take out mem \<longrightarrow> cstr_at m off = c_prefix v)))"

lemma mssp_var_ok_later:
  "mssp_var_ok mem out var vs \<Longrightarrow> take out mem' = take out mem \<Longrightarrow> out \<le> out' \<Longrightarrow> mssp_var_ok mem' out' var vs"
  by (auto simp: mssp_var_ok_def split: option.splits) (metis take_mono)

lemma mssp_loop_ref:
  assumes "sz \<le> length mem" "c = Suc out" "start = out"
    "sz < length mem \<or> unread mem sz c = [] \<or> mssp_marker (List.last (unread mem sz c))"
    "c < sz \<Longrightarrow> next_type = TELNET_MSSP_VAR \<or> next_type = TELNET_MSSP_VAL \<and> var \<noteq> None"
    "mssp_var_ok mem out var vs"
    "pairs = mssp_pairs vs (mssp_segments next_type (unread mem sz c))"
    "i + length pairs \<le> length values"
  shows "\<exists>slots mem'. mssp_loop mem sz c out start next_type var i values =
      Some (Inr (take i values @ slots @ drop (i + length slots) values, mem')) \<and>
    length mem' = length mem \<and> take out mem' = take out mem \<and>
    map (mssp_value mem') slots = map mssp_of_pair pairs"
  using assms
proof (induction mem sz c out start next_type var i "values" arbitrary: vs pairs rule: mssp_loop.induct)
  case (1 mem sz c out start next_type var i "values")
  note IH = "1.IH" and p = "1.prems"
  show ?case
  proof (cases "c < sz")
    case False
    with p show ?thesis
      by (intro exI [of _ "[]"] exI [of _ mem]) (simp add: mssp_loop.simps mssp_segments.simps)
  next
    case True
    define seg where "seg = takeWhile (\<lambda>b. \<not> mssp_marker b) (unread mem sz c)"
    define mem1 where "mem1 = write_at mem out (seg @ [0])"
    define c1 where "c1 = c + length seg"
    define out1 where "out1 = Suc (out + length seg)"
    note sg = mssp_segment [OF p(1,2) less_imp_le [OF True] seg_def mem1_def, folded c1_def out1_def]
    define rest where "rest = unread mem1 sz (Suc c1)"
    have "sz < length mem \<or> mssp_marker (List.last (unread mem sz c))"
      using p(1,4) True by (auto simp: unread_Cons)
    note nx = mssp_next [OF p(1,2) True this seg_def mem1_def c1_def rest_def]
    have c1_out: "Suc c1 = Suc out1" "out \<le> out1"
      by (simp_all add: c1_def out1_def p(2))
    have to1: "take out m = take out mem" if "take out1 m = take out1 mem1" for m
      using take_mono [OF that c1_out(2)] sg(5) by simp
    show ?thesis
    proof (cases "next_type = TELNET_MSSP_VAR")
      case var: True
      have step: "mssp_loop mem sz c out start next_type var i values =
          mssp_loop mem1 sz (c1 + 1) out1 out1 (mem1 ! c1) (Some start) i values"
        using True var sg(1,2) nx(1) by (subst mssp_loop.simps) (simp add: out1_def)
      have "mssp_var_ok mem1 out1 (Some start) (Some seg)"
        using sg(7) p(3) by (simp add: mssp_var_ok_def)
      moreover have "pairs = mssp_pairs (Some seg) (mssp_segments (mem1 ! c1) rest)"
        using p(7) var nx(2) [of next_type] by simp
      ultimately show ?thesis
        using IH(1) [OF True sg(1) refl refl sg(2) refl var nx(1), of "Some seg" pairs] p nx(3,4) sg(4) c1_out to1
        unfolding step by (auto simp: rest_def out1_def mssp_marker_def)
    next
      case False
      with p(5) True have val: "next_type = TELNET_MSSP_VAL \<and> var \<noteq> None"
        by auto
      with p(6) obtain off v where var: "var = Some off" and vs: "vs = Some v"
        and off: "\<And>m. take out m = take out mem \<Longrightarrow> cstr_at m off = c_prefix v"
        by (auto simp: mssp_var_ok_def)
      define pairs' where "pairs' = mssp_pairs vs (mssp_segments (mem1 ! c1) rest)"
      have pairs: "pairs = (v, seg) # pairs'"
        using p(7) val nx(2) [of next_type] by (simp add: vs pairs'_def)
      then have i: "i < length values"
        using p(8) by simp
      define values' where "values' = values[i := Some (the var, start)]"
      have st: "store values i (Some (the var, start)) = Some values'"
        using i by (simp add: values'_def)
      have step: "mssp_loop mem sz c out start next_type var i values =
          mssp_loop mem1 sz (c1 + 1) out1 out1 (mem1 ! c1) var (i + 1) values'"
        using True val sg(1,2) nx(1) st by (subst mssp_loop.simps) (simp add: out1_def)
      have "mssp_var_ok mem1 out1 var vs"
        using p(6) sg(5) c1_out(2) by (rule mssp_var_ok_later)
      then obtain slots mem' where r: "mssp_loop mem1 sz (c1 + 1) out1 out1 (mem1 ! c1) var (i + 1) values' =
          Some (Inr (take (i + 1) values' @ slots @ drop (i + 1 + length slots) values', mem'))"
        "length mem' = length mem1" "take out1 mem' = take out1 mem1"
        "map (mssp_value mem') slots = map mssp_of_pair pairs'"
        using IH(2) [OF True sg(1) refl refl sg(2) refl False val st nx(1), of vs pairs'] p(1,8) val nx(3,4) sg(4) c1_out pairs
        by (auto simp: rest_def out1_def mssp_marker_def pairs'_def values'_def)
      have "take (i + 1) values' @ slots @ drop (i + 1 + length slots) values' =
          take i values @ (Some (off, start) # slots) @ drop (i + length (Some (off, start) # slots)) values"
        using i by (simp add: values'_def take_Suc_conv_app_nth var)
      moreover have "mssp_value mem' (Some (off, start)) = mssp_of_pair (v, seg)"
        using off [OF to1 [OF r(3)]] sg(7) [of mem'] r(3) p(3) by (simp add: mssp_value_def mssp_of_pair_def out1_def)
      ultimately show ?thesis
        using r sg(4) to1 pairs unfolding step
        by (intro exI [of _ "Some (off, start) # slots"] exI [of _ mem']) simp
    qed
  qed
qed

lemma count_list_no_marker: "count_list (takeWhile (\<lambda>b. \<not> mssp_marker b) bs) TELNET_MSSP_VAL = 0"
  by (induction bs) (auto simp: mssp_marker_def)

lemma length_mssp_pairs:
  "ty = TELNET_MSSP_VAR \<or> ty = TELNET_MSSP_VAL \<and> vs \<noteq> None \<Longrightarrow>
     length (mssp_pairs vs (mssp_segments ty bs)) + (if bs \<noteq> [] \<and> List.last bs = TELNET_MSSP_VAL then 1 else 0) =
     (if ty = TELNET_MSSP_VAL \<and> bs \<noteq> [] then 1 else 0) + count_list bs TELNET_MSSP_VAL"
proof (induction ty bs arbitrary: vs rule: mssp_segments.induct)
  case (1 ty bs)
  show ?case
  proof (cases "bs = []")
    case False
    define seg where "seg = takeWhile (\<lambda>b. \<not> mssp_marker b) bs"
    define d where "d = dropWhile (\<lambda>b. \<not> mssp_marker b) bs"
    have bs: "bs = seg @ d"
      by (simp add: seg_def d_def)
    have cnt: "count_list bs TELNET_MSSP_VAL = count_list d TELNET_MSSP_VAL"
      using count_list_no_marker [of bs] by (subst bs) (simp add: seg_def)
    obtain vs' n where step: "vs' \<noteq> None" "n = (if ty = TELNET_MSSP_VAL then 1 else (0::nat))"
      "\<And>segs. length (mssp_pairs vs ((ty, seg) # segs)) = n + length (mssp_pairs vs' segs)"
      by (rule that [of "if ty = TELNET_MSSP_VAR then Some seg else vs"]) (use "1.prems" in auto)
    show ?thesis
    proof (cases d)
      case Nil
      then have "List.last bs \<noteq> TELNET_MSSP_VAL"
        using False last_in_set [of bs] by (auto simp: d_def dropWhile_eq_Nil_conv mssp_marker_def)
      with Nil False cnt step show ?thesis
        by (subst mssp_segments.simps) (simp add: seg_def [symmetric] d_def [symmetric])
    next
      case (Cons m r)
      then have m: "m = TELNET_MSSP_VAR \<or> m = TELNET_MSSP_VAL"
        using hd_dropWhile [of "\<lambda>b. \<not> mssp_marker b" bs] by (simp add: d_def mssp_marker_def)
      have la: "List.last bs = (if r = [] then m else List.last r)"
        using Cons by (subst bs) simp
      from "1.IH" [OF False Cons [unfolded d_def], of vs'] m step(1)
      have "length (mssp_pairs vs' (mssp_segments m r)) + (if r \<noteq> [] \<and> List.last r = TELNET_MSSP_VAL then 1 else 0) =
          (if m = TELNET_MSSP_VAL \<and> r \<noteq> [] then 1 else 0) + count_list r TELNET_MSSP_VAL"
        by auto
      then show ?thesis
        using False cnt step la Cons m
        by (subst mssp_segments.simps) (auto simp: seg_def [symmetric] d_def [symmetric])
    qed
  qed (simp add: mssp_segments.simps)
qed

section \<open>MSSP: complete behaviour\<close>

definition mssp_spec :: "byte list \<Rightarrow> bool \<Rightarrow> telnet_event list" where
  "mssp_spec bs ok =
     (case bs of
        [] \<Rightarrow> []
      | b # r \<Rightarrow>
          if b \<noteq> TELNET_MSSP_VAR
          then [TELNET_EV_WARNING ''_mssp_telnet'' (snprintf 512 ''MSSP subnegotiation has invalid data'')]
          else if \<not> ok then [nomem_warning ''_mssp_telnet'' ''calloc() failed: '']
          else [TELNET_EV_MSSP (map mssp_of_pair (mssp_pairs None (mssp_segments TELNET_MSSP_VAR r)) @
            (if List.last bs = TELNET_MSSP_VAL then [\<lparr>ev_type = 0, ev_var = None, ev_value = None\<rparr>] else []))])"

text \<open>The last byte of the data is a marker, or the buffer goes on behind the data.\<close>

definition mssp_safe :: "nat \<Rightarrow> byte list \<Rightarrow> bool" where
  "mssp_safe sz mem \<longleftrightarrow> sz < length mem \<or> sz \<le> length mem \<and> (sz \<le> 1 \<or> mssp_marker (mem ! (sz - 1)))"

lemma mssp_telnet_ref:
  assumes safe: "mssp_safe sz (tn_buffer t)"
  obtains t' where "mssp_telnet sz t = Some (0, t')"
    "tn_events t' = tn_events t @ mssp_spec (take sz (tn_buffer t)) (next_alloc t)" "core_same t t'"
proof (cases "sz = 0")
  case True
  then show ?thesis
    by (intro that [of t]) (simp_all add: mssp_telnet_def mssp_spec_def core_same_def)
next
  case False
  have sz: "sz \<le> length (tn_buffer t)"
    using safe by (auto simp: mssp_safe_def)
  with False obtain b0 mem where b: "tn_buffer t = b0 # mem"
    by (cases "tn_buffer t") auto
  obtain ok al where al: "try_alloc (tn_allocs t) = (ok, al)"
    by (cases "try_alloc (tn_allocs t)")
  define r where "r = take (sz - 1) mem"
  have r: "take sz (tn_buffer t) = b0 # r" "unread (tn_buffer t) sz 1 = r"
    using False by (auto simp: r_def b unread_def take_Cons' drop_Cons')
  have count: "mssp_count (tn_buffer t) sz 0 0 = Some (count_list (b0 # r) TELNET_MSSP_VAL)"
    using mssp_count_ref [OF sz, of 0 0] by (simp only: unread_def r(1)) simp
  note simps = mssp_telnet_def mssp_spec_def core_same_def nomem_warning_def next_alloc_def
  show ?thesis
  proof (cases "b0 = TELNET_MSSP_VAR \<and> ok")
    case False
    then show ?thesis
      using \<open>sz \<noteq> 0\<close> r al count b
      by (intro that [of "if b0 \<noteq> TELNET_MSSP_VAR
            then warn ''_mssp_telnet'' TELNET_EPROTOCOL ''MSSP subnegotiation has invalid data'' t
            else warn ''_mssp_telnet'' TELNET_ENOMEM (''calloc() failed: '' @ strerror_ENOMEM) (t\<lparr>tn_allocs := al\<rparr>)"])
        (auto simp: simps)
  next
    case True
    define pairs where "pairs = mssp_pairs None (mssp_segments TELNET_MSSP_VAR r)"
    define pad where "pad = (if r \<noteq> [] \<and> List.last r = TELNET_MSSP_VAL then 1 else (0::nat))"
    have n: "length pairs + pad = count_list (b0 # r) TELNET_MSSP_VAL"
      using length_mssp_pairs [of TELNET_MSSP_VAR None r] True by (simp add: pairs_def pad_def)
    have len_r: "length r = sz - 1"
      using sz by (simp add: r_def b)
    then have last_r: "r \<noteq> [] \<Longrightarrow> List.last r = tn_buffer t ! (sz - 1)"
      by (auto simp: last_conv_nth b nth_Cons') (auto simp: r_def)
    have "sz < length (tn_buffer t) \<or> r = [] \<or> mssp_marker (List.last r)"
      using safe last_r len_r by (cases "r = []") (auto simp: mssp_safe_def)
    then obtain slots mem' where l: "mssp_loop (tn_buffer t) sz 1 0 0 b0 None 0
        (replicate (count_list (b0 # r) TELNET_MSSP_VAL) None) =
          Some (Inr (slots @ replicate (count_list (b0 # r) TELNET_MSSP_VAL - length slots) None, mem'))"
      "length mem' = length (tn_buffer t)" "map (mssp_value mem') slots = map mssp_of_pair pairs"
      using mssp_loop_ref [OF sz, of 1 0 0 b0 None None pairs 0 "replicate (count_list (b0 # r) TELNET_MSSP_VAL) None"]
        n r True by (auto simp: mssp_var_ok_def pairs_def)
    have "length slots = length pairs"
      using l(3) map_eq_imp_length_eq by blast
    then have "count_list (b0 # r) TELNET_MSSP_VAL - length slots = pad"
      using n by linarith
    then have v: "map (mssp_value mem') (slots @ replicate (count_list (b0 # r) TELNET_MSSP_VAL - length slots) None) =
        map mssp_of_pair pairs @ (if List.last (b0 # r) = TELNET_MSSP_VAL then [\<lparr>ev_type = 0, ev_var = None, ev_value = None\<rparr>] else [])"
      using l(3) True by (simp add: pad_def mssp_value_def)
    show ?thesis
      using \<open>sz \<noteq> 0\<close> r al count b True l v
      by (intro that [of "eh (TELNET_EV_MSSP (map (mssp_value mem') (slots @ replicate (count_list (b0 # r) TELNET_MSSP_VAL - length slots) None)))
            (t\<lparr>tn_allocs := al, tn_buffer := mem'\<rparr>)"])
        (auto simp: simps pairs_def)
  qed
qed

text \<open>Where \<open>mssp_safe\<close> fails, the read of the next marker leaves the buffer.\<close>

lemma mssp_loop_overread:
  assumes "sz = length mem" "c = Suc out" "c < sz" "\<not> mssp_marker (mem ! (sz - 1))"
    "next_type = TELNET_MSSP_VAR \<or> next_type = TELNET_MSSP_VAL \<and> var \<noteq> None"
  shows "mssp_loop mem sz c out start next_type var i values = None"
  using assms
proof (induction mem sz c out start next_type var i "values" rule: mssp_loop.induct)
  case (1 mem sz c out start next_type var i "values")
  note IH = "1.IH" and p = "1.prems"
  define seg where "seg = takeWhile (\<lambda>b. \<not> mssp_marker b) (unread mem sz c)"
  define mem1 where "mem1 = write_at mem out (seg @ [0])"
  define c1 where "c1 = c + length seg"
  define out1 where "out1 = Suc (out + length seg)"
  have sz: "sz \<le> length mem"
    using p(1) by simp
  note sg = mssp_segment [OF sz p(2) less_imp_le [OF p(3)] seg_def mem1_def, folded c1_def out1_def]
  show ?case
  proof (cases "load mem1 c1")
    case None
    then show ?thesis
      using p(3,5) sg(1,2) by (subst mssp_loop.simps) (auto split: bind_splits)
  next
    case (Some b)
    then have c1: "c1 < sz" "b = mem1 ! c1"
      using sg(4) p(1) by auto
    have d: "dropWhile (\<lambda>b. \<not> mssp_marker b) (unread mem sz c) = b # unread mem1 sz (Suc c1)"
      unfolding sg(6) [symmetric] using c1 sg(4) sz by (simp add: unread_Cons)
    then have b: "mssp_marker b"
      using hd_dropWhile [of "\<lambda>b. \<not> mssp_marker b" "unread mem sz c"] by simp
    have far: "mem1 ! k = mem ! k" if "c1 \<le> k" "k < length mem" for k
      using write_at_nth_end [of out "seg @ [0]" k mem] that p(2) by (simp add: mem1_def c1_def)
    have "c1 \<noteq> sz - 1"
      using far [of c1] b c1 p(1,4) by auto
    then have more: "c1 + 1 < sz" "\<not> mssp_marker (mem1 ! (sz - 1))"
      using c1 p(1,4) far [of "sz - 1"] by auto
    have "c1 + 1 = Suc out1"
      by (simp add: c1_def out1_def p(2))
    with IH [OF p(3) sg(1) refl refl sg(2) refl] Some more b p(1,5) sg(4) show ?thesis
      using sg(1,2) p(3) by (subst mssp_loop.simps) (auto simp: mssp_marker_def out1_def split: bind_splits)
  qed
qed

section \<open>Properties\<close>


definition demo_mssp :: telnet where
  "demo_mssp = demo_telnet\<lparr>tn_buffer := [1, 78, 2, 65, 66, 2, 67, 0], tn_buffer_size := 8\<rparr>"


text \<open>
  The MSSP parser reads one byte behind its buffer. When the data fills the buffer and does
  not end in a marker, the read of the next marker after the last segment leaves the allocated
  buffer; this needs 512, 2048, 8192 or 16384 bytes of data, which a peer can send.
\<close>

theorem mssp_telnet_overread:
  assumes "sz = length (tn_buffer t)" "2 \<le> sz" "tn_buffer t ! 0 = TELNET_MSSP_VAR"
    "\<not> mssp_marker (tn_buffer t ! (sz - 1))" "next_alloc t"
  shows "mssp_telnet sz t = None"
proof -
  have c: "mssp_count (tn_buffer t) sz 0 0 = Some (count_list (unread (tn_buffer t) sz 0) TELNET_MSSP_VAL)"
    using mssp_count_ref [of sz "tn_buffer t" 0 0] assms(1) by simp
  have "mssp_loop (tn_buffer t) sz 1 0 0 TELNET_MSSP_VAR None 0 vs = None" for vs
    using assms by (intro mssp_loop_overread) auto
  with assms c show ?thesis
    by (cases "try_alloc (tn_allocs t)") (auto simp: mssp_telnet_def next_alloc_def)
qed

theorem mssp_telnet_overread_witness:
  "\<exists>t. length (tn_buffer t) = 512 \<and> mssp_telnet 512 t = None"
  using mssp_telnet_overread [of 512 "demo_telnet\<lparr>tn_buffer := 1 # replicate 511 65\<rparr>"]
  by (intro exI [of _ "demo_telnet\<lparr>tn_buffer := 1 # replicate 511 65\<rparr>"])
    (simp add: demo_telnet_simps next_alloc_def mssp_marker_def nth_Cons')

end
