(* ===== verification/Telnet_Subneg.thy ===== *)
theory Telnet_Subneg
  imports Telnet_Mssp
begin

text \<open>
  Subnegotiation in \<^verbatim>\<open>telnet.c\<close>, third part: the ZMP and TERMINAL-TYPE parsers and the dispatch
  on the option of a completed subnegotiation.
\<close>

section \<open>ZMP and TERMINAL-TYPE\<close>

lemma strlen_at_bound: "strlen_at mem c = Some n \<Longrightarrow> c + n < length mem"
proof -
  assume "strlen_at mem c = Some n"
  then have z: "0 \<in> set (drop c mem)" and n: "n = length (takeWhile (\<lambda>b. b \<noteq> 0) (drop c mem))"
    by (auto simp: strlen_at_def cstr_at_def split: if_splits)
  have "length (takeWhile (\<lambda>b. b \<noteq> 0) (drop c mem)) < length (drop c mem)"
    using z by (intro length_takeWhile_less) auto
  with n show ?thesis by simp
qed

function zmp_argc :: "byte list \<Rightarrow> nat \<Rightarrow> nat \<Rightarrow> nat \<Rightarrow> nat option" where
  "zmp_argc mem sz c argc =
     (if c \<noteq> sz then do {
        n \<leftarrow> strlen_at mem c;
        zmp_argc mem sz (c + n + 1) (argc + 1)
      } else Some argc)"
  by pat_completeness auto
termination
  by (relation "measure (\<lambda>(mem, sz, c, argc). length mem - c)") (auto dest!: strlen_at_bound)

declare zmp_argc.simps [simp del]

fun zmp_argv :: "nat \<Rightarrow> byte list \<Rightarrow> nat \<Rightarrow> nat list option" where
  "zmp_argv 0 mem c = Some []"
| "zmp_argv (Suc k) mem c = do {
     n \<leftarrow> strlen_at mem c;
     offs \<leftarrow> zmp_argv k mem (c + n + 1);
     Some (c # offs)
   }"

definition zmp_telnet :: "nat \<Rightarrow> telnet \<Rightarrow> (int \<times> telnet) option" where
  "zmp_telnet sz t = do {
     bl \<leftarrow> (if sz = 0 then Some 1 else load (tn_buffer t) (sz - 1));
     if bl \<noteq> 0
     then Some (0, warn ''_zmp_telnet'' TELNET_EPROTOCOL ''incomplete ZMP frame'' t)
     else do {
       argc \<leftarrow> zmp_argc (tn_buffer t) sz 0 0;
       let (ok, rest) = try_alloc (tn_allocs t);
       let t1 = t\<lparr>tn_allocs := rest\<rparr>;
       if \<not> ok
       then Some (0, warn ''_zmp_telnet'' TELNET_ENOMEM (''calloc() failed: '' @ strerror_ENOMEM) t1)
       else do {
         argv \<leftarrow> zmp_argv argc (tn_buffer t) 0;
         Some (0, eh (TELNET_EV_ZMP (map (cstr_at (tn_buffer t)) argv)) t1)
       }
     }
   }"

definition ttype_telnet :: "nat \<Rightarrow> telnet \<Rightarrow> (int \<times> telnet) option" where
  "ttype_telnet sz t =
     (if sz = 0
      then Some (0, warn ''_ttype_telnet'' TELNET_EPROTOCOL ''incomplete TERMINAL-TYPE request'' t)
      else do {
        b0 \<leftarrow> load (tn_buffer t) 0;
        if b0 \<noteq> TELNET_TTYPE_IS \<and> b0 \<noteq> TELNET_TTYPE_SEND
        then Some (0, warn ''_ttype_telnet'' TELNET_EPROTOCOL ''TERMINAL-TYPE request has invalid type'' t)
        else if b0 = TELNET_TTYPE_IS
        then (let (ok, rest) = try_alloc (tn_allocs t); t1 = t\<lparr>tn_allocs := rest\<rparr>
              in if \<not> ok
                 then Some (0, warn ''_ttype_telnet'' TELNET_ENOMEM (''malloc() failed: '' @ strerror_ENOMEM) t1)
                 else do {
                   ensure (sz \<le> length (tn_buffer t));
                   Some (0, eh (TELNET_EV_TTYPE TELNET_TTYPE_IS
                     (Some (cstr_at (take (sz - 1) (drop 1 (tn_buffer t)) @ [0]) 0))) t1)
                 })
        else Some (0, eh (TELNET_EV_TTYPE TELNET_TTYPE_SEND None) t)
      })"

section \<open>Dispatch\<close>

definition subnegotiate :: "telnet \<Rightarrow> (int \<times> telnet) option" where
  "subnegotiate t = do {
     ensure (tn_buffer_pos t \<le> length (tn_buffer t));
     let t1 = eh (TELNET_EV_SUBNEGOTIATION (tn_sb_telopt t) (take (tn_buffer_pos t) (tn_buffer t))) t;
     let sz = tn_buffer_pos t;
     let sb = tn_sb_telopt t;
     if sb = TELNET_TELOPT_ZMP then zmp_telnet sz t1
     else if sb = TELNET_TELOPT_TTYPE then ttype_telnet sz t1
     else if sb = TELNET_TELOPT_ENVIRON \<or> sb = TELNET_TELOPT_NEW_ENVIRON then environ_telnet sb sz t1
     else if sb = TELNET_TELOPT_MSSP then mssp_telnet sz t1
     else Some (0, t1)
   }"

section \<open>What the parsers leave alone\<close>

lemmas parser_defs = zmp_telnet_def ttype_telnet_def environ_telnet_def mssp_telnet_def
  environ_warn_def Let_def

lemma zmp_telnet_frame: "zmp_telnet sz t = Some (r, t') \<Longrightarrow> tn_state t' = tn_state t \<and> tn_sb_telopt t' = tn_sb_telopt t"
  by (auto simp: zmp_telnet_def Let_def split: if_splits prod.splits bind_splits)

lemma ttype_telnet_frame: "ttype_telnet sz t = Some (r, t') \<Longrightarrow> tn_state t' = tn_state t \<and> tn_sb_telopt t' = tn_sb_telopt t"
  by (auto simp: ttype_telnet_def Let_def split: if_splits prod.splits bind_splits)

lemma environ_telnet_frame: "environ_telnet ty sz t = Some (r, t') \<Longrightarrow> tn_state t' = tn_state t \<and> tn_sb_telopt t' = tn_sb_telopt t"
  by (auto simp: environ_telnet_def environ_warn_def Let_def split: if_splits prod.splits bind_splits)

lemma mssp_telnet_frame: "mssp_telnet sz t = Some (r, t') \<Longrightarrow> tn_state t' = tn_state t \<and> tn_sb_telopt t' = tn_sb_telopt t"
  by (auto simp: mssp_telnet_def Let_def split: if_splits prod.splits bind_splits sum.splits)

lemma subnegotiate_state:
  "subnegotiate t = Some (r, t') \<Longrightarrow> tn_state t' = tn_state t \<and> tn_sb_telopt t' = tn_sb_telopt t"
  by (auto simp: subnegotiate_def Let_def split: if_splits bind_splits
      dest!: zmp_telnet_frame ttype_telnet_frame environ_telnet_frame mssp_telnet_frame)

section \<open>ZMP and TERMINAL-TYPE: reference\<close>

fun zmp_args :: "byte list \<Rightarrow> byte list list" where
  "zmp_args [] = []"
| "zmp_args (b # bs) =
     (if b = 0 then [] # zmp_args bs
      else case zmp_args bs of [] \<Rightarrow> [[b]] | a # as \<Rightarrow> (b # a) # as)"

definition zmp_spec :: "byte list \<Rightarrow> bool \<Rightarrow> telnet_event list" where
  "zmp_spec bs ok =
     (if bs = [] \<or> List.last bs \<noteq> 0
      then [TELNET_EV_WARNING ''_zmp_telnet'' (snprintf 512 ''incomplete ZMP frame'')]
      else if \<not> ok then [nomem_warning ''_zmp_telnet'' ''calloc() failed: '']
      else [TELNET_EV_ZMP (zmp_args bs)])"

definition ttype_spec :: "byte list \<Rightarrow> bool \<Rightarrow> telnet_event list" where
  "ttype_spec bs ok =
     (case bs of
        [] \<Rightarrow> [TELNET_EV_WARNING ''_ttype_telnet'' (snprintf 512 ''incomplete TERMINAL-TYPE request'')]
      | cmd # name \<Rightarrow>
          if cmd = TELNET_TTYPE_SEND then [TELNET_EV_TTYPE TELNET_TTYPE_SEND None]
          else if cmd \<noteq> TELNET_TTYPE_IS
          then [TELNET_EV_WARNING ''_ttype_telnet'' (snprintf 512 ''TERMINAL-TYPE request has invalid type'')]
          else if \<not> ok then [nomem_warning ''_ttype_telnet'' ''malloc() failed: '']
          else [TELNET_EV_TTYPE TELNET_TTYPE_IS (Some (c_prefix name))])"

lemma zmp_args_split: "0 \<notin> set seg \<Longrightarrow> zmp_args (seg @ 0 # bs) = seg # zmp_args bs"
  by (induction seg) auto

text \<open>A NUL-terminated string of the unread data, found by \<open>strlen\<close>.\<close>

lemma unread_string:
  assumes "sz \<le> length mem" "unread mem sz c \<noteq> []" "List.last (unread mem sz c) = 0"
  obtains seg rest where "unread mem sz c = seg @ 0 # rest" "0 \<notin> set seg"
    "strlen_at mem c = Some (length seg)" "cstr_at mem c = seg"
    "unread mem sz (c + length seg + 1) = rest" "rest = [] \<or> List.last rest = 0"
    "c + length seg + 1 \<le> sz"
proof -
  have "0 \<in> set (unread mem sz c)"
    using assms(2,3) last_in_set by metis
  then obtain seg rest where s: "unread mem sz c = seg @ 0 # rest" "0 \<notin> set seg"
    by (meson split_list_first)
  have m: "drop c mem = unread mem sz c @ drop sz mem" if "c \<le> sz"
    using that unfolding unread_def by (metis append_take_drop_id drop_append drop_take add.commute
        append_Nil2 assms(1) diff_is_0_eq' drop_0 length_take min.absorb2)
  have c: "c < sz"
    using assms(2) by (rule unread_nonempty)
  have cs: "cstr_at mem c = seg"
    using s m c by (auto simp: cstr_at_def takeWhile_stop takeWhile_eq_all_conv)
  moreover have "0 \<in> set (drop c mem)"
    using s m c by simp
  ultimately have "strlen_at mem c = Some (length seg)"
    by (simp add: strlen_at_def)
  moreover have "unread mem sz (c + length seg + 1) = drop (length seg + 1) (unread mem sz c)"
    by (simp add: unread_def add.commute add.left_commute)
  moreover have "c + length seg + 1 \<le> sz"
    using s(1) length_unread [OF assms(1), of c] c by simp
  ultimately show ?thesis
    using s cs assms(3) by (intro that [of seg rest]) (auto split: if_splits)
qed

lemma zmp_argc_ref:
  assumes "sz \<le> length mem" "unread mem sz c = [] \<and> c = sz \<or> unread mem sz c \<noteq> [] \<and> List.last (unread mem sz c) = 0"
  shows "zmp_argc mem sz c n = Some (n + length (zmp_args (unread mem sz c)))"
  using assms
proof (induction mem sz c n rule: zmp_argc.induct)
  case (1 mem sz c n)
  show ?case
  proof (cases "unread mem sz c = []")
    case True
    with "1.prems" show ?thesis
      by (simp add: zmp_argc.simps)
  next
    case False
    then have "c \<noteq> sz"
      using unread_nonempty by fastforce
    from False "1.prems" obtain seg rest where s: "unread mem sz c = seg @ 0 # rest" "0 \<notin> set seg"
      "strlen_at mem c = Some (length seg)" "unread mem sz (c + length seg + 1) = rest"
      "rest = [] \<or> List.last rest = 0" "c + length seg + 1 \<le> sz"
      by (auto elim: unread_string)
    have "rest = [] \<Longrightarrow> c + length seg + 1 = sz"
      using s(4,6) length_unread [OF "1.prems"(1), of "c + length seg + 1"] by simp
    with "1.IH" [OF \<open>c \<noteq> sz\<close> s(3) "1.prems"(1)] s(4,5)
    have "zmp_argc mem sz (c + length seg + 1) (n + 1) = Some (n + 1 + length (zmp_args rest))"
      by auto
    with s \<open>c \<noteq> sz\<close> show ?thesis
      by (subst zmp_argc.simps) (simp add: zmp_args_split)
  qed
qed

lemma zmp_argv_ref:
  assumes "sz \<le> length mem" "unread mem sz c = [] \<or> List.last (unread mem sz c) = 0"
    "zmp_args (unread mem sz c) = as"
  shows "\<exists>offs. zmp_argv (length as) mem c = Some offs \<and> map (cstr_at mem) offs = as"
  using assms
proof (induction as arbitrary: c)
  case (Cons a as)
  then have "unread mem sz c \<noteq> []" "List.last (unread mem sz c) = 0"
    by auto
  with Cons.prems obtain seg rest where s: "unread mem sz c = seg @ 0 # rest" "0 \<notin> set seg"
    "strlen_at mem c = Some (length seg)" "cstr_at mem c = seg"
    "unread mem sz (c + length seg + 1) = rest" "rest = [] \<or> List.last rest = 0"
    by (auto elim: unread_string)
  with Cons.prems(3) have a: "a = seg" "zmp_args rest = as"
    by (simp_all add: zmp_args_split)
  with Cons.IH [of "c + length seg + 1"] Cons.prems(1) s obtain offs where
    "zmp_argv (length as) mem (c + length seg + 1) = Some offs" "map (cstr_at mem) offs = as"
    by auto
  with s a show ?case
    by auto
qed simp

lemma unread_0: "unread mem sz 0 = take sz mem"
  by (simp add: unread_def)

lemma zmp_telnet_ref:
  assumes sz: "sz \<le> length (tn_buffer t)"
  obtains t' where "zmp_telnet sz t = Some (0, t')"
    "tn_events t' = tn_events t @ zmp_spec (take sz (tn_buffer t)) (next_alloc t)" "core_same t t'"
proof -
  obtain ok al where al: "try_alloc (tn_allocs t) = (ok, al)"
    by (cases "try_alloc (tn_allocs t)")
  note simps = zmp_telnet_def zmp_spec_def core_same_def nomem_warning_def next_alloc_def
  have la: "sz \<noteq> 0 \<Longrightarrow> load (tn_buffer t) (sz - 1) = Some (List.last (take sz (tn_buffer t)))"
    using sz by (subst last_conv_nth) (auto simp: min_def)
  show ?thesis
  proof (cases "sz = 0 \<or> List.last (take sz (tn_buffer t)) \<noteq> 0")
    case True
    then show ?thesis
      using la by (intro that [of "warn ''_zmp_telnet'' TELNET_EPROTOCOL ''incomplete ZMP frame'' t"])
        (auto simp: simps)
  next
    case False
    then have ne: "take sz (tn_buffer t) \<noteq> []"
      using sz by auto
    define as where "as = zmp_args (take sz (tn_buffer t))"
    have argc: "zmp_argc (tn_buffer t) sz 0 0 = Some (length as)"
      using zmp_argc_ref [OF sz, of 0 0] False ne by (simp add: unread_0 as_def)
    obtain offs where argv: "zmp_argv (length as) (tn_buffer t) 0 = Some offs" "map (cstr_at (tn_buffer t)) offs = as"
      using zmp_argv_ref [OF sz, of 0 as] False by (auto simp: unread_0 as_def)
    show ?thesis
      by (rule that [of "if ok then eh (TELNET_EV_ZMP as) (t\<lparr>tn_allocs := al\<rparr>)
            else warn ''_zmp_telnet'' TELNET_ENOMEM (''calloc() failed: '' @ strerror_ENOMEM) (t\<lparr>tn_allocs := al\<rparr>)"])
        (use False ne al argc argv la in \<open>auto simp: simps as_def\<close>)
  qed
qed

lemma ttype_telnet_ref:
  assumes sz: "sz \<le> length (tn_buffer t)"
  obtains t' where "ttype_telnet sz t = Some (0, t')"
    "tn_events t' = tn_events t @ ttype_spec (take sz (tn_buffer t)) (next_alloc t)" "core_same t t'"
proof -
  obtain ok al where al: "try_alloc (tn_allocs t) = (ok, al)"
    by (cases "try_alloc (tn_allocs t)")
  note simps = ttype_telnet_def ttype_spec_def core_same_def nomem_warning_def next_alloc_def
  show ?thesis
  proof (cases "sz = 0")
    case True
    then show ?thesis
      by (intro that [of "warn ''_ttype_telnet'' TELNET_EPROTOCOL ''incomplete TERMINAL-TYPE request'' t"])
        (auto simp: simps)
  next
    case False
    with sz obtain cmd mem where b: "tn_buffer t = cmd # mem"
      by (cases "tn_buffer t") auto
    define name where "name = take (sz - 1) mem"
    have tk: "take sz (tn_buffer t) = cmd # name" and nm: "take (sz - 1) (drop 1 (tn_buffer t)) = name"
      using False by (auto simp: b name_def take_Cons')
    have c: "cstr_at (name @ [0]) 0 = c_prefix name"
      by (simp add: cstr_at_def c_prefix_def takeWhile_stop [of _ _ _ "[]", simplified])
    show ?thesis
      by (rule that [of "if cmd = TELNET_TTYPE_SEND then eh (TELNET_EV_TTYPE TELNET_TTYPE_SEND None) t
            else if cmd \<noteq> TELNET_TTYPE_IS
            then warn ''_ttype_telnet'' TELNET_EPROTOCOL ''TERMINAL-TYPE request has invalid type'' t
            else if ok then eh (TELNET_EV_TTYPE TELNET_TTYPE_IS (Some (c_prefix name))) (t\<lparr>tn_allocs := al\<rparr>)
            else warn ''_ttype_telnet'' TELNET_ENOMEM (''malloc() failed: '' @ strerror_ENOMEM) (t\<lparr>tn_allocs := al\<rparr>)"])
        (use False b tk nm c sz al in \<open>auto simp: simps\<close>)
  qed
qed

section \<open>Dispatch: complete behaviour\<close>

definition subneg_spec :: "byte \<Rightarrow> byte list \<Rightarrow> bool \<Rightarrow> int \<times> telnet_event list" where
  "subneg_spec opt bs ok =
     (let (r, evs) =
        (if opt = TELNET_TELOPT_ZMP then (0, zmp_spec bs ok)
         else if opt = TELNET_TELOPT_TTYPE then (0, ttype_spec bs ok)
         else if opt = TELNET_TELOPT_ENVIRON \<or> opt = TELNET_TELOPT_NEW_ENVIRON then environ_spec opt bs ok
         else if opt = TELNET_TELOPT_MSSP then (0, mssp_spec bs ok)
         else (0, []))
      in (r, TELNET_EV_SUBNEGOTIATION opt bs # evs))"

definition subneg_data :: "telnet \<Rightarrow> byte list" where
  "subneg_data t = take (tn_buffer_pos t) (tn_buffer t)"

definition subneg_safe :: "telnet \<Rightarrow> bool" where
  "subneg_safe t \<longleftrightarrow> tn_buffer_pos t \<le> length (tn_buffer t) \<and>
     (tn_sb_telopt t = TELNET_TELOPT_MSSP \<longrightarrow> mssp_safe (tn_buffer_pos t) (tn_buffer t))"

lemma core_same_eh [simp]: "core_same (eh ev t) t' \<longleftrightarrow> core_same t t'"
  by (simp add: core_same_def)

lemma next_alloc_eh [simp]: "next_alloc (eh ev t) = next_alloc t"
  by (simp add: next_alloc_def)

lemma subnegotiate_ref:
  assumes safe: "subneg_safe t"
  obtains t' where
    "subnegotiate t = Some (fst (subneg_spec (tn_sb_telopt t) (subneg_data t) (next_alloc t)), t')"
    "tn_events t' = tn_events t @ snd (subneg_spec (tn_sb_telopt t) (subneg_data t) (next_alloc t))"
    "core_same t t'"
proof -
  have sz: "tn_buffer_pos t \<le> length (tn_buffer t)"
    using safe by (simp add: subneg_safe_def)
  let ?t1 = "eh (TELNET_EV_SUBNEGOTIATION (tn_sb_telopt t) (subneg_data t)) t"
  have sz1: "tn_buffer_pos t \<le> length (tn_buffer ?t1)"
    using sz by simp
  note defs = subnegotiate_def subneg_spec_def subneg_data_def
  consider "tn_sb_telopt t = TELNET_TELOPT_ZMP" | "tn_sb_telopt t = TELNET_TELOPT_TTYPE"
    | "tn_sb_telopt t = TELNET_TELOPT_ENVIRON \<or> tn_sb_telopt t = TELNET_TELOPT_NEW_ENVIRON"
    | "tn_sb_telopt t = TELNET_TELOPT_MSSP"
    | "tn_sb_telopt t \<notin> {TELNET_TELOPT_ZMP, TELNET_TELOPT_TTYPE, TELNET_TELOPT_ENVIRON,
        TELNET_TELOPT_NEW_ENVIRON, TELNET_TELOPT_MSSP}"
    by auto
  then show ?thesis
  proof cases
    case 1
    show ?thesis
      by (rule zmp_telnet_ref [OF sz1]) (rule that, use 1 sz in \<open>auto simp: defs\<close>)
  next
    case 2
    show ?thesis
      by (rule ttype_telnet_ref [OF sz1]) (rule that, use 2 sz in \<open>auto simp: defs\<close>)
  next
    case 3
    show ?thesis
      by (rule environ_telnet_ref [OF sz1, of "tn_sb_telopt t"]) (rule that, use 3 sz in \<open>auto simp: defs split: prod.splits\<close>)
  next
    case 4
    have ms: "mssp_safe (tn_buffer_pos t) (tn_buffer ?t1)"
      using safe 4 by (simp add: subneg_safe_def)
    show ?thesis
      by (rule mssp_telnet_ref [OF ms]) (rule that, use 4 sz in \<open>auto simp: defs\<close>)
  next
    case 5
    with sz show ?thesis
      by (intro that [of ?t1]) (simp_all add: defs core_same_def)
  qed
qed

section \<open>Properties\<close>


definition demo_zmp :: telnet where
  "demo_zmp = demo_telnet\<lparr>tn_buffer := [122, 109, 0, 49, 0, 7], tn_buffer_pos := 5, tn_sb_telopt := TELNET_TELOPT_ZMP\<rparr>"


end
