(* ===== verification/Telnet_Stream.thy ===== *)
theory Telnet_Stream
  imports Telnet_Subneg
begin

text \<open>
  The byte stream of \<^verbatim>\<open>telnet.c\<close>: \<open>_process\<close> with one definition for each state of its switch,
  \<open>telnet_recv\<close>, and the sending functions. The lemmas show that receiving is memory safe and
  keeps the buffer's invariant, that it does not depend on how the stream is cut into chunks, and
  that what the sending functions encode the receiving side decodes.
\<close>

section \<open>Receiving\<close>

text \<open>
  A DATA event for the bytes from \<open>start\<close> to \<open>i\<close>: its size is the \<open>size_t\<close> difference, its bytes
  those of that many that are inside the buffer.
\<close>

definition data_event :: "byte list \<Rightarrow> nat \<Rightarrow> nat \<Rightarrow> telnet_event" where
  "data_event buf start i =
     (let n = of_nat i - of_nat start :: 64 word in TELNET_EV_DATA (take (unat n) (drop start buf)) n)"

definition process_DATA :: "byte list \<Rightarrow> nat \<Rightarrow> nat \<Rightarrow> byte \<Rightarrow> telnet \<Rightarrow> telnet" where
  "process_DATA buf i start b t =
     (if b = TELNET_IAC
      then (if i \<noteq> start then eh (data_event buf start i) t else t)\<lparr>tn_state := TELNET_STATE_IAC\<rparr>
      else t)"

definition process_IAC :: "nat \<Rightarrow> nat \<Rightarrow> byte \<Rightarrow> telnet \<Rightarrow> nat \<times> telnet" where
  "process_IAC i start b t =
     (if b = TELNET_SB then (start, t\<lparr>tn_state := TELNET_STATE_SB\<rparr>)
      else if b = TELNET_WILL then (start, t\<lparr>tn_state := TELNET_STATE_WILL\<rparr>)
      else if b = TELNET_WONT then (start, t\<lparr>tn_state := TELNET_STATE_WONT\<rparr>)
      else if b = TELNET_DO then (start, t\<lparr>tn_state := TELNET_STATE_DO\<rparr>)
      else if b = TELNET_DONT then (start, t\<lparr>tn_state := TELNET_STATE_DONT\<rparr>)
      else if b = TELNET_IAC
      then (i + 1, (eh (TELNET_EV_DATA [b] 1) t)\<lparr>tn_state := TELNET_STATE_DATA\<rparr>)
      else (i + 1, (eh (TELNET_EV_IAC b) t)\<lparr>tn_state := TELNET_STATE_DATA\<rparr>))"

definition process_SB_DATA :: "nat \<Rightarrow> nat \<Rightarrow> byte \<Rightarrow> telnet \<Rightarrow> (nat \<times> telnet) option" where
  "process_SB_DATA i start b t =
     (if b = TELNET_IAC then Some (start, t\<lparr>tn_state := TELNET_STATE_SB_DATA_IAC\<rparr>)
      else if tn_sb_telopt t = TELNET_TELOPT_COMPRESS \<and> b = TELNET_WILL
      then Some (i + 2, t\<lparr>tn_state := TELNET_STATE_DATA\<rparr>)
      else do {
        (err, t1) \<leftarrow> buffer_byte b t;
        Some (if err \<noteq> TELNET_EOK then (i + 1, t1\<lparr>tn_state := TELNET_STATE_DATA\<rparr>) else (start, t1))
      })"

definition process_SB_IAC :: "nat \<Rightarrow> nat \<Rightarrow> telnet \<Rightarrow> (nat \<times> telnet) option" where
  "process_SB_IAC i start t = do {
     (err, t1) \<leftarrow> buffer_byte TELNET_IAC t;
     Some (if err \<noteq> TELNET_EOK then (i + 1, t1\<lparr>tn_state := TELNET_STATE_DATA\<rparr>)
           else (start, t1\<lparr>tn_state := TELNET_STATE_SB_DATA\<rparr>))
   }"

definition process_unexpected :: "byte \<Rightarrow> telnet \<Rightarrow> (int \<times> telnet) option" where
  "process_unexpected b t =
     subnegotiate ((warn ''_process'' TELNET_EPROTOCOL
       (''unexpected byte after IAC inside SB: '' @ dec_of_nat (unat b)) t)\<lparr>tn_state := TELNET_STATE_IAC\<rparr>)"

definition process_flush :: "byte list \<Rightarrow> nat \<Rightarrow> nat \<Rightarrow> telnet \<Rightarrow> telnet" where
  "process_flush buf i start t =
     (if tn_state t = TELNET_STATE_DATA \<and> i \<noteq> start then eh (data_event buf start i) t else t)"

text \<open>
  The loop. When a subnegotiation handler returns non-zero, the rest of the buffer goes through
  \<open>telnet_recv\<close>, which is \<open>_process\<close> from position 0; an unexpected byte after IAC in a
  subnegotiation is processed again as a buffer of its own.
\<close>

function process :: "byte list \<Rightarrow> nat \<Rightarrow> nat \<Rightarrow> telnet \<Rightarrow> telnet option" where
  "process buf i start t =
     (if i < length buf
      then let b = buf ! i
           in case tn_state t of
                TELNET_STATE_DATA \<Rightarrow> process buf (i + 1) start (process_DATA buf i start b t)
              | TELNET_STATE_IAC \<Rightarrow>
                  (let (start', t') = process_IAC i start b t in process buf (i + 1) start' t')
              | TELNET_STATE_SB \<Rightarrow>
                  process buf (i + 1) start
                    (t\<lparr>tn_sb_telopt := b, tn_buffer_pos := 0, tn_state := TELNET_STATE_SB_DATA\<rparr>)
              | TELNET_STATE_SB_DATA \<Rightarrow> do {
                  (start', t') \<leftarrow> process_SB_DATA i start b t;
                  process buf (i + 1) start' t'
                }
              | TELNET_STATE_SB_DATA_IAC \<Rightarrow>
                  (if b = TELNET_SE then do {
                     (r, t') \<leftarrow> subnegotiate (t\<lparr>tn_state := TELNET_STATE_DATA\<rparr>);
                     if r \<noteq> 0 then process (drop (i + 1) buf) 0 0 t'
                     else process buf (i + 1) (i + 1) t'
                   }
                   else if b = TELNET_IAC then do {
                     (start', t') \<leftarrow> process_SB_IAC i start t;
                     process buf (i + 1) start' t'
                   }
                   else do {
                     (r, t') \<leftarrow> process_unexpected b t;
                     if r \<noteq> 0 then process (drop (i + 1) buf) 0 0 t'
                     else do {
                       t'' \<leftarrow> process [b] 0 0 t';
                       process buf (i + 1) (i + 1) t''
                     }
                   })
              | _ \<Rightarrow> process buf (i + 1) (i + 1) ((negotiate b t)\<lparr>tn_state := TELNET_STATE_DATA\<rparr>)
      else Some (process_flush buf i start t))"
  by pat_completeness auto
termination
  by (relation "measures [\<lambda>(buf, i, start, t). length buf - i,
      \<lambda>(buf, i, start, t). if tn_state t = TELNET_STATE_SB_DATA_IAC then 1 else 0]")
    (auto simp: process_unexpected_def dest!: subnegotiate_state)

declare process.simps [simp del]

definition telnet_recv :: "byte list \<Rightarrow> telnet \<Rightarrow> telnet option" where
  "telnet_recv buf t = process buf 0 0 t"

section \<open>Sending\<close>

definition telnet_iac :: "byte \<Rightarrow> telnet \<Rightarrow> telnet" where
  "telnet_iac cmd t = telnet_send_raw [TELNET_IAC, cmd] t"

function telnet_send_loop :: "byte list \<Rightarrow> nat \<Rightarrow> nat \<Rightarrow> telnet \<Rightarrow> telnet" where
  "telnet_send_loop buf i l t =
     (if i < length buf then
        (if buf ! i = TELNET_IAC
         then telnet_send_loop buf (i + 1) (i + 1)
           (telnet_iac TELNET_IAC (if i \<noteq> l then telnet_send_raw (take (i - l) (drop l buf)) t else t))
         else telnet_send_loop buf (i + 1) l t)
      else if i \<noteq> l then telnet_send_raw (take (i - l) (drop l buf)) t else t)"
  by pat_completeness auto
termination
  by (relation "measure (\<lambda>(buf, i, l, t). length buf - i)") auto

declare telnet_send_loop.simps [simp del]

definition telnet_send :: "byte list \<Rightarrow> telnet \<Rightarrow> telnet" where
  "telnet_send buf t = telnet_send_loop buf 0 0 t"

definition telnet_begin_sb :: "byte \<Rightarrow> telnet \<Rightarrow> telnet" where
  "telnet_begin_sb telopt t = telnet_send_raw [TELNET_IAC, TELNET_SB, telopt] t"

definition telnet_finish_sb :: "telnet \<Rightarrow> telnet" where
  "telnet_finish_sb t = telnet_iac TELNET_SE t"

definition telnet_subnegotiation :: "byte \<Rightarrow> byte list \<Rightarrow> telnet \<Rightarrow> telnet" where
  "telnet_subnegotiation telopt buf t =
     telnet_send_raw [TELNET_IAC, TELNET_SE]
       (telnet_send buf (telnet_send_raw [TELNET_IAC, TELNET_SB, telopt] t))"

definition telnet_begin_compress2 :: "telnet \<Rightarrow> telnet" where
  "telnet_begin_compress2 t = t"

abbreviation CR :: byte where "CR \<equiv> 13"
abbreviation LF :: byte where "LF \<equiv> 10"

function telnet_vprintf_loop :: "byte list \<Rightarrow> nat \<Rightarrow> nat \<Rightarrow> telnet \<Rightarrow> telnet" where
  "telnet_vprintf_loop buf i l t =
     (if i < length buf then
        (if buf ! i = TELNET_IAC \<or> buf ! i = CR \<or> buf ! i = LF
         then let t1 = (if i \<noteq> l then telnet_send_raw (take (i - l) (drop l buf)) t else t)
              in telnet_vprintf_loop buf (i + 1) (i + 1)
                   (if buf ! i = TELNET_IAC then telnet_iac TELNET_IAC t1
                    else if buf ! i = CR then telnet_send_raw [CR, 0] t1
                    else telnet_send_raw [CR, LF] t1)
         else telnet_vprintf_loop buf (i + 1) l t)
      else if i \<noteq> l then telnet_send_raw (take (i - l) (drop l buf)) t else t)"
  by pat_completeness auto
termination
  by (relation "measure (\<lambda>(buf, i, l, t). length buf - i)") auto

declare telnet_vprintf_loop.simps [simp del]

text \<open>
  The formatted text is an argument: \<open>fst\<close> what the first \<open>vsnprintf\<close> call expands the format to,
  \<open>snd\<close> what the second expands it to, which is made only for 1024 bytes or more and reuses the
  \<open>va_list\<close> the first has consumed. The loop reads as many bytes as the second call reports, which
  must not be more than the first did.
\<close>

definition telnet_vformat :: "string \<Rightarrow> byte list \<times> byte list \<Rightarrow> telnet \<Rightarrow> (byte list option \<times> telnet) option" where
  "telnet_vformat func expansion t =
     (if length (fst expansion) < 1024 then Some (Some (fst expansion), t)
      else let (ok, rest) = try_alloc (tn_allocs t); t1 = t\<lparr>tn_allocs := rest\<rparr>
           in if \<not> ok
              then Some (None, warn func TELNET_ENOMEM (''malloc() failed: '' @ strerror_ENOMEM) t1)
              else do {
                ensure (length (snd expansion) \<le> length (fst expansion));
                Some (Some (snd expansion), t1)
              })"

definition telnet_vprintf :: "byte list \<times> byte list \<Rightarrow> telnet \<Rightarrow> (int \<times> telnet) option" where
  "telnet_vprintf expansion t = do {
     (out, t1) \<leftarrow> telnet_vformat ''telnet_vprintf'' expansion t;
     Some (case out of
       None \<Rightarrow> (- 1, t1)
     | Some bs \<Rightarrow> (int (length bs), telnet_vprintf_loop bs 0 0 t1))
   }"

definition telnet_printf :: "byte list \<times> byte list \<Rightarrow> telnet \<Rightarrow> (int \<times> telnet) option" where
  "telnet_printf expansion t = telnet_vprintf expansion t"

definition telnet_raw_vprintf :: "byte list \<times> byte list \<Rightarrow> telnet \<Rightarrow> (int \<times> telnet) option" where
  "telnet_raw_vprintf expansion t = do {
     (out, t1) \<leftarrow> telnet_vformat ''telnet_raw_vprintf'' expansion t;
     Some (case out of
       None \<Rightarrow> (- 1, t1)
     | Some bs \<Rightarrow> (int (length bs), telnet_send bs t1))
   }"

definition telnet_raw_printf :: "byte list \<times> byte list \<Rightarrow> telnet \<Rightarrow> (int \<times> telnet) option" where
  "telnet_raw_printf expansion t = telnet_raw_vprintf expansion t"

definition telnet_begin_newenviron :: "byte \<Rightarrow> telnet \<Rightarrow> telnet" where
  "telnet_begin_newenviron cmd t = telnet_send [cmd] (telnet_begin_sb TELNET_TELOPT_NEW_ENVIRON t)"

text \<open>A C string argument is the bytes before its NUL, \<open>None\<close> the NULL pointer.\<close>

definition telnet_newenviron_value :: "byte \<Rightarrow> byte list option \<Rightarrow> telnet \<Rightarrow> telnet" where
  "telnet_newenviron_value ty str t =
     (let t1 = telnet_send [ty] t in case str of None \<Rightarrow> t1 | Some s \<Rightarrow> telnet_send s t1)"

definition telnet_ttype_send :: "telnet \<Rightarrow> telnet" where
  "telnet_ttype_send t =
     telnet_send_raw [TELNET_IAC, TELNET_SB, TELNET_TELOPT_TTYPE, TELNET_TTYPE_SEND, TELNET_IAC, TELNET_SE] t"

definition telnet_ttype_is :: "byte list option \<Rightarrow> telnet \<Rightarrow> telnet option" where
  "telnet_ttype_is ttype t =
     (case ttype of
        None \<Rightarrow> None
      | Some s \<Rightarrow> Some (telnet_finish_sb (telnet_send_raw s
          (telnet_send_raw [TELNET_IAC, TELNET_SB, TELNET_TELOPT_TTYPE, TELNET_TTYPE_IS] t))))"

definition telnet_zmp_arg :: "byte list \<Rightarrow> telnet \<Rightarrow> telnet" where
  "telnet_zmp_arg arg t = telnet_send (arg @ [0]) t"

definition telnet_begin_zmp :: "byte list \<Rightarrow> telnet \<Rightarrow> telnet" where
  "telnet_begin_zmp cmd t = telnet_zmp_arg cmd (telnet_begin_sb TELNET_TELOPT_ZMP t)"

definition telnet_finish_zmp :: "telnet \<Rightarrow> telnet" where
  "telnet_finish_zmp t = telnet_finish_sb t"

definition telnet_send_zmp :: "byte list list \<Rightarrow> telnet \<Rightarrow> telnet option" where
  "telnet_send_zmp argv t =
     (case argv of
        [] \<Rightarrow> None
      | cmd # args \<Rightarrow> Some (telnet_finish_zmp (fold telnet_zmp_arg args (telnet_begin_zmp cmd t))))"

definition telnet_send_vzmpv :: "byte list list \<Rightarrow> telnet \<Rightarrow> telnet" where
  "telnet_send_vzmpv va t = telnet_finish_zmp (fold telnet_zmp_arg va (telnet_begin_sb TELNET_TELOPT_ZMP t))"

definition telnet_send_zmpv :: "byte list list \<Rightarrow> telnet \<Rightarrow> telnet" where
  "telnet_send_zmpv va t = telnet_send_vzmpv va t"

section \<open>The loop, one byte at a time\<close>

text \<open>
  One turn of the loop: \<open>Inl\<close> the new \<open>start\<close> and the tracker when the loop goes on, \<open>Inr\<close> the
  tracker when the rest of the buffer goes through \<open>telnet_recv\<close>.
\<close>

definition process_step :: "byte list \<Rightarrow> nat \<Rightarrow> nat \<Rightarrow> byte \<Rightarrow> telnet \<Rightarrow> (nat \<times> telnet + telnet) option" where
  "process_step buf i start b t =
     (case tn_state t of
        TELNET_STATE_DATA \<Rightarrow> Some (Inl (start, process_DATA buf i start b t))
      | TELNET_STATE_IAC \<Rightarrow> Some (Inl (process_IAC i start b t))
      | TELNET_STATE_SB \<Rightarrow>
          Some (Inl (start, t\<lparr>tn_sb_telopt := b, tn_buffer_pos := 0, tn_state := TELNET_STATE_SB_DATA\<rparr>))
      | TELNET_STATE_SB_DATA \<Rightarrow> map_option Inl (process_SB_DATA i start b t)
      | TELNET_STATE_SB_DATA_IAC \<Rightarrow>
          (if b = TELNET_SE
           then map_option (\<lambda>(r, t'). if r \<noteq> 0 then Inr t' else Inl (i + 1, t'))
             (subnegotiate (t\<lparr>tn_state := TELNET_STATE_DATA\<rparr>))
           else if b = TELNET_IAC then map_option Inl (process_SB_IAC i start t)
           else map_option (\<lambda>(r, t'). if r \<noteq> 0 then Inr t' else Inl (i + 1, snd (process_IAC 0 0 b t')))
             (process_unexpected b t))
      | _ \<Rightarrow> Some (Inl (i + 1, (negotiate b t)\<lparr>tn_state := TELNET_STATE_DATA\<rparr>)))"

lemma process_one_IAC:
  assumes "tn_state t = TELNET_STATE_IAC"
  shows "process [b] 0 0 t = Some (snd (process_IAC 0 0 b t))"
proof -
  obtain s' t' where st: "process_IAC 0 0 b t = (s', t')"
    by (cases "process_IAC 0 0 b t")
  then have "tn_state t' = TELNET_STATE_DATA \<Longrightarrow> s' = 1"
    by (auto simp: process_IAC_def split: if_splits)
  then have "process [b] 1 s' t' = Some t'"
    by (subst process.simps) (auto simp: process_flush_def)
  with assms st show ?thesis
    by (subst process.simps) simp
qed

lemma process_unexpected_state: "process_unexpected b t = Some (r, t') \<Longrightarrow> tn_state t' = TELNET_STATE_IAC"
  by (auto simp: process_unexpected_def dest!: subnegotiate_state)

lemma process_turn:
  assumes "i < length buf"
  shows "process buf i start t = do {
      res \<leftarrow> process_step buf i start (buf ! i) t;
      case res of Inl (start', t') \<Rightarrow> process buf (i + 1) start' t' | Inr t' \<Rightarrow> process (drop (i + 1) buf) 0 0 t'
    }"
proof (cases "tn_state t = TELNET_STATE_SB_DATA_IAC \<and> buf ! i \<noteq> TELNET_SE \<and> buf ! i \<noteq> TELNET_IAC")
  case True
  then show ?thesis
    using assms process_unexpected_state [of "buf ! i" t]
    by (subst process.simps, cases "process_unexpected (buf ! i) t") (auto simp: process_step_def process_one_IAC)
next
  case False
  then show ?thesis
    using assms by (subst process.simps)
      (cases "tn_state t"; auto simp: process_step_def Let_def split: prod.splits option.splits bind_splits)
qed

lemma process_end: "length buf \<le> i \<Longrightarrow> process buf i start t = Some (process_flush buf i start t)"
  by (subst process.simps) simp

section \<open>The trace so far does not matter\<close>

definition pre :: "telnet_event list \<Rightarrow> telnet \<Rightarrow> telnet" where
  "pre evs t = t\<lparr>tn_events := evs @ tn_events t\<rparr>"

lemma pre_frame [simp]:
  "tn_telopts (pre evs t) = tn_telopts t" "tn_q (pre evs t) = tn_q t" "tn_q_size (pre evs t) = tn_q_size t"
  "tn_buffer (pre evs t) = tn_buffer t" "tn_buffer_size (pre evs t) = tn_buffer_size t"
  "tn_buffer_pos (pre evs t) = tn_buffer_pos t" "tn_state (pre evs t) = tn_state t"
  "tn_flags (pre evs t) = tn_flags t" "tn_sb_telopt (pre evs t) = tn_sb_telopt t"
  "tn_allocs (pre evs t) = tn_allocs t" "tn_events (pre evs t) = evs @ tn_events t"
  by (simp_all add: pre_def)

lemma pre_update [simp]:
  "(pre evs t)\<lparr>tn_state := st\<rparr> = pre evs (t\<lparr>tn_state := st\<rparr>)"
  "(pre evs t)\<lparr>tn_allocs := al\<rparr> = pre evs (t\<lparr>tn_allocs := al\<rparr>)"
  "(pre evs t)\<lparr>tn_buffer := mem\<rparr> = pre evs (t\<lparr>tn_buffer := mem\<rparr>)"
  "(pre evs t)\<lparr>tn_buffer_size := n\<rparr> = pre evs (t\<lparr>tn_buffer_size := n\<rparr>)"
  "(pre evs t)\<lparr>tn_buffer_pos := n\<rparr> = pre evs (t\<lparr>tn_buffer_pos := n\<rparr>)"
  "(pre evs t)\<lparr>tn_sb_telopt := b\<rparr> = pre evs (t\<lparr>tn_sb_telopt := b\<rparr>)"
  "(pre evs t)\<lparr>tn_q := q\<rparr> = pre evs (t\<lparr>tn_q := q\<rparr>)"
  "(pre evs t)\<lparr>tn_q_size := qs\<rparr> = pre evs (t\<lparr>tn_q_size := qs\<rparr>)"
  by (simp_all add: pre_def)

lemma eh_pre [simp]: "eh ev (pre evs t) = pre evs (eh ev t)"
  by (simp add: eh_def pre_def)

lemma get_rfc1143_pre [simp]: "get_rfc1143 (pre evs t) = get_rfc1143 t"
  by (rule get_rfc1143_cong) simp_all

lemma check_telopt_pre [simp]: "check_telopt (pre evs t) = check_telopt t"
  by (rule check_telopt_cong) simp

lemma set_rfc1143_pre [simp]: "set_rfc1143 opt us him (pre evs t) = pre evs (set_rfc1143 opt us him t)"
  by (simp add: set_rfc1143_def Let_def split: option.split prod.split)

lemma if_pre: "(if c then pre evs t else pre evs t') = pre evs (if c then t else t')"
  by simp

lemma negotiate_commands_pre:
  "negotiate_WILL opt q (pre evs t) = pre evs (negotiate_WILL opt q t)"
  "negotiate_WONT opt q (pre evs t) = pre evs (negotiate_WONT opt q t)"
  "negotiate_DO opt q (pre evs t) = pre evs (negotiate_DO opt q t)"
  "negotiate_DONT opt q (pre evs t) = pre evs (negotiate_DONT opt q t)"
  "negotiate_proxy opt (pre evs t) = pre evs (negotiate_proxy opt t)"
  unfolding negotiate_WILL_def negotiate_WONT_def negotiate_DO_def negotiate_DONT_def negotiate_proxy_def
    send_negotiate_eh warn_eh set_rfc1143_pre eh_pre check_telopt_pre if_pre pre_frame
  by (simp_all split: telnet_state.split)

lemma negotiate_pre [simp]: "negotiate opt (pre evs t) = pre evs (negotiate opt t)"
  by (simp add: negotiate_def negotiate_commands_pre Let_def split: telnet_state.split)

lemma grow_buffer_pre: "grow_buffer (pre evs t) = map_prod id (pre evs) (grow_buffer t)"
  by (cases "try_alloc (tn_allocs t)") (simp add: grow_buffer_def telnet_error_ev_def Let_def)

lemma buffer_byte_pre: "buffer_byte b (pre evs t) = map_option (map_prod id (pre evs)) (buffer_byte b t)"
  by (cases "grow_buffer t") (simp add: buffer_byte_def grow_buffer_pre store_def)

lemma zmp_telnet_pre: "zmp_telnet sz (pre evs t) = map_option (map_prod id (pre evs)) (zmp_telnet sz t)"
  by (cases "try_alloc (tn_allocs t)"; cases "zmp_argc (tn_buffer t) sz 0 0")
    (simp_all add: zmp_telnet_def Let_def split: bind_split)

lemma ttype_telnet_pre: "ttype_telnet sz (pre evs t) = map_option (map_prod id (pre evs)) (ttype_telnet sz t)"
  by (cases "try_alloc (tn_allocs t)") (simp add: ttype_telnet_def Let_def split: bind_split)

lemma environ_telnet_pre: "environ_telnet ty sz (pre evs t) = map_option (map_prod id (pre evs)) (environ_telnet ty sz t)"
  by (cases "try_alloc (tn_allocs t)"; cases "environ_count (tn_buffer t) sz 1 0")
    (simp_all add: environ_telnet_def environ_warn_def Let_def split: bind_split)

lemma mssp_telnet_pre: "mssp_telnet sz (pre evs t) = map_option (map_prod id (pre evs)) (mssp_telnet sz t)"
  by (cases "try_alloc (tn_allocs t)"; cases "mssp_count (tn_buffer t) sz 0 0")
    (simp_all add: mssp_telnet_def Let_def split: bind_split sum.split)

lemma subnegotiate_pre: "subnegotiate (pre evs t) = map_option (map_prod id (pre evs)) (subnegotiate t)"
  by (simp add: subnegotiate_def Let_def zmp_telnet_pre ttype_telnet_pre environ_telnet_pre mssp_telnet_pre)

lemma process_unexpected_pre:
  "process_unexpected b (pre evs t) = map_option (map_prod id (pre evs)) (process_unexpected b t)"
  by (simp add: process_unexpected_def subnegotiate_pre)

lemma process_IAC_pre: "process_IAC i start b (pre evs t) = map_prod id (pre evs) (process_IAC i start b t)"
  by (simp add: process_IAC_def)

lemma process_step_pre:
  "process_step buf i start b (pre evs t) =
     map_option (map_sum (map_prod id (pre evs)) (pre evs)) (process_step buf i start b t)"
  by (cases "tn_state t")
    (auto simp: process_step_def process_DATA_def process_IAC_pre process_SB_DATA_def process_SB_IAC_def
      buffer_byte_pre subnegotiate_pre process_unexpected_pre option.map_comp comp_def intro!: option.map_cong0
      split: bind_splits option.splits prod.splits)

lemma process_pre: "process buf i start (pre evs t) = map_option (pre evs) (process buf i start t)"
proof (induction "length buf - i" arbitrary: buf i start t rule: less_induct)
  case less
  show ?case
  proof (cases "i < length buf")
    case True
    have "length buf - (i + 1) < length buf - i" "length (drop (i + 1) buf) - 0 < length buf - i"
      using True by auto
    note IH = less [OF this(1)] less [OF this(2)]
    show ?thesis
      unfolding process_turn [OF True] process_step_pre
      by (cases "process_step buf i start (buf ! i) t") (auto simp: IH [simplified] split: sum.splits)
  qed (simp add: process_end process_flush_def)
qed

lemma telnet_recv_pre: "telnet_recv buf (pre evs t) = map_option (pre evs) (telnet_recv buf t)"
  by (simp add: telnet_recv_def process_pre)

section \<open>What a turn leaves alone\<close>

lemma negotiate_frame [simp]:
  "tn_sb_telopt (negotiate opt t) = tn_sb_telopt t" "tn_buffer (negotiate opt t) = tn_buffer t"
  "tn_buffer_size (negotiate opt t) = tn_buffer_size t" "tn_buffer_pos (negotiate opt t) = tn_buffer_pos t"
  by (simp_all add: negotiate_def negotiate_WILL_def negotiate_WONT_def negotiate_DO_def negotiate_DONT_def
      negotiate_proxy_def send_negotiate_eh Let_def split: telnet_state.split)

lemma buffer_byte_frame:
  assumes "buffer_byte b t = Some (err, t')"
  shows "tn_state t' = tn_state t \<and> tn_sb_telopt t' = tn_sb_telopt t"
  using assms by (cases "try_alloc (tn_allocs t)")
    (auto simp: buffer_byte_def grow_buffer_def telnet_error_ev_def Let_def split: if_splits bind_splits)

lemma process_IAC_frame:
  assumes "process_IAC i start b t = (s, t')"
  shows "tn_sb_telopt t' = tn_sb_telopt t" "tn_state t' = TELNET_STATE_SB \<Longrightarrow> b = TELNET_SB"
    "tn_state t' = TELNET_STATE_DATA \<Longrightarrow> s = i + 1" "s = start \<or> s = i + 1"
  using assms by (auto simp: process_IAC_def split: if_splits)

definition step_tracker :: "nat \<times> telnet + telnet \<Rightarrow> telnet" where
  "step_tracker res = (case res of Inl (_, t) \<Rightarrow> t | Inr t \<Rightarrow> t)"

lemma step_tracker_simps [simp]: "step_tracker (Inl p) = snd p" "step_tracker (Inr t) = t"
  by (simp_all add: step_tracker_def split: prod.split)

section \<open>Chunks\<close>

text \<open>
  The events with data as single bytes: how received data was cut into DATA events is not part of
  it. \<open>same_but_cut\<close> relates two trackers that differ at most in that.
\<close>

definition bytewise :: "telnet_event list \<Rightarrow> telnet_event list" where
  "bytewise evs = concat (map (\<lambda>ev. case ev of TELNET_EV_DATA bs n \<Rightarrow> map (\<lambda>b. TELNET_EV_DATA [b] 1) bs | _ \<Rightarrow> [ev]) evs)"

lemma bytewise_append [simp]: "bytewise (xs @ ys) = bytewise xs @ bytewise ys"
  by (simp add: bytewise_def)

definition same_but_cut :: "telnet \<Rightarrow> telnet \<Rightarrow> bool" where
  "same_but_cut t t' \<longleftrightarrow> t'\<lparr>tn_events := []\<rparr> = t\<lparr>tn_events := []\<rparr> \<and> bytewise (tn_events t') = bytewise (tn_events t)"

lemma same_but_cut_refl [simp]: "same_but_cut t t"
  by (simp add: same_but_cut_def)

lemma same_but_cut_trans: "same_but_cut t t' \<Longrightarrow> same_but_cut t' t'' \<Longrightarrow> same_but_cut t t''"
  by (simp add: same_but_cut_def)

lemma same_but_cut_sym: "same_but_cut t t' \<Longrightarrow> same_but_cut t' t"
  by (simp add: same_but_cut_def)

lemma same_but_cut_pre: "same_but_cut t t' \<longleftrightarrow>
    (\<exists>evs evs' u. t = pre evs u \<and> t' = pre evs' u \<and> tn_events u = [] \<and> bytewise evs' = bytewise evs)"
proof
  assume s: "same_but_cut t t'"
  have "t = pre (tn_events t) (t\<lparr>tn_events := []\<rparr>)" for t :: telnet
    by (simp add: pre_def)
  with s show "\<exists>evs evs' u. t = pre evs u \<and> t' = pre evs' u \<and> tn_events u = [] \<and> bytewise evs' = bytewise evs"
    unfolding same_but_cut_def by (metis (no_types, lifting) telnet.select_convs(11) telnet.surjective telnet.update_convs(11))
next
  assume "\<exists>evs evs' u. t = pre evs u \<and> t' = pre evs' u \<and> tn_events u = [] \<and> bytewise evs' = bytewise evs"
  then show "same_but_cut t t'"
    by (auto simp: same_but_cut_def pre_def)
qed

lemma same_but_cut_preI: "bytewise evs' = bytewise evs \<Longrightarrow> same_but_cut (pre evs t) (pre evs' t)"
  by (simp add: same_but_cut_def pre_def)

lemma telnet_recv_cong:
  assumes "same_but_cut t t'"
  shows "rel_option same_but_cut (telnet_recv buf t) (telnet_recv buf t')"
proof -
  obtain evs evs' u where "t = pre evs u" "t' = pre evs' u" "bytewise evs' = bytewise evs"
    using assms by (auto simp: same_but_cut_pre)
  then show ?thesis
    by (cases "telnet_recv buf u") (auto simp: telnet_recv_pre same_but_cut_preI)
qed

lemma rel_option_bind:
  "rel_option R x y \<Longrightarrow> (\<And>a b. R a b \<Longrightarrow> rel_option S (f a) (g b)) \<Longrightarrow> rel_option S (x \<bind> f) (y \<bind> g)"
  by (cases x; cases y) auto

lemma rel_option_trans:
  "rel_option same_but_cut x y \<Longrightarrow> rel_option same_but_cut y z \<Longrightarrow> rel_option same_but_cut x z"
  by (cases x; cases y; cases z) (auto intro: same_but_cut_trans)

lemma rel_option_refl: "rel_option same_but_cut x x"
  by (cases x) auto

lemma process_step_shape:
  assumes "tn_state t \<noteq> TELNET_STATE_DATA"
  shows "map_option step_tracker (process_step buf i start b t) =
    map_option step_tracker (process_step buf' i' start' b t)"
  using assms by (cases "tn_state t")
    (auto simp: process_step_def process_IAC_def process_SB_DATA_def process_SB_IAC_def option.map_comp
      comp_def intro!: option.map_cong0 split: bind_splits)

lemma process_step_start:
  assumes "process_step buf i start b t = Some (Inl (s, t'))" "tn_sb_telopt t \<noteq> TELNET_TELOPT_COMPRESS"
    "tn_state t \<noteq> TELNET_STATE_DATA" "tn_state t' = TELNET_STATE_DATA"
  shows "s = i + 1"
  using assms by (cases "tn_state t")
    (auto simp: process_step_def process_IAC_def process_SB_DATA_def process_SB_IAC_def
      dest!: buffer_byte_frame split: if_splits bind_splits)

text \<open>A single byte that arrives on its own.\<close>

lemma telnet_recv_one:
  assumes "tn_state t \<noteq> TELNET_STATE_DATA" "tn_sb_telopt t \<noteq> TELNET_TELOPT_COMPRESS"
  shows "telnet_recv [b] t = map_option step_tracker (process_step buf i start b t)"
proof -
  have "telnet_recv [b] t = map_option step_tracker (process_step [b] 0 0 b t)"
  proof (cases "process_step [b] 0 0 b t")
    case (Some res)
    show ?thesis
    proof (cases res)
      case (Inl p)
      then have "process [b] 1 (fst p) (snd p) = Some (snd p)"
        using process_step_start [of "[b]" 0 0 b t "fst p" "snd p"] Some assms
        by (auto simp: process_end process_flush_def)
      with Some Inl show ?thesis
        by (cases p) (simp add: telnet_recv_def process_turn)
    qed (use Some in \<open>simp add: telnet_recv_def process_turn process_end process_flush_def\<close>)
  qed (simp add: telnet_recv_def process_turn)
  then show ?thesis
    using process_step_shape [OF assms(1)] by metis
qed

lemma telnet_recv_one_DATA:
  "tn_state t = TELNET_STATE_DATA \<Longrightarrow> telnet_recv [b] t =
     Some (if b = TELNET_IAC then t\<lparr>tn_state := TELNET_STATE_IAC\<rparr> else eh (TELNET_EV_DATA [b] 1) t)"
  by (simp add: telnet_recv_def process_turn process_step_def process_DATA_def process_end process_flush_def
      data_event_def Let_def)

fun recv_bytes :: "byte list \<Rightarrow> telnet \<Rightarrow> telnet option" where
  "recv_bytes [] t = Some t"
| "recv_bytes (b # bs) t = telnet_recv [b] t \<bind> recv_bytes bs"

lemma recv_bytes_append: "recv_bytes (xs @ ys) t = recv_bytes xs t \<bind> recv_bytes ys"
  by (induction xs arbitrary: t) (auto split: bind_splits)

lemma recv_bytes_cong: "same_but_cut t t' \<Longrightarrow> rel_option same_but_cut (recv_bytes bs t) (recv_bytes bs t')"
  by (induction bs arbitrary: t t') (auto intro!: rel_option_bind telnet_recv_cong)

text \<open>
  The stream never has the tracker in a subnegotiation for the option: the tracker is in none now
  and enters none while the bytes arrive one by one.
\<close>

fun no_sb :: "byte \<Rightarrow> telnet \<Rightarrow> byte list \<Rightarrow> bool" where
  "no_sb opt t [] \<longleftrightarrow> tn_sb_telopt t \<noteq> opt"
| "no_sb opt t (b # bs) \<longleftrightarrow> tn_sb_telopt t \<noteq> opt \<and>
     (case telnet_recv [b] t of None \<Rightarrow> True | Some t' \<Rightarrow> no_sb opt t' bs)"

lemma no_sb_pre: "no_sb opt (pre evs t) bs \<longleftrightarrow> no_sb opt t bs"
  by (induction bs arbitrary: t) (auto simp: telnet_recv_pre split: option.splits)

lemma no_sb_strip: "t'\<lparr>tn_events := []\<rparr> = t\<lparr>tn_events := []\<rparr> \<Longrightarrow> no_sb opt t' bs \<longleftrightarrow> no_sb opt t bs"
proof -
  assume "t'\<lparr>tn_events := []\<rparr> = t\<lparr>tn_events := []\<rparr>"
  moreover have "t = pre (tn_events t) (t\<lparr>tn_events := []\<rparr>)" "t' = pre (tn_events t') (t'\<lparr>tn_events := []\<rparr>)"
    by (simp_all add: pre_def)
  ultimately show ?thesis
    by (metis no_sb_pre)
qed

lemma no_sb_telopt: "no_sb opt t bs \<Longrightarrow> tn_sb_telopt t \<noteq> opt"
  by (cases bs) auto

lemma no_sb_append: "no_sb opt t (xs @ ys) \<Longrightarrow> no_sb opt t xs"
  by (induction xs arbitrary: t) (auto dest: no_sb_telopt split: option.splits)

lemma no_sb_recv_bytes:
  "no_sb opt t (xs @ ys) \<Longrightarrow> recv_bytes xs t = Some t' \<Longrightarrow> no_sb opt t' ys"
  by (induction xs arbitrary: t) (auto split: option.splits bind_splits)

lemma no_sb_cut: "same_but_cut t t' \<Longrightarrow> no_sb opt t' bs \<longleftrightarrow> no_sb opt t bs"
  by (rule no_sb_strip) (simp add: same_but_cut_def)

lemma process_flush_strip: "(process_flush buf i start t)\<lparr>tn_events := []\<rparr> = t\<lparr>tn_events := []\<rparr>"
  by (simp add: process_flush_def eh_def)

lemma telnet_recv_one_strip:
  assumes "process_step buf i start b t = Some res"
  obtains t' where "telnet_recv [b] t = Some t'" "t'\<lparr>tn_events := []\<rparr> = (step_tracker res)\<lparr>tn_events := []\<rparr>"
proof (cases "tn_state t = TELNET_STATE_DATA")
  case True
  with assms show ?thesis
    by (intro that [OF telnet_recv_one_DATA]) (auto simp: process_step_def process_DATA_def eh_def)
next
  case False
  obtain res' where res': "process_step [b] 0 0 b t = Some res'" "step_tracker res' = step_tracker res"
    using process_step_shape [OF False, of "[b]" 0 0 b buf i start] assms by auto
  show ?thesis
  proof (cases res')
    case (Inl q)
    with res' show ?thesis
      by (cases q, intro that [of "process_flush [b] 1 (fst q) (snd q)"])
        (auto simp: telnet_recv_def process_turn process_end process_flush_strip)
  next
    case (Inr t')
    with res' show ?thesis
      by (intro that [of t']) (auto simp: telnet_recv_def process_turn process_end process_flush_def)
  qed
qed

lemma no_sb_step:
  assumes "no_sb opt t (b # bs)" "process_step buf i start b t = Some res"
  shows "no_sb opt (step_tracker res) bs"
proof -
  obtain t' where "telnet_recv [b] t = Some t'" "t'\<lparr>tn_events := []\<rparr> = (step_tracker res)\<lparr>tn_events := []\<rparr>"
    by (rule telnet_recv_one_strip [OF assms(2)])
  with assms(1) no_sb_strip [of t' "step_tracker res"] show ?thesis
    by simp
qed

lemma data_event_in:
  "start \<le> i \<Longrightarrow> i \<le> length buf \<Longrightarrow> length buf < 2 ^ 64 \<Longrightarrow>
     data_event buf start i = TELNET_EV_DATA (take (i - start) (drop start buf)) (of_nat (i - start))"
proof -
  assume a: "start \<le> i" "i \<le> length buf" "length buf < 2 ^ 64"
  then have "of_nat i - of_nat start = (of_nat (i - start) :: 64 word)"
    by (simp add: of_nat_diff)
  moreover have "unat (of_nat (i - start) :: 64 word) = i - start"
    using a by (simp add: unat_of_nat del: of_nat_diff)
  ultimately show ?thesis
    unfolding data_event_def by (simp del: of_nat_diff)
qed

lemma process_flush_next:
  assumes "start \<le> i" "i < length buf" "length buf < 2 ^ 64" "tn_state t = TELNET_STATE_DATA"
  shows "same_but_cut (process_flush buf (i + 1) start t)
    (eh (TELNET_EV_DATA [buf ! i] 1) (process_flush buf i start t))"
proof -
  have "take (Suc i - start) (drop start buf) = take (i - start) (drop start buf) @ [buf ! i]"
    using assms(1,2) by (simp add: Suc_diff_le take_Suc_conv_app_nth)
  then have "bytewise [data_event buf start (i + 1)] =
      bytewise (if i \<noteq> start then [data_event buf start i] else []) @ [TELNET_EV_DATA [buf ! i] 1]"
    using assms(1-3) by (auto simp: data_event_in bytewise_def)
  moreover have "bytewise [TELNET_EV_DATA [buf ! i] 1] = [TELNET_EV_DATA [buf ! i] 1]" "bytewise [] = []"
    by (simp_all add: bytewise_def)
  ultimately show ?thesis
    using assms(1,4) by (auto simp: process_flush_def same_but_cut_def eh_def)
qed

definition flushed :: "byte list \<Rightarrow> nat \<Rightarrow> nat \<times> telnet + telnet \<Rightarrow> telnet" where
  "flushed buf i res = (case res of Inl (s, t) \<Rightarrow> process_flush buf i s t | Inr t \<Rightarrow> t)"

text \<open>A turn of the loop does what the byte does on its own, after the pending data.\<close>

lemma turn_is_recv_one:
  assumes "start \<le> i" "i < length buf" "length buf < 2 ^ 64" "tn_sb_telopt t \<noteq> TELNET_TELOPT_COMPRESS"
  shows "rel_option same_but_cut (map_option (flushed buf (i + 1)) (process_step buf i start (buf ! i) t))
    (telnet_recv [buf ! i] (process_flush buf i start t))"
proof (cases "tn_state t = TELNET_STATE_DATA")
  case data: True
  show ?thesis
  proof (cases "buf ! i = TELNET_IAC")
    case True
    with data show ?thesis
      by (simp add: process_step_def process_DATA_def flushed_def process_flush_def telnet_recv_one_DATA)
  next
    case False
    have "tn_state (process_flush buf i start t) = TELNET_STATE_DATA"
      using data by (simp add: process_flush_def)
    with False data process_flush_next [OF assms(1-3) data] show ?thesis
      by (simp add: process_step_def process_DATA_def flushed_def telnet_recv_one_DATA)
  qed
next
  case False
  then have fl: "process_flush buf i start t = t"
    by (simp add: process_flush_def)
  have "flushed buf (i + 1) res = step_tracker res" if "process_step buf i start (buf ! i) t = Some res" for res
    using process_step_start [of buf i start "buf ! i" t] that False assms(4)
    by (auto simp: flushed_def process_flush_def split: sum.split)
  then show ?thesis
    unfolding fl telnet_recv_one [OF False assms(4), of "buf ! i" buf i start]
    by (cases "process_step buf i start (buf ! i) t") auto
qed

lemma step_start_le:
  assumes "process_step buf i start b t = Some (Inl (s, t'))" "tn_sb_telopt t \<noteq> TELNET_TELOPT_COMPRESS" "start \<le> i"
  shows "s \<le> i + 1"
  using assms by (cases "tn_state t")
    (auto simp: process_step_def process_IAC_def process_SB_DATA_def process_SB_IAC_def
      split: if_splits bind_splits)

lemma process_bytes:
  assumes "start \<le> i" "i \<le> length buf" "length buf < 2 ^ 64" "no_sb TELNET_TELOPT_COMPRESS t (drop i buf)"
  shows "rel_option same_but_cut (process buf i start t)
    (recv_bytes (drop i buf) (process_flush buf i start t))"
  using assms
proof (induction "length buf - i" arbitrary: buf i start t rule: less_induct)
  case less
  note p = less.prems
  show ?case
  proof (cases "i < length buf")
    case False
    with p show ?thesis
      by (simp add: process_end)
  next
    case True
    then have d: "drop i buf = buf ! i # drop (i + 1) buf"
      by (simp add: Cons_nth_drop_Suc)
    have ns: "tn_sb_telopt t \<noteq> TELNET_TELOPT_COMPRESS"
      using p(4) by (rule no_sb_telopt)
    have lt: "length buf - (i + 1) < length buf - i" "length (drop (i + 1) buf) - 0 < length buf - i"
      using True by auto
    have "rel_option same_but_cut
        (case res of Inl (s, t') \<Rightarrow> process buf (i + 1) s t' | Inr t' \<Rightarrow> process (drop (i + 1) buf) 0 0 t')
        (recv_bytes (drop (i + 1) buf) (flushed buf (i + 1) res))"
      if st: "process_step buf i start (buf ! i) t = Some res" for res
    proof (cases res)
      case (Inl q)
      then show ?thesis
        using less.hyps [OF lt(1), of "fst q" "snd q"] no_sb_step [OF p(4) [unfolded d] st] True p(3)
          step_start_le [of buf i start "buf ! i" t "fst q" "snd q"] st ns p(1)
        by (cases q) (simp add: flushed_def)
    next
      case (Inr t')
      then show ?thesis
        using less.hyps [OF lt(2), of 0 t'] no_sb_step [OF p(4) [unfolded d] st] p(3)
        by (simp add: flushed_def process_flush_def)
    qed
    then have "rel_option same_but_cut (process buf i start t)
        (map_option (flushed buf (i + 1)) (process_step buf i start (buf ! i) t) \<bind> recv_bytes (drop (i + 1) buf))"
      unfolding process_turn [OF True]
      by (cases "process_step buf i start (buf ! i) t") (auto split: sum.splits)
    moreover have "rel_option same_but_cut
        (map_option (flushed buf (i + 1)) (process_step buf i start (buf ! i) t) \<bind> recv_bytes (drop (i + 1) buf))
        (recv_bytes (drop i buf) (process_flush buf i start t))"
      unfolding d recv_bytes.simps
      using turn_is_recv_one [OF p(1) True p(3) ns] by (rule rel_option_bind) (rule recv_bytes_cong)
    ultimately show ?thesis
      by (rule rel_option_trans)
  qed
qed

lemma telnet_recv_bytes:
  assumes "length buf < 2 ^ 64" "no_sb TELNET_TELOPT_COMPRESS t buf"
  shows "rel_option same_but_cut (telnet_recv buf t) (recv_bytes buf t)"
  using process_bytes [of 0 0 buf t] assms by (simp add: telnet_recv_def process_flush_def)

lemma telnet_recv_append:
  assumes "length (xs @ ys) < 2 ^ 64" "no_sb TELNET_TELOPT_COMPRESS t (xs @ ys)"
  shows "rel_option same_but_cut (telnet_recv (xs @ ys) t) (telnet_recv xs t \<bind> telnet_recv ys)"
proof -
  have x: "rel_option same_but_cut (recv_bytes xs t) (telnet_recv xs t)"
    using telnet_recv_bytes [of xs t] no_sb_append [OF assms(2)] assms(1)
    by (auto simp: option.rel_sel intro: same_but_cut_sym)
  have "rel_option same_but_cut (recv_bytes ys u) (telnet_recv ys u')"
    if "recv_bytes xs t = Some u" "same_but_cut u u'" for u u'
  proof -
    have "no_sb TELNET_TELOPT_COMPRESS u' ys"
      using no_sb_recv_bytes [OF assms(2) that(1)] no_sb_cut [OF that(2)] by simp
    then have "rel_option same_but_cut (recv_bytes ys u') (telnet_recv ys u')"
      using telnet_recv_bytes [of ys u'] assms(1) by (auto simp: option.rel_sel intro: same_but_cut_sym)
    then show ?thesis
      using recv_bytes_cong [OF that(2)] rel_option_trans by blast
  qed
  then have "rel_option same_but_cut (recv_bytes (xs @ ys) t) (telnet_recv xs t \<bind> telnet_recv ys)"
    unfolding recv_bytes_append using x by (cases "recv_bytes xs t"; cases "telnet_recv xs t") auto
  with telnet_recv_bytes [OF assms] show ?thesis
    by (rule rel_option_trans)
qed

section \<open>Memory safety\<close>

definition buf_inv :: "telnet \<Rightarrow> bool" where
  "buf_inv t \<longleftrightarrow> tn_buffer_pos t \<le> tn_buffer_size t \<and> length (tn_buffer t) = tn_buffer_size t \<and>
     tn_buffer_size t \<in> set buffer_sizes"

lemma grow_buffer_full:
  assumes "tn_buffer_size t \<in> set buffer_sizes" "length (tn_buffer t) = tn_buffer_size t"
    "grow_buffer t = (err, t')"
  shows "tn_buffer_size t' \<in> set buffer_sizes" "length (tn_buffer t') = tn_buffer_size t'"
    "tn_buffer_pos t' = tn_buffer_pos t" "err = TELNET_EOK \<Longrightarrow> tn_buffer_size t < tn_buffer_size t'"
    "err \<noteq> TELNET_EOK \<Longrightarrow> tn_buffer_size t' = tn_buffer_size t"
    "take (tn_buffer_size t) (tn_buffer t') = tn_buffer t"
proof -
  have s: "tn_buffer_size t \<in> {0, 512, 2048, 8192, 16384}"
    using assms(1) by (simp add: buffer_sizes_def)
  obtain ok al where al: "try_alloc (tn_allocs t) = (ok, al)"
    by (cases "try_alloc (tn_allocs t)")
  from s al assms(2,3) show "tn_buffer_size t' \<in> set buffer_sizes" "length (tn_buffer t') = tn_buffer_size t'"
    "tn_buffer_pos t' = tn_buffer_pos t" "err = TELNET_EOK \<Longrightarrow> tn_buffer_size t < tn_buffer_size t'"
    "err \<noteq> TELNET_EOK \<Longrightarrow> tn_buffer_size t' = tn_buffer_size t"
    "take (tn_buffer_size t) (tn_buffer t') = tn_buffer t"
    by (cases ok; auto simp: grow_buffer_def telnet_error_ev_def Let_def buffer_sizes_def buffer_sizes_count_def)+
qed

lemma buffer_byte_safe:
  assumes inv: "buf_inv t"
  obtains err t' where "buffer_byte b t = Some (err, t')" "buf_inv t'"
    "err = TELNET_EOK \<longrightarrow> subneg_data t' = subneg_data t @ [b] \<and> tn_buffer_pos t' = tn_buffer_pos t + 1"
proof (cases "tn_buffer_pos t = tn_buffer_size t")
  case False
  then show ?thesis
    using inv by (intro that [of TELNET_EOK "t\<lparr>tn_buffer := (tn_buffer t)[tn_buffer_pos t := b], tn_buffer_pos := tn_buffer_pos t + 1\<rparr>"])
      (auto simp: buffer_byte_def buf_inv_def subneg_data_def take_Suc_conv_app_nth)
next
  case True
  obtain err t1 where g: "grow_buffer t = (err, t1)"
    by (cases "grow_buffer t")
  note gr = grow_buffer_full [OF _ _ g]
  show ?thesis
  proof (cases "err = TELNET_EOK")
    case False
    then show ?thesis
      using True g gr inv by (intro that [of err t1]) (auto simp: buffer_byte_def buf_inv_def)
  next
    case ok: True
    have "take (tn_buffer_pos t) (tn_buffer t1) = take (tn_buffer_pos t) (tn_buffer t)"
      using gr(6) inv True by (simp add: buf_inv_def)
    then show ?thesis
      using True g gr inv ok
      by (intro that [of TELNET_EOK "t1\<lparr>tn_buffer := (tn_buffer t1)[tn_buffer_pos t1 := b], tn_buffer_pos := tn_buffer_pos t1 + 1\<rparr>"])
        (auto simp: buffer_byte_def buf_inv_def subneg_data_def take_Suc_conv_app_nth)
  qed
qed

lemma subnegotiate_safe:
  assumes "buf_inv t" "tn_sb_telopt t \<noteq> TELNET_TELOPT_MSSP"
  obtains r t' where "subnegotiate t = Some (r, t')" "buf_inv t'"
proof -
  have "subneg_safe t"
    using assms by (simp add: subneg_safe_def buf_inv_def)
  then show ?thesis
    by (rule subnegotiate_ref) (use assms in \<open>auto simp: buf_inv_def core_same_def intro: that\<close>)
qed

lemma process_step_safe:
  assumes "buf_inv t" "tn_sb_telopt t \<noteq> TELNET_TELOPT_MSSP"
  obtains res where "process_step buf i start b t = Some res" "buf_inv (step_tracker res)"
proof -
  have inv: "buf_inv (t\<lparr>tn_state := st\<rparr>)" "buf_inv ((eh ev t)\<lparr>tn_state := st\<rparr>)"
    "tn_sb_telopt (t\<lparr>tn_state := st\<rparr>) \<noteq> TELNET_TELOPT_MSSP"
    "tn_sb_telopt ((eh ev t)\<lparr>tn_state := st\<rparr>) \<noteq> TELNET_TELOPT_MSSP" for ev st
    using assms by (simp_all add: buf_inv_def)
  have "\<exists>res. process_step buf i start b t = Some res \<and> buf_inv (step_tracker res)"
  proof (cases "tn_state t")
    case TELNET_STATE_SB_DATA
    then show ?thesis
      using inv(1) by - (rule buffer_byte_safe [OF assms(1), of b],
          auto simp: process_step_def process_SB_DATA_def buf_inv_def)
  next
    case TELNET_STATE_SB_DATA_IAC
    consider "b = TELNET_SE" | "b = TELNET_IAC" | "b \<noteq> TELNET_SE" "b \<noteq> TELNET_IAC"
      by blast
    then show ?thesis
    proof cases
      case 1
      obtain r t' where "subnegotiate (t\<lparr>tn_state := TELNET_STATE_DATA\<rparr>) = Some (r, t')" "buf_inv t'"
        by (rule subnegotiate_safe [OF inv(1,3)])
      with 1 TELNET_STATE_SB_DATA_IAC show ?thesis
        by (simp add: process_step_def)
    next
      case 2
      with TELNET_STATE_SB_DATA_IAC show ?thesis
        by - (rule buffer_byte_safe [OF assms(1), of TELNET_IAC],
            auto simp: process_step_def process_SB_IAC_def buf_inv_def)
    next
      case 3
      obtain r t' where "process_unexpected b t = Some (r, t')" "buf_inv t'"
        unfolding process_unexpected_def warn_eh by (rule subnegotiate_safe [OF inv(2,4)])
      with 3 TELNET_STATE_SB_DATA_IAC show ?thesis
        by (simp add: process_step_def process_IAC_def buf_inv_def)
    qed
  qed (use assms in \<open>auto simp: process_step_def process_DATA_def process_IAC_def buf_inv_def\<close>)
  then show ?thesis
    using that by blast
qed

lemma process_safe:
  assumes "buf_inv t" "no_sb TELNET_TELOPT_MSSP t (drop i buf)"
  shows "\<exists>t'. process buf i start t = Some t' \<and> buf_inv t'"
  using assms
proof (induction "length buf - i" arbitrary: buf i start t rule: less_induct)
  case less
  note p = less.prems
  show ?case
  proof (cases "i < length buf")
    case False
    with p(1) show ?thesis
      by (simp add: process_end process_flush_def buf_inv_def)
  next
    case True
    then have d: "drop i buf = buf ! i # drop (i + 1) buf"
      by (simp add: Cons_nth_drop_Suc)
    have lt: "length buf - (i + 1) < length buf - i" "length (drop (i + 1) buf) - 0 < length buf - i"
      using True by auto
    have "tn_sb_telopt t \<noteq> TELNET_TELOPT_MSSP"
      using p(2) by (rule no_sb_telopt)
    with p(1) obtain res where st: "process_step buf i start (buf ! i) t = Some res" and inv: "buf_inv (step_tracker res)"
      by (rule process_step_safe)
    have nx: "no_sb TELNET_TELOPT_MSSP (step_tracker res) (drop (i + 1) buf)"
      using no_sb_step [OF p(2) [unfolded d] st] .
    show ?thesis
    proof (cases res)
      case (Inl q)
      with less.hyps [OF lt(1), of "snd q" "fst q"] inv nx st show ?thesis
        by (cases q) (simp add: process_turn [OF True])
    next
      case (Inr t')
      with less.hyps [OF lt(2), of t' 0] inv nx st show ?thesis
        by (simp add: process_turn [OF True])
    qed
  qed
qed

section \<open>Properties\<close>

text \<open>
  C6: receiving is memory safe for any input. From a tracker whose buffer bounds are consistent,
  \<open>telnet_recv\<close> returns for every byte sequence, never touches memory outside its buffer, whatever
  allocations fail, and leaves the bounds consistent; the subnegotiation buffer is never larger
  than 16384 bytes. Only streams that open an MSSP subnegotiation are excluded.
\<close>

theorem telnet_recv_safe:
  assumes "buf_inv t" "no_sb TELNET_TELOPT_MSSP t buf"
  shows "\<exists>t'. telnet_recv buf t = Some t' \<and> buf_inv t' \<and> length (tn_buffer t') \<le> 16384"
proof -
  obtain t' where "telnet_recv buf t = Some t'" "buf_inv t'"
    using process_safe [of t 0 buf 0] assms by (auto simp: telnet_recv_def)
  then show ?thesis
    by (auto simp: buf_inv_def buffer_sizes_def)
qed

text \<open>The steps of a single byte in the plain states, for evaluation.\<close>

lemma telnet_recv_one_IAC:
  "tn_state t = TELNET_STATE_IAC \<Longrightarrow> telnet_recv [b] t = Some (snd (process_IAC 0 0 b t))"
  by (simp add: telnet_recv_def process_one_IAC)

lemma telnet_recv_one_SB:
  "tn_state t = TELNET_STATE_SB \<Longrightarrow> telnet_recv [b] t =
     Some (t\<lparr>tn_sb_telopt := b, tn_buffer_pos := 0, tn_state := TELNET_STATE_SB_DATA\<rparr>)"
  by (simp add: telnet_recv_def process_turn process_step_def process_end process_flush_def)

lemma telnet_recv_one_command:
  "tn_state t \<in> {TELNET_STATE_WILL, TELNET_STATE_WONT, TELNET_STATE_DO, TELNET_STATE_DONT} \<Longrightarrow>
     telnet_recv [b] t = Some ((negotiate b t)\<lparr>tn_state := TELNET_STATE_DATA\<rparr>)"
  by (auto simp: telnet_recv_def process_turn process_step_def process_end process_flush_def)

lemmas recv_one_simps = telnet_recv_one_DATA telnet_recv_one_IAC telnet_recv_one_SB telnet_recv_one_command
  process_IAC_def

lemma buf_inv_demo: "buf_inv demo_telnet"
  by (simp add: buf_inv_def demo_telnet_def telnet_init_def buffer_sizes_def)

lemma demo_state: "tn_state demo_telnet = TELNET_STATE_DATA" "tn_sb_telopt demo_telnet = 0"
  by (simp_all add: demo_telnet_def telnet_init_def)

theorem telnet_recv_safe_witness:
  "\<exists>t'. telnet_recv [72, TELNET_IAC, TELNET_SB, TELNET_TELOPT_ZMP] demo_telnet = Some t' \<and> buf_inv t'"
  using telnet_recv_safe [of demo_telnet "[72, TELNET_IAC, TELNET_SB, TELNET_TELOPT_ZMP]"]
  by (auto simp: buf_inv_demo recv_one_simps demo_state)

text \<open>
  C19: what the application sees does not depend on how the network cuts the stream. Receiving two
  chunks one after the other leaves the tracker in the same state as receiving them as one, and
  gives the application the same events in the same order, up to the cutting of received data into
  DATA events. Only a subnegotiation of the MCCPv1 option is excluded.
\<close>

theorem telnet_recv_chunks:
  assumes "length (xs @ ys) < 2 ^ 64" "no_sb TELNET_TELOPT_COMPRESS t (xs @ ys)"
  shows "rel_option same_but_cut (telnet_recv (xs @ ys) t) (telnet_recv xs t \<bind> telnet_recv ys)"
  using assms by (rule telnet_recv_append)

theorem telnet_recv_chunks_witness:
  "rel_option same_but_cut (telnet_recv [72, TELNET_IAC, TELNET_DO, 1, 73] demo_telnet)
     (telnet_recv [72, TELNET_IAC] demo_telnet \<bind> telnet_recv [TELNET_DO, 1, 73])"
  using telnet_recv_chunks [of "[72, TELNET_IAC]" "[TELNET_DO, 1, 73]" demo_telnet]
  by (simp add: recv_one_simps demo_state)

text \<open>
  An MCCPv1 start sequence cut after its WILL byte makes the tracker report data that does not
  exist. \<open>start\<close> is then behind the end of the chunk, the unsigned difference wraps around, and the
  application gets a DATA event of 2^64 - 1 bytes at an address behind the receive buffer.
\<close>

theorem mccp1_data_size_wraps:
  assumes "tn_state t = TELNET_STATE_SB_DATA" "tn_sb_telopt t = TELNET_TELOPT_COMPRESS"
  shows "telnet_recv [TELNET_WILL] t =
    Some (eh (TELNET_EV_DATA [] (- 1)) (t\<lparr>tn_state := TELNET_STATE_DATA\<rparr>))"
  using assms by (simp add: telnet_recv_def process_turn process_step_def process_SB_DATA_def process_end
      process_flush_def data_event_def Let_def)

definition demo_mccp :: telnet where
  "demo_mccp = demo_telnet\<lparr>tn_state := TELNET_STATE_SB_DATA, tn_sb_telopt := TELNET_TELOPT_COMPRESS\<rparr>"

theorem mccp1_data_size_wraps_witness:
  "telnet_recv [TELNET_WILL] demo_mccp =
     Some (eh (TELNET_EV_DATA [] (- 1)) (demo_mccp\<lparr>tn_state := TELNET_STATE_DATA\<rparr>))"
  by (rule mccp1_data_size_wraps) (simp_all add: demo_mccp_def)

text \<open>
  A command inside an environment subnegotiation is dropped. After IAC in a subnegotiation, a
  byte that is neither SE nor IAC is meant to end it and be carried out as a command; but when the
  collected bytes are a valid environment subnegotiation, whose handler returns 1, the command byte
  is skipped, no event follows, and the byte behind it is taken for the command.
\<close>

theorem unexpected_command_dropped:
  assumes "tn_state t = TELNET_STATE_SB_DATA_IAC" "b \<noteq> TELNET_SE" "b \<noteq> TELNET_IAC" "subneg_safe t"
    "tn_sb_telopt t \<noteq> TELNET_TELOPT_COMPRESS"
    "fst (subneg_spec (tn_sb_telopt t) (subneg_data t) (next_alloc t)) \<noteq> 0"
  shows "\<exists>t'. telnet_recv [b] t = Some t' \<and> tn_state t' = TELNET_STATE_IAC \<and>
    tn_events t' = tn_events t @
      TELNET_EV_WARNING ''_process'' (snprintf 512 (''unexpected byte after IAC inside SB: '' @ dec_of_nat (unat b))) #
      snd (subneg_spec (tn_sb_telopt t) (subneg_data t) (next_alloc t))"
proof -
  let ?u = "(warn ''_process'' TELNET_EPROTOCOL
    (''unexpected byte after IAC inside SB: '' @ dec_of_nat (unat b)) t)\<lparr>tn_state := TELNET_STATE_IAC\<rparr>"
  have u: "subneg_safe ?u" "tn_sb_telopt ?u = tn_sb_telopt t" "subneg_data ?u = subneg_data t" "next_alloc ?u = next_alloc t"
    using assms(4) by (simp_all add: subneg_safe_def subneg_data_def next_alloc_def)
  obtain t' where t': "subnegotiate ?u = Some (fst (subneg_spec (tn_sb_telopt t) (subneg_data t) (next_alloc t)), t')"
    "tn_events t' = tn_events ?u @ snd (subneg_spec (tn_sb_telopt t) (subneg_data t) (next_alloc t))" "core_same ?u t'"
    using subnegotiate_ref [OF u(1)] unfolding u by metis
  have "telnet_recv [b] t = Some t'"
    using telnet_recv_one [of t b "[]" 0 0] assms t'(1)
    by (simp add: process_step_def process_unexpected_def del: warn_eh)
  with t' show ?thesis
    by (simp add: core_same_def)
qed

definition demo_env :: telnet where
  "demo_env = demo_telnet\<lparr>tn_state := TELNET_STATE_SB_DATA_IAC, tn_sb_telopt := TELNET_TELOPT_NEW_ENVIRON,
     tn_buffer := [TELNET_ENVIRON_IS], tn_buffer_pos := 1, tn_buffer_size := 1\<rparr>"

theorem unexpected_command_dropped_witness:
  "\<exists>t'. telnet_recv [TELNET_DO] demo_env = Some t' \<and> tn_state t' = TELNET_STATE_IAC"
  using unexpected_command_dropped [of demo_env TELNET_DO]
  by (auto simp: demo_env_def subneg_safe_def subneg_data_def subneg_spec_def environ_spec_def)

end
