(* ===== verification/Siproxy_World.thy ===== *)
theory Siproxy_World
  imports Match MsgQueue Rs232 Telnet_Stream
begin

text \<open>
  The data of \<^verbatim>\<open>main.c\<close>: events and states as the source enumerates them, the control structure
  \<open>siproxy\<close>, and the world the program runs in. The world holds the program's global variables, the
  input the outside has ready (bytes from the modem, results of system and library calls) and the
  trace of what the program did to the outside. Logging and console output are left out.

  An operation returns normally, ends the process with \<open>exit\<close>, waits for input that has not come,
  or has undefined behaviour; \<open>follow\<close> runs the next statement after a normal return.
\<close>

section \<open>Events, states and the control structure\<close>

datatype EVENT =
    EVT_NONE
  | EVT_MODEM_COLP | EVT_MODEM_CLIP | EVT_MODEM_NO_CARRIER | EVT_MODEM_NO_ANSWER | EVT_MODEM_BUSY
  | EVT_MODEM_OK | EVT_MODEM_ERROR | EVT_MODEM_SMS | EVT_MODEM_MAX
  | EVT_SIP_CALLING | EVT_SIP_INCOMING | EVT_SIP_EARLY | EVT_SIP_CONNECTING | EVT_SIP_CONFIRMED
  | EVT_SIP_DISCONNCTD | EVT_SIP_MAX
  | EVT_MQTT_CALLING | EVT_MQTT_CALLED | EVT_MQTT_STATUS | EVT_MQTT_SMS | EVT_MQTT_MAX
  | EVT_UNKNOW

fun event_code :: "EVENT \<Rightarrow> int" where
  "event_code EVT_NONE = 1"
| "event_code EVT_MODEM_COLP = 2" | "event_code EVT_MODEM_CLIP = 3" | "event_code EVT_MODEM_NO_CARRIER = 4"
| "event_code EVT_MODEM_NO_ANSWER = 5" | "event_code EVT_MODEM_BUSY = 6" | "event_code EVT_MODEM_OK = 7"
| "event_code EVT_MODEM_ERROR = 8" | "event_code EVT_MODEM_SMS = 9" | "event_code EVT_MODEM_MAX = 10"
| "event_code EVT_SIP_CALLING = 11" | "event_code EVT_SIP_INCOMING = 12" | "event_code EVT_SIP_EARLY = 13"
| "event_code EVT_SIP_CONNECTING = 14" | "event_code EVT_SIP_CONFIRMED = 15" | "event_code EVT_SIP_DISCONNCTD = 16"
| "event_code EVT_SIP_MAX = 17"
| "event_code EVT_MQTT_CALLING = 18" | "event_code EVT_MQTT_CALLED = 19" | "event_code EVT_MQTT_STATUS = 20"
| "event_code EVT_MQTT_SMS = 21" | "event_code EVT_MQTT_MAX = 22"
| "event_code EVT_UNKNOW = 23"

text \<open>\<open>struct evt\<close>; \<open>val\<close> is the C string in its array of 1024 characters.\<close>

record evt =
  event :: EVENT
  val :: string

definition VAL_SIZE :: nat where "VAL_SIZE = 1024"

datatype STATE = STATE_INIT | STATE_INCOMING | STATE_CALLING | STATE_EARLY | STATE_CONNECTING
  | STATE_CONFIRMED | STATE_DISCONNCTD | STATE_TERMINATED | STATE_UNKNOW

datatype CALL_INIT = INIT_NONE | INIT_FROM_MODEM | INIT_FROM_SIP

datatype PEER_STATUS = PEER_OFFLINE | PEER_ONLINE

text \<open>\<open>struct siproxy_ctrl\<close>; \<open>sim_num\<close> is the memory of the array, the other names are C strings.\<close>

record siproxy_ctrl =
  sip_state :: STATE
  modem_state :: STATE
  mqtt_state :: STATE
  state_of :: STATE
  init_dir :: CALL_INIT
  uart :: string
  sip_peer :: string
  sip_peer_status :: PEER_STATUS
  sim_num :: "char list"
  uart_fd :: int
  sock_fd :: int
  dbg_level :: int

definition SIM_NUM_SIZE :: nat where "SIM_NUM_SIZE = 255"

definition siproxy_initial :: siproxy_ctrl where
  "siproxy_initial = \<lparr>sip_state = STATE_INIT, modem_state = STATE_INIT, mqtt_state = STATE_INIT,
     state_of = STATE_INIT, init_dir = INIT_NONE, uart = [], sip_peer = [], sip_peer_status = PEER_OFFLINE,
     sim_num = replicate SIM_NUM_SIZE NUL, uart_fd = -1, sock_fd = -1, dbg_level = 0\<rparr>"

section \<open>The world\<close>

text \<open>What a \<open>read\<close> of one byte from the modem returns.\<close>

datatype uart_read = UART_BYTE char | UART_EOF | UART_EINTR | UART_ERROR

text \<open>The will of a connection: topic, message, retained flag, quality of service.\<close>

record connect_options =
  keepAliveInterval :: int
  cleansession :: int
  will :: "(string \<times> string \<times> int \<times> int) option"

text \<open>What the program does to the outside, in order.\<close>

datatype io =
    UART_OUT string
  | SOCK_OUT "byte list"
  | MQTT_CREATE string string
  | MQTT_SET_CALLBACKS
  | MQTT_CONNECT connect_options
  | MQTT_SEND string string int int
  | MQTT_SUBSCRIBE string int
  | MQTT_FREE_MESSAGE

record world =
  w_ctrl :: siproxy_ctrl
  w_events :: "evt queue"
  w_telnet :: telnet
  w_do_echo :: bool
  w_term :: "byte list option"
  w_uart :: "uart_read list"
  w_writes :: "int list"
  w_sends :: "int list"
  w_rcs :: "int list"
  w_date :: string
  w_allocs :: allocs
  w_out :: "io list"

datatype ('a, 'w) result = Done 'a 'w | Exit 'w | Wait 'w | Undefined

type_synonym 'a program = "world \<Rightarrow> ('a, world) result"

definition follow :: "('a, 'w) result \<Rightarrow> ('a \<Rightarrow> 'w \<Rightarrow> ('b, 'w) result) \<Rightarrow> ('b, 'w) result" where
  "follow r f = (case r of Done a w \<Rightarrow> f a w | Exit w \<Rightarrow> Exit w | Wait w \<Rightarrow> Wait w | Undefined \<Rightarrow> Undefined)"

lemma follow_simps [simp]:
  "follow (Done a w) f = f a w" "follow (Exit w) f = Exit w" "follow (Wait w) f = Wait w"
  "follow Undefined f = Undefined"
  by (simp_all add: follow_def)

definition emit :: "io \<Rightarrow> world \<Rightarrow> world" where
  "emit x w = w\<lparr>w_out := w_out w @ [x]\<rparr>"

text \<open>\<open>rs232_cputs\<close> on the modem's line.\<close>

definition uart_puts :: "string \<Rightarrow> world \<Rightarrow> world" where
  "uart_puts cmd w =
     (let l = rs232_cputs cmd \<lparr>ln_sent = [], ln_writes = w_writes w, ln_input = []\<rparr>
      in emit (UART_OUT (ln_sent l)) (w\<lparr>w_writes := ln_writes l\<rparr>))"

lemma emit_simps [simp]:
  "w_ctrl (emit x w) = w_ctrl w" "w_events (emit x w) = w_events w" "w_telnet (emit x w) = w_telnet w"
  "w_do_echo (emit x w) = w_do_echo w" "w_term (emit x w) = w_term w" "w_uart (emit x w) = w_uart w"
  "w_writes (emit x w) = w_writes w" "w_sends (emit x w) = w_sends w" "w_rcs (emit x w) = w_rcs w"
  "w_date (emit x w) = w_date w" "w_allocs (emit x w) = w_allocs w" "w_out (emit x w) = w_out w @ [x]"
  by (simp_all add: emit_def)

lemma uart_puts_frame [simp]:
  "w_ctrl (uart_puts cmd w) = w_ctrl w" "w_events (uart_puts cmd w) = w_events w"
  "w_telnet (uart_puts cmd w) = w_telnet w" "w_do_echo (uart_puts cmd w) = w_do_echo w"
  "w_term (uart_puts cmd w) = w_term w" "w_uart (uart_puts cmd w) = w_uart w"
  "w_sends (uart_puts cmd w) = w_sends w" "w_rcs (uart_puts cmd w) = w_rcs w"
  "w_date (uart_puts cmd w) = w_date w" "w_allocs (uart_puts cmd w) = w_allocs w"
  by (simp_all add: uart_puts_def Let_def)

lemma uart_puts_ok:
  assumes "w_writes w = []"
  shows "uart_puts cmd w = emit (UART_OUT (c_str cmd)) w"
proof -
  have "w\<lparr>w_writes := []\<rparr> = w"
    using assms by (cases w) simp
  then show ?thesis
    using assms by (simp add: uart_puts_def rs232_cputs_sends)
qed

text \<open>\<open>malloc\<close> of an event.\<close>

definition evt_malloc :: "world \<Rightarrow> bool \<times> world" where
  "evt_malloc w = (let (ok, rest) = try_alloc (w_allocs w) in (ok, w\<lparr>w_allocs := rest\<rparr>))"

text \<open>\<open>queue_add (&events_queue, evt, evt->event)\<close>; its result is ignored everywhere.\<close>

definition events_add :: "evt \<Rightarrow> unit program" where
  "events_add e w =
     (case queue_add (w_events w) e (event_code (event e)) of
        None \<Rightarrow> Undefined
      | Some (r, q) \<Rightarrow> Done () (w\<lparr>w_events := q\<rparr>))"

text \<open>A world for examples: nothing queued, nothing pending, every call succeeds.\<close>

definition demo_world :: world where
  "demo_world = \<lparr>w_ctrl = siproxy_initial, w_events = empty_queue [], w_telnet = demo_telnet, w_do_echo = True,
     w_term = Some [120], w_uart = [], w_writes = [], w_sends = [], w_rcs = [], w_date = ''2015-06-01T12:00:00'',
     w_allocs = [], w_out = []\<rparr>"

end
