(* ===== verification/Events.thy ===== *)
theory Events
  imports Siproxy_World
begin

text \<open>
  From text to events in \<^verbatim>\<open>main.c\<close>: the tables that map lines of the modem, of the SIP client and
  topics of the broker to events, their search, and the functions that queue an event.
\<close>

section \<open>Topics\<close>

definition CLIENTID :: string where "CLIENTID = ''100001Alice''"
definition PEERID :: string where "PEERID = ''200002Bob''"

definition TOPIC_STATUS :: string where "TOPIC_STATUS = ''/'' @ CLIENTID @ ''/Status''"
definition PEERID_STATUS :: string where "PEERID_STATUS = ''/'' @ PEERID @ ''/Status''"
definition ONLINE :: string where "ONLINE = ''Online''"
definition OFFLINE :: string where "OFFLINE = ''Offline''"
definition TOPIC_BOB_CALLING :: string where "TOPIC_BOB_CALLING = ''/'' @ PEERID @ ''/Calling/PhoneOther''"
definition TOPIC_ALICE_CALLED :: string where "TOPIC_ALICE_CALLED = ''/'' @ CLIENTID @ ''/Called/PhoneOther''"
definition TOPIC_SMS :: string where "TOPIC_SMS = ''/'' @ CLIENTID @ ''/SMS''"
definition PEERID_SMS :: string where "PEERID_SMS = ''/'' @ PEERID @ ''/SMS''"
definition TOPIC_ALICE_MODEM :: string where "TOPIC_ALICE_MODEM = ''/'' @ CLIENTID @ ''/Modem/Status''"
definition MODEM_CALL_OK :: string where "MODEM_CALL_OK = ''Ok''"

section \<open>The event tables\<close>

definition modem_events :: "(EVENT \<times> string) list" where
  "modem_events =
     [(EVT_NONE, ''NONE''), (EVT_MODEM_COLP, ''+COLP''), (EVT_MODEM_CLIP, ''+CLIP''),
      (EVT_MODEM_NO_CARRIER, ''NO CARRIER''), (EVT_MODEM_NO_ANSWER, ''NO ANSWER''), (EVT_MODEM_BUSY, ''BUSY''),
      (EVT_MODEM_OK, ''OK''), (EVT_MODEM_ERROR, ''ERROR''),
      (EVT_MODEM_SMS, ''+CMTI: '' @ [CHR 0x22] @ ''SM'' @ [CHR 0x22])]"

definition sip_events :: "(EVENT \<times> string) list" where
  "sip_events =
     [(EVT_SIP_CALLING, ''state changed to CALLING''), (EVT_SIP_INCOMING, ''Press ca a to answer''),
      (EVT_SIP_EARLY, ''NONE''), (EVT_SIP_CONNECTING, ''state changed to CONNECTING''),
      (EVT_SIP_CONFIRMED, ''state changed to CONFIRMED''), (EVT_SIP_DISCONNCTD, ''is DISCONNECTED'')]"

definition mqtt_events :: "(EVENT \<times> string) list" where
  "mqtt_events =
     [(EVT_MQTT_CALLING, TOPIC_BOB_CALLING), (EVT_MQTT_STATUS, PEERID_STATUS), (EVT_MQTT_SMS, PEERID_SMS)]"

fun find_event :: "string \<Rightarrow> (EVENT \<times> string) list \<Rightarrow> EVENT" where
  "find_event buf [] = EVT_NONE"
| "find_event buf ((ev, regex) # rows) = (if match regex buf then ev else find_event buf rows)"

section \<open>Queueing events\<close>

definition sip_event_queue :: "string \<Rightarrow> unit program" where
  "sip_event_queue buf w =
     (let ev = find_event buf sip_events
      in if ev \<noteq> EVT_NONE
         then let (ok, w1) = evt_malloc w
              in if \<not> ok then Done () w1
                 else events_add \<lparr>event = ev, val = snprintf VAL_SIZE buf\<rparr> w1
         else Done () w)"

text \<open>
  The payload of a message is \<open>payload\<close> in memory that goes on with \<open>tail\<close>: \<open>"%s"\<close> reads up to the
  first NUL, which has to be somewhere in it, and \<open>palyloadlen\<close> characters of what it read are
  stored, which have to fit the array with their NUL.
\<close>

definition mqtt_event_queue :: "string \<Rightarrow> string \<Rightarrow> string \<Rightarrow> unit program" where
  "mqtt_event_queue topic payload tail w =
     (let ev = find_event topic mqtt_events
      in if ev \<noteq> EVT_NONE
         then let (ok, w1) = evt_malloc w
              in if \<not> ok then Done () w1
                 else if NUL \<notin> set (payload @ tail) then Undefined
                 else let v = snprintf (length payload + 1) (c_str (payload @ tail))
                      in if length v \<ge> VAL_SIZE then Undefined
                         else events_add \<lparr>event = ev, val = v\<rparr> w1
         else Done () w)"

section \<open>What the tables mean\<close>

lemma literal_tables:
  "\<forall>(ev, re) \<in> set (modem_events @ sip_events @ mqtt_events). literal re"
  by (simp add: modem_events_def sip_events_def mqtt_events_def literal_def TOPIC_BOB_CALLING_def PEERID_STATUS_def
      PEERID_SMS_def PEERID_def)

lemma find_event_first:
  assumes "\<forall>(ev, re) \<in> set rows. literal re"
  shows "find_event buf rows = (case find (\<lambda>(ev, re). sublist re buf) rows of None \<Rightarrow> EVT_NONE | Some (ev, re) \<Rightarrow> ev)"
  using assms by (induction buf rows rule: find_event.induct) (auto simp: match_literal_aux)

text \<open>The event of the first row whose text occurs in the line.\<close>

definition first_row :: "string \<Rightarrow> (EVENT \<times> string) list \<Rightarrow> EVENT" where
  "first_row buf rows = (case find (\<lambda>(ev, re). sublist re buf) rows of None \<Rightarrow> EVT_NONE | Some (ev, re) \<Rightarrow> ev)"

lemma find_event_tables:
  "find_event buf modem_events = first_row buf modem_events" "find_event buf sip_events = first_row buf sip_events"
  "find_event buf mqtt_events = first_row buf mqtt_events"
  using literal_tables by (auto simp: first_row_def intro!: find_event_first)

section \<open>Properties\<close>

text \<open>
  C29: recognising events is substring search. The patterns of the three tables contain no
  metacharacter, so a line gives the event of the first row whose text occurs in it, and
  \<open>EVT_NONE\<close> when there is none; nothing is queued for a line or a topic without an event.
\<close>

theorem find_event_substring:
  "find_event buf modem_events = first_row buf modem_events \<and> find_event buf sip_events = first_row buf sip_events \<and>
   find_event buf mqtt_events = first_row buf mqtt_events \<and>
   (first_row buf sip_events = EVT_NONE \<longrightarrow> sip_event_queue buf w = Done () w) \<and>
   (first_row buf mqtt_events = EVT_NONE \<longrightarrow> mqtt_event_queue buf payload tail w = Done () w)"
  by (simp add: find_event_tables sip_event_queue_def mqtt_event_queue_def)

theorem find_event_substring_witness:
  "first_row ''abc'' sip_events = EVT_NONE \<and> sip_event_queue ''abc'' demo_world = Done () demo_world"
proof -
  have "find_event ''abc'' sip_events = EVT_NONE"
    by code_simp
  with find_event_substring [of "''abc''" demo_world "[]" "[]"] show ?thesis
    by simp
qed

text \<open>
  A message from the broker is read past its end. The payload has no NUL of its own, but is
  formatted with \<open>"%s"\<close>: unless a NUL happens to follow in memory the read does not stop inside the
  payload, and a payload of 1024 characters or more without a NUL overflows the event. Only when
  neither happens is the event queued, with the payload up to its first NUL.
\<close>

theorem mqtt_payload_overread:
  assumes "first_row topic mqtt_events \<noteq> EVT_NONE" "fst (evt_malloc w)"
  shows "(NUL \<notin> set (payload @ tail) \<longrightarrow> mqtt_event_queue topic payload tail w = Undefined) \<and>
    (NUL \<notin> set payload \<and> VAL_SIZE \<le> length payload \<longrightarrow> mqtt_event_queue topic payload tail w = Undefined) \<and>
    (NUL \<in> set (payload @ tail) \<and> length payload < VAL_SIZE \<longrightarrow>
       mqtt_event_queue topic payload tail w =
         events_add \<lparr>event = first_row topic mqtt_events, val = c_str payload\<rparr> (snd (evt_malloc w)))"
proof -
  have v: "snprintf (length payload + 1) (c_str (payload @ tail)) = c_str payload"
  proof (cases "NUL \<in> set payload")
    case True
    then have "c_str (payload @ tail) = c_str payload"
      by (induction payload) auto
    with length_c_str_le [of payload] show ?thesis
      by (simp add: snprintf_def)
  qed (simp add: snprintf_def c_str_append c_str_id)
  show ?thesis
    using assms v length_c_str_le [of payload]
    by (auto simp: mqtt_event_queue_def find_event_tables Let_def c_str_id split: prod.splits)
qed

theorem mqtt_payload_overread_witness:
  "mqtt_event_queue PEERID_SMS ''0011'' [] demo_world = Undefined"
proof -
  have "find_event PEERID_SMS mqtt_events = EVT_MQTT_SMS"
    by code_simp
  with mqtt_payload_overread [of PEERID_SMS demo_world "''0011''" "[]"] show ?thesis
    by (simp add: find_event_tables evt_malloc_def demo_world_def)
qed

end
