(* ===== verification/Modem.thy ===== *)
theory Modem
  imports Events
begin

text \<open>
  The modem side of \<^verbatim>\<open>main.c\<close>: reading lines from the serial port, the AT commands, queueing the
  events of unsolicited lines, and fetching a short message.
\<close>

section \<open>Reading a line\<close>

text \<open>
  The loop of \<open>read_line\<close> over the bytes the port returns; \<open>mem\<close> is the caller's buffer. When the
  input ends the call is still waiting, with nothing left to read.
\<close>

datatype line_read = LineRead int "char list" "uart_read list" | LineWaits | LineOverflow

fun read_line_loop :: "nat \<Rightarrow> nat \<Rightarrow> char list \<Rightarrow> uart_read list \<Rightarrow> line_read" where
  "read_line_loop n tot mem [] = LineWaits"
| "read_line_loop n tot mem (UART_EINTR # ins) = read_line_loop n tot mem ins"
| "read_line_loop n tot mem (UART_ERROR # ins) = LineRead (- 1) mem ins"
| "read_line_loop n tot mem (UART_EOF # ins) =
     (if tot = 0 then LineRead 0 mem ins
      else case store mem tot NUL of None \<Rightarrow> LineOverflow | Some mem' \<Rightarrow> LineRead (int tot) mem' ins)"
| "read_line_loop n tot mem (UART_BYTE ch # ins) =
     (if tot < n - 1
      then case store mem tot ch of
             None \<Rightarrow> LineOverflow
           | Some mem1 \<Rightarrow>
               if ch = CHR 0x0A
               then (case store mem1 (tot + 1) NUL of None \<Rightarrow> LineOverflow
                     | Some mem' \<Rightarrow> LineRead (int (tot + 1)) mem' ins)
               else read_line_loop n (tot + 1) mem1 ins
      else if ch = CHR 0x0A
      then (case store mem tot NUL of None \<Rightarrow> LineOverflow | Some mem' \<Rightarrow> LineRead (int tot) mem' ins)
      else read_line_loop n tot mem ins)"

definition read_line :: "char list option \<Rightarrow> nat \<Rightarrow> uart_read list \<Rightarrow> line_read" where
  "read_line buffer n ins =
     (case buffer of
        None \<Rightarrow> LineRead (- 1) [] ins
      | Some mem \<Rightarrow> if n = 0 then LineRead (- 1) mem ins else read_line_loop n 0 mem ins)"

lemma read_line_consumes: "read_line_loop n tot mem ins = LineRead r mem' rest \<Longrightarrow> length rest < length ins"
  by (induction n tot mem ins rule: read_line_loop.induct) (auto split: if_splits option.splits)

section \<open>Commands\<close>

text \<open>The loops that replace control codes by dots: on \<open>unsigned char\<close>, and on \<open>char\<close>, which is signed.\<close>

definition dot_unsigned :: "char \<Rightarrow> char" where
  "dot_unsigned c = (if (of_char c :: nat) < 32 then CHR ''.'' else c)"

definition dot_signed :: "char \<Rightarrow> char" where
  "dot_signed c = (if (of_char c :: nat) < 32 \<or> (of_char c :: nat) \<ge> 128 then CHR ''.'' else c)"

definition dots :: "(char \<Rightarrow> char) \<Rightarrow> nat \<Rightarrow> char list \<Rightarrow> char list" where
  "dots f n mem = map f (take n mem) @ drop n mem"

definition modem_cmd :: "string \<Rightarrow> int program" where
  "modem_cmd cmd w = Done 0 (uart_puts cmd w)"

function modem_cmd_wait_loop :: "string \<Rightarrow> char list \<Rightarrow> int program" where
  "modem_cmd_wait_loop respond mem w =
     (case read_line (Some mem) 4095 (w_uart w) of
        LineOverflow \<Rightarrow> Undefined
      | LineWaits \<Rightarrow> Wait (w\<lparr>w_uart := []\<rparr>)
      | LineRead n mem1 ins \<Rightarrow>
          let w1 = w\<lparr>w_uart := ins\<rparr>;
              mem2 = (if n > 0 then dots dot_unsigned (nat n) (mem1[nat n := NUL]) else mem1)
          in if n > 0 \<and> match respond (c_str mem2) then Done 0 w1
             else modem_cmd_wait_loop respond mem2 w1)"
  by pat_completeness auto
termination
  by (relation "measure (\<lambda>(respond, mem, w). length (w_uart w))")
    (auto simp: read_line_def dest: read_line_consumes)

declare modem_cmd_wait_loop.simps [simp del]

definition modem_cmd_wait :: "string \<Rightarrow> string \<Rightarrow> int program" where
  "modem_cmd_wait cmd respond w = modem_cmd_wait_loop respond (replicate 4096 NUL) (uart_puts cmd w)"

abbreviation CRLF_text :: string where "CRLF_text \<equiv> [CHR 0x0D, CHR 0x0A]"

definition modem_make_call :: "string \<Rightarrow> int program" where
  "modem_make_call num = modem_cmd (snprintf 128 (''ATD'' @ num @ '';'' @ CRLF_text))"

definition modem_answer_call :: "int program" where
  "modem_answer_call = modem_cmd (''ATA'' @ CRLF_text)"

definition modem_hangup_call :: "int program" where
  "modem_hangup_call = modem_cmd (''ATH'' @ CRLF_text)"

definition modem_get_sms :: "string \<Rightarrow> int program" where
  "modem_get_sms index = modem_cmd (snprintf 128 (''AT+CMGR='' @ index @ CRLF_text))"

definition modem_delete_sms :: "string \<Rightarrow> int program" where
  "modem_delete_sms index = modem_cmd (snprintf 128 (''AT+CMGD='' @ index @ CRLF_text))"

text \<open>
  \<open>data[strlen (data)] = 0x1a\<close> puts the end-of-message code over the NUL; the bytes behind it are
  still zero, except in the last position, which would leave no NUL.
\<close>

definition modem_send_sms :: "string \<Rightarrow> int \<Rightarrow> int program" where
  "modem_send_sms pdu tpdu_len w =
     follow (modem_cmd (snprintf 128 (''AT+CMGS='' @ dec_of_int tpdu_len @ [CHR 0x0D])) w) (\<lambda>_ w1.
       let data = snprintf 4096 pdu
       in if length data \<ge> 4095 then Undefined else modem_cmd (data @ [CHR 0x1A]) w1)"

section \<open>Fetching a short message\<close>

text \<open>
  The index between the first comma and the first dot of the notification, copied into an array of
  8 zeroed characters: a missing comma, a dot before the comma, or an index that leaves no NUL is
  undefined behaviour. Without a dot the index is empty.
\<close>

definition sms_index :: "string \<Rightarrow> string option" where
  "sms_index buf =
     (case strstr buf ''.'' of
        None \<Rightarrow> Some []
      | Some e \<Rightarrow>
          (case strstr buf '','' of
             None \<Rightarrow> None
           | Some s \<Rightarrow> if s < e \<and> e - (s + 1) < 8 then Some (c_str (take (e - (s + 1)) (drop (s + 1) buf))) else None))"

text \<open>
  The loop that reads the modem's answer. The fields of the event are indeterminate until a line
  is stored, so the text is \<open>None\<close> up to then, and queueing the event in that state counts as
  undefined. \<open>snprintf (evt->val, len, ...)\<close> with the length of the line drops the dots that stand
  for the line end; it must fit the 1024 characters of \<open>val\<close>, and stores nothing when the length
  is 0.
\<close>

definition sms_store :: "string \<Rightarrow> string option \<Rightarrow> string option option" where
  "sms_store line old =
     (let buf_len = length line;
          len = (if buf_len > 2 \<and> line ! (buf_len - 2) = CHR ''.'' then buf_len - 1 else buf_len)
      in if len = 0 then Some old
         else if len > VAL_SIZE then None
         else Some (Some (snprintf len line)))"

function sms_loop :: "char list \<Rightarrow> string option \<Rightarrow> (string option) program" where
  "sms_loop mem stored w =
     (case read_line (Some mem) 4095 (w_uart w) of
        LineOverflow \<Rightarrow> Undefined
      | LineWaits \<Rightarrow> Wait (w\<lparr>w_uart := []\<rparr>)
      | LineRead n mem1 ins \<Rightarrow>
          let w1 = w\<lparr>w_uart := ins\<rparr>;
              mem2 = (if n > 0 then dots dot_signed (nat n) (mem1[nat n := NUL]) else mem1);
              line = c_str mem2
          in if n > 0 \<and> match ''AT+CMGR'' line then sms_loop mem2 stored w1
             else if n > 0 \<and> match ''+CMGR:'' line then sms_loop mem2 stored w1
             else if n > 0 \<and> mem2 ! 0 = CHR ''.'' then sms_loop mem2 stored w1
             else if n > 0 \<and> match ''OK'' line then Done stored w1
             else case sms_store line stored of
                    None \<Rightarrow> Undefined
                  | Some stored' \<Rightarrow> sms_loop mem2 stored' w1)"
  by pat_completeness auto
termination
  by (relation "measure (\<lambda>(mem, stored, w). length (w_uart w))")
    (auto simp: read_line_def dest: read_line_consumes)

declare sms_loop.simps [simp del]

definition modem_event_sms_queue :: "string \<Rightarrow> unit program" where
  "modem_event_sms_queue buf w =
     (if match ''MMS PUSH'' buf then Done () w
      else let (ok, w1) = evt_malloc w
           in if \<not> ok then Done () w1
              else case sms_index buf of
                     None \<Rightarrow> Undefined
                   | Some index \<Rightarrow>
                       follow (if strstr buf '','' \<noteq> None then modem_get_sms index w1 else Done 0 w1) (\<lambda>_ w2.
                       follow (sms_loop (replicate 4096 NUL) None w2) (\<lambda>stored w3.
                       follow (modem_delete_sms index w3) (\<lambda>_ w4.
                         case stored of
                           None \<Rightarrow> Undefined
                         | Some v \<Rightarrow> events_add \<lparr>event = EVT_MODEM_SMS, val = v\<rparr> w4))))"

section \<open>Unsolicited lines\<close>

definition modem_event_queue :: "string \<Rightarrow> unit program" where
  "modem_event_queue buf w =
     (let ev = find_event buf modem_events
      in if ev \<noteq> EVT_NONE
         then if ev = EVT_MODEM_SMS then modem_event_sms_queue buf w
              else let (ok, w1) = evt_malloc w
                   in if \<not> ok then Done () w1
                      else events_add \<lparr>event = ev, val = snprintf VAL_SIZE buf\<rparr> w1
         else Done () w)"

text \<open>\<open>modem_event (buf, n)\<close> on the memory of the caller's buffer.\<close>

definition modem_event :: "char list \<Rightarrow> int \<Rightarrow> (char list) program" where
  "modem_event mem n w =
     (if n > 0
      then if nat n < length mem
           then let mem1 = dots dot_unsigned (nat n) (mem[nat n := NUL])
                in follow (modem_event_queue (c_str mem1) w) (\<lambda>_ w1. Done mem1 w1)
           else Undefined
      else Done mem w)"

section \<open>Lines\<close>

abbreviation LF_char :: char where "LF_char \<equiv> CHR 0x0A"

text \<open>The port delivers the text, whatever interruptions come between its bytes.\<close>

definition delivers :: "uart_read list \<Rightarrow> string \<Rightarrow> bool" where
  "delivers ins s \<longleftrightarrow> filter (\<lambda>x. x \<noteq> UART_EINTR) ins = map UART_BYTE s \<and> (ins \<noteq> [] \<longrightarrow> List.last ins \<noteq> UART_EINTR)"

lemma delivers_Cons:
  "delivers (x # ins) s \<longleftrightarrow>
     (if x = UART_EINTR then ins \<noteq> [] \<and> delivers ins s
      else \<exists>c s'. s = c # s' \<and> x = UART_BYTE c \<and> delivers ins s')"
  by (auto simp: delivers_def map_eq_Cons_conv Cons_eq_map_conv)

lemma delivers_Nil: "delivers [] s \<longleftrightarrow> s = []"
  by (auto simp: delivers_def)

lemma delivers_empty: "delivers ins [] \<Longrightarrow> ins = []"
  by (cases ins rule: rev_cases) (auto simp: delivers_def filter_empty_conv)

lemma read_line_loop_safe: "tot < n \<Longrightarrow> n \<le> length mem \<Longrightarrow> read_line_loop n tot mem ins \<noteq> LineOverflow"
  by (induction n tot mem ins rule: read_line_loop.induct) (auto split: option.splits)

lemma read_line_loop_line:
  "delivers ins (l @ [LF_char]) \<Longrightarrow> LF_char \<notin> set l \<Longrightarrow> tot < n \<Longrightarrow> n \<le> length mem \<Longrightarrow>
     tx = take (n - 1 - tot) (l @ [LF_char]) \<Longrightarrow>
     read_line_loop n tot mem (ins @ rest) =
       LineRead (int (tot + length tx)) (take tot mem @ tx @ NUL # drop (tot + length tx + 1) mem) rest"
proof (induction ins arbitrary: l tot mem tx)
  case Nil
  then show ?case by (simp add: delivers_Nil)
next
  case (Cons x ins)
  show ?case
  proof (cases "x = UART_EINTR")
    case True
    with Cons show ?thesis
      by (auto simp: delivers_Cons)
  next
    case False
    then obtain c s' where c: "l @ [LF_char] = c # s'" "x = UART_BYTE c" "delivers ins s'"
      using Cons.prems(1) by (auto simp: delivers_Cons)
    show ?thesis
    proof (cases l)
      case Nil
      with c have "c = LF_char" "s' = []" "ins = []"
        using delivers_empty by auto
      with Nil c Cons.prems show ?thesis
        by (cases "tot < n - 1")
          (auto simp: upd_conv_take_nth_drop Cons_nth_drop_Suc [symmetric] take_Suc_conv_app_nth nth_append)
    next
      case l: (Cons d l')
      then have d: "d = c" "s' = l' @ [LF_char]" "c \<noteq> LF_char" "LF_char \<notin> set l'"
        using c Cons.prems(2) by auto
      show ?thesis
      proof (cases "tot < n - 1")
        case True
        define tx' where "tx' = take (n - 1 - (tot + 1)) (l' @ [LF_char])"
        have tx: "tx = c # tx'"
          using Cons.prems(5) True d l by (simp add: tx'_def take_Cons')
        have "read_line_loop n (tot + 1) (mem[tot := c]) (ins @ rest) =
            LineRead (int (tot + 1 + length tx'))
              (take (tot + 1) (mem[tot := c]) @ tx' @ NUL # drop (tot + 1 + length tx' + 1) (mem[tot := c])) rest"
          by (rule Cons.IH [OF _ d(4)]) (use c d Cons.prems True in \<open>auto simp: tx'_def\<close>)
        then show ?thesis
          using True Cons.prems(3,4) c(2) d(3) unfolding tx by (simp add: take_Suc_conv_app_nth)
      next
        case False
        then have "tx = []"
          using Cons.prems(5) by simp
        have "read_line_loop n tot mem (ins @ rest) =
            LineRead (int (tot + length ([]::string))) (take tot mem @ [] @ NUL # drop (tot + length ([]::string) + 1) mem) rest"
          by (rule Cons.IH [OF _ d(4)]) (use c d Cons.prems False in auto)
        then show ?thesis
          using False Cons.prems c d \<open>tx = []\<close> by simp
      qed
    qed
  qed
qed

lemma no_NUL_dots: "NUL \<notin> set (map dot_signed s)" "NUL \<notin> set (map dot_unsigned s)"
  by (auto simp: dot_signed_def dot_unsigned_def image_iff split: if_splits)

text \<open>A line that fits the buffer, as the loops of the modem functions see it.\<close>

lemma read_line_answer:
  assumes "delivers ins (l @ [LF_char])" "LF_char \<notin> set l" "length l < 4094" "length mem = 4096"
  obtains mem1 where "read_line (Some mem) 4095 (ins @ rest) = LineRead (int (length l + 1)) mem1 rest"
    "mem1[length l + 1 := NUL] = mem1"
    "dots f (length l + 1) mem1 = map f (l @ [LF_char]) @ NUL # drop (length l + 2) mem"
proof -
  let ?s = "l @ [LF_char]"
  define mem1 where "mem1 = ?s @ NUL # drop (length ?s + 1) mem"
  have "read_line (Some mem) 4095 (ins @ rest) = LineRead (int (length l + 1)) mem1 rest"
    using read_line_loop_line [OF assms(1,2), of 0 4095 mem ?s rest] assms(3,4) by (simp add: read_line_def mem1_def)
  then show ?thesis
    by (rule that) (simp_all add: mem1_def dots_def list_update_append nth_append)
qed

text \<open>One line of the modem's answer, read by \<open>sms_loop\<close>.\<close>

lemma sms_loop_line:
  assumes "delivers ins (l @ [LF_char])" "LF_char \<notin> set l" "length l < 4094" "length mem = 4096"
    "w_uart w = ins @ rest" "s = map dot_signed (l @ [LF_char])"
  obtains mem2 where "length mem2 = 4096"
    "sms_loop mem stored w =
       (if match ''AT+CMGR'' s \<or> match ''+CMGR:'' s \<or> hd s = CHR ''.'' then sms_loop mem2 stored (w\<lparr>w_uart := rest\<rparr>)
        else if match ''OK'' s then Done stored (w\<lparr>w_uart := rest\<rparr>)
        else case sms_store s stored of None \<Rightarrow> Undefined
             | Some stored' \<Rightarrow> sms_loop mem2 stored' (w\<lparr>w_uart := rest\<rparr>))"
proof -
  obtain mem1 where m: "read_line (Some mem) 4095 (ins @ rest) = LineRead (int (length l + 1)) mem1 rest"
    "mem1[length l + 1 := NUL] = mem1"
    "dots dot_signed (length l + 1) mem1 = s @ NUL # drop (length l + 2) mem"
    unfolding assms(6) by (rule read_line_answer [OF assms(1-4)])
  let ?mem2 = "s @ NUL # drop (length l + 2) mem"
  have "c_str ?mem2 = s"
    using no_NUL_dots(1) [of "l @ [LF_char]"] assms(6) by (simp add: c_str_append del: map_append)
  moreover have "?mem2 ! 0 = hd s"
    using assms(6) by (cases l) simp_all
  moreover have n: "nat (int (length l + 1)) = length l + 1" "0 < int (length l + 1)"
    by simp_all
  ultimately have "sms_loop mem stored w =
       (if match ''AT+CMGR'' s \<or> match ''+CMGR:'' s \<or> hd s = CHR ''.'' then sms_loop ?mem2 stored (w\<lparr>w_uart := rest\<rparr>)
        else if match ''OK'' s then Done stored (w\<lparr>w_uart := rest\<rparr>)
        else case sms_store s stored of None \<Rightarrow> Undefined
             | Some stored' \<Rightarrow> sms_loop ?mem2 stored' (w\<lparr>w_uart := rest\<rparr>))"
    unfolding sms_loop.simps [of mem stored w] assms(5) m(1) line_read.case Let_def n if_P [OF n(2)] m(2,3)
    by simp
  moreover have "length ?mem2 = 4096"
    using assms(3,4,6) by simp
  ultimately show ?thesis
    using that by blast
qed

section \<open>The answer to a fetched message\<close>

definition as_input :: "string list \<Rightarrow> uart_read list" where
  "as_input ls = map UART_BYTE (concat (map (\<lambda>l. l @ CRLF_text) ls))"

lemma as_input_simps: "as_input [] = []" "as_input (l # ls) = map UART_BYTE (l @ CRLF_text) @ as_input ls"
  by (simp_all add: as_input_def)

lemma delivers_bytes: "delivers (map UART_BYTE (l @ CRLF_text)) ((l @ [CHR 0x0D]) @ [LF_char])"
  by (auto simp: delivers_def filter_map comp_def last_map)

text \<open>The line without its end, which the loop turns into two dots.\<close>

lemma sms_loop_input:
  assumes "LF_char \<notin> set l" "length l < 4093" "length mem = 4096" "w_uart w = as_input (l # ls) @ rest"
    "s = map dot_signed l @ ''..''"
  obtains mem2 where "length mem2 = 4096"
    "sms_loop mem stored w =
       (if match ''AT+CMGR'' s \<or> match ''+CMGR:'' s \<or> hd s = CHR ''.''
        then sms_loop mem2 stored (w\<lparr>w_uart := as_input ls @ rest\<rparr>)
        else if match ''OK'' s then Done stored (w\<lparr>w_uart := as_input ls @ rest\<rparr>)
        else case sms_store s stored of None \<Rightarrow> Undefined
             | Some stored' \<Rightarrow> sms_loop mem2 stored' (w\<lparr>w_uart := as_input ls @ rest\<rparr>))"
proof -
  have "s = map dot_signed ((l @ [CHR 0x0D]) @ [LF_char])"
    by (simp add: assms(5) dot_signed_def)
  moreover have "w_uart w = map UART_BYTE (l @ CRLF_text) @ (as_input ls @ rest)"
    using assms(4) by (simp add: as_input_simps)
  moreover have "LF_char \<notin> set (l @ [CHR 0x0D])" "length (l @ [CHR 0x0D]) < 4094"
    using assms(1,2) by auto
  ultimately show ?thesis
    using sms_loop_line [OF delivers_bytes, of l mem w "as_input ls @ rest" s stored] assms(3) that by metis
qed

lemma match_sublist: "literal re \<Longrightarrow> match re s \<longleftrightarrow> sublist re s"
  by (rule match_literal_aux)

lemma sublist_dots:
  assumes "sublist re l" "map dot_signed re = re"
  shows "sublist re (map dot_signed l @ s)"
proof -
  obtain ps ss where "l = ps @ re @ ss"
    using assms(1) by (auto simp: sublist_def)
  then have "map dot_signed l @ s = map dot_signed ps @ re @ map dot_signed ss @ s"
    using assms(2) by simp
  then show ?thesis
    by (auto simp: sublist_def)
qed

lemma sms_patterns: "literal ''AT+CMGR''" "literal ''+CMGR:''" "literal ''OK''"
  "map dot_signed ''AT+CMGR'' = ''AT+CMGR''" "map dot_signed ''+CMGR:'' = ''+CMGR:''"
  by (simp_all add: literal_def dot_signed_def)

definition hex_digits :: string where "hex_digits = ''0123456789ABCDEF''"

lemma not_sublist: "x \<in> set re \<Longrightarrow> x \<notin> set s \<Longrightarrow> \<not> sublist re s"
  by (auto simp: sublist_def)

lemma hex_line:
  assumes "set pdu \<subseteq> set hex_digits" "pdu \<noteq> []"
  shows "\<not> match ''AT+CMGR'' (pdu @ ''..'')" "\<not> match ''+CMGR:'' (pdu @ ''..'')" "\<not> match ''OK'' (pdu @ ''..'')"
    "hd (pdu @ ''..'') \<noteq> CHR ''.''" "map dot_signed pdu = pdu" "LF_char \<notin> set pdu"
proof -
  have plus: "CHR ''+'' \<notin> set (pdu @ ''..'')" and o: "CHR ''O'' \<notin> set (pdu @ ''..'')"
    using assms(1) by (auto simp: hex_digits_def)
  show "\<not> match ''AT+CMGR'' (pdu @ ''..'')" "\<not> match ''+CMGR:'' (pdu @ ''..'')"
    using not_sublist [OF _ plus] by (simp_all add: match_sublist sms_patterns)
  show "\<not> match ''OK'' (pdu @ ''..'')"
    using not_sublist [OF _ o] by (simp add: match_sublist sms_patterns)
  show "hd (pdu @ ''..'') \<noteq> CHR ''.''" "LF_char \<notin> set pdu"
    using assms by (cases pdu; auto simp: hex_digits_def)+
  show "map dot_signed pdu = pdu"
    using assms(1) by (induction pdu) (auto simp: hex_digits_def dot_signed_def)
qed

lemma sms_store_pdu:
  "pdu \<noteq> [] \<Longrightarrow> length pdu < VAL_SIZE \<Longrightarrow> sms_store (pdu @ ''..'') old = Some (Some pdu)"
  by (simp add: sms_store_def VAL_SIZE_def snprintf_def nth_append)

lemma sms_loop_answer:
  assumes "w_uart w = as_input [echo, header, pdu, [], ''OK''] @ rest" "length mem = 4096"
    "sublist ''AT+CMGR'' echo" "sublist ''+CMGR:'' header" "LF_char \<notin> set (echo @ header)" "length (echo @ header) < 4093"
    "set pdu \<subseteq> set hex_digits" "pdu \<noteq> []" "length pdu < VAL_SIZE"
  shows "sms_loop mem stored w = Done (Some pdu) (w\<lparr>w_uart := rest\<rparr>)"
proof -
  let ?w = "\<lambda>ls. w\<lparr>w_uart := as_input ls @ rest\<rparr>"
  note hex = hex_line [OF assms(7,8)]
  have "match ''AT+CMGR'' (map dot_signed echo @ ''..'')"
    using sublist_dots [OF assms(3) sms_patterns(4)] by (simp add: match_sublist sms_patterns)
  then obtain mem1 where 1: "length mem1 = 4096" "sms_loop mem stored w = sms_loop mem1 stored (?w [header, pdu, [], ''OK''])"
    using sms_loop_input [of echo mem w "[header, pdu, [], ''OK'']" rest _ stored] assms(1,2,5,6) by auto
  have "match ''+CMGR:'' (map dot_signed header @ ''..'')"
    using sublist_dots [OF assms(4) sms_patterns(5)] by (simp add: match_sublist sms_patterns)
  then obtain mem2 where 2: "length mem2 = 4096" "sms_loop mem1 stored (?w [header, pdu, [], ''OK'']) = sms_loop mem2 stored (?w [pdu, [], ''OK''])"
    using sms_loop_input [of header mem1 "?w [header, pdu, [], ''OK'']" "[pdu, [], ''OK'']" rest _ stored] 1(1) assms(5,6) by auto
  have "length pdu < 4093"
    using assms(9) by (simp add: VAL_SIZE_def)
  then obtain mem3 where 3: "length mem3 = 4096" "sms_loop mem2 stored (?w [pdu, [], ''OK'']) = sms_loop mem3 (Some pdu) (?w [[], ''OK''])"
    using sms_loop_input [of pdu mem2 "?w [pdu, [], ''OK'']" "[[], ''OK'']" rest _ stored] 2(1) hex sms_store_pdu [OF assms(8,9)]
    by auto
  obtain mem4 where 4: "length mem4 = 4096" "sms_loop mem3 (Some pdu) (?w [[], ''OK'']) = sms_loop mem4 (Some pdu) (?w [''OK''])"
    using sms_loop_input [of "[]" mem3 "?w [[], ''OK'']" "[''OK'']" rest _ "Some pdu"] 3(1) by auto
  have ok: "match ''OK'' ''OK..''" "\<not> match ''AT+CMGR'' ''OK..''" "\<not> match ''+CMGR:'' ''OK..''" "map dot_signed ''OK'' = ''OK''"
    using not_sublist [of "CHR ''+''" "''AT+CMGR''" "''OK..''"] not_sublist [of "CHR ''+''" "''+CMGR:''" "''OK..''"]
    by (simp_all add: match_sublist sms_patterns sublist_def dot_signed_def) (metis append_Nil append_Cons)
  have "sms_loop mem4 (Some pdu) (?w [''OK'']) = Done (Some pdu) (?w [])"
    using sms_loop_input [of "''OK''" mem4 "?w [''OK'']" "[]" rest _ "Some pdu"] 4(1) ok by auto
  with 1 2 3 4 show ?thesis
    by (simp add: as_input_simps)
qed

section \<open>Properties\<close>

text \<open>
  C26: \<open>read_line\<close> does what its comment promises. For a buffer of at least \<open>n\<close> characters it never
  writes outside, whatever the port returns; a line that arrives, however often \<open>read\<close> is
  interrupted, is stored with its newline up to \<open>n - 1\<close> characters and a NUL behind them, the rest
  of the line is discarded, the number of stored characters is returned and the input behind the
  line is left unread.
\<close>

theorem read_line_correct:
  assumes "0 < n" "n \<le> length mem"
  shows "read_line (Some mem) n ins \<noteq> LineOverflow \<and>
    (delivers ins (l @ [LF_char]) \<and> LF_char \<notin> set l \<longrightarrow>
       (let s = take (n - 1) (l @ [LF_char])
        in read_line (Some mem) n (ins @ rest) =
             LineRead (int (length s)) (s @ NUL # drop (length s + 1) mem) rest))"
  using read_line_loop_safe [of 0 n mem ins] assms read_line_loop_line [of ins l 0 n mem _ rest]
  by (auto simp: read_line_def Let_def)

theorem read_line_correct_witness:
  "read_line (Some (replicate 4 NUL)) 4 ([UART_BYTE CHR ''O'', UART_EINTR, UART_BYTE CHR ''K'', UART_BYTE LF_char] @ [UART_EOF]) =
     LineRead 3 (''OK'' @ [LF_char, NUL]) [UART_EOF]"
  using read_line_correct [of 4 "replicate 4 NUL" "[UART_BYTE CHR ''O'', UART_EINTR, UART_BYTE CHR ''K'', UART_BYTE LF_char]" "''OK''" "[UART_EOF]"]
  by (simp add: delivers_def Let_def numeral_eq_Suc)


definition demo_cmti :: string where
  "demo_cmti = ''+CMTI: '' @ [CHR 0x22] @ ''SM'' @ [CHR 0x22] @ '',3..''"

definition demo_sms :: world where
  "demo_sms = demo_world\<lparr>w_uart := as_input [''AT+CMGR'' @ ''=3'', ''+CMGR:'' @ '' 0'', ''0891'', [], ''OK'']\<rparr>"

lemma demo_cmti_facts: "\<not> match ''MMS PUSH'' demo_cmti" "sms_index demo_cmti = Some ''3''" "strstr demo_cmti '','' = Some 11"
  by code_simp+


text \<open>
  C40: two answers the modem can give have undefined behaviour. A notification in which eight or
  more characters stand between the comma and the first dot overruns the index array, and an answer
  without a message line, as for a slot that is already empty, queues an event whose type and text
  were never set.
\<close>

theorem sms_fetch_undefined:
  assumes "\<not> match ''MMS PUSH'' buf" "fst (evt_malloc w)" "strstr buf '','' = Some s" "strstr buf ''.'' = Some e" "s < e"
  shows "(8 \<le> e - (s + 1) \<longrightarrow> modem_event_sms_queue buf w = Undefined) \<and>
    (w_uart w = as_input [''OK''] @ rest \<longrightarrow> modem_event_sms_queue buf w = Undefined)"
proof -
  obtain w1 where w1: "evt_malloc w = (True, w1)"
    using assms(2) by (cases "evt_malloc w") auto
  then have u1: "w_uart w1 = w_uart w"
    by (auto simp: evt_malloc_def split: prod.splits)
  have ok: "match ''OK'' ''OK..''" "\<not> match ''AT+CMGR'' ''OK..''" "\<not> match ''+CMGR:'' ''OK..''" "map dot_signed ''OK'' = ''OK''"
    by code_simp+
  have "sms_loop (replicate 4096 NUL) None w2 = Done None (w2\<lparr>w_uart := rest\<rparr>)"
    if "w_uart w2 = as_input [''OK''] @ rest" for w2
    using sms_loop_input [of "''OK''" "replicate 4096 NUL" w2 "[]" rest _ None] that ok by (auto simp: as_input_simps)
  then show ?thesis
    using assms w1 u1 by (auto simp: modem_event_sms_queue_def sms_index_def modem_get_sms_def modem_delete_sms_def modem_cmd_def)
qed

theorem sms_fetch_undefined_witness:
  "modem_event_sms_queue demo_cmti (demo_world\<lparr>w_uart := as_input [''OK'']\<rparr>) = Undefined"
proof -
  have "strstr demo_cmti ''.'' = Some 13"
    by code_simp
  then show ?thesis
    using sms_fetch_undefined [of demo_cmti "demo_world\<lparr>w_uart := as_input [''OK'']\<rparr>" 11 13 "[]"] demo_cmti_facts
    by (simp add: demo_world_def evt_malloc_def)
qed

end
