(* ===== verification/Mqtt.thy ===== *)
theory Mqtt
  imports Events
begin

text \<open>
  The MQTT side of \<^verbatim>\<open>main.c\<close>: connecting, publishing, subscribing and the callbacks. The client
  library is called through its asynchronous interface; its calls are recorded in the trace and
  their return codes are input of the world, 0 for success.
\<close>

definition ADDRESS :: string where "ADDRESS = ''tcp://121.42.52.171:532''"
definition QOS :: int where "QOS = 2"
definition MQTTASYNC_SUCCESS :: int where "MQTTASYNC_SUCCESS = 0"

section \<open>Calls of the client library\<close>

definition mqtt_call :: "io \<Rightarrow> world \<Rightarrow> int \<times> world" where
  "mqtt_call call w =
     (case w_rcs w of
        [] \<Rightarrow> (MQTTASYNC_SUCCESS, emit call w)
      | rc # rcs \<Rightarrow> (rc, emit call (w\<lparr>w_rcs := rcs\<rparr>)))"

section \<open>Connection\<close>

definition addWillOptions :: "connect_options \<Rightarrow> connect_options" where
  "addWillOptions opts = opts\<lparr>will := Some (TOPIC_STATUS, OFFLINE, 1, 2)\<rparr>"

definition conn_opts :: connect_options where
  "conn_opts = addWillOptions \<lparr>keepAliveInterval = 30, cleansession = 1, will = None\<rparr>"

definition connlost :: "unit program" where
  "connlost w = (let (rc, w1) = mqtt_call (MQTT_CONNECT conn_opts) w in Done () w1)"

definition mqtt_pub :: "string \<Rightarrow> string \<Rightarrow> int \<Rightarrow> int program" where
  "mqtt_pub topicName payload retained w =
     (let (rc, w1) = mqtt_call (MQTT_SEND topicName payload 2 retained) w
      in if rc \<noteq> MQTTASYNC_SUCCESS then Exit w1 else Done rc w1)"

definition mqtt_sub :: "string \<Rightarrow> int \<Rightarrow> int program" where
  "mqtt_sub topicName qos w =
     (let (rc, w1) = mqtt_call (MQTT_SUBSCRIBE topicName qos) w
      in if rc \<noteq> MQTTASYNC_SUCCESS then Exit w1 else Done rc w1)"

text \<open>
  \<open>onConnect\<close> publishes the own status and subscribes to the peer's status, the peer's phone number
  and the peer's short messages; its calls are those of \<open>mqtt_pub\<close> and \<open>mqtt_sub\<close>, written out.
\<close>

definition onConnect :: "unit program" where
  "onConnect w =
     (let (rc, w1) = mqtt_call (MQTT_SEND TOPIC_STATUS ONLINE 2 1) w
      in if rc \<noteq> MQTTASYNC_SUCCESS then Exit w1
         else let (rc, w2) = mqtt_call (MQTT_SUBSCRIBE PEERID_STATUS QOS) w1
              in if rc \<noteq> MQTTASYNC_SUCCESS then Exit w2
                 else let (rc, w3) = mqtt_call (MQTT_SUBSCRIBE TOPIC_BOB_CALLING QOS) w2
                      in if rc \<noteq> MQTTASYNC_SUCCESS then Exit w3
                         else let (rc, w4) = mqtt_call (MQTT_SUBSCRIBE PEERID_SMS QOS) w3
                              in if rc \<noteq> MQTTASYNC_SUCCESS then Exit w4 else Done () w4)"

definition mqtt_init :: "int program" where
  "mqtt_init w =
     (let (_, w1) = mqtt_call (MQTT_CREATE ADDRESS CLIENTID) w;
          (_, w2) = mqtt_call MQTT_SET_CALLBACKS w1;
          (rc, w3) = mqtt_call (MQTT_CONNECT conn_opts) w2
      in if rc \<noteq> MQTTASYNC_SUCCESS then Exit w3 else Done rc w3)"

section \<open>Messages\<close>

definition msgarrvd :: "string \<Rightarrow> string \<Rightarrow> string \<Rightarrow> int program" where
  "msgarrvd topicName payload tail w =
     follow (mqtt_event_queue topicName payload tail w) (\<lambda>_ w1. Done 1 (emit MQTT_FREE_MESSAGE w1))"

section \<open>The broker\<close>

text \<open>
  What the MQTT specification says of a broker, as far as one client sees it: the will of its connection, the retained message of each
  topic, its subscriptions, and the messages published so far (topic, payload, quality of service, retained flag). With a clean session a
  connection starts without subscriptions; the will is published when the connection is lost.
\<close>

record broker =
  br_will :: "(string \<times> string \<times> int \<times> int) option"
  br_retained :: "string \<rightharpoonup> string"
  br_subs :: "(string \<times> int) list"
  br_published :: "(string \<times> string \<times> int \<times> int) list"

definition broker_publish :: "string \<Rightarrow> string \<Rightarrow> int \<Rightarrow> int \<Rightarrow> broker \<Rightarrow> broker" where
  "broker_publish topic payload qos retained b = b\<lparr>br_published := br_published b @ [(topic, payload, qos, retained)],
     br_retained := (if retained \<noteq> 0 then (br_retained b)(topic \<mapsto> payload) else br_retained b)\<rparr>"

fun broker_io :: "io \<Rightarrow> broker \<Rightarrow> broker" where
  "broker_io (MQTT_CONNECT opts) b = b\<lparr>br_will := will opts, br_subs := (if cleansession opts \<noteq> 0 then [] else br_subs b)\<rparr>"
| "broker_io (MQTT_SEND topic payload qos retained) b = broker_publish topic payload qos retained b"
| "broker_io (MQTT_SUBSCRIBE topic qos) b = b\<lparr>br_subs := br_subs b @ [(topic, qos)]\<rparr>"
| "broker_io _ b = b"

definition broker_lost :: "broker \<Rightarrow> broker" where
  "broker_lost b =
     (case br_will b of None \<Rightarrow> b | Some (topic, payload, retained, qos) \<Rightarrow> (broker_publish topic payload qos retained b)\<lparr>br_will := None\<rparr>)"

text \<open>The broker after the program went from \<open>w\<close> to \<open>w'\<close>.\<close>

definition serve :: "world \<Rightarrow> world \<Rightarrow> broker \<Rightarrow> broker" where
  "serve w w' b = fold broker_io (drop (length (w_out w)) (w_out w')) b"

text \<open>
  A run of connections: each comes up, the program does what it does meanwhile, the connection is lost and the program connects again. For each, the
  retained status and the subscriptions while it is up, and the retained status after it was lost.
\<close>

fun connections :: "io list list \<Rightarrow> broker \<Rightarrow> world \<Rightarrow> ((string option \<times> (string \<times> int) list \<times> string option) list \<times> broker \<times> world) option" where
  "connections [] b w = Some ([], b, w)"
| "connections (traffic # rest) b w =
     (case onConnect w of
        Done _ w1 \<Rightarrow>
          let w2 = fold emit traffic w1; up = serve w w2 b; lost = broker_lost up
          in (case connlost w2 of
                Done _ w3 \<Rightarrow> map_option (apfst (Cons (br_retained up TOPIC_STATUS, br_subs up, br_retained lost TOPIC_STATUS)))
                  (connections rest (serve w2 w3 lost) w3)
              | _ \<Rightarrow> None)
      | _ \<Rightarrow> None)"

text \<open>What the program does besides: anything but the status and the connection.\<close>

fun ordinary :: "io \<Rightarrow> bool" where
  "ordinary (MQTT_CONNECT opts) \<longleftrightarrow> False"
| "ordinary (MQTT_SUBSCRIBE topic qos) \<longleftrightarrow> False"
| "ordinary (MQTT_SEND topic payload qos retained) \<longleftrightarrow> topic \<noteq> TOPIC_STATUS"
| "ordinary _ \<longleftrightarrow> True"

definition status_of :: "broker \<Rightarrow> (string \<times> int \<times> int) list" where
  "status_of b = map snd (filter (\<lambda>m. fst m = TOPIC_STATUS) (br_published b))"

lemma ordinary_broker:
  assumes "list_all ordinary xs"
  shows "br_will (fold broker_io xs b) = br_will b" "br_subs (fold broker_io xs b) = br_subs b"
    "br_retained (fold broker_io xs b) TOPIC_STATUS = br_retained b TOPIC_STATUS" "status_of (fold broker_io xs b) = status_of b"
proof -
  have one: "br_will (broker_io x b) = br_will b \<and> br_subs (broker_io x b) = br_subs b \<and> status_of (broker_io x b) = status_of b \<and>
      br_retained (broker_io x b) TOPIC_STATUS = br_retained b TOPIC_STATUS" if "ordinary x" for x b
    using that by (cases x) (simp_all add: broker_publish_def status_of_def)
  show "br_will (fold broker_io xs b) = br_will b" "br_subs (fold broker_io xs b) = br_subs b"
    "br_retained (fold broker_io xs b) TOPIC_STATUS = br_retained b TOPIC_STATUS" "status_of (fold broker_io xs b) = status_of b"
    using assms by (induction xs arbitrary: b) (simp_all add: one)
qed

lemma fold_emit [simp]: "w_out (fold emit xs w) = w_out w @ xs" "w_rcs (fold emit xs w) = w_rcs w"
  by (induction xs arbitrary: w) simp_all

section \<open>Properties\<close>

lemma mqtt_pub_ok: "w_rcs w = [] \<Longrightarrow> mqtt_pub topic payload retained w = Done 0 (emit (MQTT_SEND topic payload 2 retained) w)"
  by (simp add: mqtt_pub_def mqtt_call_def MQTTASYNC_SUCCESS_def)

definition own_subs :: "(string \<times> int) list" where
  "own_subs = [(PEERID_STATUS, 2), (TOPIC_BOB_CALLING, 2), (PEERID_SMS, 2)]"

text \<open>One connection, from a broker that has just accepted it.\<close>

lemma connection_up:
  assumes "w_rcs w = []" "list_all ordinary traffic" "br_will b = Some (TOPIC_STATUS, OFFLINE, 1, 2)" "br_subs b = []"
  obtains w1 where "onConnect w = Done () w1" "w_rcs w1 = []" "br_will (serve w (fold emit traffic w1) b) = br_will b"
    "br_subs (serve w (fold emit traffic w1) b) = own_subs" "br_retained (serve w (fold emit traffic w1) b) TOPIC_STATUS = Some ONLINE"
    "status_of (serve w (fold emit traffic w1) b) = status_of b @ [(ONLINE, 2, 1)]"
proof (rule that)
  let ?calls = "[MQTT_SEND TOPIC_STATUS ONLINE 2 1, MQTT_SUBSCRIBE PEERID_STATUS QOS, MQTT_SUBSCRIBE TOPIC_BOB_CALLING QOS, MQTT_SUBSCRIBE PEERID_SMS QOS]"
  let ?w1 = "fold emit ?calls w" and ?b = "fold broker_io ?calls b"
  show "onConnect w = Done () ?w1"
    using assms(1) by (simp add: onConnect_def mqtt_call_def Let_def MQTTASYNC_SUCCESS_def)
  have "serve w (fold emit traffic ?w1) b = fold broker_io traffic ?b"
    unfolding serve_def fold_emit by simp
  moreover have "br_will ?b = br_will b" "br_subs ?b = own_subs" "br_retained ?b TOPIC_STATUS = Some ONLINE" "status_of ?b = status_of b @ [(ONLINE, 2, 1)]"
    using assms(4) by (simp_all add: own_subs_def QOS_def broker_publish_def status_of_def)
  ultimately show "br_will (serve w (fold emit traffic ?w1) b) = br_will b"
    "br_subs (serve w (fold emit traffic ?w1) b) = own_subs" "br_retained (serve w (fold emit traffic ?w1) b) TOPIC_STATUS = Some ONLINE"
    "status_of (serve w (fold emit traffic ?w1) b) = status_of b @ [(ONLINE, 2, 1)]"
    by (simp_all only: ordinary_broker [OF assms(2)])
qed (use assms(1) in simp)

lemma connections_spec:
  assumes "w_rcs w = []" "list_all (list_all ordinary) traffic" "br_will b = Some (TOPIC_STATUS, OFFLINE, 1, 2)" "br_subs b = []"
  shows "\<exists>b' w'. connections traffic b w = Some (replicate (length traffic) (Some ONLINE, own_subs, Some OFFLINE), b', w') \<and>
    status_of b' = status_of b @ concat (replicate (length traffic) [(ONLINE, 2, 1), (OFFLINE, 2, 1)])"
  using assms
proof (induction traffic arbitrary: b w)
  case (Cons tr traffic)
  have tr: "list_all ordinary tr" "list_all (list_all ordinary) traffic"
    using Cons.prems(2) by simp_all
  obtain w1 where w1: "onConnect w = Done () w1" "w_rcs w1 = []" "br_will (serve w (fold emit tr w1) b) = br_will b"
    "br_subs (serve w (fold emit tr w1) b) = own_subs" "br_retained (serve w (fold emit tr w1) b) TOPIC_STATUS = Some ONLINE"
    "status_of (serve w (fold emit tr w1) b) = status_of b @ [(ONLINE, 2, 1)]"
    using connection_up [OF Cons.prems(1) tr(1) Cons.prems(3,4)] .
  let ?w2 = "fold emit tr w1"
  let ?w3 = "emit (MQTT_CONNECT conn_opts) ?w2" and ?lost = "broker_lost (serve w ?w2 b)"
  have c: "connlost ?w2 = Done () ?w3"
    using w1(2) by (simp add: connlost_def mqtt_call_def)
  have lost: "br_retained ?lost TOPIC_STATUS = Some OFFLINE" "status_of ?lost = status_of b @ [(ONLINE, 2, 1), (OFFLINE, 2, 1)]"
    using w1(3,6) Cons.prems(3) by (simp_all add: broker_lost_def broker_publish_def status_of_def)
  have b3: "serve ?w2 ?w3 ?lost = ?lost\<lparr>br_will := Some (TOPIC_STATUS, OFFLINE, 1, 2), br_subs := []\<rparr>"
    by (simp add: serve_def conn_opts_def addWillOptions_def)
  then have "br_will (serve ?w2 ?w3 ?lost) = Some (TOPIC_STATUS, OFFLINE, 1, 2)" "br_subs (serve ?w2 ?w3 ?lost) = []"
    "status_of (serve ?w2 ?w3 ?lost) = status_of ?lost" "w_rcs ?w3 = []"
    using w1(2) by (simp_all add: status_of_def)
  with Cons.IH [OF this(4) tr(2) this(1,2)] obtain b' w' where
    "connections traffic (serve ?w2 ?w3 ?lost) ?w3 = Some (replicate (length traffic) (Some ONLINE, own_subs, Some OFFLINE), b', w')"
    "status_of b' = status_of ?lost @ concat (replicate (length traffic) [(ONLINE, 2, 1), (OFFLINE, 2, 1)])"
    by auto
  then show ?case
    using w1(1,4,5) c lost by (simp add: Let_def)
qed simp

lemma onConnect_failure:
  fixes w :: world
  defines "calls \<equiv> [MQTT_SEND TOPIC_STATUS ONLINE 2 1, MQTT_SUBSCRIBE PEERID_STATUS QOS,
         MQTT_SUBSCRIBE TOPIC_BOB_CALLING QOS, MQTT_SUBSCRIBE PEERID_SMS QOS]"
    and "ok \<equiv> length (takeWhile (\<lambda>rc. rc = MQTTASYNC_SUCCESS) (take 4 (w_rcs w)))"
  assumes "ok < 4" "ok < length (w_rcs w)"
  shows "\<exists>w'. onConnect w = Exit w' \<and> w_out w' = w_out w @ take (ok + 1) calls"
proof -
  consider "w_rcs w = []" | a where "w_rcs w = [a]" | a b where "w_rcs w = [a, b]"
    | a b c where "w_rcs w = [a, b, c]" | a b c d rest where "w_rcs w = a # b # c # d # rest"
    by (metis list.exhaust)
  then show ?thesis
    using assms(3,4) by cases (auto simp: calls_def ok_def onConnect_def mqtt_call_def Let_def split: if_splits)
qed



end
