(* ===== verification/Telnet_Roundtrip.thy ===== *)
theory Telnet_Roundtrip
  imports Telnet_Stream
begin

text \<open>
  What one tracker sends another receives: the encodings of the sending functions of
  \<^verbatim>\<open>telnet.c\<close>, and that receiving them gives back the data, the subnegotiation, the ZMP command,
  the terminal type and the environment variables that were sent.
\<close>

section \<open>What is sent\<close>

definition escape :: "byte list \<Rightarrow> byte list" where
  "escape bs = concat (map (\<lambda>b. if b = TELNET_IAC then [TELNET_IAC, TELNET_IAC] else [b]) bs)"

definition nvt_text :: "byte list \<Rightarrow> byte list" where
  "nvt_text bs = concat (map (\<lambda>b. if b = TELNET_IAC then [TELNET_IAC, TELNET_IAC] else if b = CR then [CR, 0]
     else if b = LF then [CR, LF] else [b]) bs)"

lemma escape_simps [simp]: "escape [] = []" "escape (b # bs) = (if b = TELNET_IAC then [TELNET_IAC, TELNET_IAC] else [b]) @ escape bs"
  "escape (xs @ ys) = escape xs @ escape ys"
  by (simp_all add: escape_def)

lemma length_escape: "length (escape bs) \<le> 2 * length bs"
  by (induction bs) auto

lemma nvt_text_simps [simp]: "nvt_text [] = []"
  "nvt_text (b # bs) = (if b = TELNET_IAC then [TELNET_IAC, TELNET_IAC] else if b = CR then [CR, 0]
     else if b = LF then [CR, LF] else [b]) @ nvt_text bs"
  by (simp_all add: nvt_text_def)

lemma escape_id: "TELNET_IAC \<notin> set bs \<Longrightarrow> escape bs = bs"
  by (induction bs) auto

lemma sent_send_raw [simp]: "sent (tn_events (telnet_send_raw bs t)) = sent (tn_events t) @ bs"
  by (simp add: telnet_send_raw_def)

lemma take_Suc_slice: "l \<le> i \<Longrightarrow> i < length buf \<Longrightarrow> take (Suc i - l) (drop l buf) = take (i - l) (drop l buf) @ [buf ! i]"
  by (simp add: Suc_diff_le take_Suc_conv_app_nth)

lemma sent_if: "sent (tn_events (if c then telnet_send_raw bs t else t)) = sent (tn_events t) @ (if c then bs else [])"
  by simp

lemma sent_telnet_send_loop:
  "l \<le> i \<Longrightarrow> i \<le> length buf \<Longrightarrow> sent (tn_events (telnet_send_loop buf i l t)) =
     sent (tn_events t) @ take (i - l) (drop l buf) @ escape (drop i buf)"
proof (induction buf i l t rule: telnet_send_loop.induct)
  case (1 buf i l t)
  show ?case
  proof (cases "i < length buf")
    case True
    have d: "drop i buf = buf ! i # drop (Suc i) buf"
      using True by (rule Cons_nth_drop_Suc [symmetric])
    from True show ?thesis
      using 1 by (subst telnet_send_loop.simps) (auto simp: d telnet_iac_def take_Suc_slice)
  qed (use 1(3,4) in \<open>subst telnet_send_loop.simps, auto\<close>)
qed

lemma sent_telnet_send [simp]: "sent (tn_events (telnet_send bs t)) = sent (tn_events t) @ escape bs"
  by (simp add: telnet_send_def sent_telnet_send_loop)

lemma sent_telnet_vprintf_loop:
  "l \<le> i \<Longrightarrow> i \<le> length buf \<Longrightarrow> sent (tn_events (telnet_vprintf_loop buf i l t)) =
     sent (tn_events t) @ take (i - l) (drop l buf) @ nvt_text (drop i buf)"
proof (induction buf i l t rule: telnet_vprintf_loop.induct)
  case (1 buf i l t)
  show ?case
  proof (cases "i < length buf")
    case True
    have d: "drop i buf = buf ! i # drop (Suc i) buf"
      using True by (rule Cons_nth_drop_Suc [symmetric])
    from True show ?thesis
      using 1 by (subst telnet_vprintf_loop.simps) (auto simp: d telnet_iac_def take_Suc_slice Let_def)
  qed (use 1(3,4) in \<open>subst telnet_vprintf_loop.simps, auto\<close>)
qed

lemma sent_begin_sb [simp]: "sent (tn_events (telnet_begin_sb opt t)) = sent (tn_events t) @ [TELNET_IAC, TELNET_SB, opt]"
  by (simp add: telnet_begin_sb_def)

lemma sent_finish_sb [simp]: "sent (tn_events (telnet_finish_sb t)) = sent (tn_events t) @ [TELNET_IAC, TELNET_SE]"
  by (simp add: telnet_finish_sb_def telnet_iac_def)

lemma sent_zmp_args: "sent (tn_events (fold telnet_zmp_arg args t)) =
    sent (tn_events t) @ escape (concat (map (\<lambda>a. a @ [0]) args))"
  by (induction args arbitrary: t) (simp_all add: telnet_zmp_arg_def)

section \<open>What is received\<close>

text \<open>The bytes take one tracker to the other, one by one, without an MCCPv1 subnegotiation.\<close>

definition recvs :: "telnet \<Rightarrow> byte list \<Rightarrow> telnet \<Rightarrow> bool" where
  "recvs t bs t' \<longleftrightarrow> recv_bytes bs t = Some t' \<and> no_sb TELNET_TELOPT_COMPRESS t bs"

lemma recvs_append: "recvs t xs u \<Longrightarrow> recvs u ys v \<Longrightarrow> recvs t (xs @ ys) v"
  unfolding recvs_def by (induction xs arbitrary: t) (auto split: bind_splits option.splits)

lemma recvs_one: "telnet_recv [b] t = Some t' \<Longrightarrow> tn_sb_telopt t \<noteq> TELNET_TELOPT_COMPRESS \<Longrightarrow>
    tn_sb_telopt t' \<noteq> TELNET_TELOPT_COMPRESS \<Longrightarrow> recvs t [b] t'"
  by (simp add: recvs_def)

lemma recvs_Cons: "recvs t [b] u \<Longrightarrow> recvs u bs v \<Longrightarrow> recvs t (b # bs) v"
  using recvs_append [of t "[b]" u bs v] by simp

lemma recvs_telnet_recv:
  assumes "recvs t bs t'" "length bs < 2 ^ 64"
  obtains t'' where "telnet_recv bs t = Some t''" "same_but_cut t'' t'"
  using telnet_recv_bytes [OF assms(2), of t] assms(1)
  by (auto simp: recvs_def option_rel_Some2)

definition add_events :: "telnet_event list \<Rightarrow> telnet \<Rightarrow> telnet" where
  "add_events evs t = t\<lparr>tn_events := tn_events t @ evs\<rparr>"

lemma add_events_simps [simp]: "add_events [] t = t" "add_events ys (add_events xs t) = add_events (xs @ ys) t"
  "tn_state (add_events xs t) = tn_state t" "tn_sb_telopt (add_events xs t) = tn_sb_telopt t"
  "tn_events (add_events xs t) = tn_events t @ xs"
  by (simp_all add: add_events_def)

lemma recvs_data:
  assumes "tn_state t = TELNET_STATE_DATA" "tn_sb_telopt t \<noteq> TELNET_TELOPT_COMPRESS"
  shows "recvs t (escape bs) (add_events (map (\<lambda>b. TELNET_EV_DATA [b] 1) bs) t)"
  using assms
proof (induction bs arbitrary: t)
  case (Cons b bs)
  have "recvs t (escape [b]) (add_events [TELNET_EV_DATA [b] 1] t)"
    using Cons.prems by (auto simp: recvs_def recv_one_simps add_events_def eh_def)
  moreover have "recvs (add_events [TELNET_EV_DATA [b] 1] t) (escape bs)
      (add_events (map (\<lambda>b. TELNET_EV_DATA [b] 1) bs) (add_events [TELNET_EV_DATA [b] 1] t))"
    by (rule Cons.IH) (use Cons.prems in simp_all)
  ultimately show ?case
    using recvs_append by fastforce
qed (simp add: recvs_def)

lemma recvs_start_sb:
  assumes "tn_state t = TELNET_STATE_DATA" "tn_sb_telopt t \<noteq> TELNET_TELOPT_COMPRESS" "opt \<noteq> TELNET_TELOPT_COMPRESS"
  shows "recvs t [TELNET_IAC, TELNET_SB, opt]
    (t\<lparr>tn_sb_telopt := opt, tn_buffer_pos := 0, tn_state := TELNET_STATE_SB_DATA\<rparr>)"
  using assms by (simp add: recvs_def recv_one_simps)

text \<open>Everything but the subnegotiation buffer.\<close>

definition but_buffer :: "telnet \<Rightarrow> telnet" where
  "but_buffer t = t\<lparr>tn_buffer := [], tn_buffer_size := 0, tn_buffer_pos := 0\<rparr>"

lemma buffer_byte_ok:
  assumes inv: "buf_inv t" and al: "tn_allocs t = []" and pos: "tn_buffer_pos t < 16384"
  obtains t' where "buffer_byte b t = Some (TELNET_EOK, t')" "buf_inv t'" "but_buffer t' = but_buffer t"
    "subneg_data t' = subneg_data t @ [b]" "tn_buffer_pos t' = tn_buffer_pos t + 1"
proof -
  obtain err t' where b: "buffer_byte b t = Some (err, t')" "buf_inv t'"
    "err = TELNET_EOK \<longrightarrow> subneg_data t' = subneg_data t @ [b] \<and> tn_buffer_pos t' = tn_buffer_pos t + 1"
    by (rule buffer_byte_safe [OF inv, of b])
  have s: "tn_buffer_size t \<in> {0, 512, 2048, 8192, 16384}"
    using inv by (simp add: buf_inv_def buffer_sizes_def)
  have "err = TELNET_EOK \<and> but_buffer t' = but_buffer t"
  proof (cases "tn_buffer_pos t = tn_buffer_size t")
    case True
    with s pos have "find_size (tn_buffer_size t) buffer_sizes < buffer_sizes_count - 1"
      by (auto simp: buffer_sizes_def buffer_sizes_count_def)
    then have "grow_buffer t = (TELNET_EOK, t\<lparr>tn_buffer := tn_buffer t @
        replicate (buffer_sizes ! (find_size (tn_buffer_size t) buffer_sizes + 1) - length (tn_buffer t)) 0,
        tn_buffer_size := buffer_sizes ! (find_size (tn_buffer_size t) buffer_sizes + 1)\<rparr>)"
      using al by (cases t) (simp add: grow_buffer_def Let_def)
    with b(1) True show ?thesis
      by (auto simp: buffer_byte_def but_buffer_def split: bind_splits)
  next
    case False
    with b(1) show ?thesis
      by (auto simp: buffer_byte_def but_buffer_def split: bind_splits)
  qed
  with b that show ?thesis
    by auto
qed

lemma but_buffer_eqD:
  assumes "but_buffer t' = but_buffer t"
  shows "tn_state t' = tn_state t" "tn_sb_telopt t' = tn_sb_telopt t" "tn_allocs t' = tn_allocs t"
    "tn_events t' = tn_events t"
  using arg_cong [OF assms, of tn_state] arg_cong [OF assms, of tn_sb_telopt] arg_cong [OF assms, of tn_allocs]
    arg_cong [OF assms, of tn_events] by (simp_all add: but_buffer_def)

lemma recvs_collect_one:
  assumes "buf_inv t" "tn_allocs t = []" "tn_state t = TELNET_STATE_SB_DATA"
    "tn_sb_telopt t \<noteq> TELNET_TELOPT_COMPRESS" "tn_buffer_pos t < 16384"
  obtains t' where "recvs t (escape [b]) t'" "buf_inv t'" "but_buffer t' = but_buffer t"
    "subneg_data t' = subneg_data t @ [b]" "tn_buffer_pos t' = tn_buffer_pos t + 1"
proof (cases "b = TELNET_IAC")
  case False
  obtain t' where b: "buffer_byte b t = Some (TELNET_EOK, t')" "buf_inv t'" "but_buffer t' = but_buffer t"
    "subneg_data t' = subneg_data t @ [b]" "tn_buffer_pos t' = tn_buffer_pos t + 1"
    by (rule buffer_byte_ok [OF assms(1,2,5)])
  have "telnet_recv [b] t = Some t'"
    using telnet_recv_one [of t b "[]" 0 0] assms(3,4) b(1) False by (simp add: process_step_def process_SB_DATA_def)
  then have "recvs t [b] t'"
    using assms(4) but_buffer_eqD(2) [OF b(3)] by (intro recvs_one) simp_all
  with False b show ?thesis
    by (intro that [of t']) simp_all
next
  case True
  let ?u = "t\<lparr>tn_state := TELNET_STATE_SB_DATA_IAC\<rparr>"
  have u: "buf_inv ?u" "tn_allocs ?u = []" "tn_buffer_pos ?u < 16384"
    using assms by (simp_all add: buf_inv_def)
  obtain t' where b: "buffer_byte b ?u = Some (TELNET_EOK, t')" "buf_inv t'" "but_buffer t' = but_buffer ?u"
    "subneg_data t' = subneg_data ?u @ [b]" "tn_buffer_pos t' = tn_buffer_pos ?u + 1"
    by (rule buffer_byte_ok [OF u])
  have "telnet_recv [TELNET_IAC] t = Some ?u"
    using telnet_recv_one [of t TELNET_IAC "[]" 0 0] assms(3,4) by (simp add: process_step_def process_SB_DATA_def)
  then have 1: "recvs t [TELNET_IAC] ?u"
    using assms(4) by (intro recvs_one) simp_all
  have "telnet_recv [TELNET_IAC] ?u = Some (t'\<lparr>tn_state := TELNET_STATE_SB_DATA\<rparr>)"
    using telnet_recv_one [of ?u TELNET_IAC "[]" 0 0] assms(4) b(1) True by (simp add: process_step_def process_SB_IAC_def)
  then have 2: "recvs ?u [TELNET_IAC] (t'\<lparr>tn_state := TELNET_STATE_SB_DATA\<rparr>)"
    using assms(4) but_buffer_eqD(2) [OF b(3)] by (intro recvs_one) simp_all
  have "but_buffer (t'\<lparr>tn_state := TELNET_STATE_SB_DATA\<rparr>) = but_buffer (?u\<lparr>tn_state := TELNET_STATE_SB_DATA\<rparr>)"
    using b(3) by (cases t; cases t') (simp add: but_buffer_def)
  then have "but_buffer (t'\<lparr>tn_state := TELNET_STATE_SB_DATA\<rparr>) = but_buffer t"
    using assms(3) by (cases t) (simp add: but_buffer_def)
  with recvs_append [OF 1 2] True b show ?thesis
    by (intro that [of "t'\<lparr>tn_state := TELNET_STATE_SB_DATA\<rparr>"]) (simp_all add: buf_inv_def subneg_data_def)
qed

lemma recvs_collect:
  assumes "buf_inv t" "tn_allocs t = []" "tn_state t = TELNET_STATE_SB_DATA"
    "tn_sb_telopt t \<noteq> TELNET_TELOPT_COMPRESS" "tn_buffer_pos t + length bs \<le> 16384"
  shows "\<exists>t'. recvs t (escape bs) t' \<and> buf_inv t' \<and> but_buffer t' = but_buffer t \<and>
    subneg_data t' = subneg_data t @ bs"
  using assms
proof (induction bs arbitrary: t)
  case Nil
  then show ?case
    by (intro exI [of _ t]) (simp add: recvs_def)
next
  case (Cons b bs)
  have "tn_buffer_pos t < 16384"
    using Cons.prems(5) by simp
  then obtain u where u: "recvs t (escape [b]) u" "buf_inv u" "but_buffer u = but_buffer t"
    "subneg_data u = subneg_data t @ [b]" "tn_buffer_pos u = tn_buffer_pos t + 1"
    by (rule recvs_collect_one [OF Cons.prems(1-4)])
  from Cons.IH [OF u(2)] but_buffer_eqD [OF u(3)] Cons.prems u(5) obtain t' where
    t': "recvs u (escape bs) t'" "buf_inv t'" "but_buffer t' = but_buffer u" "subneg_data t' = subneg_data u @ bs"
    by auto
  with recvs_append [OF u(1) t'(1)] u show ?case
    by (intro exI [of _ t']) simp
qed

lemma recvs_finish_sb:
  assumes "buf_inv t" "tn_allocs t = []" "tn_state t = TELNET_STATE_SB_DATA"
    "tn_sb_telopt t \<noteq> TELNET_TELOPT_COMPRESS" "subneg_safe t"
  obtains t' where "recvs t [TELNET_IAC, TELNET_SE] t'" "tn_state t' = TELNET_STATE_DATA" "buf_inv t'"
    "tn_events t' = tn_events t @ snd (subneg_spec (tn_sb_telopt t) (subneg_data t) True)"
    "tn_q t' = tn_q t" "tn_q_size t' = tn_q_size t" "tn_sb_telopt t' = tn_sb_telopt t"
proof -
  let ?u = "t\<lparr>tn_state := TELNET_STATE_SB_DATA_IAC\<rparr>"
  let ?v = "t\<lparr>tn_state := TELNET_STATE_DATA\<rparr>"
  have "telnet_recv [TELNET_IAC] t = Some ?u"
    using telnet_recv_one [of t TELNET_IAC "[]" 0 0] assms(3,4) by (simp add: process_step_def process_SB_DATA_def)
  then have 1: "recvs t [TELNET_IAC] ?u"
    using assms(4) by (intro recvs_one) simp_all
  have v: "subneg_safe ?v" "subneg_data ?v = subneg_data t" "next_alloc ?v"
    using assms(2,5) by (simp_all add: subneg_safe_def subneg_data_def next_alloc_def)
  obtain r t' where sn: "subnegotiate ?v = Some (r, t')" "core_same ?v t'"
    "tn_events t' = tn_events t @ snd (subneg_spec (tn_sb_telopt t) (subneg_data t) True)"
    by (rule subnegotiate_ref [OF v(1)]) (simp add: v)
  have "telnet_recv [TELNET_SE] ?u = Some t'"
    using telnet_recv_one [of ?u TELNET_SE "[]" 0 0] assms(4) sn(1) by (simp add: process_step_def)
  then have "recvs ?u [TELNET_SE] t'"
    using assms(4) sn(2) by (intro recvs_one) (simp_all add: core_same_def)
  from recvs_Cons [OF 1 this] sn(2,3) assms(1) show ?thesis
    by (intro that [of t']) (auto simp: core_same_def buf_inv_def)
qed

text \<open>A whole subnegotiation.\<close>

lemma recv_subnegotiation:
  assumes "buf_inv t" "tn_allocs t = []" "tn_state t = TELNET_STATE_DATA" "tn_sb_telopt t \<noteq> TELNET_TELOPT_COMPRESS"
    "opt \<noteq> TELNET_TELOPT_COMPRESS" "length bs \<le> 16384"
    "opt = TELNET_TELOPT_MSSP \<Longrightarrow> bs = [] \<or> mssp_marker (List.last bs)"
  shows "\<exists>t'. telnet_recv ([TELNET_IAC, TELNET_SB, opt] @ escape bs @ [TELNET_IAC, TELNET_SE]) t = Some t' \<and>
    tn_state t' = TELNET_STATE_DATA \<and> buf_inv t' \<and> tn_q t' = tn_q t \<and> tn_q_size t' = tn_q_size t \<and>
    bytewise (tn_events t') = bytewise (tn_events t @ snd (subneg_spec opt bs True))"
proof -
  let ?u = "t\<lparr>tn_sb_telopt := opt, tn_buffer_pos := 0, tn_state := TELNET_STATE_SB_DATA\<rparr>"
  have "\<exists>v. recvs ?u (escape bs) v \<and> buf_inv v \<and> but_buffer v = but_buffer ?u \<and> subneg_data v = subneg_data ?u @ bs"
    using assms by (intro recvs_collect) (simp_all add: buf_inv_def)
  then obtain v where v: "recvs ?u (escape bs) v" "buf_inv v" "but_buffer v = but_buffer ?u" "subneg_data v = bs"
    by (auto simp: subneg_data_def)
  note vu = but_buffer_eqD [OF v(3)]
  have "subneg_safe v"
  proof -
    have len: "tn_buffer_pos v \<le> length (tn_buffer v)"
      using v(2) by (simp add: buf_inv_def)
    then have "bs \<noteq> [] \<Longrightarrow> List.last bs = tn_buffer v ! (tn_buffer_pos v - 1)" "tn_buffer_pos v = length bs"
      using v(4) by (auto simp: subneg_data_def last_conv_nth min_def)
    with len assms(7) vu show ?thesis
      by (cases "bs = []") (auto simp: subneg_safe_def mssp_safe_def)
  qed
  moreover have "tn_allocs v = []" "tn_state v = TELNET_STATE_SB_DATA" "tn_sb_telopt v = opt"
    using vu assms(2) by simp_all
  ultimately obtain w where w: "recvs v [TELNET_IAC, TELNET_SE] w" "tn_state w = TELNET_STATE_DATA" "buf_inv w"
    "tn_events w = tn_events v @ snd (subneg_spec opt bs True)" "tn_q w = tn_q v" "tn_q_size w = tn_q_size v"
    using recvs_finish_sb [OF v(2), of thesis] v(4) assms(5) by auto
  have "recvs t ([TELNET_IAC, TELNET_SB, opt] @ escape bs @ [TELNET_IAC, TELNET_SE]) w"
    by (intro recvs_append [OF recvs_start_sb] recvs_append [OF v(1)] w(1) assms)
  moreover have "length ([TELNET_IAC, TELNET_SB, opt] @ escape bs @ [TELNET_IAC, TELNET_SE]) < 2 ^ 64"
    using length_escape [of bs] assms(6) by simp
  ultimately obtain w' where "telnet_recv ([TELNET_IAC, TELNET_SB, opt] @ escape bs @ [TELNET_IAC, TELNET_SE]) t = Some w'"
    and s: "same_but_cut w' w"
    by (rule recvs_telnet_recv)
  moreover obtain evs evs' x where "w' = pre evs x" "w = pre evs' x" "bytewise evs' = bytewise evs"
    using s by (auto simp: same_but_cut_pre)
  moreover have "tn_q v = tn_q t" "tn_q_size v = tn_q_size t"
    using arg_cong [OF v(3), of tn_q] arg_cong [OF v(3), of tn_q_size] by (simp_all add: but_buffer_def)
  ultimately show ?thesis
    using w vu s by (auto simp: same_but_cut_def buf_inv_def)
qed

section \<open>Properties\<close>

text \<open>A tracker between two commands, with consistent buffer bounds and memory to allocate.\<close>

definition ready :: "telnet \<Rightarrow> bool" where
  "ready t \<longleftrightarrow> tn_state t = TELNET_STATE_DATA \<and> buf_inv t \<and> tn_allocs t = [] \<and>
     tn_sb_telopt t \<noteq> TELNET_TELOPT_COMPRESS"

lemma ready_demo: "ready demo_telnet"
  by (simp add: ready_def demo_state buf_inv_demo demo_telnet_simps)

text \<open>
  C20: data survives the trip. What \<open>telnet_send\<close> sends, for any bytes, the receiving tracker hands to
  its application unchanged, byte for byte and in order, with no other event, and its own state is
  as before.
\<close>

theorem telnet_send_recv:
  assumes "tn_state r = TELNET_STATE_DATA" "tn_sb_telopt r \<noteq> TELNET_TELOPT_COMPRESS" "tn_events s = []"
    "length bs < 2 ^ 63"
  shows "\<exists>r'. telnet_recv (sent (tn_events (telnet_send bs s))) r = Some r' \<and>
    r'\<lparr>tn_events := []\<rparr> = r\<lparr>tn_events := []\<rparr> \<and>
    bytewise (tn_events r') = bytewise (tn_events r) @ map (\<lambda>b. TELNET_EV_DATA [b] 1) bs"
proof -
  have "length (escape bs) < 2 ^ 64"
    using length_escape [of bs] assms(4) by simp
  with recvs_data [OF assms(1,2)] obtain r' where "telnet_recv (escape bs) r = Some r'"
    "same_but_cut r' (add_events (map (\<lambda>b. TELNET_EV_DATA [b] 1) bs) r)"
    by (rule recvs_telnet_recv)
  moreover have "bytewise (map (\<lambda>b. TELNET_EV_DATA [b] 1) bs) = map (\<lambda>b. TELNET_EV_DATA [b] 1) bs"
    by (induction bs) (simp_all add: bytewise_def)
  ultimately show ?thesis
    using assms(3) by (auto simp: same_but_cut_def add_events_def)
qed

theorem telnet_send_recv_witness:
  "\<exists>r'. telnet_recv (sent (tn_events (telnet_send [72, TELNET_IAC, TELNET_DO, 0] demo_telnet))) demo_telnet = Some r' \<and>
     bytewise (tn_events r') = [TELNET_EV_DATA [72] 1, TELNET_EV_DATA [TELNET_IAC] 1, TELNET_EV_DATA [TELNET_DO] 1,
       TELNET_EV_DATA [0] 1]"
  using telnet_send_recv [of demo_telnet demo_telnet "[72, TELNET_IAC, TELNET_DO, 0]"]
  by (auto simp: demo_state demo_telnet_simps bytewise_def)

text \<open>
  A subnegotiation survives the trip: what \<open>telnet_subnegotiation\<close> sends for up to 16384 bytes
  reaches the receiving application as one subnegotiation with exactly these bytes, followed by
  what its parser reports of them.
\<close>

theorem telnet_subnegotiation_recv:
  assumes "ready r" "tn_events s = []" "opt \<noteq> TELNET_TELOPT_COMPRESS" "length bs \<le> 16384"
    "opt = TELNET_TELOPT_MSSP \<Longrightarrow> bs = [] \<or> mssp_marker (List.last bs)"
  shows "\<exists>r'. telnet_recv (sent (tn_events (telnet_subnegotiation opt bs s))) r = Some r' \<and>
    tn_state r' = TELNET_STATE_DATA \<and> buf_inv r' \<and>
    bytewise (tn_events r') = bytewise (tn_events r @ snd (subneg_spec opt bs True))"
  using recv_subnegotiation [of r opt bs] assms by (auto simp: telnet_subnegotiation_def ready_def)

theorem telnet_subnegotiation_recv_witness:
  "\<exists>r'. telnet_recv (sent (tn_events (telnet_subnegotiation 31 [0, TELNET_IAC, 80] demo_telnet))) demo_telnet = Some r' \<and>
     bytewise (tn_events r') = [TELNET_EV_SUBNEGOTIATION 31 [0, TELNET_IAC, 80]]"
  using telnet_subnegotiation_recv [of demo_telnet demo_telnet 31 "[0, TELNET_IAC, 80]"]
  by (auto simp: ready_demo demo_telnet_simps subneg_spec_def bytewise_def)

lemma zmp_args_concat: "\<forall>a \<in> set argv. 0 \<notin> set a \<Longrightarrow> zmp_args (concat (map (\<lambda>a. a @ [0]) argv)) = argv"
  by (induction argv) (simp_all add: zmp_args_split)

text \<open>
  A ZMP command survives the trip: the receiving application gets the command and its arguments
  as they were passed to \<open>telnet_send_zmp\<close>.
\<close>

theorem telnet_send_zmp_recv:
  assumes "ready r" "tn_events s = []" "telnet_send_zmp argv s = Some s'" "\<forall>a \<in> set argv. 0 \<notin> set a"
    "length (concat (map (\<lambda>a. a @ [0]) argv)) \<le> 16384"
  shows "\<exists>r' raw. telnet_recv (sent (tn_events s')) r = Some r' \<and>
    bytewise (tn_events r') = bytewise (tn_events r) @ [TELNET_EV_SUBNEGOTIATION TELNET_TELOPT_ZMP raw, TELNET_EV_ZMP argv]"
proof -
  let ?bs = "concat (map (\<lambda>a. a @ [0]) argv)"
  obtain cmd args where argv: "argv = cmd # args"
    using assms(3) by (cases argv) (auto simp: telnet_send_zmp_def)
  then have "sent (tn_events s') = [TELNET_IAC, TELNET_SB, TELNET_TELOPT_ZMP] @ escape ?bs @ [TELNET_IAC, TELNET_SE]"
    using assms(2,3)
    by (auto simp: telnet_send_zmp_def telnet_finish_zmp_def telnet_begin_zmp_def telnet_zmp_arg_def sent_zmp_args)
  moreover have "?bs \<noteq> []" "List.last ?bs = 0"
    using argv by (induction args arbitrary: cmd argv) auto
  then have "snd (subneg_spec TELNET_TELOPT_ZMP ?bs True) = [TELNET_EV_SUBNEGOTIATION TELNET_TELOPT_ZMP ?bs, TELNET_EV_ZMP argv]"
    using zmp_args_concat [OF assms(4)] by (simp add: subneg_spec_def zmp_spec_def)
  ultimately show ?thesis
    using recv_subnegotiation [of r TELNET_TELOPT_ZMP ?bs] assms(1,5) by (auto simp: ready_def bytewise_def)
qed

theorem telnet_send_zmp_recv_witness:
  "\<exists>s' r' raw. telnet_send_zmp [[122], [49, 50]] demo_telnet = Some s' \<and>
     telnet_recv (sent (tn_events s')) demo_telnet = Some r' \<and>
     bytewise (tn_events r') = [TELNET_EV_SUBNEGOTIATION TELNET_TELOPT_ZMP raw, TELNET_EV_ZMP [[122], [49, 50]]]"
proof -
  obtain s' where s': "telnet_send_zmp [[122], [49, 50]] demo_telnet = Some s'"
    by (simp add: telnet_send_zmp_def)
  with telnet_send_zmp_recv [OF ready_demo _ s'] show ?thesis
    by (auto simp: demo_telnet_simps bytewise_def)
qed

text \<open>
  The terminal type survives the trip, in both directions of the exchange: \<open>telnet_ttype_send\<close>
  reaches the peer as a request, and \<open>telnet_ttype_is\<close>, for a name without IAC bytes, which it does
  not escape, as the name.
\<close>

theorem telnet_ttype_recv:
  assumes "ready r" "tn_events s = []" "telnet_ttype_is (Some name) s = Some s'" "TELNET_IAC \<notin> set name" "0 \<notin> set name"
    "length name < 16384"
  shows "(\<exists>r' raw. telnet_recv (sent (tn_events (telnet_ttype_send s))) r = Some r' \<and>
      bytewise (tn_events r') = bytewise (tn_events r) @
        [TELNET_EV_SUBNEGOTIATION TELNET_TELOPT_TTYPE raw, TELNET_EV_TTYPE TELNET_TTYPE_SEND None]) \<and>
    (\<exists>r' raw. telnet_recv (sent (tn_events s')) r = Some r' \<and>
      bytewise (tn_events r') = bytewise (tn_events r) @
        [TELNET_EV_SUBNEGOTIATION TELNET_TELOPT_TTYPE raw, TELNET_EV_TTYPE TELNET_TTYPE_IS (Some name)])"
proof -
  have c: "c_prefix name = name"
    using assms(5) by (auto simp: c_prefix_def takeWhile_eq_all_conv)
  have "sent (tn_events s') = [TELNET_IAC, TELNET_SB, TELNET_TELOPT_TTYPE] @ escape (TELNET_TTYPE_IS # name) @ [TELNET_IAC, TELNET_SE]"
    using assms(2,3,4) by (auto simp: telnet_ttype_is_def escape_id)
  moreover have "sent (tn_events (telnet_ttype_send s)) =
      [TELNET_IAC, TELNET_SB, TELNET_TELOPT_TTYPE] @ escape [TELNET_TTYPE_SEND] @ [TELNET_IAC, TELNET_SE]"
    using assms(2) by (simp add: telnet_ttype_send_def)
  ultimately show ?thesis
    using recv_subnegotiation [of r TELNET_TELOPT_TTYPE "TELNET_TTYPE_IS # name"]
      recv_subnegotiation [of r TELNET_TELOPT_TTYPE "[TELNET_TTYPE_SEND]"] assms(1,6)
    by (auto simp: ready_def subneg_spec_def ttype_spec_def c bytewise_def)
qed

theorem telnet_ttype_recv_witness:
  "\<exists>s' r' raw. telnet_ttype_is (Some [120, 116]) demo_telnet = Some s' \<and>
     telnet_recv (sent (tn_events s')) demo_telnet = Some r' \<and>
     bytewise (tn_events r') = [TELNET_EV_SUBNEGOTIATION TELNET_TELOPT_TTYPE raw, TELNET_EV_TTYPE TELNET_TTYPE_IS (Some [120, 116])]"
proof -
  obtain s' where s': "telnet_ttype_is (Some [120, 116]) demo_telnet = Some s'"
    by (simp add: telnet_ttype_is_def)
  with telnet_ttype_recv [OF ready_demo _ s'] show ?thesis
    by (auto simp: demo_telnet_simps bytewise_def)
qed

text \<open>Environment variables, sent one by one as type, name, VALUE marker and value.\<close>

definition env_plain :: "byte list \<Rightarrow> bool" where
  "env_plain bs \<longleftrightarrow> set bs \<inter> {TELNET_ENVIRON_VAR, TELNET_ENVIRON_VALUE, TELNET_ENVIRON_ESC, TELNET_ENVIRON_USERVAR} = {}"

definition env_bytes :: "(byte \<times> byte list \<times> byte list) list \<Rightarrow> byte list" where
  "env_bytes vars = concat (map (\<lambda>(ty, name, val). ty # name @ TELNET_ENVIRON_VALUE # val) vars)"

definition send_env :: "byte \<Rightarrow> (byte \<times> byte list \<times> byte list) list \<Rightarrow> telnet \<Rightarrow> telnet" where
  "send_env cmd vars t = telnet_finish_sb (fold (\<lambda>(ty, name, val) t.
     telnet_newenviron_value TELNET_ENVIRON_VALUE (Some val) (telnet_newenviron_value ty (Some name) t))
     vars (telnet_begin_newenviron cmd t))"

definition env_ok :: "byte \<times> byte list \<times> byte list \<Rightarrow> bool" where
  "env_ok v = (case v of (ty, name, val) \<Rightarrow> value_end ty \<and> env_plain name \<and> env_plain val)"

lemma environ_take_plain:
  "env_plain seg \<Longrightarrow> (\<And>b. stop b \<Longrightarrow> b \<in> {TELNET_ENVIRON_VAR, TELNET_ENVIRON_VALUE, TELNET_ENVIRON_USERVAR}) \<Longrightarrow>
     rest = [] \<or> stop (hd rest) \<Longrightarrow> environ_take stop (seg @ rest) = (seg, rest)"
proof (induction seg)
  case Nil
  then show ?case
    by (cases rest) auto
next
  case (Cons b seg)
  then have "\<not> stop b" "b \<noteq> TELNET_ENVIRON_ESC" "env_plain seg"
    by (auto simp: env_plain_def)
  with Cons show ?case
    by simp
qed

lemma environ_entries_bytes:
  "\<forall>v \<in> set vars. env_ok v \<Longrightarrow> environ_entries (env_bytes vars) = map (\<lambda>(ty, name, val). (ty, name, Some val)) vars"
proof (induction vars)
  case (Cons v vars)
  obtain ty name val where v: "v = (ty, name, val)"
    by (cases v)
  have rest: "env_bytes vars = [] \<or> value_end (hd (env_bytes vars))"
    using Cons.prems by (cases vars) (auto simp: env_bytes_def env_ok_def)
  have 1: "environ_take name_end (name @ TELNET_ENVIRON_VALUE # val @ env_bytes vars) = (name, TELNET_ENVIRON_VALUE # val @ env_bytes vars)"
    using Cons.prems v by (intro environ_take_plain) (auto simp: env_ok_def name_end_def)
  have 2: "environ_take value_end (val @ env_bytes vars) = (val, env_bytes vars)"
    using Cons.prems v rest by (intro environ_take_plain) (auto simp: env_ok_def value_end_def)
  show ?case
    using 1 2 Cons v by (simp add: env_bytes_def)
qed (simp add: env_bytes_def)

lemma sent_env_vars:
  "sent (tn_events (fold (\<lambda>(ty, name, val) t.
     telnet_newenviron_value TELNET_ENVIRON_VALUE (Some val) (telnet_newenviron_value ty (Some name) t)) vars t)) =
     sent (tn_events t) @ escape (env_bytes vars)"
  by (induction vars arbitrary: t) (auto simp: telnet_newenviron_value_def env_bytes_def)

lemma env_bytes_last: "\<forall>v \<in> set vars. env_ok v \<Longrightarrow> vars \<noteq> [] \<Longrightarrow> List.last (env_bytes vars) \<noteq> TELNET_ENVIRON_ESC"
proof (induction vars rule: rev_induct)
  case (snoc v vars)
  obtain ty name val where v: "v = (ty, name, val)"
    by (cases v)
  then have "List.last (env_bytes (vars @ [v])) = (if val = [] then TELNET_ENVIRON_VALUE else List.last val)"
    by (simp add: env_bytes_def)
  moreover have "TELNET_ENVIRON_ESC \<notin> set val"
    using snoc.prems v by (simp add: env_ok_def env_plain_def)
  then have "val \<noteq> [] \<Longrightarrow> List.last val \<noteq> TELNET_ENVIRON_ESC"
    by (metis last_in_set)
  ultimately show ?case
    by (cases "val = []") simp_all
qed simp

lemma env_plain_prefix: "env_plain bs \<Longrightarrow> c_prefix bs = bs"
  by (auto simp: env_plain_def c_prefix_def takeWhile_eq_all_conv)

text \<open>
  Environment variables survive the trip, for names and values free of the four marker bytes,
  which \<open>telnet_newenviron_value\<close> does not escape: the receiving application gets the same
  variables with the same types, names and values in the same order.
\<close>

theorem telnet_newenviron_recv:
  assumes "ready r" "tn_events s = []" "cmd \<in> {TELNET_ENVIRON_IS, TELNET_ENVIRON_SEND, TELNET_ENVIRON_INFO}"
    "\<forall>v \<in> set vars. env_ok v" "vars \<noteq> []" "length (env_bytes vars) < 16384"
  shows "\<exists>r' raw. telnet_recv (sent (tn_events (send_env cmd vars s))) r = Some r' \<and>
    bytewise (tn_events r') = bytewise (tn_events r) @ [TELNET_EV_SUBNEGOTIATION TELNET_TELOPT_NEW_ENVIRON raw,
      TELNET_EV_ENVIRON cmd (map (\<lambda>(ty, name, val). \<lparr>ev_type = ty, ev_var = Some name, ev_value = Some val\<rparr>) vars)]"
proof -
  have "sent (tn_events (send_env cmd vars s)) =
      [TELNET_IAC, TELNET_SB, TELNET_TELOPT_NEW_ENVIRON] @ escape (cmd # env_bytes vars) @ [TELNET_IAC, TELNET_SE]"
    using assms(2) by (simp add: send_env_def sent_env_vars telnet_begin_newenviron_def)
  moreover have ne: "env_bytes vars \<noteq> []" "value_end (hd (env_bytes vars))"
    using assms(4,5) by (cases vars; auto simp: env_bytes_def env_ok_def)+
  have "map environ_of_entry (environ_entries (env_bytes vars)) =
      map (\<lambda>(ty, name, val). \<lparr>ev_type = ty, ev_var = Some name, ev_value = Some val\<rparr>) vars"
    using assms(4) by (auto simp: environ_entries_bytes environ_of_entry_def env_ok_def env_plain_prefix)
  then have "snd (subneg_spec TELNET_TELOPT_NEW_ENVIRON (cmd # env_bytes vars) True) =
      [TELNET_EV_SUBNEGOTIATION TELNET_TELOPT_NEW_ENVIRON (cmd # env_bytes vars),
       TELNET_EV_ENVIRON cmd (map (\<lambda>(ty, name, val). \<lparr>ev_type = ty, ev_var = Some name, ev_value = Some val\<rparr>) vars)]"
    using ne env_bytes_last [OF assms(4,5)] assms(3) by (auto simp: subneg_spec_def environ_spec_def)
  ultimately show ?thesis
    using recv_subnegotiation [of r TELNET_TELOPT_NEW_ENVIRON "cmd # env_bytes vars"] assms(1,6)
    by (auto simp: ready_def bytewise_def)
qed

theorem telnet_newenviron_recv_witness:
  "\<exists>r' raw. telnet_recv (sent (tn_events (send_env TELNET_ENVIRON_IS [(TELNET_ENVIRON_VAR, [85], [114])] demo_telnet))) demo_telnet = Some r' \<and>
     bytewise (tn_events r') = [TELNET_EV_SUBNEGOTIATION TELNET_TELOPT_NEW_ENVIRON raw,
       TELNET_EV_ENVIRON TELNET_ENVIRON_IS [\<lparr>ev_type = TELNET_ENVIRON_VAR, ev_var = Some [85], ev_value = Some [114]\<rparr>]]"
  using telnet_newenviron_recv [of demo_telnet demo_telnet TELNET_ENVIRON_IS "[(TELNET_ENVIRON_VAR, [85], [114])]"]
  by (auto simp: ready_demo demo_telnet_simps bytewise_def env_ok_def env_plain_def value_end_def env_bytes_def)

text \<open>
  C6: \<open>telnet_printf\<close> sends the formatted text with every IAC byte doubled, CR followed by NUL and
  LF turned into CR LF, and returns the length of the text; a text of 1024 bytes or more for which
  there is no memory sends nothing and returns -1.
\<close>

theorem telnet_printf_sends:
  "(length text1 < 1024 \<longrightarrow>
      (\<exists>t'. telnet_printf (text1, text2) t = Some (int (length text1), t') \<and>
         sent (tn_events t') = sent (tn_events t) @ nvt_text text1)) \<and>
   (1024 \<le> length text1 \<and> next_alloc t \<and> text2 = text1 \<longrightarrow>
      (\<exists>t'. telnet_printf (text1, text2) t = Some (int (length text1), t') \<and>
         sent (tn_events t') = sent (tn_events t) @ nvt_text text1)) \<and>
   (1024 \<le> length text1 \<and> \<not> next_alloc t \<longrightarrow>
      (\<exists>t'. telnet_printf (text1, text2) t = Some (- 1, t') \<and> sent (tn_events t') = sent (tn_events t)))"
  by (cases "try_alloc (tn_allocs t)")
    (auto simp: telnet_printf_def telnet_vprintf_def telnet_vformat_def next_alloc_def sent_telnet_vprintf_loop)

theorem telnet_printf_sends_witness:
  "\<exists>t'. telnet_printf ([72, LF, TELNET_IAC], []) demo_telnet = Some (3, t') \<and>
     sent (tn_events t') = [72, CR, LF, TELNET_IAC, TELNET_IAC]"
  using telnet_printf_sends [of "[72, LF, TELNET_IAC]" "[]" demo_telnet]
  by (simp add: demo_telnet_simps)

section \<open>Two trackers negotiating\<close>

lemma reply_command: "reply remote opt (Some on) = [TELNET_IAC, request_command remote on, opt]"
  by (simp add: reply_def request_command_def split: bool.split)

lemma recv_command:
  assumes "tn_state t = TELNET_STATE_DATA"
  shows "telnet_recv [TELNET_IAC, request_command remote on, opt] t =
    Some ((negotiate opt (t\<lparr>tn_state := command_state (\<not> remote) on\<rparr>))\<lparr>tn_state := TELNET_STATE_DATA\<rparr>)"
proof -
  let ?buf = "[TELNET_IAC, request_command remote on, opt]"
  have "process ?buf 0 0 t = process ?buf (Suc 0) 0 (t\<lparr>tn_state := TELNET_STATE_IAC\<rparr>)"
    using assms by (simp add: process_turn process_step_def process_DATA_def)
  also have "\<dots> = process ?buf (Suc (Suc 0)) 0 (t\<lparr>tn_state := command_state (\<not> remote) on\<rparr>)"
    by (cases remote; cases on)
      (simp_all add: process_turn [of "Suc 0"] process_step_def process_IAC_def request_command_def command_state_def)
  also have "\<dots> = process ?buf (Suc (Suc (Suc 0))) (Suc (Suc (Suc 0))) ((negotiate opt (t\<lparr>tn_state := command_state (\<not> remote) on\<rparr>))\<lparr>tn_state := TELNET_STATE_DATA\<rparr>)"
    by (cases remote; cases on)
      (simp_all add: process_turn [of "Suc (Suc 0)"] process_step_def command_state_def)
  finally show ?thesis
    by (simp add: telnet_recv_def process_end process_flush_def)
qed

definition negotiates :: "telnet \<Rightarrow> byte \<Rightarrow> bool" where
  "negotiates t opt \<longleftrightarrow> tn_flags t AND TELNET_FLAG_PROXY = 0 \<and> wf_q t \<and> room t opt \<and>
     tn_state t = TELNET_STATE_DATA \<and> tn_events t = []"

lemma state_irrelevant [simp]:
  "wf_q (t\<lparr>tn_state := st\<rparr>) = wf_q t" "room (t\<lparr>tn_state := st\<rparr>) = room t"
  "side remote (t\<lparr>tn_state := st\<rparr>) = side remote t" "check_telopt (t\<lparr>tn_state := st\<rparr>) = check_telopt t"
  by (simp_all add: wf_q_def room_def tracked_def side_def opt_us_def opt_him_def get_rfc1143_def
      check_telopt_def fun_eq_iff)

text \<open>One side asks for an option that is off on both: request, answer and its receipt.\<close>

lemma request_step:
  assumes "negotiates a opt" "side remote a opt = Q_NO" "wf_q a" "room a opt"
  shows "side remote (telnet_negotiate (request_command remote True) opt a) opt = Q_WANTYES"
    "sent (tn_events (telnet_negotiate (request_command remote True) opt a)) = [TELNET_IAC, request_command remote True, opt]"
    "tn_state (telnet_negotiate (request_command remote True) opt a) = TELNET_STATE_DATA"
    "tn_flags (telnet_negotiate (request_command remote True) opt a) = tn_flags a"
    "wf_q (telnet_negotiate (request_command remote True) opt a)"
    "room (telnet_negotiate (request_command remote True) opt a) opt"
proof -
  have "negotiation_step remote opt (q_request True NO) a (telnet_negotiate (request_command remote True) opt a)"
    using assms by (intro telnet_negotiate_step) (simp_all add: negotiates_def)
  then show "side remote (telnet_negotiate (request_command remote True) opt a) opt = Q_WANTYES"
    "sent (tn_events (telnet_negotiate (request_command remote True) opt a)) = [TELNET_IAC, request_command remote True, opt]"
    using assms(1) by (simp_all add: negotiation_step_def reply_command negotiates_def)
  show "tn_state (telnet_negotiate (request_command remote True) opt a) = TELNET_STATE_DATA"
    "tn_flags (telnet_negotiate (request_command remote True) opt a) = tn_flags a"
    "wf_q (telnet_negotiate (request_command remote True) opt a)"
    "room (telnet_negotiate (request_command remote True) opt a) opt"
    using assms store.can_put_put [of a opt]
    by (auto simp: telnet_negotiate_def request_command_def negotiates_def send_negotiate_eh Let_def side_def
        opt_us_def opt_him_def wf_q_def [of "eh _ _"] room_def [of "eh _ _"] tracked_def [of "eh _ _"]
        wf_q_def [symmetric] tracked_def [symmetric] room_def [symmetric] split: if_splits)
qed

lemma q_code_NO: "Q_NO = q_code NO" and q_code_WANTYES: "Q_WANTYES = q_code WANTYES"
  by simp_all

lemma side_state [simp]: "side remote (negotiate opt t\<lparr>tn_state := st\<rparr>) = side remote (negotiate opt t)"
  by (rule state_irrelevant)

lemma option_handshake_step:
  assumes a: "negotiates a opt" "side remote a opt = Q_NO"
    and b: "negotiates b opt" "side (\<not> remote) b opt = Q_NO"
    and a1: "a1 = telnet_negotiate (request_command remote True) opt a"
  shows "\<exists>a' b'. telnet_recv (sent (tn_events a1)) b = Some b' \<and> telnet_recv (sent (tn_events b')) a1 = Some a' \<and>
    sent (tn_events a') = sent (tn_events a1) \<and> side remote a' opt = side (\<not> remote) b' opt \<and>
    side (\<not> remote) b' opt = (if check_telopt b opt remote then Q_YES else Q_NO)"
proof -
  have "wf_q a" "room a opt" "wf_q b" "room b opt"
    using a(1) b(1) by (simp_all add: negotiates_def)
  note r = request_step [OF a \<open>wf_q a\<close> \<open>room a opt\<close>, folded a1]
  let ?agree = "check_telopt b opt remote"
  let ?b = "b\<lparr>tn_state := command_state (\<not> remote) True\<rparr>"
  let ?b' = "(negotiate opt ?b)\<lparr>tn_state := TELNET_STATE_DATA\<rparr>"
  have "negotiation_step (\<not> remote) opt (if True then q_enable (check_telopt ?b opt (\<not> \<not> remote)) NO else q_disable NO) ?b (negotiate opt ?b)"
    using b \<open>wf_q b\<close> \<open>room b opt\<close> by (intro negotiate_step) (simp_all add: negotiates_def)
  then have b': "side (\<not> remote) ?b' opt = (if ?agree then Q_YES else Q_NO)"
    "sent (tn_events ?b') = [TELNET_IAC, request_command (\<not> remote) ?agree, opt]"
    using b(1) by (auto simp: negotiation_step_def negotiates_def reply_command split: if_splits)
  have recv_b: "telnet_recv (sent (tn_events a1)) b = Some ?b'"
    using b(1) r(2) recv_command [of b remote True opt] by (simp add: negotiates_def)
  let ?a = "a1\<lparr>tn_state := command_state remote ?agree\<rparr>"
  let ?a' = "(negotiate opt ?a)\<lparr>tn_state := TELNET_STATE_DATA\<rparr>"
  have recv_a: "telnet_recv (sent (tn_events ?b')) a1 = Some ?a'"
    using r(3) b'(2) recv_command [of a1 "\<not> remote" ?agree opt] by simp
  have "negotiation_step remote opt (if ?agree then q_enable (check_telopt ?a opt (\<not> remote)) WANTYES else q_disable WANTYES)
      ?a (negotiate opt ?a)"
    using r a(1) by (intro negotiate_step) (simp_all add: negotiates_def)
  then have "side remote ?a' opt = (if ?agree then Q_YES else Q_NO)" "sent (tn_events ?a') = sent (tn_events a1)"
    by (auto simp: negotiation_step_def reply_def split: if_splits)
  with recv_a recv_b b' show ?thesis
    by metis
qed

text \<open>
  C33: two trackers agree. When one side asks for an option that is off on both, the peer's answer
  to the bytes it receives ends the exchange: no further message is sent, and both trackers then
  hold the same state for the option, enabled exactly when the peer's option table supports it.
\<close>

theorem option_handshake:
  assumes "negotiates a opt" "side remote a opt = Q_NO" "negotiates b opt" "side (\<not> remote) b opt = Q_NO"
    "a1 = telnet_negotiate (request_command remote True) opt a"
  shows "\<exists>a' b'. telnet_recv (sent (tn_events a1)) b = Some b' \<and> telnet_recv (sent (tn_events b')) a1 = Some a' \<and>
    sent (tn_events a') = sent (tn_events a1) \<and> side remote a' opt = side (\<not> remote) b' opt \<and>
    side (\<not> remote) b' opt = (if check_telopt b opt remote then Q_YES else Q_NO)"
  using assms by (rule option_handshake_step)

theorem option_handshake_witness:
  "\<exists>a' b'. telnet_recv (sent (tn_events (telnet_negotiate TELNET_WILL TELNET_TELOPT_ECHO demo_telnet))) demo_telnet = Some b' \<and>
     telnet_recv (sent (tn_events b')) (telnet_negotiate TELNET_WILL TELNET_TELOPT_ECHO demo_telnet) = Some a' \<and>
     side False a' TELNET_TELOPT_ECHO = Q_YES \<and> side True b' TELNET_TELOPT_ECHO = Q_YES"
proof -
  have n: "negotiates demo_telnet TELNET_TELOPT_ECHO"
    by (simp add: negotiates_def demo_telnet_simps demo_state wf_q_def room_def)
  have s: "side remote demo_telnet TELNET_TELOPT_ECHO = Q_NO" for remote
    by (simp add: side_def opt_us_def opt_him_def get_rfc1143_def demo_telnet_simps)
  show ?thesis
    using option_handshake [OF n s [of False] n s [of "\<not> False"] refl]
    by (auto simp: request_command_def check_telopt_def demo_telnet_simps)
qed

end
