(* ===== verification/Sip.thy ===== *)
theory Sip
  imports Events Telnet_Roundtrip
begin

text \<open>
  The SIP side of \<^verbatim>\<open>main.c\<close>: commands typed into the SIP client's TELNET console, and the handler
  of the TELNET tracker's events, which turns console output into events.
\<close>

section \<open>Sending\<close>

text \<open>
  \<open>_send\<close>: the results of \<open>send\<close> are input of the world, a positive count or a failure; at the end
  of the list everything is sent.
\<close>

fun sock_send :: "byte list \<Rightarrow> int list \<Rightarrow> byte list \<times> int list \<times> bool" where
  "sock_send buf [] = (buf, [], True)"
| "sock_send buf (rs # sends) =
     (if buf = [] then ([], rs # sends, True)
      else if rs \<le> 0 then ([], sends, False)
      else case sock_send (drop (nat rs) buf) sends of
             (sent_rest, sends', ok) \<Rightarrow> (take (nat rs) buf @ sent_rest, sends', ok))"

definition sip_send :: "byte list \<Rightarrow> unit program" where
  "sip_send buf w =
     (let (bytes, sends, ok) = sock_send buf (w_sends w); w1 = emit (SOCK_OUT bytes) (w\<lparr>w_sends := sends\<rparr>)
      in if ok then Done () w1 else Exit w1)"

text \<open>The SEND events a sending function raises, handled in order.\<close>

fun sip_sends :: "telnet_event list \<Rightarrow> unit program" where
  "sip_sends [] w = Done () w"
| "sip_sends (TELNET_EV_SEND bs # evs) w = follow (sip_send bs w) (\<lambda>_. sip_sends evs)"
| "sip_sends (_ # evs) w = sip_sends evs w"

definition telnet_out :: "(telnet \<Rightarrow> telnet) \<Rightarrow> unit program" where
  "telnet_out f w =
     (let t = f ((w_telnet w)\<lparr>tn_events := []\<rparr>)
      in sip_sends (tn_events t) (w\<lparr>w_telnet := t\<lparr>tn_events := []\<rparr>\<rparr>))"

fun telnet_input :: "string \<Rightarrow> unit program" where
  "telnet_input [] w = Done () w"
| "telnet_input (c # cs) w =
     follow (telnet_out (telnet_send (if c = CHR 0x0D \<or> c = CHR 0x0A then [CR, LF] else [byte_of_char c])) w)
       (\<lambda>_. telnet_input cs)"

definition sip_make_call :: "string \<Rightarrow> unit program" where
  "sip_make_call peer = telnet_input (snprintf 256 (''call new '' @ peer @ [CHR 0x0D, CHR 0x0A]))"

definition sip_answer_call :: "unit program" where
  "sip_answer_call = telnet_input (snprintf 256 (''call answer 200'' @ [CHR 0x0D, CHR 0x0A]))"

definition sip_hangup_call :: "unit program" where
  "sip_hangup_call = telnet_input (snprintf 256 (''hA'' @ [CHR 0x0D, CHR 0x0A]))"

definition telopts :: "telnet_telopt list" where
  "telopts =
     [\<lparr>to_telopt = uint TELNET_TELOPT_ECHO, to_us = TELNET_WONT, to_him = TELNET_DO\<rparr>,
      \<lparr>to_telopt = uint TELNET_TELOPT_TTYPE, to_us = TELNET_WILL, to_him = TELNET_DONT\<rparr>,
      \<lparr>to_telopt = uint TELNET_TELOPT_COMPRESS2, to_us = TELNET_WONT, to_him = TELNET_DO\<rparr>,
      \<lparr>to_telopt = uint TELNET_TELOPT_MSSP, to_us = TELNET_WONT, to_him = TELNET_DO\<rparr>,
      \<lparr>to_telopt = -1, to_us = 0, to_him = 0\<rparr>]"

section \<open>Console output\<close>

text \<open>
  The tokens \<open>strtok\<close> finds with a newline as delimiter, and the memory it leaves: the newline
  behind each token is overwritten by a NUL.
\<close>

function strtok_lines :: "string \<Rightarrow> string list" where
  "strtok_lines s =
     (let s1 = dropWhile (\<lambda>c. c = CHR 0x0A) s
      in if s1 = [] then []
         else takeWhile (\<lambda>c. c \<noteq> CHR 0x0A) s1 # strtok_lines (drop 1 (dropWhile (\<lambda>c. c \<noteq> CHR 0x0A) s1)))"
  by pat_completeness auto
termination
proof (relation "measure length", goal_cases)
  case (2 s s1)
  obtain c cs where c: "s1 = c # cs"
    using 2(2) by (cases s1) auto
  have "hd s1 \<noteq> CHR 0x0A"
    using hd_dropWhile [of "\<lambda>c. c = CHR 0x0A" s] 2 by simp
  then have "c \<noteq> CHR 0x0A"
    by (simp add: c)
  moreover have "length (drop 1 (dropWhile (\<lambda>c. c \<noteq> CHR 0x0A) cs)) \<le> length cs"
    using length_dropWhile_le [of "\<lambda>c. c \<noteq> CHR 0x0A" cs] by simp
  moreover have "length s1 \<le> length s"
    unfolding 2 by (rule length_dropWhile_le)
  ultimately show ?case
    using c by simp
qed simp

declare strtok_lines.simps [simp del]

fun strtok_mem :: "bool \<Rightarrow> char list \<Rightarrow> char list" where
  "strtok_mem in_token [] = []"
| "strtok_mem in_token (c # cs) =
     (if c = NUL then c # cs
      else if c = CHR 0x0A then (if in_token then NUL else c) # strtok_mem False cs
      else c # strtok_mem True cs)"

fun sip_lines :: "string list \<Rightarrow> unit program" where
  "sip_lines [] w = Done () w"
| "sip_lines (l # ls) w = follow (sip_event_queue l w) (\<lambda>_. sip_lines ls)"

text \<open>
  \<open>sip_event\<close>. For a DATA event \<open>mem\<close> is the memory from the event's buffer pointer to the end of
  the array it points into: the handler looks for the end of the string itself and does not use
  the event's size. The result is that memory afterwards.
\<close>

definition sip_event :: "telnet_event \<Rightarrow> char list \<Rightarrow> (char list) program" where
  "sip_event ev mem w =
     (case ev of
        TELNET_EV_DATA bs n \<Rightarrow>
          if NUL \<notin> set mem then Undefined
          else follow (sip_lines (strtok_lines (c_str mem)) w) (\<lambda>_ w1. Done (strtok_mem False mem) w1)
      | TELNET_EV_SEND bs \<Rightarrow> follow (sip_send bs w) (\<lambda>_ w1. Done mem w1)
      | TELNET_EV_WILL telopt \<Rightarrow>
          Done mem (if telopt = TELNET_TELOPT_ECHO then w\<lparr>w_do_echo := False\<rparr> else w)
      | TELNET_EV_WONT telopt \<Rightarrow>
          Done mem (if telopt = TELNET_TELOPT_ECHO then w\<lparr>w_do_echo := True\<rparr> else w)
      | TELNET_EV_TTYPE cmd name \<Rightarrow>
          if cmd = TELNET_TTYPE_SEND
          then (case telnet_ttype_is (w_term w) ((w_telnet w)\<lparr>tn_events := []\<rparr>) of
                  None \<Rightarrow> Undefined
                | Some t \<Rightarrow> follow (sip_sends (tn_events t) w) (\<lambda>_ w1. Done mem w1))
          else Done mem w
      | TELNET_EV_ERROR func msg \<Rightarrow> Exit w
      | _ \<Rightarrow> Done mem w)"

section \<open>Receiving\<close>

text \<open>
  \<open>telnet_recv\<close> with \<open>sip_event\<close> as its handler, on the memory \<open>buffer\<close> that the handler changes
  while the tracker still reads it: the turns of the tracker's loop, the events of each turn handled
  before the next. \<open>len\<close> bytes at \<open>base\<close> are received; when a subnegotiation handler returns
  non-zero, the bytes behind it start a call of their own. The data of an escaped IAC is the local
  variable \<open>byte\<close>, an array of one.
\<close>

fun sip_dispatch :: "char option \<Rightarrow> nat \<Rightarrow> telnet_event list \<Rightarrow> char list \<Rightarrow> (char list) program" where
  "sip_dispatch own p [] buffer w = Done buffer w"
| "sip_dispatch own p (ev # evs) buffer w =
     (case own of
        Some byte \<Rightarrow> follow (sip_event ev [byte] w) (\<lambda>_. sip_dispatch own p evs buffer)
      | None \<Rightarrow> follow (sip_event ev (drop p buffer) w) (\<lambda>m. sip_dispatch own p evs (take p buffer @ m)))"

function telnet_recv_handled :: "nat \<Rightarrow> nat \<Rightarrow> nat \<Rightarrow> nat \<Rightarrow> char list \<Rightarrow> (char list) program" where
  "telnet_recv_handled base len i start buffer w =
     (let bytes = map byte_of_char (take len (drop base buffer)); t = (w_telnet w)\<lparr>tn_events := []\<rparr>
      in if i < len
         then case process_step bytes i start (bytes ! i) t of
                None \<Rightarrow> Undefined
              | Some res \<Rightarrow>
                  let t' = step_tracker res
                  in follow (sip_dispatch (if tn_state t = TELNET_STATE_IAC then Some (buffer ! (base + i)) else None)
                         (base + start) (tn_events t') buffer (w\<lparr>w_telnet := t'\<lparr>tn_events := []\<rparr>\<rparr>))
                       (\<lambda>buffer' w'.
                          case res of
                            Inl (start', _) \<Rightarrow> telnet_recv_handled base len (i + 1) start' buffer' w'
                          | Inr _ \<Rightarrow> telnet_recv_handled (base + i + 1) (len - (i + 1)) 0 0 buffer' w')
         else sip_dispatch None (base + start) (tn_events (process_flush bytes i start t)) buffer
                (w\<lparr>w_telnet := t\<rparr>))"
  by pat_completeness auto
termination
  by (relation "measure (\<lambda>(base, len, i, start, buffer, w). len - i)") auto

declare telnet_recv_handled.simps [simp del]

section \<open>Commands on the wire\<close>

text \<open>What one character of a command becomes.\<close>

definition wire :: "char \<Rightarrow> byte list" where
  "wire c = (if c = CHR 0x0D \<or> c = CHR 0x0A then [CR, LF] else escape [byte_of_char c])"

abbreviation idle_tracker :: "world \<Rightarrow> bool" where
  "idle_tracker w \<equiv> tn_events (w_telnet w) = []"

lemma w_telnet_self [simp]: "idle_tracker w \<Longrightarrow> w\<lparr>w_telnet := (w_telnet w)\<lparr>tn_events := []\<rparr>\<rparr> = w"
  by (cases w; cases "w_telnet w") simp

lemma sock_send_all [simp]: "sock_send buf [] = (buf, [], True)"
  by simp

lemma telnet_send_one: "telnet_send [b] t = telnet_send_raw (escape [b]) t"
  by (auto simp: telnet_send_def telnet_send_loop.simps telnet_iac_def)

lemma telnet_send_crlf: "telnet_send [CR, LF] t = telnet_send_raw [CR, LF] t"
  by (simp add: telnet_send_def telnet_send_loop.simps)

lemma telnet_out_char:
  assumes "w_sends w = []" "idle_tracker w"
  shows "telnet_out (telnet_send (if c = CHR 0x0D \<or> c = CHR 0x0A then [CR, LF] else [byte_of_char c])) w =
    Done () (emit (SOCK_OUT (wire c)) w)"
proof -
  let ?t = "telnet_send (if c = CHR 0x0D \<or> c = CHR 0x0A then [CR, LF] else [byte_of_char c]) (w_telnet w)"
  have e: "(w_telnet w)\<lparr>tn_events := []\<rparr> = w_telnet w"
    using assms(2) by (cases "w_telnet w") simp
  have t: "?t = eh (TELNET_EV_SEND (wire c)) (w_telnet w)"
    by (simp add: wire_def telnet_send_crlf telnet_send_one telnet_send_raw_def del: escape_simps)
  have "tn_events ?t = [TELNET_EV_SEND (wire c)]" "?t\<lparr>tn_events := []\<rparr> = w_telnet w"
    using assms(2) e by (simp_all add: t eh_def)
  moreover have "w\<lparr>w_telnet := w_telnet w\<rparr> = w" "w\<lparr>w_sends := []\<rparr> = w"
    using assms(1) by (cases w; simp)+
  ultimately show ?thesis
    using assms(1) unfolding telnet_out_def e Let_def by (simp add: sip_send_def)
qed

lemma telnet_input_sends:
  assumes "w_sends w = []" "idle_tracker w"
  shows "telnet_input cs w = Done () (w\<lparr>w_out := w_out w @ map (\<lambda>c. SOCK_OUT (wire c)) cs\<rparr>)"
  using assms
proof (induction cs arbitrary: w)
  case (Cons c cs)
  then show ?case
    by (simp add: telnet_out_char) (simp add: emit_def)?
qed simp

section \<open>Lines of a chunk\<close>

lemma strtok_lines_Nil [simp]: "strtok_lines [] = []"
  by (simp add: strtok_lines.simps)

lemma strtok_lines_LF [simp]: "strtok_lines (CHR 0x0A # s) = strtok_lines s"
  by (simp add: strtok_lines.simps [of "CHR 0x0A # s"] strtok_lines.simps [of s])

lemma strtok_lines_line:
  assumes "CHR 0x0A \<notin> set l" "l \<noteq> []"
  shows "strtok_lines (l @ CHR 0x0A # s) = l # strtok_lines s"
proof -
  obtain c l' where l: "l = c # l'" "c \<noteq> CHR 0x0A" "CHR 0x0A \<notin> set l'"
    using assms by (cases l) auto
  have "takeWhile (\<lambda>c. c \<noteq> CHR 0x0A) (l @ CHR 0x0A # s) = l" "dropWhile (\<lambda>c. c \<noteq> CHR 0x0A) (l @ CHR 0x0A # s) = CHR 0x0A # s"
    using assms(1) by (induction l) auto
  with l show ?thesis
    by (subst strtok_lines.simps) simp
qed

lemma strtok_lines_last:
  assumes "CHR 0x0A \<notin> set l" "l \<noteq> []"
  shows "strtok_lines l = [l]"
proof -
  obtain c l' where l: "l = c # l'" "c \<noteq> CHR 0x0A" "CHR 0x0A \<notin> set l'"
    using assms by (cases l) auto
  have d: "takeWhile (\<lambda>c. c \<noteq> CHR 0x0A) l' = l'" "dropWhile (\<lambda>c. c \<noteq> CHR 0x0A) l' = []"
    using l(3) by (induction l') auto
  show ?thesis
    by (subst strtok_lines.simps) (simp add: l d)
qed

lemma strtok_mem_line:
  assumes "CHR 0x0A \<notin> set l" "NUL \<notin> set l" "l \<noteq> []"
  shows "strtok_mem False (l @ CHR 0x0A # m) = l @ NUL # strtok_mem False m"
proof -
  have "strtok_mem True (l @ CHR 0x0A # m) = l @ NUL # strtok_mem False m" if "CHR 0x0A \<notin> set l" "NUL \<notin> set l" for l
    using that by (induction l) auto
  with assms show ?thesis
    by (cases l) auto
qed

lemma process_step_data:
  assumes "tn_state t = TELNET_STATE_DATA" "b \<noteq> TELNET_IAC"
  shows "process_step bytes i start b t = Some (Inl (start, t))"
  using assms by (simp add: process_step_def process_DATA_def)

text \<open>While no IAC comes, nothing happens; at the end of the chunk one DATA event does.\<close>

lemma recv_plain:
  assumes "tn_state (w_telnet w) = TELNET_STATE_DATA" "idle_tracker w" "len \<le> length buffer"
    "\<forall>c \<in> set (take len buffer). byte_of_char c \<noteq> TELNET_IAC" "i \<le> len"
  shows "telnet_recv_handled 0 len i 0 buffer w = telnet_recv_handled 0 len len 0 buffer w"
  using assms(5)
proof (induction "len - i" arbitrary: i)
  case (Suc k)
  have e: "(w_telnet w)\<lparr>tn_events := []\<rparr> = w_telnet w"
    using assms(2) by (cases "w_telnet w") simp
  have "i < len"
    using Suc.hyps(2) by simp
  then have b: "map byte_of_char (take len buffer) ! i \<noteq> TELNET_IAC"
    using assms(3,4) nth_mem [of i "take len buffer"] by auto
  have "telnet_recv_handled 0 len i 0 buffer w = telnet_recv_handled 0 len (i + 1) 0 buffer w"
    using \<open>i < len\<close> process_step_data [OF assms(1) b] assms(2)
    by (subst telnet_recv_handled.simps) (simp add: e)
  with Suc.hyps(1) [of "i + 1"] Suc.hyps(2) \<open>i < len\<close> show ?case
    by simp
qed simp

lemma recv_plain_event:
  assumes "tn_state (w_telnet w) = TELNET_STATE_DATA" "idle_tracker w" "len \<le> length buffer" "0 < len"
    "\<forall>c \<in> set (take len buffer). byte_of_char c \<noteq> TELNET_IAC"
  shows "telnet_recv_handled 0 len 0 0 buffer w =
    (if NUL \<notin> set buffer then Undefined
     else follow (sip_lines (strtok_lines (c_str buffer)) w) (\<lambda>_ w1. Done (strtok_mem False buffer) w1))"
proof -
  have e: "(w_telnet w)\<lparr>tn_events := []\<rparr> = w_telnet w"
    using assms(2) by (cases "w_telnet w") simp
  have "w\<lparr>w_telnet := w_telnet w\<rparr> = w"
    by (cases w) simp
  then have "telnet_recv_handled 0 len len 0 buffer w =
      sip_dispatch None 0 (tn_events (process_flush (map byte_of_char (take len buffer)) len 0 (w_telnet w))) buffer w"
    by (subst telnet_recv_handled.simps) (simp add: e)
  moreover have "tn_events (process_flush (map byte_of_char (take len buffer)) len 0 (w_telnet w)) =
      [data_event (map byte_of_char (take len buffer)) 0 len]"
    using assms(1,2,4) by (simp add: process_flush_def eh_def)
  moreover have "follow (follow r f) g = follow r (\<lambda>a w. follow (f a w) g)"
    for r :: "(unit, world) result" and f :: "unit \<Rightarrow> world \<Rightarrow> (char list, world) result" and g :: "char list \<Rightarrow> char list program"
    by (cases r) auto
  ultimately show ?thesis
    using recv_plain [OF assms(1-3,5), of 0] by (simp add: data_event_def sip_event_def Let_def)
qed

text \<open>The events of the lines of a chunk, in order; one is lost when there is no memory for it.\<close>

definition line_events :: "string list \<Rightarrow> evt list" where
  "line_events ls = map (\<lambda>l. \<lparr>event = first_row l sip_events, val = snprintf VAL_SIZE l\<rparr>)
     (filter (\<lambda>l. first_row l sip_events \<noteq> EVT_NONE) ls)"

definition queued :: "evt list \<Rightarrow> (evt option \<times> int) list" where
  "queued es = map (\<lambda>e. (Some e, event_code (event e))) es"

text \<open>
  The failures among the allocations to come. Their number falls by one with each event that is lost, and only then.
\<close>

definition failures :: "allocs \<Rightarrow> nat" where
  "failures bs = count_list bs False"

lemma failures_try: "failures bs = (if fst (try_alloc bs) then 0 else 1) + failures (snd (try_alloc bs))"
  by (cases bs) (simp_all add: failures_def)

lemma failures_none: "failures bs = 0 \<longleftrightarrow> False \<notin> set bs"
  by (simp add: failures_def count_list_0_iff)

lemma queue_add_failures:
  "queue_add q d ty = Some (r, q') \<Longrightarrow> failures (q_allocs q) = (if r = 0 then 0 else 1) + failures (q_allocs q')"
  by (auto simp: queue_add_def get_msglist_def queue_link_def ENOMEM_def Let_def failures_try [of "q_allocs q"]
      split: option.splits prod.splits if_splits bind_splits)

lemma events_add_queues:
  assumes "wf_queue (w_events w)"
  obtains q es where "events_add e w = Done () (w\<lparr>w_events := q\<rparr>)" "wf_queue q"
    "contents q = contents (w_events w) @ queued es" "es = [e] \<or> es = []" "Suc (failures (q_allocs q)) = length es + failures (q_allocs (w_events w))"
proof -
  obtain r q where q: "queue_add (w_events w) e (event_code (event e)) = Some (r, q)" "wf_queue q"
    "contents q = (if r = 0 then contents (w_events w) @ [(Some e, event_code (event e))] else contents (w_events w))"
    using eq.add_law [OF assms] by blast
  then show ?thesis
    using queue_add_failures [OF q(1)]
    by (intro that [of q "if r = 0 then [e] else []"]) (auto simp: events_add_def queued_def)
qed

lemma sip_event_queue_eq:
  "sip_event_queue l w =
     (if first_row l sip_events = EVT_NONE then Done () w
      else let w1 = w\<lparr>w_allocs := snd (try_alloc (w_allocs w))\<rparr>
           in if fst (try_alloc (w_allocs w)) then events_add \<lparr>event = first_row l sip_events, val = snprintf VAL_SIZE l\<rparr> w1
              else Done () w1)"
  by (cases "try_alloc (w_allocs w)") (simp add: sip_event_queue_def find_event_tables evt_malloc_def)

lemma world_self:
  "w\<lparr>w_events := w_events w\<rparr> = w" "w\<lparr>w_events := w_events w, w_allocs := w_allocs w\<rparr> = w"
  by (cases w; simp)+

lemma sip_lines_queue:
  assumes "wf_queue (w_events w)"
  shows "\<exists>q al es. sip_lines ls w = Done () (w\<lparr>w_events := q, w_allocs := al\<rparr>) \<and> wf_queue q \<and>
    contents q = contents (w_events w) @ queued es \<and> subseq es (line_events ls) \<and>
    length (line_events ls) + (failures al + failures (q_allocs q)) = length es + (failures (w_allocs w) + failures (q_allocs (w_events w)))"
  using assms
proof (induction ls arbitrary: w)
  case Nil
  show ?case
    using Nil by (intro exI [of _ "w_events w"] exI [of _ "w_allocs w"] exI [of _ "[]"]) (simp add: queued_def line_events_def world_self)
next
  case (Cons l ls)
  let ?e = "\<lparr>event = first_row l sip_events, val = snprintf VAL_SIZE l\<rparr>"
  obtain q al es where 1: "sip_event_queue l w = Done () (w\<lparr>w_events := q, w_allocs := al\<rparr>)" "wf_queue q"
    "contents q = contents (w_events w) @ queued es" "subseq es (line_events [l])"
    "length (line_events [l]) + (failures al + failures (q_allocs q)) = length es + (failures (w_allocs w) + failures (q_allocs (w_events w)))"
  proof (cases "first_row l sip_events = EVT_NONE \<or> \<not> fst (try_alloc (w_allocs w))")
    case True
    show ?thesis
    proof (rule that)
      show "sip_event_queue l w = Done () (w\<lparr>w_events := w_events w,
          w_allocs := if first_row l sip_events = EVT_NONE then w_allocs w else snd (try_alloc (w_allocs w))\<rparr>)"
        using True by (auto simp: sip_event_queue_eq world_self)
      show "contents (w_events w) = contents (w_events w) @ queued []"
        by (simp add: queued_def)
    qed (use Cons.prems True failures_try [of "w_allocs w"] in \<open>auto simp: line_events_def\<close>)
  next
    case False
    obtain q es where "events_add ?e (w\<lparr>w_allocs := snd (try_alloc (w_allocs w))\<rparr>) =
        Done () (w\<lparr>w_allocs := snd (try_alloc (w_allocs w)), w_events := q\<rparr>)" "wf_queue q"
      "contents q = contents (w_events w) @ queued es" "es = [?e] \<or> es = []" "Suc (failures (q_allocs q)) = length es + failures (q_allocs (w_events w))"
      using events_add_queues [of "w\<lparr>w_allocs := snd (try_alloc (w_allocs w))\<rparr>" ?e] Cons.prems by auto
    with False show ?thesis
      using that [where q = q and es = es and al = "snd (try_alloc (w_allocs w))"] failures_try [of "w_allocs w"]
      by (auto simp: sip_event_queue_eq line_events_def)
  qed
  obtain q' al' es' where 2: "sip_lines ls (w\<lparr>w_events := q, w_allocs := al\<rparr>) = Done () (w\<lparr>w_events := q', w_allocs := al'\<rparr>)"
    "wf_queue q'" "contents q' = contents q @ queued es'" "subseq es' (line_events ls)"
    "length (line_events ls) + (failures al' + failures (q_allocs q')) = length es' + (failures al + failures (q_allocs q))"
    using Cons.IH [of "w\<lparr>w_events := q, w_allocs := al\<rparr>"] 1(2) by auto
  moreover have "line_events (l # ls) = line_events [l] @ line_events ls"
    by (simp add: line_events_def)
  ultimately show ?case
    using 1 list_emb_append_mono [OF 1(4) 2(4)] by (intro exI [of _ q'] exI [of _ al'] exI [of _ "es @ es'"]) (simp add: queued_def)
qed

section \<open>Properties\<close>

text \<open>
  C28: commands typed into the SIP client. When the socket takes everything, each command is sent
  completely, character by character, IAC doubled and every carriage return and every line feed sent
  as CR LF, so that each command is followed by an empty one; nothing else changes. A peer address
  of 246 characters or more leaves no room for the line end: the command is cut and never entered.
\<close>

theorem sip_commands_sent:
  assumes "w_sends w = []" "tn_events (w_telnet w) = []"
  shows "\<exists>new. sip_make_call peer w = Done () (w\<lparr>w_out := w_out w @ map SOCK_OUT (map wire new)\<rparr>) \<and>
      (length peer \<le> 244 \<longrightarrow> new = ''call new '' @ peer @ [CHR 0x0D, CHR 0x0A]) \<and>
      (246 \<le> length peer \<longrightarrow> new = ''call new '' @ take 246 peer) \<and>
      sip_answer_call w = Done () (w\<lparr>w_out := w_out w @ map SOCK_OUT (map wire (''call answer 200'' @ [CHR 0x0D, CHR 0x0A]))\<rparr>) \<and>
      sip_hangup_call w = Done () (w\<lparr>w_out := w_out w @ map SOCK_OUT (map wire (''hA'' @ [CHR 0x0D, CHR 0x0A]))\<rparr>)"
  by (intro exI [of _ "snprintf 256 (''call new '' @ peer @ [CHR 0x0D, CHR 0x0A])"])
    (auto simp: sip_make_call_def sip_answer_call_def sip_hangup_call_def telnet_input_sends [OF assms] snprintf_def comp_def
      split: nat_diff_split)

theorem sip_commands_sent_witness:
  "sip_hangup_call demo_world =
     Done () (demo_world\<lparr>w_out := [SOCK_OUT [104], SOCK_OUT [65], SOCK_OUT [13, 10], SOCK_OUT [13, 10]]\<rparr>)"
proof -
  have "map wire (''hA'' @ [CHR 0x0D, CHR 0x0A]) = [[104], [65], [13, 10], [13, 10]]"
    by (simp add: wire_def byte_of_char_def)
  moreover have "w_sends demo_world = []" "tn_events (w_telnet demo_world) = []" "w_out demo_world = []"
    by (simp_all add: demo_world_def demo_telnet_simps)
  ultimately show ?thesis
    using sip_commands_sent [of demo_world "[]"] by auto
qed

text \<open>
  C27: console output becomes events. A chunk without IAC bytes is handed to the handler once, which
  splits the receive buffer, up to its first NUL, into lines and queues, in their order, the event
  of each line that has one, cut to 1023 characters. Each event that is lost is lost to a failed allocation of its own, so without
  failures all of them are queued. A full buffer without a NUL is read past its end.
\<close>

theorem sip_chunk_events:
  assumes "tn_state (w_telnet w) = TELNET_STATE_DATA" "tn_events (w_telnet w) = []" "0 < length chunk"
    "length chunk \<le> length old" "\<forall>c \<in> set chunk. byte_of_char c \<noteq> TELNET_IAC" "wf_queue (w_events w)"
  shows "let buffer = chunk @ drop (length chunk) old
    in if NUL \<in> set buffer
       then \<exists>q al es. telnet_recv_handled 0 (length chunk) 0 0 buffer w =
              Done (strtok_mem False buffer) (w\<lparr>w_events := q, w_allocs := al\<rparr>) \<and> wf_queue q \<and>
              contents q = contents (w_events w) @ queued es \<and> subseq es (line_events (strtok_lines (c_str buffer))) \<and>
              length (line_events (strtok_lines (c_str buffer))) + (failures al + failures (q_allocs q)) =
                length es + (failures (w_allocs w) + failures (q_allocs (w_events w))) \<and>
              (False \<notin> set (w_allocs w) \<union> set (q_allocs (w_events w)) \<longrightarrow> es = line_events (strtok_lines (c_str buffer)))
       else telnet_recv_handled 0 (length chunk) 0 0 buffer w = Undefined"
proof -
  define buffer where "buffer = chunk @ drop (length chunk) old"
  have r: "telnet_recv_handled 0 (length chunk) 0 0 buffer w =
    (if NUL \<notin> set buffer then Undefined
     else follow (sip_lines (strtok_lines (c_str buffer)) w) (\<lambda>_ w1. Done (strtok_mem False buffer) w1))"
    using assms by (intro recv_plain_event) (simp_all add: buffer_def)
  obtain q al es where "sip_lines (strtok_lines (c_str buffer)) w = Done () (w\<lparr>w_events := q, w_allocs := al\<rparr>)" "wf_queue q"
    "contents q = contents (w_events w) @ queued es" "subseq es (line_events (strtok_lines (c_str buffer)))"
    "length (line_events (strtok_lines (c_str buffer))) + (failures al + failures (q_allocs q)) =
       length es + (failures (w_allocs w) + failures (q_allocs (w_events w)))"
    using sip_lines_queue [OF assms(6)] by blast
  moreover from this(4,5) have "es = line_events (strtok_lines (c_str buffer))" if "False \<notin> set (w_allocs w) \<union> set (q_allocs (w_events w))"
    using that failures_none [of "w_allocs w"] failures_none [of "q_allocs (w_events w)"] list_emb_length [OF \<open>subseq es _\<close>]
    by (intro subseq_same_length) auto
  ultimately show ?thesis
    using r unfolding Let_def buffer_def [symmetric] by (auto intro!: exI)
qed

definition demo_chunk :: string where
  "demo_chunk = ''is DISCONNECTED'' @ [CHR 0x0A]"

theorem sip_chunk_events_witness:
  "\<exists>q al. telnet_recv_handled 0 16 0 0 (demo_chunk @ replicate 4 NUL) demo_world =
     Done (strtok_mem False (demo_chunk @ replicate 4 NUL)) (demo_world\<lparr>w_events := q, w_allocs := al\<rparr>) \<and>
     contents q = [(Some \<lparr>event = EVT_SIP_DISCONNCTD, val = ''is DISCONNECTED''\<rparr>, event_code EVT_SIP_DISCONNCTD)]"
proof -
  have "strtok_lines (c_str (demo_chunk @ replicate 4 NUL)) = [''is DISCONNECTED'']"
    using strtok_lines_line [of "''is DISCONNECTED''" "[]"] by (simp add: demo_chunk_def numeral_eq_Suc)
  moreover have "\<forall>c \<in> set demo_chunk. byte_of_char c \<noteq> TELNET_IAC" "length demo_chunk = 16"
    by (simp_all add: demo_chunk_def byte_of_char_def)
  moreover have "drop 16 (replicate 20 NUL) = replicate 4 NUL" "NUL \<in> set (demo_chunk @ replicate 4 NUL)"
    by simp_all
  moreover have "line_events [''is DISCONNECTED''] = [\<lparr>event = EVT_SIP_DISCONNCTD, val = ''is DISCONNECTED''\<rparr>]"
    by code_simp
  moreover have "contents (w_events demo_world) = []" "False \<notin> set (w_allocs demo_world) \<union> set (q_allocs (w_events demo_world))"
    by code_simp+
  ultimately show ?thesis
    using sip_chunk_events [of demo_world demo_chunk "replicate 20 NUL"]
    by (auto simp: demo_world_def demo_telnet_simps demo_state Let_def queued_def)
qed

text \<open>
  Old console output comes back. The handler ignores the size of the data event and reads up to
  the next NUL. After a line \<open>l\<close> was received, a shorter chunk \<open>p\<close> that does not end in a newline
  is read together with the rest of \<open>l\<close> that is still in the buffer, and the event of that text is
  queued although the client never sent it.
\<close>

theorem sip_stale_text:
  assumes "tn_state (w_telnet w) = TELNET_STATE_DATA" "tn_events (w_telnet w) = []" "p \<noteq> []" "length p < length l"
    "set (p @ l) \<inter> {NUL, CHR 0x0A} = {}" "\<forall>c \<in> set p. byte_of_char c \<noteq> TELNET_IAC"
  shows "let left = strtok_mem False (l @ CHR 0x0A # tail); buffer = p @ drop (length p) left
    in \<exists>left'. telnet_recv_handled 0 (length p) 0 0 buffer w =
         follow (sip_event_queue (p @ drop (length p) l) w) (\<lambda>_ w1. Done left' w1)"
proof -
  define buffer where "buffer = p @ drop (length p) (strtok_mem False (l @ CHR 0x0A # tail))"
  have l: "l \<noteq> []" "CHR 0x0A \<notin> set l" "NUL \<notin> set l" "CHR 0x0A \<notin> set (p @ drop (length p) l)" "NUL \<notin> set (p @ drop (length p) l)"
    using assms(3-5) by (auto dest: in_set_dropD)
  then have b: "buffer = (p @ drop (length p) l) @ NUL # strtok_mem False tail"
    using assms(4) strtok_mem_line [of l tail] by (simp add: buffer_def)
  then have "c_str buffer = p @ drop (length p) l" "NUL \<in> set buffer"
    using l(5) by (simp_all add: c_str_append)
  moreover have "strtok_lines (p @ drop (length p) l) = [p @ drop (length p) l]"
    using assms(3) l(4) by (intro strtok_lines_last) auto
  moreover have "take (length p) buffer = p" "length p \<le> length buffer" "0 < length p"
    using assms(3) by (simp_all add: buffer_def)
  moreover have "follow (follow r (\<lambda>_. Done ())) g = follow r g"
    for r :: "(unit, world) result" and g :: "unit \<Rightarrow> char list program"
    by (cases r) auto
  moreover have "sip_lines [] = Done ()"
    by (rule ext) simp
  ultimately have "telnet_recv_handled 0 (length p) 0 0 buffer w =
      follow (sip_event_queue (p @ drop (length p) l) w) (\<lambda>_ w1. Done (strtok_mem False buffer) w1)"
    using recv_plain_event [of w "length p" buffer] assms(1,2,6) by simp
  then show ?thesis
    unfolding Let_def buffer_def [symmetric] by blast
qed

theorem sip_stale_text_witness:
  "\<exists>left'. telnet_recv_handled 0 (length ''>>>'') 0 0 (''>>>'' @ '' is DISCONNECTED'' @ NUL # [NUL]) demo_world =
     follow (sip_event_queue ''>>> is DISCONNECTED'' demo_world) (\<lambda>_ w1. Done left' w1)"
  using sip_stale_text [of demo_world "''>>>''" "''#1: is DISCONNECTED''" "[NUL]"]
  by (simp add: demo_world_def demo_telnet_simps demo_state byte_of_char_def)

text \<open>
  Three inputs from the SIP client are undefined behaviour: a request for the terminal type
  when \<open>TERM\<close> is not set, an escaped IAC in the data, whose event points to a single character and
  is searched for a NUL, and a chunk that leaves no NUL in the receive buffer.
\<close>

theorem sip_input_undefined:
  shows "(w_term w = None \<longrightarrow> sip_event (TELNET_EV_TTYPE TELNET_TTYPE_SEND name) mem w = Undefined) \<and>
    (tn_state (w_telnet w) = TELNET_STATE_IAC \<and> byte_of_char (buffer ! 0) = TELNET_IAC \<and> 0 < len \<and> len \<le> length buffer \<longrightarrow>
       telnet_recv_handled 0 len 0 0 buffer w = Undefined) \<and>
    (NUL \<notin> set mem \<longrightarrow> sip_event (TELNET_EV_DATA bs n) mem w = Undefined)"
proof -
  have "telnet_recv_handled 0 len 0 0 buffer w = Undefined"
    if iac: "tn_state (w_telnet w) = TELNET_STATE_IAC" "byte_of_char (buffer ! 0) = TELNET_IAC" "0 < len" "len \<le> length buffer"
  proof -
    have "byte_of_char NUL \<noteq> TELNET_IAC"
      by (simp add: byte_of_char_def)
    then have "buffer ! 0 \<noteq> NUL"
      using iac(2) by metis
    with iac show ?thesis
      by (subst telnet_recv_handled.simps)
        (simp add: process_step_def process_IAC_def eh_def sip_event_def Let_def)
  qed
  then show ?thesis
    by (auto simp: sip_event_def telnet_ttype_is_def)
qed

theorem sip_input_undefined_witness:
  "sip_event (TELNET_EV_TTYPE TELNET_TTYPE_SEND None) [] (demo_world\<lparr>w_term := None\<rparr>) = Undefined"
  using sip_input_undefined [where w = "demo_world\<lparr>w_term := None\<rparr>"] by simp

end
