(* ===== verification/CallControl.thy ===== *)
theory CallControl
  imports Modem Mqtt Sip
begin

text \<open>
  The call state machine of \<^verbatim>\<open>main.c\<close>: one handler per state, the table of states, and \<open>state\<close>, which
  dispatches an event. The specification is a machine with four kinds of call states, and the
  handlers refine it.
\<close>

section \<open>The handlers\<close>

abbreviation with_ctrl :: "(siproxy_ctrl \<Rightarrow> siproxy_ctrl) \<Rightarrow> world \<Rightarrow> world" where
  "with_ctrl f w \<equiv> w\<lparr>w_ctrl := f (w_ctrl w)\<rparr>"

definition siproxy_reset :: "siproxy_ctrl \<Rightarrow> siproxy_ctrl" where
  "siproxy_reset c = c\<lparr>sip_state := STATE_INIT, modem_state := STATE_INIT, mqtt_state := STATE_INIT,
     state_of := STATE_INIT, init_dir := INIT_NONE, sim_num := replicate SIM_NUM_SIZE NUL\<rparr>"

text \<open>
  The number between the first two quotes of a caller notification, copied into an array of 256
  zeroed characters. A missing quote makes the length of the copy negative, and 256 characters or
  more leave no NUL or do not fit: both are undefined.
\<close>

definition caller_number :: "string \<Rightarrow> string option" where
  "caller_number v =
     (case strstr v [CHR 0x22] of
        None \<Rightarrow> None
      | Some s \<Rightarrow>
          (case strstr (drop (s + 1) v) [CHR 0x22] of
             None \<Rightarrow> None
           | Some n \<Rightarrow> if n < 256 then Some (take n (drop (s + 1) v)) else None))"

text \<open>
  \<open>strncpy (sim_num, val, strlen (val))\<close> into the zeroed array: no NUL is written, so a number of
  exactly 255 characters leaves the array without one.
\<close>

definition state_init :: "evt \<Rightarrow> unit program" where
  "state_init e w =
     (case event e of
        EVT_MQTT_CALLING \<Rightarrow>
          if length (val e) > SIM_NUM_SIZE then Undefined
          else Done () (with_ctrl (\<lambda>c. c\<lparr>sim_num := val e @ replicate (SIM_NUM_SIZE - length (val e)) NUL,
            mqtt_state := STATE_INCOMING\<rparr>) w)
      | EVT_MODEM_CLIP \<Rightarrow>
          if init_dir (w_ctrl w) = INIT_NONE
          then let w1 = with_ctrl (\<lambda>c. c\<lparr>init_dir := INIT_FROM_MODEM, modem_state := STATE_INCOMING\<rparr>) w
               in case caller_number (val e) of
                    None \<Rightarrow> Undefined
                  | Some phone \<Rightarrow>
                      follow (mqtt_pub TOPIC_ALICE_CALLED phone 0 w1) (\<lambda>_ w2.
                      follow (sip_make_call (sip_peer (w_ctrl w2)) w2) (\<lambda>_ w3.
                        Done () (with_ctrl (\<lambda>c. c\<lparr>sip_state := STATE_CALLING, state_of := STATE_INCOMING\<rparr>) w3)))
          else Done () w
      | EVT_SIP_INCOMING \<Rightarrow>
          if init_dir (w_ctrl w) = INIT_NONE \<and> mqtt_state (w_ctrl w) = STATE_INCOMING
          then follow (sip_answer_call (with_ctrl (\<lambda>c. c\<lparr>init_dir := INIT_FROM_SIP, sip_state := STATE_INCOMING\<rparr>) w))
                 (\<lambda>_ w1. Done () (with_ctrl (\<lambda>c. c\<lparr>state_of := STATE_INCOMING\<rparr>) w1))
          else Done () w
      | _ \<Rightarrow> Done () w)"

text \<open>The end of a call, reported by the modem or by the SIP client, in two of the states.\<close>

definition modem_ended :: "unit program" where
  "modem_ended w =
     follow (if init_dir (w_ctrl w) = INIT_FROM_SIP then sip_hangup_call w else Done () w) (\<lambda>_ w1.
     follow (if init_dir (w_ctrl w1) = INIT_FROM_MODEM then sip_hangup_call w1 else Done () w1) (\<lambda>_ w2.
       Done () (with_ctrl siproxy_reset w2)))"

definition sip_ended :: "unit program" where
  "sip_ended w =
     follow (if init_dir (w_ctrl w) = INIT_FROM_MODEM then modem_hangup_call w else Done 0 w) (\<lambda>_ w1.
     follow (if init_dir (w_ctrl w1) = INIT_FROM_SIP then modem_hangup_call w1 else Done 0 w1) (\<lambda>_ w2.
       Done () (with_ctrl siproxy_reset w2)))"

definition sip_confirmed :: "unit program" where
  "sip_confirmed w =
     follow
       (if init_dir (w_ctrl w) = INIT_FROM_SIP
        then let w1 = with_ctrl (\<lambda>c. c\<lparr>sip_state := STATE_CONFIRMED\<rparr>) w
             in if NUL \<notin> set (sim_num (w_ctrl w1)) then Undefined
                else follow (modem_make_call (c_str (sim_num (w_ctrl w1))) w1)
                       (\<lambda>_ w2. Done () (with_ctrl (\<lambda>c. c\<lparr>modem_state := STATE_CALLING\<rparr>) w2))
        else Done () w) (\<lambda>_ w3.
       if init_dir (w_ctrl w3) = INIT_FROM_MODEM
       then follow (modem_answer_call (with_ctrl (\<lambda>c. c\<lparr>sip_state := STATE_CONFIRMED\<rparr>) w3))
              (\<lambda>_ w4. Done () (with_ctrl (\<lambda>c. c\<lparr>modem_state := STATE_CONFIRMED, state_of := STATE_CONFIRMED\<rparr>) w4))
       else Done () w3)"

definition state_incoming :: "evt \<Rightarrow> unit program" where
  "state_incoming e w =
     (case event e of
        EVT_MODEM_COLP \<Rightarrow>
          if init_dir (w_ctrl w) = INIT_FROM_SIP
          then follow (mqtt_pub TOPIC_ALICE_MODEM MODEM_CALL_OK 0 (with_ctrl (\<lambda>c. c\<lparr>modem_state := STATE_CONFIRMED\<rparr>) w))
                 (\<lambda>_ w1. Done () (with_ctrl (\<lambda>c. c\<lparr>state_of := STATE_CONFIRMED\<rparr>) w1))
          else Done () w
      | EVT_MODEM_NO_CARRIER \<Rightarrow> modem_ended w
      | EVT_MODEM_NO_ANSWER \<Rightarrow> modem_ended w
      | EVT_MODEM_BUSY \<Rightarrow> modem_ended w
      | EVT_SIP_CONFIRMED \<Rightarrow> sip_confirmed w
      | EVT_SIP_DISCONNCTD \<Rightarrow> sip_ended w
      | _ \<Rightarrow> Done () w)"

definition state_confirmed :: "evt \<Rightarrow> unit program" where
  "state_confirmed e w =
     (case event e of
        EVT_MODEM_NO_CARRIER \<Rightarrow> modem_ended w
      | EVT_MODEM_NO_ANSWER \<Rightarrow> modem_ended w
      | EVT_MODEM_BUSY \<Rightarrow> modem_ended w
      | EVT_SIP_DISCONNCTD \<Rightarrow> sip_ended w
      | _ \<Rightarrow> Done () w)"

text \<open>The other handlers do nothing for any event, but for a message on the console.\<close>

definition state_calling :: "evt \<Rightarrow> unit program" where "state_calling e w = Done () w"
definition state_early :: "evt \<Rightarrow> unit program" where "state_early e w = Done () w"
definition state_connecting :: "evt \<Rightarrow> unit program" where "state_connecting e w = Done () w"
definition state_disconnctd :: "evt \<Rightarrow> unit program" where "state_disconnctd e w = Done () w"
definition state_terminated :: "evt \<Rightarrow> unit program" where "state_terminated e w = Done () w"
definition state_unknow :: "evt \<Rightarrow> unit program" where "state_unknow e w = Done () w"

section \<open>Dispatch\<close>

definition state_tbl :: "(STATE \<times> (evt \<Rightarrow> unit program)) list" where
  "state_tbl =
     [(STATE_INIT, state_init), (STATE_INCOMING, state_incoming), (STATE_CALLING, state_calling),
      (STATE_EARLY, state_early), (STATE_CONNECTING, state_connecting), (STATE_CONFIRMED, state_confirmed),
      (STATE_DISCONNCTD, state_disconnctd), (STATE_TERMINATED, state_terminated), (STATE_UNKNOW, state_unknow)]"

text \<open>\<open>(strlen (val) - 2) / 2\<close> in \<open>size_t\<close>, passed as an \<open>int\<close>.\<close>

definition tpdu_len :: "string \<Rightarrow> int" where
  "tpdu_len v = sint (ucast ((of_nat (length v) - 2 :: 64 word) div 2) :: 32 word)"

definition sms_topic :: "string \<Rightarrow> string" where
  "sms_topic uuid = snprintf 64 (TOPIC_SMS @ ''/'' @ uuid)"

fun state_loop :: "(STATE \<times> (evt \<Rightarrow> unit program)) list \<Rightarrow> evt \<Rightarrow> unit program" where
  "state_loop [] e w = Done () w"
| "state_loop ((st, func) # rows) e w =
     (if event e = EVT_MODEM_SMS
      then follow (mqtt_pub (sms_topic (w_date w)) (val e) 1 w) (\<lambda>_ w1. Done () w1)
      else if event e = EVT_MQTT_SMS
      then follow (modem_send_sms (val e) (tpdu_len (val e)) w) (\<lambda>_ w1. Done () w1)
      else follow (if state_of (w_ctrl w) = st then func e w else Done () w) (\<lambda>_. state_loop rows e))"

definition state :: "evt \<Rightarrow> unit program" where
  "state e = state_loop state_tbl e"

section \<open>One handler runs\<close>

abbreviation is_sms :: "EVENT \<Rightarrow> bool" where
  "is_sms ev \<equiv> ev = EVT_MODEM_SMS \<or> ev = EVT_MQTT_SMS"

lemmas idle_handlers = state_calling_def state_early_def state_connecting_def state_disconnctd_def
  state_terminated_def state_unknow_def

lemma mqtt_pub_frame: "mqtt_pub topic payload r w = Done rc w' \<Longrightarrow> w_ctrl w' = w_ctrl w"
  by (auto simp: mqtt_pub_def mqtt_call_def split: list.splits if_splits)

lemma sip_sends_frame: "sip_sends evs w = Done u w' \<Longrightarrow> w_ctrl w' = w_ctrl w"
proof (induction evs w rule: sip_sends.induct)
  case (2 bs evs w)
  then show ?case
    by (auto simp: sip_send_def follow_def Let_def split: prod.splits if_splits result.splits)
qed auto

lemma telnet_input_frame: "telnet_input cs w = Done u w' \<Longrightarrow> w_ctrl w' = w_ctrl w"
proof (induction cs arbitrary: w)
  case (Cons c cs)
  then obtain w1 where "telnet_out (telnet_send (if c = CHR 0x0D \<or> c = CHR 0x0A then [CR, LF] else [byte_of_char c])) w = Done () w1"
    "telnet_input cs w1 = Done u w'"
    by (auto simp: follow_def split: result.splits)
  then show ?case
    using Cons.IH [of w1] sip_sends_frame by (fastforce simp: telnet_out_def Let_def)
qed simp

lemma sip_command_frame:
  "sip_make_call peer w = Done u w' \<Longrightarrow> w_ctrl w' = w_ctrl w" "sip_answer_call w = Done u w' \<Longrightarrow> w_ctrl w' = w_ctrl w"
  "sip_hangup_call w = Done u w' \<Longrightarrow> w_ctrl w' = w_ctrl w"
  by (auto simp: sip_make_call_def sip_answer_call_def sip_hangup_call_def dest: telnet_input_frame)

lemma follow_Done: "follow r f = Done b w' \<longleftrightarrow> (\<exists>a w1. r = Done a w1 \<and> f a w1 = Done b w')"
  by (cases r) auto

lemma follow_skip: "(\<And>u w. r = Done u w \<Longrightarrow> f u w = Done u w) \<Longrightarrow> follow r f = r"
  by (cases r) auto

lemma state_init_next:
  assumes "state_init e w = Done u w'" "state_of (w_ctrl w) = STATE_INIT"
  shows "state_of (w_ctrl w') = STATE_INIT \<or>
    state_of (w_ctrl w') = STATE_INCOMING \<and> (event e = EVT_MODEM_CLIP \<or> event e = EVT_SIP_INCOMING)"
  using assms by (auto simp: state_init_def follow_Done Let_def split: EVENT.splits if_splits option.splits)

lemma modem_ended_next: "modem_ended w = Done u w' \<Longrightarrow> state_of (w_ctrl w') = STATE_INIT"
  by (auto simp: modem_ended_def follow_Done siproxy_reset_def)

lemma sip_ended_next: "sip_ended w = Done u w' \<Longrightarrow> state_of (w_ctrl w') = STATE_INIT"
  by (auto simp: sip_ended_def follow_Done siproxy_reset_def)

lemma sip_confirmed_next:
  "sip_confirmed w = Done u w' \<Longrightarrow> state_of (w_ctrl w') = state_of (w_ctrl w) \<or> state_of (w_ctrl w') = STATE_CONFIRMED"
  by (auto simp: sip_confirmed_def follow_Done Let_def modem_make_call_def modem_cmd_def modem_answer_call_def split: if_splits)

lemma state_incoming_next:
  assumes "state_incoming e w = Done u w'" "state_of (w_ctrl w) = STATE_INCOMING"
  shows "state_of (w_ctrl w') = STATE_INIT \<or> state_of (w_ctrl w') = STATE_INCOMING \<or>
    state_of (w_ctrl w') = STATE_CONFIRMED \<and> (event e = EVT_MODEM_COLP \<or> event e = EVT_SIP_CONFIRMED)"
  using assms sip_confirmed_next [of w u w']
  by (auto simp: state_incoming_def follow_Done dest!: modem_ended_next sip_ended_next split: EVENT.splits if_splits)

lemma state_confirmed_next:
  assumes "state_confirmed e w = Done u w'" "state_of (w_ctrl w) = STATE_CONFIRMED"
  shows "state_of (w_ctrl w') = STATE_INIT \<or> state_of (w_ctrl w') = STATE_CONFIRMED"
  using assms by (auto simp: state_confirmed_def dest!: modem_ended_next sip_ended_next split: EVENT.splits)

lemma state_loop_skip:
  "\<not> is_sms (event e) \<Longrightarrow> \<forall>(st, f) \<in> set rows. st = state_of (w_ctrl w) \<longrightarrow> f e w = Done () w \<Longrightarrow>
     state_loop rows e w = Done () w"
  by (induction rows) auto

lemma state_loop_row:
  "\<not> is_sms (event e) \<Longrightarrow> state_of (w_ctrl w) = st \<Longrightarrow>
     (\<And>w'. func e w = Done () w' \<Longrightarrow> \<forall>(st, f) \<in> set rows. st = state_of (w_ctrl w') \<longrightarrow> f e w' = Done () w') \<Longrightarrow>
     state_loop ((st, func) # rows) e w = func e w"
  using state_loop_skip by (auto intro!: follow_skip)

lemma state_loop_other:
  "\<not> is_sms (event e) \<Longrightarrow> state_of (w_ctrl w) \<noteq> st \<Longrightarrow> state_loop ((st, func) # rows) e w = state_loop rows e w"
  by simp

lemma state_dispatch:
  assumes "\<not> is_sms (event e)"
  shows "state e w = the (map_of state_tbl (state_of (w_ctrl w))) e w"
proof (cases "state_of (w_ctrl w)")
  case STATE_INIT
  have "state e w = state_init e w"
    unfolding state_def state_tbl_def
    by (rule state_loop_row [OF assms STATE_INIT])
      (auto dest!: state_init_next [OF _ STATE_INIT] simp: state_incoming_def idle_handlers)
  with STATE_INIT show ?thesis
    by (simp add: state_tbl_def)
next
  case STATE_INCOMING
  have "state e w = state_incoming e w"
    unfolding state_def state_tbl_def
    by (subst state_loop_other [OF assms], simp add: STATE_INCOMING, rule state_loop_row [OF assms STATE_INCOMING])
      (auto dest!: state_incoming_next [OF _ STATE_INCOMING] simp: state_confirmed_def idle_handlers)
  with STATE_INCOMING show ?thesis
    by (simp add: state_tbl_def)
next
  case STATE_CONFIRMED
  have "state_loop [(STATE_CONFIRMED, state_confirmed), (STATE_DISCONNCTD, state_disconnctd), (STATE_TERMINATED, state_terminated),
      (STATE_UNKNOW, state_unknow)] e w = state_confirmed e w"
    by (rule state_loop_row [OF assms STATE_CONFIRMED]) (auto dest!: state_confirmed_next [OF _ STATE_CONFIRMED])
  then show ?thesis
    using assms STATE_CONFIRMED by (simp add: state_def state_tbl_def)
qed (use assms in \<open>simp_all add: state_def state_tbl_def idle_handlers\<close>)

section \<open>The specification\<close>

text \<open>
  A call is idle (with the number the peer wants to call, if it has announced one), set up from the
  modem, set up from the SIP side (with the number, and whether it was dialled), or talking.
\<close>

datatype call = Idle "string option" | FromModem | FromSip string bool | Talking

datatype action = PublishCaller string | CallPeer string | AnswerPeer | Dial string | AnswerModem | PublishOk
  | HangupSip | HangupModem | PublishSms string string | SendSms string

definition is_end :: "EVENT \<Rightarrow> bool" where
  "is_end ev \<longleftrightarrow> ev = EVT_MODEM_NO_CARRIER \<or> ev = EVT_MODEM_NO_ANSWER \<or> ev = EVT_MODEM_BUSY"

fun call_step :: "string \<Rightarrow> evt \<Rightarrow> call \<Rightarrow> call \<times> action list" where
  "call_step peer e (Idle num) =
     (if event e = EVT_MQTT_CALLING then (Idle (Some (val e)), [])
      else if event e = EVT_MODEM_CLIP then (FromModem, [PublishCaller (the (caller_number (val e))), CallPeer peer])
      else if event e = EVT_SIP_INCOMING
      then (case num of None \<Rightarrow> (Idle num, []) | Some n \<Rightarrow> (FromSip n False, [AnswerPeer]))
      else (Idle num, []))"
| "call_step peer e FromModem =
     (if event e = EVT_SIP_CONFIRMED then (Talking, [AnswerModem])
      else if is_end (event e) then (Idle None, [HangupSip])
      else if event e = EVT_SIP_DISCONNCTD then (Idle None, [HangupModem])
      else (FromModem, []))"
| "call_step peer e (FromSip num dialled) =
     (if event e = EVT_SIP_CONFIRMED then (FromSip num True, [Dial num])
      else if event e = EVT_MODEM_COLP then (Talking, [PublishOk])
      else if is_end (event e) then (Idle None, [HangupSip])
      else if event e = EVT_SIP_DISCONNCTD then (Idle None, [HangupModem])
      else (FromSip num dialled, []))"
| "call_step peer e Talking =
     (if is_end (event e) then (Idle None, [HangupSip])
      else if event e = EVT_SIP_DISCONNCTD then (Idle None, [HangupModem])
      else (Talking, []))"

fun action_io :: "action \<Rightarrow> io list" where
  "action_io (PublishCaller n) = [MQTT_SEND TOPIC_ALICE_CALLED n 2 0]"
| "action_io (CallPeer peer) = map SOCK_OUT (map wire (snprintf 256 (''call new '' @ peer @ CRLF_text)))"
| "action_io AnswerPeer = map SOCK_OUT (map wire (''call answer 200'' @ CRLF_text))"
| "action_io (Dial n) = [UART_OUT (snprintf 128 (''ATD'' @ n @ '';'' @ CRLF_text))]"
| "action_io AnswerModem = [UART_OUT (''ATA'' @ CRLF_text)]"
| "action_io PublishOk = [MQTT_SEND TOPIC_ALICE_MODEM MODEM_CALL_OK 2 0]"
| "action_io HangupSip = map SOCK_OUT (map wire (''hA'' @ CRLF_text))"
| "action_io HangupModem = [UART_OUT (''ATH'' @ CRLF_text)]"
| "action_io (PublishSms topic pdu) = [MQTT_SEND topic pdu 2 1]"
| "action_io (SendSms pdu) =
     [UART_OUT (''AT+CMGS='' @ dec_of_int (tpdu_len pdu) @ [CHR 0x0D]), UART_OUT (pdu @ [CHR 0x1A])]"

text \<open>Short messages pass in either direction, whatever the state of the call.\<close>

definition event_step :: "string \<Rightarrow> string \<Rightarrow> evt \<Rightarrow> call \<Rightarrow> call \<times> action list" where
  "event_step peer date e c =
     (if event e = EVT_MODEM_SMS then (c, [PublishSms (sms_topic date) (val e)])
      else if event e = EVT_MQTT_SMS then (c, [SendSms (val e)])
      else call_step peer e c)"

definition call_of :: "siproxy_ctrl \<Rightarrow> call" where
  "call_of c =
     (case state_of c of
        STATE_INIT \<Rightarrow> Idle (if mqtt_state c = STATE_INCOMING then Some (c_str (sim_num c)) else None)
      | STATE_INCOMING \<Rightarrow>
          (if init_dir c = INIT_FROM_MODEM then FromModem else FromSip (c_str (sim_num c)) (sip_state c = STATE_CONFIRMED))
      | _ \<Rightarrow> Talking)"

text \<open>The invariant of the control structure: what its fields say about the call agrees.\<close>

definition ctrl_inv :: "siproxy_ctrl \<Rightarrow> bool" where
  "ctrl_inv c \<longleftrightarrow> length (sim_num c) = SIM_NUM_SIZE \<and>
     (case state_of c of
        STATE_INIT \<Rightarrow> init_dir c = INIT_NONE \<and> sip_state c = STATE_INIT \<and> modem_state c = STATE_INIT \<and>
          mqtt_state c \<in> {STATE_INIT, STATE_INCOMING}
      | STATE_INCOMING \<Rightarrow>
          (case init_dir c of
             INIT_FROM_MODEM \<Rightarrow> modem_state c = STATE_INCOMING \<and> sip_state c = STATE_CALLING
           | INIT_FROM_SIP \<Rightarrow> mqtt_state c = STATE_INCOMING \<and>
               (modem_state c, sip_state c) \<in> {(STATE_INIT, STATE_INCOMING), (STATE_CALLING, STATE_CONFIRMED)}
           | INIT_NONE \<Rightarrow> False)
      | STATE_CONFIRMED \<Rightarrow> init_dir c \<noteq> INIT_NONE \<and> modem_state c = STATE_CONFIRMED
      | _ \<Rightarrow> False)"

lemma ctrl_inv_initial: "ctrl_inv siproxy_initial"
  by (simp add: ctrl_inv_def siproxy_initial_def)

lemma ctrl_inv_reset: "ctrl_inv (siproxy_reset c)"
  by (simp add: ctrl_inv_def siproxy_reset_def)

lemma modem_command_frame:
  "modem_make_call n w = Done r w' \<Longrightarrow> w_ctrl w' = w_ctrl w" "modem_answer_call w = Done r w' \<Longrightarrow> w_ctrl w' = w_ctrl w"
  "modem_hangup_call w = Done r w' \<Longrightarrow> w_ctrl w' = w_ctrl w" "modem_send_sms v k w = Done r w' \<Longrightarrow> w_ctrl w' = w_ctrl w"
  by (auto simp: modem_make_call_def modem_answer_call_def modem_hangup_call_def modem_send_sms_def modem_cmd_def Let_def
      split: if_splits)

lemmas command_frames = mqtt_pub_frame sip_command_frame modem_command_frame

lemma ended_inv:
  "modem_ended w = Done u w' \<Longrightarrow> ctrl_inv (w_ctrl w')" "sip_ended w = Done u w' \<Longrightarrow> ctrl_inv (w_ctrl w')"
  by (auto simp: modem_ended_def sip_ended_def follow_Done ctrl_inv_reset)

lemma state_init_inv:
  assumes "state_init e w = Done u w'" "ctrl_inv (w_ctrl w)" "state_of (w_ctrl w) = STATE_INIT"
  shows "ctrl_inv (w_ctrl w')"
  using assms
  by (auto simp: state_init_def ctrl_inv_def follow_Done Let_def dest!: command_frames split: EVENT.splits if_splits option.splits)

lemma state_incoming_inv:
  assumes "state_incoming e w = Done u w'" "ctrl_inv (w_ctrl w)" "state_of (w_ctrl w) = STATE_INCOMING"
  shows "ctrl_inv (w_ctrl w')"
proof -
  have "ctrl_inv (w_ctrl w')" if "sip_confirmed w = Done u w'"
    using that assms(2,3)
    by (auto simp: sip_confirmed_def ctrl_inv_def follow_Done Let_def dest!: command_frames split: if_splits CALL_INIT.splits)
  then show ?thesis
    using assms
    by (auto simp: state_incoming_def follow_Done dest: ended_inv split: EVENT.splits if_splits)
      (auto simp: ctrl_inv_def dest!: command_frames split: CALL_INIT.splits)
qed

lemma state_confirmed_inv:
  assumes "state_confirmed e w = Done u w'" "ctrl_inv (w_ctrl w)"
  shows "ctrl_inv (w_ctrl w')"
  using assms by (auto simp: state_confirmed_def dest: ended_inv split: EVENT.splits)

lemma state_ctrl_inv:
  assumes "state e w = Done u w'" "ctrl_inv (w_ctrl w)"
  shows "ctrl_inv (w_ctrl w')"
proof (cases "is_sms (event e)")
  case True
  then show ?thesis
    using assms by (auto simp: state_def state_tbl_def follow_Done dest!: command_frames)
next
  case False
  have "state_of (w_ctrl w) \<in> {STATE_INIT, STATE_INCOMING, STATE_CONFIRMED}"
    using assms(2) by (auto simp: ctrl_inv_def split: STATE.splits)
  then show ?thesis
    using assms state_dispatch [OF False, of w] state_init_inv state_incoming_inv state_confirmed_inv
    by (auto simp: state_tbl_def)
qed

section \<open>The handlers refine the specification\<close>

text \<open>
  A world in which every call of the outside succeeds, an event with a text that fits, and a control
  structure whose number ends with a NUL.
\<close>

definition quiet :: "world \<Rightarrow> bool" where
  "quiet w \<longleftrightarrow> w_sends w = [] \<and> w_rcs w = [] \<and> w_writes w = [] \<and> tn_events (w_telnet w) = []"

definition proper :: "evt \<Rightarrow> bool" where
  "proper e \<longleftrightarrow> NUL \<notin> set (val e) \<and> length (val e) < VAL_SIZE \<and>
     (event e = EVT_MODEM_CLIP \<longrightarrow> caller_number (val e) \<noteq> None) \<and>
     (event e = EVT_MQTT_CALLING \<longrightarrow> length (val e) < SIM_NUM_SIZE)"

definition call_inv :: "siproxy_ctrl \<Rightarrow> bool" where
  "call_inv c \<longleftrightarrow> ctrl_inv c \<and> NUL \<in> set (sim_num c)"

lemma dec_of_nat_facts: "NUL \<notin> set (dec_of_nat n)" "n < 10 ^ k \<Longrightarrow> 0 < k \<Longrightarrow> length (dec_of_nat n) \<le> k"
proof -
  show "NUL \<notin> set (dec_of_nat n)"
  proof (induction n rule: less_induct)
    case (less n)
    have "NUL \<noteq> char_of (48 + d)" if "d < 10" for d :: nat
      using that char_of_eq_iff [of "48 + d" NUL] by (auto simp: take_bit_eq_mod dest: sym)
    from this [of n] this [of "n mod 10"] less show ?case
      by (subst dec_of_nat.simps) auto
  qed
  show "n < 10 ^ k \<Longrightarrow> 0 < k \<Longrightarrow> length (dec_of_nat n) \<le> k"
  proof (induction k arbitrary: n)
    case (Suc k)
    show ?case
    proof (cases "n < 10")
      case False
      then have "0 < k"
        using Suc.prems by (cases k) auto
      with Suc False show ?thesis
        by (subst dec_of_nat.simps) (auto simp: less_mult_imp_div_less mult.commute)
    qed (simp add: dec_of_nat.simps)
  qed simp
qed

lemma dec_of_int_facts: "NUL \<notin> set (dec_of_int i)" "\<bar>i\<bar> < 10 ^ 11 \<Longrightarrow> length (dec_of_int i) \<le> 12"
  using dec_of_nat_facts(1) dec_of_nat_facts(2) [of "nat \<bar>i\<bar>" 11] by (auto simp: dec_of_int_def nat_less_iff)

lemma tpdu_len_bound: "\<bar>tpdu_len v\<bar> < 10 ^ 11"
  using sint_greater_eq [of "ucast ((of_nat (length v) - 2 :: 64 word) div 2) :: 32 word"]
    sint_less [of "ucast ((of_nat (length v) - 2 :: 64 word) div 2) :: 32 word"]
  by (simp add: tpdu_len_def)

lemma quiet_out [simp]: "quiet (w\<lparr>w_out := x\<rparr>) = quiet w" "quiet (w\<lparr>w_ctrl := c\<rparr>) = quiet w"
  by (simp_all add: quiet_def)

lemma emit_out: "emit x w = w\<lparr>w_out := w_out w @ [x]\<rparr>"
  by (simp add: emit_def)

lemma quiet_commands:
  assumes "quiet w"
  shows "sip_make_call peer w = Done () (w\<lparr>w_out := w_out w @ action_io (CallPeer peer)\<rparr>)"
    "sip_answer_call w = Done () (w\<lparr>w_out := w_out w @ action_io AnswerPeer\<rparr>)"
    "sip_hangup_call w = Done () (w\<lparr>w_out := w_out w @ action_io HangupSip\<rparr>)"
    "mqtt_pub topic payload r w = Done 0 (w\<lparr>w_out := w_out w @ [MQTT_SEND topic payload 2 r]\<rparr>)"
    "NUL \<notin> set cmd \<Longrightarrow> modem_cmd cmd w = Done 0 (w\<lparr>w_out := w_out w @ [UART_OUT cmd]\<rparr>)"
  using assms telnet_input_sends [of w]
  by (auto simp: quiet_def sip_make_call_def sip_answer_call_def sip_hangup_call_def snprintf_def mqtt_pub_ok modem_cmd_def
      uart_puts_ok c_str_id emit_out)

lemma snprintf_no_NUL: "NUL \<notin> set s \<Longrightarrow> NUL \<notin> set (snprintf n s)"
  by (auto simp: snprintf_def dest: in_set_takeD)

lemma quiet_modem:
  assumes "quiet w"
  shows "NUL \<notin> set n \<Longrightarrow> modem_make_call n w = Done 0 (w\<lparr>w_out := w_out w @ action_io (Dial n)\<rparr>)"
    "modem_answer_call w = Done 0 (w\<lparr>w_out := w_out w @ action_io AnswerModem\<rparr>)"
    "modem_hangup_call w = Done 0 (w\<lparr>w_out := w_out w @ action_io HangupModem\<rparr>)"
    "NUL \<notin> set v \<Longrightarrow> length v < VAL_SIZE \<Longrightarrow>
       modem_send_sms v (tpdu_len v) w = Done 0 (w\<lparr>w_out := w_out w @ action_io (SendSms v)\<rparr>)"
proof -
  show "NUL \<notin> set n \<Longrightarrow> modem_make_call n w = Done 0 (w\<lparr>w_out := w_out w @ action_io (Dial n)\<rparr>)"
    using quiet_commands(5) [OF assms snprintf_no_NUL, of "''ATD'' @ n @ '';'' @ CRLF_text" 128] by (simp add: modem_make_call_def)
  show "modem_answer_call w = Done 0 (w\<lparr>w_out := w_out w @ action_io AnswerModem\<rparr>)"
    using quiet_commands(5) [OF assms] by (simp add: modem_answer_call_def)
  show "modem_hangup_call w = Done 0 (w\<lparr>w_out := w_out w @ action_io HangupModem\<rparr>)"
    using quiet_commands(5) [OF assms] by (simp add: modem_hangup_call_def)
next
  assume v: "NUL \<notin> set v" "length v < VAL_SIZE"
  let ?cmd = "''AT+CMGS='' @ dec_of_int (tpdu_len v) @ [CHR 0x0D]"
  have cmd: "snprintf 128 ?cmd = ?cmd" "NUL \<notin> set ?cmd"
    using dec_of_int_facts(1) dec_of_int_facts(2) [OF tpdu_len_bound, of v] by (auto intro!: snprintf_fits)
  have "snprintf 4096 v = v" "length v < 4095"
    using v(2) by (simp_all add: snprintf_def VAL_SIZE_def)
  then show "modem_send_sms v (tpdu_len v) w = Done 0 (w\<lparr>w_out := w_out w @ action_io (SendSms v)\<rparr>)"
    using assms v(1) cmd(2) by (simp add: modem_send_sms_def cmd(1) quiet_commands(5) del: append_Cons)
qed

abbreviation refined :: "(unit, world) result \<Rightarrow> world \<Rightarrow> call \<times> action list \<Rightarrow> bool" where
  "refined r w step \<equiv> \<exists>c. r = Done () (w\<lparr>w_ctrl := c, w_out := w_out w @ concat (map action_io (snd step))\<rparr>) \<and>
     call_inv c \<and> sip_peer c = sip_peer (w_ctrl w) \<and> call_of c = fst step"

lemma refined_none: "call_inv (w_ctrl w) \<Longrightarrow> call_of (w_ctrl w) = c \<Longrightarrow> refined (Done () w) w (c, [])"
  by (intro exI [of _ "w_ctrl w"]) (cases w; simp)

lemma call_inv_reset: "call_inv (siproxy_reset c)" "call_of (siproxy_reset c) = Idle None" "sip_peer (siproxy_reset c) = sip_peer c"
  by (simp_all add: call_inv_def ctrl_inv_reset) (simp_all add: siproxy_reset_def call_of_def SIM_NUM_SIZE_def)

lemma ended_refines:
  assumes "quiet w" "init_dir (w_ctrl w) \<noteq> INIT_NONE"
  shows "refined (modem_ended w) w (Idle None, [HangupSip])" "refined (sip_ended w) w (Idle None, [HangupModem])"
proof -
  have "modem_ended w = Done () (w\<lparr>w_ctrl := siproxy_reset (w_ctrl w), w_out := w_out w @ action_io HangupSip\<rparr>)"
    "sip_ended w = Done () (w\<lparr>w_ctrl := siproxy_reset (w_ctrl w), w_out := w_out w @ action_io HangupModem\<rparr>)"
    using assms by (cases "init_dir (w_ctrl w)";
      simp add: modem_ended_def sip_ended_def quiet_commands quiet_modem del: action_io.simps)+
  then show "refined (modem_ended w) w (Idle None, [HangupSip])" "refined (sip_ended w) w (Idle None, [HangupModem])"
    by (intro exI [of _ "siproxy_reset (w_ctrl w)"]; simp add: call_inv_reset del: action_io.simps)+
qed

lemma state_init_refines:
  assumes "quiet w" "call_inv (w_ctrl w)" "proper e" "state_of (w_ctrl w) = STATE_INIT"
  shows "refined (state_init e w) w (call_step (sip_peer (w_ctrl w)) e (call_of (w_ctrl w)))"
proof -
  have c: "init_dir (w_ctrl w) = INIT_NONE" "length (sim_num (w_ctrl w)) = SIM_NUM_SIZE" "sip_state (w_ctrl w) = STATE_INIT"
    "modem_state (w_ctrl w) = STATE_INIT" "NUL \<in> set (sim_num (w_ctrl w))"
    using assms(2,4) by (auto simp: call_inv_def ctrl_inv_def)
  have "call_of (w_ctrl w) = Idle (if mqtt_state (w_ctrl w) = STATE_INCOMING then Some (c_str (sim_num (w_ctrl w))) else None)"
    by (simp add: call_of_def assms(4))
  note idle = this
  consider "event e = EVT_MQTT_CALLING" | "event e = EVT_MODEM_CLIP" | "event e = EVT_SIP_INCOMING"
    | "event e \<notin> {EVT_MQTT_CALLING, EVT_MODEM_CLIP, EVT_SIP_INCOMING}"
    by auto
  then show ?thesis
  proof cases
    case 1
    let ?c = "(w_ctrl w)\<lparr>sim_num := val e @ replicate (SIM_NUM_SIZE - length (val e)) NUL, mqtt_state := STATE_INCOMING\<rparr>"
    have v: "length (val e) < SIM_NUM_SIZE" "c_str (val e @ replicate (SIM_NUM_SIZE - length (val e)) NUL) = val e"
      using assms(3) 1 by (auto simp: proper_def c_str_append) (cases "SIM_NUM_SIZE - length (val e)"; simp)
    then have "state_init e w = Done () (w\<lparr>w_ctrl := ?c, w_out := w_out w @ []\<rparr>)"
      using 1 by (cases w) (simp add: state_init_def)
    moreover have "call_inv ?c" "call_of ?c = Idle (Some (val e))"
      using assms(4) v c by (simp_all add: call_inv_def ctrl_inv_def call_of_def)
    ultimately show ?thesis
      using 1 idle by (intro exI [of _ ?c]) simp
  next
    case 2
    then obtain n where n: "caller_number (val e) = Some n"
      using assms(3) by (auto simp: proper_def)
    let ?c = "(w_ctrl w)\<lparr>init_dir := INIT_FROM_MODEM, modem_state := STATE_INCOMING, sip_state := STATE_CALLING,
      state_of := STATE_INCOMING\<rparr>"
    have "state_init e w = Done () (w\<lparr>w_ctrl := ?c, w_out := w_out w @ action_io (PublishCaller n) @ action_io (CallPeer (sip_peer (w_ctrl w)))\<rparr>)"
      using 2 n c assms(1) by (simp add: state_init_def quiet_commands)
    moreover have "call_inv ?c" "call_of ?c = FromModem"
      using c by (simp_all add: call_inv_def ctrl_inv_def call_of_def)
    ultimately show ?thesis
      using 2 n idle by (intro exI [of _ ?c]) simp
  next
    case 3
    show ?thesis
    proof (cases "mqtt_state (w_ctrl w) = STATE_INCOMING")
      case True
      let ?c = "(w_ctrl w)\<lparr>init_dir := INIT_FROM_SIP, sip_state := STATE_INCOMING, state_of := STATE_INCOMING\<rparr>"
      have "state_init e w = Done () (w\<lparr>w_ctrl := ?c, w_out := w_out w @ action_io AnswerPeer\<rparr>)"
        using 3 True c assms(1) by (simp add: state_init_def quiet_commands)
      moreover have "call_inv ?c" "call_of ?c = FromSip (c_str (sim_num (w_ctrl w))) False"
        using c True by (simp_all add: call_inv_def ctrl_inv_def call_of_def)
      ultimately show ?thesis
        using 3 True idle by (intro exI [of _ ?c]) simp
    next
      case False
      then show ?thesis
        using 3 idle refined_none [OF assms(2) refl] by (simp add: state_init_def)
    qed
  next
    case 4
    then show ?thesis
      using idle refined_none [OF assms(2) refl] by (auto simp: state_init_def split: EVENT.splits)
  qed
qed

lemma state_incoming_refines:
  assumes "quiet w" "call_inv (w_ctrl w)" "state_of (w_ctrl w) = STATE_INCOMING"
  shows "refined (state_incoming e w) w (call_step (sip_peer (w_ctrl w)) e (call_of (w_ctrl w)))"
proof -
  let ?num = "c_str (sim_num (w_ctrl w))"
  have c: "init_dir (w_ctrl w) \<noteq> INIT_NONE" "length (sim_num (w_ctrl w)) = SIM_NUM_SIZE" "NUL \<in> set (sim_num (w_ctrl w))"
    "init_dir (w_ctrl w) = INIT_FROM_SIP \<Longrightarrow> mqtt_state (w_ctrl w) = STATE_INCOMING"
    using assms(2,3) by (auto simp: call_inv_def ctrl_inv_def split: CALL_INIT.splits)
  have call: "call_of (w_ctrl w) = (if init_dir (w_ctrl w) = INIT_FROM_MODEM then FromModem else FromSip ?num (sip_state (w_ctrl w) = STATE_CONFIRMED))"
    by (simp add: call_of_def assms(3))
  consider "event e = EVT_MODEM_COLP" | "is_end (event e)" | "event e = EVT_SIP_CONFIRMED" | "event e = EVT_SIP_DISCONNCTD"
    | "event e \<notin> {EVT_MODEM_COLP, EVT_SIP_CONFIRMED, EVT_SIP_DISCONNCTD}" "\<not> is_end (event e)"
    by auto
  then show ?thesis
  proof cases
    case 1
    show ?thesis
    proof (cases "init_dir (w_ctrl w)")
      case INIT_FROM_SIP
      let ?c = "(w_ctrl w)\<lparr>modem_state := STATE_CONFIRMED, state_of := STATE_CONFIRMED\<rparr>"
      have "state_incoming e w = Done () (w\<lparr>w_ctrl := ?c, w_out := w_out w @ action_io PublishOk\<rparr>)"
        using 1 INIT_FROM_SIP assms(1) by (simp add: state_incoming_def quiet_commands)
      moreover have "call_inv ?c" "call_of ?c = Talking"
        using c by (simp_all add: call_inv_def ctrl_inv_def call_of_def)
      ultimately show ?thesis
        using 1 INIT_FROM_SIP call by (intro exI [of _ ?c]) simp
    next
      case INIT_FROM_MODEM
      then show ?thesis
        using 1 call refined_none [OF assms(2) refl] by (simp add: state_incoming_def is_end_def)
    qed (use c in simp)
  next
    case 2
    then have "state_incoming e w = modem_ended w" "event e \<noteq> EVT_SIP_CONFIRMED" "event e \<noteq> EVT_MODEM_COLP"
      by (auto simp: state_incoming_def is_end_def)
    with 2 show ?thesis
      using ended_refines(1) [OF assms(1) c(1)] by (simp add: call del: action_io.simps)
  next
    case 3
    show ?thesis
    proof (cases "init_dir (w_ctrl w)")
      case INIT_FROM_SIP
      let ?c = "(w_ctrl w)\<lparr>sip_state := STATE_CONFIRMED, modem_state := STATE_CALLING\<rparr>"
      have "state_incoming e w = Done () (w\<lparr>w_ctrl := ?c, w_out := w_out w @ action_io (Dial ?num)\<rparr>)"
        using 3 INIT_FROM_SIP assms(1) c by (simp add: state_incoming_def sip_confirmed_def quiet_modem del: action_io.simps)
      moreover have "call_inv ?c" "call_of ?c = FromSip ?num True"
        using c INIT_FROM_SIP assms(3) by (simp_all add: call_inv_def ctrl_inv_def call_of_def)
      ultimately show ?thesis
        using 3 INIT_FROM_SIP call by (intro exI [of _ ?c]) simp
    next
      case INIT_FROM_MODEM
      let ?c = "(w_ctrl w)\<lparr>sip_state := STATE_CONFIRMED, modem_state := STATE_CONFIRMED, state_of := STATE_CONFIRMED\<rparr>"
      have "state_incoming e w = Done () (w\<lparr>w_ctrl := ?c, w_out := w_out w @ action_io AnswerModem\<rparr>)"
        using 3 INIT_FROM_MODEM assms(1) by (simp add: state_incoming_def sip_confirmed_def quiet_modem del: action_io.simps)
      moreover have "call_inv ?c" "call_of ?c = Talking"
        using c by (simp_all add: call_inv_def ctrl_inv_def call_of_def)
      ultimately show ?thesis
        using 3 INIT_FROM_MODEM call by (intro exI [of _ ?c]) simp
    qed (use c in simp)
  next
    case 4
    then have "state_incoming e w = sip_ended w"
      by (simp add: state_incoming_def)
    with 4 show ?thesis
      using ended_refines(2) [OF assms(1) c(1)] by (simp add: call is_end_def del: action_io.simps)
  next
    case 5
    then have "state_incoming e w = Done () w"
      by (auto simp: state_incoming_def is_end_def split: EVENT.splits)
    with 5 show ?thesis
      using call refined_none [OF assms(2) refl] by (cases "init_dir (w_ctrl w) = INIT_FROM_MODEM"; simp)
  qed
qed

lemma state_confirmed_refines:
  assumes "quiet w" "call_inv (w_ctrl w)" "state_of (w_ctrl w) = STATE_CONFIRMED"
  shows "refined (state_confirmed e w) w (call_step (sip_peer (w_ctrl w)) e (call_of (w_ctrl w)))"
proof -
  have c: "init_dir (w_ctrl w) \<noteq> INIT_NONE" "call_of (w_ctrl w) = Talking"
    using assms(2,3) by (auto simp: call_inv_def ctrl_inv_def call_of_def)
  have "is_end (event e) \<Longrightarrow> state_confirmed e w = modem_ended w"
    "event e = EVT_SIP_DISCONNCTD \<Longrightarrow> state_confirmed e w = sip_ended w"
    "event e \<noteq> EVT_SIP_DISCONNCTD \<Longrightarrow> \<not> is_end (event e) \<Longrightarrow> state_confirmed e w = Done () w"
    by (auto simp: state_confirmed_def is_end_def split: EVENT.splits)
  then show ?thesis
    using c ended_refines [OF assms(1) c(1)] refined_none [OF assms(2) refl]
    by (cases "is_end (event e)"; cases "event e = EVT_SIP_DISCONNCTD") (simp_all del: action_io.simps)
qed

lemma state_refines_step:
  assumes "quiet w" "call_inv (w_ctrl w)" "proper e"
  shows "refined (state e w) w (event_step (sip_peer (w_ctrl w)) (w_date w) e (call_of (w_ctrl w)))"
proof (cases "is_sms (event e)")
  case True
  have self: "w\<lparr>w_ctrl := w_ctrl w\<rparr> = w"
    by (cases w) simp
  have "state e w = Done () (w\<lparr>w_out := w_out w @ concat (map action_io
      (snd (event_step (sip_peer (w_ctrl w)) (w_date w) e (call_of (w_ctrl w)))))\<rparr>)"
    using True assms quiet_modem(4) [OF assms(1), of "val e"]
    by (auto simp: state_def state_tbl_def event_step_def quiet_commands proper_def)
  with self True assms(2) show ?thesis
    by (intro exI [of _ "w_ctrl w"]) (auto simp: event_step_def)
next
  case False
  have "state_of (w_ctrl w) \<in> {STATE_INIT, STATE_INCOMING, STATE_CONFIRMED}"
    using assms(2) by (auto simp: call_inv_def ctrl_inv_def split: STATE.splits)
  moreover have "event_step peer d e c = call_step peer e c" for peer d c
    using False by (simp add: event_step_def)
  ultimately show ?thesis
    using state_dispatch [OF False, of w] state_init_refines [OF assms] state_incoming_refines [OF assms(1,2)]
      state_confirmed_refines [OF assms(1,2)]
    by (auto simp: state_tbl_def simp del: action_io.simps call_step.simps)
qed

section \<open>Runs\<close>

text \<open>Events handled one after the other, and the specification's run over them.\<close>

fun states :: "evt list \<Rightarrow> unit program" where
  "states [] w = Done () w"
| "states (e # es) w = follow (state e w) (\<lambda>_. states es)"

fun spec_run :: "string \<Rightarrow> string \<Rightarrow> evt list \<Rightarrow> call \<Rightarrow> call \<times> action list" where
  "spec_run peer date [] c = (c, [])"
| "spec_run peer date (e # es) c =
     (let (c1, as) = event_step peer date e c; (c2, bs) = spec_run peer date es c1 in (c2, as @ bs))"

lemma states_refine:
  assumes "quiet w" "call_inv (w_ctrl w)" "\<forall>e \<in> set es. proper e"
  shows "refined (states es w) w (spec_run (sip_peer (w_ctrl w)) (w_date w) es (call_of (w_ctrl w)))"
  using assms
proof (induction es arbitrary: w)
  case Nil
  then show ?case
    using refined_none [of w] by simp
next
  case (Cons e es)
  let ?s = "event_step (sip_peer (w_ctrl w)) (w_date w) e (call_of (w_ctrl w))"
  obtain c where c: "state e w = Done () (w\<lparr>w_ctrl := c, w_out := w_out w @ concat (map action_io (snd ?s))\<rparr>)" "call_inv c"
    "sip_peer c = sip_peer (w_ctrl w)" "call_of c = fst ?s"
    using state_refines_step [of w e] Cons.prems by auto
  define w1 where "w1 = w\<lparr>w_ctrl := c, w_out := w_out w @ concat (map action_io (snd ?s))\<rparr>"
  have "refined (states es w1) w1 (spec_run (sip_peer (w_ctrl w)) (w_date w) es (fst ?s))"
    using Cons.IH [of w1] Cons.prems c by (simp add: w1_def)
  then obtain c' where "states es w1 = Done () (w1\<lparr>w_ctrl := c',
      w_out := w_out w1 @ concat (map action_io (snd (spec_run (sip_peer (w_ctrl w)) (w_date w) es (fst ?s))))\<rparr>)"
    "call_inv c'" "sip_peer c' = sip_peer (w_ctrl w1)" "call_of c' = fst (spec_run (sip_peer (w_ctrl w)) (w_date w) es (fst ?s))"
    by blast
  with c show ?case
    by (intro exI [of _ c']) (simp add: w1_def [symmetric] split_def Let_def, simp add: w1_def)
qed

text \<open>A call is set up, and then ended by one hang-up, before the next is set up.\<close>

fun one_at_a_time :: "bool \<Rightarrow> action list \<Rightarrow> bool" where
  "one_at_a_time busy [] \<longleftrightarrow> True"
| "one_at_a_time busy (a # as) \<longleftrightarrow>
     (case a of
        CallPeer _ \<Rightarrow> \<not> busy \<and> one_at_a_time True as
      | AnswerPeer \<Rightarrow> \<not> busy \<and> one_at_a_time True as
      | HangupSip \<Rightarrow> busy \<and> one_at_a_time False as
      | HangupModem \<Rightarrow> busy \<and> one_at_a_time False as
      | Dial _ \<Rightarrow> busy \<and> one_at_a_time busy as
      | AnswerModem \<Rightarrow> busy \<and> one_at_a_time busy as
      | _ \<Rightarrow> one_at_a_time busy as)"

fun busy :: "call \<Rightarrow> bool" where
  "busy (Idle _) \<longleftrightarrow> False"
| "busy _ \<longleftrightarrow> True"

lemma spec_one_at_a_time: "one_at_a_time (busy c) (snd (spec_run peer date es c))"
proof (induction es arbitrary: c)
  case (Cons e es)
  note IH = Cons [of "Idle k" for k, simplified] Cons [of FromModem, simplified] Cons [of "FromSip n d" for n d, simplified]
    Cons [of Talking, simplified]
  show ?case
    by (cases c) (auto simp: event_step_def split_def Let_def IH split: option.splits)
qed simp

text \<open>
  The history that leads to dialling a number: the number announced, then these events, in this
  order, possibly with others in between.
\<close>

definition asked :: "string \<Rightarrow> EVENT list \<Rightarrow> evt list \<Rightarrow> bool" where
  "asked num evs es \<longleftrightarrow>
     subseq ((EVT_MQTT_CALLING, Some num) # map (\<lambda>ev. (ev, None)) evs)
       (map (\<lambda>e. (event e, if event e = EVT_MQTT_CALLING then Some (val e) else None)) es)"

lemma asked_snoc: "asked num evs es \<Longrightarrow> asked num evs (es @ [e])"
  by (simp add: asked_def list_emb_prefix)

lemma asked_event: "asked num evs es \<Longrightarrow> ev \<noteq> EVT_MQTT_CALLING \<Longrightarrow> event e = ev \<Longrightarrow> asked num (evs @ [ev]) (es @ [e])"
  using list_emb_append_mono [of "(=)" "(EVT_MQTT_CALLING, Some num) # map (\<lambda>ev. (ev, None)) evs"
      "map (\<lambda>e. (event e, if event e = EVT_MQTT_CALLING then Some (val e) else None)) es" "[(ev, None)]" "[(ev, None)]"]
  by (simp add: asked_def)

lemma asked_announced: "event e = EVT_MQTT_CALLING \<Longrightarrow> asked (val e) [] (es @ [e])"
  using list_emb_append_mono [of "(=)" "[]"
      "map (\<lambda>e. (event e, if event e = EVT_MQTT_CALLING then Some (val e) else None)) es" "[(EVT_MQTT_CALLING, Some (val e))]"
      "[(EVT_MQTT_CALLING, Some (val e))]"]
  by (simp add: asked_def)

lemma spec_run_snoc:
  "spec_run peer date (es @ [e]) c =
     (let (c1, as) = spec_run peer date es c; (c2, bs) = event_step peer date e c1 in (c2, as @ bs))"
  by (induction es arbitrary: c) (simp_all add: split_def Let_def)

lemma spec_history:
  "(case fst (spec_run peer date es (Idle None)) of
      Idle (Some n) \<Rightarrow> asked n [] es
    | FromSip n d \<Rightarrow> asked n [EVT_SIP_INCOMING] es \<and> (d \<longrightarrow> asked n [EVT_SIP_INCOMING, EVT_SIP_CONFIRMED] es)
    | _ \<Rightarrow> True) \<and>
   (\<forall>n. Dial n \<in> set (snd (spec_run peer date es (Idle None))) \<longrightarrow> asked n [EVT_SIP_INCOMING, EVT_SIP_CONFIRMED] es)"
proof (induction es rule: rev_induct)
  case (snoc e es)
  obtain c as where c: "spec_run peer date es (Idle None) = (c, as)"
    by (cases "spec_run peer date es (Idle None)")
  have dials: "asked n [EVT_SIP_INCOMING, EVT_SIP_CONFIRMED] (es @ [e])" if "Dial n \<in> set as" for n
    using snoc that c by (auto intro: asked_snoc)
  have conf: "asked n [EVT_SIP_INCOMING, EVT_SIP_CONFIRMED] (es @ [e])"
    if "asked n [EVT_SIP_INCOMING] es" "event e = EVT_SIP_CONFIRMED" for n
    using asked_event [OF that(1), of EVT_SIP_CONFIRMED e] that(2) by simp
  have inc: "asked n [EVT_SIP_INCOMING] (es @ [e])" if "asked n [] es" "event e = EVT_SIP_INCOMING" for n
    using asked_event [OF that(1), of EVT_SIP_INCOMING e] that(2) by simp
  show ?case
    using snoc c dials conf inc
    by (cases c) (auto simp: spec_run_snoc event_step_def intro: asked_snoc asked_announced split: option.splits)
qed simp

section \<open>Properties\<close>

text \<open>
  C22: an event is handled once. The loop of \<open>state\<close> goes on through the table after a handler has
  changed the state, and so calls the handler of a later state with the same event; but then that
  handler ignores it, for every event and every state, also when a call of the outside fails.
\<close>

theorem state_dispatch_once:
  assumes "event e \<noteq> EVT_MODEM_SMS" "event e \<noteq> EVT_MQTT_SMS"
  shows "state e w = the (map_of state_tbl (state_of (w_ctrl w))) e w"
  using assms by (intro state_dispatch) auto

theorem state_dispatch_once_witness:
  "state \<lparr>event = EVT_MODEM_BUSY, val = []\<rparr> demo_world = state_init \<lparr>event = EVT_MODEM_BUSY, val = []\<rparr> demo_world"
  using state_dispatch_once [of "\<lparr>event = EVT_MODEM_BUSY, val = []\<rparr>" demo_world]
  by (simp add: demo_world_def siproxy_initial_def state_tbl_def)


definition demo_clip :: evt where
  "demo_clip = \<lparr>event = EVT_MODEM_CLIP, val = ''+CLIP: '' @ [CHR 0x22] @ ''139'' @ [CHR 0x22] @ '',161''\<rparr>"

lemma demo_facts:
  "quiet demo_world" "call_inv (w_ctrl demo_world)" "call_of (w_ctrl demo_world) = Idle None" "sip_peer (w_ctrl demo_world) = []"
  by (simp_all add: demo_world_def quiet_def demo_telnet_simps call_inv_def ctrl_inv_initial)
    (simp_all add: siproxy_initial_def call_of_def SIM_NUM_SIZE_def)

lemma demo_clip_facts: "caller_number (val demo_clip) = Some ''139''" "proper demo_clip"
proof -
  show "caller_number (val demo_clip) = Some ''139''"
    by code_simp
  then show "proper demo_clip"
    by (simp add: proper_def) (simp add: demo_clip_def VAL_SIZE_def)
qed




text \<open>
  What an idle program needs of a caller notification (two quotes, with at most 255 characters in between) and of an announced number (room for it
  and a NUL in 255 characters). During a call neither is looked at.
\<close>

definition quoted :: "string \<Rightarrow> bool" where
  "quoted v \<longleftrightarrow> (\<exists>a num b. v = a @ CHR 0x22 # num @ CHR 0x22 # b \<and> CHR 0x22 \<notin> set (a @ num) \<and> length num \<le> 255)"

definition acceptable :: "call \<Rightarrow> evt \<Rightarrow> bool" where
  "acceptable c e \<longleftrightarrow> (case c of
     Idle num \<Rightarrow> (event e = EVT_MODEM_CLIP \<longrightarrow> quoted (val e)) \<and> (event e = EVT_MQTT_CALLING \<longrightarrow> length (val e) < 255)
   | _ \<Rightarrow> True)"

fun acceptable_run :: "string \<Rightarrow> string \<Rightarrow> evt list \<Rightarrow> call \<Rightarrow> bool" where
  "acceptable_run peer date [] c \<longleftrightarrow> True"
| "acceptable_run peer date (e # es) c \<longleftrightarrow> acceptable c e \<and> acceptable_run peer date es (fst (event_step peer date e c))"

definition plain_text :: "evt \<Rightarrow> bool" where
  "plain_text e \<longleftrightarrow> NUL \<notin> set (val e) \<and> length (val e) < VAL_SIZE"

lemma takeWhile_first: "c \<notin> set a \<Longrightarrow> takeWhile (\<lambda>x. x \<noteq> c) (a @ c # b) = a"
  by (induction a) auto

lemma caller_number_quoted: "caller_number v = None \<longleftrightarrow> \<not> quoted v"
proof (cases "\<exists>a num b. v = a @ CHR 0x22 # num @ CHR 0x22 # b \<and> CHR 0x22 \<notin> set (a @ num)")
  case True
  then obtain a num b where v: "v = a @ CHR 0x22 # num @ CHR 0x22 # b" "CHR 0x22 \<notin> set a" "CHR 0x22 \<notin> set num"
    by auto
  then have "caller_number v = (if length num < 256 then Some num else None)"
    by (simp add: caller_number_def strstr_char takeWhile_first)
  moreover have "quoted v \<longleftrightarrow> length num \<le> 255"
  proof
    assume "quoted v"
    then obtain a' num' b' where v': "v = a' @ CHR 0x22 # num' @ CHR 0x22 # b'" "CHR 0x22 \<notin> set a'" "CHR 0x22 \<notin> set num'" "length num' \<le> 255"
      by (auto simp: quoted_def)
    have "a = a'"
      using takeWhile_first [OF v(2)] takeWhile_first [OF v'(2)] v(1) v'(1) by metis
    then have "num = num'"
      using takeWhile_first [OF v(3), of b] takeWhile_first [OF v'(3), of b'] v(1) v'(1) by auto
    with v'(4) show "length num \<le> 255"
      by simp
  qed (use v in \<open>auto simp: quoted_def\<close>)
  ultimately show ?thesis
    by auto
next
  case False
  then have "\<not> quoted v"
    by (auto simp: quoted_def)
  moreover have "caller_number v = None"
  proof (cases "CHR 0x22 \<in> set v")
    case True
    then obtain a b where v: "v = a @ CHR 0x22 # b" "CHR 0x22 \<notin> set a"
      by (meson split_list_first)
    then have "CHR 0x22 \<notin> set b"
      using False split_list_first [of "CHR 0x22" b] by fastforce
    with v show ?thesis
      by (simp add: caller_number_def strstr_char takeWhile_first)
  qed (simp add: caller_number_def strstr_char)
  ultimately show ?thesis
    by simp
qed

lemma idle_state: "call_inv c \<Longrightarrow> call_of c = Idle num \<Longrightarrow> state_of c = STATE_INIT \<and> init_dir c = INIT_NONE"
  by (auto simp: call_inv_def ctrl_inv_def call_of_def split: STATE.splits if_splits)

text \<open>An acceptable event is handled as the specification says, any other one is undefined behaviour.\<close>

lemma acceptable_refines:
  assumes "quiet w" "call_inv (w_ctrl w)" "plain_text e" "acceptable (call_of (w_ctrl w)) e"
  shows "refined (state e w) w (event_step (sip_peer (w_ctrl w)) (w_date w) e (call_of (w_ctrl w)))"
proof (cases "proper e")
  case True
  then show ?thesis
    using state_refines_step [OF assms(1,2)] by blast
next
  case False
  then have e: "event e = EVT_MODEM_CLIP \<and> \<not> quoted (val e) \<or> event e = EVT_MQTT_CALLING \<and> \<not> length (val e) < 255"
    using assms(3) caller_number_quoted [of "val e"] by (auto simp: proper_def plain_text_def SIM_NUM_SIZE_def)
  then have "\<not> is_sms (event e)" "\<forall>num. call_of (w_ctrl w) \<noteq> Idle num"
    using assms(4) by (auto simp: acceptable_def)
  moreover from this(2) have "state_of (w_ctrl w) \<in> {STATE_INCOMING, STATE_CONFIRMED}"
    using assms(2) by (auto simp: call_inv_def ctrl_inv_def call_of_def split: STATE.splits)
  moreover have "event_step peer d e c = call_step peer e c" for peer d c
    using calculation(1) by (simp add: event_step_def)
  ultimately show ?thesis
    using state_dispatch [of e w] state_incoming_refines [OF assms(1,2)] state_confirmed_refines [OF assms(1,2)]
    by (auto simp: state_tbl_def simp del: action_io.simps call_step.simps)
qed

lemma unacceptable_undefined:
  assumes "call_inv (w_ctrl w)" "\<not> acceptable (call_of (w_ctrl w)) e" "event e = EVT_MQTT_CALLING \<longrightarrow> length (val e) \<noteq> 255"
  shows "state e w = Undefined"
proof -
  obtain num where num: "call_of (w_ctrl w) = Idle num"
    using assms(2) by (auto simp: acceptable_def split: call.splits)
  then have e: "event e = EVT_MODEM_CLIP \<and> caller_number (val e) = None \<or> event e = EVT_MQTT_CALLING \<and> 255 < length (val e)"
    using assms(2,3) caller_number_quoted [of "val e"] by (auto simp: acceptable_def)
  then have "state e w = state_init e w"
    using state_dispatch [of e w] idle_state [OF assms(1) num] by (auto simp: state_tbl_def)
  with e show ?thesis
    using idle_state [OF assms(1) num] by (auto simp: state_init_def SIM_NUM_SIZE_def)
qed

lemma states_acceptable:
  assumes "quiet w" "call_inv (w_ctrl w)" "\<forall>e \<in> set es. plain_text e \<and> (event e = EVT_MQTT_CALLING \<longrightarrow> length (val e) \<noteq> 255)"
  shows "states es w \<noteq> Undefined \<longleftrightarrow> acceptable_run (sip_peer (w_ctrl w)) (w_date w) es (call_of (w_ctrl w))"
  using assms
proof (induction es arbitrary: w)
  case (Cons e es)
  show ?case
  proof (cases "acceptable (call_of (w_ctrl w)) e")
    case True
    let ?s = "event_step (sip_peer (w_ctrl w)) (w_date w) e (call_of (w_ctrl w))"
    obtain c where c: "state e w = Done () (w\<lparr>w_ctrl := c, w_out := w_out w @ concat (map action_io (snd ?s))\<rparr>)" "call_inv c"
      "sip_peer c = sip_peer (w_ctrl w)" "call_of c = fst ?s"
      using acceptable_refines [OF Cons.prems(1,2) _ True] Cons.prems(3) by auto
    with Cons.IH [of "w\<lparr>w_ctrl := c, w_out := w_out w @ concat (map action_io (snd ?s))\<rparr>"] Cons.prems True show ?thesis
      by simp
  next
    case False
    then show ?thesis
      using unacceptable_undefined [OF Cons.prems(2)] Cons.prems(3) by simp
  qed
qed simp

text \<open>
  C39: the inputs that the call control can take. Let events with any texts that fit come in any order while the outside takes every command. The
  handlers run without undefined behaviour exactly when every caller notification that finds the program idle has a number of at most
  255 characters between its first two quotes (a withheld number has no quotes), and every number announced to an idle program has at most 254; texts that
  arrive during a call do no harm. A number of exactly 255 characters is left out of the first part: it is stored without a NUL and does harm only when the
  call comes and is confirmed, and the number is dialled.
\<close>

theorem call_input_domain:
  assumes "quiet w" "call_inv (w_ctrl w)" "\<forall>e \<in> set es. plain_text e \<and> (event e = EVT_MQTT_CALLING \<longrightarrow> length (val e) \<noteq> 255)"
  shows "(states es w \<noteq> Undefined \<longleftrightarrow> acceptable_run (sip_peer (w_ctrl w)) (w_date w) es (call_of (w_ctrl w))) \<and>
    (\<forall>num v. call_of (w_ctrl w) = Idle num \<and> length v = 255 \<and> NUL \<notin> set v \<longrightarrow>
       states [\<lparr>event = EVT_MQTT_CALLING, val = v\<rparr>, \<lparr>event = EVT_SIP_INCOMING, val = []\<rparr>] w \<noteq> Undefined \<and>
       states [\<lparr>event = EVT_MQTT_CALLING, val = v\<rparr>, \<lparr>event = EVT_SIP_INCOMING, val = []\<rparr>, \<lparr>event = EVT_SIP_CONFIRMED, val = []\<rparr>] w = Undefined)"
proof -
  have "states [\<lparr>event = EVT_MQTT_CALLING, val = v\<rparr>, \<lparr>event = EVT_SIP_INCOMING, val = []\<rparr>] w \<noteq> Undefined"
    "states [\<lparr>event = EVT_MQTT_CALLING, val = v\<rparr>, \<lparr>event = EVT_SIP_INCOMING, val = []\<rparr>, \<lparr>event = EVT_SIP_CONFIRMED, val = []\<rparr>] w = Undefined"
    if "call_of (w_ctrl w) = Idle num" "length v = 255" "NUL \<notin> set v" for num v
    using idle_state [OF assms(2) that(1)] that(2,3) assms(1)
    by (simp_all add: state_dispatch state_tbl_def state_init_def state_incoming_def sip_confirmed_def quiet_commands SIM_NUM_SIZE_def
        del: action_io.simps)
  then show ?thesis
    using states_acceptable [OF assms] by blast
qed

theorem call_input_domain_witness:
  "states [demo_clip, \<lparr>event = EVT_MODEM_CLIP, val = ''+CLIP: ,128''\<rparr>] demo_world \<noteq> Undefined \<and>
   states [\<lparr>event = EVT_MODEM_NO_CARRIER, val = []\<rparr>, \<lparr>event = EVT_MODEM_CLIP, val = ''+CLIP: ,128''\<rparr>] demo_world = Undefined"
proof -
  have "caller_number ''+CLIP: ,128'' = None"
    by code_simp
  then have n: "\<not> quoted ''+CLIP: ,128''" "quoted (val demo_clip)"
    using demo_clip_facts(1) caller_number_quoted [of "''+CLIP: ,128''"] caller_number_quoted [of "val demo_clip"] by simp_all
  moreover have "plain_text demo_clip" "plain_text \<lparr>event = EVT_MODEM_CLIP, val = ''+CLIP: ,128''\<rparr>" "plain_text \<lparr>event = EVT_MODEM_NO_CARRIER, val = []\<rparr>"
    "event demo_clip = EVT_MODEM_CLIP" "call_of (w_ctrl demo_world) = Idle None"
    by code_simp+
  ultimately show ?thesis
    using call_input_domain [of demo_world "[demo_clip, \<lparr>event = EVT_MODEM_CLIP, val = ''+CLIP: ,128''\<rparr>]"]
      call_input_domain [of demo_world "[\<lparr>event = EVT_MODEM_NO_CARRIER, val = []\<rparr>, \<lparr>event = EVT_MODEM_CLIP, val = ''+CLIP: ,128''\<rparr>]"] demo_facts
    by (simp add: acceptable_def event_step_def del: states.simps)
qed

text \<open>
  The length announced to the modem for an outgoing message. For a text with a prefix of two
  digits and an even number of digits it is the number of octets behind the prefix; for a text
  shorter than two the subtraction wraps around in \<open>size_t\<close> and the modem is told -1.
\<close>

theorem tpdu_len_correct:
  assumes "length pdu < VAL_SIZE"
  shows "tpdu_len pdu = (if length pdu < 2 then - 1 else (int (length pdu) - 2) div 2)"
proof (cases "length pdu < 2")
  case True
  then have "length pdu = 0 \<or> length pdu = 1"
    by linarith
  then show ?thesis
    using True unfolding tpdu_len_def by (elim disjE) simp_all
next
  case False
  define k where "k = (length pdu - 2) div 2"
  have k: "k < 1024"
    using assms by (simp add: k_def VAL_SIZE_def)
  have sub: "of_nat (length pdu) - 2 = (of_nat (length pdu - 2) :: 64 word)"
    using False by simp
  have "unat ((of_nat (length pdu - 2) :: 64 word) div 2) = k"
    using assms by (simp add: unat_div unat_of_nat k_def VAL_SIZE_def)
  then have "(of_nat (length pdu) - 2 :: 64 word) div 2 = of_nat k"
    using k unfolding sub by (simp add: word_unat_eq_iff unat_of_nat)
  moreover have "ucast (of_nat k :: 64 word) = (of_nat k :: 32 word)"
    using k by (simp add: unsigned_of_nat take_bit_nat_eq_self)
  ultimately have "tpdu_len pdu = sint (of_nat k :: 32 word)"
    by (simp add: tpdu_len_def)
  also have "\<dots> = int k"
    using k by (simp add: signed_of_nat signed_take_bit_eq_if_positive take_bit_int_eq_self bit_iff_odd)
  finally show ?thesis
    using False by (simp add: k_def zdiv_int)
qed

theorem tpdu_len_correct_witness: "tpdu_len ''0011000B'' = 3 \<and> tpdu_len ''0'' = - 1"
  using tpdu_len_correct [of "''0011000B''"] tpdu_len_correct [of "''0''"] by (simp add: VAL_SIZE_def)

end
