(* ===== verification/Siproxy_Main.thy ===== *)
theory Siproxy_Main
  imports CallControl
begin

text \<open>
  The program as a whole, from \<^verbatim>\<open>main.c\<close>: the initialisation and the poll loop of \<open>main\<close>, the thread
  that handles events, and the callbacks of the MQTT library, as steps of one system. A step is the
  handling of one poll result, one event or one callback. The invariant of the system holds in every
  state these steps reach, in any order.
\<close>

section \<open>The event thread\<close>

text \<open>One turn of \<open>evt_handler\<close>. The handled event is freed.\<close>

definition evt_handler :: "unit program" where
  "evt_handler w =
     (if queue_length (w_events w) > 0
      then case queue_get (Some (w_events w)) None True (0, 0) (\<lambda>_. []) of
             None \<Rightarrow> Undefined
           | Some Blocked \<Rightarrow> Wait w
           | Some (Returned (ret, msg, queue)) \<Rightarrow>
               if ret = 0
               then (case (msg, queue) of
                       (Some m, Some q) \<Rightarrow>
                         (case data m of None \<Rightarrow> Undefined | Some e \<Rightarrow> state e (w\<lparr>w_events := q\<rparr>))
                     | _ \<Rightarrow> Undefined)
               else Done () w
      else Done () w)"

section \<open>Initialisation\<close>

text \<open>The arguments of the program and the results of the calls of the operating system.\<close>

record startup =
  su_argv :: "string list"
  su_getaddrinfo :: int
  su_socket :: int
  su_bind :: int
  su_connect :: int
  su_cond_init :: int
  su_mutex_init :: int
  su_port :: port
  su_pthread_create :: int

definition modem_init_cmds :: "string list" where
  "modem_init_cmds =
     [''AT'' @ CRLF_text, ''AT'' @ CRLF_text, ''AT'' @ CRLF_text, ''ATE1'' @ CRLF_text, ''AT+COLP=1'' @ CRLF_text,
      ''AT+CLIP=1'' @ CRLF_text, ''AT+CMGF=0'' @ CRLF_text,
      ''AT+CSCS='' @ [CHR 0x22] @ ''UCS2'' @ [CHR 0x22] @ CRLF_text]"

fun modem_cmds_wait :: "string list \<Rightarrow> int program" where
  "modem_cmds_wait [] w = Done 0 w"
| "modem_cmds_wait (cmd # cmds) w = follow (modem_cmd_wait cmd ''OK'' w) (\<lambda>_. modem_cmds_wait cmds)"

text \<open>
  The part of \<open>main\<close> before its loop: 0 when the loop is reached, -1 when \<open>main\<close> returns. A tracker
  that could not be allocated is used without a check.
\<close>

definition main_init :: "startup \<Rightarrow> int program" where
  "main_init su w =
     (if length (su_argv su) \<noteq> 5 then Done (- 1) w
      else if su_getaddrinfo su \<noteq> 0 then Done (- 1) w
      else if su_socket su = -1 then Done (- 1) w
      else if su_bind su = -1 then Done (- 1) w
      else if su_connect su = -1 then Done (- 1) w
      else
        let (rc, qp) = queue_init (su_cond_init su) (su_mutex_init su) (Some (w_events w));
            w1 = w\<lparr>w_do_echo := True, w_events := the qp\<rparr>
        in if rc = -1 then Done (- 1) w1
           else
             let (fd, port) = rs232_open 115200 0 8 1 CHR ''N'' (su_port su)
             in if fd = -1 then Done (- 1) w1
                else follow (modem_cmds_wait modem_init_cmds w1) (\<lambda>_ w2.
                  case telnet_init (Some telopts) 0 (tn_allocs (w_telnet w2)) of
                    None \<Rightarrow> Undefined
                  | Some t \<Rightarrow>
                      follow (mqtt_init (w2\<lparr>w_telnet := t, w_ctrl := (w_ctrl w2)\<lparr>uart_fd := fd, sock_fd := su_socket su,
                          sip_peer := snprintf 255 (su_argv su ! 3), uart := snprintf 255 (su_argv su ! 4)\<rparr>\<rparr>)) (\<lambda>_ w3.
                        if su_pthread_create su \<noteq> 0 then Exit w3 else Done 0 w3)))"

section \<open>The poll loop\<close>

text \<open>
  The two branches of the loop's body. The result is the memory of the branch's buffer and whether
  the loop goes on; a closed connection ends it, an error ends the process.
\<close>

definition main_modem :: "char list \<Rightarrow> (char list \<times> bool) program" where
  "main_modem buf w =
     (case read_line (Some buf) (length buf) (w_uart w) of
        LineOverflow \<Rightarrow> Undefined
      | LineWaits \<Rightarrow> Wait (w\<lparr>w_uart := []\<rparr>)
      | LineRead rs buf' ins \<Rightarrow>
          let w1 = w\<lparr>w_uart := ins\<rparr>
          in if rs > 0 then follow (modem_event buf' rs w1) (\<lambda>mem w2. Done (mem, True) w2)
             else if rs = 0 then Done (buf', False) w1
             else Exit w1)"

datatype recv = Received string | Closed | Failed

definition main_sip :: "recv \<Rightarrow> char list \<Rightarrow> (char list \<times> bool) program" where
  "main_sip r buffer w =
     (case r of
        Received chunk \<Rightarrow>
          follow (telnet_recv_handled 0 (length chunk) 0 0 (chunk @ drop (length chunk) buffer) w)
            (\<lambda>mem w1. Done (mem, True) w1)
      | Closed \<Rightarrow> Done (buffer, False) w
      | Failed \<Rightarrow> Exit w)"

text \<open>One turn: what \<open>poll\<close> reports for the modem, and what \<open>recv\<close> gives if it reports the socket.\<close>

definition main_turn :: "bool \<Rightarrow> recv option \<Rightarrow> char list \<times> char list \<Rightarrow> (char list \<times> char list \<times> bool) program" where
  "main_turn modem_ready sip_ready bufs w =
     (case bufs of (buf, buffer) \<Rightarrow>
       follow (if modem_ready then main_modem buf w else Done (buf, True) w) (\<lambda>(buf', go) w1.
         if \<not> go then Done (buf', buffer, False) w1
         else case sip_ready of
                None \<Rightarrow> Done (buf', buffer, True) w1
              | Some r \<Rightarrow> follow (main_sip r buffer w1) (\<lambda>(buffer', go) w2. Done (buf', buffer', go) w2)))"

text \<open>The end of \<open>main\<close>: the tracker is freed, the port closed with its control lines.\<close>

definition main_end :: "modem_lines \<Rightarrow> (int \<times> modem_lines) program" where
  "main_end lines w = Done (0, rs232_close lines) (w\<lparr>w_telnet := telnet_free (w_telnet w)\<rparr>)"

section \<open>The system\<close>

type_synonym sys = "(char list \<times> char list) \<times> world"

definition BUFFER_SIZE :: nat where "BUFFER_SIZE = 4096"

text \<open>
  \<open>outside\<close> is the environment: more input, other results of the calls to come, time. \<open>recv\<close>
  returns between 1 and 4096 bytes.
\<close>

inductive siproxy_step :: "sys \<Rightarrow> sys \<Rightarrow> bool" where
  poll: "main_turn modem_ready sip_ready bufs w = Done (buf, buffer, True) w' \<Longrightarrow>
    (\<And>chunk. sip_ready = Some (Received chunk) \<Longrightarrow> 0 < length chunk \<and> length chunk \<le> BUFFER_SIZE) \<Longrightarrow>
    siproxy_step (bufs, w) ((buf, buffer), w')"
| handle: "evt_handler w = Done () w' \<Longrightarrow> siproxy_step (bufs, w) (bufs, w')"
| message: "msgarrvd topic payload tail w = Done r w' \<Longrightarrow> siproxy_step (bufs, w) (bufs, w')"
| lost: "connlost w = Done () w' \<Longrightarrow> siproxy_step (bufs, w) (bufs, w')"
| connected: "onConnect w = Done () w' \<Longrightarrow> siproxy_step (bufs, w) (bufs, w')"
| outside: "siproxy_step (bufs, w) (bufs, w\<lparr>w_uart := w_uart w @ ins, w_writes := ws, w_sends := ss, w_rcs := rcs,
    w_date := d, w_allocs := al\<rparr>)"

inductive reachable :: "sys \<Rightarrow> bool" where
  start: "main_init su w = Done 0 w' \<Longrightarrow> w_ctrl w = siproxy_initial \<Longrightarrow> w_events w = empty_queue al \<Longrightarrow>
    tn_events (w_telnet w) = [] \<Longrightarrow>
    reachable ((replicate BUFFER_SIZE NUL, replicate BUFFER_SIZE NUL), w')"
| step: "reachable s \<Longrightarrow> siproxy_step s s' \<Longrightarrow> reachable s'"

inductive_cases siproxy_stepE: "siproxy_step (bufs, w) (bufs', w')"

section \<open>Results that satisfy a postcondition\<close>

definition ok :: "('a \<Rightarrow> 'w \<Rightarrow> bool) \<Rightarrow> ('a, 'w) result \<Rightarrow> bool" where
  "ok Q r \<longleftrightarrow> (\<forall>a w. r = Done a w \<longrightarrow> Q a w)"

lemma ok_simps [simp]: "ok Q (Done a w) \<longleftrightarrow> Q a w" "ok Q (Exit w)" "ok Q (Wait w)" "ok Q Undefined"
  by (auto simp: ok_def)

lemma ok_follow: "ok R r \<Longrightarrow> (\<And>a w. R a w \<Longrightarrow> ok Q (f a w)) \<Longrightarrow> ok Q (follow r f)"
  by (cases r) auto

lemma ok_mono: "ok R r \<Longrightarrow> (\<And>a w. R a w \<Longrightarrow> Q a w) \<Longrightarrow> ok Q r"
  by (auto simp: ok_def)

section \<open>The invariant\<close>

text \<open>
  A message of the event queue is an event the state machine knows, with a text that is a C string
  of its array.
\<close>

definition known_events :: "EVENT set" where
  "known_events = {EVT_MODEM_COLP, EVT_MODEM_CLIP, EVT_MODEM_NO_CARRIER, EVT_MODEM_NO_ANSWER, EVT_MODEM_BUSY, EVT_MODEM_OK,
     EVT_MODEM_ERROR, EVT_MODEM_SMS, EVT_SIP_CALLING, EVT_SIP_INCOMING, EVT_SIP_EARLY, EVT_SIP_CONNECTING,
     EVT_SIP_CONFIRMED, EVT_SIP_DISCONNCTD, EVT_MQTT_CALLING, EVT_MQTT_STATUS, EVT_MQTT_SMS}"

definition good_event :: "evt \<Rightarrow> bool" where
  "good_event e \<longleftrightarrow> event e \<in> known_events \<and> NUL \<notin> set (val e) \<and> length (val e) < VAL_SIZE"

definition good_msgs :: "(evt option \<times> int) list \<Rightarrow> bool" where
  "good_msgs ms \<longleftrightarrow> (\<forall>m \<in> set ms. \<exists>e. m = (Some e, event_code (event e)) \<and> good_event e)"

definition world_inv :: "world \<Rightarrow> bool" where
  "world_inv w \<longleftrightarrow> wf_queue (w_events w) \<and> good_msgs (contents (w_events w)) \<and> ctrl_inv (w_ctrl w) \<and>
     tn_events (w_telnet w) = []"

abbreviation keeps :: "('a, world) result \<Rightarrow> bool" where
  "keeps r \<equiv> ok (\<lambda>_. world_inv) r"

lemma world_inv_frame [simp]:
  "world_inv (emit x w) = world_inv w" "world_inv (uart_puts cmd w) = world_inv w" "world_inv (w\<lparr>w_uart := u\<rparr>) = world_inv w"
  "world_inv (w\<lparr>w_allocs := al\<rparr>) = world_inv w" "world_inv (w\<lparr>w_rcs := rcs\<rparr>) = world_inv w"
  "world_inv (w\<lparr>w_sends := ss\<rparr>) = world_inv w" "world_inv (w\<lparr>w_do_echo := b\<rparr>) = world_inv w"
  "world_inv (w\<lparr>w_writes := ws\<rparr>) = world_inv w" "world_inv (w\<lparr>w_date := d\<rparr>) = world_inv w"
  by (simp_all add: world_inv_def)

lemma good_msgs_append [simp]: "good_msgs (xs @ ys) \<longleftrightarrow> good_msgs xs \<and> good_msgs ys"
  by (auto simp: good_msgs_def)

lemma good_msgs_queued [simp]: "good_msgs (queued es) \<longleftrightarrow> (\<forall>e \<in> set es. good_event e)"
  by (auto simp: good_msgs_def queued_def)

lemma events_add_keeps: "world_inv w \<Longrightarrow> good_event e \<Longrightarrow> keeps (events_add e w)"
proof -
  assume inv: "world_inv w" "good_event e"
  obtain q es where "events_add e w = Done () (w\<lparr>w_events := q\<rparr>)" "wf_queue q"
    "contents q = contents (w_events w) @ queued es" "es = [e] \<or> es = []"
    using inv(1) by (auto simp: world_inv_def intro: events_add_queues [of w e])
  with inv show ?thesis
    by (auto simp: world_inv_def)
qed

lemma evt_malloc_keeps [simp]: "world_inv (snd (evt_malloc w)) = world_inv w"
  by (simp add: evt_malloc_def split: prod.splits)

text \<open>Tables only give events the state machine knows.\<close>

lemma find_event_in: "find_event buf rows = EVT_NONE \<or> find_event buf rows \<in> fst ` set rows"
  by (induction buf rows rule: find_event.induct) auto

lemma find_event_known:
  "find_event buf modem_events \<noteq> EVT_NONE \<Longrightarrow> find_event buf modem_events \<in> known_events"
  "find_event buf sip_events \<noteq> EVT_NONE \<Longrightarrow> find_event buf sip_events \<in> known_events"
  "find_event buf mqtt_events \<noteq> EVT_NONE \<Longrightarrow> find_event buf mqtt_events \<in> known_events"
proof -
  have "fst ` set modem_events \<subseteq> insert EVT_NONE known_events" "fst ` set sip_events \<subseteq> known_events"
    "fst ` set mqtt_events \<subseteq> known_events"
    by (simp_all add: modem_events_def sip_events_def mqtt_events_def known_events_def)
  note rows = this
  show "find_event buf modem_events \<noteq> EVT_NONE \<Longrightarrow> find_event buf modem_events \<in> known_events"
    using rows(1) find_event_in [of buf modem_events] by blast
  show "find_event buf sip_events \<noteq> EVT_NONE \<Longrightarrow> find_event buf sip_events \<in> known_events"
    using rows(2) find_event_in [of buf sip_events] by blast
  show "find_event buf mqtt_events \<noteq> EVT_NONE \<Longrightarrow> find_event buf mqtt_events \<in> known_events"
    using rows(3) find_event_in [of buf mqtt_events] by blast
qed

lemma good_snprintf: "ev \<in> known_events \<Longrightarrow> NUL \<notin> set s \<Longrightarrow> good_event \<lparr>event = ev, val = snprintf VAL_SIZE s\<rparr>"
  using length_snprintf [of VAL_SIZE s] by (simp add: good_event_def snprintf_no_NUL VAL_SIZE_def)

section \<open>Every operation keeps it\<close>

lemma mqtt_event_queue_keeps: "world_inv w \<Longrightarrow> keeps (mqtt_event_queue topic payload tail w)"
proof -
  assume inv: "world_inv w"
  have "good_event \<lparr>event = find_event topic mqtt_events, val = snprintf n (c_str mem)\<rparr>"
    if "find_event topic mqtt_events \<noteq> EVT_NONE" "length (snprintf n (c_str mem)) < VAL_SIZE" for n mem
    using that find_event_known(3) snprintf_no_NUL [OF c_str_no_NUL] by (simp add: good_event_def)
  moreover have "world_inv w1" if "evt_malloc w = (b, w1)" for b w1
    using evt_malloc_keeps [of w] inv that by simp
  ultimately show ?thesis
    using inv by (auto simp: mqtt_event_queue_def Let_def not_le intro!: events_add_keeps split: prod.splits)
qed

lemma msgarrvd_keeps: "world_inv w \<Longrightarrow> keeps (msgarrvd topic payload tail w)"
  unfolding msgarrvd_def by (rule ok_follow [OF mqtt_event_queue_keeps]) auto

lemma sip_event_queue_keeps: "world_inv w \<Longrightarrow> NUL \<notin> set l \<Longrightarrow> keeps (sip_event_queue l w)"
  using find_event_known(2) [of l] good_snprintf [of _ l]
  by (auto simp: sip_event_queue_eq Let_def find_event_tables intro!: events_add_keeps)

lemma sip_lines_keeps: "world_inv w \<Longrightarrow> \<forall>l \<in> set ls. NUL \<notin> set l \<Longrightarrow> keeps (sip_lines ls w)"
proof (induction ls arbitrary: w)
  case (Cons l ls)
  then show ?case
    using ok_follow [OF sip_event_queue_keeps [of w l], of "\<lambda>_. world_inv" "\<lambda>_. sip_lines ls"] by auto
qed simp

lemma strtok_lines_sub: "l \<in> set (strtok_lines s) \<Longrightarrow> set l \<subseteq> set s"
proof (induction s rule: strtok_lines.induct)
  case (1 s)
  let ?s1 = "dropWhile (\<lambda>c. c = CHR 0x0A) s"
  show ?case
  proof (cases "?s1 = []")
    case False
    then have "l = takeWhile (\<lambda>c. c \<noteq> CHR 0x0A) ?s1 \<or> l \<in> set (strtok_lines (drop 1 (dropWhile (\<lambda>c. c \<noteq> CHR 0x0A) ?s1)))"
      using "1.prems" unfolding strtok_lines.simps [of s] Let_def by (simp only: False if_False list.set insert_iff)
    then show ?thesis
    proof
      assume "l = takeWhile (\<lambda>c. c \<noteq> CHR 0x0A) ?s1"
      then show ?thesis
        by (auto dest!: set_takeWhileD set_dropWhileD)
    next
      assume "l \<in> set (strtok_lines (drop 1 (dropWhile (\<lambda>c. c \<noteq> CHR 0x0A) ?s1)))"
      then have "set l \<subseteq> set (drop 1 (dropWhile (\<lambda>c. c \<noteq> CHR 0x0A) ?s1))"
        using "1.IH" [OF refl False] by simp
      then show ?thesis
        by (auto dest!: set_dropWhileD in_set_dropD subsetD)
    qed
  qed (use "1.prems" in \<open>simp add: strtok_lines.simps [of s]\<close>)
qed

lemma sip_send_keeps: "world_inv w \<Longrightarrow> keeps (sip_send bs w)"
  by (auto simp: sip_send_def Let_def split: prod.splits)

lemma sip_sends_keeps: "world_inv w \<Longrightarrow> keeps (sip_sends evs w)"
proof (induction evs w rule: sip_sends.induct)
  case (2 bs evs w)
  then show ?case
    by (auto simp: sip_send_def Let_def split: prod.splits)
qed auto

lemma sip_event_keeps:
  assumes "world_inv w"
  shows "ok (\<lambda>mem' w'. world_inv w' \<and> length mem' = length mem) (sip_event ev mem w)"
proof (cases ev)
  case (TELNET_EV_DATA bs n)
  have "length (strtok_mem b mem) = length mem" for b
    by (induction b mem rule: strtok_mem.induct) auto
  moreover have "\<forall>l \<in> set (strtok_lines (c_str mem)). NUL \<notin> set l"
    using strtok_lines_sub c_str_no_NUL by blast
  ultimately show ?thesis
    using TELNET_EV_DATA assms by (auto simp: sip_event_def intro!: ok_follow [OF sip_lines_keeps])
next
  case (TELNET_EV_SEND bs)
  then show ?thesis
    using assms by (auto simp: sip_event_def intro!: ok_follow [OF sip_send_keeps])
next
  case (TELNET_EV_TTYPE cmd name)
  then show ?thesis
    using assms by (auto simp: sip_event_def intro!: ok_follow [OF sip_sends_keeps] split: option.splits)
qed (use assms in \<open>auto simp: sip_event_def\<close>)

lemma sip_dispatch_keeps:
  "world_inv w \<Longrightarrow> ok (\<lambda>mem' w'. world_inv w' \<and> length mem' = length mem) (sip_dispatch own p evs mem w)"
proof (induction evs arbitrary: mem w)
  case (Cons ev evs)
  show ?case
  proof (cases own)
    case None
    have "ok (\<lambda>m w'. world_inv w' \<and> length m = length (drop p mem)) (sip_event ev (drop p mem) w)"
      by (rule sip_event_keeps [OF Cons.prems])
    moreover have "ok (\<lambda>mem' w'. world_inv w' \<and> length mem' = length mem) (sip_dispatch own p evs (take p mem @ m) w')"
      if "world_inv w' \<and> length m = length (drop p mem)" for m w'
    proof -
      have "length (take p mem @ m) = length mem"
        using that by (metis append_take_drop_id length_append)
      then show ?thesis
        using Cons.IH [of w' "take p mem @ m"] that by (simp only:)
    qed
    ultimately show ?thesis
      unfolding sip_dispatch.simps None option.case by (rule ok_follow)
  next
    case (Some b)
    show ?thesis
      unfolding sip_dispatch.simps Some option.case using Cons.IH [unfolded Some]
      by (intro ok_follow [OF sip_event_keeps [OF Cons.prems]]) auto
  qed
qed simp

lemma telnet_recv_keeps:
  "world_inv w \<Longrightarrow> ok (\<lambda>mem' w'. world_inv w' \<and> length mem' = length mem) (telnet_recv_handled base n i start mem w)"
proof (induction "n - i" arbitrary: base n i start mem w rule: less_induct)
  case less
  let ?bytes = "map byte_of_char (take n (drop base mem))" and ?t = "(w_telnet w)\<lparr>tn_events := []\<rparr>"
  have tel: "world_inv (w\<lparr>w_telnet := t\<lparr>tn_events := []\<rparr>\<rparr>)" for t
    using less.prems by (simp add: world_inv_def)
  show ?case
  proof (cases "i < n")
    case False
    then show ?thesis
      using sip_dispatch_keeps [OF tel] by (subst telnet_recv_handled.simps) (simp add: Let_def)
  next
    case True
    show ?thesis
    proof (cases "process_step ?bytes i start (?bytes ! i) ?t")
      case None
      with True show ?thesis
        by (subst telnet_recv_handled.simps) (simp add: Let_def)
    next
      case (Some res)
      have eq: "telnet_recv_handled base n i start mem w =
          follow (sip_dispatch (if tn_state ?t = TELNET_STATE_IAC then Some (mem ! (base + i)) else None) (base + start)
              (tn_events (step_tracker res)) mem (w\<lparr>w_telnet := (step_tracker res)\<lparr>tn_events := []\<rparr>\<rparr>))
            (\<lambda>mem' w'. case res of Inl (start', _) \<Rightarrow> telnet_recv_handled base n (i + 1) start' mem' w'
               | Inr _ \<Rightarrow> telnet_recv_handled (base + i + 1) (n - (i + 1)) 0 0 mem' w')"
        using True Some by (subst telnet_recv_handled.simps) (simp only: Let_def if_True option.case)
      have cont: "ok (\<lambda>mem' w'. world_inv w' \<and> length mem' = length mem)
          (case res of Inl (start', _) \<Rightarrow> telnet_recv_handled base n (i + 1) start' mem' w'
               | Inr _ \<Rightarrow> telnet_recv_handled (base + i + 1) (n - (i + 1)) 0 0 mem' w')"
        if "world_inv w' \<and> length mem' = length mem" for mem' w'
      proof (cases res)
        case (Inl p)
        then show ?thesis
          using less.hyps [where n = n and i = "i + 1" and w = w' and base = base and start = "fst p" and mem = mem'] that True by (cases p) simp
      next
        case (Inr t)
        then show ?thesis
          using less.hyps [where n = "n - (i + 1)" and i = 0 and w = w' and base = "base + i + 1" and start = 0 and mem = mem'] that True by simp
      qed
      show ?thesis
        unfolding eq by (rule ok_follow [OF sip_dispatch_keeps [OF tel]]) (rule cont)
    qed
  qed
qed

lemma main_sip_keeps:
  assumes "world_inv w" "length buffer = BUFFER_SIZE" "\<And>chunk. r = Received chunk \<Longrightarrow> length chunk \<le> BUFFER_SIZE"
  shows "ok (\<lambda>(buffer', go) w'. world_inv w' \<and> length buffer' = BUFFER_SIZE) (main_sip r buffer w)"
proof (cases r)
  case (Received chunk)
  then have "length (chunk @ drop (length chunk) buffer) = BUFFER_SIZE"
    using assms(2,3) by simp
  with Received show ?thesis
    unfolding main_sip_def by (auto intro!: ok_follow [OF telnet_recv_keeps [OF assms(1)]])
qed (use assms in \<open>simp_all add: main_sip_def\<close>)

section \<open>The modem\<close>

lemma read_line_loop_length:
  "read_line_loop n tot mem ins = LineRead r mem' rest \<Longrightarrow> length mem' = length mem"
  by (induction n tot mem ins rule: read_line_loop.induct) (auto split: if_splits option.splits)

lemma sms_store_good:
  assumes "sms_store line old = Some (Some v)" "NUL \<notin> set line" "\<And>u. old = Some u \<Longrightarrow> NUL \<notin> set u \<and> length u < VAL_SIZE"
  shows "NUL \<notin> set v \<and> length v < VAL_SIZE"
proof -
  define len where "len = (if length line > 2 \<and> line ! (length line - 2) = CHR ''.'' then length line - 1 else length line)"
  have "sms_store line old = (if len = 0 then Some old else if len > VAL_SIZE then None else Some (Some (snprintf len line)))"
    by (simp add: sms_store_def Let_def len_def)
  with assms snprintf_no_NUL [OF assms(2), of len] length_snprintf [of len line] show ?thesis
    by (cases "len = 0"; cases "len > VAL_SIZE") auto
qed

abbreviation good_text :: "string option \<Rightarrow> bool" where
  "good_text stored \<equiv> (\<forall>v. stored = Some v \<longrightarrow> NUL \<notin> set v \<and> length v < VAL_SIZE)"

lemma read_line_consumes_all: "read_line (Some mem) n ins = LineRead r mem' rest \<Longrightarrow> 0 < n \<Longrightarrow> length rest < length ins"
  by (auto simp: read_line_def dest: read_line_consumes)

lemma sms_loop_keeps:
  "world_inv w \<Longrightarrow> good_text stored \<Longrightarrow> ok (\<lambda>s w'. world_inv w' \<and> good_text s) (sms_loop mem stored w)"
proof (induction "length (w_uart w)" arbitrary: mem stored w rule: less_induct)
  case less
  show ?case
  proof (cases "read_line (Some mem) 4095 (w_uart w)")
    case (LineRead n mem1 ins)
    define w1 where "w1 = w\<lparr>w_uart := ins\<rparr>"
    define mem2 where "mem2 = (if n > 0 then dots dot_signed (nat n) (mem1[nat n := NUL]) else mem1)"
    have IH: "ok (\<lambda>s w'. world_inv w' \<and> good_text s) (sms_loop mem2 stored' w1)" if "good_text stored'" for stored'
      using less.hyps [of w1 stored' mem2] less.prems that read_line_consumes_all [OF LineRead] by (simp add: w1_def)
    have "good_text stored'" if "sms_store (c_str mem2) stored = Some stored'" for stored'
      using sms_store_good [of "c_str mem2" stored] that less.prems(2) by (cases stored') auto
    moreover have "world_inv w1"
      using less.prems(1) by (simp add: w1_def)
    ultimately show ?thesis
      using IH less.prems(2) unfolding sms_loop.simps [of mem stored w] LineRead line_read.case Let_def
        w1_def [symmetric] mem2_def [symmetric]
      by (auto split: option.splits)
  qed (use less.prems in \<open>subst sms_loop.simps, simp\<close>)+
qed

lemma modem_cmd_wait_loop_keeps: "world_inv w \<Longrightarrow> keeps (modem_cmd_wait_loop respond mem w)"
proof (induction "length (w_uart w)" arbitrary: mem w rule: less_induct)
  case less
  show ?case
  proof (cases "read_line (Some mem) 4095 (w_uart w)")
    case (LineRead n mem1 ins)
    have "keeps (modem_cmd_wait_loop respond mem2 (w\<lparr>w_uart := ins\<rparr>))" for mem2
      using less read_line_consumes_all [OF LineRead] by simp
    then show ?thesis
      using less.prems LineRead by (subst modem_cmd_wait_loop.simps) (auto simp: Let_def)
  qed (use less.prems in \<open>subst modem_cmd_wait_loop.simps, simp\<close>)+
qed

lemma modem_cmds_wait_keeps: "world_inv w \<Longrightarrow> keeps (modem_cmds_wait cmds w)"
proof (induction cmds arbitrary: w)
  case (Cons cmd cmds)
  then show ?case
    by (auto simp: modem_cmd_wait_def intro!: ok_follow [OF modem_cmd_wait_loop_keeps])
qed simp

lemma modem_cmd_keeps: "world_inv w \<Longrightarrow> keeps (modem_cmd cmd w)"
  by (simp add: modem_cmd_def)

lemma modem_event_sms_queue_keeps:
  assumes "world_inv w"
  shows "keeps (modem_event_sms_queue buf w)"
proof -
  obtain b w1 where w1: "evt_malloc w = (b, w1)" "world_inv w1"
    using assms evt_malloc_keeps [of w] by (cases "evt_malloc w") auto
  have "keeps (follow (sms_loop mem None w2) (\<lambda>stored w3. follow (modem_delete_sms index w3) (\<lambda>_ w4.
      case stored of None \<Rightarrow> Undefined | Some v \<Rightarrow> events_add \<lparr>event = EVT_MODEM_SMS, val = v\<rparr> w4)))"
    if "world_inv w2" for mem w2 index
    by (rule ok_follow [OF sms_loop_keeps [OF that]])
      (auto simp: modem_delete_sms_def modem_cmd_def good_event_def known_events_def intro!: events_add_keeps split: option.splits)
  then show ?thesis
    using assms w1 by (auto simp: modem_event_sms_queue_def modem_get_sms_def modem_cmd_def split: option.splits)
qed

lemma modem_event_keeps:
  assumes "world_inv w"
  shows "ok (\<lambda>mem' w'. world_inv w' \<and> length mem' = length mem) (modem_event mem n w)"
proof -
  obtain b w1 where w1: "evt_malloc w = (b, w1)" "world_inv w1"
    using assms evt_malloc_keeps [of w] by (cases "evt_malloc w") auto
  have "keeps (modem_event_queue (c_str mem1) w)" for mem1
    using assms modem_event_sms_queue_keeps [OF assms] find_event_known(1) [of "c_str mem1"] w1
    by (auto simp: modem_event_queue_def Let_def intro!: events_add_keeps good_snprintf)
  then show ?thesis
    using assms by (auto simp: modem_event_def Let_def dots_def intro!: ok_follow)
qed

lemma main_modem_keeps:
  assumes "world_inv w" "length buf = BUFFER_SIZE"
  shows "ok (\<lambda>(buf', go) w'. world_inv w' \<and> length buf' = BUFFER_SIZE) (main_modem buf w)"
proof (cases "read_line (Some buf) (length buf) (w_uart w)")
  case (LineRead rs buf' ins)
  then have "length buf' = BUFFER_SIZE"
    using assms(2) by (auto simp: read_line_def BUFFER_SIZE_def dest: read_line_loop_length)
  then show ?thesis
    using LineRead assms(1) unfolding main_modem_def
    by (auto simp: Let_def intro!: ok_follow [OF modem_event_keeps])
qed (simp_all add: main_modem_def)

lemma main_turn_keeps:
  assumes "world_inv w" "length (fst bufs) = BUFFER_SIZE" "length (snd bufs) = BUFFER_SIZE"
    "\<And>chunk. sip_ready = Some (Received chunk) \<Longrightarrow> length chunk \<le> BUFFER_SIZE"
  shows "ok (\<lambda>(buf, buffer, go) w'. world_inv w' \<and> length buf = BUFFER_SIZE \<and> length buffer = BUFFER_SIZE)
    (main_turn modem_ready sip_ready bufs w)"
proof -
  obtain buf buffer where bufs: "bufs = (buf, buffer)"
    by (cases bufs)
  have modem: "ok (\<lambda>(buf', go) w'. world_inv w' \<and> length buf' = BUFFER_SIZE) (if modem_ready then main_modem buf w else Done (buf, True) w)"
    using main_modem_keeps assms(1,2) bufs by simp
  have sip: "ok (\<lambda>(buf, buffer, go) w'. world_inv w' \<and> length buf = BUFFER_SIZE \<and> length buffer = BUFFER_SIZE)
      (follow (main_sip r buffer w1) (\<lambda>(buffer', go) w2. Done (buf', buffer', go) w2))"
    if "world_inv w1" "length buf' = BUFFER_SIZE" "sip_ready = Some r" for r w1 buf'
    using assms(3,4) bufs that by (intro ok_follow [OF main_sip_keeps]) auto
  show ?thesis
    unfolding main_turn_def bufs prod.case using assms(3) bufs
    by (intro ok_follow [OF modem]) (auto intro!: sip split: option.splits)
qed

section \<open>Events and callbacks\<close>

text \<open>The part of the invariant that does not speak of the control structure.\<close>

definition events_ok :: "world \<Rightarrow> bool" where
  "events_ok w \<longleftrightarrow> wf_queue (w_events w) \<and> good_msgs (contents (w_events w)) \<and> tn_events (w_telnet w) = []"

lemma events_ok_frame [simp]:
  "events_ok (emit x w) = events_ok w" "events_ok (uart_puts cmd w) = events_ok w" "events_ok (w\<lparr>w_ctrl := c\<rparr>) = events_ok w"
  "events_ok (w\<lparr>w_sends := ss\<rparr>) = events_ok w" "events_ok (w\<lparr>w_rcs := rcs\<rparr>) = events_ok w"
  "tn_events t = [] \<Longrightarrow> events_ok w \<Longrightarrow> events_ok (w\<lparr>w_telnet := t\<rparr>)"
  by (simp_all add: events_ok_def)

lemma world_inv_events_ok: "world_inv w \<longleftrightarrow> events_ok w \<and> ctrl_inv (w_ctrl w)"
  by (auto simp: world_inv_def events_ok_def)

abbreviation keeps_events :: "('a, world) result \<Rightarrow> bool" where
  "keeps_events r \<equiv> ok (\<lambda>_. events_ok) r"

lemma mqtt_call_events: "events_ok (snd (mqtt_call x w)) = events_ok w"
  by (simp add: mqtt_call_def split: list.splits)

lemma mqtt_pub_events: "events_ok w \<Longrightarrow> keeps_events (mqtt_pub topic payload r w)"
  using mqtt_call_events [of "MQTT_SEND topic payload 2 r" w] by (auto simp: mqtt_pub_def split: prod.splits)

lemma sip_sends_events: "events_ok w \<Longrightarrow> keeps_events (sip_sends evs w)"
proof (induction evs w rule: sip_sends.induct)
  case (2 bs evs w)
  then show ?case
    by (auto simp: sip_send_def Let_def split: prod.splits)
qed auto

lemma telnet_input_events: "events_ok w \<Longrightarrow> keeps_events (telnet_input cs w)"
proof (induction cs arbitrary: w)
  case (Cons c cs)
  then show ?case
    by (auto simp: telnet_out_def Let_def intro!: ok_follow [OF sip_sends_events])
qed simp

lemma command_events:
  "events_ok w \<Longrightarrow> keeps_events (sip_make_call peer w)" "events_ok w \<Longrightarrow> keeps_events (sip_answer_call w)"
  "events_ok w \<Longrightarrow> keeps_events (sip_hangup_call w)" "events_ok w \<Longrightarrow> keeps_events (modem_make_call n w)"
  "events_ok w \<Longrightarrow> keeps_events (modem_answer_call w)" "events_ok w \<Longrightarrow> keeps_events (modem_hangup_call w)"
  "events_ok w \<Longrightarrow> keeps_events (modem_send_sms v k w)"
  by (auto simp: sip_make_call_def sip_answer_call_def sip_hangup_call_def telnet_input_events modem_make_call_def
      modem_answer_call_def modem_hangup_call_def modem_send_sms_def modem_cmd_def Let_def)

lemmas events_intros = ok_follow [OF mqtt_pub_events] ok_follow [OF command_events(1)] ok_follow [OF command_events(2)]
  ok_follow [OF command_events(3)] ok_follow [OF command_events(4)] ok_follow [OF command_events(5)]
  ok_follow [OF command_events(6)] ok_follow [OF command_events(7)]

lemma ended_events: "events_ok w \<Longrightarrow> keeps_events (modem_ended w)" "events_ok w \<Longrightarrow> keeps_events (sip_ended w)"
  by (auto simp: modem_ended_def sip_ended_def intro!: events_intros)

lemma sip_confirmed_events: "events_ok w \<Longrightarrow> keeps_events (sip_confirmed w)"
  unfolding sip_confirmed_def Let_def
  by (rule ok_follow [of "\<lambda>_. events_ok"]) (auto intro!: events_intros)

lemma state_init_events: "events_ok w \<Longrightarrow> keeps_events (state_init e w)"
  unfolding state_init_def Let_def by (cases "event e") (auto intro!: events_intros split: option.splits)

lemma state_incoming_events: "events_ok w \<Longrightarrow> keeps_events (state_incoming e w)"
  unfolding state_incoming_def by (cases "event e") (auto intro!: events_intros ended_events sip_confirmed_events)

lemma state_confirmed_events: "events_ok w \<Longrightarrow> keeps_events (state_confirmed e w)"
  unfolding state_confirmed_def by (cases "event e") (auto intro!: ended_events)

lemma state_events: "events_ok w \<Longrightarrow> keeps_events (state e w)"
proof (cases "is_sms (event e)")
  case True
  assume "events_ok w"
  with True show ?thesis
    by (auto simp: state_def state_tbl_def intro!: events_intros)
next
  case False
  assume "events_ok w"
  then show ?thesis
    unfolding state_dispatch [OF False]
    by (cases "state_of (w_ctrl w)")
      (simp_all add: state_tbl_def state_init_events state_incoming_events state_confirmed_events idle_handlers)
qed

lemma state_keeps: "world_inv w \<Longrightarrow> keeps (state e w)"
  using state_events [of w e] state_ctrl_inv [of e w] by (auto simp: world_inv_events_ok ok_def)

lemma evt_handler_pop:
  assumes "wf_queue (w_events w)" "contents (w_events w) = (Some e, ty) # ms"
  obtains q where "evt_handler w = state e (w\<lparr>w_events := q\<rparr>)" "wf_queue q" "contents q = ms"
proof -
  from assms(1) obtain as ps where inv: "queue_inv (w_events w) as ps"
    by (auto simp: wf_queue_def)
  then obtain a as' where as: "as = a # as'"
    using assms(2) by (cases as) (auto simp: contents_inv)
  have m: "node_msg (q_heap (w_events w)) a = (Some e, ty)" "map (node_msg (q_heap (w_events w))) as' = ms"
    using assms(2) inv as by (auto simp: contents_inv)
  obtain q ps' where q: "queue_get (Some (w_events w)) None True (0, 0) (\<lambda>_. []) =
      Some (Returned (0, Some \<lparr>data = Some e, msgtype = ty, qlength = int (length as')\<rparr>, Some q))" "queue_inv q as' ps'" "contents q = ms"
    by (rule queue_get_nonempty [OF inv [unfolded as], of None "(0, 0)" "\<lambda>_. []"]) (use m that in auto)
  moreover have "queue_length (w_events w) > 0"
    using eq.len_law [OF assms(1)] assms(2) by simp
  ultimately show ?thesis
    by (intro that [of q]) (auto simp: evt_handler_def wf_queue_def)
qed

lemma evt_handler_keeps:
  assumes "world_inv w"
  shows "keeps (evt_handler w)"
proof (cases "contents (w_events w)")
  case Nil
  then have "queue_length (w_events w) = 0"
    using assms eq.len_law [of "w_events w"] by (simp add: world_inv_def)
  then show ?thesis
    using assms by (simp add: evt_handler_def)
next
  case (Cons m ms)
  with assms obtain e where m: "m = (Some e, event_code (event e))" "wf_queue (w_events w)"
    by (auto simp: world_inv_def good_msgs_def)
  obtain q where q: "evt_handler w = state e (w\<lparr>w_events := q\<rparr>)" "wf_queue q" "contents q = ms"
    using evt_handler_pop [of w e] m Cons by metis
  have "world_inv (w\<lparr>w_events := q\<rparr>)"
    using assms q(2,3) Cons by (simp add: world_inv_def good_msgs_def)
  then show ?thesis
    using q(1) state_keeps by simp
qed

lemma mqtt_call_keeps: "world_inv (snd (mqtt_call x w)) = world_inv w"
  by (simp add: mqtt_call_def split: list.splits)

lemma mqtt_call_world: "mqtt_call x w = (rc, w') \<Longrightarrow> world_inv w' = world_inv w"
  using mqtt_call_keeps [of x w] by simp

lemma callbacks_keep: "world_inv w \<Longrightarrow> keeps (connlost w)" "world_inv w \<Longrightarrow> keeps (onConnect w)" "world_inv w \<Longrightarrow> keeps (mqtt_init w)"
  by (auto simp: connlost_def onConnect_def mqtt_init_def Let_def mqtt_call_world split: prod.splits dest!: mqtt_call_world)

lemma queue_init_empty: "queue_init c m (Some (empty_queue al)) = (if c \<noteq> 0 then c else m, Some (empty_queue al))"
  by (simp add: queue_init_def empty_queue_def Let_def)

lemma main_init_keeps:
  assumes "w_ctrl w = siproxy_initial" "w_events w = empty_queue al" "tn_events (w_telnet w) = []" "main_init su w = Done 0 w'"
  shows "world_inv w'"
proof -
  let ?w1 = "w\<lparr>w_do_echo := True, w_events := empty_queue al\<rparr>"
  have w1: "world_inv ?w1"
    using assms(1,3) by (simp add: world_inv_def good_msgs_def ctrl_inv_initial)
  obtain n w2 t fd where w2: "modem_cmds_wait modem_init_cmds ?w1 = Done n w2"
    "telnet_init (Some telopts) 0 (tn_allocs (w_telnet w2)) = Some t"
    "\<exists>rc. mqtt_init (w2\<lparr>w_telnet := t, w_ctrl := (w_ctrl w2)\<lparr>uart_fd := fd, sock_fd := su_socket su,
       sip_peer := snprintf 255 (su_argv su ! 3), uart := snprintf 255 (su_argv su ! 4)\<rparr>\<rparr>) = Done rc w'"
    using assms(4) unfolding main_init_def assms(2) queue_init_empty
    by (auto simp: Let_def follow_Done split: if_splits prod.splits option.splits)
  have "world_inv w2"
    using modem_cmds_wait_keeps [OF w1, of modem_init_cmds] w2(1) by simp
  moreover have "tn_events t = []"
    using w2(2) by (auto simp: telnet_init_def split: prod.splits if_splits)
  ultimately have "world_inv (w2\<lparr>w_telnet := t, w_ctrl := (w_ctrl w2)\<lparr>uart_fd := fd, sock_fd := su_socket su,
       sip_peer := snprintf 255 (su_argv su ! 3), uart := snprintf 255 (su_argv su ! 4)\<rparr>\<rparr>)"
    by (simp add: world_inv_def ctrl_inv_def cong: STATE.case_cong CALL_INIT.case_cong)
  then show ?thesis
    using callbacks_keep(3) w2(3) by (metis ok_simps(1))
qed

definition sys_inv :: "sys \<Rightarrow> bool" where
  "sys_inv s \<longleftrightarrow> (case s of ((buf, buffer), w) \<Rightarrow> length buf = BUFFER_SIZE \<and> length buffer = BUFFER_SIZE \<and> world_inv w)"

lemma siproxy_step_inv:
  assumes "siproxy_step s s'" "sys_inv s"
  shows "sys_inv s'"
  using assms
proof (induction rule: siproxy_step.induct)
  case (poll modem_ready sip_ready bufs w buf buffer w')
  then show ?case
    using main_turn_keeps [of w bufs sip_ready modem_ready] by (auto simp: sys_inv_def split: prod.splits)
next
  case (handle w w' bufs)
  then show ?case
    using evt_handler_keeps [of w] by (auto simp: sys_inv_def split: prod.splits)
next
  case (message topic payload tail w r w' bufs)
  then show ?case
    using msgarrvd_keeps [of w topic payload tail] by (auto simp: sys_inv_def split: prod.splits)
next
  case (lost w w' bufs)
  then show ?case
    using callbacks_keep(1) [of w] by (auto simp: sys_inv_def split: prod.splits)
next
  case (connected w w' bufs)
  then show ?case
    using callbacks_keep(2) [of w] by (auto simp: sys_inv_def split: prod.splits)
next
  case outside
  then show ?case
    by (auto simp: sys_inv_def split: prod.splits)
qed

lemma reachable_sys_inv: "reachable s \<Longrightarrow> sys_inv s"
proof (induction rule: reachable.induct)
  case (start su w w' al)
  then show ?case
    using main_init_keeps by (simp add: sys_inv_def)
qed (rule siproxy_step_inv)

section \<open>Waiting for the modem's answers\<close>

definition short_line :: "string \<Rightarrow> bool" where
  "short_line l \<longleftrightarrow> LF_char \<notin> set l \<and> length l < 4093"

text \<open>An answer: lines without the expected text, and then one with it.\<close>

definition answer :: "string \<Rightarrow> string list \<Rightarrow> bool" where
  "answer respond ls \<longleftrightarrow> ls \<noteq> [] \<and> list_all short_line ls \<and>
     (\<forall>l \<in> set (butlast ls). \<not> match respond (map dot_unsigned l @ ''..'')) \<and> match respond (map dot_unsigned (last ls) @ ''..'')"

lemma modem_cmd_wait_loop_line:
  assumes "short_line l" "length mem = 4096" "w_uart w = as_input (l # ls) @ rest"
  obtains mem2 where "length mem2 = 4096"
    "modem_cmd_wait_loop respond mem w =
       (if match respond (map dot_unsigned l @ ''..'') then Done 0 (w\<lparr>w_uart := as_input ls @ rest\<rparr>)
        else modem_cmd_wait_loop respond mem2 (w\<lparr>w_uart := as_input ls @ rest\<rparr>))"
proof -
  let ?l = "l @ [CHR 0x0D]" and ?rest = "as_input ls @ rest" and ?s = "map dot_unsigned l @ ''..''"
  have l: "LF_char \<notin> set ?l" "length ?l < 4094" "map dot_unsigned (?l @ [LF_char]) = ?s"
    using assms(1) by (auto simp: short_line_def dot_unsigned_def)
  obtain mem1 where m: "read_line (Some mem) 4095 (w_uart w) = LineRead (int (length ?l + 1)) mem1 ?rest"
    "mem1[length ?l + 1 := NUL] = mem1" "dots dot_unsigned (length ?l + 1) mem1 = ?s @ NUL # drop (length ?l + 2) mem"
    using read_line_answer [OF delivers_bytes l(1,2) assms(2), of ?rest dot_unsigned] assms(3) l(3)
    by (auto simp: as_input_simps)
  let ?mem2 = "?s @ NUL # drop (length ?l + 2) mem"
  have c: "c_str ?mem2 = ?s"
    using no_NUL_dots(2) [of l] by (simp add: c_str_append)
  have n: "nat (int (length ?l + 1)) = length ?l + 1" "0 < int (length ?l + 1)"
    by simp_all
  have "modem_cmd_wait_loop respond mem w =
       (if match respond ?s then Done 0 (w\<lparr>w_uart := ?rest\<rparr>) else modem_cmd_wait_loop respond ?mem2 (w\<lparr>w_uart := ?rest\<rparr>))"
    unfolding modem_cmd_wait_loop.simps [of respond mem w] m(1) line_read.case Let_def n if_P [OF n(2)] m(2,3) c by simp
  moreover have "length ?mem2 = 4096"
    using assms(1,2) by (simp add: short_line_def)
  ultimately show ?thesis
    using that by blast
qed

lemma modem_cmd_wait_loop_answer:
  assumes "answer respond ls" "length mem = 4096" "w_uart w = as_input ls @ rest"
  shows "modem_cmd_wait_loop respond mem w = Done 0 (w\<lparr>w_uart := rest\<rparr>)"
  using assms
proof (induction ls arbitrary: mem w)
  case (Cons l ls)
  obtain mem2 where m: "length mem2 = 4096" "modem_cmd_wait_loop respond mem w =
       (if match respond (map dot_unsigned l @ ''..'') then Done 0 (w\<lparr>w_uart := as_input ls @ rest\<rparr>)
        else modem_cmd_wait_loop respond mem2 (w\<lparr>w_uart := as_input ls @ rest\<rparr>))"
    using modem_cmd_wait_loop_line [of l mem w ls rest respond] Cons.prems by (auto simp: answer_def)
  show ?case
  proof (cases "ls = []")
    case True
    then show ?thesis
      using m(2) Cons.prems(1) by (simp add: answer_def as_input_simps)
  next
    case False
    then have "\<not> match respond (map dot_unsigned l @ ''..'')" "answer respond ls"
      using Cons.prems(1) by (auto simp: answer_def)
    then show ?thesis
      using m Cons.IH [of mem2 "w\<lparr>w_uart := as_input ls @ rest\<rparr>"] by simp
  qed
qed (simp add: answer_def)

lemma modem_cmds_wait_answers:
  assumes "list_all (answer ''OK'') answers" "length answers = length cmds" "w_uart w = concat (map as_input answers) @ rest"
    "w_writes w = []" "list_all (\<lambda>cmd. NUL \<notin> set cmd) cmds"
  shows "modem_cmds_wait cmds w = Done 0 (w\<lparr>w_uart := rest, w_out := w_out w @ map UART_OUT cmds\<rparr>)"
  using assms
proof (induction cmds arbitrary: w answers)
  case Nil
  then show ?case
    by (cases w) simp
next
  case (Cons cmd cmds)
  then obtain a as where a: "answers = a # as"
    by (cases answers) auto
  let ?w = "emit (UART_OUT cmd) w"
  have "modem_cmd_wait cmd ''OK'' w = Done 0 (?w\<lparr>w_uart := concat (map as_input as) @ rest\<rparr>)"
    using modem_cmd_wait_loop_answer [of "''OK''" a "replicate 4096 NUL" ?w "concat (map as_input as) @ rest"] Cons.prems a
    by (simp add: modem_cmd_wait_def uart_puts_ok c_str_id)
  moreover have "modem_cmds_wait cmds (?w\<lparr>w_uart := concat (map as_input as) @ rest\<rparr>) =
      Done 0 (?w\<lparr>w_uart := rest, w_out := w_out ?w @ map UART_OUT cmds\<rparr>)"
    using Cons.IH [of as "?w\<lparr>w_uart := concat (map as_input as) @ rest\<rparr>"] Cons.prems a by simp
  ultimately show ?case
    by (simp add: emit_def)
qed

section \<open>A line of the modem\<close>

lemma main_modem_line:
  assumes "short_line l" "length buf = BUFFER_SIZE" "w_uart w = as_input (l # ls) @ rest"
  obtains buf' where "main_modem buf w =
    follow (modem_event_queue (map dot_unsigned l @ ''..'') (w\<lparr>w_uart := as_input ls @ rest\<rparr>)) (\<lambda>_ w1. Done (buf', True) w1)"
proof -
  let ?l = "l @ [CHR 0x0D]" and ?rest = "as_input ls @ rest" and ?s = "map dot_unsigned l @ ''..''"
  let ?mem = "(?l @ [LF_char]) @ NUL # drop (length ?l + 2) buf"
  have l: "LF_char \<notin> set ?l" "length ?l < 4094" "map dot_unsigned (?l @ [LF_char]) = ?s"
    using assms(1) by (auto simp: short_line_def dot_unsigned_def)
  have r: "read_line (Some buf) (length buf) (w_uart w) = LineRead (int (length ?l + 1)) ?mem ?rest"
    using read_line_loop_line [OF delivers_bytes l(1), of 0 "length buf" buf "?l @ [LF_char]" ?rest] l(2) assms(2,3)
    by (simp add: read_line_def BUFFER_SIZE_def as_input_simps)
  have "?mem[length ?l + 1 := NUL] = ?mem"
    by (simp add: list_update_append)
  moreover have "dots dot_unsigned (length ?l + 1) ?mem = ?s @ NUL # drop (length ?l + 2) buf"
    using l(3) by (simp add: dots_def)
  moreover have "c_str (?s @ NUL # drop (length ?l + 2) buf) = ?s"
    using no_NUL_dots(2) [of l] by (simp add: c_str_append)
  moreover have n: "nat (int (length ?l + 1)) = length ?l + 1" "0 < int (length ?l + 1)" "length ?l + 1 < length ?mem"
    by simp_all
  ultimately have "modem_event ?mem (int (length ?l + 1)) w' =
      follow (modem_event_queue ?s w') (\<lambda>_ w1. Done (?s @ NUL # drop (length ?l + 2) buf) w1)" for w'
    unfolding modem_event_def Let_def n(1) if_P [OF n(2)] if_P [OF n(3)] by simp
  moreover have "follow (follow x f) g = follow x (\<lambda>a w. follow (f a w) g)"
    for x :: "(unit, world) result" and f :: "unit \<Rightarrow> char list program" and g :: "char list \<Rightarrow> (char list \<times> bool) program"
    by (cases x) auto
  ultimately have "main_modem buf w =
    follow (modem_event_queue ?s (w\<lparr>w_uart := ?rest\<rparr>)) (\<lambda>_ w1. Done (?s @ NUL # drop (length ?l + 2) buf, True) w1)"
    unfolding main_modem_def r line_read.case Let_def if_P [OF n(2)] by simp
  then show ?thesis
    by (rule that)
qed

lemma events_add_ok:
  assumes "wf_queue (w_events w)" "\<not> add_fails (w_events w)"
  obtains q where "events_add e w = Done () (w\<lparr>w_events := q\<rparr>)" "wf_queue q"
    "contents q = contents (w_events w) @ [(Some e, event_code (event e))]"
proof -
  obtain as ps where "queue_inv (w_events w) as ps"
    using assms(1) by (auto simp: wf_queue_def)
  then obtain q' as' ps' where "queue_add (w_events w) e (event_code (event e)) = Some (0, q')" "queue_inv q' as' ps'"
    "contents q' = contents (w_events w) @ [(Some e, event_code (event e))]"
    using queue_add_succeeds [OF _ assms(2)] by metis
  then show ?thesis
    by (intro that [of q']) (auto simp: events_add_def wf_queue_def)
qed

section \<open>Properties\<close>

text \<open>A start at which everything the program calls succeeds.\<close>

definition good_start :: "startup \<Rightarrow> bool" where
  "good_start su \<longleftrightarrow> length (su_argv su) = 5 \<and> su_getaddrinfo su = 0 \<and> su_socket su \<noteq> -1 \<and> su_bind su \<noteq> -1 \<and>
     su_connect su \<noteq> -1 \<and> su_cond_init su = 0 \<and> su_mutex_init su = 0 \<and>
     fst (rs232_open 115200 0 8 1 CHR ''N'' (su_port su)) \<noteq> -1 \<and> su_pthread_create su = 0"

definition fresh_world :: "world \<Rightarrow> bool" where
  "fresh_world w \<longleftrightarrow> w_ctrl w = siproxy_initial \<and> w_events w = empty_queue [] \<and> w_writes w = [] \<and> w_rcs w = [] \<and>
     tn_allocs (w_telnet w) = [] \<and> tn_events (w_telnet w) = []"

lemma main_init_ok:
  assumes "good_start su" "fresh_world w" "list_all (answer ''OK'') answers" "length answers = 8"
    "w_uart w = concat (map as_input answers) @ rest"
  shows "\<exists>t. telnet_init (Some telopts) 0 [] = Some t \<and>
    main_init su w = Done 0 (w\<lparr>w_do_echo := True, w_events := empty_queue [], w_uart := rest, w_telnet := t,
      w_ctrl := siproxy_initial\<lparr>uart_fd := fst (rs232_open 115200 0 8 1 CHR ''N'' (su_port su)), sock_fd := su_socket su,
         sip_peer := snprintf 255 (su_argv su ! 3), uart := snprintf 255 (su_argv su ! 4)\<rparr>,
      w_out := w_out w @ map UART_OUT modem_init_cmds @
        [MQTT_CREATE ADDRESS CLIENTID, MQTT_SET_CALLBACKS, MQTT_CONNECT conn_opts]\<rparr>)"
proof -
  obtain t where t: "telnet_init (Some telopts) 0 [] = Some t"
    by (simp add: telnet_init_def)
  let ?w = "w\<lparr>w_do_echo := True, w_events := empty_queue []\<rparr>"
  have cmds: "modem_cmds_wait modem_init_cmds ?w = Done 0 (?w\<lparr>w_uart := rest, w_out := w_out w @ map UART_OUT modem_init_cmds\<rparr>)"
    using assms(2-5) modem_cmds_wait_answers [of answers modem_init_cmds ?w rest]
    by (simp add: fresh_world_def) (simp add: modem_init_cmds_def)
  have "mqtt_init w1 = Done 0 (w1\<lparr>w_out := w_out w1 @ [MQTT_CREATE ADDRESS CLIENTID, MQTT_SET_CALLBACKS, MQTT_CONNECT conn_opts]\<rparr>)"
    if "w_rcs w1 = []" for w1
    using that by (simp add: mqtt_init_def mqtt_call_def MQTTASYNC_SUCCESS_def emit_def)
  moreover obtain fd port where "rs232_open 115200 0 8 1 CHR ''N'' (su_port su) = (fd, port)"
    by (cases "rs232_open 115200 0 8 1 CHR ''N'' (su_port su)")
  ultimately show ?thesis
    using assms(1,2) t cmds unfolding main_init_def
    by (intro exI [of _ t]) (simp add: good_start_def fresh_world_def queue_init_empty Let_def)
qed

text \<open>
  C23: the start of the program. When everything it calls succeeds, it opens the port, sends the
  eight initialisation commands to the modem, each after the answer to the one before, then sets up
  the tracker with its option table and starts to connect to the broker; it reaches its loop in the
  initial call state, with the arguments stored, no event queued and no byte of the modem lost.
\<close>

theorem startup_sequence:
  assumes "good_start su" "fresh_world w" "list_all (answer ''OK'') answers" "length answers = 8"
    "w_uart w = concat (map as_input answers) @ rest"
  shows "\<exists>w'. main_init su w = Done 0 w' \<and> w_uart w' = rest \<and> contents (w_events w') = [] \<and>
    call_of (w_ctrl w') = Idle None \<and> sip_peer (w_ctrl w') = snprintf 255 (su_argv su ! 3) \<and>
    tn_telopts (w_telnet w') = Some telopts \<and>
    w_out w' = w_out w @ map UART_OUT modem_init_cmds @ [MQTT_CREATE ADDRESS CLIENTID, MQTT_SET_CALLBACKS, MQTT_CONNECT conn_opts]"
  using main_init_ok [OF assms] assms(2)
  by (auto simp: fresh_world_def telnet_init_def call_of_def siproxy_initial_def)

definition demo_start :: startup where
  "demo_start = \<lparr>su_argv = [''siproxy'', ''localhost'', ''2323'', ''sip:bob'', ''/dev/ttyUSB0''], su_getaddrinfo = 0, su_socket = 4,
     su_bind = 0, su_connect = 0, su_cond_init = 0, su_mutex_init = 0, su_port = demo_port, su_pthread_create = 0\<rparr>"

definition demo_answers :: "string list list" where
  "demo_answers = replicate 8 [''OK'']"

lemma demo_answers_facts: "list_all (answer ''OK'') demo_answers" "length demo_answers = 8"
proof -
  have "match ''OK'' (map dot_unsigned ''OK'' @ ''..'')"
    by code_simp
  then have "answer ''OK'' [''OK'']"
    by (simp add: answer_def short_line_def)
  then show "list_all (answer ''OK'') demo_answers" "length demo_answers = 8"
    by (simp_all add: demo_answers_def list_all_iff)
qed

definition demo_boot :: world where
  "demo_boot = demo_world\<lparr>w_uart := concat (map as_input demo_answers)\<rparr>"

lemma demo_boot_facts: "fresh_world demo_boot" "w_uart demo_boot = concat (map as_input demo_answers) @ []" "good_start demo_start"
proof -
  show "fresh_world demo_boot" "w_uart demo_boot = concat (map as_input demo_answers) @ []"
    by (simp_all add: demo_boot_def fresh_world_def demo_world_def demo_telnet_simps)
  have "fst (rs232_open 115200 0 8 1 CHR ''N'' demo_port) = 3"
    by code_simp
  then show "good_start demo_start"
    by (simp add: good_start_def demo_start_def)
qed

theorem startup_sequence_witness:
  "\<exists>w'. main_init demo_start demo_boot = Done 0 w' \<and> w_uart w' = [] \<and> sip_peer (w_ctrl w') = ''sip:bob''"
  using startup_sequence [OF demo_boot_facts(3,1) demo_answers_facts demo_boot_facts(2)]
  by (auto simp: demo_start_def snprintf_def)

text \<open>
  C1: the invariant of the running program. In every state that polls, handled events, callbacks of
  the broker connection and the outside can lead to, in any order and however calls fail: the
  control structure is consistent (only three call states occur, and direction, modem, SIP and MQTT
  state agree with them), the event queue is well formed and holds only known events with a
  terminated text, and both receive buffers keep their size.
\<close>

theorem siproxy_invariant:
  assumes "reachable ((buf, buffer), w)"
  shows "ctrl_inv (w_ctrl w) \<and> wf_queue (w_events w) \<and> good_msgs (contents (w_events w)) \<and>
    length buf = BUFFER_SIZE \<and> length buffer = BUFFER_SIZE"
  using reachable_sys_inv [OF assms] by (simp add: sys_inv_def world_inv_def)

theorem siproxy_invariant_witness: "\<exists>bufs w. reachable (bufs, w) \<and> ctrl_inv (w_ctrl w) \<and> wf_queue (w_events w)"
proof -
  obtain w' where "main_init demo_start demo_boot = Done 0 w'"
    using main_init_ok [OF demo_boot_facts(3,1) demo_answers_facts demo_boot_facts(2)] by auto
  then have "reachable ((replicate BUFFER_SIZE NUL, replicate BUFFER_SIZE NUL), w')"
    using demo_boot_facts(1) by (intro reachable.start [of demo_start demo_boot w' "[]"]) (simp_all add: fresh_world_def)
  from this siproxy_invariant [OF this] show ?thesis
    by blast
qed

text \<open>
  C10: events are handled in the order they were queued, each once. In a reachable state a turn of
  the event thread takes the oldest event and runs the state machine on it, leaving the others
  queued in order; with nothing queued it changes nothing. It never waits inside \<open>queue_get\<close> and
  never finds a message without an event.
\<close>

theorem evt_handler_oldest:
  assumes "reachable (bufs, w)"
  shows "(contents (w_events w) = [] \<longrightarrow> evt_handler w = Done () w) \<and>
    (\<forall>m ms. contents (w_events w) = m # ms \<longrightarrow>
       (\<exists>e q. m = (Some e, event_code (event e)) \<and> evt_handler w = state e (w\<lparr>w_events := q\<rparr>) \<and> wf_queue q \<and> contents q = ms))"
proof -
  have inv: "wf_queue (w_events w)" "good_msgs (contents (w_events w))"
    using reachable_sys_inv [OF assms] by (auto simp: sys_inv_def world_inv_def split: prod.splits)
  have "evt_handler w = Done () w" if "contents (w_events w) = []"
    using that eq.len_law [OF inv(1)] by (simp add: evt_handler_def)
  moreover have "\<exists>e q. m = (Some e, event_code (event e)) \<and> evt_handler w = state e (w\<lparr>w_events := q\<rparr>) \<and> wf_queue q \<and> contents q = ms"
    if c: "contents (w_events w) = m # ms" for m ms
  proof -
    obtain e where "m = (Some e, event_code (event e))"
      using inv(2) c by (auto simp: good_msgs_def)
    with c evt_handler_pop [OF inv(1), of e "event_code (event e)" ms] show ?thesis
      by metis
  qed
  ultimately show ?thesis
    by blast
qed

theorem evt_handler_oldest_witness: "\<exists>bufs w. reachable (bufs, w) \<and> evt_handler w = Done () w"
proof -
  obtain w' where w': "main_init demo_start demo_boot = Done 0 w'" "contents (w_events w') = []"
    using main_init_ok [OF demo_boot_facts(3,1) demo_answers_facts demo_boot_facts(2)] demo_boot_facts(1)
    by (auto simp: fresh_world_def)
  then have "reachable ((replicate BUFFER_SIZE NUL, replicate BUFFER_SIZE NUL), w')"
    using demo_boot_facts(1) by (intro reachable.start [of demo_start demo_boot w' "[]"]) (simp_all add: fresh_world_def)
  from this evt_handler_oldest [OF this] w'(2) show ?thesis
    by blast
qed

text \<open>
  C9: from the telephone line to the broker and the SIP client. When the modem reports a caller
  while no call is going on, one turn of the poll loop and one turn of the event thread publish the
  caller's number and call the SIP peer, in this order, send nothing else, and leave the program
  waiting for the SIP side to confirm.
\<close>

theorem incoming_call:
  assumes "quiet w" "world_inv w" "call_inv (w_ctrl w)" "call_of (w_ctrl w) = Idle num" "contents (w_events w) = []"
    "\<not> add_fails (w_events w)" "w_allocs w = []" "length buf = BUFFER_SIZE" "short_line l" "length l < 1000"
    "w_uart w = as_input (l # ls) @ rest"
    "first_row (map dot_unsigned l @ ''..'') modem_events = EVT_MODEM_CLIP" "caller_number (map dot_unsigned l @ ''..'') = Some n"
  shows "\<exists>buf' w1 w2. main_turn True None (buf, buffer) w = Done (buf', buffer, True) w1 \<and> evt_handler w1 = Done () w2 \<and>
    w_out w2 = w_out w @ action_io (PublishCaller n) @ action_io (CallPeer (sip_peer (w_ctrl w))) \<and>
    call_of (w_ctrl w2) = FromModem \<and> contents (w_events w2) = [] \<and> w_uart w2 = as_input ls @ rest"
proof -
  let ?s = "map dot_unsigned l @ ''..''" and ?w = "w\<lparr>w_uart := as_input ls @ rest\<rparr>"
  let ?e = "\<lparr>event = EVT_MODEM_CLIP, val = ?s\<rparr>"
  have fits: "snprintf VAL_SIZE ?s = ?s"
    using assms(10) by (simp add: snprintf_def VAL_SIZE_def)
  have al: "evt_malloc ?w = (True, ?w)"
    using assms(7) by (cases w) (simp add: evt_malloc_def)
  obtain buf' where turn: "main_modem buf w = follow (modem_event_queue ?s ?w) (\<lambda>_ w1. Done (buf', True) w1)"
    using main_modem_line [OF assms(9,8,11)] by metis
  have wf: "wf_queue (w_events ?w)" "\<not> add_fails (w_events ?w)"
    using assms(2,6) by (simp_all add: world_inv_def)
  obtain q where q: "events_add ?e ?w = Done () (?w\<lparr>w_events := q\<rparr>)" "wf_queue q"
    "contents q = [(Some ?e, event_code EVT_MODEM_CLIP)]"
    using events_add_ok [OF wf, of ?e] assms(5) by auto
  have "modem_event_queue ?s ?w = Done () (?w\<lparr>w_events := q\<rparr>)"
    using q(1) fits al assms(12) by (simp add: modem_event_queue_def find_event_tables)
  then have t: "main_turn True None (buf, buffer) w = Done (buf', buffer, True) (?w\<lparr>w_events := q\<rparr>)"
    using turn by (simp add: main_turn_def)
  obtain q' where q': "evt_handler (?w\<lparr>w_events := q\<rparr>) = state ?e (?w\<lparr>w_events := q'\<rparr>)" "contents q' = []"
    using evt_handler_pop [of "?w\<lparr>w_events := q\<rparr>" ?e "event_code EVT_MODEM_CLIP" "[]"] q by auto
  have "proper ?e"
    using assms(10,13) no_NUL_dots(2) [of l] by (simp add: proper_def VAL_SIZE_def)
  moreover have "quiet (?w\<lparr>w_events := q'\<rparr>)"
    using assms(1) by (simp add: quiet_def)
  ultimately obtain c where "state ?e (?w\<lparr>w_events := q'\<rparr>) = Done () (?w\<lparr>w_events := q', w_ctrl := c,
      w_out := w_out w @ action_io (PublishCaller n) @ action_io (CallPeer (sip_peer (w_ctrl w)))\<rparr>)" "call_of c = FromModem"
    using state_refines_step [of "?w\<lparr>w_events := q'\<rparr>" ?e] assms(3,4,13)
    by (auto simp: event_step_def simp del: action_io.simps)
  with t q' show ?thesis
    by (intro exI [of _ buf'] exI) (auto simp del: action_io.simps)
qed

definition demo_clip_line :: string where
  "demo_clip_line = ''+CLIP: '' @ [CHR 0x22] @ ''139'' @ [CHR 0x22]"

theorem incoming_call_witness:
  "\<exists>w1 w2 buf'. main_turn True None (replicate BUFFER_SIZE NUL, []) (demo_world\<lparr>w_uart := as_input [demo_clip_line]\<rparr>) =
     Done (buf', [], True) w1 \<and> evt_handler w1 = Done () w2 \<and> call_of (w_ctrl w2) = FromModem"
proof -
  let ?w = "demo_world\<lparr>w_uart := as_input [demo_clip_line]\<rparr>"
  have "find_event (map dot_unsigned demo_clip_line @ ''..'') modem_events = EVT_MODEM_CLIP"
    "caller_number (map dot_unsigned demo_clip_line @ ''..'') = Some ''139''"
    by code_simp+
  moreover have "short_line demo_clip_line" "length demo_clip_line < 1000"
    by (simp_all add: short_line_def demo_clip_line_def)
  moreover have "quiet ?w" "call_inv (w_ctrl ?w)" "call_of (w_ctrl ?w) = Idle None"
    using demo_facts by (simp_all add: quiet_def)
  moreover have "world_inv ?w" "contents (w_events ?w) = []" "\<not> add_fails (w_events ?w)" "w_allocs ?w = []"
    by (simp_all add: world_inv_def demo_world_def good_msgs_def demo_telnet_simps ctrl_inv_initial add_fails_def empty_queue_def
        flip: empty_queue_def) (simp add: empty_queue_def)
  ultimately show ?thesis
    using incoming_call [of ?w None "replicate BUFFER_SIZE NUL" demo_clip_line "[]" "[]" "''139''" "[]"]
    by (auto simp: find_event_tables)
qed

text \<open>
  A failure of \<open>queue_init\<close> goes unnoticed. \<open>main\<close> compares its result with -1, but the function
  returns the positive error codes of the thread library: the start continues as if the mutex and
  the condition variable were there.
\<close>

theorem queue_init_failure_unnoticed:
  assumes "w_events w = empty_queue al" "c \<noteq> -1" "m \<noteq> -1"
  shows "main_init (su\<lparr>su_cond_init := c, su_mutex_init := m\<rparr>) w = main_init (su\<lparr>su_cond_init := 0, su_mutex_init := 0\<rparr>) w"
  using assms(2,3) unfolding main_init_def assms(1) queue_init_empty Let_def by (cases su) (simp only: startup.simps prod.case, simp)

theorem queue_init_failure_unnoticed_witness:
  "main_init (demo_start\<lparr>su_cond_init := 11, su_mutex_init := 12\<rparr>) demo_world =
     main_init (demo_start\<lparr>su_cond_init := 0, su_mutex_init := 0\<rparr>) demo_world"
  using queue_init_failure_unnoticed [of demo_world "[]" 11 12 demo_start] by (simp add: demo_world_def)

end
