(* ===== verification/Mqtt_Utf8.thy ===== *)
theory Mqtt_Utf8
  imports Siproxy_Prelude
begin

text \<open>
  The UTF-8 check of the MQTT client library, \<^verbatim>\<open>utf-8.c\<close>: a table of byte ranges, the check of one
  character and the loops over a string. The reference is the encoding of Unicode scalar values: a
  string is valid if it is the concatenation of such encodings.
\<close>

section \<open>The code\<close>

text \<open>The rows of \<open>valid_ranges\<close>; the field \<open>len\<close> of a row is the number of its ranges.\<close>

definition valid_ranges :: "(byte \<times> byte) list list" where
  "valid_ranges =
     [[(0x00, 0x7F)],
      [(0xC2, 0xDF), (0x80, 0xBF)],
      [(0xE0, 0xE0), (0xA0, 0xBF), (0x80, 0xBF)],
      [(0xE1, 0xEC), (0x80, 0xBF), (0x80, 0xBF)],
      [(0xED, 0xED), (0x80, 0x9F), (0x80, 0xBF)],
      [(0xEE, 0xEF), (0x80, 0xBF), (0x80, 0xBF)],
      [(0xF0, 0xF0), (0x90, 0xBF), (0x80, 0xBF), (0x80, 0xBF)],
      [(0xF1, 0xF3), (0x80, 0xBF), (0x80, 0xBF), (0x80, 0xBF)],
      [(0xF4, 0xF4), (0x80, 0x8F), (0x80, 0xBF), (0x80, 0xBF)]]"

text \<open>
  The inner loop: bytes are compared as \<open>char\<close>, which is signed, and it stops at the first byte
  outside its range. \<open>mem\<close> is the memory from the character on, and a read behind its end is \<open>None\<close>.
\<close>

fun row_check :: "(byte \<times> byte) list \<Rightarrow> byte list \<Rightarrow> bool option" where
  "row_check [] mem = Some True"
| "row_check ((lower, upper) # row) mem =
     (case mem of
        [] \<Rightarrow> None
      | b # bs \<Rightarrow> if sint b < sint lower \<or> sint b > sint upper then Some False else row_check row bs)"

fun rows_check :: "nat \<Rightarrow> (byte \<times> byte) list list \<Rightarrow> byte list \<Rightarrow> bool option" where
  "rows_check charlen [] mem = Some False"
| "rows_check charlen (row # rows) mem =
     (if length row = charlen
      then do { good \<leftarrow> row_check row mem; if good then Some True else rows_check charlen rows mem }
      else rows_check charlen rows mem)"

definition char_len :: "byte \<Rightarrow> nat" where
  "char_len b =
     (if and b 128 = 0 then 1
      else if and b 0xF0 = 0xF0 then 4
      else if and b 0xE0 = 0xE0 then 3
      else 2)"

text \<open>The number of bytes to the next character, \<open>Some None\<close> for NULL.\<close>

definition UTF8_char_validate :: "nat \<Rightarrow> byte list \<Rightarrow> nat option option" where
  "UTF8_char_validate len mem = do {
     b \<leftarrow> load mem 0;
     let charlen = char_len b;
     if charlen > len then Some None
     else do {
       good \<leftarrow> rows_check charlen valid_ranges mem;
       Some (if good then Some charlen else None)
     }
   }"

lemma char_len_pos: "0 < char_len b"
  by (simp add: char_len_def)

lemma UTF8_char_validate_pos: "UTF8_char_validate len mem = Some (Some n) \<Longrightarrow> 0 < n"
  by (auto simp: UTF8_char_validate_def Let_def char_len_pos split: bind_splits if_splits)

text \<open>
  The loop of \<open>UTF8_validate\<close>, with the offset of \<open>curdata\<close>. Every call gets the length of the whole
  string, not of what is left of it.
\<close>

function UTF8_validate_loop :: "nat \<Rightarrow> byte list \<Rightarrow> nat \<Rightarrow> bool option" where
  "UTF8_validate_loop len mem off = do {
     next \<leftarrow> UTF8_char_validate len (drop off mem);
     case next of
       None \<Rightarrow> Some False
     | Some n \<Rightarrow> if off + n < len then UTF8_validate_loop len mem (off + n) else Some True
   }"
  by pat_completeness auto
termination
  by (relation "measure (\<lambda>(len, mem, off). len - off)") (auto dest: UTF8_char_validate_pos)

declare UTF8_validate_loop.simps [simp del]

definition UTF8_validate :: "nat \<Rightarrow> byte list \<Rightarrow> bool option" where
  "UTF8_validate len mem = (if len = 0 then Some True else UTF8_validate_loop len mem 0)"

text \<open>\<open>UTF8_validateString\<close>: the string and its NUL.\<close>

definition UTF8_validateString :: "byte list \<Rightarrow> bool option" where
  "UTF8_validateString string = UTF8_validate (length string) (string @ [0])"

section \<open>The encoding of scalar values\<close>

definition scalar :: "nat \<Rightarrow> bool" where
  "scalar c \<longleftrightarrow> c < 0x110000 \<and> \<not> (0xD800 \<le> c \<and> c < 0xE000)"

definition encode_nats :: "nat \<Rightarrow> nat list" where
  "encode_nats c =
     (if c < 0x80 then [c]
      else if c < 0x800 then [0xC0 + c div 64, 0x80 + c mod 64]
      else if c < 0x10000 then [0xE0 + c div 4096, 0x80 + c div 64 mod 64, 0x80 + c mod 64]
      else [0xF0 + c div 262144, 0x80 + c div 4096 mod 64, 0x80 + c div 64 mod 64, 0x80 + c mod 64])"

definition utf8_encode :: "nat \<Rightarrow> byte list" where
  "utf8_encode c = map of_nat (encode_nats c)"

definition valid_utf8 :: "byte list \<Rightarrow> bool" where
  "valid_utf8 s \<longleftrightarrow> (\<exists>cs. (\<forall>c \<in> set cs. scalar c) \<and> s = concat (map utf8_encode cs))"

section \<open>One character\<close>

text \<open>The ranges as natural numbers.\<close>

lemma unat_byte: "unat (b :: byte) < 256"
  using unsigned_less [of b, where ?'a = nat] by simp

lemma sint_nat: "sint (b :: byte) = (if unat b < 128 then int (unat b) else int (unat b) - 256)"
proof -
  define k where "k = unat b"
  have u: "uint b = int k" and k: "k < 256"
    using unat_byte [of b] by (simp_all add: k_def)
  have "sint b = (int k + 128) mod 256 - 128"
    by (simp add: sint_uint u signed_take_bit_eq_take_bit_shift take_bit_eq_mod)
  also have "\<dots> = (if k < 128 then int k else int k - 256)"
  proof (cases "k < 128")
    case True
    then show ?thesis
      by (simp add: mod_pos_pos_trivial)
  next
    case False
    then have "(int k + 128) mod 256 = (int k - 128 + 256) mod 256"
      by (simp add: add.commute)
    also have "\<dots> = int k - 128"
      unfolding mod_add_self2 using False k by (simp add: mod_pos_pos_trivial)
    finally show ?thesis
      using False by simp
  qed
  finally show ?thesis
    by (simp add: k_def)
qed

text \<open>A range on one side of 128 means the same for signed and for unsigned characters.\<close>

lemma range_unsigned:
  fixes b lower upper :: byte
  assumes "unat lower < 128 \<longleftrightarrow> unat upper < 128"
  shows "(sint b < sint lower \<or> sint b > sint upper) \<longleftrightarrow> \<not> (unat lower \<le> unat b \<and> unat b \<le> unat upper)"
  using assms unat_byte [of b] unat_byte [of upper] unfolding sint_nat by (simp del: of_nat_unat) linarith

definition row_ok :: "(byte \<times> byte) list \<Rightarrow> byte list \<Rightarrow> bool" where
  "row_ok row bs \<longleftrightarrow> list_all2 (\<lambda>(lower, upper) b. unat lower \<le> unat b \<and> unat b \<le> unat upper) row (take (length row) bs)"

lemma row_check_full:
  "\<forall>(lower, upper) \<in> set row. unat lower < 128 \<longleftrightarrow> unat upper < 128 \<Longrightarrow> length row \<le> length mem \<Longrightarrow>
     row_check row mem = Some (row_ok row mem)"
proof (induction row arbitrary: mem)
  case (Cons r row)
  obtain lower upper b bs where "r = (lower, upper)" "mem = b # bs"
    using Cons.prems(2) by (cases r; cases mem) auto
  with Cons show ?case
    by (auto simp: range_unsigned row_ok_def)
qed (simp add: row_ok_def)

lemma rows_check_full:
  "\<forall>row \<in> set rows. \<forall>(lower, upper) \<in> set row. unat lower < 128 \<longleftrightarrow> unat upper < 128 \<Longrightarrow> charlen \<le> length mem \<Longrightarrow>
     rows_check charlen rows mem = Some (\<exists>row \<in> set rows. length row = charlen \<and> row_ok row mem)"
  by (induction rows) (auto simp: row_check_full)

lemma valid_ranges_sides: "\<forall>row \<in> set valid_ranges. \<forall>(lower, upper) \<in> set row. unat lower < 128 \<longleftrightarrow> unat upper < 128"
  by (simp add: valid_ranges_def)

text \<open>The table as conditions on numbers.\<close>

abbreviation cont :: "nat \<Rightarrow> bool" where
  "cont b \<equiv> 0x80 \<le> b \<and> b \<le> 0xBF"

fun well_formed :: "nat list \<Rightarrow> bool" where
  "well_formed [a] \<longleftrightarrow> a \<le> 0x7F"
| "well_formed [a, b] \<longleftrightarrow> 0xC2 \<le> a \<and> a \<le> 0xDF \<and> cont b"
| "well_formed [a, b, c] \<longleftrightarrow>
     (a = 0xE0 \<and> 0xA0 \<le> b \<and> b \<le> 0xBF \<or> 0xE1 \<le> a \<and> a \<le> 0xEC \<and> cont b \<or> a = 0xED \<and> 0x80 \<le> b \<and> b \<le> 0x9F \<or>
      0xEE \<le> a \<and> a \<le> 0xEF \<and> cont b) \<and> cont c"
| "well_formed [a, b, c, d] \<longleftrightarrow>
     (a = 0xF0 \<and> 0x90 \<le> b \<and> b \<le> 0xBF \<or> 0xF1 \<le> a \<and> a \<le> 0xF3 \<and> cont b \<or> a = 0xF4 \<and> 0x80 \<le> b \<and> b \<le> 0x8F) \<and>
     cont c \<and> cont d"
| "well_formed _ \<longleftrightarrow> False"

lemma table_well_formed:
  assumes "length bs = n" "0 < n" "n \<le> 4"
  shows "(\<exists>row \<in> set valid_ranges. length row = n \<and> row_ok row bs) \<longleftrightarrow> well_formed (map unat bs)"
proof -
  have "n = 1 \<or> n = 2 \<or> n = 3 \<or> n = 4"
    using assms(2,3) by linarith
  then consider a where "bs = [a]" "n = 1" | a b where "bs = [a, b]" "n = 2" | a b c where "bs = [a, b, c]" "n = 3"
    | a b c d where "bs = [a, b, c, d]" "n = 4"
    using assms(1) by (auto simp: numeral_eq_Suc length_Suc_conv)
  then show ?thesis
    by cases (auto simp: valid_ranges_def row_ok_def)
qed

text \<open>Well-formed byte sequences are the encodings of scalar values.\<close>

lemma digits:
  fixes c :: nat
  shows "c = 64 * (c div 64) + c mod 64" "c = 4096 * (c div 4096) + 64 * (c div 64 mod 64) + c mod 64"
    "c = 262144 * (c div 262144) + 4096 * (c div 4096 mod 64) + 64 * (c div 64 mod 64) + c mod 64"
proof -
  have d: "c div 4096 = c div 64 div 64" "c div 262144 = c div 64 div 64 div 64"
    using div_mult2_eq [of c 64 64] div_mult2_eq [of c 64 4096] div_mult2_eq [of "c div 64" 64 64] by simp_all
  have m: "x = 64 * (x div 64) + x mod 64" for x :: nat
    by simp
  show "c = 64 * (c div 64) + c mod 64"
    by (rule m)
  show "c = 4096 * (c div 4096) + 64 * (c div 64 mod 64) + c mod 64"
    using m [of c] m [of "c div 64"] unfolding d by linarith
  show "c = 262144 * (c div 262144) + 4096 * (c div 4096 mod 64) + 64 * (c div 64 mod 64) + c mod 64"
    using m [of c] m [of "c div 64"] m [of "c div 64 div 64"] unfolding d by linarith
qed

lemma encode_nats_well_formed:
  assumes "scalar c"
  shows "well_formed (encode_nats c)"
proof -
  have m: "c mod 64 < 64" "c div 64 mod 64 < 64" "c div 4096 mod 64 < 64"
    by simp_all
  consider "c < 0x80" | "0x80 \<le> c" "c < 0x800" | "0x800 \<le> c" "c < 0x10000" | "0x10000 \<le> c"
    by linarith
  then show ?thesis
  proof cases
    case 2
    then show ?thesis
      using m digits(1) [of c] by (simp add: encode_nats_def) linarith
  next
    case 3
    then show ?thesis
      using m digits(2) [of c] assms by (simp add: encode_nats_def scalar_def) linarith
  next
    case 4
    then show ?thesis
      using m digits(3) [of c] assms by (simp add: encode_nats_def scalar_def) linarith
  qed (simp add: encode_nats_def)
qed

lemma undigits:
  fixes p q r s :: nat
  assumes "r < 64" "s < 64" "q < 64"
  shows "(64 * r + s) div 64 = r" "(64 * r + s) mod 64 = s"
    "(4096 * q + 64 * r + s) div 4096 = q" "(4096 * q + 64 * r + s) div 64 mod 64 = r" "(4096 * q + 64 * r + s) mod 64 = s"
    "(262144 * p + 4096 * q + 64 * r + s) div 262144 = p" "(262144 * p + 4096 * q + 64 * r + s) div 4096 mod 64 = q"
    "(262144 * p + 4096 * q + 64 * r + s) div 64 mod 64 = r" "(262144 * p + 4096 * q + 64 * r + s) mod 64 = s"
proof -
  have dm: "(64 * x + y) div 64 = x" "(64 * x + y) mod 64 = y" if "y < 64" for x y :: nat
    using that by simp_all
  have d: "c div 4096 = c div 64 div 64" "c div 262144 = c div 64 div 64 div 64" for c :: nat
    using div_mult2_eq [of c 64 64] div_mult2_eq [of c 64 4096] div_mult2_eq [of "c div 64" 64 64] by simp_all
  have e: "4096 * q + 64 * r + s = 64 * (64 * q + r) + s" "262144 * p + 4096 * q + 64 * r + s = 64 * (64 * (64 * p + q) + r) + s"
    by simp_all
  show "(64 * r + s) div 64 = r" "(64 * r + s) mod 64 = s"
    using assms dm by simp_all
  show "(4096 * q + 64 * r + s) div 4096 = q" "(4096 * q + 64 * r + s) div 64 mod 64 = r" "(4096 * q + 64 * r + s) mod 64 = s"
    unfolding d e by (simp_all only: dm assms)
  show "(262144 * p + 4096 * q + 64 * r + s) div 262144 = p" "(262144 * p + 4096 * q + 64 * r + s) div 4096 mod 64 = q"
    "(262144 * p + 4096 * q + 64 * r + s) div 64 mod 64 = r" "(262144 * p + 4096 * q + 64 * r + s) mod 64 = s"
    unfolding d e by (simp_all only: dm assms)
qed

lemma well_formed_encode_nats:
  assumes "well_formed xs"
  shows "\<exists>c. scalar c \<and> encode_nats c = xs"
  using assms
proof (cases xs rule: well_formed.cases)
  case (1 a)
  then show ?thesis
    using assms by (intro exI [of _ a]) (simp add: scalar_def encode_nats_def)
next
  case (2 a b)
  then obtain r s where rs: "a = 0xC0 + r" "b = 0x80 + s" "2 \<le> r" "r < 32" "s < 64"
    using assms by (auto simp: le_iff_add)
  then show ?thesis
    using 2 undigits(1,2) [of r s 0] by (intro exI [of _ "64 * r + s"]) (simp add: scalar_def encode_nats_def)
next
  case (3 a b c)
  then obtain q r s where qrs: "a = 0xE0 + q" "b = 0x80 + r" "c = 0x80 + s" "q < 16" "r < 64" "s < 64"
    "q = 0 \<longrightarrow> 32 \<le> r" "q = 13 \<longrightarrow> r < 32"
    using assms by (auto simp: le_iff_add)
  consider "q \<le> 12" | "q = 13" | "14 \<le> q"
    by linarith
  then have "scalar (4096 * q + 64 * r + s)"
    by cases (use qrs in \<open>auto simp: scalar_def\<close>)
  moreover have "0x800 \<le> 4096 * q + 64 * r + s" "4096 * q + 64 * r + s < 0x10000"
    using qrs by auto
  ultimately show ?thesis
    using 3 qrs undigits(3-5) [of r s q] by (intro exI [of _ "4096 * q + 64 * r + s"]) (simp add: encode_nats_def)
next
  case (4 a b c d)
  then obtain p q r s where pqrs: "a = 0xF0 + p" "b = 0x80 + q" "c = 0x80 + r" "d = 0x80 + s" "p < 5" "q < 64" "r < 64" "s < 64"
    "p = 0 \<longrightarrow> 16 \<le> q" "p = 4 \<longrightarrow> q < 16"
    using assms by (auto simp: le_iff_add)
  consider "p = 0" | "1 \<le> p" "p \<le> 3" | "p = 4"
    using pqrs(5) by linarith
  then have "0x10000 \<le> 262144 * p + 4096 * q + 64 * r + s" "262144 * p + 4096 * q + 64 * r + s < 0x110000"
    by (cases; use pqrs in simp)+
  then show ?thesis
    using 4 pqrs undigits(6-9) [of r s q p]
    by (intro exI [of _ "262144 * p + 4096 * q + 64 * r + s"]) (simp add: scalar_def encode_nats_def)
qed auto

text \<open>So the check of a character accepts exactly the encodings.\<close>

lemma encode_nats_bytes: "scalar c \<Longrightarrow> x \<in> set (encode_nats c) \<Longrightarrow> x < 256"
  using encode_nats_well_formed [of c] by (cases "encode_nats c" rule: well_formed.cases) auto

lemma unat_utf8_encode: "scalar c \<Longrightarrow> map unat (utf8_encode c) = encode_nats c"
  using encode_nats_bytes [of c] by (simp add: utf8_encode_def map_idI unat_of_nat)

lemma length_utf8_encode: "0 < length (utf8_encode c)" "length (utf8_encode c) \<le> 4"
  by (simp_all add: utf8_encode_def encode_nats_def)

lemma char_len_table:
  "list_all (\<lambda>n. char_len (of_nat n) = (if n < 0x80 then 1 else if 0xF0 \<le> n then 4 else if 0xE0 \<le> n then 3 else 2)) [0..<256]"
  by code_simp

lemma char_len_unat: "char_len b = (if unat b < 0x80 then 1 else if 0xF0 \<le> unat b then 4 else if 0xE0 \<le> unat b then 3 else 2)"
  using char_len_table unat_byte [of b] by (auto simp: list_all_iff dest!: bspec [of _ _ "unat b"])

lemma char_len_encode: "scalar c \<Longrightarrow> char_len (hd (utf8_encode c)) = length (utf8_encode c)"
proof -
  assume c: "scalar c"
  have "unat (hd (utf8_encode c)) = hd (encode_nats c)" "length (utf8_encode c) = length (encode_nats c)"
    using unat_utf8_encode [OF c] length_utf8_encode(1) [of c] by (metis hd_map length_greater_0_conv, metis length_map)
  then show ?thesis
    unfolding char_len_unat using encode_nats_well_formed [OF c] by (cases "encode_nats c" rule: well_formed.cases) auto
qed

lemma UTF8_char_validate_spec:
  assumes "4 \<le> length mem"
  shows "UTF8_char_validate len mem =
    Some (if char_len (hd mem) \<le> len \<and> (\<exists>c. scalar c \<and> utf8_encode c = take (char_len (hd mem)) mem)
          then Some (char_len (hd mem)) else None)"
proof -
  let ?n = "char_len (hd mem)"
  have n: "0 < ?n" "?n \<le> 4"
    by (simp_all add: char_len_def)
  have b: "load mem 0 = Some (hd mem)"
    using assms by (cases mem) simp_all
  have "rows_check ?n valid_ranges mem = Some (\<exists>row \<in> set valid_ranges. length row = ?n \<and> row_ok row mem)"
    using assms n by (intro rows_check_full valid_ranges_sides) auto
  also have "(\<exists>row \<in> set valid_ranges. length row = ?n \<and> row_ok row mem) \<longleftrightarrow>
      (\<exists>row \<in> set valid_ranges. length row = ?n \<and> row_ok row (take ?n mem))"
    by (auto simp: row_ok_def)
  also have "\<dots> \<longleftrightarrow> well_formed (map unat (take ?n mem))"
    using assms n by (intro table_well_formed) auto
  also have "\<dots> \<longleftrightarrow> (\<exists>c. scalar c \<and> utf8_encode c = take ?n mem)"
  proof
    assume "well_formed (map unat (take ?n mem))"
    then obtain c where "scalar c" "encode_nats c = map unat (take ?n mem)"
      using well_formed_encode_nats by blast
    then show "\<exists>c. scalar c \<and> utf8_encode c = take ?n mem"
      by (auto simp: utf8_encode_def comp_def intro!: exI [of _ c])
  next
    assume "\<exists>c. scalar c \<and> utf8_encode c = take ?n mem"
    then show "well_formed (map unat (take ?n mem))"
      using unat_utf8_encode encode_nats_well_formed by metis
  qed
  finally show ?thesis
    by (auto simp: UTF8_char_validate_def b Let_def)
qed

text \<open>Behind a string, its NUL stops every row before the memory ends.\<close>

lemma row_check_pad:
  "\<forall>(lower, upper) \<in> set row. 0 < unat lower \<and> (unat lower < 128 \<longleftrightarrow> unat upper < 128) \<Longrightarrow>
     row_check row (s @ 0 # pad) = row_check row (s @ [0])"
proof (induction row arbitrary: s)
  case (Cons r row)
  obtain lower upper where r: "r = (lower, upper)"
    by (cases r)
  show ?case
  proof (cases s)
    case Nil
    then show ?thesis
      using Cons.prems r range_unsigned [of lower upper 0] by simp
  next
    case l: (Cons b s')
    then show ?thesis
      using Cons r by auto
  qed
qed simp

lemma rows_check_pad:
  assumes "\<forall>row \<in> set rows. row \<noteq> [] \<and> (\<forall>(lower, upper) \<in> set (tl row). 0 < unat lower \<and> (unat lower < 128 \<longleftrightarrow> unat upper < 128))"
  shows "rows_check n rows (b # s @ 0 # pad) = rows_check n rows (b # s @ [0])"
  using assms
proof (induction rows)
  case (Cons row rows)
  then obtain lower upper row' where "row = (lower, upper) # row'"
    by (cases row) auto
  with Cons show ?case
    using row_check_pad [of row' s pad] by (cases "row_check row' (s @ [0])") auto
qed simp

lemma UTF8_char_validate_pad:
  assumes "s \<noteq> []"
  shows "UTF8_char_validate len (s @ 0 # pad) = UTF8_char_validate len (s @ [0])"
proof -
  obtain b s' where "s = b # s'"
    using assms by (cases s) auto
  moreover have "\<forall>row \<in> set valid_ranges. row \<noteq> [] \<and> (\<forall>(lower, upper) \<in> set (tl row). 0 < unat lower \<and> (unat lower < 128 \<longleftrightarrow> unat upper < 128))"
    by (simp add: valid_ranges_def)
  ultimately show ?thesis
    using rows_check_pad [of valid_ranges _ b s' pad] by (simp add: UTF8_char_validate_def Let_def)
qed

lemma multibyte_no_NUL: "scalar c \<Longrightarrow> 1 < length (utf8_encode c) \<Longrightarrow> 0 \<notin> set (utf8_encode c)"
proof -
  assume c: "scalar c" "1 < length (utf8_encode c)"
  have "well_formed (map unat (utf8_encode c))"
    using unat_utf8_encode [OF c(1)] encode_nats_well_formed [OF c(1)] by simp
  then have "0 \<notin> set (map unat (utf8_encode c))"
    using c(2) by (cases "map unat (utf8_encode c)" rule: well_formed.cases) auto
  then show ?thesis
    by (metis image_eqI list.set_map unat_0)
qed

text \<open>One character of a string without NUL: valid exactly if the rest of the string starts with an encoding.\<close>

lemma UTF8_char_validate_string:
  assumes "s \<noteq> []" "0 \<notin> set s" "length s \<le> len"
  shows "UTF8_char_validate len (s @ [0]) =
    Some (if \<exists>c. scalar c \<and> prefix (utf8_encode c) s then Some (char_len (hd s)) else None)"
proof -
  let ?mem = "s @ 0 # replicate 3 0" and ?n = "char_len (hd s)"
  have hd: "hd ?mem = hd s"
    using assms(1) by (cases s) auto
  have iff: "?n \<le> len \<and> (\<exists>c. scalar c \<and> utf8_encode c = take ?n ?mem) \<longleftrightarrow> (\<exists>c. scalar c \<and> prefix (utf8_encode c) s)"
  proof
    assume "?n \<le> len \<and> (\<exists>c. scalar c \<and> utf8_encode c = take ?n ?mem)"
    then obtain c where c: "scalar c" "utf8_encode c = take ?n ?mem"
      by auto
    have "?n \<le> length s"
    proof (rule ccontr)
      assume long: "\<not> ?n \<le> length s"
      then have "0 \<in> set (utf8_encode c)"
        unfolding c(2) by (cases "?n - length s") auto
      moreover have "1 < length (utf8_encode c)"
        using long assms(1) unfolding c(2) by (cases s) auto
      ultimately show False
        using multibyte_no_NUL [OF c(1)] by blast
    qed
    then have "utf8_encode c = take ?n s"
      using c(2) by simp
    then show "\<exists>c. scalar c \<and> prefix (utf8_encode c) s"
      using c(1) take_is_prefix [of ?n s] by metis
  next
    assume "\<exists>c. scalar c \<and> prefix (utf8_encode c) s"
    then obtain c rest where c: "scalar c" "s = utf8_encode c @ rest"
      by (auto simp: prefix_def)
    then have "hd s = hd (utf8_encode c)"
      using length_utf8_encode(1) [of c] by (cases "utf8_encode c") auto
    then have "?n = length (utf8_encode c)"
      using char_len_encode [OF c(1)] by simp
    then show "?n \<le> len \<and> (\<exists>c. scalar c \<and> utf8_encode c = take ?n ?mem)"
      using c assms(3) by auto
  qed
  have long: "4 \<le> length ?mem"
    using assms(1) by (cases s) auto
  have "UTF8_char_validate len (s @ [0]) = UTF8_char_validate len ?mem"
    using UTF8_char_validate_pad [OF assms(1), of len "replicate 3 0"] by (rule sym)
  also have "\<dots> = Some (if ?n \<le> len \<and> (\<exists>c. scalar c \<and> utf8_encode c = take ?n ?mem) then Some ?n else None)"
    using UTF8_char_validate_spec [OF long, of len] unfolding hd .
  finally show ?thesis
    unfolding iff .
qed

section \<open>Strings\<close>

lemma valid_utf8_step:
  assumes "s \<noteq> []"
  shows "valid_utf8 s \<longleftrightarrow> (\<exists>c. scalar c \<and> prefix (utf8_encode c) s) \<and> valid_utf8 (drop (char_len (hd s)) s)"
proof -
  have len: "char_len (hd s) = length (utf8_encode c)" if "scalar c" "prefix (utf8_encode c) s" for c
    using char_len_encode [OF that(1)] that(2) length_utf8_encode(1) [of c] by (cases "utf8_encode c") (auto simp: prefix_def)
  show ?thesis
  proof
    assume "valid_utf8 s"
    then obtain c cs where c: "scalar c" "\<forall>c \<in> set cs. scalar c" "s = utf8_encode c @ concat (map utf8_encode cs)"
      using assms unfolding valid_utf8_def by (metis concat.simps(1,2) list.exhaust list.map(1,2) list.set_intros(1,2))
    then have "prefix (utf8_encode c) s"
      by simp
    with c len [OF c(1)] show "(\<exists>c. scalar c \<and> prefix (utf8_encode c) s) \<and> valid_utf8 (drop (char_len (hd s)) s)"
      by (auto simp: valid_utf8_def)
  next
    assume r: "(\<exists>c. scalar c \<and> prefix (utf8_encode c) s) \<and> valid_utf8 (drop (char_len (hd s)) s)"
    then obtain c where c: "scalar c" "prefix (utf8_encode c) s"
      by blast
    obtain cs where cs: "\<forall>c \<in> set cs. scalar c" "drop (length (utf8_encode c)) s = concat (map utf8_encode cs)"
      using r len [OF c] by (auto simp: valid_utf8_def)
    have "s = utf8_encode c @ drop (length (utf8_encode c)) s"
      using c(2) by (auto simp: prefix_def)
    then have "s = concat (map utf8_encode (c # cs))"
      using cs(2) by simp
    then show "valid_utf8 s"
      unfolding valid_utf8_def using c(1) cs(1) by (metis set_ConsD)
  qed
qed

lemma UTF8_validate_loop_string:
  assumes "off < length s" "0 \<notin> set s"
  shows "UTF8_validate_loop (length s) (s @ [0]) off = Some (valid_utf8 (drop off s))"
  using assms(1)
proof (induction "length s - off" arbitrary: off rule: less_induct)
  case less
  let ?r = "drop off s" and ?n = "char_len (hd (drop off s))"
  have r: "?r \<noteq> []" "0 \<notin> set ?r" "length ?r \<le> length s" "drop off (s @ [0]) = ?r @ [0]"
    using less.prems assms(2) by (auto dest: in_set_dropD)
  note step = valid_utf8_step [OF r(1)]
  have "UTF8_char_validate (length s) (drop off (s @ [0])) =
      Some (if \<exists>c. scalar c \<and> prefix (utf8_encode c) ?r then Some ?n else None)"
    unfolding r(4) by (rule UTF8_char_validate_string [OF r(1-3)])
  moreover have "drop ?n ?r = drop (off + ?n) s"
    by (simp add: add.commute)
  moreover have "valid_utf8 []"
    by (auto simp: valid_utf8_def intro!: exI [of _ "[]"])
  moreover have "UTF8_validate_loop (length s) (s @ [0]) (off + ?n) = Some (valid_utf8 (drop (off + ?n) s))" if "off + ?n < length s"
    using less.hyps [of "off + ?n"] that less.prems char_len_pos [of "hd ?r"] by simp
  ultimately show ?case
    using step by (subst UTF8_validate_loop.simps) auto
qed

section \<open>Properties\<close>

text \<open>
  C36: the check of a C string is exact. For every string without NUL, of any length and with any
  bytes, \<open>UTF8_validateString\<close> reads nothing behind the terminating NUL and returns true exactly if
  the string is a sequence of UTF-8 encodings of Unicode scalar values: no overlong forms, no
  surrogates, nothing above U+10FFFF, no truncated character.
\<close>

theorem UTF8_validateString_correct:
  assumes "0 \<notin> set s"
  shows "UTF8_validateString s = Some (valid_utf8 s)"
proof (cases "s = []")
  case True
  then show ?thesis
    by (auto simp: UTF8_validateString_def UTF8_validate_def valid_utf8_def intro!: exI [of _ "[]"])
next
  case False
  then show ?thesis
    using UTF8_validate_loop_string [of 0 s] assms by (simp add: UTF8_validateString_def UTF8_validate_def)
qed

theorem UTF8_validateString_correct_witness:
  "UTF8_validateString [0x66, 0xC9, 0xB1] = Some (valid_utf8 [0x66, 0xC9, 0xB1])"
  using UTF8_validateString_correct [of "[0x66, 0xC9, 0xB1]"] by simp

text \<open>
  The check of counted data reads too far. The loop passes the length of the whole data to every
  character: when the data ends in the first byte of a longer character, the bytes behind the data
  decide, and if there are none the read leaves the array.
\<close>

theorem UTF8_validate_overread:
  "UTF8_validate 2 [0x66, 0xC9] = None \<and> UTF8_validate 2 [0x66, 0xC9, 0xB1] = Some True \<and>
   UTF8_validate 2 [0x66, 0xC9, 0x66] = Some False"
  by code_simp

end
