(* ===== verification/Mqtt_List.thy ===== *)
theory Mqtt_List
  imports Siproxy_Prelude
begin

text \<open>
  The linked lists of the MQTT client library, \<^verbatim>\<open>LinkedList.c\<close>: doubly linked elements in a store, a
  header with first, last and current element, a count and a size. Every read and write through a
  pointer is checked; \<open>None\<close> is an access to memory that is not an element.

  The specification is a list of contents with the position of the current element. Every operation
  refines its counterpart there, and so does every sequence of operations. Other theories of the
  library use the lists through that specification.
\<close>

section \<open>Elements and lists\<close>

text \<open>
  \<open>ListElement\<close> and \<open>List\<close>, together with the store the elements are in and, in order, the contents
  that were freed. A content is what the \<open>content\<close> pointer refers to, and distinguishes pointers.
\<close>

record 'c ListElement =
  el_prev :: "nat option"
  el_next :: "nat option"
  el_content :: 'c

record 'c clist =
  l_first :: "nat option"
  l_last :: "nat option"
  l_current :: "nat option"
  l_count :: int
  l_size :: int
  l_elems :: "nat \<rightharpoonup> 'c ListElement"
  l_freed :: "'c list"

definition set_next :: "nat \<Rightarrow> nat option \<Rightarrow> 'c clist \<Rightarrow> 'c clist option" where
  "set_next a v l = do {
     e \<leftarrow> l_elems l a;
     Some (l\<lparr>l_elems := (l_elems l)(a \<mapsto> e\<lparr>el_next := v\<rparr>)\<rparr>)
   }"

definition set_prev :: "nat \<Rightarrow> nat option \<Rightarrow> 'c clist \<Rightarrow> 'c clist option" where
  "set_prev a v l = do {
     e \<leftarrow> l_elems l a;
     Some (l\<lparr>l_elems := (l_elems l)(a \<mapsto> e\<lparr>el_prev := v\<rparr>)\<rparr>)
   }"

definition free_element :: "nat \<Rightarrow> 'c clist \<Rightarrow> 'c clist" where
  "free_element a l = l\<lparr>l_elems := (l_elems l)(a := None)\<rparr>"

definition ListZero :: "'c clist \<Rightarrow> 'c clist" where
  "ListZero newl = newl\<lparr>l_first := None, l_last := None, l_current := None, l_count := 0, l_size := 0\<rparr>"

section \<open>Adding\<close>

text \<open>\<open>newel\<close> is the address of the element, and \<open>m\<close> the result of \<open>malloc\<close>, \<open>None\<close> for NULL.\<close>

definition ListAppendNoMalloc :: "'c \<Rightarrow> nat \<Rightarrow> int \<Rightarrow> 'c clist \<Rightarrow> 'c clist option" where
  "ListAppendNoMalloc content newel sz aList = do {
     let l1 = aList\<lparr>l_elems := (l_elems aList)
       (newel \<mapsto> \<lparr>el_prev = l_last aList, el_next = None, el_content = content\<rparr>)\<rparr>;
     l2 \<leftarrow> (if l_first aList = None then Some (l1\<lparr>l_first := Some newel\<rparr>)
            else do { la \<leftarrow> l_last l1; set_next la (Some newel) l1 });
     Some (l2\<lparr>l_last := Some newel, l_count := l_count l2 + 1, l_size := l_size l2 + sz\<rparr>)
   }"

definition ListAppend :: "'c \<Rightarrow> nat option \<Rightarrow> int \<Rightarrow> 'c clist \<Rightarrow> 'c clist option" where
  "ListAppend content m sz aList = do { newel \<leftarrow> m; ListAppendNoMalloc content newel sz aList }"

definition ListInsert :: "'c \<Rightarrow> nat option \<Rightarrow> int \<Rightarrow> nat option \<Rightarrow> 'c clist \<Rightarrow> 'c clist option" where
  "ListInsert content m sz index aList = do {
     newel \<leftarrow> m;
     case index of
       None \<Rightarrow> ListAppendNoMalloc content newel sz aList
     | Some i \<Rightarrow> do {
         ei \<leftarrow> l_elems aList i;
         let l1 = aList\<lparr>l_elems := (l_elems aList)
           (newel \<mapsto> \<lparr>el_prev = el_prev ei, el_next = Some i, el_content = content\<rparr>)\<rparr>;
         l2 \<leftarrow> set_prev i (Some newel) l1;
         l3 \<leftarrow> (case el_prev ei of
                 Some p \<Rightarrow> set_next p (Some newel) l2
               | None \<Rightarrow> Some (l2\<lparr>l_first := Some newel\<rparr>));
         Some (l3\<lparr>l_count := l_count l3 + 1, l_size := l_size l3 + sz\<rparr>)
       }
   }"

section \<open>Iterating and finding\<close>

definition ListNextElement :: "'c clist \<Rightarrow> nat option \<Rightarrow> nat option option" where
  "ListNextElement aList pos =
     (case pos of None \<Rightarrow> Some (l_first aList) | Some a \<Rightarrow> map_option el_next (l_elems aList a))"

definition ListPrevElement :: "'c clist \<Rightarrow> nat option \<Rightarrow> nat option option" where
  "ListPrevElement aList pos =
     (case pos of None \<Rightarrow> Some (l_last aList) | Some a \<Rightarrow> map_option el_prev (l_elems aList a))"

text \<open>
  \<open>cmp\<close> is the comparison of an element's content with the one looked for: the callback, or equality
  of the pointers where the callback is NULL (\<open>ListFind\<close>, \<open>ListDetach\<close>, \<open>ListRemove\<close>).
\<close>

partial_function (option) ListFind_loop :: "('c \<Rightarrow> bool) \<Rightarrow> 'c clist \<Rightarrow> nat option \<Rightarrow> nat option option" where
  "ListFind_loop cmp aList current =
     Option.bind (ListNextElement aList current) (\<lambda>nxt.
       case nxt of
         None \<Rightarrow> Some None
       | Some a \<Rightarrow> Option.bind (l_elems aList a) (\<lambda>e.
           if cmp (el_content e) then Some (Some a) else ListFind_loop cmp aList (Some a)))"

definition ListFindItem :: "('c \<Rightarrow> bool) \<Rightarrow> 'c clist \<Rightarrow> (nat option \<times> 'c clist) option" where
  "ListFindItem cmp aList = do {
     here \<leftarrow> (case l_current aList of
               None \<Rightarrow> Some False
             | Some a \<Rightarrow> do { e \<leftarrow> l_elems aList a; Some (cmp (el_content e)) });
     if here then Some (l_current aList, aList)
     else do {
       rc \<leftarrow> ListFind_loop cmp aList None;
       Some (rc, if rc \<noteq> None then aList\<lparr>l_current := rc\<rparr> else aList)
     }
   }"

definition ListFind :: "'c \<Rightarrow> 'c clist \<Rightarrow> (nat option \<times> 'c clist) option" where
  "ListFind content aList = ListFindItem (\<lambda>c. c = content) aList"

section \<open>Removing\<close>

definition ListUnlink :: "('c \<Rightarrow> bool) \<Rightarrow> bool \<Rightarrow> 'c clist \<Rightarrow> (bool \<times> 'c clist) option" where
  "ListUnlink cmp freeContent aList = do {
     (rc, l1) \<leftarrow> ListFindItem cmp aList;
     case rc of
       None \<Rightarrow> Some (False, l1)
     | Some _ \<Rightarrow> do {
         c \<leftarrow> l_current l1;
         e1 \<leftarrow> l_elems l1 c;
         l2 \<leftarrow> (case el_prev e1 of
                 None \<Rightarrow> Some (l1\<lparr>l_first := el_next e1\<rparr>)
               | Some p \<Rightarrow> set_next p (el_next e1) l1);
         e2 \<leftarrow> l_elems l2 c;
         l3 \<leftarrow> (case el_next e2 of
                 None \<Rightarrow> Some (l2\<lparr>l_last := el_prev e2\<rparr>)
               | Some n \<Rightarrow> set_prev n (el_prev e2) l2);
         e3 \<leftarrow> l_elems l3 c;
         let l4 = (if freeContent then l3\<lparr>l_freed := l_freed l3 @ [el_content e3]\<rparr> else l3);
         let l5 = free_element c l4;
         Some (True, l5\<lparr>l_current := (if l_current aList = Some c then el_next e3 else l_current aList),
                        l_count := l_count l5 - 1\<rparr>)
       }
   }"

definition ListDetach :: "'c \<Rightarrow> 'c clist \<Rightarrow> (bool \<times> 'c clist) option" where
  "ListDetach content aList = ListUnlink (\<lambda>c. c = content) False aList"

definition ListRemove :: "'c \<Rightarrow> 'c clist \<Rightarrow> (bool \<times> 'c clist) option" where
  "ListRemove content aList = ListUnlink (\<lambda>c. c = content) True aList"

definition ListDetachItem :: "('c \<Rightarrow> bool) \<Rightarrow> 'c clist \<Rightarrow> (bool \<times> 'c clist) option" where
  "ListDetachItem cmp aList = ListUnlink cmp False aList"

definition ListRemoveItem :: "('c \<Rightarrow> bool) \<Rightarrow> 'c clist \<Rightarrow> (bool \<times> 'c clist) option" where
  "ListRemoveItem cmp aList = ListUnlink cmp True aList"

definition ListDetachHead :: "'c clist \<Rightarrow> ('c option \<times> 'c clist) option" where
  "ListDetachHead aList =
     (if l_count aList > 0 then do {
        first \<leftarrow> l_first aList;
        e \<leftarrow> l_elems aList first;
        let l1 = (if l_current aList = Some first then aList\<lparr>l_current := el_next e\<rparr> else aList);
        let l2 = (if l_last l1 = Some first then l1\<lparr>l_last := None\<rparr> else l1);
        let l3 = l2\<lparr>l_first := el_next e\<rparr>;
        l4 \<leftarrow> (case l_first l3 of None \<Rightarrow> Some l3 | Some n \<Rightarrow> set_prev n None l3);
        let l5 = free_element first l4;
        Some (Some (el_content e), l5\<lparr>l_count := l_count l5 - 1\<rparr>)
      } else Some (None, aList))"

definition ListRemoveHead :: "'c clist \<Rightarrow> (int \<times> 'c clist) option" where
  "ListRemoveHead aList = do {
     (content, l) \<leftarrow> ListDetachHead aList;
     Some (0, l\<lparr>l_freed := l_freed l @ (case content of None \<Rightarrow> [] | Some c \<Rightarrow> [c])\<rparr>)
   }"

definition ListPopTail :: "'c clist \<Rightarrow> ('c option \<times> 'c clist) option" where
  "ListPopTail aList =
     (if l_count aList > 0 then do {
        la \<leftarrow> l_last aList;
        e \<leftarrow> l_elems aList la;
        let l1 = (if l_current aList = Some la then aList\<lparr>l_current := el_prev e\<rparr> else aList);
        let l2 = (if l_first l1 = Some la then l1\<lparr>l_first := None\<rparr> else l1);
        let l3 = l2\<lparr>l_last := el_prev e\<rparr>;
        l4 \<leftarrow> (case l_last l3 of None \<Rightarrow> Some l3 | Some p \<Rightarrow> set_next p None l3);
        let l5 = free_element la l4;
        Some (Some (el_content e), l5\<lparr>l_count := l_count l5 - 1\<rparr>)
      } else Some (None, aList))"

partial_function (option) ListEmpty_loop :: "'c clist \<Rightarrow> 'c clist option" where
  "ListEmpty_loop aList =
     (case l_first aList of
        None \<Rightarrow> Some aList
      | Some first \<Rightarrow> Option.bind (l_elems aList first) (\<lambda>e.
          ListEmpty_loop (free_element first
            (aList\<lparr>l_freed := l_freed aList @ [el_content e], l_first := el_next e\<rparr>))))"

definition ListEmpty :: "'c clist \<Rightarrow> 'c clist option" where
  "ListEmpty aList = do {
     l \<leftarrow> ListEmpty_loop aList;
     Some (l\<lparr>l_count := 0, l_size := 0, l_current := None, l_first := None, l_last := None\<rparr>)
   }"

text \<open>\<open>ListFreeNoContent\<close> frees the elements and keeps their contents; the header is freed behind it.\<close>

partial_function (option) ListFreeNoContent :: "'c clist \<Rightarrow> 'c clist option" where
  "ListFreeNoContent aList =
     (case l_first aList of
        None \<Rightarrow> Some aList
      | Some first \<Rightarrow> Option.bind (l_elems aList first) (\<lambda>e.
          ListFreeNoContent (free_element first (aList\<lparr>l_first := el_next e\<rparr>))))"

section \<open>What the list holds\<close>

text \<open>
  \<open>xs\<close> are the addresses and contents of the elements in order. Every element is linked to its
  neighbours, the header to both ends, and the current element is one of them, at position \<open>k\<close>.
\<close>

definition addr :: "(nat \<times> 'c) list \<Rightarrow> nat \<Rightarrow> nat option" where
  "addr xs i = (if i < length xs then Some (fst (xs ! i)) else None)"

definition before :: "(nat \<times> 'c) list \<Rightarrow> nat \<Rightarrow> nat option" where
  "before xs i = (case i of 0 \<Rightarrow> None | Suc j \<Rightarrow> addr xs j)"

definition node :: "(nat \<times> 'c) list \<Rightarrow> nat \<Rightarrow> 'c ListElement" where
  "node xs i = \<lparr>el_prev = before xs i, el_next = addr xs (Suc i), el_content = snd (xs ! i)\<rparr>"

definition linked :: "(nat \<rightharpoonup> 'c ListElement) \<Rightarrow> (nat \<times> 'c) list \<Rightarrow> bool" where
  "linked h xs \<longleftrightarrow> distinct (map fst xs) \<and> (\<forall>i < length xs. h (fst (xs ! i)) = Some (node xs i))"

definition repr :: "'c clist \<Rightarrow> (nat \<times> 'c) list \<Rightarrow> nat option \<Rightarrow> bool" where
  "repr l xs k \<longleftrightarrow> linked (l_elems l) xs \<and> l_first l = addr xs 0 \<and> l_last l = before xs (length xs) \<and>
     l_count l = int (length xs) \<and> l_current l = Option.bind k (addr xs) \<and> (\<forall>i. k = Some i \<longrightarrow> i < length xs)"

text \<open>Inserting at and removing from a position.\<close>

definition insert_nth :: "nat \<Rightarrow> 'a \<Rightarrow> 'a list \<Rightarrow> 'a list" where
  "insert_nth i x xs = take i xs @ x # drop i xs"

definition remove_nth :: "nat \<Rightarrow> 'a list \<Rightarrow> 'a list" where
  "remove_nth i xs = take i xs @ drop (Suc i) xs"

lemma length_remove_nth [simp]: "i < length xs \<Longrightarrow> length (remove_nth i xs) = length xs - 1"
  by (simp add: remove_nth_def)

lemma length_insert_nth [simp]: "i \<le> length xs \<Longrightarrow> length (insert_nth i x xs) = Suc (length xs)"
  by (simp add: insert_nth_def)

lemma nth_remove_nth: "i < length xs \<Longrightarrow> j < length xs - 1 \<Longrightarrow> remove_nth i xs ! j = (if j < i then xs ! j else xs ! Suc j)"
  by (auto simp: remove_nth_def nth_append min_def)

lemma nth_insert_nth:
  "i \<le> length xs \<Longrightarrow> j \<le> length xs \<Longrightarrow> insert_nth i x xs ! j = (if j < i then xs ! j else if j = i then x else xs ! (j - 1))"
  by (auto simp: insert_nth_def nth_append min_def nth_Cons')

lemma map_remove_nth: "map f (remove_nth i xs) = remove_nth i (map f xs)"
  by (simp add: remove_nth_def take_map drop_map)

lemma map_insert_nth: "map f (insert_nth i x xs) = insert_nth i (f x) (map f xs)"
  by (simp add: insert_nth_def take_map drop_map)

lemma set_remove_nth: "set (remove_nth i xs) \<subseteq> set xs"
  by (auto simp: remove_nth_def dest: in_set_takeD in_set_dropD)

lemma distinct_remove_nth: "distinct xs \<Longrightarrow> distinct (remove_nth i xs)"
  using set_take_disj_set_drop_if_distinct [of xs i "Suc i"] by (simp add: remove_nth_def)

lemma distinct_insert_nth: "distinct xs \<Longrightarrow> x \<notin> set xs \<Longrightarrow> distinct (insert_nth i x xs)"
  using set_take_disj_set_drop_if_distinct [of xs i i] by (auto simp: insert_nth_def dest: in_set_takeD in_set_dropD)

text \<open>Only the neighbours of the place change.\<close>

lemma node_remove_nth:
  "i < length xs \<Longrightarrow> j < length xs - 1 \<Longrightarrow> node (remove_nth i xs) j =
     (if Suc j = i then (node xs j)\<lparr>el_next := addr xs (Suc i)\<rparr> else if j < i then node xs j
      else if j = i then (node xs (Suc i))\<lparr>el_prev := before xs i\<rparr> else node xs (Suc j))"
  by (auto simp: node_def before_def addr_def nth_remove_nth split: nat.splits)

lemma node_insert_nth:
  "i \<le> length xs \<Longrightarrow> j \<le> length xs \<Longrightarrow> node (insert_nth i (a, c) xs) j =
     (if Suc j = i then (node xs j)\<lparr>el_next := Some a\<rparr> else if j < i then node xs j
      else if j = i then \<lparr>el_prev = before xs i, el_next = addr xs i, el_content = c\<rparr>
      else if j = Suc i then (node xs i)\<lparr>el_prev := Some a\<rparr> else node xs (j - 1))"
  by (auto simp: node_def before_def addr_def nth_insert_nth split: nat.splits)

lemma linked_inj:
  "linked h xs \<Longrightarrow> i < length xs \<Longrightarrow> j < length xs \<Longrightarrow> fst (xs ! i) = fst (xs ! j) \<longleftrightarrow> i = j"
  unfolding linked_def by (metis length_map nth_eq_iff_index_eq nth_map)

lemma linked_node: "linked h xs \<Longrightarrow> i < length xs \<Longrightarrow> h (fst (xs ! i)) = Some (node xs i)"
  by (simp add: linked_def)

lemma linked_remove:
  assumes "linked h xs" "i < length xs"
    and "\<And>j. j < length xs \<Longrightarrow> j \<noteq> i \<Longrightarrow> h' (fst (xs ! j)) =
      Some (if Suc j = i then (node xs j)\<lparr>el_next := addr xs (Suc i)\<rparr>
            else if j = Suc i then (node xs j)\<lparr>el_prev := before xs i\<rparr> else node xs j)"
  shows "linked h' (remove_nth i xs)"
  using assms unfolding linked_def
  by (auto simp: map_remove_nth distinct_remove_nth node_remove_nth nth_remove_nth)

lemma linked_insert:
  assumes "linked h xs" "i \<le> length xs" "a \<notin> fst ` set xs"
    and "h' a = Some \<lparr>el_prev = before xs i, el_next = addr xs i, el_content = c\<rparr>"
    and "\<And>j. j < length xs \<Longrightarrow> h' (fst (xs ! j)) =
      Some (if Suc j = i then (node xs j)\<lparr>el_next := Some a\<rparr>
            else if j = i then (node xs j)\<lparr>el_prev := Some a\<rparr> else node xs j)"
  shows "linked h' (insert_nth i (a, c) xs)"
  using assms unfolding linked_def
  by (auto simp: map_insert_nth distinct_insert_nth node_insert_nth nth_insert_nth)

section \<open>Adding refines insertion\<close>

lemma addr_in [simp]: "i < length xs \<Longrightarrow> addr xs i = Some (fst (xs ! i))"
  by (simp add: addr_def)

lemma addr_out [simp]: "length xs \<le> i \<Longrightarrow> addr xs i = None"
  by (simp add: addr_def)

lemma before_0 [simp]: "before xs 0 = None"
  by (simp add: before_def)

lemma before_Suc [simp]: "before xs (Suc i) = addr xs i"
  by (simp add: before_def)

lemma addr_insert_nth:
  "i \<le> length xs \<Longrightarrow> addr (insert_nth i (a, c) xs) j = (if j < i then addr xs j else if j = i then Some a else addr xs (j - 1))"
  by (auto simp: addr_def nth_insert_nth)

lemma addr_remove_nth:
  "i < length xs \<Longrightarrow> addr (remove_nth i xs) j = (if j < i then addr xs j else addr xs (Suc j))"
  by (auto simp: addr_def nth_remove_nth)

text \<open>Where the current element is after an insertion and after a removal.\<close>

definition shift_up :: "nat \<Rightarrow> nat option \<Rightarrow> nat option" where
  "shift_up i k = map_option (\<lambda>j. if i \<le> j then Suc j else j) k"

definition shift_down :: "nat \<Rightarrow> nat option \<Rightarrow> nat option" where
  "shift_down i k = map_option (\<lambda>j. if i < j then j - 1 else j) k"

lemma current_insert:
  assumes "i \<le> length xs" "\<forall>j. k = Some j \<longrightarrow> j < length xs"
  shows "Option.bind (shift_up i k) (addr (insert_nth i (a, c) xs)) = Option.bind k (addr xs)"
    "\<forall>j. shift_up i k = Some j \<longrightarrow> j < length (insert_nth i (a, c) xs)"
proof -
  show "Option.bind (shift_up i k) (addr (insert_nth i (a, c) xs)) = Option.bind k (addr xs)"
    using assms by (cases k) (auto simp: shift_up_def addr_insert_nth simp del: addr_in)
  show "\<forall>j. shift_up i k = Some j \<longrightarrow> j < length (insert_nth i (a, c) xs)"
    using assms by (cases k) (auto simp: shift_up_def)
qed

lemma current_remove:
  assumes "i < length xs" "\<forall>j. k = Some j \<longrightarrow> j < length xs" "k \<noteq> Some i"
  shows "Option.bind (shift_down i k) (addr (remove_nth i xs)) = Option.bind k (addr xs)"
    "\<forall>j. shift_down i k = Some j \<longrightarrow> j < length (remove_nth i xs)"
proof -
  have j: "j < length xs \<and> j \<noteq> i" if "k = Some j" for j
    using assms that by auto
  show "Option.bind (shift_down i k) (addr (remove_nth i xs)) = Option.bind k (addr xs)"
    using assms(1) j by (cases k) (auto simp: shift_down_def addr_remove_nth simp del: addr_in)
  show "\<forall>j. shift_down i k = Some j \<longrightarrow> j < length (remove_nth i xs)"
    using assms(1) j by (cases k) (auto simp: shift_down_def)
qed

lemma repr_fresh: "repr l xs k \<Longrightarrow> l_elems l a = None \<Longrightarrow> a \<notin> fst ` set xs"
  by (auto simp: repr_def linked_def in_set_conv_nth image_iff) (metis fst_conv option.distinct(1))

lemma repr_insert:
  assumes r: "repr l xs k" and i: "i \<le> length xs" and a: "a \<notin> fst ` set xs"
    and l': "linked (l_elems l') (insert_nth i (a, c) xs)" "l_current l' = l_current l"
      "l_first l' = (if i = 0 then Some a else l_first l)" "l_last l' = (if i = length xs then Some a else l_last l)"
      "l_count l' = l_count l + 1"
  shows "repr l' (insert_nth i (a, c) xs) (shift_up i k)"
proof -
  have "\<forall>j. k = Some j \<longrightarrow> j < length xs" "l_current l = Option.bind k (addr xs)"
    using r by (auto simp: repr_def)
  moreover have "before (insert_nth i (a, c) xs) (Suc (length xs)) = (if i = length xs then Some a else before xs (length xs))"
    using i by (auto simp: nth_insert_nth before_def split: nat.split)
  moreover have "addr (insert_nth i (a, c) xs) 0 = (if i = 0 then Some a else addr xs 0)"
    using i by (simp add: addr_insert_nth del: addr_in)
  ultimately show ?thesis
    using r i l' current_insert [OF i, of k a c] unfolding repr_def by simp
qed

lemma append_refines:
  assumes r: "repr l xs k" and a: "l_elems l a = None"
  shows "\<exists>l'. ListAppendNoMalloc c a sz l = Some l' \<and> repr l' (insert_nth (length xs) (a, c) xs) (shift_up (length xs) k) \<and>
    l_freed l' = l_freed l"
proof -
  note fresh = repr_fresh [OF r a]
  have lk: "linked (l_elems l) xs" and ends: "l_first l = addr xs 0" "l_last l = before xs (length xs)"
    using r by (auto simp: repr_def)
  have other: "fst (xs ! j) \<noteq> a" if "j < length xs" for j
    using fresh that by force
  show ?thesis
  proof (cases "xs = []")
    case True
    have "repr l [] k" "linked (l_elems l) []"
      using r lk True by simp_all
    then show ?thesis
      using True ends
      by (auto simp: ListAppendNoMalloc_def Let_def intro!: repr_insert linked_insert)
  next
    case False
    then obtain n where n: "length xs = Suc n"
      by (cases xs) auto
    have p: "l_elems l (fst (xs ! n)) = Some (node xs n)"
      using linked_node [OF lk, of n] n by simp
    show ?thesis
      using False ends n p other fresh lk
      by (auto simp: ListAppendNoMalloc_def Let_def set_next_def linked_inj linked_node
          intro!: repr_insert [OF r] linked_insert [OF lk])
  qed
qed

lemma insert_refines:
  assumes r: "repr l xs k" and a: "l_elems l a = None" and i: "i < length xs"
  shows "\<exists>l'. ListInsert c (Some a) sz (addr xs i) l = Some l' \<and> repr l' (insert_nth i (a, c) xs) (shift_up i k) \<and>
    l_freed l' = l_freed l"
proof -
  note fresh = repr_fresh [OF r a]
  have lk: "linked (l_elems l) xs" and ends: "l_first l = addr xs 0" "l_last l = before xs (length xs)"
    using r by (auto simp: repr_def)
  have other: "fst (xs ! j) \<noteq> a" if "j < length xs" for j
    using fresh that by force
  have e: "l_elems l (fst (xs ! i)) = Some (node xs i)"
    using linked_node [OF lk i] .
  show ?thesis
  proof (cases i)
    case 0
    then show ?thesis
      using i ends e other fresh lk
      by (auto simp: ListInsert_def Let_def set_prev_def node_def linked_inj linked_node
          intro!: repr_insert [OF r] linked_insert [OF lk])
  next
    case (Suc j)
    have p: "l_elems l (fst (xs ! j)) = Some (node xs j)"
      using linked_node [OF lk, of j] Suc i by simp
    show ?thesis
      using i ends e p other fresh lk Suc
      by (auto simp: ListInsert_def Let_def set_prev_def set_next_def node_def linked_inj linked_node
          intro!: repr_insert [OF r] linked_insert [OF lk])
  qed
qed

section \<open>Finding refines searching\<close>

fun first_index :: "('c \<Rightarrow> bool) \<Rightarrow> 'c list \<Rightarrow> nat option" where
  "first_index cmp [] = None"
| "first_index cmp (x # xs) = (if cmp x then Some 0 else map_option Suc (first_index cmp xs))"

text \<open>The current element is tried first.\<close>

definition find_index :: "('c \<Rightarrow> bool) \<Rightarrow> 'c list \<Rightarrow> nat option \<Rightarrow> nat option" where
  "find_index cmp xs k =
     (case k of
        None \<Rightarrow> first_index cmp xs
      | Some i \<Rightarrow> if cmp (xs ! i) then k else first_index cmp xs)"

lemma first_index_Some: "first_index cmp xs = Some i \<Longrightarrow> i < length xs \<and> cmp (xs ! i) \<and> (\<forall>j < i. \<not> cmp (xs ! j))"
  by (induction xs arbitrary: i) (auto simp: less_Suc_eq_0_disj split: if_splits)

lemma first_index_None: "first_index cmp xs = None \<longleftrightarrow> (\<forall>x \<in> set xs. \<not> cmp x)"
  by (induction xs) auto

lemma find_index_Some: "find_index cmp xs k = Some i \<Longrightarrow> \<forall>j. k = Some j \<longrightarrow> j < length xs \<Longrightarrow> i < length xs \<and> cmp (xs ! i)"
  by (auto simp: find_index_def dest: first_index_Some split: option.splits if_splits)

lemma next_element:
  "repr l xs k \<Longrightarrow> i \<le> length xs \<Longrightarrow> ListNextElement l (before xs i) = Some (addr xs i)"
  by (cases i) (auto simp: ListNextElement_def repr_def linked_node node_def)

lemma prev_element:
  assumes "repr l xs k" "i \<le> length xs"
  shows "ListPrevElement l (addr xs i) = Some (before xs i)"
proof (cases "i < length xs")
  case True
  then show ?thesis
    using assms by (simp add: ListPrevElement_def repr_def linked_node node_def)
qed (use assms in \<open>auto simp: ListPrevElement_def repr_def\<close>)

lemma find_loop_refines:
  assumes "repr l xs k" "i \<le> length xs"
  shows "ListFind_loop cmp l (before xs i) =
    Some (Option.bind (first_index cmp (drop i (map snd xs))) (\<lambda>j. addr xs (i + j)))"
  using assms(2)
proof (induction "length xs - i" arbitrary: i)
  case 0
  then show ?case
    using assms(1) by (subst ListFind_loop.simps) (simp add: next_element)
next
  case (Suc n)
  then have i: "i < length xs"
    by simp
  have "ListFind_loop cmp l (before xs (Suc i)) =
      Some (Option.bind (first_index cmp (drop (Suc i) (map snd xs))) (\<lambda>j. addr xs (Suc i + j)))"
    using Suc.hyps(1) [of "Suc i"] Suc.hyps(2) i by (simp del: before_Suc)
  moreover have "drop i (map snd xs) = snd (xs ! i) # drop (Suc i) (map snd xs)"
    using i Cons_nth_drop_Suc [of i "map snd xs"] by simp
  moreover have "l_elems l (fst (xs ! i)) = Some (node xs i)"
    using assms(1) i by (simp add: repr_def linked_node)
  ultimately show ?case
    using assms(1) i by (subst ListFind_loop.simps)
      (cases "first_index cmp (drop (Suc i) (map snd xs))"; simp add: next_element node_def)
qed

lemma find_refines:
  assumes r: "repr l xs k"
  shows "\<exists>l'. ListFindItem cmp l = Some (Option.bind (find_index cmp (map snd xs) k) (addr xs), l') \<and>
    repr l' xs (if find_index cmp (map snd xs) k = None then k else find_index cmp (map snd xs) k) \<and>
    l' = l\<lparr>l_current := l_current l'\<rparr>"
proof -
  let ?f = "first_index cmp (map snd xs)"
  have loop: "ListFind_loop cmp l None = Some (Option.bind ?f (addr xs))"
    using find_loop_refines [OF r, of 0] by simp
  have k: "\<forall>j. k = Some j \<longrightarrow> j < length xs" "l_current l = Option.bind k (addr xs)"
    using r by (auto simp: repr_def)
  have search: "\<exists>l'. Some (Option.bind ?f (addr xs), if Option.bind ?f (addr xs) \<noteq> None
        then l\<lparr>l_current := Option.bind ?f (addr xs)\<rparr> else l) = Some (Option.bind ?f (addr xs), l') \<and>
      repr l' xs (if ?f = None then k else ?f) \<and> l' = l\<lparr>l_current := l_current l'\<rparr>"
    using r by (cases ?f) (auto simp: repr_def dest: first_index_Some)
  show ?thesis
  proof (cases k)
    case None
    then show ?thesis
      using search k(2) by (cases ?f) (auto simp: ListFindItem_def find_index_def loop dest: first_index_Some)
  next
    case (Some i)
    then have "l_elems l (fst (xs ! i)) = Some (node xs i)" "i < length xs"
      using r k by (auto simp: repr_def linked_node)
    then show ?thesis
      using search k(2) Some r by (cases ?f) (auto simp: ListFindItem_def find_index_def loop node_def dest: first_index_Some)
  qed
qed

section \<open>Removing refines removal\<close>

definition after_remove :: "nat \<Rightarrow> nat \<Rightarrow> nat option \<Rightarrow> nat option" where
  "after_remove n i k = (if k = Some i then (if Suc i < n then Some i else None) else shift_down i k)"

lemma repr_remove:
  assumes r: "repr l xs k" and i: "i < length xs"
    and l': "linked (l_elems l') (remove_nth i xs)"
      "l_first l' = (if i = 0 then addr xs 1 else l_first l)"
      "l_last l' = (if Suc i = length xs then before xs i else l_last l)" "l_count l' = l_count l - 1"
      "l_current l' = Option.bind k' (addr (remove_nth i xs))" "\<forall>j. k' = Some j \<longrightarrow> j < length xs - 1"
  shows "repr l' (remove_nth i xs) k'"
proof -
  have "before (remove_nth i xs) (length xs - 1) = (if Suc i = length xs then before xs i else before xs (length xs))"
    using i by (auto simp: before_def nth_remove_nth split: nat.split)
  moreover have "addr (remove_nth i xs) 0 = (if i = 0 then addr xs 1 else addr xs 0)"
    using i by (simp add: addr_remove_nth del: addr_in)
  ultimately show ?thesis
    using r i l' unfolding repr_def by simp
qed

lemma current_after_remove:
  assumes "repr l xs k" "i < length xs"
  shows "Option.bind (after_remove (length xs) i k) (addr (remove_nth i xs)) =
      (if l_current l = Some (fst (xs ! i)) then addr xs (Suc i) else l_current l)"
    "\<forall>j. after_remove (length xs) i k = Some j \<longrightarrow> j < length xs - 1"
proof -
  have k: "\<forall>j. k = Some j \<longrightarrow> j < length xs" "l_current l = Option.bind k (addr xs)" "linked (l_elems l) xs"
    using assms by (auto simp: repr_def)
  have iff: "l_current l = Some (fst (xs ! i)) \<longleftrightarrow> k = Some i"
    using k assms(2) by (cases k) (auto simp: linked_inj)
  show "Option.bind (after_remove (length xs) i k) (addr (remove_nth i xs)) =
      (if l_current l = Some (fst (xs ! i)) then addr xs (Suc i) else l_current l)"
    unfolding iff using current_remove(1) [OF assms(2) k(1)] k(2) assms(2)
    by (auto simp: after_remove_def addr_remove_nth simp del: addr_in)
  show "\<forall>j. after_remove (length xs) i k = Some j \<longrightarrow> j < length xs - 1"
    using current_remove(2) [OF assms(2) k(1)] assms(2) by (auto simp: after_remove_def)
qed

text \<open>The store without the element at \<open>i\<close>.\<close>

definition bypass :: "(nat \<rightharpoonup> 'c ListElement) \<Rightarrow> (nat \<times> 'c) list \<Rightarrow> nat \<Rightarrow> nat \<rightharpoonup> 'c ListElement" where
  "bypass h xs i =
     (case before xs i of None \<Rightarrow> h | Some p \<Rightarrow> h(p \<mapsto> (node xs (i - 1))\<lparr>el_next := addr xs (Suc i)\<rparr>))"

definition cut :: "(nat \<rightharpoonup> 'c ListElement) \<Rightarrow> (nat \<times> 'c) list \<Rightarrow> nat \<Rightarrow> nat \<rightharpoonup> 'c ListElement" where
  "cut h xs i =
     (case addr xs (Suc i) of None \<Rightarrow> bypass h xs i
      | Some n \<Rightarrow> (bypass h xs i)(n \<mapsto> (node xs (Suc i))\<lparr>el_prev := before xs i\<rparr>))"

lemma bypass_nth:
  assumes "linked h xs" "i < length xs" "j < length xs"
  shows "bypass h xs i (fst (xs ! j)) = Some (if Suc j = i then (node xs j)\<lparr>el_next := addr xs (Suc i)\<rparr> else node xs j)"
proof (cases i)
  case 0
  then show ?thesis
    using linked_node [OF assms(1,3)] by (simp add: bypass_def)
next
  case (Suc p)
  then have "fst (xs ! j) = fst (xs ! p) \<longleftrightarrow> j = p"
    using linked_inj [OF assms(1,3), of p] assms(2) by simp
  then show ?thesis
    using linked_node [OF assms(1,3)] Suc assms(2) by (simp add: bypass_def)
qed

lemma cut_nth:
  assumes "linked h xs" "i < length xs" "j < length xs"
  shows "cut h xs i (fst (xs ! j)) =
    Some (if Suc j = i then (node xs j)\<lparr>el_next := addr xs (Suc i)\<rparr>
          else if j = Suc i then (node xs j)\<lparr>el_prev := before xs i\<rparr> else node xs j)"
proof (cases "Suc i < length xs")
  case True
  then show ?thesis
    using linked_inj [OF assms(1,3) True] bypass_nth [OF assms] by (simp add: cut_def)
qed (use bypass_nth [OF assms] assms(3) in \<open>auto simp: cut_def\<close>)

lemma linked_cut:
  assumes "linked h xs" "i < length xs"
  shows "linked ((cut h xs i)(fst (xs ! i) := None)) (remove_nth i xs)"
  using cut_nth [OF assms] linked_inj [OF assms(1)] assms(2) by (intro linked_remove [OF assms]) simp

lemma link_next:
  assumes "linked (l_elems l) xs" "i < length xs"
  shows "(case before xs i of None \<Rightarrow> Some (l\<lparr>l_first := addr xs (Suc i)\<rparr>) | Some p \<Rightarrow> set_next p (addr xs (Suc i)) l) =
    Some (l\<lparr>l_first := (if i = 0 then addr xs 1 else l_first l), l_elems := bypass (l_elems l) xs i\<rparr>)"
proof (cases i)
  case (Suc p)
  then have "l_elems l (fst (xs ! p)) = Some (node xs p)"
    using linked_node [OF assms(1), of p] assms(2) by simp
  then show ?thesis
    using Suc assms(2) by (simp add: set_next_def bypass_def)
qed (simp add: bypass_def)

lemma link_prev:
  assumes "linked h xs" "i < length xs" "l_elems l = bypass h xs i"
  shows "(case addr xs (Suc i) of None \<Rightarrow> Some (l\<lparr>l_last := before xs i\<rparr>) | Some n \<Rightarrow> set_prev n (before xs i) l) =
    Some (l\<lparr>l_last := (if Suc i = length xs then before xs i else l_last l), l_elems := cut h xs i\<rparr>)"
proof (cases "Suc i < length xs")
  case True
  then show ?thesis
    using bypass_nth [OF assms(1,2) True] assms(3) by (simp add: set_prev_def cut_def)
qed (use assms in \<open>simp add: cut_def\<close>)

lemma unlink_refines:
  assumes r: "repr l xs k" and f: "find_index cmp (map snd xs) k = Some i"
  shows "\<exists>l'. ListUnlink cmp fr l = Some (True, l') \<and> repr l' (remove_nth i xs) (after_remove (length xs) i k) \<and>
    l_freed l' = l_freed l @ (if fr then [snd (xs ! i)] else [])"
proof -
  have i: "i < length xs"
    using find_index_Some [OF f] r by (simp add: repr_def)
  have lk: "linked (l_elems l) xs"
    using r by (simp add: repr_def)
  obtain l1 where l1: "ListFindItem cmp l = Some (Some (fst (xs ! i)), l1)" "l_current l1 = Some (fst (xs ! i))"
    "l1 = l\<lparr>l_current := l_current l1\<rparr>"
    using find_refines [OF r, of cmp] f i by (auto simp: repr_def)
  define l2 where "l2 = l1\<lparr>l_first := (if i = 0 then addr xs 1 else l_first l), l_elems := bypass (l_elems l) xs i\<rparr>"
  define l3 where "l3 = l2\<lparr>l_last := (if Suc i = length xs then before xs i else l_last l), l_elems := cut (l_elems l) xs i\<rparr>"
  define l4 where "l4 = (if fr then l3\<lparr>l_freed := l_freed l3 @ [snd (xs ! i)]\<rparr> else l3)"
  define l' where "l' = l4\<lparr>l_elems := (l_elems l4)(fst (xs ! i) := None),
    l_current := (if l_current l = Some (fst (xs ! i)) then addr xs (Suc i) else l_current l), l_count := l_count l4 - 1\<rparr>"
  have fields: "l_elems l1 = l_elems l" "l_first l1 = l_first l" "l_last l1 = l_last l" "l_count l1 = l_count l"
    "l_freed l1 = l_freed l"
    by (subst l1(3), simp)+
  have e: "l_elems l1 (fst (xs ! i)) = Some (node xs i)" "l_elems l2 (fst (xs ! i)) = Some (node xs i)"
    "l_elems l3 (fst (xs ! i)) = Some (node xs i)"
    using linked_node [OF lk i] bypass_nth [OF lk i i] cut_nth [OF lk i i] fields by (simp_all add: l2_def l3_def)
  have sel: "el_prev (node xs i) = before xs i" "el_next (node xs i) = addr xs (Suc i)" "el_content (node xs i) = snd (xs ! i)"
    by (simp_all add: node_def)
  have "(case el_prev (node xs i) of None \<Rightarrow> Some (l1\<lparr>l_first := el_next (node xs i)\<rparr>)
      | Some p \<Rightarrow> set_next p (el_next (node xs i)) l1) = Some l2"
    using link_next [of l1 xs i] lk i fields unfolding sel by (simp add: l2_def)
  moreover have "(case el_next (node xs i) of None \<Rightarrow> Some (l2\<lparr>l_last := el_prev (node xs i)\<rparr>)
      | Some n \<Rightarrow> set_prev n (el_prev (node xs i)) l2) = Some l3"
    using link_prev [OF lk i, of l2] fields unfolding sel by (simp add: l2_def l3_def)
  ultimately have "ListUnlink cmp fr l = Some (True, l')"
    using l1(1,2) e by (simp add: ListUnlink_def Let_def free_element_def l4_def l'_def sel(3)) (simp add: sel(2))
  moreover have "repr l' (remove_nth i xs) (after_remove (length xs) i k)"
    using linked_cut [OF lk i] current_after_remove [OF r i] fields
    by (intro repr_remove [OF r i]) (auto simp: l'_def l4_def l3_def l2_def)
  moreover have "l_freed l' = l_freed l @ (if fr then [snd (xs ! i)] else [])"
    using fields by (simp add: l'_def l4_def l3_def l2_def)
  ultimately show ?thesis
    by blast
qed

lemma unlink_nothing:
  assumes r: "repr l xs k" and f: "find_index cmp (map snd xs) k = None"
  shows "ListUnlink cmp fr l = Some (False, l)"
proof -
  obtain l1 where "ListFindItem cmp l = Some (None, l1)" "repr l1 xs k" "l1 = l\<lparr>l_current := l_current l1\<rparr>"
    using find_refines [OF r, of cmp] f by auto
  moreover from this have "l_current l1 = l_current l"
    using r by (simp add: repr_def)
  ultimately show ?thesis
    by (simp add: ListUnlink_def)
qed

lemma head_last: "linked h xs \<Longrightarrow> xs \<noteq> [] \<Longrightarrow> before xs (length xs) = Some (fst (xs ! 0)) \<longleftrightarrow> length xs = 1"
  using linked_inj [of h xs 0 "length xs - 1"] by (cases "length xs") auto

lemma detach_head_refines:
  assumes r: "repr l xs k"
  shows "\<exists>l'. ListDetachHead l = Some (if xs = [] then None else Some (snd (xs ! 0)), l') \<and> l_freed l' = l_freed l \<and>
    (if xs = [] then l' = l else repr l' (remove_nth 0 xs) (after_remove (length xs) 0 k))"
proof (cases "xs = []")
  case True
  then show ?thesis
    using r by (simp add: ListDetachHead_def repr_def)
next
  case False
  then have i: "0 < length xs"
    by simp
  have lk: "linked (l_elems l) xs" and ends: "l_first l = addr xs 0" "l_last l = before xs (length xs)" "l_count l = int (length xs)"
    using r by (auto simp: repr_def)
  have sel: "el_next (node xs 0) = addr xs (Suc 0)" "el_content (node xs 0) = snd (xs ! 0)"
    by (simp_all add: node_def)
  define l' where "l' = l\<lparr>l_current := (if l_current l = Some (fst (xs ! 0)) then addr xs (Suc 0) else l_current l),
    l_last := (if length xs = 1 then None else l_last l), l_first := addr xs 1,
    l_elems := (cut (l_elems l) xs 0)(fst (xs ! 0) := None), l_count := l_count l - 1\<rparr>"
  have "ListDetachHead l = Some (Some (snd (xs ! 0)), l')"
  proof (cases "Suc 0 < length xs")
    case True
    then have "l_elems l (fst (xs ! Suc 0)) = Some (node xs (Suc 0))"
      using linked_node [OF lk] by blast
    then show ?thesis
      using True i ends linked_node [OF lk i] head_last [OF lk False] sel
      by (simp add: ListDetachHead_def Let_def set_prev_def free_element_def cut_def bypass_def l'_def)
  next
    case short: False
    then have "length xs = Suc 0"
      using i by linarith
    then show ?thesis
      using ends linked_node [OF lk i] head_last [OF lk False] sel
      by (simp add: ListDetachHead_def Let_def free_element_def cut_def bypass_def l'_def)
  qed
  moreover have "repr l' (remove_nth 0 xs) (after_remove (length xs) 0 k)"
    using linked_cut [OF lk i] current_after_remove [OF r i] by (intro repr_remove [OF r i]) (auto simp: l'_def)
  ultimately show ?thesis
    using False by (simp add: l'_def)
qed

definition after_pop :: "nat \<Rightarrow> nat option \<Rightarrow> nat option" where
  "after_pop n k = (if k = Some (n - 1) then (if n = 1 then None else Some (n - 2)) else k)"

lemma pop_tail_refines:
  assumes r: "repr l xs k"
  shows "\<exists>l'. ListPopTail l = Some (if xs = [] then None else Some (snd (last xs)), l') \<and> l_freed l' = l_freed l \<and>
    (if xs = [] then l' = l else repr l' (remove_nth (length xs - 1) xs) (after_pop (length xs) k))"
proof (cases "xs = []")
  case True
  then show ?thesis
    using r by (simp add: ListPopTail_def repr_def)
next
  case False
  then obtain i where n: "length xs = Suc i"
    by (cases xs) auto
  then have i: "i < length xs" and last: "last xs = xs ! i"
    using False by (simp_all add: last_conv_nth)
  have lk: "linked (l_elems l) xs" and ends: "l_first l = addr xs 0" "l_last l = Some (fst (xs ! i))" "l_count l = 1 + int i"
    and k: "\<forall>j. k = Some j \<longrightarrow> j < length xs" "l_current l = Option.bind k (addr xs)"
    using r n by (auto simp: repr_def)
  have sel: "el_prev (node xs i) = before xs i" "el_content (node xs i) = snd (xs ! i)"
    by (simp_all add: node_def)
  have first: "l_first l = Some (fst (xs ! i)) \<longleftrightarrow> i = 0"
    using linked_inj [OF lk, of 0 i] i n ends(1) by auto
  have iff: "l_current l = Some (fst (xs ! i)) \<longleftrightarrow> k = Some i"
    using k i by (cases k) (auto simp: linked_inj [OF lk])
  define l' where "l' = l\<lparr>l_current := (if k = Some i then before xs i else l_current l),
    l_first := (if i = 0 then None else l_first l), l_last := before xs i,
    l_elems := (cut (l_elems l) xs i)(fst (xs ! i) := None), l_count := l_count l - 1\<rparr>"
  have "ListPopTail l = Some (Some (snd (xs ! i)), l')"
  proof (cases i)
    case 0
    then show ?thesis
      using n ends linked_node [OF lk i] first iff sel
      by (simp add: ListPopTail_def Let_def free_element_def cut_def bypass_def l'_def)
  next
    case (Suc j)
    then have "l_elems l (fst (xs ! j)) = Some (node xs j)"
      using linked_node [OF lk, of j] n by simp
    then show ?thesis
      using Suc n ends linked_node [OF lk i] first iff sel
      by (simp add: ListPopTail_def Let_def set_next_def free_element_def cut_def bypass_def l'_def)
  qed
  moreover have "Option.bind (after_pop (length xs) k) (addr (remove_nth i xs)) = (if k = Some i then before xs i else l_current l)"
    "\<forall>j. after_pop (length xs) k = Some j \<longrightarrow> j < length xs - 1"
    using k n by (cases i; cases k; auto simp: after_pop_def addr_remove_nth simp del: addr_in)+
  then have "repr l' (remove_nth i xs) (after_pop (length xs) k)"
    using linked_cut [OF lk i] n by (intro repr_remove [OF r i]) (auto simp: l'_def)
  ultimately show ?thesis
    using False last n by (simp add: l'_def)
qed

section \<open>Emptying\<close>

text \<open>
  The loops follow \<open>next\<close> only, so they need no more than a chain of elements. The elements are freed in
  order and only they are.
\<close>

definition chain :: "(nat \<rightharpoonup> 'c ListElement) \<Rightarrow> (nat \<times> 'c) list \<Rightarrow> bool" where
  "chain h xs \<longleftrightarrow> distinct (map fst xs) \<and>
     (\<forall>i < length xs. \<exists>p. h (fst (xs ! i)) = Some \<lparr>el_prev = p, el_next = addr xs (Suc i), el_content = snd (xs ! i)\<rparr>)"

lemma linked_chain: "linked h xs \<Longrightarrow> chain h xs"
  by (auto simp: linked_def chain_def node_def)

lemma chain_Cons: "chain h ((a, c) # xs) \<Longrightarrow> chain (h(a := None)) xs \<and> (\<exists>p. h a = Some \<lparr>el_prev = p, el_next = addr xs 0, el_content = c\<rparr>)"
proof
  assume h: "chain h ((a, c) # xs)"
  then have el: "\<exists>p. h (fst (((a, c) # xs) ! i)) = Some \<lparr>el_prev = p, el_next = addr ((a, c) # xs) (Suc i), el_content = snd (((a, c) # xs) ! i)\<rparr>"
    if "i < Suc (length xs)" for i
    using that by (simp add: chain_def)
  have tl: "addr ((a, c) # xs) (Suc i) = addr xs i" for i
    by (simp add: addr_def)
  show "\<exists>p. h a = Some \<lparr>el_prev = p, el_next = addr xs 0, el_content = c\<rparr>"
    using el [of 0] tl [of 0] by simp
  have "fst (xs ! i) \<noteq> a" if "i < length xs" for i
    using h that by (force simp: chain_def)
  then show "chain (h(a := None)) xs"
    using h el [of "Suc i" for i] tl by (auto simp: chain_def)
qed

lemma empty_loop_refines:
  assumes "chain (l_elems l) xs" "l_first l = addr xs 0"
  shows "ListEmpty_loop l = Some (l\<lparr>l_elems := (l_elems l) |` (- fst ` set xs),
    l_freed := l_freed l @ map snd xs, l_first := None\<rparr>)"
  using assms
proof (induction xs arbitrary: l)
  case Nil
  then show ?case
    by (cases l) (simp add: ListEmpty_loop.simps restrict_map_def)
next
  case (Cons x xs)
  obtain a c where x: "x = (a, c)"
    by (cases x)
  obtain p where a: "l_elems l a = Some \<lparr>el_prev = p, el_next = addr xs 0, el_content = c\<rparr>"
    and chain: "chain ((l_elems l)(a := None)) xs"
    using chain_Cons [OF Cons.prems(1) [unfolded x]] by auto
  define l1 where "l1 = free_element a (l\<lparr>l_freed := l_freed l @ [c], l_first := addr xs 0\<rparr>)"
  have elems: "l_elems l1 = (l_elems l)(a := None)" "l_first l1 = addr xs 0"
    by (simp_all add: l1_def free_element_def)
  have "(l_elems l)(a := None) |` (- fst ` set xs) = l_elems l |` (- fst ` set (x # xs))"
    using x by (auto simp: restrict_map_def)
  then have "ListEmpty_loop l1 = Some (l\<lparr>l_elems := (l_elems l) |` (- fst ` set (x # xs)), l_freed := l_freed l @ map snd (x # xs), l_first := None\<rparr>)"
    using Cons.IH [of l1] chain x unfolding elems by (simp add: l1_def free_element_def del: fun_upd_apply)
  then show ?case
    using a Cons.prems(2) x by (subst ListEmpty_loop.simps) (simp add: l1_def)
qed

lemma free_no_content_refines:
  assumes "chain (l_elems l) xs" "l_first l = addr xs 0"
  shows "ListFreeNoContent l = Some (l\<lparr>l_elems := (l_elems l) |` (- fst ` set xs), l_first := None\<rparr>)"
  using assms
proof (induction xs arbitrary: l)
  case Nil
  then show ?case
    by (cases l) (simp add: ListFreeNoContent.simps restrict_map_def)
next
  case (Cons x xs)
  obtain a c where x: "x = (a, c)"
    by (cases x)
  obtain p where a: "l_elems l a = Some \<lparr>el_prev = p, el_next = addr xs 0, el_content = c\<rparr>"
    and chain: "chain ((l_elems l)(a := None)) xs"
    using chain_Cons [OF Cons.prems(1) [unfolded x]] by auto
  define l1 where "l1 = free_element a (l\<lparr>l_first := addr xs 0\<rparr>)"
  have elems: "l_elems l1 = (l_elems l)(a := None)" "l_first l1 = addr xs 0"
    by (simp_all add: l1_def free_element_def)
  have "(l_elems l)(a := None) |` (- fst ` set xs) = l_elems l |` (- fst ` set (x # xs))"
    using x by (auto simp: restrict_map_def)
  then have "ListFreeNoContent l1 = Some (l\<lparr>l_elems := (l_elems l) |` (- fst ` set (x # xs)), l_first := None\<rparr>)"
    using Cons.IH [of l1] chain x unfolding elems by (simp add: l1_def free_element_def del: fun_upd_apply)
  then show ?case
    using a Cons.prems(2) x by (subst ListFreeNoContent.simps) (simp add: l1_def)
qed

lemma empty_refines:
  assumes "repr l xs k"
  shows "\<exists>l'. ListEmpty l = Some l' \<and> repr l' [] None \<and> l_freed l' = l_freed l @ map snd xs \<and>
    l_elems l' = l_elems l |` (- fst ` set xs)"
proof -
  have "chain (l_elems l) xs" "l_first l = addr xs 0"
    using assms linked_chain by (auto simp: repr_def)
  from empty_loop_refines [OF this] show ?thesis
    by (simp add: ListEmpty_def repr_def linked_def)
qed

section \<open>Sequences of operations\<close>

text \<open>
  The operations a client calls, one after another. An insertion is before an element that was found;
  the addresses are what \<open>malloc\<close> returned.
\<close>

datatype 'c list_op =
    Op_Append 'c nat int
  | Op_Insert "'c \<Rightarrow> bool" 'c nat int
  | Op_Find "'c \<Rightarrow> bool"
  | Op_Unlink "'c \<Rightarrow> bool" bool
  | Op_DetachHead
  | Op_RemoveHead
  | Op_PopTail
  | Op_Empty

fun exec_op :: "'c list_op \<Rightarrow> 'c clist \<Rightarrow> ('c option \<times> 'c clist) option" where
  "exec_op (Op_Append c a sz) l = do { l' \<leftarrow> ListAppend c (Some a) sz l; Some (None, l') }"
| "exec_op (Op_Insert cmp c a sz) l = do {
     (index, l1) \<leftarrow> ListFindItem cmp l;
     l' \<leftarrow> ListInsert c (Some a) sz index l1;
     Some (None, l') }"
| "exec_op (Op_Find cmp) l = do {
     (rc, l') \<leftarrow> ListFindItem cmp l;
     case rc of
       None \<Rightarrow> Some (None, l')
     | Some a \<Rightarrow> do { e \<leftarrow> l_elems l' a; Some (Some (el_content e), l') } }"
| "exec_op (Op_Unlink cmp fr) l = do { (rc, l') \<leftarrow> ListUnlink cmp fr l; Some (None, l') }"
| "exec_op Op_DetachHead l = ListDetachHead l"
| "exec_op Op_RemoveHead l = do { (rc, l') \<leftarrow> ListRemoveHead l; Some (None, l') }"
| "exec_op Op_PopTail l = ListPopTail l"
| "exec_op Op_Empty l = do { l' \<leftarrow> ListEmpty l; Some (None, l') }"

fun exec_ops :: "'c list_op list \<Rightarrow> 'c clist \<Rightarrow> ('c option list \<times> 'c clist) option" where
  "exec_ops [] l = Some ([], l)"
| "exec_ops (p # ps) l = do { (r, l1) \<leftarrow> exec_op p l; (rs, l2) \<leftarrow> exec_ops ps l1; Some (r # rs, l2) }"

text \<open>\<open>malloc\<close> returns memory that is not in use.\<close>

fun op_fresh :: "'c list_op \<Rightarrow> 'c clist \<Rightarrow> bool" where
  "op_fresh (Op_Append _ a _) l \<longleftrightarrow> l_elems l a = None"
| "op_fresh (Op_Insert _ _ a _) l \<longleftrightarrow> l_elems l a = None"
| "op_fresh _ _ \<longleftrightarrow> True"

fun allocs_fresh :: "'c list_op list \<Rightarrow> 'c clist \<Rightarrow> bool" where
  "allocs_fresh [] l \<longleftrightarrow> True"
| "allocs_fresh (p # ps) l \<longleftrightarrow>
     op_fresh p l \<and> (case exec_op p l of None \<Rightarrow> True | Some (_, l1) \<Rightarrow> allocs_fresh ps l1)"

text \<open>The specification: contents, position of the current element, contents freed so far.\<close>

type_synonym 'c spec_list = "'c list \<times> nat option \<times> 'c list"

fun spec_op :: "'c list_op \<Rightarrow> 'c spec_list \<Rightarrow> 'c option \<times> 'c spec_list" where
  "spec_op (Op_Append c _ _) (xs, k, fr) = (None, xs @ [c], k, fr)"
| "spec_op (Op_Insert cmp c _ _) (xs, k, fr) =
     (case find_index cmp xs k of
        None \<Rightarrow> (None, xs @ [c], k, fr)
      | Some i \<Rightarrow> (None, insert_nth i c xs, Some (Suc i), fr))"
| "spec_op (Op_Find cmp) (xs, k, fr) =
     (case find_index cmp xs k of
        None \<Rightarrow> (None, xs, k, fr)
      | Some i \<Rightarrow> (Some (xs ! i), xs, Some i, fr))"
| "spec_op (Op_Unlink cmp f) (xs, k, fr) =
     (case find_index cmp xs k of
        None \<Rightarrow> (None, xs, k, fr)
      | Some i \<Rightarrow> (None, remove_nth i xs, after_remove (length xs) i k, fr @ (if f then [xs ! i] else [])))"
| "spec_op Op_DetachHead (xs, k, fr) =
     (case xs of [] \<Rightarrow> (None, xs, k, fr) | c # cs \<Rightarrow> (Some c, cs, after_remove (length xs) 0 k, fr))"
| "spec_op Op_RemoveHead (xs, k, fr) =
     (case xs of [] \<Rightarrow> (None, xs, k, fr) | c # cs \<Rightarrow> (None, cs, after_remove (length xs) 0 k, fr @ [c]))"
| "spec_op Op_PopTail (xs, k, fr) =
     (if xs = [] then (None, xs, k, fr) else (Some (last xs), butlast xs, after_pop (length xs) k, fr))"
| "spec_op Op_Empty (xs, k, fr) = (None, [], None, fr @ xs)"

fun spec_ops :: "'c list_op list \<Rightarrow> 'c spec_list \<Rightarrow> 'c option list \<times> 'c spec_list" where
  "spec_ops [] s = ([], s)"
| "spec_ops (p # ps) s = (case spec_op p s of (r, s1) \<Rightarrow> case spec_ops ps s1 of (rs, s2) \<Rightarrow> (r # rs, s2))"

definition represents :: "'c clist \<Rightarrow> 'c spec_list \<Rightarrow> bool" where
  "represents l s \<longleftrightarrow> (\<exists>xs. repr l xs (fst (snd s)) \<and> fst s = map snd xs \<and> snd (snd s) = l_freed l)"

lemma insert_nth_length: "insert_nth (length xs) x xs = xs @ [x]"
  by (simp add: insert_nth_def)

lemma shift_up_length: "\<forall>j. k = Some j \<longrightarrow> j < n \<Longrightarrow> shift_up n k = k"
  by (cases k) (auto simp: shift_up_def)

lemma append_represents:
  assumes "repr l xs k" "l_elems l a = None"
  shows "\<exists>l'. ListAppendNoMalloc c a sz l = Some l' \<and> repr l' (xs @ [(a, c)]) k \<and> l_freed l' = l_freed l"
proof -
  have "\<forall>j. k = Some j \<longrightarrow> j < length xs"
    using assms(1) by (simp add: repr_def)
  then show ?thesis
    using append_refines [OF assms, of c sz] by (simp add: insert_nth_length shift_up_length)
qed

text \<open>One operation. \<open>refines_op\<close> is what has to be shown for it.\<close>

definition refines_op :: "'c list_op \<Rightarrow> 'c clist \<Rightarrow> 'c spec_list \<Rightarrow> bool" where
  "refines_op p l s \<longleftrightarrow> (\<exists>l'. exec_op p l = Some (fst (spec_op p s), l') \<and> represents l' (snd (spec_op p s)))"

lemma find_refinesE:
  assumes "repr l xs k"
  obtains l1 where "ListFindItem cmp l = Some (Option.bind (find_index cmp (map snd xs) k) (addr xs), l1)"
    "repr l1 xs (if find_index cmp (map snd xs) k = None then k else find_index cmp (map snd xs) k)"
    "l_elems l1 = l_elems l" "l_freed l1 = l_freed l"
proof -
  obtain l1 where l1: "ListFindItem cmp l = Some (Option.bind (find_index cmp (map snd xs) k) (addr xs), l1)"
    "repr l1 xs (if find_index cmp (map snd xs) k = None then k else find_index cmp (map snd xs) k)"
    "l1 = l\<lparr>l_current := l_current l1\<rparr>"
    using find_refines [OF assms] by blast
  moreover have "l_elems l1 = l_elems l" "l_freed l1 = l_freed l"
    by (subst l1(3), simp)+
  ultimately show thesis
    using that by blast
qed

lemma find_index_bound: "repr l xs k \<Longrightarrow> find_index cmp (map snd xs) k = Some i \<Longrightarrow> i < length xs"
  using find_index_Some [of cmp "map snd xs" k i] by (simp add: repr_def)

lemma insert_op:
  assumes r: "repr l xs k" and fresh: "l_elems l a = None"
  shows "refines_op (Op_Insert cmp c a sz) l (map snd xs, k, l_freed l)"
proof -
  obtain l1 where l1: "ListFindItem cmp l = Some (Option.bind (find_index cmp (map snd xs) k) (addr xs), l1)"
    "repr l1 xs (if find_index cmp (map snd xs) k = None then k else find_index cmp (map snd xs) k)"
    "l_elems l1 = l_elems l" "l_freed l1 = l_freed l"
    using find_refinesE [OF r] .
  show ?thesis
  proof (cases "find_index cmp (map snd xs) k")
    case None
    then obtain l' where "ListAppendNoMalloc c a sz l1 = Some l'" "repr l' (xs @ [(a, c)]) k" "l_freed l' = l_freed l"
      using append_represents [of l1 xs k a c sz] l1 fresh by auto
    then show ?thesis
      using l1(1) None
      by (auto simp: refines_op_def ListInsert_def represents_def intro!: exI [of _ "xs @ [(a, c)]"])
  next
    case (Some i)
    then have i: "i < length xs"
      by (rule find_index_bound [OF r])
    obtain l' where l': "ListInsert c (Some a) sz (addr xs i) l1 = Some l'" "l_freed l' = l_freed l"
      "repr l' (insert_nth i (a, c) xs) (Some (Suc i))"
      using insert_refines [of l1 xs "Some i" a i c sz] l1 fresh Some i by (auto simp: shift_up_def)
    then show ?thesis
      using l1(1) Some
      by (auto simp: refines_op_def represents_def map_insert_nth intro!: exI [of _ "insert_nth i (a, c) xs"])
  qed
qed

lemma find_op:
  assumes r: "repr l xs k"
  shows "refines_op (Op_Find cmp) l (map snd xs, k, l_freed l)"
proof -
  obtain l1 where l1: "ListFindItem cmp l = Some (Option.bind (find_index cmp (map snd xs) k) (addr xs), l1)"
    "repr l1 xs (if find_index cmp (map snd xs) k = None then k else find_index cmp (map snd xs) k)"
    "l_elems l1 = l_elems l" "l_freed l1 = l_freed l"
    using find_refinesE [OF r] .
  show ?thesis
  proof (cases "find_index cmp (map snd xs) k")
    case None
    then show ?thesis
      using l1 by (auto simp: refines_op_def represents_def)
  next
    case (Some i)
    then have "i < length xs" "l_elems l1 (fst (xs ! i)) = Some (node xs i)"
      using find_index_bound [OF r] l1(2) by (auto simp: repr_def linked_node)
    then show ?thesis
      using l1 Some by (auto simp: refines_op_def represents_def node_def)
  qed
qed

lemma unlink_op:
  assumes r: "repr l xs k"
  shows "refines_op (Op_Unlink cmp f) l (map snd xs, k, l_freed l)"
proof (cases "find_index cmp (map snd xs) k")
  case None
  then show ?thesis
    using unlink_nothing [OF r None] r by (auto simp: refines_op_def represents_def)
next
  case (Some i)
  then have "i < length xs"
    by (rule find_index_bound [OF r])
  then show ?thesis
    using unlink_refines [OF r Some, of f] Some
    by (auto simp: refines_op_def represents_def map_remove_nth intro!: exI [of _ "remove_nth i xs"])
qed

lemma head_op:
  assumes r: "repr l xs k"
  shows "refines_op Op_DetachHead l (map snd xs, k, l_freed l)" "refines_op Op_RemoveHead l (map snd xs, k, l_freed l)"
proof -
  have s: "represents l (map snd xs, k, l_freed l)"
    using r by (auto simp: represents_def)
  show "refines_op Op_DetachHead l (map snd xs, k, l_freed l)" "refines_op Op_RemoveHead l (map snd xs, k, l_freed l)"
  proof (atomize (full), cases xs)
    case Nil
    then show "refines_op Op_DetachHead l (map snd xs, k, l_freed l) \<and> refines_op Op_RemoveHead l (map snd xs, k, l_freed l)"
      using detach_head_refines [OF r] s by (cases l) (auto simp: refines_op_def ListRemoveHead_def)
  next
    case (Cons x ys)
    then show "refines_op Op_DetachHead l (map snd xs, k, l_freed l) \<and> refines_op Op_RemoveHead l (map snd xs, k, l_freed l)"
      using detach_head_refines [OF r]
      by (auto simp: refines_op_def represents_def remove_nth_def ListRemoveHead_def repr_def)
  qed
qed

lemma tail_op:
  assumes r: "repr l xs k"
  shows "refines_op Op_PopTail l (map snd xs, k, l_freed l)"
proof (cases "xs = []")
  case True
  then show ?thesis
    using pop_tail_refines [OF r] r by (auto simp: refines_op_def represents_def)
next
  case False
  then obtain l' where "ListPopTail l = Some (Some (snd (last xs)), l')" "l_freed l' = l_freed l"
    "repr l' (take (length xs - 1) xs) (after_pop (length xs) k)"
    using pop_tail_refines [OF r] by (auto simp: remove_nth_def)
  then show ?thesis
    using False
    by (auto simp: refines_op_def represents_def last_map butlast_conv_take take_map
        intro!: exI [of _ "take (length xs - 1) xs"])
qed

lemma exec_op_refines:
  assumes "represents l s" "op_fresh p l"
  shows "refines_op p l s"
proof -
  obtain xs k where s: "s = (map snd xs, k, l_freed l)" and r: "repr l xs k"
    using assms(1) by (cases s) (auto simp: represents_def)
  show ?thesis
  proof (cases p)
    case (Op_Append c a sz)
    then obtain l' where "ListAppendNoMalloc c a sz l = Some l'" "repr l' (xs @ [(a, c)]) k" "l_freed l' = l_freed l"
      using append_represents [OF r, of a c sz] assms(2) by auto
    then show ?thesis
      using Op_Append s
      by (auto simp: refines_op_def ListAppend_def represents_def intro!: exI [of _ "xs @ [(a, c)]"])
  next
    case Op_Empty
    then show ?thesis
      using empty_refines [OF r] s by (auto simp: refines_op_def represents_def)
  qed (use r s assms(2) insert_op find_op unlink_op head_op tail_op in auto)
qed

lemma exec_ops_refines:
  assumes "represents l s" "allocs_fresh ps l"
  shows "\<exists>l'. exec_ops ps l = Some (fst (spec_ops ps s), l') \<and> represents l' (snd (spec_ops ps s))"
  using assms
proof (induction ps arbitrary: l s)
  case (Cons p ps)
  obtain l1 where l1: "exec_op p l = Some (fst (spec_op p s), l1)" "represents l1 (snd (spec_op p s))"
    using exec_op_refines [of l s p] Cons.prems by (auto simp: refines_op_def)
  then have "allocs_fresh ps l1"
    using Cons.prems(2) by simp
  with Cons.IH [OF l1(2) this] l1(1) show ?case
    by (auto split: prod.splits)
qed simp

section \<open>Iterating\<close>

text \<open>A loop over the list with \<open>ListNextElement\<close> or \<open>ListPrevElement\<close>, collecting the contents.\<close>

partial_function (option) iterate ::
    "('c clist \<Rightarrow> nat option \<Rightarrow> nat option option) \<Rightarrow> 'c clist \<Rightarrow> nat option \<Rightarrow> 'c list option" where
  "iterate advance l pos =
     Option.bind (advance l pos) (\<lambda>nxt.
       case nxt of
         None \<Rightarrow> Some []
       | Some a \<Rightarrow> Option.bind (l_elems l a) (\<lambda>e.
           Option.bind (iterate advance l (Some a)) (\<lambda>cs. Some (el_content e # cs))))"

lemma iterate_forward:
  assumes "repr l xs k" "i \<le> length xs"
  shows "iterate ListNextElement l (before xs i) = Some (drop i (map snd xs))"
  using assms(2)
proof (induction "length xs - i" arbitrary: i)
  case 0
  then show ?case
    using assms(1) by (subst iterate.simps) (simp add: next_element)
next
  case (Suc n)
  then have i: "i < length xs"
    by simp
  have "iterate ListNextElement l (addr xs i) = Some (drop (Suc i) (map snd xs))"
    using Suc.hyps(1) [of "Suc i"] Suc.hyps(2) i by (simp del: addr_in)
  moreover have "drop i (map snd xs) = snd (xs ! i) # drop (Suc i) (map snd xs)"
    using i Cons_nth_drop_Suc [of i "map snd xs"] by simp
  moreover have "l_elems l (fst (xs ! i)) = Some (node xs i)"
    using assms(1) i by (simp add: repr_def linked_node)
  ultimately show ?case
    using assms(1) i by (subst iterate.simps) (simp add: next_element node_def)
qed

lemma iterate_backward:
  assumes "repr l xs k" "i \<le> length xs"
  shows "iterate ListPrevElement l (addr xs i) = Some (rev (take i (map snd xs)))"
  using assms(2)
proof (induction i)
  case 0
  then show ?case
    using prev_element [OF assms(1), of 0] by (subst iterate.simps) simp
next
  case (Suc i)
  then have i: "i < length xs" and IH: "iterate ListPrevElement l (addr xs i) = Some (rev (take i (map snd xs)))"
    by simp_all
  have "ListPrevElement l (addr xs (Suc i)) = Some (addr xs i)"
    using prev_element [OF assms(1) Suc.prems] by simp
  moreover have "l_elems l (fst (xs ! i)) = Some (node xs i)"
    using assms(1) i by (simp add: repr_def linked_node)
  ultimately show ?case
    using i IH by (subst iterate.simps) (simp add: node_def take_Suc_conv_app_nth)
qed

section \<open>Lists for clients\<close>

text \<open>
  The other theories of the library hold a list as its contents and the position of the current element,
  and use these three operations of the specification.
\<close>

type_synonym 'c slist = "'c list \<times> nat option"

definition slist_find :: "('c \<Rightarrow> bool) \<Rightarrow> 'c slist \<Rightarrow> nat option \<times> 'c slist" where
  "slist_find cmp l =
     (case find_index cmp (fst l) (snd l) of
        None \<Rightarrow> (None, l)
      | Some i \<Rightarrow> (Some i, (fst l, Some i)))"

definition slist_append :: "'c \<Rightarrow> 'c slist \<Rightarrow> 'c slist" where
  "slist_append c l = (fst l @ [c], snd l)"

definition slist_remove :: "('c \<Rightarrow> bool) \<Rightarrow> 'c slist \<Rightarrow> bool \<times> 'c slist" where
  "slist_remove cmp l =
     (case find_index cmp (fst l) (snd l) of
        None \<Rightarrow> (False, l)
      | Some i \<Rightarrow> (True, (remove_nth i (fst l), after_remove (length (fst l)) i (snd l))))"

definition slist_wf :: "'c slist \<Rightarrow> bool" where
  "slist_wf l \<longleftrightarrow> (\<forall>i. snd l = Some i \<longrightarrow> i < length (fst l))"

lemma after_remove_less:
  "\<forall>j. k = Some j \<longrightarrow> j < n \<Longrightarrow> i < n \<Longrightarrow> after_remove n i k = Some m \<Longrightarrow> m < n - 1"
  by (cases k) (auto simp: after_remove_def shift_down_def split: if_splits)

lemma slist_wf_simps [simp]:
  "slist_wf ([], None)" "slist_wf l \<Longrightarrow> slist_wf (slist_append c l)" "slist_wf l \<Longrightarrow> slist_wf (snd (slist_find cmp l))"
  by (auto simp: slist_wf_def slist_append_def slist_find_def dest: find_index_Some split: option.splits)

lemma slist_wf_remove [simp]: "slist_wf l \<Longrightarrow> slist_wf (snd (slist_remove cmp l))"
proof (cases "find_index cmp (fst l) (snd l)")
  case (Some i)
  assume wf: "slist_wf l"
  then have "i < length (fst l)"
    using find_index_Some [OF Some] by (simp add: slist_wf_def)
  then show ?thesis
    using wf Some after_remove_less [of "snd l" "length (fst l)" i] by (simp add: slist_wf_def slist_remove_def)
qed (simp add: slist_remove_def)

section \<open>Properties\<close>

text \<open>
  C15: the pointer structure implements a list. From an empty list, every sequence of operations whose
  allocations return unused memory is defined: no NULL or freed element is ever read or written. Every
  call returns what the specification returns, exactly the removed contents are freed, each once, and
  afterwards the count is the length and iterating forwards and backwards gives the contents in order.
\<close>

theorem list_refines:
  assumes "spec_ops ps ([], None, []) = (rs, cs, k, fr)" "allocs_fresh ps (ListZero l)" "l_freed l = []"
  shows "\<exists>l'. exec_ops ps (ListZero l) = Some (rs, l') \<and> l_freed l' = fr \<and> l_count l' = int (length cs) \<and>
    iterate ListNextElement l' None = Some cs \<and> iterate ListPrevElement l' None = Some (rev cs)"
proof -
  have "repr (ListZero l) [] None"
    by (simp add: repr_def linked_def ListZero_def)
  then have "represents (ListZero l) ([], None, [])"
    using assms(3) by (auto simp: represents_def ListZero_def)
  from exec_ops_refines [OF this assms(2)] obtain l' xs where l': "exec_ops ps (ListZero l) = Some (rs, l')"
    "repr l' xs k" "cs = map snd xs" "fr = l_freed l'"
    using assms(1) by (auto simp: represents_def)
  moreover have "l_count l' = int (length cs)"
    using l'(2,3) by (simp add: repr_def)
  moreover have "iterate ListNextElement l' None = Some cs" "iterate ListPrevElement l' None = Some (rev cs)"
    using iterate_forward [OF l'(2), of 0] iterate_backward [OF l'(2), of "length xs"] l'(3) by simp_all
  ultimately show ?thesis
    by blast
qed

definition demo_list :: "nat clist" where
  "demo_list = \<lparr>l_first = None, l_last = None, l_current = None, l_count = 0, l_size = 0, l_elems = Map.empty, l_freed = []\<rparr>"

definition demo_ops :: "nat list_op list" where
  "demo_ops = [Op_Append 7 1 4, Op_Append 8 2 4, Op_Insert (\<lambda>c. c = 8) 9 3 4, Op_Unlink (\<lambda>c. c = 7) True, Op_PopTail]"

theorem list_refines_witness:
  "\<exists>l'. exec_ops demo_ops (ListZero demo_list) = Some ([None, None, None, None, Some 8], l') \<and> l_freed l' = [7] \<and>
     l_count l' = 1 \<and> iterate ListNextElement l' None = Some [9] \<and> iterate ListPrevElement l' None = Some [9]"
proof -
  have spec: "spec_ops demo_ops ([], None, []) = ([None, None, None, None, Some 8], [9], Some 0, [7])"
    by (simp add: demo_ops_def insert_nth_def remove_nth_def find_index_def after_remove_def shift_down_def after_pop_def)
  have "ListFind_loop (\<lambda>c. c = (8::nat)) l None = Some (Some 2)"
    if "l_first l = Some 1" "l_elems l 1 = Some \<lparr>el_prev = None, el_next = Some 2, el_content = 7\<rparr>"
      "l_elems l 2 = Some \<lparr>el_prev = p, el_next = None, el_content = 8\<rparr>" for l p
    using that by (simp add: ListFind_loop.simps ListNextElement_def)
  moreover have "ListFind_loop (\<lambda>c. c = (7::nat)) l None = Some (Some 1)"
    if "l_first l = Some 1" "l_elems l 1 = Some \<lparr>el_prev = None, el_next = n, el_content = 7\<rparr>" for l n
    using that by (simp add: ListFind_loop.simps ListNextElement_def)
  ultimately have "allocs_fresh demo_ops (ListZero demo_list)"
    by (simp add: demo_ops_def demo_list_def ListZero_def ListAppend_def ListAppendNoMalloc_def Let_def set_next_def
        set_prev_def ListFindItem_def ListInsert_def ListUnlink_def ListPopTail_def free_element_def)
  then show ?thesis
    using list_refines [OF spec, of demo_list] by (simp add: demo_list_def)
qed

text \<open>
  The size of a list is not its size. \<open>ListAppend\<close> adds to the field \<open>size\<close>, which is documented as the
  heap storage used, but no removal subtracts from it: after appending an item and removing it again, the
  empty list still claims the item's storage.
\<close>

theorem list_size_never_shrinks:
  assumes "l_elems l a = None" "l_freed l = []"
  shows "\<exists>l1 l2. ListAppend c (Some a) sz (ListZero l) = Some l1 \<and> ListRemove c l1 = Some (True, l2) \<and>
    l_count l2 = 0 \<and> l_size l2 = sz"
proof -
  have "ListFind_loop (\<lambda>x. x = c) l' None = Some (Some a)"
    if "l_first l' = Some a" "l_elems l' a = Some \<lparr>el_prev = p, el_next = n, el_content = c\<rparr>" for l' p n
    using that by (simp add: ListFind_loop.simps ListNextElement_def)
  then show ?thesis
    by (simp add: ListAppend_def ListAppendNoMalloc_def Let_def ListZero_def ListRemove_def ListUnlink_def
        ListFindItem_def free_element_def)
qed

theorem list_size_never_shrinks_witness:
  "\<exists>l1 l2. ListAppend 7 (Some 1) 4 (ListZero demo_list) = Some l1 \<and> ListRemove 7 l1 = Some (True, l2) \<and>
    l_count l2 = 0 \<and> l_size l2 = 4"
  using list_size_never_shrinks [of demo_list 1 7 4] by (simp add: demo_list_def)

end
