(* ===== verification/Mqtt_Socket.thy ===== *)
theory Mqtt_Socket
  imports Mqtt_List
begin

text \<open>
  Reading from sockets in the MQTT client library: \<^verbatim>\<open>SocketBuffer.c\<close> and the reading half of
  \<^verbatim>\<open>Socket.c\<close>. Sockets do not block. When a packet has arrived only in part, what was read of it is kept in
  a queue, and the next attempt starts with the bytes of the queue.

  The build is the one of the program: Linux, without OpenSSL. No result of \<open>malloc\<close> is checked in this
  library, and the model is of runs in which memory suffices. Memory that was allocated and not yet
  written is \<open>None\<close>, and using it is undefined, like an access outside of an array.
\<close>

section \<open>Completion codes\<close>

definition TCPSOCKET_COMPLETE :: int where
  "TCPSOCKET_COMPLETE = 0"

definition SOCKET_ERROR :: int where
  "SOCKET_ERROR = -1"

definition TCPSOCKET_INTERRUPTED :: int where
  "TCPSOCKET_INTERRUPTED = -22"

definition SOCKETBUFFER_COMPLETE :: int where
  "SOCKETBUFFER_COMPLETE = 0"

definition SOCKETBUFFER_INTERRUPTED :: int where
  "SOCKETBUFFER_INTERRUPTED = -22"

definition EAGAIN :: int where
  "EAGAIN = 11"

definition EWOULDBLOCK :: int where
  "EWOULDBLOCK = EAGAIN"

lemmas socket_codes = TCPSOCKET_COMPLETE_def SOCKET_ERROR_def TCPSOCKET_INTERRUPTED_def
  SOCKETBUFFER_COMPLETE_def SOCKETBUFFER_INTERRUPTED_def EAGAIN_def EWOULDBLOCK_def

section \<open>Memory\<close>

type_synonym mem = "byte option list"

definition fetch :: "mem \<Rightarrow> nat \<Rightarrow> byte option" where
  "fetch mem i = do { v \<leftarrow> load mem i; v }"

definition mem_write :: "nat \<Rightarrow> byte list \<Rightarrow> mem \<Rightarrow> mem option" where
  "mem_write off bs mem =
     (if off + length bs \<le> length mem then Some (take off mem @ map Some bs @ drop (off + length bs) mem) else None)"

definition realloc :: "mem \<Rightarrow> nat \<Rightarrow> mem" where
  "realloc mem n = take n mem @ replicate (n - length mem) None"

section \<open>What arrives\<close>

text \<open>
  The input of a socket: bytes that are there together, a moment when nothing is there (\<open>Again\<close>), an
  error of \<open>recv\<close>, or the end of the connection. \<open>sys_recv\<close> is \<open>recv\<close> on a socket that does not block: an
  error code, or the bytes, none at the end of the connection. When the input ends nothing more arrives.
\<close>

datatype recv_in = Avail "byte list" | Again | Fail int | Eof

fun sys_recv :: "nat \<Rightarrow> recv_in list \<Rightarrow> (int + byte list) \<times> recv_in list" where
  "sys_recv n [] = (Inl EAGAIN, [])"
| "sys_recv n (Avail bs # ins) =
     (if bs = [] then sys_recv n ins
      else (Inr (take n bs), if drop n bs = [] then ins else Avail (drop n bs) # ins))"
| "sys_recv n (Again # ins) = (Inl EAGAIN, ins)"
| "sys_recv n (Fail e # ins) = (Inl e, ins)"
| "sys_recv n (Eof # ins) = (Inr [], Eof # ins)"

section \<open>The queues\<close>

record socket_queue =
  q_socket :: int
  q_index :: nat
  q_headerlen :: "nat option"
  q_fixed_header :: mem
  q_buflen :: nat
  q_datalen :: nat
  q_buf :: mem

record sockets =
  def_queue :: socket_queue
  queues :: "socket_queue slist"
  net_in :: "int \<Rightarrow> recv_in list"

definition recv :: "int \<Rightarrow> nat \<Rightarrow> 'a sockets_scheme \<Rightarrow> (int + byte list) \<times> 'a sockets_scheme" where
  "recv socket n st = (case sys_recv n (net_in st socket) of (r, ins) \<Rightarrow> (r, st\<lparr>net_in := (net_in st)(socket := ins)\<rparr>))"

text \<open>
  \<open>SocketBuffer_newDefQ\<close>: the buffer has 1000 bytes, but the last assignment sets \<open>buflen\<close> to 0; \<open>headerlen\<close> is
  not set.
\<close>

definition new_def_queue :: socket_queue where
  "new_def_queue = \<lparr>q_socket = 0, q_index = 0, q_headerlen = None, q_fixed_header = replicate 5 None,
     q_buflen = 0, q_datalen = 0, q_buf = replicate 1000 None\<rparr>"

definition SocketBuffer_newDefQ :: "'a sockets_scheme \<Rightarrow> 'a sockets_scheme" where
  "SocketBuffer_newDefQ st = st\<lparr>def_queue := new_def_queue\<rparr>"

definition SocketBuffer_initialize :: "'a sockets_scheme \<Rightarrow> 'a sockets_scheme" where
  "SocketBuffer_initialize st = (SocketBuffer_newDefQ st)\<lparr>queues := ([], None)\<rparr>"

text \<open>
  A pointer to a queue is \<open>None\<close> for the default queue or the position of a saved queue.
\<close>

definition find_queue :: "int \<Rightarrow> 'a sockets_scheme \<Rightarrow> nat option \<times> 'a sockets_scheme" where
  "find_queue socket st =
     (case slist_find (\<lambda>q. q_socket q = socket) (queues st) of (i, l) \<Rightarrow> (i, st\<lparr>queues := l\<rparr>))"

definition the_queue :: "nat option \<Rightarrow> 'a sockets_scheme \<Rightarrow> socket_queue" where
  "the_queue p st = (case p of None \<Rightarrow> def_queue st | Some i \<Rightarrow> fst (queues st) ! i)"

definition set_queue :: "nat option \<Rightarrow> socket_queue \<Rightarrow> 'a sockets_scheme \<Rightarrow> 'a sockets_scheme" where
  "set_queue p q st =
     (case p of
        None \<Rightarrow> st\<lparr>def_queue := q\<rparr>
      | Some i \<Rightarrow> st\<lparr>queues := ((fst (queues st))[i := q], snd (queues st))\<rparr>)"

definition reset_queue :: "socket_queue \<Rightarrow> socket_queue" where
  "reset_queue q = q\<lparr>q_socket := 0, q_index := 0, q_headerlen := Some 0, q_datalen := 0\<rparr>"

definition SocketBuffer_cleanup :: "int \<Rightarrow> 'a sockets_scheme \<Rightarrow> 'a sockets_scheme" where
  "SocketBuffer_cleanup socket st =
     (let st1 = st\<lparr>queues := snd (slist_remove (\<lambda>q. q_socket q = socket) (snd (slist_find (\<lambda>q. q_socket q = socket) (queues st))))\<rparr>
      in if q_socket (def_queue st1) = socket then st1\<lparr>def_queue := reset_queue (def_queue st1)\<rparr> else st1)"

definition SocketBuffer_getQueuedData ::
    "int \<Rightarrow> nat \<Rightarrow> 'a sockets_scheme \<Rightarrow> (nat \<times> nat option \<times> 'a sockets_scheme) option" where
  "SocketBuffer_getQueuedData socket bytes st =
     (case find_queue socket st of (p, st1) \<Rightarrow>
      let queue = the_queue p st1; actual_len = (if p = None then 0 else q_datalen queue)
      in if bytes > q_buflen queue
         then if q_datalen queue > 0
              then if q_datalen queue \<le> length (q_buf queue) \<and> q_datalen queue \<le> bytes
                   then Some (actual_len, p, set_queue p (queue\<lparr>
                     q_buf := take (q_datalen queue) (q_buf queue) @ replicate (bytes - q_datalen queue) None,
                     q_buflen := bytes\<rparr>) st1)
                   else None
              else Some (actual_len, p, set_queue p (queue\<lparr>q_buf := realloc (q_buf queue) bytes, q_buflen := bytes\<rparr>) st1)
         else Some (actual_len, p, st1))"

definition SocketBuffer_getQueuedChar ::
    "int \<Rightarrow> byte \<Rightarrow> 'a sockets_scheme \<Rightarrow> (int \<times> byte \<times> 'a sockets_scheme) option" where
  "SocketBuffer_getQueuedChar socket c st =
     (case find_queue socket st of (p, st1) \<Rightarrow>
      if p = None then Some (SOCKETBUFFER_INTERRUPTED, c, st1)
      else do {
        let queue = the_queue p st1;
        headerlen \<leftarrow> q_headerlen queue;
        if q_index queue < headerlen then do {
          c' \<leftarrow> fetch (q_fixed_header queue) (q_index queue);
          Some (SOCKETBUFFER_COMPLETE, c', set_queue p (queue\<lparr>q_index := q_index queue + 1\<rparr>) st1)
        }
        else if q_index queue > 4 then Some (SOCKET_ERROR, c, st1)
        else Some (SOCKETBUFFER_INTERRUPTED, c, st1)
      })"

definition SocketBuffer_interrupted :: "int \<Rightarrow> nat \<Rightarrow> 'a sockets_scheme \<Rightarrow> 'a sockets_scheme" where
  "SocketBuffer_interrupted socket actual_len st =
     (case find_queue socket st of (p, st1) \<Rightarrow>
      let (p', st2) = (if p \<noteq> None then (p, st1)
            else (Some (length (fst (queues st1))),
                  SocketBuffer_newDefQ (st1\<lparr>queues := slist_append (def_queue st1) (queues st1)\<rparr>)))
      in set_queue p' ((the_queue p' st2)\<lparr>q_index := 0, q_datalen := actual_len\<rparr>) st2)"

definition SocketBuffer_complete :: "int \<Rightarrow> 'a sockets_scheme \<Rightarrow> 'a sockets_scheme" where
  "SocketBuffer_complete socket st =
     (case find_queue socket st of (p, st1) \<Rightarrow>
      let st2 = (case p of
            None \<Rightarrow> st1
          | Some i \<Rightarrow> st1\<lparr>def_queue := the_queue p st1,
              queues := (remove_nth i (fst (queues st1)), after_remove (length (fst (queues st1))) i (snd (queues st1)))\<rparr>)
      in st2\<lparr>def_queue := reset_queue (def_queue st2)\<rparr>)"

definition SocketBuffer_queueChar :: "int \<Rightarrow> byte \<Rightarrow> 'a sockets_scheme \<Rightarrow> 'a sockets_scheme option" where
  "SocketBuffer_queueChar socket c st =
     (case find_queue socket st of (p, st1) \<Rightarrow>
      let st2 = (if p = None \<and> q_socket (def_queue st1) = 0
                 then st1\<lparr>def_queue := (def_queue st1)\<lparr>q_socket := socket, q_index := 0, q_datalen := 0\<rparr>\<rparr> else st1);
          error = (p = None \<and> q_socket (def_queue st1) \<noteq> 0 \<and> q_socket (def_queue st1) \<noteq> socket);
          curq = the_queue p st2
      in if error \<or> q_index curq > 4 then Some st2
         else do {
           fixed_header \<leftarrow> store (q_fixed_header curq) (q_index curq) (Some c);
           Some (set_queue p (curq\<lparr>q_fixed_header := fixed_header, q_index := q_index curq + 1,
             q_headerlen := Some (q_index curq + 1)\<rparr>) st2)
         })"

section \<open>Reading\<close>

definition Socket_getch :: "int \<Rightarrow> byte \<Rightarrow> 'a sockets_scheme \<Rightarrow> (int \<times> byte \<times> 'a sockets_scheme) option" where
  "Socket_getch socket c st = do {
     (rc, c1, st1) \<leftarrow> SocketBuffer_getQueuedChar socket c st;
     if rc \<noteq> SOCKETBUFFER_INTERRUPTED then Some (rc, c1, st1)
     else case recv socket 1 st1 of
       (Inl err, st2) \<Rightarrow>
         if err = EWOULDBLOCK \<or> err = EAGAIN
         then Some (TCPSOCKET_INTERRUPTED, c1, SocketBuffer_interrupted socket 0 st2)
         else Some (SOCKET_ERROR, c1, st2)
     | (Inr bs, st2) \<Rightarrow>
         (case bs of
            [] \<Rightarrow> Some (SOCKET_ERROR, c1, st2)
          | b # _ \<Rightarrow> do { st3 \<leftarrow> SocketBuffer_queueChar socket b st2; Some (TCPSOCKET_COMPLETE, b, st3) })
   }"

text \<open>The result is the buffer, \<open>None\<close> for NULL, the new \<open>actual_len\<close> and the state.\<close>

definition Socket_getdata :: "int \<Rightarrow> nat \<Rightarrow> nat \<Rightarrow> 'a sockets_scheme \<Rightarrow> (mem option \<times> nat \<times> 'a sockets_scheme) option" where
  "Socket_getdata socket bytes actual_len st =
     (if bytes = 0
      then let st1 = SocketBuffer_complete socket st in Some (Some (q_buf (def_queue st1)), actual_len, st1)
      else do {
        (len, p, st1) \<leftarrow> SocketBuffer_getQueuedData socket bytes st;
        _ \<leftarrow> ensure (len \<le> bytes);
        case recv socket (bytes - len) st1 of (r, st2) \<Rightarrow>
          if (case r of Inl err \<Rightarrow> err \<noteq> EAGAIN \<and> err \<noteq> EWOULDBLOCK | Inr bs \<Rightarrow> bs = [])
          then Some (None, len, st2)
          else do {
            let bs = (case r of Inl _ \<Rightarrow> [] | Inr bs \<Rightarrow> bs);
            buf \<leftarrow> mem_write len bs (q_buf (the_queue p st2));
            let st3 = set_queue p ((the_queue p st2)\<lparr>q_buf := buf\<rparr>) st2;
            let len' = len + length bs;
            Some (Some buf, len',
              if len' = bytes then SocketBuffer_complete socket st3 else SocketBuffer_interrupted socket len' st3)
          }
      })"

section \<open>Finding queues\<close>

text \<open>
  Among the saved queues a socket has at most one; the number 0 stands for no socket. \<open>at\<close> is the set
  of the queues of a socket, \<open>oth\<close> the queues of the other sockets.
\<close>

definition uniq :: "socket_queue list \<Rightarrow> bool" where
  "uniq xs \<longleftrightarrow> distinct (filter (\<lambda>s. s \<noteq> 0) (map q_socket xs))"

definition at :: "int \<Rightarrow> socket_queue list \<Rightarrow> socket_queue set" where
  "at s xs = {q \<in> set xs. q_socket q = s}"

definition oth :: "int \<Rightarrow> socket_queue list \<Rightarrow> socket_queue set" where
  "oth s xs = {q \<in> set xs. q_socket q \<noteq> s \<and> q_socket q \<noteq> 0}"

lemma uniq_update: "uniq xs \<Longrightarrow> q_socket q = q_socket (xs ! i) \<Longrightarrow> uniq (xs[i := q])"
  by (cases "i < length xs") (simp_all add: uniq_def map_update list_update_same_conv [THEN iffD2] list_update_beyond)

lemma uniq_append: "uniq xs \<Longrightarrow> q_socket q = 0 \<or> at (q_socket q) xs = {} \<Longrightarrow> uniq (xs @ [q])"
  by (auto simp: uniq_def at_def)

lemma split_at: "i < length xs \<Longrightarrow> xs = take i xs @ xs ! i # drop (Suc i) xs"
  by (rule id_take_nth_drop)

lemma uniq_remove: "uniq xs \<Longrightarrow> i < length xs \<Longrightarrow> uniq (remove_nth i xs)"
  unfolding uniq_def remove_nth_def by (subst (asm) (1) split_at [of i xs]) (auto split: if_splits)

lemma set_split: "i < length xs \<Longrightarrow> set xs = insert (xs ! i) (set (take i xs) \<union> set (drop (Suc i) xs))"
  by (subst (1) split_at [of i xs]) auto

text \<open>In a list with one queue for a socket, that queue can be replaced, removed or added.\<close>

lemma uniq_others:
  assumes "uniq xs" "i < length xs" "q_socket (xs ! i) = s" "s \<noteq> 0"
  shows "at s (remove_nth i xs) = {}" "oth s (remove_nth i xs) = oth s xs" "at s xs = {xs ! i}"
proof -
  have "q_socket q \<noteq> s" if "q \<in> set (take i xs) \<union> set (drop (Suc i) xs)" for q
  proof
    assume "q_socket q = s"
    then have "s \<in> set (filter (\<lambda>s. s \<noteq> 0) (map q_socket (take i xs))) \<union> set (filter (\<lambda>s. s \<noteq> 0) (map q_socket (drop (Suc i) xs)))"
      using that assms(4) by auto
    moreover have "filter (\<lambda>s. s \<noteq> 0) (map q_socket xs) =
        filter (\<lambda>s. s \<noteq> 0) (map q_socket (take i xs)) @ s # filter (\<lambda>s. s \<noteq> 0) (map q_socket (drop (Suc i) xs))"
      using assms(3,4) by (subst (1) split_at [OF assms(2)]) simp
    ultimately show False
      using assms(1) by (auto simp: uniq_def)
  qed
  then show "at s (remove_nth i xs) = {}" "oth s (remove_nth i xs) = oth s xs" "at s xs = {xs ! i}"
    using set_split [OF assms(2)] assms(3) by (auto simp: at_def oth_def remove_nth_def)
qed

lemma uniq_set:
  assumes "uniq xs" "i < length xs" "q_socket (xs ! i) = s" "s \<noteq> 0" "q_socket q = s"
  shows "at s (xs[i := q]) = {q}" "oth s (xs[i := q]) = oth s xs"
proof -
  have "set (xs[i := q]) = insert q (set (remove_nth i xs))"
    using assms(2) by (simp add: upd_conv_take_nth_drop remove_nth_def)
  then show "at s (xs[i := q]) = {q}" "oth s (xs[i := q]) = oth s xs"
    using uniq_others [OF assms(1-4)] assms(5) by (auto simp: at_def oth_def)
qed

lemma at_append: "at s (xs @ [q]) = at s xs \<union> (if q_socket q = s then {q} else {})"
  by (auto simp: at_def)

lemma oth_append: "oth s (xs @ [q]) = oth s xs \<union> (if q_socket q \<noteq> s \<and> q_socket q \<noteq> 0 then {q} else {})"
  by (auto simp: oth_def)

lemma find_queue_None:
  assumes "at s (fst (queues st)) = {}" "slist_wf (queues st)"
  shows "find_queue s st = (None, st)"
proof -
  have "find_index (\<lambda>q. q_socket q = s) (fst (queues st)) (snd (queues st)) = None"
    using assms by (auto simp: find_index_def first_index_None at_def slist_wf_def dest: nth_mem split: option.split)
  then show ?thesis
    by (simp add: find_queue_def slist_find_def)
qed

lemma find_queue_Some:
  assumes "at s (fst (queues st)) = {q}" "slist_wf (queues st)"
  obtains i where "find_queue s st = (Some i, st\<lparr>queues := (fst (queues st), Some i)\<rparr>)" "i < length (fst (queues st))"
    "fst (queues st) ! i = q"
proof -
  have q: "q \<in> at s (fst (queues st))"
    using assms(1) by simp
  then have "first_index (\<lambda>q. q_socket q = s) (fst (queues st)) \<noteq> None"
    by (auto simp: first_index_None at_def simp del: not_None_eq)
  then have "find_index (\<lambda>q. q_socket q = s) (fst (queues st)) (snd (queues st)) \<noteq> None"
    by (simp add: find_index_def split: option.split)
  then obtain i where i: "find_index (\<lambda>q. q_socket q = s) (fst (queues st)) (snd (queues st)) = Some i"
    by blast
  from find_index_Some [OF this] have "i < length (fst (queues st))" "q_socket (fst (queues st) ! i) = s"
    using assms(2) by (auto simp: slist_wf_def)
  moreover from this have "fst (queues st) ! i \<in> at s (fst (queues st))"
    by (simp add: at_def)
  then have "fst (queues st) ! i = q"
    using assms(1) by simp
  ultimately show thesis
    using that [of i] i by (simp add: find_queue_def slist_find_def)
qed

section \<open>The state of a packet that is being read\<close>

text \<open>
  \<open>holds q hs ds\<close>: the queue has kept the header bytes \<open>hs\<close> and the data bytes \<open>ds\<close>. A queue that nobody is
  reading is rewound to its start. Between two packets the default queue belongs to no socket.
\<close>

definition holds :: "socket_queue \<Rightarrow> byte list \<Rightarrow> byte list \<Rightarrow> bool" where
  "holds q hs ds \<longleftrightarrow> q_headerlen q = Some (length hs) \<and> take (length hs) (q_fixed_header q) = map Some hs \<and>
     q_datalen q = length ds \<and> take (length ds) (q_buf q) = map Some ds"

definition q_ok :: "socket_queue \<Rightarrow> bool" where
  "q_ok q \<longleftrightarrow> length (q_fixed_header q) = 5 \<and> q_buflen q \<le> length (q_buf q)"

definition idle :: "socket_queue \<Rightarrow> bool" where
  "idle q \<longleftrightarrow> q_index q = 0 \<and> (\<exists>hs ds. hs \<noteq> [] \<and> holds q hs ds)"

definition free_queue :: "socket_queue \<Rightarrow> bool" where
  "free_queue q \<longleftrightarrow> q_socket q = 0 \<and> q_datalen q = 0"

definition wf_but :: "int \<Rightarrow> 'a sockets_scheme \<Rightarrow> bool" where
  "wf_but s st \<longleftrightarrow> slist_wf (queues st) \<and> uniq (fst (queues st)) \<and> q_ok (def_queue st) \<and>
     (\<forall>q \<in> set (fst (queues st)). q_ok q) \<and> (\<forall>q \<in> oth s (fst (queues st)). idle q)"

definition between :: "'a sockets_scheme \<Rightarrow> bool" where
  "between st \<longleftrightarrow> wf_but 0 st \<and> free_queue (def_queue st)"

text \<open>
  While a packet is read from \<open>s\<close>: the header bytes \<open>hs\<close> were read in this attempt, the bytes \<open>us\<close> and the
  data \<open>ds\<close> are kept from earlier attempts and still to come.
\<close>

definition reading :: "int \<Rightarrow> byte list \<Rightarrow> byte list \<Rightarrow> byte list \<Rightarrow> 'a sockets_scheme \<Rightarrow> bool" where
  "reading s hs us ds st \<longleftrightarrow> s \<noteq> 0 \<and> wf_but s st \<and>
     ((\<exists>q. at s (fst (queues st)) = {q} \<and> q_index q = length hs \<and> holds q (hs @ us) ds \<and> hs @ us \<noteq> [] \<and>
        free_queue (def_queue st)) \<or>
      at s (fst (queues st)) = {} \<and> us = [] \<and> ds = [] \<and>
        (if hs = [] then free_queue (def_queue st)
         else q_socket (def_queue st) = s \<and> q_index (def_queue st) = length hs \<and> holds (def_queue st) hs []))"

text \<open>What is kept for a socket between two attempts.\<close>

definition kept :: "int \<Rightarrow> byte list \<Rightarrow> byte list \<Rightarrow> 'a sockets_scheme \<Rightarrow> bool" where
  "kept s hs ds st \<longleftrightarrow>
     (\<exists>q. at s (fst (queues st)) = {q} \<and> holds q hs ds \<and> hs \<noteq> []) \<or> at s (fst (queues st)) = {} \<and> hs = [] \<and> ds = []"

text \<open>Reading from \<open>s\<close> does not touch what is kept and what arrives for the other sockets.\<close>

definition others_same :: "int \<Rightarrow> 'a sockets_scheme \<Rightarrow> 'b sockets_scheme \<Rightarrow> bool" where
  "others_same s st st' \<longleftrightarrow> oth s (fst (queues st')) = oth s (fst (queues st)) \<and> (\<forall>s'. s' \<noteq> s \<longrightarrow> net_in st' s' = net_in st s')"

lemma others_same_refl [simp]: "others_same s st st"
  by (simp add: others_same_def)

lemma others_same_trans: "others_same s st st' \<Longrightarrow> others_same s st' st'' \<Longrightarrow> others_same s st st''"
  by (simp add: others_same_def)

lemma at_0_oth: "oth 0 xs = oth s xs \<union> (if s = 0 then {} else at s xs)"
  by (auto simp: oth_def at_def)

lemma between_wf:
  "s \<noteq> 0 \<Longrightarrow> between st \<longleftrightarrow> wf_but s st \<and> (\<forall>q \<in> at s (fst (queues st)). idle q) \<and> free_queue (def_queue st)"
  by (auto simp: between_def wf_but_def at_0_oth [of _ s])

lemma kept_reading:
  assumes "between st" "s \<noteq> 0" "kept s hs ds st"
  shows "reading s [] hs ds st"
proof -
  have "wf_but s st" "free_queue (def_queue st)"
    using assms(1) by (simp_all add: between_wf [OF assms(2)])
  moreover have "q_index q = 0" if "at s (fst (queues st)) = {q}" for q
    using assms(1) that by (simp add: between_wf [OF assms(2)] idle_def)
  ultimately show ?thesis
    using assms(2,3) by (auto simp: reading_def kept_def)
qed

lemma between_kept:
  assumes "between st" "s \<noteq> 0"
  shows "\<exists>hs ds. kept s hs ds st"
proof (cases "at s (fst (queues st)) = {}")
  case False
  then obtain q where q: "q \<in> set (fst (queues st))" "q_socket q = s"
    by (auto simp: at_def)
  then obtain i where "i < length (fst (queues st))" "fst (queues st) ! i = q"
    by (auto simp: in_set_conv_nth)
  then have "at s (fst (queues st)) = {q}"
    using assms q(2) uniq_others(3) [of "fst (queues st)" i s] by (simp add: between_def wf_but_def)
  moreover have "idle q"
    using assms calculation by (simp add: between_wf [OF assms(2)])
  ultimately show ?thesis
    by (auto simp: kept_def idle_def)
qed (auto simp: kept_def)

text \<open>What is kept is determined.\<close>

lemma kept_unique: "kept s hs ds st \<Longrightarrow> kept s hs' ds' st \<Longrightarrow> hs' = hs \<and> ds' = ds"
  by (auto simp: kept_def holds_def)

section \<open>Steps of reading\<close>

lemma wf_saved:
  assumes "wf_but s st" "s \<noteq> 0" "i < length (fst (queues st))" "q_socket (fst (queues st) ! i) = s" "q_socket q = s" "q_ok q"
  shows "wf_but s (st\<lparr>queues := ((fst (queues st))[i := q], Some i)\<rparr>)"
    "at s ((fst (queues st))[i := q]) = {q}" "oth s ((fst (queues st))[i := q]) = oth s (fst (queues st))"
proof -
  have u: "uniq (fst (queues st))"
    using assms(1) by (simp add: wf_but_def)
  note set = uniq_set [OF u assms(3,4,2,5)]
  have "set ((fst (queues st))[i := q]) \<subseteq> insert q (set (fst (queues st)))"
    by (rule set_update_subset_insert)
  then show "wf_but s (st\<lparr>queues := ((fst (queues st))[i := q], Some i)\<rparr>)"
    using assms set uniq_update [OF u, of q i] by (auto simp: wf_but_def slist_wf_def)
  show "at s ((fst (queues st))[i := q]) = {q}" "oth s ((fst (queues st))[i := q]) = oth s (fst (queues st))"
    using set by simp_all
qed

lemma wf_but_cur: "wf_but s st \<Longrightarrow> i < length (fst (queues st)) \<Longrightarrow> wf_but s (st\<lparr>queues := (fst (queues st), Some i)\<rparr>)"
  by (simp add: wf_but_def slist_wf_def)

lemma wf_but_slist: "wf_but s st \<Longrightarrow> slist_wf (queues st)"
  by (simp add: wf_but_def)

lemma at_singleton: "at s xs = {q} \<Longrightarrow> q \<in> set xs \<and> q_socket q = s"
  unfolding at_def by blast

lemma take_nth: "take (length (xs @ y # ys)) zs = xs @ y # ys \<Longrightarrow> length xs < length zs \<and> zs ! length xs = y"
proof -
  assume t: "take (length (xs @ y # ys)) zs = xs @ y # ys"
  then have "zs = (xs @ y # ys) @ drop (length (xs @ y # ys)) zs"
    by (metis append_take_drop_id)
  then show ?thesis
    by (metis append_Cons append_assoc length_append length_Cons less_add_Suc1 nth_append_length add_Suc_right trans_less_add1)
qed

text \<open>A byte that is kept is read from the queue.\<close>

lemma getch_kept:
  assumes "reading s hs (u # us) ds st"
  shows "\<exists>st'. Socket_getch s c st = Some (TCPSOCKET_COMPLETE, u, st') \<and> reading s (hs @ [u]) us ds st' \<and>
    others_same s st st' \<and> net_in st' s = net_in st s"
proof -
  obtain q where q: "at s (fst (queues st)) = {q}" "q_index q = length hs" "holds q (hs @ u # us) ds"
    and wf: "wf_but s st" "s \<noteq> 0" "free_queue (def_queue st)"
    using assms by (auto simp: reading_def)
  obtain i where i: "find_queue s st = (Some i, st\<lparr>queues := (fst (queues st), Some i)\<rparr>)" "i < length (fst (queues st))"
    "fst (queues st) ! i = q"
    using find_queue_Some [OF q(1) wf_but_slist [OF wf(1)]] .
  let ?q = "q\<lparr>q_index := Suc (length hs)\<rparr>"
  have sock: "q_socket q = s" "q_ok q"
    using q(1) wf(1) at_singleton [OF q(1)] by (auto simp: wf_but_def)
  have "take (length (hs @ u # us)) (q_fixed_header q) = map Some (hs @ u # us)"
    using q(3) by (simp add: holds_def)
  then have "length hs < length (q_fixed_header q) \<and> q_fixed_header q ! length hs = Some u"
    using take_nth [of "map Some hs" "Some u" "map Some us"] by simp
  then have "fetch (q_fixed_header q) (length hs) = Some u"
    by (simp add: fetch_def)
  then have "Socket_getch s c st = Some (TCPSOCKET_COMPLETE, u, st\<lparr>queues := ((fst (queues st))[i := ?q], Some i)\<rparr>)"
    using q i by (simp add: Socket_getch_def SocketBuffer_getQueuedChar_def the_queue_def set_queue_def holds_def socket_codes)
  moreover have "q_ok ?q" "holds ?q ((hs @ [u]) @ us) ds"
    using sock q(3) by (simp_all add: q_ok_def holds_def)
  ultimately show ?thesis
    using wf_saved [OF wf(1,2) i(2), of ?q] i(3) sock wf q(2) by (auto simp: reading_def others_same_def)
qed

text \<open>Interruption keeps the bytes read so far, for the next attempt.\<close>

lemma rewind_idle: "holds q hs ds \<Longrightarrow> hs \<noteq> [] \<Longrightarrow> idle (q\<lparr>q_index := 0\<rparr>)"
  by (auto simp: idle_def holds_def)

text \<open>The queue in use: the saved one, or the default queue.\<close>

definition in_use :: "int \<Rightarrow> socket_queue \<Rightarrow> 'a sockets_scheme \<Rightarrow> bool" where
  "in_use s q st \<longleftrightarrow> (at s (fst (queues st)) = {q} \<and> free_queue (def_queue st) \<or>
     at s (fst (queues st)) = {} \<and> def_queue st = q \<and> q_socket q = s)"

lemma q_ok_new: "q_ok new_def_queue" "free_queue new_def_queue"
  by (simp_all add: q_ok_def new_def_queue_def free_queue_def)

lemma in_use_ok: "in_use s q st \<Longrightarrow> wf_but s st \<Longrightarrow> q_ok q \<and> q_socket q = s"
  using at_singleton by (fastforce simp: in_use_def wf_but_def)

lemma interrupted_kept:
  assumes wf: "wf_but s st" "s \<noteq> 0" and use: "in_use s q st"
    and q: "holds (q\<lparr>q_datalen := length ds\<rparr>) hs ds" "hs \<noteq> []"
  shows "between (SocketBuffer_interrupted s (length ds) st)" "kept s hs ds (SocketBuffer_interrupted s (length ds) st)"
    "others_same s st (SocketBuffer_interrupted s (length ds) st)" "net_in (SocketBuffer_interrupted s (length ds) st) s = net_in st s"
proof -
  let ?q = "q\<lparr>q_index := 0, q_datalen := length ds\<rparr>" and ?st = "SocketBuffer_interrupted s (length ds) st"
  have ok: "q_ok ?q" "q_socket ?q = s" "holds ?q hs ds" "idle ?q"
    using in_use_ok [OF use wf(1)] q by (auto simp: q_ok_def holds_def idle_def)
  have "between ?st \<and> kept s hs ds ?st \<and> others_same s st ?st \<and> net_in ?st s = net_in st s"
  proof (cases "at s (fst (queues st)) = {}")
    case True
    then have d: "def_queue st = q" "find_queue s st = (None, st)"
      using use find_queue_None [OF True wf_but_slist [OF wf(1)]] by (auto simp: in_use_def)
    then have st: "?st = st\<lparr>queues := (fst (queues st) @ [?q], snd (queues st)), def_queue := new_def_queue\<rparr>"
      by (simp add: SocketBuffer_interrupted_def SocketBuffer_newDefQ_def slist_append_def set_queue_def the_queue_def
          nth_append list_update_append)
    have "uniq (fst (queues st) @ [?q])" "slist_wf (fst (queues st) @ [?q], snd (queues st))"
      using wf(1) ok True uniq_append [of "fst (queues st)" ?q] by (auto simp: wf_but_def slist_wf_def)
    then show ?thesis
      using wf ok True q(2) q_ok_new
      by (auto simp: st between_wf [OF wf(2)] wf_but_def at_append oth_append kept_def others_same_def)
  next
    case False
    then have at: "at s (fst (queues st)) = {q}" "free_queue (def_queue st)"
      using use by (auto simp: in_use_def)
    obtain i where i: "find_queue s st = (Some i, st\<lparr>queues := (fst (queues st), Some i)\<rparr>)" "i < length (fst (queues st))"
      "fst (queues st) ! i = q"
      using find_queue_Some [OF at(1) wf_but_slist [OF wf(1)]] .
    then have st: "?st = st\<lparr>queues := ((fst (queues st))[i := ?q], Some i)\<rparr>"
      by (simp add: SocketBuffer_interrupted_def set_queue_def the_queue_def)
    show ?thesis
      using wf_saved [OF wf i(2), of ?q] i(3) ok at q(2) by (auto simp: st between_wf [OF wf(2)] kept_def others_same_def)
  qed
  then show "between ?st" "kept s hs ds ?st" "others_same s st ?st" "net_in ?st s = net_in st s"
    by auto
qed

text \<open>
  Interruption before the first byte saves the default queue although it belongs to no socket; nobody will
  find it again, and nothing is lost but its memory.
\<close>

lemma interrupted_first:
  assumes wf: "wf_but s st" "s \<noteq> 0" "at s (fst (queues st)) = {}" "free_queue (def_queue st)"
  shows "between (SocketBuffer_interrupted s 0 st)" "kept s [] [] (SocketBuffer_interrupted s 0 st)"
    "others_same s st (SocketBuffer_interrupted s 0 st)" "net_in (SocketBuffer_interrupted s 0 st) s = net_in st s"
proof -
  let ?q = "(def_queue st)\<lparr>q_index := 0, q_datalen := 0\<rparr>" and ?st = "SocketBuffer_interrupted s 0 st"
  have ok: "q_ok ?q" "q_socket ?q = 0"
    using wf by (auto simp: q_ok_def wf_but_def free_queue_def)
  have st: "?st = st\<lparr>queues := (fst (queues st) @ [?q], snd (queues st)), def_queue := new_def_queue\<rparr>"
    using find_queue_None [OF wf(3) wf_but_slist [OF wf(1)]]
    by (simp add: SocketBuffer_interrupted_def SocketBuffer_newDefQ_def slist_append_def set_queue_def the_queue_def
        nth_append list_update_append)
  have "uniq (fst (queues st) @ [?q])" "slist_wf (fst (queues st) @ [?q], snd (queues st))"
    using wf ok uniq_append [of "fst (queues st)" ?q] by (auto simp: wf_but_def slist_wf_def)
  then show "between ?st" "kept s [] [] ?st" "others_same s st ?st" "net_in ?st s = net_in st s"
    using wf ok q_ok_new
    by (auto simp: st between_wf [OF wf(2)] wf_but_def at_append oth_append kept_def others_same_def)
qed

lemma complete_done:
  assumes wf: "wf_but s st" "s \<noteq> 0" and use: "in_use s q st"
  shows "between (SocketBuffer_complete s st)" "kept s [] [] (SocketBuffer_complete s st)"
    "others_same s st (SocketBuffer_complete s st)" "net_in (SocketBuffer_complete s st) s = net_in st s"
    "q_buf (def_queue (SocketBuffer_complete s st)) = q_buf q"
proof -
  let ?st = "SocketBuffer_complete s st"
  have ok: "q_ok (reset_queue q)" "free_queue (reset_queue q)"
    using in_use_ok [OF use wf(1)] by (auto simp: q_ok_def reset_queue_def free_queue_def)
  have "between ?st \<and> kept s [] [] ?st \<and> others_same s st ?st \<and> net_in ?st s = net_in st s \<and> q_buf (def_queue ?st) = q_buf q"
  proof (cases "at s (fst (queues st)) = {}")
    case True
    then have d: "def_queue st = q" "find_queue s st = (None, st)"
      using use find_queue_None [OF True wf_but_slist [OF wf(1)]] by (auto simp: in_use_def)
    then have st: "?st = st\<lparr>def_queue := reset_queue q\<rparr>"
      by (simp add: SocketBuffer_complete_def)
    show ?thesis
      using wf ok True by (auto simp: st between_wf [OF wf(2)] wf_but_def kept_def others_same_def reset_queue_def)
  next
    case False
    then have at: "at s (fst (queues st)) = {q}"
      using use by (auto simp: in_use_def)
    obtain i where i: "find_queue s st = (Some i, st\<lparr>queues := (fst (queues st), Some i)\<rparr>)" "i < length (fst (queues st))"
      "fst (queues st) ! i = q"
      using find_queue_Some [OF at wf_but_slist [OF wf(1)]] .
    let ?l = "(remove_nth i (fst (queues st)), after_remove (length (fst (queues st))) i (Some i))"
    have st: "?st = st\<lparr>queues := ?l, def_queue := reset_queue q\<rparr>"
      using i by (simp add: SocketBuffer_complete_def the_queue_def)
    have u: "uniq (fst (queues st))" "q_socket (fst (queues st) ! i) = s"
      using wf(1) i(3) at_singleton [OF at] by (auto simp: wf_but_def)
    have "slist_wf ?l"
      using i(2) by (auto simp: slist_wf_def after_remove_def)
    then show ?thesis
      using wf ok uniq_others [OF u(1) i(2) u(2) wf(2)] uniq_remove [OF u(1) i(2)] set_remove_nth [of i "fst (queues st)"]
      by (auto simp: st between_wf [OF wf(2)] wf_but_def kept_def others_same_def reset_queue_def)
  qed
  then show "between ?st" "kept s [] [] ?st" "others_same s st ?st" "net_in ?st s = net_in st s"
    "q_buf (def_queue ?st) = q_buf q"
    by auto
qed

lemma reading_in_use:
  assumes "reading s hs [] ds st" "hs \<noteq> []"
  obtains q where "in_use s q st" "q_index q = length hs" "holds q hs ds"
  using assms by (auto simp: reading_def in_use_def)

lemma queueChar_reading:
  assumes r: "reading s hs [] [] st" "length hs \<le> 4"
  shows "\<exists>st'. SocketBuffer_queueChar s b st = Some st' \<and> reading s (hs @ [b]) [] [] st' \<and> others_same s st st' \<and>
    net_in st' s = net_in st s"
proof -
  have wf: "wf_but s st" "s \<noteq> 0"
    using r(1) by (simp_all add: reading_def)
  have next_ok: "q_ok (q\<lparr>q_fixed_header := (q_fixed_header q)[length hs := Some b], q_index := Suc (length hs), q_headerlen := Some (Suc (length hs))\<rparr>)"
    "holds (q\<lparr>q_fixed_header := (q_fixed_header q)[length hs := Some b], q_index := Suc (length hs), q_headerlen := Some (Suc (length hs))\<rparr>) (hs @ [b]) []"
    if "take (length hs) (q_fixed_header q) = map Some hs" "q_datalen q = 0" "q_ok q" for q
    using that r(2) by (auto simp: q_ok_def holds_def take_Suc_conv_app_nth)
  show ?thesis
  proof (cases "at s (fst (queues st)) = {}")
    case True
    let ?d = "if hs = [] then (def_queue st)\<lparr>q_socket := s, q_index := 0, q_datalen := 0\<rparr> else def_queue st"
    let ?q = "?d\<lparr>q_fixed_header := (q_fixed_header ?d)[length hs := Some b], q_index := Suc (length hs), q_headerlen := Some (Suc (length hs))\<rparr>"
    have d: "take (length hs) (q_fixed_header ?d) = map Some hs" "q_datalen ?d = 0" "q_ok ?d" "q_socket ?d = s" "q_index ?d = length hs"
      using r(1) True wf(1) by (auto simp: reading_def wf_but_def free_queue_def holds_def q_ok_def split: if_splits)
    have "SocketBuffer_queueChar s b st = Some (st\<lparr>def_queue := ?q\<rparr>)"
      using find_queue_None [OF True wf_but_slist [OF wf(1)]] d r True wf
      by (auto simp: SocketBuffer_queueChar_def Let_def the_queue_def set_queue_def q_ok_def reading_def free_queue_def split: if_splits)
    moreover have "reading s (hs @ [b]) [] [] (st\<lparr>def_queue := ?q\<rparr>)"
      using next_ok [OF d(1-3)] wf True d(4) by (auto simp: reading_def wf_but_def)
    ultimately show ?thesis
      by (auto simp: others_same_def)
  next
    case False
    then obtain q where q: "at s (fst (queues st)) = {q}" "q_index q = length hs" "holds q hs []" "free_queue (def_queue st)"
      using r(1) by (auto simp: reading_def)
    then have ok: "q_ok q" "q_socket q = s"
      using wf(1) at_singleton [OF q(1)] by (auto simp: wf_but_def)
    let ?q = "q\<lparr>q_fixed_header := (q_fixed_header q)[length hs := Some b], q_index := Suc (length hs), q_headerlen := Some (Suc (length hs))\<rparr>"
    obtain i where i: "find_queue s st = (Some i, st\<lparr>queues := (fst (queues st), Some i)\<rparr>)" "i < length (fst (queues st))"
      "fst (queues st) ! i = q"
      using find_queue_Some [OF q(1) wf_but_slist [OF wf(1)]] .
    then have "SocketBuffer_queueChar s b st = Some (st\<lparr>queues := ((fst (queues st))[i := ?q], Some i)\<rparr>)"
      using ok q r(2) by (simp add: SocketBuffer_queueChar_def Let_def the_queue_def set_queue_def q_ok_def)
    moreover have "take (length hs) (q_fixed_header q) = map Some hs" "q_datalen q = 0"
      using q(3) by (auto simp: holds_def)
    note next_ok [OF this ok(1)]
    ultimately show ?thesis
      using wf_saved [OF wf i(2), of ?q] i(3) ok(2) q(4) wf(2) by (auto simp: reading_def others_same_def)
  qed
qed

lemma getQueuedChar_none:
  assumes r: "reading s hs [] [] st" "length hs \<le> 4"
  shows "\<exists>st'. SocketBuffer_getQueuedChar s c st = Some (SOCKETBUFFER_INTERRUPTED, c, st') \<and> reading s hs [] [] st' \<and>
    others_same s st st' \<and> net_in st' s = net_in st s"
proof -
  have wf: "wf_but s st"
    using r(1) by (simp add: reading_def)
  show ?thesis
  proof (cases "at s (fst (queues st)) = {}")
    case True
    then show ?thesis
      using find_queue_None [OF True wf_but_slist [OF wf]] r(1) by (simp add: SocketBuffer_getQueuedChar_def)
  next
    case False
    then obtain q where q: "at s (fst (queues st)) = {q}" "q_index q = length hs" "holds q hs []" "free_queue (def_queue st)"
      using r(1) by (auto simp: reading_def)
    obtain i where i: "find_queue s st = (Some i, st\<lparr>queues := (fst (queues st), Some i)\<rparr>)" "i < length (fst (queues st))"
      "fst (queues st) ! i = q"
      using find_queue_Some [OF q(1) wf_but_slist [OF wf]] .
    then show ?thesis
      using q r wf_but_cur [OF wf i(2)]
      by (auto simp: SocketBuffer_getQueuedChar_def the_queue_def holds_def reading_def others_same_def)
  qed
qed

lemma reading_net_in [simp]: "reading s hs us ds (st\<lparr>net_in := n\<rparr>) = reading s hs us ds st"
  by (simp add: reading_def wf_but_def)

text \<open>A byte that is not kept is received, and queued for the case that the attempt is interrupted later.\<close>

lemma getch_recv:
  assumes r: "reading s hs [] [] st" "length hs \<le> 4" and recv: "sys_recv 1 (net_in st s) = (res, ins)"
  shows "\<exists>rc c' st'. Socket_getch s c st = Some (rc, c', st') \<and> others_same s st st' \<and> net_in st' s = ins \<and>
    (case res of
       Inl e \<Rightarrow> if e = EAGAIN then rc = TCPSOCKET_INTERRUPTED \<and> between st' \<and> kept s hs [] st' else rc = SOCKET_ERROR
     | Inr [] \<Rightarrow> rc = SOCKET_ERROR
     | Inr (b # _) \<Rightarrow> rc = TCPSOCKET_COMPLETE \<and> c' = b \<and> reading s (hs @ [b]) [] [] st')"
proof -
  obtain st1 where st1: "SocketBuffer_getQueuedChar s c st = Some (SOCKETBUFFER_INTERRUPTED, c, st1)" "reading s hs [] [] st1"
    "others_same s st st1" "net_in st1 s = net_in st s"
    using getQueuedChar_none [OF r] by blast
  let ?st = "st1\<lparr>net_in := (net_in st1)(s := ins)\<rparr>"
  have st2: "reading s hs [] [] ?st" "others_same s st ?st" "recv s 1 st1 = (res, ?st)"
    using st1 recv by (simp_all add: others_same_def recv_def)
  then have wf: "wf_but s ?st" "s \<noteq> 0"
    by (simp_all add: reading_def)
  show ?thesis
  proof (cases res)
    case (Inl e)
    show ?thesis
    proof (cases "e = EAGAIN")
      case True
      have "between (SocketBuffer_interrupted s 0 ?st) \<and> kept s hs [] (SocketBuffer_interrupted s 0 ?st) \<and>
        others_same s ?st (SocketBuffer_interrupted s 0 ?st) \<and> net_in (SocketBuffer_interrupted s 0 ?st) s = ins"
      proof (cases "hs = []")
        case True
        then have "at s (fst (queues ?st)) = {}" "free_queue (def_queue ?st)"
          using st2(1) by (auto simp: reading_def)
        with True show ?thesis
          using interrupted_first [OF wf] by simp
      next
        case False
        obtain q where "in_use s q ?st" "holds q hs []"
          using reading_in_use [OF st2(1) False] by blast
        with False show ?thesis
          using interrupted_kept [OF wf, of q "[]" hs] by (auto simp: holds_def)
      qed
      then show ?thesis
        using Inl True st1(1) st2 others_same_trans [OF st2(2)] by (auto simp: Socket_getch_def socket_codes)
    qed (use Inl st1(1) st2 in \<open>auto simp: Socket_getch_def socket_codes\<close>)
  next
    case (Inr bs)
    show ?thesis
    proof (cases bs)
      case (Cons b bs')
      obtain st3 where st3: "SocketBuffer_queueChar s b ?st = Some st3" "reading s (hs @ [b]) [] [] st3" "others_same s ?st st3"
        "net_in st3 s = net_in ?st s"
        using queueChar_reading [OF st2(1) r(2), of b] by blast
      have "others_same s st st3"
        by (rule others_same_trans [OF st2(2) st3(3)])
      then show ?thesis
        using Inr Cons st1(1) st2(3) st3 by (auto simp: Socket_getch_def)
    qed (use Inr st1(1) st2 in \<open>auto simp: Socket_getch_def\<close>)
  qed
qed

section \<open>Reading the data\<close>

text \<open>A pointer to the queue in use.\<close>

definition points :: "int \<Rightarrow> nat option \<Rightarrow> 'a sockets_scheme \<Rightarrow> bool" where
  "points s p st \<longleftrightarrow>
     (case p of
        None \<Rightarrow> at s (fst (queues st)) = {}
      | Some i \<Rightarrow> i < length (fst (queues st)) \<and> q_socket (fst (queues st) ! i) = s)"

lemma net_in_frame [simp]:
  "points s p (st\<lparr>net_in := n\<rparr>) = points s p st" "wf_but s (st\<lparr>net_in := n\<rparr>) = wf_but s st"
  "in_use s q (st\<lparr>net_in := n\<rparr>) = in_use s q st"
  by (cases p) (simp_all add: points_def wf_but_def in_use_def)

lemma points_the_queue:
  assumes "points s p st" "in_use s q st" "wf_but s st" "s \<noteq> 0"
  shows "the_queue p st = q"
proof (cases p)
  case None
  then show ?thesis
    using assms by (auto simp: points_def in_use_def the_queue_def)
next
  case (Some i)
  then have "at s (fst (queues st)) = {fst (queues st) ! i}"
    using assms uniq_others(3) [of "fst (queues st)" i s] by (simp add: points_def wf_but_def)
  then show ?thesis
    using assms(2) Some by (auto simp: in_use_def the_queue_def)
qed

lemma find_queue_points:
  assumes "wf_but s st" "s \<noteq> 0" "in_use s q st"
  obtains p st1 where "find_queue s st = (p, st1)" "points s p st1" "wf_but s st1" "in_use s q st1" "others_same s st st1"
    "net_in st1 s = net_in st s" "p = None \<longleftrightarrow> at s (fst (queues st)) = {}"
proof (cases "at s (fst (queues st)) = {}")
  case True
  then show thesis
    using that [of None st] assms find_queue_None [OF True wf_but_slist [OF assms(1)]] by (simp add: points_def)
next
  case False
  then have at: "at s (fst (queues st)) = {q}"
    using assms(3) by (auto simp: in_use_def)
  obtain i where i: "find_queue s st = (Some i, st\<lparr>queues := (fst (queues st), Some i)\<rparr>)" "i < length (fst (queues st))"
    "fst (queues st) ! i = q"
    using find_queue_Some [OF at wf_but_slist [OF assms(1)]] .
  then show thesis
    using that [of "Some i" "st\<lparr>queues := (fst (queues st), Some i)\<rparr>"] assms(3) wf_but_cur [OF assms(1) i(2)]
      at_singleton [OF at] False
    by (simp add: points_def in_use_def others_same_def)
qed

lemma set_queue_points:
  assumes "points s p st" "in_use s q st" "wf_but s st" "s \<noteq> 0" "q_ok q'" "q_socket q' = s"
  shows "points s p (set_queue p q' st)" "in_use s q' (set_queue p q' st)" "wf_but s (set_queue p q' st)"
    "others_same s st (set_queue p q' st)" "net_in (set_queue p q' st) = net_in st"
proof -
  have "points s p (set_queue p q' st) \<and> in_use s q' (set_queue p q' st) \<and> wf_but s (set_queue p q' st) \<and>
    others_same s st (set_queue p q' st) \<and> net_in (set_queue p q' st) = net_in st"
  proof (cases p)
    case None
    then show ?thesis
      using assms by (auto simp: points_def in_use_def set_queue_def wf_but_def others_same_def)
  next
    case (Some i)
    then have i: "i < length (fst (queues st))" "q_socket (fst (queues st) ! i) = s"
      using assms(1) by (simp_all add: points_def)
    have "fst (queues st) ! i \<in> at s (fst (queues st))"
      using i by (simp add: at_def)
    then have "free_queue (def_queue st)"
      using assms(2) by (auto simp: in_use_def)
    moreover have "slist_wf ((fst (queues st))[i := q'], snd (queues st))"
      using assms(3) by (simp add: wf_but_def slist_wf_def)
    ultimately show ?thesis
      using wf_saved [OF assms(3,4) i assms(6,5)] Some i assms(6)
      by (auto simp: points_def in_use_def set_queue_def wf_but_def others_same_def)
  qed
  then show "points s p (set_queue p q' st)" "in_use s q' (set_queue p q' st)" "wf_but s (set_queue p q' st)"
    "others_same s st (set_queue p q' st)" "net_in (set_queue p q' st) = net_in st"
    by auto
qed

text \<open>The buffer of the queue in use is made large enough; what it keeps is not lost.\<close>

lemma getQueuedData_in_use:
  assumes r: "reading s hs [] ds st" "hs \<noteq> []" "length ds \<le> n"
  obtains p st' q where "SocketBuffer_getQueuedData s n st = Some (length ds, p, st')" "points s p st'" "wf_but s st'"
    "in_use s q st'" "holds q hs ds" "n \<le> length (q_buf q)" "others_same s st st'" "net_in st' s = net_in st s"
proof -
  have wf: "wf_but s st" "s \<noteq> 0"
    using r(1) by (simp_all add: reading_def)
  obtain q where use: "in_use s q st" and q: "holds q hs ds"
    using reading_in_use [OF r(1,2)] by blast
  obtain p st1 where p: "find_queue s st = (p, st1)" "points s p st1" "wf_but s st1" "in_use s q st1" "others_same s st st1"
    "net_in st1 s = net_in st s" "p = None \<longleftrightarrow> at s (fst (queues st)) = {}"
    using find_queue_points [OF wf use] .
  have the: "the_queue p st1 = q" "q_ok q" "q_socket q = s" "q_datalen q = length ds"
    using points_the_queue [OF p(2,4,3) wf(2)] in_use_ok [OF p(4,3)] q by (auto simp: holds_def)
  have len: "(if p = None then 0 else q_datalen q) = length ds"
    using p(7) r(1) the by (auto simp: reading_def)
  have data: "take (length ds) (q_buf q) = map Some ds"
    using q by (simp add: holds_def)
  then have "length ds \<le> length (q_buf q)"
    by (metis length_map length_take min.cobounded1)
  show thesis
  proof (cases "n > q_buflen q")
    case False
    then show thesis
      using that [of p st1 q] p the len q by (simp add: SocketBuffer_getQueuedData_def q_ok_def)
  next
    case True
    let ?buf = "if q_datalen q > 0 then take (q_datalen q) (q_buf q) @ replicate (n - q_datalen q) None else realloc (q_buf q) n"
    let ?q = "q\<lparr>q_buf := ?buf, q_buflen := n\<rparr>"
    have ok: "q_ok ?q" "q_socket ?q = s" "length ?buf = n" "holds ?q hs ds"
      using the data r(3) q \<open>length ds \<le> length (q_buf q)\<close> by (auto simp: q_ok_def holds_def realloc_def)
    note set = set_queue_points [OF p(2,4,3) wf(2) ok(1,2)]
    have "SocketBuffer_getQueuedData s n st = Some (length ds, p, set_queue p ?q st1)"
      using p(1) the len True r(3) \<open>length ds \<le> length (q_buf q)\<close>
      by (auto simp: SocketBuffer_getQueuedData_def Let_def)
    then show thesis
      using that [of p "set_queue p ?q st1" ?q] set ok p(6) others_same_trans [OF p(5) set(4)] by simp
  qed
qed

text \<open>
  The data: either the packet is complete, and the buffer starts with its bytes, or everything received is
  kept. An error of the connection gives no buffer.
\<close>

lemma mem_write_take:
  assumes "take (length ds) buf = map Some ds" "length ds + length bs \<le> length buf"
  shows "\<exists>buf'. mem_write (length ds) bs buf = Some buf' \<and> length buf' = length buf \<and>
    take (length (ds @ bs)) buf' = map Some (ds @ bs)"
  using assms by (auto simp: mem_write_def)

lemma getdata_nothing:
  assumes r: "reading s hs [] [] st" "hs \<noteq> []"
  shows "\<exists>buf st'. Socket_getdata s 0 actual_len st = Some (Some buf, actual_len, st') \<and> between st' \<and> kept s [] [] st' \<and>
    others_same s st st' \<and> net_in st' s = net_in st s"
proof -
  have wf: "wf_but s st" "s \<noteq> 0"
    using r(1) by (simp_all add: reading_def)
  obtain q where "in_use s q st"
    using reading_in_use [OF r] by blast
  from complete_done [OF wf this] show ?thesis
    by (simp add: Socket_getdata_def Let_def)
qed

lemma getdata_recv:
  assumes r: "reading s hs [] ds st" "hs \<noteq> []" "length ds < n"
    and recv: "sys_recv (n - length ds) (net_in st s) = (res, ins)" "\<And>bs. res = Inr bs \<Longrightarrow> length bs \<le> n - length ds"
  shows "\<exists>data len st'. Socket_getdata s n actual_len st = Some (data, len, st') \<and> others_same s st st' \<and> net_in st' s = ins \<and>
    (case res of
       Inl e \<Rightarrow> if e = EAGAIN then data \<noteq> None \<and> len = length ds \<and> between st' \<and> kept s hs ds st' else data = None
     | Inr bs \<Rightarrow>
         if bs = [] then data = None
         else len = length (ds @ bs) \<and> (\<exists>buf. data = Some buf \<and> take len buf = map Some (ds @ bs)) \<and> between st' \<and>
           (if len = n then kept s [] [] st' else kept s hs (ds @ bs) st'))"
proof -
  have s: "s \<noteq> 0"
    using r(1) by (simp add: reading_def)
  obtain p st1 q where g: "SocketBuffer_getQueuedData s n st = Some (length ds, p, st1)" "points s p st1" "wf_but s st1"
    "in_use s q st1" "holds q hs ds" "n \<le> length (q_buf q)" "others_same s st st1" "net_in st1 s = net_in st s"
    using getQueuedData_in_use [OF r(1,2)] r(3) by (metis less_imp_le)
  let ?st2 = "st1\<lparr>net_in := (net_in st1)(s := ins)\<rparr>"
  have st2: "recv s (n - length ds) st1 = (res, ?st2)" "points s p ?st2" "wf_but s ?st2" "in_use s q ?st2" "others_same s st ?st2"
    using recv(1) g by (simp_all add: recv_def others_same_def)
  have the: "the_queue p ?st2 = q" "q_ok q" "q_socket q = s"
    using points_the_queue [OF st2(2,4,3) s] in_use_ok [OF st2(4,3)] by auto
  define bs where "bs = (case res of Inl _ \<Rightarrow> [] | Inr bs \<Rightarrow> bs)"
  have fits: "length ds + length bs \<le> n"
    using recv(2) r(3) by (cases res) (auto simp: bs_def)
  obtain buf where buf: "mem_write (length ds) bs (q_buf q) = Some buf" "length buf = length (q_buf q)"
    "take (length (ds @ bs)) buf = map Some (ds @ bs)"
    using mem_write_take [of ds "q_buf q" bs] g(5,6) fits by (auto simp: holds_def)
  let ?q = "q\<lparr>q_buf := buf\<rparr>" and ?len = "length (ds @ bs)"
  have ok: "q_ok ?q" "q_socket ?q = s" "holds (?q\<lparr>q_datalen := length (ds @ bs)\<rparr>) hs (ds @ bs)"
    using the buf g(5) by (auto simp: q_ok_def holds_def)
  let ?st3 = "set_queue p ?q ?st2"
  note set = set_queue_points [OF st2(2,4,3) s ok(1,2)]
  have same: "others_same s st ?st3" "net_in ?st3 s = ins"
    using others_same_trans [OF st2(5) set(4)] set(5) by simp_all
  note halted = interrupted_kept [OF set(3) s set(2) ok(3) r(2)]
  note ended = complete_done [OF set(3) s set(2)]
  have go: "Socket_getdata s n actual_len st = Some (Some buf, ?len,
      if ?len = n then SocketBuffer_complete s ?st3 else SocketBuffer_interrupted s ?len ?st3)"
    if "case res of Inl e \<Rightarrow> e = EAGAIN | Inr bs \<Rightarrow> bs \<noteq> []"
    using that r(3) g(1) st2(1) the buf(1) bs_def
    by (cases res) (auto simp: Socket_getdata_def Let_def EWOULDBLOCK_def)
  have stop: "Socket_getdata s n actual_len st = Some (None, length ds, ?st2)"
    if "\<not> (case res of Inl e \<Rightarrow> e = EAGAIN | Inr bs \<Rightarrow> bs \<noteq> [])"
    using that r(3) g(1) st2(1) by (cases res) (auto simp: Socket_getdata_def Let_def EWOULDBLOCK_def)
  have ends: "between (if ?len = n then SocketBuffer_complete s ?st3 else SocketBuffer_interrupted s ?len ?st3)"
    "others_same s st (if ?len = n then SocketBuffer_complete s ?st3 else SocketBuffer_interrupted s ?len ?st3)"
    "net_in (if ?len = n then SocketBuffer_complete s ?st3 else SocketBuffer_interrupted s ?len ?st3) s = ins"
    "if ?len = n then kept s [] [] (SocketBuffer_complete s ?st3) else kept s hs (ds @ bs) (SocketBuffer_interrupted s ?len ?st3)"
    using halted ended same others_same_trans [OF same(1)] by (auto split: if_splits)
  show ?thesis
  proof (cases "case res of Inl e \<Rightarrow> e = EAGAIN | Inr bs \<Rightarrow> bs \<noteq> []")
    case True
    then show ?thesis
      using go [OF True] ends buf(3) r(3) bs_def by (cases res) auto
  next
    case False
    then show ?thesis
      using stop [OF False] st2(5) by (cases res) (auto split: if_splits)
  qed
qed

section \<open>Properties\<close>

fun getch_times :: "nat \<Rightarrow> int \<Rightarrow> byte \<Rightarrow> 'a sockets_scheme \<Rightarrow> 'a sockets_scheme option" where
  "getch_times 0 s c st = Some st"
| "getch_times (Suc n) s c st = do { (rc, c', st') \<leftarrow> Socket_getch s c st; getch_times n s c' st' }"

lemma getch_lost_queue:
  assumes "s \<noteq> 0" "between st" "at s (fst (queues st)) = {}" "net_in st s = []"
  shows "\<exists>st'. Socket_getch s c st = Some (TCPSOCKET_INTERRUPTED, c, st') \<and> length (fst (queues st')) = Suc (length (fst (queues st))) \<and>
    between st' \<and> at s (fst (queues st')) = {} \<and> net_in st' s = []"
proof -
  have wf: "wf_but s st" "free_queue (def_queue st)"
    using assms(2) by (simp_all add: between_wf [OF assms(1)])
  have none: "find_queue s st' = (None, st')" if "fst (queues st') = fst (queues st)" "queues st' = queues st" for st' :: "'a sockets_scheme"
    using that assms(3) wf_but_slist [OF wf(1)] by (intro find_queue_None) simp_all
  let ?st = "st\<lparr>net_in := (net_in st)(s := [])\<rparr>"
  have get: "Socket_getch s c st = Some (TCPSOCKET_INTERRUPTED, c, SocketBuffer_interrupted s 0 ?st)"
    using none [of st] assms(4) by (simp add: Socket_getch_def SocketBuffer_getQueuedChar_def recv_def EWOULDBLOCK_def)
  have st: "wf_but s ?st" "at s (fst (queues ?st)) = {}" "free_queue (def_queue ?st)"
    using wf assms(3) by simp_all
  note int = interrupted_first [OF st(1) assms(1) st(2,3)]
  have "length (fst (queues (SocketBuffer_interrupted s 0 ?st))) = Suc (length (fst (queues st)))"
    using none [of ?st] by (simp add: SocketBuffer_interrupted_def SocketBuffer_newDefQ_def slist_append_def set_queue_def)
  moreover have "at s (fst (queues (SocketBuffer_interrupted s 0 ?st))) = {}"
    using int(2) by (simp add: kept_def)
  ultimately show ?thesis
    using get int(1,4) by simp
qed

text \<open>
  An attempt to read when nothing is there costs a queue. \<open>SocketBuffer_interrupted\<close> saves the default queue
  before a byte was read, when the queue does not know its socket yet; so it is never found again, and every
  further attempt allocates and loses another one.
\<close>

theorem first_byte_leak:
  assumes "s \<noteq> 0" "between st" "at s (fst (queues st)) = {}" "net_in st s = []"
  shows "\<exists>st'. getch_times n s c st = Some st' \<and> length (fst (queues st')) = length (fst (queues st)) + n"
proof -
  have "\<exists>st'. getch_times n s c st = Some st' \<and> length (fst (queues st')) = length (fst (queues st)) + n \<and>
    between st' \<and> at s (fst (queues st')) = {} \<and> net_in st' s = []"
    using assms(2-)
  proof (induction n arbitrary: st)
    case (Suc n)
    from getch_lost_queue [OF assms(1) Suc.prems, of c] obtain st1 where
      st1: "Socket_getch s c st = Some (TCPSOCKET_INTERRUPTED, c, st1)" "length (fst (queues st1)) = Suc (length (fst (queues st)))"
        "between st1" "at s (fst (queues st1)) = {}" "net_in st1 s = []"
      by blast
    from Suc.IH [OF st1(3-5)] st1(1,2) show ?case
      by simp
  qed simp
  then show ?thesis
    by blast
qed

definition demo_sockets :: sockets where
  "demo_sockets = SocketBuffer_initialize \<lparr>def_queue = new_def_queue, queues = ([], None), net_in = (\<lambda>_. [])\<rparr>"

lemma initialize_between: "between (SocketBuffer_initialize st)" "at s (fst (queues (SocketBuffer_initialize st))) = {}"
  by (simp_all add: SocketBuffer_initialize_def SocketBuffer_newDefQ_def between_def wf_but_def uniq_def oth_def at_def q_ok_new)

theorem first_byte_leak_witness:
  "\<exists>st'. getch_times 3 5 0 demo_sockets = Some st' \<and> length (fst (queues st')) = 3"
proof -
  have "between demo_sockets"
    unfolding demo_sockets_def by (rule initialize_between)
  moreover have "at 5 (fst (queues demo_sockets)) = {}" "net_in demo_sockets 5 = []" "fst (queues demo_sockets) = []"
    by (simp_all add: demo_sockets_def SocketBuffer_initialize_def SocketBuffer_newDefQ_def at_def)
  ultimately show ?thesis
    using first_byte_leak [of 5 demo_sockets 3 0] by simp
qed

end
