(* ===== verification/Mqtt_Write.thy ===== *)
theory Mqtt_Write
  imports Mqtt_Socket
begin

text \<open>
  Writing to sockets in the MQTT client library: the writing half of \<^verbatim>\<open>Socket.c\<close> and of
  \<^verbatim>\<open>SocketBuffer.c\<close>. A packet is a sequence of buffers written in one system call. When the socket takes only
  a part of it, the rest is kept as a pending write and continued when the socket becomes writable.
\<close>

section \<open>State\<close>

record pending_writes =
  pw_socket :: int
  pw_total :: nat
  pw_bytes :: nat
  pw_iovecs :: "byte list list"
  pw_frees :: "bool list"

text \<open>
  The results of \<open>writev\<close> to come: how many bytes the socket takes, or an error. At the end of the list the
  socket takes nothing more.
\<close>

datatype writev_in = Room nat | W_fail int

fun sys_writev :: "nat \<Rightarrow> writev_in list \<Rightarrow> (int + nat) \<times> writev_in list" where
  "sys_writev n [] = (Inl EAGAIN, [])"
| "sys_writev n (Room k # ins) = (Inr (min k n), ins)"
| "sys_writev n (W_fail e # ins) = (Inl e, ins)"

text \<open>
  The module's state: the lists and the descriptor set of pending writes, what every socket has sent, the
  buffers that were freed and the calls of the write callback; and what \<^verbatim>\<open>MQTTPacket.c\<close> needs of a client:
  the function \<open>pput\<close> of its persistence for every socket (the inner \<open>None\<close> without persistence, the outer
  without client), the records that were stored, the time, and the times of the last packets.
\<close>

record net = sockets +
  write_pending :: "int slist"
  writes :: "pending_writes slist"
  pending_wset :: "int set"
  net_room :: "int \<Rightarrow> writev_in list"
  net_out :: "int \<Rightarrow> byte list"
  net_freed :: "byte list list"
  write_callbacks :: "int list"
  persistence :: "int \<Rightarrow> (string \<Rightarrow> byte list list \<Rightarrow> int) option option"
  persisted :: "(int \<times> string \<times> byte list list) list"
  now :: int
  last_sent :: "int \<Rightarrow> int"
  last_received :: "int \<Rightarrow> int"

section \<open>The code\<close>

definition Socket_writev :: "int \<Rightarrow> byte list list \<Rightarrow> net \<Rightarrow> int \<times> nat \<times> net" where
  "Socket_writev socket iovecs st =
     (case sys_writev (length (concat iovecs)) (net_room st socket) of
        (Inl err, ins) \<Rightarrow>
          (if err = EWOULDBLOCK \<or> err = EAGAIN then TCPSOCKET_INTERRUPTED else SOCKET_ERROR, 0,
           st\<lparr>net_room := (net_room st)(socket := ins)\<rparr>)
      | (Inr n, ins) \<Rightarrow>
          (int n, n, st\<lparr>net_room := (net_room st)(socket := ins),
             net_out := (net_out st)(socket := net_out st socket @ take n (concat iovecs))\<rparr>))"

definition Socket_noPendingWrites :: "int \<Rightarrow> net \<Rightarrow> bool \<times> net" where
  "Socket_noPendingWrites socket st =
     (case slist_find (\<lambda>x. x = socket) (write_pending st) of (i, l) \<Rightarrow> (i = None, st\<lparr>write_pending := l\<rparr>))"

definition SocketBuffer_pendingWrite :: "int \<Rightarrow> byte list list \<Rightarrow> bool list \<Rightarrow> nat \<Rightarrow> nat \<Rightarrow> net \<Rightarrow> net" where
  "SocketBuffer_pendingWrite socket iovecs frees tot bytes st = st\<lparr>writes := slist_append
     \<lparr>pw_socket = socket, pw_total = tot, pw_bytes = bytes, pw_iovecs = iovecs, pw_frees = frees\<rparr> (writes st)\<rparr>"

text \<open>The arrays of \<open>Socket_putdatas\<close> have five elements.\<close>

definition Socket_putdatas :: "int \<Rightarrow> byte list \<Rightarrow> byte list list \<Rightarrow> bool list \<Rightarrow> net \<Rightarrow> (int \<times> net) option" where
  "Socket_putdatas socket buf0 buffers frees st =
     (case Socket_noPendingWrites socket st of (free, st1) \<Rightarrow>
      if \<not> free then Some (SOCKET_ERROR, st1)
      else do {
        _ \<leftarrow> ensure (length buffers + 1 \<le> 5 \<and> length frees = length buffers);
        let tot = length buf0 + sum_list (map length buffers);
        case Socket_writev socket (buf0 # buffers) st1 of (rc, bytes, st2) \<Rightarrow>
          if rc \<noteq> SOCKET_ERROR
          then if bytes = tot then Some (TCPSOCKET_COMPLETE, st2)
               else let st3 = SocketBuffer_pendingWrite socket (buf0 # buffers) (True # frees) tot bytes st2
                    in Some (TCPSOCKET_INTERRUPTED, st3\<lparr>write_pending := slist_append socket (write_pending st3),
                         pending_wset := insert socket (pending_wset st3)\<rparr>)
          else Some (rc, st2)
      })"

definition SocketBuffer_getWrite :: "int \<Rightarrow> net \<Rightarrow> nat option \<times> net" where
  "SocketBuffer_getWrite socket st =
     (case slist_find (\<lambda>pw. pw_socket pw = socket) (writes st) of (i, l) \<Rightarrow> (i, st\<lparr>writes := l\<rparr>))"

definition SocketBuffer_writeComplete :: "int \<Rightarrow> net \<Rightarrow> bool \<times> net" where
  "SocketBuffer_writeComplete socket st =
     (case slist_remove (\<lambda>pw. pw_socket pw = socket) (writes st) of (b, l) \<Rightarrow> (b, st\<lparr>writes := l\<rparr>))"

text \<open>The buffers that are left after \<open>bytes\<close> bytes: a buffer that was begun ends the list.\<close>

fun iovecs_left :: "nat \<Rightarrow> nat \<Rightarrow> byte list list \<Rightarrow> byte list list" where
  "iovecs_left bytes curbuflen [] = []"
| "iovecs_left bytes curbuflen (v # vs) =
     (if bytes \<le> curbuflen then v # iovecs_left bytes (curbuflen + length v) vs
      else if bytes < curbuflen + length v then [drop (bytes - curbuflen) v]
      else iovecs_left bytes (curbuflen + length v) vs)"

definition Socket_continueWrite :: "int \<Rightarrow> net \<Rightarrow> (int \<times> net) option" where
  "Socket_continueWrite socket st =
     (case SocketBuffer_getWrite socket st of (p, st1) \<Rightarrow> do {
        i \<leftarrow> p;
        let pw = fst (writes st1) ! i;
        case Socket_writev socket (iovecs_left (pw_bytes pw) 0 (pw_iovecs pw)) st1 of (rc, bytes, st2) \<Rightarrow>
          if rc \<noteq> SOCKET_ERROR then
            let pw' = pw\<lparr>pw_bytes := pw_bytes pw + bytes\<rparr>;
                st3 = st2\<lparr>writes := ((fst (writes st2))[i := pw'], snd (writes st2))\<rparr>
            in if pw_bytes pw' = pw_total pw'
               then Some (1, st3\<lparr>net_freed := net_freed st3 @ map fst (filter snd (zip (pw_iovecs pw') (pw_frees pw')))\<rparr>)
               else Some (0, st3)
          else Some (rc, st2)
      })"

lemma Socket_writev_frame [frame_simps]:
  "Socket_writev socket iovecs st = (rc, bytes, st') \<Longrightarrow>
     write_pending st' = write_pending st \<and> writes st' = writes st \<and> pending_wset st' = pending_wset st \<and>
     net_freed st' = net_freed st \<and> (\<forall>s. s \<noteq> socket \<longrightarrow> net_out st' s = net_out st s \<and> net_room st' s = net_room st s)"
  by (auto simp: Socket_writev_def split: prod.splits sum.splits)

lemma Socket_continueWrite_frame [frame_simps]:
  "Socket_continueWrite socket st = Some (rc, st') \<Longrightarrow> write_pending st' = write_pending st"
  by (auto simp: Socket_continueWrite_def SocketBuffer_getWrite_def Let_def
      dest!: Socket_writev_frame split: prod.splits bind_splits if_splits)

text \<open>
  The loop of \<open>Socket_continueWrites\<close>. \<open>curpending\<close> is the position of an element of \<open>write_pending\<close>; after a
  removal it is the list's current element, wherever that is. Any result of \<open>Socket_continueWrite\<close> but 0
  ends the pending write. \<open>cb\<close> tells whether a write callback is set.
\<close>

function Socket_continueWrites_loop :: "int set \<Rightarrow> bool \<Rightarrow> nat option \<Rightarrow> net \<Rightarrow> net option" where
  "Socket_continueWrites_loop pwset cb curpending st =
     (case curpending of
        None \<Rightarrow> Some st
      | Some i \<Rightarrow>
          if i < length (fst (write_pending st)) then
            let socket = fst (write_pending st) ! i in
            case (if socket \<in> pwset then Socket_continueWrite socket st else Some (0, st)) of
              None \<Rightarrow> None
            | Some (rc, st1) \<Rightarrow>
                if rc \<noteq> 0 then
                  let st2 = snd (SocketBuffer_writeComplete socket st1);
                      xs = fst (write_pending st1); k = after_remove (length xs) i (snd (write_pending st1));
                      st3 = st2\<lparr>pending_wset := pending_wset st2 - {socket}, write_pending := (remove_nth i xs, k)\<rparr>;
                      st4 = (if cb then st3\<lparr>write_callbacks := write_callbacks st3 @ [socket]\<rparr> else st3)
                  in Socket_continueWrites_loop pwset cb k st4
                else Socket_continueWrites_loop pwset cb (if Suc i < length (fst (write_pending st1)) then Some (Suc i) else None) st1
          else None)"
  by pat_completeness auto
termination
  by (relation "measures [\<lambda>(pwset, cb, cur, st). length (fst (write_pending st)),
      \<lambda>(pwset, cb, cur, st). case cur of None \<Rightarrow> 0 | Some i \<Rightarrow> Suc (length (fst (write_pending st)) - i)]")
    (auto simp: Let_def dest: Socket_continueWrite_frame split: option.splits if_splits)

declare Socket_continueWrites_loop.simps [simp del]

definition Socket_continueWrites :: "int set \<Rightarrow> bool \<Rightarrow> net \<Rightarrow> net option" where
  "Socket_continueWrites pwset cb st =
     Socket_continueWrites_loop pwset cb (if fst (write_pending st) = [] then None else Some 0) st"

section \<open>What is accepted and not yet sent\<close>

definition pw_rest :: "pending_writes \<Rightarrow> byte list" where
  "pw_rest pw = drop (pw_bytes pw) (concat (pw_iovecs pw))"

definition pending :: "int \<Rightarrow> net \<Rightarrow> byte list" where
  "pending s st = concat (map pw_rest (filter (\<lambda>pw. pw_socket pw = s) (fst (writes st))))"

text \<open>The bytes of the accepted packets: sent already, or pending.\<close>

definition queued :: "int \<Rightarrow> net \<Rightarrow> byte list" where
  "queued s st = net_out st s @ pending s st"

definition w_inv :: "net \<Rightarrow> bool" where
  "w_inv st \<longleftrightarrow> slist_wf (write_pending st) \<and> slist_wf (writes st) \<and> distinct (map pw_socket (fst (writes st))) \<and>
     distinct (fst (write_pending st)) \<and> set (fst (write_pending st)) = pw_socket ` set (fst (writes st)) \<and>
     (\<forall>pw \<in> set (fst (writes st)). pw_total pw = length (concat (pw_iovecs pw)) \<and> pw_bytes pw \<le> pw_total pw)"

definition no_write_error :: "net \<Rightarrow> bool" where
  "no_write_error st \<longleftrightarrow> (\<forall>s. \<forall>e. W_fail e \<in> set (net_room st s) \<longrightarrow> e = EAGAIN)"

lemma iovecs_left_prefix:
  "\<exists>more. drop (bytes - cur) (concat vs) = concat (iovecs_left bytes cur vs) @ more"
proof (induction vs arbitrary: cur)
  case (Cons v vs)
  have "drop (bytes - cur - length v) (concat vs) = drop (bytes - (cur + length v)) (concat vs)"
    by simp
  then show ?case
    using Cons [of "cur + length v"] by auto
qed simp

lemma iovecs_left_nonempty:
  "cur \<le> bytes \<Longrightarrow> bytes < cur + length (concat vs) \<Longrightarrow> concat (iovecs_left bytes cur vs) \<noteq> []"
  by (induction vs arbitrary: cur) auto

lemma sys_writev_result:
  "sys_writev n ins = (r, ins') \<Longrightarrow>
     set ins' \<subseteq> set ins \<and> (case r of Inl e \<Rightarrow> e = EAGAIN \<or> W_fail e \<in> set ins | Inr k \<Rightarrow> k \<le> n)"
  by (cases "(n, ins)" rule: sys_writev.cases) auto

lemma writev_spec:
  assumes "Socket_writev s vs st = (rc, n, st')"
  shows "net_out st' = (net_out st)(s := net_out st s @ take n (concat vs))" "n \<le> length (concat vs)"
    "rc = SOCKET_ERROR \<Longrightarrow> n = 0" "no_write_error st \<Longrightarrow> rc \<noteq> SOCKET_ERROR \<and> no_write_error st'"
proof -
  obtain r ins where r: "sys_writev (length (concat vs)) (net_room st s) = (r, ins)"
    by (cases "sys_writev (length (concat vs)) (net_room st s)")
  note res = sys_writev_result [OF r]
  show "net_out st' = (net_out st)(s := net_out st s @ take n (concat vs))" "n \<le> length (concat vs)" "rc = SOCKET_ERROR \<Longrightarrow> n = 0"
    using assms r res by (cases r; auto simp: Socket_writev_def socket_codes)+
  have room: "net_room st' = (net_room st)(s := ins)"
    using assms r by (cases r) (auto simp: Socket_writev_def)
  show "rc \<noteq> SOCKET_ERROR \<and> no_write_error st'" if st: "no_write_error st"
  proof
    have "r = Inl e \<Longrightarrow> e = EAGAIN" for e
      using res st by (auto simp: no_write_error_def)
    then show "rc \<noteq> SOCKET_ERROR"
      using assms r by (cases r) (auto simp: Socket_writev_def socket_codes)
    show "no_write_error st'"
      using st res room by (auto simp: no_write_error_def)
  qed
qed

lemma pending_none: "s \<notin> pw_socket ` set (fst (writes st)) \<Longrightarrow> pending s st = []"
  by (auto simp: pending_def filter_empty_conv)

text \<open>One pending write among those of other sockets.\<close>

lemma filter_one:
  assumes "distinct (map f xs)" "i < length xs"
  shows "filter (\<lambda>x. f x = f (xs ! i)) xs = [xs ! i]" "filter (\<lambda>x. f x = f (xs ! i)) (remove_nth i xs) = []"
proof -
  have split: "xs = take i xs @ xs ! i # drop (Suc i) xs"
    using assms(2) by (rule id_take_nth_drop)
  have "distinct (map f (take i xs) @ f (xs ! i) # map f (drop (Suc i) xs))"
    using assms(1) by (subst (asm) split) simp
  then have "filter (\<lambda>x. f x = f (xs ! i)) (take i xs) = []" "filter (\<lambda>x. f x = f (xs ! i)) (drop (Suc i) xs) = []"
    by (simp_all add: filter_empty_conv) (metis imageI)+
  then show "filter (\<lambda>x. f x = f (xs ! i)) xs = [xs ! i]" "filter (\<lambda>x. f x = f (xs ! i)) (remove_nth i xs) = []"
    using arg_cong [OF split, of "filter (\<lambda>x. f x = f (xs ! i))"] by (simp_all add: remove_nth_def)
qed

lemma filter_others:
  assumes "i < length xs" "f (xs ! i) \<noteq> s" "f y = f (xs ! i)"
  shows "filter (\<lambda>x. f x = s) (xs[i := y]) = filter (\<lambda>x. f x = s) xs" "filter (\<lambda>x. f x = s) (remove_nth i xs) = filter (\<lambda>x. f x = s) xs"
proof -
  have "filter (\<lambda>x. f x = s) xs = filter (\<lambda>x. f x = s) (take i xs) @ filter (\<lambda>x. f x = s) (drop (Suc i) xs)"
    using assms by (subst id_take_nth_drop [of i xs]) auto
  then show "filter (\<lambda>x. f x = s) (xs[i := y]) = filter (\<lambda>x. f x = s) xs" "filter (\<lambda>x. f x = s) (remove_nth i xs) = filter (\<lambda>x. f x = s) xs"
    using assms by (simp_all add: upd_conv_take_nth_drop remove_nth_def)
qed

section \<open>Accepting a packet\<close>

lemma noPendingWrites_spec:
  assumes "w_inv st"
  shows "fst (Socket_noPendingWrites s st) \<longleftrightarrow> s \<notin> set (fst (write_pending st))" "w_inv (snd (Socket_noPendingWrites s st))"
    "writes (snd (Socket_noPendingWrites s st)) = writes st" "net_out (snd (Socket_noPendingWrites s st)) = net_out st"
    "net_room (snd (Socket_noPendingWrites s st)) = net_room st"
    "fst (write_pending (snd (Socket_noPendingWrites s st))) = fst (write_pending st)"
proof -
  have wf: "slist_wf (write_pending st)"
    using assms by (simp add: w_inv_def)
  show "fst (Socket_noPendingWrites s st) \<longleftrightarrow> s \<notin> set (fst (write_pending st))"
    using wf by (auto simp: Socket_noPendingWrites_def slist_find_def find_index_def slist_wf_def first_index_None
        split: option.splits if_splits dest: first_index_Some nth_mem)
  obtain i l where f: "slist_find (\<lambda>x. x = s) (write_pending st) = (i, l)"
    by (cases "slist_find (\<lambda>x. x = s) (write_pending st)")
  have "fst l = fst (write_pending st)" "slist_wf l"
    using f slist_wf_simps(3) [OF wf, of "\<lambda>x. x = s"] by (auto simp: slist_find_def split: option.splits)
  then show "w_inv (snd (Socket_noPendingWrites s st))"
    "fst (write_pending (snd (Socket_noPendingWrites s st))) = fst (write_pending st)"
    using assms f by (auto simp: Socket_noPendingWrites_def w_inv_def)
  show "writes (snd (Socket_noPendingWrites s st)) = writes st" "net_out (snd (Socket_noPendingWrites s st)) = net_out st"
    "net_room (snd (Socket_noPendingWrites s st)) = net_room st"
    by (simp_all add: Socket_noPendingWrites_def split: prod.splits)
qed

lemma putdatas_spec:
  assumes inv: "w_inv st" and size: "length buffers \<le> 4" "length frees = length buffers"
  obtains rc st' where "Socket_putdatas s buf0 buffers frees st = Some (rc, st')" "w_inv st'"
    "\<forall>s'. s' \<noteq> s \<longrightarrow> queued s' st' = queued s' st" "no_write_error st \<longrightarrow> no_write_error st'"
    "rc = TCPSOCKET_COMPLETE \<or> rc = TCPSOCKET_INTERRUPTED \<longrightarrow> s \<notin> set (fst (write_pending st)) \<and> queued s st' = queued s st @ concat (buf0 # buffers)"
    "rc = TCPSOCKET_COMPLETE \<longrightarrow> pending s st' = []" "rc = TCPSOCKET_INTERRUPTED \<longrightarrow> pending s st' \<noteq> []"
    "rc \<noteq> TCPSOCKET_COMPLETE \<longrightarrow> rc \<noteq> TCPSOCKET_INTERRUPTED \<longrightarrow> rc = SOCKET_ERROR \<and> queued s st' = queued s st"
    "no_write_error st \<longrightarrow> s \<notin> set (fst (write_pending st)) \<longrightarrow> rc \<noteq> SOCKET_ERROR"
proof -
  define st1 where "st1 = snd (Socket_noPendingWrites s st)"
  note st1 = noPendingWrites_spec [OF inv, of s, folded st1_def]
  have same: "queued s' st1 = queued s' st" for s'
    by (simp add: queued_def pending_def st1)
  have nw: "no_write_error st1 \<longleftrightarrow> no_write_error st"
    by (simp add: no_write_error_def st1)
  show thesis
  proof (cases "s \<in> set (fst (write_pending st))")
    case True
    then have "Socket_noPendingWrites s st = (False, st1)"
      using st1(1) by (cases "Socket_noPendingWrites s st") (simp add: st1_def)
    then have "Socket_putdatas s buf0 buffers frees st = Some (SOCKET_ERROR, st1)"
      by (simp add: Socket_putdatas_def)
    then show thesis
      using that [of SOCKET_ERROR st1] st1(2) same nw True by (simp add: socket_codes)
  next
    case False
    obtain rc n st2 where w: "Socket_writev s (buf0 # buffers) st1 = (rc, n, st2)"
      by (cases "Socket_writev s (buf0 # buffers) st1") auto
    note fr = Socket_writev_frame [OF w] and sp = writev_spec [OF w]
    have tot: "length buf0 + sum_list (map length buffers) = length (concat (buf0 # buffers))"
      by (simp add: length_concat)
    have inv2: "w_inv st2" and none: "s \<notin> pw_socket ` set (fst (writes st2))"
      using st1(2,3) fr inv False by (simp_all add: w_inv_def)
    have p2: "pending s' st2 = pending s' st" for s'
      using fr st1(3) by (simp add: pending_def)
    have "Socket_noPendingWrites s st = (True, st1)"
      using st1(1) False by (cases "Socket_noPendingWrites s st") (simp add: st1_def)
    then have put: "Socket_putdatas s buf0 buffers frees st =
        (if rc \<noteq> SOCKET_ERROR
         then if n = length (concat (buf0 # buffers)) then Some (TCPSOCKET_COMPLETE, st2)
              else let st3 = SocketBuffer_pendingWrite s (buf0 # buffers) (True # frees) (length (concat (buf0 # buffers))) n st2
                   in Some (TCPSOCKET_INTERRUPTED, st3\<lparr>write_pending := slist_append s (write_pending st3),
                        pending_wset := insert s (pending_wset st3)\<rparr>)
         else Some (rc, st2))"
      using w size tot by (simp add: Socket_putdatas_def Let_def)
    consider "rc = SOCKET_ERROR" | "rc \<noteq> SOCKET_ERROR" "n = length (concat (buf0 # buffers))"
      | "rc \<noteq> SOCKET_ERROR" "n < length (concat (buf0 # buffers))"
      using sp(2) by linarith
    then show thesis
    proof cases
      case 1
      then have "n = 0" "\<not> no_write_error st"
        using sp(3,4) nw by auto
      then show thesis
        using that [of rc st2] put inv2 1 sp(1) p2 st1(4) by (simp add: queued_def socket_codes)
    next
      case 2
      then show thesis
        using that [of TCPSOCKET_COMPLETE st2] put inv2 sp(1,4) p2 st1(4) nw pending_none [OF none] False
        by (simp add: queued_def socket_codes)
    next
      case 3
      define pw where "pw = \<lparr>pw_socket = s, pw_total = length (concat (buf0 # buffers)), pw_bytes = n, pw_iovecs = buf0 # buffers, pw_frees = True # frees\<rparr>"
      define st3 where "st3 = st2\<lparr>writes := slist_append pw (writes st2), write_pending := slist_append s (write_pending st2),
        pending_wset := insert s (pending_wset st2)\<rparr>"
      have res: "Socket_putdatas s buf0 buffers frees st = Some (TCPSOCKET_INTERRUPTED, st3)"
        using put 3 by (simp add: Let_def SocketBuffer_pendingWrite_def st3_def pw_def)
      have inv3: "w_inv st3"
        using inv2 none 3(2) by (auto simp: w_inv_def st3_def slist_append_def pw_def slist_wf_def)
      have p3: "pending s' st3 = pending s' st2 @ (if s' = s then drop n (concat (buf0 # buffers)) else [])" for s'
        by (simp add: pending_def st3_def slist_append_def pw_def pw_rest_def)
      have "queued s' st3 = (if s' = s then queued s st @ concat (buf0 # buffers) else queued s' st)" for s'
        using p3 p2 sp(1) st1(4) pending_none [OF none] by (auto simp: queued_def st3_def simp del: concat.simps)
      moreover have "no_write_error st3 \<longleftrightarrow> no_write_error st2"
        by (simp add: no_write_error_def st3_def)
      moreover have "drop n (concat (buf0 # buffers)) \<noteq> []"
        using 3(2) by (simp del: concat.simps)
      ultimately show thesis
        using that [OF res inv3] p3 [of s] sp(4) nw False by (simp add: socket_codes)
    qed
  qed
qed

section \<open>Continuing\<close>

lemma getWrite_found:
  assumes inv: "w_inv st" and s: "s \<in> set (fst (write_pending st))"
  obtains i where "SocketBuffer_getWrite s st = (Some i, st\<lparr>writes := (fst (writes st), Some i)\<rparr>)"
    "i < length (fst (writes st))" "pw_socket (fst (writes st) ! i) = s"
proof -
  have wf: "slist_wf (writes st)" and mem: "s \<in> pw_socket ` set (fst (writes st))"
    using inv s by (auto simp: w_inv_def)
  have "first_index (\<lambda>pw. pw_socket pw = s) (fst (writes st)) \<noteq> None"
    using mem by (auto simp: first_index_None simp del: not_None_eq)
  then have "find_index (\<lambda>pw. pw_socket pw = s) (fst (writes st)) (snd (writes st)) \<noteq> None"
    by (simp add: find_index_def split: option.split)
  then obtain i where i: "find_index (\<lambda>pw. pw_socket pw = s) (fst (writes st)) (snd (writes st)) = Some i"
    by blast
  from find_index_Some [OF this] show thesis
    using that [of i] wf i by (simp add: SocketBuffer_getWrite_def slist_find_def slist_wf_def)
qed

text \<open>Some more bytes of a pending write are sent.\<close>

lemma advance_write:
  assumes inv: "w_inv st" and i: "i < length (fst (writes st))" and pw: "pw = fst (writes st) ! i" "pw_socket pw = s"
    and n: "n \<le> length (concat (iovecs_left (pw_bytes pw) 0 (pw_iovecs pw)))"
    and st': "writes st' = ((fst (writes st))[i := pw\<lparr>pw_bytes := pw_bytes pw + n\<rparr>], Some i)" "write_pending st' = write_pending st"
  shows "w_inv st'" "map pw_socket (fst (writes st')) = map pw_socket (fst (writes st))"
    "pending s st = take n (concat (iovecs_left (pw_bytes pw) 0 (pw_iovecs pw))) @ pending s st'"
    "s' \<noteq> s \<Longrightarrow> pending s' st' = pending s' st" "pw_bytes pw + n = pw_total pw \<Longrightarrow> pending s st' = []"
proof -
  let ?pw = "pw\<lparr>pw_bytes := pw_bytes pw + n\<rparr>" and ?xs = "fst (writes st)"
  obtain more where more: "pw_rest pw = concat (iovecs_left (pw_bytes pw) 0 (pw_iovecs pw)) @ more"
    using iovecs_left_prefix [of "pw_bytes pw" 0 "pw_iovecs pw"] by (auto simp: pw_rest_def)
  have rest': "pw_rest ?pw = drop n (pw_rest pw)"
    by (simp add: pw_rest_def add.commute)
  have "pw \<in> set ?xs"
    using i by (simp add: pw(1))
  then have total: "pw_total pw = length (concat (pw_iovecs pw))" "pw_bytes pw \<le> pw_total pw"
    using inv unfolding w_inv_def by blast+
  have "length (pw_rest pw) = pw_total pw - pw_bytes pw"
    by (simp add: pw_rest_def total(1))
  then have le: "pw_bytes pw + n \<le> pw_total pw"
    using n more total(2) by simp
  show names: "map pw_socket (fst (writes st')) = map pw_socket ?xs"
    using i by (simp add: st' map_update pw(1) list_update_same_conv [THEN iffD2])
  then have "pw_socket ` set (fst (writes st')) = pw_socket ` set ?xs"
    by (metis list.set_map)
  moreover have "set (fst (writes st')) \<subseteq> insert ?pw (set ?xs)"
    unfolding st' fst_conv by (rule set_update_subset_insert)
  ultimately show "w_inv st'"
    using inv names le total(1) i by (auto simp: w_inv_def st' slist_wf_def)
  have "distinct (map pw_socket ?xs)" "distinct (map pw_socket (?xs[i := ?pw]))"
    using inv names by (simp_all add: w_inv_def st')
  then have "filter (\<lambda>p. pw_socket p = s) ?xs = [pw]" "filter (\<lambda>p. pw_socket p = s) (?xs[i := ?pw]) = [?pw]"
    using filter_one(1) [of pw_socket ?xs i] filter_one(1) [of pw_socket "?xs[i := ?pw]" i] i pw by simp_all
  then have p: "pending s st = pw_rest pw" "pending s st' = drop n (pw_rest pw)"
    by (simp_all add: pending_def st' rest')
  then show "pending s st = take n (concat (iovecs_left (pw_bytes pw) 0 (pw_iovecs pw))) @ pending s st'"
    using n more by simp
  show "pw_bytes pw + n = pw_total pw \<Longrightarrow> pending s st' = []"
    by (simp add: p pw_rest_def total(1))
  show "s' \<noteq> s \<Longrightarrow> pending s' st' = pending s' st"
    using filter_others(1) [of i ?xs pw_socket s' ?pw] i pw by (simp add: pending_def st')
qed

text \<open>
  Continuing the write of a socket that has one: nothing is lost, repeated or reordered. The result 1 means
  that all of it is sent; an error of the socket leaves everything as it is.
\<close>

lemma continueWrite_spec:
  assumes inv: "w_inv st" and s: "s \<in> set (fst (write_pending st))"
  obtains rc st' where "Socket_continueWrite s st = Some (rc, st')" "w_inv st'" "write_pending st' = write_pending st"
    "map pw_socket (fst (writes st')) = map pw_socket (fst (writes st))"
    "\<forall>s'. queued s' st' = queued s' st" "no_write_error st \<longrightarrow> no_write_error st' \<and> rc \<noteq> SOCKET_ERROR"
    "rc = 0 \<or> rc = 1 \<and> pending s st' = [] \<or> rc = SOCKET_ERROR"
proof -
  obtain i where i: "SocketBuffer_getWrite s st = (Some i, st\<lparr>writes := (fst (writes st), Some i)\<rparr>)"
    "i < length (fst (writes st))" "pw_socket (fst (writes st) ! i) = s"
    using getWrite_found [OF inv s] .
  define pw where "pw = fst (writes st) ! i"
  define st1 where "st1 = st\<lparr>writes := (fst (writes st), Some i)\<rparr>"
  obtain rc n st2 where w: "Socket_writev s (iovecs_left (pw_bytes pw) 0 (pw_iovecs pw)) st1 = (rc, n, st2)"
    by (cases "Socket_writev s (iovecs_left (pw_bytes pw) 0 (pw_iovecs pw)) st1") auto
  note fr = Socket_writev_frame [OF w] and sp = writev_spec [OF w]
  define pw' where "pw' = pw\<lparr>pw_bytes := pw_bytes pw + n\<rparr>"
  define st3 where "st3 = st2\<lparr>writes := ((fst (writes st))[i := pw'], Some i)\<rparr>"
  define st4 where "st4 = st3\<lparr>net_freed := net_freed st3 @ map fst (filter snd (zip (pw_iovecs pw') (pw_frees pw')))\<rparr>"
  have cont: "Socket_continueWrite s st =
      (if rc \<noteq> SOCKET_ERROR then if pw_bytes pw' = pw_total pw' then Some (1, st4) else Some (0, st3) else Some (rc, st2))"
    using w fr i by (simp add: Socket_continueWrite_def Let_def st1_def pw_def pw'_def st3_def st4_def)
  have st3: "writes st3 = ((fst (writes st))[i := pw\<lparr>pw_bytes := pw_bytes pw + n\<rparr>], Some i)" "write_pending st3 = write_pending st"
    using fr by (simp_all add: st3_def pw'_def st1_def)
  have pw: "pw_socket pw = s"
    using i(3) by (simp add: pw_def)
  note adv = advance_write [OF inv i(2) pw_def pw sp(2) st3]
  have q: "queued s' st3 = queued s' st" for s'
    using adv(3,4) sp(1) by (cases "s' = s") (auto simp: queued_def st3_def st1_def)
  have frame: "queued s' st4 = queued s' st3" "pending s' st4 = pending s' st3" "w_inv st4 = w_inv st3" "writes st4 = writes st3"
    "write_pending st4 = write_pending st3" "no_write_error st3 = no_write_error st2" "no_write_error st4 = no_write_error st2"
    "no_write_error st1 = no_write_error st" for s'
    by (simp_all add: queued_def pending_def w_inv_def no_write_error_def st4_def st3_def st1_def)
  show thesis
  proof (cases "rc = SOCKET_ERROR")
    case True
    then have "n = 0" "w_inv st2" "\<not> no_write_error st"
      using sp(3,4) inv fr i(2) frame(8) by (auto simp: w_inv_def st1_def slist_wf_def)
    then show thesis
      using that [of rc st2] cont True fr sp(1) by (simp add: queued_def pending_def st1_def)
  next
    case False
    then have nw: "no_write_error st \<Longrightarrow> no_write_error st2"
      using sp(4) frame(8) by simp
    show thesis
    proof (cases "pw_bytes pw' = pw_total pw'")
      case True
      then have "pending s st3 = []"
        using adv(5) by (simp add: pw'_def)
      then show thesis
        using that [of 1 st4] cont False True adv(1,2) q frame nw st3(2) by (simp add: socket_codes)
    next
      case unfinished: False
      then show thesis
        using that [of 0 st3] cont False adv(1,2) q frame nw st3(2) by (simp add: socket_codes)
    qed
  qed
qed

text \<open>A pending write that is taken off the lists.\<close>

lemma set_remove_distinct: "distinct xs \<Longrightarrow> i < length xs \<Longrightarrow> set (remove_nth i xs) = set xs - {xs ! i}"
proof -
  assume d: "distinct xs" "i < length xs"
  have split: "xs = take i xs @ xs ! i # drop (Suc i) xs"
    using d(2) by (rule id_take_nth_drop)
  have "distinct (take i xs @ xs ! i # drop (Suc i) xs)"
    using d(1) split by simp
  moreover have "set xs = set (take i xs @ xs ! i # drop (Suc i) xs)"
    using split by simp
  ultimately show ?thesis
    by (auto simp: remove_nth_def)
qed

definition finish_write :: "nat \<Rightarrow> int \<Rightarrow> bool \<Rightarrow> net \<Rightarrow> net" where
  "finish_write i socket cb st1 =
     (let st2 = snd (SocketBuffer_writeComplete socket st1);
          xs = fst (write_pending st1); k = after_remove (length xs) i (snd (write_pending st1));
          st3 = st2\<lparr>pending_wset := pending_wset st2 - {socket}, write_pending := (remove_nth i xs, k)\<rparr>
      in if cb then st3\<lparr>write_callbacks := write_callbacks st3 @ [socket]\<rparr> else st3)"

lemma finish_write_spec:
  assumes inv: "w_inv st" and i: "i < length (fst (write_pending st))" "fst (write_pending st) ! i = s"
  shows "w_inv (finish_write i s cb st)" "net_out (finish_write i s cb st) = net_out st" "net_room (finish_write i s cb st) = net_room st"
    "s' \<noteq> s \<Longrightarrow> pending s' (finish_write i s cb st) = pending s' st" "pending s (finish_write i s cb st) = []"
    "write_pending (finish_write i s cb st) =
       (remove_nth i (fst (write_pending st)), after_remove (length (fst (write_pending st))) i (snd (write_pending st)))"
proof -
  obtain j where j: "find_index (\<lambda>pw. pw_socket pw = s) (fst (writes st)) (snd (writes st)) = Some j"
  proof -
    have "s \<in> set (fst (write_pending st))"
      using i nth_mem by metis
    then obtain k where "SocketBuffer_getWrite s st = (Some k, st\<lparr>writes := (fst (writes st), Some k)\<rparr>)"
      using getWrite_found [OF inv] by metis
    then show thesis
      using that by (auto simp: SocketBuffer_getWrite_def slist_find_def split: option.splits prod.splits)
  qed
  have wf: "slist_wf (writes st)" "distinct (map pw_socket (fst (writes st)))" "distinct (fst (write_pending st))"
    "set (fst (write_pending st)) = pw_socket ` set (fst (writes st))" "slist_wf (write_pending st)"
    using inv by (simp_all add: w_inv_def)
  from find_index_Some [OF j] have jl: "j < length (fst (writes st))" "pw_socket (fst (writes st) ! j) = s"
    using wf(1) by (auto simp: slist_wf_def)
  let ?st = "finish_write i s cb st" and ?ws = "fst (writes st)"
  have st: "writes ?st = (remove_nth j ?ws, after_remove (length ?ws) j (snd (writes st)))" "net_out ?st = net_out st"
    "write_pending ?st = (remove_nth i (fst (write_pending st)), after_remove (length (fst (write_pending st))) i (snd (write_pending st)))"
    "net_room ?st = net_room st"
    using j by (simp_all add: finish_write_def SocketBuffer_writeComplete_def slist_remove_def Let_def)
  have names: "pw_socket ` set (remove_nth j ?ws) = pw_socket ` set ?ws - {s}"
    using set_remove_distinct [OF wf(2), of j] jl by (simp flip: map_remove_nth)
  have "slist_wf (remove_nth j ?ws, after_remove (length ?ws) j (snd (writes st)))" "slist_wf (write_pending ?st)"
    using after_remove_less [of "snd (writes st)" "length ?ws" j] jl(1) wf(1)
      after_remove_less [of "snd (write_pending st)" "length (fst (write_pending st))" i] i(1) wf(5)
    by (simp_all add: slist_wf_def st(3))
  then show "w_inv ?st"
    using inv wf names jl(1) i set_remove_nth [of j ?ws] distinct_remove_nth [OF wf(2), of j]
      distinct_remove_nth [OF wf(3), of i] set_remove_distinct [OF wf(3) i(1)]
    by (auto simp: w_inv_def st map_remove_nth)
  show "net_out ?st = net_out st" "net_room ?st = net_room st" "write_pending ?st =
      (remove_nth i (fst (write_pending st)), after_remove (length (fst (write_pending st))) i (snd (write_pending st)))"
    by (fact st)+
  show "s' \<noteq> s \<Longrightarrow> pending s' ?st = pending s' st"
    using filter_others(2) [of j ?ws pw_socket s' "?ws ! j"] jl by (simp add: pending_def st)
  show "pending s ?st = []"
    using filter_one(2) [OF wf(2) jl(1)] jl(2) by (simp add: pending_def st)
qed

lemma continueWrites_loop_eq:
  "Socket_continueWrites_loop pwset cb curpending st =
     (case curpending of
        None \<Rightarrow> Some st
      | Some i \<Rightarrow>
          if i < length (fst (write_pending st)) then
            (case (if fst (write_pending st) ! i \<in> pwset then Socket_continueWrite (fst (write_pending st) ! i) st else Some (0, st)) of
              None \<Rightarrow> None
            | Some (rc, st1) \<Rightarrow>
                if rc \<noteq> 0 then Socket_continueWrites_loop pwset cb
                  (snd (write_pending (finish_write i (fst (write_pending st) ! i) cb st1))) (finish_write i (fst (write_pending st) ! i) cb st1)
                else Socket_continueWrites_loop pwset cb (if Suc i < length (fst (write_pending st1)) then Some (Suc i) else None) st1)
          else None)"
  by (subst Socket_continueWrites_loop.simps) (simp add: finish_write_def Let_def split: option.split prod.split)

lemma continueWrites_loop_spec:
  assumes "w_inv st" "no_write_error st" "\<forall>i. cur = Some i \<longrightarrow> i < length (fst (write_pending st))"
  shows "\<exists>st'. Socket_continueWrites_loop pwset cb cur st = Some st' \<and> w_inv st' \<and> no_write_error st' \<and>
    (\<forall>s. queued s st' = queued s st)"
  using assms
proof (induction "(length (fst (write_pending st)), case cur of None \<Rightarrow> 0 | Some i \<Rightarrow> Suc (length (fst (write_pending st)) - i))"
    arbitrary: st cur rule: wf_induct_rule [OF wf_lex_prod [OF wf_less wf_less]])
  case less: 1
  show ?case
  proof (cases cur)
    case None
    then show ?thesis
      using less.prems by (subst continueWrites_loop_eq) auto
  next
    case (Some i)
    let ?s = "fst (write_pending st) ! i"
    have i: "i < length (fst (write_pending st))"
      using less.prems(3) Some by simp
    obtain rc st1 where c: "(if ?s \<in> pwset then Socket_continueWrite ?s st else Some (0, st)) = Some (rc, st1)" "w_inv st1"
      "write_pending st1 = write_pending st" "\<And>s'. queued s' st1 = queued s' st" "no_write_error st1"
      "rc = 0 \<or> pending ?s st1 = []"
    proof (cases "?s \<in> pwset")
      case True
      obtain rc st1 where "Socket_continueWrite ?s st = Some (rc, st1)" "w_inv st1" "write_pending st1 = write_pending st"
        "map pw_socket (fst (writes st1)) = map pw_socket (fst (writes st))" "\<forall>s'. queued s' st1 = queued s' st" "no_write_error st \<longrightarrow> no_write_error st1 \<and> rc \<noteq> SOCKET_ERROR"
        "rc = 0 \<or> rc = 1 \<and> pending ?s st1 = [] \<or> rc = SOCKET_ERROR"
        by (rule continueWrite_spec [OF less.prems(1) nth_mem [OF i]])
      then show thesis
        using that [of rc st1] True less.prems(2) by auto
    qed (use that [of 0 st] less.prems in auto)
    show ?thesis
    proof (cases "rc = 0")
      case True
      let ?cur = "if Suc i < length (fst (write_pending st1)) then Some (Suc i) else None"
      have "((length (fst (write_pending st1)), case ?cur of None \<Rightarrow> 0 | Some i \<Rightarrow> Suc (length (fst (write_pending st1)) - i)),
          (length (fst (write_pending st)), case cur of None \<Rightarrow> 0 | Some i \<Rightarrow> Suc (length (fst (write_pending st)) - i)))
        \<in> {(x, y). x < y} <*lex*> {(x, y). x < y}"
        using c(3) i Some by auto
      note IH = less.hyps [OF this c(2,5)]
      have "\<forall>j. ?cur = Some j \<longrightarrow> j < length (fst (write_pending st1))"
        by simp
      from IH [OF this] obtain st' where "Socket_continueWrites_loop pwset cb ?cur st1 = Some st'" "w_inv st'" "no_write_error st'"
        "\<forall>s. queued s st' = queued s st1"
        by blast
      moreover have "Socket_continueWrites_loop pwset cb cur st = Socket_continueWrites_loop pwset cb ?cur st1"
        unfolding Some by (subst continueWrites_loop_eq) (simp only: option.case prod.case c(1) True i if_True simp_thms if_False)
      ultimately show ?thesis
        by (intro exI [of _ st']) (simp only: c(4) simp_thms)
    next
      case False
      let ?st = "finish_write i ?s cb st1"
      have i1: "i < length (fst (write_pending st1))" "fst (write_pending st1) ! i = ?s"
        using i c(3) by simp_all
      note fin = finish_write_spec [OF c(2) i1, where cb = cb]
      have "queued s' ?st = queued s' st" for s'
        using fin(2,4,5) c(4) [of s'] c(6) False by (cases "s' = ?s") (simp_all add: queued_def)
      moreover have "no_write_error ?st"
        using c(5) fin(3) by (simp add: no_write_error_def)
      moreover have "length (fst (write_pending ?st)) < length (fst (write_pending st))"
        using fin(6) i c(3) by auto
      then have "((length (fst (write_pending ?st)), case snd (write_pending ?st) of None \<Rightarrow> 0 | Some i \<Rightarrow> Suc (length (fst (write_pending ?st)) - i)),
          (length (fst (write_pending st)), case cur of None \<Rightarrow> 0 | Some i \<Rightarrow> Suc (length (fst (write_pending st)) - i)))
        \<in> {(x, y). x < y} <*lex*> {(x, y). x < y}"
        by simp
      note IH = less.hyps [OF this fin(1)]
      moreover have "\<forall>j. snd (write_pending ?st) = Some j \<longrightarrow> j < length (fst (write_pending ?st))"
        using fin(1) by (simp add: w_inv_def slist_wf_def)
      moreover have "Socket_continueWrites_loop pwset cb cur st = Socket_continueWrites_loop pwset cb (snd (write_pending ?st)) ?st"
        unfolding Some by (subst continueWrites_loop_eq) (simp only: option.case prod.case c(1) False i if_True simp_thms if_False)
      ultimately show ?thesis
        by simp
    qed
  qed
qed

section \<open>Properties\<close>

text \<open>
  The calls of the module that write: a packet to send, and the continuation of the pending writes whose
  sockets \<open>select\<close> reported. The packets that were accepted are those whose call did not return an error.
\<close>

datatype write_op = Put int "byte list" "byte list list" "bool list" | Continue "int set" bool

fun write_op_fits :: "write_op \<Rightarrow> bool" where
  "write_op_fits (Put s buf0 buffers frees) \<longleftrightarrow> length buffers \<le> 4 \<and> length frees = length buffers"
| "write_op_fits (Continue pwset cb) \<longleftrightarrow> True"

fun exec_writes :: "write_op list \<Rightarrow> net \<Rightarrow> ((int \<times> byte list) list \<times> net) option" where
  "exec_writes [] st = Some ([], st)"
| "exec_writes (Put s buf0 buffers frees # ops) st = do {
     (rc, st1) \<leftarrow> Socket_putdatas s buf0 buffers frees st;
     (acc, st2) \<leftarrow> exec_writes ops st1;
     Some (if rc \<noteq> SOCKET_ERROR then (s, concat (buf0 # buffers)) # acc else acc, st2)
   }"
| "exec_writes (Continue pwset cb # ops) st = do { st1 \<leftarrow> Socket_continueWrites pwset cb st; exec_writes ops st1 }"

definition accepted :: "int \<Rightarrow> (int \<times> byte list) list \<Rightarrow> byte list" where
  "accepted s acc = concat (map snd (filter (\<lambda>(s', p). s' = s) acc))"

lemma exec_writes_spec:
  assumes "w_inv st" "no_write_error st" "list_all write_op_fits ops"
  shows "\<exists>acc st'. exec_writes ops st = Some (acc, st') \<and> w_inv st' \<and> (\<forall>s. queued s st' = queued s st @ accepted s acc)"
  using assms
proof (induction ops arbitrary: st)
  case Nil
  then show ?case
    by (simp add: accepted_def)
next
  case (Cons p ops)
  show ?case
  proof (cases p)
    case (Put s buf0 buffers frees)
    have "length buffers \<le> 4" "length frees = length buffers"
      using Cons.prems(3) Put by simp_all
    from putdatas_spec [OF Cons.prems(1) this] obtain rc st1 where put: "Socket_putdatas s buf0 buffers frees st = Some (rc, st1)" "w_inv st1"
      "\<forall>s'. s' \<noteq> s \<longrightarrow> queued s' st1 = queued s' st" "no_write_error st \<longrightarrow> no_write_error st1"
      "rc = TCPSOCKET_COMPLETE \<or> rc = TCPSOCKET_INTERRUPTED \<longrightarrow> s \<notin> set (fst (write_pending st)) \<and> queued s st1 = queued s st @ concat (buf0 # buffers)"
      "rc = TCPSOCKET_COMPLETE \<longrightarrow> pending s st1 = []" "rc = TCPSOCKET_INTERRUPTED \<longrightarrow> pending s st1 \<noteq> []"
      "rc \<noteq> TCPSOCKET_COMPLETE \<longrightarrow> rc \<noteq> TCPSOCKET_INTERRUPTED \<longrightarrow> rc = SOCKET_ERROR \<and> queued s st1 = queued s st"
      "no_write_error st \<longrightarrow> s \<notin> set (fst (write_pending st)) \<longrightarrow> rc \<noteq> SOCKET_ERROR"
      by blast
    have q: "queued s' st1 = queued s' st @ (if s' = s \<and> rc \<noteq> SOCKET_ERROR then concat (buf0 # buffers) else [])" for s'
      using put(3,5,8) by (cases "rc = TCPSOCKET_COMPLETE \<or> rc = TCPSOCKET_INTERRUPTED") (auto simp: socket_codes)
    note st1 = put(1,2) put(4) [rule_format, OF Cons.prems(2)]
    have "list_all write_op_fits ops"
      using Cons.prems(3) by simp
    with Cons.IH [OF st1(2,3)] obtain acc st2 where "exec_writes ops st1 = Some (acc, st2)" "w_inv st2"
      "\<forall>s. queued s st2 = queued s st1 @ accepted s acc"
      by blast
    then show ?thesis
      using Put st1(1) q by (auto simp: accepted_def)
  next
    case (Continue pwset cb)
    obtain st1 where st1: "Socket_continueWrites pwset cb st = Some st1" "w_inv st1" "no_write_error st1" "\<forall>s. queued s st1 = queued s st"
    proof -
      have "\<forall>i. (if fst (write_pending st) = [] then None else Some 0) = Some i \<longrightarrow> i < length (fst (write_pending st))"
        by simp
      from continueWrites_loop_spec [OF Cons.prems(1,2) this, of pwset cb] show thesis
        using that unfolding Socket_continueWrites_def by blast
    qed
    moreover have "list_all write_op_fits ops"
      using Cons.prems(3) by simp
    with Cons.IH [OF st1(2,3)] obtain acc st2 where "exec_writes ops st1 = Some (acc, st2)" "w_inv st2"
      "\<forall>s. queued s st2 = queued s st1 @ accepted s acc"
      by blast
    ultimately show ?thesis
      using Continue by auto
  qed
qed

text \<open>
  C13: packets are sent completely, once and in order. Take any sequence of packets to send on any sockets and of
  continuations, and let every \<open>writev\<close> take as many bytes as it likes or would block, but not fail. The code is
  defined, and for every socket the bytes sent so far, followed by the bytes still pending, are the accepted
  packets one after another: no packet is mixed with another, and no byte is lost or repeated.
\<close>

theorem writes_in_order:
  assumes "w_inv st" "no_write_error st" "list_all write_op_fits ops" "\<forall>s. net_out st s = [] \<and> pending s st = []"
  shows "\<exists>acc st'. exec_writes ops st = Some (acc, st') \<and> w_inv st' \<and>
    (\<forall>s. net_out st' s @ pending s st' = accepted s acc)"
  using exec_writes_spec [OF assms(1-3)] assms(4) by (simp add: queued_def)

definition demo_net :: net where
  "demo_net = \<lparr>def_queue = new_def_queue, queues = ([], None), net_in = (\<lambda>_. []), write_pending = ([], None), writes = ([], None),
     pending_wset = {}, net_room = (\<lambda>_. [Room 3, Room 1, Room 9]), net_out = (\<lambda>_. []), net_freed = [], write_callbacks = [],
     persistence = (\<lambda>_. Some None), persisted = [], now = 0, last_sent = (\<lambda>_. 0), last_received = (\<lambda>_. 0)\<rparr>"

lemma demo_net_facts:
  "w_inv demo_net" "no_write_error demo_net" "net_out demo_net s = [] \<and> pending s demo_net = []"
  by (simp_all add: demo_net_def w_inv_def no_write_error_def pending_def)

theorem writes_in_order_witness:
  "\<exists>acc st'. exec_writes [Put 5 [1, 2] [[3, 4], [5]] [False, True], Put 5 [6] [] [], Continue {5} True] demo_net = Some (acc, st') \<and>
     w_inv st' \<and> (\<forall>s. net_out st' s @ pending s st' = accepted s acc)"
  using writes_in_order [of demo_net "[Put 5 [1, 2] [[3, 4], [5]] [False, True], Put 5 [6] [] [], Continue {5} True]"]
  by (simp add: demo_net_facts)

text \<open>
  An error while a pending write is continued counts as its completion. \<open>Socket_continueWrite\<close> returns -1, the
  caller tests for non-zero only: it removes the pending write with the bytes that were not sent, calls the write
  callback, and does not free the packet's buffers.
\<close>

theorem write_error_completes:
  assumes "write_pending st = ([s], k)" "writes st = ([pw], k')" "pw_socket pw = s" "slist_wf (write_pending st)" "slist_wf (writes st)"
    and "s \<in> pwset" "net_room st s = W_fail e # room" "e \<noteq> EAGAIN"
  shows "\<exists>st'. Socket_continueWrites pwset True st = Some st' \<and> net_out st' = net_out st \<and> pending s st' = [] \<and>
    fst (write_pending st') = [] \<and> write_callbacks st' = write_callbacks st @ [s] \<and> net_freed st' = net_freed st"
proof -
  have k: "k = None \<or> k = Some 0" "k' = None \<or> k' = Some 0"
    using assms(1,2,4,5) by (cases k; cases k'; simp add: slist_wf_def)+
  define st1 where "st1 = st\<lparr>writes := ([pw], Some 0), net_room := (net_room st)(s := room)\<rparr>"
  have "Socket_continueWrite s st = Some (SOCKET_ERROR, st1)"
    using assms k(2) by (auto simp: Socket_continueWrite_def SocketBuffer_getWrite_def slist_find_def find_index_def
        Socket_writev_def EWOULDBLOCK_def Let_def st1_def)
  moreover have "Socket_continueWrites_loop pwset True None st' = Some st'" for st'
    by (subst continueWrites_loop_eq) simp
  moreover have "finish_write 0 s True st1 = st1\<lparr>writes := ([], None), pending_wset := pending_wset st - {s},
      write_pending := ([], None), write_callbacks := write_callbacks st @ [s]\<rparr>"
    using assms(1,3) k(1) by (auto simp: finish_write_def SocketBuffer_writeComplete_def slist_remove_def find_index_def st1_def
        remove_nth_def after_remove_def shift_down_def)
  ultimately have "Socket_continueWrites pwset True st = Some (st1\<lparr>writes := ([], None), pending_wset := pending_wset st - {s},
      write_pending := ([], None), write_callbacks := write_callbacks st @ [s]\<rparr>)"
    unfolding Socket_continueWrites_def using assms(1,6) by (subst continueWrites_loop_eq) (simp add: SOCKET_ERROR_def)
  then show ?thesis
    by (simp add: pending_def st1_def)
qed

definition demo_broken :: net where
  "demo_broken = demo_net\<lparr>write_pending := ([5], None), net_room := (\<lambda>_. [W_fail 104]),
     writes := ([\<lparr>pw_socket = 5, pw_total = 3, pw_bytes = 1, pw_iovecs = [[1, 2, 3]], pw_frees = [True]\<rparr>], None)\<rparr>"

theorem write_error_completes_witness:
  "pending 5 demo_broken = [2, 3] \<and>
   (\<exists>st'. Socket_continueWrites {5} True demo_broken = Some st' \<and> net_out st' = net_out demo_broken \<and> pending 5 st' = [] \<and>
    fst (write_pending st') = [] \<and> write_callbacks st' = write_callbacks demo_broken @ [5] \<and> net_freed st' = net_freed demo_broken)"
proof -
  have "pending 5 demo_broken = [2, 3]"
    by (simp add: pending_def demo_broken_def pw_rest_def)
  then show ?thesis
    using write_error_completes [of demo_broken 5 None _ None "{5}" 104 "[]"]
    by (simp add: demo_broken_def slist_wf_def EAGAIN_def)
qed

end
