(* ===== verification/Mqtt_Packet.thy ===== *)
theory Mqtt_Packet
  imports Mqtt_Write "HOL-Library.Signed_Division"
begin

unbundle bit_operations_syntax

text \<open>
  The packets of the MQTT client library, \<^verbatim>\<open>MQTTPacket.c\<close> and \<^verbatim>\<open>MQTTPacketOut.c\<close>: the header byte, the
  variable-length encoding of the remaining length, reading and writing integers and strings, building packets
  from received data, and the functions that send packets.
\<close>

section \<open>The header byte\<close>

definition BAD_MQTT_PACKET :: int where
  "BAD_MQTT_PACKET = -4"

text \<open>\<open>enum msgTypes\<close>.\<close>

definition CONNECT :: int where "CONNECT = 1"
definition CONNACK :: int where "CONNACK = 2"
definition PUBLISH :: int where "PUBLISH = 3"
definition PUBACK :: int where "PUBACK = 4"
definition PUBREC :: int where "PUBREC = 5"
definition PUBREL :: int where "PUBREL = 6"
definition PUBCOMP :: int where "PUBCOMP = 7"
definition SUBSCRIBE :: int where "SUBSCRIBE = 8"
definition SUBACK :: int where "SUBACK = 9"
definition UNSUBSCRIBE :: int where "UNSUBSCRIBE = 10"
definition UNSUBACK :: int where "UNSUBACK = 11"
definition PINGREQ :: int where "PINGREQ = 12"
definition PINGRESP :: int where "PINGRESP = 13"
definition DISCONNECT :: int where "DISCONNECT = 14"

lemmas msgTypes = CONNECT_def CONNACK_def PUBLISH_def PUBACK_def PUBREC_def PUBREL_def PUBCOMP_def SUBSCRIBE_def
  SUBACK_def UNSUBSCRIBE_def UNSUBACK_def PINGREQ_def PINGRESP_def DISCONNECT_def

text \<open>
  The union \<open>Header\<close>: a byte whose bit fields are, from the lowest bit, \<open>retain\<close> (1 bit), \<open>qos\<close> (2), \<open>dup\<close> (1) and
  \<open>type\<close> (4). Assigning to a bit field keeps the lowest bits of the value.
\<close>

definition bits_get :: "nat \<Rightarrow> nat \<Rightarrow> byte \<Rightarrow> int" where
  "bits_get pos len h = uint (take_bit len (drop_bit pos h))"

definition bits_set :: "nat \<Rightarrow> nat \<Rightarrow> int \<Rightarrow> byte \<Rightarrow> byte" where
  "bits_set pos len v h = (h AND NOT (push_bit pos (mask len))) OR push_bit pos (take_bit len (of_int v))"

definition h_retain :: "byte \<Rightarrow> int" where "h_retain = bits_get 0 1"
definition h_qos :: "byte \<Rightarrow> int" where "h_qos = bits_get 1 2"
definition h_dup :: "byte \<Rightarrow> int" where "h_dup = bits_get 3 1"
definition h_type :: "byte \<Rightarrow> int" where "h_type = bits_get 4 4"

definition set_retain :: "int \<Rightarrow> byte \<Rightarrow> byte" where "set_retain = bits_set 0 1"
definition set_qos :: "int \<Rightarrow> byte \<Rightarrow> byte" where "set_qos = bits_set 1 2"
definition set_dup :: "int \<Rightarrow> byte \<Rightarrow> byte" where "set_dup = bits_set 3 1"
definition set_type :: "int \<Rightarrow> byte \<Rightarrow> byte" where "set_type = bits_set 4 4"

section \<open>The remaining length\<close>

text \<open>
  \<open>MQTTPacket_encode\<close>: the bytes stored in the buffer. Division and remainder are those of C, which round towards
  zero.
\<close>

function MQTTPacket_encode :: "int \<Rightarrow> byte list" where
  "MQTTPacket_encode len =
     (let d = of_int (len smod 128); len' = len sdiv 128
      in if len' > 0 then (d OR 0x80) # MQTTPacket_encode len' else [d])"
  by pat_completeness auto
termination
  by (relation "measure nat") (auto simp: signed_divide_int_def sgn_if split: if_splits)

declare MQTTPacket_encode.simps [simp del]

text \<open>
  \<open>MQTTPacket_decode\<close>: \<open>n\<close> is how many more bytes may be read, \<open>MAX_NO_OF_REMAINING_LENGTH_BYTES\<close> at first. The results
  are the completion code and the value.
\<close>

fun MQTTPacket_decode_loop :: "nat \<Rightarrow> int \<Rightarrow> nat \<Rightarrow> nat \<Rightarrow> byte \<Rightarrow> 'a sockets_scheme \<Rightarrow> (int \<times> nat \<times> 'a sockets_scheme) option" where
  "MQTTPacket_decode_loop 0 socket multiplier val c st = Some (SOCKET_ERROR, val, st)"
| "MQTTPacket_decode_loop (Suc n) socket multiplier val c st = do {
     (rc, c', st') \<leftarrow> Socket_getch socket c st;
     if rc \<noteq> TCPSOCKET_COMPLETE then Some (rc, val, st')
     else let val' = val + unat (c' AND 127) * multiplier
          in if c' AND 128 \<noteq> 0 then MQTTPacket_decode_loop n socket (multiplier * 128) val' c' st'
             else Some (rc, val', st')
   }"

definition MQTTPacket_decode :: "int \<Rightarrow> 'a sockets_scheme \<Rightarrow> (int \<times> nat \<times> 'a sockets_scheme) option" where
  "MQTTPacket_decode socket st = MQTTPacket_decode_loop 4 socket 1 0 0 st"

section \<open>Reading from a buffer\<close>

text \<open>A pointer into a buffer is an offset. Each function returns the value and the pointer behind it.\<close>

definition readInt :: "mem \<Rightarrow> nat \<Rightarrow> (int \<times> nat) option" where
  "readInt buf ptr = do {
     a \<leftarrow> fetch buf ptr;
     b \<leftarrow> fetch buf (ptr + 1);
     Some (256 * uint a + uint b, ptr + 2)
   }"

definition readChar :: "mem \<Rightarrow> nat \<Rightarrow> (byte \<times> nat) option" where
  "readChar buf ptr = do { c \<leftarrow> fetch buf ptr; Some (c, ptr + 1) }"

definition mem_read :: "nat \<Rightarrow> nat \<Rightarrow> mem \<Rightarrow> byte list option" where
  "mem_read off n buf = (if off + n \<le> length buf then those (take n (drop off buf)) else None)"

text \<open>
  \<open>readUTFlen\<close> returns the string that it allocates, without its NUL, or \<open>None\<close> for NULL, the value of \<open>*len\<close> (which it
  may leave as it was) and the pointer.
\<close>

definition readUTFlen :: "mem \<Rightarrow> nat \<Rightarrow> nat \<Rightarrow> int \<Rightarrow> (byte list option \<times> int \<times> nat) option" where
  "readUTFlen buf ptr enddata len =
     (if int enddata - int ptr > 1 then do {
        (len', ptr') \<leftarrow> readInt buf ptr;
        if int ptr' + len' \<le> int enddata then do {
          string \<leftarrow> mem_read ptr' (nat len') buf;
          Some (Some string, len', ptr' + nat len')
        }
        else Some (None, len', ptr')
      }
      else Some (None, len, ptr))"

section \<open>Received packets\<close>

text \<open>
  The structures the packet functions build. The payload of a \<open>Publish\<close> points into the receive buffer: here it is the
  memory from there on.
\<close>

record Publish =
  pub_header :: byte
  pub_topic :: "byte list"
  pub_topiclen :: int
  pub_msgId :: int
  pub_payload :: mem
  pub_payloadlen :: int

datatype packet =
    Connack byte byte int
  | Publish_packet Publish
  | Ack byte int
  | Suback byte int "int list"
  | Header_only byte

definition MQTTPacket_header_only :: "byte \<Rightarrow> mem \<Rightarrow> nat \<Rightarrow> packet option option" where
  "MQTTPacket_header_only aHeader data datalen = Some (Some (Header_only aHeader))"

definition MQTTPacket_publish :: "byte \<Rightarrow> mem \<Rightarrow> nat \<Rightarrow> packet option option" where
  "MQTTPacket_publish aHeader data datalen = do {
     (topic, topiclen, curdata) \<leftarrow> readUTFlen data 0 datalen 0;
     case topic of
       None \<Rightarrow> Some None
     | Some t \<Rightarrow> do {
         (msgId, curdata') \<leftarrow> (if h_qos aHeader > 0 then readInt data curdata else Some (0, curdata));
         Some (Some (Publish_packet \<lparr>pub_header = aHeader, pub_topic = t, pub_topiclen = topiclen, pub_msgId = msgId,
           pub_payload = drop curdata' data, pub_payloadlen = int datalen - int curdata'\<rparr>))
       }
   }"

definition MQTTPacket_ack :: "byte \<Rightarrow> mem \<Rightarrow> nat \<Rightarrow> packet option option" where
  "MQTTPacket_ack aHeader data datalen = do { (msgId, _) \<leftarrow> readInt data 0; Some (Some (Ack aHeader msgId)) }"

definition MQTTPacket_connack :: "byte \<Rightarrow> mem \<Rightarrow> nat \<Rightarrow> packet option option" where
  "MQTTPacket_connack aHeader data datalen = do {
     (flags, curdata) \<leftarrow> readChar data 0;
     (rc, _) \<leftarrow> readChar data curdata;
     Some (Some (Connack aHeader flags (sint rc)))
   }"

function MQTTPacket_suback_loop :: "mem \<Rightarrow> nat \<Rightarrow> nat \<Rightarrow> int list option" where
  "MQTTPacket_suback_loop data datalen curdata =
     (if curdata < datalen then do {
        (c, curdata') \<leftarrow> readChar data curdata;
        qoss \<leftarrow> MQTTPacket_suback_loop data datalen (curdata + 1);
        Some (uint c # qoss)
      }
      else Some [])"
  by pat_completeness auto
termination
  by (relation "measure (\<lambda>(data, datalen, curdata). datalen - curdata)") auto

declare MQTTPacket_suback_loop.simps [simp del]

definition MQTTPacket_suback :: "byte \<Rightarrow> mem \<Rightarrow> nat \<Rightarrow> packet option option" where
  "MQTTPacket_suback aHeader data datalen = do {
     (msgId, curdata) \<leftarrow> readInt data 0;
     qoss \<leftarrow> MQTTPacket_suback_loop data datalen curdata;
     Some (Some (Suback aHeader msgId qoss))
   }"

text \<open>The table \<open>new_packets\<close>, indexed by the packet type.\<close>

definition new_packets :: "(byte \<Rightarrow> mem \<Rightarrow> nat \<Rightarrow> packet option option) option list" where
  "new_packets = [None, None, Some MQTTPacket_connack, Some MQTTPacket_publish, Some MQTTPacket_ack, Some MQTTPacket_ack,
     Some MQTTPacket_ack, Some MQTTPacket_ack, None, Some MQTTPacket_suback, None, Some MQTTPacket_ack,
     Some MQTTPacket_header_only, Some MQTTPacket_header_only, Some MQTTPacket_header_only]"

section \<open>Persistence\<close>

definition PERSISTENCE_PUBLISH_SENT :: string where "PERSISTENCE_PUBLISH_SENT = ''s-''"
definition PERSISTENCE_PUBREL :: string where "PERSISTENCE_PUBREL = ''sc-''"
definition PERSISTENCE_PUBLISH_RECEIVED :: string where "PERSISTENCE_PUBLISH_RECEIVED = ''r-''"

text \<open>
  \<open>MQTTPersistence_put\<close> with the message's direction \<open>scr\<close>: 0 for sending, 1 for receiving. The store itself is a set of
  functions that the application supplies; their \<open>pput\<close> gets the key and the buffers.
\<close>

definition MQTTPersistence_put :: "int \<Rightarrow> byte list list \<Rightarrow> int \<Rightarrow> int \<Rightarrow> int \<Rightarrow> net \<Rightarrow> (int \<times> net) option" where
  "MQTTPersistence_put socket bufs htype msgId scr st = do {
     client \<leftarrow> persistence st socket;
     case client of
       None \<Rightarrow> Some (0, st)
     | Some pput \<Rightarrow> do {
         key \<leftarrow> (if scr = 1 then Some (PERSISTENCE_PUBLISH_RECEIVED @ dec_of_int msgId)
                else if scr = 0 \<and> htype = PUBREL then Some (PERSISTENCE_PUBREL @ dec_of_int msgId)
                else if scr = 0 \<and> htype = PUBLISH then Some (PERSISTENCE_PUBLISH_SENT @ dec_of_int msgId)
                else None);
         Some (pput key bufs, st\<lparr>persisted := persisted st @ [(socket, key, bufs)]\<rparr>)
       }
   }"

section \<open>Receiving a packet\<close>

text \<open>\<open>MQTTPacket_Factory\<close>: the packet, \<open>None\<close> for NULL, the error code and the state.\<close>

definition MQTTPacket_Factory :: "int \<Rightarrow> net \<Rightarrow> (packet option \<times> int \<times> net) option" where
  "MQTTPacket_Factory socket st = do {
     (error1, header, st1) \<leftarrow> Socket_getch socket 0 st;
     if error1 \<noteq> TCPSOCKET_COMPLETE then Some (None, error1, st1)
     else do {
       (error2, remaining_length, st2) \<leftarrow> MQTTPacket_decode socket st1;
       if error2 \<noteq> TCPSOCKET_COMPLETE then Some (None, error2, st2)
       else do {
         (data, actual_len, st3) \<leftarrow> Socket_getdata socket remaining_length 0 st2;
         case data of
           None \<Rightarrow> Some (None, SOCKET_ERROR, st3)
         | Some buf \<Rightarrow>
             if actual_len \<noteq> remaining_length then Some (None, TCPSOCKET_INTERRUPTED, st3)
             else (let ptype = h_type header in
               if ptype < CONNECT \<or> ptype > DISCONNECT \<or> new_packets ! nat ptype = None then Some (None, error2, st3)
               else do {
                 pack \<leftarrow> the (new_packets ! nat ptype) header buf remaining_length;
                 case pack of
                   None \<Rightarrow> Some (None, BAD_MQTT_PACKET, st3)
                 | Some p \<Rightarrow> do {
                     (error3, st4) \<leftarrow> (if h_type header = PUBLISH \<and> h_qos header = 2 then do {
                         bytes \<leftarrow> mem_read 0 remaining_length buf;
                         MQTTPersistence_put socket [header # MQTTPacket_encode (int remaining_length), bytes] (h_type header)
                           (case p of Publish_packet pub \<Rightarrow> pub_msgId pub | _ \<Rightarrow> 0) 1 st3
                       } else Some (error2, st3));
                     Some (Some p, error3, st4\<lparr>last_received := (last_received st4)(socket := now st4)\<rparr>)
                   }
               })
       }
     }
   }"

section \<open>Frames\<close>

text \<open>
  The specification of receiving: a stream of bytes is a sequence of frames, each with a header byte, a remaining length in
  at most four bytes, and that many bytes of data. A stream may end in an unfinished frame (\<open>More\<close>); a fifth byte of
  length is an error (\<open>Bad\<close>).
\<close>

datatype 'a progress = More | Bad | Got 'a

fun rem_len :: "nat \<Rightarrow> nat \<Rightarrow> nat \<Rightarrow> byte list \<Rightarrow> (nat \<times> byte list) progress" where
  "rem_len 0 m v bs = Bad"
| "rem_len (Suc n) m v [] = More"
| "rem_len (Suc n) m v (b # bs) =
     (let v' = v + unat (b AND 127) * m
      in if b AND 128 \<noteq> 0 then rem_len n (m * 128) v' bs else Got (v', bs))"

fun frame :: "byte list \<Rightarrow> (byte \<times> byte list \<times> byte list) progress" where
  "frame [] = More"
| "frame (h # bs) =
     (case rem_len 4 1 0 bs of
        More \<Rightarrow> More
      | Bad \<Rightarrow> Bad
      | Got (n, rest) \<Rightarrow> if length rest < n then More else Got (h, take n rest, drop n rest))"

lemma rem_len_append:
  "rem_len n m v bs = Got (k, r) \<Longrightarrow> rem_len n m v (bs @ xs) = Got (k, r @ xs)"
  "rem_len n m v bs = Bad \<Longrightarrow> rem_len n m v (bs @ xs) = Bad"
  by (induction n m v bs rule: rem_len.induct) (auto simp: Let_def)

lemma rem_len_length: "rem_len n m v bs = Got (k, r) \<Longrightarrow> length r < length bs"
  by (induction n m v bs rule: rem_len.induct) (auto simp: Let_def split: if_splits)

lemma frame_shorter: "frame bs = Got (h, b, r) \<Longrightarrow> length r < length bs"
  by (cases bs) (auto simp: less_Suc_eq_le dest!: rem_len_length split: progress.splits prod.splits if_splits)

text \<open>The data of a frame as a packet, read from memory that holds these bytes only.\<close>

definition build :: "byte \<Rightarrow> mem \<Rightarrow> nat \<Rightarrow> packet option option" where
  "build h buf n =
     (let ptype = h_type h
      in if ptype < CONNECT \<or> ptype > DISCONNECT \<or> new_packets ! nat ptype = None then Some None
         else the (new_packets ! nat ptype) h buf n)"

definition parse :: "byte \<Rightarrow> byte list \<Rightarrow> packet option option" where
  "parse h b = build h (map Some b) (length b)"

text \<open>A packet as its user sees it: of the payload, only the bytes of its length.\<close>

fun view :: "packet \<Rightarrow> packet" where
  "view (Publish_packet p) = Publish_packet (p\<lparr>pub_payload := take (nat (pub_payloadlen p)) (pub_payload p)\<rparr>)"
| "view p = p"

section \<open>Reading does not depend on the memory behind\<close>

definition extends :: "mem \<Rightarrow> mem \<Rightarrow> bool" where
  "extends big small \<longleftrightarrow> take (length small) big = small"

lemma extends_length: "extends big small \<Longrightarrow> length small \<le> length big"
  unfolding extends_def by (metis length_take min.cobounded1)

lemma extends_fetch: "extends big small \<Longrightarrow> fetch small i = Some v \<Longrightarrow> fetch big i = Some v"
  using extends_length [of big small] nth_take [of i "length small" big] by (auto simp: fetch_def load_def extends_def split: if_splits)

lemma extends_mem_read:
  assumes "extends big small" "mem_read off n small = Some bs"
  shows "mem_read off n big = Some bs"
proof -
  have le: "off + n \<le> length small" and bs: "those (take n (drop off small)) = Some bs"
    using assms(2) by (simp_all add: mem_read_def split: if_splits)
  have "take n (drop off small) = take n (drop off (take (length small) big))"
    using assms(1) by (simp add: extends_def)
  also have "\<dots> = take n (drop off big)"
    using le by (simp add: drop_take)
  finally show ?thesis
    using le bs extends_length [OF assms(1)] by (simp add: mem_read_def)
qed

text \<open>What is defined for the smaller memory has the same result for the larger one.\<close>

definition le_opt :: "'a option \<Rightarrow> 'a option \<Rightarrow> bool" where
  "le_opt a b \<longleftrightarrow> (\<forall>x. a = Some x \<longrightarrow> b = Some x)"

lemma le_opt_refl: "le_opt a a"
  by (simp add: le_opt_def)

lemma le_opt_bind: "le_opt a b \<Longrightarrow> (\<And>x. le_opt (f x) (g x)) \<Longrightarrow> le_opt (a \<bind> f) (b \<bind> g)"
  by (cases a) (auto simp: le_opt_def)

lemma le_opt_if: "(P \<Longrightarrow> le_opt a b) \<Longrightarrow> (\<not> P \<Longrightarrow> le_opt c d) \<Longrightarrow> le_opt (if P then a else c) (if P then b else d)"
  by simp

lemma le_opt_prod: "(\<And>x y. le_opt (f x y) (g x y)) \<Longrightarrow> le_opt (case p of (x, y) \<Rightarrow> f x y) (case p of (x, y) \<Rightarrow> g x y)"
  by (cases p) simp

lemma le_opt_case: "le_opt a b \<Longrightarrow> (\<And>x. le_opt (f x) (g x)) \<Longrightarrow> le_opt (case m of None \<Rightarrow> a | Some x \<Rightarrow> f x) (case m of None \<Rightarrow> b | Some x \<Rightarrow> g x)"
  by (cases m) simp_all

lemmas le_opt_intros = le_opt_bind le_opt_if le_opt_prod le_opt_case

lemma le_opt_fetch: "extends big small \<Longrightarrow> le_opt (fetch small i) (fetch big i)"
  by (simp add: le_opt_def extends_fetch)

lemma le_opt_mem_read: "extends big small \<Longrightarrow> le_opt (mem_read off n small) (mem_read off n big)"
  by (simp add: le_opt_def extends_mem_read)

lemma le_opt_readInt: "extends big small \<Longrightarrow> le_opt (readInt small p) (readInt big p)"
  unfolding readInt_def by (intro le_opt_intros le_opt_fetch le_opt_refl)

lemma le_opt_readChar: "extends big small \<Longrightarrow> le_opt (readChar small p) (readChar big p)"
  unfolding readChar_def by (intro le_opt_intros le_opt_fetch le_opt_refl)

lemma le_opt_readUTFlen: "extends big small \<Longrightarrow> le_opt (readUTFlen small p e l) (readUTFlen big p e l)"
  unfolding readUTFlen_def by (intro le_opt_intros le_opt_readInt le_opt_mem_read le_opt_refl)

lemma le_opt_suback_loop: "extends big small \<Longrightarrow> le_opt (MQTTPacket_suback_loop small n p) (MQTTPacket_suback_loop big n p)"
proof (induction "n - p" arbitrary: p)
  case 0
  then show ?case
    by (simp add: MQTTPacket_suback_loop.simps [of _ n p] le_opt_refl)
next
  case (Suc k)
  then have "le_opt (MQTTPacket_suback_loop small n (p + 1)) (MQTTPacket_suback_loop big n (p + 1))"
    by simp
  then show ?case
    unfolding MQTTPacket_suback_loop.simps [of _ n p]
    by (intro le_opt_intros le_opt_readChar Suc.prems le_opt_refl)
qed

text \<open>
  The payload of a publication lies at the end of the data, so the user sees the same packet.
\<close>

lemma publish_extends:
  assumes "extends buf (map Some b)" "MQTTPacket_publish h (map Some b) (length b) = Some r"
  shows "\<exists>r'. MQTTPacket_publish h buf (length b) = Some r' \<and> map_option view r' = map_option view r"
proof -
  obtain topic topiclen cur where t: "readUTFlen (map Some b) 0 (length b) 0 = Some (topic, topiclen, cur)"
    using assms(2) by (auto simp: MQTTPacket_publish_def split: bind_splits)
  then have t': "readUTFlen buf 0 (length b) 0 = Some (topic, topiclen, cur)"
    using le_opt_readUTFlen [OF assms(1), of 0 "length b" 0] by (simp add: le_opt_def)
  show ?thesis
  proof (cases topic)
    case None
    then show ?thesis
      using assms(2) t t' by (simp add: MQTTPacket_publish_def)
  next
    case (Some tp)
    obtain msgId cur' where m: "(if h_qos h > 0 then readInt (map Some b) cur else Some (0, cur)) = Some (msgId, cur')"
      using assms(2) t Some by (cases "if h_qos h > 0 then readInt (map Some b) cur else Some (0, cur)")
        (auto simp: MQTTPacket_publish_def)
    then have m': "(if h_qos h > 0 then readInt buf cur else Some (0, cur)) = Some (msgId, cur')"
      using le_opt_readInt [OF assms(1), of cur] by (simp add: le_opt_def split: if_splits)
    have "take (length b) buf = map Some b"
      using assms(1) by (simp add: extends_def)
    then have "take (length b - cur') (drop cur' buf) = drop cur' (map Some b)"
      by (metis drop_take)
    moreover have "nat (int (length b) - int cur') = length b - cur'"
      by simp
    ultimately show ?thesis
      using assms(2) t t' Some m m' by (auto simp: MQTTPacket_publish_def)
  qed
qed

lemma build_extends:
  assumes "extends buf (map Some b)" "parse h b = Some r"
  shows "\<exists>r'. build h buf (length b) = Some r' \<and> map_option view r' = map_option view r"
proof (cases "h_type h < CONNECT \<or> h_type h > DISCONNECT \<or> new_packets ! nat (h_type h) = None")
  case True
  then show ?thesis
    using assms(2) by (simp add: parse_def build_def Let_def)
next
  case False
  then obtain f where f: "new_packets ! nat (h_type h) = Some f" "1 \<le> h_type h" "h_type h \<le> 14"
    by (auto simp: msgTypes)
  have "nat (h_type h) < length new_packets"
    using f by (simp add: new_packets_def)
  then have "Some f \<in> set new_packets"
    using f(1) nth_mem by metis
  then consider "f = MQTTPacket_publish" | "f = MQTTPacket_connack" | "f = MQTTPacket_ack" | "f = MQTTPacket_suback" | "f = MQTTPacket_header_only"
    by (auto simp: new_packets_def)
  then have "\<exists>r'. f h buf (length b) = Some r' \<and> map_option view r' = map_option view r"
  proof cases
    case 1
    then show ?thesis
      using assms f False publish_extends [OF assms(1)] by (simp add: parse_def build_def Let_def)
  next
    case 2
    have "le_opt (MQTTPacket_connack h (map Some b) (length b)) (MQTTPacket_connack h buf (length b))"
      unfolding MQTTPacket_connack_def by (intro le_opt_intros le_opt_readChar le_opt_refl assms(1))
    with 2 show ?thesis
      using assms(2) f False by (simp add: parse_def build_def Let_def le_opt_def)
  next
    case 3
    have "le_opt (MQTTPacket_ack h (map Some b) (length b)) (MQTTPacket_ack h buf (length b))"
      unfolding MQTTPacket_ack_def by (intro le_opt_intros le_opt_readInt le_opt_refl assms(1))
    with 3 show ?thesis
      using assms(2) f False by (simp add: parse_def build_def Let_def le_opt_def)
  next
    case 4
    have "le_opt (MQTTPacket_suback h (map Some b) (length b)) (MQTTPacket_suback h buf (length b))"
      unfolding MQTTPacket_suback_def by (intro le_opt_intros le_opt_readInt le_opt_suback_loop le_opt_refl assms(1))
    with 4 show ?thesis
      using assms(2) f False by (simp add: parse_def build_def Let_def le_opt_def)
  next
    case 5
    then show ?thesis
      using assms(2) f False by (simp add: parse_def build_def Let_def MQTTPacket_header_only_def)
  qed
  then show ?thesis
    using f False by (simp add: build_def Let_def)
qed

section \<open>What arrives\<close>

text \<open>A connection that neither breaks nor ends: the bytes that will arrive, and a bound on how often nothing is there.\<close>

fun avail :: "recv_in list \<Rightarrow> byte list" where
  "avail [] = []"
| "avail (Avail bs # ins) = bs @ avail ins"
| "avail (_ # ins) = avail ins"

fun clean :: "recv_in list \<Rightarrow> bool" where
  "clean [] \<longleftrightarrow> True"
| "clean (Avail _ # ins) \<longleftrightarrow> clean ins"
| "clean (Again # ins) \<longleftrightarrow> clean ins"
| "clean (_ # ins) \<longleftrightarrow> False"

fun in_size :: "recv_in list \<Rightarrow> nat" where
  "in_size [] = 0"
| "in_size (Avail bs # ins) = Suc (length bs + in_size ins)"
| "in_size (_ # ins) = Suc (in_size ins)"

lemma sys_recv_clean:
  assumes "clean ins" "0 < n" "sys_recv n ins = (r, ins')"
  shows "clean ins' \<and>
    (r = Inl EAGAIN \<and> avail ins' = avail ins \<and> (ins = [] \<and> ins' = [] \<or> in_size ins' < in_size ins) \<or>
     (\<exists>b bs. r = Inr (b # bs) \<and> length (b # bs) \<le> n \<and> avail ins = b # bs @ avail ins' \<and> in_size ins' < in_size ins))"
  using assms
proof (induction n ins arbitrary: r ins' rule: sys_recv.induct)
  case (2 n bs ins)
  show ?case
  proof (cases bs)
    case Nil
    then show ?thesis
      using 2 by fastforce
  next
    case (Cons b bs')
    then obtain n' where n: "n = Suc n'"
      using 2 by (cases n) auto
    then show ?thesis
      using 2 Cons by (auto split: if_splits)
  qed
qed auto

lemma getch_clean:
  assumes "reading s hs [] [] st" "length hs \<le> 4" "clean (net_in st s)"
  shows "\<exists>rc c' st'. Socket_getch s c st = Some (rc, c', st') \<and> others_same s st st' \<and> clean (net_in st' s) \<and>
    (rc = TCPSOCKET_INTERRUPTED \<and> between st' \<and> kept s hs [] st' \<and> avail (net_in st' s) = avail (net_in st s) \<and>
       (net_in st s = [] \<and> net_in st' s = [] \<or> in_size (net_in st' s) < in_size (net_in st s)) \<or>
     rc = TCPSOCKET_COMPLETE \<and> reading s (hs @ [c']) [] [] st' \<and> avail (net_in st s) = c' # avail (net_in st' s) \<and>
       in_size (net_in st' s) < in_size (net_in st s))"
proof -
  obtain r ins where r: "sys_recv 1 (net_in st s) = (r, ins)"
    by (cases "sys_recv 1 (net_in st s)")
  obtain rc c' st' where g: "Socket_getch s c st = Some (rc, c', st')" "others_same s st st'" "net_in st' s = ins"
    "case r of
       Inl e \<Rightarrow> if e = EAGAIN then rc = TCPSOCKET_INTERRUPTED \<and> between st' \<and> kept s hs [] st' else rc = SOCKET_ERROR
     | Inr [] \<Rightarrow> rc = SOCKET_ERROR
     | Inr (b # _) \<Rightarrow> rc = TCPSOCKET_COMPLETE \<and> c' = b \<and> reading s (hs @ [b]) [] [] st'"
    using getch_recv [OF assms(1,2) r, of c] by blast
  from sys_recv_clean [OF assms(3) _ r] show ?thesis
    using g by auto
qed

section \<open>Reading the length\<close>

definition length_known :: "nat \<Rightarrow> nat \<Rightarrow> nat \<Rightarrow> byte list \<Rightarrow> byte list \<Rightarrow> bool" where
  "length_known n m v us ds \<longleftrightarrow> ds = [] \<and> (us = [] \<or> rem_len n m v us = More) \<or> (\<exists>k. rem_len n m v us = Got (k, []))"

text \<open>
  What a run of the loop achieves: it reads exactly the bytes \<open>ls\<close> of the length, those that are kept and those that
  arrive; it is interrupted only when they are not all there yet.
\<close>

definition decoded :: "int \<Rightarrow> nat \<Rightarrow> nat \<Rightarrow> nat \<Rightarrow> byte list \<Rightarrow> byte list \<Rightarrow> byte list \<Rightarrow> 'a sockets_scheme \<Rightarrow> int \<times> nat \<times> 'a sockets_scheme \<Rightarrow> bool" where
  "decoded s n m v hs us ds st res \<longleftrightarrow> (case res of (rc, val, st') \<Rightarrow> others_same s st st' \<and> clean (net_in st' s) \<and>
    (rc = SOCKET_ERROR \<and> rem_len n m v (us @ avail (net_in st s)) = Bad \<or>
     (\<exists>ls. us @ avail (net_in st s) = ls @ avail (net_in st' s) \<and>
       (rc = TCPSOCKET_COMPLETE \<and> reading s (hs @ ls) [] ds st' \<and> rem_len n m v ls = Got (val, []) \<and>
          (ds \<noteq> [] \<longrightarrow> us = ls) \<and> in_size (net_in st' s) \<le> in_size (net_in st s) \<or>
        rc = TCPSOCKET_INTERRUPTED \<and> ds = [] \<and> between st' \<and> kept s (hs @ ls) [] st' \<and> rem_len n m v ls = More \<and>
          (net_in st s = [] \<and> net_in st' s = [] \<or> in_size (net_in st' s) < in_size (net_in st s))))))"

lemma decoded_step:
  assumes res: "decoded s n (m * 128) (v + unat (c AND 127) * m) (hs @ [c]) us' ds st1 res" and c: "c AND 128 \<noteq> 0"
    and st1: "others_same s st st1" "us @ avail (net_in st s) = c # us' @ avail (net_in st1 s)"
      "us = c # us' \<and> net_in st1 s = net_in st s \<or> us = [] \<and> us' = [] \<and> ds = [] \<and> in_size (net_in st1 s) < in_size (net_in st s)"
  shows "decoded s (Suc n) m v hs us ds st res"
proof -
  obtain rc val st2 where r: "res = (rc, val, st2)"
    by (cases res)
  have rl: "rem_len (Suc n) m v (c # xs) = rem_len n (m * 128) (v + unat (c AND 127) * m) xs" for xs
    using c by (simp add: Let_def)
  have same: "others_same s st st2" "clean (net_in st2 s)"
    using res r others_same_trans [OF st1(1)] by (auto simp: decoded_def)
  consider (bad) "rc = SOCKET_ERROR" "rem_len n (m * 128) (v + unat (c AND 127) * m) (us' @ avail (net_in st1 s)) = Bad"
    | (complete) ls where "us' @ avail (net_in st1 s) = ls @ avail (net_in st2 s)" "rc = TCPSOCKET_COMPLETE" "reading s (hs @ c # ls) [] ds st2"
      "rem_len n (m * 128) (v + unat (c AND 127) * m) ls = Got (val, [])" "ds \<noteq> [] \<longrightarrow> us' = ls" "in_size (net_in st2 s) \<le> in_size (net_in st1 s)"
    | (halted) ls where "us' @ avail (net_in st1 s) = ls @ avail (net_in st2 s)" "rc = TCPSOCKET_INTERRUPTED" "ds = []" "between st2"
      "kept s (hs @ c # ls) [] st2" "rem_len n (m * 128) (v + unat (c AND 127) * m) ls = More"
      "net_in st1 s = [] \<and> net_in st2 s = [] \<or> in_size (net_in st2 s) < in_size (net_in st1 s)"
    using res unfolding r decoded_def by auto
  then show ?thesis
  proof cases
    case bad
    then show ?thesis
      using same r rl [of "us' @ avail (net_in st1 s)"] st1(2) by (simp add: decoded_def del: rem_len.simps)
  next
    case (complete ls)
    then have "us @ avail (net_in st s) = (c # ls) @ avail (net_in st2 s)" "ds \<noteq> [] \<longrightarrow> us = c # ls"
      "in_size (net_in st2 s) \<le> in_size (net_in st s)"
      using st1(2,3) by auto
    then show ?thesis
      using same complete r rl [of ls] unfolding decoded_def by (auto intro!: exI [of _ "c # ls"] simp del: rem_len.simps)
  next
    case (halted ls)
    have "us @ avail (net_in st s) = (c # ls) @ avail (net_in st2 s)"
      using st1(2) halted(1) by simp
    moreover have "net_in st s = [] \<and> net_in st2 s = [] \<or> in_size (net_in st2 s) < in_size (net_in st s)"
      using halted(7) st1(3) by auto
    ultimately show ?thesis
      using same halted(2-6) r rl [of ls] unfolding decoded_def by (auto intro!: exI [of _ "c # ls"] simp del: rem_len.simps)
  qed
qed

lemma decode_loop_frames:
  assumes "reading s hs us ds st" "hs \<noteq> []" "length hs + n = 5" "clean (net_in st s)" "length_known n m v us ds"
  shows "\<exists>res. MQTTPacket_decode_loop n s m v c st = Some res \<and> decoded s n m v hs us ds st res"
  using assms
proof (induction n arbitrary: hs us m v c st)
  case 0
  then show ?case
    by (simp add: decoded_def)
next
  case (Suc n)
  obtain rc c' st1 us' where g: "Socket_getch s c st = Some (rc, c', st1)" "others_same s st st1" "clean (net_in st1 s)"
    and cases: "rc = TCPSOCKET_INTERRUPTED \<and> us = [] \<and> ds = [] \<and> between st1 \<and> kept s hs [] st1 \<and> avail (net_in st1 s) = avail (net_in st s) \<and>
        (net_in st s = [] \<and> net_in st1 s = [] \<or> in_size (net_in st1 s) < in_size (net_in st s)) \<or>
      rc = TCPSOCKET_COMPLETE \<and> reading s (hs @ [c']) us' ds st1 \<and> us @ avail (net_in st s) = c' # us' @ avail (net_in st1 s) \<and>
        (us = c' # us' \<and> net_in st1 s = net_in st s \<or> us = [] \<and> us' = [] \<and> ds = [] \<and> in_size (net_in st1 s) < in_size (net_in st s))"
  proof (cases us)
    case Nil
    then have "ds = []"
      using Suc.prems(5) by (auto simp: length_known_def)
    with Nil getch_clean [of s hs st c] Suc.prems show thesis
      using that [of _ _ _ "[]"] by (auto 4 4)
  next
    case (Cons u us')
    with getch_kept [of s hs u us' ds st c] Suc.prems show thesis
      using that [of TCPSOCKET_COMPLETE u _ us'] by auto
  qed
  show ?case
  proof (cases "rc = TCPSOCKET_INTERRUPTED")
    case True
    then have "MQTTPacket_decode_loop (Suc n) s m v c st = Some (rc, v, st1)"
      using g(1) by (simp add: socket_codes)
    then show ?thesis
      using True cases g(2,3) by (auto simp: socket_codes decoded_def intro!: exI [of _ "[]"])
  next
    case False
    let ?v = "v + unat (c' AND 127) * m"
    have c: "rc = TCPSOCKET_COMPLETE" "reading s (hs @ [c']) us' ds st1" "us @ avail (net_in st s) = c' # us' @ avail (net_in st1 s)"
      "us = c' # us' \<and> net_in st1 s = net_in st s \<or> us = [] \<and> us' = [] \<and> ds = [] \<and> in_size (net_in st1 s) < in_size (net_in st s)"
      using False cases by auto
    have rl: "rem_len (Suc n) m v (c' # xs) = (if c' AND 128 \<noteq> 0 then rem_len n (m * 128) ?v xs else Got (?v, xs))" for xs
      by (simp add: Let_def)
    show ?thesis
    proof (cases "c' AND 128 = 0")
      case True
      then have "us' = []"
        using c(4) Suc.prems(5) rl [of us'] by (auto simp: length_known_def)
      then show ?thesis
        using True g c rl [of "[]"] by (auto simp: Let_def decoded_def intro!: exI [of _ "[c']"])
    next
      case more: False
      then have "length_known n (m * 128) ?v us' ds"
        using c(4) Suc.prems(5) rl [of us'] by (auto simp: length_known_def)
      then obtain res where res: "MQTTPacket_decode_loop n s (m * 128) ?v c' st1 = Some res"
        "decoded s n (m * 128) ?v (hs @ [c']) us' ds st1 res"
        using Suc.IH [OF c(2) _ _ g(3), of "m * 128" ?v c'] Suc.prems(3) by auto
      then show ?thesis
        using g c(1) more decoded_step [OF res(2) more g(2) c(3,4)] by (simp add: Let_def)
    qed
  qed
qed

section \<open>One call of the packet reader\<close>

text \<open>Reading changes nothing but the queues and the input.\<close>

lemma find_queue_more: "find_queue s st = (p, st') \<Longrightarrow> sockets.more st' = sockets.more st"
  by (auto simp: find_queue_def split: prod.splits)

lemma set_queue_more [simp]: "sockets.more (set_queue p q st) = sockets.more st"
  by (simp add: set_queue_def split: option.split)

lemma interrupted_more [simp]: "sockets.more (SocketBuffer_interrupted s n st) = sockets.more st"
  by (auto simp: SocketBuffer_interrupted_def SocketBuffer_newDefQ_def Let_def dest!: find_queue_more split: prod.splits if_splits)

lemma complete_more [simp]: "sockets.more (SocketBuffer_complete s st) = sockets.more st"
  by (auto simp: SocketBuffer_complete_def Let_def dest!: find_queue_more split: prod.splits option.splits)

lemma recv_more: "recv s n st = (r, st') \<Longrightarrow> sockets.more st' = sockets.more st"
  by (auto simp: recv_def split: prod.splits)

lemma queueChar_more: "SocketBuffer_queueChar s c st = Some st' \<Longrightarrow> sockets.more st' = sockets.more st"
  by (auto simp: SocketBuffer_queueChar_def Let_def dest!: find_queue_more split: prod.splits if_splits bind_splits)

lemma getQueuedChar_more: "SocketBuffer_getQueuedChar s c st = Some (rc, c', st') \<Longrightarrow> sockets.more st' = sockets.more st"
  by (auto simp: SocketBuffer_getQueuedChar_def Let_def dest!: find_queue_more split: prod.splits if_splits bind_splits)

lemma getQueuedData_more: "SocketBuffer_getQueuedData s n st = Some (len, p, st') \<Longrightarrow> sockets.more st' = sockets.more st"
  by (auto simp: SocketBuffer_getQueuedData_def Let_def dest!: find_queue_more split: prod.splits if_splits)

lemma getch_more: "Socket_getch s c st = Some (rc, c', st') \<Longrightarrow> sockets.more st' = sockets.more st"
  by (auto simp: Socket_getch_def dest!: getQueuedChar_more recv_more queueChar_more
      split: prod.splits if_splits bind_splits sum.splits list.splits)

lemma decode_loop_more: "MQTTPacket_decode_loop n s m v c st = Some (rc, val, st') \<Longrightarrow> sockets.more st' = sockets.more st"
proof (induction n s m v c st arbitrary: rc val st' rule: MQTTPacket_decode_loop.induct)
  case (2 n s m v c st)
  from 2(2) obtain rc1 c1 st1 where g: "Socket_getch s c st = Some (rc1, c1, st1)"
    by (auto split: bind_splits)
  then show ?case
    using 2(1) [OF g refl refl] 2(2) getch_more [OF g] by (auto simp: Let_def split: if_splits)
qed simp

lemma getdata_more: "Socket_getdata s n a st = Some (data, len, st') \<Longrightarrow> sockets.more st' = sockets.more st"
  by (auto simp: Socket_getdata_def Let_def dest!: getQueuedData_more recv_more split: prod.splits if_splits bind_splits)

lemma net_more: "sockets.more st' = sockets.more (st :: net) \<Longrightarrow> persistence st' = persistence st"
  by (cases st; cases st') simp

text \<open>What is kept between two calls is the beginning of a frame.\<close>

definition kept_ok :: "byte list \<Rightarrow> byte list \<Rightarrow> bool" where
  "kept_ok hs ds \<longleftrightarrow>
     (case hs of
        [] \<Rightarrow> ds = []
      | h # ls \<Rightarrow> rem_len 4 1 0 ls = More \<and> ds = [] \<or> (\<exists>k. rem_len 4 1 0 ls = Got (k, []) \<and> length ds < k))"

definition parse_rc :: "byte \<Rightarrow> byte list \<Rightarrow> int" where
  "parse_rc h b =
     (if parse h b = Some None \<and> \<not> (h_type h < CONNECT \<or> h_type h > DISCONNECT \<or> new_packets ! nat (h_type h) = None)
      then BAD_MQTT_PACKET else TCPSOCKET_COMPLETE)"

text \<open>The end of the function, with the data in the buffer.\<close>

definition factory_end :: "int \<Rightarrow> byte \<Rightarrow> nat \<Rightarrow> mem \<Rightarrow> net \<Rightarrow> (packet option \<times> int \<times> net) option" where
  "factory_end socket header remaining_length buf st3 =
     (let ptype = h_type header in
      if ptype < CONNECT \<or> ptype > DISCONNECT \<or> new_packets ! nat ptype = None then Some (None, TCPSOCKET_COMPLETE, st3)
      else do {
        pack \<leftarrow> the (new_packets ! nat ptype) header buf remaining_length;
        case pack of
          None \<Rightarrow> Some (None, BAD_MQTT_PACKET, st3)
        | Some p \<Rightarrow> do {
            (error3, st4) \<leftarrow> (if h_type header = PUBLISH \<and> h_qos header = 2 then do {
                bytes \<leftarrow> mem_read 0 remaining_length buf;
                MQTTPersistence_put socket [header # MQTTPacket_encode (int remaining_length), bytes] (h_type header)
                  (case p of Publish_packet pub \<Rightarrow> pub_msgId pub | _ \<Rightarrow> 0) 1 st3
              } else Some (TCPSOCKET_COMPLETE, st3));
            Some (Some p, error3, st4\<lparr>last_received := (last_received st4)(socket := now st4)\<rparr>)
          }
      })"

lemma mem_read_extends: "extends buf (map Some b) \<Longrightarrow> mem_read 0 (length b) buf = Some b"
proof (rule extends_mem_read)
  have "those (map Some b) = Some b"
    by (induction b) auto
  then show "mem_read 0 (length b) (map Some b) = Some b"
    by (simp add: mem_read_def)
qed

lemma factory_end_parse:
  assumes buf: "extends buf (map Some b)" and p: "parse h b \<noteq> None" and per: "persistence st s = Some None"
  obtains pk st' where "factory_end s h (length b) buf st = Some (pk, parse_rc h b, st')"
    "map_option view pk = map_option view (the (parse h b))" "def_queue st' = def_queue st" "queues st' = queues st"
    "net_in st' = net_in st" "persistence st' = persistence st"
proof -
  obtain r where r: "parse h b = Some r"
    using p by blast
  obtain r' where r': "build h buf (length b) = Some r'" "map_option view r' = map_option view r"
    using build_extends [OF buf r] by blast
  show thesis
  proof (cases "h_type h < CONNECT \<or> h_type h > DISCONNECT \<or> new_packets ! nat (h_type h) = None")
    case True
    then show thesis
      using that [of None st] r by (simp add: factory_end_def parse_rc_def parse_def build_def Let_def)
  next
    case False
    then have f: "the (new_packets ! nat (h_type h)) h buf (length b) = Some r'"
      using r'(1) by (auto simp: build_def Let_def)
    show thesis
    proof (cases r')
      case None
      then show thesis
        using that [of None st] False f r r'(2) by (simp add: factory_end_def parse_rc_def)
    next
      case (Some pk)
      then have "parse_rc h b = TCPSOCKET_COMPLETE"
        using r r'(2) by (auto simp: parse_rc_def)
      then show thesis
        using that [of "Some pk" "st\<lparr>last_received := (last_received st)(s := now st)\<rparr>"] False f Some r r'(2) per mem_read_extends [OF buf]
        by (simp add: factory_end_def MQTTPersistence_put_def TCPSOCKET_COMPLETE_def Let_def)
    qed
  qed
qed

lemma Factory_end:
  assumes "Socket_getch s 0 st = Some (TCPSOCKET_COMPLETE, h, st1)" "MQTTPacket_decode s st1 = Some (TCPSOCKET_COMPLETE, n, st2)"
    "Socket_getdata s n 0 st2 = Some (Some buf, n, st3)"
  shows "MQTTPacket_Factory s st = factory_end s h n buf st3"
  using assms by (simp add: MQTTPacket_Factory_def factory_end_def)

text \<open>
  The outcome of one call, with the stream \<open>T\<close> of everything kept and everything that will arrive: either it is
  interrupted, and nothing of the stream is lost, or the first frame of the stream is taken off and made a packet.
\<close>

definition factory_outcome :: "int \<Rightarrow> byte list \<Rightarrow> net \<Rightarrow> packet option \<times> int \<times> net \<Rightarrow> bool" where
  "factory_outcome s T st res \<longleftrightarrow> (case res of (pk, rc, st') \<Rightarrow>
     between st' \<and> others_same s st st' \<and> clean (net_in st' s) \<and> persistence st' = persistence st \<and>
     (rc = TCPSOCKET_INTERRUPTED \<and> pk = None \<and>
        (\<exists>hs ds. kept s hs ds st' \<and> kept_ok hs ds \<and> T = hs @ ds @ avail (net_in st' s)) \<and>
        (net_in st s = [] \<or> in_size (net_in st' s) < in_size (net_in st s)) \<or>
      (\<exists>h b. frame T = Got (h, b, avail (net_in st' s)) \<and> kept s [] [] st' \<and> rc = parse_rc h b \<and>
        map_option view pk = map_option view (the (parse h b)) \<and> in_size (net_in st' s) \<le> in_size (net_in st s))))"

lemma frame_Got: "rem_len 4 1 0 ls = Got (n, []) \<Longrightarrow> length b = n \<Longrightarrow> frame (h # ls @ b @ r) = Got (h, b, r)"
  using rem_len_append(1) [of 4 1 0 ls n "[]" "b @ r"] by simp

lemma in_size_pos: "ins \<noteq> [] \<Longrightarrow> 0 < in_size ins"
  by (cases ins rule: in_size.cases) auto

text \<open>
  The header of a frame was read: its bytes \<open>h # ls\<close> say that \<open>n\<close> bytes of data follow, of which \<open>ds\<close> are kept.
\<close>

definition header_read :: "int \<Rightarrow> byte list \<Rightarrow> net \<Rightarrow> byte \<Rightarrow> byte list \<Rightarrow> byte list \<Rightarrow> nat \<Rightarrow> net \<Rightarrow> bool" where
  "header_read s T st h ls ds n st2 \<longleftrightarrow>
     (\<exists>st1. Socket_getch s 0 st = Some (TCPSOCKET_COMPLETE, h, st1) \<and> MQTTPacket_decode s st1 = Some (TCPSOCKET_COMPLETE, n, st2)) \<and>
     reading s (h # ls) [] ds st2 \<and> rem_len 4 1 0 ls = Got (n, []) \<and> (ds \<noteq> [] \<longrightarrow> length ds < n) \<and>
     T = h # ls @ ds @ avail (net_in st2 s) \<and> others_same s st st2 \<and> clean (net_in st2 s) \<and>
     in_size (net_in st2 s) \<le> in_size (net_in st s) \<and> persistence st2 = persistence st"

lemma factory_finish:
  assumes hd: "header_read s T st h ls ds n st2"
    and g: "Socket_getdata s n 0 st2 = Some (Some buf, n, st3)" and b: "take n buf = map Some b" "length b = n"
    and st3: "between st3" "kept s [] [] st3" "others_same s st2 st3" "clean (net_in st3 s)" "ds @ avail (net_in st2 s) = b @ avail (net_in st3 s)"
      "in_size (net_in st3 s) \<le> in_size (net_in st2 s)"
    and per: "persistence st s = Some None" "\<And>h b R. frame T = Got (h, b, R) \<Longrightarrow> parse h b \<noteq> None"
  shows "\<exists>res. MQTTPacket_Factory s st = Some res \<and> factory_outcome s T st res"
proof -
  obtain st1 where start: "Socket_getch s 0 st = Some (TCPSOCKET_COMPLETE, h, st1)" "MQTTPacket_decode s st1 = Some (TCPSOCKET_COMPLETE, n, st2)"
    using hd by (auto simp: header_read_def)
  have fr: "frame T = Got (h, b, avail (net_in st3 s))"
    using frame_Got [of ls n b h "avail (net_in st3 s)"] hd b(2) st3(5) by (simp add: header_read_def)
  have same: "persistence st3 = persistence st"
    using hd net_more [OF getdata_more [OF g]] by (simp add: header_read_def)
  have "extends buf (map Some b)" "persistence st3 s = Some None"
    using b per(1) same by (simp_all add: extends_def)
  then obtain pk st' where e: "factory_end s h (length b) buf st3 = Some (pk, parse_rc h b, st')"
    "map_option view pk = map_option view (the (parse h b))" "def_queue st' = def_queue st3" "queues st' = queues st3"
    "net_in st' = net_in st3" "persistence st' = persistence st3"
    using factory_end_parse [of buf b h st3 s] per(2) [OF fr] by metis
  have "between st'" "kept s [] [] st'" "others_same s st st'"
    using st3 e hd by (auto simp: between_def wf_but_def kept_def others_same_def header_read_def)
  then show ?thesis
    using Factory_end [OF start g] e b(2) fr st3(4,6) hd same by (simp add: factory_outcome_def header_read_def)
qed

lemma factory_halt:
  assumes hd: "header_read s T st h ls ds n st2"
    and g: "Socket_getdata s n 0 st2 = Some (Some buf, length ds', st3)" "length ds' < n"
    and st3: "between st3" "kept s (h # ls) ds' st3" "others_same s st2 st3" "clean (net_in st3 s)" "ds @ avail (net_in st2 s) = ds' @ avail (net_in st3 s)"
      "net_in st2 s = [] \<and> net_in st3 s = [] \<or> in_size (net_in st3 s) < in_size (net_in st2 s)"
  shows "\<exists>res. MQTTPacket_Factory s st = Some res \<and> factory_outcome s T st res"
proof -
  obtain st1 where start: "Socket_getch s 0 st = Some (TCPSOCKET_COMPLETE, h, st1)" "MQTTPacket_decode s st1 = Some (TCPSOCKET_COMPLETE, n, st2)"
    using hd by (auto simp: header_read_def)
  have "MQTTPacket_Factory s st = Some (None, TCPSOCKET_INTERRUPTED, st3)"
    using start g by (simp add: MQTTPacket_Factory_def)
  moreover have "kept_ok (h # ls) ds'" "others_same s st st3" "persistence st3 = persistence st"
    using hd g(2) others_same_trans [OF _ st3(3)] net_more [OF getdata_more [OF g(1)]] by (auto simp: kept_ok_def header_read_def)
  moreover have "net_in st s = [] \<or> in_size (net_in st3 s) < in_size (net_in st s)"
    using st3(6) hd in_size_pos [of "net_in st s"] by (cases "net_in st s = []") (auto simp: header_read_def)
  moreover have "T = (h # ls) @ ds' @ avail (net_in st3 s)"
    using hd st3(5) by (simp add: header_read_def)
  ultimately show ?thesis
    using st3 unfolding factory_outcome_def by (auto simp del: append_Cons)
qed

lemma factory_data:
  assumes hd: "header_read s T st h ls ds n st2"
    and per: "persistence st s = Some None" "\<And>h b R. frame T = Got (h, b, R) \<Longrightarrow> parse h b \<noteq> None"
  shows "\<exists>res. MQTTPacket_Factory s st = Some res \<and> factory_outcome s T st res"
proof -
  have r: "reading s (h # ls) [] ds st2" "clean (net_in st2 s)" "ds \<noteq> [] \<longrightarrow> length ds < n"
    using hd by (auto simp: header_read_def)
  show ?thesis
  proof (cases "n = 0")
    case True
    then have "ds = []"
      using r(3) by auto
    then obtain buf st3 where "Socket_getdata s 0 0 st2 = Some (Some buf, 0, st3)" "between st3" "kept s [] [] st3"
      "others_same s st2 st3" "net_in st3 s = net_in st2 s"
      using getdata_nothing [of s "h # ls" st2 0] r(1) by auto
    then show ?thesis
      using factory_finish [OF hd, of buf st3 "[]"] True \<open>ds = []\<close> r(2) per by simp
  next
    case False
    then have less: "length ds < n"
      using r(3) by auto
    obtain res ins where recv: "sys_recv (n - length ds) (net_in st2 s) = (res, ins)"
      by (cases "sys_recv (n - length ds) (net_in st2 s)")
    have cl: "clean ins \<and>
      (res = Inl EAGAIN \<and> avail ins = avail (net_in st2 s) \<and> (net_in st2 s = [] \<and> ins = [] \<or> in_size ins < in_size (net_in st2 s)) \<or>
       (\<exists>b bs. res = Inr (b # bs) \<and> length (b # bs) \<le> n - length ds \<and> avail (net_in st2 s) = b # bs @ avail ins \<and> in_size ins < in_size (net_in st2 s)))"
      using sys_recv_clean [OF r(2) _ recv] less by simp
    then have "length bs \<le> n - length ds" if "res = Inr bs" for bs
      using that by auto
    from getdata_recv [OF r(1) _ less recv this, of 0] obtain data len st3 where
      d: "Socket_getdata s n 0 st2 = Some (data, len, st3)" "others_same s st2 st3" "net_in st3 s = ins"
      "case res of
         Inl e \<Rightarrow> if e = EAGAIN then data \<noteq> None \<and> len = length ds \<and> between st3 \<and> kept s (h # ls) ds st3 else data = None
       | Inr bs \<Rightarrow>
           if bs = [] then data = None
           else len = length (ds @ bs) \<and> (\<exists>buf. data = Some buf \<and> take len buf = map Some (ds @ bs)) \<and> between st3 \<and>
             (if len = n then kept s [] [] st3 else kept s (h # ls) (ds @ bs) st3)"
      by auto
    consider "res = Inl EAGAIN" | b bs where "res = Inr (b # bs)" "length (ds @ b # bs) = n" | b bs where "res = Inr (b # bs)" "length (ds @ b # bs) < n"
      using cl less by fastforce
    then show ?thesis
    proof cases
      case 1
      then obtain buf where "data = Some buf" "len = length ds" "between st3" "kept s (h # ls) ds st3"
        using d(4) by auto
      then show ?thesis
        using factory_halt [OF hd, of buf ds st3] d(1-3) cl 1 less by simp
    next
      case (2 b bs)
      then obtain buf where "data = Some buf" "len = n" "between st3" "kept s [] [] st3" "take n buf = map Some (ds @ b # bs)"
        using d(4) by auto
      then show ?thesis
        using factory_finish [OF hd, of buf st3 "ds @ b # bs"] d(1-3) cl 2 per by simp
    next
      case (3 b bs)
      then obtain buf where "data = Some buf" "len = length (ds @ b # bs)" "between st3" "kept s (h # ls) (ds @ b # bs) st3"
        using d(4) by auto
      then show ?thesis
        using factory_halt [OF hd, of buf "ds @ b # bs" st3] d(1-3) cl 3 by simp
    qed
  qed
qed


lemma decode_factory:
  assumes c1: "Socket_getch s 0 st = Some (TCPSOCKET_COMPLETE, h, st1)" "reading s [h] us ds st1" "others_same s st st1" "clean (net_in st1 s)"
      "persistence st1 = persistence st" "in_size (net_in st1 s) \<le> in_size (net_in st s)"
    and known: "length_known 4 1 0 us ds" "\<And>k. rem_len 4 1 0 us = Got (k, []) \<Longrightarrow> length ds < k"
    and T: "T = h # us @ ds @ avail (net_in st1 s)" "frame T \<noteq> Bad"
    and per: "persistence st s = Some None" "\<And>h b R. frame T = Got (h, b, R) \<Longrightarrow> parse h b \<noteq> None"
  shows "\<exists>res. MQTTPacket_Factory s st = Some res \<and> factory_outcome s T st res"
proof -
  obtain rc val st2 where d: "MQTTPacket_decode s st1 = Some (rc, val, st2)" "decoded s 4 1 0 [h] us ds st1 (rc, val, st2)"
    using decode_loop_frames [OF c1(2) _ _ c1(4) known(1), of 0] by (auto simp: MQTTPacket_decode_def)
  have same: "others_same s st st2" "clean (net_in st2 s)" "persistence st2 = persistence st"
    using others_same_trans [OF c1(3)] d net_more [OF decode_loop_more [OF d(1) [unfolded MQTTPacket_decode_def]]] c1(5)
    by (auto simp: decoded_def)
  have "rem_len 4 1 0 (us @ avail (net_in st1 s)) \<noteq> Bad"
  proof (cases "ds = []")
    case True
    then show ?thesis
      using T by (auto split: progress.splits)
  next
    case False
    then show ?thesis
      using known(1) rem_len_append(1) [of 4 1 0 us _ "[]" "avail (net_in st1 s)"] by (auto simp: length_known_def simp del: rem_len.simps)
  qed
  then consider (complete) ls where "us @ avail (net_in st1 s) = ls @ avail (net_in st2 s)" "rc = TCPSOCKET_COMPLETE" "reading s (h # ls) [] ds st2"
      "rem_len 4 1 0 ls = Got (val, [])" "ds \<noteq> [] \<longrightarrow> us = ls" "in_size (net_in st2 s) \<le> in_size (net_in st1 s)"
    | (halted) ls where "us @ avail (net_in st1 s) = ls @ avail (net_in st2 s)" "rc = TCPSOCKET_INTERRUPTED" "ds = []" "between st2"
      "kept s (h # ls) [] st2" "rem_len 4 1 0 ls = More"
      "net_in st1 s = [] \<and> net_in st2 s = [] \<or> in_size (net_in st2 s) < in_size (net_in st1 s)"
    using d(2) by (auto simp: decoded_def simp del: rem_len.simps)
  then show ?thesis
  proof cases
    case (complete ls)
    have "T = h # ls @ ds @ avail (net_in st2 s)"
      using T(1) complete(1,5) by (cases "ds = []") auto
    moreover have "ds \<noteq> [] \<longrightarrow> length ds < val"
      using known(2) [of val] complete(4,5) by auto
    ultimately have "header_read s T st h ls ds val st2"
      using c1(1,6) d(1) complete same by (simp add: header_read_def)
    then show ?thesis
      using factory_data per by blast
  next
    case (halted ls)
    have "kept_ok (h # ls) []" "T = (h # ls) @ [] @ avail (net_in st2 s)"
      using halted(1,3,6) T(1) by (simp_all add: kept_ok_def del: rem_len.simps)
    moreover have "net_in st s = [] \<or> in_size (net_in st2 s) < in_size (net_in st s)"
      using halted(7) c1(6) in_size_pos [of "net_in st s"] by (cases "net_in st s = []") auto
    moreover have "MQTTPacket_Factory s st = Some (None, TCPSOCKET_INTERRUPTED, st2)"
      using c1(1) d(1) halted(2) by (simp add: MQTTPacket_Factory_def socket_codes)
    ultimately show ?thesis
      using same halted unfolding factory_outcome_def by (auto simp del: append_Cons append_Nil)
  qed
qed

text \<open>One call of the packet reader on a connection that does not break.\<close>

lemma factory_step:
  assumes st: "between st" "s \<noteq> 0" "kept s hs ds st" "kept_ok hs ds" "clean (net_in st s)" "persistence st s = Some None"
    and T: "T = hs @ ds @ avail (net_in st s)" "frame T \<noteq> Bad" "\<And>h b R. frame T = Got (h, b, R) \<Longrightarrow> parse h b \<noteq> None"
  shows "\<exists>res. MQTTPacket_Factory s st = Some res \<and> factory_outcome s T st res"
proof (cases hs)
  case Nil
  then have ds: "ds = []"
    using st(4) by (simp add: kept_ok_def)
  have r: "reading s [] [] [] st"
    using kept_reading [OF st(1-3)] Nil ds by simp
  obtain rc c st1 where g: "Socket_getch s 0 st = Some (rc, c, st1)" "others_same s st st1" "clean (net_in st1 s)"
    "rc = TCPSOCKET_INTERRUPTED \<and> between st1 \<and> kept s [] [] st1 \<and> avail (net_in st1 s) = avail (net_in st s) \<and>
       (net_in st s = [] \<and> net_in st1 s = [] \<or> in_size (net_in st1 s) < in_size (net_in st s)) \<or>
     rc = TCPSOCKET_COMPLETE \<and> reading s [c] [] [] st1 \<and> avail (net_in st s) = c # avail (net_in st1 s) \<and>
       in_size (net_in st1 s) < in_size (net_in st s)"
    using getch_clean [OF r _ st(5), of 0] by (auto 4 3)
  show ?thesis
  proof (cases "rc = TCPSOCKET_INTERRUPTED")
    case True
    then have "MQTTPacket_Factory s st = Some (None, TCPSOCKET_INTERRUPTED, st1)"
      using g(1) by (simp add: MQTTPacket_Factory_def socket_codes)
    then show ?thesis
      using g True Nil ds T(1) net_more [OF getch_more [OF g(1)]] st(4)
      by (auto simp: factory_outcome_def socket_codes intro!: exI [of _ "[]"])
  next
    case False
    then have "rc = TCPSOCKET_COMPLETE" "reading s [c] [] [] st1" "avail (net_in st s) = c # avail (net_in st1 s)"
      "in_size (net_in st1 s) \<le> in_size (net_in st s)"
      using g(4) by auto
    then show ?thesis
      using decode_factory [of s st c st1 "[]" "[]" T] g(1-3) net_more [OF getch_more [OF g(1)]] Nil ds T st(6)
      by (simp add: length_known_def eval_nat_numeral)
  qed
next
  case (Cons h us)
  obtain st1 where g: "Socket_getch s 0 st = Some (TCPSOCKET_COMPLETE, h, st1)" "reading s [h] us ds st1" "others_same s st st1" "net_in st1 s = net_in st s"
    using getch_kept [of s "[]" h us ds st 0] kept_reading [OF st(1-3)] Cons by auto
  have "length_known 4 1 0 us ds" "\<And>k. rem_len 4 1 0 us = Got (k, []) \<Longrightarrow> length ds < k"
    using st(4) Cons by (auto simp: kept_ok_def length_known_def simp del: rem_len.simps)
  then show ?thesis
    using decode_factory [OF g(1-3), of T] g(4) st(5,6) T Cons net_more [OF getch_more [OF g(1)]] by simp
qed

section \<open>Runs of the packet reader\<close>

text \<open>
  The library calls the packet reader for whichever socket is ready. A run is the list of these sockets; its result the
  packets and error codes of the calls that were not interrupted.
\<close>

fun receive_all :: "int list \<Rightarrow> net \<Rightarrow> ((int \<times> packet option \<times> int) list \<times> net) option" where
  "receive_all [] st = Some ([], st)"
| "receive_all (s # ss) st = do {
     (pk, rc, st') \<leftarrow> MQTTPacket_Factory s st;
     (out, st'') \<leftarrow> receive_all ss st';
     Some (if rc = TCPSOCKET_INTERRUPTED then out else (s, pk, rc) # out, st'')
   }"

text \<open>The specification: the frames of the whole stream, each made a packet.\<close>

function received :: "byte list \<Rightarrow> (packet option \<times> int) list" where
  "received bs =
     (case frame bs of
        Got (h, b, r) \<Rightarrow> (map_option view (the (parse h b)), parse_rc h b) # received r
      | _ \<Rightarrow> [])"
  by pat_completeness auto
termination
  by (relation "measure length") (auto dest: frame_shorter)

text \<open>A stream without malformed lengths, whose packets are long enough for what their readers read.\<close>

function stream_ok :: "byte list \<Rightarrow> bool" where
  "stream_ok bs \<longleftrightarrow>
     (case frame bs of
        More \<Rightarrow> True
      | Bad \<Rightarrow> False
      | Got (h, b, r) \<Rightarrow> parse h b \<noteq> None \<and> stream_ok r)"
  by pat_completeness auto
termination
  by (relation "measure length") (auto dest: frame_shorter)

declare received.simps [simp del] stream_ok.simps [simp del] frame.simps [simp del]

definition results_for :: "int \<Rightarrow> (int \<times> packet option \<times> int) list \<Rightarrow> (packet option \<times> int) list" where
  "results_for s out = map (\<lambda>(_, pk, rc). (map_option view pk, rc)) (filter (\<lambda>(s', _). s' = s) out)"

definition receiving :: "int \<Rightarrow> byte list \<Rightarrow> net \<Rightarrow> bool" where
  "receiving s T st \<longleftrightarrow> clean (net_in st s) \<and> persistence st s = Some None \<and> stream_ok T \<and>
     (\<exists>hs ds. kept s hs ds st \<and> kept_ok hs ds \<and> T = hs @ ds @ avail (net_in st s))"

lemma kept_frame: "kept_ok hs ds \<Longrightarrow> frame (hs @ ds) = More"
  using rem_len_append(1) [of 4 1 0 "tl hs" _ "[]" ds]
  by (auto simp: kept_ok_def frame.simps simp del: rem_len.simps split: list.splits)

lemma kept_others: "others_same s st st' \<Longrightarrow> s' \<noteq> s \<Longrightarrow> s' \<noteq> 0 \<Longrightarrow> kept s' hs ds st' = kept s' hs ds st"
proof -
  assume "others_same s st st'" "s' \<noteq> s" "s' \<noteq> 0"
  then have "at s' (fst (queues st')) = at s' (fst (queues st))"
    by (auto simp: others_same_def oth_def at_def set_eq_iff)
  then show ?thesis
    by (simp add: kept_def)
qed

lemma receiving_others:
  assumes "others_same s st st'" "persistence st' = persistence st" "s' \<noteq> s" "s' \<noteq> 0"
  shows "receiving s' T st' = receiving s' T st"
  using kept_others [OF assms(1,3,4)] assms by (simp add: receiving_def others_same_def)

lemma parse_rc_not_interrupted: "parse_rc h b \<noteq> TCPSOCKET_INTERRUPTED"
  by (simp add: parse_rc_def BAD_MQTT_PACKET_def TCPSOCKET_COMPLETE_def TCPSOCKET_INTERRUPTED_def)

lemma receiving_step:
  assumes "between st" "s \<noteq> 0" "receiving s T st"
  shows "\<exists>pk rc st'. MQTTPacket_Factory s st = Some (pk, rc, st') \<and> between st' \<and> others_same s st st' \<and>
    persistence st' = persistence st \<and>
    (rc = TCPSOCKET_INTERRUPTED \<and> receiving s T st' \<and>
       (received T = [] \<or> in_size (net_in st' s) < in_size (net_in st s)) \<or>
     rc \<noteq> TCPSOCKET_INTERRUPTED \<and> (\<exists>T'. received T = (map_option view pk, rc) # received T' \<and> receiving s T' st') \<and>
       in_size (net_in st' s) \<le> in_size (net_in st s))"
proof -
  obtain hs ds where st: "clean (net_in st s)" "persistence st s = Some None" "kept s hs ds st" "kept_ok hs ds"
    and T: "T = hs @ ds @ avail (net_in st s)" "stream_ok T"
    using assms(3) by (auto simp: receiving_def)
  have "\<exists>res. MQTTPacket_Factory s st = Some res \<and> factory_outcome s T st res"
    by (rule factory_step [OF assms(1,2) st(3,4,1,2) T(1)]) (use T(2) in \<open>auto simp: stream_ok.simps [of T] split: progress.splits\<close>)
  then obtain pk rc st' where
    f: "MQTTPacket_Factory s st = Some (pk, rc, st')" and o: "factory_outcome s T st (pk, rc, st')"
    by auto
  then have same: "between st'" "others_same s st st'" "clean (net_in st' s)" "persistence st' = persistence st"
    by (auto simp: factory_outcome_def)
  from o consider (halt) hs' ds' where "rc = TCPSOCKET_INTERRUPTED" "kept s hs' ds' st'" "kept_ok hs' ds'"
      "T = hs' @ ds' @ avail (net_in st' s)" "net_in st s = [] \<or> in_size (net_in st' s) < in_size (net_in st s)"
    | (packet) h b where "frame T = Got (h, b, avail (net_in st' s))" "kept s [] [] st'" "rc = parse_rc h b"
      "map_option view pk = map_option view (the (parse h b))" "in_size (net_in st' s) \<le> in_size (net_in st s)"
    by (auto simp: factory_outcome_def)
  then show ?thesis
  proof cases
    case halt
    moreover have "received T = []" if "net_in st s = []"
      using that T(1) kept_frame [OF st(4)] by (simp add: received.simps [of "hs @ ds"])
    moreover have "receiving s T st'"
      using halt same st(2) T(2) by (auto simp: receiving_def)
    ultimately show ?thesis
      using f same by blast
  next
    case packet
    have "received T = (map_option view pk, rc) # received (avail (net_in st' s))"
      using packet by (subst received.simps) simp
    moreover have "stream_ok (avail (net_in st' s))"
      using T(2) packet(1) by (simp add: stream_ok.simps [of T])
    then have "receiving s (avail (net_in st' s)) st'"
      using packet(2) same st(2) unfolding receiving_def kept_ok_def by (auto intro!: exI [of _ "[]"])
    ultimately show ?thesis
      using f same packet(3,5) parse_rc_not_interrupted by blast
  qed
qed

lemma results_for_Cons [simp]:
  "results_for s ((s', pk, rc) # out) = (if s' = s then [(map_option view pk, rc)] else []) @ results_for s out"
  by (simp add: results_for_def)

lemma receive_all_streams:
  assumes "between st" "0 \<notin> S" "set ss \<subseteq> S" "\<forall>s \<in> S. receiving s (T s) st"
  shows "\<exists>out st'. receive_all ss st = Some (out, st') \<and> between st' \<and>
    (\<forall>s \<in> S. \<exists>T'. received (T s) = results_for s out @ received T' \<and> receiving s T' st' \<and>
       (in_size (net_in st s) + length (received (T s)) \<le> count_list ss s \<longrightarrow> received T' = []))"
  using assms
proof (induction ss arbitrary: st T)
  case Nil
  then show ?case
    by (auto simp: results_for_def)
next
  case (Cons s ss)
  then have s: "s \<in> S" "s \<noteq> 0"
    by auto
  obtain pk rc st1 T1 where f: "MQTTPacket_Factory s st = Some (pk, rc, st1)" "between st1" "others_same s st st1"
      "persistence st1 = persistence st" "receiving s T1 st1"
    and r: "received (T s) = (if rc = TCPSOCKET_INTERRUPTED then [] else [(map_option view pk, rc)]) @ received T1"
    and less: "received (T s) = [] \<or>
      in_size (net_in st1 s) + length (received T1) < in_size (net_in st s) + length (received (T s))"
  proof -
    obtain pk rc st1 where a: "MQTTPacket_Factory s st = Some (pk, rc, st1)" "between st1" "others_same s st st1"
        "persistence st1 = persistence st"
      and b: "rc = TCPSOCKET_INTERRUPTED \<and> receiving s (T s) st1 \<and>
           (received (T s) = [] \<or> in_size (net_in st1 s) < in_size (net_in st s)) \<or>
         rc \<noteq> TCPSOCKET_INTERRUPTED \<and> (\<exists>T'. received (T s) = (map_option view pk, rc) # received T' \<and> receiving s T' st1) \<and>
           in_size (net_in st1 s) \<le> in_size (net_in st s)"
      using receiving_step [OF Cons.prems(1) s(2), of "T s"] Cons.prems(4) s(1) by blast
    show thesis
    proof (cases "rc = TCPSOCKET_INTERRUPTED")
      case True
      then show thesis
        using that [OF a, of "T s"] b by auto
    next
      case False
      then obtain T' where "received (T s) = (map_option view pk, rc) # received T'" "receiving s T' st1"
        "in_size (net_in st1 s) \<le> in_size (net_in st s)"
        using b by blast
      then show thesis
        using that [OF a, of T'] False by simp
    qed
  qed
  let ?T = "T(s := T1)"
  have "\<forall>s' \<in> S. receiving s' (?T s') st1"
    using Cons.prems(2,4) f(5) receiving_others [OF f(3,4)] by (metis fun_upd_apply)
  with Cons.IH [OF f(2) Cons.prems(2), of ?T] Cons.prems(3) obtain out st' where
    IH: "receive_all ss st1 = Some (out, st')" "between st'"
      "\<forall>s' \<in> S. \<exists>T'. received (?T s') = results_for s' out @ received T' \<and> receiving s' T' st' \<and>
         (in_size (net_in st1 s') + length (received (?T s')) \<le> count_list ss s' \<longrightarrow> received T' = [])"
    by auto
  let ?out = "if rc = TCPSOCKET_INTERRUPTED then out else (s, pk, rc) # out"
  have "\<exists>T'. received (T s') = results_for s' ?out @ received T' \<and> receiving s' T' st' \<and>
     (in_size (net_in st s') + length (received (T s')) \<le> count_list (s # ss) s' \<longrightarrow> received T' = [])" if s': "s' \<in> S" for s'
  proof -
    obtain T' where T': "received (?T s') = results_for s' out @ received T'" "receiving s' T' st'"
      "in_size (net_in st1 s') + length (received (?T s')) \<le> count_list ss s' \<longrightarrow> received T' = []"
      using bspec [OF IH(3) s'] by blast
    show ?thesis
    proof (cases "s' = s")
      case True
      then show ?thesis
        using T' r less by (intro exI [of _ T']) (auto split: if_splits)
    next
      case False
      then show ?thesis
        using T' f(3) by (intro exI [of _ T']) (auto simp: others_same_def)
    qed
  qed
  then show ?case
    using f(1) IH(1,2) by simp
qed

text \<open>
  C12: whatever way the bytes of each connection are cut up by the network and whatever order the sockets are served in, the
  packets that the library receives on a socket are the frames of that socket's byte stream, in order, nothing lost and
  nothing mixed in from another socket; and after enough calls for a socket every complete frame was delivered.
\<close>

theorem packets_are_frames:
  assumes "0 \<notin> S" "set ss \<subseteq> S"
    and "\<forall>s \<in> S. clean (net_in st s) \<and> stream_ok (avail (net_in st s)) \<and> persistence st s = Some None"
  shows "\<exists>out st'. receive_all ss (SocketBuffer_initialize st) = Some (out, st') \<and>
    (\<forall>s \<in> S. (\<exists>rest. received (avail (net_in st s)) = results_for s out @ rest) \<and>
       (in_size (net_in st s) + length (received (avail (net_in st s))) \<le> count_list ss s \<longrightarrow>
          results_for s out = received (avail (net_in st s))))"
proof -
  let ?st = "SocketBuffer_initialize st" and ?T = "\<lambda>s. avail (net_in st s)"
  have "net_in ?st = net_in st" "persistence ?st = persistence st"
    by (simp_all add: SocketBuffer_initialize_def SocketBuffer_newDefQ_def)
  moreover have "kept s [] [] ?st" for s
    using initialize_between(2) [of s st] by (simp add: kept_def)
  ultimately have "\<forall>s \<in> S. receiving s (?T s) ?st"
    using assms(3) unfolding receiving_def kept_ok_def by (auto intro!: exI [of _ "[]"])
  from receive_all_streams [OF initialize_between(1) assms(1,2) this] \<open>net_in ?st = net_in st\<close> show ?thesis
    by fastforce
qed

definition demo_in :: net where
  "demo_in = demo_net\<lparr>persistence := (\<lambda>_. Some None), net_in := (\<lambda>s.
     if s = 5 then [Avail [0x30], Again, Avail [5, 0, 1], Avail [97, 104, 105]]
     else [Avail [0x40, 2], Again, Avail [0, 9, 0xD0, 0]])\<rparr>"

lemma demo_received:
  "stream_ok [0x30, 5, 0, 1, 97, 104, 105]" "stream_ok [0x40, 2, 0, 9, 0xD0, 0]"
  "received [0x30, 5, 0, 1, 97, 104, 105] = [(Some (Publish_packet \<lparr>pub_header = 0x30, pub_topic = [97], pub_topiclen = 1,
     pub_msgId = 0, pub_payload = [Some 104, Some 105], pub_payloadlen = 2\<rparr>), 0)]"
  "received [0x40, 2, 0, 9, 0xD0, 0] = [(Some (Ack 0x40 9), 0), (Some (Header_only 0xD0), 0)]"
  by code_simp+

theorem packets_are_frames_witness:
  "\<exists>out st'. receive_all [5, 7, 7, 5, 5, 7, 7, 5, 5, 7, 5, 7, 7, 5, 5, 7, 5, 7, 5, 5, 7, 7, 5] (SocketBuffer_initialize demo_in) = Some (out, st') \<and>
     results_for 7 out = [(Some (Ack 0x40 9), 0), (Some (Header_only 0xD0), 0)] \<and>
     results_for 5 out = [(Some (Publish_packet \<lparr>pub_header = 0x30, pub_topic = [97], pub_topiclen = 1,
       pub_msgId = 0, pub_payload = [Some 104, Some 105], pub_payloadlen = 2\<rparr>), 0)]"
proof -
  have a: "clean (net_in demo_in s)" "persistence demo_in s = Some None" for s
    by (simp_all add: demo_in_def)
  have b: "avail (net_in demo_in 5) = [0x30, 5, 0, 1, 97, 104, 105]" "avail (net_in demo_in 7) = [0x40, 2, 0, 9, 0xD0, 0]"
    "in_size (net_in demo_in 5) = 11" "in_size (net_in demo_in 7) = 9"
    by (simp_all add: demo_in_def)
  show ?thesis
    using packets_are_frames [of "{5, 7}" "[5, 7, 7, 5, 5, 7, 7, 5, 5, 7, 5, 7, 7, 5, 5, 7, 5, 7, 5, 5, 7, 7, 5]" demo_in] a b demo_received
    by (auto simp del: receive_all.simps)
qed

end
