(* ===== verification/Mqtt_Send.thy ===== *)
theory Mqtt_Send
  imports Mqtt_Packet
begin

unbundle bit_operations_syntax

text \<open>
  The sending half of \<^verbatim>\<open>MQTTPacket.c\<close> and \<^verbatim>\<open>MQTTPacketOut.c\<close>: writing integers and strings to buffers, and the
  functions that build and send each kind of packet. A buffer is allocated without contents and written byte by byte, so
  a byte that is written outside of it, or sent without having been written, makes the model undefined.
\<close>

section \<open>Writing to a buffer\<close>

type_synonym cursor = "mem \<times> nat"

definition malloc :: "nat \<Rightarrow> cursor" where
  "malloc n = (replicate n None, 0)"

definition writeChar :: "byte \<Rightarrow> cursor \<Rightarrow> cursor option" where
  "writeChar c p = (case p of (buf, ptr) \<Rightarrow> do { buf' \<leftarrow> store buf ptr (Some c); Some (buf', ptr + 1) })"

definition writeInt :: "int \<Rightarrow> cursor \<Rightarrow> cursor option" where
  "writeInt anInt p = do { p' \<leftarrow> writeChar (of_int (anInt sdiv 256)) p; writeChar (of_int (anInt smod 256)) p' }"

text \<open>A C string ends before its first NUL. Its length is an \<open>int\<close>.\<close>

definition c_bytes :: "byte list \<Rightarrow> byte list" where
  "c_bytes s = takeWhile (\<lambda>b. b \<noteq> 0) s"

definition writeUTF :: "byte list \<Rightarrow> cursor \<Rightarrow> cursor option" where
  "writeUTF string p = do {
     let len = length (c_bytes string);
     _ \<leftarrow> ensure (int len < 2 ^ 31);
     (buf, ptr) \<leftarrow> writeInt (int len) p;
     buf' \<leftarrow> mem_write ptr (c_bytes string) buf;
     Some (buf', ptr + len)
   }"

section \<open>Sending\<close>

definition sent_now :: "int \<Rightarrow> int \<Rightarrow> byte list \<Rightarrow> net \<Rightarrow> net" where
  "sent_now socket rc buf st =
     (let st1 = (if rc = TCPSOCKET_COMPLETE then st\<lparr>last_sent := (last_sent st)(socket := now st)\<rparr> else st)
      in if rc \<noteq> TCPSOCKET_INTERRUPTED then st1\<lparr>net_freed := net_freed st1 @ [buf]\<rparr> else st1)"

text \<open>The bytes before the buffers go to a block of ten bytes.\<close>

definition MQTTPacket_send :: "int \<Rightarrow> byte \<Rightarrow> byte list \<Rightarrow> bool \<Rightarrow> net \<Rightarrow> (int \<times> net) option" where
  "MQTTPacket_send socket header buffer free st = do {
     _ \<leftarrow> ensure (int (length buffer) < 2 ^ 31);
     let buf = header # MQTTPacket_encode (int (length buffer));
     _ \<leftarrow> ensure (length buf \<le> 10);
     st1 \<leftarrow> (if h_type header = PUBREL then do {
         (msgId, _) \<leftarrow> readInt (map Some buffer) 0;
         (_, st') \<leftarrow> MQTTPersistence_put socket [buf, buffer] (h_type header) msgId 0 st;
         Some st'
       } else Some st);
     (rc, st2) \<leftarrow> Socket_putdatas socket buf [buffer] [free] st1;
     Some (rc, sent_now socket rc buf st2)
   }"

definition MQTTPacket_sends :: "int \<Rightarrow> byte \<Rightarrow> byte list list \<Rightarrow> bool list \<Rightarrow> net \<Rightarrow> (int \<times> net) option" where
  "MQTTPacket_sends socket header buffers frees st = do {
     let tot = sum_list (map length buffers);
     _ \<leftarrow> ensure (int tot < 2 ^ 31);
     let buf = header # MQTTPacket_encode (int tot);
     _ \<leftarrow> ensure (length buf \<le> 10);
     st1 \<leftarrow> (if h_type header = PUBLISH \<and> h_qos header \<noteq> 0 then do {
         b \<leftarrow> load buffers 2;
         (msgId, _) \<leftarrow> readInt (map Some b) 0;
         (_, st') \<leftarrow> MQTTPersistence_put socket (buf # buffers) (h_type header) msgId 0 st;
         Some st'
       } else Some st);
     (rc, st2) \<leftarrow> Socket_putdatas socket buf buffers frees st1;
     Some (rc, sent_now socket rc buf st2)
   }"

text \<open>The callers free their own buffers unless the write is pending.\<close>

definition free_sent :: "int \<Rightarrow> byte list list \<Rightarrow> net \<Rightarrow> net" where
  "free_sent rc bufs st = (if rc \<noteq> TCPSOCKET_INTERRUPTED then st\<lparr>net_freed := net_freed st @ bufs\<rparr> else st)"

definition MQTTPacket_send_disconnect :: "int \<Rightarrow> net \<Rightarrow> (int \<times> net) option" where
  "MQTTPacket_send_disconnect socket st = MQTTPacket_send socket (set_type DISCONNECT 0) [] False st"

definition MQTTPacket_send_pingreq :: "int \<Rightarrow> net \<Rightarrow> (int \<times> net) option" where
  "MQTTPacket_send_pingreq socket st = MQTTPacket_send socket (set_type PINGREQ 0) [] False st"

definition MQTTPacket_send_ack :: "int \<Rightarrow> int \<Rightarrow> int \<Rightarrow> int \<Rightarrow> net \<Rightarrow> (int \<times> net) option" where
  "MQTTPacket_send_ack type msgid dup socket st = do {
     let header = set_dup dup (set_type type 0);
     let header' = (if type = PUBREL then set_qos 1 header else header);
     (mem, _) \<leftarrow> writeInt msgid (malloc 2);
     buf \<leftarrow> mem_read 0 2 mem;
     (rc, st1) \<leftarrow> MQTTPacket_send socket header' buf True st;
     Some (rc, free_sent rc [buf] st1)
   }"

definition MQTTPacket_send_puback :: "int \<Rightarrow> int \<Rightarrow> net \<Rightarrow> (int \<times> net) option" where
  "MQTTPacket_send_puback msgid socket st = MQTTPacket_send_ack PUBACK msgid 0 socket st"

definition MQTTPacket_send_pubrec :: "int \<Rightarrow> int \<Rightarrow> net \<Rightarrow> (int \<times> net) option" where
  "MQTTPacket_send_pubrec msgid socket st = MQTTPacket_send_ack PUBREC msgid 0 socket st"

definition MQTTPacket_send_pubrel :: "int \<Rightarrow> int \<Rightarrow> int \<Rightarrow> net \<Rightarrow> (int \<times> net) option" where
  "MQTTPacket_send_pubrel msgid dup socket st = MQTTPacket_send_ack PUBREL msgid dup socket st"

definition MQTTPacket_send_pubcomp :: "int \<Rightarrow> int \<Rightarrow> net \<Rightarrow> (int \<times> net) option" where
  "MQTTPacket_send_pubcomp msgid socket st = MQTTPacket_send_ack PUBCOMP msgid 0 socket st"

text \<open>
  The header of these packets is not initialised, but every bit of it is assigned.
\<close>

definition full_header :: "int \<Rightarrow> int \<Rightarrow> int \<Rightarrow> int \<Rightarrow> byte \<Rightarrow> byte" where
  "full_header type dup qos retain h = set_retain retain (set_qos qos (set_dup dup (set_type type h)))"

definition MQTTPacket_send_publish :: "byte \<Rightarrow> Publish \<Rightarrow> int \<Rightarrow> int \<Rightarrow> int \<Rightarrow> int \<Rightarrow> net \<Rightarrow> (int \<times> net) option" where
  "MQTTPacket_send_publish uninit pack dup qos retained socket st = do {
     let header = full_header PUBLISH dup qos retained uninit;
     let topic = c_bytes (pub_topic pack);
     _ \<leftarrow> ensure (int (length topic) < 2 ^ 31 \<and> 0 \<le> pub_payloadlen pack);
     payload \<leftarrow> mem_read 0 (nat (pub_payloadlen pack)) (pub_payload pack);
     (tmem, _) \<leftarrow> writeInt (int (length topic)) (malloc 2);
     topiclen \<leftarrow> mem_read 0 2 tmem;
     if qos > 0 then do {
       (mem, _) \<leftarrow> writeInt (pub_msgId pack) (malloc 2);
       buf \<leftarrow> mem_read 0 2 mem;
       (rc, st1) \<leftarrow> MQTTPacket_sends socket header [topiclen, topic, buf, payload] [True, False, True, False] st;
       Some (rc, free_sent rc [buf, topiclen] st1)
     }
     else do {
       (rc, st1) \<leftarrow> MQTTPacket_sends socket header [topiclen, topic, payload] [True, False, False] st;
       Some (rc, free_sent rc [topiclen] st1)
     }
   }"

section \<open>Connecting and subscribing\<close>

record willMessages =
  will_topic :: "byte list"
  will_msg :: "byte list"
  will_retained :: int
  will_qos :: int

text \<open>The fields of \<open>Clients\<close> that a CONNECT packet is made from.\<close>

record connect_data =
  clientID :: "byte list"
  username :: "byte list option"
  password :: "byte list option"
  cleansession :: int
  keepAliveInterval :: int
  will :: "willMessages option"

definition connect_flags :: "connect_data \<Rightarrow> byte" where
  "connect_flags client =
     (let f1 = bits_set 1 1 (cleansession client) 0;
          f2 = bits_set 2 1 (if will client \<noteq> None then 1 else 0) f1;
          f3 = (case will client of
                  Some w \<Rightarrow> bits_set 5 1 (will_retained w) (bits_set 3 2 (will_qos w) f2)
                | None \<Rightarrow> f2);
          f4 = (if username client \<noteq> None then bits_set 7 1 1 f3 else f3)
      in if password client \<noteq> None then bits_set 6 1 1 f4 else f4)"

definition utf_len :: "byte list \<Rightarrow> nat" where
  "utf_len s = length (c_bytes s) + 2"

definition opt_len :: "byte list option \<Rightarrow> nat" where
  "opt_len s = (case s of None \<Rightarrow> 0 | Some x \<Rightarrow> utf_len x)"

definition writeUTF_opt :: "byte list option \<Rightarrow> cursor \<Rightarrow> cursor option" where
  "writeUTF_opt s p = (case s of None \<Rightarrow> Some p | Some x \<Rightarrow> writeUTF x p)"

definition connect_len :: "connect_data \<Rightarrow> int \<Rightarrow> nat" where
  "connect_len client MQTTVersion =
     (if MQTTVersion = 3 then 12 else 10) + utf_len (clientID client) +
     (case will client of None \<Rightarrow> 0 | Some w \<Rightarrow> utf_len (will_topic w) + utf_len (will_msg w)) +
     opt_len (username client) + opt_len (password client)"

definition MQIsdp :: "byte list" where "MQIsdp = map byte_of_char ''MQIsdp''"
definition MQTT :: "byte list" where "MQTT = map byte_of_char ''MQTT''"

definition MQTTPacket_send_connect :: "connect_data \<Rightarrow> int \<Rightarrow> int \<Rightarrow> net \<Rightarrow> (int \<times> net) option" where
  "MQTTPacket_send_connect client MQTTVersion socket st = do {
     let len = connect_len client MQTTVersion;
     _ \<leftarrow> ensure (int len < 2 ^ 31);
     if MQTTVersion \<noteq> 3 \<and> MQTTVersion \<noteq> 4 then Some (-1, st)
     else do {
       p1 \<leftarrow> writeUTF (if MQTTVersion = 3 then MQIsdp else MQTT) (malloc len);
       p2 \<leftarrow> writeChar (if MQTTVersion = 3 then 3 else 4) p1;
       p3 \<leftarrow> writeChar (connect_flags client) p2;
       p4 \<leftarrow> writeInt (keepAliveInterval client) p3;
       p5 \<leftarrow> writeUTF (clientID client) p4;
       p6 \<leftarrow> (case will client of
               None \<Rightarrow> Some p5
             | Some w \<Rightarrow> do { p \<leftarrow> writeUTF (will_topic w) p5; writeUTF (will_msg w) p });
       p7 \<leftarrow> writeUTF_opt (username client) p6;
       p8 \<leftarrow> writeUTF_opt (password client) p7;
       buf \<leftarrow> mem_read 0 len (fst p8);
       (rc, st1) \<leftarrow> MQTTPacket_send socket (set_type CONNECT 0) buf True st;
       Some (rc, free_sent rc [buf] st1)
     }
   }"

text \<open>The list of qualities of service is read along with the topics; if it is shorter, a NULL element is read.\<close>

fun write_topics_qoss :: "byte list list \<Rightarrow> int list \<Rightarrow> cursor \<Rightarrow> cursor option" where
  "write_topics_qoss [] qoss p = Some p"
| "write_topics_qoss (t # topics) [] p = None"
| "write_topics_qoss (t # topics) (q # qoss) p = do {
     p1 \<leftarrow> writeUTF t p;
     p2 \<leftarrow> writeChar (of_int q) p1;
     write_topics_qoss topics qoss p2
   }"

fun write_topics :: "byte list list \<Rightarrow> cursor \<Rightarrow> cursor option" where
  "write_topics [] p = Some p"
| "write_topics (t # topics) p = do { p1 \<leftarrow> writeUTF t p; write_topics topics p1 }"

definition MQTTPacket_send_subscribe :: "byte \<Rightarrow> byte list list \<Rightarrow> int list \<Rightarrow> int \<Rightarrow> int \<Rightarrow> int \<Rightarrow> net \<Rightarrow> (int \<times> net) option" where
  "MQTTPacket_send_subscribe uninit topics qoss msgid dup socket st = do {
     let header = full_header SUBSCRIBE dup 1 0 uninit;
     let datalen = 2 + length topics * 3 + sum_list (map (length \<circ> c_bytes) topics);
     _ \<leftarrow> ensure (int datalen < 2 ^ 31);
     p1 \<leftarrow> writeInt msgid (malloc datalen);
     p2 \<leftarrow> write_topics_qoss topics qoss p1;
     data \<leftarrow> mem_read 0 datalen (fst p2);
     (rc, st1) \<leftarrow> MQTTPacket_send socket header data True st;
     Some (rc, free_sent rc [data] st1)
   }"

definition MQTTPacket_send_unsubscribe :: "byte \<Rightarrow> byte list list \<Rightarrow> int \<Rightarrow> int \<Rightarrow> int \<Rightarrow> net \<Rightarrow> (int \<times> net) option" where
  "MQTTPacket_send_unsubscribe uninit topics msgid dup socket st = do {
     let header = full_header UNSUBSCRIBE dup 1 0 uninit;
     let datalen = 2 + length topics * 2 + sum_list (map (length \<circ> c_bytes) topics);
     _ \<leftarrow> ensure (int datalen < 2 ^ 31);
     p1 \<leftarrow> writeInt msgid (malloc datalen);
     p2 \<leftarrow> write_topics topics p1;
     data \<leftarrow> mem_read 0 datalen (fst p2);
     (rc, st1) \<leftarrow> MQTTPacket_send socket header data True st;
     Some (rc, free_sent rc [data] st1)
   }"

section \<open>Header bits\<close>

lemma bit_bits_set:
  assumes "n < 8"
  shows "bit (bits_set pos len v h) n = (if pos \<le> n \<and> n < pos + len then bit v (n - pos) else bit h n)"
  using assms by (auto simp: bits_set_def bit_simps)

lemma bits_get_set_same:
  assumes "pos + len \<le> 8"
  shows "bits_get pos len (bits_set pos len v h) = v mod 2 ^ len"
proof -
  have "take_bit len (drop_bit pos (bits_set pos len v h)) = take_bit len (of_int v :: byte)"
    using assms by (intro bit_eqI) (auto simp: bit_bits_set bit_simps)
  moreover have "uint (take_bit len (of_int v :: byte)) = take_bit len v"
    using assms by (simp add: unsigned_take_bit_eq unsigned_of_int min_def)
  ultimately show ?thesis
    by (simp add: bits_get_def take_bit_eq_mod)
qed

lemma bits_get_set_other:
  assumes "pos + len \<le> pos' \<or> pos' + len' \<le> pos" "pos + len \<le> 8"
  shows "bits_get pos len (bits_set pos' len' v h) = bits_get pos len h"
proof -
  have "take_bit len (drop_bit pos (bits_set pos' len' v h)) = take_bit len (drop_bit pos h)"
    using assms by (intro bit_eqI) (auto simp: bit_bits_set bit_simps)
  then show ?thesis
    by (simp add: bits_get_def)
qed

lemmas header_bits = h_type_def h_qos_def h_dup_def h_retain_def set_type_def set_qos_def set_dup_def set_retain_def

lemma header_simps [simp]:
  "h_type (set_type v h) = v mod 16" "h_type (set_qos v h) = h_type h" "h_type (set_dup v h) = h_type h" "h_type (set_retain v h) = h_type h"
  "h_qos (set_type v h) = h_qos h" "h_qos (set_qos v h) = v mod 4" "h_qos (set_dup v h) = h_qos h" "h_qos (set_retain v h) = h_qos h"
  "h_dup (set_type v h) = h_dup h" "h_dup (set_qos v h) = h_dup h" "h_dup (set_dup v h) = v mod 2" "h_dup (set_retain v h) = h_dup h"
  "h_retain (set_type v h) = h_retain h" "h_retain (set_qos v h) = h_retain h" "h_retain (set_dup v h) = h_retain h" "h_retain (set_retain v h) = v mod 2"
  by (simp_all add: header_bits bits_get_set_same bits_get_set_other)

text \<open>The value of the uninitialised byte does not matter.\<close>

lemma full_header_uninit: "full_header type dup qos retain u = full_header type dup qos retain 0"
proof (rule bit_eqI)
  fix n
  assume "possible_bit TYPE(8 word) n"
  then have "n < 8"
    by simp
  then show "bit (full_header type dup qos retain u) n = bit (full_header type dup qos retain 0) n"
    by (auto simp: full_header_def header_bits bit_bits_set)
qed

lemma full_header_simps [simp]:
  "h_type (full_header type dup qos retain u) = type mod 16" "h_qos (full_header type dup qos retain u) = qos mod 4"
  "h_dup (full_header type dup qos retain u) = dup mod 2" "h_retain (full_header type dup qos retain u) = retain mod 2"
  by (simp_all add: full_header_def)

section \<open>What the buffers hold\<close>

definition filled :: "nat \<Rightarrow> byte list \<Rightarrow> cursor" where
  "filled n bs = (map Some bs @ replicate (n - length bs) None, length bs)"

definition int_bytes :: "int \<Rightarrow> byte list" where
  "int_bytes i = [of_int (i sdiv 256), of_int (i smod 256)]"

definition utf_bytes :: "byte list \<Rightarrow> byte list" where
  "utf_bytes s = int_bytes (int (length (c_bytes s))) @ c_bytes s"

lemma length_int_bytes [simp]: "length (int_bytes i) = 2"
  by (simp add: int_bytes_def)

lemma length_utf_bytes [simp]: "length (utf_bytes s) = utf_len s"
  by (simp add: utf_bytes_def utf_len_def)

lemma malloc_filled: "malloc n = filled n []"
  by (simp add: malloc_def filled_def)

lemma writeChar_filled: "length bs < n \<Longrightarrow> writeChar c (filled n bs) = Some (filled n (bs @ [c]))"
proof -
  assume "length bs < n"
  then obtain k where "n - length bs = Suc k"
    by (metis Suc_diff_Suc)
  then show ?thesis
    using \<open>length bs < n\<close> by (simp add: writeChar_def filled_def list_update_append)
qed

lemma writeInt_filled: "length bs + 2 \<le> n \<Longrightarrow> writeInt i (filled n bs) = Some (filled n (bs @ int_bytes i))"
  by (simp add: writeInt_def writeChar_filled int_bytes_def)

lemma writeUTF_filled:
  "length bs + utf_len s \<le> n \<Longrightarrow> n < 2 ^ 31 \<Longrightarrow> writeUTF s (filled n bs) = Some (filled n (bs @ utf_bytes s))"
  by (simp add: writeUTF_def writeInt_filled utf_len_def utf_bytes_def Let_def)
    (simp add: filled_def mem_write_def)

lemma read_filled: "length bs = n \<Longrightarrow> mem_read 0 n (fst (filled n bs)) = Some bs"
proof -
  have "those (map Some bs) = Some bs"
    by (induction bs) auto
  then show "length bs = n \<Longrightarrow> ?thesis"
    by (simp add: filled_def mem_read_def)
qed

lemmas fill_simps = malloc_filled writeChar_filled writeInt_filled writeUTF_filled read_filled

lemma write_topics_filled:
  "length bs + sum_list (map utf_len ts) \<le> n \<Longrightarrow> n < 2 ^ 31 \<Longrightarrow>
    write_topics ts (filled n bs) = Some (filled n (bs @ concat (map utf_bytes ts)))"
  by (induction ts arbitrary: bs) (simp_all add: writeUTF_filled)

lemma write_topics_qoss_filled:
  "length ts \<le> length qs \<Longrightarrow> length bs + sum_list (map (\<lambda>t. utf_len t + 1) ts) \<le> n \<Longrightarrow> n < 2 ^ 31 \<Longrightarrow>
    write_topics_qoss ts qs (filled n bs) = Some (filled n (bs @ concat (map (\<lambda>(t, q). utf_bytes t @ [of_int q]) (zip ts qs))))"
proof (induction ts arbitrary: bs qs)
  case (Cons t ts)
  then obtain q qs' where qs: "qs = q # qs'"
    by (cases qs) auto
  then show ?case
    using Cons by (simp add: writeUTF_filled writeChar_filled)
qed simp

lemma int_bytes_value:
  assumes "0 \<le> i" "i < 65536"
  shows "readInt (map Some (pre @ int_bytes i @ post)) (length pre) = Some (i, length pre + 2)"
proof -
  have "i sdiv 256 = i div 256" "i smod 256 = i mod 256"
    using assms by (simp_all add: signed_divide_int_def signed_modulo_int_def sgn_if)
  moreover have "uint (of_int (i div 256) :: byte) = i div 256" "uint (of_int (i mod 256) :: byte) = i mod 256"
    using assms by (simp_all add: of_int_uint uint_word_of_int take_bit_eq_mod div_pos_pos_trivial)
  ultimately show ?thesis
    by (simp add: readInt_def int_bytes_def fetch_def nth_append)
qed

section \<open>The remaining length\<close>

lemma encode_nat:
  "MQTTPacket_encode (int n) =
     (if n < 128 then [of_nat n] else (of_nat (n mod 128) OR 0x80) # MQTTPacket_encode (int (n div 128)))"
proof -
  have "int n sdiv 128 = int (n div 128)" "int n smod 128 = int (n mod 128)"
    by (simp_all add: signed_divide_int_def signed_modulo_int_def sgn_if zdiv_int zmod_int)
  then show ?thesis
    by (subst MQTTPacket_encode.simps) (auto simp: Let_def div_eq_0_iff)
qed

lemma length_byte_value:
  assumes "m < 128"
  shows "unat ((of_nat m :: byte) AND 127) = m" "(of_nat m :: byte) AND 128 = 0"
    "unat (((of_nat m :: byte) OR 0x80) AND 127) = m" "((of_nat m :: byte) OR 0x80) AND 128 \<noteq> 0"
proof -
  have "m \<in> set [0..<128]"
    using assms by simp
  moreover have "\<forall>m \<in> set [0..<128]. unat ((of_nat m :: byte) AND 127) = m \<and> (of_nat m :: byte) AND 128 = 0 \<and>
      unat (((of_nat m :: byte) OR 0x80) AND 127) = m \<and> ((of_nat m :: byte) OR 0x80) AND 128 \<noteq> 0"
    by code_simp
  ultimately show "unat ((of_nat m :: byte) AND 127) = m" "(of_nat m :: byte) AND 128 = 0"
    "unat (((of_nat m :: byte) OR 0x80) AND 127) = m" "((of_nat m :: byte) OR 0x80) AND 128 \<noteq> 0"
    by blast+
qed

lemma rem_len_encode:
  "0 < k \<or> 0 < n \<Longrightarrow> rem_len k m v (MQTTPacket_encode (int n) @ xs) = (if n < 128 ^ k then Got (v + n * m, xs) else Bad)"
proof (induction k arbitrary: n m v)
  case 0
  then show ?case
    by simp
next
  case (Suc k)
  show ?case
  proof (cases "n < 128")
    case True
    then have "n < 128 ^ Suc k"
      using less_le_trans [of n 128 "128 * 128 ^ k"] by simp
    then show ?thesis
      using True length_byte_value [OF True] by (subst encode_nat) simp
  next
    case False
    have "n mod 128 < 128"
      by simp
    note b = length_byte_value [OF this]
    have "n * m = (n mod 128 + 128 * (n div 128)) * m"
      by (simp only: mod_mult_div_eq)
    then have "v + n mod 128 * m + n div 128 * (m * 128) = v + n * m"
      by (simp only: distrib_left mult.assoc mult.commute mult.left_commute add.assoc)
    moreover have "n div 128 < 128 ^ k \<longleftrightarrow> n < 128 ^ Suc k"
      by (simp add: div_less_iff_less_mult mult.commute)
    ultimately show ?thesis
      using False Suc.IH [of "n div 128" "m * 128" "v + n mod 128 * m"] b(3,4) div_greater_zero_iff [of n 128] by (subst encode_nat) (simp add: Let_def)
  qed
qed

lemma encode_nonempty [simp]: "MQTTPacket_encode i \<noteq> []"
  by (subst MQTTPacket_encode.simps) (simp add: Let_def)

lemma length_encode: "length (MQTTPacket_encode (int n)) \<le> Suc k \<longleftrightarrow> n < 128 ^ Suc k"
proof (induction k arbitrary: n)
  case 0
  then show ?case
    by (subst encode_nat) simp
next
  case (Suc k)
  have "n div 128 < 128 ^ Suc k \<longleftrightarrow> n < 128 ^ Suc (Suc k)"
    by (simp add: div_less_iff_less_mult mult.commute mult.left_commute)
  then show ?case
    using Suc [of "n div 128"] less_le_trans [of n 128 "128 * (128 * 128 ^ k)"] by (subst encode_nat) simp
qed

definition wire :: "byte \<Rightarrow> byte list \<Rightarrow> byte list" where
  "wire h b = h # MQTTPacket_encode (int (length b)) @ b"

lemma frame_wire: "length b < 2 ^ 28 \<Longrightarrow> frame (wire h b @ rest) = Got (h, b, rest)"
  using rem_len_encode [of 4 "length b" 1 0 "b @ rest"] by (simp add: wire_def frame.simps del: rem_len.simps)

section \<open>What a send does\<close>

text \<open>
  The packet is refused, or its bytes are queued behind everything queued on its socket; other sockets are not touched.
\<close>

definition sent_as :: "int \<Rightarrow> byte list \<Rightarrow> net \<Rightarrow> int \<times> net \<Rightarrow> bool" where
  "sent_as s bytes st res \<longleftrightarrow> (case res of (rc, st') \<Rightarrow> w_inv st' \<and> (\<forall>s'. s' \<noteq> s \<longrightarrow> queued s' st' = queued s' st) \<and>
     (no_write_error st \<longrightarrow> no_write_error st') \<and> persistence st' = persistence st \<and>
     (rc = TCPSOCKET_COMPLETE \<or> rc = TCPSOCKET_INTERRUPTED \<or> rc = SOCKET_ERROR) \<and>
     queued s st' = queued s st @ (if rc = SOCKET_ERROR then [] else bytes) \<and>
     (rc \<noteq> SOCKET_ERROR \<longrightarrow> pending s st = []) \<and>
     (rc = TCPSOCKET_COMPLETE \<longrightarrow> pending s st' = []) \<and>
     (no_write_error st \<longrightarrow> s \<notin> set (fst (write_pending st)) \<longrightarrow> rc \<noteq> SOCKET_ERROR))"

lemma write_frames [simp]:
  "w_inv (st\<lparr>last_sent := x\<rparr>) = w_inv st" "w_inv (st\<lparr>net_freed := y\<rparr>) = w_inv st" "w_inv (st\<lparr>persisted := z\<rparr>) = w_inv st"
  "queued s (st\<lparr>last_sent := x\<rparr>) = queued s st" "queued s (st\<lparr>net_freed := y\<rparr>) = queued s st" "queued s (st\<lparr>persisted := z\<rparr>) = queued s st"
  "pending s (st\<lparr>last_sent := x\<rparr>) = pending s st" "pending s (st\<lparr>net_freed := y\<rparr>) = pending s st" "pending s (st\<lparr>persisted := z\<rparr>) = pending s st"
  "no_write_error (st\<lparr>last_sent := x\<rparr>) = no_write_error st" "no_write_error (st\<lparr>net_freed := y\<rparr>) = no_write_error st"
  "no_write_error (st\<lparr>persisted := z\<rparr>) = no_write_error st"
  by (simp_all add: w_inv_def queued_def pending_def no_write_error_def)

lemma sent_as_later:
  "sent_as s bytes st (rc, sent_now s' rc buf st') = sent_as s bytes st (rc, st')"
  "sent_as s bytes st (rc, free_sent rc bufs st') = sent_as s bytes st (rc, st')"
  by (simp_all add: sent_as_def sent_now_def free_sent_def Let_def)

lemma putdatas_persistence: "Socket_putdatas s b bs fs st = Some (rc, st') \<Longrightarrow> persistence st' = persistence st"
  by (auto simp: Socket_putdatas_def Socket_noPendingWrites_def Socket_writev_def SocketBuffer_pendingWrite_def Let_def
      split: prod.splits sum.splits if_splits)

lemma pending_socket: "w_inv st \<Longrightarrow> s \<notin> set (fst (write_pending st)) \<Longrightarrow> pending s st = []"
  by (rule pending_none) (auto simp: w_inv_def)

lemma putdatas_sent_as:
  assumes "w_inv st" "length buffers \<le> 4" "length frees = length buffers"
  shows "\<exists>res. Socket_putdatas s buf0 buffers frees st = Some res \<and> sent_as s (concat (buf0 # buffers)) st res"
proof -
  from putdatas_spec [OF assms, of s buf0] obtain rc st' where p: "Socket_putdatas s buf0 buffers frees st = Some (rc, st')" "w_inv st'"
    "\<forall>s'. s' \<noteq> s \<longrightarrow> queued s' st' = queued s' st" "no_write_error st \<longrightarrow> no_write_error st'"
    "rc = TCPSOCKET_COMPLETE \<or> rc = TCPSOCKET_INTERRUPTED \<longrightarrow> s \<notin> set (fst (write_pending st)) \<and> queued s st' = queued s st @ concat (buf0 # buffers)"
    "rc = TCPSOCKET_COMPLETE \<longrightarrow> pending s st' = []" "rc = TCPSOCKET_INTERRUPTED \<longrightarrow> pending s st' \<noteq> []"
    "rc \<noteq> TCPSOCKET_COMPLETE \<longrightarrow> rc \<noteq> TCPSOCKET_INTERRUPTED \<longrightarrow> rc = SOCKET_ERROR \<and> queued s st' = queued s st"
    "no_write_error st \<longrightarrow> s \<notin> set (fst (write_pending st)) \<longrightarrow> rc \<noteq> SOCKET_ERROR"
    by blast
  moreover have "TCPSOCKET_COMPLETE \<noteq> SOCKET_ERROR" "TCPSOCKET_INTERRUPTED \<noteq> SOCKET_ERROR"
    by (simp_all add: socket_codes)
  ultimately have "sent_as s (concat (buf0 # buffers)) st (rc, st')"
    using putdatas_persistence [OF p(1)] pending_socket [OF assms(1)] unfolding sent_as_def by auto
  with p(1) show ?thesis
    by blast
qed

lemma put_stores:
  assumes "persistence st socket \<noteq> None" "htype = PUBREL \<or> htype = PUBLISH"
  shows "\<exists>rc st'. MQTTPersistence_put socket bufs htype msgId 0 st = Some (rc, st') \<and> (st' = st \<or> (\<exists>z. st' = st\<lparr>persisted := z\<rparr>))"
proof (cases "the (persistence st socket)")
  case None
  then show ?thesis
    using assms(1) by (auto simp: MQTTPersistence_put_def)
next
  case (Some pput)
  define key where "key = (if htype = PUBREL then PERSISTENCE_PUBREL else PERSISTENCE_PUBLISH_SENT) @ dec_of_int msgId"
  have "MQTTPersistence_put socket bufs htype msgId 0 st = Some (pput key bufs, st\<lparr>persisted := persisted st @ [(socket, key, bufs)]\<rparr>)"
    using Some assms by (auto simp: MQTTPersistence_put_def key_def PUBLISH_def PUBREL_def)
  then show ?thesis
    by blast
qed

lemma sent_as_persisted: "sent_as s bytes (st\<lparr>persisted := z\<rparr>) = sent_as s bytes st"
  by (simp add: sent_as_def fun_eq_iff)

lemma readInt_two: "2 \<le> length b \<Longrightarrow> \<exists>i. readInt (map Some b) 0 = Some (i, 2)"
  by (cases b; cases "tl b") (auto simp: readInt_def fetch_def)

lemma encode_fits: "n < 2 ^ 31 \<Longrightarrow> length (MQTTPacket_encode (int n)) \<le> 5"
  using length_encode [of n 4] by simp

lemma store_step:
  assumes "P \<longrightarrow> (\<exists>i n. r = Some (i, n)) \<and> persistence st s \<noteq> None \<and> (htype = PUBREL \<or> htype = PUBLISH)"
  shows "\<exists>st1. (if P then do { (msgId, _) \<leftarrow> r; (_, st') \<leftarrow> MQTTPersistence_put s bufs htype msgId 0 st; Some st' } else Some st) = Some st1 \<and>
    (st1 = st \<or> (\<exists>z. st1 = st\<lparr>persisted := z\<rparr>))"
proof (cases P)
  case True
  then obtain i n where r: "r = Some (i, n)"
    using assms by blast
  with True put_stores [of st s htype bufs i] assms show ?thesis
    by auto
qed simp

lemma put_after_store:
  assumes "st1 = st \<or> (\<exists>z. st1 = st\<lparr>persisted := z\<rparr>)" "w_inv st" "length buffers \<le> 4" "length frees = length buffers"
  shows "\<exists>rc st2. Socket_putdatas s buf buffers frees st1 = Some (rc, st2) \<and> sent_as s (concat (buf # buffers)) st (rc, st2)"
proof -
  have "w_inv st1" "sent_as s x st1 = sent_as s x st" for x
    using assms(1,2) sent_as_persisted by auto
  with putdatas_sent_as [of st1 buffers frees s buf] assms(3,4) show ?thesis
    by auto
qed

lemma send_sent_as:
  assumes "w_inv st" "length buffer < 2 ^ 31" "h_type header = PUBREL \<longrightarrow> 2 \<le> length buffer \<and> persistence st s \<noteq> None"
  shows "\<exists>rc st'. MQTTPacket_send s header buffer free st = Some (rc, st') \<and> sent_as s (wire header buffer) st (rc, st')"
proof -
  define buf where "buf = header # MQTTPacket_encode (int (length buffer))"
  have fits: "length buf \<le> 10"
    using encode_fits [OF assms(2)] by (simp add: buf_def)
  have "h_type header = PUBREL \<longrightarrow> (\<exists>i n. readInt (map Some buffer) 0 = Some (i, n)) \<and> persistence st s \<noteq> None \<and>
      (h_type header = PUBREL \<or> h_type header = PUBLISH)"
    using readInt_two [of buffer] assms(3) by auto
  from store_step [OF this, of "[buf, buffer]"] obtain st1 where st1: "(if h_type header = PUBREL then do {
         (msgId, _) \<leftarrow> readInt (map Some buffer) 0;
         (_, st') \<leftarrow> MQTTPersistence_put s [buf, buffer] (h_type header) msgId 0 st;
         Some st'
       } else Some st) = Some st1" "st1 = st \<or> (\<exists>z. st1 = st\<lparr>persisted := z\<rparr>)"
    by blast
  from put_after_store [OF st1(2) assms(1), of "[buffer]" "[free]" s buf] obtain rc st2 where
    "Socket_putdatas s buf [buffer] [free] st1 = Some (rc, st2)" "sent_as s (concat [buf, buffer]) st (rc, st2)"
    by auto
  then show ?thesis
    using assms(2) fits st1(1) unfolding MQTTPacket_send_def buf_def
    by (simp add: Let_def wire_def sent_as_later)
qed

lemma sends_sent_as:
  assumes "w_inv st" "length (concat buffers) < 2 ^ 31" "length buffers \<le> 4" "length frees = length buffers"
    "h_type header = PUBLISH \<and> h_qos header \<noteq> 0 \<longrightarrow> 2 < length buffers \<and> 2 \<le> length (buffers ! 2) \<and> persistence st s \<noteq> None"
  shows "\<exists>rc st'. MQTTPacket_sends s header buffers frees st = Some (rc, st') \<and> sent_as s (wire header (concat buffers)) st (rc, st')"
proof -
  let ?tot = "sum_list (map length buffers)"
  define buf where "buf = header # MQTTPacket_encode (int ?tot)"
  have tot: "?tot = length (concat buffers)"
    by (simp add: length_concat)
  have fits: "length buf \<le> 10"
    using encode_fits [of ?tot] assms(2) by (simp add: buf_def tot)
  have "h_type header = PUBLISH \<and> h_qos header \<noteq> 0 \<longrightarrow> (\<exists>i n. (load buffers 2 \<bind> (\<lambda>b. readInt (map Some b) 0)) = Some (i, n)) \<and>
      persistence st s \<noteq> None \<and> (h_type header = PUBREL \<or> h_type header = PUBLISH)"
    using readInt_two [of "buffers ! 2"] assms(5) by auto
  from store_step [OF this, of "buf # buffers", unfolded Option.bind_assoc] obtain st1 where st1: "(if h_type header = PUBLISH \<and> h_qos header \<noteq> 0 then do {
         b \<leftarrow> load buffers 2;
         (msgId, _) \<leftarrow> readInt (map Some b) 0;
         (_, st') \<leftarrow> MQTTPersistence_put s (buf # buffers) (h_type header) msgId 0 st;
         Some st'
       } else Some st) = Some st1" "st1 = st \<or> (\<exists>z. st1 = st\<lparr>persisted := z\<rparr>)"
    by (elim exE conjE)
  from put_after_store [OF st1(2) assms(1,3,4), of s buf] obtain rc st2 where
    "Socket_putdatas s buf buffers frees st1 = Some (rc, st2)" "sent_as s (concat (buf # buffers)) st (rc, st2)"
    by auto
  then have "MQTTPacket_sends s header buffers frees st = Some (rc, sent_now s rc buf st2)"
    using assms(2) fits unfolding MQTTPacket_sends_def Let_def buf_def [symmetric]
    by (simp add: st1(1) tot [symmetric] del: Option.bind_assoc)
  moreover have "concat (buf # buffers) = wire header (concat buffers)"
    by (simp add: buf_def wire_def tot)
  ultimately show ?thesis
    using \<open>sent_as s (concat (buf # buffers)) st (rc, st2)\<close> by (simp add: sent_as_later)
qed

section \<open>The packets\<close>

text \<open>The body of each packet, as the protocol lays it out.\<close>

definition publish_body :: "byte list \<Rightarrow> int \<Rightarrow> int \<Rightarrow> byte list \<Rightarrow> byte list" where
  "publish_body topic qos msgId payload = utf_bytes topic @ (if qos > 0 then int_bytes msgId else []) @ payload"

definition connect_body :: "connect_data \<Rightarrow> int \<Rightarrow> byte list" where
  "connect_body client v = utf_bytes (if v = 3 then MQIsdp else MQTT) @ [if v = 3 then 3 else 4, connect_flags client] @
     int_bytes (keepAliveInterval client) @ utf_bytes (clientID client) @
     (case will client of None \<Rightarrow> [] | Some w \<Rightarrow> utf_bytes (will_topic w) @ utf_bytes (will_msg w)) @
     (case username client of None \<Rightarrow> [] | Some u \<Rightarrow> utf_bytes u) @ (case password client of None \<Rightarrow> [] | Some p \<Rightarrow> utf_bytes p)"

definition subscribe_body :: "byte list list \<Rightarrow> int list \<Rightarrow> int \<Rightarrow> byte list" where
  "subscribe_body topics qoss msgid = int_bytes msgid @ concat (map (\<lambda>(t, q). utf_bytes t @ [of_int q]) (zip topics qoss))"

definition unsubscribe_body :: "byte list list \<Rightarrow> int \<Rightarrow> byte list" where
  "unsubscribe_body topics msgid = int_bytes msgid @ concat (map utf_bytes topics)"

definition ack_header :: "int \<Rightarrow> int \<Rightarrow> byte" where
  "ack_header type dup = (let header = set_dup dup (set_type type 0) in if type = PUBREL then set_qos 1 header else header)"

lemma ack_sent_as:
  assumes "w_inv st" "h_type (ack_header type dup) = PUBREL \<longrightarrow> persistence st s \<noteq> None"
  shows "\<exists>rc st'. MQTTPacket_send_ack type msgid dup s st = Some (rc, st') \<and> sent_as s (wire (ack_header type dup) (int_bytes msgid)) st (rc, st')"
proof -
  obtain rc st' where "MQTTPacket_send s (ack_header type dup) (int_bytes msgid) True st = Some (rc, st')"
    "sent_as s (wire (ack_header type dup) (int_bytes msgid)) st (rc, st')"
    using send_sent_as [of st "int_bytes msgid" "ack_header type dup" s True] assms by auto
  moreover have "\<exists>p. writeInt msgid (malloc 2) = Some (fst (filled 2 (int_bytes msgid)), p)"
    by (simp add: fill_simps) (simp add: filled_def)
  ultimately show ?thesis
    unfolding MQTTPacket_send_ack_def ack_header_def
    by (auto simp: Let_def read_filled sent_as_later split: if_splits)
qed

lemma connect_len_body: "v = 3 \<or> v = 4 \<Longrightarrow> length (connect_body client v) = connect_len client v"
  by (auto simp: connect_body_def connect_len_def utf_len_def c_bytes_def MQIsdp_def MQTT_def byte_of_char_def opt_len_def
      split: option.splits)

lemma send_body_sent_as:
  assumes "w_inv st" "length body < 2 ^ 31" "h_type header \<noteq> PUBREL"
  shows "\<exists>rc st'. do {
       (rc, st1) \<leftarrow> MQTTPacket_send s header body True st;
       Some (rc, free_sent rc [body] st1)
     } = Some (rc, st') \<and> sent_as s (wire header body) st (rc, st')"
proof -
  obtain rc st1 where "MQTTPacket_send s header body True st = Some (rc, st1)" "sent_as s (wire header body) st (rc, st1)"
    using send_sent_as [OF assms(1,2), of header s True] assms(3) by auto
  then show ?thesis
    by (simp add: sent_as_later)
qed

lemma connect_sent_as:
  assumes "w_inv st" "v = 3 \<or> v = 4" "connect_len client v < 2 ^ 31"
  shows "\<exists>rc st'. MQTTPacket_send_connect client v s st = Some (rc, st') \<and>
    sent_as s (wire (set_type CONNECT 0) (connect_body client v)) st (rc, st')"
proof -
  define n name lev where "n = connect_len client v" and "name = (if v = 3 then MQIsdp else MQTT)" and "lev = (if v = 3 then 3 else 4 :: byte)"
  define ws us ps where "ws = (case will client of None \<Rightarrow> [] | Some w \<Rightarrow> utf_bytes (will_topic w) @ utf_bytes (will_msg w))"
    and "us = (case username client of None \<Rightarrow> [] | Some u \<Rightarrow> utf_bytes u)" and "ps = (case password client of None \<Rightarrow> [] | Some p \<Rightarrow> utf_bytes p)"
  have body: "connect_body client v = utf_bytes name @ [lev, connect_flags client] @ int_bytes (keepAliveInterval client) @
      utf_bytes (clientID client) @ ws @ us @ ps"
    by (simp add: connect_body_def ws_def us_def ps_def name_def lev_def)
  then have len: "utf_len name + 4 + utf_len (clientID client) + length ws + length us + length ps = n" "n < 2 ^ 31"
    using connect_len_body [OF assms(2), of client] assms(3) by (simp_all add: n_def)
  have us: "writeUTF_opt (username client) (filled n bs) = Some (filled n (bs @ us))" if "length bs + length us \<le> n" for bs
    using that len(2) by (cases "username client") (auto simp: writeUTF_opt_def us_def writeUTF_filled)
  have ps: "writeUTF_opt (password client) (filled n bs) = Some (filled n (bs @ ps))" if "length bs + length ps \<le> n" for bs
    using that len(2) by (cases "password client") (auto simp: writeUTF_opt_def ps_def writeUTF_filled)
  have ws: "(case will client of None \<Rightarrow> Some (filled n bs)
      | Some w \<Rightarrow> do { p \<leftarrow> writeUTF (will_topic w) (filled n bs); writeUTF (will_msg w) p }) = Some (filled n (bs @ ws))"
    if "length bs + length ws \<le> n" for bs
    using that len(2) by (cases "will client") (auto simp: ws_def writeUTF_filled)
  have "MQTTPacket_send_connect client v s st = do {
       (rc, st1) \<leftarrow> MQTTPacket_send s (set_type CONNECT 0) (connect_body client v) True st;
       Some (rc, free_sent rc [connect_body client v] st1)
     }"
    using assms(2) len unfolding de_Morgan_disj [symmetric] MQTTPacket_send_connect_def n_def [symmetric] name_def [symmetric] lev_def [symmetric] body
    by (simp add: Let_def fill_simps us ps ws)
  then show ?thesis
    using send_body_sent_as [OF assms(1), of "connect_body client v" "set_type CONNECT 0" s] assms(3)
      connect_len_body [OF assms(2), of client] by (simp add: CONNECT_def PUBREL_def)
qed

lemma subscribe_sent_as:
  assumes "w_inv st" "length (subscribe_body topics qoss msgid) < 2 ^ 31" "length topics \<le> length qoss"
  shows "\<exists>rc st'. MQTTPacket_send_subscribe u topics qoss msgid dup s st = Some (rc, st') \<and>
    sent_as s (wire (full_header SUBSCRIBE dup 1 0 u) (subscribe_body topics qoss msgid)) st (rc, st')"
proof -
  have len: "length (concat (map (\<lambda>(t, q). utf_bytes t @ [of_int q]) (zip topics qoss))) =
      length topics * 3 + sum_list (map (length \<circ> c_bytes) topics)"
    using assms(3)
  proof (induction topics arbitrary: qoss)
    case (Cons t topics)
    then show ?case
      by (cases qoss) (auto simp: utf_len_def)
  qed simp
  have "sum_list (map (\<lambda>t. utf_len t + 1) topics) = length topics * 3 + sum_list (map (length \<circ> c_bytes) topics)"
    by (induction topics) (auto simp: utf_len_def)
  with len show ?thesis
    using send_body_sent_as [OF assms(1,2), of "full_header SUBSCRIBE dup 1 0 u" s] assms(2,3)
    by (simp add: SUBSCRIBE_def PUBREL_def MQTTPacket_send_subscribe_def subscribe_body_def Let_def fill_simps write_topics_qoss_filled)
qed

lemma unsubscribe_sent_as:
  assumes "w_inv st" "length (unsubscribe_body topics msgid) < 2 ^ 31"
  shows "\<exists>rc st'. MQTTPacket_send_unsubscribe u topics msgid dup s st = Some (rc, st') \<and>
    sent_as s (wire (full_header UNSUBSCRIBE dup 1 0 u) (unsubscribe_body topics msgid)) st (rc, st')"
proof -
  have "length (concat (map utf_bytes topics)) = length topics * 2 + sum_list (map (length \<circ> c_bytes) topics)"
    "sum_list (map utf_len topics) = length topics * 2 + sum_list (map (length \<circ> c_bytes) topics)"
    by (induction topics) (auto simp: utf_len_def)
  then show ?thesis
    using send_body_sent_as [OF assms, of "full_header UNSUBSCRIBE dup 1 0 u" s] assms(2)
    by (simp add: UNSUBSCRIBE_def PUBREL_def MQTTPacket_send_unsubscribe_def unsubscribe_body_def Let_def fill_simps write_topics_filled)
qed

lemma publish_sent_as:
  assumes "w_inv st" "0 \<le> qos" "qos \<le> 2" "persistence st s \<noteq> None" "0 \<le> pub_payloadlen p"
    "mem_read 0 (nat (pub_payloadlen p)) (pub_payload p) = Some payload"
    "length (publish_body (pub_topic p) qos (pub_msgId p) payload) < 2 ^ 31"
  shows "\<exists>rc st'. MQTTPacket_send_publish u p dup qos retained s st = Some (rc, st') \<and>
    sent_as s (wire (full_header PUBLISH dup qos retained u) (publish_body (pub_topic p) qos (pub_msgId p) payload)) st (rc, st')"
proof -
  define topic where "topic = c_bytes (pub_topic p)"
  let ?h = "full_header PUBLISH dup qos retained u" and ?tl = "int_bytes (int (length topic))" and ?id = "int_bytes (pub_msgId p)"
  have w: "writeInt i (malloc 2) = Some (fst (filled 2 (int_bytes i)), 2)" for i
    by (simp add: fill_simps) (simp add: filled_def)
  have body: "publish_body (pub_topic p) qos (pub_msgId p) payload =
      concat (if qos > 0 then [?tl, topic, ?id, payload] else [?tl, topic, payload])"
    by (simp add: publish_body_def utf_bytes_def topic_def)
  then have len: "length topic < 2 ^ 31"
    using assms(7) by (simp add: utf_len_def split: if_splits)
  show ?thesis
  proof (cases "qos > 0")
    case True
    with body sends_sent_as [OF assms(1), of "[?tl, topic, ?id, payload]" "[True, False, True, False]" ?h s] assms(4,7) obtain rc st' where
      "MQTTPacket_sends s ?h [?tl, topic, ?id, payload] [True, False, True, False] st = Some (rc, st')"
      "sent_as s (wire ?h (publish_body (pub_topic p) qos (pub_msgId p) payload)) st (rc, st')"
      by auto
    then show ?thesis
      using True len assms(5,6) unfolding MQTTPacket_send_publish_def topic_def [symmetric]
      by (simp add: Let_def w read_filled sent_as_later)
  next
    case False
    then have "qos = 0"
      using assms(2) by simp
    with body sends_sent_as [OF assms(1), of "[?tl, topic, payload]" "[True, False, False]" ?h s] assms(7) obtain rc st' where
      "MQTTPacket_sends s ?h [?tl, topic, payload] [True, False, False] st = Some (rc, st')"
      "sent_as s (wire ?h (publish_body (pub_topic p) qos (pub_msgId p) payload)) st (rc, st')"
      by auto
    then show ?thesis
      using \<open>qos = 0\<close> len assms(5,6) unfolding MQTTPacket_send_publish_def topic_def [symmetric]
      by (simp add: Let_def w read_filled sent_as_later)
  qed
qed

section \<open>What the receiver makes of it\<close>

lemma mem_read_part: "mem_read (length xs) (length ys) (map Some (xs @ ys @ zs)) = Some ys"
proof -
  have "those (map Some ys) = Some ys"
    by (induction ys) auto
  then show ?thesis
    by (simp add: mem_read_def)
qed

lemma parse_known:
  "h_type h = CONNACK \<Longrightarrow> parse h b = MQTTPacket_connack h (map Some b) (length b)"
  "h_type h = PUBLISH \<Longrightarrow> parse h b = MQTTPacket_publish h (map Some b) (length b)"
  "h_type h \<in> {PUBACK, PUBREC, PUBREL, PUBCOMP, UNSUBACK} \<Longrightarrow> parse h b = MQTTPacket_ack h (map Some b) (length b)"
  "h_type h \<in> {PINGREQ, PINGRESP, DISCONNECT} \<Longrightarrow> parse h b = MQTTPacket_header_only h (map Some b) (length b)"
  "h_type h \<in> {CONNECT, SUBSCRIBE, UNSUBSCRIBE} \<Longrightarrow> parse h b = Some None"
  by (auto simp: parse_def build_def new_packets_def msgTypes)

lemma parse_publish:
  assumes "h_type h = PUBLISH" "h_qos h = qos" "length (c_bytes topic) < 65536" "0 \<le> msgId" "msgId < 65536"
  shows "parse h (publish_body topic qos msgId payload) = Some (Some (Publish_packet
    \<lparr>pub_header = h, pub_topic = c_bytes topic, pub_topiclen = int (length (c_bytes topic)), pub_msgId = (if qos > 0 then msgId else 0),
     pub_payload = map Some payload, pub_payloadlen = int (length payload)\<rparr>))"
proof -
  let ?t = "c_bytes topic" and ?id = "if qos > 0 then int_bytes msgId else []"
  let ?b = "publish_body topic qos msgId payload" and ?tl = "int_bytes (int (length (c_bytes topic)))"
  have b: "?b = ?tl @ ?t @ ?id @ payload"
    by (simp add: publish_body_def utf_bytes_def)
  have "readInt (map Some ?b) 0 = Some (int (length ?t), 2)"
    using int_bytes_value [of "int (length ?t)" "[]" "?t @ ?id @ payload"] assms(3) b by simp
  moreover have "mem_read 2 (length ?t) (map Some ?b) = Some ?t"
    using mem_read_part [of ?tl ?t "?id @ payload"] b by simp
  ultimately have utf: "readUTFlen (map Some ?b) 0 (length ?b) 0 = Some (Some ?t, int (length ?t), 2 + length ?t)"
    using b by (simp add: readUTFlen_def)
  have "qos > 0 \<Longrightarrow> readInt (map Some ?b) (2 + length ?t) = Some (msgId, 4 + length ?t)"
    using int_bytes_value [OF assms(4,5), of "?tl @ ?t" payload] b by simp
  with utf show ?thesis
    unfolding parse_known(2) [OF assms(1)] MQTTPacket_publish_def assms(2)
    by (cases "qos > 0") (simp_all add: b)
qed

lemma parse_ack:
  assumes "h_type h \<in> {PUBACK, PUBREC, PUBREL, PUBCOMP}" "0 \<le> msgId" "msgId < 65536"
  shows "parse h (int_bytes msgId) = Some (Some (Ack h msgId))"
  using int_bytes_value [OF assms(2,3), of "[]" "[]"] parse_known(3) [of h "int_bytes msgId"] assms(1)
  by (auto simp: MQTTPacket_ack_def)

text \<open>The length of a string is written in two bytes only.\<close>

lemma int_bytes_wraps:
  assumes "n < 2 ^ 31"
  shows "readInt (map Some (int_bytes (int n) @ post)) 0 = Some (int (n mod 65536), 2)"
proof -
  have "int n sdiv 256 = int (n div 256)" "int n smod 256 = int (n mod 256)"
    by (simp_all add: signed_divide_int_def signed_modulo_int_def sgn_if zdiv_int zmod_int)
  moreover have "uint (of_int (int k) :: byte) = int (k mod 256)" for k
    by (simp add: unsigned_of_nat take_bit_eq_mod zmod_int)
  moreover have "256 * (n div 256 mod 256) + n mod 256 = n mod 65536"
    using mod_mult2_eq [of n 256 256] by simp
  then have "256 * int (n div 256 mod 256) + int (n mod 256) = int (n mod 65536)"
    by linarith
  ultimately show ?thesis
    by (simp add: readInt_def int_bytes_def fetch_def nth_append del: of_int_of_nat_eq)
qed

text \<open>
  A topic of 64 KB or more is sent with its length modulo 65536. The packet is well-formed, so the receiver accepts
  it with another topic, and the rest of the topic becomes the beginning of the payload.
\<close>

theorem long_topic_misread:
  assumes "h_type h = PUBLISH" "h_qos h = 0" "length (c_bytes topic) < 2 ^ 31"
  shows "parse h (publish_body topic 0 msgId payload) = Some (Some (Publish_packet
    \<lparr>pub_header = h, pub_topic = take (length (c_bytes topic) mod 65536) (c_bytes topic),
     pub_topiclen = int (length (c_bytes topic) mod 65536), pub_msgId = 0,
     pub_payload = map Some (drop (length (c_bytes topic) mod 65536) (c_bytes topic) @ payload),
     pub_payloadlen = int (length (c_bytes topic) - length (c_bytes topic) mod 65536 + length payload)\<rparr>))"
proof -
  define t k where "t = c_bytes topic" and "k = length t mod 65536"
  let ?b = "publish_body topic 0 msgId payload"
  have k: "k \<le> length t"
    unfolding k_def by (rule mod_less_eq_dividend)
  have b: "?b = int_bytes (int (length t)) @ take k t @ drop k t @ payload"
    by (simp add: publish_body_def utf_bytes_def t_def)
  have "?b = int_bytes (int (length t)) @ t @ payload"
    by (simp add: b)
  then have "readInt (map Some ?b) 0 = Some (int k, 2)"
    using int_bytes_wraps [of "length t" "t @ payload"] assms(3) by (simp add: k_def t_def)
  moreover have "mem_read 2 k (map Some ?b) = Some (take k t)"
    using mem_read_part [of "int_bytes (int (length t))" "take k t" "drop k t @ payload"] k b by (simp add: min_absorb2)
  moreover have "length ?b = 2 + length t + length payload"
    using k by (simp add: b)
  moreover have "drop (2 + k) (map Some ?b) = map Some (drop k t @ payload)"
    using k by (simp add: b)
  ultimately show ?thesis
    using k unfolding parse_known(2) [OF assms(1)] MQTTPacket_publish_def assms(2) t_def [symmetric] k_def [symmetric]
    by (simp add: readUTFlen_def of_nat_diff)
qed

definition demo_topic :: "byte list" where
  "demo_topic = replicate 65538 97"

theorem long_topic_misread_witness:
  "length demo_topic = 65538 \<and> parse 0x30 (publish_body demo_topic 0 7 [104]) = Some (Some (Publish_packet
    \<lparr>pub_header = 0x30, pub_topic = take 2 demo_topic, pub_topiclen = 2, pub_msgId = 0,
     pub_payload = map Some (drop 2 demo_topic @ [104]), pub_payloadlen = 65537\<rparr>))"
proof -
  have "c_bytes (replicate n 97) = replicate n 97" for n
    by (simp add: c_bytes_def takeWhile_eq_all_conv)
  then have c: "c_bytes demo_topic = demo_topic" "length demo_topic = 65538"
    unfolding demo_topic_def by (blast, simp only: length_replicate)
  have "h_type 0x30 = PUBLISH" "h_qos 0x30 = 0"
    by (code_simp, code_simp)
  from long_topic_misread [OF this, of demo_topic 7 "[104]"] show ?thesis
    by (simp add: c)
qed

end
