(* ===== verification/Mqtt_Delivery.thy ===== *)
theory Mqtt_Delivery
  imports Mqtt_Send
begin

text \<open>
  From sender to receiver: the packets that are sent on a socket, whatever parts of them each system call takes, come out
  of the packet reader at the other end, whatever pieces they arrive in.
\<close>

section \<open>Calls\<close>

datatype send_op =
    Publish_op Publish int int int
  | Puback_op int
  | Pubrec_op int
  | Pubrel_op int int
  | Pubcomp_op int
  | Pingreq_op
  | Disconnect_op
  | Connect_op connect_data int
  | Subscribe_op "byte list list" "int list" int int
  | Unsubscribe_op "byte list list" int int

fun send_one :: "send_op \<Rightarrow> int \<Rightarrow> net \<Rightarrow> (int \<times> net) option" where
  "send_one (Publish_op pack dup qos retained) s st = MQTTPacket_send_publish 0 pack dup qos retained s st"
| "send_one (Puback_op msgid) s st = MQTTPacket_send_puback msgid s st"
| "send_one (Pubrec_op msgid) s st = MQTTPacket_send_pubrec msgid s st"
| "send_one (Pubrel_op msgid dup) s st = MQTTPacket_send_pubrel msgid dup s st"
| "send_one (Pubcomp_op msgid) s st = MQTTPacket_send_pubcomp msgid s st"
| "send_one Pingreq_op s st = MQTTPacket_send_pingreq s st"
| "send_one Disconnect_op s st = MQTTPacket_send_disconnect s st"
| "send_one (Connect_op client v) s st = MQTTPacket_send_connect client v s st"
| "send_one (Subscribe_op topics qoss msgid dup) s st = MQTTPacket_send_subscribe 0 topics qoss msgid dup s st"
| "send_one (Unsubscribe_op topics msgid dup) s st = MQTTPacket_send_unsubscribe 0 topics msgid dup s st"

text \<open>The header and the body of the packet.\<close>

fun op_header :: "send_op \<Rightarrow> byte" where
  "op_header (Publish_op pack dup qos retained) = full_header PUBLISH dup qos retained 0"
| "op_header (Puback_op msgid) = ack_header PUBACK 0"
| "op_header (Pubrec_op msgid) = ack_header PUBREC 0"
| "op_header (Pubrel_op msgid dup) = ack_header PUBREL dup"
| "op_header (Pubcomp_op msgid) = ack_header PUBCOMP 0"
| "op_header Pingreq_op = set_type PINGREQ 0"
| "op_header Disconnect_op = set_type DISCONNECT 0"
| "op_header (Connect_op client v) = set_type CONNECT 0"
| "op_header (Subscribe_op topics qoss msgid dup) = full_header SUBSCRIBE dup 1 0 0"
| "op_header (Unsubscribe_op topics msgid dup) = full_header UNSUBSCRIBE dup 1 0 0"

definition pub_bytes :: "Publish \<Rightarrow> byte list" where
  "pub_bytes p = the (mem_read 0 (nat (pub_payloadlen p)) (pub_payload p))"

fun op_body :: "send_op \<Rightarrow> byte list" where
  "op_body (Publish_op pack dup qos retained) = publish_body (pub_topic pack) qos (pub_msgId pack) (pub_bytes pack)"
| "op_body (Puback_op msgid) = int_bytes msgid"
| "op_body (Pubrec_op msgid) = int_bytes msgid"
| "op_body (Pubrel_op msgid dup) = int_bytes msgid"
| "op_body (Pubcomp_op msgid) = int_bytes msgid"
| "op_body (Connect_op client v) = connect_body client v"
| "op_body (Subscribe_op topics qoss msgid dup) = subscribe_body topics qoss msgid"
| "op_body (Unsubscribe_op topics msgid dup) = unsubscribe_body topics msgid"
| "op_body _ = []"

definition id_ok :: "int \<Rightarrow> bool" where
  "id_ok msgid \<longleftrightarrow> 0 \<le> msgid \<and> msgid < 65536"

definition short :: "byte list \<Rightarrow> bool" where
  "short s \<longleftrightarrow> length (c_bytes s) < 65536"

definition connect_ok :: "connect_data \<Rightarrow> bool" where
  "connect_ok client \<longleftrightarrow> short (clientID client) \<and> 0 \<le> keepAliveInterval client \<and> keepAliveInterval client < 65536 \<and>
     (cleansession client = 0 \<or> cleansession client = 1) \<and> pred_option short (username client) \<and> pred_option short (password client) \<and>
     pred_option (\<lambda>w. short (will_topic w) \<and> short (will_msg w) \<and> 0 \<le> will_qos w \<and> will_qos w \<le> 2 \<and> (will_retained w = 0 \<or> will_retained w = 1)) (will client)"

text \<open>Packets the protocol can express: identifiers of two bytes, topics below 64 KB, a remaining length of four bytes.\<close>

fun op_ok :: "send_op \<Rightarrow> bool" where
  "op_ok (Publish_op pack dup qos retained) \<longleftrightarrow> 0 \<le> qos \<and> qos \<le> 2 \<and> id_ok (pub_msgId pack) \<and> length (c_bytes (pub_topic pack)) < 65536 \<and>
     0 \<le> pub_payloadlen pack \<and> mem_read 0 (nat (pub_payloadlen pack)) (pub_payload pack) \<noteq> None \<and> length (op_body (Publish_op pack dup qos retained)) < 2 ^ 28"
| "op_ok (Puback_op msgid) \<longleftrightarrow> id_ok msgid"
| "op_ok (Pubrec_op msgid) \<longleftrightarrow> id_ok msgid"
| "op_ok (Pubrel_op msgid dup) \<longleftrightarrow> id_ok msgid"
| "op_ok (Pubcomp_op msgid) \<longleftrightarrow> id_ok msgid"
| "op_ok (Connect_op client v) \<longleftrightarrow> (v = 3 \<or> v = 4) \<and> connect_ok client \<and> length (connect_body client v) < 2 ^ 28"
| "op_ok (Subscribe_op topics qoss msgid dup) \<longleftrightarrow> id_ok msgid \<and> length topics = length qoss \<and> list_all short topics \<and>
     list_all (\<lambda>q. 0 \<le> q \<and> q \<le> 2) qoss \<and> length (subscribe_body topics qoss msgid) < 2 ^ 28"
| "op_ok (Unsubscribe_op topics msgid dup) \<longleftrightarrow> id_ok msgid \<and> list_all short topics \<and> length (unsubscribe_body topics msgid) < 2 ^ 28"
| "op_ok _ \<longleftrightarrow> True"

text \<open>What the receiver gets. Requests for a server are taken off the stream without a packet.\<close>

fun op_received :: "send_op \<Rightarrow> packet option \<times> int" where
  "op_received (Publish_op pack dup qos retained) =
     (Some (Publish_packet \<lparr>pub_header = full_header PUBLISH dup qos retained 0, pub_topic = c_bytes (pub_topic pack),
        pub_topiclen = int (length (c_bytes (pub_topic pack))), pub_msgId = (if qos > 0 then pub_msgId pack else 0),
        pub_payload = map Some (pub_bytes pack), pub_payloadlen = int (length (pub_bytes pack))\<rparr>), TCPSOCKET_COMPLETE)"
| "op_received (Puback_op msgid) = (Some (Ack (ack_header PUBACK 0) msgid), TCPSOCKET_COMPLETE)"
| "op_received (Pubrec_op msgid) = (Some (Ack (ack_header PUBREC 0) msgid), TCPSOCKET_COMPLETE)"
| "op_received (Pubrel_op msgid dup) = (Some (Ack (ack_header PUBREL dup) msgid), TCPSOCKET_COMPLETE)"
| "op_received (Pubcomp_op msgid) = (Some (Ack (ack_header PUBCOMP 0) msgid), TCPSOCKET_COMPLETE)"
| "op_received Pingreq_op = (Some (Header_only (set_type PINGREQ 0)), TCPSOCKET_COMPLETE)"
| "op_received Disconnect_op = (Some (Header_only (set_type DISCONNECT 0)), TCPSOCKET_COMPLETE)"
| "op_received _ = (None, TCPSOCKET_COMPLETE)"

lemma ack_header_simps [simp]:
  "h_type (ack_header type dup) = type mod 16" "h_dup (ack_header type dup) = dup mod 2" "h_retain (ack_header type dup) = h_retain 0"
  by (simp_all add: ack_header_def Let_def)

lemma pub_bytes_read:
  "mem_read 0 (nat (pub_payloadlen p)) (pub_payload p) \<noteq> None \<Longrightarrow>
    mem_read 0 (nat (pub_payloadlen p)) (pub_payload p) = Some (pub_bytes p)"
  by (auto simp: pub_bytes_def)

lemma op_body_length: "op_ok p \<Longrightarrow> length (op_body p) < 2 ^ 28"
  by (cases p) (auto simp: utf_len_def)

lemma send_one_sent_as:
  assumes "op_ok p" "w_inv st" "persistence st s \<noteq> None"
  shows "\<exists>rc st'. send_one p s st = Some (rc, st') \<and> sent_as s (wire (op_header p) (op_body p)) st (rc, st')"
proof (cases p)
  case (Publish_op pack dup qos retained)
  then show ?thesis
    using publish_sent_as [OF assms(2), of qos s pack "pub_bytes pack" 0 dup retained] assms(1,3) pub_bytes_read [of pack] by simp
next
  case (Connect_op client v)
  then show ?thesis
    using connect_sent_as [OF assms(2), of v client s] assms(1) connect_len_body [of v client] by auto
next
  case (Subscribe_op topics qoss msgid dup)
  then show ?thesis
    using subscribe_sent_as [OF assms(2), of topics qoss msgid 0 dup s] assms(1) by simp
next
  case (Unsubscribe_op topics msgid dup)
  then show ?thesis
    using unsubscribe_sent_as [OF assms(2), of topics msgid 0 dup s] assms(1) by simp
next
  case Pingreq_op
  then show ?thesis
    using send_sent_as [OF assms(2), of "[]" "set_type PINGREQ 0" s False]
    by (simp add: MQTTPacket_send_pingreq_def PINGREQ_def PUBREL_def)
next
  case Disconnect_op
  then show ?thesis
    using send_sent_as [OF assms(2), of "[]" "set_type DISCONNECT 0" s False]
    by (simp add: MQTTPacket_send_disconnect_def DISCONNECT_def PUBREL_def)
qed (use ack_sent_as [OF assms(2)] assms(3) in \<open>simp_all add: MQTTPacket_send_puback_def MQTTPacket_send_pubrec_def
    MQTTPacket_send_pubrel_def MQTTPacket_send_pubcomp_def\<close>)

lemma op_parse:
  assumes "op_ok p"
  shows "parse (op_header p) (op_body p) \<noteq> None"
    "op_received p = (map_option view (the (parse (op_header p) (op_body p))), parse_rc (op_header p) (op_body p))"
proof -
  have "\<exists>r. parse (op_header p) (op_body p) = Some r \<and> op_received p = (map_option view r, parse_rc (op_header p) (op_body p))"
  proof (cases p)
    case (Publish_op pack dup qos retained)
    then have "parse (op_header p) (op_body p) = Some (fst (op_received p))"
      using parse_publish [of "op_header p" qos "pub_topic pack" "pub_msgId pack" "pub_bytes pack"] assms
      by (simp add: id_ok_def PUBLISH_def)
    then show ?thesis
      using Publish_op by (simp add: parse_rc_def)
  qed (use assms in \<open>simp_all add: id_ok_def msgTypes parse_ack parse_known(4,5) parse_rc_def new_packets_def MQTTPacket_header_only_def\<close>)
  then show "parse (op_header p) (op_body p) \<noteq> None"
    "op_received p = (map_option view (the (parse (op_header p) (op_body p))), parse_rc (op_header p) (op_body p))"
    by auto
qed

section \<open>Requests for a server\<close>

text \<open>
  The library has no reader for CONNECT, SUBSCRIBE and UNSUBSCRIBE, which only a server receives. This one follows the layout of these
  packets in the MQTT specification: a string has its length in two bytes before it, the flags of a CONNECT packet say which of the
  optional strings follow, and topics follow each other up to the end of the packet.
\<close>

datatype request =
    Connect_request "byte list" byte connect_data
  | Subscribe_request int "(byte list \<times> int) list"
  | Unsubscribe_request int "byte list list"

fun take_number :: "byte list \<Rightarrow> (int \<times> byte list) option" where
  "take_number (a # b # bs) = Some (256 * uint a + uint b, bs)"
| "take_number _ = None"

definition take_string :: "byte list \<Rightarrow> (byte list \<times> byte list) option" where
  "take_string bs = do {
     (n, r) \<leftarrow> take_number bs;
     _ \<leftarrow> ensure (n \<le> int (length r));
     Some (take (nat n) r, drop (nat n) r)
   }"

definition take_optional :: "bool \<Rightarrow> byte list \<Rightarrow> (byte list option \<times> byte list) option" where
  "take_optional present bs = (if present then do { (s, r) \<leftarrow> take_string bs; Some (Some s, r) } else Some (None, bs))"

definition take_will :: "byte \<Rightarrow> byte list \<Rightarrow> (willMessages option \<times> byte list) option" where
  "take_will flags bs =
     (if bit flags 2 then do {
        (t, r1) \<leftarrow> take_string bs;
        (m, r2) \<leftarrow> take_string r1;
        Some (Some \<lparr>will_topic = t, will_msg = m, will_retained = bits_get 5 1 flags, will_qos = bits_get 3 2 flags\<rparr>, r2)
      }
      else Some (None, bs))"

definition read_connect :: "byte list \<Rightarrow> request option" where
  "read_connect bs = do {
     (name, r1) \<leftarrow> take_string bs;
     (level, flags, r2) \<leftarrow> (case r1 of l # f # r \<Rightarrow> Some (l, f, r) | _ \<Rightarrow> None);
     (keepalive, r3) \<leftarrow> take_number r2;
     (cid, r4) \<leftarrow> take_string r3;
     (w, r5) \<leftarrow> take_will flags r4;
     (user, r6) \<leftarrow> take_optional (bit flags 7) r5;
     (pass, r7) \<leftarrow> take_optional (bit flags 6) r6;
     _ \<leftarrow> ensure (r7 = []);
     Some (Connect_request name level \<lparr>clientID = cid, username = user, password = pass, cleansession = bits_get 1 1 flags,
       keepAliveInterval = keepalive, will = w\<rparr>)
   }"

lemma take_string_shorter: "take_string bs = Some (s, r) \<Longrightarrow> length r < length bs"
  by (cases bs rule: take_number.cases) (auto simp: take_string_def ensure_def split: if_splits)

function read_topics :: "byte list \<Rightarrow> byte list list option" where
  "read_topics bs =
     (if bs = [] then Some []
      else case take_string bs of
        None \<Rightarrow> None
      | Some (t, r) \<Rightarrow> map_option (Cons t) (read_topics r))"
  by pat_completeness auto
termination
  by (relation "measure length") (auto dest: take_string_shorter)

function read_filters :: "byte list \<Rightarrow> (byte list \<times> int) list option" where
  "read_filters bs =
     (if bs = [] then Some []
      else case take_string bs of
        Some (t, q # r) \<Rightarrow> map_option (Cons (t, uint q)) (read_filters r)
      | _ \<Rightarrow> None)"
  by pat_completeness auto
termination
  by (relation "measure length") (auto dest: take_string_shorter)

declare read_topics.simps [simp del] read_filters.simps [simp del]

definition server_reads :: "byte \<Rightarrow> byte list \<Rightarrow> request option" where
  "server_reads h b =
     (if h_type h = CONNECT then read_connect b
      else if h_type h = SUBSCRIBE then do { (k, r) \<leftarrow> take_number b; ts \<leftarrow> read_filters r; Some (Subscribe_request k ts) }
      else if h_type h = UNSUBSCRIBE then do { (k, r) \<leftarrow> take_number b; ts \<leftarrow> read_topics r; Some (Unsubscribe_request k ts) }
      else None)"

text \<open>What a server should read. Strings are sent up to their first NUL.\<close>

definition connect_contents :: "connect_data \<Rightarrow> connect_data" where
  "connect_contents client = client\<lparr>clientID := c_bytes (clientID client), username := map_option c_bytes (username client),
     password := map_option c_bytes (password client),
     will := map_option (\<lambda>w. w\<lparr>will_topic := c_bytes (will_topic w), will_msg := c_bytes (will_msg w)\<rparr>) (will client)\<rparr>"

fun op_request :: "send_op \<Rightarrow> request option" where
  "op_request (Connect_op client v) =
     Some (if v = 3 then Connect_request MQIsdp 3 (connect_contents client) else Connect_request MQTT 4 (connect_contents client))"
| "op_request (Subscribe_op topics qoss msgid dup) = Some (Subscribe_request msgid (zip (map c_bytes topics) qoss))"
| "op_request (Unsubscribe_op topics msgid dup) = Some (Unsubscribe_request msgid (map c_bytes topics))"
| "op_request _ = None"

lemma take_number_bytes: "id_ok i \<Longrightarrow> take_number (int_bytes i @ bs) = Some (i, bs)"
  using int_bytes_value [of i "[]" bs] by (simp add: id_ok_def int_bytes_def readInt_def fetch_def)

lemma take_string_bytes: "short s \<Longrightarrow> take_string (utf_bytes s @ bs) = Some (c_bytes s, bs)"
  using take_number_bytes [of "int (length (c_bytes s))" "c_bytes s @ bs"] by (simp add: take_string_def utf_bytes_def short_def id_ok_def)

lemma take_optional_bytes:
  "pred_option short s \<Longrightarrow> take_optional (s \<noteq> None) ((case s of None \<Rightarrow> [] | Some u \<Rightarrow> utf_bytes u) @ bs) = Some (map_option c_bytes s, bs)"
  by (cases s) (simp_all add: take_optional_def take_string_bytes)

lemma read_topics_bytes: "list_all short topics \<Longrightarrow> read_topics (concat (map utf_bytes topics)) = Some (map c_bytes topics)"
proof (induction topics)
  case (Cons t topics)
  have "utf_bytes t \<noteq> []"
    by (simp add: utf_bytes_def int_bytes_def)
  with Cons show ?case
    by (subst read_topics.simps) (simp add: take_string_bytes)
qed (simp add: read_topics.simps)

lemma read_filters_bytes:
  "list_all short topics \<Longrightarrow> list_all (\<lambda>q. 0 \<le> q \<and> q \<le> 2) qoss \<Longrightarrow> length topics = length qoss \<Longrightarrow>
    read_filters (concat (map (\<lambda>(t, q). utf_bytes t @ [of_int q]) (zip topics qoss))) = Some (zip (map c_bytes topics) qoss)"
proof (induction topics qoss rule: list_induct2')
  case (4 t topics q qoss)
  have "utf_bytes t \<noteq> []"
    by (simp add: utf_bytes_def int_bytes_def)
  moreover have "uint (of_int q :: byte) = q"
    using 4 by (simp add: uint_word_of_int take_bit_eq_mod)
  ultimately show ?case
    using 4 by (subst read_filters.simps) (simp add: take_string_bytes)
qed (simp_all add: read_filters.simps)

lemma connect_flag_bits:
  assumes "connect_ok client"
  shows "bits_get 1 1 (connect_flags client) = cleansession client" "bit (connect_flags client) 2 = (will client \<noteq> None)"
    "bit (connect_flags client) 7 = (username client \<noteq> None)" "bit (connect_flags client) 6 = (password client \<noteq> None)"
    "will client = Some w \<Longrightarrow> bits_get 5 1 (connect_flags client) = will_retained w \<and> bits_get 3 2 (connect_flags client) = will_qos w"
  using assms by (auto simp: connect_flags_def connect_ok_def Let_def bits_get_set_same bits_get_set_other bit_bits_set split: option.splits)

lemma take_will_bytes:
  assumes "connect_ok client"
  shows "take_will (connect_flags client) ((case will client of None \<Rightarrow> [] | Some w \<Rightarrow> utf_bytes (will_topic w) @ utf_bytes (will_msg w)) @ bs) =
    Some (map_option (\<lambda>w. w\<lparr>will_topic := c_bytes (will_topic w), will_msg := c_bytes (will_msg w)\<rparr>) (will client), bs)"
  using connect_flag_bits [OF assms] assms
  by (cases "will client") (auto simp: take_will_def take_string_bytes connect_ok_def)

lemma connect_contents_fields:
  "connect_contents client = \<lparr>clientID = c_bytes (clientID client), username = map_option c_bytes (username client),
     password = map_option c_bytes (password client), cleansession = cleansession client, keepAliveInterval = keepAliveInterval client,
     will = map_option (\<lambda>w. w\<lparr>will_topic := c_bytes (will_topic w), will_msg := c_bytes (will_msg w)\<rparr>) (will client)\<rparr>"
  by (simp add: connect_contents_def)

lemma read_connect_body:
  assumes "connect_ok client" "v = 3 \<or> v = 4"
  shows "read_connect (connect_body client v) = op_request (Connect_op client v)"
proof -
  have name: "short (if v = 3 then MQIsdp else MQTT)" "c_bytes (if v = 3 then MQIsdp else MQTT) = (if v = 3 then MQIsdp else MQTT)"
    by (simp_all add: short_def c_bytes_def MQIsdp_def MQTT_def byte_of_char_def)
  have ok: "id_ok (keepAliveInterval client)" "short (clientID client)" "pred_option short (username client)" "pred_option short (password client)"
    using assms(1) by (simp_all add: connect_ok_def id_ok_def)
  note flags = connect_flag_bits [OF assms(1)]
  show ?thesis
    using assms(2) ok name take_will_bytes [OF assms(1)] take_optional_bytes [OF ok(3)] take_optional_bytes [OF ok(4), of "[]"]
    unfolding read_connect_def connect_body_def
    by (auto simp: take_string_bytes take_number_bytes flags flags(1) [simplified] connect_contents_fields)
qed

lemma server_reads_op:
  assumes "op_ok p"
  shows "server_reads (op_header p) (op_body p) = op_request p"
proof (cases p)
  case (Connect_op client v)
  then show ?thesis
    using read_connect_body [of client v] assms by (simp add: server_reads_def CONNECT_def)
next
  case (Subscribe_op topics qoss msgid dup)
  then show ?thesis
    using assms by (simp add: server_reads_def subscribe_body_def take_number_bytes read_filters_bytes msgTypes)
next
  case (Unsubscribe_op topics msgid dup)
  then show ?thesis
    using assms by (simp add: server_reads_def unsubscribe_body_def take_number_bytes read_topics_bytes msgTypes)
qed (simp_all add: server_reads_def msgTypes)

text \<open>What a server reads from a stream.\<close>

function requests :: "byte list \<Rightarrow> request option list" where
  "requests bs =
     (case frame bs of
        Got (h, b, r) \<Rightarrow> server_reads h b # requests r
      | _ \<Rightarrow> [])"
  by pat_completeness auto
termination
  by (relation "measure length") (auto dest: frame_shorter)

declare requests.simps [simp del]

section \<open>Runs\<close>

datatype call = Send int send_op | Flush "int set" bool

fun call_ok :: "call \<Rightarrow> bool" where
  "call_ok (Send s p) \<longleftrightarrow> op_ok p"
| "call_ok (Flush pwset cb) \<longleftrightarrow> True"

text \<open>The result: the packets that were accepted, each with its socket.\<close>

fun exec_calls :: "call list \<Rightarrow> net \<Rightarrow> ((int \<times> send_op) list \<times> net) option" where
  "exec_calls [] st = Some ([], st)"
| "exec_calls (Send s p # calls) st = do {
     (rc, st1) \<leftarrow> send_one p s st;
     (acc, st2) \<leftarrow> exec_calls calls st1;
     Some (if rc \<noteq> SOCKET_ERROR then (s, p) # acc else acc, st2)
   }"
| "exec_calls (Flush pwset cb # calls) st = do { st1 \<leftarrow> Socket_continueWrites pwset cb st; exec_calls calls st1 }"

definition ops_for :: "int \<Rightarrow> (int \<times> send_op) list \<Rightarrow> send_op list" where
  "ops_for s acc = map snd (filter (\<lambda>(s', p). s' = s) acc)"

definition op_wire :: "send_op \<Rightarrow> byte list" where
  "op_wire p = wire (op_header p) (op_body p)"

lemma ops_for_simps [simp]:
  "ops_for s [] = []" "ops_for s ((s', p) # acc) = (if s' = s then [p] else []) @ ops_for s acc"
  by (simp_all add: ops_for_def)

definition no_more_pending :: "net \<Rightarrow> net \<Rightarrow> bool" where
  "no_more_pending st st' \<longleftrightarrow> persistence st' = persistence st \<and> set (fst (write_pending st')) \<subseteq> set (fst (write_pending st))"

lemma no_more_pending_trans: "no_more_pending st st1 \<Longrightarrow> no_more_pending st1 st2 \<Longrightarrow> no_more_pending st st2"
  by (auto simp: no_more_pending_def)

lemma continueWrite_pending: "Socket_continueWrite s st = Some (rc, st1) \<Longrightarrow> persistence st1 = persistence st \<and> write_pending st1 = write_pending st"
  by (auto simp: Socket_continueWrite_def SocketBuffer_getWrite_def Socket_writev_def Let_def
      split: prod.splits bind_splits sum.splits if_splits)

lemma finish_write_pending: "no_more_pending st (finish_write i s cb st)"
  using set_remove_nth [of i "fst (write_pending st)"] by (simp add: no_more_pending_def finish_write_def SocketBuffer_writeComplete_def Let_def split: prod.splits)

lemma continueWrites_pending:
  "Socket_continueWrites_loop pwset cb cur st = Some st' \<Longrightarrow> no_more_pending st st'"
proof (induction pwset cb cur st rule: Socket_continueWrites_loop.induct)
  case (1 pwset cb cur st)
  show ?case
  proof (cases cur)
    case None
    then show ?thesis
      using "1.prems" by (subst (asm) continueWrites_loop_eq) (simp add: no_more_pending_def)
  next
    case (Some i)
    let ?s = "fst (write_pending st) ! i"
    obtain rc st1 where c: "i < length (fst (write_pending st))"
      "(if ?s \<in> pwset then Socket_continueWrite ?s st else Some (0, st)) = Some (rc, st1)"
      using "1.prems" Some by (subst (asm) continueWrites_loop_eq) (auto split: if_splits option.splits)
    have p: "no_more_pending st st1"
      using c(2) continueWrite_pending by (auto simp: no_more_pending_def split: if_splits)
    show ?thesis
    proof (cases "rc = 0")
      case True
      with "1.IH"(2) [OF Some c(1) refl c(2) refl] "1.prems" no_more_pending_trans [OF p] show ?thesis
        unfolding Some by (subst (asm) (2) continueWrites_loop_eq) (simp only: option.case prod.case c True if_True simp_thms if_False)
    next
      case False
      with "1.IH"(1) [OF Some c(1) refl c(2) refl _ refl refl refl refl refl] "1.prems" no_more_pending_trans [OF no_more_pending_trans [OF p finish_write_pending [of st1 i ?s cb]]] show ?thesis
        unfolding Some
        by (subst (asm) (2) continueWrites_loop_eq)
          (simp only: option.case prod.case c False if_True simp_thms if_False finish_write_def Let_def, simp split: if_splits)
    qed
  qed
qed

lemma continueWrites_spec:
  assumes "w_inv st" "no_write_error st"
  shows "\<exists>st'. Socket_continueWrites pwset cb st = Some st' \<and> w_inv st' \<and> no_write_error st' \<and> (\<forall>s. queued s st' = queued s st) \<and>
    no_more_pending st st'"
proof -
  have "\<forall>i. (if fst (write_pending st) = [] then None else Some 0) = Some i \<longrightarrow> i < length (fst (write_pending st))"
    by simp
  from continueWrites_loop_spec [OF assms this, of pwset cb] show ?thesis
    unfolding Socket_continueWrites_def using continueWrites_pending by blast
qed

lemma exec_calls_spec:
  assumes "w_inv st" "no_write_error st" "list_all call_ok calls" "\<forall>s. persistence st s \<noteq> None"
  shows "\<exists>acc st'. exec_calls calls st = Some (acc, st') \<and> list_all (\<lambda>(s, p). op_ok p) acc \<and>
    (\<forall>s. queued s st' = queued s st @ concat (map op_wire (ops_for s acc))) \<and> w_inv st' \<and> no_write_error st' \<and>
    persistence st' = persistence st"
  using assms
proof (induction calls arbitrary: st)
  case (Cons c calls)
  show ?case
  proof (cases c)
    case (Send s p)
    then obtain rc st1 where p: "op_ok p" "send_one p s st = Some (rc, st1)" "sent_as s (op_wire p) st (rc, st1)"
      using send_one_sent_as [of p st s] Cons.prems by (auto simp: op_wire_def)
    then have st1: "w_inv st1" "no_write_error st1" "persistence st1 = persistence st"
      "\<forall>s'. queued s' st1 = queued s' st @ (if s' = s \<and> rc \<noteq> SOCKET_ERROR then op_wire p else [])"
      using Cons.prems(2) by (auto simp: sent_as_def)
    with Cons.IH [OF st1(1,2)] Cons.prems(3,4) obtain acc st2 where "exec_calls calls st1 = Some (acc, st2)"
      "list_all (\<lambda>(s, p). op_ok p) acc" "\<forall>s. queued s st2 = queued s st1 @ concat (map op_wire (ops_for s acc))"
      "w_inv st2" "no_write_error st2" "persistence st2 = persistence st1"
      by auto
    then show ?thesis
      using Send p st1(3,4) by (cases "rc = SOCKET_ERROR") auto
  next
    case (Flush pwset cb)
    obtain st1 where st1: "Socket_continueWrites pwset cb st = Some st1" "w_inv st1" "no_write_error st1"
      "\<forall>s. queued s st1 = queued s st" "persistence st1 = persistence st"
      using continueWrites_spec [OF Cons.prems(1,2)] unfolding no_more_pending_def by blast
    with Cons.IH [OF st1(2,3)] Cons.prems(3,4) show ?thesis
      using Flush by auto
  qed
qed simp

lemma received_wires:
  "list_all op_ok ps \<Longrightarrow> received (concat (map op_wire ps)) = map op_received ps \<and> stream_ok (concat (map op_wire ps))"
proof (induction ps)
  case Nil
  then show ?case
    by (simp add: received.simps stream_ok.simps frame.simps)
next
  case (Cons p ps)
  then have "frame (concat (map op_wire (p # ps))) = Got (op_header p, op_body p, concat (map op_wire ps))"
    using frame_wire [OF op_body_length] by (simp add: op_wire_def)
  with Cons op_parse [of p] show ?case
    by (auto simp: received.simps [of "op_wire p @ concat (map op_wire ps)"] stream_ok.simps [of "op_wire p @ concat (map op_wire ps)"])
qed

lemma requests_wires: "list_all op_ok ps \<Longrightarrow> requests (concat (map op_wire ps)) = map op_request ps"
proof (induction ps)
  case (Cons p ps)
  then have "frame (concat (map op_wire (p # ps))) = Got (op_header p, op_body p, concat (map op_wire ps))"
    using frame_wire [OF op_body_length] by (simp add: op_wire_def)
  with Cons server_reads_op [of p] show ?case
    by (subst requests.simps) simp
qed (simp add: requests.simps frame.simps)

text \<open>
  C11: end-to-end delivery. Take any packets sent on any sockets of a library, in any order and mixed with continuations of
  pending writes, while the system calls take as much as they like but do not fail. The calls are defined. When
  everything accepted for a socket was written, and its bytes arrive at a socket of another library in whatever pieces,
  then enough calls of the packet reader there return exactly the accepted packets, in order and with
  their contents: topics, identifiers, flags and payloads. A client's reader drops CONNECT, SUBSCRIBE and UNSUBSCRIBE packets; a server that
  reads them as the MQTT specification lays them out finds the client's name, flags, interval, will, user name and password, and the topics
  with their qualities of service. A packet is refused only while an earlier one is not completely written to the socket.
\<close>

theorem sent_packets_received:
  assumes "w_inv st" "no_write_error st" "\<forall>s. net_out st s = [] \<and> pending s st = []" "\<forall>s. persistence st s \<noteq> None"
    "list_all call_ok calls"
  shows "\<exists>acc st'. exec_calls calls st = Some (acc, st') \<and>
    (\<forall>s rst r n. pending s st' = [] \<and> r \<noteq> 0 \<and> clean (net_in rst r) \<and> avail (net_in rst r) = net_out st' s \<and> persistence rst r = Some None \<and>
       in_size (net_in rst r) + length (ops_for s acc) \<le> n \<longrightarrow>
       (\<exists>out rst'. receive_all (replicate n r) (SocketBuffer_initialize rst) = Some (out, rst') \<and>
          results_for r out = map op_received (ops_for s acc))) \<and>
    (\<forall>s. pending s st' = [] \<longrightarrow> requests (net_out st' s) = map op_request (ops_for s acc)) \<and>
    (\<forall>s p. s \<notin> set (fst (write_pending st')) \<and> op_ok p \<longrightarrow> (\<exists>rc st''. send_one p s st' = Some (rc, st'') \<and> rc \<noteq> SOCKET_ERROR))"
proof -
  obtain acc st' where e: "exec_calls calls st = Some (acc, st')" "list_all (\<lambda>(s, p). op_ok p) acc"
    "\<forall>s. queued s st' = queued s st @ concat (map op_wire (ops_for s acc))" "w_inv st'" "no_write_error st'" "persistence st' = persistence st"
    using exec_calls_spec [OF assms(1,2,5,4)] by blast
  have "\<exists>out rst'. receive_all (replicate n r) (SocketBuffer_initialize rst) = Some (out, rst') \<and>
      results_for r out = map op_received (ops_for s acc)"
    if "pending s st' = []" "r \<noteq> 0" "clean (net_in rst r)" "avail (net_in rst r) = net_out st' s" "persistence rst r = Some None"
      "in_size (net_in rst r) + length (ops_for s acc) \<le> n" for s rst r n
  proof -
    have "list_all op_ok (ops_for s acc)"
      using e(2) by (auto simp: list_all_iff ops_for_def)
    note r = received_wires [OF this]
    have "avail (net_in rst r) = concat (map op_wire (ops_for s acc))"
      using spec [OF e(3), of s] spec [OF assms(3), of s] that(1,4) by (simp add: queued_def)
    moreover have "count_list (replicate n r) r = n" "set (replicate n r) \<subseteq> {r}"
      by (induction n) auto
    ultimately show ?thesis
      using packets_are_frames [of "{r}" "replicate n r" rst] that r by auto
  qed
  moreover have "requests (net_out st' s) = map op_request (ops_for s acc)" if "pending s st' = []" for s
  proof -
    have "list_all op_ok (ops_for s acc)"
      using e(2) by (auto simp: list_all_iff ops_for_def)
    moreover have "net_out st' s = concat (map op_wire (ops_for s acc))"
      using spec [OF e(3), of s] spec [OF assms(3), of s] that by (simp add: queued_def)
    ultimately show ?thesis
      using requests_wires by simp
  qed
  moreover have "\<exists>rc st''. send_one p s st' = Some (rc, st'') \<and> rc \<noteq> SOCKET_ERROR" if "s \<notin> set (fst (write_pending st'))" "op_ok p" for s p
    using send_one_sent_as [OF that(2) e(4), of s] e(5,6) assms(4) that(1) by (auto simp: sent_as_def)
  ultimately show ?thesis
    using e(1) by blast
qed

definition demo_publish :: Publish where
  "demo_publish = \<lparr>pub_header = 0, pub_topic = map byte_of_char ''a/b'', pub_topiclen = 3, pub_msgId = 7,
     pub_payload = [Some 104, Some 105], pub_payloadlen = 2\<rparr>"

definition demo_connect :: connect_data where
  "demo_connect = \<lparr>clientID = [99], username = Some [117, 115], password = Some [112], cleansession = 1, keepAliveInterval = 60,
     will = Some \<lparr>will_topic = [116], will_msg = [111, 102], will_retained = 1, will_qos = 2\<rparr>\<rparr>"

definition demo_calls :: "call list" where
  "demo_calls = [Send 6 (Connect_op demo_connect 4), Send 5 (Publish_op demo_publish 0 1 0), Send 5 Disconnect_op, Flush {5, 6} True, Flush {5, 6} True,
     Send 5 (Pubrel_op 9 1), Send 6 (Subscribe_op [[97], [98]] [2, 0] 3 0)]"

definition demo_sender :: net where
  "demo_sender = demo_net\<lparr>net_room := (\<lambda>_. [Room 3, Room 99, Room 99, Room 99])\<rparr>"

definition demo_receiver :: net where
  "demo_receiver = demo_net\<lparr>net_in := (\<lambda>_. [Avail [50, 9, 0, 3, 97, 47], Again, Avail [98, 0, 7], Avail [104, 105, 106, 2], Avail [0, 9]])\<rparr>"

lemma demo_run:
  "map_option (\<lambda>(acc, st). (ops_for 5 acc, net_out st 5, pending 5 st, ops_for 6 acc, pending 6 st)) (exec_calls demo_calls demo_sender) =
     Some ([Publish_op demo_publish 0 1 0, Pubrel_op 9 1], [50, 9, 0, 3, 97, 47, 98, 0, 7, 104, 105, 106, 2, 0, 9], [],
       [Connect_op demo_connect 4, Subscribe_op [[97], [98]] [2, 0] 3 0], [])"
  by code_simp

theorem sent_packets_received_witness:
  "\<exists>acc st' out rst'. exec_calls demo_calls demo_sender = Some (acc, st') \<and>
     receive_all (replicate 25 8) (SocketBuffer_initialize demo_receiver) = Some (out, rst') \<and>
     results_for 8 out = [op_received (Publish_op demo_publish 0 1 0), op_received (Pubrel_op 9 1)] \<and>
     requests (net_out st' 6) = [Some (Connect_request MQTT 4 demo_connect), Some (Subscribe_request 3 [([97], 2), ([98], 0)])]"
proof -
  have a: "w_inv demo_sender" "no_write_error demo_sender" "\<forall>s. net_out demo_sender s = [] \<and> pending s demo_sender = []"
    "\<forall>s. persistence demo_sender s \<noteq> None"
    by (simp_all add: demo_sender_def demo_net_def w_inv_def no_write_error_def pending_def)
  have "call_ok (Send 6 (Connect_op demo_connect 4))"
    by (simp add: connect_ok_def demo_connect_def short_def c_bytes_def connect_body_def utf_bytes_def int_bytes_def MQTT_def byte_of_char_def)
  moreover have "call_ok (Send 6 (Subscribe_op [[97], [98]] [2, 0] 3 0))"
    by (simp add: short_def c_bytes_def subscribe_body_def utf_bytes_def int_bytes_def id_ok_def)
  ultimately have b: "list_all call_ok demo_calls"
    by (simp add: demo_calls_def id_ok_def demo_publish_def c_bytes_def mem_read_def publish_body_def utf_len_def pub_bytes_def byte_of_char_def)
  obtain acc st' where e: "exec_calls demo_calls demo_sender = Some (acc, st')"
    "\<forall>s rst r n. pending s st' = [] \<and> r \<noteq> 0 \<and> clean (net_in rst r) \<and> avail (net_in rst r) = net_out st' s \<and> persistence rst r = Some None \<and>
       in_size (net_in rst r) + length (ops_for s acc) \<le> n \<longrightarrow>
       (\<exists>out rst'. receive_all (replicate n r) (SocketBuffer_initialize rst) = Some (out, rst') \<and>
          results_for r out = map op_received (ops_for s acc))"
    "\<forall>s. pending s st' = [] \<longrightarrow> requests (net_out st' s) = map op_request (ops_for s acc)"
    using sent_packets_received [OF a b] by blast
  have run: "ops_for 5 acc = [Publish_op demo_publish 0 1 0, Pubrel_op 9 1]" "pending 5 st' = []"
    "net_out st' 5 = [50, 9, 0, 3, 97, 47, 98, 0, 7, 104, 105, 106, 2, 0, 9]"
    "ops_for 6 acc = [Connect_op demo_connect 4, Subscribe_op [[97], [98]] [2, 0] 3 0]" "pending 6 st' = []"
    using demo_run e(1) by simp_all
  have "connect_contents demo_connect = demo_connect"
    by code_simp
  then have "requests (net_out st' 6) = [Some (Connect_request MQTT 4 demo_connect), Some (Subscribe_request 3 [([97], 2), ([98], 0)])]"
    using e(3) run(4,5) by (simp add: c_bytes_def)
  moreover have "\<exists>out rst'. receive_all (replicate 25 8) (SocketBuffer_initialize demo_receiver) = Some (out, rst') \<and>
      results_for 8 out = map op_received (ops_for 5 acc)"
    using e(2) [rule_format, of 5 8 demo_receiver 25] run by (simp add: demo_receiver_def demo_net_def)
  ultimately show ?thesis
    using e(1) run(1) by auto
qed

text \<open>
  C37: the encoding of the remaining length. For every length an \<open>int\<close> can hold at most five bytes are written, so the
  ten bytes allocated for the header are enough. A length below 256 MB is read back exactly; a longer one takes a fifth
  byte, is sent all the same, and is an error for the receiver.
\<close>

theorem remaining_length_roundtrip:
  assumes "n < 2 ^ 31"
  shows "length (MQTTPacket_encode (int n)) \<le> 5 \<and>
    rem_len 4 1 0 (MQTTPacket_encode (int n) @ bs) = (if n < 2 ^ 28 then Got (n, bs) else Bad)"
  using encode_fits [OF assms] rem_len_encode [of 4 n 1 0 bs] by simp

theorem remaining_length_roundtrip_witness:
  "rem_len 4 1 0 (MQTTPacket_encode 268435455 @ [1]) = Got (268435455, [1]) \<and> rem_len 4 1 0 (MQTTPacket_encode 268435456 @ [1]) = Bad"
  using remaining_length_roundtrip [of 268435455 "[1]"] remaining_length_roundtrip [of 268435456 "[1]"]
  by (simp del: rem_len.simps)

definition short_acks :: "recv_in list \<Rightarrow> net" where
  "short_acks ins = SocketBuffer_initialize (demo_net\<lparr>net_in := (\<lambda>_. ins)\<rparr>)"

text \<open>
  The readers of acknowledgements do not check the length. After a PUBACK for message 7, a PUBACK without data is
  taken for another one, with the bytes that are left over in the buffer; as the first packet of a connection
  it makes the library read uninitialised memory.
\<close>

theorem short_ack_overread:
  "map_option fst (receive_all [5, 5] (short_acks [Avail [0x40, 2, 0, 7, 0x40, 0]])) =
     Some [(5, Some (Ack 0x40 7), TCPSOCKET_COMPLETE), (5, Some (Ack 0x40 7), TCPSOCKET_COMPLETE)] \<and>
   Option.is_none (receive_all [5] (short_acks [Avail [0x40, 0]]))"
  by code_simp

end
