(* ===== verification/Mqtt_Protocol.thy ===== *)
theory Mqtt_Protocol
  imports Mqtt_Delivery
begin

text \<open>
  The protocol of the MQTT client library, \<^verbatim>\<open>MQTTProtocolClient.c\<close>: message identifiers, stored publications with
  their reference counts, the messages in flight in both directions, the handlers of the packets of a publication,
  keep-alive and retries.

  Structures that the code reaches by pointers have addresses: a publication is found by its address in the list
  \<open>publications\<close>, and one that is not there was freed. Messages carry their address in the lists of their client, because
  they are removed by pointer.
\<close>

section \<open>State\<close>

definition MAX_MSG_ID :: int where
  "MAX_MSG_ID = 65535"

record Publications =
  pb_topic :: "byte list"
  pb_topiclen :: int
  pb_payload :: "byte list"
  pb_payloadlen :: int
  pb_refcount :: int

text \<open>Fields that \<open>malloc\<close> leaves unset are \<open>None\<close>.\<close>

record Messages =
  ms_qos :: int
  ms_retain :: int
  ms_msgid :: int
  ms_publish :: nat
  ms_lastTouch :: "int option"
  ms_nextMessageType :: "int option"

type_synonym msg_list = "(nat \<times> Messages) slist"

text \<open>A message for the application.\<close>

record MQTTAsync_message =
  mm_topic :: "byte list"
  mm_topiclen :: int
  mm_payload :: "byte list"
  mm_qos :: int
  mm_retained :: int
  mm_dup :: int
  mm_msgid :: int

text \<open>\<open>c_ma\<close> tells whether the application has set a callback for arriving messages.\<close>

record Clients =
  c_socket :: int
  c_connected :: bool
  c_good :: bool
  c_ping_outstanding :: bool
  c_keepAliveInterval :: int
  c_retryInterval :: int
  c_msgID :: int
  c_inboundMsgs :: msg_list
  c_outboundMsgs :: msg_list
  c_messageQueue :: "MQTTAsync_message list"
  c_ma :: bool

text \<open>
  The state of the library: the sockets, the clients, the stored publications, the publications of QoS 0 that wait for
  their write, the next free address, the counters, the store's results for removals and the keys removed,
  the answers the application's callback will give (when there are no more, it accepts) and the messages it accepted, and
  the clients whose session is to be closed.
\<close>

record proto =
  p_net :: net
  p_clients :: "Clients slist"
  p_publications :: "(nat \<times> Publications) slist"
  p_pending_writes :: "(int \<times> nat) slist"
  p_next :: nat
  p_msgs_received :: "32 word"
  p_msgs_sent :: "32 word"
  p_premove :: "int \<Rightarrow> string \<Rightarrow> int"
  p_removed :: "(int \<times> string) list"
  p_answers :: "bool list"
  p_accepted :: "(int \<times> MQTTAsync_message) list"
  p_closing :: "int list"

section \<open>Message identifiers\<close>

definition next_msgid :: "int \<Rightarrow> int" where
  "next_msgid msgid = (if msgid = MAX_MSG_ID then 1 else msgid + 1)"

definition with_id :: "int \<Rightarrow> nat \<times> Messages \<Rightarrow> bool" where
  "with_id msgid = (\<lambda>(_, m). ms_msgid m = msgid)"

partial_function (option) assignMsgId_loop :: "int \<Rightarrow> int \<Rightarrow> msg_list \<Rightarrow> (int \<times> msg_list) option" where
  "assignMsgId_loop start msgid l =
     (case slist_find (with_id msgid) l of (found, l') \<Rightarrow>
        if found = None then Some (msgid, l')
        else if next_msgid msgid = start then Some (0, l')
        else assignMsgId_loop start (next_msgid msgid) l')"

definition MQTTProtocol_assignMsgId :: "Clients \<Rightarrow> (int \<times> Clients) option" where
  "MQTTProtocol_assignMsgId client = do {
     (msgid, l) \<leftarrow> assignMsgId_loop (c_msgID client) (next_msgid (c_msgID client)) (c_outboundMsgs client);
     let client' = client\<lparr>c_outboundMsgs := l\<rparr>;
     Some (msgid, if msgid \<noteq> 0 then client'\<lparr>c_msgID := msgid\<rparr> else client')
   }"

section \<open>Clients and publications\<close>

definition find_client :: "int \<Rightarrow> proto \<Rightarrow> (nat \<times> proto) option" where
  "find_client sock st =
     (case slist_find (\<lambda>c. c_socket c = sock) (p_clients st) of (p, l) \<Rightarrow> do { i \<leftarrow> p; Some (i, st\<lparr>p_clients := l\<rparr>) })"

definition client_at :: "nat \<Rightarrow> proto \<Rightarrow> Clients" where
  "client_at i st = fst (p_clients st) ! i"

definition set_client :: "nat \<Rightarrow> Clients \<Rightarrow> proto \<Rightarrow> proto" where
  "set_client i c st = st\<lparr>p_clients := ((fst (p_clients st))[i := c], snd (p_clients st))\<rparr>"

definition publication_at :: "nat \<Rightarrow> proto \<Rightarrow> Publications option" where
  "publication_at a st = map_of (fst (p_publications st)) a"

definition at_addr :: "nat \<Rightarrow> nat \<times> 'a \<Rightarrow> bool" where
  "at_addr a = (\<lambda>(b, _). b = a)"

definition slist_insert :: "nat \<Rightarrow> 'c \<Rightarrow> 'c slist \<Rightarrow> 'c slist" where
  "slist_insert i x l = (insert_nth i x (fst l), shift_up i (snd l))"

text \<open>
  The topics that are stored were allocated by the library (\<open>Heap_findItem\<close> finds them), so the pointer is kept.
\<close>

definition MQTTProtocol_storePublication :: "Publish \<Rightarrow> proto \<Rightarrow> (nat \<times> proto) option" where
  "MQTTProtocol_storePublication publish st = do {
     _ \<leftarrow> ensure (0 \<le> pub_payloadlen publish);
     payload \<leftarrow> mem_read 0 (nat (pub_payloadlen publish)) (pub_payload publish);
     let p = \<lparr>pb_topic = pub_topic publish, pb_topiclen = pub_topiclen publish, pb_payload = payload,
       pb_payloadlen = pub_payloadlen publish, pb_refcount = 1\<rparr>;
     Some (p_next st, st\<lparr>p_next := p_next st + 1, p_publications := slist_append (p_next st, p) (p_publications st)\<rparr>)
   }"

definition set_refcount :: "nat \<Rightarrow> int \<Rightarrow> proto \<Rightarrow> proto" where
  "set_refcount a n st = st\<lparr>p_publications :=
     (map (\<lambda>(b, p). (b, if b = a then p\<lparr>pb_refcount := n\<rparr> else p)) (fst (p_publications st)), snd (p_publications st))\<rparr>"

definition MQTTProtocol_removePublication :: "nat \<Rightarrow> proto \<Rightarrow> proto option" where
  "MQTTProtocol_removePublication a st = do {
     p \<leftarrow> publication_at a st;
     if pb_refcount p - 1 = 0
     then Some (st\<lparr>p_publications := snd (slist_remove (at_addr a) (p_publications st))\<rparr>)
     else Some (set_refcount a (pb_refcount p - 1) st)
   }"

text \<open>
  \<open>mm\<close> is the publication of the message that \<open>*mm\<close> points to, \<open>None\<close> if there is none. The result is the new message
  with its address.
\<close>

definition MQTTProtocol_createMessage :: "Publish \<Rightarrow> nat option \<Rightarrow> int \<Rightarrow> int \<Rightarrow> proto \<Rightarrow> ((nat \<times> Messages) \<times> proto) option" where
  "MQTTProtocol_createMessage publish mm qos retained st = do {
     (a, st1) \<leftarrow> (case mm of
         None \<Rightarrow> MQTTProtocol_storePublication publish st
       | Some a \<Rightarrow> do { p \<leftarrow> publication_at a st; Some (a, set_refcount a (pb_refcount p + 1) st) });
     let m = \<lparr>ms_qos = qos, ms_retain = retained, ms_msgid = pub_msgId publish, ms_publish = a,
       ms_lastTouch = Some (now (p_net st1)), ms_nextMessageType = (if qos = 2 then Some PUBREC else None)\<rparr>;
     Some ((p_next st1, m), st1\<lparr>p_next := p_next st1 + 1\<rparr>)
   }"

section \<open>Publishing\<close>

text \<open>
  \<open>SocketBuffer_updateWrite\<close>: the buffers of a pending write now point to the stored copies; their lengths stay.
\<close>

definition SocketBuffer_updateWrite :: "int \<Rightarrow> byte list \<Rightarrow> byte list \<Rightarrow> net \<Rightarrow> net option" where
  "SocketBuffer_updateWrite socket topic payload st =
     (case SocketBuffer_getWrite socket st of (p, st1) \<Rightarrow>
        case p of
          None \<Rightarrow> Some st1
        | Some i \<Rightarrow>
            let pw = fst (writes st1) ! i; vs = pw_iovecs pw in
            if length vs = 4 then do {
              _ \<leftarrow> ensure (length (vs ! 2) \<le> length topic \<and> length (vs ! 3) \<le> length payload);
              let pw' = pw\<lparr>pw_iovecs := vs[2 := take (length (vs ! 2)) topic, 3 := take (length (vs ! 3)) payload]\<rparr>;
              Some (st1\<lparr>writes := ((fst (writes st1))[i := pw'], snd (writes st1))\<rparr>)
            }
            else Some st1)"

definition MQTTProtocol_storeQoS0 :: "nat \<Rightarrow> Publish \<Rightarrow> proto \<Rightarrow> proto option" where
  "MQTTProtocol_storeQoS0 i publish st = do {
     (a, st1) \<leftarrow> MQTTProtocol_storePublication publish st;
     let socket = c_socket (client_at i st1);
     let st2 = st1\<lparr>p_pending_writes := slist_append (socket, a) (p_pending_writes st1)\<rparr>;
     p \<leftarrow> publication_at a st2;
     net' \<leftarrow> SocketBuffer_updateWrite socket (pb_topic p) (pb_payload p) (p_net st2);
     Some (st2\<lparr>p_net := net'\<rparr>)
   }"

definition MQTTProtocol_startPublishCommon :: "nat \<Rightarrow> Publish \<Rightarrow> int \<Rightarrow> int \<Rightarrow> proto \<Rightarrow> (int \<times> proto) option" where
  "MQTTProtocol_startPublishCommon i publish qos retained st = do {
     (rc, net') \<leftarrow> MQTTPacket_send_publish 0 publish 0 qos retained (c_socket (client_at i st)) (p_net st);
     let st1 = st\<lparr>p_net := net'\<rparr>;
     if qos = 0 \<and> rc = TCPSOCKET_INTERRUPTED
     then do { st2 \<leftarrow> MQTTProtocol_storeQoS0 i publish st1; Some (rc, st2) }
     else Some (rc, st1)
   }"

definition MQTTProtocol_startPublish :: "nat \<Rightarrow> Publish \<Rightarrow> int \<Rightarrow> int \<Rightarrow> nat option \<Rightarrow> proto \<Rightarrow> (int \<times> proto) option" where
  "MQTTProtocol_startPublish i publish qos retained mm st =
     (if qos > 0 then do {
        (am, st1) \<leftarrow> MQTTProtocol_createMessage publish mm qos retained st;
        let c = client_at i st1;
        let st2 = set_client i (c\<lparr>c_outboundMsgs := slist_append am (c_outboundMsgs c)\<rparr>) st1;
        pb \<leftarrow> publication_at (ms_publish (snd am)) st2;
        MQTTProtocol_startPublishCommon i
          (publish\<lparr>pub_payload := map Some (pb_payload pb), pub_topic := pb_topic pb\<rparr>) qos retained st2
      }
      else MQTTProtocol_startPublishCommon i publish qos retained st)"

section \<open>Messages for the application\<close>

text \<open>\<open>MQTTAsync_deliverMessage\<close> calls the application, which accepts the message or not.\<close>

definition MQTTAsync_deliverMessage :: "int \<Rightarrow> MQTTAsync_message \<Rightarrow> proto \<Rightarrow> bool \<times> proto" where
  "MQTTAsync_deliverMessage sock mm st =
     (case p_answers st of
        [] \<Rightarrow> (True, st\<lparr>p_accepted := p_accepted st @ [(sock, mm)]\<rparr>)
      | ok # rest \<Rightarrow>
          (ok, st\<lparr>p_answers := rest, p_accepted := (if ok then p_accepted st @ [(sock, mm)] else p_accepted st)\<rparr>))"

text \<open>
  A message that is not accepted waits in the queue of the client. With a persistent store the source also writes it there
  (\<open>MQTTPersistence_persistQueueEntry\<close>, whose result it ignores); the copies of queued messages in a store are not part of the model.
\<close>

definition Protocol_processPublication :: "Publish \<Rightarrow> nat \<Rightarrow> proto \<Rightarrow> proto option" where
  "Protocol_processPublication publish i st = do {
     _ \<leftarrow> ensure (0 \<le> pub_payloadlen publish);
     payload \<leftarrow> mem_read 0 (nat (pub_payloadlen publish)) (pub_payload publish);
     let h = pub_header publish;
     let mm = \<lparr>mm_topic = pub_topic publish, mm_topiclen = pub_topiclen publish, mm_payload = payload, mm_qos = h_qos h,
       mm_retained = h_retain h, mm_dup = (if h_qos h = 2 then 0 else h_dup h), mm_msgid = pub_msgId publish\<rparr>;
     let c = client_at i st;
     let (rc, st1) = (if c_messageQueue c = [] \<and> c_connected c \<and> c_ma c then MQTTAsync_deliverMessage (c_socket c) mm st else (False, st));
     Some (if rc then st1 else set_client i (c\<lparr>c_messageQueue := c_messageQueue c @ [mm]\<rparr>) st1)
   }"

text \<open>
  The part of the receiving thread that offers the first queued message again. The length of the topic is passed as 0
  when the topic ends there. The removal of the copy in a persistent store (\<open>MQTTPersistence_unpersistQueueEntry\<close>) is left out, as its creation is.
\<close>

definition deliver_queued :: "nat \<Rightarrow> proto \<Rightarrow> proto" where
  "deliver_queued i st =
     (let c = client_at i st in
      case c_messageQueue c of
        [] \<Rightarrow> st
      | mm # rest \<Rightarrow>
          let mm' = (if int (length (c_bytes (mm_topic mm))) = mm_topiclen mm then mm\<lparr>mm_topiclen := 0\<rparr> else mm);
              (rc, st1) = (if c_ma c then MQTTAsync_deliverMessage (c_socket c) mm' st else (True, st))
          in if rc then set_client i (c\<lparr>c_messageQueue := rest\<rparr>) st1 else st1)"

section \<open>Handlers\<close>

text \<open>\<open>MQTTPersistence_remove\<close>; of two removals the result of the second counts.\<close>

definition MQTTPersistence_remove :: "int \<Rightarrow> string \<Rightarrow> int \<Rightarrow> int \<Rightarrow> proto \<Rightarrow> (int \<times> proto) option" where
  "MQTTPersistence_remove sock type qos msgId st = do {
     store \<leftarrow> persistence (p_net st) sock;
     case store of
       None \<Rightarrow> Some (0, st)
     | Some _ \<Rightarrow>
         let keys = (if type = PERSISTENCE_PUBLISH_SENT \<and> qos = 2
                     then [PERSISTENCE_PUBLISH_SENT @ dec_of_int msgId, PERSISTENCE_PUBREL @ dec_of_int msgId]
                     else [type @ dec_of_int msgId])
         in Some (p_premove st sock (last keys), st\<lparr>p_removed := p_removed st @ map (Pair sock) keys\<rparr>)
   }"

definition MQTTProtocol_handlePublishes :: "Publish \<Rightarrow> int \<Rightarrow> proto \<Rightarrow> (int \<times> proto) option" where
  "MQTTProtocol_handlePublishes publish sock st = do {
     (i, st0) \<leftarrow> find_client sock st;
     let h = pub_header publish;
     let msgId = pub_msgId publish;
     if h_qos h = 0 then do { st1 \<leftarrow> Protocol_processPublication publish i st0; Some (TCPSOCKET_COMPLETE, st1) }
     else if h_qos h = 1 then do {
       (rc, net1) \<leftarrow> MQTTPacket_send_puback msgId (c_socket (client_at i st0)) (p_net st0);
       st1 \<leftarrow> Protocol_processPublication publish i (st0\<lparr>p_net := net1\<rparr>);
       Some (rc, st1)
     }
     else if h_qos h = 2 then do {
       (a, st1) \<leftarrow> MQTTProtocol_storePublication publish st0;
       let m = \<lparr>ms_qos = h_qos h, ms_retain = h_retain h, ms_msgid = msgId, ms_publish = a, ms_lastTouch = None,
         ms_nextMessageType = Some PUBREL\<rparr>;
       let am = (p_next st1, m);
       let st2 = st1\<lparr>p_next := p_next st1 + 1\<rparr>;
       let c = client_at i st2;
       (l, st3) \<leftarrow> (case slist_find (with_id msgId) (c_inboundMsgs c) of
           (None, l) \<Rightarrow> Some (slist_append am l, st2)
         | (Some j, l) \<Rightarrow>
             let (ptr, msg) = fst l ! j in do {
               st' \<leftarrow> MQTTProtocol_removePublication (ms_publish msg) st2;
               Some (snd (slist_remove (at_addr ptr) (slist_insert j am l)), st')
             });
       let st4 = set_client i (c\<lparr>c_inboundMsgs := l\<rparr>) st3;
       (rc, net1) \<leftarrow> MQTTPacket_send_pubrec msgId (c_socket c) (p_net st4);
       Some (rc, st4\<lparr>p_net := net1\<rparr>)
     }
     else Some (TCPSOCKET_COMPLETE, st0)
   }"

definition MQTTProtocol_handlePubacks :: "int \<Rightarrow> int \<Rightarrow> proto \<Rightarrow> (int \<times> proto) option" where
  "MQTTProtocol_handlePubacks msgId sock st = do {
     (i, st0) \<leftarrow> find_client sock st;
     let c = client_at i st0;
     case slist_find (with_id msgId) (c_outboundMsgs c) of
       (None, l) \<Rightarrow> Some (TCPSOCKET_COMPLETE, st0)
     | (Some j, l) \<Rightarrow>
         let (ptr, m) = fst l ! j; c1 = c\<lparr>c_outboundMsgs := l\<rparr> in
         if ms_qos m \<noteq> 1 then Some (TCPSOCKET_COMPLETE, set_client i c1 st0)
         else do {
           (rc, st1) \<leftarrow> MQTTPersistence_remove (c_socket c) PERSISTENCE_PUBLISH_SENT (ms_qos m) msgId st0;
           st2 \<leftarrow> MQTTProtocol_removePublication (ms_publish m) st1;
           Some (rc, set_client i (c1\<lparr>c_outboundMsgs := snd (slist_remove (at_addr ptr) l)\<rparr>) st2)
         }
   }"

definition MQTTProtocol_handlePubrecs :: "int \<Rightarrow> int \<Rightarrow> proto \<Rightarrow> (int \<times> proto) option" where
  "MQTTProtocol_handlePubrecs msgId sock st = do {
     (i, st0) \<leftarrow> find_client sock st;
     let c = client_at i st0;
     case slist_find (with_id msgId) (fst (c_outboundMsgs c), None) of
       (None, l) \<Rightarrow> Some (TCPSOCKET_COMPLETE, set_client i (c\<lparr>c_outboundMsgs := l\<rparr>) st0)
     | (Some j, l) \<Rightarrow>
         let (ptr, m) = fst l ! j; c1 = c\<lparr>c_outboundMsgs := l\<rparr> in
         if ms_qos m \<noteq> 2 then Some (TCPSOCKET_COMPLETE, set_client i c1 st0)
         else do {
           next \<leftarrow> ms_nextMessageType m;
           if next \<noteq> PUBREC then Some (TCPSOCKET_COMPLETE, set_client i c1 st0)
           else do {
             (rc, net1) \<leftarrow> MQTTPacket_send_pubrel msgId 0 (c_socket c) (p_net st0);
             let m' = m\<lparr>ms_nextMessageType := Some PUBCOMP, ms_lastTouch := Some (now net1)\<rparr>;
             Some (rc, set_client i (c\<lparr>c_outboundMsgs := ((fst l)[j := (ptr, m')], snd l)\<rparr>) (st0\<lparr>p_net := net1\<rparr>))
           }
         }
   }"

definition MQTTProtocol_handlePubrels :: "int \<Rightarrow> int \<Rightarrow> int \<Rightarrow> proto \<Rightarrow> (int \<times> proto) option" where
  "MQTTProtocol_handlePubrels dup msgId sock st = do {
     (i, st0) \<leftarrow> find_client sock st;
     let c = client_at i st0;
     case slist_find (with_id msgId) (c_inboundMsgs c) of
       (None, l) \<Rightarrow>
         if dup = 0 then Some (TCPSOCKET_COMPLETE, st0)
         else do { (rc, net1) \<leftarrow> MQTTPacket_send_pubcomp msgId (c_socket c) (p_net st0); Some (rc, st0\<lparr>p_net := net1\<rparr>) }
     | (Some j, l) \<Rightarrow>
         let (ptr, m) = fst l ! j; st1 = set_client i (c\<lparr>c_inboundMsgs := l\<rparr>) st0 in
         if ms_qos m \<noteq> 2 then Some (TCPSOCKET_COMPLETE, st1)
         else do {
           next \<leftarrow> ms_nextMessageType m;
           if next \<noteq> PUBREL then Some (TCPSOCKET_COMPLETE, st1)
           else do {
             (rc, net1) \<leftarrow> MQTTPacket_send_pubcomp msgId (c_socket c) (p_net st1);
             p \<leftarrow> publication_at (ms_publish m) st1;
             st2 \<leftarrow> Protocol_processPublication
               \<lparr>pub_header = set_retain (ms_retain m) (set_qos (ms_qos m) 0), pub_topic = pb_topic p, pub_topiclen = pb_topiclen p,
                pub_msgId = ms_msgid m, pub_payload = map Some (pb_payload p), pub_payloadlen = pb_payloadlen p\<rparr>
               i (st1\<lparr>p_net := net1\<rparr>);
             (rc2, st3) \<leftarrow> MQTTPersistence_remove (c_socket c) PERSISTENCE_PUBLISH_RECEIVED (ms_qos m) msgId st2;
             let st4 = st3\<lparr>p_publications := snd (slist_remove (at_addr (ms_publish m)) (p_publications st3)),
               p_msgs_received := p_msgs_received st3 + 1\<rparr>;
             let c4 = client_at i st4;
             Some (rc + rc2, set_client i (c4\<lparr>c_inboundMsgs := snd (slist_remove (at_addr ptr) (c_inboundMsgs c4))\<rparr>) st4)
           }
         }
   }"

definition MQTTProtocol_handlePubcomps :: "int \<Rightarrow> int \<Rightarrow> proto \<Rightarrow> (int \<times> proto) option" where
  "MQTTProtocol_handlePubcomps msgId sock st = do {
     (i, st0) \<leftarrow> find_client sock st;
     let c = client_at i st0;
     case slist_find (with_id msgId) (c_outboundMsgs c) of
       (None, l) \<Rightarrow> Some (TCPSOCKET_COMPLETE, st0)
     | (Some j, l) \<Rightarrow>
         let (ptr, m) = fst l ! j; c1 = c\<lparr>c_outboundMsgs := l\<rparr> in
         if ms_qos m \<noteq> 2 then Some (TCPSOCKET_COMPLETE, set_client i c1 st0)
         else do {
           next \<leftarrow> ms_nextMessageType m;
           if next \<noteq> PUBCOMP then Some (TCPSOCKET_COMPLETE, set_client i c1 st0)
           else do {
             (rc, st1) \<leftarrow> MQTTPersistence_remove (c_socket c) PERSISTENCE_PUBLISH_SENT (ms_qos m) msgId st0;
             st2 \<leftarrow> MQTTProtocol_removePublication (ms_publish m) st1;
             let st3 = set_client i (c1\<lparr>c_outboundMsgs := snd (slist_remove (at_addr ptr) l)\<rparr>) st2;
             Some (rc, st3\<lparr>p_msgs_sent := p_msgs_sent st3 + 1\<rparr>)
           }
         }
   }"

definition MQTTProtocol_handlePingresps :: "int \<Rightarrow> proto \<Rightarrow> (int \<times> proto) option" where
  "MQTTProtocol_handlePingresps sock st = do {
     (i, st0) \<leftarrow> find_client sock st;
     Some (TCPSOCKET_COMPLETE, set_client i ((client_at i st0)\<lparr>c_ping_outstanding := False\<rparr>) st0)
   }"

text \<open>The dispatch of \<open>MQTTAsync_cycle\<close> by packet type; the callbacks behind the handlers are left out.\<close>

definition handle_packet :: "packet \<Rightarrow> int \<Rightarrow> proto \<Rightarrow> (int \<times> proto) option" where
  "handle_packet pack sock st =
     (case pack of
        Publish_packet p \<Rightarrow> MQTTProtocol_handlePublishes p sock st
      | Ack h msgId \<Rightarrow>
          if h_type h = PUBCOMP then MQTTProtocol_handlePubcomps msgId sock st
          else if h_type h = PUBACK then MQTTProtocol_handlePubacks msgId sock st
          else if h_type h = PUBREC then MQTTProtocol_handlePubrecs msgId sock st
          else if h_type h = PUBREL then MQTTProtocol_handlePubrels (h_dup h) msgId sock st
          else Some (TCPSOCKET_COMPLETE, st)
      | Header_only h \<Rightarrow>
          if h_type h = PINGRESP then MQTTProtocol_handlePingresps sock st else Some (TCPSOCKET_COMPLETE, st)
      | _ \<Rightarrow> Some (TCPSOCKET_COMPLETE, st))"

section \<open>Keep-alive and retries\<close>

text \<open>
  \<open>MQTTProtocol_closeSession\<close> queues a request to disconnect, which another thread carries out; here it is recorded.
  The loops follow the lists of clients and of messages, whose elements they do not add or remove, so they run over the
  positions.
\<close>

definition MQTTProtocol_closeSession :: "nat \<Rightarrow> proto \<Rightarrow> proto" where
  "MQTTProtocol_closeSession i st = st\<lparr>p_closing := p_closing st @ [c_socket (client_at i st)]\<rparr>"

definition no_pending_writes :: "int \<Rightarrow> proto \<Rightarrow> bool \<times> proto" where
  "no_pending_writes sock st = (case Socket_noPendingWrites sock (p_net st) of (b, net') \<Rightarrow> (b, st\<lparr>p_net := net'\<rparr>))"

fun MQTTProtocol_keepalive_loop :: "nat list \<Rightarrow> int \<Rightarrow> proto \<Rightarrow> proto option" where
  "MQTTProtocol_keepalive_loop [] tm st = Some st"
| "MQTTProtocol_keepalive_loop (i # is) tm st = do {
     let c = client_at i st;
     let s = c_socket c;
     st1 \<leftarrow> (if c_connected c \<and> c_keepAliveInterval c > 0 \<and>
              (tm - last_sent (p_net st) s \<ge> c_keepAliveInterval c \<or> tm - last_received (p_net st) s \<ge> c_keepAliveInterval c)
            then if \<not> c_ping_outstanding c
                 then case no_pending_writes s st of (free, st') \<Rightarrow>
                   if free then do {
                     (rc, net1) \<leftarrow> MQTTPacket_send_pingreq s (p_net st');
                     if rc \<noteq> TCPSOCKET_COMPLETE then Some (MQTTProtocol_closeSession i (st'\<lparr>p_net := net1\<rparr>))
                     else Some (set_client i (c\<lparr>c_ping_outstanding := True\<rparr>)
                       (st'\<lparr>p_net := net1\<lparr>last_sent := (last_sent net1)(s := tm)\<rparr>\<rparr>))
                   }
                   else Some st'
                 else Some (MQTTProtocol_closeSession i st)
            else Some st);
     MQTTProtocol_keepalive_loop is tm st1
   }"

definition MQTTProtocol_keepalive :: "int \<Rightarrow> proto \<Rightarrow> proto option" where
  "MQTTProtocol_keepalive tm st = MQTTProtocol_keepalive_loop [0..<length (fst (p_clients st))] tm st"

text \<open>One message of \<open>MQTTProtocol_retries\<close>; \<open>False\<close> when the loop ends because the session is closed.\<close>

definition retry_failed :: "nat \<Rightarrow> proto \<Rightarrow> bool \<times> proto" where
  "retry_failed i st = (False, MQTTProtocol_closeSession i (set_client i ((client_at i st)\<lparr>c_good := False\<rparr>) st))"

definition touch_message :: "nat \<Rightarrow> nat \<Rightarrow> proto \<Rightarrow> proto" where
  "touch_message i j st =
     (let c = client_at i st; l = c_outboundMsgs c; (ptr, m) = fst l ! j
      in set_client i (c\<lparr>c_outboundMsgs := ((fst l)[j := (ptr, m\<lparr>ms_lastTouch := Some (now (p_net st))\<rparr>)], snd l)\<rparr>) st)"

definition retry_message :: "nat \<Rightarrow> nat \<Rightarrow> proto \<Rightarrow> (bool \<times> proto) option" where
  "retry_message i j st =
     (let c = client_at i st; (ptr, m) = fst (c_outboundMsgs c) ! j in do {
        next \<leftarrow> (if ms_qos m \<noteq> 0 \<and> ms_qos m \<noteq> 1 then ms_nextMessageType m else Some 0);
        if ms_qos m = 1 \<or> ms_qos m = 2 \<and> next = PUBREC then do {
          p \<leftarrow> publication_at (ms_publish m) st;
          (rc, net1) \<leftarrow> MQTTPacket_send_publish 0
            \<lparr>pub_header = 0, pub_topic = pb_topic p, pub_topiclen = 0, pub_msgId = ms_msgid m,
             pub_payload = map Some (pb_payload p), pub_payloadlen = pb_payloadlen p\<rparr>
            1 (ms_qos m) (ms_retain m) (c_socket c) (p_net st);
          let st1 = st\<lparr>p_net := net1\<rparr>;
          Some (if rc = SOCKET_ERROR then retry_failed i st1 else (True, touch_message i j st1))
        }
        else if ms_qos m \<noteq> 0 \<and> next = PUBCOMP then do {
          (rc, net1) \<leftarrow> MQTTPacket_send_pubrel (ms_msgid m) 0 (c_socket c) (p_net st);
          let st1 = st\<lparr>p_net := net1\<rparr>;
          Some (if rc \<noteq> TCPSOCKET_COMPLETE then retry_failed i st1 else (True, touch_message i j st1))
        }
        else Some (True, st)
      })"

fun MQTTProtocol_retries_loop :: "nat list \<Rightarrow> int \<Rightarrow> nat \<Rightarrow> bool \<Rightarrow> proto \<Rightarrow> proto option" where
  "MQTTProtocol_retries_loop [] tm i regardless st = Some st"
| "MQTTProtocol_retries_loop (j # js) tm i regardless st =
     (let c = client_at i st in
      if \<not> (c_connected c \<and> c_good c) then Some st
      else case no_pending_writes (c_socket c) st of (free, st1) \<Rightarrow>
        if \<not> free then Some st1
        else do {
          due \<leftarrow> (if regardless then Some True else do {
              touched \<leftarrow> ms_lastTouch (snd (fst (c_outboundMsgs c) ! j));
              Some (tm - touched > max (c_retryInterval c) 10)
            });
          (go, st2) \<leftarrow> (if due then retry_message i j st1 else Some (True, st1));
          if go then MQTTProtocol_retries_loop js tm i regardless st2 else Some st2
        })"

definition MQTTProtocol_retries :: "int \<Rightarrow> nat \<Rightarrow> bool \<Rightarrow> proto \<Rightarrow> proto option" where
  "MQTTProtocol_retries tm i regardless st =
     (if \<not> regardless \<and> c_retryInterval (client_at i st) \<le> 0 then Some st
      else MQTTProtocol_retries_loop [0..<length (fst (c_outboundMsgs (client_at i st)))] tm i regardless st)"

fun MQTTProtocol_retry_loop :: "nat list \<Rightarrow> int \<Rightarrow> bool \<Rightarrow> bool \<Rightarrow> proto \<Rightarrow> proto option" where
  "MQTTProtocol_retry_loop [] tm doRetry regardless st = Some st"
| "MQTTProtocol_retry_loop (i # is) tm doRetry regardless st = do {
     let c = client_at i st;
     st1 \<leftarrow> (if \<not> c_connected c then Some st
            else if \<not> c_good c then Some (MQTTProtocol_closeSession i st)
            else case no_pending_writes (c_socket c) st of (free, st') \<Rightarrow>
              if free \<and> doRetry then MQTTProtocol_retries tm i regardless st' else Some st');
     MQTTProtocol_retry_loop is tm doRetry regardless st1
   }"

definition MQTTProtocol_retry :: "int \<Rightarrow> bool \<Rightarrow> bool \<Rightarrow> proto \<Rightarrow> proto option" where
  "MQTTProtocol_retry tm doRetry regardless st = MQTTProtocol_retry_loop [0..<length (fst (p_clients st))] tm doRetry regardless st"

section \<open>Finished writes\<close>

text \<open>
  \<open>MQTTProtocol_checkPendingWrites\<close>: the elements before the position of the loop are \<open>seen\<close>. Removing an element makes
  the one after it current.
\<close>

fun checkPendingWrites_loop :: "(int \<times> nat) list \<Rightarrow> (int \<times> nat) list \<Rightarrow> proto \<Rightarrow> proto option" where
  "checkPendingWrites_loop seen [] st = Some st"
| "checkPendingWrites_loop seen ((s, a) # rest) st =
     (case no_pending_writes s st of (free, st1) \<Rightarrow>
        if free then do {
          st2 \<leftarrow> MQTTProtocol_removePublication a st1;
          checkPendingWrites_loop seen rest
            (st2\<lparr>p_pending_writes := (seen @ rest, if rest = [] then None else Some (length seen))\<rparr>)
        }
        else checkPendingWrites_loop (seen @ [(s, a)]) rest st1)"

definition MQTTProtocol_checkPendingWrites :: "proto \<Rightarrow> proto option" where
  "MQTTProtocol_checkPendingWrites st = checkPendingWrites_loop [] (fst (p_pending_writes st)) st"

section \<open>Emptying lists of messages\<close>

fun remove_publications :: "(nat \<times> Messages) list \<Rightarrow> proto \<Rightarrow> proto option" where
  "remove_publications [] st = Some st"
| "remove_publications ((_, m) # ms) st = do { st1 \<leftarrow> MQTTProtocol_removePublication (ms_publish m) st; remove_publications ms st1 }"

text \<open>\<open>MQTTProtocol_emptyMessageList\<close> on the inbound and the outbound messages of a client.\<close>

definition empty_inbound :: "nat \<Rightarrow> proto \<Rightarrow> proto option" where
  "empty_inbound i st = do {
     st1 \<leftarrow> remove_publications (fst (c_inboundMsgs (client_at i st))) st;
     Some (set_client i ((client_at i st1)\<lparr>c_inboundMsgs := ([], None)\<rparr>) st1)
   }"

definition empty_outbound :: "nat \<Rightarrow> proto \<Rightarrow> proto option" where
  "empty_outbound i st = do {
     st1 \<leftarrow> remove_publications (fst (c_outboundMsgs (client_at i st))) st;
     Some (set_client i ((client_at i st1)\<lparr>c_outboundMsgs := ([], None)\<rparr>) st1)
   }"

end
