(* ===== verification/Mqtt_Session.thy ===== *)
theory Mqtt_Session
  imports Mqtt_Protocol "HOL-Library.Multiset"
begin

text \<open>
  The sessions of the MQTT client library: message identifiers are unique, stored publications are neither lost nor freed
  too early, and the handlers implement an abstract session, in which the messages in flight are association lists.
\<close>

section \<open>Lists with unique elements\<close>

lemma slist_find_cases:
  assumes "slist_wf l"
  obtains (none) "slist_find cmp l = (None, l)" "\<forall>x \<in> set (fst l). \<not> cmp x"
    | (found) j where "slist_find cmp l = (Some j, (fst l, Some j))" "j < length (fst l)" "cmp (fst l ! j)"
proof (cases "find_index cmp (fst l) (snd l)")
  case None
  then have "\<forall>x \<in> set (fst l). \<not> cmp x"
    by (auto simp: find_index_def first_index_None split: option.splits if_splits)
  with None none show thesis
    by (simp add: slist_find_def)
next
  case (Some j)
  with found show thesis
    using find_index_Some [OF Some] assms by (simp add: slist_find_def slist_wf_def)
qed

lemma slist_find_none: "slist_wf l \<Longrightarrow> \<forall>x \<in> set (fst l). \<not> cmp x \<Longrightarrow> slist_find cmp l = (None, l)"
  by (erule slist_find_cases [of l cmp]) auto

text \<open>Removing an element that is identified by a key.\<close>

lemma key_split:
  assumes "distinct (map f xs)" "j < length xs"
  obtains ys zs where "xs = ys @ xs ! j # zs" "length ys = j" "\<forall>y \<in> set ys \<union> set zs. f y \<noteq> f (xs ! j)"
proof
  show xs: "xs = take j xs @ xs ! j # drop (Suc j) xs"
    using assms(2) by (rule id_take_nth_drop)
  show "length (take j xs) = j"
    using assms(2) by simp
  have "distinct (map f (take j xs) @ f (xs ! j) # map f (drop (Suc j) xs))"
    using assms(1) arg_cong [OF xs, of "map f"] by simp
  then have "f (xs ! j) \<notin> f ` set (take j xs)" "f (xs ! j) \<notin> f ` set (drop (Suc j) xs)"
    by simp_all
  then show "\<forall>y \<in> set (take j xs) \<union> set (drop (Suc j) xs). f y \<noteq> f (xs ! j)"
    by (metis UnE imageI)
qed

lemma remove_nth_key:
  assumes "distinct (map f xs)" "j < length xs"
  shows "remove_nth j xs = filter (\<lambda>x. f x \<noteq> f (xs ! j)) xs"
proof -
  obtain x ys zs where x: "xs ! j = x" and xs: "xs = ys @ x # zs" "length ys = j" "\<forall>y \<in> set ys \<union> set zs. f y \<noteq> f x"
    using key_split [OF assms] by metis
  then have "filter (\<lambda>y. f y \<noteq> f x) ys = ys" "filter (\<lambda>y. f y \<noteq> f x) zs = zs"
    by (simp_all add: filter_id_conv)
  then show ?thesis
    unfolding x using xs(1,2) by (simp add: remove_nth_def)
qed

lemma slist_remove_key:
  assumes "slist_wf l" "distinct (map f (fst l))"
  shows "fst (snd (slist_remove (\<lambda>x. f x = k) l)) = filter (\<lambda>x. f x \<noteq> k) (fst l)" "slist_wf (snd (slist_remove (\<lambda>x. f x = k) l))"
proof -
  show "fst (snd (slist_remove (\<lambda>x. f x = k) l)) = filter (\<lambda>x. f x \<noteq> k) (fst l)"
  proof (cases "find_index (\<lambda>x. f x = k) (fst l) (snd l)")
    case None
    then have "\<forall>x \<in> set (fst l). f x \<noteq> k"
      by (auto simp: find_index_def first_index_None split: option.splits if_splits)
    then show ?thesis
      using None by (simp add: slist_remove_def)
  next
    case (Some j)
    then have "j < length (fst l)" "f (fst l ! j) = k"
      using find_index_Some [OF Some] assms(1) by (auto simp: slist_wf_def)
    then show ?thesis
      using Some remove_nth_key [OF assms(2)] by (simp add: slist_remove_def)
  qed
  show "slist_wf (snd (slist_remove (\<lambda>x. f x = k) l))"
    using assms(1) by simp
qed

lemma at_addr_key: "at_addr a = (\<lambda>x. fst x = a)"
  by (auto simp: at_addr_def)

lemma with_id_key: "with_id k = (\<lambda>x. ms_msgid (snd x) = k)"
  by (auto simp: with_id_def)

lemma filter_same_key:
  assumes "distinct (map f xs)" "distinct (map g xs)" "x \<in> set xs"
  shows "filter (\<lambda>y. f y \<noteq> f x) xs = filter (\<lambda>y. g y \<noteq> g x) xs"
  using assms by (intro filter_cong) (auto simp: distinct_map inj_on_eq_iff)

lemma replace_key:
  assumes "distinct (map fst xs)" "j < length xs" "fst x \<notin> fst ` set xs"
  shows "filter (\<lambda>y. fst y \<noteq> fst (xs ! j)) (insert_nth j x xs) = xs[j := x]"
proof -
  obtain x' ys zs where x': "xs ! j = x'" and xs: "xs = ys @ x' # zs" "length ys = j" "\<forall>y \<in> set ys \<union> set zs. fst y \<noteq> fst x'"
    using key_split [OF assms(1,2)] by metis
  then have "filter (\<lambda>y. fst y \<noteq> fst x') ys = ys" "filter (\<lambda>y. fst y \<noteq> fst x') zs = zs"
    by (simp_all add: filter_id_conv)
  moreover have "fst x \<noteq> fst x'"
    using assms(3) xs(1) by auto
  ultimately show ?thesis
    unfolding x' using xs(1,2) by (auto simp: insert_nth_def)
qed

section \<open>Message identifiers\<close>

definition used_ids :: "msg_list \<Rightarrow> int set" where
  "used_ids l = (ms_msgid \<circ> snd) ` set (fst l)"

lemma with_id_used: "(\<exists>x \<in> set (fst l). with_id k x) \<longleftrightarrow> k \<in> used_ids l"
  by (auto simp: used_ids_def with_id_key)

definition ids_from :: "int \<Rightarrow> nat \<Rightarrow> int" where
  "ids_from k n = (next_msgid ^^ n) k"

lemma next_msgid_range: "1 \<le> k \<Longrightarrow> k \<le> 65535 \<Longrightarrow> 1 \<le> next_msgid k \<and> next_msgid k \<le> 65535"
  by (auto simp: next_msgid_def MAX_MSG_ID_def)

text \<open>The loop stops at the first identifier that is free, if it gets there before it has come round.\<close>

lemma assignMsgId_loop_step:
  assumes "slist_wf l"
  shows "\<exists>l'. fst l' = fst l \<and> slist_wf l' \<and> assignMsgId_loop start k l =
    (if k \<notin> used_ids l then Some (k, l') else if next_msgid k = start then Some (0, l') else assignMsgId_loop start (next_msgid k) l')"
  using assms
proof (cases rule: slist_find_cases [of l "with_id k"])
  case none
  then show ?thesis
    using with_id_used [of l k] assms by (intro exI [of _ l], subst assignMsgId_loop.simps) auto
next
  case (found j)
  then have "k \<in> used_ids l"
    using with_id_used [of l k] nth_mem by blast
  then show ?thesis
    using found assms by (subst assignMsgId_loop.simps) (auto intro!: exI [of _ "(fst l, Some j)"] simp: slist_wf_def)
qed

lemma used_ids_cong: "fst l' = fst l \<Longrightarrow> used_ids l' = used_ids l"
  by (simp add: used_ids_def)

text \<open>The identifiers between \<open>k\<close> and \<open>start\<close>, going up and round.\<close>

definition dist_to :: "int \<Rightarrow> int \<Rightarrow> nat" where
  "dist_to start k = nat (if k \<le> start then start - k else 65535 - k + start)"

lemma dist_to_next:
  "1 \<le> k \<Longrightarrow> k \<le> 65535 \<Longrightarrow> 1 \<le> start \<Longrightarrow> start \<le> 65535 \<Longrightarrow> k \<noteq> start \<Longrightarrow> dist_to start (next_msgid k) < dist_to start k"
  by (auto simp: dist_to_def next_msgid_def MAX_MSG_ID_def)

lemma assignMsgId_loop_result:
  assumes "slist_wf l" "1 \<le> k" "k \<le> 65535" "1 \<le> start" "start \<le> 65535" "k \<noteq> start"
  shows "\<exists>r l'. assignMsgId_loop start k l = Some (r, l') \<and> fst l' = fst l \<and> slist_wf l' \<and>
    (r \<noteq> 0 \<longrightarrow> 1 \<le> r \<and> r \<le> 65535 \<and> r \<noteq> start \<and> r \<notin> used_ids l) \<and>
    (r = 0 \<longrightarrow> (\<forall>n. 1 \<le> n \<and> n \<le> 65535 \<and> n \<noteq> start \<and> dist_to start n \<le> dist_to start k \<longrightarrow> n \<in> used_ids l))"
  using assms
proof (induction "dist_to start k" arbitrary: k l rule: less_induct)
  case less
  obtain l1 where l1: "fst l1 = fst l" "slist_wf l1" "assignMsgId_loop start k l =
    (if k \<notin> used_ids l then Some (k, l1) else if next_msgid k = start then Some (0, l1) else assignMsgId_loop start (next_msgid k) l1)"
    using assignMsgId_loop_step [OF less.prems(1)] by blast
  have same: "n = k" if "1 \<le> n" "n \<le> 65535" "n \<noteq> start" "dist_to start n \<le> dist_to start k" "\<not> dist_to start n \<le> dist_to start (next_msgid k)" for n
    using that less.prems(2-6) by (auto simp: dist_to_def next_msgid_def MAX_MSG_ID_def split: if_splits)
  show ?case
  proof (cases "k \<notin> used_ids l")
    case True
    then show ?thesis
      using l1 less.prems by auto
  next
    case used: False
    show ?thesis
    proof (cases "next_msgid k = start")
      case True
      then have "n = k" if "1 \<le> n" "n \<le> 65535" "n \<noteq> start" "dist_to start n \<le> dist_to start k" for n
        using same [OF that] that(3) True less.prems(4,5) that(1,2) by (auto simp: dist_to_def split: if_splits)
      then show ?thesis
        using l1 used True by auto
    next
      case False
      have "1 \<le> next_msgid k" "next_msgid k \<le> 65535" "dist_to start (next_msgid k) < dist_to start k"
        using next_msgid_range [OF less.prems(2,3)] dist_to_next [OF less.prems(2-6)] by auto
      from less.hyps [OF this(3) l1(2) this(1,2) less.prems(4,5) False] obtain r l' where
        r: "assignMsgId_loop start (next_msgid k) l1 = Some (r, l')" "fst l' = fst l" "slist_wf l'"
        "r \<noteq> 0 \<longrightarrow> 1 \<le> r \<and> r \<le> 65535 \<and> r \<noteq> start \<and> r \<notin> used_ids l"
        "r = 0 \<longrightarrow> (\<forall>n. 1 \<le> n \<and> n \<le> 65535 \<and> n \<noteq> start \<and> dist_to start n \<le> dist_to start (next_msgid k) \<longrightarrow> n \<in> used_ids l)"
        using l1(1) used_ids_cong [OF l1(1)] by auto
      have "n \<in> used_ids l" if "r = 0" "1 \<le> n" "n \<le> 65535" "n \<noteq> start" "dist_to start n \<le> dist_to start k" for n
        using that r(5) same [of n] used by blast
      then show ?thesis
        using l1(3) used False r(1-4) by auto
    qed
  qed
qed

lemma assignMsgId_loop_zero:
  assumes "slist_wf l" "1 \<le> k" "k \<le> 65535" "\<exists>n. k \<le> n \<and> n \<le> 65535 \<and> n \<notin> used_ids l"
  shows "\<exists>r l'. assignMsgId_loop 0 k l = Some (r, l') \<and> fst l' = fst l \<and> slist_wf l' \<and> 1 \<le> r \<and> r \<le> 65535 \<and> r \<notin> used_ids l"
  using assms
proof (induction "nat (65535 - k)" arbitrary: k l rule: less_induct)
  case less
  obtain l1 where l1: "fst l1 = fst l" "slist_wf l1" "assignMsgId_loop 0 k l =
    (if k \<notin> used_ids l then Some (k, l1) else if next_msgid k = 0 then Some (0, l1) else assignMsgId_loop 0 (next_msgid k) l1)"
    using assignMsgId_loop_step [OF less.prems(1)] by blast
  show ?case
  proof (cases "k \<notin> used_ids l")
    case True
    then show ?thesis
      using l1 less.prems by auto
  next
    case False
    then obtain n where n: "k < n" "n \<le> 65535" "n \<notin> used_ids l"
      using less.prems(4) by (metis order_le_less)
    then have k: "next_msgid k = k + 1" "nat (65535 - (k + 1)) < nat (65535 - k)"
      by (auto simp: next_msgid_def MAX_MSG_ID_def)
    have "\<exists>n. k + 1 \<le> n \<and> n \<le> 65535 \<and> n \<notin> used_ids l1"
      using n used_ids_cong [OF l1(1)] by (auto intro!: exI [of _ n])
    from less.hyps [OF k(2) l1(2) _ _ this] show ?thesis
      using l1 False k less.prems(2,3) n used_ids_cong [OF l1(1)] by auto
  qed
qed

text \<open>With no identifier free, the loop never comes back to a start of 0.\<close>

lemma assignMsgId_loop_diverges:
  assumes "assignMsgId_loop start k l = Some res"
  shows "\<not> (start = 0 \<and> 1 \<le> k \<and> k \<le> 65535 \<and> slist_wf l \<and> {1..65535} \<subseteq> used_ids l)"
proof (rule assignMsgId_loop.raw_induct [OF _ assms])
  fix loop :: "int \<Rightarrow> int \<Rightarrow> msg_list \<Rightarrow> (int \<times> msg_list) option" and start k :: int and l :: msg_list and res :: "int \<times> msg_list"
  assume IH: "\<And>start k l res. loop start k l = Some res \<Longrightarrow>
      \<not> (start = 0 \<and> 1 \<le> k \<and> k \<le> 65535 \<and> slist_wf l \<and> {1..65535} \<subseteq> used_ids l)"
    and run: "(case slist_find (with_id k) l of (found, l') \<Rightarrow>
        if found = None then Some (k, l') else if next_msgid k = start then Some (0, l') else loop start (next_msgid k) l') = Some res"
  show "\<not> (start = 0 \<and> 1 \<le> k \<and> k \<le> 65535 \<and> slist_wf l \<and> {1..65535} \<subseteq> used_ids l)"
  proof
    assume full: "start = 0 \<and> 1 \<le> k \<and> k \<le> 65535 \<and> slist_wf l \<and> {1..65535} \<subseteq> used_ids l"
    then have "\<exists>x \<in> set (fst l). with_id k x" and wf: "slist_wf l"
      using with_id_used by auto
    then obtain j where j: "slist_find (with_id k) l = (Some j, (fst l, Some j))" "j < length (fst l)"
      by (elim slist_find_cases [of l "with_id k"]) auto
    have "next_msgid k \<noteq> start" "1 \<le> next_msgid k" "next_msgid k \<le> 65535"
      using next_msgid_range [of k] full by auto
    then show False
      using IH [of start "next_msgid k" "(fst l, Some j)" res] run j full by (simp add: slist_wf_def used_ids_def)
  qed
qed

text \<open>
  C25: a message identifier that is assigned is in range and not in use, and the search for it ends, unless
  \<open>msgID\<close> is 0 (no identifier was assigned in this session) and all are in use: then it never ends. It reports that none is
  free when all but the last assigned one are in use, even if that one is free.
\<close>

theorem assignMsgId_unique:
  assumes "slist_wf (c_outboundMsgs c)" "0 \<le> c_msgID c" "c_msgID c \<le> 65535"
  shows "if c_msgID c = 0 \<and> {1..65535} \<subseteq> used_ids (c_outboundMsgs c) then MQTTProtocol_assignMsgId c = None
    else \<exists>msgid l. MQTTProtocol_assignMsgId c = Some (msgid, c\<lparr>c_outboundMsgs := l, c_msgID := (if msgid = 0 then c_msgID c else msgid)\<rparr>) \<and>
      fst l = fst (c_outboundMsgs c) \<and>
      (if {1..65535} - {c_msgID c} \<subseteq> used_ids (c_outboundMsgs c) then msgid = 0
       else msgid \<in> {1..65535} - used_ids (c_outboundMsgs c))"
proof (cases "c_msgID c = 0")
  case True
  then have start: "next_msgid (c_msgID c) = 1"
    by (simp add: next_msgid_def MAX_MSG_ID_def)
  show ?thesis
  proof (cases "{1..65535} \<subseteq> used_ids (c_outboundMsgs c)")
    case full: True
    then have "assignMsgId_loop 0 1 (c_outboundMsgs c) \<noteq> Some res" for res
      using assignMsgId_loop_diverges [of 0 1 "c_outboundMsgs c" res] assms(1) by auto
    then have "assignMsgId_loop 0 1 (c_outboundMsgs c) = None"
      by (cases "assignMsgId_loop 0 1 (c_outboundMsgs c)") auto
    then show ?thesis
      using True full start by (simp add: MQTTProtocol_assignMsgId_def)
  next
    case False
    then have "\<exists>n. 1 \<le> n \<and> n \<le> 65535 \<and> n \<notin> used_ids (c_outboundMsgs c)"
      by auto
    from assignMsgId_loop_zero [OF assms(1) _ _ this] obtain r l where
      "assignMsgId_loop 0 1 (c_outboundMsgs c) = Some (r, l)" "fst l = fst (c_outboundMsgs c)" "1 \<le> r" "r \<le> 65535" "r \<notin> used_ids (c_outboundMsgs c)"
      by auto
    then show ?thesis
      using True False start by (cases l) (auto simp: MQTTProtocol_assignMsgId_def)
  qed
next
  case False
  let ?s = "c_msgID c" and ?k = "next_msgid (c_msgID c)"
  have k: "1 \<le> ?s" "1 \<le> ?k" "?k \<le> 65535" "?k \<noteq> ?s"
    using False assms(2,3) next_msgid_range [of ?s] by (auto simp: next_msgid_def MAX_MSG_ID_def)
  from assignMsgId_loop_result [OF assms(1) k(2,3,1) assms(3) k(4)] obtain r l where
    r: "assignMsgId_loop ?s ?k (c_outboundMsgs c) = Some (r, l)" "fst l = fst (c_outboundMsgs c)"
    "r \<noteq> 0 \<longrightarrow> 1 \<le> r \<and> r \<le> 65535 \<and> r \<noteq> ?s \<and> r \<notin> used_ids (c_outboundMsgs c)"
    "r = 0 \<longrightarrow> (\<forall>n. 1 \<le> n \<and> n \<le> 65535 \<and> n \<noteq> ?s \<and> dist_to ?s n \<le> dist_to ?s ?k \<longrightarrow> n \<in> used_ids (c_outboundMsgs c))"
    by blast
  have "dist_to ?s n \<le> dist_to ?s ?k" if "1 \<le> n" "n \<le> 65535" "n \<noteq> ?s" for n
    using that k(1) assms(3) by (auto simp: dist_to_def next_msgid_def MAX_MSG_ID_def)
  then have full: "r = 0 \<longrightarrow> {1..65535} - {?s} \<subseteq> used_ids (c_outboundMsgs c)"
    using r(4) by auto
  then have "if {1..65535} - {?s} \<subseteq> used_ids (c_outboundMsgs c) then r = 0 else r \<in> {1..65535} - used_ids (c_outboundMsgs c)"
    using r(3) by (auto simp: subset_iff)
  then show ?thesis
    using full r(1-3) False by (intro if_not_P [THEN iffD2]) (simp, intro exI [of _ r] exI [of _ l], simp add: MQTTProtocol_assignMsgId_def)
qed

definition demo_message :: "int \<Rightarrow> Messages" where
  "demo_message k = \<lparr>ms_qos = 1, ms_retain = 0, ms_msgid = k, ms_publish = 0, ms_lastTouch = Some 0, ms_nextMessageType = None\<rparr>"

definition demo_client :: Clients where
  "demo_client = \<lparr>c_socket = 5, c_connected = True, c_good = True, c_ping_outstanding = False, c_keepAliveInterval = 60, c_retryInterval = 20,
     c_msgID = 65535, c_inboundMsgs = ([], None), c_outboundMsgs = ([(0, demo_message 1), (1, demo_message 2)], None), c_messageQueue = [], c_ma = True\<rparr>"

theorem assignMsgId_unique_witness:
  "\<exists>msgid l. MQTTProtocol_assignMsgId demo_client = Some (msgid, demo_client\<lparr>c_outboundMsgs := l, c_msgID := msgid\<rparr>) \<and>
     msgid \<in> {1..65535} - {1, 2}"
proof -
  have u: "used_ids (c_outboundMsgs demo_client) = {1, 2}"
    by (auto simp: used_ids_def demo_client_def demo_message_def)
  have "(3 :: int) \<in> {1..65535} - {65535}" "(3 :: int) \<notin> {1, 2}"
    by simp_all
  then have "\<not> {1..65535} - {65535} \<subseteq> {1, 2 :: int}"
    by blast
  then show ?thesis
    using assignMsgId_unique [of demo_client] unfolding u by (auto simp: demo_client_def slist_wf_def)
qed

end
