(* ===== verification/Mqtt_Handlers.thy ===== *)
theory Mqtt_Handlers
  imports Mqtt_Session "HOL-Library.Sublist"
begin

text \<open>
  The handlers of the MQTT client library keep the state well formed, and they implement an abstract session.

  The invariant says that the stored publications are exactly those that messages in flight and unfinished writes of QoS 0 refer
  to, each once: nothing is lost and nothing is freed while it is in use. The abstract session has maps for the messages in flight and
  the list of messages handed to the application.
\<close>

section \<open>The invariant\<close>

definition msg_refs :: "msg_list \<Rightarrow> nat multiset" where
  "msg_refs l = mset (map (ms_publish \<circ> snd) (fst l))"

definition client_refs :: "Clients \<Rightarrow> nat multiset" where
  "client_refs c = msg_refs (c_inboundMsgs c) + msg_refs (c_outboundMsgs c)"

definition refs :: "proto \<Rightarrow> nat multiset" where
  "refs st = (\<Sum>c\<leftarrow>fst (p_clients st). client_refs c) + mset (map snd (fst (p_pending_writes st)))"

text \<open>Publications that fit in a packet.\<close>

definition pub_ok :: "Publications \<Rightarrow> bool" where
  "pub_ok p \<longleftrightarrow> pb_refcount p = 1 \<and> pb_payloadlen p = int (length (pb_payload p)) \<and>
     length (pb_topic p) < 65536 \<and> 4 + length (pb_topic p) + length (pb_payload p) < 2 ^ 28"

fun in_ok :: "nat \<Rightarrow> nat \<times> Messages \<Rightarrow> bool" where
  "in_ok n (a, m) \<longleftrightarrow> a < n \<and> ms_qos m = 2 \<and> ms_nextMessageType m = Some PUBREL \<and> id_ok (ms_msgid m)"

fun out_ok :: "nat \<Rightarrow> nat \<times> Messages \<Rightarrow> bool" where
  "out_ok n (a, m) \<longleftrightarrow> a < n \<and> (ms_qos m = 1 \<or> ms_qos m = 2 \<and> ms_nextMessageType m \<in> {Some PUBREC, Some PUBCOMP}) \<and>
     id_ok (ms_msgid m) \<and> ms_lastTouch m \<noteq> None"

definition msgs_ok :: "(nat \<times> Messages \<Rightarrow> bool) \<Rightarrow> msg_list \<Rightarrow> bool" where
  "msgs_ok P l \<longleftrightarrow> slist_wf l \<and> distinct (map fst (fst l)) \<and> distinct (map (ms_msgid \<circ> snd) (fst l)) \<and> list_all P (fst l)"

definition client_ok :: "nat \<Rightarrow> Clients \<Rightarrow> bool" where
  "client_ok n c \<longleftrightarrow> msgs_ok (in_ok n) (c_inboundMsgs c) \<and> msgs_ok (out_ok n) (c_outboundMsgs c)"

definition pubs_ok :: "nat \<Rightarrow> (nat \<times> Publications) slist \<Rightarrow> bool" where
  "pubs_ok n l \<longleftrightarrow> slist_wf l \<and> distinct (map fst (fst l)) \<and> (\<forall>(a, p) \<in> set (fst l). a < n \<and> pub_ok p)"

definition proto_inv :: "proto \<Rightarrow> bool" where
  "proto_inv st \<longleftrightarrow> w_inv (p_net st) \<and> slist_wf (p_clients st) \<and> distinct (map c_socket (fst (p_clients st))) \<and>
     (\<forall>c \<in> set (fst (p_clients st)). client_ok (p_next st) c \<and> persistence (p_net st) (c_socket c) \<noteq> None) \<and>
     pubs_ok (p_next st) (p_publications st) \<and> slist_wf (p_pending_writes st) \<and>
     mset (map fst (fst (p_publications st))) = refs st"

section \<open>The abstract session\<close>

datatype phase = Wait_puback | Wait_pubrec | Wait_pubcomp

record session =
  se_in :: "int \<rightharpoonup> MQTTAsync_message"
  se_out :: "int \<rightharpoonup> phase \<times> MQTTAsync_message"
  se_handed :: "MQTTAsync_message list"

text \<open>Messages without the length argument for the topic, which is 0 or the length.\<close>

definition plain :: "MQTTAsync_message \<Rightarrow> MQTTAsync_message" where
  "plain mm = mm\<lparr>mm_topiclen := 0\<rparr>"

definition publish_message :: "Publish \<Rightarrow> MQTTAsync_message" where
  "publish_message p = \<lparr>mm_topic = pub_topic p, mm_topiclen = 0, mm_payload = pub_bytes p, mm_qos = h_qos (pub_header p),
     mm_retained = h_retain (pub_header p), mm_dup = (if h_qos (pub_header p) = 2 then 0 else h_dup (pub_header p)), mm_msgid = pub_msgId p\<rparr>"

text \<open>What a stored message is for the application: here for an inbound one, at the receiver for an outbound one.\<close>

definition in_message :: "Messages \<Rightarrow> Publications \<Rightarrow> MQTTAsync_message" where
  "in_message m p = \<lparr>mm_topic = pb_topic p, mm_topiclen = 0, mm_payload = pb_payload p, mm_qos = ms_qos m mod 4, mm_retained = ms_retain m mod 2,
     mm_dup = 0, mm_msgid = ms_msgid m\<rparr>"

definition out_message :: "Messages \<Rightarrow> Publications \<Rightarrow> MQTTAsync_message" where
  "out_message m p = \<lparr>mm_topic = c_bytes (pb_topic p), mm_topiclen = 0, mm_payload = pb_payload p, mm_qos = ms_qos m, mm_retained = ms_retain m mod 2,
     mm_dup = 0, mm_msgid = ms_msgid m\<rparr>"

definition msg_phase :: "Messages \<Rightarrow> phase" where
  "msg_phase m = (if ms_qos m = 1 then Wait_puback else if ms_nextMessageType m = Some PUBREC then Wait_pubrec else Wait_pubcomp)"

definition msg_map :: "(Messages \<Rightarrow> Publications \<Rightarrow> 'z) \<Rightarrow> (nat \<rightharpoonup> Publications) \<Rightarrow> (nat \<times> Messages) list \<Rightarrow> int \<rightharpoonup> 'z" where
  "msg_map f pubs l = map_of (map (\<lambda>x. (ms_msgid (snd x), f (snd x) (the (pubs (ms_publish (snd x)))))) l)"

definition out_entry :: "Messages \<Rightarrow> Publications \<Rightarrow> phase \<times> MQTTAsync_message" where
  "out_entry m p = (msg_phase m, out_message m p)"

definition accepted_on :: "int \<Rightarrow> proto \<Rightarrow> MQTTAsync_message list" where
  "accepted_on s st = map snd (filter (\<lambda>(s', _). s' = s) (p_accepted st))"

definition session :: "nat \<Rightarrow> proto \<Rightarrow> session" where
  "session i st =
     \<lparr>se_in = msg_map in_message (\<lambda>a. publication_at a st) (fst (c_inboundMsgs (client_at i st))),
      se_out = msg_map out_entry (\<lambda>a. publication_at a st) (fst (c_outboundMsgs (client_at i st))),
      se_handed = map plain (accepted_on (c_socket (client_at i st)) st @ c_messageQueue (client_at i st))\<rparr>"

text \<open>What a packet does to a session, and the packets that answer it.\<close>

fun session_ack :: "int \<Rightarrow> int \<Rightarrow> int \<Rightarrow> session \<Rightarrow> session \<times> send_op list" where
  "session_ack type dup k se =
     (if type = PUBACK then
        case se_out se k of Some (Wait_puback, _) \<Rightarrow> (se\<lparr>se_out := (se_out se)(k := None)\<rparr>, []) | _ \<Rightarrow> (se, [])
      else if type = PUBREC then
        case se_out se k of Some (Wait_pubrec, m) \<Rightarrow> (se\<lparr>se_out := (se_out se)(k \<mapsto> (Wait_pubcomp, m))\<rparr>, [Pubrel_op k 0]) | _ \<Rightarrow> (se, [])
      else if type = PUBREL then
        case se_in se k of
          Some m \<Rightarrow> (se\<lparr>se_in := (se_in se)(k := None), se_handed := se_handed se @ [m]\<rparr>, [Pubcomp_op k])
        | None \<Rightarrow> (se, if dup = 0 then [] else [Pubcomp_op k])
      else if type = PUBCOMP then
        case se_out se k of Some (Wait_pubcomp, _) \<Rightarrow> (se\<lparr>se_out := (se_out se)(k := None)\<rparr>, []) | _ \<Rightarrow> (se, [])
      else (se, []))"

fun session_handle :: "packet \<Rightarrow> session \<Rightarrow> session \<times> send_op list" where
  "session_handle (Publish_packet p) se =
     (let qos = h_qos (pub_header p) in
      if qos = 0 then (se\<lparr>se_handed := se_handed se @ [publish_message p]\<rparr>, [])
      else if qos = 1 then (se\<lparr>se_handed := se_handed se @ [publish_message p]\<rparr>, [Puback_op (pub_msgId p)])
      else if qos = 2 then (se\<lparr>se_in := (se_in se)(pub_msgId p \<mapsto> publish_message p)\<rparr>, [Pubrec_op (pub_msgId p)])
      else (se, []))"
| "session_handle (Ack h k) se = session_ack (h_type h) (h_dup h) k se"
| "session_handle _ se = (se, [])"

lemma session_handle_one: "length (snd (session_handle pack se)) \<le> 1"
  by (cases pack) (auto simp: Let_def split: option.split phase.split)

lemma session_ack_types:
  "session_ack PUBACK dup k se =
     (case se_out se k of Some (Wait_puback, _) \<Rightarrow> (se\<lparr>se_out := (se_out se)(k := None)\<rparr>, []) | _ \<Rightarrow> (se, []))"
  "session_ack PUBREC dup k se =
     (case se_out se k of Some (Wait_pubrec, m) \<Rightarrow> (se\<lparr>se_out := (se_out se)(k \<mapsto> (Wait_pubcomp, m))\<rparr>, [Pubrel_op k 0]) | _ \<Rightarrow> (se, []))"
  "session_ack PUBREL dup k se =
     (case se_in se k of
        Some m \<Rightarrow> (se\<lparr>se_in := (se_in se)(k := None), se_handed := se_handed se @ [m]\<rparr>, [Pubcomp_op k])
      | None \<Rightarrow> (se, if dup = 0 then [] else [Pubcomp_op k]))"
  "session_ack PUBCOMP dup k se =
     (case se_out se k of Some (Wait_pubcomp, _) \<Rightarrow> (se\<lparr>se_out := (se_out se)(k := None)\<rparr>, []) | _ \<Rightarrow> (se, []))"
  by (simp_all add: msgTypes)

lemma ack_types_differ: "PUBREC \<noteq> PUBCOMP" "PUBCOMP \<noteq> PUBREC" "PUBACK \<noteq> PUBCOMP" "PUBREC \<noteq> PUBACK" "PUBREL \<noteq> PUBCOMP" "PUBREL \<noteq> PUBACK" "PUBREL \<noteq> PUBREC"
  by (simp_all add: msgTypes)

declare session_ack.simps [simp del]

text \<open>
  Packets as the reader of packets returns them: the payload is there, and topic and payload fit in one packet.
\<close>

fun packet_ok :: "packet \<Rightarrow> bool" where
  "packet_ok (Publish_packet p) \<longleftrightarrow> id_ok (pub_msgId p) \<and> pub_payload p = map Some (pub_bytes p) \<and>
     pub_payloadlen p = int (length (pub_bytes p)) \<and> length (pub_topic p) < 65536 \<and> 4 + length (pub_topic p) + length (pub_bytes p) < 2 ^ 28"
| "packet_ok (Ack h k) \<longleftrightarrow> id_ok k"
| "packet_ok _ \<longleftrightarrow> True"

text \<open>
  Of the packets \<open>ops\<close>, those accepted for sending are queued on the socket, in order. A single packet is accepted unless the socket has
  an unfinished write or a write fails.
\<close>

definition writable :: "int \<Rightarrow> net \<Rightarrow> bool" where
  "writable s net \<longleftrightarrow> no_write_error net \<and> s \<notin> set (fst (write_pending net))"

definition sends :: "int \<Rightarrow> send_op list \<Rightarrow> net \<Rightarrow> net \<Rightarrow> bool" where
  "sends s ops net net' \<longleftrightarrow> w_inv net' \<and> persistence net' = persistence net \<and> (no_write_error net \<longrightarrow> no_write_error net') \<and>
     (\<forall>s'. s' \<noteq> s \<longrightarrow> queued s' net' = queued s' net) \<and>
     (\<exists>acc. subseq acc ops \<and> queued s net' = queued s net @ concat (map op_wire acc)) \<and>
     (writable s net \<and> length ops \<le> 1 \<longrightarrow> queued s net' = queued s net @ concat (map op_wire ops)) \<and>
     (writable s net \<and> ops = [] \<longrightarrow> writable s net')"

lemma sends_none: "w_inv net \<Longrightarrow> sends s [] net net"
  by (auto simp: sends_def)

lemma sends_one:
  assumes "sent_as s (op_wire p) net (rc, net')"
  shows "sends s [p] net net'"
proof -
  have "subseq (if rc = SOCKET_ERROR then [] else [p]) [p]"
    by simp
  moreover have "queued s net' = queued s net @ concat (map op_wire (if rc = SOCKET_ERROR then [] else [p]))"
    using assms by (simp add: sent_as_def)
  moreover have "queued s net' = queued s net @ concat (map op_wire [p])" if "writable s net"
    using assms that by (simp add: sent_as_def writable_def)
  ultimately show ?thesis
    using assms unfolding sends_def sent_as_def prod.case by blast
qed

lemma sends_trans:
  assumes "sends s ops1 net net1" "sends s ops2 net1 net2"
  shows "sends s (ops1 @ ops2) net net2"
proof -
  obtain acc1 acc2 where acc: "subseq acc1 ops1" "queued s net1 = queued s net @ concat (map op_wire acc1)"
    "subseq acc2 ops2" "queued s net2 = queued s net1 @ concat (map op_wire acc2)"
    using assms unfolding sends_def by blast
  then have "subseq (acc1 @ acc2) (ops1 @ ops2)" "queued s net2 = queued s net @ concat (map op_wire (acc1 @ acc2))"
    by (simp_all add: list_emb_append_mono)
  moreover have "queued s net2 = queued s net @ concat (map op_wire (ops1 @ ops2))" if "writable s net" "length (ops1 @ ops2) \<le> 1"
  proof (cases "ops1 = []")
    case True
    then show ?thesis
      using assms that by (simp add: sends_def)
  next
    case False
    with that(2) have "ops2 = []" "length ops1 \<le> 1"
      by (cases ops1; simp)+
    moreover have "acc2 = []"
      using acc(3) \<open>ops2 = []\<close> by simp
    ultimately show ?thesis
      using assms(1) acc(4) that(1) by (simp add: sends_def)
  qed
  moreover have "w_inv net2" "persistence net2 = persistence net" "no_write_error net \<longrightarrow> no_write_error net2"
    "\<forall>s'. s' \<noteq> s \<longrightarrow> queued s' net2 = queued s' net" "writable s net \<and> ops1 @ ops2 = [] \<longrightarrow> writable s net2"
    using assms unfolding sends_def append_is_Nil_conv by simp_all
  ultimately show ?thesis
    unfolding sends_def by blast
qed

section \<open>Updates of one client\<close>

lemma sum_update: "i < length xs \<Longrightarrow> (\<Sum>x\<leftarrow>xs[i := y]. f x) + f (xs ! i) = (\<Sum>x\<leftarrow>xs. f x) + (f y :: 'b :: comm_monoid_add)"
proof (induction xs arbitrary: i)
  case (Cons x xs)
  then show ?case
    by (cases i) (simp_all add: add.assoc add.commute add.left_commute)
qed simp

definition clients :: "proto \<Rightarrow> Clients list" where
  "clients st = fst (p_clients st)"

lemma client_at_clients: "client_at i st = clients st ! i"
  by (simp add: client_at_def clients_def)

text \<open>\<open>st'\<close> differs from \<open>st\<close> in the client at \<open>i\<close>, which is \<open>c'\<close> there, in the publications and the network.\<close>

definition client_update :: "nat \<Rightarrow> Clients \<Rightarrow> proto \<Rightarrow> proto \<Rightarrow> bool" where
  "client_update i c' st st' \<longleftrightarrow> clients st' = (clients st)[i := c'] \<and> slist_wf (p_clients st') \<and> c_socket c' = c_socket (client_at i st) \<and>
     p_pending_writes st' = p_pending_writes st \<and> p_next st \<le> p_next st' \<and>
     w_inv (p_net st') \<and> persistence (p_net st') = persistence (p_net st)"

lemma client_ok_mono: "client_ok n c \<Longrightarrow> n \<le> n' \<Longrightarrow> client_ok n' c"
  by (auto simp: client_ok_def msgs_ok_def list_all_iff)

lemma inv_update:
  assumes "proto_inv st" "i < length (clients st)" "client_update i c' st st'" "client_ok (p_next st') c'"
    "pubs_ok (p_next st') (p_publications st')"
    "mset (map fst (fst (p_publications st'))) + client_refs (client_at i st) = mset (map fst (fst (p_publications st))) + client_refs c'"
  shows "proto_inv st'"
proof -
  have cl: "fst (p_clients st') = (fst (p_clients st))[i := c']" "i < length (fst (p_clients st))"
    using assms(2,3) by (simp_all add: client_update_def clients_def)
  have "refs st' + client_refs (client_at i st) = refs st + client_refs c'"
    using sum_update [OF cl(2), of client_refs c'] assms(3)
    by (simp add: refs_def cl(1) client_update_def client_at_def ac_simps)
  with assms(1,6) have "mset (map fst (fst (p_publications st'))) + client_refs (client_at i st) = refs st' + client_refs (client_at i st)"
    by (simp add: proto_inv_def)
  then have "mset (map fst (fst (p_publications st'))) = refs st'"
    by simp
  moreover have "map c_socket (fst (p_clients st')) = map c_socket (fst (p_clients st))"
    using assms(2,3) cl by (simp add: map_update client_update_def client_at_def list_update_same_conv)
  moreover have "client_ok (p_next st') c \<and> persistence (p_net st') (c_socket c) \<noteq> None" if "c \<in> set (fst (p_clients st'))" for c
  proof (cases "c = c'")
    case True
    then show ?thesis
      using assms(1,3,4) cl nth_mem [OF cl(2)] by (simp add: client_update_def client_at_def proto_inv_def)
  next
    case False
    then have "c \<in> set (fst (p_clients st))"
      using that set_update_subset_insert [of "fst (p_clients st)" i c'] cl(1) by auto
    then show ?thesis
      using assms(1,3) client_ok_mono by (auto simp: client_update_def proto_inv_def)
  qed
  ultimately show ?thesis
    using assms(1,3,5) by (simp add: proto_inv_def client_update_def)
qed

lemma refs_unique:
  assumes "proto_inv st"
  shows "count (refs st) a \<le> 1" "a \<in># refs st \<longleftrightarrow> publication_at a st \<noteq> None"
proof -
  have "distinct (map fst (fst (p_publications st)))" and r: "refs st = mset (map fst (fst (p_publications st)))"
    using assms by (simp_all add: proto_inv_def pubs_ok_def)
  then show "count (refs st) a \<le> 1"
    by (simp add: distinct_count_atmost_1)
  show "a \<in># refs st \<longleftrightarrow> publication_at a st \<noteq> None"
    unfolding r by (auto simp: publication_at_def map_of_eq_None_iff)
qed

lemma client_refs_in:
  assumes "i < length (clients st)"
  shows "client_refs (client_at i st) \<subseteq># refs st"
proof -
  have "clients st ! i \<in> set (clients st)"
    using assms by simp
  then obtain xs ys where "clients st = xs @ clients st ! i # ys"
    by (metis split_list)
  then have "fst (p_clients st) = xs @ client_at i st # ys"
    by (simp add: clients_def client_at_def)
  then show ?thesis
    by (simp add: refs_def subset_mset.add_increasing2 subset_mset.add_increasing add.assoc)
qed

lemma other_refs:
  assumes "i < length (clients st)" "k < length (clients st)" "i \<noteq> k"
  shows "client_refs (client_at i st) + client_refs (client_at k st) \<subseteq># refs st"
proof -
  define i' k' where "i' = min i k" and "k' = max i k"
  have ik: "i' < k'" "k' < length (clients st)" "{i, k} = {i', k'}"
    using assms by (auto simp: i'_def k'_def)
  then have "clients st = take i' (clients st) @ clients st ! i' # drop (Suc i') (clients st)"
    using id_take_nth_drop [of i' "clients st"] by simp
  moreover have "drop (Suc i') (clients st) = take (k' - Suc i') (drop (Suc i') (clients st)) @ clients st ! k' # drop (Suc k') (clients st)"
    using id_take_nth_drop [of "k' - Suc i'" "drop (Suc i') (clients st)"] ik by simp
  ultimately obtain xs ys zs where "clients st = xs @ clients st ! i' # ys @ clients st ! k' # zs"
    by metis
  then have "fst (p_clients st) = xs @ client_at i' st # ys @ client_at k' st # zs"
    by (simp add: clients_def client_at_def)
  then have "client_refs (client_at i' st) + client_refs (client_at k' st) \<subseteq># refs st"
    by (auto simp: refs_def subset_mset.le_iff_add ac_simps)
  moreover have "client_refs (client_at i' st) + client_refs (client_at k' st) = client_refs (client_at i st) + client_refs (client_at k st)"
    by (simp add: i'_def k'_def min_def max_def add.commute)
  ultimately show ?thesis
    by simp
qed

lemma refs_apart:
  assumes "proto_inv st" "A + B \<subseteq># refs st" "a \<in># A"
  shows "a \<notin># B"
proof
  assume "a \<in># B"
  then have "2 \<le> count (A + B) a"
    using assms(3) by (simp add: count_greater_zero_iff [symmetric] del: count_greater_zero_iff)
  then show False
    using mset_subset_eq_count [OF assms(2), of a] refs_unique(1) [OF assms(1), of a] by simp
qed

lemma msg_map_cong: "(\<And>a. a \<in> ms_publish ` snd ` set l \<Longrightarrow> pubs' a = pubs a) \<Longrightarrow> msg_map f pubs' l = msg_map f pubs l"
  unfolding msg_map_def by (intro arg_cong [where f = map_of] map_cong) auto

lemma session_cong:
  assumes "client_at k st' = client_at k st" "accepted_on (c_socket (client_at k st)) st' = accepted_on (c_socket (client_at k st)) st"
    "\<And>a. a \<in># client_refs (client_at k st) \<Longrightarrow> publication_at a st' = publication_at a st"
  shows "session k st' = session k st"
proof -
  have "msg_map in_message (\<lambda>a. publication_at a st') (fst (c_inboundMsgs (client_at k st))) = msg_map in_message (\<lambda>a. publication_at a st) (fst (c_inboundMsgs (client_at k st)))"
    by (rule msg_map_cong) (use assms(3) in \<open>auto simp: client_refs_def msg_refs_def image_comp\<close>)
  moreover have "msg_map out_entry (\<lambda>a. publication_at a st') (fst (c_outboundMsgs (client_at k st))) = msg_map out_entry (\<lambda>a. publication_at a st) (fst (c_outboundMsgs (client_at k st)))"
    by (rule msg_map_cong) (use assms(3) in \<open>auto simp: client_refs_def msg_refs_def image_comp\<close>)
  ultimately show ?thesis
    using assms(1,2) by (simp add: session_def)
qed

lemma session_other:
  assumes "proto_inv st" "client_update i c' st st'" "i < length (clients st)" "k < length (clients st)" "k \<noteq> i"
    "\<And>s. s \<noteq> c_socket (client_at i st) \<Longrightarrow> accepted_on s st' = accepted_on s st"
    "\<And>a. a \<notin># client_refs (client_at i st) \<Longrightarrow> publication_at a st \<noteq> None \<Longrightarrow> publication_at a st' = publication_at a st"
  shows "session k st' = session k st"
proof (rule session_cong)
  show "client_at k st' = client_at k st"
    using assms(2,5) by (simp add: client_at_clients client_update_def)
  have "c_socket (client_at k st) \<noteq> c_socket (client_at i st)"
    using assms(1) nth_eq_iff_index_eq [of "map c_socket (clients st)" k i] assms(3-5) by (simp add: proto_inv_def client_at_clients clients_def)
  then show "accepted_on (c_socket (client_at k st)) st' = accepted_on (c_socket (client_at k st)) st"
    by (rule assms(6))
  show "publication_at a st' = publication_at a st" if "a \<in># client_refs (client_at k st)" for a
  proof (rule assms(7))
    show "a \<notin># client_refs (client_at i st)"
      using refs_apart [OF assms(1) other_refs [OF assms(4,3,5)] that] .
    show "publication_at a st \<noteq> None"
      using refs_unique(2) [OF assms(1), of a] mset_subset_eqD [OF client_refs_in [OF assms(4)] that] by simp
  qed
qed

section \<open>Lists of messages and publications\<close>

lemma msg_map_None: "msg_map f pubs l k = None \<longleftrightarrow> k \<notin> (ms_msgid \<circ> snd) ` set l"
  by (auto simp: msg_map_def map_of_eq_None_iff image_comp)

lemma msg_map_nth:
  "distinct (map (ms_msgid \<circ> snd) l) \<Longrightarrow> j < length l \<Longrightarrow>
    msg_map f pubs l (ms_msgid (snd (l ! j))) = Some (f (snd (l ! j)) (the (pubs (ms_publish (snd (l ! j))))))"
  unfolding msg_map_def by (rule map_of_is_SomeI) (auto simp: comp_def intro!: image_eqI [OF _ nth_mem])

lemma msg_map_append:
  "ms_msgid m \<notin> (ms_msgid \<circ> snd) ` set l \<Longrightarrow> msg_map f pubs (l @ [(a, m)]) = (msg_map f pubs l)(ms_msgid m \<mapsto> f m (the (pubs (ms_publish m))))"
  using msg_map_None [of f pubs l "ms_msgid m"] by (auto simp: msg_map_def map_add_def fun_eq_iff split: option.splits)

lemma map_of_filter_key: "map_of (filter (\<lambda>x. fst x \<noteq> k) xs) = (map_of xs)(k := None)"
  by (induction xs) (auto simp: fun_eq_iff)

lemma msg_map_filter: "msg_map f pubs (filter (\<lambda>x. ms_msgid (snd x) \<noteq> k) l) = (msg_map f pubs l)(k := None)"
  using map_of_filter_key [of k "map (\<lambda>x. (ms_msgid (snd x), f (snd x) (the (pubs (ms_publish (snd x)))))) l"]
  by (simp add: msg_map_def filter_map comp_def)

lemma msg_map_update:
  assumes "distinct (map (ms_msgid \<circ> snd) l)" "j < length l" "ms_msgid m = ms_msgid (snd (l ! j))"
  shows "msg_map f pubs (l[j := (a, m)]) = (msg_map f pubs l)(ms_msgid m \<mapsto> f m (the (pubs (ms_publish m))))"
  using assms
proof (induction l arbitrary: j)
  case (Cons x l)
  show ?case
  proof (cases j)
    case 0
    then show ?thesis
      using Cons.prems by (auto simp: msg_map_def fun_eq_iff)
  next
    case (Suc j')
    have "ms_msgid (snd x) \<noteq> ms_msgid m"
      using Cons.prems Suc imageI [OF nth_mem, of j' l "ms_msgid \<circ> snd"] by auto
    then show ?thesis
      using Cons.IH [of j'] Cons.prems Suc by (auto simp: msg_map_def fun_eq_iff)
  qed
qed simp

lemma publication_remove:
  assumes "pubs_ok n l" "a \<in> fst ` set (fst l)"
  defines "l' \<equiv> snd (slist_remove (at_addr a) l)"
  shows "pubs_ok n l'" "mset (map fst (fst l)) = add_mset a (mset (map fst (fst l')))" "map_of (fst l') = (map_of (fst l))(a := None)"
proof -
  have l': "fst l' = filter (\<lambda>x. fst x \<noteq> a) (fst l)" "slist_wf l'"
    using slist_remove_key [of l fst a] assms(1) by (simp_all add: l'_def pubs_ok_def at_addr_key)
  then show "pubs_ok n l'"
    using assms(1) by (auto simp: pubs_ok_def distinct_map_filter)
  show "map_of (fst l') = (map_of (fst l))(a := None)"
    unfolding l' by (rule map_of_filter_key)
  have "map fst (fst l') = remove1 a (map fst (fst l))"
    using assms(1) distinct_remove1_removeAll [of "map fst (fst l)" a]
    by (simp add: l' pubs_ok_def removeAll_filter_not_eq filter_map comp_def eq_commute)
  then show "mset (map fst (fst l)) = add_mset a (mset (map fst (fst l')))"
    using assms(2) by simp
qed

lemma removePublication_spec:
  assumes "pubs_ok (p_next st) (p_publications st)" "a \<in> fst ` set (fst (p_publications st))"
  shows "MQTTProtocol_removePublication a st = Some (st\<lparr>p_publications := snd (slist_remove (at_addr a) (p_publications st))\<rparr>)"
proof -
  obtain p where p: "(a, p) \<in> set (fst (p_publications st))"
    using assms(2) by auto
  then have "publication_at a st = Some p" "pb_refcount p = 1"
    using assms(1) by (auto simp: publication_at_def pubs_ok_def pub_ok_def)
  then show ?thesis
    by (simp add: MQTTProtocol_removePublication_def)
qed

lemma publication_add:
  assumes "pubs_ok n l" "pub_ok p"
  shows "pubs_ok (Suc n) (slist_append (n, p) l)" "mset (map fst (fst (slist_append (n, p) l))) = add_mset n (mset (map fst (fst l)))"
    "map_of (fst (slist_append (n, p) l)) = (map_of (fst l))(n \<mapsto> p)"
proof -
  have n: "n \<notin> fst ` set (fst l)"
    using assms(1) by (auto simp: pubs_ok_def)
  then show "pubs_ok (Suc n) (slist_append (n, p) l)"
    using assms slist_wf_simps(2) [of l "(n, p)"] by (auto simp: pubs_ok_def slist_append_def)
  show "mset (map fst (fst (slist_append (n, p) l))) = add_mset n (mset (map fst (fst l)))"
    by (simp add: slist_append_def)
  have "map_of (fst l) n = None"
    using n by (simp add: map_of_eq_None_iff)
  then show "map_of (fst (slist_append (n, p) l)) = (map_of (fst l))(n \<mapsto> p)"
    by (auto simp: slist_append_def map_add_def fun_eq_iff split: option.splits)
qed

text \<open>Removing the message at \<open>j\<close> by its address.\<close>

lemma msgs_remove:
  assumes "msgs_ok P l" "j < length (fst l)" "fst l ! j = (ptr, m)"
  defines "l' \<equiv> snd (slist_remove (at_addr ptr) (fst l, Some j))"
  shows "msgs_ok P l'" "fst l' = filter (\<lambda>x. ms_msgid (snd x) \<noteq> ms_msgid m) (fst l)" "msg_refs l = add_mset (ms_publish m) (msg_refs l')"
proof -
  have d: "distinct (map fst (fst l))" "distinct (map (ms_msgid \<circ> snd) (fst l))" "(ptr, m) \<in> set (fst l)"
    using assms(1-3) nth_mem [of j "fst l"] by (auto simp: msgs_ok_def)
  have "fst l' = filter (\<lambda>x. fst x \<noteq> ptr) (fst l)" "slist_wf l'"
    using slist_remove_key [of "(fst l, Some j)" fst ptr] d(1) assms(2) by (simp_all add: l'_def at_addr_key slist_wf_def)
  moreover have f: "filter (\<lambda>x. fst x \<noteq> ptr) (fst l) = filter (\<lambda>x. ms_msgid (snd x) \<noteq> ms_msgid m) (fst l)"
    using filter_same_key [OF d] by simp
  ultimately show l': "fst l' = filter (\<lambda>x. ms_msgid (snd x) \<noteq> ms_msgid m) (fst l)" and "msgs_ok P l'"
    using assms(1) by (auto simp: msgs_ok_def distinct_map_filter list_all_iff)
  obtain ys zs where "fst l = ys @ fst l ! j # zs" "length ys = j" "\<forall>y \<in> set ys \<union> set zs. (ms_msgid \<circ> snd) y \<noteq> (ms_msgid \<circ> snd) (fst l ! j)"
    using key_split [OF d(2) assms(2)] .
  then have "fst l = ys @ (ptr, m) # zs" "filter (\<lambda>x. ms_msgid (snd x) \<noteq> ms_msgid m) ys = ys" "filter (\<lambda>x. ms_msgid (snd x) \<noteq> ms_msgid m) zs = zs"
    using assms(3) by (simp_all add: filter_id_conv)
  then show "msg_refs l = add_mset (ms_publish m) (msg_refs l')"
    unfolding msg_refs_def l' by simp
qed

lemma msgs_current: "msgs_ok P l \<Longrightarrow> j < length (fst l) \<Longrightarrow> msgs_ok P (fst l, Some j)" "msg_refs (fst l, k) = msg_refs l"
  by (simp_all add: msgs_ok_def slist_wf_def msg_refs_def)

section \<open>Refinement\<close>

definition refined :: "nat \<Rightarrow> session \<times> send_op list \<Rightarrow> proto \<Rightarrow> proto \<Rightarrow> bool" where
  "refined i res st st' \<longleftrightarrow> proto_inv st' \<and> map c_socket (clients st') = map c_socket (clients st) \<and> session i st' = fst res \<and>
     (\<forall>k < length (clients st). k \<noteq> i \<longrightarrow> session k st' = session k st) \<and>
     sends (c_socket (client_at i st)) (snd res) (p_net st) (p_net st')"

lemma refined_update:
  assumes "proto_inv st" "i < length (clients st)" "client_update i c' st st'" "client_ok (p_next st') c'"
    "pubs_ok (p_next st') (p_publications st')"
    "mset (map fst (fst (p_publications st'))) + client_refs (client_at i st) = mset (map fst (fst (p_publications st))) + client_refs c'"
    "\<And>s. s \<noteq> c_socket (client_at i st) \<Longrightarrow> accepted_on s st' = accepted_on s st"
    "\<And>a. a \<notin># client_refs (client_at i st) \<Longrightarrow> publication_at a st \<noteq> None \<Longrightarrow> publication_at a st' = publication_at a st"
    "session i st' = se'" "sends (c_socket (client_at i st)) ops (p_net st) (p_net st')"
  shows "refined i (se', ops) st st'"
proof -
  have "map c_socket (clients st') = map c_socket (clients st)"
    using assms(2,3) by (simp add: client_update_def map_update client_at_clients list_update_same_conv)
  then show ?thesis
    using inv_update [OF assms(1-6)] session_other [OF assms(1,3,2) _ _ assms(7,8)] assms(9,10) by (simp add: refined_def)
qed

lemma session_parts:
  assumes "client_at i st' = c'" "\<And>a. a \<in># client_refs c' \<Longrightarrow> publication_at a st' = pub a"
  shows "session i st' = \<lparr>se_in = msg_map in_message pub (fst (c_inboundMsgs c')), se_out = msg_map out_entry pub (fst (c_outboundMsgs c')),
    se_handed = map plain (accepted_on (c_socket c') st' @ c_messageQueue c')\<rparr>"
proof -
  have "msg_map in_message (\<lambda>a. publication_at a st') (fst (c_inboundMsgs c')) = msg_map in_message pub (fst (c_inboundMsgs c'))"
    by (rule msg_map_cong) (use assms(2) in \<open>auto simp: client_refs_def msg_refs_def image_comp\<close>)
  moreover have "msg_map out_entry (\<lambda>a. publication_at a st') (fst (c_outboundMsgs c')) = msg_map out_entry pub (fst (c_outboundMsgs c'))"
    by (rule msg_map_cong) (use assms(2) in \<open>auto simp: client_refs_def msg_refs_def image_comp\<close>)
  ultimately show ?thesis
    using assms(1) by (simp add: session_def)
qed

lemma client_update_at: "client_update i c' st st' \<Longrightarrow> i < length (clients st) \<Longrightarrow> client_at i st' = c'"
  by (simp add: client_update_def client_at_clients)

text \<open>Steps that keep the publications.\<close>

lemma refined_keep:
  assumes "proto_inv st" "i < length (clients st)" "client_update i c' st st'" "client_ok (p_next st') c'"
    "client_refs c' = client_refs (client_at i st)" "p_publications st' = p_publications st"
    "\<And>s. s \<noteq> c_socket (client_at i st) \<Longrightarrow> accepted_on s st' = accepted_on s st"
    "session i st' = se'" "sends (c_socket (client_at i st)) ops (p_net st) (p_net st')"
  shows "refined i (se', ops) st st'"
proof (rule refined_update [OF assms(1-4)])
  show "pubs_ok (p_next st') (p_publications st')"
    using assms(1,3,6) by (auto simp: proto_inv_def pubs_ok_def client_update_def)
qed (use assms in \<open>auto simp: publication_at_def\<close>)

text \<open>Steps that drop the message with the publication at \<open>a\<close>.\<close>

lemma refined_drop:
  assumes inv: "proto_inv st" "i < length (clients st)" and up: "client_update i c' st st'" "client_ok (p_next st) c'" "p_next st' = p_next st"
    and refs: "client_refs (client_at i st) = add_mset a (client_refs c')"
    and pub: "p_publications st' = snd (slist_remove (at_addr a) (p_publications st))"
    and acc: "\<And>s. s \<noteq> c_socket (client_at i st) \<Longrightarrow> accepted_on s st' = accepted_on s st"
    and sends: "sends (c_socket (client_at i st)) ops (p_net st) (p_net st')"
  shows "refined i (\<lparr>se_in = msg_map in_message (\<lambda>a. publication_at a st) (fst (c_inboundMsgs c')),
    se_out = msg_map out_entry (\<lambda>a. publication_at a st) (fst (c_outboundMsgs c')),
    se_handed = map plain (accepted_on (c_socket c') st' @ c_messageQueue c')\<rparr>, ops) st st'"
proof -
  have "a \<in># refs st"
    using client_refs_in [OF inv(2)] refs by (metis mset_subset_eqD union_single_eq_member)
  then have "a \<in> fst ` set (fst (p_publications st))"
    using inv(1) by (metis (no_types, lifting) proto_inv_def set_map set_mset_mset)
  moreover have "pubs_ok (p_next st) (p_publications st)"
    using inv(1) by (simp add: proto_inv_def)
  ultimately have p: "pubs_ok (p_next st') (p_publications st')"
    "mset (map fst (fst (p_publications st))) = add_mset a (mset (map fst (fst (p_publications st'))))"
    "\<And>b. publication_at b st' = (if b = a then None else publication_at b st)"
    using publication_remove [of "p_next st" "p_publications st" a] up(3) by (simp_all add: pub publication_at_def)
  have "{#a#} + client_refs c' \<subseteq># refs st"
    using client_refs_in [OF inv(2)] refs by simp
  from refs_apart [OF inv(1) this] have "a \<notin># client_refs c'"
    by simp
  then have b: "publication_at b st' = publication_at b st" if "b \<in># client_refs c'" for b
    using p(3) that by auto
  show ?thesis
  proof (rule refined_update [OF inv up(1) _ p(1) _ acc _ _ sends])
    show "session i st' = \<lparr>se_in = msg_map in_message (\<lambda>a. publication_at a st) (fst (c_inboundMsgs c')),
      se_out = msg_map out_entry (\<lambda>a. publication_at a st) (fst (c_outboundMsgs c')),
      se_handed = map plain (accepted_on (c_socket c') st' @ c_messageQueue c')\<rparr>"
      by (rule session_parts [OF client_update_at [OF up(1) inv(2)] b])
  qed (use up p refs in auto)
qed

text \<open>The state after the client was found: only the current position in the list of clients differs.\<close>

definition located :: "nat \<Rightarrow> proto \<Rightarrow> proto \<Rightarrow> bool" where
  "located i st st0 \<longleftrightarrow> find_client (c_socket (client_at i st)) st = Some (i, st0) \<and> proto_inv st0 \<and> clients st0 = clients st \<and>
     client_at i st0 = client_at i st \<and> p_net st0 = p_net st \<and> (\<forall>k. session k st0 = session k st) \<and>
     (\<forall>res st'. refined i res st0 st' = refined i res st st')"

lemma locatedD:
  assumes "located i st st0"
  shows "find_client (c_socket (client_at i st)) st = Some (i, st0)" "proto_inv st0" "clients st0 = clients st"
    "client_at i st0 = client_at i st" "p_net st0 = p_net st" "session k st0 = session k st" "refined i res st0 st' = refined i res st st'"
  using assms unfolding located_def by blast+

lemma find_client_spec:
  assumes "proto_inv st" "i < length (clients st)"
  obtains st0 where "located i st st0"
proof -
  let ?s = "c_socket (client_at i st)" and ?st0 = "st\<lparr>p_clients := (fst (p_clients st), Some i)\<rparr>"
  have i: "i < length (fst (p_clients st))" "slist_wf (p_clients st)" "distinct (map c_socket (fst (p_clients st)))"
    using assms by (simp_all add: proto_inv_def clients_def)
  have "find_client ?s st = Some (i, ?st0)"
    using i(2)
  proof (cases rule: slist_find_cases [of "p_clients st" "\<lambda>c. c_socket c = ?s"])
    case none
    then show ?thesis
      using i(1) by (auto simp: client_at_def)
  next
    case (found j)
    then have "j = i"
      using nth_eq_iff_index_eq [OF i(3), of j i] i(1) by (simp add: client_at_def)
    then show ?thesis
      using found by (simp add: find_client_def)
  qed
  moreover have "proto_inv ?st0"
    using assms i(1) by (simp add: proto_inv_def slist_wf_def refs_def)
  moreover have s: "session k ?st0 = session k st" for k
    by (simp add: session_def client_at_def publication_at_def accepted_on_def)
  moreover have "refined i res ?st0 st' = refined i res st st'" for res st'
    by (simp only: refined_def s) (simp add: client_at_def clients_def)
  ultimately show thesis
    by (intro that [of ?st0]) (simp add: located_def client_at_def clients_def)
qed

lemma set_client_simps [simp]:
  "clients (set_client i c st) = (clients st)[i := c]" "p_net (set_client i c st) = p_net st" "p_publications (set_client i c st) = p_publications st"
  "p_next (set_client i c st) = p_next st" "p_pending_writes (set_client i c st) = p_pending_writes st"
  "p_accepted (set_client i c st) = p_accepted st" "slist_wf (p_clients (set_client i c st)) = slist_wf (p_clients st)"
  "accepted_on s (set_client i c st) = accepted_on s st" "publication_at a (set_client i c st) = publication_at a st"
  by (simp_all add: set_client_def clients_def slist_wf_def accepted_on_def publication_at_def)

lemma proto_frames [simp]:
  "clients (st\<lparr>p_net := n\<rparr>) = clients st" "clients (st\<lparr>p_removed := r\<rparr>) = clients st" "clients (st\<lparr>p_publications := p\<rparr>) = clients st"
  "clients (st\<lparr>p_msgs_sent := k\<rparr>) = clients st" "clients (st\<lparr>p_msgs_received := k\<rparr>) = clients st" "clients (st\<lparr>p_next := x\<rparr>) = clients st"
  "clients (st\<lparr>p_accepted := acc\<rparr>) = clients st" "clients (st\<lparr>p_answers := ans\<rparr>) = clients st" "clients (st\<lparr>p_closing := cl\<rparr>) = clients st"
  "client_at i (st\<lparr>p_net := n\<rparr>) = client_at i st" "client_at i (st\<lparr>p_removed := r\<rparr>) = client_at i st" "client_at i (st\<lparr>p_publications := p\<rparr>) = client_at i st"
  "client_at i (st\<lparr>p_msgs_sent := k\<rparr>) = client_at i st" "client_at i (st\<lparr>p_msgs_received := k\<rparr>) = client_at i st" "client_at i (st\<lparr>p_next := x\<rparr>) = client_at i st"
  "client_at i (st\<lparr>p_accepted := acc\<rparr>) = client_at i st" "client_at i (st\<lparr>p_answers := ans\<rparr>) = client_at i st" "client_at i (st\<lparr>p_closing := cl\<rparr>) = client_at i st"
  "publication_at a (st\<lparr>p_net := n\<rparr>) = publication_at a st" "publication_at a (st\<lparr>p_removed := r\<rparr>) = publication_at a st"
  "publication_at a (st\<lparr>p_next := x\<rparr>) = publication_at a st" "publication_at a (st\<lparr>p_accepted := acc\<rparr>) = publication_at a st"
  "publication_at a (st\<lparr>p_answers := ans\<rparr>) = publication_at a st" "publication_at a (st\<lparr>p_closing := cl\<rparr>) = publication_at a st"
  "accepted_on s (st\<lparr>p_net := n\<rparr>) = accepted_on s st" "accepted_on s (st\<lparr>p_removed := r\<rparr>) = accepted_on s st" "accepted_on s (st\<lparr>p_publications := p\<rparr>) = accepted_on s st"
  "accepted_on s (st\<lparr>p_msgs_sent := k\<rparr>) = accepted_on s st" "accepted_on s (st\<lparr>p_msgs_received := k\<rparr>) = accepted_on s st" "accepted_on s (st\<lparr>p_next := x\<rparr>) = accepted_on s st"
  "accepted_on s (st\<lparr>p_answers := ans\<rparr>) = accepted_on s st" "accepted_on s (st\<lparr>p_closing := cl\<rparr>) = accepted_on s st"
  by (simp_all add: clients_def client_at_def publication_at_def accepted_on_def)

lemma pubs_then_next: "st\<lparr>p_publications := l, p_next := n\<rparr> = st\<lparr>p_next := n, p_publications := l\<rparr>"
  by simp

lemma set_client_frames:
  "p_msgs_sent (set_client i c st) = p_msgs_sent st"
  "(set_client i c st)\<lparr>p_msgs_sent := n\<rparr> = set_client i c (st\<lparr>p_msgs_sent := n\<rparr>)"
  "(set_client i c st)\<lparr>p_net := net\<rparr> = set_client i c (st\<lparr>p_net := net\<rparr>)"
  by (simp_all add: set_client_def)

lemma inv_client:
  assumes "proto_inv st" "i < length (clients st)"
  shows "client_ok (p_next st) (client_at i st)" "persistence (p_net st) (c_socket (client_at i st)) \<noteq> None"
    "w_inv (p_net st)" "slist_wf (p_clients st)" "pubs_ok (p_next st) (p_publications st)"
  using assms nth_mem [of i "clients st"] by (auto simp: proto_inv_def client_at_clients clients_def)

section \<open>Acknowledgements of outbound messages\<close>

lemma find_msg:
  assumes "msgs_ok P l"
  obtains (none) "slist_find (with_id k) l = (None, l)" "k \<notin> (ms_msgid \<circ> snd) ` set (fst l)"
    | (found) j ptr m where "slist_find (with_id k) l = (Some j, (fst l, Some j))" "j < length (fst l)" "fst l ! j = (ptr, m)"
      "ms_msgid m = k" "P (ptr, m)"
proof -
  have "slist_wf l"
    using assms by (simp add: msgs_ok_def)
  then show thesis
  proof (cases rule: slist_find_cases [of l "with_id k"])
    case none
    then show ?thesis
      by (intro that(1)) (auto simp: with_id_def)
  next
    case (found j)
    obtain ptr m where m: "fst l ! j = (ptr, m)"
      by (cases "fst l ! j")
    with found assms show ?thesis
      using that(2) [OF found(1,2) m] nth_mem [of j "fst l"] by (simp add: with_id_def msgs_ok_def list_all_iff)
  qed
qed

lemma refined_same: "proto_inv st \<Longrightarrow> refined i (session i st, []) st st"
  by (simp add: refined_def proto_inv_def sends_none)

lemma refined_out_current:
  assumes "proto_inv st" "i < length (clients st)" "\<forall>j. k = Some j \<longrightarrow> j < length (fst (c_outboundMsgs (client_at i st)))"
  shows "refined i (session i st, []) st (set_client i ((client_at i st)\<lparr>c_outboundMsgs := (fst (c_outboundMsgs (client_at i st)), k)\<rparr>) st)"
    (is "refined _ _ _ ?st'")
proof (rule refined_keep [OF assms(1,2)])
  let ?c' = "(client_at i st)\<lparr>c_outboundMsgs := (fst (c_outboundMsgs (client_at i st)), k)\<rparr>"
  show up: "client_update i ?c' st ?st'"
    using inv_client [OF assms(1,2)] by (simp add: client_update_def)
  show "client_ok (p_next ?st') ?c'"
    using inv_client(1) [OF assms(1,2)] assms(3) by (auto simp: client_ok_def msgs_ok_def slist_wf_def)
  show "session i ?st' = session i st"
    using session_parts [OF client_update_at [OF up assms(2)], of "\<lambda>a. publication_at a st"] by (simp add: session_def)
qed (use inv_client [OF assms(1,2)] in \<open>simp_all add: client_refs_def msg_refs_def sends_none\<close>)

lemma refined_in_current:
  assumes "proto_inv st" "i < length (clients st)" "j < length (fst (c_inboundMsgs (client_at i st)))"
  shows "refined i (session i st, []) st (set_client i ((client_at i st)\<lparr>c_inboundMsgs := (fst (c_inboundMsgs (client_at i st)), Some j)\<rparr>) st)"
    (is "refined _ _ _ ?st'")
proof (rule refined_keep [OF assms(1,2)])
  let ?c' = "(client_at i st)\<lparr>c_inboundMsgs := (fst (c_inboundMsgs (client_at i st)), Some j)\<rparr>"
  show up: "client_update i ?c' st ?st'"
    using inv_client [OF assms(1,2)] by (simp add: client_update_def)
  show "client_ok (p_next ?st') ?c'"
    using inv_client(1) [OF assms(1,2)] assms(3) by (simp add: client_ok_def msgs_current)
  show "session i ?st' = session i st"
    using session_parts [OF client_update_at [OF up assms(2)], of "\<lambda>a. publication_at a st"] by (simp add: session_def)
qed (use inv_client [OF assms(1,2)] in \<open>simp_all add: client_refs_def msg_refs_def sends_none\<close>)

lemma persistence_remove_spec:
  assumes "persistence (p_net st) s \<noteq> None"
  obtains rc r where "MQTTPersistence_remove s type qos k st = Some (rc, st\<lparr>p_removed := r\<rparr>)"
proof -
  obtain store where s: "persistence (p_net st) s = Some store"
    using assms by auto
  show thesis
  proof (cases store)
    case None
    then show ?thesis
      using that [of 0 "p_removed st"] s by (simp add: MQTTPersistence_remove_def)
  next
    case (Some x)
    then show ?thesis
      using that s by (simp add: MQTTPersistence_remove_def Let_def)
  qed
qed

text \<open>The outbound message at \<open>j\<close> is done.\<close>

lemma refined_out_done:
  assumes inv: "proto_inv st" "i < length (clients st)" and j: "j < length (fst (c_outboundMsgs (client_at i st)))"
    "fst (c_outboundMsgs (client_at i st)) ! j = (ptr, m)"
  defines "c' \<equiv> (client_at i st)\<lparr>c_outboundMsgs := snd (slist_remove (at_addr ptr) (fst (c_outboundMsgs (client_at i st)), Some j))\<rparr>"
  assumes st': "st' = set_client i c' (st\<lparr>p_removed := r, p_publications := snd (slist_remove (at_addr (ms_publish m)) (p_publications st)), p_msgs_sent := n\<rparr>)"
  shows "refined i ((session i st)\<lparr>se_out := (se_out (session i st))(ms_msgid m := None)\<rparr>, []) st st'"
    "MQTTProtocol_removePublication (ms_publish m) (st\<lparr>p_removed := r\<rparr>) =
      Some (st\<lparr>p_removed := r, p_publications := snd (slist_remove (at_addr (ms_publish m)) (p_publications st))\<rparr>)"
proof -
  note c = inv_client [OF inv]
  have "msgs_ok (out_ok (p_next st)) (c_outboundMsgs (client_at i st))"
    using c(1) by (simp add: client_ok_def)
  note rm = msgs_remove [OF this j, folded c'_def]
  have refs: "client_refs (client_at i st) = add_mset (ms_publish m) (client_refs c')"
    using rm(3) by (simp add: client_refs_def c'_def)
  have ok: "client_ok (p_next st) c'"
    using rm(1) c(1) by (simp add: client_ok_def c'_def)
  have up: "client_update i c' st st'"
    using c by (simp add: client_update_def st' c'_def)
  have "refined i (\<lparr>se_in = msg_map in_message (\<lambda>a. publication_at a st) (fst (c_inboundMsgs c')),
    se_out = msg_map out_entry (\<lambda>a. publication_at a st) (fst (c_outboundMsgs c')),
    se_handed = map plain (accepted_on (c_socket c') st' @ c_messageQueue c')\<rparr>, []) st st'"
    by (rule refined_drop [OF inv up ok _ refs]) (use c in \<open>simp_all add: st' sends_none\<close>)
  moreover have "msg_map out_entry (\<lambda>a. publication_at a st) (fst (c_outboundMsgs c')) = (se_out (session i st))(ms_msgid m := None)"
    using rm(2) msg_map_filter [of out_entry "\<lambda>a. publication_at a st"] by (simp add: c'_def session_def)
  moreover have "accepted_on s st' = accepted_on s st" for s
    by (simp add: st')
  ultimately show "refined i ((session i st)\<lparr>se_out := (se_out (session i st))(ms_msgid m := None)\<rparr>, []) st st'"
    by (simp add: session_def c'_def)
  have "ms_publish m \<in># client_refs (client_at i st)"
    using refs by simp
  then have "ms_publish m \<in># refs st"
    using client_refs_in [OF inv(2)] by (rule mset_subset_eqD [rotated])
  then have "ms_publish m \<in> fst ` set (fst (p_publications st))"
    using inv(1) by (metis (no_types, lifting) proto_inv_def set_map set_mset_mset)
  then show "MQTTProtocol_removePublication (ms_publish m) (st\<lparr>p_removed := r\<rparr>) =
      Some (st\<lparr>p_removed := r, p_publications := snd (slist_remove (at_addr (ms_publish m)) (p_publications st))\<rparr>)"
    using removePublication_spec [of "st\<lparr>p_removed := r\<rparr>" "ms_publish m"] c(5) by simp
qed

lemma session_out:
  assumes "proto_inv st" "i < length (clients st)" "j < length (fst (c_outboundMsgs (client_at i st)))"
    "fst (c_outboundMsgs (client_at i st)) ! j = (ptr, m)"
  shows "se_out (session i st) (ms_msgid m) = Some (msg_phase m, out_message m (the (publication_at (ms_publish m) st)))"
  using msg_map_nth [of "fst (c_outboundMsgs (client_at i st))" j out_entry "\<lambda>a. publication_at a st"] inv_client(1) [OF assms(1,2)] assms(3,4)
  by (simp add: session_def out_entry_def client_ok_def msgs_ok_def)

lemma session_out_None:
  "k \<notin> (ms_msgid \<circ> snd) ` set (fst (c_outboundMsgs (client_at i st))) \<Longrightarrow> se_out (session i st) k = None"
  by (simp add: session_def msg_map_None)

lemma handlePubacks_refined:
  assumes "proto_inv st" "i < length (clients st)"
  shows "\<exists>rc st'. MQTTProtocol_handlePubacks k (c_socket (client_at i st)) st = Some (rc, st') \<and>
    refined i (session_ack PUBACK dup k (session i st)) st st'"
proof -
  obtain st0 where "located i st st0"
    using find_client_spec [OF assms] .
  note st0 = locatedD [OF this]
  have i: "i < length (clients st0)"
    using assms(2) st0(3) by simp
  note c = inv_client [OF st0(2) i]
  have "msgs_ok (out_ok (p_next st0)) (c_outboundMsgs (client_at i st0))"
    using c(1) by (simp add: client_ok_def)
  then show ?thesis
  proof (cases rule: find_msg [where k = k])
    case none
    then show ?thesis
      using refined_same [OF st0(2), of i] session_out_None [OF none(2)] st0
      by (simp add: MQTTProtocol_handlePubacks_def Let_def session_ack_types)
  next
    case (found j ptr m)
    note out = session_out [OF st0(2) i found(2,3)]
    show ?thesis
    proof (cases "ms_qos m = 1")
      case True
      obtain rc r where "MQTTPersistence_remove (c_socket (client_at i st0)) PERSISTENCE_PUBLISH_SENT (ms_qos m) k st0 = Some (rc, st0\<lparr>p_removed := r\<rparr>)"
        using persistence_remove_spec [OF c(2)] .
      with refined_out_done(1) [OF st0(2) i found(2,3) refl, where r = r and n = "p_msgs_sent st0"]
        refined_out_done(2) [OF st0(2) i found(2,3) refl, where r = r] show ?thesis
        using True found out st0 by (simp add: MQTTProtocol_handlePubacks_def Let_def session_ack_types msg_phase_def)
    next
      case False
      then have "msg_phase m \<noteq> Wait_puback"
        by (simp add: msg_phase_def)
      with refined_out_current [OF st0(2) i, of "Some j"] show ?thesis
        using False found out st0 by (simp add: MQTTProtocol_handlePubacks_def Let_def session_ack_types split: phase.splits)
    qed
  qed
qed

lemma out_phase: "out_ok n (ptr, m) \<Longrightarrow> ms_qos m \<noteq> 1 \<Longrightarrow> ms_qos m = 2 \<and> (msg_phase m = Wait_pubrec \<and> ms_nextMessageType m = Some PUBREC \<or>
    msg_phase m = Wait_pubcomp \<and> ms_nextMessageType m = Some PUBCOMP)"
  by (auto simp: msg_phase_def PUBREC_def PUBCOMP_def)

lemma handlePubcomps_refined:
  assumes "proto_inv st" "i < length (clients st)"
  shows "\<exists>rc st'. MQTTProtocol_handlePubcomps k (c_socket (client_at i st)) st = Some (rc, st') \<and>
    refined i (session_ack PUBCOMP dup k (session i st)) st st'"
proof -
  obtain st0 where "located i st st0"
    using find_client_spec [OF assms] .
  note st0 = locatedD [OF this]
  have i: "i < length (clients st0)"
    using assms(2) st0(3) by simp
  note c = inv_client [OF st0(2) i]
  have "msgs_ok (out_ok (p_next st0)) (c_outboundMsgs (client_at i st0))"
    using c(1) by (simp add: client_ok_def)
  then show ?thesis
  proof (cases rule: find_msg [where k = k])
    case none
    then show ?thesis
      using refined_same [OF st0(2), of i] session_out_None [OF none(2)] st0
      by (simp add: MQTTProtocol_handlePubcomps_def Let_def session_ack_types)
  next
    case (found j ptr m)
    note out = session_out [OF st0(2) i found(2,3)]
    show ?thesis
    proof (cases "msg_phase m = Wait_pubcomp")
      case True
      then have m: "ms_qos m = 2" "ms_nextMessageType m = Some PUBCOMP"
        using out_phase [OF found(5)] by (auto simp: msg_phase_def split: if_splits)
      obtain rc r where "MQTTPersistence_remove (c_socket (client_at i st0)) PERSISTENCE_PUBLISH_SENT (ms_qos m) k st0 = Some (rc, st0\<lparr>p_removed := r\<rparr>)"
        using persistence_remove_spec [OF c(2)] .
      with refined_out_done(1) [OF st0(2) i found(2,3) refl, where r = r and n = "p_msgs_sent st0 + 1"]
        refined_out_done(2) [OF st0(2) i found(2,3) refl, where r = r] show ?thesis
        using True m found out st0 by (simp add: MQTTProtocol_handlePubcomps_def Let_def session_ack_types set_client_frames)
    next
      case False
      then have "ms_qos m = 1 \<or> ms_qos m = 2 \<and> ms_nextMessageType m = Some PUBREC"
        using found(5) out_phase [OF found(5)] by auto
      with refined_out_current [OF st0(2) i, of "Some j"] show ?thesis
        using False found out st0
        by (auto simp: MQTTProtocol_handlePubcomps_def Let_def session_ack_types ack_types_differ split: phase.splits)
    qed
  qed
qed

lemma send_one_sends:
  assumes "op_ok p" "w_inv net" "persistence net s \<noteq> None"
  shows "\<exists>rc net'. send_one p s net = Some (rc, net') \<and> sends s [p] net net'"
proof -
  obtain rc net' where "send_one p s net = Some (rc, net')" "sent_as s (op_wire p) net (rc, net')"
    using send_one_sent_as [OF assms] unfolding op_wire_def by blast
  then show ?thesis
    using sends_one by blast
qed

lemma sendsD: "sends s ops net net' \<Longrightarrow> w_inv net' \<and> persistence net' = persistence net"
  by (simp add: sends_def)

lemma handlePubrecs_refined:
  assumes "proto_inv st" "i < length (clients st)"
  shows "\<exists>rc st'. MQTTProtocol_handlePubrecs k (c_socket (client_at i st)) st = Some (rc, st') \<and>
    refined i (session_ack PUBREC dup k (session i st)) st st'"
proof -
  obtain st0 where "located i st st0"
    using find_client_spec [OF assms] .
  note st0 = locatedD [OF this]
  have i: "i < length (clients st0)"
    using assms(2) st0(3) by simp
  note c = inv_client [OF st0(2) i]
  let ?c = "client_at i st0"
  let ?l = "c_outboundMsgs ?c"
  have l: "msgs_ok (out_ok (p_next st0)) ?l"
    using c(1) by (simp add: client_ok_def)
  then have "msgs_ok (out_ok (p_next st0)) (fst ?l, None)"
    by (simp add: msgs_ok_def slist_wf_def)
  then show ?thesis
  proof (cases rule: find_msg [where k = k])
    case none
    then show ?thesis
      using refined_out_current [OF st0(2) i, of None] session_out_None [of k i st0] st0
      by (simp add: MQTTProtocol_handlePubrecs_def Let_def session_ack_types)
  next
    case (found j ptr m)
    then have j: "j < length (fst ?l)" "fst ?l ! j = (ptr, m)"
      by simp_all
    note out = session_out [OF st0(2) i j]
    show ?thesis
    proof (cases "msg_phase m = Wait_pubrec")
      case True
      then have m: "ms_qos m = 2" "ms_nextMessageType m = Some PUBREC" "id_ok k"
        using found(4,5) by (auto simp: msg_phase_def PUBREC_def PUBCOMP_def split: if_splits)
      obtain rc net' where net': "MQTTPacket_send_pubrel k 0 (c_socket ?c) (p_net st0) = Some (rc, net')"
        "sends (c_socket ?c) [Pubrel_op k 0] (p_net st0) net'"
        using send_one_sends [of "Pubrel_op k 0" "p_net st0" "c_socket ?c"] c m(3) by auto
      define m' where "m' = m\<lparr>ms_nextMessageType := Some PUBCOMP, ms_lastTouch := Some (now net')\<rparr>"
      define c' where "c' = ?c\<lparr>c_outboundMsgs := ((fst ?l)[j := (ptr, m')], Some j)\<rparr>"
      let ?st' = "set_client i c' (st0\<lparr>p_net := net'\<rparr>)" and ?se = "session i st0"
      have "refined i (?se\<lparr>se_out := (se_out ?se)(k \<mapsto> (Wait_pubcomp, out_message m (the (publication_at (ms_publish m) st0))))\<rparr>, [Pubrel_op k 0]) st0 ?st'"
      proof (rule refined_keep [OF st0(2) i])
        show up: "client_update i c' st0 ?st'"
          using c sendsD [OF net'(2)] by (simp add: client_update_def c'_def)
        have ids: "map (ms_msgid \<circ> snd) ((fst ?l)[j := (ptr, m')]) = map (ms_msgid \<circ> snd) (fst ?l)"
          "map fst ((fst ?l)[j := (ptr, m')]) = map fst (fst ?l)"
          using j by (simp_all add: map_update m'_def list_update_same_conv)
        have "out_ok (p_next st0) (ptr, m')"
          using found(5) m by (simp add: m'_def)
        then have "\<forall>x \<in> set ((fst ?l)[j := (ptr, m')]). out_ok (p_next st0) x"
          using l set_update_subset_insert [of "fst ?l" j "(ptr, m')"] by (auto simp: msgs_ok_def list_all_iff)
        then show "client_ok (p_next ?st') c'"
          using l c(1) j ids by (simp add: client_ok_def c'_def msgs_ok_def slist_wf_def list_all_iff)
        have "map (ms_publish \<circ> snd) ((fst ?l)[j := (ptr, m')]) = map (ms_publish \<circ> snd) (fst ?l)"
          using j by (simp add: map_update m'_def list_update_same_conv)
        then show "client_refs c' = client_refs ?c"
          by (simp add: client_refs_def msg_refs_def c'_def)
        have "msg_map out_entry (\<lambda>a. publication_at a st0) ((fst ?l)[j := (ptr, m')]) =
            (se_out ?se)(k \<mapsto> (Wait_pubcomp, out_message m (the (publication_at (ms_publish m) st0))))"
          using msg_map_update [of "fst ?l" j m' out_entry "\<lambda>a. publication_at a st0" ptr] l j found(4) m(1)
          by (simp add: session_def msgs_ok_def out_entry_def m'_def msg_phase_def out_message_def ack_types_differ)
        then show "session i ?st' = ?se\<lparr>se_out := (se_out ?se)(k \<mapsto> (Wait_pubcomp, out_message m (the (publication_at (ms_publish m) st0))))\<rparr>"
          using session_parts [OF client_update_at [OF up i], of "\<lambda>a. publication_at a st0"]
          by (simp add: publication_at_def session_def c'_def accepted_on_def)
      qed (use net' in \<open>simp_all add: accepted_on_def\<close>)
      then show ?thesis
        using True m found j out st0 net' unfolding c'_def m'_def
        by (simp add: MQTTProtocol_handlePubrecs_def Let_def session_ack_types)
    next
      case False
      then have "ms_qos m = 1 \<or> ms_qos m = 2 \<and> ms_nextMessageType m = Some PUBCOMP"
        using found(5) out_phase [OF found(5)] by auto
      with refined_out_current [OF st0(2) i, of "Some j"] show ?thesis
        using False found j out st0
        by (auto simp: MQTTProtocol_handlePubrecs_def Let_def session_ack_types ack_types_differ split: phase.splits)
    qed
  qed
qed

section \<open>Messages for the application\<close>

text \<open>A message is accepted at once, or queued behind those that wait.\<close>

lemma process_cases:
  assumes "i < length (clients st)" "0 \<le> pub_payloadlen p" "mem_read 0 (nat (pub_payloadlen p)) (pub_payload p) \<noteq> None"
  shows "\<exists>mm q acc ans. plain mm = publish_message p \<and>
    Protocol_processPublication p i st = Some (set_client i ((client_at i st)\<lparr>c_messageQueue := q\<rparr>) (st\<lparr>p_accepted := acc, p_answers := ans\<rparr>)) \<and>
    (acc = p_accepted st \<and> q = c_messageQueue (client_at i st) @ [mm] \<or>
     acc = p_accepted st @ [(c_socket (client_at i st), mm)] \<and> q = [] \<and> c_messageQueue (client_at i st) = [])"
proof -
  let ?c = "client_at i st"
  define mm where "mm = \<lparr>mm_topic = pub_topic p, mm_topiclen = pub_topiclen p, mm_payload = pub_bytes p, mm_qos = h_qos (pub_header p),
     mm_retained = h_retain (pub_header p), mm_dup = (if h_qos (pub_header p) = 2 then 0 else h_dup (pub_header p)), mm_msgid = pub_msgId p\<rparr>"
  have plain: "plain mm = publish_message p"
    by (simp add: plain_def mm_def publish_message_def)
  have same: "set_client i (?c\<lparr>c_messageQueue := c_messageQueue ?c\<rparr>) (st\<lparr>p_accepted := acc, p_answers := ans\<rparr>) = st\<lparr>p_accepted := acc, p_answers := ans\<rparr>" for acc ans
    using assms(1) by (simp add: set_client_def client_at_def clients_def)
  have run: "Protocol_processPublication p i st = (let (rc, st1) =
      (if c_messageQueue ?c = [] \<and> c_connected ?c \<and> c_ma ?c then MQTTAsync_deliverMessage (c_socket ?c) mm st else (False, st))
      in Some (if rc then st1 else set_client i (?c\<lparr>c_messageQueue := c_messageQueue ?c @ [mm]\<rparr>) st1))"
    using assms(2) pub_bytes_read [OF assms(3)] unfolding Protocol_processPublication_def mm_def Let_def by simp
  show ?thesis
  proof (cases "c_messageQueue ?c = [] \<and> c_connected ?c \<and> c_ma ?c \<and> (p_answers st = [] \<or> hd (p_answers st))")
    case True
    then have "Protocol_processPublication p i st = Some (st\<lparr>p_accepted := p_accepted st @ [(c_socket ?c, mm)], p_answers := tl (p_answers st)\<rparr>)"
      unfolding run by (cases "p_answers st") (auto simp: MQTTAsync_deliverMessage_def)
    then show ?thesis
      using plain True by (intro exI [of _ mm] exI [of _ "[]"] exI [of _ "p_accepted st @ [(c_socket ?c, mm)]"] exI [of _ "tl (p_answers st)"])
        (use same [where acc = "p_accepted st @ [(c_socket ?c, mm)]" and ans = "tl (p_answers st)"] in simp)
  next
    case False
    have "\<exists>ans. Protocol_processPublication p i st =
        Some (set_client i (?c\<lparr>c_messageQueue := c_messageQueue ?c @ [mm]\<rparr>) (st\<lparr>p_accepted := p_accepted st, p_answers := ans\<rparr>))"
    proof (cases "c_messageQueue ?c = [] \<and> c_connected ?c \<and> c_ma ?c")
      case True
      then obtain rest where "p_answers st = False # rest"
        using False by (cases "p_answers st") auto
      then show ?thesis
        unfolding run using True by (auto simp: MQTTAsync_deliverMessage_def)
    next
      case False
      then show ?thesis
        unfolding run by (intro exI [of _ "p_answers st"]) (simp only: if_False Let_def prod.case, simp)
    qed
    then show ?thesis
      using plain by blast
  qed
qed

lemma process_refined:
  assumes inv: "proto_inv st" "i < length (clients st)" and net: "sends (c_socket (client_at i st)) ops (p_net st) net'"
    and payload: "0 \<le> pub_payloadlen p" "mem_read 0 (nat (pub_payloadlen p)) (pub_payload p) \<noteq> None"
  obtains q acc ans where
    "Protocol_processPublication p i (st\<lparr>p_net := net'\<rparr>) =
       Some (set_client i ((client_at i st)\<lparr>c_messageQueue := q\<rparr>) (st\<lparr>p_net := net', p_accepted := acc, p_answers := ans\<rparr>))"
    "map plain (accepted_on (c_socket (client_at i st)) (st\<lparr>p_accepted := acc\<rparr>) @ q) = se_handed (session i st) @ [publish_message p]"
    "\<And>s. s \<noteq> c_socket (client_at i st) \<Longrightarrow> accepted_on s (st\<lparr>p_accepted := acc\<rparr>) = accepted_on s st"
    "refined i ((session i st)\<lparr>se_handed := se_handed (session i st) @ [publish_message p]\<rparr>, ops) st
       (set_client i ((client_at i st)\<lparr>c_messageQueue := q\<rparr>) (st\<lparr>p_net := net', p_accepted := acc, p_answers := ans\<rparr>))"
proof -
  let ?c = "client_at i st"
  have "\<exists>mm q acc ans. plain mm = publish_message p \<and>
    Protocol_processPublication p i (st\<lparr>p_net := net'\<rparr>) = Some (set_client i (?c\<lparr>c_messageQueue := q\<rparr>) (st\<lparr>p_net := net', p_accepted := acc, p_answers := ans\<rparr>)) \<and>
    (acc = p_accepted st \<and> q = c_messageQueue ?c @ [mm] \<or> acc = p_accepted st @ [(c_socket ?c, mm)] \<and> q = [] \<and> c_messageQueue ?c = [])"
    using process_cases [of i "st\<lparr>p_net := net'\<rparr>" p] inv(2) payload by simp
  then obtain mm q acc ans where run: "plain mm = publish_message p"
    "Protocol_processPublication p i (st\<lparr>p_net := net'\<rparr>) = Some (set_client i (?c\<lparr>c_messageQueue := q\<rparr>) (st\<lparr>p_net := net', p_accepted := acc, p_answers := ans\<rparr>))"
    "acc = p_accepted st \<and> q = c_messageQueue ?c @ [mm] \<or> acc = p_accepted st @ [(c_socket ?c, mm)] \<and> q = [] \<and> c_messageQueue ?c = []"
    by blast
  have handed: "map plain (accepted_on (c_socket ?c) (st\<lparr>p_accepted := acc\<rparr>) @ q) = se_handed (session i st) @ [publish_message p]"
    using run(1,3) by (auto simp: accepted_on_def session_def)
  have other: "accepted_on s (st\<lparr>p_accepted := acc\<rparr>) = accepted_on s st" if "s \<noteq> c_socket ?c" for s
    using run(3) that by (auto simp: accepted_on_def)
  let ?c' = "?c\<lparr>c_messageQueue := q\<rparr>" and ?st' = "set_client i (?c\<lparr>c_messageQueue := q\<rparr>) (st\<lparr>p_net := net', p_accepted := acc, p_answers := ans\<rparr>)"
  have acc: "accepted_on s ?st' = accepted_on s (st\<lparr>p_accepted := acc\<rparr>)" for s
    by (simp add: accepted_on_def)
  have "refined i ((session i st)\<lparr>se_handed := se_handed (session i st) @ [publish_message p]\<rparr>, ops) st ?st'"
  proof (rule refined_keep [OF inv])
    show up: "client_update i ?c' st ?st'"
      using inv_client [OF inv] sendsD [OF net] by (simp add: client_update_def)
    show "session i ?st' = (session i st)\<lparr>se_handed := se_handed (session i st) @ [publish_message p]\<rparr>"
      using session_parts [OF client_update_at [OF up inv(2)], of "\<lambda>a. publication_at a st"] handed acc by (simp add: session_def)
  qed (use inv_client [OF inv] net other acc in \<open>simp_all add: client_refs_def client_ok_def\<close>)
  with run(2) handed other show thesis
    by (rule that)
qed

lemma session_in:
  assumes "proto_inv st" "i < length (clients st)" "j < length (fst (c_inboundMsgs (client_at i st)))"
    "fst (c_inboundMsgs (client_at i st)) ! j = (ptr, m)"
  shows "se_in (session i st) (ms_msgid m) = Some (in_message m (the (publication_at (ms_publish m) st)))"
  using msg_map_nth [of "fst (c_inboundMsgs (client_at i st))" j in_message "\<lambda>a. publication_at a st"] inv_client(1) [OF assms(1,2)] assms(3,4)
  by (simp add: session_def client_ok_def msgs_ok_def)

lemma session_in_None:
  "k \<notin> (ms_msgid \<circ> snd) ` set (fst (c_inboundMsgs (client_at i st))) \<Longrightarrow> se_in (session i st) k = None"
  by (simp add: session_def msg_map_None)

lemma refined_net:
  assumes "proto_inv st" "i < length (clients st)" "sends (c_socket (client_at i st)) ops (p_net st) net'"
  shows "refined i (session i st, ops) st (st\<lparr>p_net := net'\<rparr>)"
proof (rule refined_keep [OF assms(1,2)])
  show up: "client_update i (client_at i st) st (st\<lparr>p_net := net'\<rparr>)"
    using inv_client [OF assms(1,2)] sendsD [OF assms(3)] assms(2) by (simp add: client_update_def client_at_clients)
qed (use assms inv_client [OF assms(1,2)] in \<open>simp_all add: session_def\<close>)

lemma inbound_publication:
  assumes "proto_inv st" "i < length (clients st)" "(ptr, m) \<in> set (fst (c_inboundMsgs (client_at i st)))"
  obtains p where "publication_at (ms_publish m) st = Some p" "pub_ok p"
proof -
  have "ms_publish m \<in># client_refs (client_at i st)"
    using assms(3) by (force simp: client_refs_def msg_refs_def)
  then have "ms_publish m \<in># refs st"
    using client_refs_in [OF assms(2)] by (rule mset_subset_eqD [rotated])
  then obtain p where p: "publication_at (ms_publish m) st = Some p"
    using refs_unique(2) [OF assms(1)] by auto
  then have "pub_ok p"
    using inv_client(5) [OF assms(1,2)] by (auto simp: pubs_ok_def publication_at_def dest!: map_of_SomeD)
  with p that show thesis
    by blast
qed

lemma bytes_of_list: "mem_read 0 (length bs) (map Some bs) = Some bs"
  using mem_read_part [of "[]" bs "[]"] by simp

lemma refined_trans:
  assumes "refined i (se1, ops1) st st1" "refined i (se2, ops2) st1 st2" "i < length (clients st)"
  shows "refined i (se2, ops1 @ ops2) st st2"
proof -
  have len: "length (clients st1) = length (clients st)" and sock: "c_socket (client_at i st1) = c_socket (client_at i st)"
    using assms(1,3) map_eq_imp_length_eq [of c_socket "clients st1" c_socket "clients st"] nth_map [of i "clients st1" c_socket]
      nth_map [of i "clients st" c_socket] by (auto simp: refined_def client_at_clients)
  show ?thesis
    using assms(1,2) sends_trans [of "c_socket (client_at i st)" ops1 "p_net st" "p_net st1" ops2 "p_net st2"] len sock
    by (auto simp: refined_def)
qed

text \<open>A message is released: it goes to the application and is forgotten.\<close>

lemma release_refined:
  assumes inv: "proto_inv st" "i < length (clients st)"
    and l: "snd (c_inboundMsgs (client_at i st)) = Some j" "fst (c_inboundMsgs (client_at i st)) ! j = (ptr, m)"
    and net: "sends (c_socket (client_at i st)) ops (p_net st) net'" and se: "session i st = se"
  shows "\<exists>rc' st'. do {
       p \<leftarrow> publication_at (ms_publish m) st;
       st2 \<leftarrow> Protocol_processPublication
         \<lparr>pub_header = set_retain (ms_retain m) (set_qos (ms_qos m) 0), pub_topic = pb_topic p, pub_topiclen = pb_topiclen p,
          pub_msgId = ms_msgid m, pub_payload = map Some (pb_payload p), pub_payloadlen = pb_payloadlen p\<rparr>
         i (st\<lparr>p_net := net'\<rparr>);
       (rc2, st3) \<leftarrow> MQTTPersistence_remove (c_socket (client_at i st)) PERSISTENCE_PUBLISH_RECEIVED (ms_qos m) k st2;
       let st4 = st3\<lparr>p_publications := snd (slist_remove (at_addr (ms_publish m)) (p_publications st3)),
         p_msgs_received := p_msgs_received st3 + 1\<rparr>;
       let c4 = client_at i st4;
       Some (rc + rc2, set_client i (c4\<lparr>c_inboundMsgs := snd (slist_remove (at_addr ptr) (c_inboundMsgs c4))\<rparr>) st4)
     } = Some (rc', st') \<and>
     refined i (se\<lparr>se_in := (se_in se)(ms_msgid m := None), se_handed := se_handed se @ [the (se_in se (ms_msgid m))]\<rparr>, ops) st st'"
proof -
  note c = inv_client [OF inv]
  let ?c = "client_at i st"
  let ?l = "c_inboundMsgs ?c"
  have msgs: "msgs_ok (in_ok (p_next st)) ?l" "j < length (fst ?l)" "?l = (fst ?l, Some j)"
    using c(1) l(1) by (auto simp: client_ok_def msgs_ok_def slist_wf_def prod_eq_iff)
  have mem: "(ptr, m) \<in> set (fst ?l)"
    using msgs(2) l(2) nth_mem by metis
  with msgs(1) have m: "ms_qos m = 2"
    by (auto simp: msgs_ok_def list_all_iff)
  obtain p where p: "publication_at (ms_publish m) st = Some p" "pub_ok p"
    using inbound_publication [OF inv mem] .
  define pub where "pub = \<lparr>pub_header = set_retain (ms_retain m) (set_qos (ms_qos m) 0), pub_topic = pb_topic p, pub_topiclen = pb_topiclen p,
    pub_msgId = ms_msgid m, pub_payload = map Some (pb_payload p), pub_payloadlen = pb_payloadlen p\<rparr>"
  have bytes: "0 \<le> pub_payloadlen pub" "mem_read 0 (nat (pub_payloadlen pub)) (pub_payload pub) = Some (pb_payload p)"
    using p(2) bytes_of_list by (simp_all add: pub_def pub_ok_def)
  then have "publish_message pub = in_message m p"
    using m by (simp add: publish_message_def in_message_def pub_bytes_def) (simp add: pub_def)
  then have msg: "publish_message pub = the (se_in se (ms_msgid m))"
    using session_in [OF inv msgs(2) l(2)] p(1) se by simp
  obtain q acc ans where run: "Protocol_processPublication pub i (st\<lparr>p_net := net'\<rparr>) =
     Some (set_client i (?c\<lparr>c_messageQueue := q\<rparr>) (st\<lparr>p_net := net', p_accepted := acc, p_answers := ans\<rparr>))"
    "map plain (accepted_on (c_socket ?c) (st\<lparr>p_accepted := acc\<rparr>) @ q) = se_handed (session i st) @ [publish_message pub]"
    "\<And>s. s \<noteq> c_socket ?c \<Longrightarrow> accepted_on s (st\<lparr>p_accepted := acc\<rparr>) = accepted_on s st"
    by (rule process_refined [OF inv net bytes(1)]) (use bytes(2) in auto)
  define st2 where "st2 = set_client i (?c\<lparr>c_messageQueue := q\<rparr>) (st\<lparr>p_net := net', p_accepted := acc, p_answers := ans\<rparr>)"
  have st2: "client_at i st2 = ?c\<lparr>c_messageQueue := q\<rparr>" "p_net st2 = net'" "p_publications st2 = p_publications st"
    using inv(2) by (simp_all add: st2_def client_at_clients)
  have "persistence (p_net st2) (c_socket ?c) \<noteq> None"
    using c(2) sendsD [OF net] st2(2) by simp
  then obtain rc2 r where rm: "MQTTPersistence_remove (c_socket ?c) PERSISTENCE_PUBLISH_RECEIVED (ms_qos m) k st2 = Some (rc2, st2\<lparr>p_removed := r\<rparr>)"
    by (rule persistence_remove_spec)
  define c' where "c' = ?c\<lparr>c_messageQueue := q, c_inboundMsgs := snd (slist_remove (at_addr ptr) ?l)\<rparr>"
  define st' where "st' = set_client i c' (st2\<lparr>p_removed := r, p_publications := snd (slist_remove (at_addr (ms_publish m)) (p_publications st2)),
    p_msgs_received := p_msgs_received st2 + 1\<rparr>)"
  note del = msgs_remove [OF msgs(1,2) l(2), folded msgs(3)]
  have st': "clients st' = (clients st)[i := c']" "p_publications st' = snd (slist_remove (at_addr (ms_publish m)) (p_publications st))"
    "slist_wf (p_clients st')" "p_pending_writes st' = p_pending_writes st" "p_next st' = p_next st" "p_net st' = net'"
    "accepted_on s st' = accepted_on s (st\<lparr>p_accepted := acc\<rparr>)" for s
    using c(4) by (simp_all add: st'_def st2_def) (simp add: accepted_on_def)
  have "refined i (\<lparr>se_in = msg_map in_message (\<lambda>a. publication_at a st) (fst (c_inboundMsgs c')),
    se_out = msg_map out_entry (\<lambda>a. publication_at a st) (fst (c_outboundMsgs c')),
    se_handed = map plain (accepted_on (c_socket c') st' @ c_messageQueue c')\<rparr>, ops) st st'"
  proof (rule refined_drop [OF inv])
    show "client_update i c' st st'"
      using sendsD [OF net] st' by (simp add: client_update_def c'_def)
    show "client_ok (p_next st) c'"
      using del(1) c(1) by (simp add: client_ok_def c'_def)
    show "client_refs ?c = add_mset (ms_publish m) (client_refs c')"
      using del(3) by (simp add: client_refs_def c'_def)
  qed (use st' run(3) net in \<open>simp_all add: c'_def\<close>)
  moreover have "msg_map in_message (\<lambda>a. publication_at a st) (fst (c_inboundMsgs c')) = (se_in se)(ms_msgid m := None)"
    using del(2) msg_map_filter [of in_message "\<lambda>a. publication_at a st"] se by (auto simp: c'_def session_def)
  ultimately have "refined i (se\<lparr>se_in := (se_in se)(ms_msgid m := None), se_handed := se_handed se @ [the (se_in se (ms_msgid m))]\<rparr>, ops) st st'"
    using run(2) st'(7) msg se by (auto simp: session_def c'_def)
  then show ?thesis
    using p(1) run(1) rm st2(1) unfolding pub_def [symmetric] by (simp add: pub_def [symmetric] st2_def [symmetric] st'_def c'_def Let_def)
qed

lemma handlePubrels_refined:
  assumes "proto_inv st" "i < length (clients st)" "id_ok k"
  shows "\<exists>rc st'. MQTTProtocol_handlePubrels dup k (c_socket (client_at i st)) st = Some (rc, st') \<and>
    refined i (session_ack PUBREL dup k (session i st)) st st'"
proof -
  obtain st0 where "located i st st0"
    using find_client_spec [OF assms(1,2)] .
  note st0 = locatedD [OF this]
  have i: "i < length (clients st0)"
    using assms(2) st0(3) by simp
  note c = inv_client [OF st0(2) i]
  let ?c = "client_at i st0"
  let ?l = "c_inboundMsgs ?c"
  obtain rc net' where net': "MQTTPacket_send_pubcomp k (c_socket ?c) (p_net st0) = Some (rc, net')"
    "sends (c_socket ?c) [Pubcomp_op k] (p_net st0) net'"
    using send_one_sends [of "Pubcomp_op k" "p_net st0" "c_socket ?c"] c assms(3) by auto
  have l: "msgs_ok (in_ok (p_next st0)) ?l"
    using c(1) by (simp add: client_ok_def)
  then show ?thesis
  proof (cases rule: find_msg [where k = k])
    case none
    then show ?thesis
      using refined_same [OF st0(2), of i] refined_net [OF st0(2) i net'(2)] session_in_None [OF none(2)] st0 net'
      by (simp add: MQTTProtocol_handlePubrels_def Let_def session_ack_types)
  next
    case (found j ptr m)
    define st1 where "st1 = set_client i (?c\<lparr>c_inboundMsgs := (fst ?l, Some j)\<rparr>) st0"
    have r1: "refined i (session i st0, []) st0 st1"
      unfolding st1_def by (rule refined_in_current [OF st0(2) i found(2)])
    then have st1: "proto_inv st1" "i < length (clients st1)" "session i st1 = session i st0"
      "client_at i st1 = ?c\<lparr>c_inboundMsgs := (fst ?l, Some j)\<rparr>" "p_net st1 = p_net st0"
      using i by (simp_all add: refined_def st1_def client_at_clients)
    have m: "ms_qos m = 2" "ms_nextMessageType m = Some PUBREL"
      using found(5) by auto
    have known: "\<exists>m'. se_in (session i st) k = Some m'"
      using session_in [OF st0(2) i found(2,3)] found(4) st0(6) by simp
    from release_refined [OF st1(1,2), of j ptr m "[Pubcomp_op k]" net' "session i st" k rc] obtain rc' st' where
      rel: "do {
       p \<leftarrow> publication_at (ms_publish m) st1;
       st2 \<leftarrow> Protocol_processPublication
         \<lparr>pub_header = set_retain (ms_retain m) (set_qos (ms_qos m) 0), pub_topic = pb_topic p, pub_topiclen = pb_topiclen p,
          pub_msgId = ms_msgid m, pub_payload = map Some (pb_payload p), pub_payloadlen = pb_payloadlen p\<rparr>
         i (st1\<lparr>p_net := net'\<rparr>);
       (rc2, st3) \<leftarrow> MQTTPersistence_remove (c_socket ?c) PERSISTENCE_PUBLISH_RECEIVED (ms_qos m) k st2;
       let st4 = st3\<lparr>p_publications := snd (slist_remove (at_addr (ms_publish m)) (p_publications st3)),
         p_msgs_received := p_msgs_received st3 + 1\<rparr>;
       let c4 = client_at i st4;
       Some (rc + rc2, set_client i (c4\<lparr>c_inboundMsgs := snd (slist_remove (at_addr ptr) (c_inboundMsgs c4))\<rparr>) st4)
      } = Some (rc', st')"
      "refined i ((session i st)\<lparr>se_in := (se_in (session i st))(k := None), se_handed := se_handed (session i st) @ [the (se_in (session i st) k)]\<rparr>,
        [Pubcomp_op k]) st1 st'"
      using st1(3-5) st0(6) found(3,4) net'(2) by auto
    show ?thesis
      using known rel(1) found m net'(1) st0(1,4) st1(5) refined_trans [OF r1 rel(2) i] st0(7)
      unfolding MQTTProtocol_handlePubrels_def st1_def by (auto simp: Let_def session_ack_types)
  qed
qed

section \<open>Publications that arrive\<close>

definition stored_publication :: "Publish \<Rightarrow> Publications" where
  "stored_publication p = \<lparr>pb_topic = pub_topic p, pb_topiclen = pub_topiclen p, pb_payload = pub_bytes p, pb_payloadlen = pub_payloadlen p, pb_refcount = 1\<rparr>"

definition stored_message :: "Publish \<Rightarrow> nat \<Rightarrow> Messages" where
  "stored_message p a = \<lparr>ms_qos = h_qos (pub_header p), ms_retain = h_retain (pub_header p), ms_msgid = pub_msgId p, ms_publish = a,
     ms_lastTouch = None, ms_nextMessageType = Some PUBREL\<rparr>"

lemma packet_bytes:
  assumes "packet_ok (Publish_packet p)"
  shows "0 \<le> pub_payloadlen p" "mem_read 0 (nat (pub_payloadlen p)) (pub_payload p) = Some (pub_bytes p)" "pub_ok (stored_publication p)"
proof -
  have p: "pub_payload p = map Some (pub_bytes p)" "pub_payloadlen p = int (length (pub_bytes p))"
    using assms by simp_all
  then show "0 \<le> pub_payloadlen p" "mem_read 0 (nat (pub_payloadlen p)) (pub_payload p) = Some (pub_bytes p)"
    using bytes_of_list [of "pub_bytes p"] p(1) [symmetric] by simp_all
  show "pub_ok (stored_publication p)"
    using assms by (simp add: pub_ok_def stored_publication_def)
qed

lemma storePublication_spec:
  assumes "packet_ok (Publish_packet p)"
  shows "MQTTProtocol_storePublication p st =
    Some (p_next st, st\<lparr>p_next := p_next st + 1, p_publications := slist_append (p_next st, stored_publication p) (p_publications st)\<rparr>)"
  using packet_bytes(1,2) [OF assms] by (simp add: MQTTProtocol_storePublication_def stored_publication_def Let_def)

lemma h_retain_bit: "h_retain h mod 2 = h_retain h"
  unfolding h_retain_def bits_get_def unsigned_take_bit_eq by (simp add: take_bit_eq_mod)

lemma stored_in_message: "h_qos (pub_header p) = 2 \<Longrightarrow> in_message (stored_message p a) (stored_publication p) = publish_message p"
  by (simp add: in_message_def stored_message_def stored_publication_def publish_message_def h_retain_bit)

lemma client_refs_old:
  assumes "proto_inv st" "i < length (clients st)" "a \<in># client_refs (client_at i st)"
  shows "publication_at a st \<noteq> None" "a < p_next st"
proof -
  have "a \<in># refs st"
    using mset_subset_eqD [OF client_refs_in [OF assms(2)] assms(3)] .
  then show "publication_at a st \<noteq> None"
    using refs_unique(2) [OF assms(1)] by simp
  then show "a < p_next st"
    using inv_client(5) [OF assms(1,2)] by (auto simp: publication_at_def pubs_ok_def dest!: map_of_SomeD)
qed

lemma store_refined:
  assumes inv: "proto_inv st" "i < length (clients st)" and sends: "sends (c_socket (client_at i st)) ops (p_net st) net'"
    and l': "msgs_ok (in_ok (p_next st + 2)) l'" and pubs: "pubs_ok (p_next st + 1) pubs'"
    and refs: "mset (map fst (fst pubs')) + msg_refs (c_inboundMsgs (client_at i st)) = mset (map fst (fst (p_publications st))) + msg_refs l'"
    and old: "\<And>a. a \<notin># msg_refs (c_inboundMsgs (client_at i st)) \<Longrightarrow> publication_at a st \<noteq> None \<Longrightarrow> map_of (fst pubs') a = publication_at a st"
    and se: "msg_map in_message (map_of (fst pubs')) (fst l') = se_in'"
  defines "st' \<equiv> (set_client i ((client_at i st)\<lparr>c_inboundMsgs := l'\<rparr>) (st\<lparr>p_next := p_next st + 2, p_publications := pubs'\<rparr>))\<lparr>p_net := net'\<rparr>"
  shows "refined i ((session i st)\<lparr>se_in := se_in'\<rparr>, ops) st st'"
proof -
  let ?c = "client_at i st"
  define c' where "c' = ?c\<lparr>c_inboundMsgs := l'\<rparr>"
  note c = inv_client [OF inv]
  have st': "clients st' = (clients st)[i := c']" "slist_wf (p_clients st')" "p_next st' = p_next st + 2" "p_publications st' = pubs'"
    "p_pending_writes st' = p_pending_writes st" "p_net st' = net'" "\<And>s. accepted_on s st' = accepted_on s st"
    using c(4) by (simp_all add: st'_def c'_def set_client_frames)
  have pub: "publication_at a st' = map_of (fst pubs') a" for a
    using st'(4) by (simp add: publication_at_def)
  have up: "client_update i c' st st'"
    using sendsD [OF sends] st' by (simp add: client_update_def c'_def)
  show ?thesis
  proof (rule refined_update [OF inv up])
    show "client_ok (p_next st') c'"
      using l' c(1) client_ok_mono [of "p_next st" ?c "p_next st + 2"] st'(3) by (simp add: client_ok_def c'_def)
    show "pubs_ok (p_next st') (p_publications st')"
      using pubs st' by (auto simp: pubs_ok_def)
    show "mset (map fst (fst (p_publications st'))) + client_refs ?c = mset (map fst (fst (p_publications st))) + client_refs c'"
      using refs st'(4) by (simp add: client_refs_def c'_def add.assoc [symmetric])
    show "publication_at a st' = publication_at a st" if "a \<notin># client_refs ?c" "publication_at a st \<noteq> None" for a
      unfolding pub using that by (intro old) (simp_all add: client_refs_def)
    have "msg_map out_entry (map_of (fst pubs')) (fst (c_outboundMsgs ?c)) = msg_map out_entry (\<lambda>a. publication_at a st) (fst (c_outboundMsgs ?c))"
    proof (rule msg_map_cong, rule old)
      fix a
      assume "a \<in> ms_publish ` snd ` set (fst (c_outboundMsgs ?c))"
      then have a: "a \<in># msg_refs (c_outboundMsgs ?c)"
        by (auto simp: msg_refs_def)
      then show "publication_at a st \<noteq> None"
        using client_refs_old(1) [OF inv, of a] by (simp add: client_refs_def)
      have "msg_refs (c_outboundMsgs ?c) + msg_refs (c_inboundMsgs ?c) \<subseteq># refs st"
        using client_refs_in [OF inv(2)] by (simp add: client_refs_def add.commute)
      then show "a \<notin># msg_refs (c_inboundMsgs ?c)"
        using refs_apart [OF inv(1) _ a] by blast
    qed
    then show "session i st' = (session i st)\<lparr>se_in := se_in'\<rparr>"
      using session_parts [OF client_update_at [OF up inv(2)], of "map_of (fst pubs')"] pub st'(7) se by (simp add: session_def c'_def)
  qed (use st' sends in simp_all)
qed

text \<open>A new message of QoS 2, and one whose identifier is known: it takes the place of the old one.\<close>

lemma store_new:
  assumes inv: "proto_inv st" "i < length (clients st)" and sends: "sends (c_socket (client_at i st)) ops (p_net st) net'"
    and p: "packet_ok (Publish_packet p)" "h_qos (pub_header p) = 2" and new: "pub_msgId p \<notin> (ms_msgid \<circ> snd) ` set (fst (c_inboundMsgs (client_at i st)))"
  defines "n \<equiv> p_next st" and "l' \<equiv> slist_append (p_next st + 1, stored_message p (p_next st)) (c_inboundMsgs (client_at i st))"
    and "pubs' \<equiv> slist_append (p_next st, stored_publication p) (p_publications st)"
  shows "refined i ((session i st)\<lparr>se_in := (se_in (session i st))(pub_msgId p \<mapsto> publish_message p)\<rparr>, ops) st
    ((set_client i ((client_at i st)\<lparr>c_inboundMsgs := l'\<rparr>) (st\<lparr>p_next := n + 2, p_publications := pubs'\<rparr>))\<lparr>p_net := net'\<rparr>)"
  unfolding n_def
proof (rule store_refined [OF inv sends])
  let ?l = "c_inboundMsgs (client_at i st)"
  note add = publication_add [OF inv_client(5) [OF inv] packet_bytes(3) [OF p(1)], folded pubs'_def]
  have ok: "msgs_ok (in_ok (p_next st)) ?l"
    using inv_client(1) [OF inv] by (simp add: client_ok_def)
  have small: "a < p_next st" if "a \<in># msg_refs ?l" for a
    using client_refs_old(2) [OF inv] that by (simp add: client_refs_def)
  have "\<forall>x \<in> set (fst ?l). in_ok (p_next st) x"
    using ok by (simp add: msgs_ok_def list_all_iff)
  then show "msgs_ok (in_ok (p_next st + 2)) l'"
    using ok p new slist_wf_simps(2) [of ?l] by (force simp: msgs_ok_def l'_def slist_append_def list_all_iff stored_message_def)
  show "pubs_ok (p_next st + 1) pubs'"
    using add(1) by simp
  show "mset (map fst (fst pubs')) + msg_refs ?l = mset (map fst (fst (p_publications st))) + msg_refs l'"
    using add(2) by (simp add: l'_def msg_refs_def slist_append_def stored_message_def)
  show "map_of (fst pubs') a = publication_at a st" if "publication_at a st \<noteq> None" for a
    using that add(3) inv_client(5) [OF inv] by (auto simp: publication_at_def pubs_ok_def dest!: map_of_SomeD)
  have "msg_map in_message (map_of (fst pubs')) (fst ?l) = msg_map in_message (\<lambda>a. publication_at a st) (fst ?l)"
    by (rule msg_map_cong) (use small add(3) in \<open>force simp: publication_at_def msg_refs_def\<close>)
  then show "msg_map in_message (map_of (fst pubs')) (fst l') = (se_in (session i st))(pub_msgId p \<mapsto> publish_message p)"
    using msg_map_append [of "stored_message p (p_next st)" "fst ?l" in_message "map_of (fst pubs')" "p_next st + 1"] new add(3) stored_in_message [OF p(2)]
    by (simp add: l'_def slist_append_def stored_message_def session_def)
qed

lemma mset_swap: "add_mset b M' = add_mset a M \<Longrightarrow> add_mset b N' = add_mset a N \<Longrightarrow> M' + N = M + N'"
proof -
  assume eq: "add_mset b M' = add_mset a M" "add_mset b N' = add_mset a N"
  have "add_mset b M' + add_mset a N = add_mset a M + add_mset b N'"
    by (simp only: eq)
  then show "M' + N = M + N'"
    by simp
qed

lemma store_again:
  assumes inv: "proto_inv st" "i < length (clients st)" and sends: "sends (c_socket (client_at i st)) ops (p_net st) net'"
    and p: "packet_ok (Publish_packet p)" "h_qos (pub_header p) = 2"
    and j: "j < length (fst (c_inboundMsgs (client_at i st)))" "fst (c_inboundMsgs (client_at i st)) ! j = (ptr, m)" "ms_msgid m = pub_msgId p"
  defines "n \<equiv> p_next st"
    and "l' \<equiv> snd (slist_remove (at_addr ptr) (slist_insert j (p_next st + 1, stored_message p (p_next st)) (fst (c_inboundMsgs (client_at i st)), Some j)))"
    and "pubs' \<equiv> snd (slist_remove (at_addr (ms_publish m)) (slist_append (p_next st, stored_publication p) (p_publications st)))"
  shows "refined i ((session i st)\<lparr>se_in := (se_in (session i st))(pub_msgId p \<mapsto> publish_message p)\<rparr>, ops) st
      ((set_client i ((client_at i st)\<lparr>c_inboundMsgs := l'\<rparr>) (st\<lparr>p_next := n + 2, p_publications := pubs'\<rparr>))\<lparr>p_net := net'\<rparr>)"
    "ms_publish m \<in> fst ` set (fst (slist_append (p_next st, stored_publication p) (p_publications st)))"
proof -
  let ?l = "c_inboundMsgs (client_at i st)" and ?am = "(p_next st + 1, stored_message p (p_next st))"
  let ?pubs = "slist_append (p_next st, stored_publication p) (p_publications st)" and ?b = "ms_publish m"
  note add = publication_add [OF inv_client(5) [OF inv] packet_bytes(3) [OF p(1)]]
  have ok: "msgs_ok (in_ok (p_next st)) ?l"
    using inv_client(1) [OF inv] by (simp add: client_ok_def)
  then have d: "distinct (map fst (fst ?l))" "distinct (map (ms_msgid \<circ> snd) (fst ?l))" "\<forall>x \<in> set (fst ?l). in_ok (p_next st) x"
    by (simp_all add: msgs_ok_def list_all_iff)
  have small: "publication_at a st \<noteq> None \<and> a < p_next st" if "a \<in># msg_refs ?l" for a
    using client_refs_old [OF inv] that by (simp add: client_refs_def)
  have b: "?b \<in># msg_refs ?l"
    using nth_mem [OF j(1)] j(2) by (force simp: msg_refs_def)
  with small obtain pb where "map_of (fst (p_publications st)) ?b = Some pb"
    by (fastforce simp: publication_at_def)
  then show mem: "?b \<in> fst ` set (fst ?pubs)"
    by (force simp: slist_append_def dest: map_of_SomeD)
  note del = publication_remove [OF add(1) mem, folded pubs'_def]
  have fresh: "fst ?am \<notin> fst ` set (fst ?l)"
    using d(3) by force
  have ins: "distinct (map fst (insert_nth j ?am (fst ?l)))" "slist_wf (slist_insert j ?am (fst ?l, Some j))"
    using distinct_insert_nth [OF d(1), of "fst ?am" j] fresh j(1) by (simp_all add: map_insert_nth slist_insert_def slist_wf_def shift_up_def)
  have "fst l' = filter (\<lambda>x. fst x \<noteq> ptr) (insert_nth j ?am (fst ?l))" "slist_wf l'"
    using slist_remove_key [OF ins(2), of fst ptr] ins(1) by (simp_all add: l'_def at_addr_key slist_insert_def)
  then have l': "fst l' = (fst ?l)[j := ?am]" "slist_wf l'"
    using replace_key [OF d(1) j(1) fresh] j(2) by simp_all
  have ids: "map (ms_msgid \<circ> snd) ((fst ?l)[j := ?am]) = map (ms_msgid \<circ> snd) (fst ?l)"
    using j by (simp add: map_update list_update_same_conv stored_message_def)
  have refs: "add_mset ?b (msg_refs l') = add_mset (p_next st) (msg_refs ?l)"
    using j(1,2) b by (simp add: msg_refs_def l'(1) map_update mset_update stored_message_def)
  have old: "map_of (fst pubs') a = publication_at a st" if "a \<noteq> ?b" "publication_at a st \<noteq> None" for a
    using that del(3) add(3) inv_client(5) [OF inv] by (auto simp: publication_at_def pubs_ok_def dest!: map_of_SomeD)
  have "refined i ((session i st)\<lparr>se_in := (se_in (session i st))(pub_msgId p \<mapsto> publish_message p)\<rparr>, ops) st
      ((set_client i ((client_at i st)\<lparr>c_inboundMsgs := l'\<rparr>) (st\<lparr>p_next := p_next st + 2, p_publications := pubs'\<rparr>))\<lparr>p_net := net'\<rparr>)"
  proof (rule store_refined [OF inv sends])
    have "in_ok (p_next st + 2) ?am" "\<forall>x \<in> set (fst ?l). in_ok (p_next st + 2) x"
      using p d(3) by (auto simp: stored_message_def)
    then show "msgs_ok (in_ok (p_next st + 2)) l'"
      using l'(2) ids d set_update_subset_insert [of "fst ?l" j ?am] fresh
      by (auto simp: msgs_ok_def l'(1) list_all_iff map_update intro!: distinct_list_update)
    show "pubs_ok (p_next st + 1) pubs'"
      using del(1) by simp
    show "mset (map fst (fst pubs')) + msg_refs ?l = mset (map fst (fst (p_publications st))) + msg_refs l'"
      using del(2) add(2) refs by (intro mset_swap [of ?b _ "p_next st"]) simp_all
    show "map_of (fst pubs') a = publication_at a st" if "a \<notin># msg_refs ?l" "publication_at a st \<noteq> None" for a
      using that b by (intro old) auto
    have "count (msg_refs ?l) ?b \<le> 1"
      using mset_subset_eq_count [OF client_refs_in [OF inv(2)], of ?b] refs_unique(1) [OF inv(1), of ?b] by (simp add: client_refs_def)
    moreover have "count (add_mset ?b (msg_refs l')) ?b = count (add_mset (p_next st) (msg_refs ?l)) ?b"
      by (simp add: refs)
    ultimately have "?b \<notin># msg_refs l'"
      using small [OF b] by (simp add: not_in_iff)
    then have "msg_map in_message (map_of (fst pubs')) (fst l') = msg_map in_message (map_of (fst ?pubs)) (fst l')"
      by (intro msg_map_cong) (force simp: del(3) msg_refs_def)
    also have "\<dots> = (msg_map in_message (map_of (fst ?pubs)) (fst ?l))(pub_msgId p \<mapsto> publish_message p)"
      using msg_map_update [OF d(2) j(1), of "stored_message p (p_next st)" in_message "map_of (fst ?pubs)" "p_next st + 1"] j(2,3) add(3) stored_in_message [OF p(2)]
      by (simp add: l'(1) stored_message_def)
    also have "msg_map in_message (map_of (fst ?pubs)) (fst ?l) = msg_map in_message (\<lambda>a. publication_at a st) (fst ?l)"
      by (rule msg_map_cong) (use small add(3) in \<open>force simp: publication_at_def msg_refs_def\<close>)
    finally show "msg_map in_message (map_of (fst pubs')) (fst l') = (se_in (session i st))(pub_msgId p \<mapsto> publish_message p)"
      by (simp only: session_def session.simps)
  qed
  then show "refined i ((session i st)\<lparr>se_in := (se_in (session i st))(pub_msgId p \<mapsto> publish_message p)\<rparr>, ops) st
      ((set_client i ((client_at i st)\<lparr>c_inboundMsgs := l'\<rparr>) (st\<lparr>p_next := n + 2, p_publications := pubs'\<rparr>))\<lparr>p_net := net'\<rparr>)"
    by (simp add: n_def)
qed

lemma handlePublishes_refined:
  assumes "proto_inv st" "i < length (clients st)" "packet_ok (Publish_packet p)"
  shows "\<exists>rc st'. MQTTProtocol_handlePublishes p (c_socket (client_at i st)) st = Some (rc, st') \<and>
    refined i (session_handle (Publish_packet p) (session i st)) st st'"
proof -
  obtain st0 where "located i st st0"
    using find_client_spec [OF assms(1,2)] .
  note st0 = locatedD [OF this]
  have i: "i < length (clients st0)"
    using assms(2) st0(3) by simp
  note c = inv_client [OF st0(2) i]
  let ?c = "client_at i st0" and ?k = "pub_msgId p"
  let ?l = "c_inboundMsgs ?c"
  have k: "id_ok ?k"
    using assms(3) by simp
  note bytes = packet_bytes [OF assms(3)]
  then have read: "mem_read 0 (nat (pub_payloadlen p)) (pub_payload p) \<noteq> None"
    by simp
  consider "h_qos (pub_header p) = 0" | "h_qos (pub_header p) = 1" | "h_qos (pub_header p) = 2" | "h_qos (pub_header p) \<notin> {0, 1, 2}"
    by auto
  then show ?thesis
  proof cases
    case 1
    obtain q acc ans where "Protocol_processPublication p i (st0\<lparr>p_net := p_net st0\<rparr>) =
        Some (set_client i (?c\<lparr>c_messageQueue := q\<rparr>) (st0\<lparr>p_net := p_net st0, p_accepted := acc, p_answers := ans\<rparr>))"
      "refined i ((session i st0)\<lparr>se_handed := se_handed (session i st0) @ [publish_message p]\<rparr>, []) st0
        (set_client i (?c\<lparr>c_messageQueue := q\<rparr>) (st0\<lparr>p_net := p_net st0, p_accepted := acc, p_answers := ans\<rparr>))"
      by (rule process_refined [OF st0(2) i sends_none [OF c(3)] bytes(1) read])
    then show ?thesis
      using 1 st0(1,4,6,7) by (simp add: MQTTProtocol_handlePublishes_def Let_def)
  next
    case 2
    obtain rc net' where net': "MQTTPacket_send_puback ?k (c_socket ?c) (p_net st0) = Some (rc, net')"
      "sends (c_socket ?c) [Puback_op ?k] (p_net st0) net'"
      using send_one_sends [of "Puback_op ?k" "p_net st0" "c_socket ?c"] c k by auto
    obtain q acc ans where "Protocol_processPublication p i (st0\<lparr>p_net := net'\<rparr>) =
        Some (set_client i (?c\<lparr>c_messageQueue := q\<rparr>) (st0\<lparr>p_net := net', p_accepted := acc, p_answers := ans\<rparr>))"
      "refined i ((session i st0)\<lparr>se_handed := se_handed (session i st0) @ [publish_message p]\<rparr>, [Puback_op ?k]) st0
        (set_client i (?c\<lparr>c_messageQueue := q\<rparr>) (st0\<lparr>p_net := net', p_accepted := acc, p_answers := ans\<rparr>))"
      by (rule process_refined [OF st0(2) i net'(2) bytes(1) read])
    then show ?thesis
      using 2 st0 net' by (simp add: MQTTProtocol_handlePublishes_def Let_def)
  next
    case 3
    obtain rc net' where net': "MQTTPacket_send_pubrec ?k (c_socket ?c) (p_net st0) = Some (rc, net')"
      "sends (c_socket ?c) [Pubrec_op ?k] (p_net st0) net'"
      using send_one_sends [of "Pubrec_op ?k" "p_net st0" "c_socket ?c"] c k by auto
    have "msgs_ok (in_ok (p_next st0)) ?l"
      using c(1) by (simp add: client_ok_def)
    then show ?thesis
    proof (cases rule: find_msg [where k = ?k])
      case none
      with store_new [OF st0(2) i net'(2) assms(3) 3 none(2)] show ?thesis
        using 3 st0 net' storePublication_spec [OF assms(3), of st0]
        by (simp add: MQTTProtocol_handlePublishes_def Let_def stored_message_def pubs_then_next)
    next
      case (found j ptr m)
      note again = store_again [OF st0(2) i net'(2) assms(3) 3 found(2-4)]
      let ?pubs = "slist_append (p_next st0, stored_publication p) (p_publications st0)"
      have "MQTTProtocol_removePublication (ms_publish m) (st0\<lparr>p_next := p_next st0 + 2, p_publications := ?pubs\<rparr>) =
          Some (st0\<lparr>p_next := p_next st0 + 2, p_publications := snd (slist_remove (at_addr (ms_publish m)) ?pubs)\<rparr>)"
        using removePublication_spec [of "st0\<lparr>p_next := p_next st0 + 2, p_publications := ?pubs\<rparr>" "ms_publish m"]
          publication_add(1) [OF c(5) bytes(3)] again(2) by (force simp: pubs_ok_def)
      then show ?thesis
        using again(1) 3 found st0 net' storePublication_spec [OF assms(3), of st0]
        by (simp add: MQTTProtocol_handlePublishes_def Let_def stored_message_def pubs_then_next)
    qed
  next
    case 4
    then show ?thesis
      using refined_same [OF st0(2), of i] st0 by (simp add: MQTTProtocol_handlePublishes_def Let_def)
  qed
qed

section \<open>All packets\<close>

lemma handlePingresps_refined:
  assumes "proto_inv st" "i < length (clients st)"
  shows "\<exists>rc st'. MQTTProtocol_handlePingresps (c_socket (client_at i st)) st = Some (rc, st') \<and> refined i (session i st, []) st st'"
proof -
  obtain st0 where "located i st st0"
    using find_client_spec [OF assms] .
  note st0 = locatedD [OF this]
  have i: "i < length (clients st0)"
    using assms(2) st0(3) by simp
  note c = inv_client [OF st0(2) i]
  let ?c' = "(client_at i st0)\<lparr>c_ping_outstanding := False\<rparr>"
  have "refined i (session i st0, []) st0 (set_client i ?c' st0)"
  proof (rule refined_keep [OF st0(2) i])
    show up: "client_update i ?c' st0 (set_client i ?c' st0)"
      using c by (simp add: client_update_def)
    show "session i (set_client i ?c' st0) = session i st0"
      using session_parts [OF client_update_at [OF up i], of "\<lambda>a. publication_at a st0"] by (simp add: session_def)
  qed (use c in \<open>simp_all add: client_refs_def client_ok_def sends_none\<close>)
  then show ?thesis
    using st0 by (simp add: MQTTProtocol_handlePingresps_def)
qed

lemma handle_packet_refined:
  assumes "proto_inv st" "i < length (clients st)" "packet_ok pack"
  shows "\<exists>rc st'. handle_packet pack (c_socket (client_at i st)) st = Some (rc, st') \<and> refined i (session_handle pack (session i st)) st st'"
proof (cases pack)
  case (Publish_packet p)
  then show ?thesis
    using handlePublishes_refined [OF assms(1,2)] assms(3) by (simp add: handle_packet_def)
next
  case (Ack h k)
  consider "h_type h = PUBACK" | "h_type h = PUBREC" | "h_type h = PUBREL" | "h_type h = PUBCOMP" | "h_type h \<notin> {PUBACK, PUBREC, PUBREL, PUBCOMP}"
    by blast
  then show ?thesis
  proof cases
    case 1
    then show ?thesis
      using handlePubacks_refined [OF assms(1,2), of k "h_dup h"] Ack by (simp add: handle_packet_def ack_types_differ)
  next
    case 2
    then show ?thesis
      using handlePubrecs_refined [OF assms(1,2), of k "h_dup h"] Ack by (simp add: handle_packet_def ack_types_differ)
  next
    case 3
    then show ?thesis
      using handlePubrels_refined [OF assms(1,2), of k "h_dup h"] Ack assms(3) by (simp add: handle_packet_def ack_types_differ)
  next
    case 4
    then show ?thesis
      using handlePubcomps_refined [OF assms(1,2), of k "h_dup h"] Ack by (simp add: handle_packet_def)
  next
    case 5
    then show ?thesis
      using refined_same [OF assms(1), of i] Ack by (simp add: handle_packet_def session_ack.simps)
  qed
next
  case (Header_only h)
  then show ?thesis
    using handlePingresps_refined [OF assms(1,2)] refined_same [OF assms(1)] by (simp add: handle_packet_def)
qed (use refined_same [OF assms(1)] in \<open>simp_all add: handle_packet_def\<close>)

text \<open>
  C5: the handlers implement the abstract session. For every packet the reader can return, in every well-formed state,
  the handler is defined, keeps the state well formed (no stored publication is lost, or freed while a message in flight or the write of a
  message of QoS 0 refers to it), changes the session of the client as \<open>session_handle\<close> says, queues the answer of \<open>session_handle\<close> on
  the socket of the client, and leaves the sessions of all other clients and the output of all other sockets alone. The answer is certainly
  queued, whatever the handler returns, when the socket has no unfinished write and no write fails; otherwise it may be refused, and then nothing is queued.
\<close>

theorem handlers_implement_session:
  assumes "proto_inv st" "i < length (clients st)" "packet_ok pack"
  shows "\<exists>rc st'. handle_packet pack (c_socket (client_at i st)) st = Some (rc, st') \<and> proto_inv st' \<and>
    session i st' = fst (session_handle pack (session i st)) \<and>
    (\<forall>k < length (clients st). k \<noteq> i \<longrightarrow> session k st' = session k st) \<and>
    sends (c_socket (client_at i st)) (snd (session_handle pack (session i st))) (p_net st) (p_net st') \<and>
    (no_write_error (p_net st) \<and> c_socket (client_at i st) \<notin> set (fst (write_pending (p_net st))) \<longrightarrow>
      queued (c_socket (client_at i st)) (p_net st') =
        queued (c_socket (client_at i st)) (p_net st) @ concat (map op_wire (snd (session_handle pack (session i st)))))"
  using handle_packet_refined [OF assms] session_handle_one [of pack "session i st"] unfolding refined_def sends_def writable_def by blast

definition demo_inbound :: Messages where
  "demo_inbound = \<lparr>ms_qos = 2, ms_retain = 0, ms_msgid = 9, ms_publish = 0, ms_lastTouch = None, ms_nextMessageType = Some PUBREL\<rparr>"

definition demo_proto :: proto where
  "demo_proto = \<lparr>p_net = demo_net,
     p_clients = ([demo_client\<lparr>c_inboundMsgs := ([(1, demo_inbound)], None), c_outboundMsgs := ([], None)\<rparr>], None),
     p_publications = ([(0, \<lparr>pb_topic = [97], pb_topiclen = 1, pb_payload = [104, 105], pb_payloadlen = 2, pb_refcount = 1\<rparr>)], None),
     p_pending_writes = ([], None), p_next = 2, p_msgs_received = 0, p_msgs_sent = 0, p_premove = (\<lambda>_ _. 0), p_removed = [],
     p_answers = [], p_accepted = [], p_closing = []\<rparr>"

lemma demo_proto_inv: "proto_inv demo_proto"
  by (simp add: proto_inv_def demo_proto_def demo_client_def demo_inbound_def demo_net_def w_inv_def client_ok_def msgs_ok_def slist_wf_def
      pubs_ok_def pub_ok_def refs_def client_refs_def msg_refs_def id_ok_def)

theorem handlers_implement_session_witness:
  "\<exists>rc st'. handle_packet (Ack (ack_header PUBREL 0) 9) 5 demo_proto = Some (rc, st') \<and> proto_inv st' \<and> se_in (session 0 st') 9 = None \<and>
     se_handed (session 0 st') =
       [\<lparr>mm_topic = [97], mm_topiclen = 0, mm_payload = [104, 105], mm_qos = 2, mm_retained = 0, mm_dup = 0, mm_msgid = 9\<rparr>] \<and>
     queued 5 (p_net st') = op_wire (Pubcomp_op 9)"
proof -
  have "no_write_error (p_net demo_proto)" "write_pending (p_net demo_proto) = ([], None)" "queued 5 (p_net demo_proto) = []"
    by (simp_all add: demo_proto_def demo_net_def no_write_error_def queued_def pending_def)
  moreover have "clients demo_proto = [demo_client\<lparr>c_inboundMsgs := ([(1, demo_inbound)], None), c_outboundMsgs := ([], None)\<rparr>]"
    by (simp add: clients_def demo_proto_def)
  moreover have "h_type (ack_header PUBREL 0) = PUBREL"
    by (simp add: PUBREL_def)
  moreover have "session 0 demo_proto = \<lparr>se_in = [9 \<mapsto> in_message demo_inbound \<lparr>pb_topic = [97], pb_topiclen = 1, pb_payload = [104, 105], pb_payloadlen = 2, pb_refcount = 1\<rparr>],
      se_out = Map.empty, se_handed = []\<rparr>"
    by (simp add: session_def demo_proto_def client_at_def msg_map_def publication_at_def accepted_on_def demo_client_def demo_inbound_def)
  ultimately show ?thesis
    using handlers_implement_session [OF demo_proto_inv, of 0 "Ack (ack_header PUBREL 0) 9"]
    by (auto simp: client_at_clients session_ack_types in_message_def demo_inbound_def demo_client_def id_ok_def)
qed

end
