(* ===== verification/Mqtt_Publish.thy ===== *)
theory Mqtt_Publish
  imports Mqtt_Handlers
begin

text \<open>
  Publishing and retries of the MQTT client library, seen from the abstract sessions of \<^theory_text>\<open>Mqtt_Handlers\<close>.
\<close>

section \<open>Publishing\<close>

text \<open>The message of a publication, as the receiver will see it.\<close>

definition sent_message :: "Publish \<Rightarrow> int \<Rightarrow> int \<Rightarrow> MQTTAsync_message" where
  "sent_message p qos retained = \<lparr>mm_topic = c_bytes (pub_topic p), mm_topiclen = 0, mm_payload = pub_bytes p, mm_qos = qos,
     mm_retained = retained mod 2, mm_dup = 0, mm_msgid = pub_msgId p\<rparr>"

definition session_publish :: "Publish \<Rightarrow> int \<Rightarrow> int \<Rightarrow> session \<Rightarrow> session \<times> send_op list" where
  "session_publish p qos retained se =
     (se\<lparr>se_out := (se_out se)(pub_msgId p \<mapsto> (if qos = 1 then Wait_puback else Wait_pubrec, sent_message p qos retained))\<rparr>,
      [Publish_op p 0 qos retained])"

lemma length_c_bytes: "length (c_bytes t) \<le> length t"
  by (simp add: c_bytes_def length_takeWhile_le)

lemma publish_op_ok:
  assumes "packet_ok (Publish_packet p)" "0 \<le> qos" "qos \<le> 2"
  shows "op_ok (Publish_op p dup qos retained)"
proof -
  have "length (c_bytes (pub_topic p)) \<le> length (pub_topic p)"
    by (rule length_c_bytes)
  moreover have "length (publish_body (pub_topic p) qos (pub_msgId p) (pub_bytes p)) \<le> 4 + length (c_bytes (pub_topic p)) + length (pub_bytes p)"
    by (simp add: publish_body_def utf_len_def)
  ultimately show ?thesis
    using assms packet_bytes(1,2) [OF assms(1)] by simp
qed

definition created_message :: "Publish \<Rightarrow> int \<Rightarrow> int \<Rightarrow> int \<Rightarrow> nat \<Rightarrow> Messages" where
  "created_message p qos retained t a = \<lparr>ms_qos = qos, ms_retain = retained, ms_msgid = pub_msgId p, ms_publish = a, ms_lastTouch = Some t,
     ms_nextMessageType = (if qos = 2 then Some PUBREC else None)\<rparr>"

lemma msg_map_old:
  assumes "proto_inv st" "i < length (clients st)" "\<And>a. publication_at a st \<noteq> None \<Longrightarrow> pubs a = publication_at a st"
    "l = fst (c_inboundMsgs (client_at i st)) \<or> l = fst (c_outboundMsgs (client_at i st))"
  shows "msg_map f pubs l = msg_map f (\<lambda>a. publication_at a st) l"
proof (rule msg_map_cong, rule assms(3))
  fix a
  assume "a \<in> ms_publish ` snd ` set l"
  then have "a \<in># client_refs (client_at i st)"
    using assms(4) by (auto simp: client_refs_def msg_refs_def image_comp)
  then show "publication_at a st \<noteq> None"
    by (rule client_refs_old(1) [OF assms(1,2)])
qed

lemma create_refined:
  fixes retained :: int
  assumes inv: "proto_inv st" "i < length (clients st)" and p: "packet_ok (Publish_packet p)" "qos = 1 \<or> qos = 2"
    and new: "se_out (session i st) (pub_msgId p) = None"
  defines "c' \<equiv> (client_at i st)\<lparr>c_outboundMsgs := slist_append (p_next st + 1, created_message p qos retained (now (p_net st)) (p_next st)) (c_outboundMsgs (client_at i st))\<rparr>"
    and "pubs' \<equiv> slist_append (p_next st, stored_publication p) (p_publications st)"
  shows "refined i (fst (session_publish p qos retained (session i st)), []) st
    (set_client i c' (st\<lparr>p_publications := pubs', p_next := p_next st + 2\<rparr>))" (is "refined _ _ _ ?st'")
proof -
  let ?c = "client_at i st" and ?n = "p_next st"
  let ?l = "c_outboundMsgs ?c" and ?m = "created_message p qos retained (now (p_net st)) (p_next st)"
  note c = inv_client [OF inv]
  note add = publication_add [OF c(5) packet_bytes(3) [OF p(1)], folded pubs'_def]
  have unused: "pub_msgId p \<notin> (ms_msgid \<circ> snd) ` set (fst ?l)"
    using new by (simp add: session_def msg_map_None)
  have up: "client_update i c' st ?st'"
    using c by (simp add: client_update_def c'_def)
  have out: "msgs_ok (out_ok ?n) ?l" "\<forall>x \<in> set (fst ?l). out_ok ?n x"
    using c(1) by (simp_all add: client_ok_def msgs_ok_def list_all_iff)
  have pub: "publication_at a ?st' = map_of (fst pubs') a" for a
    by (simp add: publication_at_def)
  have old: "map_of (fst pubs') a = publication_at a st" if "publication_at a st \<noteq> None" for a
    using that add(3) c(5) by (auto simp: publication_at_def pubs_ok_def dest!: map_of_SomeD)
  show ?thesis
  proof (rule refined_update [OF inv up])
    have "msgs_ok (out_ok (?n + 2)) (c_outboundMsgs c')"
      using out p unused slist_wf_simps(2) [of ?l]
      by (force simp: msgs_ok_def c'_def slist_append_def list_all_iff created_message_def)
    then show "client_ok (p_next ?st') c'"
      using c(1) client_ok_mono [of ?n ?c "?n + 2"] by (simp add: client_ok_def c'_def)
    show "pubs_ok (p_next ?st') (p_publications ?st')"
      using add(1) by (auto simp: pubs_ok_def)
    show "mset (map fst (fst (p_publications ?st'))) + client_refs ?c = mset (map fst (fst (p_publications st))) + client_refs c'"
      using add(2) by (simp add: client_refs_def msg_refs_def c'_def slist_append_def created_message_def)
    show "publication_at a ?st' = publication_at a st" if "publication_at a st \<noteq> None" for a
      unfolding pub using old that .
    note same = msg_map_old [OF inv old]
    have "map_of (fst pubs') ?n = Some (stored_publication p)"
      by (simp add: add(3))
    moreover have "msg_map out_entry (map_of (fst pubs')) (fst ?l) = se_out (session i st)"
      using same [of "fst ?l" out_entry] by (simp add: session_def)
    moreover have "out_entry ?m (stored_publication p) = (if qos = 1 then Wait_puback else Wait_pubrec, sent_message p qos retained)"
      using p(2) by (auto simp: created_message_def out_entry_def msg_phase_def out_message_def sent_message_def stored_publication_def)
    ultimately have "msg_map out_entry (map_of (fst pubs')) (fst (c_outboundMsgs c')) =
        (se_out (session i st))(pub_msgId p \<mapsto> (if qos = 1 then Wait_puback else Wait_pubrec, sent_message p qos retained))"
      using msg_map_append [of ?m "fst ?l" out_entry "map_of (fst pubs')" "?n + 1"] unused
      by (simp add: c'_def slist_append_def created_message_def)
    then show "session i ?st' = fst (session_publish p qos retained (session i st))"
      using session_parts [OF client_update_at [OF up inv(2)] pub] same [of "fst (c_inboundMsgs ?c)" in_message]
      by (simp add: session_publish_def session_def c'_def)
  qed (use c in \<open>simp_all add: sends_none\<close>)
qed

lemma startPublish_refined:
  assumes inv: "proto_inv st" "i < length (clients st)" and p: "packet_ok (Publish_packet p)" "qos = 1 \<or> qos = 2"
    and new: "se_out (session i st) (pub_msgId p) = None"
  shows "\<exists>rc st'. MQTTProtocol_startPublish i p qos retained None st = Some (rc, st') \<and>
    refined i (session_publish p qos retained (session i st)) st st'"
proof -
  define c' where "c' = (client_at i st)\<lparr>c_outboundMsgs :=
    slist_append (p_next st + 1, created_message p qos retained (now (p_net st)) (p_next st)) (c_outboundMsgs (client_at i st))\<rparr>"
  define st1 where "st1 = set_client i c' (st\<lparr>p_publications := slist_append (p_next st, stored_publication p) (p_publications st), p_next := p_next st + 2\<rparr>)"
  have r1: "refined i (fst (session_publish p qos retained (session i st)), []) st st1"
    unfolding st1_def c'_def by (rule create_refined [OF assms])
  have st1: "proto_inv st1" "i < length (clients st1)" "client_at i st1 = c'" "p_net st1 = p_net st" "c_socket c' = c_socket (client_at i st)"
    using r1 inv(2) by (simp_all add: refined_def st1_def client_at_clients c'_def)
  have pub: "publication_at (p_next st) st1 = Some (stored_publication p)"
    using publication_add(3) [OF inv_client(5) [OF inv] packet_bytes(3) [OF p(1)]] by (simp add: st1_def publication_at_def)
  have qos: "0 \<le> qos" "qos \<le> 2"
    using p(2) by auto
  have "p\<lparr>pub_payload := map Some (pub_bytes p), pub_topic := pub_topic p\<rparr> = p"
    using p(1) by simp
  moreover obtain rc net' where net': "MQTTPacket_send_publish 0 p 0 qos retained (c_socket c') (p_net st1) = Some (rc, net')"
    "sends (c_socket c') [Publish_op p 0 qos retained] (p_net st1) net'"
    using send_one_sends [OF publish_op_ok [OF p(1) qos] inv_client(3,2) [OF st1(1,2)], of 0 retained] st1(3) by auto
  ultimately have "MQTTProtocol_startPublish i p qos retained None st = Some (rc, st1\<lparr>p_net := net'\<rparr>)"
    using p(2) pub storePublication_spec [OF p(1), of st] st1(3)
    by (auto simp: MQTTProtocol_startPublish_def MQTTProtocol_createMessage_def MQTTProtocol_startPublishCommon_def Let_def
        st1_def c'_def created_message_def stored_publication_def)
  moreover have "refined i (session_publish p qos retained (session i st)) st (st1\<lparr>p_net := net'\<rparr>)"
    using refined_trans [OF r1 refined_net [OF st1(1,2)] inv(2), of "[Publish_op p 0 qos retained]" net'] net'(2) st1(3) r1
    by (simp add: session_publish_def refined_def)
  ultimately show ?thesis
    by blast
qed

section \<open>Retries\<close>

text \<open>A packet that repeats what the session waits for.\<close>

definition resend :: "session \<Rightarrow> send_op \<Rightarrow> bool" where
  "resend se p \<longleftrightarrow> op_ok p \<and>
     ((\<exists>k m. se_out se k = Some (Wait_pubcomp, m) \<and> p = Pubrel_op k 0) \<or>
      (\<exists>pack qos r ph. se_out se (pub_msgId pack) = Some (ph, sent_message pack qos r) \<and> ph \<noteq> Wait_pubcomp \<and> p = Publish_op pack 1 qos r))"

lemma resend_publish:
  "op_ok (Publish_op pack 1 qos r) \<Longrightarrow> se_out se (pub_msgId pack) = Some (ph, sent_message pack qos r) \<Longrightarrow> ph \<noteq> Wait_pubcomp \<Longrightarrow>
    resend se (Publish_op pack 1 qos r)"
  unfolding resend_def by blast

text \<open>Only flags of the client and times differ.\<close>

lemma refined_client:
  assumes "proto_inv st" "i < length (clients st)" "c_socket c' = c_socket (client_at i st)" "c_inboundMsgs c' = c_inboundMsgs (client_at i st)"
    "c_messageQueue c' = c_messageQueue (client_at i st)" "msgs_ok (out_ok (p_next st)) (c_outboundMsgs c')"
    "map (\<lambda>x. (ms_msgid (snd x), msg_phase (snd x), ms_publish (snd x), ms_qos (snd x), ms_retain (snd x))) (fst (c_outboundMsgs c')) =
     map (\<lambda>x. (ms_msgid (snd x), msg_phase (snd x), ms_publish (snd x), ms_qos (snd x), ms_retain (snd x))) (fst (c_outboundMsgs (client_at i st)))"
    "st' = set_client i c' st \<or> (\<exists>cl. st' = (set_client i c' st)\<lparr>p_closing := cl\<rparr>)"
  shows "refined i (session i st, []) st st'"
proof (rule refined_keep [OF assms(1,2)])
  let ?c = "client_at i st"
  note c = inv_client [OF assms(1,2)]
  have st': "clients st' = (clients st)[i := c']" "slist_wf (p_clients st')" "p_net st' = p_net st" "p_publications st' = p_publications st"
    "p_next st' = p_next st" "p_pending_writes st' = p_pending_writes st" "\<And>s. accepted_on s st' = accepted_on s st" "\<And>a. publication_at a st' = publication_at a st"
    using assms(8) c(4) by auto
  show up: "client_update i c' st st'"
    using c assms(3) st' by (simp add: client_update_def)
  show "client_ok (p_next st') c'"
    using c(1) assms(4,6) st' by (simp add: client_ok_def)
  let ?key = "\<lambda>x. (ms_msgid (snd x), msg_phase (snd x), ms_publish (snd x), ms_qos (snd x), ms_retain (snd x))"
  have "map (ms_publish \<circ> snd) (fst (c_outboundMsgs c')) = map (ms_publish \<circ> snd) (fst (c_outboundMsgs ?c))"
    using arg_cong [OF assms(7), of "map (\<lambda>(k, ph, p, _). p)"] by (simp add: comp_def)
  then show "client_refs c' = client_refs ?c"
    using assms(4) by (simp add: client_refs_def msg_refs_def)
  let ?f = "\<lambda>(k, ph, p, q, r). (k, ph, let pb = the (publication_at p st) in \<lparr>mm_topic = c_bytes (pb_topic pb), mm_topiclen = 0, mm_payload = pb_payload pb,
    mm_qos = q, mm_retained = r mod 2, mm_dup = 0, mm_msgid = k\<rparr>)"
  have "msg_map out_entry (\<lambda>a. publication_at a st) l = map_of (map ?f (map ?key l))" for l
    by (simp add: msg_map_def out_entry_def out_message_def comp_def Let_def)
  then have "msg_map out_entry (\<lambda>a. publication_at a st) (fst (c_outboundMsgs c')) = msg_map out_entry (\<lambda>a. publication_at a st) (fst (c_outboundMsgs ?c))"
    by (simp only: assms(7))
  then show "session i st' = session i st"
    using session_parts [OF client_update_at [OF up assms(2)] st'(8)] st'(7) assms(3-5) by (simp add: session_def)
qed (use inv_client [OF assms(1,2)] assms(8) in \<open>auto simp: sends_none\<close>)

lemma retry_failed_refined:
  assumes "proto_inv st" "i < length (clients st)"
  shows "refined i (session i st, []) st (snd (retry_failed i st))"
proof (rule refined_client [OF assms, of "(client_at i st)\<lparr>c_good := False\<rparr>"])
  show "msgs_ok (out_ok (p_next st)) (c_outboundMsgs ((client_at i st)\<lparr>c_good := False\<rparr>))"
    using inv_client(1) [OF assms] by (simp add: client_ok_def)
qed (auto simp: retry_failed_def MQTTProtocol_closeSession_def)

lemma map_update_same: "j < length l \<Longrightarrow> f x = f (l ! j) \<Longrightarrow> map f (l[j := x]) = map f l"
  by (simp add: map_update list_update_same_conv)

lemma touch_refined:
  assumes "proto_inv st" "i < length (clients st)" "j < length (fst (c_outboundMsgs (client_at i st)))"
  shows "refined i (session i st, []) st (touch_message i j st)"
    "length (fst (c_outboundMsgs (client_at i (touch_message i j st)))) = length (fst (c_outboundMsgs (client_at i st)))"
proof -
  let ?l = "c_outboundMsgs (client_at i st)"
  obtain ptr m where m: "fst ?l ! j = (ptr, m)"
    by (cases "fst ?l ! j")
  define m' where "m' = m\<lparr>ms_lastTouch := Some (now (p_net st))\<rparr>"
  define c' where "c' = (client_at i st)\<lparr>c_outboundMsgs := ((fst ?l)[j := (ptr, m')], snd ?l)\<rparr>"
  have t: "touch_message i j st = set_client i c' st"
    using m by (simp add: touch_message_def c'_def m'_def Let_def)
  have l: "msgs_ok (out_ok (p_next st)) ?l"
    using inv_client(1) [OF assms(1,2)] by (simp add: client_ok_def)
  then have "\<forall>x \<in> set (fst ?l). out_ok (p_next st) x"
    by (simp add: msgs_ok_def list_all_iff)
  moreover from this have "out_ok (p_next st) (ptr, m)"
    using nth_mem [OF assms(3)] m by metis
  ultimately have "out_ok (p_next st) (ptr, m)" "\<forall>x \<in> set (fst ?l). out_ok (p_next st) x"
    by blast+
  then have ok: "\<forall>x \<in> set ((fst ?l)[j := (ptr, m')]). out_ok (p_next st) x"
    using set_update_subset_insert [of "fst ?l" j "(ptr, m')"] by (auto simp: m'_def)
  show "refined i (session i st, []) st (touch_message i j st)"
    unfolding t
  proof (rule refined_client [OF assms(1,2)])
    show "msgs_ok (out_ok (p_next st)) (c_outboundMsgs c')"
      using l ok map_update_same [OF assms(3), of fst "(ptr, m')"] map_update_same [OF assms(3), of "ms_msgid \<circ> snd" "(ptr, m')"] m
      by (simp add: msgs_ok_def c'_def slist_wf_def list_all_iff m'_def)
  qed (use assms(3) m in \<open>simp_all add: c'_def map_update_same m'_def msg_phase_def\<close>)
  show "length (fst (c_outboundMsgs (client_at i (touch_message i j st)))) = length (fst ?l)"
    using assms(2) by (simp add: t client_at_clients) (simp add: c'_def client_at_clients)
qed

lemma outbound_publication:
  assumes "proto_inv st" "i < length (clients st)" "(ptr, m) \<in> set (fst (c_outboundMsgs (client_at i st)))"
  obtains p where "publication_at (ms_publish m) st = Some p" "pub_ok p"
proof -
  have "ms_publish m \<in># client_refs (client_at i st)"
    using assms(3) by (force simp: client_refs_def msg_refs_def)
  then obtain p where p: "publication_at (ms_publish m) st = Some p"
    using client_refs_old(1) [OF assms(1,2)] by blast
  then have "pub_ok p"
    using inv_client(5) [OF assms(1,2)] by (auto simp: pubs_ok_def publication_at_def dest!: map_of_SomeD)
  with p that show thesis
    by blast
qed

text \<open>
  A retry leaves the session alone and sends at most packets that the session waits for an answer to.
\<close>

definition retried :: "nat \<Rightarrow> proto \<Rightarrow> proto \<Rightarrow> bool" where
  "retried i st st' \<longleftrightarrow> (\<exists>ops. refined i (session i st, ops) st st' \<and> list_all (resend (session i st)) ops)"

lemma retried_same: "proto_inv st \<Longrightarrow> retried i st st"
  unfolding retried_def by (intro exI [of _ "[]"]) (simp add: refined_same)

lemma retriedD: "retried i st st' \<Longrightarrow> proto_inv st' \<and> session i st' = session i st \<and> length (clients st') = length (clients st)"
  by (auto simp: retried_def refined_def dest: map_eq_imp_length_eq)

lemma retried_trans:
  assumes "retried i st st1" "retried i st1 st2" "i < length (clients st)"
  shows "retried i st st2"
proof -
  obtain ops1 ops2 where "refined i (session i st, ops1) st st1" "refined i (session i st1, ops2) st1 st2"
    "list_all (resend (session i st)) ops1" "list_all (resend (session i st1)) ops2"
    using assms(1,2) by (auto simp: retried_def)
  moreover have "session i st1 = session i st"
    using retriedD [OF assms(1)] by simp
  ultimately show ?thesis
    using refined_trans [of i "session i st" ops1 st st1 "session i st" ops2 st2] assms(3) by (auto simp: retried_def)
qed

lemma refined_retried: "refined i (session i st, []) st st' \<Longrightarrow> retried i st st'"
  unfolding retried_def by (intro exI [of _ "[]"]) simp

lemma send_retried:
  assumes "proto_inv st" "i < length (clients st)" "resend (session i st) p"
  shows "\<exists>rc net'. send_one p (c_socket (client_at i st)) (p_net st) = Some (rc, net') \<and> retried i st (st\<lparr>p_net := net'\<rparr>)"
proof -
  have "op_ok p"
    using assms(3) by (simp add: resend_def)
  from send_one_sends [OF this inv_client(3,2) [OF assms(1,2)]] obtain rc net' where
    "send_one p (c_socket (client_at i st)) (p_net st) = Some (rc, net')" "sends (c_socket (client_at i st)) [p] (p_net st) net'"
    by blast
  then show ?thesis
    using refined_net [OF assms(1,2), of "[p]" net'] assms(3) by (auto simp: retried_def)
qed

lemma noPendingWrites_sends:
  assumes "w_inv net"
  shows "sends s [] net (snd (Socket_noPendingWrites s' net))"
proof -
  have "persistence (snd (Socket_noPendingWrites s' net)) = persistence net"
    by (simp add: Socket_noPendingWrites_def split: prod.splits)
  then show ?thesis
    using noPendingWrites_spec [OF assms, of s'] by (auto simp: sends_def queued_def pending_def no_write_error_def writable_def)
qed

lemma no_pending_retried:
  assumes "proto_inv st" "i < length (clients st)" "no_pending_writes s st = (free, st1)"
  shows "retried i st st1" "client_at i st1 = client_at i st"
proof -
  have st1: "st1 = st\<lparr>p_net := snd (Socket_noPendingWrites s (p_net st))\<rparr>"
    using assms(3) by (auto simp: no_pending_writes_def split: prod.splits)
  show "retried i st st1"
    unfolding st1 by (intro refined_retried refined_net [OF assms(1,2)] noPendingWrites_sends inv_client(3) [OF assms(1,2)])
  show "client_at i st1 = client_at i st"
    by (simp add: st1)
qed

text \<open>The message at \<open>j\<close> is sent again, as its phase demands.\<close>

definition retry_op :: "Messages \<Rightarrow> Publications \<Rightarrow> send_op" where
  "retry_op m p =
     (if msg_phase m = Wait_pubcomp then Pubrel_op (ms_msgid m) 0
      else Publish_op \<lparr>pub_header = 0, pub_topic = pb_topic p, pub_topiclen = 0, pub_msgId = ms_msgid m, pub_payload = map Some (pb_payload p),
        pub_payloadlen = pb_payloadlen p\<rparr> 1 (ms_qos m) (ms_retain m))"

lemma retry_op_resend:
  assumes "proto_inv st" "i < length (clients st)" "j < length (fst (c_outboundMsgs (client_at i st)))"
    "fst (c_outboundMsgs (client_at i st)) ! j = (ptr, m)" "publication_at (ms_publish m) st = Some p" "pub_ok p"
  shows "resend (session i st) (retry_op m p)"
proof -
  let ?pack = "\<lparr>pub_header = 0, pub_topic = pb_topic p, pub_topiclen = 0, pub_msgId = ms_msgid m, pub_payload = map Some (pb_payload p),
    pub_payloadlen = pb_payloadlen p\<rparr>"
  have out: "out_ok (p_next st) (ptr, m)"
    using inv_client(1) [OF assms(1,2)] nth_mem [OF assms(3)] assms(4) by (fastforce simp: client_ok_def msgs_ok_def list_all_iff)
  note se = session_out [OF assms(1-4)]
  have bytes: "pub_bytes ?pack = pb_payload p"
    using assms(6) bytes_of_list [of "pb_payload p"] by (simp add: pub_bytes_def pub_ok_def)
  then have "packet_ok (Publish_packet ?pack)"
    using out assms(6) by (simp add: pub_ok_def)
  moreover have "sent_message ?pack (ms_qos m) (ms_retain m) = out_message m p"
    using bytes by (simp add: sent_message_def out_message_def)
  moreover have "0 \<le> ms_qos m" "ms_qos m \<le> 2"
    using out by auto
  ultimately have pack: "op_ok (Publish_op ?pack 1 (ms_qos m) (ms_retain m))"
    "se_out (session i st) (pub_msgId ?pack) = Some (msg_phase m, sent_message ?pack (ms_qos m) (ms_retain m))"
    using se assms(5) publish_op_ok [of ?pack "ms_qos m" 1 "ms_retain m"] by (simp_all del: packet_ok.simps op_ok.simps(1))
  show ?thesis
  proof (cases "msg_phase m = Wait_pubcomp")
    case True
    then show ?thesis
      using se out by (simp add: resend_def retry_op_def)
  next
    case False
    then have "retry_op m p = Publish_op ?pack 1 (ms_qos m) (ms_retain m)"
      by (simp add: retry_op_def)
    then show ?thesis
      using resend_publish [OF pack False] by simp
  qed
qed

lemma retry_message_retried:
  assumes "proto_inv st" "i < length (clients st)" "j < length (fst (c_outboundMsgs (client_at i st)))"
  shows "\<exists>go st'. retry_message i j st = Some (go, st') \<and> retried i st st' \<and>
    length (fst (c_outboundMsgs (client_at i st'))) = length (fst (c_outboundMsgs (client_at i st)))"
proof -
  let ?l = "c_outboundMsgs (client_at i st)"
  obtain ptr m where m: "fst ?l ! j = (ptr, m)"
    by (cases "fst ?l ! j")
  have out: "out_ok (p_next st) (ptr, m)"
    using inv_client(1) [OF assms(1,2)] nth_mem [OF assms(3)] m by (fastforce simp: client_ok_def msgs_ok_def list_all_iff)
  obtain p where p: "publication_at (ms_publish m) st = Some p" "pub_ok p"
    using outbound_publication [OF assms(1,2), of ptr m] nth_mem [OF assms(3)] m by auto
  obtain rc net' where net': "send_one (retry_op m p) (c_socket (client_at i st)) (p_net st) = Some (rc, net')" "retried i st (st\<lparr>p_net := net'\<rparr>)"
    using send_retried [OF assms(1,2) retry_op_resend [OF assms m p]] by blast
  let ?st1 = "st\<lparr>p_net := net'\<rparr>"
  have st1: "proto_inv ?st1" "i < length (clients ?st1)" "j < length (fst (c_outboundMsgs (client_at i ?st1)))"
    using retriedD [OF net'(2)] assms(2,3) by simp_all
  have failed: "retried i st (snd (retry_failed i ?st1))" "length (fst (c_outboundMsgs (client_at i (snd (retry_failed i ?st1))))) = length (fst ?l)"
    using retried_trans [OF net'(2) refined_retried [OF retry_failed_refined [OF st1(1,2)]] assms(2)] assms(2)
    by (simp_all add: retry_failed_def MQTTProtocol_closeSession_def client_at_clients)
  have touched: "retried i st (touch_message i j ?st1)" "length (fst (c_outboundMsgs (client_at i (touch_message i j ?st1)))) = length (fst ?l)"
    using retried_trans [OF net'(2) refined_retried [OF touch_refined(1) [OF st1]] assms(2)] touch_refined(2) [OF st1] by simp_all
  have "\<exists>b. retry_message i j st = Some (if b then retry_failed i ?st1 else (True, touch_message i j ?st1))"
  proof (cases "msg_phase m = Wait_pubcomp")
    case True
    then have "ms_qos m = 2" "ms_nextMessageType m = Some PUBCOMP"
      using out out_phase [OF out] by (auto simp: msg_phase_def split: if_splits)
    then show ?thesis
      using net'(1) m True by (intro exI [of _ "rc \<noteq> TCPSOCKET_COMPLETE"]) (simp add: retry_message_def retry_op_def ack_types_differ)
  next
    case False
    then have "ms_qos m = 1 \<or> ms_qos m = 2 \<and> ms_nextMessageType m = Some PUBREC"
      using out out_phase [OF out] by auto
    then show ?thesis
      using net'(1) m False p(1) by (intro exI [of _ "rc = SOCKET_ERROR"]) (elim disjE, simp_all add: retry_message_def retry_op_def)
  qed
  then show ?thesis
    using failed touched by (auto simp: retry_failed_def split: if_splits)
qed

lemma retries_loop_retried:
  assumes "proto_inv st" "i < length (clients st)" "\<forall>j \<in> set js. j < length (fst (c_outboundMsgs (client_at i st)))"
  shows "\<exists>st'. MQTTProtocol_retries_loop js tm i regardless st = Some st' \<and> retried i st st'"
  using assms
proof (induction js arbitrary: st)
  case Nil
  then show ?case
    by (simp add: retried_same)
next
  case (Cons j js)
  let ?c = "client_at i st"
  obtain free st1 where free: "no_pending_writes (c_socket ?c) st = (free, st1)"
    by (cases "no_pending_writes (c_socket ?c) st")
  note r1 = no_pending_retried [OF Cons.prems(1,2) free]
  have st1: "proto_inv st1" "i < length (clients st1)"
    using retriedD [OF r1(1)] Cons.prems(2) by simp_all
  show ?case
  proof (cases "c_connected ?c \<and> c_good ?c \<and> free")
    case False
    then show ?thesis
      using free r1(1) Cons.prems(1) by (auto simp: retried_same Let_def)
  next
    case True
    have "out_ok (p_next st) (fst (c_outboundMsgs ?c) ! j)"
      using Cons.prems(3) inv_client(1) [OF Cons.prems(1,2)] by (simp add: client_ok_def msgs_ok_def list_all_length)
    then have "ms_lastTouch (snd (fst (c_outboundMsgs ?c) ! j)) \<noteq> None"
      by (metis out_ok.simps prod.collapse)
    then obtain due where due: "(if regardless then Some True else do {
        touched \<leftarrow> ms_lastTouch (snd (fst (c_outboundMsgs ?c) ! j)); Some (tm - touched > max (c_retryInterval ?c) 10) }) = Some due"
      by (cases regardless) auto
    obtain go st2 where st2: "(if due then retry_message i j st1 else Some (True, st1)) = Some (go, st2)" "retried i st1 st2"
      "length (fst (c_outboundMsgs (client_at i st2))) = length (fst (c_outboundMsgs (client_at i st1)))"
      using retry_message_retried [OF st1, of j] Cons.prems(3) r1(2) retried_same [OF st1(1), of i] by (cases due) auto
    have r2: "retried i st st2"
      using retried_trans [OF r1(1) st2(2) Cons.prems(2)] .
    obtain st' where "MQTTProtocol_retries_loop js tm i regardless st2 = Some st'" "retried i st2 st'"
      using Cons.IH [of st2] retriedD [OF r2] Cons.prems(2,3) st2(3) r1(2) by auto
    then show ?thesis
      using True free due st2(1) r2 retried_trans [OF r2 _ Cons.prems(2), of st'] by (auto simp: Let_def)
  qed
qed

lemma retries_retried:
  assumes "proto_inv st" "i < length (clients st)"
  shows "\<exists>st'. MQTTProtocol_retries tm i regardless st = Some st' \<and> retried i st st'"
  using retries_loop_retried [OF assms, of "[0..<length (fst (c_outboundMsgs (client_at i st)))]"] retried_same [OF assms(1)]
  by (auto simp: MQTTProtocol_retries_def)

section \<open>Queued messages\<close>

lemma deliver_queued_refined:
  assumes "proto_inv st" "i < length (clients st)" "c_ma (client_at i st)"
  shows "refined i (session i st, []) st (deliver_queued i st)"
proof (cases "c_messageQueue (client_at i st)")
  case Nil
  then show ?thesis
    using refined_same [OF assms(1), of i] by (simp add: deliver_queued_def Let_def)
next
  case (Cons mm rest)
  let ?c = "client_at i st"
  define mm' where "mm' = (if int (length (c_bytes (mm_topic mm))) = mm_topiclen mm then mm\<lparr>mm_topiclen := 0\<rparr> else mm)"
  have plain: "plain mm' = plain mm"
    by (simp add: mm'_def plain_def)
  define ok where "ok = (p_answers st = [] \<or> hd (p_answers st))"
  define st1 where "st1 = st\<lparr>p_answers := tl (p_answers st), p_accepted := (if ok then p_accepted st @ [(c_socket ?c, mm')] else p_accepted st)\<rparr>"
  define c' where "c' = ?c\<lparr>c_messageQueue := (if ok then rest else c_messageQueue ?c)\<rparr>"
  have d: "MQTTAsync_deliverMessage (c_socket ?c) mm' st = (ok, st1)"
    by (cases "p_answers st") (auto simp: MQTTAsync_deliverMessage_def ok_def st1_def)
  have same: "set_client i (?c\<lparr>c_messageQueue := c_messageQueue ?c\<rparr>) st1 = st1"
    using assms(2) by (simp add: st1_def set_client_def client_at_def clients_def)
  have run: "deliver_queued i st = set_client i c' st1"
    using Cons d assms(3) same by (simp add: deliver_queued_def Let_def mm'_def [symmetric] c'_def)
  show ?thesis
    unfolding run
  proof (rule refined_keep [OF assms(1,2)])
    show up: "client_update i c' st (set_client i c' st1)"
      using inv_client [OF assms(1,2)] by (simp add: client_update_def c'_def st1_def)
    have "map plain (accepted_on (c_socket ?c) st1 @ c_messageQueue c') = map plain (accepted_on (c_socket ?c) st @ c_messageQueue ?c)"
      using plain Cons by (simp add: accepted_on_def st1_def c'_def)
    then show "session i (set_client i c' st1) = session i st"
      using session_parts [OF client_update_at [OF up assms(2)], of "\<lambda>a. publication_at a st"] by (simp add: session_def c'_def st1_def)
    show "accepted_on s (set_client i c' st1) = accepted_on s st" if "s \<noteq> c_socket ?c" for s
      using that by (simp add: accepted_on_def st1_def)
  qed (use inv_client [OF assms(1,2)] in \<open>simp_all add: c'_def st1_def client_refs_def client_ok_def sends_none\<close>)
qed

end
