(* ===== verification/Mqtt_Qos.thy ===== *)
theory Mqtt_Qos
  imports Mqtt_Publish
begin

text \<open>
  Two clients of the library talk to each other over a connection that may lose packets, and may be made
  again: messages of QoS 2 are delivered exactly once.
\<close>

section \<open>What is transmitted\<close>

text \<open>The packets that a step queues on a socket, as the other end will read them.\<close>

definition transmitted :: "int \<Rightarrow> net \<Rightarrow> net \<Rightarrow> packet list" where
  "transmitted s net net' = List.map_filter fst (received (drop (length (queued s net)) (queued s net')))"

lemma transmitted_sends:
  assumes "sends s ops net net'" "list_all op_ok ops"
  obtains acc where "subseq acc ops" "transmitted s net net' = List.map_filter (fst \<circ> op_received) acc"
proof -
  obtain acc where acc: "subseq acc ops" "queued s net' = queued s net @ concat (map op_wire acc)"
    using assms(1) by (auto simp: sends_def)
  then have "list_all op_ok acc"
    using assms(2) by (auto simp: list_all_iff elim: list_emb_set)
  then have "transmitted s net net' = List.map_filter (fst \<circ> op_received) acc"
    using received_wires [of acc] acc(2) by (simp add: transmitted_def List.map_filter_def filter_map comp_def)
  with acc(1) that show thesis
    by blast
qed

section \<open>The connection\<close>

text \<open>
  Two libraries, the packets on their way from \<open>l_a\<close> to \<open>l_b\<close> and back, and the messages of QoS 2 that \<open>l_a\<close> has published.
\<close>

record link =
  l_a :: proto
  l_b :: proto
  l_ab :: "packet list"
  l_ba :: "packet list"
  l_log :: "MQTTAsync_message list"

definition socket_at :: "nat \<Rightarrow> proto \<Rightarrow> int" where
  "socket_at i st = c_socket (client_at i st)"

definition put_a :: "nat \<Rightarrow> proto \<Rightarrow> link \<Rightarrow> link" where
  "put_a i a' l = l\<lparr>l_a := a', l_ab := l_ab l @ transmitted (socket_at i (l_a l)) (p_net (l_a l)) (p_net a')\<rparr>"

definition put_b :: "nat \<Rightarrow> proto \<Rightarrow> link \<Rightarrow> link" where
  "put_b i b' l = l\<lparr>l_b := b', l_ba := l_ba l @ transmitted (socket_at i (l_b l)) (p_net (l_b l)) (p_net b')\<rparr>"

text \<open>A message can be published under an identifier that is not in use.\<close>

definition can_publish :: "nat \<Rightarrow> Publish \<Rightarrow> int \<Rightarrow> proto \<Rightarrow> bool" where
  "can_publish i p qos st \<longleftrightarrow> packet_ok (Publish_packet p) \<and> (qos = 1 \<or> qos = 2) \<and> pub_msgId p \<notin> used_ids (c_outboundMsgs (client_at i st))"

text \<open>
  The steps: either side publishes, handles the next packet, sends again what is not answered, offers a queued message
  to its application, or goes on with writes that were not finished; and packets get lost.
\<close>

inductive link_step :: "nat \<Rightarrow> nat \<Rightarrow> link \<Rightarrow> link \<Rightarrow> bool" for ia ib where
  publish_a: "can_publish ia p qos (l_a l) \<Longrightarrow> MQTTProtocol_startPublish ia p qos r None (l_a l) = Some (rc, a') \<Longrightarrow>
    link_step ia ib l ((put_a ia a' l)\<lparr>l_log := l_log l @ (if qos = 2 then [sent_message p qos r] else [])\<rparr>)"
| publish_b: "can_publish ib p qos (l_b l) \<Longrightarrow> MQTTProtocol_startPublish ib p qos r None (l_b l) = Some (rc, b') \<Longrightarrow>
    link_step ia ib l (put_b ib b' l)"
| handle_a: "l_ba l = pack # rest \<Longrightarrow> handle_packet pack (socket_at ia (l_a l)) (l_a l) = Some (rc, a') \<Longrightarrow>
    link_step ia ib l (put_a ia a' (l\<lparr>l_ba := rest\<rparr>))"
| handle_b: "l_ab l = pack # rest \<Longrightarrow> handle_packet pack (socket_at ib (l_b l)) (l_b l) = Some (rc, b') \<Longrightarrow>
    link_step ia ib l (put_b ib b' (l\<lparr>l_ab := rest\<rparr>))"
| retry_a: "MQTTProtocol_retries tm ia regardless (l_a l) = Some a' \<Longrightarrow> link_step ia ib l (put_a ia a' l)"
| retry_b: "MQTTProtocol_retries tm ib regardless (l_b l) = Some b' \<Longrightarrow> link_step ia ib l (put_b ib b' l)"
| deliver_a: "c_ma (client_at ia (l_a l)) \<Longrightarrow> link_step ia ib l (l\<lparr>l_a := deliver_queued ia (l_a l)\<rparr>)"
| deliver_b: "c_ma (client_at ib (l_b l)) \<Longrightarrow> link_step ia ib l (l\<lparr>l_b := deliver_queued ib (l_b l)\<rparr>)"
| flush_a: "no_write_error (p_net (l_a l)) \<Longrightarrow> Socket_continueWrites pwset cb (p_net (l_a l)) = Some net' \<Longrightarrow>
    link_step ia ib l (l\<lparr>l_a := (l_a l)\<lparr>p_net := net'\<rparr>\<rparr>)"
| flush_b: "no_write_error (p_net (l_b l)) \<Longrightarrow> Socket_continueWrites pwset cb (p_net (l_b l)) = Some net' \<Longrightarrow>
    link_step ia ib l (l\<lparr>l_b := (l_b l)\<lparr>p_net := net'\<rparr>\<rparr>)"
| lose_ab: "l_ab l = xs @ pack # ys \<Longrightarrow> link_step ia ib l (l\<lparr>l_ab := xs @ ys\<rparr>)"
| lose_ba: "l_ba l = xs @ pack # ys \<Longrightarrow> link_step ia ib l (l\<lparr>l_ba := xs @ ys\<rparr>)"

section \<open>The flow of one identifier\<close>

text \<open>The packets that carry messages of QoS 2 with identifier \<open>k\<close> forwards, and their answers.\<close>

datatype fwd = Fpub MQTTAsync_message | Frel int
datatype bwd = Brec | Bcomp

fun fwd_of :: "int \<Rightarrow> packet \<Rightarrow> fwd option" where
  "fwd_of k (Publish_packet p) = (if h_qos (pub_header p) = 2 \<and> pub_msgId p = k then Some (Fpub (publish_message p)) else None)"
| "fwd_of k (Ack h j) = (if h_type h = PUBREL \<and> j = k then Some (Frel (h_dup h)) else None)"
| "fwd_of k _ = None"

fun back_of :: "int \<Rightarrow> packet \<Rightarrow> bwd option" where
  "back_of k (Ack h j) = (if j = k then if h_type h = PUBREC then Some Brec else if h_type h = PUBCOMP then Some Bcomp else None else None)"
| "back_of k _ = None"

definition fwds :: "int \<Rightarrow> packet list \<Rightarrow> fwd list" where
  "fwds k ps = List.map_filter (fwd_of k) ps"

definition backs :: "int \<Rightarrow> packet list \<Rightarrow> bwd list" where
  "backs k ps = List.map_filter (back_of k) ps"

definition of_id :: "int \<Rightarrow> MQTTAsync_message list \<Rightarrow> MQTTAsync_message list" where
  "of_id k ms = filter (\<lambda>m. mm_qos m = 2 \<and> mm_msgid m = k) ms"

text \<open>Elements of \<open>X\<close>, followed by elements of \<open>Y\<close>.\<close>

fun two_parts :: "'z set \<Rightarrow> 'z set \<Rightarrow> 'z list \<Rightarrow> bool" where
  "two_parts X Y [] \<longleftrightarrow> True"
| "two_parts X Y (z # zs) \<longleftrightarrow> z \<in> X \<and> two_parts X Y zs \<or> z \<in> Y \<and> set zs \<subseteq> Y"

fun rec_comp :: "bwd list \<Rightarrow> bool" where
  "rec_comp [] \<longleftrightarrow> True"
| "rec_comp (Brec # bk) \<longleftrightarrow> rec_comp bk"
| "rec_comp (Bcomp # bk) \<longleftrightarrow> bk = []"

text \<open>
  The states of a flow. Identifiers are used again, so PUBREL packets of an old message can be in front of the PUBLISH
  packets of the next.
\<close>

definition flow_inv :: "(phase \<times> MQTTAsync_message) option \<Rightarrow> MQTTAsync_message option \<Rightarrow> fwd list \<Rightarrow> bwd list \<Rightarrow>
    MQTTAsync_message list \<Rightarrow> MQTTAsync_message list \<Rightarrow> bool" where
  "flow_inv out inn fw bk log got \<longleftrightarrow>
     (case out of
        Some (Wait_pubrec, m) \<Rightarrow> log = got @ [m] \<and>
          (inn = None \<and> bk = [] \<and> two_parts {Frel 0} {Fpub m} fw \<or> inn = Some m \<and> set fw \<subseteq> {Fpub m} \<and> set bk \<subseteq> {Brec})
      | Some (Wait_pubcomp, m) \<Rightarrow>
          log = got @ [m] \<and> inn = Some m \<and> two_parts {Fpub m} {Frel 0} fw \<and> set bk \<subseteq> {Brec} \<or>
          log = got \<and> inn = None \<and> set fw \<subseteq> {Frel 0} \<and> rec_comp bk
      | _ \<Rightarrow> log = got \<and> inn = None \<and> set fw \<subseteq> {Frel 0} \<and> bk = [])"

lemma subseq_set: "subseq zs' zs \<Longrightarrow> set zs' \<subseteq> set zs"
  by (auto elim: list_emb_set)

lemma two_parts_right: "set zs \<subseteq> Y \<Longrightarrow> two_parts X Y zs"
  by (cases zs) auto

lemma two_parts_left: "set zs \<subseteq> X \<Longrightarrow> two_parts X Y zs"
  by (induction zs) auto

lemma two_parts_append: "two_parts X Y zs \<Longrightarrow> set ws \<subseteq> Y \<Longrightarrow> two_parts X Y (zs @ ws)"
  by (induction zs) (auto simp: two_parts_right)

lemma two_parts_subseq:
  assumes "subseq zs' zs" "two_parts X Y zs"
  shows "two_parts X Y zs'"
  using assms
proof (induction rule: list_emb.induct)
  case (list_emb_Cons xs ys y)
  then show ?case
    using subseq_set [of xs ys] by (auto intro: two_parts_right)
next
  case (list_emb_Cons2 x y xs ys)
  then show ?case
    using subseq_set [of xs ys] by auto
qed simp

lemma rec_comp_only: "set bk \<subseteq> {Brec} \<Longrightarrow> rec_comp bk"
  by (induction bk) auto

lemma rec_comp_append: "set bk \<subseteq> {Brec} \<Longrightarrow> rec_comp (bk @ [Bcomp])"
  by (induction bk) auto

lemma rec_comp_subseq:
  assumes "subseq bk' bk" "rec_comp bk"
  shows "rec_comp bk'"
  using assms
proof (induction rule: list_emb.induct)
  case (list_emb_Cons xs ys y)
  then show ?case
    by (cases y) auto
next
  case (list_emb_Cons2 x y xs ys)
  then show ?case
    by (cases y) auto
qed simp

lemma flow_subseq:
  assumes "flow_inv out inn fw bk log got" "subseq fw' fw" "subseq bk' bk"
  shows "flow_inv out inn fw' bk' log got"
  using assms subseq_set [OF assms(2)] subseq_set [OF assms(3)] two_parts_subseq [OF assms(2)] rec_comp_subseq [OF assms(3)]
  unfolding flow_inv_def by (auto split: option.splits phase.splits)

subsection \<open>The steps of a flow\<close>

definition idle :: "(phase \<times> MQTTAsync_message) option \<Rightarrow> bool" where
  "idle out \<longleftrightarrow> (\<forall>ph m. out = Some (ph, m) \<longrightarrow> ph = Wait_puback)"

lemma flow_idle: "idle out \<Longrightarrow> flow_inv out inn fw bk log got \<longleftrightarrow> log = got \<and> inn = None \<and> set fw \<subseteq> {Frel 0} \<and> bk = []"
  by (auto simp: flow_inv_def idle_def split: option.splits phase.splits)

lemma flow_waiting:
  "flow_inv (Some (Wait_pubrec, m)) inn fw bk log got \<longleftrightarrow> log = got @ [m] \<and>
     (inn = None \<and> bk = [] \<and> two_parts {Frel 0} {Fpub m} fw \<or> inn = Some m \<and> set fw \<subseteq> {Fpub m} \<and> set bk \<subseteq> {Brec})"
  "flow_inv (Some (Wait_pubcomp, m)) inn fw bk log got \<longleftrightarrow>
     log = got @ [m] \<and> inn = Some m \<and> two_parts {Fpub m} {Frel 0} fw \<and> set bk \<subseteq> {Brec} \<or>
     log = got \<and> inn = None \<and> set fw \<subseteq> {Frel 0} \<and> rec_comp bk"
  by (simp_all add: flow_inv_def)

lemma out_cases:
  obtains "idle out" | m where "out = Some (Wait_pubrec, m)" | m where "out = Some (Wait_pubcomp, m)"
proof -
  consider "idle out" | ph m where "out = Some (ph, m)" "ph \<noteq> Wait_puback"
    by (auto simp: idle_def)
  then show thesis
  proof cases
    case (2 ph m)
    then show ?thesis
      using that(2,3) by (cases ph) auto
  qed (rule that(1))
qed

lemma flow_publish:
  "idle out \<Longrightarrow> flow_inv out inn fw bk log got \<Longrightarrow> flow_inv (Some (Wait_pubrec, m)) inn (fw @ [Fpub m]) bk (log @ [m]) got"
  using two_parts_append [OF two_parts_left, of fw "{Frel 0}" "[Fpub m]" "{Fpub m}"] by (simp add: flow_idle) (simp add: flow_inv_def)

lemma flow_resend:
  assumes "flow_inv out inn fw bk log got"
    "\<forall>z \<in> set zs. \<exists>m. out = Some (Wait_pubrec, m) \<and> z = Fpub m \<or> out = Some (Wait_pubcomp, m) \<and> z = Frel 0"
  shows "flow_inv out inn (fw @ zs) bk log got"
proof (cases "zs = []")
  case False
  then obtain m where "out = Some (Wait_pubrec, m) \<and> set zs \<subseteq> {Fpub m} \<or> out = Some (Wait_pubcomp, m) \<and> set zs \<subseteq> {Frel 0}"
    using assms(2) by (cases zs) auto
  then show ?thesis
    using assms(1) two_parts_append [of "{Frel 0}" "{Fpub m}" fw zs] two_parts_append [of "{Fpub m}" "{Frel 0}" fw zs]
    by (auto simp: flow_inv_def)
qed (use assms(1) in simp)

lemma flow_get_publish: "flow_inv out inn (Fpub m # fw) bk log got \<Longrightarrow> flow_inv out (Some m) fw (bk @ [Brec]) log got"
  by (rule out_cases [of out]) (auto simp: flow_idle flow_waiting)

lemma flow_get_pubrel:
  assumes "flow_inv out inn (Frel d # fw) bk log got"
  shows "d = 0 \<and> (inn = None \<longrightarrow> flow_inv out None fw bk log got) \<and> (\<forall>m. inn = Some m \<longrightarrow> flow_inv out None fw (bk @ [Bcomp]) log (got @ [m]))"
proof (rule out_cases [of out])
  assume "idle out"
  then show ?thesis
    using assms by (auto simp: flow_idle)
next
  fix m
  assume "out = Some (Wait_pubrec, m)"
  then show ?thesis
    using assms by (auto simp: flow_waiting)
next
  fix m
  assume "out = Some (Wait_pubcomp, m)"
  then show ?thesis
    using assms rec_comp_append [of bk] by (auto simp: flow_waiting)
qed

lemma flow_get_pubrec:
  assumes "flow_inv out inn fw (Brec # bk) log got"
  shows "out = Some (Wait_pubrec, m) \<Longrightarrow> flow_inv (Some (Wait_pubcomp, m)) inn (fw @ [Frel 0]) bk log got"
    "\<forall>m. out \<noteq> Some (Wait_pubrec, m) \<Longrightarrow> flow_inv out inn fw bk log got"
proof -
  show "out = Some (Wait_pubrec, m) \<Longrightarrow> flow_inv (Some (Wait_pubcomp, m)) inn (fw @ [Frel 0]) bk log got"
    using assms two_parts_append [OF two_parts_left, of fw "{Fpub m}" "[Frel 0]" "{Frel 0}"] by (auto simp: flow_waiting)
  assume "\<forall>m. out \<noteq> Some (Wait_pubrec, m)"
  then consider "idle out" | m where "out = Some (Wait_pubcomp, m)"
    using out_cases by blast
  then show "flow_inv out inn fw bk log got"
  proof cases
    case 1
    then show ?thesis
      using assms by (simp add: flow_idle)
  next
    case (2 m)
    then show ?thesis
      using assms by (auto simp: flow_waiting)
  qed
qed

lemma flow_get_pubcomp:
  assumes "flow_inv out inn fw (Bcomp # bk) log got"
  shows "\<exists>m. out = Some (Wait_pubcomp, m)" "flow_inv None inn fw bk log got"
proof -
  have "\<not> idle out" "\<forall>m. out \<noteq> Some (Wait_pubrec, m)"
    using assms by (auto simp: flow_idle flow_waiting)
  then show "\<exists>m. out = Some (Wait_pubcomp, m)"
    using out_cases [of out] by blast
  then show "flow_inv None inn fw bk log got"
    using assms by (auto simp: flow_waiting flow_idle [of None] idle_def)
qed

section \<open>Packets and flows\<close>

lemma map_filter_Nil [simp]: "List.map_filter f [] = []"
  by (simp add: List.map_filter_def)

lemma map_filter_Cons: "List.map_filter f (x # xs) = (case f x of None \<Rightarrow> List.map_filter f xs | Some y \<Rightarrow> y # List.map_filter f xs)"
  by (simp add: List.map_filter_def split: option.splits)

lemma map_filter_append [simp]: "List.map_filter f (xs @ ys) = List.map_filter f xs @ List.map_filter f ys"
  by (simp add: List.map_filter_def)

lemma map_filter_compose: "List.map_filter f (List.map_filter g xs) = List.map_filter (\<lambda>x. Option.bind (g x) f) xs"
  by (induction xs) (auto simp: map_filter_Cons split: option.splits)

lemma subseq_map_filter: "subseq xs ys \<Longrightarrow> subseq (List.map_filter f xs) (List.map_filter f ys)"
  unfolding List.map_filter_def by (intro subseq_map subseq_filter)

lemmas flows = fwds_def backs_def map_filter_Cons

definition op_fwd :: "int \<Rightarrow> send_op \<Rightarrow> fwd option" where
  "op_fwd k p = Option.bind (fst (op_received p)) (fwd_of k)"

definition op_back :: "int \<Rightarrow> send_op \<Rightarrow> bwd option" where
  "op_back k p = Option.bind (fst (op_received p)) (back_of k)"

text \<open>What a packet that is sent adds to the flow, at most.\<close>

lemma transmitted_flows:
  assumes "sends s ops net net'" "list_all op_ok ops"
  shows "subseq (fwds k (transmitted s net net')) (List.map_filter (op_fwd k) ops)"
    "subseq (backs k (transmitted s net net')) (List.map_filter (op_back k) ops)"
    "set (transmitted s net net') \<subseteq> {pack. \<exists>p \<in> set ops. fst (op_received p) = Some pack}"
proof -
  obtain acc where acc: "subseq acc ops" "transmitted s net net' = List.map_filter (fst \<circ> op_received) acc"
    using transmitted_sends [OF assms] by blast
  show "subseq (fwds k (transmitted s net net')) (List.map_filter (op_fwd k) ops)"
    "subseq (backs k (transmitted s net net')) (List.map_filter (op_back k) ops)"
    using subseq_map_filter [OF acc(1)]
    by (simp_all add: acc(2) fwds_def backs_def map_filter_compose op_fwd_def [abs_def] op_back_def [abs_def] comp_def)
  show "set (transmitted s net net') \<subseteq> {pack. \<exists>p \<in> set ops. fst (op_received p) = Some pack}"
    using subseq_set [OF acc(1)] by (auto simp: acc(2) List.map_filter_def)
qed

lemma pub_bytes_list: "pub_payload p = map Some bs \<Longrightarrow> pub_payloadlen p = int (length bs) \<Longrightarrow> pub_bytes p = bs"
  by (simp add: pub_bytes_def bytes_of_list)

lemma received_message:
  assumes "fst (op_received (Publish_op p dup qos r)) = Some (Publish_packet p')"
  shows "pub_bytes p' = pub_bytes p" "qos > 0 \<Longrightarrow> pub_msgId p' = pub_msgId p" "h_qos (pub_header p') = qos mod 4"
    "qos = 2 \<Longrightarrow> publish_message p' = sent_message p qos r"
proof -
  have p': "p' = \<lparr>pub_header = full_header PUBLISH dup qos r 0, pub_topic = c_bytes (pub_topic p), pub_topiclen = int (length (c_bytes (pub_topic p))),
      pub_msgId = (if qos > 0 then pub_msgId p else 0), pub_payload = map Some (pub_bytes p), pub_payloadlen = int (length (pub_bytes p))\<rparr>"
    using assms by (simp only: op_received.simps fst_conv option.inject packet.inject)
  show bytes: "pub_bytes p' = pub_bytes p"
    by (rule pub_bytes_list) (simp_all add: p')
  show "qos > 0 \<Longrightarrow> pub_msgId p' = pub_msgId p" "h_qos (pub_header p') = qos mod 4"
    by (simp_all add: p')
  show "qos = 2 \<Longrightarrow> publish_message p' = sent_message p qos r"
    using bytes by (simp add: publish_message_def sent_message_def) (simp add: p')
qed

text \<open>The packets that sessions send.\<close>

fun session_op :: "send_op \<Rightarrow> bool" where
  "session_op (Publish_op p dup qos r) \<longleftrightarrow> qos = 1 \<or> qos = 2"
| "session_op (Puback_op k) \<longleftrightarrow> True"
| "session_op (Pubrec_op k) \<longleftrightarrow> True"
| "session_op (Pubrel_op k dup) \<longleftrightarrow> True"
| "session_op (Pubcomp_op k) \<longleftrightarrow> True"
| "session_op _ \<longleftrightarrow> False"

lemma received_packet_ok:
  assumes "op_ok p" "session_op p" "fst (op_received p) = Some pack"
  shows "packet_ok pack"
proof (cases p)
  case (Publish_op q dup qos r)
  have "length (c_bytes (pub_topic q)) < 65536" "4 + length (c_bytes (pub_topic q)) + length (pub_bytes q) < 2 ^ 28" "qos > 0" "id_ok (pub_msgId q)"
    using assms(1,2) Publish_op by (auto simp: publish_body_def utf_len_def)
  moreover obtain p' where p': "pack = Publish_packet p'" "pub_topic p' = c_bytes (pub_topic q)" "pub_payload p' = map Some (pub_bytes q)"
      "pub_payloadlen p' = int (length (pub_bytes q))" "pub_msgId p' = (if qos > 0 then pub_msgId q else 0)"
    using assms(3) Publish_op by auto
  moreover have "pub_bytes p' = pub_bytes q"
    using p'(3,4) by (rule pub_bytes_list)
  ultimately show ?thesis
    by simp
qed (use assms in auto)

section \<open>Sessions and flows\<close>

lemma session_out_entry:
  assumes "proto_inv st" "i < length (clients st)" "se_out (session i st) k = Some (ph, m)"
  shows "mm_msgid m = k" "mm_qos m = 2 \<longleftrightarrow> ph \<noteq> Wait_puback" "mm_qos m = 1 \<or> mm_qos m = 2"
proof -
  let ?l = "fst (c_outboundMsgs (client_at i st))"
  have "k \<in> (ms_msgid \<circ> snd) ` set ?l"
    using assms(3) msg_map_None [of out_entry "\<lambda>a. publication_at a st" ?l k] by (force simp: session_def)
  then obtain j ptr m' where j: "j < length ?l" "?l ! j = (ptr, m')" "ms_msgid m' = k"
    by (fastforce simp: in_set_conv_nth)
  then have "out_ok (p_next st) (ptr, m')"
    using inv_client(1) [OF assms(1,2)] by (auto simp: client_ok_def msgs_ok_def list_all_length)
  then show "mm_msgid m = k" "mm_qos m = 2 \<longleftrightarrow> ph \<noteq> Wait_puback" "mm_qos m = 1 \<or> mm_qos m = 2"
    using session_out [OF assms(1,2) j(1,2)] j(3) assms(3) by (auto simp: out_message_def msg_phase_def)
qed

lemma session_in_entry:
  assumes "proto_inv st" "i < length (clients st)" "se_in (session i st) k = Some m"
  shows "mm_msgid m = k" "mm_qos m = 2"
proof -
  let ?l = "fst (c_inboundMsgs (client_at i st))"
  have "k \<in> (ms_msgid \<circ> snd) ` set ?l"
    using assms(3) msg_map_None [of in_message "\<lambda>a. publication_at a st" ?l k] by (force simp: session_def)
  then obtain j ptr m' where j: "j < length ?l" "?l ! j = (ptr, m')" "ms_msgid m' = k"
    by (fastforce simp: in_set_conv_nth)
  then have "in_ok (p_next st) (ptr, m')"
    using inv_client(1) [OF assms(1,2)] by (auto simp: client_ok_def msgs_ok_def list_all_length)
  then show "mm_msgid m = k" "mm_qos m = 2"
    using session_in [OF assms(1,2) j(1,2)] j(3) assms(3) by (auto simp: in_message_def)
qed

lemma ack_flows [simp]:
  "op_fwd k (Puback_op j) = None" "op_fwd k (Pubrec_op j) = None" "op_fwd k (Pubcomp_op j) = None"
  "op_fwd k (Pubrel_op j 0) = (if j = k then Some (Frel 0) else None)"
  "op_back k (Puback_op j) = None" "op_back k (Pubrel_op j d) = None"
  "op_back k (Pubrec_op j) = (if j = k then Some Brec else None)" "op_back k (Pubcomp_op j) = (if j = k then Some Bcomp else None)"
  "op_back k (Publish_op p d q r) = None"
  by (simp_all add: op_fwd_def op_back_def msgTypes)

lemma publish_flow:
  assumes "qos = 1 \<or> qos = 2"
  shows "op_fwd k (Publish_op p d qos r) = (if qos = 2 \<and> pub_msgId p = k then Some (Fpub (sent_message p 2 r)) else None)"
proof -
  obtain p' where p': "fst (op_received (Publish_op p d qos r)) = Some (Publish_packet p')"
    by simp
  show ?thesis
    using assms received_message [OF p'] by (auto simp: op_fwd_def p' simp del: op_received.simps)
qed

lemma handle_ops:
  assumes "packet_ok pack"
  shows "list_all op_ok (snd (session_handle pack se))" "list_all session_op (snd (session_handle pack se))"
proof -
  have "list_all (\<lambda>p. op_ok p \<and> session_op p) (snd (session_handle pack se))"
    using assms
    by (cases pack) (auto simp: session_ack.simps Let_def split: option.splits prod.splits phase.splits)
  then show "list_all op_ok (snd (session_handle pack se))" "list_all session_op (snd (session_handle pack se))"
    by (auto simp: list_all_iff)
qed

lemma of_id_append [simp]: "of_id k [] = []" "of_id k (xs @ ys) = of_id k xs @ of_id k ys"
  by (simp_all add: of_id_def)

section \<open>The invariant of the connection\<close>

type_synonym flow = "(phase \<times> MQTTAsync_message) option \<Rightarrow> MQTTAsync_message option \<Rightarrow> fwd list \<Rightarrow> bwd list \<Rightarrow>
  MQTTAsync_message list \<Rightarrow> MQTTAsync_message list \<Rightarrow> bool"

text \<open>Both libraries are well formed, and the flow of each identifier \<open>k\<close> is in a state that \<open>I k\<close> allows.\<close>

definition link_inv :: "(int \<Rightarrow> flow) \<Rightarrow> nat \<Rightarrow> nat \<Rightarrow> link \<Rightarrow> bool" where
  "link_inv I ia ib l \<longleftrightarrow> proto_inv (l_a l) \<and> ia < length (clients (l_a l)) \<and> proto_inv (l_b l) \<and> ib < length (clients (l_b l)) \<and>
     list_all packet_ok (l_ab l) \<and> list_all packet_ok (l_ba l) \<and>
     (\<forall>k. I k (se_out (session ia (l_a l)) k) (se_in (session ib (l_b l)) k) (fwds k (l_ab l)) (backs k (l_ba l))
        (of_id k (l_log l)) (of_id k (se_handed (session ib (l_b l)))))"

lemma refined_length: "refined i res st st' \<Longrightarrow> length (clients st') = length (clients st)"
  by (auto simp: refined_def dest: map_eq_imp_length_eq)

lemma refined_transmitted:
  assumes "refined i (se', ops) st st'" "list_all op_ok ops" "list_all session_op ops"
  shows "list_all packet_ok (transmitted (socket_at i st) (p_net st) (p_net st'))"
    "subseq (fwds k (ps @ transmitted (socket_at i st) (p_net st) (p_net st'))) (fwds k ps @ List.map_filter (op_fwd k) ops)"
    "subseq (backs k (ps @ transmitted (socket_at i st) (p_net st) (p_net st'))) (backs k ps @ List.map_filter (op_back k) ops)"
proof -
  have "sends (socket_at i st) ops (p_net st) (p_net st')"
    using assms(1) by (simp add: refined_def socket_at_def)
  note tr = transmitted_flows [OF this assms(2)]
  show "list_all packet_ok (transmitted (socket_at i st) (p_net st) (p_net st'))"
    using tr(3) assms(2,3) received_packet_ok by (fastforce simp: list_all_iff)
  show "subseq (fwds k (ps @ transmitted (socket_at i st) (p_net st) (p_net st'))) (fwds k ps @ List.map_filter (op_fwd k) ops)"
    "subseq (backs k (ps @ transmitted (socket_at i st) (p_net st) (p_net st'))) (backs k ps @ List.map_filter (op_back k) ops)"
    using tr(1,2) [of k] by (simp_all add: fwds_def backs_def list_emb_append_mono)
qed

lemma resend_ops:
  assumes "list_all (resend (session i st)) ops" "proto_inv st" "i < length (clients st)"
  shows "list_all op_ok ops" "list_all session_op ops" "List.map_filter (op_back k) ops = []"
    "\<forall>z \<in> set (List.map_filter (op_fwd k) ops). \<exists>m. se_out (session i st) k = Some (Wait_pubrec, m) \<and> z = Fpub m \<or>
       se_out (session i st) k = Some (Wait_pubcomp, m) \<and> z = Frel 0"
proof -
  have one: "op_ok p \<and> session_op p \<and> op_back k p = None \<and> (\<forall>z. op_fwd k p = Some z \<longrightarrow> (\<exists>m. se_out (session i st) k = Some (Wait_pubrec, m) \<and> z = Fpub m \<or>
       se_out (session i st) k = Some (Wait_pubcomp, m) \<and> z = Frel 0))" if p: "resend (session i st) p" for p
  proof -
    consider j m where "se_out (session i st) j = Some (Wait_pubcomp, m)" "p = Pubrel_op j 0"
      | pack qos r ph where "se_out (session i st) (pub_msgId pack) = Some (ph, sent_message pack qos r)" "ph \<noteq> Wait_pubcomp" "p = Publish_op pack 1 qos r"
      using p unfolding resend_def by blast
    then show ?thesis
    proof cases
      case 1
      then show ?thesis
        using p by (auto simp: resend_def split: if_splits)
    next
      case (2 pack qos r ph)
      have "qos = 2 \<longleftrightarrow> ph \<noteq> Wait_puback"
        using session_out_entry(2) [OF assms(2,3) 2(1)] by (simp add: sent_message_def)
      moreover have "qos = 1 \<or> qos = 2"
        using session_out_entry(3) [OF assms(2,3) 2(1)] by (simp add: sent_message_def)
      moreover have "op_ok p"
        using p by (simp add: resend_def)
      ultimately show ?thesis
        using 2 by (cases ph) (auto simp: publish_flow split: if_splits)
    qed
  qed
  show "list_all op_ok ops" "list_all session_op ops" "List.map_filter (op_back k) ops = []"
    using assms(1) one by (auto simp: list_all_iff List.map_filter_def filter_empty_conv)
  show "\<forall>z \<in> set (List.map_filter (op_fwd k) ops). \<exists>m. se_out (session i st) k = Some (Wait_pubrec, m) \<and> z = Fpub m \<or>
       se_out (session i st) k = Some (Wait_pubcomp, m) \<and> z = Frel 0"
    using assms(1) one by (fastforce simp: list_all_iff List.map_filter_def)
qed

lemma can_publish_new:
  assumes "can_publish i p qos st"
  shows "se_out (session i st) (pub_msgId p) = None"
  using assms session_out_None [of "pub_msgId p" i st] by (simp add: can_publish_def used_ids_def)

lemma publish_ops:
  assumes "can_publish i p qos st"
  shows "list_all op_ok (snd (session_publish p qos r se))" "list_all session_op (snd (session_publish p qos r se))"
  using assms publish_op_ok [of p qos 0 r] by (auto simp: can_publish_def session_publish_def simp del: packet_ok.simps op_ok.simps(1))

lemma flush_refined:
  assumes "proto_inv st" "i < length (clients st)" "no_write_error (p_net st)" "Socket_continueWrites pwset cb (p_net st) = Some net'"
  shows "refined i (session i st, []) st (st\<lparr>p_net := net'\<rparr>)"
proof (rule refined_net [OF assms(1,2)])
  have "w_inv (p_net st)"
    using inv_client(3) [OF assms(1,2)] .
  from continueWrites_spec [OF this assms(3), of pwset cb] show "sends (c_socket (client_at i st)) [] (p_net st) net'"
    using assms(4) by (auto simp: sends_def writable_def no_more_pending_def)
qed

lemma subseq_lost: "subseq (xs @ ys) (xs @ z # ys)"
  by (intro list_emb_append_mono list_emb_Cons) simp_all

text \<open>
  What the steps of the two sides ask of such a family of states: it may lose packets, and each step leads to a state that
  is allowed again.
\<close>

locale flow_laws =
  fixes I :: "int \<Rightarrow> flow"
  assumes lose: "I k out inn fw bk log got \<Longrightarrow> subseq fw' fw \<Longrightarrow> subseq bk' bk \<Longrightarrow> I k out inn fw' bk' log got"
    and publish: "I k None inn fw bk log got \<Longrightarrow> I k (Some (Wait_pubrec, m)) inn (fw @ [Fpub m]) bk (log @ [m]) got"
    and publish_one: "I k None inn fw bk log got \<Longrightarrow> I k (Some (Wait_puback, m)) inn fw bk log got"
    and get_puback: "I k (Some (Wait_puback, m)) inn fw bk log got \<Longrightarrow> I k None inn fw bk log got"
    and resend: "I k out inn fw bk log got \<Longrightarrow>
      \<forall>z \<in> set zs. \<exists>m. out = Some (Wait_pubrec, m) \<and> z = Fpub m \<or> out = Some (Wait_pubcomp, m) \<and> z = Frel 0 \<Longrightarrow> I k out inn (fw @ zs) bk log got"
    and get_publish: "I k out inn (Fpub m # fw) bk log got \<Longrightarrow> I k out (Some m) fw (bk @ [Brec]) log got"
    and get_pubrel: "I k out inn (Frel d # fw) bk log got \<Longrightarrow> d = 0 \<and> (inn = None \<longrightarrow> I k out None fw bk log got) \<and>
      (\<forall>m. inn = Some m \<longrightarrow> I k out None fw (bk @ [Bcomp]) log (got @ [m]))"
    and get_pubrec: "I k (Some (Wait_pubrec, m)) inn fw (Brec # bk) log got \<Longrightarrow> I k (Some (Wait_pubcomp, m)) inn (fw @ [Frel 0]) bk log got"
    and get_pubrec_again: "I k out inn fw (Brec # bk) log got \<Longrightarrow> \<forall>m. out \<noteq> Some (Wait_pubrec, m) \<Longrightarrow> I k out inn fw bk log got"
    and get_pubcomp: "I k out inn fw (Bcomp # bk) log got \<Longrightarrow> (\<exists>m. out = Some (Wait_pubcomp, m)) \<and> I k None inn fw bk log got"
begin

lemma sender_flow:
  assumes "I k (se_out se k) inn fw (backs k (pack # rest)) log got"
  shows "I k (se_out (fst (session_handle pack se)) k) inn (fw @ List.map_filter (op_fwd k) (snd (session_handle pack se))) (backs k rest) log got"
proof (cases pack)
  case (Publish_packet p)
  then show ?thesis
    using assms by (auto simp: flows Let_def)
next
  case (Ack h j)
  consider "h_type h = PUBACK" | "h_type h = PUBREC" | "h_type h = PUBREL" | "h_type h = PUBCOMP" | "h_type h \<notin> {PUBACK, PUBREC, PUBREL, PUBCOMP}"
    by blast
  then show ?thesis
  proof cases
    case 1
    have "backs k (pack # rest) = backs k rest"
      using 1 Ack by (simp add: flows msgTypes)
    then have "I k (se_out se k) inn fw (backs k rest) log got"
      using assms by simp
    then show ?thesis
      using 1 Ack get_puback [of k _ inn fw "backs k rest" log got] by (auto simp: session_ack_types split: option.splits phase.splits)
  next
    case 2
    have "backs k (pack # rest) = (if j = k then Brec # backs k rest else backs k rest)"
      using 2 Ack by (simp add: flows)
    then have flow: "I k (se_out se k) inn fw (if j = k then Brec # backs k rest else backs k rest) log got"
      using assms by simp
    have handle: "session_handle pack se = session_ack PUBREC (h_dup h) j se"
      using 2 Ack by simp
    show ?thesis
    proof (cases "\<exists>m. se_out se j = Some (Wait_pubrec, m)")
      case True
      then obtain m where "se_out se j = Some (Wait_pubrec, m)"
        by blast
      then show ?thesis
        using flow get_pubrec [of k m inn fw "backs k rest" log got]
        by (cases "j = k") (simp_all add: handle session_ack_types map_filter_Cons)
    next
      case False
      then have "session_handle pack se = (se, [])"
        by (auto simp: handle session_ack_types split: option.splits phase.splits)
      then show ?thesis
        using False flow get_pubrec_again [of k "se_out se k" inn fw "backs k rest" log got] by (cases "j = k") simp_all
    qed
  next
    case 3
    have "backs k (pack # rest) = backs k rest"
      using 3 Ack by (simp add: flows msgTypes)
    then have "I k (se_out se k) inn fw (backs k rest) log got"
      using assms by simp
    then show ?thesis
      using 3 Ack by (auto simp: session_ack_types map_filter_Cons split: option.splits)
  next
    case 4
    have "backs k (pack # rest) = (if j = k then Bcomp # backs k rest else backs k rest)"
      using 4 Ack by (simp add: flows msgTypes)
    then have flow: "I k (se_out se k) inn fw (if j = k then Bcomp # backs k rest else backs k rest) log got"
      using assms by simp
    have handle: "session_handle pack se = session_ack PUBCOMP (h_dup h) j se"
      using 4 Ack by simp
    show ?thesis
    proof (cases "j = k")
      case True
      then obtain m where "se_out se k = Some (Wait_pubcomp, m)" "I k None inn fw (backs k rest) log got"
        using get_pubcomp [of k "se_out se k" inn fw "backs k rest" log got] flow by auto
      then show ?thesis
        using True by (simp add: handle session_ack_types)
    next
      case False
      then show ?thesis
        using flow by (auto simp: handle session_ack_types split: option.splits phase.splits)
    qed
  next
    case 5
    then have "backs k (pack # rest) = backs k rest" "session_handle pack se = (se, [])"
      using Ack by (simp_all add: flows session_ack.simps)
    then show ?thesis
      using assms by simp
  qed
qed (use assms in \<open>simp_all add: flows\<close>)

lemma receiver_flow:
  assumes "I k out (se_in se k) (fwds k (pack # rest)) bk log (of_id k (se_handed se))"
    "\<And>j m. se_in se j = Some m \<Longrightarrow> mm_msgid m = j \<and> mm_qos m = 2"
  shows "I k out (se_in (fst (session_handle pack se)) k) (fwds k rest) (bk @ List.map_filter (op_back k) (snd (session_handle pack se))) log
    (of_id k (se_handed (fst (session_handle pack se))))"
proof (cases pack)
  case (Publish_packet p)
  have msg: "mm_qos (publish_message p) = h_qos (pub_header p)" "mm_msgid (publish_message p) = pub_msgId p"
    by (simp_all add: publish_message_def)
  show ?thesis
    using assms(1) Publish_packet msg get_publish [of k out "se_in se k" "publish_message p" "fwds k rest" bk log "of_id k (se_handed se)"]
    by (auto simp: flows Let_def of_id_def split: if_splits)
next
  case (Ack h j)
  show ?thesis
  proof (cases "h_type h = PUBREL")
    case True
    have "fwds k (pack # rest) = (if j = k then Frel (h_dup h) # fwds k rest else fwds k rest)"
      using True Ack by (simp add: flows)
    then have flow: "I k out (se_in se k) (if j = k then Frel (h_dup h) # fwds k rest else fwds k rest) bk log (of_id k (se_handed se))"
      using assms(1) by simp
    have handle: "session_handle pack se = session_ack PUBREL (h_dup h) j se"
      using True Ack by simp
    note rel = get_pubrel [of k out "se_in se k" "h_dup h" "fwds k rest" bk log "of_id k (se_handed se)"]
    show ?thesis
    proof (cases "se_in se j")
      case None
      then show ?thesis
        using flow rel by (cases "j = k") (simp_all add: handle session_ack_types map_filter_Cons)
    next
      case (Some m)
      then have "of_id k [m] = (if j = k then [m] else [])"
        using assms(2) by (simp add: of_id_def)
      then show ?thesis
        using Some flow rel by (cases "j = k") (simp_all add: handle session_ack_types map_filter_Cons)
    qed
  next
    case False
    then have "se_in (fst (session_handle pack se)) = se_in se" "se_handed (fst (session_handle pack se)) = se_handed se"
      "List.map_filter (op_back k) (snd (session_handle pack se)) = []" "fwds k (pack # rest) = fwds k rest"
      using Ack by (auto simp: session_ack.simps flows split: option.splits phase.splits)
    then show ?thesis
      using assms(1) by simp
  qed
qed (use assms(1) in \<open>simp_all add: flows\<close>)

lemma put_a_inv:
  assumes "link_inv I ia ib l" "refined ia (se', ops) (l_a l) a'" "list_all op_ok ops" "list_all session_op ops" "list_all packet_ok ba'"
    "\<And>k. I k (se_out se' k) (se_in (session ib (l_b l)) k) (fwds k (l_ab l) @ List.map_filter (op_fwd k) ops) (backs k ba')
       (of_id k log') (of_id k (se_handed (session ib (l_b l))))"
  shows "link_inv I ia ib ((put_a ia a' (l\<lparr>l_ba := ba'\<rparr>))\<lparr>l_log := log'\<rparr>)"
proof -
  note tr = refined_transmitted [OF assms(2-4)]
  have "proto_inv a'" "session ia a' = se'" "length (clients a') = length (clients (l_a l))"
    using assms(2) refined_length [OF assms(2)] by (simp_all add: refined_def)
  moreover have "I k (se_out se' k) (se_in (session ib (l_b l)) k)
      (fwds k (l_ab l @ transmitted (socket_at ia (l_a l)) (p_net (l_a l)) (p_net a'))) (backs k ba') (of_id k log') (of_id k (se_handed (session ib (l_b l))))" for k
    by (rule lose [OF assms(6) tr(2)]) simp
  ultimately show ?thesis
    using assms(1,5) tr(1) by (simp add: link_inv_def put_a_def)
qed

lemma put_b_inv:
  assumes "link_inv I ia ib l" "refined ib (se', ops) (l_b l) b'" "list_all op_ok ops" "list_all session_op ops" "list_all packet_ok ab'"
    "\<And>k. I k (se_out (session ia (l_a l)) k) (se_in se' k) (fwds k ab') (backs k (l_ba l) @ List.map_filter (op_back k) ops)
       (of_id k (l_log l)) (of_id k (se_handed se'))"
  shows "link_inv I ia ib (put_b ib b' (l\<lparr>l_ab := ab'\<rparr>))"
proof -
  note tr = refined_transmitted [OF assms(2-4)]
  have "proto_inv b'" "session ib b' = se'" "length (clients b') = length (clients (l_b l))"
    using assms(2) refined_length [OF assms(2)] by (simp_all add: refined_def)
  moreover have "I k (se_out (session ia (l_a l)) k) (se_in se' k) (fwds k ab')
      (backs k (l_ba l @ transmitted (socket_at ib (l_b l)) (p_net (l_b l)) (p_net b'))) (of_id k (l_log l)) (of_id k (se_handed se'))" for k
    by (rule lose [OF assms(6) _ tr(3)]) simp
  ultimately show ?thesis
    using assms(1,5) tr(1) by (simp add: link_inv_def put_b_def)
qed

lemma link_flow:
  assumes "link_inv I ia ib l"
  shows "I k (se_out (session ia (l_a l)) k) (se_in (session ib (l_b l)) k) (fwds k (l_ab l)) (backs k (l_ba l))
    (of_id k (l_log l)) (of_id k (se_handed (session ib (l_b l))))"
    "proto_inv (l_a l)" "ia < length (clients (l_a l))" "proto_inv (l_b l)" "ib < length (clients (l_b l))"
    "list_all packet_ok (l_ab l)" "list_all packet_ok (l_ba l)"
  using assms unfolding link_inv_def by blast+

lemma publish_a_inv:
  assumes inv: "link_inv I ia ib l" and p: "can_publish ia p qos (l_a l)" and run: "MQTTProtocol_startPublish ia p qos r None (l_a l) = Some (rc, a')"
  shows "link_inv I ia ib ((put_a ia a' l)\<lparr>l_log := l_log l @ (if qos = 2 then [sent_message p qos r] else [])\<rparr>)"
proof -
  note l = link_flow [OF inv]
  have qos: "qos = 1 \<or> qos = 2"
    using p by (simp add: can_publish_def)
  have "refined ia (session_publish p qos r (session ia (l_a l))) (l_a l) a'"
    using startPublish_refined [OF l(2,3), of p qos r] p can_publish_new [OF p] run by (auto simp: can_publish_def)
  then have ref: "refined ia (fst (session_publish p qos r (session ia (l_a l))), snd (session_publish p qos r (session ia (l_a l)))) (l_a l) a'"
    by simp
  have flow: "I k (se_out (fst (session_publish p qos r (session ia (l_a l)))) k) (se_in (session ib (l_b l)) k)
      (fwds k (l_ab l) @ List.map_filter (op_fwd k) (snd (session_publish p qos r (session ia (l_a l))))) (backs k (l_ba l))
      (of_id k (l_log l @ (if qos = 2 then [sent_message p qos r] else []))) (of_id k (se_handed (session ib (l_b l))))" for k
  proof (cases "pub_msgId p = k")
    case True
    then have out: "se_out (session ia (l_a l)) k = None"
      using can_publish_new [OF p] by simp
    show ?thesis
    proof (cases "qos = 2")
      case two: True
      then have "of_id k [sent_message p qos r] = [sent_message p qos r]"
        using True by (simp add: of_id_def sent_message_def)
      then show ?thesis
        using publish [of k _ _ _ _ _ "sent_message p qos r"] l(1) [of k] out True two
        by (simp add: session_publish_def publish_flow map_filter_Cons)
    next
      case False
      then show ?thesis
        using l(1) [of k] out qos True publish_one [of k] by (simp add: session_publish_def publish_flow map_filter_Cons)
    qed
  next
    case False
    then have "of_id k [sent_message p qos r] = []"
      by (simp add: of_id_def sent_message_def)
    then show ?thesis
      using l(1) [of k] False qos by (auto simp: session_publish_def publish_flow map_filter_Cons)
  qed
  from put_a_inv [OF inv ref publish_ops [OF p] l(7) flow] show ?thesis
    by (simp add: put_a_def)
qed

lemma publish_b_inv:
  assumes inv: "link_inv I ia ib l" and p: "can_publish ib p qos (l_b l)" and run: "MQTTProtocol_startPublish ib p qos r None (l_b l) = Some (rc, b')"
  shows "link_inv I ia ib (put_b ib b' l)"
proof -
  note l = link_flow [OF inv]
  let ?se = "session ib (l_b l)"
  have "refined ib (session_publish p qos r ?se) (l_b l) b'"
    using startPublish_refined [OF l(4,5), of p qos r] p can_publish_new [OF p] run by (auto simp: can_publish_def)
  then have ref: "refined ib (fst (session_publish p qos r ?se), snd (session_publish p qos r ?se)) (l_b l) b'"
    by simp
  from put_b_inv [OF inv ref publish_ops [OF p] l(6)] show ?thesis
    using l(1) by (simp add: put_b_def session_publish_def map_filter_Cons)
qed

lemma handle_a_inv:
  assumes inv: "link_inv I ia ib l" and ba: "l_ba l = pack # rest" and run: "handle_packet pack (socket_at ia (l_a l)) (l_a l) = Some (rc, a')"
  shows "link_inv I ia ib (put_a ia a' (l\<lparr>l_ba := rest\<rparr>))"
proof -
  note l = link_flow [OF inv]
  let ?h = "session_handle pack (session ia (l_a l))"
  have pack: "packet_ok pack" "list_all packet_ok rest"
    using l(7) ba by simp_all
  have "refined ia (fst ?h, snd ?h) (l_a l) a'"
    using handle_packet_refined [OF l(2,3) pack(1)] run by (simp add: socket_at_def)
  from put_a_inv [OF inv this handle_ops [OF pack(1)] pack(2), of "l_log l"] show ?thesis
    using sender_flow [OF l(1) [unfolded ba]] by (simp add: put_a_def)
qed

lemma handle_b_inv:
  assumes inv: "link_inv I ia ib l" and ab: "l_ab l = pack # rest" and run: "handle_packet pack (socket_at ib (l_b l)) (l_b l) = Some (rc, b')"
  shows "link_inv I ia ib (put_b ib b' (l\<lparr>l_ab := rest\<rparr>))"
proof -
  note l = link_flow [OF inv]
  let ?h = "session_handle pack (session ib (l_b l))"
  have pack: "packet_ok pack" "list_all packet_ok rest"
    using l(6) ab by simp_all
  have "refined ib (fst ?h, snd ?h) (l_b l) b'"
    using handle_packet_refined [OF l(4,5) pack(1)] run by (simp add: socket_at_def)
  from put_b_inv [OF inv this handle_ops [OF pack(1)] pack(2)] show ?thesis
    using receiver_flow [OF l(1) [unfolded ab]] session_in_entry [OF l(4,5)] by blast
qed

lemma retry_a_inv:
  assumes inv: "link_inv I ia ib l" and run: "MQTTProtocol_retries tm ia regardless (l_a l) = Some a'"
  shows "link_inv I ia ib (put_a ia a' l)"
proof -
  note l = link_flow [OF inv]
  obtain ops where ops: "refined ia (session ia (l_a l), ops) (l_a l) a'" "list_all (resend (session ia (l_a l))) ops"
    using retries_retried [OF l(2,3), of tm regardless] run by (auto simp: retried_def)
  note r = resend_ops [OF ops(2) l(2,3)]
  from put_a_inv [OF inv ops(1) r(1,2) l(7) resend [OF l(1) r(4)]] show ?thesis
    by (simp add: put_a_def)
qed

lemma retry_b_inv:
  assumes inv: "link_inv I ia ib l" and run: "MQTTProtocol_retries tm ib regardless (l_b l) = Some b'"
  shows "link_inv I ia ib (put_b ib b' l)"
proof -
  note l = link_flow [OF inv]
  obtain ops where ops: "refined ib (session ib (l_b l), ops) (l_b l) b'" "list_all (resend (session ib (l_b l))) ops"
    using retries_retried [OF l(4,5), of tm regardless] run by (auto simp: retried_def)
  note r = resend_ops [OF ops(2) l(4,5)]
  from put_b_inv [OF inv ops(1) r(1,2) l(6)] show ?thesis
    using l(1) r(3) by (simp add: put_b_def)
qed

lemma link_step_inv:
  assumes "link_step ia ib l l'" "link_inv I ia ib l"
  shows "link_inv I ia ib l'"
  using assms
proof (induction rule: link_step.induct)
  case (deliver_a l)
  then have "refined ia (session ia (l_a l), []) (l_a l) (deliver_queued ia (l_a l))"
    by (intro deliver_queued_refined) (simp_all add: link_inv_def)
  then show ?case
    using deliver_a.prems refined_length by (fastforce simp: link_inv_def refined_def)
next
  case (deliver_b l)
  then have "refined ib (session ib (l_b l), []) (l_b l) (deliver_queued ib (l_b l))"
    by (intro deliver_queued_refined) (simp_all add: link_inv_def)
  then show ?case
    using deliver_b.prems refined_length by (fastforce simp: link_inv_def refined_def)
next
  case (flush_a l pwset cb net')
  then have "refined ia (session ia (l_a l), []) (l_a l) ((l_a l)\<lparr>p_net := net'\<rparr>)"
    by (intro flush_refined [of _ _ pwset cb]) (simp_all add: link_inv_def)
  then show ?case
    using flush_a.prems refined_length by (fastforce simp: link_inv_def refined_def)
next
  case (flush_b l pwset cb net')
  then have "refined ib (session ib (l_b l), []) (l_b l) ((l_b l)\<lparr>p_net := net'\<rparr>)"
    by (intro flush_refined [of _ _ pwset cb]) (simp_all add: link_inv_def)
  then show ?case
    using flush_b.prems refined_length by (fastforce simp: link_inv_def refined_def)
next
  case (lose_ab l xs pack ys)
  have "subseq (fwds k (xs @ ys)) (fwds k (l_ab l))" for k
    unfolding fwds_def lose_ab.hyps by (intro subseq_map_filter subseq_lost)
  then show ?case
    using lose_ab lose [OF link_flow(1) [OF lose_ab.prems]] by (simp add: link_inv_def)
next
  case (lose_ba l xs pack ys)
  have "subseq (backs k (xs @ ys)) (backs k (l_ba l))" for k
    unfolding backs_def lose_ba.hyps by (intro subseq_map_filter subseq_lost)
  then show ?case
    using lose_ba lose [OF link_flow(1) [OF lose_ba.prems]] by (simp add: link_inv_def)
qed (blast intro: publish_a_inv publish_b_inv handle_a_inv handle_b_inv retry_a_inv retry_b_inv)+

end

lemma flow_log:
  "flow_inv out inn fw bk log got \<Longrightarrow> got = log \<or> (\<exists>ph m. out = Some (ph, m) \<and> ph \<noteq> Wait_puback \<and> log = got @ [m])"
  by (rule out_cases [of out]) (auto simp: flow_idle flow_waiting)

interpretation qos_two: flow_laws "\<lambda>_. flow_inv"
proof
  fix out inn fw fw' bk bk' log got m d zs
  show "flow_inv None inn fw bk log got \<Longrightarrow> flow_inv (Some (Wait_puback, m)) inn fw bk log got"
    "flow_inv (Some (Wait_puback, m)) inn fw bk log got \<Longrightarrow> flow_inv None inn fw bk log got"
    by (simp_all add: flow_inv_def)
  show "flow_inv None inn fw bk log got \<Longrightarrow> flow_inv (Some (Wait_pubrec, m)) inn (fw @ [Fpub m]) bk (log @ [m]) got"
    by (rule flow_publish) (simp_all add: idle_def)
  show "flow_inv out inn fw bk log got \<Longrightarrow> subseq fw' fw \<Longrightarrow> subseq bk' bk \<Longrightarrow> flow_inv out inn fw' bk' log got"
    by (rule flow_subseq)
  show "flow_inv out inn fw bk log got \<Longrightarrow>
      \<forall>z \<in> set zs. \<exists>m. out = Some (Wait_pubrec, m) \<and> z = Fpub m \<or> out = Some (Wait_pubcomp, m) \<and> z = Frel 0 \<Longrightarrow> flow_inv out inn (fw @ zs) bk log got"
    by (rule flow_resend)
  show "flow_inv out inn (Fpub m # fw) bk log got \<Longrightarrow> flow_inv out (Some m) fw (bk @ [Brec]) log got"
    by (rule flow_get_publish)
  show "flow_inv out inn (Frel d # fw) bk log got \<Longrightarrow> d = 0 \<and> (inn = None \<longrightarrow> flow_inv out None fw bk log got) \<and>
      (\<forall>m. inn = Some m \<longrightarrow> flow_inv out None fw (bk @ [Bcomp]) log (got @ [m]))"
    by (rule flow_get_pubrel)
  show "flow_inv (Some (Wait_pubrec, m)) inn fw (Brec # bk) log got \<Longrightarrow> flow_inv (Some (Wait_pubcomp, m)) inn (fw @ [Frel 0]) bk log got"
    by (rule flow_get_pubrec(1)) simp_all
  show "flow_inv out inn fw (Brec # bk) log got \<Longrightarrow> \<forall>m. out \<noteq> Some (Wait_pubrec, m) \<Longrightarrow> flow_inv out inn fw bk log got"
    by (rule flow_get_pubrec(2))
  show "flow_inv out inn fw (Bcomp # bk) log got \<Longrightarrow> (\<exists>m. out = Some (Wait_pubcomp, m)) \<and> flow_inv None inn fw bk log got"
    using flow_get_pubcomp by blast
qed

section \<open>Exactly once\<close>

text \<open>At the start nothing is in flight and nothing was delivered.\<close>

definition link_start :: "nat \<Rightarrow> nat \<Rightarrow> link \<Rightarrow> bool" where
  "link_start ia ib l \<longleftrightarrow> proto_inv (l_a l) \<and> ia < length (clients (l_a l)) \<and> proto_inv (l_b l) \<and> ib < length (clients (l_b l)) \<and>
     fst (c_outboundMsgs (client_at ia (l_a l))) = [] \<and> fst (c_inboundMsgs (client_at ib (l_b l))) = [] \<and>
     accepted_on (socket_at ib (l_b l)) (l_b l) = [] \<and> c_messageQueue (client_at ib (l_b l)) = [] \<and> l_ab l = [] \<and> l_ba l = [] \<and> l_log l = []"

lemma link_start_inv: "link_start ia ib l \<Longrightarrow> link_inv (\<lambda>_. flow_inv) ia ib l"
  by (simp add: link_start_def link_inv_def session_def msg_map_def fwds_def backs_def socket_at_def flow_inv_def)

lemma link_steps_inv: "(link_step ia ib)\<^sup>*\<^sup>* l l' \<Longrightarrow> link_inv (\<lambda>_. flow_inv) ia ib l \<Longrightarrow> link_inv (\<lambda>_. flow_inv) ia ib l'"
  by (induction rule: rtranclp_induct) (blast intro: qos_two.link_step_inv)+

text \<open>The messages of QoS 2 with identifier \<open>k\<close> that were handed to the application, or are queued for it.\<close>

definition received_by :: "int \<Rightarrow> nat \<Rightarrow> proto \<Rightarrow> MQTTAsync_message list" where
  "received_by k i st = of_id k (map plain (accepted_on (socket_at i st) st @ c_messageQueue (client_at i st)))"

text \<open>
  C4: messages of QoS 2 are delivered exactly once. Two clients of the library are connected and publish to each other, handle
  packets, send again and accept or refuse messages in any order, while any packet may be lost. Under each identifier the receiver
  has got exactly the messages that the sender has published, with their contents and in order, but for the last one as long
  as the sender still waits for its completion. When the sender forgets a message, it was delivered once.
\<close>

theorem qos2_exactly_once:
  assumes "link_start ia ib l0" "(link_step ia ib)\<^sup>*\<^sup>* l0 l"
  shows "received_by k ib (l_b l) = of_id k (l_log l) \<or>
    (\<exists>ph m. se_out (session ia (l_a l)) k = Some (ph, m) \<and> ph \<noteq> Wait_puback \<and> of_id k (l_log l) = received_by k ib (l_b l) @ [m])"
proof -
  have "link_inv (\<lambda>_. flow_inv) ia ib l"
    using link_steps_inv [OF assms(2) link_start_inv [OF assms(1)]] .
  note flow = qos_two.link_flow(1) [OF this, of k]
  have "received_by k ib (l_b l) = of_id k (se_handed (session ib (l_b l)))"
    by (simp add: received_by_def session_def socket_at_def)
  with flow_log [OF flow] show ?thesis
    by simp
qed

section \<open>A lost PUBCOMP\<close>

text \<open>
  The sender waits for PUBCOMP, the receiver has forgotten the message, and no PUBCOMP is on its way.
\<close>

definition lost_flow :: "int \<Rightarrow> MQTTAsync_message \<Rightarrow> int \<Rightarrow> flow" where
  "lost_flow j m k out inn fw bk log got \<longleftrightarrow>
     (if k = j then out = Some (Wait_pubcomp, m) \<and> inn = None \<and> set fw \<subseteq> {Frel 0} \<and> set bk \<subseteq> {Brec}
      else flow_inv out inn fw bk log got)"

interpretation lost: flow_laws "lost_flow j m" for j m
proof
  fix k out inn fw fw' bk bk' log got m' d zs
  let ?I = "lost_flow j m k"
  show "?I None inn fw bk log got \<Longrightarrow> ?I (Some (Wait_puback, m')) inn fw bk log got"
    "?I (Some (Wait_puback, m')) inn fw bk log got \<Longrightarrow> ?I None inn fw bk log got"
    by (simp_all add: lost_flow_def flow_inv_def split: if_splits)
  show "?I None inn fw bk log got \<Longrightarrow> ?I (Some (Wait_pubrec, m')) inn (fw @ [Fpub m']) bk (log @ [m']) got"
    using qos_two.publish by (auto simp: lost_flow_def split: if_splits)
  show "?I out inn fw bk log got \<Longrightarrow> subseq fw' fw \<Longrightarrow> subseq bk' bk \<Longrightarrow> ?I out inn fw' bk' log got"
    using flow_subseq subseq_set [of fw' fw] subseq_set [of bk' bk] by (auto simp: lost_flow_def split: if_splits)
  show "?I out inn fw bk log got \<Longrightarrow>
      \<forall>z \<in> set zs. \<exists>m. out = Some (Wait_pubrec, m) \<and> z = Fpub m \<or> out = Some (Wait_pubcomp, m) \<and> z = Frel 0 \<Longrightarrow> ?I out inn (fw @ zs) bk log got"
    using flow_resend [of out inn fw bk log got zs] by (auto simp: lost_flow_def split: if_splits)
  show "?I out inn (Fpub m' # fw) bk log got \<Longrightarrow> ?I out (Some m') fw (bk @ [Brec]) log got"
    using flow_get_publish by (simp add: lost_flow_def split: if_splits)
  show "?I out inn (Frel d # fw) bk log got \<Longrightarrow> d = 0 \<and> (inn = None \<longrightarrow> ?I out None fw bk log got) \<and>
      (\<forall>m. inn = Some m \<longrightarrow> ?I out None fw (bk @ [Bcomp]) log (got @ [m]))"
    using flow_get_pubrel [of out inn d fw bk log got] by (simp add: lost_flow_def split: if_splits)
  show "?I (Some (Wait_pubrec, m')) inn fw (Brec # bk) log got \<Longrightarrow> ?I (Some (Wait_pubcomp, m')) inn (fw @ [Frel 0]) bk log got"
    using qos_two.get_pubrec by (simp add: lost_flow_def split: if_splits)
  show "?I out inn fw (Brec # bk) log got \<Longrightarrow> \<forall>m. out \<noteq> Some (Wait_pubrec, m) \<Longrightarrow> ?I out inn fw bk log got"
    using flow_get_pubrec(2) by (simp add: lost_flow_def split: if_splits)
  show "?I out inn fw (Bcomp # bk) log got \<Longrightarrow> (\<exists>m. out = Some (Wait_pubcomp, m)) \<and> ?I None inn fw bk log got"
    using flow_get_pubcomp by (simp add: lost_flow_def split: if_splits)
qed

lemma lost_steps:
  assumes "(link_step ia ib)\<^sup>*\<^sup>* l l'" "link_inv (lost_flow j m) ia ib l"
  shows "link_inv (lost_flow j m) ia ib l'"
  using assms by (induction rule: rtranclp_induct) (blast intro: lost.link_step_inv)+

text \<open>
  C38: a lost PUBCOMP is never made good. Take any state that the two clients can reach, in which the sender waits for the PUBCOMP
  of a message, the receiver has handed the message over, and no PUBCOMP is on its way. Whatever they do, and
  however often the sender sends PUBREL again, it waits for ever and the identifier stays in use: a PUBREL is sent again without the
  duplicate flag, and a PUBREL for an unknown identifier is answered only if that flag is set.
\<close>

theorem pubcomp_lost_for_ever:
  assumes "link_start ia ib l0" "(link_step ia ib)\<^sup>*\<^sup>* l0 l" "se_out (session ia (l_a l)) k = Some (Wait_pubcomp, m)"
    "se_in (session ib (l_b l)) k = None" "Bcomp \<notin> set (backs k (l_ba l))" "(link_step ia ib)\<^sup>*\<^sup>* l l'"
  shows "se_out (session ia (l_a l')) k = Some (Wait_pubcomp, m)"
proof -
  have inv: "link_inv (\<lambda>_. flow_inv) ia ib l"
    using link_steps_inv [OF assms(2) link_start_inv [OF assms(1)]] .
  have "set (backs k (l_ba l)) \<subseteq> {Brec}"
    using assms(5) bwd.exhaust by blast
  moreover have "set (fwds k (l_ab l)) \<subseteq> {Frel 0}"
    using qos_two.link_flow(1) [OF inv, of k] assms(3,4) by (simp add: flow_waiting)
  ultimately have "link_inv (lost_flow k m) ia ib l"
    using inv assms(3,4) unfolding link_inv_def lost_flow_def by auto
  from lost_steps [OF assms(6) this] have "lost_flow k m k (se_out (session ia (l_a l')) k) (se_in (session ib (l_b l')) k) (fwds k (l_ab l')) (backs k (l_ba l'))
      (of_id k (l_log l')) (of_id k (se_handed (session ib (l_b l'))))"
    by (rule lost.link_flow(1))
  then show ?thesis
    by (simp add: lost_flow_def)
qed

section \<open>A run\<close>

definition demo_peer :: proto where
  "demo_peer = demo_proto\<lparr>p_clients := ([demo_client\<lparr>c_inboundMsgs := ([], None), c_outboundMsgs := ([], None)\<rparr>], None), p_publications := ([], None),
     p_net := demo_net\<lparr>net_room := (\<lambda>_. [Room 99, Room 99])\<rparr>\<rparr>"

definition demo_link :: link where
  "demo_link = \<lparr>l_a = demo_peer, l_b = demo_peer, l_ab = [], l_ba = [], l_log = []\<rparr>"

datatype demo_op = Do_publish | Do_handle_a | Do_handle_b | Do_lose_ba

fun demo_step :: "demo_op \<Rightarrow> link \<Rightarrow> link option" where
  "demo_step Do_publish l = do {
     _ \<leftarrow> ensure (c_outboundMsgs (client_at 0 (l_a l)) = ([], None));
     (rc, a') \<leftarrow> MQTTProtocol_startPublish 0 demo_publish 2 0 None (l_a l);
     Some ((put_a 0 a' l)\<lparr>l_log := l_log l @ [sent_message demo_publish 2 0]\<rparr>)
   }"
| "demo_step Do_handle_a l = (case l_ba l of [] \<Rightarrow> None | pack # rest \<Rightarrow> do {
     (rc, a') \<leftarrow> handle_packet pack (socket_at 0 (l_a l)) (l_a l);
     Some (put_a 0 a' (l\<lparr>l_ba := rest\<rparr>))
   })"
| "demo_step Do_handle_b l = (case l_ab l of [] \<Rightarrow> None | pack # rest \<Rightarrow> do {
     (rc, b') \<leftarrow> handle_packet pack (socket_at 0 (l_b l)) (l_b l);
     Some (put_b 0 b' (l\<lparr>l_ab := rest\<rparr>))
   })"
| "demo_step Do_lose_ba l = (case l_ba l of [] \<Rightarrow> None | pack # rest \<Rightarrow> Some (l\<lparr>l_ba := rest\<rparr>))"

fun demo_steps :: "demo_op list \<Rightarrow> link \<Rightarrow> link option" where
  "demo_steps [] l = Some l"
| "demo_steps (x # xs) l = do { l' \<leftarrow> demo_step x l; demo_steps xs l' }"

lemma demo_publish_ok: "packet_ok (Publish_packet demo_publish)"
  by (simp add: demo_publish_def id_ok_def pub_bytes_def mem_read_def)

lemma demo_step_link:
  assumes "demo_step x l = Some l'"
  shows "link_step 0 0 l l'"
proof (cases x)
  case Do_publish
  then obtain rc a' where "c_outboundMsgs (client_at 0 (l_a l)) = ([], None)" "MQTTProtocol_startPublish 0 demo_publish 2 0 None (l_a l) = Some (rc, a')"
    "l' = (put_a 0 a' l)\<lparr>l_log := l_log l @ [sent_message demo_publish 2 0]\<rparr>"
    using assms by (auto simp: ensure_def split: bind_splits if_splits)
  then show ?thesis
    using link_step.publish_a [of 0 demo_publish 2 l 0 rc a' 0] demo_publish_ok by (simp add: can_publish_def used_ids_def)
next
  case Do_handle_a
  then show ?thesis
    using assms link_step.handle_a [of l _ _ 0] by (auto split: list.splits bind_splits)
next
  case Do_handle_b
  then show ?thesis
    using assms link_step.handle_b [of l _ _ 0] by (auto split: list.splits bind_splits)
next
  case Do_lose_ba
  then show ?thesis
    using assms link_step.lose_ba [of l "[]"] by (auto split: list.splits)
qed

lemma demo_steps_link: "demo_steps xs l = Some l' \<Longrightarrow> (link_step 0 0)\<^sup>*\<^sup>* l l'"
  by (induction xs arbitrary: l) (auto dest: demo_step_link intro: converse_rtranclp_into_rtranclp split: bind_splits)

lemma demo_start: "link_start 0 0 demo_link"
  by (simp add: link_start_def demo_link_def demo_peer_def demo_proto_def proto_inv_def demo_client_def demo_net_def w_inv_def client_ok_def
      msgs_ok_def slist_wf_def pubs_ok_def refs_def client_refs_def msg_refs_def clients_def client_at_def accepted_on_def)

lemma demo_lost:
  "map_option (\<lambda>l. (received_by 7 0 (l_b l), of_id 7 (l_log l), se_out (session 0 (l_a l)) 7, se_in (session 0 (l_b l)) 7, backs 7 (l_ba l)))
     (demo_steps [Do_publish, Do_handle_b, Do_handle_a, Do_handle_b, Do_lose_ba] demo_link) =
   Some ([sent_message demo_publish 2 0], [sent_message demo_publish 2 0], Some (Wait_pubcomp, sent_message demo_publish 2 0), None, [])"
  by code_simp

theorem qos2_exactly_once_witness:
  "\<exists>l. (link_step 0 0)\<^sup>*\<^sup>* demo_link l \<and> of_id 7 (l_log l) = [sent_message demo_publish 2 0] \<and>
     (received_by 7 0 (l_b l) = of_id 7 (l_log l) \<or>
      (\<exists>ph m. se_out (session 0 (l_a l)) 7 = Some (ph, m) \<and> ph \<noteq> Wait_puback \<and> of_id 7 (l_log l) = received_by 7 0 (l_b l) @ [m]))"
proof -
  obtain l where "demo_steps [Do_publish, Do_handle_b, Do_handle_a, Do_handle_b, Do_lose_ba] demo_link = Some l" "of_id 7 (l_log l) = [sent_message demo_publish 2 0]"
    using demo_lost by auto
  then show ?thesis
    using qos2_exactly_once [OF demo_start demo_steps_link, of "[Do_publish, Do_handle_b, Do_handle_a, Do_handle_b, Do_lose_ba]" l 7] demo_steps_link by blast
qed

theorem pubcomp_lost_for_ever_witness:
  "\<exists>l. (link_step 0 0)\<^sup>*\<^sup>* demo_link l \<and> received_by 7 0 (l_b l) = [sent_message demo_publish 2 0] \<and>
     (\<forall>l'. (link_step 0 0)\<^sup>*\<^sup>* l l' \<longrightarrow> se_out (session 0 (l_a l')) 7 = Some (Wait_pubcomp, sent_message demo_publish 2 0))"
proof -
  obtain l where l: "demo_steps [Do_publish, Do_handle_b, Do_handle_a, Do_handle_b, Do_lose_ba] demo_link = Some l" "received_by 7 0 (l_b l) = [sent_message demo_publish 2 0]"
    "se_out (session 0 (l_a l)) 7 = Some (Wait_pubcomp, sent_message demo_publish 2 0)" "se_in (session 0 (l_b l)) 7 = None" "backs 7 (l_ba l) = []"
    using demo_lost by auto
  then have "Bcomp \<notin> set (backs 7 (l_ba l))"
    by simp
  with l pubcomp_lost_for_ever [OF demo_start demo_steps_link [OF l(1)] l(3,4)] demo_steps_link [OF l(1)] show ?thesis
    by blast
qed

end
