(* ===== verification/Mqtt_Tree.thy ===== *)
theory Mqtt_Tree
  imports Siproxy_Prelude
begin

text \<open>
  The search trees of the MQTT client library, \<^verbatim>\<open>Tree.c\<close>: red-black trees of nodes linked by pointers to children and
  parent, with up to two indexes over the same contents. Nodes lie in a store; an operation that follows a NULL pointer or
  reaches a node that is not allocated has the result \<open>None\<close>. Allocation of nodes succeeds, and
  counts and sizes do not exceed the C type \<open>int\<close>.

  LEFT is \<open>False\<close> and RIGHT is \<open>True\<close>, so the negation of a direction is written as in the code.
\<close>

section \<open>State\<close>

abbreviation LEFT :: bool where
  "LEFT \<equiv> False"

abbreviation RIGHT :: bool where
  "RIGHT \<equiv> True"

record 'c Node =
  n_parent :: "nat option"
  n_child :: "bool \<Rightarrow> nat option"
  n_content :: "'c option"
  n_size :: int
  n_red :: bool

text \<open>
  What is passed as the second argument of a comparison: a key when the third argument is 0, and a content when it is 1.
\<close>

datatype ('k, 'c) arg = Key 'k | Content 'c

type_synonym ('k, 'c) compare = "'c \<Rightarrow> ('k, 'c) arg \<Rightarrow> int"

record ('k, 'c) Tree =
  t_nodes :: "nat \<Rightarrow> 'c Node option"
  t_next :: nat
  t_root :: "nat \<Rightarrow> nat option"
  t_compare :: "nat \<Rightarrow> ('k, 'c) compare option"
  t_indexes :: nat
  t_count :: int
  t_size :: int
  t_heap_tracking :: bool
  t_allow_duplicates :: bool

definition TreeInitializeNoMalloc :: "('k, 'c) compare \<Rightarrow> ('k, 'c) Tree" where
  "TreeInitializeNoMalloc compare = \<lparr>t_nodes = Map.empty, t_next = 0, t_root = (\<lambda>_. None), t_compare = (\<lambda>_. None)(0 := Some compare),
     t_indexes = 1, t_count = 0, t_size = 0, t_heap_tracking = True, t_allow_duplicates = False\<rparr>"

definition TreeAddIndex :: "('k, 'c) compare \<Rightarrow> ('k, 'c) Tree \<Rightarrow> ('k, 'c) Tree option" where
  "TreeAddIndex compare t = do {
     _ \<leftarrow> ensure (t_indexes t < 2);
     Some (t\<lparr>t_compare := (t_compare t)(t_indexes t := Some compare), t_indexes := t_indexes t + 1\<rparr>)
   }"

section \<open>Access to nodes\<close>

definition node :: "('k, 'c) Tree \<Rightarrow> nat option \<Rightarrow> 'c Node option" where
  "node t p = Option.bind p (t_nodes t)"

definition update_node :: "nat \<Rightarrow> ('c Node \<Rightarrow> 'c Node) \<Rightarrow> ('k, 'c) Tree \<Rightarrow> ('k, 'c) Tree option" where
  "update_node a f t = do { n \<leftarrow> t_nodes t a; Some (t\<lparr>t_nodes := (t_nodes t)(a \<mapsto> f n)\<rparr>) }"

definition set_parent :: "nat \<Rightarrow> nat option \<Rightarrow> ('k, 'c) Tree \<Rightarrow> ('k, 'c) Tree option" where
  "set_parent a p = update_node a (\<lambda>n. n\<lparr>n_parent := p\<rparr>)"

definition set_child :: "nat \<Rightarrow> bool \<Rightarrow> nat option \<Rightarrow> ('k, 'c) Tree \<Rightarrow> ('k, 'c) Tree option" where
  "set_child a d p = update_node a (\<lambda>n. n\<lparr>n_child := (n_child n)(d := p)\<rparr>)"

definition set_red :: "nat \<Rightarrow> bool \<Rightarrow> ('k, 'c) Tree \<Rightarrow> ('k, 'c) Tree option" where
  "set_red a r = update_node a (\<lambda>n. n\<lparr>n_red := r\<rparr>)"

definition set_root :: "nat \<Rightarrow> nat option \<Rightarrow> ('k, 'c) Tree \<Rightarrow> ('k, 'c) Tree" where
  "set_root index p t = t\<lparr>t_root := (t_root t)(index := p)\<rparr>"

definition parent_of :: "('k, 'c) Tree \<Rightarrow> nat \<Rightarrow> nat option" where
  "parent_of t a = do { n \<leftarrow> t_nodes t a; n_parent n }"

definition isRed :: "('k, 'c) Tree \<Rightarrow> nat option \<Rightarrow> bool option" where
  "isRed t p = (case p of None \<Rightarrow> Some False | Some a \<Rightarrow> do { n \<leftarrow> t_nodes t a; Some (n_red n) })"

definition isBlack :: "('k, 'c) Tree \<Rightarrow> nat option \<Rightarrow> bool option" where
  "isBlack t p = (case p of None \<Rightarrow> Some True | Some a \<Rightarrow> do { n \<leftarrow> t_nodes t a; Some (\<not> n_red n) })"

section \<open>Depth\<close>

partial_function (option) TreeWalk :: "('k, 'c) Tree \<Rightarrow> nat option \<Rightarrow> int \<Rightarrow> int option" where
  "TreeWalk t curnode depth =
     (case curnode of
        None \<Rightarrow> Some depth
      | Some a \<Rightarrow> do {
          n \<leftarrow> t_nodes t a;
          left \<leftarrow> TreeWalk t (n_child n LEFT) (depth + 1);
          right \<leftarrow> TreeWalk t (n_child n RIGHT) (depth + 1);
          Some (if left > right then left else right)
        })"

declare TreeWalk.simps [code]

definition TreeMaxDepth :: "('k, 'c) Tree \<Rightarrow> int option" where
  "TreeMaxDepth t = TreeWalk t (t_root t 0) 0"

section \<open>Insertion\<close>

definition TreeRotate :: "nat \<Rightarrow> bool \<Rightarrow> nat \<Rightarrow> ('k, 'c) Tree \<Rightarrow> ('k, 'c) Tree option" where
  "TreeRotate curnode direction index t = do {
     cur \<leftarrow> t_nodes t curnode;
     other \<leftarrow> n_child cur (\<not> direction);
     oth \<leftarrow> t_nodes t other;
     t1 \<leftarrow> set_child curnode (\<not> direction) (n_child oth direction) t;
     t2 \<leftarrow> (case n_child oth direction of None \<Rightarrow> Some t1 | Some c \<Rightarrow> set_parent c (Some curnode) t1);
     t3 \<leftarrow> set_parent other (n_parent cur) t2;
     t4 \<leftarrow> (case n_parent cur of
         None \<Rightarrow> Some (set_root index (Some other) t3)
       | Some p \<Rightarrow> do {
           pn \<leftarrow> t_nodes t3 p;
           if n_child pn direction = Some curnode then set_child p direction (Some other) t3
           else set_child p (\<not> direction) (Some other) t3
         });
     t5 \<leftarrow> set_child other direction (Some curnode) t4;
     set_parent curnode (Some other) t5
   }"

definition TreeBAASub :: "nat \<Rightarrow> bool \<Rightarrow> nat \<Rightarrow> ('k, 'c) Tree \<Rightarrow> (nat \<times> ('k, 'c) Tree) option" where
  "TreeBAASub curnode which index t = do {
     parent \<leftarrow> parent_of t curnode;
     grand \<leftarrow> parent_of t parent;
     gn \<leftarrow> t_nodes t grand;
     let uncle = n_child gn which;
     r \<leftarrow> isRed t uncle;
     if r then do {
       u \<leftarrow> uncle;
       t1 \<leftarrow> set_red u False t;
       t2 \<leftarrow> set_red parent False t1;
       t3 \<leftarrow> set_red grand True t2;
       Some (grand, t3)
     }
     else do {
       pn \<leftarrow> t_nodes t parent;
       (cur, t1) \<leftarrow> (if n_child pn which = Some curnode
           then do { t' \<leftarrow> TreeRotate parent (\<not> which) index t; Some (parent, t') }
           else Some (curnode, t));
       p \<leftarrow> parent_of t1 cur;
       t2 \<leftarrow> set_red p False t1;
       g \<leftarrow> parent_of t2 p;
       t3 \<leftarrow> set_red g True t2;
       t4 \<leftarrow> TreeRotate g which index t3;
       Some (cur, t4)
     }
   }"

partial_function (option) TreeBalanceAfterAdd_loop :: "nat \<Rightarrow> nat \<Rightarrow> ('k, 'c) Tree \<Rightarrow> ('k, 'c) Tree option" where
  "TreeBalanceAfterAdd_loop curnode index t = do {
     n \<leftarrow> t_nodes t curnode;
     r \<leftarrow> isRed t (n_parent n);
     case (if r then Option.bind (n_parent n) (parent_of t) else None) of
       None \<Rightarrow> Some t
     | Some grand \<Rightarrow> do {
         gn \<leftarrow> t_nodes t grand;
         (cur, t') \<leftarrow> TreeBAASub curnode (if n_parent n = n_child gn LEFT then RIGHT else LEFT) index t;
         TreeBalanceAfterAdd_loop cur index t'
       }
   }"

declare TreeBalanceAfterAdd_loop.simps [code]

definition TreeBalanceAfterAdd :: "nat \<Rightarrow> nat \<Rightarrow> ('k, 'c) Tree \<Rightarrow> ('k, 'c) Tree option" where
  "TreeBalanceAfterAdd curnode index t = do {
     t1 \<leftarrow> TreeBalanceAfterAdd_loop curnode index t;
     root \<leftarrow> t_root t1 index;
     set_red root False t1
   }"

text \<open>
  The search of \<open>TreeAddByIndex\<close>: the last node with the direction taken, and the node with an equal content.
  A node whose content pointer is NULL is not compared.
\<close>

partial_function (option) TreeAdd_search ::
  "('k, 'c) compare \<Rightarrow> 'c \<Rightarrow> ('k, 'c) Tree \<Rightarrow> (nat \<times> bool) option \<Rightarrow> nat option \<Rightarrow> ((nat \<times> bool) option \<times> nat option) option" where
  "TreeAdd_search compare content t curparent curnode =
     (case curnode of
        None \<Rightarrow> Some (curparent, None)
      | Some a \<Rightarrow> do {
          n \<leftarrow> t_nodes t a;
          c \<leftarrow> n_content n;
          let result = compare c (Content content);
          let left = (result > 0);
          if result = 0 then Some (curparent, curnode)
          else TreeAdd_search compare content t (Some (a, left)) (n_child n left)
        })"

declare TreeAdd_search.simps [code]

text \<open>
  A tree that allows duplicates ends the program when a content is added twice; this is \<open>None\<close> as well, since it does not return.
\<close>

definition TreeAddByIndex :: "'c \<Rightarrow> int \<Rightarrow> nat \<Rightarrow> ('k, 'c) Tree \<Rightarrow> ('c option \<times> ('k, 'c) Tree) option" where
  "TreeAddByIndex content sz index t = do {
     compare \<leftarrow> t_compare t index;
     (curparent, curnode) \<leftarrow> TreeAdd_search compare content t None (t_root t index);
     (rc, newel, t1) \<leftarrow> (case curnode of
         Some a \<Rightarrow> do {
           _ \<leftarrow> ensure (\<not> t_allow_duplicates t);
           n \<leftarrow> t_nodes t a;
           Some (n_content n, a, if index = 0 then t\<lparr>t_size := t_size t + (sz - n_size n)\<rparr> else t)
         }
       | None \<Rightarrow> do {
           let newel = t_next t;
           let t' = t\<lparr>t_next := Suc newel, t_nodes := (t_nodes t)(newel \<mapsto>
             \<lparr>n_parent = None, n_child = (\<lambda>_. None), n_content = None, n_size = 0, n_red = False\<rparr>)\<rparr>;
           t'' \<leftarrow> (case curparent of
               Some (p, left) \<Rightarrow> set_child p left (Some newel) t'
             | None \<Rightarrow> Some (set_root index (Some newel) t'));
           t3 \<leftarrow> update_node newel (\<lambda>n. n\<lparr>n_parent := map_option fst curparent, n_red := True\<rparr>) t'';
           Some (None, newel, if index = 0 then t3\<lparr>t_count := t_count t3 + 1, t_size := t_size t3 + sz\<rparr> else t3)
         });
     t2 \<leftarrow> update_node newel (\<lambda>n. n\<lparr>n_content := Some content, n_size := sz\<rparr>) t1;
     t3 \<leftarrow> TreeBalanceAfterAdd newel index t2;
     Some (rc, t3)
   }"

fun TreeAdd_loop :: "nat list \<Rightarrow> 'c \<Rightarrow> int \<Rightarrow> 'c option \<Rightarrow> ('k, 'c) Tree \<Rightarrow> ('c option \<times> ('k, 'c) Tree) option" where
  "TreeAdd_loop [] content sz rc t = Some (rc, t)"
| "TreeAdd_loop (i # is) content sz rc t = do {
     (rc', t') \<leftarrow> TreeAddByIndex content sz i t;
     TreeAdd_loop is content sz rc' t'
   }"

definition TreeAdd :: "'c \<Rightarrow> int \<Rightarrow> ('k, 'c) Tree \<Rightarrow> ('c option \<times> ('k, 'c) Tree) option" where
  "TreeAdd content sz t = TreeAdd_loop [0..<t_indexes t] content sz None t"

section \<open>Search and traversal\<close>

partial_function (option) TreeFind_loop :: "('k, 'c) compare \<Rightarrow> ('k, 'c) arg \<Rightarrow> ('k, 'c) Tree \<Rightarrow> nat option \<Rightarrow> nat option option" where
  "TreeFind_loop compare key t curnode =
     (case curnode of
        None \<Rightarrow> Some None
      | Some a \<Rightarrow> do {
          n \<leftarrow> t_nodes t a;
          c \<leftarrow> n_content n;
          let result = compare c key;
          if result = 0 then Some (Some a) else TreeFind_loop compare key t (n_child n (result > 0))
        })"

declare TreeFind_loop.simps [code]

definition TreeFindIndex1 :: "('k, 'c) arg \<Rightarrow> nat \<Rightarrow> ('k, 'c) Tree \<Rightarrow> nat option option" where
  "TreeFindIndex1 key index t =
     (if t_root t index = None then Some None
      else do { compare \<leftarrow> t_compare t index; TreeFind_loop compare key t (t_root t index) })"

definition TreeFindIndex :: "'k \<Rightarrow> nat \<Rightarrow> ('k, 'c) Tree \<Rightarrow> nat option option" where
  "TreeFindIndex key = TreeFindIndex1 (Key key)"

definition TreeFindContentIndex :: "'c \<Rightarrow> nat \<Rightarrow> ('k, 'c) Tree \<Rightarrow> nat option option" where
  "TreeFindContentIndex content = TreeFindIndex1 (Content content)"

definition TreeFind :: "'k \<Rightarrow> ('k, 'c) Tree \<Rightarrow> nat option option" where
  "TreeFind key = TreeFindIndex key 0"

partial_function (option) TreeMinimum_loop :: "('k, 'c) Tree \<Rightarrow> nat \<Rightarrow> nat option" where
  "TreeMinimum_loop t curnode = do {
     n \<leftarrow> t_nodes t curnode;
     case n_child n LEFT of None \<Rightarrow> Some curnode | Some l \<Rightarrow> TreeMinimum_loop t l
   }"

declare TreeMinimum_loop.simps [code]

definition TreeMinimum :: "nat option \<Rightarrow> ('k, 'c) Tree \<Rightarrow> nat option option" where
  "TreeMinimum curnode t = (case curnode of None \<Rightarrow> Some None | Some a \<Rightarrow> map_option Some (TreeMinimum_loop t a))"

partial_function (option) TreeSuccessor_loop :: "('k, 'c) Tree \<Rightarrow> nat \<Rightarrow> nat option \<Rightarrow> nat option option" where
  "TreeSuccessor_loop t curnode curparent =
     (case curparent of
        None \<Rightarrow> Some None
      | Some p \<Rightarrow> do {
          pn \<leftarrow> t_nodes t p;
          if n_child pn RIGHT = Some curnode then TreeSuccessor_loop t p (n_parent pn) else Some curparent
        })"

declare TreeSuccessor_loop.simps [code]

definition TreeSuccessor :: "nat \<Rightarrow> ('k, 'c) Tree \<Rightarrow> nat option option" where
  "TreeSuccessor curnode t = do {
     n \<leftarrow> t_nodes t curnode;
     if n_child n RIGHT \<noteq> None then TreeMinimum (n_child n RIGHT) t
     else TreeSuccessor_loop t curnode (n_parent n)
   }"

definition TreeNextElementIndex :: "nat option \<Rightarrow> nat \<Rightarrow> ('k, 'c) Tree \<Rightarrow> nat option option" where
  "TreeNextElementIndex curnode index t =
     (case curnode of None \<Rightarrow> TreeMinimum (t_root t index) t | Some a \<Rightarrow> TreeSuccessor a t)"

definition TreeNextElement :: "nat option \<Rightarrow> ('k, 'c) Tree \<Rightarrow> nat option option" where
  "TreeNextElement curnode t = TreeNextElementIndex curnode 0 t"

section \<open>Removal\<close>

text \<open>\<open>TreeBARSub_rest\<close> is what follows the first \<open>if\<close> of \<open>TreeBARSub\<close>, after which the sibling should be black.\<close>

definition TreeBARSub_rest :: "nat \<Rightarrow> bool \<Rightarrow> nat \<Rightarrow> nat option \<Rightarrow> ('k, 'c) Tree \<Rightarrow> (nat \<times> ('k, 'c) Tree) option" where
  "TreeBARSub_rest curnode which index sibling t = do {
     parent \<leftarrow> parent_of t curnode;
     case sibling of
       None \<Rightarrow> Some (parent, t)
     | Some s \<Rightarrow> do {
         sn \<leftarrow> t_nodes t s;
         inner \<leftarrow> isBlack t (n_child sn (\<not> which));
         outer \<leftarrow> isBlack t (n_child sn which);
         if inner \<and> outer then do { t1 \<leftarrow> set_red s True t; Some (parent, t1) }
         else do {
           (s', t3) \<leftarrow> (if outer then do {
                 c \<leftarrow> n_child sn (\<not> which);
                 t1 \<leftarrow> set_red c False t;
                 t2 \<leftarrow> set_red s True t1;
                 t3 \<leftarrow> TreeRotate s which index t2;
                 p \<leftarrow> parent_of t3 curnode;
                 pn \<leftarrow> t_nodes t3 p;
                 s' \<leftarrow> n_child pn which;
                 Some (s', t3)
               }
               else Some (s, t));
           p \<leftarrow> parent_of t3 curnode;
           pn \<leftarrow> t_nodes t3 p;
           t4 \<leftarrow> set_red s' (n_red pn) t3;
           t5 \<leftarrow> set_red p False t4;
           sn' \<leftarrow> t_nodes t5 s';
           c \<leftarrow> n_child sn' which;
           t6 \<leftarrow> set_red c False t5;
           t7 \<leftarrow> TreeRotate p (\<not> which) index t6;
           root \<leftarrow> t_root t7 index;
           Some (root, t7)
         }
       }
   }"

definition TreeBARSub :: "nat \<Rightarrow> bool \<Rightarrow> nat \<Rightarrow> ('k, 'c) Tree \<Rightarrow> (nat \<times> ('k, 'c) Tree) option" where
  "TreeBARSub curnode which index t = do {
     parent \<leftarrow> parent_of t curnode;
     pn \<leftarrow> t_nodes t parent;
     r \<leftarrow> isRed t (n_child pn which);
     if r then do {
       s \<leftarrow> n_child pn which;
       t1 \<leftarrow> set_red s False t;
       t2 \<leftarrow> set_red parent True t1;
       t3 \<leftarrow> TreeRotate parent (\<not> which) index t2;
       p \<leftarrow> parent_of t3 curnode;
       pn' \<leftarrow> t_nodes t3 p;
       TreeBARSub_rest curnode which index (n_child pn' which) t3
     }
     else TreeBARSub_rest curnode which index (n_child pn which) t
   }"

partial_function (option) TreeBalanceAfterRemove_loop :: "nat \<Rightarrow> nat \<Rightarrow> ('k, 'c) Tree \<Rightarrow> (nat \<times> ('k, 'c) Tree) option" where
  "TreeBalanceAfterRemove_loop curnode index t = do {
     black \<leftarrow> isBlack t (Some curnode);
     if Some curnode \<noteq> t_root t index \<and> black then do {
       n \<leftarrow> t_nodes t curnode;
       p \<leftarrow> n_parent n;
       pn \<leftarrow> t_nodes t p;
       (cur, t') \<leftarrow> TreeBARSub curnode (if (if n_content n = None then None else Some curnode) = n_child pn LEFT then RIGHT else LEFT) index t;
       TreeBalanceAfterRemove_loop cur index t'
     }
     else Some (curnode, t)
   }"

declare TreeBalanceAfterRemove_loop.simps [code]

definition TreeBalanceAfterRemove :: "nat \<Rightarrow> nat \<Rightarrow> ('k, 'c) Tree \<Rightarrow> ('k, 'c) Tree option" where
  "TreeBalanceAfterRemove curnode index t = do {
     (cur, t1) \<leftarrow> TreeBalanceAfterRemove_loop curnode index t;
     set_red cur False t1
   }"

text \<open>
  The node \<open>temp\<close> on the stack takes a fresh address of the store while the tree is balanced.
\<close>

definition balance_with_temp :: "nat option \<Rightarrow> nat \<Rightarrow> ('k, 'c) Tree \<Rightarrow> ('k, 'c) Tree option" where
  "balance_with_temp p index t = do {
     let temp = t_next t;
     t1 \<leftarrow> TreeBalanceAfterRemove temp index (t\<lparr>t_nodes := (t_nodes t)(temp \<mapsto>
       \<lparr>n_parent = p, n_child = (\<lambda>_. None), n_content = None, n_size = 0, n_red = False\<rparr>)\<rparr>);
     Some (t1\<lparr>t_nodes := (t_nodes t1)(temp := None)\<rparr>)
   }"

text \<open>
  \<open>TreeRemoveNodeIndex\<close> in three parts: the child of the redundant node takes its place, the content moves, and the tree is
  balanced.
\<close>

definition unlink_redundant :: "nat \<Rightarrow> 'c Node \<Rightarrow> nat option \<Rightarrow> nat \<Rightarrow> ('k, 'c) Tree \<Rightarrow> ('k, 'c) Tree option" where
  "unlink_redundant redundant rn curchild index t = do {
     t1 \<leftarrow> (case curchild of None \<Rightarrow> Some t | Some c \<Rightarrow> set_parent c (n_parent rn) t);
     case n_parent rn of
       None \<Rightarrow> Some (set_root index curchild t1)
     | Some p \<Rightarrow> do {
         pn \<leftarrow> t_nodes t1 p;
         set_child p (if n_child pn LEFT = Some redundant then LEFT else RIGHT) curchild t1
       }
   }"

definition balance_removed :: "nat \<Rightarrow> 'c Node \<Rightarrow> nat option \<Rightarrow> nat \<Rightarrow> ('k, 'c) Tree \<Rightarrow> ('k, 'c) Tree option" where
  "balance_removed redundant rn curchild index t = do {
     black \<leftarrow> isBlack t (Some redundant);
     if black
     then case curchild of
         None \<Rightarrow> if n_parent rn \<noteq> None then balance_with_temp (n_parent rn) index t else Some t
       | Some c \<Rightarrow> TreeBalanceAfterRemove c index t
     else Some t
   }"

definition TreeRemoveNodeIndex :: "nat \<Rightarrow> nat \<Rightarrow> ('k, 'c) Tree \<Rightarrow> ('c option \<times> ('k, 'c) Tree) option" where
  "TreeRemoveNodeIndex curnode index t = do {
     cn \<leftarrow> t_nodes t curnode;
     redundant \<leftarrow> (if n_child cn LEFT \<noteq> None \<and> n_child cn RIGHT \<noteq> None
         then do { s \<leftarrow> TreeSuccessor curnode t; s } else Some curnode);
     rn \<leftarrow> t_nodes t redundant;
     let curchild = n_child rn (if n_child rn LEFT \<noteq> None then LEFT else RIGHT);
     t1 \<leftarrow> unlink_redundant redundant rn curchild index t;
     t2 \<leftarrow> (if redundant \<noteq> curnode
         then update_node curnode (\<lambda>n. n\<lparr>n_content := n_content rn, n_size := n_size rn\<rparr>) t1 else Some t1);
     t3 \<leftarrow> balance_removed redundant rn curchild index t2;
     let t4 = t3\<lparr>t_nodes := (t_nodes t3)(redundant := None)\<rparr>;
     Some (n_content cn, if index = 0 then t4\<lparr>t_size := t_size t4 - n_size cn, t_count := t_count t4 - 1\<rparr> else t4)
   }"

definition TreeRemoveIndex :: "'c \<Rightarrow> nat \<Rightarrow> ('k, 'c) Tree \<Rightarrow> ('c option \<times> ('k, 'c) Tree) option" where
  "TreeRemoveIndex content index t = do {
     curnode \<leftarrow> TreeFindContentIndex content index t;
     case curnode of None \<Rightarrow> Some (None, t) | Some a \<Rightarrow> TreeRemoveNodeIndex a index t
   }"

fun TreeRemove_loop :: "nat list \<Rightarrow> 'c \<Rightarrow> 'c option \<Rightarrow> ('k, 'c) Tree \<Rightarrow> ('c option \<times> ('k, 'c) Tree) option" where
  "TreeRemove_loop [] content rc t = Some (rc, t)"
| "TreeRemove_loop (i # is) content rc t = do {
     (rc', t') \<leftarrow> TreeRemoveIndex content i t;
     TreeRemove_loop is content rc' t'
   }"

definition TreeRemove :: "'c \<Rightarrow> ('k, 'c) Tree \<Rightarrow> ('c option \<times> ('k, 'c) Tree) option" where
  "TreeRemove content t = TreeRemove_loop [0..<t_indexes t] content None t"

text \<open>
  The loop of \<open>TreeRemoveKeyIndex\<close> passes on what the last removal returned; a NULL pointer is not compared, because there
  is a comparison only in a tree with nodes.
\<close>

fun TreeRemoveKey_loop :: "nat list \<Rightarrow> 'c option \<Rightarrow> ('k, 'c) Tree \<Rightarrow> ('c option \<times> ('k, 'c) Tree) option" where
  "TreeRemoveKey_loop [] content t = Some (content, t)"
| "TreeRemoveKey_loop (i # is) content t = do {
     (content', t') \<leftarrow> (case content of
         Some c \<Rightarrow> TreeRemoveIndex c i t
       | None \<Rightarrow> if t_root t i = None then Some (None, t) else None);
     TreeRemoveKey_loop is content' t'
   }"

definition TreeRemoveKeyIndex :: "'k \<Rightarrow> nat \<Rightarrow> ('k, 'c) Tree \<Rightarrow> ('c option \<times> ('k, 'c) Tree) option" where
  "TreeRemoveKeyIndex key index t = do {
     curnode \<leftarrow> TreeFindIndex key index t;
     case curnode of
       None \<Rightarrow> Some (None, t)
     | Some a \<Rightarrow> do {
         (content, t1) \<leftarrow> TreeRemoveNodeIndex a index t;
         TreeRemoveKey_loop (filter (\<lambda>i. i \<noteq> index) [0..<t_indexes t]) content t1
       }
   }"

definition TreeRemoveKey :: "'k \<Rightarrow> ('k, 'c) Tree \<Rightarrow> ('c option \<times> ('k, 'c) Tree) option" where
  "TreeRemoveKey key = TreeRemoveKeyIndex key 0"

section \<open>Comparisons\<close>

fun arg_value :: "('a, 'a) arg \<Rightarrow> 'a" where
  "arg_value (Key k) = k"
| "arg_value (Content c) = c"

definition TreeIntCompare :: "(int, int) compare" where
  "TreeIntCompare i b = (let j = arg_value b in if i > j then - 1 else if i = j then 0 else 1)"

definition TreePtrCompare :: "(nat, nat) compare" where
  "TreePtrCompare a b = (let b = arg_value b in if a > b then - 1 else if a = b then 0 else 1)"

text \<open>\<open>strcmp\<close> on strings without their terminating 0: the sign of the first difference.\<close>

fun strcmp :: "byte list \<Rightarrow> byte list \<Rightarrow> int" where
  "strcmp [] [] = 0"
| "strcmp [] (b # bs) = - 1"
| "strcmp (a # as) [] = 1"
| "strcmp (a # as) (b # bs) = (if a = b then strcmp as bs else if a < b then - 1 else 1)"

definition TreeStringCompare :: "(byte list, byte list) compare" where
  "TreeStringCompare a b = strcmp a (arg_value b)"

end
