(* ===== verification/Mqtt_Tree_Shape.thy ===== *)
theory Mqtt_Tree_Shape
  imports Mqtt_Tree
begin

text \<open>
  The nodes of a search tree, \<^verbatim>\<open>Tree.c\<close>, as a value: \<open>rep\<close> relates the store to a tree of entries, and a context describes what
  surrounds a node, from its parent up to the root. Each operation on pointers is shown to compute its
  counterpart on these values and to leave all other nodes alone.
\<close>

section \<open>Trees and contexts\<close>

text \<open>An entry has the address, the content and the size of a node.\<close>

type_synonym 'c entry = "nat \<times> 'c \<times> int"

datatype 'c shape = Lf | Nd bool "'c shape" "'c entry" "'c shape"

text \<open>A frame: the side on which the hole is, the parent's colour and entry, and the sibling.\<close>

datatype 'c frame = Fr bool bool "'c entry" "'c shape"

text \<open>The node whose child on side \<open>d\<close> is \<open>x\<close> and whose other child is \<open>y\<close>.\<close>

definition nd :: "bool \<Rightarrow> bool \<Rightarrow> 'c entry \<Rightarrow> 'c shape \<Rightarrow> 'c shape \<Rightarrow> 'c shape" where
  "nd d r e x y = (if d = LEFT then Nd r x e y else Nd r y e x)"

fun root_of :: "'c shape \<Rightarrow> nat option" where
  "root_of Lf = None"
| "root_of (Nd r x e y) = Some (fst e)"

fun is_red :: "'c shape \<Rightarrow> bool" where
  "is_red Lf = False"
| "is_red (Nd r x e y) = r"

fun paint :: "bool \<Rightarrow> 'c shape \<Rightarrow> 'c shape" where
  "paint b Lf = Lf"
| "paint b (Nd r x e y) = Nd b x e y"

fun entries :: "'c shape \<Rightarrow> 'c entry list" where
  "entries Lf = []"
| "entries (Nd r x e y) = entries x @ e # entries y"

fun plug :: "'c shape \<Rightarrow> 'c frame list \<Rightarrow> 'c shape" where
  "plug t [] = t"
| "plug t (Fr d r e s # k) = plug (nd d r e t s) k"

fun parent_in :: "'c frame list \<Rightarrow> nat option" where
  "parent_in [] = None"
| "parent_in (Fr d r e s # k) = Some (fst e)"

fun root_with :: "nat option \<Rightarrow> 'c frame list \<Rightarrow> nat option" where
  "root_with p [] = p"
| "root_with p (Fr d r e s # k) = root_with (Some (fst e)) k"

definition addrs :: "'c shape \<Rightarrow> nat set" where
  "addrs t = fst ` set (entries t)"

fun before :: "'c frame list \<Rightarrow> 'c entry list" where
  "before [] = []"
| "before (Fr d r e s # k) = before k @ (if d = LEFT then [] else entries s @ [e])"

fun after :: "'c frame list \<Rightarrow> 'c entry list" where
  "after [] = []"
| "after (Fr d r e s # k) = (if d = LEFT then e # entries s else []) @ after k"

lemma nd_simps [simp]:
  "root_of (nd d r e x y) = Some (fst e)" "is_red (nd d r e x y) = r" "paint b (nd d r e x y) = nd d b e x y"
  "nd d r e x y \<noteq> Lf" "Lf \<noteq> nd d r e x y"
  by (simp_all add: nd_def)

lemma entries_nd: "entries (nd d r e x y) = (if d = LEFT then entries x @ e # entries y else entries y @ e # entries x)"
  by (simp add: nd_def)

lemma nd_swap: "nd (\<not> d) r e x y = nd d r e y x"
  by (auto simp: nd_def)

lemma nd_cases: "t \<noteq> Lf \<Longrightarrow> \<exists>r e x y. t = nd d r e x y"
  by (cases t; cases d) (auto simp: nd_def)

lemma root_of_paint [simp]: "root_of (paint b t) = root_of t" and entries_paint [simp]: "entries (paint b t) = entries t"
  and paint_Lf [simp]: "paint b t = Lf \<longleftrightarrow> t = Lf" and is_red_paint: "is_red (paint b t) \<longleftrightarrow> b \<and> t \<noteq> Lf"
  by (cases t; simp)+

lemma root_of_None [simp]: "root_of t = None \<longleftrightarrow> t = Lf"
  by (cases t) auto

lemma addrs_simps [simp]: "addrs Lf = {}" "addrs (Nd r x e y) = insert (fst e) (addrs x \<union> addrs y)" "addrs (paint b t) = addrs t"
  by (auto simp: addrs_def)

lemma root_of_addrs: "root_of t = Some a \<Longrightarrow> a \<in> addrs t"
  by (cases t) auto

lemma entries_plug: "entries (plug t k) = before k @ entries t @ after k"
  by (induction t k rule: plug.induct) (auto simp: entries_nd)

lemma root_of_plug [simp]: "root_of (plug t k) = root_with (root_of t) k"
  by (induction t k rule: plug.induct) auto

lemma plug_append: "plug t (k @ k') = plug (plug t k) k'"
  by (induction t k rule: plug.induct) auto

section \<open>The store\<close>

definition kids :: "bool \<Rightarrow> nat option \<Rightarrow> nat option \<Rightarrow> bool \<Rightarrow> nat option" where
  "kids d p q = (\<lambda>x. if x = d then p else q)"

lemma kids_simps [simp]: "kids d p q d = p" "kids d p q (\<not> d) = q" "(kids d p q)(d := z) = kids d z q" "(kids d p q)((\<not> d) := z) = kids d p z"
  "kids (\<not> d) p q d = q" "(kids (\<not> d) p q)(d := z) = kids (\<not> d) p z"
  by (auto simp: kids_def fun_eq_iff)

lemma kids_swap: "kids (\<not> d) p q = kids d q p"
  by (auto simp: kids_def fun_eq_iff)

definition cell :: "nat option \<Rightarrow> bool \<Rightarrow> 'c entry \<Rightarrow> (bool \<Rightarrow> nat option) \<Rightarrow> 'c Node" where
  "cell p r e f = \<lparr>n_parent = p, n_child = f, n_content = Some (fst (snd e)), n_size = snd (snd e), n_red = r\<rparr>"

lemma cell_simps [simp]:
  "n_parent (cell p r e f) = p" "n_child (cell p r e f) = f" "n_content (cell p r e f) = Some (fst (snd e))"
  "n_size (cell p r e f) = snd (snd e)" "n_red (cell p r e f) = r"
  "(cell p r e f)\<lparr>n_parent := q\<rparr> = cell q r e f" "(cell p r e f)\<lparr>n_child := g\<rparr> = cell p r e g" "(cell p r e f)\<lparr>n_red := b\<rparr> = cell p b e f"
  by (simp_all add: cell_def)

fun rep :: "(nat \<Rightarrow> 'c Node option) \<Rightarrow> nat option \<Rightarrow> 'c shape \<Rightarrow> bool" where
  "rep h p Lf = True"
| "rep h p (Nd r x e y) \<longleftrightarrow> h (fst e) = Some (cell p r e (kids LEFT (root_of x) (root_of y))) \<and>
     rep h (Some (fst e)) x \<and> rep h (Some (fst e)) y"

fun rep_ctx :: "(nat \<Rightarrow> 'c Node option) \<Rightarrow> nat option \<Rightarrow> 'c frame list \<Rightarrow> bool" where
  "rep_ctx h p [] = True"
| "rep_ctx h p (Fr d r e s # k) \<longleftrightarrow> h (fst e) = Some (cell (parent_in k) r e (kids d p (root_of s))) \<and>
     rep h (Some (fst e)) s \<and> rep_ctx h (Some (fst e)) k"

lemma rep_nd: "rep h p (nd d r e x y) \<longleftrightarrow> h (fst e) = Some (cell p r e (kids d (root_of x) (root_of y))) \<and>
    rep h (Some (fst e)) x \<and> rep h (Some (fst e)) y"
  by (cases d) (auto simp: nd_def kids_swap [of False, simplified])

lemma rep_plug: "rep h None (plug t k) \<longleftrightarrow> rep h (parent_in k) t \<and> rep_ctx h (root_of t) k"
  by (induction t k rule: plug.induct) (auto simp: rep_nd)

text \<open>Writing a node outside a tree changes nothing in it; the parent pointer of its root may change.\<close>

lemma rep_cong: "(\<And>a. a \<in> addrs t \<Longrightarrow> h a = h' a) \<Longrightarrow> rep h p t = rep h' p t"
  by (induction t arbitrary: p) auto

lemma rep_outside: "a \<notin> addrs t \<Longrightarrow> rep (h(a := v)) p t = rep h p t"
  by (intro rep_cong) auto

definition ctx_addrs :: "'c frame list \<Rightarrow> nat set" where
  "ctx_addrs k = fst ` (set (before k) \<union> set (after k))"

lemma ctx_addrs_simps [simp]: "ctx_addrs [] = {}" "ctx_addrs (Fr d r e s # k) = insert (fst e) (addrs s \<union> ctx_addrs k)"
  by (auto simp: ctx_addrs_def addrs_def)

lemma ctx_addrs_append [simp]: "ctx_addrs (j @ k) = ctx_addrs j \<union> ctx_addrs k"
proof (induction j)
  case (Cons f j)
  then show ?case
    by (cases f) auto
qed simp

lemma rep_ctx_cong: "(\<And>a. a \<in> ctx_addrs k \<Longrightarrow> h a = h' a) \<Longrightarrow> rep_ctx h p k = rep_ctx h' p k"
proof (induction h p k rule: rep_ctx.induct)
  case (2 h p d r e s k)
  then have "rep h (Some (fst e)) s = rep h' (Some (fst e)) s"
    by (intro rep_cong) auto
  with 2 show ?case
    by simp
qed simp

lemma rep_ctx_outside: "a \<notin> ctx_addrs k \<Longrightarrow> rep_ctx (h(a := v)) p k = rep_ctx h p k"
  by (intro rep_ctx_cong) auto

text \<open>Distinct addresses, with the disjointness of the parts.\<close>

definition uniq :: "'c shape \<Rightarrow> bool" where
  "uniq t \<longleftrightarrow> distinct (map fst (entries t))"

definition uniq_ctx :: "'c frame list \<Rightarrow> bool" where
  "uniq_ctx k \<longleftrightarrow> distinct (map fst (before k @ after k))"

lemma uniq_nd: "uniq (nd d r e x y) \<longleftrightarrow> uniq x \<and> uniq y \<and> fst e \<notin> addrs x \<and> fst e \<notin> addrs y \<and> addrs x \<inter> addrs y = {}"
  by (auto simp: uniq_def entries_nd addrs_def)

lemma uniq_Nd: "uniq (Nd r x e y) \<longleftrightarrow> uniq x \<and> uniq y \<and> fst e \<notin> addrs x \<and> fst e \<notin> addrs y \<and> addrs x \<inter> addrs y = {}"
  using uniq_nd [of LEFT r e x y] by (simp add: nd_def)

lemma uniq_Lf [simp]: "uniq Lf"
  by (simp add: uniq_def)

lemma addrs_nd [simp]: "addrs (nd d r e x y) = insert (fst e) (addrs x \<union> addrs y)"
  by (auto simp: nd_def)

lemma addrs_plug: "addrs (plug t k) = addrs t \<union> ctx_addrs k"
  by (auto simp: entries_plug ctx_addrs_def addrs_def)

lemma uniq_plug: "uniq (plug t k) \<longleftrightarrow> uniq t \<and> uniq_ctx k \<and> addrs t \<inter> ctx_addrs k = {}"
  by (simp add: uniq_def uniq_ctx_def entries_plug ctx_addrs_def addrs_def image_Un) blast

lemma uniq_ctx_Cons: "uniq_ctx (Fr d r e s # k) \<longleftrightarrow> uniq s \<and> uniq_ctx k \<and> fst e \<notin> addrs s \<and> fst e \<notin> ctx_addrs k \<and> addrs s \<inter> ctx_addrs k = {}"
  by (cases d; simp add: uniq_ctx_def uniq_def ctx_addrs_def addrs_def image_Un; blast)

lemma uniq_ctx_Nil [simp]: "uniq_ctx []"
  by (simp add: uniq_ctx_def)

lemma uniq_paint [simp]: "uniq (paint b t) = uniq t"
  by (simp add: uniq_def)

section \<open>Trees in a state\<close>

definition holds :: "nat \<Rightarrow> 'c shape \<Rightarrow> ('k, 'c) Tree \<Rightarrow> bool" where
  "holds i T t \<longleftrightarrow> rep (t_nodes t) None T \<and> t_root t i = root_of T \<and> uniq T"

text \<open>Only the nodes in \<open>A\<close> and the root of index \<open>i\<close> may have changed.\<close>

definition same_but :: "nat \<Rightarrow> nat set \<Rightarrow> ('k, 'c) Tree \<Rightarrow> ('k, 'c) Tree \<Rightarrow> bool" where
  "same_but i A t t' \<longleftrightarrow> (\<exists>h p. t' = t\<lparr>t_nodes := h, t_root := (t_root t)(i := p)\<rparr> \<and> (\<forall>a. a \<notin> A \<longrightarrow> h a = t_nodes t a))"

lemma same_but_refl [simp]: "same_but i A t t"
  unfolding same_but_def by (intro exI [of _ "t_nodes t"] exI [of _ "t_root t i"]) simp

lemma same_but_trans: "same_but i A t t' \<Longrightarrow> same_but i A t' t'' \<Longrightarrow> same_but i A t t''"
  unfolding same_but_def by fastforce

lemma same_but_mono: "same_but i A t t' \<Longrightarrow> A \<subseteq> B \<Longrightarrow> same_but i B t t'"
  unfolding same_but_def by blast

lemma update_node_Some: "t_nodes t a = Some n \<Longrightarrow> update_node a f t = Some (t\<lparr>t_nodes := (t_nodes t)(a \<mapsto> f n)\<rparr>)"
  by (simp add: update_node_def)

lemmas set_node_simps = set_parent_def set_child_def set_red_def set_root_def update_node_Some parent_of_def

lemma holds_plug: "holds i (plug t k) st \<longleftrightarrow> rep (t_nodes st) (parent_in k) t \<and> rep_ctx (t_nodes st) (root_of t) k \<and>
    t_root st i = root_with (root_of t) k \<and> uniq t \<and> uniq_ctx k \<and> addrs t \<inter> ctx_addrs k = {}"
  by (auto simp: holds_def rep_plug uniq_plug)

section \<open>Rotation\<close>

text \<open>A subtree gets another parent, and a parent another child.\<close>

lemma relink_child:
  assumes "rep (t_nodes t) p y" "uniq y"
  shows "\<exists>h. (case root_of y of None \<Rightarrow> Some t | Some c \<Rightarrow> set_parent c q t) = Some (t\<lparr>t_nodes := h\<rparr>) \<and> rep h q y \<and>
    (\<forall>a. a \<notin> addrs y \<longrightarrow> h a = t_nodes t a)"
proof (cases y)
  case Lf
  then show ?thesis
    by (intro exI [of _ "t_nodes t"]) simp
next
  case (Nd r u e v)
  then have "fst e \<notin> addrs u" "fst e \<notin> addrs v"
    using assms(2) by (auto simp: uniq_def addrs_def)
  then show ?thesis
    using assms(1) Nd
    by (intro exI [of _ "(t_nodes t)(fst e \<mapsto> cell q r e (kids LEFT (root_of u) (root_of v)))"]) (simp add: set_node_simps rep_outside)
qed

lemma relink_parent:
  assumes "rep_ctx (t_nodes t) (Some a) k" "uniq_ctx k" "a \<notin> ctx_addrs k" "t_root t i = root_with (Some a) k"
  shows "\<exists>h. (case parent_in k of
        None \<Rightarrow> Some (set_root i q t)
      | Some p \<Rightarrow> do { pn \<leftarrow> t_nodes t p; if n_child pn d = Some a then set_child p d q t else set_child p (\<not> d) q t }) =
      Some (t\<lparr>t_nodes := h, t_root := (t_root t)(i := root_with q k)\<rparr>) \<and>
    rep_ctx h q k \<and> (\<forall>b. b \<notin> ctx_addrs k \<longrightarrow> h b = t_nodes t b)"
proof (cases k)
  case Nil
  then show ?thesis
    by (intro exI [of _ "t_nodes t"]) (simp add: set_root_def)
next
  case (Cons f k')
  then obtain g r e s where k: "k = Fr g r e s # k'"
    by (cases f) simp
  have n: "t_nodes t (fst e) = Some (cell (parent_in k') r e (kids g (Some a) (root_of s)))"
    and u: "fst e \<notin> addrs s" "fst e \<notin> ctx_addrs k'" "a \<notin> addrs s"
    using assms k by (auto simp: uniq_ctx_Cons)
  have "kids g (Some a) (root_of s) d = Some a \<longleftrightarrow> d = g"
    using u(3) root_of_addrs [of s a] by (auto simp: kids_def)
  moreover have "t_root t = (t_root t)(i := root_with q k)"
    using assms(4) k by (simp add: fun_upd_idem)
  moreover define h where "h = (t_nodes t)(fst e \<mapsto> cell (parent_in k') r e (kids g q (root_of s)))"
  ultimately show ?thesis
    using assms(1) k n u by (cases "d = g"; intro exI [of _ h]) (auto simp: set_node_simps rep_outside rep_ctx_outside)
qed

text \<open>The node at \<open>e\<close> with the subtrees \<open>x\<close> and, under its child \<open>e'\<close>, \<open>y\<close> and \<open>z\<close>, seen from the direction of the rotation.\<close>

lemma TreeRotate_plug:
  assumes "holds i (plug (nd d r e x (nd d r' e' y z)) k) t"
  shows "\<exists>t'. TreeRotate (fst e) d i t = Some t' \<and> holds i (plug (nd d r' e' (nd d r e x y) z) k) t' \<and>
    same_but i (addrs (plug (nd d r e x (nd d r' e' y z)) k)) t t'"
proof -
  let ?a = "fst e" and ?b = "fst e'"
  have cur: "t_nodes t ?a = Some (cell (parent_in k) r e (kids d (root_of x) (Some ?b)))"
    and oth: "t_nodes t ?b = Some (cell (Some ?a) r' e' (kids d (root_of y) (root_of z)))"
    and xyz: "rep (t_nodes t) (Some ?a) x" "rep (t_nodes t) (Some ?b) y" "rep (t_nodes t) (Some ?b) z" and k: "rep_ctx (t_nodes t) (Some ?a) k"
    and root: "t_root t i = root_with (Some ?a) k"
    using assms by (simp_all add: holds_plug rep_nd)
  have ne: "?a \<noteq> ?b" "?a \<notin> addrs x" "?b \<notin> addrs x" "?a \<notin> addrs y" "?b \<notin> addrs y" "?a \<notin> addrs z" "?b \<notin> addrs z"
    "?a \<notin> ctx_addrs k" "?b \<notin> ctx_addrs k" and disj: "addrs x \<inter> addrs y = {}" "addrs y \<inter> addrs z = {}" "addrs y \<inter> ctx_addrs k = {}"
      "addrs x \<inter> ctx_addrs k = {}" "addrs z \<inter> ctx_addrs k = {}" "uniq y" "uniq_ctx k"
    using assms by (auto simp: holds_plug uniq_nd)
  define t1 where "t1 = t\<lparr>t_nodes := (t_nodes t)(?a \<mapsto> cell (parent_in k) r e (kids d (root_of x) (root_of y)))\<rparr>"
  have s1: "set_child ?a (\<not> d) (root_of y) t = Some t1"
    using cur by (simp add: set_node_simps t1_def)
  have "rep (t_nodes t1) (Some ?b) y"
    using xyz(2) ne by (simp add: t1_def rep_outside)
  from relink_child [OF this disj(6), of "Some ?a"] obtain h2 where
    s2: "(case root_of y of None \<Rightarrow> Some t1 | Some c \<Rightarrow> set_parent c (Some ?a) t1) = Some (t1\<lparr>t_nodes := h2\<rparr>)" and
    y: "rep h2 (Some ?a) y" and h2: "\<And>c. c \<notin> addrs y \<Longrightarrow> h2 c = t_nodes t1 c"
    by blast
  define t3 where "t3 = t1\<lparr>t_nodes := h2(?b \<mapsto> cell (parent_in k) r' e' (kids d (root_of y) (root_of z)))\<rparr>"
  have s3: "set_parent ?b (parent_in k) (t1\<lparr>t_nodes := h2\<rparr>) = Some t3"
    using h2 [of ?b] ne oth by (simp add: set_node_simps t3_def t1_def)
  have out3: "t_nodes t3 c = t_nodes t c" if "c \<noteq> ?a" "c \<noteq> ?b" "c \<notin> addrs y" for c
    using h2 [of c] that by (simp add: t3_def t1_def)
  have "t_nodes t3 c = t_nodes t c" if "c \<in> ctx_addrs k" for c
    using that ne disj(3) by (intro out3) auto
  then have k3: "rep_ctx (t_nodes t3) (Some ?a) k"
    using k rep_ctx_cong [of k "t_nodes t3" "t_nodes t"] by blast
  have "t_root t3 i = root_with (Some ?a) k"
    using root by (simp add: t3_def t1_def)
  from relink_parent [OF k3 disj(7) ne(8) this, of "Some ?b" d] obtain h4 where
    s4: "(case parent_in k of
        None \<Rightarrow> Some (set_root i (Some ?b) t3)
      | Some p \<Rightarrow> do { pn \<leftarrow> t_nodes t3 p; if n_child pn d = Some ?a then set_child p d (Some ?b) t3 else set_child p (\<not> d) (Some ?b) t3 }) =
      Some (t3\<lparr>t_nodes := h4, t_root := (t_root t3)(i := root_with (Some ?b) k)\<rparr>)" and
    k4: "rep_ctx h4 (Some ?b) k" and h4: "\<And>c. c \<notin> ctx_addrs k \<Longrightarrow> h4 c = t_nodes t3 c"
    by blast
  define h6 where "h6 = h4(?b \<mapsto> cell (parent_in k) r' e' (kids d (Some ?a) (root_of z)), ?a \<mapsto> cell (Some ?b) r e (kids d (root_of x) (root_of y)))"
  define t6 where "t6 = t\<lparr>t_nodes := h6, t_root := (t_root t)(i := root_with (Some ?b) k)\<rparr>"
  have a4: "h4 ?a = Some (cell (parent_in k) r e (kids d (root_of x) (root_of y)))" and b4: "h4 ?b = Some (cell (parent_in k) r' e' (kids d (root_of y) (root_of z)))"
    using h4 [of ?a] h4 [of ?b] h2 [of ?a] ne by (simp_all add: t3_def t1_def)
  have s5: "(set_child ?b d (Some ?a) (t3\<lparr>t_nodes := h4, t_root := (t_root t3)(i := root_with (Some ?b) k)\<rparr>) \<bind> set_parent ?a (Some ?b)) = Some t6"
    using a4 b4 ne(1) by (simp add: set_node_simps t6_def h6_def t3_def t1_def)
  have "TreeRotate ?a d i t = Some t6"
    using cur oth s1 s2 s3 s4 s5 by (simp add: TreeRotate_def)
  moreover have out6: "h6 c = t_nodes t c" if "c \<noteq> ?a" "c \<noteq> ?b" "c \<notin> addrs y" "c \<notin> ctx_addrs k" for c
    using h4 [OF that(4)] out3 [OF that(1-3)] that by (simp add: h6_def)
  moreover have "h6 c = t_nodes t c" if "c \<in> addrs x \<union> addrs z" for c
    using that ne disj by (intro out6) auto
  then have "rep h6 (Some ?a) x" "rep h6 (Some ?b) z"
    using xyz(1,3) rep_cong [of x h6 "t_nodes t"] rep_cong [of z h6 "t_nodes t"] by blast+
  moreover have "h6 c = h2 c" if "c \<in> addrs y" for c
  proof -
    have "c \<noteq> ?a" "c \<noteq> ?b" "c \<notin> ctx_addrs k"
      using that ne disj(3) by auto
    then show ?thesis
      using h4 [of c] by (simp add: h6_def t3_def)
  qed
  then have "rep h6 (Some ?a) y"
    using y rep_cong [of y h6 h2] by blast
  moreover have "rep_ctx h6 (Some ?b) k"
    using k4 ne by (simp add: h6_def rep_ctx_outside)
  ultimately have "holds i (plug (nd d r' e' (nd d r e x y) z) k) t6"
    using assms ne(1) by (auto simp: holds_plug rep_nd uniq_nd t6_def h6_def)
  moreover have "same_but i (addrs (plug (nd d r e x (nd d r' e' y z)) k)) t t6"
    unfolding same_but_def t6_def using out6 by (intro exI [of _ h6] exI conjI refl) (auto simp: addrs_plug)
  ultimately show ?thesis
    using \<open>TreeRotate ?a d i t = Some t6\<close> by blast
qed

text \<open>Colours.\<close>

lemma set_red_plug:
  assumes "holds i (plug x k) t" "root_of x = Some a"
  shows "\<exists>t'. set_red a b t = Some t' \<and> holds i (plug (paint b x) k) t' \<and> same_but i (addrs (plug x k)) t t'"
proof (cases x)
  case (Nd r u e v)
  define h where "h = (t_nodes t)(fst e \<mapsto> cell (parent_in k) b e (kids LEFT (root_of u) (root_of v)))"
  have a: "a = fst e" and n: "t_nodes t (fst e) = Some (cell (parent_in k) r e (kids LEFT (root_of u) (root_of v)))"
    and ne: "fst e \<notin> addrs u" "fst e \<notin> addrs v" "fst e \<notin> ctx_addrs k"
    using assms Nd by (auto simp: holds_plug uniq_def addrs_def)
  have "holds i (plug (paint b x) k) (t\<lparr>t_nodes := h\<rparr>)"
    using assms(1) Nd ne by (auto simp: holds_plug h_def rep_outside rep_ctx_outside uniq_def)
  moreover have "same_but i (addrs (plug x k)) t (t\<lparr>t_nodes := h\<rparr>)"
    unfolding same_but_def by (intro exI [of _ h] exI [of _ "t_root t i"]) (simp add: h_def Nd addrs_plug)
  moreover have "set_red a b t = Some (t\<lparr>t_nodes := h\<rparr>)"
    using a n by (simp add: set_node_simps h_def)
  ultimately show ?thesis
    by blast
qed (use assms in simp)

end
