(* ===== verification/Mqtt_Tree_Add.thy ===== *)
theory Mqtt_Tree_Add
  imports Mqtt_Tree_Shape
begin

text \<open>
  Insertion into a search tree, \<^verbatim>\<open>Tree.c\<close>: \<open>TreeBalanceAfterAdd\<close> and \<open>TreeAddByIndex\<close> on the store compute \<open>balance_add\<close> and
  \<open>tree_add\<close> on the tree as a value.
\<close>

section \<open>Reading the nodes of a tree\<close>

lemma node_at: "holds i (plug (nd d r e x y) k) t \<Longrightarrow> t_nodes t (fst e) = Some (cell (parent_in k) r e (kids d (root_of x) (root_of y)))"
  by (simp add: holds_plug rep_nd)

lemma isRed_rep: "rep (t_nodes t) p x \<Longrightarrow> isRed t (root_of x) = Some (is_red x)"
  by (cases x) (auto simp: isRed_def)

lemma isBlack_rep: "rep (t_nodes t) p x \<Longrightarrow> isBlack t (root_of x) = Some (\<not> is_red x)"
  by (cases x) (auto simp: isBlack_def)

lemma holds_rep: "holds i (plug x k) t \<Longrightarrow> rep (t_nodes t) (parent_in k) x"
  by (simp add: holds_plug)

lemma holds_sub: "holds i (plug (nd d r e x y) k) t \<Longrightarrow> rep (t_nodes t) (Some (fst e)) x \<and> rep (t_nodes t) (Some (fst e)) y"
  by (simp add: holds_plug rep_nd)

text \<open>The child of a node on a side is the node at an address only if that is its root.\<close>

lemma child_is:
  assumes "holds i (plug (nd d r e x y) k) t" "root_of x = Some a"
  shows "kids d (root_of x) (root_of y) b = Some a \<longleftrightarrow> b = d"
proof -
  have "addrs x \<inter> addrs y = {}"
    using assms(1) by (simp add: holds_plug uniq_nd)
  then have "root_of y \<noteq> Some a"
    using root_of_addrs [of x a] root_of_addrs [of y a] assms(2) by auto
  then show ?thesis
    using assms(2) by (simp add: kids_def)
qed

lemma same_but_addrs: "same_but i A t t' \<Longrightarrow> same_but i A' t' t'' \<Longrightarrow> A' = A \<Longrightarrow> same_but i A t t''"
  using same_but_trans by blast

lemma parent_at: "holds i (plug (nd d r e x y) k) t \<Longrightarrow> root_of x = Some c \<Longrightarrow> parent_of t c = Some (fst e)"
  using holds_sub [of i d r e x y k t] by (cases x) (auto simp: parent_of_def)

lemma parent_at_ctx: "holds i (plug (nd d r e x y) (Fr g q f u # k)) t \<Longrightarrow> parent_of t (fst e) = Some (fst f)"
  using parent_at [of i g q f "nd d r e x y" u k t "fst e"] by simp

section \<open>Balancing\<close>

fun sub :: "bool \<Rightarrow> 'c shape \<Rightarrow> 'c shape" where
  "sub d Lf = Lf"
| "sub d (Nd r x e y) = (if d = LEFT then x else y)"

fun ent :: "'c shape \<Rightarrow> 'c entry" where
  "ent (Nd r x e y) = e"

lemma sub_nd [simp]: "sub d (nd d r e x y) = x" "sub (\<not> d) (nd d r e x y) = y" "ent (nd d r e x y) = e"
  "sub RIGHT (nd LEFT r e x y) = y" "sub LEFT (nd RIGHT r e x y) = y"
  by (auto simp: nd_def)

fun balance_add :: "'c shape \<Rightarrow> 'c frame list \<Rightarrow> 'c shape" where
  "balance_add x (Fr d True e s # Fr g r f u # k) =
     (if is_red u then balance_add (nd g True f (nd d False e x s) (paint False u)) k
      else if d = g then plug (nd g False e x (nd g True f s u)) k
      else plug (nd g False (ent x) (nd g True e s (sub g x)) (nd g True f (sub (\<not> g) x) u)) k)"
| "balance_add x k = plug x k"

lemma BAASub_red:
  assumes "holds i (plug (nd g r f (nd d True e x s) u) k) t" "root_of x = Some c" "is_red u"
  shows "\<exists>t'. TreeBAASub c (\<not> g) i t = Some (fst f, t') \<and> holds i (plug (nd g True f (nd d False e x s) (paint False u)) k) t' \<and>
    same_but i (addrs (plug (nd g r f (nd d True e x s) u) k)) t t'"
proof -
  obtain b where b: "root_of u = Some b"
    using assms(3) by (cases u) auto
  have gn: "t_nodes t (fst f) = Some (cell (parent_in k) r f (kids g (Some (fst e)) (root_of u)))"
    using node_at [OF assms(1)] by simp
  have pn: "parent_of t (fst e) = Some (fst f)" "parent_of t c = Some (fst e)"
    using parent_at [of i d True e x s "Fr g r f u # k" t c] parent_at_ctx [of i d True e x s g r f u k t] assms(1,2) by simp_all
  have r: "isRed t (root_of u) = Some True"
    using isRed_rep [of t "Some (fst f)" u] holds_sub [OF assms(1)] assms(3) by simp
  obtain t1 where t1: "set_red b False t = Some t1" "holds i (plug (nd g r f (nd d True e x s) (paint False u)) k) t1"
    "same_but i (addrs (plug (nd g r f (nd d True e x s) u) k)) t t1"
    using set_red_plug [of i u "Fr (\<not> g) r f (nd d True e x s) # k" t b False] assms(1) b by (auto simp: nd_swap)
  obtain t2 where t2: "set_red (fst e) False t1 = Some t2" "holds i (plug (nd g r f (nd d False e x s) (paint False u)) k) t2"
    "same_but i (addrs (plug (nd g r f (nd d True e x s) (paint False u)) k)) t1 t2"
    using set_red_plug [of i "nd d True e x s" "Fr g r f (paint False u) # k" t1 "fst e" False] t1 by auto
  obtain t3 where t3: "set_red (fst f) True t2 = Some t3" "holds i (plug (nd g True f (nd d False e x s) (paint False u)) k) t3"
    "same_but i (addrs (plug (nd g r f (nd d False e x s) (paint False u)) k)) t2 t3"
    using set_red_plug [of i "nd g r f (nd d False e x s) (paint False u)" k t2 "fst f" True] t2 by auto
  have "TreeBAASub c (\<not> g) i t = Some (fst f, t3)"
    using gn pn r b t1(1) t2(1) t3(1) by (simp add: TreeBAASub_def)
  moreover have "same_but i (addrs (plug (nd g r f (nd d True e x s) u) k)) t t3"
    using same_but_addrs [OF same_but_addrs [OF t1(3) t2(3)] t3(3)] by (simp add: addrs_plug)
  ultimately show ?thesis
    using t3(2) by blast
qed

lemma BAASub_outer:
  assumes "holds i (plug (nd g r f (nd g True e x s) u) k) t" "root_of x = Some c" "\<not> is_red u"
  shows "\<exists>t'. TreeBAASub c (\<not> g) i t = Some (c, t') \<and> holds i (plug (nd g False e x (nd g True f s u)) k) t' \<and>
    same_but i (addrs (plug (nd g r f (nd g True e x s) u) k)) t t'"
proof -
  have gn: "t_nodes t (fst f) = Some (cell (parent_in k) r f (kids g (Some (fst e)) (root_of u)))"
    using node_at [OF assms(1)] by simp
  have pn: "parent_of t (fst e) = Some (fst f)" "parent_of t c = Some (fst e)"
    using parent_at [of i g True e x s "Fr g r f u # k" t c] parent_at_ctx [of i g True e x s g r f u k t] assms(1,2) by simp_all
  have en: "t_nodes t (fst e) = Some (cell (Some (fst f)) True e (kids g (root_of x) (root_of s)))"
    using node_at [of i g True e x s "Fr g r f u # k" t] assms(1) by simp
  have r: "isRed t (root_of u) = Some False"
    using isRed_rep [of t "Some (fst f)" u] holds_sub [OF assms(1)] assms(3) by simp
  have side: "kids g (root_of x) (root_of s) (\<not> g) \<noteq> Some c"
    using child_is [of i g True e x s "Fr g r f u # k" t c "\<not> g"] assms(1,2) by simp
  obtain t2 where t2: "set_red (fst e) False t = Some t2" "holds i (plug (nd g r f (nd g False e x s) u) k) t2"
    "same_but i (addrs (plug (nd g r f (nd g True e x s) u) k)) t t2"
    using set_red_plug [of i "nd g True e x s" "Fr g r f u # k" t "fst e" False] assms(1) by auto
  obtain t3 where t3: "set_red (fst f) True t2 = Some t3" "holds i (plug (nd g True f (nd g False e x s) u) k) t3"
    "same_but i (addrs (plug (nd g r f (nd g False e x s) u) k)) t2 t3"
    using set_red_plug [of i "nd g r f (nd g False e x s) u" k t2 "fst f" True] t2 by auto
  have "holds i (plug (nd (\<not> g) True f u (nd (\<not> g) False e s x)) k) t3"
    using t3(2) by (simp add: nd_swap)
  from TreeRotate_plug [OF this] obtain t4 where t4: "TreeRotate (fst f) (\<not> g) i t3 = Some t4"
    "holds i (plug (nd g False e x (nd g True f s u)) k) t4" "same_but i (addrs (plug (nd g True f (nd g False e x s) u) k)) t3 t4"
    by (auto simp: nd_swap)
  have p2: "parent_of t2 (fst e) = Some (fst f)"
    using parent_at_ctx [of i g False e x s g r f u k t2] t2(2) by simp
  have "TreeBAASub c (\<not> g) i t = Some (c, t4)"
    using gn pn en r side p2 t2(1) t3(1) t4(1) by (simp add: TreeBAASub_def)
  moreover have "same_but i (addrs (plug (nd g r f (nd g True e x s) u) k)) t t4"
    using same_but_addrs [OF same_but_addrs [OF t2(3) t3(3)] t4(3)] by (simp add: addrs_plug)
  ultimately show ?thesis
    using t4(2) by blast
qed

lemma BAASub_inner:
  assumes "holds i (plug (nd g r f (nd (\<not> g) True e (nd g q a x y) s) u) k) t" "\<not> is_red u"
  shows "\<exists>t'. TreeBAASub (fst a) (\<not> g) i t = Some (fst e, t') \<and> holds i (plug (nd g False a (nd g True e s x) (nd g True f y u)) k) t' \<and>
    same_but i (addrs (plug (nd g r f (nd (\<not> g) True e (nd g q a x y) s) u) k)) t t'"
proof -
  let ?A = "addrs (plug (nd g r f (nd (\<not> g) True e (nd g q a x y) s) u) k)"
  have gn: "t_nodes t (fst f) = Some (cell (parent_in k) r f (kids g (Some (fst e)) (root_of u)))"
    using node_at [OF assms(1)] by simp
  have pn: "parent_of t (fst e) = Some (fst f)" "parent_of t (fst a) = Some (fst e)"
    using parent_at [of i "\<not> g" True e "nd g q a x y" s "Fr g r f u # k" t "fst a"] parent_at_ctx [of i "\<not> g" True e "nd g q a x y" s g r f u k t] assms(1) by simp_all
  have en: "t_nodes t (fst e) = Some (cell (Some (fst f)) True e (kids (\<not> g) (Some (fst a)) (root_of s)))"
    using node_at [of i "\<not> g" True e "nd g q a x y" s "Fr g r f u # k" t] assms(1) by simp
  have r: "isRed t (root_of u) = Some False"
    using isRed_rep [of t "Some (fst f)" u] holds_sub [OF assms(1)] assms(2) by simp
  have "holds i (plug (nd g True e s (nd g q a x y)) (Fr g r f u # k)) t"
    using assms(1) by (simp add: nd_swap)
  from TreeRotate_plug [OF this] obtain t1 where t1: "TreeRotate (fst e) g i t = Some t1"
    "holds i (plug (nd g r f (nd g q a (nd g True e s x) y) u) k) t1" "same_but i ?A t t1"
    by (auto simp: addrs_plug nd_swap insert_commute Un_ac)
  obtain t2 where t2: "set_red (fst a) False t1 = Some t2" "holds i (plug (nd g r f (nd g False a (nd g True e s x) y) u) k) t2"
    "same_but i (addrs (plug (nd g r f (nd g q a (nd g True e s x) y) u) k)) t1 t2"
    using set_red_plug [of i "nd g q a (nd g True e s x) y" "Fr g r f u # k" t1 "fst a" False] t1(2) by auto
  obtain t3 where t3: "set_red (fst f) True t2 = Some t3" "holds i (plug (nd g True f (nd g False a (nd g True e s x) y) u) k) t3"
    "same_but i (addrs (plug (nd g r f (nd g False a (nd g True e s x) y) u) k)) t2 t3"
    using set_red_plug [of i "nd g r f (nd g False a (nd g True e s x) y) u" k t2 "fst f" True] t2 by auto
  have "holds i (plug (nd (\<not> g) True f u (nd (\<not> g) False a y (nd g True e s x))) k) t3"
    using t3(2) by (simp add: nd_swap)
  from TreeRotate_plug [OF this] obtain t4 where t4: "TreeRotate (fst f) (\<not> g) i t3 = Some t4"
    "holds i (plug (nd g False a (nd g True e s x) (nd g True f y u)) k) t4"
    "same_but i (addrs (plug (nd g True f (nd g False a (nd g True e s x) y) u) k)) t3 t4"
    by (auto simp: nd_swap)
  have p1: "parent_of t1 (fst e) = Some (fst a)" and p2: "parent_of t2 (fst a) = Some (fst f)"
    using parent_at [of i g q a "nd g True e s x" y "Fr g r f u # k" t1] t1(2) parent_at_ctx [of i g False a "nd g True e s x" y g r f u k t2] t2(2) by simp_all
  have "TreeBAASub (fst a) (\<not> g) i t = Some (fst e, t4)"
    using gn pn en r p1 p2 t1(1) t2(1) t3(1) t4(1) by (simp add: TreeBAASub_def)
  moreover have "same_but i ?A t t4"
    using same_but_addrs [OF same_but_addrs [OF same_but_addrs [OF t1(3) t2(3)] t3(3)] t4(3)]
    by (simp add: addrs_plug insert_commute Un_ac)
  ultimately show ?thesis
    using t4(2) by blast
qed

lemma loop_stops:
  assumes "holds i (plug (nd d False e x y) k) t" "root_of x = Some c"
  shows "TreeBalanceAfterAdd_loop c i t = Some t"
proof -
  obtain n where "t_nodes t c = Some n" "n_parent n = Some (fst e)"
    using holds_sub [OF assms(1)] assms(2) by (cases x) auto
  moreover have "isRed t (Some (fst e)) = Some False"
    using node_at [OF assms(1)] by (simp add: isRed_def)
  ultimately show ?thesis
    by (simp add: TreeBalanceAfterAdd_loop.simps)
qed

lemma loop_at_root:
  assumes "holds i x t" "root_of x = Some c"
  shows "TreeBalanceAfterAdd_loop c i t = Some t"
  using assms by (cases x) (auto simp: TreeBalanceAfterAdd_loop.simps holds_def isRed_def)

lemma loop_below_root:
  assumes "holds i (nd d r e x s) t" "root_of x = Some c"
  shows "TreeBalanceAfterAdd_loop c i t = Some t"
proof -
  have h: "holds i (plug (nd d r e x s) []) t"
    using assms(1) by simp
  obtain n where "t_nodes t c = Some n" "n_parent n = Some (fst e)"
    using holds_sub [OF h] assms(2) by (cases x) auto
  moreover have "isRed t (Some (fst e)) = Some r" "parent_of t (fst e) = None"
    using node_at [OF h] by (simp_all add: isRed_def parent_of_def)
  ultimately show ?thesis
    by (cases r) (simp_all add: TreeBalanceAfterAdd_loop.simps)
qed

lemma loop_goes:
  assumes "holds i (plug (nd g r f (nd d True e x s) u) k) t" "root_of x = Some c"
  shows "TreeBalanceAfterAdd_loop c i t = do { (cur, t') \<leftarrow> TreeBAASub c (\<not> g) i t; TreeBalanceAfterAdd_loop cur i t' }"
proof -
  have h: "holds i (plug (nd d True e x s) (Fr g r f u # k)) t"
    using assms(1) by simp
  obtain n where "t_nodes t c = Some n" "n_parent n = Some (fst e)"
    using holds_sub [OF h] assms(2) by (cases x) auto
  moreover have "isRed t (Some (fst e)) = Some True"
    using node_at [OF h] by (simp add: isRed_def)
  moreover have "Some (fst e) = kids g (Some (fst e)) (root_of u) LEFT \<longleftrightarrow> LEFT = g"
    using child_is [OF assms(1), of "fst e" LEFT] by (simp only: nd_simps) (simp add: eq_commute)
  moreover have "parent_of t (fst e) = Some (fst f)"
    by (rule parent_at_ctx [OF h])
  moreover have "t_nodes t (fst f) = Some (cell (parent_in k) r f (kids g (Some (fst e)) (root_of u)))"
    using node_at [OF assms(1)] by simp
  ultimately show ?thesis
    by (subst TreeBalanceAfterAdd_loop.simps) auto
qed

lemmas balance_add_induct = balance_add.induct [case_names grand root black parent]

lemma BalanceAfterAdd_loop_plug:
  assumes "holds i (plug x k) t" "root_of x = Some c"
  shows "\<exists>t'. TreeBalanceAfterAdd_loop c i t = Some t' \<and> holds i (balance_add x k) t' \<and> same_but i (addrs (plug x k)) t t'"
  using assms
proof (induction x k arbitrary: t c rule: balance_add_induct)
  case (grand x d e s g r f u k)
  then have h: "holds i (plug (nd g r f (nd d True e x s) u) k) t"
    by simp
  note go = loop_goes [OF h \<open>root_of x = Some c\<close>]
  consider "is_red u" | "\<not> is_red u" "d = g" | "\<not> is_red u" "d = (\<not> g)"
    by blast
  then show ?case
  proof cases
    case red: 1
    obtain t' where t': "TreeBAASub c (\<not> g) i t = Some (fst f, t')" "holds i (plug (nd g True f (nd d False e x s) (paint False u)) k) t'"
      "same_but i (addrs (plug (nd g r f (nd d True e x s) u) k)) t t'"
      using BAASub_red [OF h grand(3) red] by blast
    obtain t'' where t'': "TreeBalanceAfterAdd_loop (fst f) i t' = Some t''" "holds i (balance_add (nd g True f (nd d False e x s) (paint False u)) k) t''"
      "same_but i (addrs (plug (nd g True f (nd d False e x s) (paint False u)) k)) t' t''"
      using grand.IH [OF red t'(2)] by auto
    then show ?thesis
      using t' go red same_but_addrs [OF t'(3) t''(3)] by (simp add: addrs_plug)
  next
    case outer: 2
    then obtain t' where t': "TreeBAASub c (\<not> g) i t = Some (c, t')" "holds i (plug (nd g False e x (nd g True f s u)) k) t'"
      "same_but i (addrs (plug (nd g r f (nd g True e x s) u) k)) t t'"
      using BAASub_outer [of i g r f e x s u k t c] h grand(3) by blast
    then show ?thesis
      using go outer loop_stops [OF t'(2) grand(3)] by (intro exI [of _ t']) simp
  next
    case inner: 3
    have "x \<noteq> Lf"
      using grand(3) by auto
    then obtain q a y z where x: "x = nd g q a y z"
      using nd_cases [of x g] by blast
    then obtain t' where t': "TreeBAASub c (\<not> g) i t = Some (fst e, t')"
      "holds i (plug (nd g False a (nd g True e s y) (nd g True f z u)) k) t'"
      "same_but i (addrs (plug (nd g r f (nd (\<not> g) True e x s) u) k)) t t'"
      using BAASub_inner [of i g r f e q a y z s u k t] h grand(3) inner by auto
    then show ?thesis
      using go inner x loop_stops [OF t'(2), of "fst e"] by (intro exI [of _ t']) simp
  qed
next
  case (root x)
  then show ?case
    using loop_at_root [of i x t c] by simp
next
  case (black x d e s k)
  then show ?case
    using loop_stops [of i d e x s k t c] by simp
next
  case (parent x fr)
  then show ?case
    using loop_below_root [of i _ _ _ x _ t c] by (cases fr) simp
qed

lemma entries_balance_add: "x \<noteq> Lf \<Longrightarrow> entries (balance_add x k) = entries (plug x k)"
proof (induction x k rule: balance_add.induct)
  case (1 x d e s g r f u k)
  obtain q a y z where "x = nd g q a y z"
    using nd_cases [OF 1(2), of g] by blast
  then show ?case
    using 1 by (cases d; cases g) (simp_all add: entries_plug entries_nd)
qed simp_all

lemma BalanceAfterAdd_plug:
  assumes "holds i (plug x k) t" "root_of x = Some c"
  shows "\<exists>t'. TreeBalanceAfterAdd c i t = Some t' \<and> holds i (paint False (balance_add x k)) t' \<and> same_but i (addrs (plug x k)) t t'"
proof -
  obtain t1 where t1: "TreeBalanceAfterAdd_loop c i t = Some t1" "holds i (balance_add x k) t1" "same_but i (addrs (plug x k)) t t1"
    using BalanceAfterAdd_loop_plug [OF assms] by blast
  have e: "entries (balance_add x k) = entries (plug x k)"
    using assms(2) by (intro entries_balance_add) auto
  moreover have "entries (plug x k) \<noteq> []"
    using assms(2) by (cases x) (auto simp: entries_plug)
  ultimately have "balance_add x k \<noteq> Lf"
    by auto
  then obtain a where a: "root_of (balance_add x k) = Some a"
    by (cases "balance_add x k") auto
  obtain t2 where t2: "set_red a False t1 = Some t2" "holds i (paint False (balance_add x k)) t2" "same_but i (addrs (balance_add x k)) t1 t2"
    using set_red_plug [of i "balance_add x k" "[]" t1 a False] t1(2) a by auto
  have "t_root t1 i = Some a"
    using t1(2) a by (simp add: holds_def)
  then show ?thesis
    using t1 t2 same_but_addrs [OF t1(3) t2(3)] e by (auto simp: TreeBalanceAfterAdd_def addrs_def)
qed

section \<open>Searching\<close>

fun descend :: "('c \<Rightarrow> int) \<Rightarrow> 'c shape \<Rightarrow> 'c frame list \<Rightarrow> 'c shape \<times> 'c frame list" where
  "descend f Lf k = (Lf, k)"
| "descend f (Nd r x e y) k =
     (let c = f (fst (snd e)) in
      if c = 0 then (Nd r x e y, k)
      else if c > 0 then descend f y (Fr RIGHT r e x # k)
      else descend f x (Fr LEFT r e y # k))"

lemma plug_descend: "descend f x k = (x', k') \<Longrightarrow> plug x' k' = plug x k"
  by (induction f x k rule: descend.induct) (auto simp: Let_def nd_def split: if_splits)

fun last_step :: "'c frame list \<Rightarrow> (nat \<times> bool) option" where
  "last_step [] = None"
| "last_step (Fr d r e s # k) = Some (fst e, d)"

lemma last_step_parent: "map_option fst (last_step k) = parent_in k"
  by (cases k rule: last_step.cases) auto

lemma TreeAdd_search_descend:
  assumes "rep (t_nodes t) p x" "descend (\<lambda>c. compare c (Content content)) x k = (x', k')"
  shows "TreeAdd_search compare content t (last_step k) (root_of x) = Some (last_step k', root_of x')"
  using assms
proof (induction "\<lambda>c. compare c (Content content)" x k arbitrary: p rule: descend.induct)
  case (1 k)
  then show ?case
    by (simp add: TreeAdd_search.simps)
next
  case (2 r x e y k)
  then have n: "t_nodes t (fst e) = Some (cell p r e (kids LEFT (root_of x) (root_of y)))"
    and sub: "rep (t_nodes t) (Some (fst e)) x" "rep (t_nodes t) (Some (fst e)) y"
    by simp_all
  consider "compare (fst (snd e)) (Content content) = 0" | "compare (fst (snd e)) (Content content) > 0" | "compare (fst (snd e)) (Content content) < 0"
    by linarith
  then show ?case
  proof cases
    case 1
    then show ?thesis
      using 2 n by (subst TreeAdd_search.simps) (auto simp: Let_def)
  next
    case pos: 2
    then show ?thesis
      using 2(1) [OF refl _ _ sub(2)] 2(4) n by (subst TreeAdd_search.simps) (auto simp: Let_def kids_def)
  next
    case neg: 3
    then show ?thesis
      using 2(2) [OF refl _ _ sub(1)] 2(4) n by (subst TreeAdd_search.simps) (auto simp: Let_def kids_def)
  qed
qed

lemma TreeFind_loop_descend:
  assumes "rep (t_nodes t) p x" "descend (\<lambda>c. compare c key) x k = (x', k')"
  shows "TreeFind_loop compare key t (root_of x) = Some (root_of x')"
  using assms
proof (induction "\<lambda>c. compare c key" x k arbitrary: p rule: descend.induct)
  case (1 k)
  then show ?case
    by (simp add: TreeFind_loop.simps)
next
  case (2 r x e y k)
  then have n: "t_nodes t (fst e) = Some (cell p r e (kids LEFT (root_of x) (root_of y)))"
    and sub: "rep (t_nodes t) (Some (fst e)) x" "rep (t_nodes t) (Some (fst e)) y"
    by simp_all
  consider "compare (fst (snd e)) key = 0" | "compare (fst (snd e)) key > 0" | "compare (fst (snd e)) key < 0"
    by linarith
  then show ?case
  proof cases
    case 1
    then show ?thesis
      using 2 n by (subst TreeFind_loop.simps) (auto simp: Let_def)
  next
    case pos: 2
    then show ?thesis
      using 2(1) [OF refl _ _ sub(2)] 2(4) n by (subst TreeFind_loop.simps) (auto simp: Let_def kids_def)
  next
    case neg: 3
    then show ?thesis
      using 2(2) [OF refl _ _ sub(1)] 2(4) n by (subst TreeFind_loop.simps) (auto simp: Let_def kids_def)
  qed
qed

lemma TreeFindIndex1_descend:
  assumes "holds i T t" "t_compare t i = Some compare"
  shows "TreeFindIndex1 key i t = Some (root_of (fst (descend (\<lambda>c. compare c key) T [])))"
proof (cases "descend (\<lambda>c. compare c key) T []")
  case (Pair x' k')
  then show ?thesis
    using TreeFind_loop_descend [of t None T compare key "[]" x' k'] assms by (cases T) (auto simp: TreeFindIndex1_def holds_def)
qed

section \<open>Insertion\<close>

lemma root_nodes_commute: "t\<lparr>t_root := p, t_nodes := h\<rparr> = t\<lparr>t_nodes := h, t_root := p\<rparr>"
  by simp

definition counted :: "nat \<Rightarrow> int \<Rightarrow> int \<Rightarrow> ('k, 'c) Tree \<Rightarrow> ('k, 'c) Tree" where
  "counted i n s t = (if i = 0 then t\<lparr>t_count := t_count t + n, t_size := t_size t + s\<rparr> else t)"

lemma counted_simps [simp]: "t_nodes (counted i n s t) = t_nodes t" "t_root (counted i n s t) = t_root t"
  "t_next (counted i n s t) = t_next t" "t_compare (counted i n s t) = t_compare t" "t_indexes (counted i n s t) = t_indexes t"
  "t_allow_duplicates (counted i n s t) = t_allow_duplicates t" "t_heap_tracking (counted i n s t) = t_heap_tracking t"
  by (simp_all add: counted_def)

lemma holds_counted [simp]: "holds j T (counted i n s t) = holds j T t"
  by (simp add: holds_def)

definition tree_add :: "('c \<Rightarrow> int) \<Rightarrow> nat \<Rightarrow> 'c \<Rightarrow> int \<Rightarrow> 'c shape \<Rightarrow> 'c shape" where
  "tree_add f a c sz T = paint False
     (case descend f T [] of
        (Lf, k) \<Rightarrow> balance_add (Nd True Lf (a, c, sz) Lf) k
      | (Nd r x e y, k) \<Rightarrow> balance_add (Nd r x (fst e, c, sz) y) k)"

text \<open>The new node is linked below the node where the search ended.\<close>

lemma link_new:
  assumes "holds i (plug Lf k) t" "a \<notin> ctx_addrs k" "t_nodes t a = Some \<lparr>n_parent = None, n_child = (\<lambda>_. None), n_content = None, n_size = 0, n_red = False\<rparr>"
  shows "\<exists>t1 t2. (case last_step k of Some (p, left) \<Rightarrow> set_child p left (Some a) t | None \<Rightarrow> Some (set_root i (Some a) t)) = Some t1 \<and>
    update_node a (\<lambda>n. n\<lparr>n_parent := map_option fst (last_step k), n_red := True\<rparr>) t1 = Some t2 \<and>
    same_but i (insert a (ctx_addrs k)) t t2 \<and>
    holds i (plug (Nd True Lf (a, c, sz) Lf) k) (t2\<lparr>t_nodes := (t_nodes t2)(a \<mapsto> cell (parent_in k) True (a, c, sz) (kids LEFT None None))\<rparr>) \<and>
    t_nodes t2 a = Some \<lparr>n_parent = parent_in k, n_child = (\<lambda>_. None), n_content = None, n_size = 0, n_red = True\<rparr>"
proof (cases k rule: last_step.cases)
  case 1
  let ?h = "(t_nodes t)(a \<mapsto> \<lparr>n_parent = None, n_child = (\<lambda>_. None), n_content = None, n_size = 0, n_red = True\<rparr>)"
  let ?t = "t\<lparr>t_nodes := ?h, t_root := (t_root t)(i := Some a)\<rparr>"
  have "same_but i {a} t ?t"
    unfolding same_but_def by (intro exI [of _ ?h] exI [of _ "Some a"]) simp
  then show ?thesis
    using assms 1 by (simp add: set_node_simps holds_def rep_plug uniq_def root_nodes_commute)
next
  case (2 d r e s k')
  let ?h = "(t_nodes t)(fst e \<mapsto> cell (parent_in k') r e (kids d (Some a) (root_of s)),
    a \<mapsto> \<lparr>n_parent = Some (fst e), n_child = (\<lambda>_. None), n_content = None, n_size = 0, n_red = True\<rparr>)"
  let ?t = "t\<lparr>t_nodes := ?h\<rparr>"
  have n: "t_nodes t (fst e) = Some (cell (parent_in k') r e (kids d None (root_of s)))" "fst e \<noteq> a" "a \<notin> addrs s" "a \<notin> ctx_addrs k'"
    "fst e \<notin> addrs s" "fst e \<notin> ctx_addrs k'" "addrs s \<inter> ctx_addrs k' = {}" "uniq s" "uniq_ctx k'"
    using assms 2 by (auto simp: holds_plug rep_nd uniq_nd)
  have "same_but i (insert a (ctx_addrs k)) t ?t"
    unfolding same_but_def using 2 by (intro exI [of _ ?h] exI [of _ "t_root t i"]) simp
  moreover have "holds i (plug (Nd True Lf (a, c, sz) Lf) k) (?t\<lparr>t_nodes := (t_nodes ?t)(a \<mapsto> cell (parent_in k) True (a, c, sz) (kids LEFT None None))\<rparr>)"
    using assms 2 n by (auto simp: holds_plug rep_nd uniq_nd rep_outside rep_ctx_outside uniq_def [of "Nd _ _ _ _"])
  ultimately show ?thesis
    using assms 2 n by (simp add: set_node_simps)
qed

text \<open>A fresh address is not used by a node.\<close>

definition fresh :: "('k, 'c) Tree \<Rightarrow> bool" where
  "fresh t \<longleftrightarrow> (\<forall>a. t_nodes t a \<noteq> None \<longrightarrow> a < t_next t)"

lemma rep_allocated: "rep h p T \<Longrightarrow> a \<in> addrs T \<Longrightarrow> h a \<noteq> None"
  by (induction T arbitrary: p) auto

lemma holds_fresh: "holds i T t \<Longrightarrow> fresh t \<Longrightarrow> t_next t \<notin> addrs T"
  using rep_allocated [of "t_nodes t" None T "t_next t"] by (auto simp: holds_def fresh_def)

lemma update_content:
  assumes "holds i (plug (Nd r x e y) k) t"
  shows "\<exists>t'. update_node (fst e) (\<lambda>n. n\<lparr>n_content := Some c, n_size := sz\<rparr>) t = Some t' \<and>
    holds i (plug (Nd r x (fst e, c, sz) y) k) t' \<and> same_but i (addrs (plug (Nd r x e y) k)) t t'"
proof -
  let ?h = "(t_nodes t)(fst e \<mapsto> cell (parent_in k) r (fst e, c, sz) (kids LEFT (root_of x) (root_of y)))"
  have n: "t_nodes t (fst e) = Some (cell (parent_in k) r e (kids LEFT (root_of x) (root_of y)))"
    "fst e \<notin> addrs x" "fst e \<notin> addrs y" "fst e \<notin> ctx_addrs k"
    using assms by (auto simp: holds_plug uniq_def addrs_def)
  have "same_but i (addrs (plug (Nd r x e y) k)) t (t\<lparr>t_nodes := ?h\<rparr>)"
    unfolding same_but_def by (intro exI [of _ ?h] exI [of _ "t_root t i"]) (simp add: addrs_plug)
  moreover have "holds i (plug (Nd r x (fst e, c, sz) y) k) (t\<lparr>t_nodes := ?h\<rparr>)"
    using assms n by (auto simp: holds_plug rep_outside rep_ctx_outside uniq_def)
  ultimately show ?thesis
    using n(1) by (simp add: update_node_def cell_def)
qed

lemma TreeAddByIndex_replace:
  assumes "holds i T t" "t_compare t i = Some compare" "\<not> t_allow_duplicates t"
    "descend (\<lambda>c. compare c (Content content)) T [] = (Nd r x e y, k)"
  shows "\<exists>t'. TreeAddByIndex content sz i t = Some (Some (fst (snd e)), t') \<and>
    holds i (tree_add (\<lambda>c. compare c (Content content)) a content sz T) t' \<and> same_but i (addrs T) (counted i 0 (sz - snd (snd e)) t) t'"
proof -
  have T: "plug (Nd r x e y) k = T"
    using plug_descend [OF assms(4)] by simp
  let ?t = "counted i 0 (sz - snd (snd e)) t"
  have n: "t_nodes t (fst e) = Some (cell (parent_in k) r e (kids LEFT (root_of x) (root_of y)))"
    using assms(1) T by (auto simp: holds_plug)
  have search: "TreeAdd_search compare content t None (t_root t i) = Some (last_step k, Some (fst e))"
    using TreeAdd_search_descend [of t None T compare content "[]"] assms(1,4) by (simp add: holds_def)
  obtain t2 where t2: "update_node (fst e) (\<lambda>n. n\<lparr>n_content := Some content, n_size := sz\<rparr>) ?t = Some t2"
    "holds i (plug (Nd r x (fst e, content, sz) y) k) t2" "same_but i (addrs T) ?t t2"
    using update_content [of i r x e y k ?t sz content] assms(1) T by auto
  obtain t3 where t3: "TreeBalanceAfterAdd (fst e) i t2 = Some t3" "holds i (paint False (balance_add (Nd r x (fst e, content, sz) y) k)) t3"
    "same_but i (addrs (plug (Nd r x (fst e, content, sz) y) k)) t2 t3"
    using BalanceAfterAdd_plug [OF t2(2), of "fst e"] by auto
  have "?t = (if i = 0 then t\<lparr>t_size := t_size t + (sz - snd (snd e))\<rparr> else t)"
    by (simp add: counted_def)
  then have "TreeAddByIndex content sz i t = Some (Some (fst (snd e)), t3)"
    using assms(2,3) search n t2(1) t3(1) by (cases "i = 0") (simp_all add: TreeAddByIndex_def)
  moreover have "same_but i (addrs T) ?t t3"
    using same_but_addrs [OF t2(3) t3(3)] T by (auto simp: addrs_plug)
  ultimately show ?thesis
    using t3(2) assms(4) by (simp add: tree_add_def)
qed

lemma TreeAddByIndex_new:
  assumes "holds i T t" "t_compare t i = Some compare" "fresh t"
    "descend (\<lambda>c. compare c (Content content)) T [] = (Lf, k)"
  shows "\<exists>t'. TreeAddByIndex content sz i t = Some (None, t') \<and>
    holds i (tree_add (\<lambda>c. compare c (Content content)) (t_next t) content sz T) t' \<and>
    same_but i (insert (t_next t) (addrs T)) (counted i 1 sz (t\<lparr>t_next := Suc (t_next t)\<rparr>)) t'"
proof -
  have T: "plug Lf k = T"
    using plug_descend [OF assms(4)] by simp
  let ?a = "t_next t"
  define t0 where "t0 = t\<lparr>t_next := Suc ?a, t_nodes := (t_nodes t)(?a \<mapsto>
      \<lparr>n_parent = None, n_child = (\<lambda>_. None), n_content = None, n_size = 0, n_red = False\<rparr>)\<rparr>"
  have a: "?a \<notin> addrs T"
    by (rule holds_fresh [OF assms(1,3)])
  then have a': "?a \<notin> ctx_addrs k"
    using T by (auto simp: addrs_plug)
  have search: "TreeAdd_search compare content t None (t_root t i) = Some (last_step k, None)"
    using TreeAdd_search_descend [of t None T compare content "[]"] assms(1,4) by (simp add: holds_def)
  have "holds i (plug Lf k) t0"
    using assms(1) a T by (auto simp: holds_def t0_def rep_outside)
  from link_new [OF this a', of content sz] obtain t1 t2 where
    t1: "(case last_step k of Some (p, left) \<Rightarrow> set_child p left (Some ?a) t0 | None \<Rightarrow> Some (set_root i (Some ?a) t0)) = Some t1"
      "update_node ?a (\<lambda>n. n\<lparr>n_parent := map_option fst (last_step k), n_red := True\<rparr>) t1 = Some t2"
      "same_but i (insert ?a (ctx_addrs k)) t0 t2" and
    h2: "holds i (plug (Nd True Lf (?a, content, sz) Lf) k) (t2\<lparr>t_nodes := (t_nodes t2)(?a \<mapsto> cell (parent_in k) True (?a, content, sz) (kids LEFT None None))\<rparr>)" and
    n2: "t_nodes t2 ?a = Some \<lparr>n_parent = parent_in k, n_child = (\<lambda>_. None), n_content = None, n_size = 0, n_red = True\<rparr>"
    by (auto simp: t0_def)
  let ?t2 = "(if i = 0 then t2\<lparr>t_count := t_count t2 + 1, t_size := t_size t2 + sz\<rparr> else t2)"
  define t3 where "t3 = counted i 1 sz (t2\<lparr>t_nodes := (t_nodes t2)(?a \<mapsto> cell (parent_in k) True (?a, content, sz) (kids LEFT None None))\<rparr>)"
  have u: "update_node ?a (\<lambda>n. n\<lparr>n_content := Some content, n_size := sz\<rparr>) ?t2 = Some t3"
    using n2 by (simp add: update_node_def t3_def counted_def cell_def kids_def)
  have h3: "holds i (plug (Nd True Lf (?a, content, sz) Lf) k) t3"
    using h2 by (simp add: t3_def)
  obtain t4 where t4: "TreeBalanceAfterAdd ?a i t3 = Some t4" "holds i (paint False (balance_add (Nd True Lf (?a, content, sz) Lf) k)) t4"
    "same_but i (addrs (plug (Nd True Lf (?a, content, sz) Lf) k)) t3 t4"
    using BalanceAfterAdd_plug [OF h3, of ?a] by auto
  have "TreeAddByIndex content sz i t = Some (None, t4)"
    using assms(2) search t1(1) [unfolded t0_def] t1(2) u t4(1) by (simp add: TreeAddByIndex_def Let_def)
  moreover have "same_but i (insert ?a (addrs T)) (counted i 1 sz (t\<lparr>t_next := Suc ?a\<rparr>)) t4"
  proof -
    obtain h p where t2: "t2 = t0\<lparr>t_nodes := h, t_root := (t_root t0)(i := p)\<rparr>" "\<forall>b. b \<notin> insert ?a (ctx_addrs k) \<longrightarrow> h b = t_nodes t0 b"
      using t1(3) by (auto simp: same_but_def)
    have "same_but i (insert ?a (ctx_addrs k)) (counted i 1 sz (t\<lparr>t_next := Suc ?a\<rparr>)) t3"
      unfolding same_but_def
      by (rule exI [of _ "h(?a \<mapsto> cell (parent_in k) True (?a, content, sz) (kids LEFT None None))"], rule exI [of _ p])
        (use t2 in \<open>simp add: t3_def t0_def counted_def\<close>)
    then show ?thesis
      using same_but_addrs [OF _ t4(3)] T by (auto simp: addrs_plug)
  qed
  ultimately show ?thesis
    using t4(2) assms(4) by (simp add: tree_add_def)
qed

end
