(* ===== verification/Mqtt_Tree_Remove.thy ===== *)
theory Mqtt_Tree_Remove
  imports Mqtt_Tree_Add
begin

text \<open>
  Removal from a search tree, \<^verbatim>\<open>Tree.c\<close>: \<open>TreeBalanceAfterRemove\<close> and \<open>TreeRemoveNodeIndex\<close> on the store compute
  \<open>balance_remove\<close> and \<open>tree_remove\<close> on the tree as a value. The node from which the balancing starts is a node of the tree or,
  when a leaf was removed, the node \<open>temp\<close>, which stands for the empty tree in its place.
\<close>

section \<open>The current node\<close>

definition cursor :: "nat \<Rightarrow> 'c shape \<Rightarrow> 'c frame list \<Rightarrow> ('k, 'c) Tree \<Rightarrow> bool" where
  "cursor c x k t \<longleftrightarrow>
     (if x = Lf then c \<notin> ctx_addrs k \<and> (\<exists>n. t_nodes t c = Some n \<and> n_parent n = parent_in k \<and> \<not> n_red n \<and> n_content n = None)
      else root_of x = Some c)"

lemma cursor_node: "root_of x = Some c \<Longrightarrow> cursor c x k t"
  by (auto simp: cursor_def)

lemma cursor_parent: "holds i (plug x k) t \<Longrightarrow> cursor c x k t \<Longrightarrow> parent_of t c = parent_in k"
  by (cases x) (auto simp: cursor_def holds_plug parent_of_def)

lemma cursor_black: "holds i (plug x k) t \<Longrightarrow> cursor c x k t \<Longrightarrow> isBlack t (Some c) = Some (\<not> is_red x)"
  by (cases x) (auto simp: cursor_def holds_plug isBlack_def)

text \<open>The node \<open>temp\<close> is not changed by operations on the tree.\<close>

lemma cursor_same:
  assumes "cursor c x k t" "same_but i A t t'" "x = Lf \<Longrightarrow> c \<notin> A" "ctx_addrs k' \<subseteq> A" "parent_in k' = parent_in k"
  shows "cursor c x k' t'"
  using assms by (auto simp: cursor_def same_but_def)

lemma cursor_frame: "holds i (plug x (Fr d r e s # k)) t \<Longrightarrow> cursor c x (Fr d r e s # k) t \<Longrightarrow> x = Lf \<Longrightarrow> c \<notin> addrs (plug x (Fr d r e s # k))"
  by (auto simp: cursor_def addrs_plug)

section \<open>Balancing\<close>

fun bar :: "bool \<Rightarrow> bool \<Rightarrow> 'c entry \<Rightarrow> 'c shape \<Rightarrow> 'c shape \<Rightarrow> 'c shape + 'c shape" where
  "bar d r e x s =
     (if s = Lf then Inl (nd d r e x s)
      else let y = sub d s; z = sub (\<not> d) s in
        if \<not> is_red y \<and> \<not> is_red z then Inl (nd d r e x (paint True s))
        else if is_red z then Inr (nd d r (ent s) (nd d False e x y) (paint False z))
        else Inr (nd d r (ent y) (nd d False e x (sub d y)) (nd d False (ent s) (sub (\<not> d) y) z)))"

declare bar.simps [simp del]

fun balance_remove :: "'c shape \<Rightarrow> 'c frame list \<Rightarrow> 'c shape" where
  "balance_remove x [] = paint False x"
| "balance_remove x (Fr d r e s # k) =
     (if is_red x then plug (paint False x) (Fr d r e s # k)
      else if is_red s then
        (case bar d True e x (sub d s) of
           Inl y \<Rightarrow> plug (paint False y) (Fr d False (ent s) (sub (\<not> d) s) # k)
         | Inr y \<Rightarrow> paint False (plug y (Fr d False (ent s) (sub (\<not> d) s) # k)))
      else
        (case bar d r e x s of
           Inl y \<Rightarrow> balance_remove y k
         | Inr y \<Rightarrow> paint False (plug y k)))"

lemma rotate_up:
  assumes "holds i (plug (nd d r e x (nd d q f y z)) k) t" "root_of z = Some b"
  shows "\<exists>t4 t5 t6 t7. set_red (fst f) r t = Some t4 \<and> set_red (fst e) False t4 = Some t5 \<and> set_red b False t5 = Some t6 \<and>
    TreeRotate (fst e) d i t6 = Some t7 \<and> t_nodes t5 (fst f) = Some (cell (Some (fst e)) r f (kids d (root_of y) (Some b))) \<and>
    holds i (plug (nd d r f (nd d False e x y) (paint False z)) k) t7 \<and> same_but i (addrs (plug (nd d r e x (nd d q f y z)) k)) t t7"
proof -
  let ?A = "addrs (plug (nd d r e x (nd d q f y z)) k)"
  obtain t4 where t4: "set_red (fst f) r t = Some t4" "holds i (plug (nd d r e x (nd d r f y z)) k) t4" "same_but i ?A t t4"
    using set_red_plug [of i "nd d q f y z" "Fr (\<not> d) r e x # k" t "fst f" r] assms(1) by (auto simp: nd_swap)
  obtain t5 where t5: "set_red (fst e) False t4 = Some t5" "holds i (plug (nd d False e x (nd d r f y z)) k) t5"
    "same_but i (addrs (plug (nd d r e x (nd d r f y z)) k)) t4 t5"
    using set_red_plug [of i "nd d r e x (nd d r f y z)" k t4 "fst e" False] t4(2) by auto
  obtain t6 where t6: "set_red b False t5 = Some t6" "holds i (plug (nd d False e x (nd d r f y (paint False z))) k) t6"
    "same_but i (addrs (plug (nd d False e x (nd d r f y z)) k)) t5 t6"
    using set_red_plug [of i z "Fr (\<not> d) r f y # Fr (\<not> d) False e x # k" t5 b False] t5(2) assms(2) by (auto simp: nd_swap)
  from TreeRotate_plug [OF t6(2)] obtain t7 where t7: "TreeRotate (fst e) d i t6 = Some t7"
    "holds i (plug (nd d r f (nd d False e x y) (paint False z)) k) t7" "same_but i (addrs (plug (nd d False e x (nd d r f y (paint False z))) k)) t6 t7"
    by blast
  have "t_nodes t5 (fst f) = Some (cell (Some (fst e)) r f (kids d (root_of y) (Some b)))"
    using node_at [of i d r f y z "Fr (\<not> d) False e x # k" t5] t5(2) assms(2) by (simp add: nd_swap)
  moreover have "same_but i ?A t t7"
    using same_but_addrs [OF same_but_addrs [OF same_but_addrs [OF t4(3) t5(3)] t6(3)] t7(3)] by (simp add: addrs_plug)
  ultimately show ?thesis
    using t4(1) t5(1) t6(1) t7(1,2) by blast
qed

lemma root_plug_nd: "\<exists>a. root_of (plug (nd d r e x y) k) = Some a"
proof (induction k arbitrary: d r e x y)
  case (Cons f k)
  then show ?case
    by (cases f) simp
qed simp

definition bar_result :: "nat \<Rightarrow> 'c entry \<Rightarrow> nat set \<Rightarrow> 'c frame list \<Rightarrow> 'c shape + 'c shape \<Rightarrow> ('k, 'c) Tree \<Rightarrow> (nat \<times> ('k, 'c) Tree) option \<Rightarrow> bool" where
  "bar_result i e A k res t out \<longleftrightarrow>
     (case res of
        Inl y \<Rightarrow> \<exists>t'. out = Some (fst e, t') \<and> root_of y = Some (fst e) \<and> holds i (plug y k) t' \<and> same_but i A t t'
      | Inr y \<Rightarrow> \<exists>a t'. out = Some (a, t') \<and> root_of (plug y k) = Some a \<and> holds i (plug y k) t' \<and> same_but i A t t')"

lemma BARSub_outer:
  assumes "holds i (plug (nd d r e x (nd d q f y z)) k) t" "cursor c x (Fr d r e (nd d q f y z) # k) t" "is_red z"
  shows "bar_result i e (addrs (plug (nd d r e x (nd d q f y z)) k)) k (Inr (nd d r f (nd d False e x y) (paint False z))) t
    (TreeBARSub_rest c (\<not> d) i (Some (fst f)) t)"
proof -
  obtain b where b: "root_of z = Some b"
    using assms(3) by (cases z) auto
  have h: "holds i (plug (nd d q f y z) (Fr (\<not> d) r e x # k)) t"
    using assms(1) by (simp add: nd_swap)
  note n = node_at [OF h] node_at [OF assms(1)]
  have red: "isBlack t (root_of z) = Some False" "isBlack t (root_of y) = Some (\<not> is_red y)"
    using isBlack_rep [of t "Some (fst f)"] holds_sub [OF h] assms(3) by auto
  have p: "parent_of t c = Some (fst e)"
    using cursor_parent [of i x "Fr d r e (nd d q f y z) # k" t c] assms(1,2) by simp
  obtain t4 t5 t6 t7 where steps: "set_red (fst f) r t = Some t4" "set_red (fst e) False t4 = Some t5" "set_red b False t5 = Some t6"
    "TreeRotate (fst e) d i t6 = Some t7" "t_nodes t5 (fst f) = Some (cell (Some (fst e)) r f (kids d (root_of y) (Some b)))" and
    h7: "holds i (plug (nd d r f (nd d False e x y) (paint False z)) k) t7" "same_but i (addrs (plug (nd d r e x (nd d q f y z)) k)) t t7"
    using rotate_up [OF assms(1) b] by blast
  obtain a where a: "root_of (plug (nd d r f (nd d False e x y) (paint False z)) k) = Some a"
    using root_plug_nd by blast
  then have "t_root t7 i = Some a"
    using h7(1) by (simp add: holds_def)
  then have "TreeBARSub_rest c (\<not> d) i (Some (fst f)) t = Some (a, t7)"
    using n red p steps b by (simp add: TreeBARSub_rest_def)
  then show ?thesis
    using a h7 by (simp add: bar_result_def)
qed

lemma BARSub_inner:
  assumes "holds i (plug (nd d r e x (nd d q f (nd d True g u v) z)) k) t" "cursor c x (Fr d r e (nd d q f (nd d True g u v) z) # k) t" "\<not> is_red z"
  shows "bar_result i e (addrs (plug (nd d r e x (nd d q f (nd d True g u v) z)) k)) k (Inr (nd d r g (nd d False e x u) (nd d False f v z))) t
    (TreeBARSub_rest c (\<not> d) i (Some (fst f)) t)"
proof -
  let ?A = "addrs (plug (nd d r e x (nd d q f (nd d True g u v) z)) k)"
  have h: "holds i (plug (nd d q f (nd d True g u v) z) (Fr (\<not> d) r e x # k)) t"
    using assms(1) by (simp add: nd_swap)
  note n = node_at [OF h]
  have red: "isBlack t (root_of z) = Some True" "isBlack t (Some (fst g)) = Some False"
    using isBlack_rep [of t "Some (fst f)"] holds_sub [OF h] assms(3) by force+
  have p: "parent_of t c = Some (fst e)"
    using cursor_parent [of i x "Fr d r e (nd d q f (nd d True g u v) z) # k" t c] assms(1,2) by simp
  obtain t1 where t1: "set_red (fst g) False t = Some t1" "holds i (plug (nd d r e x (nd d q f (nd d False g u v) z)) k) t1" "same_but i ?A t t1"
    using set_red_plug [of i "nd d True g u v" "Fr d q f z # Fr (\<not> d) r e x # k" t "fst g" False] assms(1) by (auto simp: nd_swap)
  obtain t2 where t2: "set_red (fst f) True t1 = Some t2" "holds i (plug (nd d r e x (nd d True f (nd d False g u v) z)) k) t2"
    "same_but i (addrs (plug (nd d r e x (nd d q f (nd d False g u v) z)) k)) t1 t2"
    using set_red_plug [of i "nd d q f (nd d False g u v) z" "Fr (\<not> d) r e x # k" t1 "fst f" True] t1(2) by (auto simp: nd_swap)
  have "holds i (plug (nd (\<not> d) True f z (nd (\<not> d) False g v u)) (Fr (\<not> d) r e x # k)) t2"
    using t2(2) by (simp add: nd_swap)
  from TreeRotate_plug [OF this] obtain t3 where t3: "TreeRotate (fst f) (\<not> d) i t2 = Some t3"
    "holds i (plug (nd d r e x (nd d False g u (nd d True f v z))) k) t3"
    "same_but i (addrs (plug (nd d r e x (nd d True f (nd d False g u v) z)) k)) t2 t3"
    by (auto simp: nd_swap)
  have same: "same_but i ?A t t3"
    using same_but_addrs [OF same_but_addrs [OF t1(3) t2(3)] t3(3)] by (simp add: addrs_plug)
  have "cursor c x (Fr d r e (nd d False g u (nd d True f v z)) # k) t3"
    using cursor_frame [of i x d r e "nd d q f (nd d True g u v) z" k t c] assms(1,2)
    by (intro cursor_same [OF assms(2) same]) (auto simp: addrs_plug)
  then have p3: "parent_of t3 c = Some (fst e)"
    using cursor_parent [of i x "Fr d r e (nd d False g u (nd d True f v z)) # k" t3 c] t3(2) by simp
  obtain t4 t5 t6 t7 where steps: "set_red (fst g) r t3 = Some t4" "set_red (fst e) False t4 = Some t5" "set_red (fst f) False t5 = Some t6"
    "TreeRotate (fst e) d i t6 = Some t7" "t_nodes t5 (fst g) = Some (cell (Some (fst e)) r g (kids d (root_of u) (Some (fst f))))" and
    h7: "holds i (plug (nd d r g (nd d False e x u) (nd d False f v z)) k) t7" "same_but i (addrs (plug (nd d r e x (nd d False g u (nd d True f v z))) k)) t3 t7"
    using rotate_up [OF t3(2), of "fst f"] by auto
  obtain a where a: "root_of (plug (nd d r g (nd d False e x u) (nd d False f v z)) k) = Some a"
    using root_plug_nd by blast
  then have "t_root t7 i = Some a"
    using h7(1) by (simp add: holds_def)
  then have "TreeBARSub_rest c (\<not> d) i (Some (fst f)) t = Some (a, t7)"
    using n red p p3 t1(1) t2(1) t3(1) node_at [OF t3(2)] steps by (simp add: TreeBARSub_rest_def)
  moreover have "same_but i ?A t t7"
    using same_but_addrs [OF same h7(2)] by (auto simp: addrs_plug)
  ultimately show ?thesis
    using a h7(1) by (simp add: bar_result_def)
qed

lemma BARSub_rest_plug:
  assumes "holds i (plug (nd d r e x s) k) t" "cursor c x (Fr d r e s # k) t"
  shows "bar_result i e (addrs (plug (nd d r e x s) k)) k (bar d r e x s) t (TreeBARSub_rest c (\<not> d) i (root_of s) t)"
proof (cases "s = Lf")
  case True
  then show ?thesis
    using cursor_parent [of i x "Fr d r e s # k" t c] assms by (simp add: bar.simps bar_result_def TreeBARSub_rest_def)
next
  case False
  then obtain q f y z where s: "s = nd d q f y z"
    using nd_cases [of s d] by blast
  consider "is_red z" | "\<not> is_red z" "is_red y" | "\<not> is_red z" "\<not> is_red y"
    by blast
  then show ?thesis
  proof cases
    case 1
    then show ?thesis
      using BARSub_outer [of i d r e x q f y z k t c] assms s by (simp add: bar.simps)
  next
    case 2
    then have "y \<noteq> Lf"
      by auto
    then obtain g u v where "y = nd d True g u v"
      using nd_cases [of y d] 2 by auto
    then show ?thesis
      using BARSub_inner [of i d r e x q f g u v z k t c] assms s 2 by (simp add: bar.simps)
  next
    case 3
    have h: "holds i (plug (nd d q f y z) (Fr (\<not> d) r e x # k)) t"
      using assms(1) s by (simp add: nd_swap)
    have "isBlack t (root_of z) = Some True" "isBlack t (root_of y) = Some True"
      using isBlack_rep [of t "Some (fst f)"] holds_sub [OF h] 3 by auto
    moreover obtain t' where "set_red (fst f) True t = Some t'" "holds i (plug (nd d r e x (nd d True f y z)) k) t'"
      "same_but i (addrs (plug (nd d r e x s) k)) t t'"
      using set_red_plug [OF h, of "fst f" True] s by (auto simp: nd_swap)
    ultimately show ?thesis
      using node_at [OF h] cursor_parent [of i x "Fr d r e s # k" t c] assms s 3 by (simp add: bar.simps bar_result_def TreeBARSub_rest_def)
  qed
qed

lemma BARSub_red_sibling:
  assumes "holds i (plug (nd d r e x (nd d True f y z)) k) t" "cursor c x (Fr d r e (nd d True f y z) # k) t"
  shows "bar_result i e (addrs (plug (nd d r e x (nd d True f y z)) k)) (Fr d False f z # k) (bar d True e x y) t (TreeBARSub c (\<not> d) i t)"
proof -
  let ?A = "addrs (plug (nd d r e x (nd d True f y z)) k)"
  have p: "parent_of t c = Some (fst e)"
    using cursor_parent [of i x "Fr d r e (nd d True f y z) # k" t c] assms by simp
  have red: "isRed t (Some (fst f)) = Some True"
    using isRed_rep [of t "Some (fst e)" "nd d True f y z"] holds_sub [OF assms(1)] by simp
  obtain t1 where t1: "set_red (fst f) False t = Some t1" "holds i (plug (nd d r e x (nd d False f y z)) k) t1" "same_but i ?A t t1"
    using set_red_plug [of i "nd d True f y z" "Fr (\<not> d) r e x # k" t "fst f" False] assms(1) by (auto simp: nd_swap)
  obtain t2 where t2: "set_red (fst e) True t1 = Some t2" "holds i (plug (nd d True e x (nd d False f y z)) k) t2"
    "same_but i (addrs (plug (nd d r e x (nd d False f y z)) k)) t1 t2"
    using set_red_plug [of i "nd d r e x (nd d False f y z)" k t1 "fst e" True] t1(2) by auto
  from TreeRotate_plug [OF t2(2)] obtain t3 where t3: "TreeRotate (fst e) d i t2 = Some t3"
    "holds i (plug (nd d True e x y) (Fr d False f z # k)) t3" "same_but i (addrs (plug (nd d True e x (nd d False f y z)) k)) t2 t3"
    by auto
  have same: "same_but i ?A t t3"
    using same_but_addrs [OF same_but_addrs [OF t1(3) t2(3)] t3(3)] by (simp add: addrs_plug)
  have cur: "cursor c x (Fr d True e y # Fr d False f z # k) t3"
    using cursor_frame [of i x d r e "nd d True f y z" k t c] assms
    by (intro cursor_same [OF assms(2) same]) (auto simp: addrs_plug)
  then have "parent_of t3 c = Some (fst e)"
    using cursor_parent [of i x "Fr d True e y # Fr d False f z # k" t3 c] t3(2) by simp
  then have eq: "TreeBARSub c (\<not> d) i t = TreeBARSub_rest c (\<not> d) i (root_of y) t3"
    using node_at [OF assms(1)] p red t1(1) t2(1) t3(1) node_at [OF t3(2)] by (simp add: TreeBARSub_def)
  have "addrs (plug (nd d True e x y) (Fr d False f z # k)) = ?A"
    by (auto simp: addrs_plug)
  then have "bar_result i e ?A (Fr d False f z # k) (bar d True e x y) t3 (TreeBARSub c (\<not> d) i t)"
    using BARSub_rest_plug [OF t3(2) cur] eq by simp
  then show ?thesis
    using same_but_trans [OF same] unfolding bar_result_def by (fastforce split: sum.splits)
qed

lemma BARSub_black_sibling:
  assumes "holds i (plug (nd d r e x s) k) t" "cursor c x (Fr d r e s # k) t" "\<not> is_red s"
  shows "bar_result i e (addrs (plug (nd d r e x s) k)) k (bar d r e x s) t (TreeBARSub c (\<not> d) i t)"
proof -
  have "isRed t (root_of s) = Some False"
    using isRed_rep [of t "Some (fst e)" s] holds_sub [OF assms(1)] assms(3) by simp
  then have "TreeBARSub c (\<not> d) i t = TreeBARSub_rest c (\<not> d) i (root_of s) t"
    using node_at [OF assms(1)] cursor_parent [of i x "Fr d r e s # k" t c] assms(1,2) by (simp add: TreeBARSub_def)
  then show ?thesis
    using BARSub_rest_plug [OF assms(1,2)] by simp
qed

text \<open>The loop.\<close>

lemma root_with_in: "k \<noteq> [] \<Longrightarrow> \<exists>a. root_with p k = Some a \<and> a \<in> ctx_addrs k"
proof (induction p k rule: root_with.induct)
  case (2 p d r e s k)
  then show ?case
    by (cases k) auto
qed simp

lemma cursor_root:
  assumes "holds i (plug x k) t" "cursor c x k t" "x = Lf \<Longrightarrow> k \<noteq> []"
  shows "t_root t i = Some c \<longleftrightarrow> k = []"
proof (cases "k = []")
  case True
  then have "x \<noteq> Lf"
    using assms(3) by blast
  with True show ?thesis
    using assms(1,2) by (auto simp: cursor_def holds_def)
next
  case False
  then obtain a where "t_root t i = Some a" "a \<in> ctx_addrs k"
    using root_with_in [of k "root_of x"] assms(1) by (auto simp: holds_plug)
  moreover have "c \<notin> ctx_addrs k"
    using assms(1,2) root_of_addrs [of x c] by (auto simp: cursor_def holds_plug split: if_splits)
  ultimately show ?thesis
    using False by auto
qed

lemma remove_loop_ends:
  assumes "holds i (plug x k) t" "cursor c x k t" "is_red x \<or> k = [] \<and> x \<noteq> Lf"
  shows "TreeBalanceAfterRemove_loop c i t = Some (c, t)"
proof -
  have "isBlack t (Some c) = Some (\<not> is_red x)"
    by (rule cursor_black [OF assms(1,2)])
  moreover have "t_root t i = Some c \<longleftrightarrow> k = []"
    using assms by (intro cursor_root) auto
  ultimately show ?thesis
    using assms(3) by (subst TreeBalanceAfterRemove_loop.simps) auto
qed

lemma remove_loop_goes:
  assumes "holds i (plug (nd d r e x s) k) t" "cursor c x (Fr d r e s # k) t" "\<not> is_red x"
  shows "TreeBalanceAfterRemove_loop c i t = do { (cur, t') \<leftarrow> TreeBARSub c (\<not> d) i t; TreeBalanceAfterRemove_loop cur i t' }"
proof -
  let ?k = "Fr d r e s # k"
  have h: "holds i (plug x ?k) t"
    using assms(1) by simp
  have black: "isBlack t (Some c) = Some True"
    using cursor_black [OF h assms(2)] assms(3) by simp
  have root: "t_root t i \<noteq> Some c"
    using cursor_root [OF h assms(2)] by simp
  have pn: "t_nodes t (fst e) = Some (cell (parent_in k) r e (kids d (root_of x) (root_of s)))"
    by (rule node_at [OF assms(1)])
  have p: "parent_of t c = Some (fst e)"
    using cursor_parent [OF h assms(2)] by simp
  obtain n where n: "t_nodes t c = Some n" "n_parent n = Some (fst e)" "n_content n = None \<longleftrightarrow> x = Lf"
    using assms(2) h by (cases x) (auto simp: cursor_def holds_plug rep_nd)
  define b where "b \<longleftrightarrow> (if n_content n = None then None else Some c) = kids d (root_of x) (root_of s) LEFT"
  have "TreeBARSub c (if b then RIGHT else LEFT) i t = TreeBARSub c (\<not> d) i t"
  proof (cases "x = Lf \<and> s = Lf")
    case True
    then show ?thesis
      using p pn by (simp add: TreeBARSub_def kids_def isRed_def TreeBARSub_rest_def)
  next
    case False
    have "root_of x = Some c" if "x \<noteq> Lf"
      using that assms(2) by (simp add: cursor_def)
    then have "b \<longleftrightarrow> d = LEFT"
      using False n(3) child_is [OF assms(1), of c LEFT] by (cases "x = Lf"; cases s) (auto simp: b_def kids_def)
    then show ?thesis
      by simp
  qed
  then show ?thesis
    using black root pn n b_def [symmetric] by (subst TreeBalanceAfterRemove_loop.simps) (simp add: eq_commute [of "Some c"])
qed

lemma entries_bar:
  assumes "bar d r e x s = res"
  shows "entries (case res of Inl y \<Rightarrow> y | Inr y \<Rightarrow> y) = entries (nd d r e x s)"
proof (cases "s = Lf")
  case False
  then obtain q f y z where s: "s = nd d q f y z"
    using nd_cases [of s d] by blast
  show ?thesis
  proof (cases "y = Lf")
    case False
    then obtain q' g u v where "y = nd d q' g u v"
      using nd_cases [of y d] by blast
    then show ?thesis
      using assms s by (cases d) (auto simp: bar.simps entries_nd Let_def)
  qed (use assms s in \<open>cases d; auto simp: bar.simps entries_nd Let_def\<close>)
qed (use assms in \<open>auto simp: bar.simps\<close>)

lemma bar_Inl: "bar d r e x s = Inl y \<Longrightarrow> is_red y = r \<and> root_of y = Some (fst e)"
  by (auto simp: bar.simps Let_def split: if_splits)

lemma entries_balance_remove: "entries (balance_remove x k) = entries (plug x k)"
proof (induction x k rule: balance_remove.induct)
  case (2 x d r e s k)
  have s: "s = nd d True (ent s) (sub d s) (sub (\<not> d) s)" if "is_red s"
    using that nd_cases [of s d] by (cases "s = Lf") auto
  show ?case
  proof (cases "is_red x")
    case False
    show ?thesis
    proof (cases "is_red s")
      case True
      have "entries (plug x (Fr d r e s # k)) = entries (plug (nd d True e x (sub d s)) (Fr d False (ent s) (sub (\<not> d) s) # k))"
        by (subst s [OF True]) (cases d; simp add: entries_plug entries_nd)
      then show ?thesis
        using False True entries_bar [of d True e x "sub d s"] by (cases "bar d True e x (sub d s)") (simp_all add: entries_plug entries_nd)
    next
      case black: False
      then show ?thesis
        using 2 False entries_bar [of d r e x s] by (cases "bar d r e x s") (simp_all add: entries_plug)
    qed
  qed (simp add: entries_plug entries_nd)
qed simp

lemma BalanceAfterRemove_plug:
  assumes "holds i (plug x k) t" "cursor c x k t" "x = Lf \<Longrightarrow> k \<noteq> []"
  shows "\<exists>t'. TreeBalanceAfterRemove c i t = Some t' \<and> holds i (balance_remove x k) t' \<and> same_but i (addrs (plug x k)) t t'"
  using assms
proof (induction x k arbitrary: t c rule: balance_remove.induct)
  case (1 x)
  then have r: "root_of x = Some c"
    by (auto simp: cursor_def split: if_splits)
  then have "TreeBalanceAfterRemove_loop c i t = Some (c, t)"
    using 1 by (intro remove_loop_ends [of i x "[]"]) auto
  then show ?case
    using set_red_plug [of i x "[]" t c False] 1(1) r by (auto simp: TreeBalanceAfterRemove_def)
next
  case (2 x d r e s k)
  have h: "holds i (plug (nd d r e x s) k) t" and cur: "cursor c x (Fr d r e s # k) t"
    using 2 by auto
  let ?A = "addrs (plug (nd d r e x s) k)"
  consider "is_red x" | "\<not> is_red x" "is_red s" | "\<not> is_red x" "\<not> is_red s"
    by blast
  then show ?case
  proof cases
    case 1
    then have "root_of x = Some c"
      using cur by (auto simp: cursor_def split: if_splits)
    moreover have "TreeBalanceAfterRemove_loop c i t = Some (c, t)"
      using 1 h cur by (intro remove_loop_ends [of i x "Fr d r e s # k"]) auto
    ultimately show ?thesis
      using set_red_plug [of i x "Fr d r e s # k" t c False] h 1 by (auto simp: TreeBalanceAfterRemove_def)
  next
    case red: 2
    then have "s \<noteq> Lf"
      by auto
    then obtain f y z where s: "s = nd d True f y z"
      using nd_cases [of s d] red(2) by auto
    let ?k = "Fr d False f z # k"
    have go: "TreeBalanceAfterRemove_loop c i t = do { (cur, t') \<leftarrow> TreeBARSub c (\<not> d) i t; TreeBalanceAfterRemove_loop cur i t' }"
      by (rule remove_loop_goes [OF h cur red(1)])
    have res: "bar_result i e ?A ?k (bar d True e x y) t (TreeBARSub c (\<not> d) i t)"
      using BARSub_red_sibling [of i d r e x f y z k t c] h cur s by simp
    have "\<exists>y' a t'. TreeBARSub c (\<not> d) i t = Some (a, t') \<and> holds i (plug y' ?k) t' \<and> same_but i ?A t t' \<and>
      (bar d True e x y = Inl y' \<and> root_of y' = Some a \<and> is_red y' \<or> bar d True e x y = Inr y' \<and> root_of (plug y' ?k) = Some a)"
      using res bar_Inl [of d True e x y] by (cases "bar d True e x y") (auto simp: bar_result_def)
    then obtain y' a t' where t': "TreeBARSub c (\<not> d) i t = Some (a, t')" "holds i (plug y' ?k) t'" "same_but i ?A t t'" and
      y': "bar d True e x y = Inl y' \<and> root_of y' = Some a \<and> is_red y' \<or> bar d True e x y = Inr y' \<and> root_of (plug y' ?k) = Some a"
      by blast
    have "entries y' = entries (nd d True e x y)"
      using y' entries_bar [of d True e x y] by auto
    then have "addrs y' = addrs (nd d True e x y)"
      by (simp only: addrs_def)
    then have same: "addrs (plug y' ?k) = ?A"
      using s by (auto simp: addrs_plug)
    from y' show ?thesis
    proof
      assume y: "bar d True e x y = Inl y' \<and> root_of y' = Some a \<and> is_red y'"
      then have "TreeBalanceAfterRemove_loop a i t' = Some (a, t')"
        using t'(2) by (intro remove_loop_ends [of i y' ?k]) (auto intro: cursor_node)
      moreover obtain t'' where "set_red a False t' = Some t''" "holds i (plug (paint False y') ?k) t''" "same_but i ?A t' t''"
        using set_red_plug [OF t'(2), of a False] y same by auto
      ultimately show ?thesis
        using go t'(1) same_but_trans [OF t'(3)] y red s by (auto simp: TreeBalanceAfterRemove_def)
    next
      assume y: "bar d True e x y = Inr y' \<and> root_of (plug y' ?k) = Some a"
      have t0: "holds i (plug (plug y' ?k) []) t'"
        using t'(2) by simp
      have "plug y' ?k \<noteq> Lf"
        using y by (metis option.distinct(1) root_of.simps(1))
      then have "TreeBalanceAfterRemove_loop a i t' = Some (a, t')"
        using y t0 by (intro remove_loop_ends [of i "plug y' ?k" "[]"]) (auto intro: cursor_node)
      moreover obtain t'' where "set_red a False t' = Some t''" "holds i (paint False (plug y' ?k)) t''" "same_but i ?A t' t''"
        using set_red_plug [OF t0, of a False] y same by auto
      ultimately show ?thesis
        using go t'(1) same_but_trans [OF t'(3)] y red s by (auto simp: TreeBalanceAfterRemove_def)
    qed
  next
    case black: 3
    have go: "TreeBalanceAfterRemove_loop c i t = do { (cur, t') \<leftarrow> TreeBARSub c (\<not> d) i t; TreeBalanceAfterRemove_loop cur i t' }"
      by (rule remove_loop_goes [OF h cur black(1)])
    have res: "bar_result i e ?A k (bar d r e x s) t (TreeBARSub c (\<not> d) i t)"
      by (rule BARSub_black_sibling [OF h cur black(2)])
    show ?thesis
    proof (cases "bar d r e x s")
      case (Inl y)
      then obtain t' where t': "TreeBARSub c (\<not> d) i t = Some (fst e, t')" "root_of y = Some (fst e)" "holds i (plug y k) t'" "same_but i ?A t t'"
        using res by (auto simp: bar_result_def)
      have "addrs (plug y k) = ?A"
        using entries_bar [OF Inl] by (simp add: addrs_def entries_plug)
      moreover have "y \<noteq> Lf"
        using t'(2) by auto
      ultimately obtain t'' where "TreeBalanceAfterRemove (fst e) i t' = Some t''" "holds i (balance_remove y k) t''" "same_but i ?A t' t''"
        using "2.IH" [OF black Inl t'(3) cursor_node [OF t'(2)]] by auto
      then show ?thesis
        using go t'(1) same_but_trans [OF t'(4)] Inl black by (auto simp: TreeBalanceAfterRemove_def)
    next
      case (Inr y)
      then obtain a t' where t': "TreeBARSub c (\<not> d) i t = Some (a, t')" "root_of (plug y k) = Some a" "holds i (plug (plug y k) []) t'" "same_but i ?A t t'"
        using res by (auto simp: bar_result_def)
      then have "plug y k \<noteq> Lf"
        by (metis option.distinct(1) root_of.simps(1))
      then have "TreeBalanceAfterRemove_loop a i t' = Some (a, t')"
        using t'(2,3) by (intro remove_loop_ends [of i "plug y k" "[]"]) (auto intro: cursor_node)
      moreover have "addrs (plug y k) = ?A"
        using entries_bar [OF Inr] by (simp add: addrs_def entries_plug)
      then obtain t'' where "set_red a False t' = Some t''" "holds i (paint False (plug y k)) t''" "same_but i ?A t' t''"
        using set_red_plug [OF t'(3,2), of False] by auto
      ultimately show ?thesis
        using go t'(1) same_but_trans [OF t'(4)] Inr black by (auto simp: TreeBalanceAfterRemove_def)
    qed
  qed
qed

section \<open>The successor\<close>

fun min_at :: "'c shape \<Rightarrow> 'c frame list \<Rightarrow> 'c shape \<times> 'c frame list" where
  "min_at Lf k = (Lf, k)"
| "min_at (Nd r x e y) k = (if x = Lf then (Nd r x e y, k) else min_at x (Fr LEFT r e y # k))"

lemma min_at_plug: "min_at x k = (x', k') \<Longrightarrow> plug x' k' = plug x k"
  by (induction x k rule: min_at.induct) (auto simp: nd_def split: if_splits)

lemma min_at_append: "min_at x (k @ l) = (case min_at x k of (x', k') \<Rightarrow> (x', k' @ l))"
proof (induction x arbitrary: k)
  case (Nd r x e y)
  then show ?case
    using Nd(1) [of "Fr LEFT r e y # k"] by simp
qed simp

lemma min_at_node: "x \<noteq> Lf \<Longrightarrow> min_at x k = (x', k') \<Longrightarrow> \<exists>r e y. x' = Nd r Lf e y"
  by (induction x k rule: min_at.induct) (auto split: if_splits)

lemma TreeMinimum_loop_rep: "rep (t_nodes t) p x \<Longrightarrow> root_of x = Some a \<Longrightarrow> TreeMinimum_loop t a = root_of (fst (min_at x k))"
proof (induction x arbitrary: p a k)
  case (Nd r x e y)
  show ?case
  proof (cases x)
    case Lf
    then show ?thesis
      using Nd by (subst TreeMinimum_loop.simps) (auto simp: kids_def)
  next
    case (Nd r' x' e' y')
    then show ?thesis
      using Nd.prems Nd.IH(1) [of "Some (fst e)" "fst e'" "Fr LEFT r e y # k"] by (subst TreeMinimum_loop.simps) (auto simp: kids_def)
  qed
qed simp

lemma TreeMinimum_rep: "rep (t_nodes t) p x \<Longrightarrow> TreeMinimum (root_of x) t = Some (root_of (fst (min_at x k)))"
proof (cases x)
  case (Nd r x1 e x2)
  assume "rep (t_nodes t) p x"
  then show ?thesis
    using TreeMinimum_loop_rep [of t p x "fst e" k] min_at_node [of x k] Nd
    by (cases "min_at x k") (auto simp: TreeMinimum_def)
qed (simp add: TreeMinimum_def)

section \<open>Removal of a node\<close>

definition cut :: "bool \<Rightarrow> 'c shape \<Rightarrow> 'c frame list \<Rightarrow> 'c shape" where
  "cut r x k = (if r then plug x k else balance_remove x k)"

fun unlink_step :: "'c shape \<Rightarrow> 'c frame list \<Rightarrow> bool \<times> 'c entry \<times> 'c shape \<times> 'c frame list" where
  "unlink_step Lf k = undefined"
| "unlink_step (Nd r x e y) k =
     (if x \<noteq> Lf \<and> y \<noteq> Lf
      then case min_at y [] of (z, j) \<Rightarrow> (is_red z, ent z, sub RIGHT z, j @ Fr RIGHT r (fst e, snd (ent z)) x # k)
      else (r, e, if x \<noteq> Lf then x else y, k))"

definition tree_remove :: "'c shape \<Rightarrow> 'c frame list \<Rightarrow> 'c shape" where
  "tree_remove x k = (case unlink_step x k of (r, e, y, j) \<Rightarrow> cut r y j)"

text \<open>The redundant node, at \<open>a\<close>, is replaced by its only child.\<close>

lemma unlink_node:
  assumes "holds i (plug (Nd r x e y) k) t" "x = Lf \<or> y = Lf" "z = (if x \<noteq> Lf then x else y)" "n_parent rn = parent_in k"
  shows "\<exists>t2. unlink_redundant (fst e) rn (root_of z) i t = Some t2 \<and>
    holds i (plug z k) t2 \<and> same_but i (addrs (plug z k)) t t2 \<and> fst e \<notin> addrs (plug z k)"
proof -
  have z: "rep (t_nodes t) (Some (fst e)) z" "uniq z" "addrs z \<inter> ctx_addrs k = {}" "fst e \<notin> addrs z"
    and k: "rep_ctx (t_nodes t) (Some (fst e)) k" "uniq_ctx k" "fst e \<notin> ctx_addrs k" "t_root t i = root_with (Some (fst e)) k"
    using assms uniq_nd [of LEFT r e x y] by (auto simp: holds_plug nd_def)
  obtain h where h: "(case root_of z of None \<Rightarrow> Some t | Some c \<Rightarrow> set_parent c (parent_in k) t) = Some (t\<lparr>t_nodes := h\<rparr>)"
    "rep h (parent_in k) z" "\<And>a. a \<notin> addrs z \<Longrightarrow> h a = t_nodes t a"
    using relink_child [OF z(1,2)] by blast
  have "h a = t_nodes t a" if "a \<in> ctx_addrs k" for a
    using that z(3) by (intro h(3)) auto
  moreover define t1 where "t1 = t\<lparr>t_nodes := h\<rparr>"
  ultimately have k1: "rep_ctx (t_nodes t1) (Some (fst e)) k" "t_root t1 i = root_with (Some (fst e)) k"
    using k rep_ctx_cong [of k h "t_nodes t"] by auto
  obtain h' where h': "(case parent_in k of
        None \<Rightarrow> Some (set_root i (root_of z) t1)
      | Some p \<Rightarrow> do { pn \<leftarrow> t_nodes t1 p; if n_child pn LEFT = Some (fst e) then set_child p LEFT (root_of z) t1
          else set_child p (\<not> LEFT) (root_of z) t1 }) =
      Some (t1\<lparr>t_nodes := h', t_root := (t_root t1)(i := root_with (root_of z) k)\<rparr>)"
    "rep_ctx h' (root_of z) k" "\<And>b. b \<notin> ctx_addrs k \<Longrightarrow> h' b = t_nodes t1 b"
    using relink_parent [OF k1(1) k(2,3) k1(2), of "root_of z" LEFT] by blast
  define t2 where "t2 = t1\<lparr>t_nodes := h', t_root := (t_root t1)(i := root_with (root_of z) k)\<rparr>"
  have "h' a = h a" if "a \<in> addrs z" for a
    using that z(3) h'(3) [of a] by (auto simp: t1_def)
  then have "rep h' (parent_in k) z"
    using h(2) rep_cong [of z h' h] by blast
  then have "holds i (plug z k) t2"
    using h'(2) z k by (simp add: holds_plug t2_def)
  moreover have "same_but i (addrs (plug z k)) t t2"
    unfolding same_but_def t2_def t1_def using h(3) h'(3) by (intro exI [of _ h'] exI conjI refl) (auto simp: addrs_plug t1_def)
  moreover have "(case parent_in k of
        None \<Rightarrow> Some (set_root i (root_of z) t1)
      | Some p \<Rightarrow> do { pn \<leftarrow> t_nodes t1 p;
          set_child p (if n_child pn LEFT = Some (fst e) then LEFT else RIGHT) (root_of z) t1 }) = Some t2"
  proof (cases "parent_in k")
    case (Some p)
    with h'(1) show ?thesis
      by (cases "t_nodes t1 p") (simp_all add: t2_def split: if_splits)
  qed (use h'(1) in \<open>simp add: t2_def\<close>)
  then have "unlink_redundant (fst e) rn (root_of z) i t = Some t2"
    using h(1) unfolding unlink_redundant_def assms(4) by (simp add: t1_def [symmetric])
  ultimately show ?thesis
    using z(4) k(3) by (auto simp: addrs_plug)
qed

lemma fresh_same:
  assumes "fresh t" "same_but i A t t'" "A \<subseteq> {a. a < t_next t}"
  shows "fresh t'"
proof -
  obtain h p where t': "t' = t\<lparr>t_nodes := h, t_root := (t_root t)(i := p)\<rparr>" and h: "\<And>a. a \<notin> A \<Longrightarrow> h a = t_nodes t a"
    using assms(2) by (auto simp: same_but_def)
  have "a < t_next t" if "h a \<noteq> None" for a
    using that h [of a] assms(1,3) by (cases "a \<in> A") (auto simp: fresh_def)
  then show ?thesis
    by (simp add: t' fresh_def)
qed

lemma holds_below: "holds i T t \<Longrightarrow> fresh t \<Longrightarrow> addrs T \<subseteq> {a. a < t_next t}"
  using rep_allocated [of "t_nodes t" None T] by (auto simp: holds_def fresh_def)

lemma balance_with_temp_plug:
  assumes "holds i (plug Lf k) t" "k \<noteq> []" "fresh t"
  shows "\<exists>t'. balance_with_temp (parent_in k) i t = Some t' \<and> holds i (balance_remove Lf k) t' \<and> same_but i (addrs (plug Lf k)) t t'"
proof -
  let ?c = "t_next t" and ?A = "addrs (plug Lf k)"
  define t0 where "t0 = t\<lparr>t_nodes := (t_nodes t)(?c \<mapsto>
      \<lparr>n_parent = parent_in k, n_child = (\<lambda>_. None), n_content = None, n_size = 0, n_red = False\<rparr>)\<rparr>"
  have c: "?c \<notin> ?A" "t_nodes t ?c = None"
    using holds_fresh [OF assms(1,3)] assms(3) by (auto simp: fresh_def)
  have "holds i (plug Lf k) t0"
    using assms(1) c by (simp add: holds_def t0_def rep_outside)
  moreover have "cursor ?c Lf k t0"
    using c by (simp add: cursor_def t0_def addrs_plug)
  ultimately obtain t1 where t1: "TreeBalanceAfterRemove ?c i t0 = Some t1" "holds i (balance_remove Lf k) t1" "same_but i ?A t0 t1"
    using BalanceAfterRemove_plug [of i Lf k t0 ?c] assms(2) by blast
  let ?t = "t1\<lparr>t_nodes := (t_nodes t1)(?c := None)\<rparr>"
  have "addrs (balance_remove Lf k) = ?A"
    by (simp add: addrs_def entries_balance_remove)
  then have "holds i (balance_remove Lf k) ?t"
    using t1(2) c(1) by (simp add: holds_def rep_outside)
  moreover obtain h p where hp: "t1 = t0\<lparr>t_nodes := h, t_root := (t_root t0)(i := p)\<rparr>" "\<forall>a. a \<notin> ?A \<longrightarrow> h a = t_nodes t0 a"
    using t1(3) by (auto simp: same_but_def)
  have "same_but i ?A t ?t"
    unfolding same_but_def using hp c by (intro exI [of _ "h(?c := None)"] exI [of _ p]) (auto simp: t0_def)
  moreover have "balance_with_temp (parent_in k) i t = Some ?t"
    using t1(1) by (simp add: balance_with_temp_def t0_def)
  ultimately show ?thesis
    by blast
qed

lemma cut_plug:
  assumes "holds i (plug z j) t" "fresh t" "t_nodes t a = Some rn" "n_parent rn = parent_in j"
  shows "\<exists>t'. balance_removed a rn (root_of z) i t = Some t' \<and> holds i (cut (n_red rn) z j) t' \<and> same_but i (addrs (plug z j)) t t'"
proof (cases "n_red rn")
  case True
  then show ?thesis
    using assms by (auto simp: balance_removed_def isBlack_def cut_def)
next
  case False
  show ?thesis
  proof (cases z)
    case Lf
    show ?thesis
    proof (cases j rule: last_step.cases)
      case 1
      then show ?thesis
        using assms False Lf by (auto simp: balance_removed_def isBlack_def cut_def)
    next
      case (2 d r e s k)
      then show ?thesis
        using balance_with_temp_plug [of i j t] assms False Lf by (auto simp: balance_removed_def isBlack_def cut_def)
    qed
  next
    case (Nd r x e y)
    then show ?thesis
      using BalanceAfterRemove_plug [OF assms(1) cursor_node, of "fst e"] assms(3) False by (auto simp: balance_removed_def isBlack_def cut_def)
  qed
qed

lemma entries_cut: "entries (cut r z j) = entries (plug z j)"
  by (simp add: cut_def entries_balance_remove)

definition forget :: "nat \<Rightarrow> ('k, 'c) Tree \<Rightarrow> ('k, 'c) Tree" where
  "forget a t = t\<lparr>t_nodes := (t_nodes t)(a := None)\<rparr>"

lemma remove_finish:
  assumes "holds i T t4" "same_but i A t t4" "a \<notin> addrs T" "a \<in> A"
  shows "holds i T (counted i n s (forget a t4)) \<and> same_but i A (counted i n s t) (counted i n s (forget a t4))"
proof -
  obtain h p where hp: "t4 = t\<lparr>t_nodes := h, t_root := (t_root t)(i := p)\<rparr>" "\<forall>b. b \<notin> A \<longrightarrow> h b = t_nodes t b"
    using assms(2) by (auto simp: same_but_def)
  have "same_but i A (counted i n s t) (counted i n s (forget a t4))"
    unfolding same_but_def using hp assms(4) by (intro exI [of _ "h(a := None)"] exI [of _ p]) (auto simp: forget_def counted_def)
  moreover have "holds i T (forget a t4)"
    using assms(1,3) by (simp add: holds_def forget_def rep_outside)
  ultimately show ?thesis
    by simp
qed

lemma RemoveNode_single:
  assumes "holds i (plug (Nd r x e y) k) t" "fresh t" "x = Lf \<or> y = Lf"
  shows "\<exists>t'. TreeRemoveNodeIndex (fst e) i t = Some (Some (fst (snd e)), t') \<and> holds i (tree_remove (Nd r x e y) k) t' \<and>
    same_but i (addrs (plug (Nd r x e y) k)) (counted i (- 1) (- snd (snd e)) t) t' \<and> t_nodes t' (fst e) = None"
proof -
  define z where "z = (if x \<noteq> Lf then x else y)"
  define rn where "rn = cell (parent_in k) r e (kids LEFT (root_of x) (root_of y))"
  let ?A = "addrs (plug (Nd r x e y) k)"
  have n: "t_nodes t (fst e) = Some rn" and rn: "n_parent rn = parent_in k" "n_red rn = r" "n_content rn = Some (fst (snd e))" "n_size rn = snd (snd e)"
    using assms(1) by (simp_all add: holds_plug rn_def)
  have child: "n_child rn (if n_child rn LEFT \<noteq> None then LEFT else RIGHT) = root_of z" "n_child rn LEFT = None \<or> n_child rn RIGHT = None"
    using assms(3) by (auto simp: z_def rn_def kids_def)
  obtain t2 where t2: "unlink_redundant (fst e) rn (root_of z) i t = Some t2"
    "holds i (plug z k) t2" "same_but i (addrs (plug z k)) t t2" "fst e \<notin> addrs (plug z k)"
    using unlink_node [OF assms(1,3) z_def rn(1)] by blast
  have A: "addrs (plug z k) \<subseteq> ?A"
    by (auto simp: addrs_plug z_def)
  have n2: "t_nodes t2 (fst e) = Some rn"
    using t2(3,4) n by (auto simp: same_but_def)
  have f2: "fresh t2"
    using A holds_below [OF assms(1,2)] by (intro fresh_same [OF assms(2) t2(3)]) auto
  obtain t4 where t4: "balance_removed (fst e) rn (root_of z) i t2 = Some t4" "holds i (cut r z k) t4" "same_but i (addrs (plug z k)) t2 t4"
    using cut_plug [OF t2(2) f2 n2 rn(1)] rn(2) by auto
  let ?t = "counted i (- 1) (- snd (snd e)) (forget (fst e) t4)"
  have "TreeRemoveNodeIndex (fst e) i t = Some (Some (fst (snd e)), ?t)"
    using n rn child t2(1) t4(1) by (auto simp: TreeRemoveNodeIndex_def forget_def counted_def Let_def)
  moreover have "same_but i ?A t t4"
    by (rule same_but_mono [OF same_but_trans [OF t2(3) t4(3)] A])
  then have "holds i (cut r z k) ?t \<and> same_but i ?A (counted i (- 1) (- snd (snd e)) t) ?t"
    using t2(4) t4(2) by (intro remove_finish) (auto simp: addrs_def entries_cut entries_plug)
  moreover have "tree_remove (Nd r x e y) k = cut r z k"
    using assms(3) by (auto simp: tree_remove_def z_def)
  ultimately show ?thesis
    by (auto simp: forget_def)
qed

lemma parent_in_append: "parent_in (j @ Fr d r e s # k) = parent_in (j @ Fr d' r' (fst e, c) s' # k')"
  by (cases j rule: last_step.cases) auto

lemma RemoveNode_double:
  assumes "holds i (plug (Nd r x e y) k) t" "fresh t" "x \<noteq> Lf" "y \<noteq> Lf"
  shows "\<exists>t' a. TreeRemoveNodeIndex (fst e) i t = Some (Some (fst (snd e)), t') \<and> holds i (tree_remove (Nd r x e y) k) t' \<and>
    same_but i (addrs (plug (Nd r x e y) k)) (counted i (- 1) (- snd (snd e)) t) t' \<and> t_nodes t' a = None \<and> a \<in> addrs y"
proof -
  obtain z0 j where "min_at y [] = (z0, j)"
    by (cases "min_at y []")
  moreover from this obtain r' e' y' where "z0 = Nd r' Lf e' y'"
    using min_at_node [OF assms(4)] by blast
  ultimately have m: "min_at y [] = (Nd r' Lf e' y', j)"
    by simp
  let ?k = "j @ Fr RIGHT r e x # k" and ?k' = "j @ Fr RIGHT r (fst e, snd e') x # k" and ?A = "addrs (plug (Nd r x e y) k)"
  have y: "plug (Nd r' Lf e' y') j = y"
    using min_at_plug [OF m] by simp
  have T: "plug (Nd r' Lf e' y') ?k = plug (Nd r x e y) k"
    by (simp add: plug_append y nd_def)
  have h: "holds i (plug (Nd r' Lf e' y') ?k) t"
    using assms(1) T by simp
  define rn where "rn = cell (parent_in ?k) r' e' (kids LEFT None (root_of y'))"
  have n: "t_nodes t (fst e') = Some rn" and rn: "n_parent rn = parent_in ?k" "n_red rn = r'" "n_content rn = Some (fst (snd e'))" "n_size rn = snd (snd e')"
    "n_child rn LEFT = None" "n_child rn RIGHT = root_of y'"
    using h by (simp_all add: holds_plug rn_def kids_def)
  have cn: "t_nodes t (fst e) = Some (cell (parent_in k) r e (kids LEFT (root_of x) (root_of y)))"
    using assms(1) by (simp add: holds_plug)
  have suc: "TreeSuccessor (fst e) t = Some (Some (fst e'))"
    using cn assms(1,4) TreeMinimum_rep [of t "Some (fst e)" y "[]"] m by (simp add: TreeSuccessor_def holds_plug kids_def)
  have ne: "fst e' \<noteq> fst e"
  proof -
    have "fst e' \<in> addrs y"
      by (subst y [symmetric]) (simp add: addrs_plug)
    then show ?thesis
      using assms(1) by (auto simp: holds_plug uniq_Nd)
  qed
  obtain t2 where t2: "unlink_redundant (fst e') rn (root_of y') i t = Some t2"
    "holds i (plug y' ?k) t2" "same_but i (addrs (plug y' ?k)) t t2" "fst e' \<notin> addrs (plug y' ?k)"
    using unlink_node [OF h _ _ rn(1), of y'] by auto
  have "plug y' ?k = plug (Nd r x e (plug y' j)) k" and k': "plug y' ?k' = plug (Nd r x (fst e, snd e') (plug y' j)) k"
    by (simp_all add: plug_append nd_def)
  with t2(2) have "holds i (plug (Nd r x e (plug y' j)) k) t2"
    by simp
  from update_content [OF this, of "snd (snd e')" "fst (snd e')"] obtain t3 where
    t3: "update_node (fst e) (\<lambda>n. n\<lparr>n_content := Some (fst (snd e')), n_size := snd (snd e')\<rparr>) t2 = Some t3"
    "holds i (plug y' ?k') t3" "same_but i (addrs (plug y' ?k)) t2 t3"
    unfolding k' \<open>plug y' ?k = _\<close> by auto
  have A: "addrs (plug y' ?k) \<subseteq> ?A" "fst e' \<in> ?A" and A': "addrs (plug y' ?k') = addrs (plug y' ?k)"
    unfolding T [symmetric] by (auto simp: addrs_plug)
  have s3: "same_but i (addrs (plug y' ?k)) t t3"
    by (rule same_but_trans [OF t2(3) t3(3)])
  have n3: "t_nodes t3 (fst e') = Some rn"
    using s3 t2(4) n by (auto simp: same_but_def)
  have f3: "fresh t3"
    using A holds_below [OF assms(1,2)] by (intro fresh_same [OF assms(2) s3]) auto
  have "n_parent rn = parent_in ?k'"
    using rn(1) parent_in_append [of j RIGHT r e x k RIGHT r "snd e'" x k] by simp
  then obtain t4 where t4: "balance_removed (fst e') rn (root_of y') i t3 = Some t4" "holds i (cut r' y' ?k') t4" "same_but i (addrs (plug y' ?k')) t3 t4"
    using cut_plug [OF t3(2) f3 n3] rn(2) by auto
  let ?t = "counted i (- 1) (- snd (snd e)) (forget (fst e') t4)"
  have "TreeRemoveNodeIndex (fst e) i t = Some (Some (fst (snd e)), ?t)"
    using cn n rn assms(3,4) suc ne t2(1) t3(1) t4(1) by (simp add: TreeRemoveNodeIndex_def forget_def counted_def Let_def kids_def)
  moreover have "same_but i ?A t t4"
    using same_but_mono [OF same_but_trans [OF s3 t4(3) [unfolded A']] A(1)] .
  then have "holds i (cut r' y' ?k') ?t \<and> same_but i ?A (counted i (- 1) (- snd (snd e)) t) ?t"
    using t2(4) t4(2) A A' by (intro remove_finish) (auto simp: addrs_def entries_cut)
  moreover have "tree_remove (Nd r x e y) k = cut r' y' ?k'"
    using assms(3,4) m by (simp add: tree_remove_def)
  moreover have "fst e' \<in> addrs y"
    by (subst y [symmetric]) (simp add: addrs_plug)
  ultimately show ?thesis
    by (auto simp: forget_def)
qed

lemma TreeRemoveNodeIndex_plug:
  assumes "holds i (plug (Nd r x e y) k) t" "fresh t"
  shows "\<exists>t' a. TreeRemoveNodeIndex (fst e) i t = Some (Some (fst (snd e)), t') \<and> holds i (tree_remove (Nd r x e y) k) t' \<and>
    same_but i (addrs (plug (Nd r x e y) k)) (counted i (- 1) (- snd (snd e)) t) t' \<and> t_nodes t' a = None \<and> a \<in> addrs (plug (Nd r x e y) k)"
proof (cases "x = Lf \<or> y = Lf")
  case True
  then show ?thesis
    using RemoveNode_single [OF assms] by (fastforce simp: addrs_plug)
next
  case False
  then show ?thesis
    using RemoveNode_double [OF assms] by (fastforce simp: addrs_plug)
qed

text \<open>The contents that stay.\<close>

lemma before_append: "before (j @ k) = before k @ before j" and after_append: "after (j @ k) = after j @ after k"
proof -
  have "before (j @ k) = before k @ before j \<and> after (j @ k) = after j @ after k"
  proof (induction j)
    case (Cons f j)
    then show ?case
      by (cases f) simp
  qed simp
  then show "before (j @ k) = before k @ before j" "after (j @ k) = after j @ after k"
    by simp_all
qed

lemma min_at_before: "min_at x k = (x', k') \<Longrightarrow> before k' = before k"
  by (induction x k rule: min_at.induct) (auto split: if_splits)

lemma contents_tree_remove: "map snd (entries (tree_remove (Nd r x e y) k)) = map snd (before k @ entries x @ entries y @ after k)"
proof (cases "x = Lf \<or> y = Lf")
  case True
  then show ?thesis
    by (auto simp: tree_remove_def entries_cut entries_plug)
next
  case False
  obtain z0 j where "min_at y [] = (z0, j)"
    by (cases "min_at y []")
  moreover from this False obtain r' e' y' where "z0 = Nd r' Lf e' y'"
    using min_at_node [of y] by blast
  ultimately have m: "min_at y [] = (Nd r' Lf e' y', j)"
    by simp
  have "entries y = e' # entries y' @ after j"
    using min_at_plug [OF m] min_at_before [OF m] entries_plug [of "Nd r' Lf e' y'" j] by simp
  then show ?thesis
    using False m min_at_before [OF m] by (simp add: tree_remove_def entries_cut entries_plug before_append after_append)
qed

end
