(* ===== verification/Mqtt_Tree_Map.thy ===== *)
theory Mqtt_Tree_Map
  imports Mqtt_Tree_Remove
begin

text \<open>
  What the search trees of \<^verbatim>\<open>Tree.c\<close> promise: a tree is a finite map from keys to contents with their sizes. The locale
  \<open>key_order\<close> is what the code needs of a comparison function; it is interpreted on the comparisons of the source.
\<close>

section \<open>Comparison functions\<close>

fun arg_key :: "('c \<Rightarrow> 'k) \<Rightarrow> ('k, 'c) arg \<Rightarrow> 'k" where
  "arg_key key (Key k) = k"
| "arg_key key (Content c) = key c"

locale key_order =
  fixes compare :: "('k, 'c) compare" and key :: "'c \<Rightarrow> 'k" and lt :: "'k \<Rightarrow> 'k \<Rightarrow> bool"
  assumes positive: "compare c a > 0 \<longleftrightarrow> lt (key c) (arg_key key a)"
    and negative: "compare c a < 0 \<longleftrightarrow> lt (arg_key key a) (key c)"
    and total: "lt k l \<or> k = l \<or> lt l k"
    and lt_trans: "lt k l \<Longrightarrow> lt l m \<Longrightarrow> lt k m"
    and irrefl: "\<not> lt k k"

lemma arg_key_id [simp]: "arg_key id a = arg_value a"
  by (cases a) auto

section \<open>The map of a tree\<close>

definition item :: "('c \<Rightarrow> 'k) \<Rightarrow> 'c entry \<Rightarrow> 'k \<times> 'c \<times> int" where
  "item key e = (key (fst (snd e)), snd e)"

definition items :: "('c \<Rightarrow> 'k) \<Rightarrow> 'c shape \<Rightarrow> ('k \<times> 'c \<times> int) list" where
  "items key T = map (item key) (entries T)"

abbreviation keys :: "('k \<times> 'v) list \<Rightarrow> 'k list" where
  "keys \<equiv> map fst"

text \<open>
  A tree in a state: its nodes are exactly the allocated ones, the keys are in order, and the count and the size are right.
\<close>

definition tree_ok :: "('k, 'c) compare \<Rightarrow> ('c \<Rightarrow> 'k) \<Rightarrow> ('k \<Rightarrow> 'k \<Rightarrow> bool) \<Rightarrow> 'c shape \<Rightarrow> ('k, 'c) Tree \<Rightarrow> bool" where
  "tree_ok compare key lt T t \<longleftrightarrow> holds 0 T t \<and> fresh t \<and> {a. t_nodes t a \<noteq> None} = addrs T \<and> t_compare t 0 = Some compare \<and>
     t_indexes t = 1 \<and> \<not> t_allow_duplicates t \<and> sorted_wrt lt (keys (items key T)) \<and>
     t_count t = int (length (entries T)) \<and> t_size t = (\<Sum>e\<leftarrow>entries T. snd (snd e))"

lemma tree_ok_init: "tree_ok compare key lt Lf (TreeInitializeNoMalloc compare)"
  by (simp add: tree_ok_def TreeInitializeNoMalloc_def holds_def fresh_def items_def)

text \<open>The allocated nodes after an operation.\<close>

lemma same_but_nodes: "same_but i A t t' \<Longrightarrow> a \<notin> A \<Longrightarrow> t_nodes t' a = t_nodes t a"
  by (auto simp: same_but_def)

lemma same_but_fields: "same_but i A t t' \<Longrightarrow> t_next t' = t_next t \<and> t_compare t' = t_compare t \<and> t_indexes t' = t_indexes t \<and>
    t_allow_duplicates t' = t_allow_duplicates t \<and> t_count t' = t_count t \<and> t_size t' = t_size t"
  by (auto simp: same_but_def)

text \<open>The effect of an operation on the tree as a value.\<close>

definition removed :: "'c shape \<Rightarrow> 'c shape \<Rightarrow> bool" where
  "removed T T' \<longleftrightarrow> T' = T \<or> (\<exists>r x e y k. T = plug (Nd r x e y) k \<and> T' = tree_remove (Nd r x e y) k)"

section \<open>Searching\<close>

context key_order begin

lemma zero: "compare c a = 0 \<longleftrightarrow> key c = arg_key key a"
proof -
  have "\<not> lt (key c) (arg_key key a) \<and> \<not> lt (arg_key key a) (key c) \<longleftrightarrow> key c = arg_key key a"
    using total [of "key c" "arg_key key a"] irrefl by auto
  then show ?thesis
    using positive [of c a] negative [of c a] by linarith
qed

abbreviation e_key :: "'c entry \<Rightarrow> 'k" where
  "e_key e \<equiv> key (fst (snd e))"

lemma descend_sorted:
  assumes "descend (\<lambda>c. compare c a) x k = (x', k')" "sorted_wrt lt (map e_key (entries (plug x k)))"
    "\<forall>e \<in> set (before k). lt (e_key e) (arg_key key a)" "\<forall>e \<in> set (after k). lt (arg_key key a) (e_key e)"
  shows "(\<forall>e \<in> set (before k'). lt (e_key e) (arg_key key a)) \<and> (\<forall>e \<in> set (after k'). lt (arg_key key a) (e_key e)) \<and>
    (\<forall>r u e v. x' = Nd r u e v \<longrightarrow> e_key e = arg_key key a)"
  using assms
proof (induction "\<lambda>c. compare c a" x k rule: descend.induct)
  case (2 r x e y k)
  have split: "plug (Nd r x e y) k = plug y (Fr RIGHT r e x # k)" "plug (Nd r x e y) k = plug x (Fr LEFT r e y # k)"
    by (simp_all add: nd_def)
  have s: "\<forall>f \<in> set (entries x). lt (e_key f) (e_key e)" "\<forall>f \<in> set (entries y). lt (e_key e) (e_key f)"
    using 2(4) by (auto simp: entries_plug sorted_wrt_append)
  consider "compare (fst (snd e)) a = 0" | "compare (fst (snd e)) a > 0" | "compare (fst (snd e)) a < 0"
    by linarith
  then show ?case
  proof cases
    case 1
    then show ?thesis
      using 2(3,5,6) zero [of "fst (snd e)" a] by (auto simp: Let_def)
  next
    case pos: 2
    then have "lt (e_key e) (arg_key key a)"
      using positive by blast
    then have "\<forall>f \<in> set (before (Fr RIGHT r e x # k)). lt (e_key f) (arg_key key a)"
      using 2(5) s(1) by (simp add: ball_Un) (blast intro: lt_trans)
    then show ?thesis
      using 2(1) [OF refl _ pos _ 2(4) [unfolded split(1)]] 2(3,6) pos by (simp add: Let_def)
  next
    case neg: 3
    then have "lt (arg_key key a) (e_key e)"
      using negative by blast
    then have "\<forall>f \<in> set (after (Fr LEFT r e y # k)). lt (arg_key key a) (e_key f)"
      using 2(6) s(2) by (simp add: ball_Un) (blast intro: lt_trans)
    then show ?thesis
      using 2(2) [OF refl _ _ _ 2(4) [unfolded split(2)]] 2(3,5) neg by (simp add: Let_def)
  qed
qed auto

lemma descend_ok:
  assumes "tree_ok compare key lt T t" "descend (\<lambda>c. compare c a) T [] = (x, k)"
  shows "T = plug x k" "\<forall>e \<in> set (before k). lt (e_key e) (arg_key key a)" "\<forall>e \<in> set (after k). lt (arg_key key a) (e_key e)"
    "x = Nd r u e v \<Longrightarrow> e_key e = arg_key key a"
proof -
  have keys: "keys (items key S) = map e_key (entries S)" for S
    by (simp add: items_def item_def o_def)
  show "T = plug x k"
    using plug_descend [OF assms(2)] by simp
  have "sorted_wrt lt (map e_key (entries (plug T [])))"
    using assms(1) keys by (simp add: tree_ok_def)
  then have *: "(\<forall>e \<in> set (before k). lt (e_key e) (arg_key key a)) \<and> (\<forall>e \<in> set (after k). lt (arg_key key a) (e_key e)) \<and>
    (\<forall>r u e v. x = Nd r u e v \<longrightarrow> e_key e = arg_key key a)"
    using descend_sorted [OF assms(2)] by simp
  then show "\<forall>e \<in> set (before k). lt (e_key e) (arg_key key a)" "\<forall>e \<in> set (after k). lt (arg_key key a) (e_key e)"
    by blast+
  from * show "x = Nd r u e v \<Longrightarrow> e_key e = arg_key key a"
    by blast
qed

lemma map_of_outside: "\<forall>e \<in> set es. e_key e \<noteq> k \<Longrightarrow> map_of (map (item key) es) k = None"
  by (induction es) (auto simp: item_def)

lemma map_of_middle:
  assumes "\<forall>e \<in> set xs. lt (e_key e) k" "\<forall>e \<in> set ys. lt k (e_key e)" "e_key e = k"
  shows "map_of (map (item key) (xs @ e # ys)) = (map_of (map (item key) (xs @ ys)))(k \<mapsto> snd e)"
    "map_of (map (item key) (xs @ ys)) k = None"
proof -
  have "\<forall>e \<in> set xs. e_key e \<noteq> k" "\<forall>e \<in> set ys. e_key e \<noteq> k"
    using assms(1,2) irrefl by auto
  then show "map_of (map (item key) (xs @ ys)) k = None"
    using map_of_outside by (simp add: map_add_def)
  from \<open>\<forall>e \<in> set xs. e_key e \<noteq> k\<close> show "map_of (map (item key) (xs @ e # ys)) = (map_of (map (item key) (xs @ ys)))(k \<mapsto> snd e)"
    using assms(3) map_of_outside [of xs k] by (auto simp: fun_eq_iff item_def map_add_def split: option.splits)
qed

lemma find_ok:
  assumes "tree_ok compare key lt T t" "descend (\<lambda>c. compare c a) T [] = (x, k)"
  shows "map_of (items key T) (arg_key key a) = (case x of Lf \<Rightarrow> None | Nd r u e v \<Rightarrow> Some (snd e))"
proof (cases x)
  case Lf
  have "\<forall>e \<in> set (before k @ after k). e_key e \<noteq> arg_key key a"
    using descend_ok(2,3) [OF assms] irrefl by fastforce
  from map_of_outside [OF this] show ?thesis
    using descend_ok(1) [OF assms] Lf by (simp add: items_def entries_plug)
next
  case (Nd r u e v)
  have T: "entries T = (before k @ entries u) @ e # (entries v @ after k)"
    using descend_ok(1) [OF assms] Nd by (simp add: entries_plug)
  have e: "e_key e = arg_key key a"
    using descend_ok(4) [OF assms Nd] .
  have "sorted_wrt lt (map e_key (entries T))"
    using assms(1) by (simp add: tree_ok_def items_def item_def o_def)
  then have "\<forall>f \<in> set (before k @ entries u). lt (e_key f) (arg_key key a)" "\<forall>f \<in> set (entries v @ after k). lt (arg_key key a) (e_key f)"
    using T e by (auto simp: sorted_wrt_append)
  from map_of_middle(1) [OF this e] show ?thesis
    using T Nd by (simp add: items_def)
qed

lemma sorted_entries: "tree_ok compare key lt T t \<Longrightarrow> sorted_wrt lt (map e_key (entries T))"
  by (simp add: tree_ok_def items_def item_def o_def)

lemma tree_okI:
  assumes "holds 0 T t" "t_compare t 0 = Some compare" "t_indexes t = 1" "\<not> t_allow_duplicates t" "sorted_wrt lt (map e_key (entries T))"
    "t_count t = int (length (entries T))" "t_size t = (\<Sum>e\<leftarrow>entries T. snd (snd e))" "\<And>a. t_nodes t a \<noteq> None \<Longrightarrow> a \<in> addrs T" "addrs T \<subseteq> {a. a < t_next t}"
  shows "tree_ok compare key lt T t"
proof -
  have "{a. t_nodes t a \<noteq> None} = addrs T"
    using assms(1,8) rep_allocated [of "t_nodes t" None T] by (auto simp: holds_def)
  then show ?thesis
    using assms by (auto simp: tree_ok_def fresh_def items_def item_def o_def)
qed

section \<open>Insertion\<close>

lemma add_ok:
  assumes "tree_ok compare key lt T t"
  shows "\<exists>t' T'. TreeAddByIndex c sz 0 t = Some (map_option fst (map_of (items key T) (key c)), t') \<and> tree_ok compare key lt T' t' \<and>
    map_of (items key T') = (map_of (items key T))(key c \<mapsto> (c, sz)) \<and> T' = tree_add (\<lambda>d. compare d (Content c)) (t_next t) c sz T"
proof -
  let ?f = "\<lambda>d. compare d (Content c)" and ?T = "tree_add (\<lambda>d. compare d (Content c)) (t_next t) c sz T"
  obtain x k where d: "descend ?f T [] = (x, k)"
    by (cases "descend ?f T []")
  have f: "holds 0 T t" "t_compare t 0 = Some compare" "fresh t" "\<not> t_allow_duplicates t" "\<And>a. t_nodes t a \<noteq> None \<Longrightarrow> a \<in> addrs T"
    "t_count t = int (length (entries T))" "t_size t = (\<Sum>e\<leftarrow>entries T. snd (snd e))" "t_indexes t = 1"
    using assms by (auto simp: tree_ok_def)
  note T = descend_ok(1) [OF assms d] and lt = descend_ok(2,3) [OF assms d, simplified]
  have s: "sorted_wrt lt (map e_key (entries T))"
    by (rule sorted_entries [OF assms])
  show ?thesis
  proof (cases x)
    case Lf
    obtain t' where t': "TreeAddByIndex c sz 0 t = Some (None, t')" "holds 0 ?T t'"
      "same_but 0 (insert (t_next t) (addrs T)) (counted 0 1 sz (t\<lparr>t_next := Suc (t_next t)\<rparr>)) t'"
      using TreeAddByIndex_new [OF f(1-3) d [unfolded Lf]] by blast
    have es: "entries ?T = before k @ (t_next t, c, sz) # after k" "entries T = before k @ after k"
      using d T Lf by (simp_all add: tree_add_def entries_balance_add entries_plug)
    note same = same_but_fields [OF t'(3)]
    have "tree_ok compare key lt ?T t'"
    proof (rule tree_okI)
      show "sorted_wrt lt (map e_key (entries ?T))"
        using s lt es by (auto simp: sorted_wrt_append)
      show "a \<in> addrs ?T" if "t_nodes t' a \<noteq> None" for a
      proof (rule ccontr)
        assume "a \<notin> addrs ?T"
        then have "t_nodes t' a = t_nodes t a" "a \<notin> addrs T"
          using same_but_nodes [OF t'(3), of a] es by (auto simp: addrs_def)
        then show False
          using that f(5) [of a] by simp
      qed
      show "addrs ?T \<subseteq> {a. a < t_next t'}"
        using holds_below [OF f(1,3)] same es by (auto simp: addrs_def counted_def)
    qed (use t'(2) same f es in \<open>simp_all add: counted_def\<close>)
    moreover have "map_of (items key ?T) = (map_of (items key T))(key c \<mapsto> (c, sz))" "map_of (items key T) (key c) = None"
      using map_of_middle [of "before k" "key c" "after k" "(t_next t, c, sz)"] lt es by (simp_all add: items_def)
    ultimately show ?thesis
      using t'(1) by auto
  next
    case (Nd r u e v)
    obtain t' where t': "TreeAddByIndex c sz 0 t = Some (Some (fst (snd e)), t')" "holds 0 ?T t'"
      "same_but 0 (addrs T) (counted 0 0 (sz - snd (snd e)) t) t'"
      using TreeAddByIndex_replace [OF f(1,2,4) d [unfolded Nd]] by blast
    have e: "e_key e = key c"
      using descend_ok(4) [OF assms d Nd] by simp
    have es: "entries ?T = (before k @ entries u) @ (fst e, c, sz) # (entries v @ after k)" "entries T = (before k @ entries u) @ e # (entries v @ after k)"
      using d T Nd by (simp_all add: tree_add_def entries_balance_add entries_plug)
    have lt': "\<forall>f \<in> set (before k @ entries u). lt (e_key f) (key c)" "\<forall>f \<in> set (entries v @ after k). lt (key c) (e_key f)"
      using s es(2) e by (auto simp: sorted_wrt_append)
    note same = same_but_fields [OF t'(3)]
    have "tree_ok compare key lt ?T t'"
    proof (rule tree_okI)
      show "sorted_wrt lt (map e_key (entries ?T))"
        using s es e by (auto simp: sorted_wrt_append)
      show "a \<in> addrs ?T" if "t_nodes t' a \<noteq> None" for a
      proof (rule ccontr)
        assume "a \<notin> addrs ?T"
        then have "t_nodes t' a = t_nodes t a" "a \<notin> addrs T"
          using same_but_nodes [OF t'(3), of a] es by (auto simp: addrs_def)
        then show False
          using that f(5) [of a] by simp
      qed
      show "addrs ?T \<subseteq> {a. a < t_next t'}"
        using holds_below [OF f(1,3)] same es by (auto simp: addrs_def counted_def)
    qed (use t'(2) same f es in \<open>simp_all add: counted_def\<close>)
    moreover have "map_of (items key ?T) = (map_of (items key T))(key c \<mapsto> (c, sz))" "map_of (items key T) (key c) = Some (snd e)"
      using map_of_middle [OF lt', of "(fst e, c, sz)"] map_of_middle [OF lt', of e] e es by (simp_all add: items_def)
    ultimately show ?thesis
      using t'(1) by auto
  qed
qed

lemma TreeAdd_ok:
  assumes "tree_ok compare key lt T t"
  shows "\<exists>t' T'. TreeAdd c sz t = Some (map_option fst (map_of (items key T) (key c)), t') \<and> tree_ok compare key lt T' t' \<and>
    map_of (items key T') = (map_of (items key T))(key c \<mapsto> (c, sz)) \<and> T' = tree_add (\<lambda>d. compare d (Content c)) (t_next t) c sz T"
proof -
  have "t_indexes t = 1"
    using assms by (simp add: tree_ok_def)
  then show ?thesis
    using add_ok [OF assms, of c sz] by (auto simp: TreeAdd_def)
qed

section \<open>Search\<close>

lemma TreeFindIndex1_ok:
  assumes "tree_ok compare key lt T t"
  shows "\<exists>x k. TreeFindIndex1 a 0 t = Some (root_of x) \<and> T = plug x k \<and>
    map_of (items key T) (arg_key key a) = (case x of Lf \<Rightarrow> None | Nd r u e v \<Rightarrow> Some (snd e)) \<and>
    (\<forall>r u e v. x = Nd r u e v \<longrightarrow> e_key e = arg_key key a)"
proof -
  obtain x k where d: "descend (\<lambda>c. compare c a) T [] = (x, k)"
    by (cases "descend (\<lambda>c. compare c a) T []")
  have "TreeFindIndex1 a 0 t = Some (root_of x)"
    using TreeFindIndex1_descend [of 0 T t compare a] assms d by (simp add: tree_ok_def)
  then show ?thesis
    using find_ok [OF assms d] descend_ok(1,4) [OF assms d] by blast
qed

section \<open>Removal\<close>

lemma map_snd_cong:
  assumes "map snd xs = map snd ys"
  shows "map (\<lambda>e. f (snd e)) xs = map (\<lambda>e. f (snd e)) ys"
proof -
  have "map f (map snd xs) = map f (map snd ys)"
    by (simp only: assms)
  then show ?thesis
    by (simp only: list.map_comp o_def)
qed

lemma remove_node_ok:
  assumes "tree_ok compare key lt (plug (Nd r x e y) k) t"
  shows "\<exists>t'. TreeRemoveNodeIndex (fst e) 0 t = Some (Some (fst (snd e)), t') \<and> tree_ok compare key lt (tree_remove (Nd r x e y) k) t' \<and>
    map_of (items key (tree_remove (Nd r x e y) k)) = (map_of (items key (plug (Nd r x e y) k)))(e_key e := None)"
proof -
  let ?T = "plug (Nd r x e y) k" and ?T' = "tree_remove (Nd r x e y) k"
  have f: "holds 0 ?T t" "t_compare t 0 = Some compare" "fresh t" "\<not> t_allow_duplicates t" "{a. t_nodes t a \<noteq> None} = addrs ?T"
    "t_count t = int (length (entries ?T))" "t_size t = (\<Sum>e\<leftarrow>entries ?T. snd (snd e))" "t_indexes t = 1"
    using assms by (auto simp: tree_ok_def)
  obtain t' a where t': "TreeRemoveNodeIndex (fst e) 0 t = Some (Some (fst (snd e)), t')" "holds 0 ?T' t'"
    "same_but 0 (addrs ?T) (counted 0 (- 1) (- snd (snd e)) t) t'" "t_nodes t' a = None" "a \<in> addrs ?T"
    using TreeRemoveNodeIndex_plug [OF f(1,3)] by blast
  let ?xs = "before k @ entries x" and ?ys = "entries y @ after k"
  have es: "entries ?T = ?xs @ e # ?ys" and cs: "map snd (entries ?T') = map snd (?xs @ ?ys)"
    by (simp_all add: entries_plug contents_tree_remove)
  have len: "length (entries ?T') = length (?xs @ ?ys)"
    using arg_cong [OF cs, of length] by (simp only: length_map)
  note map_cs = map_snd_cong [OF cs]
  have allocated: "{b. t_nodes t' b \<noteq> None} \<subseteq> addrs ?T - {a}"
  proof
    fix b
    assume "b \<in> {b. t_nodes t' b \<noteq> None}"
    then have b: "t_nodes t' b \<noteq> None" "b \<noteq> a"
      using t'(4) by auto
    show "b \<in> addrs ?T - {a}"
    proof (rule ccontr)
      assume "b \<notin> addrs ?T - {a}"
      then have out: "b \<notin> addrs ?T"
        using b(2) by blast
      then have "b \<in> {a. t_nodes t a \<noteq> None}"
        using b(1) same_but_nodes [OF t'(3) out] by simp
      then show False
        using out unfolding f(5) by contradiction
    qed
  qed
  have sub: "addrs ?T' \<subseteq> {b. t_nodes t' b \<noteq> None}"
    using t'(2) rep_allocated [of "t_nodes t'" None ?T'] by (auto simp: holds_def)
  have "card (addrs ?T') = length (entries ?T')" "card (addrs ?T) = length (entries ?T)"
    using t'(2) f(1) distinct_card [of "map fst (entries ?T')"] distinct_card [of "map fst (entries ?T)"] by (simp_all add: holds_def uniq_def addrs_def)
  moreover have "card (addrs ?T - {a}) = card (addrs ?T) - 1"
    using t'(5) by simp
  ultimately have "card (addrs ?T') = card (addrs ?T - {a})"
    using len es by simp
  then have "addrs ?T' = addrs ?T - {a}"
    using sub allocated by (intro card_subset_eq) (auto simp: addrs_def)
  note same = same_but_fields [OF t'(3)]
  have s: "sorted_wrt lt (map e_key (?xs @ e # ?ys))"
    using sorted_entries [OF assms] es by simp
  have "tree_ok compare key lt ?T' t'"
  proof (rule tree_okI)
    show "sorted_wrt lt (map e_key (entries ?T'))"
      using s unfolding map_cs [of "\<lambda>c. key (fst c)"] by (auto simp: sorted_wrt_append)
    show "b \<in> addrs ?T'" if "t_nodes t' b \<noteq> None" for b
      using that allocated \<open>addrs ?T' = _\<close> by blast
    show "addrs ?T' \<subseteq> {a. a < t_next t'}"
      using holds_below [OF f(1,3)] same \<open>addrs ?T' = _\<close> by (auto simp: counted_def)
    show "t_size t' = (\<Sum>e\<leftarrow>entries ?T'. snd (snd e))"
      using same f(7) es unfolding map_cs [of snd] by (simp add: counted_def)
  qed (use t'(2) same f es len in \<open>simp_all add: counted_def\<close>)
  moreover have "map_of (items key ?T') = (map_of (items key ?T))(e_key e := None)"
  proof -
    have lt: "\<forall>f \<in> set ?xs. lt (e_key f) (e_key e)" "\<forall>f \<in> set ?ys. lt (e_key e) (e_key f)"
      using s by (auto simp: sorted_wrt_append)
    have "items key ?T' = map (item key) (?xs @ ?ys)"
      using map_cs [of "\<lambda>c. (key (fst c), c)"] by (simp add: items_def item_def [abs_def])
    then show ?thesis
      using map_of_middle [OF lt refl] es by (simp add: items_def fun_eq_iff)
  qed
  ultimately show ?thesis
    using t'(1) by blast
qed

lemma remove_found:
  assumes "tree_ok compare key lt T t" "TreeFindIndex1 a 0 t = Some p"
  shows "case p of
      None \<Rightarrow> map_of (items key T) (arg_key key a) = None
    | Some b \<Rightarrow> \<exists>c t' T'. TreeRemoveNodeIndex b 0 t = Some (Some c, t') \<and> tree_ok compare key lt T' t' \<and>
        map_option fst (map_of (items key T) (arg_key key a)) = Some c \<and> map_of (items key T') = (map_of (items key T))(arg_key key a := None) \<and>
        removed T T'"
proof -
  obtain x k where x: "p = root_of x" "T = plug x k" "map_of (items key T) (arg_key key a) = (case x of Lf \<Rightarrow> None | Nd r u e v \<Rightarrow> Some (snd e))"
    "\<forall>r u e v. x = Nd r u e v \<longrightarrow> e_key e = arg_key key a"
    using TreeFindIndex1_ok [OF assms(1), of a] assms(2) by auto
  show ?thesis
  proof (cases x)
    case (Nd r u e v)
    have "e_key e = arg_key key a"
      using x(4) Nd by blast
    moreover obtain t' where "TreeRemoveNodeIndex (fst e) 0 t = Some (Some (fst (snd e)), t')" "tree_ok compare key lt (tree_remove x k) t'"
      "map_of (items key (tree_remove x k)) = (map_of (items key T))(e_key e := None)"
      using remove_node_ok [of r u e v k t] assms(1) x(2) Nd by auto
    moreover have "removed T (tree_remove (Nd r u e v) k)"
      unfolding removed_def using x(2) Nd by blast
    ultimately have "TreeRemoveNodeIndex (fst e) 0 t = Some (Some (fst (snd e)), t') \<and> tree_ok compare key lt (tree_remove (Nd r u e v) k) t' \<and>
        map_option fst (map_of (items key T) (arg_key key a)) = Some (fst (snd e)) \<and>
        map_of (items key (tree_remove (Nd r u e v) k)) = (map_of (items key T))(arg_key key a := None) \<and>
        removed T (tree_remove (Nd r u e v) k)"
      using x(3) Nd by simp
    then have "\<exists>c t' T'. TreeRemoveNodeIndex (fst e) 0 t = Some (Some c, t') \<and> tree_ok compare key lt T' t' \<and>
        map_option fst (map_of (items key T) (arg_key key a)) = Some c \<and> map_of (items key T') = (map_of (items key T))(arg_key key a := None) \<and>
        removed T T'"
      by blast
    then show ?thesis
      unfolding x(1) Nd by (simp only: root_of.simps option.case)
  qed (use x in simp)
qed

lemma remove_ok:
  assumes "tree_ok compare key lt T t"
  shows "\<exists>t' T'. TreeRemove c t = Some (map_option fst (map_of (items key T) (key c)), t') \<and> tree_ok compare key lt T' t' \<and>
    map_of (items key T') = (map_of (items key T))(key c := None) \<and> removed T T'"
    "\<exists>t' T'. TreeRemoveKey k t = Some (map_option fst (map_of (items key T) k), t') \<and> tree_ok compare key lt T' t' \<and>
    map_of (items key T') = (map_of (items key T))(k := None) \<and> removed T T'"
    "\<exists>p. TreeFind k t = Some p \<and> map_option fst (map_of (items key T) k) = Option.bind (node t p) n_content"
proof -
  have one: "t_indexes t = 1" and h: "holds 0 T t"
    using assms by (simp_all add: tree_ok_def)
  obtain p where p: "TreeFindIndex1 (Content c) 0 t = Some p"
    using TreeFindIndex1_ok [OF assms, of "Content c"] by auto
  show "\<exists>t' T'. TreeRemove c t = Some (map_option fst (map_of (items key T) (key c)), t') \<and> tree_ok compare key lt T' t' \<and>
    map_of (items key T') = (map_of (items key T))(key c := None) \<and> removed T T'"
  proof (cases p)
    case None
    then show ?thesis
      using remove_found [OF assms p] assms p one by (intro exI [of _ t] exI [of _ T]) (simp add: TreeRemove_def TreeRemoveIndex_def TreeFindContentIndex_def fun_upd_idem removed_def)
  next
    case (Some b)
    then show ?thesis
      using remove_found [OF assms p] p one by (auto simp: TreeRemove_def TreeRemoveIndex_def TreeFindContentIndex_def)
  qed
  obtain p where p: "TreeFindIndex1 (Key k) 0 t = Some p"
    using TreeFindIndex1_ok [OF assms, of "Key k"] by auto
  show "\<exists>t' T'. TreeRemoveKey k t = Some (map_option fst (map_of (items key T) k), t') \<and> tree_ok compare key lt T' t' \<and>
    map_of (items key T') = (map_of (items key T))(k := None) \<and> removed T T'"
  proof (cases p)
    case None
    then show ?thesis
      using remove_found [OF assms p] assms p one by (intro exI [of _ t] exI [of _ T]) (simp add: TreeRemoveKey_def TreeRemoveKeyIndex_def TreeFindIndex_def fun_upd_idem removed_def)
  next
    case (Some b)
    then show ?thesis
      using remove_found [OF assms p] p one by (auto simp: TreeRemoveKey_def TreeRemoveKeyIndex_def TreeFindIndex_def)
  qed
  obtain x j where x: "TreeFindIndex1 (Key k) 0 t = Some (root_of x)" "T = plug x j"
    "map_of (items key T) k = (case x of Lf \<Rightarrow> None | Nd r u e v \<Rightarrow> Some (snd e))"
    using TreeFindIndex1_ok [OF assms, of "Key k"] by auto
  then have "map_option fst (map_of (items key T) k) = Option.bind (node t (root_of x)) n_content"
    using h by (cases x) (auto simp: node_def holds_plug)
  then show "\<exists>p. TreeFind k t = Some p \<and> map_option fst (map_of (items key T) k) = Option.bind (node t p) n_content"
    using x(1) by (simp add: TreeFind_def TreeFindIndex_def)
qed

end

section \<open>Traversal\<close>

fun head_addr :: "'c entry list \<Rightarrow> nat option" where
  "head_addr [] = None"
| "head_addr (e # es) = Some (fst e)"

lemma head_addr_append: "xs \<noteq> [] \<Longrightarrow> head_addr (xs @ ys) = head_addr xs"
  by (cases xs) auto

lemma min_at_head: "root_of (fst (min_at x k)) = head_addr (entries x)"
proof (cases "x = Lf")
  case False
  obtain x' k' where m: "min_at x [] = (x', k')"
    by (cases "min_at x []")
  then obtain r e y where "x' = Nd r Lf e y"
    using min_at_node [OF False] by blast
  then have "entries x = e # entries y @ after k'"
    using min_at_plug [OF m] min_at_before [OF m] entries_plug [of x' k'] by simp
  then show ?thesis
    using min_at_append [of x "[]" k] m \<open>x' = _\<close> by simp
qed simp

lemma TreeSuccessor_loop_plug:
  assumes "holds i (plug x k) t" "root_of x = Some c"
  shows "TreeSuccessor_loop t c (parent_in k) = Some (head_addr (after k))"
  using assms
proof (induction k arbitrary: x c)
  case (Cons f k)
  obtain d r e s where f: "f = Fr d r e s"
    by (cases f)
  have h: "holds i (plug (nd d r e x s) k) t"
    using Cons.prems f by simp
  note n = node_at [OF h] child_is [OF h Cons.prems(2), of RIGHT]
  show ?case
    using n f Cons.IH [OF h] by (subst TreeSuccessor_loop.simps) auto
qed (simp add: TreeSuccessor_loop.simps)

lemma entry_context: "e \<in> set (entries T) \<Longrightarrow> \<exists>r x y k. T = plug (Nd r x e y) k"
proof (induction T)
  case (Nd r x f y)
  consider "e = f" | "e \<in> set (entries x)" | "e \<in> set (entries y)"
    using Nd.prems by auto
  then show ?case
  proof cases
    case 1
    then show ?thesis
      by (intro exI [of _ r] exI [of _ x] exI [of _ y] exI [of _ "[]"]) simp
  next
    case 2
    then obtain q u v k where "x = plug (Nd q u e v) k"
      using Nd.IH(1) by blast
    then show ?thesis
      by (intro exI [of _ q] exI [of _ u] exI [of _ v] exI [of _ "k @ [Fr LEFT r f y]"]) (simp add: plug_append nd_def)
  next
    case 3
    then obtain q u v k where "y = plug (Nd q u e v) k"
      using Nd.IH(2) by blast
    then show ?thesis
      by (intro exI [of _ q] exI [of _ u] exI [of _ v] exI [of _ "k @ [Fr RIGHT r f x]"]) (simp add: plug_append nd_def)
  qed
qed simp

text \<open>The node after an entry is the one of the next entry.\<close>

lemma TreeNextElement_next:
  assumes "holds 0 T t" "entries T = xs @ e # ys"
  shows "TreeNextElement (Some (fst e)) t = Some (head_addr ys)"
proof -
  obtain r x y k where T: "T = plug (Nd r x e y) k"
    using entry_context [of e T] assms(2) by auto
  then have es: "entries T = (before k @ entries x) @ e # (entries y @ after k)"
    by (simp add: entries_plug)
  have "distinct (map fst (entries T))"
    using assms(1) by (simp add: holds_def uniq_def)
  then have ys: "ys = entries y @ after k"
    using es assms(2) by (metis append_Cons_eq_iff distinct_map not_distinct_conv_prefix distinct_append distinct.simps(2))
  have h: "holds 0 (plug (Nd r x e y) k) t"
    using assms(1) T by simp
  then have n: "t_nodes t (fst e) = Some (cell (parent_in k) r e (kids LEFT (root_of x) (root_of y)))" "rep (t_nodes t) (Some (fst e)) y"
    by (simp_all add: holds_plug)
  show ?thesis
  proof (cases y)
    case Lf
    then show ?thesis
      using n(1) ys TreeSuccessor_loop_plug [OF h, of "fst e"] by (simp add: TreeNextElement_def TreeNextElementIndex_def TreeSuccessor_def kids_def)
  next
    case (Nd r' x' e' y')
    then have "head_addr ys = head_addr (entries y)"
      using ys by (simp add: head_addr_append [of "entries x' @ e' # entries y'" "after k", simplified])
    then show ?thesis
      using n Nd TreeMinimum_rep [OF n(2), of "[]"] min_at_head [of y "[]"]
      by (simp add: TreeNextElement_def TreeNextElementIndex_def TreeSuccessor_def kids_def)
  qed
qed

lemma TreeNextElement_first: "holds 0 T t \<Longrightarrow> TreeNextElement None t = Some (head_addr (entries T))"
  using TreeMinimum_rep [of t None T "[]"] min_at_head [of T "[]"] by (simp add: TreeNextElement_def TreeNextElementIndex_def holds_def)

text \<open>The contents that a loop over \<open>TreeNextElement\<close> visits from the node after \<open>p\<close> on.\<close>

fun visits :: "('k, 'c) Tree \<Rightarrow> nat option \<Rightarrow> 'c list \<Rightarrow> bool" where
  "visits t p [] \<longleftrightarrow> TreeNextElement p t = Some None"
| "visits t p (c # cs) \<longleftrightarrow>
     (case TreeNextElement p t of
        Some (Some a) \<Rightarrow> Option.bind (t_nodes t a) n_content = Some c \<and> visits t (Some a) cs
      | _ \<Rightarrow> False)"

lemma rep_content: "rep h p T \<Longrightarrow> e \<in> set (entries T) \<Longrightarrow> Option.bind (h (fst e)) n_content = Some (fst (snd e))"
  by (induction T arbitrary: p) auto

lemma visits_entries:
  assumes "holds 0 T t"
  shows "visits t None (map (\<lambda>e. fst (snd e)) (entries T))"
proof -
  have after: "visits t (Some (fst e)) (map (\<lambda>e. fst (snd e)) ys)" if "entries T = xs @ e # ys" for xs e ys
    using that
  proof (induction ys arbitrary: xs e)
    case (Cons f ys)
    have "Option.bind (t_nodes t (fst f)) n_content = Some (fst (snd f))"
      using assms Cons.prems rep_content [of "t_nodes t" None T f] by (simp add: holds_def)
    then show ?case
      using TreeNextElement_next [OF assms Cons.prems] Cons.IH [of "xs @ [e]" f] Cons.prems by simp
  qed (use TreeNextElement_next [OF assms] in simp)
  show ?thesis
  proof (cases "entries T")
    case (Cons f ys)
    have "Option.bind (t_nodes t (fst f)) n_content = Some (fst (snd f))"
      using assms Cons rep_content [of "t_nodes t" None T f] by (simp add: holds_def)
    then show ?thesis
      using TreeNextElement_first [OF assms] after [of "[]" f ys] Cons by simp
  qed (use TreeNextElement_first [OF assms] in simp)
qed

section \<open>The comparisons of the source\<close>

interpretation int_order: key_order TreeIntCompare id "(<)"
  by unfold_locales (auto simp: TreeIntCompare_def Let_def)

interpretation ptr_order: key_order TreePtrCompare id "(<)"
  by unfold_locales (auto simp: TreePtrCompare_def Let_def)

lemma strcmp_swap: "strcmp b a = - strcmp a b"
  by (induction a b rule: strcmp.induct) auto

lemma strcmp_zero: "strcmp a b = 0 \<longleftrightarrow> a = b"
  by (induction a b rule: strcmp.induct) auto

lemma strcmp_trans: "strcmp a b > 0 \<Longrightarrow> strcmp b c > 0 \<Longrightarrow> strcmp a c > 0"
proof (induction a b arbitrary: c rule: strcmp.induct)
  case (3 x as)
  then show ?case
    by (cases c) auto
next
  case (4 x as y bs)
  then show ?case
    by (cases c) (auto split: if_splits)
qed auto

text \<open>\<open>TreeStringCompare\<close> is \<open>strcmp\<close> itself, so strings are kept in descending order.\<close>

interpretation string_order: key_order TreeStringCompare id "\<lambda>a b. strcmp a b > 0"
proof unfold_locales
  fix k l :: "byte list"
  show "0 < strcmp k l \<or> k = l \<or> 0 < strcmp l k"
    using strcmp_swap [of l k] strcmp_zero [of k l] by linarith
  show "\<not> 0 < strcmp k k"
    using strcmp_zero [of k k] by simp
  fix m :: "byte list"
  show "0 < strcmp k l \<Longrightarrow> 0 < strcmp l m \<Longrightarrow> 0 < strcmp k m"
    by (rule strcmp_trans)
qed (auto simp: TreeStringCompare_def strcmp_swap [of _ "arg_value _"])

section \<open>Trees are maps\<close>

datatype ('k, 'c) tree_op = Add 'c int | Remove 'c | Remove_key 'k | Find 'k

fun tree_exec :: "('k, 'c) tree_op \<Rightarrow> ('k, 'c) Tree \<Rightarrow> ('c option \<times> ('k, 'c) Tree) option" where
  "tree_exec (Add c sz) t = TreeAdd c sz t"
| "tree_exec (Remove c) t = TreeRemove c t"
| "tree_exec (Remove_key k) t = TreeRemoveKey k t"
| "tree_exec (Find k) t = do { p \<leftarrow> TreeFind k t; Some (Option.bind (node t p) n_content, t) }"

fun map_exec :: "('c \<Rightarrow> 'k) \<Rightarrow> ('k, 'c) tree_op \<Rightarrow> ('k \<Rightarrow> ('c \<times> int) option) \<Rightarrow> 'c option \<times> ('k \<Rightarrow> ('c \<times> int) option)" where
  "map_exec key (Add c sz) m = (map_option fst (m (key c)), m(key c \<mapsto> (c, sz)))"
| "map_exec key (Remove c) m = (map_option fst (m (key c)), m(key c := None))"
| "map_exec key (Remove_key k) m = (map_option fst (m k), m(k := None))"
| "map_exec key (Find k) m = (map_option fst (m k), m)"

fun tree_run :: "('k, 'c) tree_op list \<Rightarrow> ('k, 'c) Tree \<Rightarrow> ('c option list \<times> ('k, 'c) Tree) option" where
  "tree_run [] t = Some ([], t)"
| "tree_run (op # ops) t = do {
     (r, t') \<leftarrow> tree_exec op t;
     (rs, t'') \<leftarrow> tree_run ops t';
     Some (r # rs, t'')
   }"

fun map_run :: "('c \<Rightarrow> 'k) \<Rightarrow> ('k, 'c) tree_op list \<Rightarrow> ('k \<Rightarrow> ('c \<times> int) option) \<Rightarrow> 'c option list \<times> ('k \<Rightarrow> ('c \<times> int) option)" where
  "map_run key [] m = ([], m)"
| "map_run key (op # ops) m =
     (case map_exec key op m of (r, m') \<Rightarrow> case map_run key ops m' of (rs, m'') \<Rightarrow> (r # rs, m''))"

context key_order begin

lemma tree_exec_ok:
  assumes "tree_ok compare key lt T t"
  shows "\<exists>t' T'. tree_exec op t = Some (fst (map_exec key op (map_of (items key T))), t') \<and> tree_ok compare key lt T' t' \<and>
    map_of (items key T') = snd (map_exec key op (map_of (items key T))) \<and>
    (case op of Add c sz \<Rightarrow> T' = tree_add (\<lambda>d. compare d (Content c)) (t_next t) c sz T | _ \<Rightarrow> removed T T')"
proof (cases op)
  case (Add c sz)
  then show ?thesis
    using TreeAdd_ok [OF assms, of c sz] by auto
next
  case (Remove c)
  then show ?thesis
    using remove_ok(1) [OF assms, of c] by auto
next
  case (Remove_key k)
  then show ?thesis
    using remove_ok(2) [OF assms, of k] by auto
next
  case (Find k)
  then show ?thesis
    using remove_ok(3) [OF assms, of k] assms by (auto simp: removed_def)
qed

lemma tree_run_ok:
  assumes "tree_ok compare key lt T t"
  shows "\<exists>t' T'. tree_run ops t = Some (fst (map_run key ops (map_of (items key T))), t') \<and> tree_ok compare key lt T' t' \<and>
    map_of (items key T') = snd (map_run key ops (map_of (items key T)))"
  using assms
proof (induction ops arbitrary: T t)
  case (Cons op ops)
  obtain t' T' where t': "tree_exec op t = Some (fst (map_exec key op (map_of (items key T))), t')" "tree_ok compare key lt T' t'"
    "map_of (items key T') = snd (map_exec key op (map_of (items key T)))"
    using tree_exec_ok [OF Cons.prems, of op] by blast
  then show ?case
    using Cons.IH [OF t'(2)] by (auto simp: case_prod_beta)
qed auto

lemma distinct_keys: "tree_ok compare key lt T t \<Longrightarrow> distinct (keys (items key T))"
  unfolding tree_ok_def using irrefl by (auto simp: distinct_conv_nth sorted_wrt_iff_nth_less) (metis irrefl linorder_neqE_nat)

lemma items_map:
  assumes "tree_ok compare key lt T t"
  shows "length (entries T) = card (dom (map_of (items key T)))" "(\<Sum>e\<leftarrow>entries T. snd (snd e)) = (\<Sum>k\<in>dom (map_of (items key T)). snd (the (map_of (items key T) k)))"
    "map_option fst (map_of (items key T) k) = find (\<lambda>c. key c = k) (map (\<lambda>e. fst (snd e)) (entries T))"
proof -
  have d: "distinct (keys (items key T))"
    by (rule distinct_keys [OF assms])
  have "card (dom (map_of (items key T))) = card (set (keys (items key T)))"
    by (simp add: dom_map_of_conv_image_fst)
  also have "\<dots> = length (entries T)"
    using distinct_card [OF d] by (simp add: items_def)
  finally show "length (entries T) = card (dom (map_of (items key T)))"
    by (rule sym)
  have "(\<Sum>p\<leftarrow>ps. snd (snd p)) = (\<Sum>k\<in>fst ` set ps. snd (the (map_of ps k)))" if "distinct (map fst ps)" for ps :: "('k \<times> 'c \<times> int) list"
    using that
  proof (induction ps)
    case (Cons p ps)
    have "(\<Sum>k\<in>fst ` set ps. snd (the (map_of (p # ps) k))) = (\<Sum>k\<in>fst ` set ps. snd (the (map_of ps k)))"
      using Cons.prems by (intro sum.cong) (auto simp: image_iff)
    then show ?case
      using Cons by simp
  qed simp
  from this [OF d] show "(\<Sum>e\<leftarrow>entries T. snd (snd e)) = (\<Sum>k\<in>dom (map_of (items key T)). snd (the (map_of (items key T) k)))"
    by (simp add: dom_map_of_conv_image_fst) (simp add: items_def item_def o_def)
  show "map_option fst (map_of (items key T) k) = find (\<lambda>c. key c = k) (map (\<lambda>e. fst (snd e)) (entries T))"
  proof -
    have "map_option fst (map_of (map (item key) es) k) = find (\<lambda>c. key c = k) (map (\<lambda>e. fst (snd e)) es)" for es
      by (induction es) (auto simp: item_def)
    then show ?thesis
      by (simp add: items_def)
  qed
qed

end

text \<open>
  C16: a search tree is a finite map, for every comparison function that orders the keys. Every sequence of insertions, removals by
  content or key and searches on a new tree is defined, never follows a dangling pointer and returns what a map returns. Afterwards the count and the size
  are those of the map, exactly one node is allocated for each of its keys, and a loop over \<open>TreeNextElement\<close> visits the contents in order.
\<close>

theorem tree_is_map:
  assumes "key_order compare key lt"
  shows "\<exists>t cs. tree_run ops (TreeInitializeNoMalloc compare) = Some (fst (map_run key ops Map.empty), t) \<and>
    (let m = snd (map_run key ops Map.empty) in
       t_count t = int (card (dom m)) \<and> t_size t = (\<Sum>k\<in>dom m. snd (the (m k))) \<and> card {a. t_nodes t a \<noteq> None} = card (dom m) \<and>
       visits t None cs \<and> sorted_wrt lt (map key cs) \<and> (\<forall>k. map_option fst (m k) = find (\<lambda>c. key c = k) cs))"
proof -
  obtain t T where t: "tree_run ops (TreeInitializeNoMalloc compare) = Some (fst (map_run key ops Map.empty), t)" "tree_ok compare key lt T t"
    and m: "map_of (items key T) = snd (map_run key ops Map.empty)"
    using key_order.tree_run_ok [OF assms tree_ok_init, of ops] by (auto simp: items_def)
  note im = key_order.items_map [OF assms t(2)]
  have "card {a. t_nodes t a \<noteq> None} = length (entries T)"
    using t(2) distinct_card [of "map fst (entries T)"] by (simp add: tree_ok_def holds_def uniq_def addrs_def)
  moreover have "visits t None (map (\<lambda>e. fst (snd e)) (entries T))"
    using t(2) by (intro visits_entries) (simp add: tree_ok_def)
  moreover have "sorted_wrt lt (map key (map (\<lambda>e. fst (snd e)) (entries T)))"
    using t(2) by (simp add: tree_ok_def items_def item_def o_def)
  ultimately show ?thesis
    using t im by (intro exI conjI) (auto simp: tree_ok_def m [symmetric] Let_def)
qed

theorem tree_is_map_witness:
  "\<exists>t cs. tree_run [Add 5 2, Add 3 1, Add 8 1, Remove_key 5, Find 3, Find 5] (TreeInitializeNoMalloc TreeIntCompare) =
      Some ([None, None, None, Some 5, Some 3, None], t) \<and> t_count t = 2 \<and> visits t None cs \<and> sorted_wrt (<) cs"
proof -
  have "dom [3::int \<mapsto> (3::int, 1::int), 8 \<mapsto> (8, 1)] = {3, 8}"
    by auto
  then show ?thesis
    using tree_is_map [OF int_order.key_order_axioms, of "[Add 5 2, Add 3 1, Add 8 1, Remove_key 5, Find 3, Find 5]"]
    by (simp add: Let_def del: tree_run.simps) blast
qed

end
