(* ===== verification/Mqtt_Tree_Balance.thy ===== *)
theory Mqtt_Tree_Balance
  imports Mqtt_Tree_Map
begin

text \<open>
  The balance of the search trees, \<^verbatim>\<open>Tree.c\<close>: no red node has a red child and all paths have the same number of black nodes. Insertion of
  new keys and removal keep both, so the depth is logarithmic; adding a key again does not.
\<close>

section \<open>Colours and black heights, of trees and contexts\<close>

fun invc :: "'c shape \<Rightarrow> bool" where
  "invc Lf = True"
| "invc (Nd r x e y) \<longleftrightarrow> (r \<longrightarrow> \<not> is_red x \<and> \<not> is_red y) \<and> invc x \<and> invc y"

fun bh :: "'c shape \<Rightarrow> nat" where
  "bh Lf = 0"
| "bh (Nd r x e y) = bh x + (if r then 0 else 1)"

fun invh :: "'c shape \<Rightarrow> bool" where
  "invh Lf = True"
| "invh (Nd r x e y) \<longleftrightarrow> bh x = bh y \<and> invh x \<and> invh y"

fun ctxc :: "bool \<Rightarrow> 'c frame list \<Rightarrow> bool" where
  "ctxc b [] = True"
| "ctxc b (Fr d r e s # k) \<longleftrightarrow> invc s \<and> (r \<longrightarrow> \<not> b \<and> \<not> is_red s) \<and> ctxc r k"

fun ctxh :: "nat \<Rightarrow> 'c frame list \<Rightarrow> bool" where
  "ctxh n [] = True"
| "ctxh n (Fr d r e s # k) \<longleftrightarrow> invh s \<and> bh s = n \<and> ctxh (if r then n else Suc n) k"

definition balanced :: "'c shape \<Rightarrow> bool" where
  "balanced T \<longleftrightarrow> invc T \<and> invh T \<and> \<not> is_red T"

lemma invc_nd [simp]: "invc (nd d r e x y) \<longleftrightarrow> (r \<longrightarrow> \<not> is_red x \<and> \<not> is_red y) \<and> invc x \<and> invc y"
  by (auto simp: nd_def)

lemma invh_nd [simp]: "invh (nd d r e x y) \<longleftrightarrow> bh x = bh y \<and> invh x \<and> invh y"
  by (auto simp: nd_def)

lemma bh_nd: "bh x = bh y \<Longrightarrow> bh (nd d r e x y) = bh x + (if r then 0 else 1)"
  by (auto simp: nd_def)

lemma invc_plug: "invc (plug x k) \<longleftrightarrow> invc x \<and> ctxc (is_red x) k"
  by (induction x k rule: plug.induct) auto

lemma invh_plug: "invh (plug x k) \<longleftrightarrow> invh x \<and> ctxh (bh x) k"
  by (induction x k rule: plug.induct) (auto simp: bh_nd)

lemma ctxc_mono: "ctxc b k \<Longrightarrow> ctxc False k"
  by (cases k rule: last_step.cases) auto

lemma invh_paint [simp]: "invh (paint b x) = invh x"
  by (cases x) auto

lemma bh_paint: "bh (paint False x) = (if is_red x then Suc (bh x) else bh x)" "x \<noteq> Lf \<Longrightarrow> \<not> is_red x \<Longrightarrow> Suc (bh (paint True x)) = bh x"
  by (cases x; auto)+

lemma is_red_paint_False [simp]: "\<not> is_red (paint False x)"
  by (cases x) auto

lemma invc_paint_False: "invc x \<Longrightarrow> invc (paint False x)"
  by (cases x) auto

lemma paint_black: "\<not> is_red x \<Longrightarrow> paint False x = x"
  by (cases x) auto

lemma paint_paint [simp]: "paint b (paint c x) = paint b x"
  by (cases x) auto

section \<open>Insertion\<close>

lemma balance_add_balanced:
  assumes "is_red x" "invc x" "ctxc False k" "invh (plug x k)"
  shows "invc (paint False (balance_add x k)) \<and> invh (balance_add x k)"
  using assms
proof (induction x k rule: balance_add_induct)
  case (grand x d e s g r f u k)
  have r: "\<not> r" "invc s" "invc u" "\<not> is_red s" "ctxc False k"
    using grand(4) by auto
  have h: "invh x" "invh s" "invh u" "bh s = bh x" "bh u = bh x" "ctxh (Suc (bh x)) k"
    using grand(5) r by (auto simp: invh_plug bh_nd)
  consider "is_red u" | "\<not> is_red u" "d = g" | "\<not> is_red u" "d \<noteq> g"
    by blast
  then show ?case
  proof cases
    case red: 1
    show ?thesis
      using grand(1) [OF red] grand(3) red r h by (simp add: invh_plug bh_nd bh_paint invc_paint_False)
  next
    case 2
    then show ?thesis
      using grand(2,3) r h by (intro conjI invc_paint_False) (simp_all add: invc_plug invh_plug bh_nd)
  next
    case 3
    have "x \<noteq> Lf"
      using grand(2) by auto
    then obtain q a y z where "x = nd g q a y z"
      using nd_cases [of x g] by blast
    then show ?thesis
      using 3 grand(2,3) r h by (intro conjI invc_paint_False) (simp_all add: invc_plug invh_plug bh_nd)
  qed
next
  case (parent x fr)
  then show ?case
    by (cases fr) (auto simp: nd_def)
qed (auto simp: invc_plug invc_paint_False)

lemma tree_add_balanced:
  assumes "balanced T" "descend f T [] = (Lf, k)"
  shows "balanced (tree_add f a c sz T)"
proof -
  have "plug Lf k = T"
    using plug_descend [OF assms(2)] by simp
  then have "ctxc False k" "ctxh 0 k"
    using assms(1) invc_plug [of Lf k] invh_plug [of Lf k] by (auto simp: balanced_def)
  then have "invc (paint False (balance_add (Nd True Lf (a, c, sz) Lf) k)) \<and> invh (balance_add (Nd True Lf (a, c, sz) Lf) k)"
    by (intro balance_add_balanced) (auto simp: invh_plug)
  then show ?thesis
    using assms(2) by (simp add: tree_add_def balanced_def)
qed

section \<open>Removal\<close>

lemma is_red_plug: "k \<noteq> [] \<Longrightarrow> is_red (plug x k) = is_red (plug y k)"
proof (induction k arbitrary: x y)
  case (Cons f k)
  then show ?case
    by (cases f; cases k) simp_all
qed simp

text \<open>
  The parent of the deficient subtree \<open>x\<close>: the result has the parent's height, or, when the parent becomes the deficient
  one, one less.
\<close>

lemma bar_balanced:
  assumes "invc x" "invh x" "\<not> is_red x" "invc s" "invh s" "\<not> is_red s" "bh s = Suc (bh x)"
  shows "case bar d r e x s of
      Inl y \<Rightarrow> invc (paint False y) \<and> invh y \<and> bh y = bh x + (if r then 0 else 1) \<and> is_red y = r
    | Inr y \<Rightarrow> invc y \<and> invh y \<and> bh y = bh s + (if r then 0 else 1) \<and> is_red y = r"
proof -
  have "s \<noteq> Lf"
    using assms(7) by auto
  then obtain f y z where s: "s = nd d False f y z"
    using nd_cases [of s d] assms(6) by auto
  have h: "invc y" "invc z" "invh y" "invh z" "bh y = bh x" "bh z = bh x"
    using assms s by (auto simp: bh_nd)
  consider "is_red z" | "\<not> is_red z" "is_red y" | "\<not> is_red z" "\<not> is_red y"
    by blast
  then show ?thesis
  proof cases
    case 1
    then show ?thesis
      using s h assms by (simp add: bar.simps bh_nd bh_paint invc_paint_False)
  next
    case 2
    then have "y \<noteq> Lf"
      by auto
    then obtain q g u v where y: "y = nd d True g u v"
      using nd_cases [of y d] 2 by auto
    have "bh u = bh x" "bh v = bh x"
      using h y by (auto simp: bh_nd)
    then show ?thesis
      using s y h assms 2 by (simp add: bar.simps bh_nd)
  next
    case 3
    then show ?thesis
      using s h assms by (simp add: bar.simps bh_nd)
  qed
qed

lemma balance_remove_balanced:
  assumes "invc (paint False x)" "invh x" "ctxc False k" "ctxh (Suc (bh x)) k" "k \<noteq> [] \<Longrightarrow> \<not> is_red (plug x k)"
  shows "balanced (balance_remove x k)"
  using assms
proof (induction x k rule: balance_remove.induct)
  case (1 x)
  then show ?case
    by (simp add: balanced_def)
next
  case (2 x d r e s k)
  have s: "invh s" "bh s = Suc (bh x)" "invc s" "r \<longrightarrow> \<not> is_red s" "ctxc r k" "ctxh (if r then Suc (bh x) else Suc (Suc (bh x))) k"
    using 2(4,5) by auto
  have root: "\<not> is_red (plug y (Fr d r' e' s' # k))" if "k \<noteq> []" for y r' e' s'
    using 2(6) is_red_plug [OF that, of "nd d r e x s" "nd d r' e' y s'"] by simp
  have black: "\<not> r" if "k = []"
    using that 2(6) by simp
  show ?case
  proof (cases "is_red x")
    case True
    then show ?thesis
      using 2(2,3,4,5) root [of "paint False x" r e s] black
      by (cases "k = []") (auto simp: balanced_def invc_plug invh_plug bh_paint bh_nd)
  next
    case False
    then have x: "invc x"
      using 2(2) by (simp add: paint_black)
    show ?thesis
    proof (cases "is_red s")
      case True
      then have "\<not> r" "s \<noteq> Lf"
        using s(4) by auto
      then obtain f y z where s': "s = nd d True f y z"
        using nd_cases [of s d] True by auto
      have yz: "invc y" "invc z" "invh y" "invh z" "bh y = Suc (bh x)" "bh z = Suc (bh x)" "\<not> is_red y" "\<not> is_red z"
        using s s' by (auto simp: bh_nd)
      have "ctxc False k" "ctxh (Suc (Suc (bh x))) k"
        using s \<open>\<not> r\<close> by simp_all
      moreover note bar_balanced [OF x 2(3) False yz(1,3,7,5), of True d e]
      ultimately show ?thesis
        using False True s' yz root [of _ False f z]
        by (cases "bar d True e x y"; cases "k = []") (auto simp: balanced_def invc_plug invh_plug bh_nd bh_paint invc_paint_False)
    next
      case nred: False
      note bar = bar_balanced [OF x 2(3) False s(3,1) nred s(2), of r d e]
      show ?thesis
      proof (cases "bar d r e x s")
        case (Inl y)
        have "balanced (balance_remove y k)"
          using bar Inl s root black 2(6) is_red_plug [of k y "nd d r e x s"] ctxc_mono [OF s(5)]
          by (intro 2(1) [OF False nred Inl]) auto
        then show ?thesis
          using False nred Inl by simp
      next
        case (Inr y)
        then show ?thesis
          using bar False nred s by (auto simp: balanced_def invc_plug invh_plug intro!: invc_paint_False)
      qed
    qed
  qed
qed

lemma ctx_content: "ctxc b (j @ Fr d r e s # k) = ctxc b (j @ Fr d r e' s # k)" "ctxh n (j @ Fr d r e s # k) = ctxh n (j @ Fr d r e' s # k)"
proof -
  have "\<forall>b n. ctxc b (j @ Fr d r e s # k) = ctxc b (j @ Fr d r e' s # k) \<and> ctxh n (j @ Fr d r e s # k) = ctxh n (j @ Fr d r e' s # k)"
  proof (induction j)
    case (Cons f j)
    then show ?case
      by (cases f) simp
  qed simp
  then show "ctxc b (j @ Fr d r e s # k) = ctxc b (j @ Fr d r e' s # k)" "ctxh n (j @ Fr d r e s # k) = ctxh n (j @ Fr d r e' s # k)"
    by blast+
qed

lemma is_red_content: "is_red (plug x (j @ Fr d r e s # k)) = is_red (plug x (j @ Fr d r e' s # k))"
proof (cases "k = []")
  case False
  then show ?thesis
    using is_red_plug [OF False, of "nd d r e (plug x j) s" "nd d r e' (plug x j) s"] by (simp add: plug_append)
qed (simp add: plug_append)

lemma cut_balanced:
  assumes "balanced (plug (Nd r Lf e z) k) \<or> balanced (plug (Nd r z e Lf) k)"
  shows "balanced (cut r z k)"
proof -
  have z: "invc z" "invh z" "bh z = 0" "r \<longrightarrow> z = Lf" "ctxc r k" "ctxh (if r then 0 else 1) k"
    using assms by (cases z; auto simp: balanced_def invc_plug invh_plug split: if_splits)+
  have root: "\<not> is_red (plug z k)" if "k \<noteq> []"
    using assms is_red_plug [OF that, of z "Nd r Lf e z"] is_red_plug [OF that, of z "Nd r z e Lf"] by (auto simp: balanced_def)
  show ?thesis
  proof (cases r)
    case True
    then have "k \<noteq> []"
      using assms by (auto simp: balanced_def)
    then show ?thesis
      using True z root ctxc_mono [of True k] by (simp add: cut_def balanced_def invc_plug invh_plug)
  next
    case False
    then show ?thesis
      using z root invc_paint_False [of z] by (simp add: cut_def) (intro balance_remove_balanced; simp)
  qed
qed

lemma tree_remove_balanced:
  assumes "balanced (plug (Nd r x e y) k)"
  shows "balanced (tree_remove (Nd r x e y) k)"
proof (cases "x = Lf \<or> y = Lf")
  case True
  then show ?thesis
    using assms cut_balanced [of r e "if x \<noteq> Lf then x else y" k] by (auto simp: tree_remove_def)
next
  case False
  obtain z0 j where "min_at y [] = (z0, j)"
    by (cases "min_at y []")
  moreover from this False obtain r' e' y' where "z0 = Nd r' Lf e' y'"
    using min_at_node [of y] by blast
  ultimately have m: "min_at y [] = (Nd r' Lf e' y', j)"
    by simp
  let ?k = "j @ Fr RIGHT r e x # k" and ?k' = "j @ Fr RIGHT r (fst e, snd e') x # k"
  have "plug (Nd r' Lf e' y') ?k = plug (Nd r x e y) k"
    using min_at_plug [OF m] by (simp add: plug_append nd_def)
  then have "balanced (plug (Nd r' Lf e' y') ?k)"
    using assms by simp
  then have "balanced (plug (Nd r' Lf e' y') ?k')"
    using ctx_content [of _ j RIGHT r e x k "(fst e, snd e')"] is_red_content [of _ j RIGHT r e x k "(fst e, snd e')"]
    by (simp add: balanced_def invc_plug invh_plug)
  then show ?thesis
    using False m cut_balanced [of r' e' y' ?k'] by (simp add: tree_remove_def)
qed

section \<open>Depth\<close>

fun height :: "'c shape \<Rightarrow> nat" where
  "height Lf = 0"
| "height (Nd r x e y) = Suc (max (height x) (height y))"

lemma TreeWalk_rep: "rep (t_nodes t) p x \<Longrightarrow> TreeWalk t (root_of x) d = Some (d + int (height x))"
proof (induction x arbitrary: p d)
  case (Nd r x e y)
  then show ?case
    by (subst TreeWalk.simps) (auto simp: kids_def)
qed (simp add: TreeWalk.simps)

lemma height_bh: "invc x \<Longrightarrow> invh x \<Longrightarrow> height x \<le> 2 * bh x + (if is_red x then 1 else 0)"
  by (induction x) (auto split: if_splits)

lemma bh_length: "invh x \<Longrightarrow> 2 ^ bh x \<le> Suc (length (entries x))"
proof (induction x)
  case (Nd r x e y)
  then have "2 ^ bh x \<le> Suc (length (entries x))" "2 ^ bh x \<le> Suc (length (entries y))"
    by auto
  then show ?case
    by auto
qed simp

lemma balanced_height: "balanced T \<Longrightarrow> 2 ^ ((height T + 1) div 2) \<le> length (entries T) + 1"
proof -
  assume b: "balanced T"
  then have "height T \<le> 2 * bh T"
    using height_bh [of T] by (simp add: balanced_def)
  then have "(height T + 1) div 2 \<le> bh T"
    by simp
  then have "(2 :: nat) ^ ((height T + 1) div 2) \<le> 2 ^ bh T"
    by simp
  also have "\<dots> \<le> length (entries T) + 1"
    using bh_length [of T] b by (simp add: balanced_def)
  finally show ?thesis .
qed

section \<open>Runs\<close>

text \<open>Every key that is added is new.\<close>

fun new_keys :: "('c \<Rightarrow> 'k) \<Rightarrow> ('k, 'c) tree_op list \<Rightarrow> ('k \<Rightarrow> ('c \<times> int) option) \<Rightarrow> bool" where
  "new_keys key [] m = True"
| "new_keys key (op # ops) m \<longleftrightarrow> (case op of Add c sz \<Rightarrow> m (key c) = None | _ \<Rightarrow> True) \<and> new_keys key ops (snd (map_exec key op m))"

lemma removed_balanced: "removed T T' \<Longrightarrow> balanced T \<Longrightarrow> balanced T'"
  unfolding removed_def using tree_remove_balanced by blast

context key_order begin

lemma tree_run_balanced:
  assumes "tree_ok compare key lt T t" "balanced T" "new_keys key ops (map_of (items key T))"
  shows "\<exists>rs t' T'. tree_run ops t = Some (rs, t') \<and> tree_ok compare key lt T' t' \<and> balanced T'"
  using assms
proof (induction ops arbitrary: T t)
  case (Cons op ops)
  obtain t' T' where t': "tree_exec op t = Some (fst (map_exec key op (map_of (items key T))), t')" "tree_ok compare key lt T' t'"
    "map_of (items key T') = snd (map_exec key op (map_of (items key T)))"
    "case op of Add c sz \<Rightarrow> T' = tree_add (\<lambda>d. compare d (Content c)) (t_next t) c sz T | _ \<Rightarrow> removed T T'"
    using tree_exec_ok [OF Cons.prems(1), of op] by blast
  have "balanced T'"
  proof (cases op)
    case (Add c sz)
    obtain x k where d: "descend (\<lambda>d. compare d (Content c)) T [] = (x, k)"
      by (cases "descend (\<lambda>d. compare d (Content c)) T []")
    have "map_of (items key T) (key c) = None"
      using Cons.prems(3) Add by simp
    then have "x = Lf"
      using find_ok [OF Cons.prems(1) d] by (cases x) auto
    then show ?thesis
      using tree_add_balanced [OF Cons.prems(2), of "\<lambda>d. compare d (Content c)" k] d t'(4) Add by simp
  qed (use t'(4) removed_balanced Cons.prems(2) in auto)
  moreover have "new_keys key ops (map_of (items key T'))"
    using Cons.prems(3) t'(3) by simp
  ultimately obtain rs t'' T'' where "tree_run ops t' = Some (rs, t'')" "tree_ok compare key lt T'' t''" "balanced T''"
    using Cons.IH [OF t'(2)] by blast
  then show ?case
    using t'(1) by auto
qed auto

end

text \<open>
  C18: a search tree stays balanced. After any sequence of operations that adds only new keys, the depth that \<open>TreeMaxDepth\<close> reports is at most
  twice the logarithm of the number of contents plus one.
\<close>

theorem tree_depth:
  assumes "key_order compare key lt" "new_keys key ops Map.empty"
  shows "\<exists>rs t h. tree_run ops (TreeInitializeNoMalloc compare) = Some (rs, t) \<and> TreeMaxDepth t = Some (int h) \<and> 2 ^ ((h + 1) div 2) \<le> t_count t + 1"
proof -
  obtain rs t T where t: "tree_run ops (TreeInitializeNoMalloc compare) = Some (rs, t)" "tree_ok compare key lt T t" "balanced T"
    using key_order.tree_run_balanced [OF assms(1) tree_ok_init, of ops] assms(2) by (auto simp: items_def balanced_def)
  have "t_count t = int (length (entries T))" "rep (t_nodes t) None T" "t_root t 0 = root_of T"
    using t(2) by (simp_all add: tree_ok_def holds_def)
  moreover have "(2 :: int) ^ ((height T + 1) div 2) \<le> int (length (entries T)) + 1"
    using of_nat_mono [OF balanced_height [OF t(3)], where 'a = int] by simp
  ultimately have "TreeMaxDepth t = Some (int (height T))" "2 ^ ((height T + 1) div 2) \<le> t_count t + 1"
    using TreeWalk_rep [of t None T 0] by (simp_all add: TreeMaxDepth_def)
  with t(1) show ?thesis
    by blast
qed

theorem tree_depth_witness:
  "\<exists>rs t h. tree_run [Add 1 1, Add 2 1, Add 3 1, Add 4 1, Add 5 1, Remove_key 2] (TreeInitializeNoMalloc TreeIntCompare) = Some (rs, t) \<and>
     TreeMaxDepth t = Some (int h) \<and> 2 ^ ((h + 1) div 2) \<le> t_count t + 1"
  using tree_depth [OF int_order.key_order_axioms, of "[Add 1 1, Add 2 1, Add 3 1, Add 4 1, Add 5 1, Remove_key 2]"] by (simp del: tree_run.simps)

text \<open>
  Adding a key again runs the balancing from a node that may be black, and rotates as if it were red: the tree loses its balance.
\<close>

theorem replacing_unbalances:
  "case tree_run [Add 2 0, Add 1 0, Add 4 0, Add 5 0, Add 6 0, Add 3 0, Add 4 0] (TreeInitializeNoMalloc TreeIntCompare) of
     Some (rs, t) \<Rightarrow> \<exists>T. holds 0 T t \<and> \<not> balanced T
   | None \<Rightarrow> False"
proof -
  define T :: "int shape" where "T = Nd LEFT (Nd RIGHT (Nd LEFT Lf (1, 1, 0) Lf) (0, 2, 0) (Nd RIGHT Lf (5, 3, 0) Lf)) (2, 4, 0)
    (Nd RIGHT Lf (3, 5, 0) (Nd LEFT Lf (4, 6, 0) Lf))"
  have "map_option (\<lambda>(rs, t). holds 0 (Nd LEFT (Nd RIGHT (Nd LEFT Lf (1, 1, 0) Lf) (0, 2, 0) (Nd RIGHT Lf (5, 3, 0) Lf)) (2, 4, 0)
      (Nd RIGHT Lf (3, 5, 0) (Nd LEFT Lf (4, 6, 0) Lf))) t)
    (tree_run [Add 2 0, Add 1 0, Add 4 0, Add 5 0, Add 6 0, Add 3 0, Add 4 0] (TreeInitializeNoMalloc TreeIntCompare)) = Some True"
    by code_simp
  then have "\<exists>rs t. tree_run [Add 2 0, Add 1 0, Add 4 0, Add 5 0, Add 6 0, Add 3 0, Add 4 0] (TreeInitializeNoMalloc TreeIntCompare) = Some (rs, t) \<and> holds 0 T t"
    by (simp add: T_def case_prod_beta del: tree_run.simps)
  moreover have "\<not> balanced T"
    by (simp add: T_def balanced_def)
  ultimately show ?thesis
    by auto
qed

end
