(* ===== verification/Mqtt_Heap.thy ===== *)
theory Mqtt_Heap
  imports Mqtt_Tree_Balance "HOL-Library.Signed_Division"
begin

text \<open>
  The tracked heap of the MQTT client library, \<^verbatim>\<open>Heap.c\<close>: \<open>malloc\<close>, \<open>realloc\<close> and \<open>free\<close> are replaced by functions that keep a record
  of every block in a search tree, put a mark before and behind each block, and report what was not freed.

  The results of the C library's \<open>malloc\<close> and \<open>realloc\<close> are arguments. Every function has two levels of results: \<open>None\<close> when C gives the
  call no meaning, \<open>Some None\<close> when it blocks for ever on the mutex, and \<open>Some (Some (r, st))\<close> when it returns.
\<close>

section \<open>State\<close>

record storageElement =
  se_file :: string
  se_line :: int
  se_ptr :: nat
  se_size :: int

datatype heap_error = Memory_allocation_error | Failed_to_remove string int | Failed_to_reallocate string int
  | Invalid_start string int | Invalid_end string int

text \<open>
  The blocks are what the C library has allocated for the items, by address, each with its bytes, \<open>None\<close> if not written yet. The counters wrap around
  like the C type \<open>int\<close>. Errors are the messages logged.
\<close>

record heap_state =
  h_tree :: "(nat, storageElement) Tree"
  h_current_size :: "32 word"
  h_max_size :: "32 word"
  h_blocks :: "nat \<Rightarrow> byte option list option"
  h_locked :: bool
  h_errors :: "heap_error list"

type_synonym 'a reply = "('a \<times> heap_state) option option"

definition eyecatcher :: "byte option list" where
  "eyecatcher = replicate 4 (Some 0x88)"

definition size_of_int :: nat where
  "size_of_int = 4"

text \<open>\<open>sizeof (storageElement)\<close> with pointers of eight bytes.\<close>

definition size_of_element :: int where
  "size_of_element = 32"

definition log_error :: "heap_error \<Rightarrow> heap_state \<Rightarrow> heap_state" where
  "log_error e st = st\<lparr>h_errors := h_errors st @ [e]\<rparr>"

section \<open>Sizes and order\<close>

definition Heap_roundup :: "int \<Rightarrow> int option" where
  "Heap_roundup sz =
     (let r = sz smod 16 in
      if r \<noteq> 0 then do { _ \<leftarrow> ensure (sz + (16 - r) < 2 ^ 31); Some (sz + (16 - r)) } else Some sz)"

text \<open>The conversion of a \<open>size_t\<close> to the parameter of \<open>Heap_roundup\<close>, and of its result back.\<close>

definition roundup_size :: "64 word \<Rightarrow> 64 word option" where
  "roundup_size sz = map_option word_of_int (Heap_roundup (sint (ucast sz :: 32 word)))"

text \<open>The conversion of a wider integer to \<open>int\<close>.\<close>

definition to_int :: "int \<Rightarrow> int" where
  "to_int i = sint (word_of_int i :: 32 word)"

definition ptrCompare :: "(nat, storageElement) compare" where
  "ptrCompare a b =
     (let p = se_ptr a; q = (case b of Key k \<Rightarrow> k | Content s \<Rightarrow> se_ptr s) in if p > q then - 1 else if p = q then 0 else 1)"

definition Heap_initialize :: "heap_state \<Rightarrow> heap_state" where
  "Heap_initialize st = st\<lparr>h_tree := (TreeInitializeNoMalloc ptrCompare)\<lparr>t_heap_tracking := False\<rparr>\<rparr>"

section \<open>Marks\<close>

text \<open>Writing bytes into a block, which must be large enough.\<close>

definition write_block :: "nat \<Rightarrow> nat \<Rightarrow> byte option list \<Rightarrow> heap_state \<Rightarrow> heap_state option" where
  "write_block a off bs st = do {
     b \<leftarrow> h_blocks st a;
     _ \<leftarrow> ensure (off + length bs \<le> length b);
     Some (st\<lparr>h_blocks := (h_blocks st)(a \<mapsto> take off b @ bs @ drop (off + length bs) b)\<rparr>)
   }"

definition read_block :: "nat \<Rightarrow> nat \<Rightarrow> nat \<Rightarrow> heap_state \<Rightarrow> byte option list option" where
  "read_block a off n st = do {
     b \<leftarrow> h_blocks st a;
     _ \<leftarrow> ensure (off + n \<le> length b);
     Some (take n (drop off b))
   }"

text \<open>The pointer \<open>p\<close> to the item is behind the start mark, so the block starts four bytes before it.\<close>

definition block_of :: "nat \<Rightarrow> nat" where
  "block_of p = p - size_of_int"

definition checkEyecatchers :: "string \<Rightarrow> int \<Rightarrow> nat \<Rightarrow> int \<Rightarrow> heap_state \<Rightarrow> heap_state option" where
  "checkEyecatchers file line p sz st = do {
     _ \<leftarrow> ensure (0 \<le> sz);
     us \<leftarrow> read_block (block_of p) 0 size_of_int st;
     let st1 = (if us \<noteq> eyecatcher then log_error (Invalid_start file line) st else st);
     us' \<leftarrow> read_block (block_of p) (size_of_int + nat sz) size_of_int st1;
     Some (if us' \<noteq> eyecatcher then log_error (Invalid_end file line) st1 else st1)
   }"

section \<open>Allocation\<close>

text \<open>
  \<open>r1\<close> and \<open>r2\<close> tell whether the structure and the copy of the file name could be allocated, \<open>r3\<close> is the address of the new block. The early returns leave
  the mutex locked.
\<close>

definition mymalloc :: "string \<Rightarrow> int \<Rightarrow> 64 word \<Rightarrow> bool \<Rightarrow> bool \<Rightarrow> nat option \<Rightarrow> heap_state \<Rightarrow> nat option reply" where
  "mymalloc file line req r1 r2 r3 st0 =
     (if h_locked st0 then Some None
      else do {
        let st = st0\<lparr>h_locked := True\<rparr>;
        sz \<leftarrow> roundup_size req;
        let fail = Some (Some (None, log_error Memory_allocation_error st));
        if \<not> r1 then fail
        else if \<not> r2 then fail
        else case r3 of
            None \<Rightarrow> fail
          | Some a \<Rightarrow> do {
              let s = \<lparr>se_file = file, se_line = line, se_ptr = a, se_size = sint (ucast sz :: 32 word)\<rparr>;
              let space = to_int (size_of_element + (int (length file) + 1) + (uint sz + 2 * int size_of_int));
              let st1 = st\<lparr>h_blocks := (h_blocks st)(a \<mapsto> replicate (unat (sz + 8)) None)\<rparr>;
              st2 \<leftarrow> write_block a 0 eyecatcher st1;
              st3 \<leftarrow> write_block a (size_of_int + unat sz) eyecatcher st2;
              (_, tree) \<leftarrow> TreeAdd s space (h_tree st3);
              let current = h_current_size st3 + ucast sz;
              Some (Some (Some (a + size_of_int),
                st3\<lparr>h_tree := tree, h_current_size := current,
                  h_max_size := (if sint current > sint (h_max_size st3) then current else h_max_size st3), h_locked := False\<rparr>))
            }
      })"

definition Internal_heap_unlink :: "string \<Rightarrow> int \<Rightarrow> nat \<Rightarrow> heap_state \<Rightarrow> (bool \<times> heap_state) option" where
  "Internal_heap_unlink file line p st = do {
     e \<leftarrow> TreeFind (block_of p) (h_tree st);
     case e of
       None \<Rightarrow> Some (False, log_error (Failed_to_remove file line) st)
     | Some a \<Rightarrow> do {
         s \<leftarrow> Option.bind (t_nodes (h_tree st) a) n_content;
         st1 \<leftarrow> checkEyecatchers file line p (se_size s) st;
         (_, tree) \<leftarrow> TreeRemoveNodeIndex a 0 (h_tree st1);
         Some (True, st1\<lparr>h_current_size := h_current_size st1 - word_of_int (se_size s), h_tree := tree\<rparr>)
       }
   }"

definition myfree :: "string \<Rightarrow> int \<Rightarrow> nat \<Rightarrow> heap_state \<Rightarrow> unit reply" where
  "myfree file line p st0 =
     (if h_locked st0 then Some None
      else do {
        (found, st1) \<leftarrow> Internal_heap_unlink file line p (st0\<lparr>h_locked := True\<rparr>);
        st2 \<leftarrow> (if found then do {
             _ \<leftarrow> h_blocks st1 (block_of p);
             Some (st1\<lparr>h_blocks := (h_blocks st1)(block_of p := None)\<rparr>)
           }
           else Some st1);
        Some (Some ((), st2\<lparr>h_locked := False\<rparr>))
      })"

definition Heap_unlink :: "string \<Rightarrow> int \<Rightarrow> nat \<Rightarrow> heap_state \<Rightarrow> unit reply" where
  "Heap_unlink file line p st0 =
     (if h_locked st0 then Some None
      else do {
        (_, st1) \<leftarrow> Internal_heap_unlink file line p (st0\<lparr>h_locked := True\<rparr>);
        Some (Some ((), st1\<lparr>h_locked := False\<rparr>))
      })"

text \<open>
  \<open>realloc\<close> keeps the bytes up to the smaller of the two sizes. The copy of the file name is enlarged without a check: \<open>r2\<close> tells whether that
  succeeds.
\<close>

definition realloc_block :: "nat \<Rightarrow> nat \<Rightarrow> nat \<Rightarrow> heap_state \<Rightarrow> heap_state option" where
  "realloc_block old new n st = do {
     b \<leftarrow> h_blocks st old;
     Some (st\<lparr>h_blocks := (h_blocks st)(old := None, new \<mapsto> take n b @ replicate (n - length b) None)\<rparr>)
   }"

definition myrealloc :: "string \<Rightarrow> int \<Rightarrow> nat \<Rightarrow> 64 word \<Rightarrow> nat option \<Rightarrow> bool \<Rightarrow> heap_state \<Rightarrow> nat option reply" where
  "myrealloc file line p req r1 r2 st0 =
     (if h_locked st0 then Some None
      else do {
        (found, tree) \<leftarrow> TreeRemoveKey (block_of p) (h_tree st0);
        let st = st0\<lparr>h_locked := True, h_tree := tree\<rparr>;
        case found of
          None \<Rightarrow> Some (Some (None, (log_error (Failed_to_reallocate file line) st)\<lparr>h_locked := False\<rparr>))
        | Some s \<Rightarrow> do {
            st1 \<leftarrow> checkEyecatchers file line p (se_size s) st;
            sz \<leftarrow> roundup_size req;
            let current = h_current_size st1 + ucast (sz - word_of_int (se_size s));
            let st2 = st1\<lparr>h_current_size := current,
              h_max_size := (if sint current > sint (h_max_size st1) then current else h_max_size st1)\<rparr>;
            case r1 of
              None \<Rightarrow> Some (Some (None, log_error Memory_allocation_error st2))
            | Some a \<Rightarrow> do {
                st3 \<leftarrow> realloc_block (se_ptr s) a (unat (sz + 8)) st2;
                st4 \<leftarrow> write_block a 0 eyecatcher st3;
                st5 \<leftarrow> write_block a (size_of_int + unat sz) eyecatcher st4;
                _ \<leftarrow> ensure r2;
                let s' = \<lparr>se_file = file, se_line = line, se_ptr = a, se_size = sint (ucast sz :: 32 word)\<rparr>;
                let space = to_int (size_of_element + (uint sz + 2 * int size_of_int - se_size s) - int (length (se_file s)) + (int (length file) + 1));
                (_, tree') \<leftarrow> TreeAdd s' space (h_tree st5);
                Some (Some (Some (a + size_of_int), st5\<lparr>h_tree := tree', h_locked := False\<rparr>))
              }
          }
      })"

definition Heap_findItem :: "nat \<Rightarrow> heap_state \<Rightarrow> storageElement option reply" where
  "Heap_findItem p st =
     (if h_locked st then Some None
      else do {
        e \<leftarrow> TreeFind (block_of p) (h_tree st);
        Some (Some (Option.bind (node (h_tree st) e) n_content, st))
      })"

section \<open>Reports\<close>

text \<open>\<open>HeapScan\<close> logs every element; the result is the list of them.\<close>

partial_function (option) HeapScan_loop :: "(nat, storageElement) Tree \<Rightarrow> nat option \<Rightarrow> storageElement list option" where
  "HeapScan_loop t current = do {
     next \<leftarrow> TreeNextElement current t;
     case next of
       None \<Rightarrow> Some []
     | Some a \<Rightarrow> do {
         s \<leftarrow> Option.bind (t_nodes t a) n_content;
         rest \<leftarrow> HeapScan_loop t next;
         Some (s # rest)
       }
   }"

declare HeapScan_loop.simps [code]

definition HeapScan :: "heap_state \<Rightarrow> storageElement list reply" where
  "HeapScan st = (if h_locked st then Some None else do { l \<leftarrow> HeapScan_loop (h_tree st) None; Some (Some (l, st)) })"

definition Heap_terminate :: "heap_state \<Rightarrow> storageElement list reply" where
  "Heap_terminate st = (if sint (h_current_size st) > 20 then HeapScan st else Some (Some ([], st)))"

text \<open>
  \<open>HeapDump\<close> writes the address, the size and the bytes of every item to a file; \<open>oks\<close> are the results of \<open>fwrite\<close>, and when they are used up it succeeds.
  The number of bytes is the size kept in the tree.
\<close>

datatype dump_item = Dump_ptr nat | Dump_int int | Dump_bytes "byte option list"

partial_function (option) HeapDump_loop :: "heap_state \<Rightarrow> nat option \<Rightarrow> allocs \<Rightarrow> dump_item list \<Rightarrow> (int \<times> dump_item list) option" where
  "HeapDump_loop st current oks out = do {
     next \<leftarrow> TreeNextElement current (h_tree st);
     case next of
       None \<Rightarrow> Some (0, out)
     | Some a \<Rightarrow> do {
         n \<leftarrow> t_nodes (h_tree st) a;
         s \<leftarrow> n_content n;
         let (ok1, oks1) = try_alloc oks;
         if \<not> ok1 then Some (- 1, out)
         else do {
           let out1 = out @ [Dump_ptr (se_ptr s)];
           let (ok2, oks2) = try_alloc oks1;
           if \<not> ok2 then Some (- 1, out1)
           else do {
             let out2 = out1 @ [Dump_int (n_size n)];
             _ \<leftarrow> ensure (0 \<le> n_size n);
             bytes \<leftarrow> read_block (se_ptr s) 0 (nat (n_size n)) st;
             let (ok3, oks3) = try_alloc oks2;
             if \<not> ok3 then Some (- 1, out2)
             else HeapDump_loop st next oks3 (out2 @ [Dump_bytes bytes])
           }
         }
       }
   }"

declare HeapDump_loop.simps [code]

definition HeapDump :: "allocs \<Rightarrow> heap_state \<Rightarrow> (int \<times> dump_item list) option" where
  "HeapDump oks st = HeapDump_loop st None oks []"

text \<open>A string is its address with the characters, or \<open>None\<close> for NULL; its length counts the terminating 0.\<close>

definition HeapDumpString :: "allocs \<Rightarrow> (nat \<times> byte list) option \<Rightarrow> int \<times> dump_item list" where
  "HeapDumpString oks str =
     (let len = (case str of None \<Rightarrow> 0 | Some (_, cs) \<Rightarrow> int (length cs) + 1);
          ptr = Dump_ptr (case str of None \<Rightarrow> 0 | Some (a, _) \<Rightarrow> a);
          (ok1, oks1) = try_alloc oks; (ok2, oks2) = try_alloc oks1; (ok3, oks3) = try_alloc oks2 in
      if \<not> ok1 then (- 1, [])
      else if \<not> ok2 then (- 1, [ptr])
      else case str of
          None \<Rightarrow> (0, [ptr, Dump_int len])
        | Some (_, cs) \<Rightarrow> if \<not> ok3 then (- 1, [ptr, Dump_int len]) else (0, [ptr, Dump_int len, Dump_bytes (map Some (cs @ [0]))]))"

definition Heap_get_info :: "heap_state \<Rightarrow> 32 word \<times> 32 word" where
  "Heap_get_info st = (h_current_size st, h_max_size st)"

end
