(* ===== verification/Mqtt_Heap_Tracking.thy ===== *)
theory Mqtt_Heap_Tracking
  imports Mqtt_Heap
begin

text \<open>
  What the tracked heap promises, \<^verbatim>\<open>Heap.c\<close>: it behaves like a table of live items. The specification is a small machine over that table;
  the functions of the code implement it in every run, with all marks in place, as long as the program writes only inside its items.
\<close>

section \<open>Sizes\<close>

definition rounded :: "nat \<Rightarrow> nat" where
  "rounded n = (n + 15) div 16 * 16"

lemma rounded_bounds: "n \<le> rounded n" "rounded n < n + 16"
  unfolding rounded_def by presburger+

lemma rounded_mod: "n mod 16 = 0 \<Longrightarrow> rounded n = n" "n mod 16 \<noteq> 0 \<Longrightarrow> rounded n + n mod 16 = n + 16"
proof -
  define q r where "q = n div 16" and "r = n mod 16"
  have n: "n = 16 * q + r" "r < 16"
    by (simp_all add: q_def r_def)
  have "(16 * q + r + 15) div 16 = q + (r + 15) div 16"
    unfolding add.assoc by (rule div_mult_self4) simp
  moreover have "(r + 15) div 16 = (if r = 0 then 0 else 1)"
    using n(2) by (auto intro!: div_nat_eqI)
  ultimately have "rounded n = 16 * q + (if r = 0 then 0 else 16)"
    unfolding rounded_def n(1) by simp
  then show "n mod 16 = 0 \<Longrightarrow> rounded n = n" "n mod 16 \<noteq> 0 \<Longrightarrow> rounded n + n mod 16 = n + 16"
    using n by (simp_all add: r_def [symmetric])
qed

lemma Heap_roundup_eq:
  assumes "n < 2 ^ 31 - 16"
  shows "Heap_roundup (int n) = Some (int (rounded n))"
proof -
  have r: "int n smod 16 = int (n mod 16)"
    by (simp add: smod_mod_positive zmod_int)
  show ?thesis
  proof (cases "n mod 16 = 0")
    case False
    then have "int (rounded n) = int n + (16 - int (n mod 16))"
      using rounded_mod(2) [of n] by linarith
    moreover have "rounded n < 2147483648"
      using rounded_bounds(2) [of n] assms by simp
    ultimately show ?thesis
      unfolding Heap_roundup_def r Let_def using False by simp
  qed (simp add: Heap_roundup_def r rounded_mod)
qed

lemma sint_small: "i < 2147483648 \<Longrightarrow> sint (word_of_int (int i) :: 32 word) = int i"
  by (simp add: signed_of_nat signed_take_bit_int_eq_self)

lemma ucast_of_int: "(ucast (word_of_int i :: 64 word) :: 32 word) = word_of_int i"
  by transfer (simp add: take_bit_take_bit)

lemma ucast_of_nat: "(ucast (of_nat n :: 64 word) :: 32 word) = of_nat n"
  using ucast_of_int [of "int n"] by simp

lemma ucast_diff: "(ucast (word_of_int i - word_of_int j :: 64 word) :: 32 word) = word_of_int (i - j)"
  using ucast_of_int [of "i - j"] by simp

text \<open>A request that fits leaves a size between it and 16 more.\<close>

abbreviation rounded_word :: "64 word \<Rightarrow> 64 word" where
  "rounded_word req \<equiv> word_of_int (int (rounded (unat req)))"

lemma roundup_size_eq:
  assumes "unat req < 2 ^ 31 - 16"
  shows "roundup_size req = Some (rounded_word req)" "unat (rounded_word req) = rounded (unat req)"
    "unat (rounded_word req + 8) = rounded (unat req) + 8" "sint (ucast (rounded_word req) :: 32 word) = int (rounded (unat req))"
    "rounded (unat req) < 2147483648"
proof -
  show b: "rounded (unat req) < 2147483648"
    using rounded_bounds(2) [of "unat req"] assms by simp
  have "sint (ucast (word_of_int (int (unat req)) :: 64 word) :: 32 word) = int (unat req)"
    unfolding ucast_of_int using sint_small [of "unat req"] assms by simp
  then have "sint (ucast req :: 32 word) = int (unat req)"
    by simp
  then show "roundup_size req = Some (rounded_word req)"
    using Heap_roundup_eq [OF assms] by (simp add: roundup_size_def)
  show sz: "unat (rounded_word req) = rounded (unat req)"
    using b by (simp add: unat_of_nat)
  show "unat (rounded_word req + 8) = rounded (unat req) + 8"
    using b sz by (subst unat_word_ariths) simp
  show "sint (ucast (rounded_word req) :: 32 word) = int (rounded (unat req))"
    unfolding ucast_of_int using sint_small b by simp
qed

section \<open>The specification\<close>

text \<open>
  The table has the live items with their contents, by the address of their block, the addresses that the C library has given out, and the errors reported.
\<close>

record heap_table =
  tb_live :: "nat \<Rightarrow> (storageElement \<times> byte option list) option"
  tb_blocks :: "nat set"
  tb_locked :: bool
  tb_errors :: "heap_error list"

datatype heap_op = Op_malloc string int "64 word" bool bool "nat option" | Op_realloc string int nat "64 word" "nat option" bool
  | Op_free string int nat | Op_unlink string int nat | Op_find nat | Op_read nat nat nat | Op_write nat nat "byte option list"

datatype heap_reply = R_pointer "nat option" | R_element "storageElement option" | R_bytes "byte option list" | R_none

text \<open>Reading and writing is what the program does with its items, at an offset from the pointer it has got.\<close>

fun heap_exec :: "heap_op \<Rightarrow> heap_state \<Rightarrow> heap_reply reply" where
  "heap_exec (Op_malloc file line req r1 r2 r3) st = map_option (map_option (map_prod R_pointer id)) (mymalloc file line req r1 r2 r3 st)"
| "heap_exec (Op_realloc file line p req r1 r2) st = map_option (map_option (map_prod R_pointer id)) (myrealloc file line p req r1 r2 st)"
| "heap_exec (Op_free file line p) st = map_option (map_option (map_prod (\<lambda>_. R_none) id)) (myfree file line p st)"
| "heap_exec (Op_unlink file line p) st = map_option (map_option (map_prod (\<lambda>_. R_none) id)) (Heap_unlink file line p st)"
| "heap_exec (Op_find p) st = map_option (map_option (map_prod R_element id)) (Heap_findItem p st)"
| "heap_exec (Op_read p off n) st = map_option (\<lambda>bs. Some (R_bytes bs, st)) (read_block (block_of p) (size_of_int + off) n st)"
| "heap_exec (Op_write p off bs) st = map_option (\<lambda>st'. Some (R_none, st')) (write_block (block_of p) (size_of_int + off) bs st)"

definition new_element :: "string \<Rightarrow> int \<Rightarrow> nat \<Rightarrow> nat \<Rightarrow> storageElement" where
  "new_element file line a n = \<lparr>se_file = file, se_line = line, se_ptr = a, se_size = int n\<rparr>"

definition report :: "heap_error \<Rightarrow> heap_table \<Rightarrow> heap_table" where
  "report e tb = tb\<lparr>tb_errors := tb_errors tb @ [e]\<rparr>"

text \<open>An item that grows shows its old end mark at the start of the new part.\<close>

definition resized :: "nat \<Rightarrow> byte option list \<Rightarrow> byte option list" where
  "resized n bs = take n (bs @ eyecatcher @ replicate (n - length bs - 4) None)"

definition unlinked :: "string \<Rightarrow> int \<Rightarrow> nat \<Rightarrow> heap_table \<Rightarrow> heap_table" where
  "unlinked file line p tb =
     (if tb_live tb (block_of p) = None then report (Failed_to_remove file line) tb else tb\<lparr>tb_live := (tb_live tb)(block_of p := None)\<rparr>)"

fun table_exec :: "heap_op \<Rightarrow> heap_table \<Rightarrow> (heap_reply \<times> heap_table) option" where
  "table_exec (Op_malloc file line req r1 r2 r3) tb =
     (if tb_locked tb then None
      else Some (case if r1 \<and> r2 then r3 else None of
          None \<Rightarrow> (R_pointer None, (report Memory_allocation_error tb)\<lparr>tb_locked := True\<rparr>)
        | Some a \<Rightarrow> (R_pointer (Some (a + 4)),
            tb\<lparr>tb_live := (tb_live tb)(a \<mapsto> (new_element file line a (rounded (unat req)), replicate (rounded (unat req)) None)),
              tb_blocks := insert a (tb_blocks tb)\<rparr>)))"
| "table_exec (Op_realloc file line p req r1 r2) tb =
     (if tb_locked tb then None
      else Some (case tb_live tb (block_of p) of
          None \<Rightarrow> (R_pointer None, report (Failed_to_reallocate file line) tb)
        | Some (s, bs) \<Rightarrow>
            (case r1 of
               None \<Rightarrow> (R_pointer None, (report Memory_allocation_error tb)\<lparr>tb_live := (tb_live tb)(block_of p := None), tb_locked := True\<rparr>)
             | Some a \<Rightarrow> (R_pointer (Some (a + 4)),
                 tb\<lparr>tb_live := (tb_live tb)(block_of p := None, a \<mapsto> (new_element file line a (rounded (unat req)), resized (rounded (unat req)) bs)),
                   tb_blocks := insert a (tb_blocks tb - {block_of p})\<rparr>))))"
| "table_exec (Op_free file line p) tb =
     (if tb_locked tb then None
      else Some (R_none, if tb_live tb (block_of p) = None then report (Failed_to_remove file line) tb
        else tb\<lparr>tb_live := (tb_live tb)(block_of p := None), tb_blocks := tb_blocks tb - {block_of p}\<rparr>))"
| "table_exec (Op_unlink file line p) tb = (if tb_locked tb then None else Some (R_none, unlinked file line p tb))"
| "table_exec (Op_find p) tb = (if tb_locked tb then None else Some (R_element (map_option fst (tb_live tb (block_of p))), tb))"
| "table_exec (Op_read p off n) tb = Some (R_bytes (case tb_live tb (block_of p) of None \<Rightarrow> [] | Some (s, bs) \<Rightarrow> take n (drop off bs)), tb)"
| "table_exec (Op_write p off new) tb =
     Some (R_none, case tb_live tb (block_of p) of
         None \<Rightarrow> tb
       | Some (s, bs) \<Rightarrow> tb\<lparr>tb_live := (tb_live tb)(block_of p \<mapsto> (s, take off bs @ new @ drop (off + length new) bs))\<rparr>)"

text \<open>
  The C library returns addresses that are not in use, requests fit into an \<open>int\<close>, the copy of the file name can be enlarged, and the program stays
  inside its items.
\<close>

definition fits :: "64 word \<Rightarrow> bool" where
  "fits req \<longleftrightarrow> unat req < 2 ^ 31 - 16"

fun honest :: "heap_op \<Rightarrow> heap_table \<Rightarrow> bool" where
  "honest (Op_malloc file line req r1 r2 r3) tb \<longleftrightarrow> fits req \<and> (case r3 of None \<Rightarrow> True | Some a \<Rightarrow> a \<noteq> 0 \<and> a \<notin> tb_blocks tb)"
| "honest (Op_realloc file line p req r1 r2) tb \<longleftrightarrow> fits req \<and> r2 \<and> (case r1 of None \<Rightarrow> True | Some a \<Rightarrow> a \<noteq> 0 \<and> a \<notin> tb_blocks tb - {block_of p})"
| "honest (Op_read p off n) tb \<longleftrightarrow> (case tb_live tb (block_of p) of None \<Rightarrow> False | Some (s, bs) \<Rightarrow> off + n \<le> length bs)"
| "honest (Op_write p off new) tb \<longleftrightarrow> (case tb_live tb (block_of p) of None \<Rightarrow> False | Some (s, bs) \<Rightarrow> off + length new \<le> length bs)"
| "honest _ tb \<longleftrightarrow> True"

fun heap_run :: "heap_op list \<Rightarrow> heap_state \<Rightarrow> heap_reply list reply" where
  "heap_run [] st = Some (Some ([], st))"
| "heap_run (op # ops) st =
     (case heap_exec op st of
        None \<Rightarrow> None
      | Some None \<Rightarrow> Some None
      | Some (Some (r, st')) \<Rightarrow> map_option (map_option (map_prod ((#) r) id)) (heap_run ops st'))"

fun table_run :: "heap_op list \<Rightarrow> heap_table \<Rightarrow> (heap_reply list \<times> heap_table) option" where
  "table_run [] tb = Some ([], tb)"
| "table_run (op # ops) tb =
     (case table_exec op tb of None \<Rightarrow> None | Some (r, tb') \<Rightarrow> map_option (map_prod ((#) r) id) (table_run ops tb'))"

fun honest_run :: "heap_op list \<Rightarrow> heap_table \<Rightarrow> bool" where
  "honest_run [] tb \<longleftrightarrow> True"
| "honest_run (op # ops) tb \<longleftrightarrow> honest op tb \<and> (case table_exec op tb of None \<Rightarrow> True | Some (r, tb') \<Rightarrow> honest_run ops tb')"

section \<open>The relation\<close>

definition live_size :: "heap_table \<Rightarrow> int" where
  "live_size tb = (\<Sum>a\<in>dom (tb_live tb). se_size (fst (the (tb_live tb a))))"

definition marked :: "heap_state \<Rightarrow> nat \<Rightarrow> storageElement \<Rightarrow> byte option list \<Rightarrow> bool" where
  "marked st a s bs \<longleftrightarrow> se_ptr s = a \<and> a \<noteq> 0 \<and> se_size s = int (length bs) \<and> length bs < 2147483648 \<and> h_blocks st a = Some (eyecatcher @ bs @ eyecatcher)"

lemma ptrCompare_key: "ptrCompare c a = (if se_ptr c > arg_key se_ptr a then - 1 else if se_ptr c = arg_key se_ptr a then 0 else 1)"
  by (cases a) (simp_all add: ptrCompare_def Let_def)

interpretation heap_order: key_order ptrCompare se_ptr "(<)"
  by unfold_locales (auto simp: ptrCompare_key)

definition tracks :: "storageElement shape \<Rightarrow> heap_table \<Rightarrow> heap_state \<Rightarrow> bool" where
  "tracks T tb st \<longleftrightarrow> tree_ok ptrCompare se_ptr (<) T (h_tree st) \<and>
     (\<forall>a. map_option fst (map_of (items se_ptr T) a) = map_option fst (tb_live tb a))"

definition heap_core :: "heap_table \<Rightarrow> heap_state \<Rightarrow> bool" where
  "heap_core tb st \<longleftrightarrow> (\<exists>T. tracks T tb st) \<and> (\<forall>a s bs. tb_live tb a = Some (s, bs) \<longrightarrow> marked st a s bs) \<and>
     dom (h_blocks st) = tb_blocks tb \<and> h_errors st = tb_errors tb"

definition heap_rel :: "heap_table \<Rightarrow> heap_state \<Rightarrow> bool" where
  "heap_rel tb st \<longleftrightarrow> heap_core tb st \<and> h_locked st = tb_locked tb \<and> (\<not> tb_locked tb \<longrightarrow> h_current_size st = word_of_int (live_size tb))"

section \<open>The tree of the items\<close>

lemma find_remove:
  assumes "tree_ok ptrCompare se_ptr (<) T t"
  shows "\<exists>p. TreeFind k t = Some p \<and> (case map_option fst (map_of (items se_ptr T) k) of
      None \<Rightarrow> p = None
    | Some s \<Rightarrow> \<exists>a t' T'. p = Some a \<and> Option.bind (t_nodes t a) n_content = Some s \<and> TreeRemoveNodeIndex a 0 t = Some (Some s, t') \<and>
        tree_ok ptrCompare se_ptr (<) T' t' \<and> map_of (items se_ptr T') = (map_of (items se_ptr T))(k := None))"
proof -
  obtain p where p: "TreeFind k t = Some p" "map_option fst (map_of (items se_ptr T) k) = Option.bind (node t p) n_content"
    using heap_order.remove_ok(3) [OF assms, of k] by blast
  have "TreeFindIndex1 (Key k) 0 t = Some p"
    using p(1) by (simp add: TreeFind_def TreeFindIndex_def)
  note r = heap_order.remove_found [OF assms this]
  show ?thesis
  proof (cases p)
    case None
    then show ?thesis
      using p r by simp
  next
    case (Some a)
    then obtain c t' T' where c: "TreeRemoveNodeIndex a 0 t = Some (Some c, t')" "tree_ok ptrCompare se_ptr (<) T' t'"
      "map_option fst (map_of (items se_ptr T) k) = Some c" "map_of (items se_ptr T') = (map_of (items se_ptr T))(k := None)"
      using r by auto
    moreover have "Option.bind (t_nodes t a) n_content = Some c"
      using p(2) c(3) Some by (simp add: node_def)
    ultimately show ?thesis
      using p(1) Some by auto
  qed
qed

lemma tracks_remove:
  assumes "tracks T tb st"
  shows "\<exists>p. TreeFind k (h_tree st) = Some p \<and> (case tb_live tb k of
      None \<Rightarrow> p = None
    | Some (s, bs) \<Rightarrow> \<exists>a t' T'. p = Some a \<and> Option.bind (t_nodes (h_tree st) a) n_content = Some s \<and>
        TreeRemoveNodeIndex a 0 (h_tree st) = Some (Some s, t') \<and>
        (\<forall>tb' st'. tb_live tb' = (tb_live tb)(k := None) \<longrightarrow> h_tree st' = t' \<longrightarrow> tracks T' tb' st'))"
proof -
  have T: "tree_ok ptrCompare se_ptr (<) T (h_tree st)" "\<And>a. map_option fst (map_of (items se_ptr T) a) = map_option fst (tb_live tb a)"
    using assms by (auto simp: tracks_def)
  obtain p where p: "TreeFind k (h_tree st) = Some p" "case map_option fst (map_of (items se_ptr T) k) of
      None \<Rightarrow> p = None
    | Some s \<Rightarrow> \<exists>a t' T'. p = Some a \<and> Option.bind (t_nodes (h_tree st) a) n_content = Some s \<and> TreeRemoveNodeIndex a 0 (h_tree st) = Some (Some s, t') \<and>
        tree_ok ptrCompare se_ptr (<) T' t' \<and> map_of (items se_ptr T') = (map_of (items se_ptr T))(k := None)"
    using find_remove [OF T(1), of k] by blast
  show ?thesis
  proof (cases "tb_live tb k")
    case None
    then show ?thesis
      using p T(2) [of k] by simp
  next
    case (Some e)
    then obtain a t' T' where a: "p = Some a" "Option.bind (t_nodes (h_tree st) a) n_content = Some (fst e)"
      "TreeRemoveNodeIndex a 0 (h_tree st) = Some (Some (fst e), t')"
      "tree_ok ptrCompare se_ptr (<) T' t'" "map_of (items se_ptr T') = (map_of (items se_ptr T))(k := None)"
      using p(2) T(2) [of k] by (auto split: option.splits)
    have "tracks T' tb' st'" if "tb_live tb' = (tb_live tb)(k := None)" "h_tree st' = t'" for tb' st'
      using that a(4,5) T(2) by (simp add: tracks_def)
    then show ?thesis
      using p(1) a(1-3) Some by (cases e) auto
  qed
qed

lemma tracks_remove_key:
  assumes "tracks T tb st"
  shows "\<exists>t' T'. TreeRemoveKey k (h_tree st) = Some (map_option fst (tb_live tb k), t') \<and>
    (\<forall>tb' st'. tb_live tb' = (tb_live tb)(k := None) \<longrightarrow> h_tree st' = t' \<longrightarrow> tracks T' tb' st')"
proof -
  have T: "tree_ok ptrCompare se_ptr (<) T (h_tree st)" "\<And>a. map_option fst (map_of (items se_ptr T) a) = map_option fst (tb_live tb a)"
    using assms by (auto simp: tracks_def)
  obtain t' T' where t': "TreeRemoveKey k (h_tree st) = Some (map_option fst (map_of (items se_ptr T) k), t')" "tree_ok ptrCompare se_ptr (<) T' t'"
    "map_of (items se_ptr T') = (map_of (items se_ptr T))(k := None)"
    using heap_order.remove_ok(2) [OF T(1), of k] by blast
  have "tracks T' tb' st'" if "tb_live tb' = (tb_live tb)(k := None)" "h_tree st' = t'" for tb' st'
    using that t'(2,3) T(2) by (simp add: tracks_def)
  then show ?thesis
    using t'(1) T(2) by auto
qed

lemma tracks_add:
  assumes "tracks T tb st" "se_ptr s = a"
  shows "\<exists>r t' T'. TreeAdd s space (h_tree st) = Some (r, t') \<and>
    (\<forall>tb' st' bs. tb_live tb' = (tb_live tb)(a \<mapsto> (s, bs)) \<longrightarrow> h_tree st' = t' \<longrightarrow> tracks T' tb' st')"
proof -
  have T: "tree_ok ptrCompare se_ptr (<) T (h_tree st)" "\<And>a. map_option fst (map_of (items se_ptr T) a) = map_option fst (tb_live tb a)"
    using assms by (auto simp: tracks_def)
  obtain r t' T' where t': "TreeAdd s space (h_tree st) = Some (r, t')" "tree_ok ptrCompare se_ptr (<) T' t'"
    "map_of (items se_ptr T') = (map_of (items se_ptr T))(se_ptr s \<mapsto> (s, space))"
    using heap_order.TreeAdd_ok [OF T(1), of s space] by blast
  have "tracks T' tb' st'" if "tb_live tb' = (tb_live tb)(a \<mapsto> (s, bs))" "h_tree st' = t'" for tb' st' bs
    using that t'(2,3) T(2) assms(2) by (simp add: tracks_def)
  then show ?thesis
    using t'(1) by blast
qed

section \<open>Marks\<close>

lemma length_eyecatcher [simp]: "length eyecatcher = 4"
  by (simp add: eyecatcher_def)

lemma write_marks:
  assumes "h_blocks st a = Some b" "length b = n + 8"
  shows "\<exists>st2. write_block a 0 eyecatcher st = Some st2 \<and> write_block a (size_of_int + n) eyecatcher st2 =
    Some (st\<lparr>h_blocks := (h_blocks st)(a \<mapsto> eyecatcher @ take n (drop 4 b) @ eyecatcher)\<rparr>)"
  using assms by (simp add: write_block_def size_of_int_def)

lemma checkEyecatchers_ok:
  assumes "marked st (block_of p) s bs"
  shows "checkEyecatchers file line p (se_size s) st = Some st"
  using assms by (simp add: checkEyecatchers_def marked_def read_block_def size_of_int_def)

section \<open>Sizes in use\<close>

lemma finite_live: "tracks T tb st \<Longrightarrow> finite (dom (tb_live tb))"
proof -
  assume "tracks T tb st"
  then have same: "\<And>a. tb_live tb a = None \<longleftrightarrow> map_of (items se_ptr T) a = None"
    by (metis tracks_def map_option_is_None)
  have "dom (tb_live tb) = dom (map_of (items se_ptr T))"
    by (simp only: dom_def same)
  then show ?thesis
    by (simp add: finite_dom_map_of)
qed

lemma live_size_add:
  assumes "finite (dom (tb_live tb))" "tb_live tb a = None" "tb_live tb' = (tb_live tb)(a \<mapsto> (s, bs))"
  shows "live_size tb' = live_size tb + se_size s"
proof -
  have "(\<Sum>b\<in>dom (tb_live tb). se_size (fst (the (tb_live tb' b)))) = live_size tb"
    unfolding live_size_def using assms by (intro sum.cong) auto
  then show ?thesis
    using assms unfolding live_size_def by (simp add: domIff)
qed

lemma live_size_remove:
  assumes "finite (dom (tb_live tb))" "tb_live tb a = Some (s, bs)" "tb_live tb' = (tb_live tb)(a := None)"
  shows "live_size tb' = live_size tb - se_size s"
proof -
  have "tb_live tb = (tb_live tb')(a \<mapsto> (s, bs))" "tb_live tb' a = None" "finite (dom (tb_live tb'))"
    using assms by auto
  from live_size_add [OF this(3,2,1)] show ?thesis
    by simp
qed

section \<open>Removal\<close>

lemma tracks_cong: "h_tree st' = h_tree st \<Longrightarrow> tb_live tb' = tb_live tb \<Longrightarrow> tracks T tb' st' = tracks T tb st"
  by (simp add: tracks_def)

lemma Internal_heap_unlink_ok:
  assumes "heap_core tb st" "h_current_size st = word_of_int (live_size tb)"
  shows "\<exists>st'. Internal_heap_unlink file line p st = Some (tb_live tb (block_of p) \<noteq> None, st') \<and> heap_core (unlinked file line p tb) st' \<and>
    h_current_size st' = word_of_int (live_size (unlinked file line p tb)) \<and> h_blocks st' = h_blocks st"
proof -
  let ?tb = "unlinked file line p tb"
  obtain T where T: "tracks T tb st"
    using assms(1) by (auto simp: heap_core_def)
  show ?thesis
  proof (cases "tb_live tb (block_of p)")
    case None
    have "Internal_heap_unlink file line p st = Some (False, log_error (Failed_to_remove file line) st)"
      using tracks_remove [OF T, of "block_of p"] None by (simp add: Internal_heap_unlink_def)
    then show ?thesis
      using assms(1,2) None tracks_cong [of "log_error (Failed_to_remove file line) st" st ?tb tb]
      by (auto simp: unlinked_def heap_core_def log_error_def report_def marked_def live_size_def)
  next
    case (Some e)
    obtain s bs where e: "e = (s, bs)"
      by (cases e)
    have m: "marked st (block_of p) s bs"
      using assms(1) Some e by (simp add: heap_core_def)
    obtain a t' T' where a: "TreeFind (block_of p) (h_tree st) = Some (Some a)" "Option.bind (t_nodes (h_tree st) a) n_content = Some s"
      "TreeRemoveNodeIndex a 0 (h_tree st) = Some (Some s, t')"
      and t': "\<forall>tb' st'. tb_live tb' = (tb_live tb)(block_of p := None) \<longrightarrow> h_tree st' = t' \<longrightarrow> tracks T' tb' st'"
      using tracks_remove [OF T, of "block_of p"] Some e by auto
    let ?st = "st\<lparr>h_current_size := h_current_size st - word_of_int (se_size s), h_tree := t'\<rparr>"
    have r: "Internal_heap_unlink file line p st = Some (True, ?st)"
      using a checkEyecatchers_ok [OF m] by (simp add: Internal_heap_unlink_def)
    have "?tb = tb\<lparr>tb_live := (tb_live tb)(block_of p := None)\<rparr>"
      using Some by (simp add: unlinked_def)
    moreover have "tracks T' ?tb ?st"
      using calculation t' by simp
    moreover have "live_size ?tb = live_size tb - se_size s"
      using live_size_remove [OF finite_live [OF T] Some [unfolded e]] calculation(1) by simp
    ultimately show ?thesis
      using r assms(1,2) Some by (intro exI [of _ ?st]) (auto simp: heap_core_def marked_def)
  qed
qed

lemma heap_core_locked [simp]: "heap_core tb (st\<lparr>h_locked := l\<rparr>) = heap_core tb st" "heap_core (tb\<lparr>tb_locked := l\<rparr>) st = heap_core tb st"
  "live_size (tb\<lparr>tb_locked := l\<rparr>) = live_size tb"
  by (simp_all add: heap_core_def tracks_def marked_def live_size_def)

text \<open>What a step of the heap has to do.\<close>

definition step_ok :: "heap_op \<Rightarrow> heap_table \<Rightarrow> heap_state \<Rightarrow> bool" where
  "step_ok op tb st \<longleftrightarrow> (case table_exec op tb of
      None \<Rightarrow> heap_exec op st = Some None
    | Some (r, tb') \<Rightarrow> \<exists>st'. heap_exec op st = Some (Some (r, st')) \<and> heap_rel tb' st')"

lemma heap_relD:
  assumes "heap_rel tb st"
  shows "heap_core tb st" "h_locked st = tb_locked tb" "\<not> tb_locked tb \<Longrightarrow> h_current_size st = word_of_int (live_size tb)"
  using assms by (simp_all add: heap_rel_def)

lemma unlink_step:
  assumes "heap_rel tb st"
  shows "step_ok (Op_unlink file line p) tb st"
proof (cases "tb_locked tb")
  case True
  then show ?thesis
    using heap_relD [OF assms] by (simp add: step_ok_def Heap_unlink_def)
next
  case False
  let ?tb = "unlinked file line p tb"
  obtain st' where st': "Internal_heap_unlink file line p (st\<lparr>h_locked := True\<rparr>) = Some (tb_live tb (block_of p) \<noteq> None, st')" "heap_core ?tb st'"
    "h_current_size st' = word_of_int (live_size ?tb)"
    using Internal_heap_unlink_ok [of tb "st\<lparr>h_locked := True\<rparr>" "file" line p] heap_relD [OF assms] False by auto
  have "heap_exec (Op_unlink file line p) st = Some (Some (R_none, st'\<lparr>h_locked := False\<rparr>))"
    using st'(1) heap_relD(2) [OF assms] False by (simp add: Heap_unlink_def)
  moreover have "heap_rel ?tb (st'\<lparr>h_locked := False\<rparr>)"
    using st' False by (simp add: heap_rel_def unlinked_def report_def)
  ultimately show ?thesis
    using False by (simp add: step_ok_def)
qed

lemma free_step:
  assumes "heap_rel tb st"
  shows "step_ok (Op_free file line p) tb st"
proof (cases "tb_locked tb")
  case True
  then show ?thesis
    using heap_relD [OF assms] by (simp add: step_ok_def myfree_def)
next
  case False
  let ?tb = "unlinked file line p tb"
  obtain st' where st': "Internal_heap_unlink file line p (st\<lparr>h_locked := True\<rparr>) = Some (tb_live tb (block_of p) \<noteq> None, st')" "heap_core ?tb st'"
    "h_current_size st' = word_of_int (live_size ?tb)" "h_blocks st' = h_blocks st"
    using Internal_heap_unlink_ok [of tb "st\<lparr>h_locked := True\<rparr>" "file" line p] heap_relD [OF assms] False by auto
  show ?thesis
  proof (cases "tb_live tb (block_of p)")
    case None
    have "heap_exec (Op_free file line p) st = Some (Some (R_none, st'\<lparr>h_locked := False\<rparr>))"
      using st'(1) heap_relD(2) [OF assms] False None by (simp add: myfree_def)
    moreover have "heap_rel ?tb (st'\<lparr>h_locked := False\<rparr>)"
      using st' False None by (simp add: heap_rel_def unlinked_def report_def)
    ultimately show ?thesis
      using False None by (simp add: step_ok_def unlinked_def)
  next
    case (Some e)
    let ?st = "st'\<lparr>h_blocks := (h_blocks st')(block_of p := None), h_locked := False\<rparr>"
    let ?tb' = "tb\<lparr>tb_live := (tb_live tb)(block_of p := None), tb_blocks := tb_blocks tb - {block_of p}\<rparr>"
    have "h_blocks st (block_of p) \<noteq> None"
      using heap_relD(1) [OF assms] Some by (cases e) (auto simp: heap_core_def marked_def)
    then have "heap_exec (Op_free file line p) st = Some (Some (R_none, ?st))"
      using st'(1,4) heap_relD(2) [OF assms] False Some by (auto simp: myfree_def)
    moreover have "heap_core ?tb' ?st"
      using st'(2) Some by (auto simp: unlinked_def heap_core_def tracks_def marked_def)
    then have "heap_rel ?tb' ?st"
      using st'(3) False Some by (simp add: heap_rel_def unlinked_def live_size_def)
    ultimately show ?thesis
      using False Some by (simp add: step_ok_def)
  qed
qed

section \<open>Allocation\<close>

lemma block_of_item [simp]: "block_of (a + size_of_int) = a" "block_of (a + 4) = a"
  by (simp_all add: block_of_def size_of_int_def)

lemma mymalloc_fail:
  assumes "\<not> h_locked st" "fits req" "\<not> (r1 \<and> r2 \<and> r3 \<noteq> None)"
  shows "mymalloc file line req r1 r2 r3 st = Some (Some (None, log_error Memory_allocation_error (st\<lparr>h_locked := True\<rparr>)))"
  using assms roundup_size_eq(1) [of req] by (cases r3) (auto simp: mymalloc_def fits_def Let_def)

lemma mymalloc_new:
  assumes "\<not> h_locked st" "fits req" "TreeAdd (new_element file line a (rounded (unat req))) (to_int (size_of_element + (int (length file) + 1) +
      (uint (rounded_word req) + 2 * int size_of_int))) (h_tree st) = Some (r, t')"
  shows "mymalloc file line req True True (Some a) st = Some (Some (Some (a + 4), st\<lparr>h_tree := t',
      h_current_size := h_current_size st + ucast (rounded_word req),
      h_max_size := (let c = h_current_size st + ucast (rounded_word req) in if sint c > sint (h_max_size st) then c else h_max_size st),
      h_locked := False, h_blocks := (h_blocks st)(a \<mapsto> eyecatcher @ replicate (rounded (unat req)) None @ eyecatcher)\<rparr>))"
proof -
  note n = roundup_size_eq [OF assms(2) [unfolded fits_def]]
  let ?st = "st\<lparr>h_locked := True\<rparr>"
  let ?st1 = "?st\<lparr>h_blocks := (h_blocks ?st)(a \<mapsto> replicate (unat (rounded_word req + 8)) None)\<rparr>"
  obtain st2 where w: "write_block a 0 eyecatcher ?st1 = Some st2" "write_block a (size_of_int + unat (rounded_word req)) eyecatcher st2 =
    Some (?st1\<lparr>h_blocks := (h_blocks ?st1)(a \<mapsto> eyecatcher @ take (rounded (unat req)) (drop 4 (replicate (unat (rounded_word req + 8)) None)) @ eyecatcher)\<rparr>)"
    using write_marks [of ?st1 a "replicate (unat (rounded_word req + 8)) None" "rounded (unat req)"] n(2,3) by auto
  have "drop 4 (replicate (unat (rounded_word req + 8)) None) = replicate (rounded (unat req) + 4) (None :: byte option)"
    unfolding n(3) by (simp add: drop_replicate)
  then show ?thesis
    using assms w n(1,2,4) by (simp add: mymalloc_def Let_def new_element_def size_of_int_def)
qed

lemma malloc_step:
  assumes "heap_rel tb st" "honest (Op_malloc file line req r1 r2 r3) tb"
  shows "step_ok (Op_malloc file line req r1 r2 r3) tb st"
proof (cases "tb_locked tb")
  case True
  then show ?thesis
    using heap_relD [OF assms(1)] by (simp add: step_ok_def mymalloc_def)
next
  case False
  then have unlocked: "\<not> h_locked st"
    using heap_relD(2) [OF assms(1)] by simp
  have fits: "fits req"
    using assms(2) by simp
  show ?thesis
  proof (cases "r1 \<and> r2 \<and> r3 \<noteq> None")
    case fail: False
    have "heap_rel ((report Memory_allocation_error tb)\<lparr>tb_locked := True\<rparr>) (log_error Memory_allocation_error (st\<lparr>h_locked := True\<rparr>))"
      using heap_relD(1) [OF assms(1)] by (simp add: heap_rel_def heap_core_def report_def log_error_def tracks_def marked_def)
    then show ?thesis
      using mymalloc_fail [OF unlocked fits fail] False fail by (auto simp: step_ok_def)
  next
    case True
    then obtain a where a: "r1" "r2" "r3 = Some a" "a \<noteq> 0" "a \<notin> tb_blocks tb"
      using assms(2) by auto
    let ?n = "rounded (unat req)"
    let ?s = "new_element file line a ?n"
    let ?tb = "tb\<lparr>tb_live := (tb_live tb)(a \<mapsto> (?s, replicate ?n None)), tb_blocks := insert a (tb_blocks tb)\<rparr>"
    obtain T where T: "tracks T tb st"
      using heap_relD(1) [OF assms(1)] by (auto simp: heap_core_def)
    have "se_ptr ?s = a"
      by (simp add: new_element_def)
    then obtain r t' T' where t': "TreeAdd ?s (to_int (size_of_element + (int (length file) + 1) + (uint (rounded_word req) + 2 * int size_of_int))) (h_tree st) = Some (r, t')"
      "\<forall>tb' st' bs. tb_live tb' = (tb_live tb)(a \<mapsto> (?s, bs)) \<longrightarrow> h_tree st' = t' \<longrightarrow> tracks T' tb' st'"
      using tracks_add [OF T] by blast
    define mx where "mx = (let c = h_current_size st + ucast (rounded_word req) in if sint c > sint (h_max_size st) then c else h_max_size st)"
    have m: "mymalloc file line req True True (Some a) st = Some (Some (Some (a + 4), st\<lparr>h_tree := t',
      h_current_size := h_current_size st + ucast (rounded_word req), h_max_size := mx, h_locked := False,
      h_blocks := (h_blocks st)(a \<mapsto> eyecatcher @ replicate ?n None @ eyecatcher)\<rparr>))" (is "_ = Some (Some (_, ?st))")
      unfolding mx_def by (rule mymalloc_new [OF unlocked fits t'(1)])
    have fresh: "tb_live tb a = None"
      using a(5) heap_relD(1) [OF assms(1)] by (auto simp: heap_core_def marked_def)
    have "tb_live ?tb = (tb_live tb)(a \<mapsto> (?s, replicate ?n None))" "h_tree ?st = t'"
      by simp_all
    then have "tracks T' ?tb ?st"
      using t'(2) by blast
    moreover have "?n < 2147483648"
      using roundup_size_eq(5) fits by (simp add: fits_def)
    ultimately have "heap_core ?tb ?st"
      using heap_relD(1) [OF assms(1)] a(4) by (auto simp: heap_core_def marked_def new_element_def)
    moreover have "live_size ?tb = live_size tb + int ?n"
      using live_size_add [OF finite_live [OF T] fresh, of ?tb ?s] by (simp add: new_element_def)
    then have "h_current_size ?st = word_of_int (live_size ?tb)"
      using heap_relD(3) [OF assms(1) False] by (simp add: ucast_of_nat)
    ultimately have "heap_rel ?tb ?st"
      using False by (simp add: heap_rel_def)
    then show ?thesis
      using m a False by (simp add: step_ok_def)
  qed
qed

section \<open>Reallocation\<close>

lemma resized_block:
  "take n (drop 4 (take (n + 8) (eyecatcher @ bs @ eyecatcher) @ replicate (n + 8 - length (eyecatcher @ bs @ eyecatcher)) None)) = resized n bs"
proof (cases "n \<le> length bs")
  case False
  then have "replicate (n - length bs) (None :: byte option) = replicate (n - length bs - 4) None @ replicate (min 4 (n - length bs)) None"
    by (simp add: replicate_add [symmetric] min_def)
  with False show ?thesis
    by (simp add: resized_def)
qed (simp add: resized_def)

lemma length_resized [simp]: "length (resized n bs) = n"
  by (auto simp: resized_def)

lemma realloc_blocks:
  assumes "h_blocks st old = Some (eyecatcher @ bs @ eyecatcher)"
  shows "\<exists>st1 st2. realloc_block old a (n + 8) st = Some st1 \<and> write_block a 0 eyecatcher st1 = Some st2 \<and>
    write_block a (size_of_int + n) eyecatcher st2 =
      Some (st\<lparr>h_blocks := (h_blocks st)(old := None, a \<mapsto> eyecatcher @ resized n bs @ eyecatcher)\<rparr>)"
proof -
  let ?b = "take (n + 8) (eyecatcher @ bs @ eyecatcher) @ replicate (n + 8 - length (eyecatcher @ bs @ eyecatcher)) None"
  let ?st1 = "st\<lparr>h_blocks := (h_blocks st)(old := None, a \<mapsto> ?b)\<rparr>"
  have "realloc_block old a (n + 8) st = Some ?st1"
    using assms by (simp add: realloc_block_def)
  moreover have "h_blocks ?st1 a = Some ?b" "length ?b = n + 8"
    by simp_all
  then obtain st2 where "write_block a 0 eyecatcher ?st1 = Some st2"
    "write_block a (size_of_int + n) eyecatcher st2 = Some (?st1\<lparr>h_blocks := (h_blocks ?st1)(a \<mapsto> eyecatcher @ take n (drop 4 ?b) @ eyecatcher)\<rparr>)"
    using write_marks by blast
  ultimately show ?thesis
    unfolding resized_block by auto
qed

lemma myrealloc_unknown:
  assumes "\<not> h_locked st" "TreeRemoveKey (block_of p) (h_tree st) = Some (None, t')"
  shows "myrealloc file line p req r1 r2 st =
    Some (Some (None, (log_error (Failed_to_reallocate file line) (st\<lparr>h_locked := True, h_tree := t'\<rparr>))\<lparr>h_locked := False\<rparr>))"
  using assms by (simp add: myrealloc_def)

definition set_size :: "32 word \<Rightarrow> heap_state \<Rightarrow> heap_state" where
  "set_size c st = st\<lparr>h_current_size := c, h_max_size := (if sint c > sint (h_max_size st) then c else h_max_size st)\<rparr>"

lemma myrealloc_known:
  assumes "\<not> h_locked st" "TreeRemoveKey (block_of p) (h_tree st) = Some (Some s, t')" "fits req" "marked st (block_of p) s bs" "r2"
  defines "c \<equiv> h_current_size st + ucast (rounded_word req - word_of_int (se_size s))"
  shows "r1 = None \<Longrightarrow> myrealloc file line p req r1 r2 st =
      Some (Some (None, log_error Memory_allocation_error (set_size c (st\<lparr>h_locked := True, h_tree := t'\<rparr>))))"
    "r1 = Some a \<Longrightarrow> TreeAdd (new_element file line a (rounded (unat req)))
        (to_int (size_of_element + (uint (rounded_word req) + 2 * int size_of_int - se_size s) - int (length (se_file s)) + (int (length file) + 1))) t' = Some (r, t'') \<Longrightarrow>
      myrealloc file line p req r1 r2 st = Some (Some (Some (a + 4), set_size c (st\<lparr>h_tree := t'', h_locked := False,
        h_blocks := (h_blocks st)(block_of p := None, a \<mapsto> eyecatcher @ resized (rounded (unat req)) bs @ eyecatcher)\<rparr>)))"
proof -
  note n = roundup_size_eq [OF assms(3) [unfolded fits_def]]
  let ?st = "st\<lparr>h_locked := True, h_tree := t'\<rparr>"
  have m: "marked ?st (block_of p) s bs"
    using assms(4) by (simp add: marked_def)
  show "r1 = None \<Longrightarrow> myrealloc file line p req r1 r2 st = Some (Some (None, log_error Memory_allocation_error (set_size c ?st)))"
    using assms(1,2) n(1) checkEyecatchers_ok [OF m] by (simp add: myrealloc_def set_size_def c_def Let_def)
  assume a: "r1 = Some a" "TreeAdd (new_element file line a (rounded (unat req)))
        (to_int (size_of_element + (uint (rounded_word req) + 2 * int size_of_int - se_size s) - int (length (se_file s)) + (int (length file) + 1))) t' = Some (r, t'')"
  have p: "se_ptr s = block_of p" "h_blocks (set_size c ?st) (block_of p) = Some (eyecatcher @ bs @ eyecatcher)"
    using assms(4) by (simp_all add: marked_def set_size_def)
  obtain st1 st2 where "realloc_block (block_of p) a (rounded (unat req) + 8) (set_size c ?st) = Some st1" "write_block a 0 eyecatcher st1 = Some st2"
    "write_block a (size_of_int + rounded (unat req)) eyecatcher st2 = Some ((set_size c ?st)\<lparr>h_blocks := (h_blocks (set_size c ?st))(block_of p := None,
      a \<mapsto> eyecatcher @ resized (rounded (unat req)) bs @ eyecatcher)\<rparr>)"
    using realloc_blocks [OF p(2)] by blast
  then show "myrealloc file line p req r1 r2 st = Some (Some (Some (a + 4), set_size c (st\<lparr>h_tree := t'', h_locked := False,
        h_blocks := (h_blocks st)(block_of p := None, a \<mapsto> eyecatcher @ resized (rounded (unat req)) bs @ eyecatcher)\<rparr>)))"
    using assms(1,2,5) a n p(1) checkEyecatchers_ok [OF m]
    by (cases "sint (h_max_size st) < sint (h_current_size st + ucast (rounded_word req - word_of_int (se_size s)))")
      (simp_all add: myrealloc_def set_size_def c_def Let_def new_element_def size_of_int_def)
qed

lemma live_block: "heap_core tb st \<Longrightarrow> a \<notin> tb_blocks tb \<Longrightarrow> tb_live tb a = None"
  by (cases "tb_live tb a") (auto simp: heap_core_def marked_def)

lemma realloc_step:
  assumes "heap_rel tb st" "honest (Op_realloc file line p req r1 r2) tb"
  shows "step_ok (Op_realloc file line p req r1 r2) tb st"
proof (cases "tb_locked tb")
  case True
  then show ?thesis
    using heap_relD [OF assms(1)] by (simp add: step_ok_def myrealloc_def)
next
  case False
  let ?k = "block_of p" and ?n = "rounded (unat req)"
  let ?tb1 = "tb\<lparr>tb_live := (tb_live tb)(?k := None)\<rparr>"
  have unlocked: "\<not> h_locked st" and core: "heap_core tb st" and fits: "fits req" and r2: "r2"
    using heap_relD [OF assms(1)] False assms(2) by simp_all
  obtain T where T: "tracks T tb st"
    using core by (auto simp: heap_core_def)
  obtain t' T' where t': "TreeRemoveKey ?k (h_tree st) = Some (map_option fst (tb_live tb ?k), t')"
    "\<forall>tb' st'. tb_live tb' = (tb_live tb)(?k := None) \<longrightarrow> h_tree st' = t' \<longrightarrow> tracks T' tb' st'"
    using tracks_remove_key [OF T] by blast
  show ?thesis
  proof (cases "tb_live tb ?k")
    case None
    let ?st = "(log_error (Failed_to_reallocate file line) (st\<lparr>h_locked := True, h_tree := t'\<rparr>))\<lparr>h_locked := False\<rparr>"
    have "tb_live (report (Failed_to_reallocate file line) tb) = (tb_live tb)(?k := None)" "h_tree ?st = t'"
      using None by (auto simp: report_def log_error_def)
    then have "tracks T' (report (Failed_to_reallocate file line) tb) ?st"
      using t'(2) by blast
    then have "heap_rel (report (Failed_to_reallocate file line) tb) ?st"
      using core heap_relD(3) [OF assms(1)] False by (auto simp: heap_rel_def heap_core_def report_def log_error_def marked_def live_size_def)
    then show ?thesis
      using myrealloc_unknown [OF unlocked, of p t'] t'(1) None False by (simp add: step_ok_def)
  next
    case (Some e)
    obtain s bs where e: "e = (s, bs)"
      by (cases e)
    have m: "marked st ?k s bs"
      using core Some e by (simp add: heap_core_def)
    have removed: "TreeRemoveKey ?k (h_tree st) = Some (Some s, t')"
      using t'(1) Some e by simp
    have tracks1: "tracks T' ?tb1 (st\<lparr>h_tree := t'\<rparr>)"
      using t'(2) by simp
    note known = myrealloc_known [OF unlocked removed fits m r2]
    define c where "c = h_current_size st + ucast (rounded_word req - word_of_int (se_size s))"
    show ?thesis
    proof (cases r1)
      case None
      let ?st = "log_error Memory_allocation_error (set_size c (st\<lparr>h_locked := True, h_tree := t'\<rparr>))"
      let ?tb = "(report Memory_allocation_error tb)\<lparr>tb_live := (tb_live tb)(?k := None), tb_locked := True\<rparr>"
      have "tracks T' ?tb ?st"
        using t'(2) by (simp add: log_error_def set_size_def)
      then have "heap_rel ?tb ?st"
        using core by (auto simp: heap_rel_def heap_core_def report_def log_error_def marked_def set_size_def)
      then show ?thesis
        using known(1) [OF None] None Some e False by (simp add: step_ok_def c_def)
    next
      case r1: (Some a)
      let ?s = "new_element file line a ?n"
      let ?st = "\<lambda>t''. set_size c (st\<lparr>h_tree := t'', h_locked := False,
        h_blocks := (h_blocks st)(?k := None, a \<mapsto> eyecatcher @ resized ?n bs @ eyecatcher)\<rparr>)"
      let ?tb = "tb\<lparr>tb_live := (tb_live tb)(?k := None, a \<mapsto> (?s, resized ?n bs)), tb_blocks := insert a (tb_blocks tb - {?k})\<rparr>"
      have a: "a \<noteq> 0" "a \<notin> tb_blocks tb - {?k}"
        using assms(2) r1 by simp_all
      have "se_ptr ?s = a"
        by (simp add: new_element_def)
      then obtain r t'' T'' where t'': "TreeAdd ?s (to_int (size_of_element + (uint (rounded_word req) + 2 * int size_of_int - se_size s) -
          int (length (se_file s)) + (int (length file) + 1))) t' = Some (r, t'')"
        "\<forall>tb' st' bs. tb_live tb' = (tb_live ?tb1)(a \<mapsto> (?s, bs)) \<longrightarrow> h_tree st' = t'' \<longrightarrow> tracks T'' tb' st'"
        using tracks_add [OF tracks1] by fastforce
      have "tb_live ?tb = (tb_live ?tb1)(a \<mapsto> (?s, resized ?n bs))" "h_tree (?st t'') = t''"
        by (simp_all add: set_size_def)
      then have "tracks T'' ?tb (?st t'')"
        using t''(2) by blast
      moreover have "?n < 2147483648"
        using roundup_size_eq(5) fits by (simp add: fits_def)
      ultimately have core': "heap_core ?tb (?st t'')"
        using core a(1) by (auto simp: heap_core_def marked_def new_element_def set_size_def)
      have fresh: "tb_live ?tb1 a = None"
        using a(2) live_block [OF core, of a] by (cases "a = ?k") auto
      have "live_size ?tb1 = live_size tb - se_size s"
        using live_size_remove [OF finite_live [OF T] Some [unfolded e]] by simp
      moreover have "live_size ?tb = live_size ?tb1 + int ?n"
        using live_size_add [OF finite_live [OF tracks1] fresh, of ?tb ?s] by (simp add: new_element_def)
      moreover have "ucast (rounded_word req - word_of_int (se_size s)) = (word_of_int (int ?n - se_size s) :: 32 word)"
        by (rule ucast_diff)
      ultimately have "c = word_of_int (live_size ?tb)"
        using heap_relD(3) [OF assms(1) False] unfolding c_def by (simp only: wi_hom_add) (simp add: algebra_simps)
      then have "heap_rel ?tb (?st t'')"
        using core' False by (simp add: heap_rel_def set_size_def)
      then show ?thesis
        using known(2) [OF r1 t''(1)] r1 Some e False by (simp add: step_ok_def c_def)
    qed
  qed
qed

section \<open>Use\<close>

lemma find_step:
  assumes "heap_rel tb st"
  shows "step_ok (Op_find p) tb st"
proof (cases "tb_locked tb")
  case True
  then show ?thesis
    using heap_relD [OF assms] by (simp add: step_ok_def Heap_findItem_def)
next
  case False
  obtain T where T: "tracks T tb st"
    using heap_relD(1) [OF assms] by (auto simp: heap_core_def)
  then obtain q where "TreeFind (block_of p) (h_tree st) = Some q" "map_option fst (tb_live tb (block_of p)) = Option.bind (node (h_tree st) q) n_content"
    using heap_order.remove_ok(3) [of T "h_tree st" "block_of p"] by (auto simp: tracks_def)
  then show ?thesis
    using assms False heap_relD(2) [OF assms] by (simp add: step_ok_def Heap_findItem_def)
qed

lemma access_step:
  assumes "heap_rel tb st"
  shows "honest (Op_read p off n) tb \<Longrightarrow> step_ok (Op_read p off n) tb st"
    "honest (Op_write p off new) tb \<Longrightarrow> step_ok (Op_write p off new) tb st"
proof -
  assume "honest (Op_read p off n) tb"
  then obtain s bs where s: "tb_live tb (block_of p) = Some (s, bs)" "off + n \<le> length bs"
    by (auto split: option.splits)
  then have "h_blocks st (block_of p) = Some (eyecatcher @ bs @ eyecatcher)"
    using heap_relD(1) [OF assms] by (simp add: heap_core_def marked_def)
  then show "step_ok (Op_read p off n) tb st"
    using s assms by (simp add: step_ok_def read_block_def size_of_int_def)
next
  assume "honest (Op_write p off new) tb"
  then obtain s bs where s: "tb_live tb (block_of p) = Some (s, bs)" "off + length new \<le> length bs"
    by (auto split: option.splits)
  note core = heap_relD(1) [OF assms]
  then have b: "h_blocks st (block_of p) = Some (eyecatcher @ bs @ eyecatcher)"
    using s by (simp add: heap_core_def marked_def)
  let ?bs = "take off bs @ new @ drop (off + length new) bs"
  let ?tb = "tb\<lparr>tb_live := (tb_live tb)(block_of p \<mapsto> (s, ?bs))\<rparr>"
  let ?st = "st\<lparr>h_blocks := (h_blocks st)(block_of p \<mapsto> eyecatcher @ ?bs @ eyecatcher)\<rparr>"
  have "write_block (block_of p) (size_of_int + off) new st = Some ?st"
    using b s(2) by (simp add: write_block_def size_of_int_def)
  moreover obtain T where T: "tracks T tb st"
    using core by (auto simp: heap_core_def)
  then have "tracks T ?tb ?st"
    using s(1) by (simp add: tracks_def)
  then have "heap_core ?tb ?st"
    using core s b by (auto simp: heap_core_def marked_def)
  moreover have "live_size ?tb = live_size tb"
    using s(1) unfolding live_size_def by (intro sum.cong) auto
  ultimately show "step_ok (Op_write p off new) tb st"
    using s assms by (simp add: step_ok_def heap_rel_def)
qed

lemma every_step:
  assumes "heap_rel tb st" "honest op tb"
  shows "step_ok op tb st"
  using assms malloc_step realloc_step free_step unlink_step find_step access_step by (cases op) (simp_all del: honest.simps)

lemma heap_run_ok:
  "heap_rel tb st \<Longrightarrow> honest_run ops tb \<Longrightarrow>
   (case table_run ops tb of None \<Rightarrow> heap_run ops st = Some None | Some (rs, tb') \<Rightarrow> \<exists>st'. heap_run ops st = Some (Some (rs, st')) \<and> heap_rel tb' st')"
proof (induction ops arbitrary: tb st)
  case (Cons op ops)
  have s: "step_ok op tb st"
    using Cons.prems by (intro every_step) simp_all
  show ?case
  proof (cases "table_exec op tb")
    case None
    then show ?thesis
      using s by (simp add: step_ok_def)
  next
    case (Some e)
    obtain r tb' where e: "e = (r, tb')"
      by (cases e)
    then obtain st' where st': "heap_exec op st = Some (Some (r, st'))" "heap_rel tb' st'"
      using s Some by (auto simp: step_ok_def)
    have "honest_run ops tb'"
      using Cons.prems(2) Some e by simp
    from Cons.IH [OF st'(2) this] show ?thesis
      using st'(1) Some e by (cases "table_run ops tb'") auto
  qed
qed simp

section \<open>Reports\<close>

lemma HeapScan_loop_visits: "visits t p cs \<Longrightarrow> HeapScan_loop t p = Some cs"
proof (induction cs arbitrary: p)
  case (Cons c cs)
  then obtain a where "TreeNextElement p t = Some (Some a)" "Option.bind (t_nodes t a) n_content = Some c" "visits t (Some a) cs"
    by (auto split: option.splits)
  then show ?case
    using Cons.IH by (subst HeapScan_loop.simps) simp
qed (simp add: HeapScan_loop.simps)

lemma HeapScan_ok:
  assumes "heap_core tb st" "\<not> h_locked st"
  shows "\<exists>l. HeapScan st = Some (Some (l, st)) \<and> sorted_wrt (<) (map se_ptr l) \<and> (\<forall>s. s \<in> set l \<longleftrightarrow> (\<exists>bs. tb_live tb (se_ptr s) = Some (s, bs)))"
proof -
  obtain T where T: "tree_ok ptrCompare se_ptr (<) T (h_tree st)" "\<And>a. map_option fst (map_of (items se_ptr T) a) = map_option fst (tb_live tb a)"
    using assms(1) by (auto simp: heap_core_def tracks_def)
  let ?l = "map (\<lambda>e. fst (snd e)) (entries T)"
  have "visits (h_tree st) None ?l"
    using T(1) by (intro visits_entries) (simp add: tree_ok_def)
  then have "HeapScan st = Some (Some (?l, st))"
    using assms(2) HeapScan_loop_visits by (simp add: HeapScan_def)
  moreover have "sorted_wrt (<) (map se_ptr ?l)"
    using heap_order.sorted_entries [OF T(1)] by (simp add: o_def)
  moreover have "s \<in> set ?l \<longleftrightarrow> (\<exists>bs. tb_live tb (se_ptr s) = Some (s, bs))" for s
  proof -
    have "s \<in> set ?l \<longleftrightarrow> (\<exists>z. (se_ptr s, s, z) \<in> set (items se_ptr T))"
      by (force simp: items_def item_def)
    also have "\<dots> \<longleftrightarrow> (\<exists>z. map_of (items se_ptr T) (se_ptr s) = Some (s, z))"
      using heap_order.distinct_keys [OF T(1)] by simp
    also have "\<dots> \<longleftrightarrow> map_option fst (map_of (items se_ptr T) (se_ptr s)) = Some s"
      by force
    also have "\<dots> \<longleftrightarrow> (\<exists>bs. tb_live tb (se_ptr s) = Some (s, bs))"
      unfolding T(2) by force
    finally show ?thesis .
  qed
  ultimately show ?thesis
    by blast
qed

section \<open>The heap as a whole\<close>

definition heap_start :: heap_state where
  "heap_start = \<lparr>h_tree = TreeInitializeNoMalloc ptrCompare, h_current_size = 0, h_max_size = 0, h_blocks = Map.empty, h_locked = False, h_errors = []\<rparr>"

definition no_items :: heap_table where
  "no_items = \<lparr>tb_live = Map.empty, tb_blocks = {}, tb_locked = False, tb_errors = []\<rparr>"

lemma heap_rel_start: "heap_rel no_items (Heap_initialize heap_start)"
proof -
  have "tracks Lf no_items (Heap_initialize heap_start)"
    by (simp add: tracks_def tree_ok_def items_def no_items_def Heap_initialize_def heap_start_def TreeInitializeNoMalloc_def holds_def fresh_def)
  then show ?thesis
    unfolding heap_rel_def heap_core_def by (auto simp: no_items_def Heap_initialize_def heap_start_def live_size_def)
qed

text \<open>
  C17: the tracked heap keeps exactly the items in use. In every run of allocations, reallocations, releases, searches and accesses inside the items,
  every call is defined, returns what the table of items says, with the contents that the program wrote, and reports the releases and
  reallocations of unknown pointers and no damaged marks. After an allocation that failed, the next call blocks. Otherwise the size in use is that of the
  items, wrapped around, and \<open>HeapScan\<close> lists them in the order of their addresses.
\<close>

theorem heap_tracks_items:
  assumes "honest_run ops no_items"
  shows "case table_run ops no_items of
      None \<Rightarrow> heap_run ops (Heap_initialize heap_start) = Some None
    | Some (rs, tb) \<Rightarrow> \<exists>st. heap_run ops (Heap_initialize heap_start) = Some (Some (rs, st)) \<and> h_errors st = tb_errors tb \<and>
        dom (h_blocks st) = tb_blocks tb \<and> h_locked st = tb_locked tb \<and>
        (\<not> tb_locked tb \<longrightarrow> h_current_size st = word_of_int (live_size tb) \<and>
          (\<exists>l. HeapScan st = Some (Some (l, st)) \<and> sorted_wrt (<) (map se_ptr l) \<and>
            (\<forall>s. s \<in> set l \<longleftrightarrow> (\<exists>bs. tb_live tb (se_ptr s) = Some (s, bs)))))"
proof (cases "table_run ops no_items")
  case None
  then show ?thesis
    using heap_run_ok [OF heap_rel_start assms] by simp
next
  case (Some e)
  obtain rs tb where e: "e = (rs, tb)"
    by (cases e)
  then obtain st where st: "heap_run ops (Heap_initialize heap_start) = Some (Some (rs, st))" "heap_rel tb st"
    using heap_run_ok [OF heap_rel_start assms] Some by auto
  then show ?thesis
    using Some e heap_relD [OF st(2)] HeapScan_ok [of tb st] by (auto simp: heap_core_def)
qed

abbreviation example_ops :: "heap_op list" where
  "example_ops \<equiv> [Op_malloc ''a.c'' 1 10 True True (Some 100), Op_write 104 0 [Some 7, Some 8], Op_malloc ''a.c'' 2 20 True True (Some 50),
     Op_realloc ''b.c'' 3 104 40 (Some 300) True, Op_read 304 0 2, Op_free ''b.c'' 4 104, Op_free ''b.c'' 5 54]"

lemma example_honest: "honest_run example_ops no_items"
  by (simp add: fits_def no_items_def unlinked_def report_def block_of_def size_of_int_def rounded_def resized_def eyecatcher_def)

theorem heap_tracks_items_witness:
  "\<exists>st. heap_run example_ops (Heap_initialize heap_start) =
      Some (Some ([R_pointer (Some 104), R_none, R_pointer (Some 54), R_pointer (Some 304), R_bytes [Some 7, Some 8], R_none, R_none], st)) \<and>
     h_errors st = [Failed_to_remove ''b.c'' 4] \<and> dom (h_blocks st) = {300} \<and> h_current_size st = 48"
proof -
  have d: "dom ((Map.empty :: nat \<rightharpoonup> _)(100 \<mapsto> x, 50 \<mapsto> y, 100 := None, 300 \<mapsto> z, 50 := None)) = {300}" for x y z
    by auto
  show ?thesis
    using heap_tracks_items [OF example_honest]
    by (auto simp: fits_def no_items_def unlinked_def report_def block_of_def size_of_int_def rounded_def resized_def eyecatcher_def live_size_def
      new_element_def d simp del: heap_run.simps)
qed

text \<open>The size of a request is cut to an \<open>int\<close>: a request of four gigabytes and 16 bytes gets a block for 16 bytes.\<close>

theorem request_truncated: "roundup_size (2 ^ 32 + 16) = Some 16"
  by code_simp

text \<open>\<open>HeapDump\<close> takes the size kept in the tree, which includes the bookkeeping, for the number of bytes of the block, and reads past its end.\<close>

theorem HeapDump_overread:
  "case mymalloc ''a.c'' 1 16 True True (Some 100) (Heap_initialize heap_start) of
     Some (Some (_, st)) \<Rightarrow> HeapDump [] st = None
   | _ \<Rightarrow> False"
  by code_simp

end
