(* ===== verification/Mqtt_Select.thy ===== *)
theory Mqtt_Select
  imports Mqtt_Write
begin

text \<open>
  The sockets of the MQTT client library as a set, the rest of \<^verbatim>\<open>Socket.c\<close>: which sockets there are, which of them are ready, opening
  and closing. The results of the system calls are inputs.
\<close>

section \<open>State\<close>

text \<open>
  The sockets in \<open>clientsds\<close> are distinct, so \<open>cur_clientsds\<close>, which points to an element of that list, is given by its socket.
\<close>

datatype select_in = Select_fails | Ready "int set" "int set"

record selector =
  clientsds :: "int list"
  cur_clientsds :: "int option"
  connect_pending :: "int list"
  rset :: "int set"
  wset :: "int set"
  rset_saved :: "int set"
  maxfdp1 :: int
  select_results :: "select_in list"

definition FD_SETSIZE :: int where
  "FD_SETSIZE = 1024"

text \<open>The macros on sets of descriptors have no meaning outside of their size.\<close>

definition FD_SET :: "int \<Rightarrow> int set \<Rightarrow> int set option" where
  "FD_SET fd S = do { _ \<leftarrow> ensure (0 \<le> fd \<and> fd < FD_SETSIZE); Some (insert fd S) }"

definition FD_CLR :: "int \<Rightarrow> int set \<Rightarrow> int set option" where
  "FD_CLR fd S = do { _ \<leftarrow> ensure (0 \<le> fd \<and> fd < FD_SETSIZE); Some (S - {fd}) }"

definition FD_ISSET :: "int \<Rightarrow> int set \<Rightarrow> bool option" where
  "FD_ISSET fd S = do { _ \<leftarrow> ensure (0 \<le> fd \<and> fd < FD_SETSIZE); Some (fd \<in> S) }"

text \<open>
  \<open>select\<close> on descriptors below \<open>n\<close>: an error, or the number of ready descriptors and those of the given sets that are ready to be read
  and to be written. When there are no more results, nothing is ready.
\<close>

definition sys_select :: "int \<Rightarrow> int set \<Rightarrow> int set \<Rightarrow> selector \<Rightarrow> int \<times> int set \<times> int set \<times> selector" where
  "sys_select n rs ws s =
     (case select_results s of
        [] \<Rightarrow> (0, {}, {}, s)
      | Select_fails # rest \<Rightarrow> (SOCKET_ERROR, rs, ws, s\<lparr>select_results := rest\<rparr>)
      | Ready R W # rest \<Rightarrow>
          let R' = Set.filter (\<lambda>fd. fd < n) (rs \<inter> R); W' = Set.filter (\<lambda>fd. fd < n) (ws \<inter> W)
          in (int (card R' + card W'), R', W', s\<lparr>select_results := rest\<rparr>))"

text \<open>\<open>SocketBuffer_initialize\<close> empties the list of unfinished writes too, which is the \<open>writes\<close> of the output side.\<close>

definition Socket_outInitialize :: "selector \<Rightarrow> net \<Rightarrow> selector \<times> net" where
  "Socket_outInitialize s n =
     (s\<lparr>clientsds := [], cur_clientsds := None, connect_pending := [], rset := {}, rset_saved := {}, maxfdp1 := 0\<rparr>,
      (SocketBuffer_initialize n)\<lparr>writes := ([], None), write_pending := ([], None), pending_wset := {}\<rparr>)"

text \<open>\<open>nonblocking\<close> is the result of \<open>Socket_setnonblocking\<close>.\<close>

definition Socket_addSocket :: "int \<Rightarrow> int \<Rightarrow> selector \<Rightarrow> (int \<times> selector) option" where
  "Socket_addSocket newSd nonblocking s =
     (if newSd \<notin> set (clientsds s) then do {
        saved \<leftarrow> FD_SET newSd (rset_saved s);
        Some (nonblocking, s\<lparr>clientsds := clientsds s @ [newSd], rset_saved := saved, maxfdp1 := max (maxfdp1 s) (newSd + 1)\<rparr>)
      }
      else Some (0, s))"

section \<open>Ready sockets\<close>

definition isReady :: "int \<Rightarrow> int set \<Rightarrow> int set \<Rightarrow> selector \<Rightarrow> net \<Rightarrow> (bool \<times> selector \<times> net) option" where
  "isReady socket read_set write_set s n = do {
     w \<leftarrow> FD_ISSET socket write_set;
     r \<leftarrow> FD_ISSET socket read_set;
     if socket \<in> set (connect_pending s) \<and> w
     then Some (True, s\<lparr>connect_pending := remove1 socket (connect_pending s)\<rparr>, n)
     else if r \<and> w then (case Socket_noPendingWrites socket n of (free, n') \<Rightarrow> Some (free, s, n'))
     else Some (False, s, n)
   }"

text \<open>The loops of \<open>Socket_getReadySocket\<close> over the rest of the sockets from \<open>cur_clientsds\<close> on.\<close>

fun ready_scan :: "int list \<Rightarrow> selector \<Rightarrow> net \<Rightarrow> (selector \<times> net) option" where
  "ready_scan [] s n = Some (s\<lparr>cur_clientsds := None\<rparr>, n)"
| "ready_scan (x # xs) s n = do {
     (ready, s', n') \<leftarrow> isReady x (rset s) (wset s) s n;
     if ready then Some (s'\<lparr>cur_clientsds := Some x\<rparr>, n') else ready_scan xs s' n'
   }"

text \<open>The elements of \<open>clientsds\<close> from a pointer on.\<close>

definition sockets_from :: "int option \<Rightarrow> selector \<Rightarrow> int list" where
  "sockets_from p s = (case p of None \<Rightarrow> [] | Some c \<Rightarrow> dropWhile (\<lambda>x. x \<noteq> c) (clientsds s))"

definition next_socket :: "int option \<Rightarrow> selector \<Rightarrow> int option" where
  "next_socket p s = (case sockets_from p s of _ # x # _ \<Rightarrow> Some x | _ \<Rightarrow> None)"

definition take_socket :: "selector \<Rightarrow> int \<times> selector" where
  "take_socket s =
     (case cur_clientsds s of
        None \<Rightarrow> (0, s)
      | Some c \<Rightarrow> (c, s\<lparr>cur_clientsds := next_socket (Some c) s\<rparr>))"

definition Socket_getReadySocket :: "bool \<Rightarrow> selector \<Rightarrow> net \<Rightarrow> (int \<times> selector \<times> net) option" where
  "Socket_getReadySocket cb s n =
     (if clientsds s = [] then Some (0, s, n)
      else do {
        (s1, n1) \<leftarrow> ready_scan (sockets_from (cur_clientsds s) s) s n;
        if cur_clientsds s1 \<noteq> None then (case take_socket s1 of (rc, s2) \<Rightarrow> Some (rc, s2, n1))
        else case sys_select (maxfdp1 s1) (rset_saved s1) (pending_wset n1) s1 of (rc, R, pwset, s2) \<Rightarrow>
          let s3 = s2\<lparr>rset := R\<rparr> in
          if rc = SOCKET_ERROR then Some (rc, s3, n1)
          else do {
            n2 \<leftarrow> Socket_continueWrites pwset cb n1;
            case sys_select (maxfdp1 s3) {} (rset_saved s3) s3 of (rc1, _, W, s4) \<Rightarrow>
              let s5 = s4\<lparr>wset := W\<rparr> in
              if rc1 = SOCKET_ERROR then Some (rc1, s5, n2)
              else if rc = 0 \<and> rc1 = 0 then Some (0, s5, n2)
              else do {
                (s6, n3) \<leftarrow> ready_scan (clientsds s5) s5 n2;
                case take_socket s6 of (rc', s7) \<Rightarrow> Some (rc', s7, n3)
              }
          }
      })"

section \<open>Opening and closing\<close>

definition Socket_addPendingWrite :: "int \<Rightarrow> net \<Rightarrow> net option" where
  "Socket_addPendingWrite socket n = do { S \<leftarrow> FD_SET socket (pending_wset n); Some (n\<lparr>pending_wset := S\<rparr>) }"

definition Socket_clearPendingWrite :: "int \<Rightarrow> net \<Rightarrow> net option" where
  "Socket_clearPendingWrite socket n = do { S \<leftarrow> FD_CLR socket (pending_wset n); Some (n\<lparr>pending_wset := S\<rparr>) }"

text \<open>The loop that looks for the highest socket, which ends with the increment of \<open>maxfdp1\<close>.\<close>

definition highest_socket :: "selector \<Rightarrow> int" where
  "highest_socket s = foldl max 0 (clientsds s) + 1"

text \<open>Shutting down and closing at the operating system, \<open>Socket_close_only\<close>, has no effect on the state.\<close>

definition Socket_close :: "int \<Rightarrow> selector \<Rightarrow> net \<Rightarrow> (selector \<times> net) option" where
  "Socket_close socket s n = do {
     saved \<leftarrow> FD_CLR socket (rset_saved s);
     pending \<leftarrow> FD_CLR socket (pending_wset n);
     let n1 = SocketBuffer_cleanup socket (n\<lparr>pending_wset := pending, write_pending := snd (slist_remove (\<lambda>x. x = socket) (write_pending n))\<rparr>);
     let s1 = s\<lparr>rset_saved := saved, cur_clientsds := (if cur_clientsds s = Some socket then next_socket (Some socket) s else cur_clientsds s),
       connect_pending := remove1 socket (connect_pending s), clientsds := remove1 socket (clientsds s)\<rparr>;
     Some (if socket + 1 \<ge> maxfdp1 s1 then s1\<lparr>maxfdp1 := highest_socket s1\<rparr> else s1, n1)
   }"

text \<open>
  What opening a connection meets: the families of the addresses of the name, or an error code; and whether no socket can be opened, or there is
  a socket, with the result of making it non-blocking and then either the error code for that or the result of \<open>connect\<close>.
\<close>

datatype family = AF_INET | AF_INET6 | Other_family

datatype opened = No_socket int | Opens int int int

text \<open>The first address of version 4 is preferred.\<close>

definition chosen_family :: "family list \<Rightarrow> family option" where
  "chosen_family res = (case dropWhile (\<lambda>f. f \<noteq> AF_INET) res of f # _ \<Rightarrow> Some f | [] \<Rightarrow> (case res of [] \<Rightarrow> None | f # _ \<Rightarrow> Some f))"

definition resolve :: "int + family list \<Rightarrow> int" where
  "resolve r =
     (case r of
        Inl rc \<Rightarrow> rc
      | Inr res \<Rightarrow> (case chosen_family res of Some AF_INET6 \<Rightarrow> 0 | Some AF_INET \<Rightarrow> 0 | _ \<Rightarrow> - 1))"

definition EINPROGRESS :: int where
  "EINPROGRESS = 115"

text \<open>The result is the completion code and the socket.\<close>

definition Socket_new :: "int + family list \<Rightarrow> opened \<Rightarrow> selector \<Rightarrow> (int \<times> int \<times> selector) option" where
  "Socket_new names new s =
     (if resolve names \<noteq> 0 then Some (resolve names, - 1, s)
      else case new of
        No_socket errno \<Rightarrow> Some (errno, - 1, s)
      | Opens fd nonblocking rc \<Rightarrow> do {
          (rc1, s1) \<leftarrow> Socket_addSocket fd nonblocking s;
          if rc1 = SOCKET_ERROR then Some (rc, fd, s1)
          else Some (rc, fd, if rc = EINPROGRESS \<or> rc = EWOULDBLOCK then s1\<lparr>connect_pending := connect_pending s1 @ [fd]\<rparr> else s1)
        })"

section \<open>Every ready socket in its turn\<close>

definition selector_ok :: "selector \<Rightarrow> bool" where
  "selector_ok s \<longleftrightarrow> distinct (clientsds s) \<and> rset_saved s = set (clientsds s) \<and> (\<forall>x \<in> set (clientsds s). 0 \<le> x \<and> x < FD_SETSIZE \<and> x < maxfdp1 s)"

definition ready_in :: "selector \<Rightarrow> net \<Rightarrow> int \<Rightarrow> bool" where
  "ready_in s n x \<longleftrightarrow> x \<in> wset s \<and> (x \<in> set (connect_pending s) \<or> x \<in> rset s \<and> x \<notin> set (fst (write_pending n)))"

definition same_pending :: "net \<Rightarrow> net \<Rightarrow> bool" where
  "same_pending n n' \<longleftrightarrow> w_inv n' \<and> fst (write_pending n') = fst (write_pending n)"

lemma isReady_ok:
  assumes "0 \<le> x" "x < FD_SETSIZE" "w_inv n"
  shows "\<exists>cp n'. isReady x (rset s) (wset s) s n = Some (ready_in s n x, s\<lparr>connect_pending := cp\<rparr>, n') \<and> same_pending n n' \<and>
    (\<forall>y. y \<noteq> x \<longrightarrow> y \<in> set cp \<longleftrightarrow> y \<in> set (connect_pending s)) \<and> (\<not> ready_in s n x \<longrightarrow> cp = connect_pending s)"
proof (cases "x \<in> set (connect_pending s) \<and> x \<in> wset s")
  case True
  moreover have "y \<noteq> x \<Longrightarrow> y \<in> set (remove1 x xs) \<longleftrightarrow> y \<in> set xs" for y and xs :: "int list"
    by (induction xs) auto
  ultimately show ?thesis
    using assms by (intro exI [of _ "remove1 x (connect_pending s)"] exI [of _ n])
      (auto simp: isReady_def FD_ISSET_def ready_in_def same_pending_def)
next
  case False
  let ?n = "snd (Socket_noPendingWrites x n)"
  note free = noPendingWrites_spec [OF assms(3), of x]
  have s: "s\<lparr>connect_pending := connect_pending s\<rparr> = s"
    by simp
  show ?thesis
    using False assms free s
    by (intro exI [of _ "connect_pending s"] exI [of _ "if x \<in> rset s \<and> x \<in> wset s then ?n else n"])
      (auto simp: isReady_def FD_ISSET_def ready_in_def same_pending_def split: prod.split)
qed

lemma ready_scan_ok:
  assumes "\<forall>x \<in> set xs. 0 \<le> x \<and> x < FD_SETSIZE" "w_inv n"
  shows "\<exists>s' n'. ready_scan xs s n = Some (s', n') \<and> same_pending n n' \<and>
    (case filter (ready_in s n) xs of
       [] \<Rightarrow> s' = s\<lparr>cur_clientsds := None\<rparr>
     | x # _ \<Rightarrow> \<exists>cp. s' = s\<lparr>connect_pending := cp, cur_clientsds := Some x\<rparr> \<and> (\<forall>y. y \<noteq> x \<longrightarrow> y \<in> set cp \<longleftrightarrow> y \<in> set (connect_pending s)))"
  using assms
proof (induction xs arbitrary: n)
  case Nil
  then show ?case
    by (simp add: same_pending_def)
next
  case (Cons x xs)
  obtain cp n' where r: "isReady x (rset s) (wset s) s n = Some (ready_in s n x, s\<lparr>connect_pending := cp\<rparr>, n')" "same_pending n n'"
    "\<forall>y. y \<noteq> x \<longrightarrow> y \<in> set cp \<longleftrightarrow> y \<in> set (connect_pending s)" "\<not> ready_in s n x \<longrightarrow> cp = connect_pending s"
    using isReady_ok [of x n s] Cons.prems by auto
  show ?case
  proof (cases "ready_in s n x")
    case True
    then show ?thesis
      using r by auto
  next
    case False
    then have s: "s\<lparr>connect_pending := cp\<rparr> = s"
      using r(4) by simp
    have same: "ready_in s n' = ready_in s n"
      using r(2) by (simp add: ready_in_def same_pending_def fun_eq_iff)
    have "\<exists>s' n''. ready_scan xs s n' = Some (s', n'') \<and> same_pending n' n'' \<and>
      (case filter (ready_in s n) xs of
         [] \<Rightarrow> s' = s\<lparr>cur_clientsds := None\<rparr>
       | x # _ \<Rightarrow> \<exists>cp. s' = s\<lparr>connect_pending := cp, cur_clientsds := Some x\<rparr> \<and> (\<forall>y. y \<noteq> x \<longrightarrow> y \<in> set cp \<longleftrightarrow> y \<in> set (connect_pending s)))"
      using Cons.IH [of n'] Cons.prems(1) r(2) unfolding same by (simp add: same_pending_def)
    then show ?thesis
      using False r(1,2) s by (auto simp: same_pending_def)
  qed
qed

text \<open>Repeated calls.\<close>

fun get_ready :: "nat \<Rightarrow> bool \<Rightarrow> selector \<Rightarrow> net \<Rightarrow> (int list \<times> selector \<times> net) option" where
  "get_ready 0 cb s n = Some ([], s, n)"
| "get_ready (Suc k) cb s n = do {
     (x, s1, n1) \<leftarrow> Socket_getReadySocket cb s n;
     (xs, s2, n2) \<leftarrow> get_ready k cb s1 n1;
     Some (x # xs, s2, n2)
   }"

lemma sockets_from_cong: "clientsds s' = clientsds s \<Longrightarrow> sockets_from p s' = sockets_from p s"
  by (cases p) (simp_all add: sockets_from_def)

lemma sockets_from_member: "clientsds s = us @ x # vs \<Longrightarrow> x \<notin> set us \<Longrightarrow> sockets_from (Some x) s = x # vs"
  by (simp add: sockets_from_def) (metis (mono_tags, lifting) dropWhile_append2 dropWhile.simps(2))

lemma sockets_after:
  assumes "distinct (clientsds s)" "clientsds s = us @ x # vs"
  shows "sockets_from (next_socket (Some x) s) s = vs"
proof -
  have "x \<notin> set us"
    using assms by auto
  then have x: "sockets_from (Some x) s = x # vs"
    using assms(2) by (rule sockets_from_member [rotated])
  show ?thesis
  proof (cases vs)
    case (Cons y ys)
    then have "y \<notin> set (us @ [x])"
      using assms by auto
    moreover have "clientsds s = (us @ [x]) @ y # ys"
      using assms(2) Cons by simp
    ultimately have "sockets_from (Some y) s = y # ys"
      by (intro sockets_from_member)
    then show ?thesis
      using x Cons by (simp add: next_socket_def)
  qed (use x in \<open>simp add: next_socket_def sockets_from_def\<close>)
qed

lemma later_calls:
  assumes "selector_ok s" "w_inv n" "clientsds s = us @ zs" "sockets_from (cur_clientsds s) s = zs"
  shows "\<exists>s' n'. get_ready (length (filter (ready_in s n) zs)) cb s n = Some (filter (ready_in s n) zs, s', n') \<and>
    select_results s' = select_results s \<and> same_pending n n'"
  using assms
proof (induction "length zs" arbitrary: us zs s n rule: less_induct)
  case less
  show ?case
  proof (cases "filter (ready_in s n) zs")
    case Nil
    then show ?thesis
      using less.prems(2) by (simp add: same_pending_def)
  next
    case (Cons x xs)
    then obtain ws vs where zs: "zs = ws @ x # vs" "\<forall>y \<in> set ws. \<not> ready_in s n y" "xs = filter (ready_in s n) vs"
      by (auto simp: filter_eq_Cons_iff)
    have "\<forall>x \<in> set zs. 0 \<le> x \<and> x < FD_SETSIZE"
      using less.prems(1,3) by (simp add: selector_ok_def)
    then obtain s1 n1 cp where r: "ready_scan zs s n = Some (s1, n1)" "same_pending n n1" "s1 = s\<lparr>connect_pending := cp, cur_clientsds := Some x\<rparr>"
      "\<forall>y. y \<noteq> x \<longrightarrow> y \<in> set cp \<longleftrightarrow> y \<in> set (connect_pending s)"
      using ready_scan_ok [of zs n s] less.prems(2) Cons by auto
    let ?s = "s1\<lparr>cur_clientsds := next_socket (Some x) s1\<rparr>"
    have first: "Socket_getReadySocket cb s n = Some (x, ?s, n1)"
      using r(1,3) less.prems(3,4) zs(1) by (simp add: Socket_getReadySocket_def take_socket_def)
    have d: "distinct (clientsds s)"
      using less.prems(1) by (simp add: selector_ok_def)
    have "clientsds s1 = (us @ ws) @ x # vs"
      using less.prems(3) zs(1) r(3) by simp
    moreover have "sockets_from (next_socket (Some x) s1) s1 = vs"
      using sockets_after [of s1 "us @ ws" x vs] calculation d r(3) by simp
    then have "sockets_from (cur_clientsds ?s) ?s = vs"
      using sockets_from_cong [of ?s s1] by simp
    moreover have "selector_ok ?s"
      using less.prems(1) r(3) by (simp add: selector_ok_def)
    moreover have "filter (ready_in ?s n1) vs = xs"
    proof -
      have "x \<notin> set vs"
        using d less.prems(3) zs(1) by simp
      then have "ready_in ?s n1 y = ready_in s n y" if "y \<in> set vs" for y
        using that r(2-4) by (auto simp: ready_in_def same_pending_def)
      then show ?thesis
        unfolding zs(3) by (rule filter_cong [OF refl])
    qed
    ultimately have "\<exists>s' n'. get_ready (length xs) cb ?s n1 = Some (xs, s', n') \<and> select_results s' = select_results ?s \<and> same_pending n1 n'"
      using less.hyps [of vs ?s n1 "us @ ws @ [x]"] zs(1) r(2) by (simp add: same_pending_def)
    then show ?thesis
      using first Cons r(2,3) by (auto simp: same_pending_def)
  qed
qed

text \<open>
  C14: no ready socket is passed over. When the descriptors have been asked, each following call of \<open>Socket_getReadySocket\<close> returns the next
  socket, in the order of the list, that can be read and written and has nothing left to write, or whose connection is now established, and the
  operating system is asked again only when there are no more.
\<close>

theorem ready_sockets_in_turn:
  assumes "selector_ok s" "clientsds s \<noteq> []" "cur_clientsds s = None" "select_results s = Ready R W0 # Ready R0 W # rest"
    "w_inv n" "no_write_error n"
  shows "\<exists>s' n'. let ready = filter (\<lambda>x. x \<in> W \<and> (x \<in> set (connect_pending s) \<or> x \<in> R \<and> x \<notin> set (fst (write_pending n')))) (clientsds s)
    in get_ready (max 1 (length ready)) cb s n = Some (if ready = [] then [0] else ready, s', n') \<and> select_results s' = rest"
proof -
  let ?R = "Set.filter (\<lambda>fd. fd < maxfdp1 s) (rset_saved s \<inter> R)" and ?P = "Set.filter (\<lambda>fd. fd < maxfdp1 s) (pending_wset n \<inter> W0)"
    and ?W = "Set.filter (\<lambda>fd. fd < maxfdp1 s) (rset_saved s \<inter> W)"
  let ?s = "s\<lparr>select_results := rest, rset := ?R, wset := ?W\<rparr>"
  have fd: "\<forall>x \<in> set (clientsds s). 0 \<le> x \<and> x < FD_SETSIZE" and d: "distinct (clientsds s)"
    using assms(1) by (auto simp: selector_ok_def)
  obtain n2 where n2: "Socket_continueWrites ?P cb n = Some n2" "w_inv n2"
    using continueWrites_loop_spec [OF assms(5,6), of "if fst (write_pending n) = [] then None else Some 0" ?P cb]
    unfolding Socket_continueWrites_def by (metis length_greater_0_conv option.inject option.distinct(1))
  have ready: "ready_in ?s n' x \<longleftrightarrow> x \<in> W \<and> (x \<in> set (connect_pending s) \<or> x \<in> R \<and> x \<notin> set (fst (write_pending n')))"
    if "x \<in> set (clientsds s)" for x n'
    using assms(1) that by (auto simp: ready_in_def selector_ok_def)
  obtain s3 n3 where r: "ready_scan (clientsds s) ?s n2 = Some (s3, n3)" "same_pending n2 n3" "case filter (ready_in ?s n2) (clientsds s) of
       [] \<Rightarrow> s3 = ?s\<lparr>cur_clientsds := None\<rparr>
     | x # _ \<Rightarrow> \<exists>cp. s3 = ?s\<lparr>connect_pending := cp, cur_clientsds := Some x\<rparr> \<and> (\<forall>y. y \<noteq> x \<longrightarrow> y \<in> set cp \<longleftrightarrow> y \<in> set (connect_pending ?s))"
    using ready_scan_ok [OF fd n2(2), of ?s] by blast
  have call: "Socket_getReadySocket cb s n =
      (if card ?R + card ?P = 0 \<and> card ?W = 0 then Some (0, ?s, n2) else Some (fst (take_socket s3), snd (take_socket s3), n3))"
  proof -
    have e: "s\<lparr>cur_clientsds := None\<rparr> = s"
      using assms(3) by simp
    have "sockets_from (cur_clientsds s) s = []"
      using assms(3) by (simp add: sockets_from_def)
    moreover have "sys_select (maxfdp1 s) (rset_saved s) (pending_wset n) s = (int (card ?R + card ?P), ?R, ?P, s\<lparr>select_results := Ready R0 W # rest\<rparr>)"
      using assms(4) by (simp add: sys_select_def Let_def)
    moreover have "sys_select (maxfdp1 s) {} (rset_saved s) (s\<lparr>select_results := Ready R0 W # rest, rset := ?R\<rparr>) = (int (card ?W), {}, ?W, s\<lparr>select_results := rest, rset := ?R\<rparr>)"
      by (simp add: sys_select_def Let_def)
    ultimately show ?thesis
      using assms(2,3) n2(1) r(1) unfolding Socket_getReadySocket_def
      by (simp add: Let_def SOCKET_ERROR_def case_prod_beta e)
  qed
  show ?thesis
  proof (cases "filter (ready_in ?s n2) (clientsds s)")
    case Nil
    then have "s3 = ?s"
      using r(3) assms(3) by simp
    moreover have "take_socket ?s = (0, ?s)"
      using assms(3) by (simp add: take_socket_def)
    ultimately have "Socket_getReadySocket cb s n = Some (0, ?s, if card ?R + card ?P = 0 \<and> card ?W = 0 then n2 else n3)"
      unfolding call by simp
    then obtain n' where "get_ready 1 cb s n = Some ([0], ?s, n')" "fst (write_pending n') = fst (write_pending n2)"
      using r(2) by (auto simp: same_pending_def split: if_splits)
    moreover have "filter (\<lambda>x. x \<in> W \<and> (x \<in> set (connect_pending s) \<or> x \<in> R \<and> x \<notin> set (fst (write_pending n')))) (clientsds s) = []"
      unfolding calculation(2) using Nil ready [where n' = n2] by (auto simp: filter_empty_conv)
    ultimately show ?thesis
      unfolding Let_def by (intro exI [of _ ?s] exI [of _ n']) (simp only: list.size max_0R if_True refl simp_thms; simp)
  next
    case (Cons x xs)
    then obtain ws vs where xs: "clientsds s = ws @ x # vs" "\<forall>y \<in> set ws. \<not> ready_in ?s n2 y" "xs = filter (ready_in ?s n2) vs" "ready_in ?s n2 x"
      by (auto simp: filter_eq_Cons_iff)
    obtain cp where s3: "s3 = ?s\<lparr>connect_pending := cp, cur_clientsds := Some x\<rparr>" "\<forall>y. y \<noteq> x \<longrightarrow> y \<in> set cp \<longleftrightarrow> y \<in> set (connect_pending s)"
      using r(3) Cons by auto
    let ?s4 = "s3\<lparr>cur_clientsds := next_socket (Some x) s3\<rparr>"
    have "x \<in> ?W" "finite ?W"
      using xs(1,4) assms(1) by (auto simp: ready_in_def selector_ok_def)
    then have "card ?W \<noteq> 0"
      by auto
    then have first: "Socket_getReadySocket cb s n = Some (x, ?s4, n3)"
      using call s3(1) by (simp add: take_socket_def)
    have "sockets_from (cur_clientsds ?s4) ?s4 = vs"
      using sockets_after [of s3 ws x vs] d xs(1) s3(1) sockets_from_cong [of ?s4 s3] by simp
    moreover have "selector_ok ?s4"
      using assms(1) s3(1) by (simp add: selector_ok_def)
    moreover have "filter (ready_in ?s4 n3) vs = xs"
    proof -
      have "x \<notin> set vs"
        using d xs(1) by simp
      then have "ready_in ?s4 n3 y = ready_in ?s n2 y" if "y \<in> set vs" for y
        using that r(2) s3 by (auto simp: ready_in_def same_pending_def)
      then show ?thesis
        unfolding xs(3) by (rule filter_cong [OF refl])
    qed
    ultimately obtain s' n' where rest: "get_ready (length xs) cb ?s4 n3 = Some (xs, s', n')" "select_results s' = rest" "same_pending n3 n'"
      using later_calls [of ?s4 n3 "ws @ [x]" vs cb] xs(1) s3(1) r(2) by (auto simp: same_pending_def)
    moreover have "filter (\<lambda>x. x \<in> W \<and> (x \<in> set (connect_pending s) \<or> x \<in> R \<and> x \<notin> set (fst (write_pending n')))) (clientsds s) = x # xs"
    proof -
      have "fst (write_pending n') = fst (write_pending n2)"
        using rest(3) r(2) by (simp add: same_pending_def)
      then show ?thesis
        unfolding Cons [symmetric] using ready [where n' = n2] by (intro filter_cong) simp_all
    qed
    ultimately show ?thesis
      using first by (auto simp: Let_def intro!: exI [of _ s'] exI [of _ n'])
  qed
qed

definition demo_selector :: selector where
  "demo_selector = \<lparr>clientsds = [5, 6, 7, 8], cur_clientsds = None, connect_pending = [8], rset = {}, wset = {}, rset_saved = {5, 6, 7, 8},
     maxfdp1 = 9, select_results = [Ready {5, 7} {}, Ready {} {5, 6, 7, 8}]\<rparr>"

theorem ready_sockets_in_turn_witness:
  "\<exists>s' n'. let ready = filter (\<lambda>x. x \<in> {5, 6, 7, 8} \<and> (x \<in> {8} \<or> x \<in> {5, 7} \<and> x \<notin> set (fst (write_pending n')))) [5, 6, 7, 8]
    in get_ready (max 1 (length ready)) True demo_selector demo_net = Some (if ready = [] then [0] else ready, s', n') \<and> select_results s' = []"
proof -
  have ok: "selector_ok demo_selector"
    by (auto simp: selector_ok_def demo_selector_def FD_SETSIZE_def)
  have "clientsds demo_selector = [5, 6, 7, 8]" "connect_pending demo_selector = [8]" "cur_clientsds demo_selector = None"
    "select_results demo_selector = [Ready {5, 7} {}, Ready {} {5, 6, 7, 8}]"
    by (simp_all add: demo_selector_def)
  then show ?thesis
    using ready_sockets_in_turn [OF ok _ _ _ demo_net_facts(1,2), of "{5, 7}" "{}" "{}" "{5, 6, 7, 8}" "[]" True]
    by (simp del: filter.simps get_ready.simps)
qed

section \<open>What a closed socket leaves behind\<close>

text \<open>
  C2: \<open>Socket_close\<close> does not drop the pending write of the socket in \<^verbatim>\<open>SocketBuffer.c\<close>. A packet 1, 2, 3 is sent in part, the socket is
  closed, and the next connection gets the same descriptor. When its packet 7, 8, 9 is sent in part as well, the rest of the
  old packet is sent on the new connection instead of its own, which is lost.
\<close>

theorem stale_write_sent:
  "do { (_, n1) \<leftarrow> Socket_putdatas 5 [1] [[2, 3]] [True] (demo_net\<lparr>net_room := (\<lambda>_. [Room 1, Room 2, Room 10])\<rparr>);
        (s2, n2) \<leftarrow> Socket_close 5 demo_selector n1;
        (_, fd, s3) \<leftarrow> Socket_new (Inr [AF_INET6, AF_INET]) (Opens 5 0 0) s2;
        (_, n3) \<leftarrow> Socket_putdatas fd [7] [[8, 9]] [True] n2;
        n4 \<leftarrow> Socket_continueWrites {fd} False n3;
        Some (fd, net_out n2 fd, drop (length (net_out n2 fd)) (net_out n4 fd), fst (write_pending n4)) } =
   Some (5, [1], [7, 8, 2, 3], [])"
  by (simp add: demo_net_def demo_selector_def Socket_putdatas_def Socket_noPendingWrites_def Socket_writev_def slist_find_def find_index_def
    slist_append_def slist_remove_def SocketBuffer_pendingWrite_def Socket_close_def FD_CLR_def FD_SET_def FD_SETSIZE_def SocketBuffer_cleanup_def new_def_queue_def
    Socket_new_def resolve_def chosen_family_def Socket_addSocket_def socket_codes EINPROGRESS_def highest_socket_def remove_nth_def after_remove_def shift_down_def next_socket_def sockets_from_def
    Socket_continueWrites_def continueWrites_loop_eq Socket_continueWrite_def SocketBuffer_getWrite_def finish_write_def SocketBuffer_writeComplete_def Let_def)

end
