(* ===== verification/Spec2Isabelle.thy ===== *)
theory Spec2Isabelle
  imports Siproxy_Main Telnet_Roundtrip Mqtt_Utf8 Mqtt_Qos Mqtt_Heap_Tracking Mqtt_Select
begin

text \<open>
  A model of siproxy, with the theorems that make it correct.

  \<^bold>\<open>The program.\<close> siproxy couples a GSM modem with a SIP client. The modem hangs on a serial port
  and speaks AT commands; the SIP client (pjsua) offers its console over TELNET; the two phones that
  belong to each other exchange presence, call progress and short messages over MQTT topics. The main
  thread polls the modem and the TELNET socket and turns lines of text into events; callbacks of the
  MQTT library turn messages into events; a second thread takes the events from a queue and runs the
  call state machine, which sends AT commands, console commands and MQTT messages.

  \<^bold>\<open>Theories and sources.\<close>
  \<^item> \<open>Siproxy_Prelude\<close>: machine types, checked memory access, C strings, decimal conversion.
  \<^item> \<open>Match\<close>, \<^verbatim>\<open>match.c\<close>: \<open>matchhere\<close>, \<open>matchstar\<close>, \<open>match\<close>. They decide the language of the pattern,
    given by a separate semantics of patterns.
  \<^item> \<open>MsgQueue\<close>, \<^verbatim>\<open>queue.c\<close>: the queue as linked nodes in a store, with its pool of free nodes,
    its mutex and condition and every error code. The locale \<open>fifo_queue\<close> is the contract of a queue;
    its interpretation on the code's functions gives first-in-first-out order for all runs.
  \<^item> \<open>Telnet_Options\<close>, \<open>Telnet_Environ\<close>, \<open>Telnet_Mssp\<close>, \<open>Telnet_Subneg\<close>, \<open>Telnet_Stream\<close>,
    \<open>Telnet_Roundtrip\<close>, \<^verbatim>\<open>telnet.c\<close>: option negotiation, which refines the Q method of RFC 1143 (the
    locale \<open>option_store\<close> is what the negotiation needs of the option table); the collected
    subnegotiation and its ENVIRON, MSSP, ZMP and TERMINAL-TYPE parsers against reference grammars; the
    byte automaton of \<open>_process\<close>, safe on every input and independent of how the input is cut; the
    sending functions, and that one tracker receives what another sent.
  \<^item> \<open>Rs232\<close>, \<^verbatim>\<open>rs232.c\<close>: terminal attributes bit by bit, opening, reading, writing, control lines.
  \<^item> \<open>Siproxy_World\<close>, \<open>Events\<close>, \<open>Modem\<close>, \<open>Mqtt\<close>, \<open>Sip\<close>, \<open>CallControl\<close>, \<open>Siproxy_Main\<close>, \<^verbatim>\<open>main.c\<close>: the
    program's data; its event tables; the modem's lines, commands and short messages; the MQTT
    callbacks; the console commands and the TELNET event handler; the handlers of the call states;
    initialisation, poll loop, event thread and shutdown. The call control refines an abstract call
    machine and takes exactly the texts of \<open>acceptable_run\<close> without undefined behaviour; presence and subscriptions are right over any number of
    connections, as a broker of the MQTT specification sees them; and every state the whole program can reach satisfies one invariant.
  \<^item> \<open>Mqtt_Utf8\<close>, \<^verbatim>\<open>paho-c/src/utf-8.c\<close>: the UTF-8 check, exact with respect to the encoding of
    Unicode scalar values.
  \<^item> \<open>Mqtt_List\<close>, \<^verbatim>\<open>LinkedList.c\<close>: doubly linked lists in a store of elements; every operation implements its
    counterpart on sequences with a current position (\<open>slist\<close>), which the theories below use for lists.
  \<^item> \<open>Mqtt_Tree\<close>, \<^verbatim>\<open>Tree.c\<close>: red-black trees of nodes with pointers to children and parent, in a store. \<open>Mqtt_Tree_Shape\<close>
    represents a tree in the store as a value with a position in it, \<open>Mqtt_Tree_Add\<close> and \<open>Mqtt_Tree_Remove\<close> show that the
    operations on pointers, with both balancings, compute operations on such values; \<open>Mqtt_Tree_Map\<close> concludes that a tree is a finite map
    (the locale \<open>key_order\<close> is what the code needs of a comparison, interpreted on those of the source), and
    \<open>Mqtt_Tree_Balance\<close> that it stays balanced as long as no key is added twice, and not otherwise.
  \<^item> \<open>Mqtt_Heap\<close>, \<^verbatim>\<open>Heap.c\<close>: the replacements of \<open>malloc\<close>, \<open>realloc\<close> and \<open>free\<close>, with marks around each block and a tree of the items in
    use; \<open>Mqtt_Heap_Tracking\<close> shows that every run implements a table of items with their contents.
  \<^item> \<open>Mqtt_Socket\<close>, \<open>Mqtt_Write\<close>, \<^verbatim>\<open>SocketBuffer.c\<close> and \<^verbatim>\<open>Socket.c\<close>: reading with data kept from interrupted reads,
    writing with the rest of a partial write kept; what is accepted is sent once, whole and in order. \<open>Mqtt_Select\<close> has opening,
    selecting and closing: every ready socket gets its turn, but a closed one leaves its pending write to its successor.
  \<^item> \<open>Mqtt_Packet\<close>, \<open>Mqtt_Send\<close>, \<open>Mqtt_Delivery\<close>, \<^verbatim>\<open>MQTTPacket.c\<close> and \<^verbatim>\<open>MQTTPacketOut.c\<close>: packets read as the
    frames of the byte stream, the sending of every kind of packet, and that what one side sends the other receives; for the packets only a server reads
    there is a reader that follows the MQTT specification.
  \<^item> \<open>Mqtt_Protocol\<close>, \<^verbatim>\<open>MQTTProtocolClient.c\<close> with the functions of \<^verbatim>\<open>MQTTAsync.c\<close>, \<^verbatim>\<open>MQTTProtocolOut.c\<close> and
    \<^verbatim>\<open>MQTTPersistence.c\<close> it needs: publications, messages in flight, handlers, keep-alive and retries.
    \<open>Mqtt_Session\<close> shows that message identifiers are unique, \<open>Mqtt_Handlers\<close> and \<open>Mqtt_Publish\<close> that handlers, publishing
    and retries implement an abstract session, and \<open>Mqtt_Qos\<close> puts two clients at the ends of a lossy connection:
    messages of QoS 2 are delivered exactly once, but the loss of a PUBCOMP is never made good. The locale \<open>flow_laws\<close> lists what an
    invariant of one message's exchange must satisfy to hold in all reachable states; both results interpret it.

  \<^bold>\<open>State.\<close> \<open>Siproxy_World\<close> has one record for everything the threads share: the control structure
  \<open>siproxy\<close>, the event queue, the TELNET tracker, the port and the sockets as the traces of what was
  written to them, and the results of the system calls to come. An operation maps a world to an
  outcome: \<open>Done\<close> with a result and the new world, \<open>Exit\<close> when the program ends, \<open>Wait\<close> when it blocks
  for input that never comes, and \<open>Undefined\<close> when C gives the step no meaning (a NULL pointer, an
  access outside an array, an uninitialised value). The theories of the libraries use \<open>option\<close> in the
  same way. Theorems therefore say both that the code is defined and what it does.

  \<^bold>\<open>Inputs.\<close> Results of \<open>read\<close>, \<open>recv\<close>, \<open>send\<close>, \<open>poll\<close>, \<open>malloc\<close>, of the clock and of the MQTT client
  functions are lists in the state, consumed one by one, and theorems hold for all of them. Loops that
  wait for input recurse over that list, so they need no fuel.

  \<^bold>\<open>Threads.\<close> \<open>siproxy_step\<close> interleaves the poll loop, the event thread and the MQTT callbacks, each
  step handling one poll result, one event or one message. Finer interleavings, where a callback runs
  in the middle of a handler, are not modelled: \<open>main.c\<close> protects only the queue by a mutex.

  \<^bold>\<open>Results.\<close> The invariant of the reachable states, the refinement and the safety of calls
  (no two calls at once, a number is dialled only after it was announced and the SIP side confirmed), the
  order of events, the delivery guarantee of the MQTT library, the round trips of the TELNET and MQTT libraries and the
  safety of their receivers come first.
  A few properties state the opposite: inputs from the peer for which the code is undefined or loses
  data. They are the findings of the manifest.

  \<^bold>\<open>Not modelled.\<close> Console output and log messages, which nothing reads; zlib compression in
  \<^verbatim>\<open>telnet.c\<close>, which the build does not enable. Of the MQTT client library under \<^verbatim>\<open>paho-c\<close>: the application
  interface and the threads of \<^verbatim>\<open>MQTTAsync.c\<close>, the synchronous client \<^verbatim>\<open>MQTTClient.c\<close> and the TLS layer, which siproxy does
  not use, the file store and the copies of queued messages in a store, and threads, logging and tracing. Sizes and counts of trees
  do not overflow, and the mutex of the tracked heap is a flag: a call that finds it set never returns. The
  MQTT results are about the library at both ends of a connection; a broker between them is not part of the repository, and only the few rules of one
  that presence needs are stated, in \<open>Mqtt\<close>.
\<close>

end
